(* ===== verification/Prelude.thy ===== *)
theory Prelude
  imports Main "HOL-Library.Word"
begin

text \<open>
  Vocabulary and lemmas shared by the components: names for the machine integers of the sources,
  the collections of rewrite rules the component proofs are carried by, alignment of 64-bit
  addresses, and small facts on lists.
\<close>

unbundle bit_operations_syntax

section \<open>Machine integers\<close>

type_synonym u8 = "8 word"
type_synonym u32 = "32 word"
type_synonym u64 = "64 word"

named_theorems addr_simps \<open>rules that compute with addresses inside a page\<close>
named_theorems mem_simps \<open>rules that read a byte or a doubleword of an updated memory\<close>
named_theorems layout_defs \<open>constants of the kernel's address-space layout\<close>

section \<open>Alignment\<close>

definition aligned :: "nat \<Rightarrow> u64 \<Rightarrow> bool" where
  "aligned n a \<longleftrightarrow> n dvd unat a"

lemma unat_lt_two64: "unat (a :: u64) < 2 ^ 64"
  using unsigned_less [where 'a = nat, of a] by simp

lemma unat_add_small:
  assumes "unat (a :: u64) + i < 2 ^ 64"
  shows "unat (a + of_nat i) = unat a + i"
  using assms by (simp add: unat_word_ariths unat_of_nat)

lemma dvd_room:
  assumes "(n::nat) dvd m" "n dvd k" "k < m" "i < n"
  shows "k + i < m"
proof -
  obtain c d where cd: "m = n * c" "k = n * d"
    using assms(1,2) by (auto elim!: dvdE)
  from assms(3) have "d < c" using cd by simp
  then have "n * Suc d \<le> n * c" by (intro mult_le_mono2) simp
  with assms(4) cd show ?thesis by simp
qed

lemma aligned_offset:
  assumes "n dvd 2 ^ 64" "aligned n a" "i < n"
  shows "unat (a + of_nat i) = unat a + i"
proof -
  have "unat a + i < 2 ^ 64"
    using dvd_room [OF assms(1) _ unat_lt_two64 assms(3)] assms(2) by (simp add: aligned_def)
  then show ?thesis by (rule unat_add_small)
qed

lemma aligned_offset_div:
  assumes "n dvd 2 ^ 64" "aligned n a" "i < n"
  shows "unat (a + of_nat i) div n = unat a div n"
  using aligned_offset [OF assms] assms(2,3) by (auto simp: aligned_def elim!: dvdE)

lemma aligned_offset_mod:
  assumes "n dvd 2 ^ 64" "aligned n a" "i < n"
  shows "unat (a + of_nat i) mod n = i"
  using aligned_offset [OF assms] assms(2,3) by (auto simp: aligned_def elim!: dvdE)

lemma aligned_offset_inj:
  assumes n: "n dvd 2 ^ 64" and a: "aligned n a" and b: "aligned n b"
    and i: "i < n" and j: "j < n" and eq: "a + of_nat i = b + of_nat j"
  shows "a = b \<and> i = j"
proof -
  have "i = j" using aligned_offset_mod [OF n a i] aligned_offset_mod [OF n b j] eq by simp
  with eq show ?thesis by simp
qed

lemma aligned_add:
  assumes "n dvd 2 ^ 64" "aligned n a" "aligned n b"
  shows "aligned n (a + b)"
  using assms by (simp add: aligned_def unat_word_ariths dvd_mod)

lemma aligned_uint: "aligned n a \<longleftrightarrow> int n dvd uint a"
  unfolding aligned_def uint_nat by (simp only: int_dvd_int_iff)

lemma aligned_diff:
  assumes n: "n dvd 2 ^ 64" and a: "aligned n a" and b: "aligned n b"
  shows "aligned n (a - b)"
proof -
  have "int n dvd int (2 ^ 64)" using n by (simp only: int_dvd_int_iff)
  then have "int n dvd 2 ^ 64" by simp
  moreover have "int n dvd uint a - uint b"
    using a b by (simp add: aligned_uint)
  ultimately show ?thesis
    by (simp add: aligned_uint uint_word_ariths dvd_mod)
qed

section \<open>Tables\<close>

text \<open>
  Table lookups are evaluated without touching the list below the index, which \<open>nth_weak_cong\<close>
  ensures.
\<close>

lemma nth_weak_cong: "n = m \<Longrightarrow> xs ! n = xs ! m" by simp

text \<open>Checks that walk along one or two tables with the index.\<close>

fun all_ix :: "(nat \<Rightarrow> 'a \<Rightarrow> bool) \<Rightarrow> nat \<Rightarrow> 'a list \<Rightarrow> bool" where
  "all_ix P i [] = True"
| "all_ix P i (x # xs) = (P i x \<and> all_ix P (i + 1) xs)"

lemma all_ix_weak_cong: "i = j \<Longrightarrow> all_ix P i xs = all_ix P j xs" by simp

lemma all_ixD: "all_ix P i xs \<Longrightarrow> j < length xs \<Longrightarrow> P (i + j) (xs ! j)"
proof (induction P i xs arbitrary: j rule: all_ix.induct)
  case (2 P i x xs)
  then show ?case by (cases j) auto
qed simp

fun all_ix2 :: "(nat \<Rightarrow> 'a \<Rightarrow> 'b \<Rightarrow> bool) \<Rightarrow> nat \<Rightarrow> 'a list \<Rightarrow> 'b list \<Rightarrow> bool" where
  "all_ix2 P i (x # xs) (y # ys) = (P i x y \<and> all_ix2 P (i + 1) xs ys)"
| "all_ix2 P i [] ys = True"
| "all_ix2 P i (x # xs) [] = True"

lemma all_ix2_weak_cong: "i = j \<Longrightarrow> all_ix2 P i xs ys = all_ix2 P j xs ys" by simp

lemma all_ix2D: "all_ix2 P i xs ys \<Longrightarrow> j < length xs \<Longrightarrow> j < length ys \<Longrightarrow> P (i + j) (xs ! j) (ys ! j)"
proof (induction P i xs ys arbitrary: j rule: all_ix2.induct)
  case (1 P i x xs y ys)
  then show ?case by (cases j) auto
qed auto

end
