(* ===== verification/Phys_Mem.thy ===== *)
theory Phys_Mem
  imports Prelude
begin

text \<open>
  Physical memory of the kernel of \<open>minios/lab10\<close>: the layout constants of
  \<open>arch/riscv/include/defs.h\<close>, bytes and little-endian doublewords, the two kernel windows onto
  physical memory (the identity window and the direct map at \<open>VM_START\<close>), and \<open>memset\<close> of
  \<open>lib/string.c\<close>. Doubleword access is stated as the locale \<open>word_store\<close>, interpreted on
  \<open>ld\<close>/\<open>st\<close>.
\<close>

section \<open>Address-space layout (defs.h)\<close>

definition PHY_START :: u64 where [layout_defs]: "PHY_START = 0x80000000"
definition PHY_SIZE :: u64 where [layout_defs]: "PHY_SIZE = 128 * 1024 * 1024"
definition PHY_END :: u64 where [layout_defs]: "PHY_END = PHY_START + PHY_SIZE"
definition PGSIZE :: u64 where [layout_defs]: "PGSIZE = 0x1000"
definition VM_START :: u64 where [layout_defs]: "VM_START = 0xffffffe000000000"
definition PA2VA_OFFSET :: u64 where [layout_defs]: "PA2VA_OFFSET = VM_START - PHY_START"
definition USER_START :: u64 where [layout_defs]: "USER_START = 0"
definition USER_END :: u64 where [layout_defs]: "USER_END = 0x0000004000000000"

definition PGROUNDUP :: "u64 \<Rightarrow> u64" where
  "PGROUNDUP addr = (addr + PGSIZE - 1) AND NOT (PGSIZE - 1)"

definition PGROUNDDOWN :: "u64 \<Rightarrow> u64" where
  "PGROUNDDOWN addr = addr AND NOT (PGSIZE - 1)"

lemma and_minus_4096: "unat ((a :: u64) AND - 4096) = 4096 * (unat a div 4096)"
proof -
  have "(a :: u64) AND - 4096 = push_bit 12 (drop_bit 12 a)"
  proof -
    have eq: "(- 4096 :: u64) = NOT (mask 12)" by (simp add: mask_eq_exp_minus_1)
    have "a AND NOT (mask 12) = push_bit 12 (drop_bit 12 a)"
      by (rule bit_word_eqI) (auto simp: bit_simps)
    then show ?thesis by (simp only: eq)
  qed
  then have "unat (a AND - 4096) = unat (drop_bit 12 a) * 4096 mod 2 ^ 64"
    by (simp add: push_bit_eq_mult unat_word_ariths)
  also have "unat (drop_bit 12 a) = unat a div 4096"
    by (simp add: drop_bit_eq_div unat_div)
  also have "unat a div 4096 * 4096 mod 2 ^ 64 = unat a div 4096 * 4096"
    using unat_lt_two64 [of a] by simp
  finally show ?thesis by simp
qed

lemma PGROUNDDOWN_unat: "unat (PGROUNDDOWN a) = 4096 * (unat a div 4096)"
  by (simp add: PGROUNDDOWN_def PGSIZE_def and_minus_4096)

lemma PGROUNDDOWN_aligned: "aligned 4096 (PGROUNDDOWN a)"
  by (simp add: aligned_def PGROUNDDOWN_unat)

lemma PGROUNDDOWN_le: "PGROUNDDOWN a \<le> a"
  by (simp add: word_le_nat_alt PGROUNDDOWN_unat mult.commute)

lemma PGROUNDDOWN_id: "aligned 4096 a \<Longrightarrow> PGROUNDDOWN a = a"
  by (rule word_unat_eq_iff [THEN iffD2]) (simp add: PGROUNDDOWN_unat aligned_def)

lemma PGROUNDUP_PGROUNDDOWN: "PGROUNDUP a = PGROUNDDOWN (a + 4095)"
  by (simp add: PGROUNDUP_def PGROUNDDOWN_def PGSIZE_def add_diff_eq [symmetric])

lemma PGROUNDUP_aligned: "aligned 4096 (PGROUNDUP a)"
  by (simp add: PGROUNDUP_PGROUNDDOWN PGROUNDDOWN_aligned)

section \<open>Bytes and doublewords\<close>

type_synonym mem = "u64 \<Rightarrow> u8"

definition load64 :: "mem \<Rightarrow> u64 \<Rightarrow> u64" where
  "load64 m a =
     ucast (m a) OR push_bit 8 (ucast (m (a + 1))) OR push_bit 16 (ucast (m (a + 2))) OR
     push_bit 24 (ucast (m (a + 3))) OR push_bit 32 (ucast (m (a + 4))) OR
     push_bit 40 (ucast (m (a + 5))) OR push_bit 48 (ucast (m (a + 6))) OR
     push_bit 56 (ucast (m (a + 7)))"

definition store64 :: "mem \<Rightarrow> u64 \<Rightarrow> u64 \<Rightarrow> mem" where
  "store64 m a v =
     m(a := ucast v, a + 1 := ucast (drop_bit 8 v), a + 2 := ucast (drop_bit 16 v),
       a + 3 := ucast (drop_bit 24 v), a + 4 := ucast (drop_bit 32 v),
       a + 5 := ucast (drop_bit 40 v), a + 6 := ucast (drop_bit 48 v),
       a + 7 := ucast (drop_bit 56 v))"

lemma load64_store64_same: "load64 (store64 m a v) a = v"
proof (rule bit_word_eqI)
  fix n assume "n < LENGTH(64)"
  define r where "r = n mod 8"
  define q where "q = n div 8"
  have r: "r < 8" and n: "n = 8 * q + r" by (simp_all add: r_def q_def)
  have "q < 8" using \<open>n < LENGTH(64)\<close> by (simp add: q_def)
  then have "q = 0 \<or> q = 1 \<or> q = 2 \<or> q = 3 \<or> q = 4 \<or> q = 5 \<or> q = 6 \<or> q = 7" by linarith
  then consider "n = r" | "n = 8 + r" | "n = 16 + r" | "n = 24 + r" | "n = 32 + r" | "n = 40 + r"
    | "n = 48 + r" | "n = 56 + r"
    using n by auto
  then show "bit (load64 (store64 m a v) a) n = bit v n"
    using r by cases (simp_all add: load64_def store64_def bit_simps)
qed

lemma store64_apply_other:
  assumes "aligned 8 a" "unat b div 8 \<noteq> unat a div 8"
  shows "store64 m a v b = m b"
proof -
  have "b \<noteq> a + of_nat i" if "i < 8" for i
    using aligned_offset_div [of 8 a i] assms that by auto
  from this [of 0] this [of 1] this [of 2] this [of 3] this [of 4] this [of 5] this [of 6]
       this [of 7]
  show ?thesis by (simp add: store64_def)
qed

lemma load64_cong:
  assumes "\<And>i. i < 8 \<Longrightarrow> m (a + of_nat i) = m' (a + of_nat i)"
  shows "load64 m a = load64 m' a"
  using assms [of 0] assms [of 1] assms [of 2] assms [of 3] assms [of 4] assms [of 5]
    assms [of 6] assms [of 7]
  by (simp add: load64_def)

lemma load64_store64_other:
  assumes "aligned 8 a" "aligned 8 b" "a \<noteq> b"
  shows "load64 (store64 m a v) b = load64 m b"
proof (rule load64_cong)
  fix i :: nat assume i: "i < 8"
  have "unat a div 8 \<noteq> unat b div 8"
    using assms by (auto simp: aligned_def word_unat_eq_iff elim!: dvdE)
  then show "store64 m a v (b + of_nat i) = m (b + of_nat i)"
    using store64_apply_other [OF assms(1)] aligned_offset_div [OF _ assms(2) i] by simp
qed

lemma load64_zero: "(\<And>i. i < 8 \<Longrightarrow> m (a + of_nat i) = 0) \<Longrightarrow> load64 m a = 0"
  using load64_cong [of m a "\<lambda>_. 0"] by (simp add: load64_def)

section \<open>The interface of a doubleword store\<close>

text \<open>
  What the kernel's data structures rely on: a doubleword read back is the one last written at
  that address, and other addresses keep theirs. \<open>wrs\<close> is a run of writes.
\<close>

primrec write_all :: "('m \<Rightarrow> u64 \<Rightarrow> u64 \<Rightarrow> 'm) \<Rightarrow> 'm \<Rightarrow> (u64 \<times> u64) list \<Rightarrow> 'm" where
  "write_all wr m [] = m"
| "write_all wr m (w # ws) = write_all wr (wr m (fst w) (snd w)) ws"

locale word_store =
  fixes rd :: "'m \<Rightarrow> u64 \<Rightarrow> u64"
    and wr :: "'m \<Rightarrow> u64 \<Rightarrow> u64 \<Rightarrow> 'm"
    and ok :: "u64 \<Rightarrow> bool"
  assumes rd_wr_same: "ok a \<Longrightarrow> rd (wr m a v) a = v"
    and rd_wr_other: "ok a \<Longrightarrow> ok b \<Longrightarrow> a \<noteq> b \<Longrightarrow> rd (wr m a v) b = rd m b"
begin

lemma rd_wr: "ok a \<Longrightarrow> ok b \<Longrightarrow> rd (wr m a v) b = (if a = b then v else rd m b)"
  by (simp add: rd_wr_same rd_wr_other)

lemma rd_write_all_other:
  assumes "ok a" "\<forall>w \<in> set ws. ok (fst w)" "a \<notin> fst ` set ws"
  shows "rd (write_all wr m ws) a = rd m a"
  using assms by (induction ws arbitrary: m) (auto simp: rd_wr)

lemma rd_write_all_in:
  assumes "\<forall>w \<in> set ws. ok (fst w)" "distinct (map fst ws)" "(a, v) \<in> set ws"
  shows "rd (write_all wr m ws) a = v"
  using assms
proof (induction ws arbitrary: m)
  case (Cons w ws)
  show ?case
  proof (cases "(a, v) \<in> set ws")
    case True
    with Cons show ?thesis by simp
  next
    case False
    with Cons.prems have "w = (a, v)" by auto
    with Cons.prems show ?thesis by (auto simp: rd_write_all_other rd_wr image_iff)
  qed
qed simp

end

interpretation phys: word_store load64 store64 "aligned 8"
  by unfold_locales (simp_all add: load64_store64_same load64_store64_other)

section \<open>The kernel's two windows onto physical memory\<close>

text \<open>
  A kernel pointer is a physical address (the identity window of \<open>setup_vm\<close>) or a direct-map
  address at \<open>VM_START\<close> and above. Theorem \<open>early_pgtbl_translates\<close> of \<open>Page_Table\<close> shows that
  the page table \<open>setup_vm\<close> builds translates both as \<open>pa_of\<close> does.
\<close>

definition pa_of :: "u64 \<Rightarrow> u64" where
  "pa_of a = (if VM_START \<le> a then a - PA2VA_OFFSET else a)"

definition ld :: "mem \<Rightarrow> u64 \<Rightarrow> u64" where
  "ld m a = load64 m (pa_of a)"

definition st :: "mem \<Rightarrow> u64 \<Rightarrow> u64 \<Rightarrow> mem" where
  "st m a v = store64 m (pa_of a) v"

definition kva :: "u64 \<Rightarrow> bool" where
  "kva a \<longleftrightarrow> aligned 8 a \<and> VM_START \<le> a"

lemma aligned_pa_of:
  assumes "n dvd 4096" "aligned n a"
  shows "aligned n (pa_of a)"
proof -
  have n: "n dvd 2 ^ 64" by (rule dvd_trans [OF assms(1)]) simp
  have "aligned n PA2VA_OFFSET"
    by (auto simp: aligned_def layout_defs intro: dvd_trans [OF assms(1)])
  then show ?thesis using assms(2) n by (simp add: pa_of_def aligned_diff)
qed

lemma pa_of_inj: "VM_START \<le> a \<Longrightarrow> VM_START \<le> b \<Longrightarrow> pa_of a = pa_of b \<longleftrightarrow> a = b"
  by (simp add: pa_of_def)

interpretation dmap: word_store ld st kva
proof unfold_locales
  fix a b m v
  show "kva a \<Longrightarrow> ld (st m a v) a = v"
    by (simp add: ld_def st_def load64_store64_same)
  assume "kva a" "kva b" "a \<noteq> b"
  then show "ld (st m a v) b = ld m b"
    by (simp add: ld_def st_def kva_def load64_store64_other aligned_pa_of pa_of_inj)
qed

section \<open>Kernel pages and memset (string.c)\<close>

definition memset :: "mem \<Rightarrow> u64 \<Rightarrow> u8 \<Rightarrow> u64 \<Rightarrow> mem" where
  "memset m dst c n = fold (\<lambda>i m. m(pa_of (dst + of_nat i) := c)) [0..<unat n] m"

definition kpage :: "u64 \<Rightarrow> bool" where
  "kpage p \<longleftrightarrow> aligned 4096 p \<and> VM_START \<le> p \<and> p < VM_START + PHY_SIZE"

definition in_page :: "u64 \<Rightarrow> u64 \<Rightarrow> bool" where
  "in_page p a \<longleftrightarrow> unat (pa_of a) div 4096 = unat (pa_of p) div 4096"

lemma memset_apply:
  "memset m dst c n a = (if a \<in> (\<lambda>i. pa_of (dst + of_nat i)) ` {..<unat n} then c else m a)"
proof -
  have "fold (\<lambda>i m. m(f i := c)) xs m a = (if a \<in> f ` set xs then c else m a)"
    for f :: "nat \<Rightarrow> u64" and xs m
    by (induction xs arbitrary: m) auto
  then show ?thesis by (simp add: memset_def atLeast0LessThan)
qed

lemma kpage_offset:
  assumes "kpage p" "i < 4096"
  shows "VM_START \<le> p + of_nat i" "pa_of (p + of_nat i) = pa_of p + of_nat i"
    "unat (pa_of p + of_nat i) = unat (pa_of p) + i"
proof -
  have al: "aligned 4096 p" "VM_START \<le> p" using assms(1) by (auto simp: kpage_def)
  have "unat (p + of_nat i) = unat p + i"
    by (rule aligned_offset [OF _ al(1) assms(2)]) simp
  then show 1: "VM_START \<le> p + of_nat i" using al(2) by (simp add: word_le_nat_alt)
  then show "pa_of (p + of_nat i) = pa_of p + of_nat i" using al(2) by (simp add: pa_of_def)
  show "unat (pa_of p + of_nat i) = unat (pa_of p) + i"
    by (rule aligned_offset [OF _ aligned_pa_of [OF _ al(1)] assms(2)]) simp_all
qed

lemma aligned_mono: "aligned n a \<Longrightarrow> k dvd n \<Longrightarrow> aligned k a"
  by (auto simp: aligned_def intro: dvd_trans)

lemma memset_page_apply:
  assumes "kpage p"
  shows "memset m p c PGSIZE b = (if unat b div 4096 = unat (pa_of p) div 4096 then c else m b)"
proof -
  have al: "aligned 4096 (pa_of p)"
    using assms by (simp add: kpage_def aligned_pa_of)
  have "(b \<in> (\<lambda>i. pa_of (p + of_nat i)) ` {..<4096}) = (unat b div 4096 = unat (pa_of p) div 4096)"
    (is "?l = ?r")
  proof
    assume ?l
    then obtain i where i: "i < 4096" "b = pa_of p + of_nat i"
      using kpage_offset [OF assms] by auto
    then show ?r using aligned_offset_div [OF _ al i(1)] by simp
  next
    assume r: ?r
    have "unat b = unat (pa_of p) + unat b mod 4096"
      using al r div_mult_mod_eq [of "unat b" 4096] by (auto simp: aligned_def elim!: dvdE)
    then have "b = pa_of p + of_nat (unat b mod 4096)"
      using kpage_offset(3) [OF assms, of "unat b mod 4096"] by (simp add: word_unat_eq_iff)
    then show ?l
      using kpage_offset(2) [OF assms, of "unat b mod 4096"] by (intro image_eqI [of _ _ "unat b mod 4096"]) simp_all
  qed
  then show ?thesis by (simp add: memset_apply PGSIZE_def)
qed

lemma ld_memset:
  assumes p: "kpage p" and a: "kva a"
  shows "ld (memset m p 0 PGSIZE) a = (if in_page p a then 0 else ld m a)"
proof -
  have al: "aligned 8 (pa_of a)" using a by (simp add: kva_def aligned_pa_of)
  have same: "unat (pa_of a + of_nat i) div 4096 = unat (pa_of a) div 4096" if "i < 8" for i
    using arg_cong [OF aligned_offset_div [OF _ al that], of "\<lambda>n. n div 512"]
    by (simp add: div_mult2_eq [symmetric])
  show ?thesis
  proof (cases "in_page p a")
    case True
    then show ?thesis
      by (auto simp: ld_def in_page_def memset_page_apply [OF p] same intro!: load64_zero)
  next
    case False
    then show ?thesis
      by (auto simp: ld_def in_page_def memset_page_apply [OF p] same intro!: load64_cong)
  qed
qed

lemma kva_offset:
  assumes "kpage p" "i < 4096" "8 dvd i"
  shows "kva (p + of_nat i)"
proof -
  have "unat (p + of_nat i) = unat p + i"
    using assms by (intro aligned_offset [of 4096]) (auto simp: kpage_def)
  moreover have "8 dvd unat p"
    using assms(1) aligned_mono [of 4096 p 8] by (simp add: kpage_def aligned_def)
  ultimately show ?thesis
    using assms kpage_offset(1) [OF assms(1,2)] by (simp add: kva_def aligned_def)
qed

lemma in_page_offset:
  assumes "kpage p" "kpage q" "i < 4096"
  shows "in_page q (p + of_nat i) \<longleftrightarrow> p = q"
proof -
  have al: "aligned 4096 (pa_of p)" "aligned 4096 (pa_of q)"
    using assms by (simp_all add: kpage_def aligned_pa_of)
  have "in_page q (p + of_nat i) \<longleftrightarrow> unat (pa_of p) div 4096 = unat (pa_of q) div 4096"
    using aligned_offset_div [OF _ al(1) assms(3)] kpage_offset(2) [OF assms(1,3)]
    by (simp add: in_page_def)
  also have "\<dots> \<longleftrightarrow> pa_of p = pa_of q"
    using al by (auto simp: aligned_def word_unat_eq_iff elim!: dvdE)
  finally show ?thesis using assms by (simp add: kpage_def pa_of_inj)
qed

lemma kpage_offset_eq:
  assumes "kpage p" "kpage q" "i < 4096" "j < 4096"
  shows "p + of_nat i = q + of_nat j \<longleftrightarrow> p = q \<and> i = j"
  using aligned_offset_inj [of 4096 p q i j] assms by (auto simp: kpage_def)

text \<open>The same facts for fields at numeral offsets, as the structure accesses of the code have them.\<close>

lemma kva_base [addr_simps]: "kpage p \<Longrightarrow> kva p"
  using kva_offset [of p 0] by simp

lemma kva_field [addr_simps]:
  "kpage p \<Longrightarrow> numeral k < (4096::nat) \<Longrightarrow> 8 dvd (numeral k :: nat) \<Longrightarrow> kva (p + numeral k)"
  using kva_offset [of p "numeral k"] by simp

lemma in_page_base [addr_simps]: "kpage p \<Longrightarrow> kpage q \<Longrightarrow> in_page q p \<longleftrightarrow> p = q"
  using in_page_offset [of p q 0] by simp

lemma in_page_field [addr_simps]:
  "kpage p \<Longrightarrow> kpage q \<Longrightarrow> numeral k < (4096::nat) \<Longrightarrow> in_page q (p + numeral k) \<longleftrightarrow> p = q"
  using in_page_offset [of p q "numeral k"] by simp

lemma field_eq_field [addr_simps]:
  "kpage p \<Longrightarrow> kpage q \<Longrightarrow> numeral k < (4096::nat) \<Longrightarrow> numeral l < (4096::nat) \<Longrightarrow>
     p + numeral k = q + numeral l \<longleftrightarrow> p = q \<and> (numeral k :: nat) = numeral l"
  using kpage_offset_eq [of p q "numeral k" "numeral l"] by simp

lemma field_eq_base [addr_simps]:
  "kpage p \<Longrightarrow> kpage q \<Longrightarrow> numeral k < (4096::nat) \<Longrightarrow> p + numeral k \<noteq> q"
  using kpage_offset_eq [of p q "numeral k" 0] by simp

lemma base_eq_field [addr_simps]:
  "kpage p \<Longrightarrow> kpage q \<Longrightarrow> numeral k < (4096::nat) \<Longrightarrow> q \<noteq> p + numeral k"
  using field_eq_base by metis

lemma kpage_nonzero [addr_simps]: "kpage p \<Longrightarrow> p \<noteq> 0"
  by (auto simp: kpage_def layout_defs)

lemmas ld_simps [mem_simps] = dmap.rd_wr ld_memset

end
