(* ===== verification/Kalloc.thy ===== *)
theory Kalloc
  imports Phys_Mem
begin

text \<open>
  The page allocator of \<open>arch/riscv/kernel/mm.c\<close>: a singly linked list of free pages threaded
  through the first doubleword of each page. \<open>free_pages\<close> is the list a state holds;
  the locale \<open>page_allocator\<close> is what the other kernel components rely on.
\<close>

section \<open>The allocator's state and operations\<close>

text \<open>
  \<open>kmem.freelist\<close> and the memory. \<open>None\<close> is the null dereference of \<open>kalloc\<close> on an empty list:
  the code reads \<open>r->next\<close> without testing \<open>r\<close>.
\<close>

record kstate =
  kmem :: mem
  freelist :: u64

definition kalloc :: "'z kstate_scheme \<Rightarrow> (u64 \<times> 'z kstate_scheme) option" where
  "kalloc s =
     (let r = freelist s in
      if r = 0 then None
      else
        let s = s\<lparr>freelist := ld (kmem s) r\<rparr>;
            s = s\<lparr>kmem := memset (kmem s) r 0 PGSIZE\<rparr>
        in Some (r, s))"

definition kfree :: "'z kstate_scheme \<Rightarrow> u64 \<Rightarrow> 'z kstate_scheme" where
  "kfree s addr =
     (let addr = addr AND NOT (PGSIZE - 1);
          s = s\<lparr>kmem := memset (kmem s) addr 0 PGSIZE\<rparr>;
          r = addr;
          s = s\<lparr>kmem := st (kmem s) r (freelist s)\<rparr>
      in s\<lparr>freelist := r\<rparr>)"

text \<open>The loop of \<open>kfreerange\<close>; \<open>None\<close> when it does not end (the address wraps).\<close>

partial_function (option) kfreerange_loop ::
    "'z kstate_scheme \<Rightarrow> u64 \<Rightarrow> u64 \<Rightarrow> 'z kstate_scheme option" where
  "kfreerange_loop s addr e =
     (if addr + PGSIZE \<le> e then kfreerange_loop (kfree s addr) (addr + PGSIZE) e else Some s)"

definition kfreerange :: "'z kstate_scheme \<Rightarrow> u64 \<Rightarrow> u64 \<Rightarrow> 'z kstate_scheme option" where
  "kfreerange s start e = kfreerange_loop s (PGROUNDUP start) e"

definition mm_init :: "u64 \<Rightarrow> 'z kstate_scheme \<Rightarrow> 'z kstate_scheme option" where
  "mm_init end_sym s = kfreerange s end_sym (VM_START + PHY_SIZE)"

section \<open>The list of free pages\<close>

text \<open>\<open>chain m p ps\<close>: following \<open>next\<close> from \<open>p\<close> visits the pages \<open>ps\<close> and ends in a null pointer.\<close>

fun chain :: "mem \<Rightarrow> u64 \<Rightarrow> u64 list \<Rightarrow> bool" where
  "chain m p [] \<longleftrightarrow> p = 0"
| "chain m p (q # qs) \<longleftrightarrow> p = q \<and> chain m (ld m p) qs"

definition free_pages :: "'z kstate_scheme \<Rightarrow> u64 list \<Rightarrow> bool" where
  "free_pages s ps \<longleftrightarrow>
     chain (kmem s) (freelist s) ps \<and> distinct ps \<and> (\<forall>p \<in> set ps. kpage p)"

lemma chain_cong:
  assumes "\<And>p. p \<in> set ps \<Longrightarrow> ld m' p = ld m p"
  shows "chain m' p ps = chain m p ps"
  using assms by (induction ps arbitrary: p) auto

lemma chain_unique: "chain m p ps \<Longrightarrow> chain m p qs \<Longrightarrow> 0 \<notin> set ps \<union> set qs \<Longrightarrow> ps = qs"
proof (induction ps arbitrary: p qs)
  case Nil
  then show ?case by (cases qs) auto
next
  case (Cons a ps)
  then show ?case by (cases qs) auto
qed

lemma free_pages_frame:
  assumes "free_pages s ps" "freelist s' = freelist s"
    and "\<And>p. p \<in> set ps \<Longrightarrow> ld (kmem s') p = ld (kmem s) p"
  shows "free_pages s' ps"
  using assms chain_cong [of ps "kmem s'" "kmem s"] by (simp add: free_pages_def)

lemma kfree_addr: "kpage p \<Longrightarrow> p AND NOT (PGSIZE - 1) = p"
  using PGROUNDDOWN_id [of p] by (simp add: kpage_def PGROUNDDOWN_def)

lemma kalloc_cases:
  assumes "free_pages s ps"
  shows "(ps = [] \<and> kalloc s = None) \<or>
    (\<exists>p qs s'. ps = p # qs \<and> kalloc s = Some (p, s') \<and> freelist s' = ld (kmem s) p \<and>
       s' = s\<lparr>freelist := ld (kmem s) p, kmem := memset (kmem s) p 0 PGSIZE\<rparr>)"
  using assms by (cases ps) (auto simp: free_pages_def kalloc_def kpage_nonzero)

lemma kalloc_free_pages:
  assumes fp: "free_pages s (p # qs)"
  shows "\<exists>s'. kalloc s = Some (p, s') \<and> free_pages s' qs \<and> kpage p \<and> p \<notin> set qs \<and>
    (\<forall>a. kva a \<longrightarrow> ld (kmem s') a = (if in_page p a then 0 else ld (kmem s) a)) \<and>
    kstate.more s' = kstate.more s"
proof -
  define s' where "s' = s\<lparr>freelist := ld (kmem s) p, kmem := memset (kmem s) p 0 PGSIZE\<rparr>"
  from fp have p: "freelist s = p" "kpage p" "p \<notin> set qs" "\<forall>q \<in> set qs. kpage q" "distinct qs"
    and ch: "chain (kmem s) (ld (kmem s) p) qs"
    by (auto simp: free_pages_def)
  have k: "kalloc s = Some (p, s')"
    using p by (simp add: kalloc_def s'_def kpage_nonzero)
  have rd: "\<forall>a. kva a \<longrightarrow> ld (kmem s') a = (if in_page p a then 0 else ld (kmem s) a)"
    using p(2) by (simp add: s'_def ld_memset)
  have same: "ld (kmem s') q = ld (kmem s) q" if "q \<in> set qs" for q
  proof -
    have "kpage q" "q \<noteq> p" using that p by auto
    then show ?thesis using rd p(2) by (simp add: addr_simps)
  qed
  have "freelist s' = ld (kmem s) p" by (simp add: s'_def)
  then have "free_pages s' qs"
    using ch p same chain_cong [of qs "kmem s'" "kmem s"] by (simp add: free_pages_def)
  moreover have "kstate.more s' = kstate.more s" by (simp add: s'_def)
  ultimately show ?thesis using k p rd by blast
qed

lemma kfree_free_pages:
  assumes fp: "free_pages s ps" and p: "kpage p" "p \<notin> set ps"
  shows "free_pages (kfree s p) (p # ps)"
    and "kva a \<Longrightarrow> ld (kmem (kfree s p)) a =
      (if a = p then freelist s else if in_page p a then 0 else ld (kmem s) a)"
    and "kstate.more (kfree s p) = kstate.more s"
proof -
  show rd: "ld (kmem (kfree s p)) a =
      (if a = p then freelist s else if in_page p a then 0 else ld (kmem s) a)" if "kva a" for a
    using p that by (simp add: kfree_def kfree_addr Let_def mem_simps addr_simps)
  have fl: "freelist (kfree s p) = p"
    using p by (simp add: kfree_def kfree_addr Let_def)
  have same: "ld (kmem (kfree s p)) q = ld (kmem s) q" if "q \<in> set ps" for q
  proof -
    have "kpage q" "q \<noteq> p" using that fp p by (auto simp: free_pages_def)
    then show ?thesis using rd [of q] p(1) by (simp add: addr_simps)
  qed
  have "ld (kmem (kfree s p)) p = freelist s" using rd [of p] p(1) by (simp add: addr_simps)
  then show "free_pages (kfree s p) (p # ps)"
    using fl fp p same chain_cong [of ps "kmem (kfree s p)" "kmem s"] by (simp add: free_pages_def)
  show "kstate.more (kfree s p) = kstate.more s"
    by (simp add: kfree_def Let_def)
qed

section \<open>The interface of a page allocator\<close>

primrec alloc_n :: "('s \<Rightarrow> (u64 \<times> 's) option) \<Rightarrow> nat \<Rightarrow> 's \<Rightarrow> (u64 list \<times> 's) option" where
  "alloc_n alloc 0 s = Some ([], s)"
| "alloc_n alloc (Suc n) s =
     (case alloc s of None \<Rightarrow> None
      | Some (p, s') \<Rightarrow>
          (case alloc_n alloc n s' of None \<Rightarrow> None | Some (ps, s'') \<Rightarrow> Some (p # ps, s'')))"

locale page_allocator =
  fixes alloc :: "'s \<Rightarrow> (u64 \<times> 's) option"
    and free :: "'s \<Rightarrow> u64 \<Rightarrow> 's"
    and rd :: "'s \<Rightarrow> u64 \<Rightarrow> u64"
    and avail :: "'s \<Rightarrow> u64 list \<Rightarrow> bool"
  assumes avail_pages: "avail s ps \<Longrightarrow> distinct ps \<and> (\<forall>p \<in> set ps. kpage p)"
    and alloc_empty: "avail s [] \<Longrightarrow> alloc s = None"
    and alloc_page: "avail s (p # qs) \<Longrightarrow>
      \<exists>s'. alloc s = Some (p, s') \<and> avail s' qs \<and>
        (\<forall>a. kva a \<longrightarrow> rd s' a = (if in_page p a then 0 else rd s a))"
    and free_page: "avail s ps \<Longrightarrow> kpage p \<Longrightarrow> p \<notin> set ps \<Longrightarrow> avail (free s p) (p # ps)"
    and free_frame: "avail s ps \<Longrightarrow> kpage p \<Longrightarrow> p \<notin> set ps \<Longrightarrow> kva a \<Longrightarrow> \<not> in_page p a \<Longrightarrow>
      rd (free s p) a = rd s a"
begin

lemma alloc_after_free:
  assumes "avail s ps" "kpage p" "p \<notin> set ps"
  shows "\<exists>s'. alloc (free s p) = Some (p, s') \<and> avail s' ps \<and>
    (\<forall>a. kva a \<longrightarrow> rd s' a = (if in_page p a then 0 else rd s a))"
proof -
  obtain s' where "alloc (free s p) = Some (p, s')" "avail s' ps"
    and "\<forall>a. kva a \<longrightarrow> rd s' a = (if in_page p a then 0 else rd (free s p) a)"
    using alloc_page [OF free_page [OF assms]] by blast
  then show ?thesis using free_frame [OF assms] by auto
qed

lemma alloc_n_pages:
  assumes "avail s ps" "n \<le> length ps"
  shows "\<exists>s'. alloc_n alloc n s = Some (take n ps, s') \<and> avail s' (drop n ps) \<and>
    (\<forall>a. kva a \<longrightarrow> rd s' a = (if \<exists>p \<in> set (take n ps). in_page p a then 0 else rd s a))"
  using assms
proof (induction n arbitrary: s ps)
  case 0
  then show ?case by simp
next
  case (Suc n)
  then obtain p qs where ps: "ps = p # qs" and n: "n \<le> length qs" by (cases ps) auto
  obtain s1 where s1: "alloc s = Some (p, s1)" "avail s1 qs"
    and r1: "\<forall>a. kva a \<longrightarrow> rd s1 a = (if in_page p a then 0 else rd s a)"
    using alloc_page Suc.prems(1) ps by blast
  from Suc.IH [OF s1(2) n] obtain s2 where s2: "alloc_n alloc n s1 = Some (take n qs, s2)"
    "avail s2 (drop n qs)"
    and r2: "\<forall>a. kva a \<longrightarrow> rd s2 a = (if \<exists>p \<in> set (take n qs). in_page p a then 0 else rd s1 a)"
    by blast
  have "\<forall>a. kva a \<longrightarrow> rd s2 a = (if \<exists>p \<in> set (take (Suc n) ps). in_page p a then 0 else rd s a)"
    using r1 r2 by (auto simp: ps)
  then show ?case using s1 s2 by (simp add: ps)
qed

lemma alloc_n_too_many:
  assumes "avail s ps" "length ps < n"
  shows "alloc_n alloc n s = None"
  using assms
proof (induction n arbitrary: s ps)
  case (Suc n)
  show ?case
  proof (cases ps)
    case Nil
    with Suc.prems show ?thesis by (simp add: alloc_empty)
  next
    case (Cons p qs)
    then obtain s1 where "alloc s = Some (p, s1)" "avail s1 qs"
      using alloc_page Suc.prems(1) by blast
    with Suc Cons show ?thesis by simp
  qed
qed simp

end

interpretation pg: page_allocator kalloc kfree "\<lambda>s. ld (kmem s)" free_pages
proof unfold_locales
  fix s :: "'z kstate_scheme" and ps p qs a
  show "free_pages s ps \<Longrightarrow> distinct ps \<and> (\<forall>p \<in> set ps. kpage p)"
    by (simp add: free_pages_def)
  show "free_pages s [] \<Longrightarrow> kalloc s = None"
    using kalloc_cases [of s "[]"] by simp
  show "free_pages s (p # qs) \<Longrightarrow> \<exists>s'. kalloc s = Some (p, s') \<and> free_pages s' qs \<and>
      (\<forall>a. kva a \<longrightarrow> ld (kmem s') a = (if in_page p a then 0 else ld (kmem s) a))"
    using kalloc_free_pages by blast
  assume *: "free_pages s ps" "kpage p" "p \<notin> set ps"
  show "free_pages (kfree s p) (p # ps)" using * by (rule kfree_free_pages)
  assume a: "kva a" "\<not> in_page p a"
  then have "a \<noteq> p" using *(2) by (auto simp: addr_simps)
  then show "ld (kmem (kfree s p)) a = ld (kmem s) a"
    using kfree_free_pages(2) [OF * a(1)] a by simp
qed

section \<open>Initialisation\<close>

definition pages_from :: "u64 \<Rightarrow> nat \<Rightarrow> u64 list" where
  "pages_from a n = map (\<lambda>i. a + of_nat (4096 * i)) [0..<n]"

lemma pages_from_Suc: "pages_from a (Suc n) = a # pages_from (a + PGSIZE) n"
  by (simp add: pages_from_def PGSIZE_def upt_conv_Cons map_Suc_upt [symmetric] algebra_simps
      del: upt_Suc)

lemma kfreerange_loop_pages:
  assumes "free_pages s ps" "set (pages_from a n) \<inter> set ps = {}"
    and "\<forall>p \<in> set (pages_from a n). kpage p" "distinct (pages_from a n)"
    and "unat a + 4096 * n \<le> unat e" "unat e < unat a + 4096 * Suc n" "unat e + 4096 < 2 ^ 64"
  shows "\<exists>s'. kfreerange_loop s a e = Some s' \<and> free_pages s' (rev (pages_from a n) @ ps) \<and>
    kstate.more s' = kstate.more s"
  using assms
proof (induction n arbitrary: s a ps)
  case 0
  have "unat (a + PGSIZE) = unat a + 4096"
    using 0 unat_add_small [of a 4096] by (simp add: PGSIZE_def)
  then have "\<not> a + PGSIZE \<le> e" using 0 by (simp add: word_le_nat_alt)
  then show ?case using 0 by (simp add: kfreerange_loop.simps pages_from_def)
next
  case (Suc n)
  have na: "unat (a + PGSIZE) = unat a + 4096"
    using Suc.prems unat_add_small [of a 4096] by (simp add: PGSIZE_def)
  then have le: "a + PGSIZE \<le> e" using Suc.prems by (simp add: word_le_nat_alt)
  have a: "kpage a" "a \<notin> set ps" using Suc.prems by (auto simp: pages_from_Suc)
  have fp: "free_pages (kfree s a) (a # ps)" using Suc.prems(1) a by (rule kfree_free_pages)
  obtain s' where "kfreerange_loop (kfree s a) (a + PGSIZE) e = Some s'"
    "free_pages s' (rev (pages_from (a + PGSIZE) n) @ a # ps)"
    "kstate.more s' = kstate.more (kfree s a)"
    using Suc.IH [OF fp, of "a + PGSIZE"] Suc.prems na by (auto simp: pages_from_Suc)
  moreover have "kstate.more (kfree s a) = kstate.more s"
    using Suc.prems(1) a by (rule kfree_free_pages)
  ultimately show ?case using le by (simp add: kfreerange_loop.simps [of s] pages_from_Suc)
qed

abbreviation ram_end :: u64 where
  "ram_end \<equiv> VM_START + PHY_SIZE"

lemma unat_ram_end: "unat ram_end = 0xffffffe008000000"
  by (simp add: layout_defs)

lemma PGROUNDUP_unat:
  assumes "e \<le> ram_end"
  shows "unat (PGROUNDUP e) = 4096 * ((unat e + 4095) div 4096)"
proof -
  have "unat e \<le> 0xffffffe008000000" using assms unat_ram_end by (simp add: word_le_nat_alt)
  then have "unat (e + 4095) = unat e + 4095" using unat_add_small [of e 4095] by simp
  then show ?thesis by (simp add: PGROUNDUP_PGROUNDDOWN PGROUNDDOWN_unat)
qed

lemma aligned_le_iff:
  assumes "(4096::nat) dvd b"
  shows "4096 * ((a + 4095) div 4096) \<le> b \<longleftrightarrow> a \<le> b"
  using assms by (auto elim!: dvdE)

text \<open>The pages between a page-aligned address and the end of RAM.\<close>

lemma unat_page_from:
  assumes "unat (a :: u64) + 4096 * n = unat ram_end" "i < n"
  shows "unat (a + of_nat (4096 * i)) = unat a + 4096 * i"
proof (rule unat_add_small)
  show "unat a + 4096 * i < 2 ^ 64" using assms unat_lt_two64 [of ram_end] by simp
qed

lemma set_pages_from:
  assumes al: "aligned 4096 a" and lo: "VM_START \<le> a" and n: "unat a + 4096 * n = unat ram_end"
  shows "set (pages_from a n) = {p. kpage p \<and> a \<le> p}" "distinct (pages_from a n)"
proof -
  note u = unat_page_from [OF n]
  show "set (pages_from a n) = {p. kpage p \<and> a \<le> p}"
  proof (intro set_eqI iffI)
    fix p assume "p \<in> set (pages_from a n)"
    then obtain i where i: "i < n" "p = a + of_nat (4096 * i)" by (auto simp: pages_from_def)
    have "unat p = unat a + 4096 * i" using u [OF i(1)] i(2) by simp
    then show "p \<in> {p. kpage p \<and> a \<le> p}"
      using al lo n i(1) by (simp add: kpage_def aligned_def word_le_nat_alt word_less_nat_alt)
  next
    fix p assume "p \<in> {p. kpage p \<and> a \<le> p}"
    then have p: "4096 dvd unat p" "unat a \<le> unat p" "unat p < unat ram_end"
      by (auto simp: kpage_def aligned_def word_le_nat_alt word_less_nat_alt)
    define i where "i = (unat p - unat a) div 4096"
    have i: "unat p = unat a + 4096 * i" "i < n"
      using p al n by (auto simp: i_def aligned_def elim!: dvdE)
    then have "p = a + of_nat (4096 * i)" using u [OF i(2)] by (simp add: word_unat_eq_iff)
    with i(2) show "p \<in> set (pages_from a n)" by (auto simp: pages_from_def)
  qed
  have "inj_on (\<lambda>i. a + of_nat (4096 * i)) {..<n}"
  proof (rule inj_onI)
    fix i j assume ij: "i \<in> {..<n}" "j \<in> {..<n}" "a + of_nat (4096 * i) = a + of_nat (4096 * j)"
    then show "i = j" using u [of i] u [of j] by simp
  qed
  then show "distinct (pages_from a n)" by (simp add: pages_from_def distinct_map atLeast0LessThan)
qed

lemma mm_init_pages:
  assumes e: "VM_START \<le> e" "e \<le> ram_end" and s: "freelist s = 0"
  shows "\<exists>s' ps. mm_init e s = Some s' \<and> free_pages s' ps \<and> set ps = {p. kpage p \<and> e \<le> p} \<and>
    kstate.more s' = kstate.more s"
proof -
  define a where "a = PGROUNDUP e"
  define n where "n = (unat ram_end - unat a) div 4096"
  have ua: "unat a = 4096 * ((unat e + 4095) div 4096)"
    using e(2) by (simp add: a_def PGROUNDUP_unat)
  have al: "aligned 4096 a" by (simp add: a_def PGROUNDUP_aligned)
  have ge: "e \<le> a" using aligned_le_iff [of "unat a" "unat e"] ua by (simp add: word_le_nat_alt)
  have re: "4096 dvd unat ram_end" by (simp add: unat_ram_end)
  then have ale: "unat a \<le> unat ram_end"
    using e(2) aligned_le_iff [OF re, of "unat e"] by (simp only: ua word_le_nat_alt)
  have "4096 dvd unat ram_end - unat a"
    using re al by (simp only: aligned_def dvd_diff_nat)
  then have n: "unat a + 4096 * n = unat ram_end"
    using ale by (simp only: n_def dvd_mult_div_cancel le_add_diff_inverse)
  have lo: "VM_START \<le> a" using e(1) ge by simp
  note pages = set_pages_from [OF al lo n]
  have fp: "free_pages s []" by (simp add: free_pages_def s)
  have "unat ram_end < unat a + 4096 * Suc n" "unat ram_end + 4096 < 2 ^ 64"
    unfolding n [symmetric] by (simp, simp add: n unat_ram_end)
  moreover have "\<forall>p \<in> set (pages_from a n). kpage p" by (simp add: pages(1))
  ultimately obtain s' where s': "kfreerange_loop s a ram_end = Some s'"
    "free_pages s' (rev (pages_from a n))" "kstate.more s' = kstate.more s"
    using kfreerange_loop_pages [OF fp _ _ pages(2), of ram_end] n by auto
  have "set (rev (pages_from a n)) = {p. kpage p \<and> e \<le> p}"
  proof -
    have "a \<le> p \<longleftrightarrow> e \<le> p" if "kpage p" for p
      using that ua aligned_le_iff [of "unat p" "unat e"]
      by (simp add: word_le_nat_alt kpage_def aligned_def)
    then show ?thesis using pages(1) by auto
  qed
  then show ?thesis using s' by (auto simp: mm_init_def kfreerange_def a_def)
qed

section \<open>Properties\<close>

definition one_page_state :: kstate where
  "one_page_state = \<lparr>kmem = (\<lambda>_. 0), freelist = VM_START + 0x1000\<rparr>"

lemma load64_zero_mem: "load64 (\<lambda>_. 0) a = 0"
  by (simp add: load64_def)

lemma kpage_example: "kpage (VM_START + 0x1000)" "kpage (VM_START + 0x2000)"
  by (simp_all add: kpage_def aligned_def layout_defs)

lemma one_page_state_free: "free_pages one_page_state [VM_START + 0x1000]"
  using kpage_example by (simp add: one_page_state_def free_pages_def ld_def load64_zero_mem)

text \<open>
  \<open>kfree\<close> of a page in use puts it in front of the free list, and the next \<open>kalloc\<close> returns it
  again, zeroed, with every other doubleword of memory as it was.
\<close>

theorem kfree_kalloc_roundtrip:
  assumes "free_pages s ps" "kpage p" "p \<notin> set ps"
  shows "free_pages (kfree s p) (p # ps) \<and>
    (\<exists>s'. kalloc (kfree s p) = Some (p, s') \<and> free_pages s' ps \<and>
      (\<forall>a. kva a \<longrightarrow> ld (kmem s') a = (if in_page p a then 0 else ld (kmem s) a)))"
  using pg.free_page [OF assms] pg.alloc_after_free [OF assms] by blast

text \<open>
  \<open>mm_init\<close>, run at boot with an empty free list, ends and leaves exactly the whole pages between
  the end of the kernel image and the end of the 128 MB of RAM on the free list.
\<close>

theorem mm_init_frees_ram:
  assumes "VM_START \<le> end_sym" "end_sym \<le> VM_START + PHY_SIZE" "freelist s = 0"
  shows "\<exists>s' ps. mm_init end_sym s = Some s' \<and> free_pages s' ps \<and>
    set ps = {p. kpage p \<and> end_sym \<le> p}"
  using mm_init_pages [OF assms] by blast

text \<open>
  C7: after \<open>mm_init\<close>, any number of calls of \<open>kalloc\<close> up to the number of free pages succeeds and
  returns pairwise distinct pages above the kernel image, all zero; one call more dereferences the
  null list head, because \<open>kalloc\<close> does not test for an empty list.
\<close>

theorem boot_allocations:
  assumes "VM_START \<le> end_sym" "end_sym \<le> VM_START + PHY_SIZE" "freelist s = 0"
  shows "\<exists>s1. mm_init end_sym s = Some s1 \<and>
    (\<forall>n. if n \<le> card {p. kpage p \<and> end_sym \<le> p}
      then \<exists>ps s2. alloc_n kalloc n s1 = Some (ps, s2) \<and> length ps = n \<and> distinct ps \<and>
        (\<forall>p \<in> set ps. kpage p \<and> end_sym \<le> p \<and> (\<forall>a. kva a \<longrightarrow> in_page p a \<longrightarrow> ld (kmem s2) a = 0))
      else alloc_n kalloc n s1 = None)"
proof -
  obtain s1 ps where s1: "mm_init end_sym s = Some s1" and fp: "free_pages s1 ps"
    and ps: "set ps = {p. kpage p \<and> end_sym \<le> p}"
    using mm_init_pages [OF assms] by blast
  have d: "distinct ps" using fp by (simp add: free_pages_def)
  then have card: "card {p. kpage p \<and> end_sym \<le> p} = length ps"
    by (simp add: distinct_card flip: ps)
  have yes: "\<exists>qs s2. alloc_n kalloc n s1 = Some (qs, s2) \<and> length qs = n \<and> distinct qs \<and>
      (\<forall>p \<in> set qs. kpage p \<and> end_sym \<le> p \<and> (\<forall>a. kva a \<longrightarrow> in_page p a \<longrightarrow> ld (kmem s2) a = 0))"
    if n: "n \<le> length ps" for n
  proof -
    obtain s2 where s2: "alloc_n kalloc n s1 = Some (take n ps, s2)"
      and z: "\<forall>a. kva a \<longrightarrow>
        ld (kmem s2) a = (if \<exists>p \<in> set (take n ps). in_page p a then 0 else ld (kmem s1) a)"
      using pg.alloc_n_pages [OF fp n] by blast
    have "\<forall>p \<in> set (take n ps). kpage p \<and> end_sym \<le> p"
      using ps set_take_subset [of n ps] by auto
    then show ?thesis using s2 z n d by auto
  qed
  show ?thesis
    using s1 yes pg.alloc_n_too_many [OF fp] by (auto simp: card)
qed

theorem boot_allocations_witness:
  "\<exists>s1 p s2. mm_init (VM_START + 0x300000) (\<lparr>kmem = (\<lambda>_. 0), freelist = 0\<rparr> :: kstate) = Some s1 \<and>
     alloc_n kalloc 1 s1 = Some ([p], s2) \<and> kpage p \<and> VM_START + 0x300000 \<le> p"
proof -
  let ?e = "VM_START + 0x300000"
  have e: "VM_START \<le> ?e" "?e \<le> VM_START + PHY_SIZE" "kpage ?e"
    by (simp_all add: kpage_def aligned_def layout_defs)
  then have "0 < card {p. kpage p \<and> ?e \<le> p}" by (auto simp: card_gt_0_iff)
  then have "1 \<le> card {p. kpage p \<and> ?e \<le> p}" by simp
  moreover obtain s1 where s1: "mm_init ?e (\<lparr>kmem = (\<lambda>_. 0), freelist = 0\<rparr> :: kstate) = Some s1"
    and al: "\<forall>n. if n \<le> card {p. kpage p \<and> ?e \<le> p}
      then \<exists>ps s2. alloc_n kalloc n s1 = Some (ps, s2) \<and> length ps = n \<and> distinct ps \<and>
        (\<forall>p \<in> set ps. kpage p \<and> ?e \<le> p \<and> (\<forall>a. kva a \<longrightarrow> in_page p a \<longrightarrow> ld (kmem s2) a = 0))
      else alloc_n kalloc n s1 = None"
    using boot_allocations [OF e(1,2), of "\<lparr>kmem = (\<lambda>_. 0), freelist = 0\<rparr>"] by auto
  ultimately obtain ps s2 where "alloc_n kalloc 1 s1 = Some (ps, s2)" "length ps = 1"
    "\<forall>p \<in> set ps. kpage p \<and> ?e \<le> p"
    using spec [OF al, of 1] by auto
  moreover then obtain p where "ps = [p]" by (auto simp: length_Suc_conv)
  ultimately show ?thesis using s1 by auto
qed

end
