(* ===== verification/Page_Table.thy ===== *)
theory Page_Table
  imports Kalloc
begin

text \<open>
  Virtual memory of \<open>arch/riscv/kernel/vm.c\<close>: the early page table of \<open>setup_vm\<close>, the three-level
  page tables built by \<open>create_mapping\<close> and the kernel map of \<open>setup_vm_final\<close>. The reference is the
  Sv39 walk of the RISC-V privileged architecture (\<open>sv39_walk\<close>).
\<close>

section \<open>The code\<close>

text \<open>
  \<open>setup_vm\<close> writes two entries of \<open>early_pgtbl\<close>, which it addresses before the MMU is on.
\<close>

definition setup_vm :: "mem \<Rightarrow> u64 \<Rightarrow> mem" where
  "setup_vm m early_pgtbl =
     (let PA = 0x80000000;
          VA1 = PA;
          VA2 = 0xffffffe000000000;
          PPN = drop_bit 12 PA;
          index1 = drop_bit 30 VA1 AND 0x1ff;
          index2 = drop_bit 30 VA2 AND 0x1ff;
          m = store64 m (early_pgtbl + 8 * index1) (push_bit 10 PPN OR 0xf)
      in store64 m (early_pgtbl + 8 * index2) (push_bit 10 PPN OR 0xf))"

definition user_perm :: "u32 \<Rightarrow> bool" where
  "user_perm perm \<longleftrightarrow> perm = 31 \<or> perm = 23"

text \<open>
  The step from one table to the next, which \<open>create_mapping\<close> spells out twice: follow a valid
  entry, or allocate a table, link it and, for user permissions, set the U bit. The result is the
  physical address of the next table.
\<close>

definition next_table :: "'z kstate_scheme \<Rightarrow> u64 \<Rightarrow> u64 \<Rightarrow> u32 \<Rightarrow> (u64 \<times> 'z kstate_scheme) option" where
  "next_table s pgtbl vpn perm =
     (if ld (kmem s) (pgtbl + 8 * vpn) AND 1 \<noteq> 0
      then Some (push_bit 12 (drop_bit 10 (ld (kmem s) (pgtbl + 8 * vpn))), s)
      else
        (case kalloc s of None \<Rightarrow> None
         | Some (page, s) \<Rightarrow>
             let pgtbl' = page - PA2VA_OFFSET;
                 s = s\<lparr>kmem := st (kmem s) (pgtbl + 8 * vpn) (push_bit 10 (drop_bit 12 pgtbl') OR 1)\<rparr>;
                 s = (if user_perm perm
                      then s\<lparr>kmem := st (kmem s) (pgtbl + 8 * vpn)
                             (ld (kmem s) (pgtbl + 8 * vpn) OR 0x10)\<rparr>
                      else s)
             in Some (pgtbl', s)))"

text \<open>One iteration of the loop of \<open>create_mapping\<close>.\<close>

definition create_mapping_body ::
    "'z kstate_scheme \<Rightarrow> u64 \<Rightarrow> u64 \<Rightarrow> u64 \<Rightarrow> u32 \<Rightarrow> 'z kstate_scheme option" where
  "create_mapping_body s pgtbl va pa perm =
     (let vpn2 = drop_bit 30 va AND 0x1ff in
      case next_table s pgtbl vpn2 perm of None \<Rightarrow> None
      | Some (pgtbl1, s) \<Rightarrow>
          let vpn1 = drop_bit 21 va AND 0x1ff;
              pgtbl1 = (if user_perm perm then pgtbl1 + PA2VA_OFFSET else pgtbl1) in
          (case next_table s pgtbl1 vpn1 perm of None \<Rightarrow> None
           | Some (pgtbl0, s) \<Rightarrow>
               let vpn0 = drop_bit 12 va AND 0x1ff;
                   pgtbl0 = (if user_perm perm then pgtbl0 + PA2VA_OFFSET else pgtbl0) in
               if ld (kmem s) (pgtbl0 + 8 * vpn0) AND 1 = 0
               then Some (s\<lparr>kmem := st (kmem s) (pgtbl0 + 8 * vpn0)
                              (push_bit 10 (drop_bit 12 pa) OR scast perm)\<rparr>)
               else Some s))"

partial_function (option) create_mapping_loop ::
    "'z kstate_scheme \<Rightarrow> u64 \<Rightarrow> u64 \<Rightarrow> u64 \<Rightarrow> u64 \<Rightarrow> u32 \<Rightarrow> 'z kstate_scheme option" where
  "create_mapping_loop s pgtbl va va_end pa perm =
     (if va < va_end
      then Option.bind (create_mapping_body s pgtbl va pa perm)
             (\<lambda>s. create_mapping_loop s pgtbl (va + PGSIZE) va_end (pa + PGSIZE) perm)
      else Some s)"

definition create_mapping ::
    "'z kstate_scheme \<Rightarrow> u64 \<Rightarrow> u64 \<Rightarrow> u64 \<Rightarrow> u64 \<Rightarrow> u32 \<Rightarrow> 'z kstate_scheme option" where
  "create_mapping s pgtbl va pa sz perm = create_mapping_loop s pgtbl va (va + sz) pa perm"

text \<open>The linker symbols \<open>setup_vm_final\<close> refers to (\<open>vmlinux.lds\<close>).\<close>

record kernel_symbols =
  stext :: u64
  etext :: u64
  srodata :: u64
  erodata :: u64
  sdata :: u64
  swapper_pg_dir :: u64

text \<open>The state after \<open>setup_vm_final\<close> and the value it writes to \<open>satp\<close>.\<close>

definition setup_vm_final ::
    "kernel_symbols \<Rightarrow> 'z kstate_scheme \<Rightarrow> (u64 \<times> 'z kstate_scheme) option" where
  "setup_vm_final k s =
     (let s = s\<lparr>kmem := memset (kmem s) (swapper_pg_dir k) 0 PGSIZE\<rparr> in
      Option.bind (create_mapping s (swapper_pg_dir k) (stext k) (stext k - PA2VA_OFFSET)
                     (etext k - stext k) 11) (\<lambda>s.
      Option.bind (create_mapping s (swapper_pg_dir k) (srodata k) (srodata k - PA2VA_OFFSET)
                     (erodata k - srodata k) 3) (\<lambda>s.
      Option.bind (create_mapping s (swapper_pg_dir k) (sdata k) (sdata k - PA2VA_OFFSET)
                     (PHY_END + PA2VA_OFFSET - sdata k) 7) (\<lambda>s.
      Some (drop_bit 12 (swapper_pg_dir k - PA2VA_OFFSET) OR 0x8000000000000000, s)))))"

section \<open>The Sv39 walk\<close>

definition pte :: "mem \<Rightarrow> u64 \<Rightarrow> u64 \<Rightarrow> u64" where
  "pte m T i = load64 m (T + 8 * i)"

definition pte_next :: "u64 \<Rightarrow> u64" where
  "pte_next e = push_bit 12 (drop_bit 10 e)"

definition vpn :: "nat \<Rightarrow> u64 \<Rightarrow> u64" where
  "vpn l va = drop_bit (12 + 9 * l) va AND 0x1ff"

text \<open>
  The walk from the table at physical address \<open>T\<close> at level \<open>l\<close>: the entry must be valid; an entry
  with R or X set is a leaf (a superpage above level 0), any other points to the next table.
  The result is the level and the leaf entry.
\<close>

fun sv39_from :: "mem \<Rightarrow> nat \<Rightarrow> u64 \<Rightarrow> u64 \<Rightarrow> (nat \<times> u64) option" where
  "sv39_from m l T va =
     (let e = pte m T (vpn l va) in
      if e AND 1 = 0 then None
      else if e AND 0xa \<noteq> 0 then Some (l, e)
      else (case l of 0 \<Rightarrow> None | Suc l' \<Rightarrow> sv39_from m l' (pte_next e) va))"

definition sv39_walk :: "mem \<Rightarrow> u64 \<Rightarrow> u64 \<Rightarrow> (nat \<times> u64) option" where
  "sv39_walk m root va = sv39_from m 2 root va"

definition sv39_translate :: "mem \<Rightarrow> u64 \<Rightarrow> u64 \<Rightarrow> u64 option" where
  "sv39_translate m root va =
     (case sv39_walk m root va of None \<Rightarrow> None
      | Some (l, e) \<Rightarrow>
          Some ((pte_next e AND NOT (mask (12 + 9 * l))) OR (va AND mask (12 + 9 * l))))"

declare sv39_from.simps [simp del]

section \<open>Slots of table pages\<close>

definition ppage :: "u64 \<Rightarrow> bool" where
  "ppage T \<longleftrightarrow> aligned 4096 T \<and> PHY_START \<le> T \<and> T < PHY_END"

lemma ppage_unat: "ppage T \<Longrightarrow> unat T < 0x88000000 \<and> 0x80000000 \<le> unat T"
  by (simp add: ppage_def word_le_nat_alt word_less_nat_alt layout_defs)

lemma kpage_ppage: "kpage p \<Longrightarrow> ppage (pa_of p)"
proof -
  assume p: "kpage p"
  then have b: "0xffffffe000000000 \<le> unat p" "unat p < 0xffffffe008000000"
    by (simp_all add: kpage_def word_le_nat_alt word_less_nat_alt layout_defs)
  have "unat (pa_of p) = unat p - 0xffffffdf80000000"
    using p b by (simp add: pa_of_def kpage_def layout_defs unat_sub word_le_nat_alt)
  then have "0x80000000 \<le> unat (pa_of p)" "unat (pa_of p) < 0x88000000"
    using b by linarith+
  then show ?thesis
    using p by (simp add: ppage_def kpage_def aligned_pa_of word_le_nat_alt word_less_nat_alt layout_defs)
qed

lemma slot_of_nat: "T + 8 * (i :: u64) = T + of_nat (8 * unat i)"
  by simp

lemma index_offset:
  assumes "(i :: u64) < 512"
  shows "8 * unat i < 4096"
  using assms by (simp add: word_less_nat_alt)

lemma slot_unat:
  assumes "ppage T" "i < 512"
  shows "unat (T + 8 * i) = unat T + 8 * unat i"
proof -
  have "unat (T + of_nat (8 * unat i)) = unat T + 8 * unat i"
    using index_offset [OF assms(2)] assms(1) by (intro aligned_offset [of 4096]) (auto simp: ppage_def)
  then show ?thesis by (simp only: slot_of_nat)
qed

lemma slot_aligned: "ppage T \<Longrightarrow> i < 512 \<Longrightarrow> aligned 8 (T + 8 * i)"
  using slot_unat [of T i] aligned_mono [of 4096 T 8] by (simp add: ppage_def aligned_def)

lemma slot_eq:
  assumes "ppage T" "ppage T'" "i < 512" "i' < 512"
  shows "T + 8 * i = T' + 8 * i' \<longleftrightarrow> T = T' \<and> i = i'"
proof
  assume "T + 8 * i = T' + 8 * i'"
  then have "T + of_nat (8 * unat i) = T' + of_nat (8 * unat i')" by (simp only: slot_of_nat)
  then have "T = T' \<and> 8 * unat i = 8 * unat i'"
    using assms(1,2) index_offset [OF assms(3)] index_offset [OF assms(4)]
    by (intro aligned_offset_inj [of 4096]) (auto simp: ppage_def)
  then show "T = T' \<and> i = i'" by (auto simp: word_unat_eq_iff)
qed simp

lemma pte_store:
  assumes "ppage T" "ppage T'" "i < 512" "i' < 512"
  shows "pte (store64 m (T + 8 * i) v) T' i' = (if T = T' \<and> i = i' then v else pte m T' i')"
  using assms by (simp add: pte_def phys.rd_wr slot_aligned slot_eq)

text \<open>A table may be addressed through either window; both reach the same slot.\<close>

lemma pa_of_ppage: "ppage T \<Longrightarrow> i < 512 \<Longrightarrow> pa_of (T + 8 * i) = T + 8 * i"
  using slot_unat [of T i] ppage_unat [of T]
  by (simp add: pa_of_def word_le_nat_alt word_less_nat_alt layout_defs)

lemma unat_dmap: "ppage T \<Longrightarrow> unat (T + PA2VA_OFFSET) = unat T + 0xffffffdf80000000"
  using ppage_unat [of T] unat_add_small [of T "0xffffffdf80000000"] by (simp add: layout_defs)

lemma kpage_dmap: "ppage T \<Longrightarrow> kpage (T + PA2VA_OFFSET)"
proof -
  assume T: "ppage T"
  have "aligned 4096 (T + PA2VA_OFFSET)"
    using T by (intro aligned_add) (auto simp: ppage_def aligned_def layout_defs)
  then show ?thesis
    using unat_dmap [OF T] ppage_unat [OF T]
    by (simp add: kpage_def word_le_nat_alt word_less_nat_alt layout_defs)
qed

lemma pa_of_dmap: "ppage T \<Longrightarrow> pa_of (T + PA2VA_OFFSET) = T"
  using kpage_dmap [of T] by (simp add: pa_of_def kpage_def)

lemma pa_of_kpage_slot:
  assumes "kpage p" "i < 512"
  shows "pa_of (p + 8 * i) = pa_of p + 8 * i"
  using kpage_offset(2) [OF assms(1) index_offset [OF assms(2)]] by (simp only: slot_of_nat)

lemma vpn_bound: "vpn l va < 512"
proof -
  have "vpn l va \<le> 0x1ff" by (simp add: vpn_def word_and_le1)
  then show ?thesis by (simp add: word_le_nat_alt word_less_nat_alt)
qed

section \<open>Table trees\<close>

definition nxt :: "mem \<Rightarrow> u64 \<Rightarrow> u64 \<Rightarrow> u64 option" where
  "nxt m T i = (if pte m T i AND 1 = 0 then None else Some (pte_next (pte m T i)))"

fun tab :: "mem \<Rightarrow> u64 \<Rightarrow> u64 list \<Rightarrow> u64 option" where
  "tab m T [] = Some T"
| "tab m T (i # is) = (case nxt m T i of None \<Rightarrow> None | Some T' \<Rightarrow> tab m T' is)"

definition vpath :: "u64 list \<Rightarrow> bool" where
  "vpath p \<longleftrightarrow> length p \<le> 2 \<and> (\<forall>i \<in> set p. i < 512)"

definition leaf :: "mem \<Rightarrow> u64 \<Rightarrow> u64 list \<Rightarrow> u64 \<Rightarrow> u64" where
  "leaf m root p i = (case tab m root p of None \<Rightarrow> 0 | Some T \<Rightarrow> pte m T i)"

text \<open>
  The tables reached from the root are pages of RAM, none of them free; different paths lead to
  different tables; entries of the upper two levels are pointers, not superpages.
\<close>

definition pt_inv :: "mem \<Rightarrow> u64 \<Rightarrow> u64 set \<Rightarrow> bool" where
  "pt_inv m root fr \<longleftrightarrow>
     (\<forall>p T. vpath p \<longrightarrow> tab m root p = Some T \<longrightarrow> ppage T \<and> T \<notin> fr) \<and>
     (\<forall>p q T. vpath p \<longrightarrow> vpath q \<longrightarrow> tab m root p = Some T \<longrightarrow> tab m root q = Some T \<longrightarrow> p = q) \<and>
     (\<forall>p T i. vpath p \<longrightarrow> length p < 2 \<longrightarrow> tab m root p = Some T \<longrightarrow> i < 512 \<longrightarrow>
        pte m T i AND 1 \<noteq> 0 \<longrightarrow> pte m T i AND 0xe = 0)"

lemma vpath_cases:
  assumes "vpath p"
  obtains "p = []" | i where "p = [i]" "i < 512" | i j where "p = [i, j]" "i < 512" "j < 512"
proof -
  consider "p = []" | i where "p = [i]" | i j where "p = [i, j]"
    using assms by (cases p rule: remdups_adj.cases) (auto simp: vpath_def Suc_le_eq)
  then show ?thesis using assms that by cases (auto simp: vpath_def)
qed

lemma tab_snoc: "tab m T (p @ [i]) = (case tab m T p of None \<Rightarrow> None | Some T' \<Rightarrow> nxt m T' i)"
  by (induction p arbitrary: T) (auto split: option.splits)

lemma tab_agree:
  assumes "vpath p"
    and "\<And>q T i. vpath q \<Longrightarrow> length q < 2 \<Longrightarrow> tab m root q = Some T \<Longrightarrow> i < 512 \<Longrightarrow>
      pte m' T i = pte m T i"
  shows "tab m' root p = tab m root p"
proof -
  have r: "pte m' root i = pte m root i" if "i < 512" for i
    using assms(2) [of "[]"] that by (simp add: vpath_def)
  have t: "pte m' T j = pte m T j" if "i < 512" "j < 512" "nxt m root i = Some T" for i j T
    using assms(2) [of "[i]"] that by (simp add: vpath_def)
  show ?thesis
    using assms(1) by (cases rule: vpath_cases) (auto simp: nxt_def r t split: option.splits if_splits)
qed

section \<open>Linking a new table\<close>

lemma aligned_low_bits:
  assumes "aligned 4096 K" "n < 12"
  shows "\<not> bit K n"
proof -
  have "unat (take_bit 12 K) = take_bit 12 (unat K)" by (simp add: unsigned_take_bit_eq)
  also have "\<dots> = 0" using assms(1) by (simp add: take_bit_eq_mod aligned_def)
  finally have "take_bit 12 K = 0" by (simp add: word_unat_eq_iff)
  then have "\<not> bit (take_bit 12 K) n" by simp
  then show ?thesis using assms(2) by (simp add: bit_take_bit_iff)
qed

lemma small_high_bits:
  assumes "unat (K :: 'a::len word) < 2 ^ k" "k \<le> n"
  shows "\<not> bit K n"
proof -
  have "unat (take_bit k K) = take_bit k (unat K)" by (simp add: unsigned_take_bit_eq)
  also have "\<dots> = unat K" using assms(1) by (simp add: take_bit_eq_mod)
  finally have "take_bit k K = K" by (simp add: word_unat_eq_iff)
  then have "bit K n = bit (take_bit k K) n" by simp
  then show ?thesis using assms(2) by (simp add: bit_take_bit_iff)
qed

lemma pte_link:
  assumes K: "ppage K" and fl: "(fl :: u64) = 1 \<or> fl = 0x11"
  shows "pte_next (push_bit 10 (drop_bit 12 K) OR fl) = K"
    "(push_bit 10 (drop_bit 12 K) OR fl) AND 1 \<noteq> 0"
    "(push_bit 10 (drop_bit 12 K) OR fl) AND 0xe = 0"
proof -
  have lo: "\<not> bit K n" if "n < 12" for n using K that by (simp add: ppage_def aligned_low_bits)
  have hi: "\<not> bit K n" if "32 \<le> n" for n
    using ppage_unat [OF K] that by (intro small_high_bits [where k = 32]) auto
  have fl_hi: "\<not> bit fl n" if "5 \<le> n" for n
    using fl that by (intro small_high_bits [where k = 5]) auto
  show "pte_next (push_bit 10 (drop_bit 12 K) OR fl) = K"
  proof (rule bit_word_eqI)
    fix n assume "n < LENGTH(64)"
    then show "bit (pte_next (push_bit 10 (drop_bit 12 K) OR fl)) n = bit K n"
      using lo [of n] hi [of n] fl_hi [of "n - 2"]
      by (cases "n < 12"; cases "n < 32") (auto simp: pte_next_def bit_simps fl_hi)
  qed
  have "bit fl 0" using fl by auto
  then have "bit ((push_bit 10 (drop_bit 12 K) OR fl) AND 1) 0" by (simp add: bit_simps)
  then show "(push_bit 10 (drop_bit 12 K) OR fl) AND 1 \<noteq> 0" by auto
  have 0: "push_bit 10 (drop_bit 12 K) AND 0xe = 0"
  proof (rule bit_word_eqI)
    fix n
    show "bit (push_bit 10 (drop_bit 12 K) AND 0xe) n = bit (0 :: u64) n"
      using small_high_bits [of "0xe :: u64" 4 n] by (cases "n < 4") (auto simp: bit_simps)
  qed
  have "fl AND 0xe = 0" using fl by auto
  then show "(push_bit 10 (drop_bit 12 K) OR fl) AND 0xe = 0"
    by (simp add: bit.conj_disj_distrib2 0)
qed

lemma tab_link:
  assumes inv: "pt_inv m root fr" and p: "vpath p" "length p < 2" "tab m root p = Some T"
    and i: "i < 512" "nxt m T i = None"
    and K: "ppage K" "K \<in> fr" and e: "e AND 1 \<noteq> 0" "pte_next e = K"
    and m': "\<And>T' j. ppage T' \<Longrightarrow> j < 512 \<Longrightarrow>
      pte m' T' j = (if T' = T \<and> j = i then e else if T' = K then 0 else pte m T' j)"
    and q: "vpath q"
  shows "tab m' root q = (if q = p @ [i] then Some K else tab m root q)"
proof -
  have page: "ppage T'" "T' \<noteq> K" if "vpath q" "tab m root q = Some T'" for q T'
    using inv that K by (auto simp: pt_inv_def)
  have inj: "q = p" if "vpath q" "tab m root q = Some T" for q
    using inv p that unfolding pt_inv_def by blast
  have nx: "nxt m' T' j = (if T' = T \<and> j = i then Some K else nxt m T' j)"
    if "vpath q" "tab m root q = Some T'" "j < 512" for q T' j
    using page [OF that(1,2)] m' [of T' j] that(3) e by (auto simp: nxt_def)
  have nK: "nxt m' K j = None" if "j < 512" for j
    using m' [OF K(1) that] page [OF p(1,3)] by (simp add: nxt_def)
  have root: "vpath []" "tab m root [] = Some root" by (simp_all add: vpath_def)
  show ?thesis
    using q
  proof (cases rule: vpath_cases)
    case 1
    then show ?thesis by simp
  next
    case (2 a)
    then show ?thesis using nx [OF root, of a] inj [OF root(1)] p by (auto split: option.splits)
  next
    case (3 a b)
    have va: "vpath [a]" using 3 by (simp add: vpath_def)
    show ?thesis
    proof (cases "nxt m root a")
      case None
      show ?thesis
      proof (cases "p = [] \<and> a = i")
        case True
        then have "nxt m' root a = Some K" using nx [OF root, of a] 3 p by simp
        then show ?thesis using 3 True None nK [of b] by simp
      next
        case False
        then have "nxt m' root a = None" using nx [OF root, of a] 3 None inj [OF root(1)] p(3) by auto
        moreover have "p \<noteq> [a]" using p(3) None by auto
        ultimately show ?thesis using 3 None by (cases p) auto
      qed
    next
      case (Some T1)
      then have t1: "tab m root [a] = Some T1" by simp
      have "nxt m' root a = Some T1"
        using nx [OF root, of a] 3 Some i(2) p(3) inj [OF root(1)] by auto
      moreover have "nxt m' T1 b = (if T1 = T \<and> b = i then Some K else nxt m T1 b)"
        using nx [OF va t1] 3 by blast
      moreover have "T1 = T \<longleftrightarrow> p = [a]"
        using inj [OF va] t1 p(3) by auto
      ultimately show ?thesis using 3 Some by (auto split: option.splits)
    qed
  qed
qed

section \<open>One step of the walk that builds\<close>

text \<open>A table at physical address \<open>T\<close>, addressed through one of the two windows.\<close>

definition tptr :: "u64 \<Rightarrow> u64 \<Rightarrow> bool" where
  "tptr P T \<longleftrightarrow> ppage T \<and> (P = T \<or> P = T + PA2VA_OFFSET)"

lemma tptr_slot: "tptr P T \<Longrightarrow> i < 512 \<Longrightarrow> pa_of (P + 8 * i) = T + 8 * i"
  using pa_of_kpage_slot [OF kpage_dmap, of T i] pa_of_dmap [of T] pa_of_ppage [of T i]
  by (auto simp: tptr_def)

lemma ld_tptr: "tptr P T \<Longrightarrow> i < 512 \<Longrightarrow> ld m (P + 8 * i) = pte m T i"
  by (simp add: ld_def pte_def tptr_slot)

lemma st_tptr: "tptr P T \<Longrightarrow> i < 512 \<Longrightarrow> st m (P + 8 * i) v = store64 m (T + 8 * i) v"
  by (simp add: st_def tptr_slot)

lemma pte_memset:
  assumes "kpage K" "ppage T" "j < 512"
  shows "pte (memset m K 0 PGSIZE) T j = (if T = pa_of K then 0 else pte m T j)"
proof -
  define P where "P = T + PA2VA_OFFSET"
  have P: "tptr P T" "kpage P" "pa_of P = T"
    using assms kpage_dmap pa_of_dmap by (auto simp: tptr_def P_def)
  have slot: "P + 8 * j = P + of_nat (8 * unat j)" by (rule slot_of_nat)
  have "kva (P + of_nat (8 * unat j))"
    using P(2) index_offset [OF assms(3)] by (intro kva_offset) auto
  then have k: "kva (P + 8 * j)" using slot by (simp only: slot_of_nat)
  have "in_page K (P + of_nat (8 * unat j)) \<longleftrightarrow> P = K"
    by (rule in_page_offset [OF P(2) assms(1) index_offset [OF assms(3)]])
  then have ip: "in_page K (P + 8 * j) \<longleftrightarrow> P = K" by (simp only: slot_of_nat)
  have "P = K \<longleftrightarrow> T = pa_of K"
    using P assms(1) pa_of_inj [of P K] by (auto simp: kpage_def)
  then show ?thesis
    using ld_memset [OF assms(1) k, of m] by (simp add: ld_tptr [OF P(1) assms(3)] ip)
qed

text \<open>
  What building towards the paths \<open>Q\<close> does: tables are only added, exactly on the paths of \<open>Q\<close>
  that had none, each from the free list; every last-level entry and every other page of RAM is
  as it was.
\<close>

definition same_leaves :: "mem \<Rightarrow> mem \<Rightarrow> u64 \<Rightarrow> bool" where
  "same_leaves m m' root \<longleftrightarrow>
     (\<forall>q j. vpath q \<longrightarrow> length q = 2 \<longrightarrow> j < 512 \<longrightarrow> leaf m' root q j = leaf m root q j)"

definition grows :: "u64 \<Rightarrow> u64 list set \<Rightarrow> 'z kstate_scheme \<Rightarrow> u64 list \<Rightarrow>
    'z kstate_scheme \<Rightarrow> u64 list \<Rightarrow> bool" where
  "grows root Q s ps s' ps' \<longleftrightarrow>
     free_pages s' ps' \<and> pt_inv (kmem s') root (pa_of ` set ps') \<and> set ps' \<subseteq> set ps \<and>
     (\<forall>q T. vpath q \<longrightarrow> tab (kmem s) root q = Some T \<longrightarrow> tab (kmem s') root q = Some T) \<and>
     (\<forall>q. vpath q \<longrightarrow> tab (kmem s) root q = None \<longrightarrow> (tab (kmem s') root q = None) = (q \<notin> Q)) \<and>
     (\<forall>q T. vpath q \<longrightarrow> tab (kmem s) root q = None \<longrightarrow> tab (kmem s') root q = Some T \<longrightarrow>
        T \<in> pa_of ` set ps) \<and>
     (\<forall>T j. ppage T \<longrightarrow> j < 512 \<longrightarrow> T \<notin> pa_of ` set ps \<longrightarrow>
        (\<forall>q. vpath q \<longrightarrow> tab (kmem s) root q \<noteq> Some T) \<longrightarrow>
        pte (kmem s') T j = pte (kmem s) T j) \<and>
     kstate.more s' = kstate.more s"

lemma grows_refl:
  assumes "free_pages s ps" "pt_inv (kmem s) root (pa_of ` set ps)"
    "\<forall>q \<in> Q. vpath q \<longrightarrow> tab (kmem s) root q \<noteq> None"
  shows "grows root Q s ps s ps"
  using assms by (auto simp: grows_def)

lemma grows_trans:
  assumes 1: "grows root Q s ps s1 ps1" and 2: "grows root R s1 ps1 s2 ps2"
  shows "grows root (Q \<union> R) s ps s2 ps2"
proof -
  have t: "tab (kmem s2) root q = Some T" if "vpath q" "tab (kmem s) root q = Some T" for q T
    using 1 2 that by (auto simp: grows_def)
  have n: "(tab (kmem s2) root q = None) = (q \<notin> Q \<union> R)" if "vpath q" "tab (kmem s) root q = None" for q
  proof (cases "tab (kmem s1) root q")
    case None
    then show ?thesis using 1 2 that by (auto simp: grows_def)
  next
    case (Some T)
    then have "tab (kmem s2) root q = Some T" using 2 that(1) by (auto simp: grows_def)
    moreover have "q \<in> Q" using 1 that Some by (auto simp: grows_def)
    ultimately show ?thesis by simp
  qed
  have sub: "set ps1 \<subseteq> set ps" "set ps2 \<subseteq> set ps1" using 1 2 by (auto simp: grows_def)
  have new: "T \<in> pa_of ` set ps"
    if "vpath q" "tab (kmem s) root q = None" "tab (kmem s2) root q = Some T" for q T
  proof (cases "tab (kmem s1) root q")
    case None
    then have "T \<in> pa_of ` set ps1" using 2 that unfolding grows_def by blast
    then show ?thesis using sub by auto
  next
    case (Some T1)
    then have "T1 = T" using 2 that unfolding grows_def by fastforce
    then show ?thesis using 1 that Some unfolding grows_def by blast
  qed
  have fr: "pte (kmem s2) T j = pte (kmem s) T j"
    if "ppage T" "j < 512" "T \<notin> pa_of ` set ps" "\<forall>q. vpath q \<longrightarrow> tab (kmem s) root q \<noteq> Some T" for T j
  proof -
    have a: "pte (kmem s1) T j = pte (kmem s) T j" using 1 that unfolding grows_def by blast
    have "tab (kmem s1) root q \<noteq> Some T" if "vpath q" for q
    proof (cases "tab (kmem s) root q")
      case None
      then show ?thesis using 1 \<open>vpath q\<close> \<open>T \<notin> pa_of ` set ps\<close> unfolding grows_def by blast
    next
      case (Some T')
      then have "tab (kmem s1) root q = Some T'" using 1 \<open>vpath q\<close> by (auto simp: grows_def)
      then show ?thesis using Some \<open>\<forall>q. vpath q \<longrightarrow> tab (kmem s) root q \<noteq> Some T\<close> \<open>vpath q\<close> by auto
    qed
    moreover have "T \<notin> pa_of ` set ps1" using that(3) sub by auto
    ultimately have "pte (kmem s2) T j = pte (kmem s1) T j"
      using 2 that(1,2) unfolding grows_def by blast
    then show ?thesis using a by simp
  qed
  show ?thesis
    unfolding grows_def
  proof (intro conjI allI impI)
    show "free_pages s2 ps2" "pt_inv (kmem s2) root (pa_of ` set ps2)" "set ps2 \<subseteq> set ps"
      "kstate.more s2 = kstate.more s"
      using 1 2 by (auto simp: grows_def)
  qed (use t n new fr in blast)+
qed

lemma next_table_existing:
  assumes "tptr P T" "i < 512" "nxt (kmem s) T i = Some T'"
  shows "next_table s P i perm = Some (T', s)"
  using assms by (auto simp: next_table_def ld_tptr nxt_def pte_next_def split: if_splits)

lemma next_table_alloc:
  assumes fp: "free_pages s (K # qs)" and P: "tptr P T" "i < 512" "nxt (kmem s) T i = None"
    and T: "T \<notin> pa_of ` set (K # qs)"
  shows "\<exists>s' e. next_table s P i perm = Some (pa_of K, s') \<and> free_pages s' qs \<and>
    kstate.more s' = kstate.more s \<and> pte_next e = pa_of K \<and> e AND 1 \<noteq> 0 \<and> e AND 0xe = 0 \<and>
    (\<forall>T' j. ppage T' \<longrightarrow> j < 512 \<longrightarrow> pte (kmem s') T' j =
       (if T' = T \<and> j = i then e else if T' = pa_of K then 0 else pte (kmem s) T' j))"
proof -
  define fl :: u64 where "fl = (if user_perm perm then 0x11 else 1)"
  define e where "e = push_bit 10 (drop_bit 12 (pa_of K)) OR fl"
  define s1 where "s1 = s\<lparr>freelist := ld (kmem s) K, kmem := memset (kmem s) K 0 PGSIZE\<rparr>"
  define m where "m = store64 (kmem s1) (T + 8 * i) (push_bit 10 (drop_bit 12 (pa_of K)) OR 1)"
  define s' where "s' = s1\<lparr>kmem := if user_perm perm then store64 m (T + 8 * i) (pte m T i OR 0x10) else m\<rparr>"
  have K: "kpage K" "\<forall>q \<in> set qs. kpage q" "K \<notin> set qs" using fp by (auto simp: free_pages_def)
  have pT: "ppage T" using P(1) by (simp add: tptr_def)
  have ka: "kalloc s = Some (K, s1)" and s1: "free_pages s1 qs"
    using kalloc_cases [OF fp] kalloc_free_pages [OF fp] by (auto simp: s1_def)
  have paK: "K - PA2VA_OFFSET = pa_of K" using K(1) by (simp add: pa_of_def kpage_def)
  have inv: "\<not> pte (kmem s) T i AND 1 \<noteq> 0" using P(3) by (simp add: nxt_def split: if_splits)
  have nt: "next_table s P i perm = Some (pa_of K, s')"
    using inv P(1,2)
    by (simp add: next_table_def ld_tptr st_tptr ka paK s'_def m_def Let_def)
  have "pte m T i = push_bit 10 (drop_bit 12 (pa_of K)) OR 1"
    using pT P(2) by (simp add: m_def pte_store)
  then have e1: "pte m T i OR 0x10 = push_bit 10 (drop_bit 12 (pa_of K)) OR 0x11"
    by (simp add: or.assoc)
  have pm: "pte (kmem s') T' j = (if T' = T \<and> j = i then e else if T' = pa_of K then 0 else pte (kmem s) T' j)"
    if "ppage T'" "j < 512" for T' j
    using that pT P(2) K(1) e1
    by (auto simp: s'_def pte_store m_def e_def fl_def s1_def pte_memset)
  have same: "ld (kmem s') q = ld (kmem s1) q" if "q \<in> set qs" for q
  proof -
    have q: "kpage q" "pa_of q \<noteq> T" "q \<noteq> K" using that K T by auto
    have tq: "tptr q (pa_of q)"
      using q(1) kpage_ppage [OF q(1)] by (simp add: tptr_def pa_of_def kpage_def)
    have "pa_of q \<noteq> pa_of K" using q K(1) by (simp add: kpage_def pa_of_inj)
    then show ?thesis
      using ld_tptr [OF tq, of 0 "kmem s'"] ld_tptr [OF tq, of 0 "kmem s1"]
        pm [OF kpage_ppage [OF q(1)], of 0] q(2) pte_memset [OF K(1) kpage_ppage [OF q(1)], of 0]
      by (simp add: s1_def)
  qed
  have "free_pages s' qs"
    using free_pages_frame [OF s1 _ same] by (simp add: s'_def)
  moreover have "kstate.more s' = kstate.more s" by (simp add: s'_def s1_def)
  moreover have "pte_next e = pa_of K" "e AND 1 \<noteq> 0" "e AND 0xe = 0"
    using pte_link [OF kpage_ppage [OF K(1)], of fl] by (auto simp: e_def fl_def)
  ultimately show ?thesis using nt pm by blast
qed

text \<open>
  A missing table costs one page of the free list.
\<close>

definition missing :: "mem \<Rightarrow> u64 \<Rightarrow> u64 list set \<Rightarrow> nat" where
  "missing m root Q = card {q \<in> Q. tab m root q = None}"

lemma pt_inv_link:
  assumes inv: "pt_inv m root fr" and p: "vpath p" "length p < 2" "tab m root p = Some T"
    and i: "i < 512" "nxt m T i = None"
    and K: "ppage K" "K \<in> fr" "K \<notin> fr'" "fr' \<subseteq> fr" and e: "e AND 1 \<noteq> 0" "pte_next e = K" "e AND 0xe = 0"
    and m': "\<And>T' j. ppage T' \<Longrightarrow> j < 512 \<Longrightarrow>
      pte m' T' j = (if T' = T \<and> j = i then e else if T' = K then 0 else pte m T' j)"
  shows "pt_inv m' root fr'" "same_leaves m m' root"
proof -
  have tl: "tab m' root q = (if q = p @ [i] then Some K else tab m root q)" if "vpath q" for q
    by (rule tab_link [OF inv p i K(1,2) e(1,2) _ that]) (rule m')
  have pi: "vpath (p @ [i])" using p i by (auto simp: vpath_def)
  have none: "tab m root (p @ [i]) = None" using p(3) i(2) by (simp add: tab_snoc)
  have old: "ppage T'" "T' \<noteq> K" "T' \<notin> fr" if "vpath q" "tab m root q = Some T'" for q T'
    using inv that K by (auto simp: pt_inv_def)
  have inj: "q = q'" if "vpath q" "vpath q'" "tab m root q = Some T'" "tab m root q' = Some T'" for q q' T'
    using inv that unfolding pt_inv_def by blast
  show "pt_inv m' root fr'"
    unfolding pt_inv_def
  proof (intro conjI allI impI)
    fix q T' assume "vpath q" "tab m' root q = Some T'"
    then have "T' = K \<or> tab m root q = Some T'" using tl [of q] by (auto split: if_splits)
    then show "ppage T'" "T' \<notin> fr'" using old [of q T'] \<open>vpath q\<close> K by auto
  next
    fix q q' T' assume "vpath q" "vpath q'" "tab m' root q = Some T'" "tab m' root q' = Some T'"
    then show "q = q'"
      using tl [of q] tl [of q'] inj [of q q' T'] old(2) [of q K] old(2) [of q' K]
      by (auto split: if_splits)
  next
    fix q T' and j :: u64 assume q: "vpath q" "length q < 2" "tab m' root q = Some T'" "j < 512" "pte m' T' j AND 1 \<noteq> 0"
    have "T' = K \<or> tab m root q = Some T' \<and> ppage T' \<and> T' \<noteq> K"
      using tl [of q] old [of q T'] q by (auto split: if_splits)
    then show "pte m' T' j AND 0xe = 0"
    proof
      assume "T' = K"
      moreover have "T \<noteq> K" using old(2) p by blast
      ultimately show ?thesis using m' [of K j] K(1) q by simp
    next
      assume a: "tab m root q = Some T' \<and> ppage T' \<and> T' \<noteq> K"
      have "pte m T' j AND 1 \<noteq> 0 \<Longrightarrow> pte m T' j AND 0xe = 0"
        using inv q(1,2,4) a unfolding pt_inv_def by blast
      then show ?thesis using a q m' [of T' j] e(3) by (auto split: if_splits)
    qed
  qed
  show "same_leaves m m' root"
    unfolding same_leaves_def
  proof (intro allI impI)
    fix q and j :: u64 assume q: "vpath q" "length q = 2" "j < 512"
    have TK: "T \<noteq> K" using old(2) p by blast
    show "leaf m' root q j = leaf m root q j"
    proof (cases "q = p @ [i]")
      case True
      then show ?thesis using tl [OF pi] m' [OF K(1) q(3)] none TK by (simp add: leaf_def)
    next
      case False
      then have t: "tab m' root q = tab m root q" using tl [OF q(1)] by simp
      show ?thesis
      proof (cases "tab m root q")
        case (Some T')
        then have "T' \<noteq> T" "ppage T'" "T' \<noteq> K"
          using inj [OF q(1) p(1)] p q old [OF q(1)] by auto
        then show ?thesis using t Some m' [of T' j] q(3) by (simp add: leaf_def)
      qed (simp add: leaf_def t)
    qed
  qed
qed

lemma next_table_step:
  assumes fp: "free_pages s ps" and inv: "pt_inv (kmem s) root (pa_of ` set ps)"
    and p: "vpath p" "length p < 2" "tab (kmem s) root p = Some T" and P: "tptr P T" and i: "i < 512"
    and room: "missing (kmem s) root {p @ [i]} \<le> length ps"
  shows "\<exists>s' T'. next_table s P i perm = Some (T', s') \<and>
    grows root {p @ [i]} s ps s' (drop (missing (kmem s) root {p @ [i]}) ps) \<and>
    same_leaves (kmem s) (kmem s') root \<and> tab (kmem s') root (p @ [i]) = Some T' \<and> ppage T'"
proof (cases "nxt (kmem s) T i")
  case (Some T')
  then have t: "tab (kmem s) root (p @ [i]) = Some T'" using p(3) by (simp add: tab_snoc)
  then have "{q \<in> {p @ [i]}. tab (kmem s) root q = None} = {}" by auto
  then have mi: "missing (kmem s) root {p @ [i]} = 0" unfolding missing_def by simp
  have "vpath (p @ [i])" using p i by (auto simp: vpath_def)
  then have "ppage T'" using inv t unfolding pt_inv_def by blast
  then show ?thesis
    using next_table_existing [OF P i Some, of perm] t grows_refl [OF fp inv, of "{p @ [i]}"] mi
    by (auto simp: same_leaves_def)
next
  case None
  then have t: "tab (kmem s) root (p @ [i]) = None" using p(3) by (simp add: tab_snoc)
  then have "{q \<in> {p @ [i]}. tab (kmem s) root q = None} = {p @ [i]}" by auto
  then have mi: "missing (kmem s) root {p @ [i]} = 1" unfolding missing_def by simp
  then obtain K qs where ps: "ps = K # qs" using room by (cases ps) auto
  have K: "kpage K" "K \<notin> set qs" "\<forall>q \<in> set qs. kpage q" using fp by (auto simp: ps free_pages_def)
  have Tf: "T \<notin> pa_of ` set (K # qs)" using inv p ps unfolding pt_inv_def by blast
  obtain s' e where nt: "next_table s P i perm = Some (pa_of K, s')" and fp': "free_pages s' qs"
    and more: "kstate.more s' = kstate.more s"
    and e: "pte_next e = pa_of K" "e AND 1 \<noteq> 0" "e AND 0xe = 0"
    and m': "\<forall>T' j. ppage T' \<longrightarrow> j < 512 \<longrightarrow> pte (kmem s') T' j =
       (if T' = T \<and> j = i then e else if T' = pa_of K then 0 else pte (kmem s) T' j)"
    using next_table_alloc [OF fp [unfolded ps] P i None Tf] by blast
  have Kfr: "pa_of K \<in> pa_of ` set ps" "pa_of K \<notin> pa_of ` set qs" "pa_of ` set qs \<subseteq> pa_of ` set ps"
    using K by (auto simp: ps kpage_def pa_of_inj)
  note m'' = m' [rule_format]
  have tl: "tab (kmem s') root q = (if q = p @ [i] then Some (pa_of K) else tab (kmem s) root q)"
    if "vpath q" for q
    by (rule tab_link [OF inv p i None kpage_ppage [OF K(1)] Kfr(1) e(2,1) _ that]) (rule m'')
  have inv': "pt_inv (kmem s') root (pa_of ` set qs)" "same_leaves (kmem s) (kmem s') root"
    by (rule pt_inv_link [OF inv p i None kpage_ppage [OF K(1)] Kfr e(2,1,3)], rule m'', assumption+)+
  have pi: "vpath (p @ [i])" using p i by (auto simp: vpath_def)
  have "grows root {p @ [i]} s ps s' qs"
    unfolding grows_def
  proof (intro conjI allI impI)
    show "free_pages s' qs" "pt_inv (kmem s') root (pa_of ` set qs)" "set qs \<subseteq> set ps"
      "kstate.more s' = kstate.more s"
      using fp' inv' ps more by auto
    fix T' and j :: u64 assume a: "ppage T'" "j < 512" "T' \<notin> pa_of ` set ps" "\<forall>q. vpath q \<longrightarrow> tab (kmem s) root q \<noteq> Some T'"
    then have "T' \<noteq> T" "T' \<noteq> pa_of K" using p Kfr by auto
    then show "pte (kmem s') T' j = pte (kmem s) T' j" using m'' a by simp
  qed (use tl t Kfr(1) in \<open>auto split: if_splits\<close>)
  then show ?thesis
    using nt mi ps inv' tl [OF pi] kpage_ppage [OF K(1)] by auto
qed

section \<open>One page\<close>

definition walk_paths :: "u64 \<Rightarrow> u64 list set" where
  "walk_paths va = {[vpn 2 va], [vpn 2 va, vpn 1 va]}"

text \<open>The last-level entry of a virtual address (0 when a table is missing), and its page number.\<close>

definition lookup :: "mem \<Rightarrow> u64 \<Rightarrow> u64 \<Rightarrow> u64" where
  "lookup m root va = leaf m root [vpn 2 va, vpn 1 va] (vpn 0 va)"

definition vpage :: "u64 \<Rightarrow> nat" where
  "vpage va = unat va div 4096 mod 2 ^ 27"

definition entry :: "u64 \<Rightarrow> u32 \<Rightarrow> u64" where
  "entry pa perm = push_bit 10 (drop_bit 12 pa) OR scast perm"

lemma unat_vpn: "unat (vpn l va) = unat va div 2 ^ (12 + 9 * l) mod 512"
proof -
  have "vpn l va = take_bit 9 (drop_bit (12 + 9 * l) va)"
    by (simp add: vpn_def take_bit_eq_mask mask_eq_exp_minus_1)
  then have "unat (vpn l va) = take_bit 9 (unat (drop_bit (12 + 9 * l) va))"
    by (simp only: unsigned_take_bit_eq)
  also have "\<dots> = take_bit 9 (drop_bit (12 + 9 * l) (unat va))"
    by (simp only: unat_drop_bit_eq)
  finally show ?thesis by (simp add: take_bit_eq_mod drop_bit_eq_div)
qed

lemma digits_mod:
  fixes z :: nat
  defines "d \<equiv> z mod 2 ^ 27"
  shows "d = z mod 512 + 512 * (z div 512 mod 512) + 262144 * (z div 262144 mod 512)"
    "z mod 512 = d mod 512" "z div 512 mod 512 = d div 512 mod 512" "z div 262144 mod 512 = d div 262144"
proof -
  have "d = z mod 512 + 512 * (z div 512 mod 262144)"
    using mod_mult2_eq [of z 512 262144] by (simp add: d_def)
  moreover have "z div 512 mod 262144 = z div 512 mod 512 + 512 * (z div 262144 mod 512)"
    using mod_mult2_eq [of "z div 512" 512 512] by (simp add: div_mult2_eq [symmetric])
  ultimately show "d = z mod 512 + 512 * (z div 512 mod 512) + 262144 * (z div 262144 mod 512)"
    by simp
  define a b c where "a = z mod 512" and "b = z div 512 mod 512" and "c = z div 262144 mod 512"
  have d: "d = a + 512 * (b + 512 * c)" and lt: "a < 512" "b < 512"
    using \<open>d = z mod 512 + _ + _\<close> by (simp_all add: a_def b_def c_def)
  have "d div 512 = b + 512 * c" using d lt by simp
  moreover have "d mod 512 = a" using lt by (simp only: d mod_mult_self2 mod_less)
  moreover have "d div 262144 = d div 512 div 512" by (simp add: div_mult2_eq [symmetric])
  ultimately show "z mod 512 = d mod 512" "z div 512 mod 512 = d div 512 mod 512" "z div 262144 mod 512 = d div 262144"
    using lt by (simp_all add: a_def b_def c_def)
qed

lemma vpn_vpage: "vpn 2 a = vpn 2 b \<and> vpn 1 a = vpn 1 b \<and> vpn 0 a = vpn 0 b \<longleftrightarrow> vpage a = vpage b"
proof -
  have v: "unat (vpn 0 x) = unat x div 4096 mod 512" "unat (vpn 1 x) = unat x div 4096 div 512 mod 512"
    "unat (vpn 2 x) = unat x div 4096 div 262144 mod 512" for x
    by (simp_all add: unat_vpn div_mult2_eq [symmetric])
  show ?thesis
    unfolding vpage_def word_unat_eq_iff v
    using digits_mod [of "unat a div 4096"] digits_mod [of "unat b div 4096"] by metis
qed

lemma vpath_walk: "q \<in> walk_paths va \<Longrightarrow> vpath q"
  by (auto simp: walk_paths_def vpath_def vpn_bound)

lemma missing_union:
  assumes g: "grows root Q s ps s1 ps1" and v: "\<forall>q \<in> Q \<union> R. vpath q" and f: "finite Q" "finite R"
  shows "missing (kmem s) root (Q \<union> R) = missing (kmem s) root Q + missing (kmem s1) root R"
proof -
  have t: "tab (kmem s1) root q = None \<longleftrightarrow> tab (kmem s) root q = None \<and> q \<notin> Q" if "vpath q" for q
  proof (cases "tab (kmem s) root q")
    case None
    then show ?thesis using g that unfolding grows_def by blast
  next
    case (Some T)
    then have "tab (kmem s1) root q = Some T" using g that unfolding grows_def by blast
    then show ?thesis using Some by simp
  qed
  have "{q \<in> Q \<union> R. tab (kmem s) root q = None} =
      {q \<in> Q. tab (kmem s) root q = None} \<union> {q \<in> R. tab (kmem s1) root q = None}"
    using t v by blast
  moreover have "{q \<in> Q. tab (kmem s) root q = None} \<inter> {q \<in> R. tab (kmem s1) root q = None} = {}"
    using t v by auto
  ultimately show ?thesis using f by (simp add: missing_def card_Un_disjoint)
qed

text \<open>Writing a last-level entry.\<close>

lemma grows_leaf:
  fixes e :: u64
  assumes fp: "free_pages s ps" and inv: "pt_inv (kmem s) root (pa_of ` set ps)"
    and p: "vpath p" "length p = 2" "tab (kmem s) root p = Some T" and i: "i < 512"
  defines "s' \<equiv> s\<lparr>kmem := store64 (kmem s) (T + 8 * i) e\<rparr>"
  shows "grows root {} s ps s' ps"
    and "vpath q \<Longrightarrow> length q = 2 \<Longrightarrow> j < 512 \<Longrightarrow>
      leaf (kmem s') root q j = (if q = p \<and> j = i then e else leaf (kmem s) root q j)"
proof -
  have T: "ppage T" "T \<notin> pa_of ` set ps" using inv p unfolding pt_inv_def by blast+
  have inj: "q = p" if "vpath q" "tab (kmem s) root q = Some T" for q
    using inv p that unfolding pt_inv_def by blast
  have m': "pte (kmem s') T' j = (if T' = T \<and> j = i then e else pte (kmem s) T' j)" if "ppage T'" "j < 512" for T' j
    using that T i by (auto simp: s'_def pte_store)
  have pg: "ppage T'" if "vpath q" "tab (kmem s) root q = Some T'" for q T'
    using inv that unfolding pt_inv_def by blast
  have upper: "pte (kmem s') T' j = pte (kmem s) T' j"
    if "vpath q" "length q < 2" "tab (kmem s) root q = Some T'" "j < 512" for q T' j
    using m' [OF pg [OF that(1,3)] that(4)] inj [OF that(1)] that(2,3) p(2) by auto
  have t: "tab (kmem s') root q = tab (kmem s) root q" if "vpath q" for q
    using that upper by (rule tab_agree)
  have inv': "pt_inv (kmem s') root (pa_of ` set ps)"
    using inv unfolding pt_inv_def by (simp add: t upper)
  have same: "ld (kmem s') q = ld (kmem s) q" if "q \<in> set ps" for q
  proof -
    have q: "kpage q" "pa_of q \<noteq> T" using that fp T by (auto simp: free_pages_def)
    have tq: "tptr q (pa_of q)" using q(1) kpage_ppage [OF q(1)] by (simp add: tptr_def pa_of_def kpage_def)
    show ?thesis
      using ld_tptr [OF tq, of 0] m' [OF kpage_ppage [OF q(1)], of 0] q(2) by simp
  qed
  have "free_pages s' ps" using free_pages_frame [OF fp _ same] by (simp add: s'_def)
  moreover have "kstate.more s' = kstate.more s" by (simp add: s'_def)
  moreover have "pte (kmem s') T' j = pte (kmem s) T' j"
    if "ppage T'" "j < 512" "\<forall>q. vpath q \<longrightarrow> tab (kmem s) root q \<noteq> Some T'" for T' j
    using m' that p by auto
  ultimately show "grows root {} s ps s' ps" using inv' by (simp add: grows_def t)
  assume q: "vpath q" "length q = 2" "j < 512"
  show "leaf (kmem s') root q j = (if q = p \<and> j = i then e else leaf (kmem s) root q j)"
  proof (cases "tab (kmem s) root q")
    case None
    then show ?thesis using t [OF q(1)] p by (auto simp: leaf_def)
  next
    case (Some T')
    then show ?thesis
      using t [OF q(1)] m' [OF pg [OF q(1) Some] q(3)] inj [OF q(1)] p(3) by (auto simp: leaf_def)
  qed
qed

lemma create_mapping_body_page:
  assumes fp: "free_pages s ps" and inv: "pt_inv (kmem s) root (pa_of ` set ps)" and P: "tptr P root"
    and room: "missing (kmem s) root (walk_paths va) \<le> length ps"
  shows "\<exists>s'. create_mapping_body s P va pa perm = Some s' \<and>
    grows root (walk_paths va) s ps s' (drop (missing (kmem s) root (walk_paths va)) ps) \<and>
    (\<forall>x. lookup (kmem s') root x =
       (if vpage x = vpage va \<and> lookup (kmem s) root x AND 1 = 0 then entry pa perm
        else lookup (kmem s) root x))"
proof -
  define a b c where "a = vpn 2 va" and "b = vpn 1 va" and "c = vpn 0 va"
  have ix: "a < 512" "b < 512" "c < 512" by (simp_all add: a_def b_def c_def vpn_bound)
  have wp: "walk_paths va = {[a]} \<union> {[a, b]}" by (auto simp: walk_paths_def a_def b_def)
  have vp: "vpath []" "vpath [a]" "vpath [a, b]" using ix by (simp_all add: vpath_def)
  have "missing (kmem s) root {[a]} \<le> missing (kmem s) root (walk_paths va)"
    unfolding missing_def wp by (rule card_mono) auto
  then have r1: "missing (kmem s) root {[] @ [a]} \<le> length ps" using room by simp
  from next_table_step [OF fp inv vp(1) _ _ P ix(1) r1, of perm]
  obtain s1 T1 where n1: "next_table s P a perm = Some (T1, s1)"
    and g1: "grows root {[a]} s ps s1 (drop (missing (kmem s) root {[a]}) ps)"
    and l1: "same_leaves (kmem s) (kmem s1) root" and t1: "tab (kmem s1) root [a] = Some T1" "ppage T1"
    by auto
  define P1 where "P1 = (if user_perm perm then T1 + PA2VA_OFFSET else T1)"
  have P1: "tptr P1 T1" using t1 by (simp add: P1_def tptr_def)
  have sum: "missing (kmem s) root (walk_paths va) =
      missing (kmem s) root {[a]} + missing (kmem s1) root {[a, b]}"
    unfolding wp using g1 by (rule missing_union) (use vp in auto)
  then have r2: "missing (kmem s1) root {[a] @ [b]} \<le> length (drop (missing (kmem s) root {[a]}) ps)"
    using room by simp
  have i1: "free_pages s1 (drop (missing (kmem s) root {[a]}) ps)"
    "pt_inv (kmem s1) root (pa_of ` set (drop (missing (kmem s) root {[a]}) ps))"
    using g1 by (simp_all add: grows_def)
  define ps2 where "ps2 = drop (missing (kmem s) root (walk_paths va)) ps"
  from next_table_step [OF i1 vp(2) _ t1(1) P1 ix(2) r2, of perm]
  obtain s2 T0 where n2: "next_table s1 P1 b perm = Some (T0, s2)"
    and g2: "grows root {[a, b]} s1 (drop (missing (kmem s) root {[a]}) ps) s2 ps2"
    and l2: "same_leaves (kmem s1) (kmem s2) root" and t2: "tab (kmem s2) root [a, b] = Some T0" "ppage T0"
    by (auto simp: sum ps2_def add.commute)
  define P0 where "P0 = (if user_perm perm then T0 + PA2VA_OFFSET else T0)"
  have P0: "tptr P0 T0" using t2 by (simp add: P0_def tptr_def)
  have g: "grows root (walk_paths va) s ps s2 ps2" unfolding wp using g1 g2 by (rule grows_trans)
  have lk: "lookup (kmem s2) root x = lookup (kmem s) root x" for x
    using l1 l2 by (simp add: same_leaves_def lookup_def vpath_def vpn_bound)
  have key: "[vpn 2 x, vpn 1 x] = [a, b] \<and> vpn 0 x = c \<longleftrightarrow> vpage x = vpage va" for x
    using vpn_vpage [of x va] by (simp add: a_def b_def c_def)
  have lc: "lookup (kmem s2) root va = pte (kmem s2) T0 c"
    using t2 by (simp add: lookup_def leaf_def flip: a_def b_def c_def del: tab.simps One_nat_def)
  have bd: "create_mapping_body s P va pa perm =
      (if pte (kmem s2) T0 c AND 1 = 0
       then Some (s2\<lparr>kmem := store64 (kmem s2) (T0 + 8 * c) (entry pa perm)\<rparr>) else Some s2)"
    using n1 n2 ld_tptr [OF P0 ix(3)] st_tptr [OF P0 ix(3)]
    by (simp add: create_mapping_body_def a_def b_def c_def vpn_def P1_def P0_def entry_def)
  have eqp: "lookup (kmem s) root x = lookup (kmem s) root va" if "vpage x = vpage va" for x
    using that vpn_vpage [of x va] by (simp add: lookup_def)
  show ?thesis
  proof (cases "pte (kmem s2) T0 c AND 1 = 0")
    case False
    then show ?thesis using bd g lk lc eqp unfolding ps2_def by (metis (no_types))
  next
    case True
    have i2: "free_pages s2 ps2" "pt_inv (kmem s2) root (pa_of ` set ps2)"
      using g2 by (simp_all add: grows_def)
    note gl = grows_leaf [OF i2 vp(3) _ t2(1) ix(3), where e = "entry pa perm"]
    define s3 where "s3 = s2\<lparr>kmem := store64 (kmem s2) (T0 + 8 * c) (entry pa perm)\<rparr>"
    have "grows root (walk_paths va \<union> {}) s ps s3 ps2"
      using g gl(1) unfolding s3_def by (rule grows_trans) simp
    moreover have "lookup (kmem s3) root x =
       (if vpage x = vpage va \<and> lookup (kmem s) root x AND 1 = 0 then entry pa perm
        else lookup (kmem s) root x)" for x
      using gl(2) [of "[vpn 2 x, vpn 1 x]" "vpn 0 x"] key [of x] lk [of x] lc lk [of va] True eqp [of x]
      by (simp add: s3_def lookup_def vpath_def vpn_bound)
    ultimately show ?thesis using bd True by (simp add: s3_def ps2_def)
  qed
qed

section \<open>A range of pages\<close>

definition range_paths :: "u64 \<Rightarrow> nat \<Rightarrow> u64 list set" where
  "range_paths va n = (\<Union>x \<in> set (pages_from va n). walk_paths x)"

lemma range_paths_Suc: "range_paths va (Suc n) = walk_paths va \<union> range_paths (va + PGSIZE) n"
  by (simp add: range_paths_def pages_from_Suc)

lemma range_paths_vpath: "q \<in> range_paths va n \<Longrightarrow> vpath q" "finite (range_paths va n)"
  by (auto simp: range_paths_def vpath_walk walk_paths_def)

lemma vpage_offset:
  assumes "unat va + 4096 * j < 2 ^ 64"
  shows "vpage (va + of_nat (4096 * j)) = (unat va div 4096 + j) mod 2 ^ 27"
  using unat_add_small [OF assms] by (simp add: vpage_def add.commute)

lemma vpage_distinct:
  assumes "unat va + 4096 * n < 2 ^ 64" "n \<le> 2 ^ 27" "i < n" "j < n"
    "vpage (va + of_nat (4096 * i)) = vpage (va + of_nat (4096 * j))"
  shows "i = j"
proof -
  have "(unat va div 4096 + i) mod 2 ^ 27 = (unat va div 4096 + j) mod 2 ^ 27"
    using assms vpage_offset [of va i] vpage_offset [of va j] by simp
  moreover have "(a + x) mod M \<noteq> (a + y) mod M" if "x < y" "y < M" for a x y M :: nat
    using that mod_eq_dvd_iff_nat [of "a + x" "a + y" M] by (auto dest: dvd_imp_le)
  ultimately show ?thesis using assms by (metis linorder_neqE_nat order_less_le_trans)
qed

definition in_range :: "u64 \<Rightarrow> nat \<Rightarrow> nat \<Rightarrow> u64 \<Rightarrow> bool" where
  "in_range va n j x \<longleftrightarrow> j < n \<and> vpage x = vpage (va + of_nat (4096 * j))"

lemma in_range_Suc:
  "in_range va (Suc n) j x \<longleftrightarrow>
     (case j of 0 \<Rightarrow> vpage x = vpage va | Suc k \<Rightarrow> in_range (va + PGSIZE) n k x)"
  by (cases j) (auto simp: in_range_def PGSIZE_def algebra_simps)

lemma in_range_Suc_exhaust:
  assumes "in_range va (Suc n) j x"
  obtains "j = 0" "vpage x = vpage va" | k where "j = Suc k" "in_range (va + PGSIZE) n k x"
  using assms by (cases j) (auto simp: in_range_Suc)

lemma create_mapping_loop_pages:
  assumes "free_pages s ps" "pt_inv (kmem s) root (pa_of ` set ps)" "tptr P root"
    and "missing (kmem s) root (range_paths va n) \<le> length ps"
    and "unat va_end \<le> unat va + 4096 * n" "n > 0 \<Longrightarrow> unat va + 4096 * (n - 1) < unat va_end"
    and "unat va + 4096 * n < 2 ^ 64" "n \<le> 2 ^ 27"
  shows "\<exists>s'. create_mapping_loop s P va va_end pa perm = Some s' \<and>
    grows root (range_paths va n) s ps s' (drop (missing (kmem s) root (range_paths va n)) ps) \<and>
    (\<forall>j x. in_range va n j x \<longrightarrow> lookup (kmem s') root x =
       (if lookup (kmem s) root x AND 1 = 0 then entry (pa + of_nat (4096 * j)) perm
        else lookup (kmem s) root x)) \<and>
    (\<forall>x. (\<forall>j. \<not> in_range va n j x) \<longrightarrow> lookup (kmem s') root x = lookup (kmem s) root x)"
  using assms
proof (induction n arbitrary: s ps va pa)
  case 0
  then have "\<not> va < va_end" by (simp add: word_less_nat_alt)
  moreover have "range_paths va 0 = {}" by (simp add: range_paths_def pages_from_def)
  ultimately show ?case
    using grows_refl [OF 0(1,2), of "{}"]
    by (simp add: create_mapping_loop.simps in_range_def missing_def)
next
  case (Suc n)
  note prems = Suc.prems
  define W R where "W = walk_paths va" and "R = range_paths (va + PGSIZE) n"
  have WR: "range_paths va (Suc n) = W \<union> R" by (simp add: W_def R_def range_paths_Suc)
  have fin: "finite W" "finite R" by (auto simp: W_def R_def range_paths_vpath(2) walk_paths_def)
  have vp: "\<forall>q \<in> W \<union> R. vpath q" using range_paths_vpath(1) vpath_walk by (auto simp: W_def R_def)
  have "missing (kmem s) root W \<le> missing (kmem s) root (W \<union> R)"
    unfolding missing_def using fin by (intro card_mono) auto
  then have "missing (kmem s) root (walk_paths va) \<le> length ps" using prems(4) by (simp add: WR W_def)
  from create_mapping_body_page [OF prems(1-3) this, of pa perm]
  obtain s1 where b: "create_mapping_body s P va pa perm = Some s1"
    and g: "grows root W s ps s1 (drop (missing (kmem s) root W) ps)"
    and l1: "\<And>x. lookup (kmem s1) root x =
       (if vpage x = vpage va \<and> lookup (kmem s) root x AND 1 = 0 then entry pa perm
        else lookup (kmem s) root x)"
    unfolding W_def by blast
  have sum: "missing (kmem s) root (W \<union> R) = missing (kmem s) root W + missing (kmem s1) root R"
    using g vp fin by (rule missing_union)
  have na: "unat (va + PGSIZE) = unat va + 4096"
    using prems(7) unat_add_small [of va 4096] by (simp add: PGSIZE_def)
  have lt: "va < va_end" using prems(6) by (simp add: word_less_nat_alt)
  have "unat va_end \<le> unat (va + PGSIZE) + 4096 * n" "n > 0 \<Longrightarrow> unat (va + PGSIZE) + 4096 * (n - 1) < unat va_end"
    "unat (va + PGSIZE) + 4096 * n < 2 ^ 64" "n \<le> 2 ^ 27"
    using prems(5-8) na by (auto simp: algebra_simps)
  note arith = this
  have i1: "free_pages s1 (drop (missing (kmem s) root W) ps)"
    "pt_inv (kmem s1) root (pa_of ` set (drop (missing (kmem s) root W) ps))"
    using g by (simp_all add: grows_def)
  have "missing (kmem s1) root (range_paths (va + PGSIZE) n) \<le> length (drop (missing (kmem s) root W) ps)"
    using sum prems(4) unfolding WR R_def length_drop by linarith
  from Suc.IH [OF i1 prems(3) this arith, of "pa + PGSIZE"]
  obtain s' where c: "create_mapping_loop s1 P (va + PGSIZE) va_end (pa + PGSIZE) perm = Some s'"
    and g': "grows root R s1 (drop (missing (kmem s) root W) ps) s'
      (drop (missing (kmem s1) root R) (drop (missing (kmem s) root W) ps))"
    and l2: "\<And>j x. in_range (va + PGSIZE) n j x \<Longrightarrow> lookup (kmem s') root x =
       (if lookup (kmem s1) root x AND 1 = 0 then entry (pa + PGSIZE + of_nat (4096 * j)) perm
        else lookup (kmem s1) root x)"
    and l3: "\<And>x. (\<forall>j. \<not> in_range (va + PGSIZE) n j x) \<Longrightarrow> lookup (kmem s') root x = lookup (kmem s1) root x"
    unfolding R_def by blast
  have gg: "grows root (W \<union> R) s ps s' (drop (missing (kmem s) root (W \<union> R)) ps)"
    using grows_trans [OF g g'] by (simp add: sum add.commute)
  have out: "vpage x \<noteq> vpage va" if "in_range (va + PGSIZE) n j x" for j x
    using vpage_distinct [OF prems(7,8), of 0 "Suc j"] that
    by (auto simp: in_range_def PGSIZE_def algebra_simps)
  have "create_mapping_loop s P va va_end pa perm = Some s'"
    using lt b c by (simp add: create_mapping_loop.simps [of s])
  moreover have "lookup (kmem s') root x =
       (if lookup (kmem s) root x AND 1 = 0 then entry (pa + of_nat (4096 * j)) perm
        else lookup (kmem s) root x)" if "in_range va (Suc n) j x" for j x
    using that
  proof (cases rule: in_range_Suc_exhaust)
    case 1
    then have "\<forall>j. \<not> in_range (va + PGSIZE) n j x" using out by blast
    then show ?thesis using 1 l1 [of x] l3 [of x] by simp
  next
    case (2 k)
    then show ?thesis using l2 [of k x] l1 [of x] out [of k x] by (auto simp: PGSIZE_def algebra_simps)
  qed
  moreover have "lookup (kmem s') root x = lookup (kmem s) root x" if "\<forall>j. \<not> in_range va (Suc n) j x" for x
  proof -
    have "\<forall>j. \<not> in_range (va + PGSIZE) n j x" "vpage x \<noteq> vpage va"
      using that in_range_Suc [of va n "Suc _" x] in_range_Suc [of va n 0 x] by simp_all
    then show ?thesis using l3 [of x] l1 [of x] by simp
  qed
  ultimately show ?case using gg unfolding WR by blast
qed

section \<open>The walk over the built tables\<close>

definition leaf_perm :: "u32 \<Rightarrow> bool" where
  "leaf_perm perm \<longleftrightarrow> perm < 1024 \<and> perm AND 1 \<noteq> 0 \<and> perm AND 0xa \<noteq> 0"

lemma and_mono_zero: "(e :: u64) AND 0xe = 0 \<Longrightarrow> e AND 0xa = 0"
proof -
  assume "e AND 0xe = 0"
  then have "(e AND 0xe) AND 0xa = 0" by simp
  then show ?thesis by (simp add: and.assoc)
qed

lemma sv39_walk_lookup:
  assumes "pt_inv m root fr"
  shows "sv39_walk m root x =
    (if lookup m root x AND 1 = 0 \<or> lookup m root x AND 0xa = 0 then None else Some (0, lookup m root x))"
proof -
  define a b c where "a = vpn 2 x" and "b = vpn 1 x" and "c = vpn 0 x"
  have ix: "a < 512" "b < 512" by (simp_all add: a_def b_def vpn_bound)
  then have v: "vpath []" "vpath [a]" by (simp_all add: vpath_def)
  have up: "pte m T i AND 0xa = 0" if "vpath p" "length p < 2" "tab m root p = Some T" "i < 512" "pte m T i AND 1 \<noteq> 0" for p T i
  proof (rule and_mono_zero)
    show "pte m T i AND 0xe = 0" using assms that unfolding pt_inv_def by blast
  qed
  have w: "sv39_walk m root x =
     (if pte m root a AND 1 = 0 then None
      else if pte m root a AND 0xa \<noteq> 0 then Some (2, pte m root a)
      else let T1 = pte_next (pte m root a) in
        if pte m T1 b AND 1 = 0 then None
        else if pte m T1 b AND 0xa \<noteq> 0 then Some (1, pte m T1 b)
        else let T0 = pte_next (pte m T1 b) in
          if pte m T0 c AND 1 = 0 then None
          else if pte m T0 c AND 0xa \<noteq> 0 then Some (0, pte m T0 c) else None)"
    by (simp add: sv39_walk_def sv39_from.simps [of m "Suc (Suc 0)"] sv39_from.simps [of m "Suc 0"]
        sv39_from.simps [of m 0] numeral_2_eq_2 a_def b_def c_def Let_def)
  have l: "lookup m root x = (case nxt m root a of None \<Rightarrow> 0 | Some T1 \<Rightarrow>
      (case nxt m T1 b of None \<Rightarrow> 0 | Some T0 \<Rightarrow> pte m T0 c))"
    by (simp add: lookup_def leaf_def a_def b_def c_def split: option.splits)
  show ?thesis
  proof (cases "nxt m root a")
    case None
    then show ?thesis unfolding w l by (simp add: nxt_def split: if_splits)
  next
    case (Some T1)
    then have e1: "pte m root a AND 1 \<noteq> 0" "T1 = pte_next (pte m root a)" "pte m root a AND 0xa = 0"
      using up [OF v(1) _ _ ix(1)] by (auto simp: nxt_def split: if_splits)
    have t1: "tab m root [a] = Some T1" using Some by simp
    show ?thesis
    proof (cases "nxt m T1 b")
      case None
      then show ?thesis using e1 Some unfolding w l by (simp add: nxt_def split: if_splits)
    next
      case (Some T0)
      then have e2: "pte m T1 b AND 1 \<noteq> 0" "T0 = pte_next (pte m T1 b)" "pte m T1 b AND 0xa = 0"
        using up [OF v(2) _ t1 ix(2)] by (auto simp: nxt_def split: if_splits)
      show ?thesis using e1 e2 Some \<open>nxt m root a = Some T1\<close> unfolding w l by (simp add: Let_def)
    qed
  qed
qed

lemma entry_bits:
  assumes "perm < 1024"
  shows "pte_next (entry pa perm) = pa AND NOT (mask 12)"
    and "n < 10 \<Longrightarrow> bit (entry pa perm) n \<longleftrightarrow> bit perm n"
proof -
  have hi: "\<not> bit perm n" if "10 \<le> n" for n
    using assms that by (intro small_high_bits [of perm 10]) (simp_all add: word_less_nat_alt)
  define q :: u64 where "q = scast perm"
  have sc: "bit q n \<longleftrightarrow> n < 10 \<and> bit perm n" for n
    using hi by (cases "n < 10") (auto simp: q_def bit_simps min_def)
  show "pte_next (entry pa perm) = pa AND NOT (mask 12)"
    unfolding entry_def q_def [symmetric]
    by (rule bit_word_eqI) (auto simp: pte_next_def bit_simps sc not_less)
  show "bit (entry pa perm) n \<longleftrightarrow> bit perm n" if "n < 10"
    unfolding entry_def q_def [symmetric]
    using that by (auto simp: bit_or_iff bit_push_bit_iff sc)
qed

lemma entry_flags:
  assumes "perm < 1024"
  shows "entry pa perm AND 0x3ff = scast perm"
proof -
  have hi: "\<not> bit perm n" if "10 \<le> n" for n
    using assms that by (intro small_high_bits [of perm 10]) (simp_all add: word_less_nat_alt)
  have m: "(0x3ff :: u64) = mask 10" by (simp add: mask_eq_exp_minus_1)
  show ?thesis
    unfolding m
  proof (rule bit_word_eqI)
    fix n assume "n < LENGTH(64)"
    have "bit (scast perm :: u64) n \<longleftrightarrow> n < 10 \<and> bit perm n" if "n < 64"
      using hi that by (cases "n < 10") (auto simp: bit_signed_iff min_def)
    then show "bit (entry pa perm AND mask 10) n = bit (scast perm :: u64) n"
      using entry_bits(2) [OF assms, of n pa] \<open>n < LENGTH(64)\<close> by (auto simp: bit_and_iff bit_mask_iff)
  qed
qed

lemma entry_leaf:
  assumes "leaf_perm perm"
  shows "entry pa perm AND 1 \<noteq> 0" "entry pa perm AND 0xa \<noteq> 0"
proof -
  have p: "perm < 1024" "perm AND 1 \<noteq> 0" "perm AND 0xa \<noteq> 0" using assms by (auto simp: leaf_perm_def)
  obtain n where n: "bit (perm AND 0xa) n" using p(3) by (metis bit_0_eq bit_eqI bot_apply bot_bool_def)
  then have "n < 4" using small_high_bits [of "0xa :: u32" 4 n] by (cases "n < 4") (auto simp: bit_and_iff)
  then have "bit (entry pa perm AND 0xa) n"
    using n entry_bits(2) [OF p(1), of n pa] by (auto simp: bit_and_iff bit_numeral_rec split: nat.splits)
  then show "entry pa perm AND 0xa \<noteq> 0" by auto
  have "bit perm 0" using p(2) by (metis and_one_eq even_iff_mod_2_eq_zero bit_0)
  then have "bit (entry pa perm) 0" using entry_bits(2) [OF p(1), of 0 pa] by simp
  then have "bit (entry pa perm AND 1) 0" by (simp add: bit_and_iff)
  then show "entry pa perm AND 1 \<noteq> 0" by auto
qed

definition npages :: "u64 \<Rightarrow> nat" where
  "npages sz = (unat sz + 4095) div 4096"

text \<open>The entry of a virtual address is not valid.\<close>

definition unmapped :: "mem \<Rightarrow> u64 \<Rightarrow> u64 \<Rightarrow> bool" where
  "unmapped m root va \<longleftrightarrow> lookup m root va AND 1 = 0"

lemma npages_bounds:
  "unat sz \<le> 4096 * npages sz" "npages sz > 0 \<Longrightarrow> 4096 * (npages sz - 1) < unat sz"
  "4096 * npages sz < unat sz + 4096"
proof -
  have "unat sz + 4095 = 4096 * npages sz + (unat sz + 4095) mod 4096"
    unfolding npages_def by (rule mult_div_mod_eq [symmetric])
  moreover have "(unat sz + 4095) mod 4096 \<le> 4095"
    using mod_less_divisor [of 4096 "unat sz + 4095"] by linarith
  ultimately show "unat sz \<le> 4096 * npages sz" "4096 * npages sz < unat sz + 4096"
    "npages sz > 0 \<Longrightarrow> 4096 * (npages sz - 1) < unat sz"
    by linarith+
qed

lemma offset_in_range:
  assumes "aligned 4096 va" "off < unat sz" "unat va + unat sz + 4096 \<le> 2 ^ 64"
  shows "in_range va (npages sz) (off div 4096) (va + of_nat off)"
proof -
  have w: "unat va + off < 2 ^ 64" "unat va + 4096 * (off div 4096) < 2 ^ 64"
    using assms div_times_less_eq_dividend [of off 4096] by linarith+
  have "off div 4096 < npages sz"
    using assms(2) npages_bounds(1) [of sz] by (intro less_mult_imp_div_less) linarith
  moreover have "vpage (va + of_nat off) = vpage (va + of_nat (4096 * (off div 4096)))"
  proof -
    obtain q where "unat va = 4096 * q" using assms(1) by (auto simp: aligned_def elim!: dvdE)
    then show ?thesis
      unfolding vpage_def unat_add_small [OF w(1)] unat_add_small [OF w(2)] by simp
  qed
  ultimately show ?thesis by (simp only: in_range_def)
qed

text \<open>The whole of \<open>create_mapping\<close>, in terms of last-level entries.\<close>

lemma create_mapping_pages:
  assumes "free_pages s ps" "pt_inv (kmem s) root (pa_of ` set ps)" "tptr P root"
    and "missing (kmem s) root (range_paths va (npages sz)) \<le> length ps"
    and "unat va + unat sz + 4096 \<le> 2 ^ 64" "npages sz \<le> 2 ^ 27"
  shows "\<exists>s'. create_mapping s P va pa sz perm = Some s' \<and>
    grows root (range_paths va (npages sz)) s ps s'
      (drop (missing (kmem s) root (range_paths va (npages sz))) ps) \<and>
    (\<forall>j x. in_range va (npages sz) j x \<longrightarrow> lookup (kmem s') root x =
       (if unmapped (kmem s) root x then entry (pa + of_nat (4096 * j)) perm
        else lookup (kmem s) root x)) \<and>
    (\<forall>x. (\<forall>j. \<not> in_range va (npages sz) j x) \<longrightarrow> lookup (kmem s') root x = lookup (kmem s) root x)"
proof -
  have "unat (va + sz) = unat va + unat sz"
    using assms(5) unat_add_small [of va "unat sz"] by simp
  then show ?thesis
    using create_mapping_loop_pages [OF assms(1-4), of "va + sz" pa perm] assms(5,6) npages_bounds [of sz]
    unfolding create_mapping_def unmapped_def by auto
qed

lemma translate_lookup:
  assumes inv: "pt_inv m root fr" and l: "lookup m root (va + of_nat off) = entry (pa + of_nat (4096 * (off div 4096))) perm"
    and al: "aligned 4096 va" "aligned 4096 pa" and perm: "leaf_perm perm" and wrap: "unat va + off < 2 ^ 64"
  shows "sv39_translate m root (va + of_nat off) = Some (pa + of_nat off)"
proof -
  define x A where "x = va + of_nat off" and "A = pa + of_nat (4096 * (off div 4096))"
  have p: "perm < 1024" using perm by (simp add: leaf_perm_def)
  have w: "sv39_walk m root x = Some (0, entry A perm)"
    using sv39_walk_lookup [OF inv, of x] l entry_leaf [OF perm, of A] by (simp add: x_def A_def)
  have "aligned 4096 (of_nat (4096 * k) :: u64)" for k
    unfolding aligned_def unat_of_nat by (rule dvd_mod) simp_all
  then have "aligned 4096 A" unfolding A_def using al by (intro aligned_add) auto
  then have lo: "\<not> bit A n" if "n < 12" for n using aligned_low_bits that by blast
  have A: "A AND NOT (mask 12) = A"
    by (rule bit_word_eqI) (use lo in \<open>auto simp: bit_simps intro: leI\<close>)
  have "unat x mod 4096 = off mod 4096"
    using unat_add_small [OF wrap] al(1) by (auto simp: x_def aligned_def mod_add_left_eq elim!: dvdE)
  then have tx: "x AND mask 12 = of_nat (off mod 4096)"
    by (simp add: word_unat_eq_iff unat_of_nat take_bit_eq_mod flip: take_bit_eq_mask)
      (simp add: unsigned_take_bit_eq take_bit_eq_mod unat_mod)
  have "A OR (x AND mask 12) = A + (x AND mask 12)"
    by (rule disjunctive_add [symmetric]) (use lo in \<open>auto simp: bit_simps\<close>)
  also have "\<dots> = pa + of_nat (4096 * (off div 4096) + off mod 4096)"
    unfolding tx A_def by (simp only: of_nat_add add.assoc)
  also have "\<dots> = pa + of_nat off" by (simp only: mult_div_mod_eq)
  finally show ?thesis
    using w entry_bits(1) [OF p, of A] A by (simp add: sv39_translate_def x_def [symmetric] and.assoc)
qed

section \<open>Kernel ranges\<close>

text \<open>The addresses an Sv39 machine accepts: bits 63 to 38 are all equal.\<close>

definition canonical :: "u64 \<Rightarrow> bool" where
  "canonical x \<longleftrightarrow> unat x < 2 ^ 38 \<or> 2 ^ 64 - 2 ^ 38 \<le> unat x"

lemma canonical_kernel: "VM_START \<le> x \<Longrightarrow> canonical x"
  by (simp add: canonical_def word_le_nat_alt layout_defs)

lemma vpage_canonical:
  assumes "canonical x" "canonical y"
  shows "vpage x = vpage y \<longleftrightarrow> unat x div 4096 = unat y div 4096"
proof -
  have key: "n div 4096 = (if n < 2 ^ 38 then n div 4096 mod 2 ^ 27 else n div 4096 mod 2 ^ 27 + (2 ^ 52 - 2 ^ 27))
      \<and> (n < 2 ^ 38 \<longleftrightarrow> n div 4096 mod 2 ^ 27 < 2 ^ 26)"
    if "n < 2 ^ 38 \<or> 2 ^ 64 - 2 ^ 38 \<le> n" "n < 2 ^ 64" for n :: nat
  proof (cases "n < 2 ^ 38")
    case True
    then have "n div 4096 < 2 ^ 26" by (intro less_mult_imp_div_less) simp
    then show ?thesis using True by simp
  next
    case False
    then have b: "2 ^ 52 - 2 ^ 26 \<le> n div 4096" "n div 4096 < 2 ^ 52"
      using that div_le_mono [of "2 ^ 64 - 2 ^ 38" n 4096] less_mult_imp_div_less [of n "2 ^ 52" 4096] by simp_all
    define k where "k = n div 4096 - (2 ^ 52 - 2 ^ 27)"
    have k: "n div 4096 = k + 2 ^ 27 * (2 ^ 25 - 1)" "k < 2 ^ 27" "2 ^ 26 \<le> k"
      using b by (simp_all add: k_def)
    have "n div 4096 mod 2 ^ 27 = k" using k(2) by (simp only: k(1) mod_mult_self2 mod_less)
    then show ?thesis using k False by simp
  qed
  have "unat z div 4096 = (if vpage z < 2 ^ 26 then vpage z else vpage z + (2 ^ 52 - 2 ^ 27))"
    if "canonical z" for z
    using key [of "unat z"] that unat_lt_two64 [of z] unfolding canonical_def vpage_def by metis
  from this [OF assms(1)] this [OF assms(2)] show ?thesis unfolding vpage_def by metis
qed

lemma entry_page: "unat a div 4096 = unat b div 4096 \<Longrightarrow> entry a perm = entry b perm"
proof -
  assume "unat a div 4096 = unat b div 4096"
  then have "drop_bit 12 a = drop_bit 12 b"
    by (simp add: word_unat_eq_iff unat_drop_bit_eq drop_bit_eq_div unat_div)
  then show ?thesis by (simp add: entry_def)
qed

definition kernel_paths :: "u64 list set" where
  "kernel_paths = insert [384] ((\<lambda>i. [384, i]) ` {i. i < 64})"

lemma kernel_paths_card: "card kernel_paths \<le> 65" "finite kernel_paths" "q \<in> kernel_paths \<Longrightarrow> vpath q"
proof -
  have "{i :: u64. i < 64} = of_nat ` {..<64}"
  proof (intro set_eqI iffI)
    fix i :: u64 assume "i \<in> {i. i < 64}"
    then show "i \<in> of_nat ` {..<64}" by (intro image_eqI [of _ _ "unat i"]) (simp_all add: word_less_nat_alt)
  qed (auto simp: word_less_nat_alt unat_of_nat)
  then have i: "finite {i :: u64. i < 64}" "card {i :: u64. i < 64} \<le> 64"
    using card_image_le [of "{..<64}" "of_nat :: nat \<Rightarrow> u64"] by simp_all
  have "card ((\<lambda>i. [384, i]) ` {i :: u64. i < 64}) \<le> 64"
    using card_image_le [OF i(1), of "\<lambda>i. [384, i]"] i(2) by linarith
  then show "card kernel_paths \<le> 65" unfolding kernel_paths_def
    using card_insert_le_m1 [of 65] i(1) by (simp add: card_insert_if)
  show "finite kernel_paths" using i(1) by (simp add: kernel_paths_def)
  show "q \<in> kernel_paths \<Longrightarrow> vpath q"
    by (auto simp: kernel_paths_def vpath_def word_less_nat_alt)
qed

lemma walk_paths_kernel:
  assumes "VM_START \<le> x" "x < ram_end"
  shows "walk_paths x \<subseteq> kernel_paths"
proof -
  have b: "0xffffffe000000000 \<le> unat x" "unat x < 0xffffffe008000000"
    using assms by (simp_all add: word_le_nat_alt word_less_nat_alt layout_defs)
  define y where "y = unat x - 0xffffffe000000000"
  have y: "unat x = y + 2 ^ 30 * 0x3ffffff80" "y < 2 ^ 27" using b by (simp_all add: y_def)
  have "unat x div 2 ^ 30 = 0x3ffffff80" using y(2) by (simp add: y(1) div_add1_eq)
  then have "unat (vpn 2 x) = 384" by (simp add: unat_vpn)
  then have v2: "vpn 2 x = 384" by (simp add: word_unat_eq_iff)
  have "unat x = y + 2 ^ 21 * 0x7ffffff0000" using y(1) by simp
  then have "unat x div 2 ^ 21 = y div 2 ^ 21 + 0x7ffffff0000" by simp
  moreover have "y div 2 ^ 21 < 64" using y(2) by (intro less_mult_imp_div_less) simp
  ultimately have "unat (vpn 1 x) < 64" by (simp add: unat_vpn mod_add_eq [symmetric])
  then show ?thesis using v2 by (simp add: walk_paths_def kernel_paths_def word_less_nat_alt)
qed

lemma missing_within:
  assumes g: "grows root Q s ps s' (drop (missing (kmem s) root Q) ps)" and Q: "Q \<subseteq> KP"
    and KP: "finite KP" "\<forall>q \<in> KP. vpath q" and room: "missing (kmem s) root KP \<le> length ps"
  shows "missing (kmem s') root KP \<le> length (drop (missing (kmem s) root Q) ps)"
proof -
  have "missing (kmem s) root (Q \<union> KP) = missing (kmem s) root Q + missing (kmem s') root KP"
    using Q KP by (intro missing_union [OF g]) (auto intro: finite_subset)
  then show ?thesis using room Q by (simp add: Un_absorb1)
qed

lemma missing_mono: "Q \<subseteq> KP \<Longrightarrow> finite KP \<Longrightarrow> missing m root Q \<le> missing m root KP"
  unfolding missing_def by (intro card_mono) auto

text \<open>A range of kernel addresses from a page boundary up to any end within RAM.\<close>

definition krange :: "u64 \<Rightarrow> u64 \<Rightarrow> bool" where
  "krange va e \<longleftrightarrow> aligned 4096 va \<and> VM_START \<le> va \<and> va \<le> e \<and> e \<le> ram_end"

lemma krange_unat:
  assumes "krange va e"
  shows "unat (e - va) = unat e - unat va" "unat va \<le> unat e" "unat e \<le> 0xffffffe008000000"
    "0xffffffe000000000 \<le> unat va"
  using assms unat_ram_end by (simp_all add: krange_def unat_sub word_le_nat_alt VM_START_def)

lemma krange_pages:
  assumes k: "krange va e"
  shows "unat va + 4096 * npages (e - va) = unat (PGROUNDUP e)"
    and "unat (PGROUNDUP e) \<le> 0xffffffe008000000"
    and "unat va + unat (e - va) + 4096 \<le> 2 ^ 64"
    and "npages (e - va) \<le> 2 ^ 27"
    and "j < npages (e - va) \<Longrightarrow> unat (va + of_nat (4096 * j)) = unat va + 4096 * j"
proof -
  note ue = krange_unat [OF k]
  obtain q where q: "unat va = 4096 * q" using k by (auto simp: krange_def aligned_def elim!: dvdE)
  have e: "e \<le> ram_end" using k by (simp add: krange_def)
  have "unat e + 4095 = (unat e - unat va + 4095) + 4096 * q" using ue q by linarith
  then have "(unat e + 4095) div 4096 = npages (e - va) + q" by (simp add: npages_def ue)
  then show n: "unat va + 4096 * npages (e - va) = unat (PGROUNDUP e)"
    using q PGROUNDUP_unat [OF e] by simp
  show ee: "unat (PGROUNDUP e) \<le> 0xffffffe008000000"
    using aligned_le_iff [of "0xffffffe008000000" "unat e"] ue(3) PGROUNDUP_unat [OF e] by simp
  have two: "(2 :: nat) ^ 64 = 18446744073709551616" by simp
  show "unat va + unat (e - va) + 4096 \<le> 2 ^ 64" using ue two by linarith
  show "npages (e - va) \<le> 2 ^ 27" using n ee ue by simp
  show "unat (va + of_nat (4096 * j)) = unat va + 4096 * j" if "j < npages (e - va)"
    using n ee that two by (intro unat_add_small) linarith
qed

lemma in_range_krange:
  assumes k: "krange va e" and x: "canonical x"
  shows "in_range va (npages (e - va)) j x \<longleftrightarrow>
    j < npages (e - va) \<and> unat x div 4096 = unat va div 4096 + j"
proof (cases "j < npages (e - va)")
  case True
  have u: "unat (va + of_nat (4096 * j)) = unat va + 4096 * j" by (rule krange_pages(5) [OF k True])
  then have c: "canonical (va + of_nat (4096 * j))"
    using krange_unat(4) [OF k] unfolding canonical_def by simp
  have "unat (va + of_nat (4096 * j)) div 4096 = unat va div 4096 + j" unfolding u by simp
  then show ?thesis using vpage_canonical [OF x c] True by (simp only: in_range_def)
qed (simp add: in_range_def)

lemma in_krange_iff:
  assumes k: "krange va e" and x: "canonical x"
  shows "(\<exists>j. in_range va (npages (e - va)) j x) \<longleftrightarrow> va \<le> x \<and> x < PGROUNDUP e"
proof -
  obtain q where q: "unat va = 4096 * q" using k by (auto simp: krange_def aligned_def elim!: dvdE)
  have n: "unat (PGROUNDUP e) = 4096 * (q + npages (e - va))" using krange_pages(1) [OF k] q by simp
  have "(\<exists>j. in_range va (npages (e - va)) j x) \<longleftrightarrow>
      q \<le> unat x div 4096 \<and> unat x div 4096 < q + npages (e - va)"
    unfolding in_range_krange [OF k x] q using nat_le_iff_add by auto
  also have "\<dots> \<longleftrightarrow> 4096 * q \<le> unat x \<and> unat x < 4096 * (q + npages (e - va))"
    by (simp add: less_eq_div_iff_mult_less_eq div_less_iff_less_mult mult.commute)
  finally show ?thesis by (simp only: word_le_nat_alt word_less_nat_alt q n)
qed

lemma entry_krange:
  assumes k: "krange va e" and x: "canonical x" and j: "in_range va (npages (e - va)) j x"
  shows "entry (va - PA2VA_OFFSET + of_nat (4096 * j)) perm = entry (pa_of x) perm"
proof (rule entry_page)
  have vx: "va \<le> x" using in_krange_iff [OF k x] j by blast
  then have pa: "pa_of x = x - PA2VA_OFFSET" using k by (auto simp: pa_of_def krange_def)
  have "4096 dvd unat PA2VA_OFFSET" by (simp add: layout_defs)
  then obtain C where C: "unat PA2VA_OFFSET = 4096 * C" by (rule dvdE)
  have jx: "j < npages (e - va)" "unat x div 4096 = unat va div 4096 + j" using j in_range_krange [OF k x] by auto
  have "PA2VA_OFFSET \<le> va" using krange_unat(4) [OF k] by (simp add: word_le_nat_alt layout_defs)
  then have le: "PA2VA_OFFSET \<le> va" "PA2VA_OFFSET \<le> x" using vx by simp_all
  then have "4096 * C \<le> unat x" "4096 * C \<le> unat va" by (simp_all only: word_le_nat_alt C)
  then obtain a b where ab: "unat x = a + 4096 * C" "unat va = b + 4096 * C"
    by (metis le_add_diff_inverse2)
  have s: "unat (x - PA2VA_OFFSET) = a" "unat (va - PA2VA_OFFSET) = b"
    unfolding unat_sub [OF le(1)] unat_sub [OF le(2)] C ab by (rule add_diff_cancel_right')+
  have "b + 4096 * j < 2 ^ 64"
    using krange_pages(5) [OF k jx(1)] unat_lt_two64 [of "va + of_nat (4096 * j)"] ab(2) by linarith
  then have u: "unat (va - PA2VA_OFFSET + of_nat (4096 * j)) = b + 4096 * j"
    using unat_add_small [of "va - PA2VA_OFFSET" "4096 * j"] unfolding s(2) by blast
  have "a div 4096 = b div 4096 + j" using jx(2) unfolding ab by simp
  then show "unat (va - PA2VA_OFFSET + of_nat (4096 * j)) div 4096 = unat (pa_of x) div 4096"
    unfolding pa u s(1) by simp
qed

text \<open>A call of \<open>create_mapping\<close> that maps kernel addresses to where the direct map has them.\<close>

lemma create_mapping_kernel:
  assumes st: "free_pages s ps" "pt_inv (kmem s) root (pa_of ` set ps)" "tptr P root"
    and room: "missing (kmem s) root kernel_paths \<le> length ps" and k: "krange va e"
  shows "\<exists>s' ps'. create_mapping s P va (va - PA2VA_OFFSET) (e - va) perm = Some s' \<and>
    free_pages s' ps' \<and> pt_inv (kmem s') root (pa_of ` set ps') \<and> set ps' \<subseteq> set ps \<and>
    missing (kmem s') root kernel_paths \<le> length ps' \<and>
    (\<forall>x. canonical x \<longrightarrow> lookup (kmem s') root x =
       (if va \<le> x \<and> x < PGROUNDUP e \<and> unmapped (kmem s) root x then entry (pa_of x) perm
        else lookup (kmem s) root x))"
proof -
  define n where "n = npages (e - va)"
  have sub: "range_paths va n \<subseteq> kernel_paths"
  proof
    fix p assume "p \<in> range_paths va n"
    then obtain j where j: "j < npages (e - va)" and p: "p \<in> walk_paths (va + of_nat (4096 * j))"
      by (auto simp: range_paths_def pages_from_def n_def)
    have "unat va + 4096 * j < 0xffffffe008000000"
      using krange_pages(1,2) [OF k] j by linarith
    then have "VM_START \<le> va + of_nat (4096 * j)" "va + of_nat (4096 * j) < ram_end"
      unfolding word_le_nat_alt word_less_nat_alt krange_pages(5) [OF k j] unat_ram_end
      using krange_unat(4) [OF k] by (simp add: VM_START_def, blast)
    then show "p \<in> kernel_paths" using p walk_paths_kernel by blast
  qed
  have m: "missing (kmem s) root (range_paths va n) \<le> length ps"
    using room missing_mono [OF sub kernel_paths_card(2), of "kmem s" root] by simp
  obtain s' where c: "create_mapping s P va (va - PA2VA_OFFSET) (e - va) perm = Some s'"
    and g: "grows root (range_paths va n) s ps s' (drop (missing (kmem s) root (range_paths va n)) ps)"
    and l: "\<And>j x. in_range va n j x \<Longrightarrow> lookup (kmem s') root x =
       (if unmapped (kmem s) root x then entry (va - PA2VA_OFFSET + of_nat (4096 * j)) perm
        else lookup (kmem s) root x)"
    and l': "\<And>x. (\<forall>j. \<not> in_range va n j x) \<Longrightarrow> lookup (kmem s') root x = lookup (kmem s) root x"
    using create_mapping_pages [OF st m [unfolded n_def] krange_pages(3,4) [OF k]] unfolding n_def by blast
  have "lookup (kmem s') root x =
       (if va \<le> x \<and> x < PGROUNDUP e \<and> unmapped (kmem s) root x then entry (pa_of x) perm
        else lookup (kmem s) root x)" if x: "canonical x" for x
  proof (cases "\<exists>j. in_range va n j x")
    case True
    then obtain j where j: "in_range va n j x" ..
    then show ?thesis
      using l [OF j] entry_krange [OF k x, of j perm] in_krange_iff [OF k x] unfolding n_def by auto
  next
    case False
    then show ?thesis using l' [of x] in_krange_iff [OF k x] unfolding n_def by auto
  qed
  then show ?thesis
    using c g missing_within [OF g sub kernel_paths_card(2) _ room] kernel_paths_card(3)
    unfolding grows_def by blast
qed

lemma pt_inv_empty:
  assumes root: "ppage root" "root \<notin> fr" and z: "\<And>i. i < 512 \<Longrightarrow> pte m root i = 0"
  shows "pt_inv m root fr" "unmapped m root x" "lookup m root x = 0"
proof -
  have n: "nxt m root i = None" if "i < 512" for i using z [OF that] by (simp add: nxt_def)
  have t: "tab m root p = Some T \<longleftrightarrow> p = [] \<and> T = root" if "vpath p" for p T
    using that by (cases rule: vpath_cases) (auto simp: n)
  show "pt_inv m root fr" using root z unfolding pt_inv_def by (auto simp: t)
  show "lookup m root x = 0" by (simp add: lookup_def leaf_def n vpn_bound)
  then show "unmapped m root x" by (simp add: unmapped_def)
qed

section \<open>The kernel's own map\<close>

text \<open>What \<open>vmlinux.lds\<close> guarantees of the symbols: sections start on page boundaries, in order.\<close>

definition kernel_image :: "kernel_symbols \<Rightarrow> bool" where
  "kernel_image k \<longleftrightarrow>
     krange (stext k) (etext k) \<and> krange (srodata k) (erodata k) \<and> krange (sdata k) ram_end \<and>
     PGROUNDUP (etext k) \<le> srodata k \<and> PGROUNDUP (erodata k) \<le> sdata k \<and> kpage (swapper_pg_dir k)"

text \<open>The permission of a kernel address: text, read-only data, everything from the data on.\<close>

definition kernel_perm :: "kernel_symbols \<Rightarrow> u64 \<Rightarrow> u32 option" where
  "kernel_perm k x =
     (if stext k \<le> x \<and> x < PGROUNDUP (etext k) then Some 11
      else if srodata k \<le> x \<and> x < PGROUNDUP (erodata k) then Some 3
      else if sdata k \<le> x \<and> x < ram_end then Some 7
      else None)"

definition satp_root :: "u64 \<Rightarrow> u64" where
  "satp_root satp = push_bit 12 (take_bit 44 satp)"

definition satp_mode :: "u64 \<Rightarrow> u64" where
  "satp_mode satp = drop_bit 60 satp"

lemma satp_of_root:
  assumes "ppage T"
  shows "satp_root (drop_bit 12 T OR 0x8000000000000000) = T"
    and "satp_mode (drop_bit 12 T OR 0x8000000000000000) = 8"
proof -
  have lo: "\<not> bit T n" if "n < 12" for n using assms that by (simp add: ppage_def aligned_low_bits)
  have hi: "\<not> bit T n" if "32 \<le> n" for n
    using ppage_unat [OF assms] that by (intro small_high_bits [where k = 32]) auto
  have c: "(0x8000000000000000 :: u64) = push_bit 63 1" by simp
  have b: "bit (drop_bit 12 T OR push_bit 63 1) n \<longleftrightarrow> bit T (12 + n) \<or> n = 63" for n
    unfolding bit_or_iff bit_drop_bit_eq bit_push_bit_iff bit_1_iff by auto
  show "satp_root (drop_bit 12 T OR 0x8000000000000000) = T"
    unfolding c satp_root_def
  proof (rule bit_word_eqI)
    fix n assume "n < LENGTH(64)"
    then show "bit (push_bit 12 (take_bit 44 (drop_bit 12 T OR push_bit 63 1))) n = bit T n"
      unfolding bit_push_bit_iff bit_take_bit_iff b
      using lo [of n] hi [of n] by (cases "n < 12"; cases "32 \<le> n") auto
  qed
  have e: "(8 :: u64) = push_bit 3 1" by simp
  show "satp_mode (drop_bit 12 T OR 0x8000000000000000) = 8"
    unfolding c e satp_mode_def
  proof (rule bit_word_eqI)
    fix n assume "n < LENGTH(64)"
    then show "bit (drop_bit 60 (drop_bit 12 T OR push_bit 63 1)) n = bit (push_bit 3 1 :: u64) n"
      unfolding bit_drop_bit_eq comp_def b bit_push_bit_iff bit_1_iff using hi [of "12 + (60 + n)"] by auto
  qed
qed

lemma setup_vm_final_steps:
  assumes st: "free_pages s ps" "swapper_pg_dir k \<notin> set ps" "65 \<le> length ps" and k: "kernel_image k"
  defines "root \<equiv> pa_of (swapper_pg_dir k)"
  shows "\<exists>s' fr. setup_vm_final k s =
      Some (drop_bit 12 root OR 0x8000000000000000, s') \<and> pt_inv (kmem s') root fr \<and>
      (\<forall>x. canonical x \<longrightarrow> lookup (kmem s') root x =
        (case kernel_perm k x of None \<Rightarrow> 0 | Some perm \<Rightarrow> entry (pa_of x) perm))"
proof -
  let ?P = "swapper_pg_dir k"
  have P: "kpage ?P" using k by (simp add: kernel_image_def)
  then have rt: "ppage root" "?P - PA2VA_OFFSET = root" "tptr ?P root"
    using kpage_ppage [OF P] by (simp_all add: root_def pa_of_def kpage_def tptr_def)
  have kr: "krange (stext k) (etext k)" "krange (srodata k) (erodata k)" "krange (sdata k) ram_end"
    using k by (simp_all add: kernel_image_def)
  define s0 where "s0 = s\<lparr>kmem := memset (kmem s) ?P 0 PGSIZE\<rparr>"
  have fr: "root \<notin> pa_of ` set ps"
    using st(1,2) P pa_of_inj by (auto simp: root_def free_pages_def kpage_def)
  have "pte (kmem s0) root i = 0" if "i < 512" for i
    using pte_memset [OF P rt(1) that, of "kmem s"] by (simp add: s0_def root_def)
  note i0 = pt_inv_empty [OF rt(1) fr this] 
  have same: "ld (kmem s0) q = ld (kmem s) q" if "q \<in> set ps" for q
    using that st(1,2) P ld_memset [OF P, of q] by (auto simp: s0_def free_pages_def addr_simps)
  have f0: "free_pages s0 ps" using free_pages_frame [OF st(1) _ same] by (simp add: s0_def)
  have "missing (kmem s0) root kernel_paths \<le> card kernel_paths"
    unfolding missing_def using kernel_paths_card(2) by (intro card_mono) auto
  then have m0: "missing (kmem s0) root kernel_paths \<le> length ps" using kernel_paths_card(1) st(3) by simp
  from create_mapping_kernel [OF f0 i0(1) rt(3) m0 kr(1), of 11]
  obtain s1 ps1 where c1: "create_mapping s0 ?P (stext k) (stext k - PA2VA_OFFSET) (etext k - stext k) 11 = Some s1"
    and s1: "free_pages s1 ps1" "pt_inv (kmem s1) root (pa_of ` set ps1)" "missing (kmem s1) root kernel_paths \<le> length ps1"
    and l1: "\<And>x. canonical x \<Longrightarrow> lookup (kmem s1) root x =
       (if stext k \<le> x \<and> x < PGROUNDUP (etext k) then entry (pa_of x) 11 else 0)"
    using i0 by auto
  from create_mapping_kernel [OF s1(1,2) rt(3) s1(3) kr(2), of 3]
  obtain s2 ps2 where c2: "create_mapping s1 ?P (srodata k) (srodata k - PA2VA_OFFSET) (erodata k - srodata k) 3 = Some s2"
    and s2: "free_pages s2 ps2" "pt_inv (kmem s2) root (pa_of ` set ps2)" "missing (kmem s2) root kernel_paths \<le> length ps2"
    and l2: "\<And>x. canonical x \<Longrightarrow> lookup (kmem s2) root x =
       (if srodata k \<le> x \<and> x < PGROUNDUP (erodata k) \<and> unmapped (kmem s1) root x then entry (pa_of x) 3
        else lookup (kmem s1) root x)"
    by auto
  from create_mapping_kernel [OF s2(1,2) rt(3) s2(3) kr(3), of 7]
  obtain s3 ps3 where c3: "create_mapping s2 ?P (sdata k) (sdata k - PA2VA_OFFSET) (ram_end - sdata k) 7 = Some s3"
    and s3: "pt_inv (kmem s3) root (pa_of ` set ps3)"
    and l3: "\<And>x. canonical x \<Longrightarrow> lookup (kmem s3) root x =
       (if sdata k \<le> x \<and> x < PGROUNDUP ram_end \<and> unmapped (kmem s2) root x then entry (pa_of x) 7
        else lookup (kmem s2) root x)"
    by auto
  have re: "PGROUNDUP ram_end = ram_end" "PHY_END + PA2VA_OFFSET = ram_end"
    by (simp_all add: PGROUNDUP_def layout_defs)
  have v: "entry y 11 AND 1 \<noteq> 0" "entry y 3 AND 1 \<noteq> 0" for y
    by (rule entry_leaf, simp add: leaf_perm_def)+
  have "lookup (kmem s3) root x = (case kernel_perm k x of None \<Rightarrow> 0 | Some perm \<Rightarrow> entry (pa_of x) perm)"
    if "canonical x" for x
    using l1 [OF that] l2 [OF that] l3 [OF that] v [of "pa_of x"]
    by (auto simp: kernel_perm_def unmapped_def re)
  moreover have "setup_vm_final k s = Some (drop_bit 12 root OR 0x8000000000000000, s3)"
    using c1 c2 c3 by (simp add: setup_vm_final_def Let_def re rt(2) flip: s0_def)
  ultimately show ?thesis using s3 by blast
qed

section \<open>Properties\<close>

lemma of_unat: "of_nat (unat (w :: u64)) = w"
  by simp

text \<open>
  \<open>setup_vm\<close> on a zeroed page builds a root table under which both windows of the kernel, the
  identity window and the direct map, translate as \<open>pa_of\<close> does, one gigabyte each, and every
  other gigabyte is unmapped.
\<close>

theorem early_pgtbl_translates:
  assumes "ppage T" "\<And>i. i < 512 \<Longrightarrow> pte m T i = 0"
  shows "(VM_START \<le> a \<longrightarrow> a < VM_START + 0x40000000 \<longrightarrow> sv39_translate (setup_vm m T) T a = Some (pa_of a)) \<and>
    (PHY_START \<le> a \<longrightarrow> a < PHY_START + 0x40000000 \<longrightarrow> sv39_translate (setup_vm m T) T a = Some (pa_of a)) \<and>
    (vpn 2 a \<noteq> 2 \<and> vpn 2 a \<noteq> 384 \<longrightarrow> sv39_translate (setup_vm m T) T a = None)"
proof -
  define E :: u64 where "E = 0x2000000f"
  have p: "pte (setup_vm m T) T i = (if i = 2 \<or> i = 384 then E else 0)" if "i < 512" for i
  proof -
    have sv: "setup_vm m T = store64 (store64 m (T + 8 * 2) E) (T + 8 * 384) E"
      by (simp add: setup_vm_def Let_def E_def)
    show ?thesis
      unfolding sv using assms(2) that pte_store [OF assms(1) assms(1) _ that, of 2]
        pte_store [OF assms(1) assms(1) _ that, of 384] by auto
  qed
  have tr: "sv39_translate (setup_vm m T) T a =
      (if vpn 2 a = 2 \<or> vpn 2 a = 384 then Some (0x80000000 OR (a AND mask 30)) else None)"
    using p [OF vpn_bound, of 2 a]
    by (simp add: sv39_translate_def sv39_walk_def sv39_from.simps [of _ 2] E_def pte_next_def mask_eq_exp_minus_1)
  have giga: "0x80000000 OR (a AND mask 30) = 0x80000000 + of_nat y \<and> unat (vpn 2 a) = c mod 512"
    if "unat a = y + 2 ^ 30 * c" "y < 2 ^ 30" for y c
  proof
    have t: "a AND mask 30 = of_nat y"
    proof -
      have "unat (take_bit 30 a) = take_bit 30 (unat a)" by (simp only: unsigned_take_bit_eq)
      also have "\<dots> = y" using that(2) by (simp only: that(1) take_bit_eq_mod mod_mult_self2 mod_less)
      finally show ?thesis by (metis take_bit_eq_mask of_unat)
    qed
    have "\<not> bit (0x80000000 :: u64) n \<or> \<not> bit (of_nat y :: u64) n" for n
    proof (cases "n < 30")
      case True
      have "(0x80000000 :: u64) = push_bit 31 1" by simp
      then show ?thesis using True by (simp only: bit_push_bit_iff) simp
    next
      case False
      have "unat (of_nat y :: u64) < 2 ^ 30" using that(2) by (simp add: unat_of_nat)
      then show ?thesis using small_high_bits [of "of_nat y :: u64" 30 n] False by simp
    qed
    then show "0x80000000 OR (a AND mask 30) = 0x80000000 + of_nat y"
      unfolding t by (rule disjunctive_add [symmetric])
    have "unat a div 2 ^ 30 = c" using that by simp
    then show "unat (vpn 2 a) = c mod 512" by (simp add: unat_vpn)
  qed
  have w: "vpn 2 a = 2 \<longleftrightarrow> unat (vpn 2 a) = 2" "vpn 2 a = 384 \<longleftrightarrow> unat (vpn 2 a) = 384"
    by (simp_all add: word_unat_eq_iff)
  have "sv39_translate (setup_vm m T) T a = Some (pa_of a)" if "VM_START \<le> a" "a < VM_START + 0x40000000"
  proof -
    define y where "y = unat a - 0xffffffe000000000"
    have y: "unat a = y + 2 ^ 30 * 0x3ffffff80" "y < 2 ^ 30"
      using that by (simp_all add: y_def VM_START_def word_le_nat_alt word_less_nat_alt)
    have "a = of_nat (y + 2 ^ 30 * 0x3ffffff80)" using y(1) by (metis of_unat)
    then have "pa_of a = 0x80000000 + of_nat y" using that(1) by (simp add: pa_of_def layout_defs)
    then show ?thesis using giga [OF y] tr by (simp add: w)
  qed
  moreover have "sv39_translate (setup_vm m T) T a = Some (pa_of a)" if "PHY_START \<le> a" "a < PHY_START + 0x40000000"
  proof -
    define y where "y = unat a - 0x80000000"
    have y: "unat a = y + 2 ^ 30 * 2" "y < 2 ^ 30"
      using that by (simp_all add: y_def PHY_START_def word_le_nat_alt word_less_nat_alt)
    have "a = of_nat (y + 2 ^ 30 * 2)" using y(1) by (metis of_unat)
    moreover have "\<not> VM_START \<le> a" using that by (simp add: layout_defs word_le_nat_alt word_less_nat_alt)
    ultimately have "pa_of a = 0x80000000 + of_nat y" by (simp add: pa_of_def)
    then show ?thesis using giga [OF y] tr by (simp add: w)
  qed
  ultimately show ?thesis using tr by auto
qed

text \<open>
  C4: \<open>create_mapping\<close> of a range whose tables fit the free list returns, takes exactly one page per
  missing table, and afterwards every address of the range that had no valid entry translates to
  the corresponding physical address with the requested permission bits; entries that were valid
  keep their value, and so does every address outside the pages of the range.
\<close>

theorem create_mapping_translates:
  assumes "free_pages s ps" "pt_inv (kmem s) root (pa_of ` set ps)" "tptr pgtbl root"
    and "missing (kmem s) root (range_paths va (npages sz)) \<le> length ps"
    and "aligned 4096 va" "aligned 4096 pa" "unat va + unat sz + 4096 \<le> 2 ^ 64" "sz \<le> 0x8000000000"
    and "leaf_perm perm"
  shows "\<exists>s'. create_mapping s pgtbl va pa sz perm = Some s' \<and>
    free_pages s' (drop (missing (kmem s) root (range_paths va (npages sz))) ps) \<and>
    (\<forall>off < unat sz. unmapped (kmem s) root (va + of_nat off) \<longrightarrow>
       sv39_translate (kmem s') root (va + of_nat off) = Some (pa + of_nat off) \<and>
       sv39_walk (kmem s') root (va + of_nat off) =
         Some (0, entry (pa + of_nat (4096 * (off div 4096))) perm)) \<and>
    (\<forall>x. \<not> unmapped (kmem s) root x \<or> (\<forall>j < npages sz. vpage x \<noteq> vpage (va + of_nat (4096 * j))) \<longrightarrow>
       sv39_walk (kmem s') root x = sv39_walk (kmem s) root x)"
proof -
  have n: "npages sz \<le> 2 ^ 27"
    using assms(8) npages_bounds(3) [of sz] by (simp add: word_le_nat_alt)
  obtain s' where c: "create_mapping s pgtbl va pa sz perm = Some s'"
    and g: "free_pages s' (drop (missing (kmem s) root (range_paths va (npages sz))) ps)"
    and i: "pt_inv (kmem s') root (pa_of ` set (drop (missing (kmem s) root (range_paths va (npages sz))) ps))"
    and l: "\<And>j x. in_range va (npages sz) j x \<Longrightarrow> lookup (kmem s') root x =
       (if unmapped (kmem s) root x then entry (pa + of_nat (4096 * j)) perm
        else lookup (kmem s) root x)"
    and l': "\<And>x. (\<forall>j. \<not> in_range va (npages sz) j x) \<Longrightarrow> lookup (kmem s') root x = lookup (kmem s) root x"
    using create_mapping_pages [OF assms(1-4,7) n, of pa perm] unfolding grows_def by blast
  have new: "lookup (kmem s') root (va + of_nat off) = entry (pa + of_nat (4096 * (off div 4096))) perm"
    if "off < unat sz" "unmapped (kmem s) root (va + of_nat off)" for off
    using l [OF offset_in_range [OF assms(5) that(1) assms(7)]] that(2) by simp
  have "sv39_translate (kmem s') root (va + of_nat off) = Some (pa + of_nat off) \<and>
       sv39_walk (kmem s') root (va + of_nat off) = Some (0, entry (pa + of_nat (4096 * (off div 4096))) perm)"
    if "off < unat sz" "unmapped (kmem s) root (va + of_nat off)" for off
    using translate_lookup [OF i new [OF that] assms(5,6,9)] that assms(7)
      sv39_walk_lookup [OF i, of "va + of_nat off"] new [OF that] entry_leaf [OF assms(9)] by simp
  moreover have "sv39_walk (kmem s') root x = sv39_walk (kmem s) root x"
    if "\<not> unmapped (kmem s) root x \<or> (\<forall>j < npages sz. vpage x \<noteq> vpage (va + of_nat (4096 * j)))" for x
  proof -
    have "lookup (kmem s') root x = lookup (kmem s) root x"
      using l [of _ x] l' [of x] that unfolding in_range_def by metis
    then show ?thesis by (simp add: sv39_walk_lookup [OF i] sv39_walk_lookup [OF assms(2)])
  qed
  ultimately show ?thesis using c g by blast
qed

definition two_page_state :: kstate where
  "two_page_state = kfree (kfree \<lparr>kmem = (\<lambda>_. 0), freelist = 0\<rparr> (VM_START + 0x1000)) (VM_START + 0x2000)"

lemma two_page_state:
  "free_pages two_page_state [VM_START + 0x2000, VM_START + 0x1000]"
  "i < 512 \<Longrightarrow> pte (kmem two_page_state) (PHY_START + 0x3000) i = 0"
proof -
  define z :: kstate where "z = \<lparr>kmem = (\<lambda>_. 0), freelist = 0\<rparr>"
  have z: "free_pages z []" by (simp add: z_def free_pages_def)
  have 1: "free_pages (kfree z (VM_START + 0x1000)) [VM_START + 0x1000]"
    using kfree_free_pages(1) [OF z kpage_example(1)] by simp
  have ne: "VM_START + 0x2000 \<notin> set [VM_START + 0x1000]" by simp
  show "free_pages two_page_state [VM_START + 0x2000, VM_START + 0x1000]"
    using kfree_free_pages(1) [OF 1 kpage_example(2) ne] by (simp add: two_page_state_def z_def)
  define P where "P = VM_START + 0x3000"
  have P: "kpage P" by (simp add: P_def kpage_def aligned_def layout_defs)
  have tp: "tptr P (PHY_START + 0x3000)"
    by (simp add: P_def tptr_def ppage_def aligned_def layout_defs)
  show "pte (kmem two_page_state) (PHY_START + 0x3000) i = 0" if i: "i < 512"
  proof -
    define a where "a = P + 8 * i"
    have a: "a = P + of_nat (8 * unat i)" unfolding a_def by (rule slot_of_nat)
    have off: "8 * unat i < 4096" by (rule index_offset [OF i])
    have ka: "kva a" unfolding a using P off by (intro kva_offset) auto
    have np: "\<not> in_page q a \<and> a \<noteq> q" if "q = VM_START + 0x1000 \<or> q = VM_START + 0x2000" for q
    proof -
      have q: "kpage q" "P \<noteq> q" using that kpage_example by (auto simp: P_def)
      show ?thesis
        using in_page_offset [OF P q(1) off] kpage_offset_eq [OF P q(1) off, of 0] q(2) unfolding a by simp
    qed
    have "ld (kmem two_page_state) a = ld (kmem z) a"
      using kfree_free_pages(2) [OF 1 kpage_example(2) ne ka] kfree_free_pages(2) [OF z kpage_example(1) _ ka] np
      by (simp add: two_page_state_def flip: z_def)
    then show ?thesis using ld_tptr [OF tp i, of "kmem two_page_state"]
      by (simp add: a_def z_def ld_def load64_zero_mem)
  qed
qed

theorem create_mapping_translates_witness:
  "\<exists>s'. create_mapping two_page_state (VM_START + 0x3000) 0x1000 (PHY_START + 0x5000) 0x1000 31 = Some s' \<and>
     free_pages s' [] \<and> sv39_translate (kmem s') (PHY_START + 0x3000) 0x1234 = Some (PHY_START + 0x5234)"
proof -
  let ?r = "PHY_START + 0x3000"
  have n: "npages 0x1000 = 1" by (simp add: npages_def)
  have rp: "range_paths 0x1000 1 = {[0], [0, 0]}"
    by (simp add: range_paths_def pages_from_def walk_paths_def vpn_def)
  have r: "ppage ?r" "?r \<notin> pa_of ` set [VM_START + 0x2000, VM_START + 0x1000]"
    by (simp_all add: ppage_def aligned_def layout_defs pa_of_def)
  note e = pt_inv_empty [OF r two_page_state(2)]
  have "nxt (kmem two_page_state) ?r 0 = None" using two_page_state(2) [of 0] by (simp add: nxt_def)
  then have "{q \<in> {[0], [0, 0]}. tab (kmem two_page_state) ?r q = None} = {[0], [0, 0]}" by auto
  then have m: "missing (kmem two_page_state) ?r {[0], [0, 0]} = 2" by (simp add: missing_def)
  have t: "tptr (VM_START + 0x3000) ?r" using r(1) by (simp add: tptr_def layout_defs)
  obtain s' where s': "create_mapping two_page_state (VM_START + 0x3000) 0x1000 (PHY_START + 0x5000) 0x1000 31 = Some s'"
    "free_pages s' (drop 2 [VM_START + 0x2000, VM_START + 0x1000])"
    and tr: "\<forall>off < unat (0x1000 :: u64). unmapped (kmem two_page_state) ?r (0x1000 + of_nat off) \<longrightarrow>
       sv39_translate (kmem s') ?r (0x1000 + of_nat off) = Some (PHY_START + 0x5000 + of_nat off)"
    using create_mapping_translates [OF two_page_state(1) e(1) t, of "0x1000" "0x1000" "PHY_START + 0x5000" 31]
    unfolding n rp m by (auto simp: aligned_def layout_defs leaf_perm_def)
  have "sv39_translate (kmem s') ?r (0x1000 + of_nat 0x234) = Some (PHY_START + 0x5000 + of_nat 0x234)"
    using tr [rule_format, of "0x234"] e(2) by simp
  then show ?thesis using s' by (simp add: algebra_simps)
qed

text \<open>
  C14: \<open>setup_vm_final\<close>, with at least 65 free pages, returns; the value for \<open>satp\<close> selects Sv39 and
  points to \<open>swapper_pg_dir\<close>; and under that table a canonical address is mapped exactly when it
  lies in the image or in the RAM above it, at the address of the direct map: text executable and
  not writable, read-only data neither, everything from the data on writable and not executable.
\<close>

theorem setup_vm_final_map:
  assumes "kernel_image k" "free_pages s ps" "swapper_pg_dir k \<notin> set ps" "65 \<le> length ps"
  shows "\<exists>satp s'. setup_vm_final k s = Some (satp, s') \<and>
    satp_mode satp = 8 \<and> satp_root satp = pa_of (swapper_pg_dir k) \<and>
    (\<forall>x. canonical x \<longrightarrow> sv39_walk (kmem s') (satp_root satp) x =
       map_option (\<lambda>perm. (0, entry (pa_of x) perm)) (kernel_perm k x))"
proof -
  let ?r = "pa_of (swapper_pg_dir k)"
  obtain s' fr where c: "setup_vm_final k s = Some (drop_bit 12 ?r OR 0x8000000000000000, s')"
    and i: "pt_inv (kmem s') ?r fr"
    and l: "\<forall>x. canonical x \<longrightarrow> lookup (kmem s') ?r x =
        (case kernel_perm k x of None \<Rightarrow> 0 | Some perm \<Rightarrow> entry (pa_of x) perm)"
    using setup_vm_final_steps [OF assms(2-4,1)] by blast
  have r: "ppage ?r" using assms(1) by (simp add: kernel_image_def kpage_ppage)
  have lp: "leaf_perm perm" if "kernel_perm k x = Some perm" for x perm
    using that by (auto simp: kernel_perm_def leaf_perm_def split: if_splits)
  have "sv39_walk (kmem s') ?r x = map_option (\<lambda>perm. (0, entry (pa_of x) perm)) (kernel_perm k x)"
    if "canonical x" for x
    using l [rule_format, OF that] sv39_walk_lookup [OF i, of x] lp [of x] entry_leaf
    by (cases "kernel_perm k x") auto
  then show ?thesis using c satp_of_root [OF r] by auto
qed

theorem setup_vm_final_map_witness:
  "\<exists>s satp s'. mm_init (VM_START + 0x300000) (\<lparr>kmem = (\<lambda>_. 0), freelist = 0\<rparr> :: kstate) = Some s \<and>
     setup_vm_final \<lparr>stext = VM_START + 0x200000, etext = VM_START + 0x203000, srodata = VM_START + 0x203000,
       erodata = VM_START + 0x204010, sdata = VM_START + 0x205000, swapper_pg_dir = VM_START + 0x208000\<rparr> s
       = Some (satp, s') \<and>
     sv39_walk (kmem s') (satp_root satp) (VM_START + 0x200004) = Some (0, entry (PHY_START + 0x200004) 11)"
proof -
  let ?e = "VM_START + 0x300000"
  define k where "k = \<lparr>stext = VM_START + 0x200000, etext = VM_START + 0x203000, srodata = VM_START + 0x203000,
    erodata = VM_START + 0x204010, sdata = VM_START + 0x205000, swapper_pg_dir = VM_START + 0x208000\<rparr>"
  have k: "kernel_image k"
    by (simp add: kernel_image_def k_def krange_def aligned_def kpage_def PGROUNDUP_def layout_defs)
  have e: "VM_START \<le> ?e" "?e \<le> ram_end" "aligned 4096 ?e" by (simp_all add: aligned_def layout_defs)
  obtain s ps where s: "mm_init ?e (\<lparr>kmem = (\<lambda>_. 0), freelist = 0\<rparr> :: kstate) = Some s" "free_pages s ps"
    and ps: "set ps = {p. kpage p \<and> ?e \<le> p}"
    using mm_init_pages [OF e(1,2), of "\<lparr>kmem = (\<lambda>_. 0), freelist = 0\<rparr> :: kstate"] by auto
  have "unat ?e + 4096 * 0x7d00 = unat ram_end" by (simp add: layout_defs)
  note pages = set_pages_from [OF e(3,1) this]
  have "length ps = length (pages_from ?e 0x7d00)"
    using s(2) pages ps by (metis distinct_card free_pages_def)
  then have len: "65 \<le> length ps" by (simp add: pages_from_def)
  have sw: "swapper_pg_dir k \<notin> set ps" unfolding ps by (simp add: k_def layout_defs)
  have x: "canonical (VM_START + 0x200004)" by (rule canonical_kernel) (simp add: layout_defs)
  have kp: "kernel_perm k (VM_START + 0x200004) = Some 11"
    by (simp add: kernel_perm_def k_def PGROUNDUP_def layout_defs)
  have pa: "pa_of (VM_START + 0x200004) = PHY_START + 0x200004" by (simp add: pa_of_def layout_defs)
  show ?thesis
    using setup_vm_final_map [OF k s(2) sw len] s(1) x kp pa unfolding k_def by fastforce
qed

end
