(* ===== verification/Vma.thy ===== *)
theory Vma
  imports Kalloc
begin

text \<open>
  Virtual memory areas of \<open>arch/riscv/kernel/proc.c\<close>: \<open>find_vma\<close>, \<open>do_mmap\<close> and
  \<open>get_unmapped_area\<close> over the list of \<open>vm_area_struct\<close> in kernel memory, and the abstract list of
  areas it stands for.
\<close>

section \<open>The code\<close>

text \<open>Fields of \<open>struct vm_area_struct\<close> and \<open>struct mm_struct\<close> (\<open>proc.h\<close>), by offset; \<open>vm_mm\<close> and
  \<open>mmap\<close> are at offset 0.\<close>

abbreviation vm_start :: "u64 \<Rightarrow> u64" where "vm_start p \<equiv> p + 8"
abbreviation vm_end :: "u64 \<Rightarrow> u64" where "vm_end p \<equiv> p + 16"
abbreviation vm_next :: "u64 \<Rightarrow> u64" where "vm_next p \<equiv> p + 24"
abbreviation vm_prev :: "u64 \<Rightarrow> u64" where "vm_prev p \<equiv> p + 32"
abbreviation vm_flags :: "u64 \<Rightarrow> u64" where "vm_flags p \<equiv> p + 40"

partial_function (option) find_vma_loop :: "mem \<Rightarrow> u64 \<Rightarrow> u64 \<Rightarrow> u64 option" where
  "find_vma_loop m p addr =
     (if p = 0 then Some p
      else if ld m (vm_start p) \<le> addr \<and> addr < ld m (vm_end p) then Some p
      else find_vma_loop m (ld m (vm_next p)) addr)"

definition find_vma :: "mem \<Rightarrow> u64 \<Rightarrow> u64 \<Rightarrow> u64 option" where
  "find_vma m mm addr =
     (if mm = 0 then Some 0 else find_vma_loop m (ld m mm) addr)"

partial_function (option) get_unmapped_area_loop :: "mem \<Rightarrow> u64 \<Rightarrow> u64 \<Rightarrow> u64 \<Rightarrow> u64 option" where
  "get_unmapped_area_loop m p va va_end =
     (if p = 0 then Some va
      else if ld m (vm_end p) \<le> va \<or> va_end \<le> ld m (vm_start p)
      then get_unmapped_area_loop m (ld m (vm_next p)) va va_end
      else get_unmapped_area_loop m p (PGROUNDUP va_end) va_end)"

definition get_unmapped_area :: "mem \<Rightarrow> u64 \<Rightarrow> u64 \<Rightarrow> u64 option" where
  "get_unmapped_area m mm len =
     (let va = 0; va_end = va + len in get_unmapped_area_loop m (ld m mm) va va_end)"

text \<open>
  The first scan of \<open>do_mmap\<close>: \<open>q\<close> is the first area that starts after \<open>addr\<close>, \<open>end\<close> the last one; the
  flag is cleared at the first area that overlaps.
\<close>

partial_function (option) do_mmap_scan ::
    "mem \<Rightarrow> u64 \<Rightarrow> u64 \<Rightarrow> u64 \<Rightarrow> u64 \<Rightarrow> u64 \<Rightarrow> (bool \<times> u64 \<times> u64) option" where
  "do_mmap_scan m p q e addr addr_end =
     (if p = 0 then Some (True, q, e)
      else
        let q = (if addr < ld m (vm_start p) \<and> q = 0 then p else q) in
        if ld m (vm_end p) \<le> addr \<or> addr_end \<le> ld m (vm_start p) then
          let e = (if ld m (vm_next p) = 0 then p else e) in
          do_mmap_scan m (ld m (vm_next p)) q e addr addr_end
        else Some (False, q, e))"

text \<open>The second scan, after \<open>get_unmapped_area\<close> moved the area.\<close>

partial_function (option) do_mmap_rescan :: "mem \<Rightarrow> u64 \<Rightarrow> u64 \<Rightarrow> u64 \<Rightarrow> (u64 \<times> u64) option" where
  "do_mmap_rescan m p e addr =
     (if p = 0 then Some (0, e)
      else if addr < ld m (vm_start p) then Some (p, e)
      else
        let e = (if ld m (vm_next p) = 0 then p else e) in
        do_mmap_rescan m (ld m (vm_next p)) e addr)"

text \<open>Linking \<open>vm_unit\<close> before \<open>q\<close>, or after \<open>e\<close> when there is no \<open>q\<close>.\<close>

definition do_mmap_link :: "mem \<Rightarrow> u64 \<Rightarrow> u64 \<Rightarrow> u64 \<Rightarrow> u64 \<Rightarrow> u64 \<Rightarrow> u64 \<Rightarrow> bool \<Rightarrow> mem" where
  "do_mmap_link m mm vm_unit q e addr addr_end first =
     (let m = st m (vm_start vm_unit) addr;
          m = st m (vm_end vm_unit) addr_end;
          m = st m (vm_next vm_unit) q;
          m = (if q = 0 then
                 let m = st m (vm_prev vm_unit) e
                 in if e \<noteq> 0 then st m (vm_next e) vm_unit else m
               else if q = ld m mm then
                 let m = st m mm vm_unit in st m (vm_prev q) vm_unit
               else
                 let m = st m (vm_prev vm_unit) (ld m (vm_prev q)) in st m (vm_prev q) vm_unit)
      in if first then st m mm vm_unit else m)"

definition do_mmap ::
    "'z kstate_scheme \<Rightarrow> u64 \<Rightarrow> u64 \<Rightarrow> u64 \<Rightarrow> u32 \<Rightarrow> (u64 \<times> 'z kstate_scheme) option" where
  "do_mmap s mm addr len prot =
     (if mm = 0 then Some (- 1, s)
      else
        let p = ld (kmem s) mm;
            addr_end = addr + len;
            first = (p = 0)
        in Option.bind (kalloc s) (\<lambda>(vm_unit, s).
        let m = kmem s;
            m = st m vm_unit mm;
            m = st m (vm_flags vm_unit) (scast prot);
            m = st m (vm_prev vm_unit) 0;
            m = st m (vm_next vm_unit) 0
        in Option.bind (do_mmap_scan m p 0 0 addr addr_end) (\<lambda>(flag, q, e).
        Option.bind
          (if flag then Some (addr, addr_end, q, e)
           else Option.bind (get_unmapped_area m mm len) (\<lambda>addr.
                Option.bind (do_mmap_rescan m (ld m mm) e addr) (\<lambda>(q, e).
                Some (addr, addr + len, q, e)))) (\<lambda>(addr, addr_end, q, e).
        Some (addr, s\<lparr>kmem := do_mmap_link m mm vm_unit q e addr addr_end first\<rparr>)))))"

section \<open>Doublewords of a page\<close>

definition word_in :: "u64 \<Rightarrow> u64 \<Rightarrow> bool" where
  "word_in p a \<longleftrightarrow> kpage p \<and> (\<exists>i < 4096. 8 dvd i \<and> a = p + of_nat i)"

lemma word_in_base [addr_simps]: "kpage p \<Longrightarrow> word_in p p"
  by (auto simp: word_in_def intro!: exI [of _ "0 :: nat"])

lemma word_in_field [addr_simps]:
  "kpage p \<Longrightarrow> numeral k < (4096 :: nat) \<Longrightarrow> 8 dvd (numeral k :: nat) \<Longrightarrow> word_in p (p + numeral k)"
  by (auto simp: word_in_def intro!: exI [of _ "numeral k :: nat"])

lemma word_in_kva: "word_in p a \<Longrightarrow> kva a"
  by (auto simp: word_in_def kva_offset)

lemma word_in_page: "word_in p a \<Longrightarrow> kpage q \<Longrightarrow> in_page q a \<longleftrightarrow> p = q"
  by (auto simp: word_in_def in_page_offset)

lemma word_in_neq: "word_in p a \<Longrightarrow> word_in q b \<Longrightarrow> p \<noteq> q \<Longrightarrow> a \<noteq> b"
  by (auto simp: word_in_def kpage_offset_eq)

lemma ld_st_other: "word_in p a \<Longrightarrow> word_in q b \<Longrightarrow> p \<noteq> q \<Longrightarrow> ld (st m b v) a = ld m a"
  using word_in_neq [of p a q b] by (simp add: dmap.rd_wr word_in_kva)

section \<open>The list of areas\<close>

text \<open>An area: where its structure is, and its bounds and flags.\<close>

record area =
  a_at :: u64
  a_start :: u64
  a_end :: u64
  a_flags :: u64

text \<open>\<open>vmas m p as\<close>: following \<open>vm_next\<close> from \<open>p\<close> visits the structures of the areas \<open>as\<close>.\<close>

fun vmas :: "mem \<Rightarrow> u64 \<Rightarrow> area list \<Rightarrow> bool" where
  "vmas m p [] \<longleftrightarrow> p = 0"
| "vmas m p (a # as) \<longleftrightarrow> p = a_at a \<and> kpage p \<and> ld m (vm_start p) = a_start a \<and>
     ld m (vm_end p) = a_end a \<and> ld m (vm_flags p) = a_flags a \<and> vmas m (ld m (vm_next p)) as"

definition covers :: "u64 \<Rightarrow> area \<Rightarrow> bool" where
  "covers addr a \<longleftrightarrow> a_start a \<le> addr \<and> addr < a_end a"

definition clear_of :: "u64 \<Rightarrow> u64 \<Rightarrow> area \<Rightarrow> bool" where
  "clear_of addr addr_end a \<longleftrightarrow> a_end a \<le> addr \<or> addr_end \<le> a_start a"

lemma vmas_cong:
  assumes "\<And>a. a \<in> set as \<Longrightarrow> ld m' (vm_start (a_at a)) = ld m (vm_start (a_at a)) \<and>
    ld m' (vm_end (a_at a)) = ld m (vm_end (a_at a)) \<and> ld m' (vm_next (a_at a)) = ld m (vm_next (a_at a)) \<and>
    ld m' (vm_flags (a_at a)) = ld m (vm_flags (a_at a))"
  shows "vmas m' p as = vmas m p as"
  using assms by (induction as arbitrary: p) auto

lemma vmas_kpage: "vmas m p as \<Longrightarrow> a \<in> set as \<Longrightarrow> kpage (a_at a)"
  by (induction as arbitrary: p) auto

lemma not_kpage_zero [simp]: "\<not> kpage 0"
  using kpage_nonzero by blast

lemma vmas_nonzero: "vmas m p (a # as) \<Longrightarrow> p \<noteq> 0"
  by auto

lemma find_vma_loop_list:
  assumes "vmas m p as"
  shows "find_vma_loop m p addr =
    Some (case find (covers addr) as of None \<Rightarrow> 0 | Some a \<Rightarrow> a_at a)"
  using assms
proof (induction as arbitrary: p)
  case Nil
  then show ?case by (simp add: find_vma_loop.simps)
next
  case (Cons a as)
  have "p \<noteq> 0" using Cons.prems by (rule vmas_nonzero)
  then show ?case using Cons by (auto simp: find_vma_loop.simps [of m "a_at a"] covers_def)
qed

lemma do_mmap_scan_list:
  assumes "vmas m p as" "\<forall>a \<in> set as. clear_of addr addr_end a"
  shows "do_mmap_scan m p q e addr addr_end = Some (True,
    (if q \<noteq> 0 then q else case find (\<lambda>a. addr < a_start a) as of None \<Rightarrow> 0 | Some a \<Rightarrow> a_at a),
    (if as = [] then e else a_at (last as)))"
  using assms
proof (induction as arbitrary: p q e)
  case Nil
  then show ?case by (simp add: do_mmap_scan.simps)
next
  case (Cons a as)
  have p: "p \<noteq> 0" "a_at a \<noteq> 0" using Cons.prems(1) vmas_nonzero by (auto simp: kpage_nonzero)
  have n: "ld m (vm_next p) = 0 \<longleftrightarrow> as = []"
    using Cons.prems(1) vmas_nonzero by (cases as) auto
  show ?case
    using Cons p n by (auto simp: do_mmap_scan.simps [of m "a_at a"] clear_of_def Let_def)
qed

lemma vmas_extend:
  assumes "vmas m p as" "as \<noteq> []" "distinct (map a_at as)"
    and "\<And>a. a \<in> set as \<Longrightarrow> ld m' (vm_start (a_at a)) = ld m (vm_start (a_at a)) \<and>
      ld m' (vm_end (a_at a)) = ld m (vm_end (a_at a)) \<and> ld m' (vm_flags (a_at a)) = ld m (vm_flags (a_at a))"
    and "\<And>a. a \<in> set as \<Longrightarrow> ld m' (vm_next (a_at a)) =
      (if a_at a = a_at (last as) then K else ld m (vm_next (a_at a)))"
  shows "vmas m' p (as @ bs) = vmas m' K bs"
  using assms
proof (induction as arbitrary: p)
  case (Cons a as)
  show ?case
  proof (cases "as = []")
    case True
    then show ?thesis using Cons.prems by auto
  next
    case False
    then have l: "a_at a \<noteq> a_at (last (a # as))" using Cons.prems(3) by (auto simp: image_iff)
    have "vmas m' (ld m (vm_next (a_at a))) (as @ bs) = vmas m' K bs"
      using Cons.prems False by (intro Cons.IH) auto
    then show ?thesis using Cons.prems l by auto
  qed
qed simp

text \<open>
  An address space: the \<open>mm_struct\<close> at \<open>mm\<close> with the areas \<open>as\<close>, each structure in a page of its own,
  none of them free; areas are non-empty, sorted and disjoint.
\<close>

definition mm_list :: "'z kstate_scheme \<Rightarrow> u64 list \<Rightarrow> u64 \<Rightarrow> area list \<Rightarrow> bool" where
  "mm_list s ps mm as \<longleftrightarrow>
     kpage mm \<and> vmas (kmem s) (ld (kmem s) mm) as \<and> distinct (mm # map a_at as) \<and>
     set (mm # map a_at as) \<inter> set ps = {}"

definition sorted_areas :: "area list \<Rightarrow> bool" where
  "sorted_areas as \<longleftrightarrow> sorted_wrt (\<lambda>a b. a_end a \<le> a_start b) as \<and> (\<forall>a \<in> set as. a_start a < a_end a)"

lemma find_vma_list:
  assumes "mm_list s ps mm as"
  shows "find_vma (kmem s) mm addr = Some (case find (covers addr) as of None \<Rightarrow> 0 | Some a \<Rightarrow> a_at a)"
  using assms find_vma_loop_list by (auto simp: find_vma_def mm_list_def)

definition new_area :: "u64 \<Rightarrow> u64 \<Rightarrow> u64 \<Rightarrow> u32 \<Rightarrow> area" where
  "new_area K addr len prot = \<lparr>a_at = K, a_start = addr, a_end = addr + len, a_flags = scast prot\<rparr>"

text \<open>
  The list after a call: appended when no area starts after \<open>addr\<close>, put first when the first one
  does; otherwise the new structure points into the list but no \<open>vm_next\<close> points to it.
\<close>

definition insert_area :: "area list \<Rightarrow> area \<Rightarrow> area list" where
  "insert_area as n =
     (if \<forall>a \<in> set as. a_start a \<le> a_start n then as @ [n]
      else if a_start n < a_start (hd as) then n # as
      else as)"

lemma findSomeD: "find P xs = Some x \<Longrightarrow> P x \<and> x \<in> set xs"
  by (auto simp: find_Some_iff)

lemma find_first_after:
  "find (\<lambda>a. addr < a_start a) as = None \<longleftrightarrow> (\<forall>a \<in> set as. a_start a \<le> addr)"
  by (auto simp: find_None_iff not_less)

text \<open>Memory when the new structure has been allocated and its list fields cleared.\<close>

definition mmap_mem :: "mem \<Rightarrow> u64 \<Rightarrow> u64 \<Rightarrow> u32 \<Rightarrow> mem" where
  "mmap_mem m K mm prot = st (st (st (st m K mm) (vm_flags K) (scast prot)) (vm_prev K) 0) (vm_next K) 0"

lemma mmap_mem_other:
  "word_in p a \<Longrightarrow> kpage K \<Longrightarrow> p \<noteq> K \<Longrightarrow> ld (mmap_mem m K mm prot) a = ld m a"
  by (simp add: mmap_mem_def ld_st_other [of p a K] addr_simps)

lemma do_mmap_link_other:
  assumes "word_in p a" "kpage K" "kpage mm" "q = 0 \<or> kpage q" "e = 0 \<or> kpage e" "p \<notin> {K, mm, q, e}"
  shows "ld (do_mmap_link m mm K q e x y first) a = ld m a"
  using assms ld_st_other [of p a K] ld_st_other [of p a mm] ld_st_other [of p a q] ld_st_other [of p a e]
  by (auto simp: do_mmap_link_def Let_def addr_simps)

text \<open>Of the structures in the list, linking changes at most the \<open>vm_next\<close> of the last and a \<open>vm_prev\<close>.\<close>

lemma do_mmap_link_fields:
  assumes "kpage p" "p \<noteq> K" "p \<noteq> mm" "kpage K" "kpage mm" "q = 0 \<or> kpage q" "e = 0 \<or> kpage e"
  shows "ld (do_mmap_link m mm K q e x y first) (vm_start p) = ld m (vm_start p)"
    "ld (do_mmap_link m mm K q e x y first) (vm_end p) = ld m (vm_end p)"
    "ld (do_mmap_link m mm K q e x y first) (vm_flags p) = ld m (vm_flags p)"
    "ld (do_mmap_link m mm K q e x y first) (vm_next p) =
       (if q = 0 \<and> e = p then K else ld m (vm_next p))"
  using assms by (auto simp: do_mmap_link_def Let_def mem_simps addr_simps)

lemma do_mmap_link_new:
  assumes "kpage K" "kpage mm" "K \<noteq> mm" "q = 0 \<or> kpage q \<and> q \<noteq> K" "e = 0 \<or> kpage e \<and> e \<noteq> K" "q \<noteq> mm" "e \<noteq> mm"
  shows "ld (do_mmap_link m mm K q e x y first) (vm_start K) = x"
    "ld (do_mmap_link m mm K q e x y first) (vm_end K) = y"
    "ld (do_mmap_link m mm K q e x y first) (vm_flags K) = ld m (vm_flags K)"
    "ld (do_mmap_link m mm K q e x y first) (vm_next K) = q"
    "ld (do_mmap_link m mm K q e x y first) mm =
       (if first \<or> q \<noteq> 0 \<and> q = ld m mm then K else ld m mm)"
  using assms by (auto simp: do_mmap_link_def Let_def mem_simps addr_simps)

text \<open>The list found through the memory of \<open>do_mmap_link\<close>, with \<open>q\<close> and \<open>e\<close> as the scan leaves them.\<close>

lemma vmas_after_link:
  fixes y :: u64
  assumes v: "vmas m (ld m mm) as" and d: "distinct (mm # K # map a_at as)" and k: "kpage K" "kpage mm"
    and fl: "ld m (vm_flags K) = f"
    and q: "q = (case find (\<lambda>a. x < a_start a) as of None \<Rightarrow> 0 | Some a \<Rightarrow> a_at a)"
    and e: "e = (if as = [] then 0 else a_at (last as))"
  defines "m' \<equiv> do_mmap_link m mm K q e x y (as = [])"
  shows "vmas m' (ld m' mm) (insert_area as \<lparr>a_at = K, a_start = x, a_end = y, a_flags = f\<rparr>)"
proof -
  let ?n = "\<lparr>a_at = K, a_start = x, a_end = y, a_flags = f\<rparr>"
  have kas: "kpage (a_at a) \<and> a_at a \<noteq> K \<and> a_at a \<noteq> mm" if "a \<in> set as" for a
    using vmas_kpage [OF v that] d that by auto
  have qk: "q = 0 \<or> kpage q \<and> q \<noteq> K \<and> q \<noteq> mm"
    using kas by (auto simp: q split: option.splits dest: findSomeD)
  have ek: "e = 0 \<or> kpage e \<and> e \<noteq> K \<and> e \<noteq> mm" using kas by (auto simp: e)
  have new: "ld m' (vm_start K) = x" "ld m' (vm_end K) = y" "ld m' (vm_flags K) = f" "ld m' (vm_next K) = q"
    "ld m' mm = (if as = [] \<or> q \<noteq> 0 \<and> q = ld m mm then K else ld m mm)"
    using do_mmap_link_new [OF k] qk ek d fl kpage_nonzero [OF k(2)] unfolding m'_def by auto
  have old: "ld m' (vm_start (a_at a)) = ld m (vm_start (a_at a))" "ld m' (vm_end (a_at a)) = ld m (vm_end (a_at a))"
    "ld m' (vm_flags (a_at a)) = ld m (vm_flags (a_at a))"
    "ld m' (vm_next (a_at a)) = (if q = 0 \<and> e = a_at a then K else ld m (vm_next (a_at a)))"
    if "a \<in> set as" for a
    using do_mmap_link_fields [of "a_at a" K mm q e] kas [OF that] k qk ek unfolding m'_def by auto
  show ?thesis
  proof (cases "\<forall>a \<in> set as. a_start a \<le> x")
    case True
    then have q0: "q = 0" using find_first_after [of x as] by (simp add: q)
    then have n: "vmas m' K [?n]" using new k by simp
    have i: "insert_area as ?n = as @ [?n]" using True by (simp add: insert_area_def)
    show ?thesis
    proof (cases "as = []")
      case True
      then show ?thesis using n i new by simp
    next
      case False
      have "vmas m' (ld m mm) (as @ [?n]) = vmas m' K [?n]"
        using old q0 e False d by (intro vmas_extend [OF v False]) auto
      then show ?thesis using n i new(5) False q0 by simp
    qed
  next
    case False
    then obtain b where b: "find (\<lambda>a. x < a_start a) as = Some b" "b \<in> set as" "x < a_start b"
      using find_first_after [of x as] by (metis findSomeD not_None_eq)
    then have qb: "q = a_at b" "q \<noteq> 0" using kas [OF b(2)] by (auto simp: q)
    have same: "vmas m' p as = vmas m p as" for p
      using old qb(2) by (intro vmas_cong) auto
    obtain a0 as' where as: "as = a0 # as'" using b(2) by (cases as) auto
    have hd: "ld m mm = a_at a0" using v as by simp
    show ?thesis
    proof (cases "x < a_start a0")
      case True
      then have "b = a0" using b(1) as by simp
      then have "ld m' mm = K" "insert_area as ?n = ?n # as"
        using new(5) qb hd True as by (auto simp: insert_area_def not_le)
      moreover have "vmas m' q as" using same [of q] v hd qb \<open>b = a0\<close> by simp
      ultimately show ?thesis using new k by simp
    next
      case nlt: False
      then have "b \<noteq> a0" using b(3) by auto
      then have "a_at b \<in> a_at ` set as'" using b(2) as by simp
      then have "a_at b \<noteq> a_at a0" using d as by auto
      then have "ld m' mm = ld m mm" "insert_area as ?n = as"
        using new(5) qb hd nlt as False by (auto simp: insert_area_def)
      then show ?thesis using same v by simp
    qed
  qed
qed

lemma do_mmap_clear:
  assumes fp: "free_pages s (K # qs)" and mm: "mm_list s (K # qs) mm as"
    and cl: "\<forall>a \<in> set as. clear_of addr (addr + len) a"
  shows "\<exists>s'. do_mmap s mm addr len prot = Some (addr, s') \<and> free_pages s' qs \<and>
    mm_list s' qs mm (insert_area as (new_area K addr len prot)) \<and>
    (\<forall>p a. word_in p a \<longrightarrow> p \<notin> set (K # mm # map a_at as) \<longrightarrow> ld (kmem s') a = ld (kmem s) a) \<and>
    kstate.more s' = kstate.more s"
proof -
  obtain s1 where ka: "kalloc s = Some (K, s1)" and f1: "free_pages s1 qs" and K: "kpage K" "K \<notin> set qs"
    and rd: "\<forall>a. kva a \<longrightarrow> ld (kmem s1) a = (if in_page K a then 0 else ld (kmem s) a)"
    and mo: "kstate.more s1 = kstate.more s"
    using kalloc_free_pages [OF fp] by blast
  define m1 where "m1 = mmap_mem (kmem s1) K mm prot"
  have mmk: "kpage mm" "mm \<noteq> K" "mm \<notin> set qs" "distinct (mm # K # map a_at as)"
    and v: "vmas (kmem s) (ld (kmem s) mm) as"
    using mm by (auto simp: mm_list_def)
  have ats: "a_at a \<notin> set (K # qs)" "kpage (a_at a)" if "a \<in> set as" for a
    using mm that vmas_kpage [OF v that] by (auto simp: mm_list_def)
  have r1: "ld m1 a = ld (kmem s) a" if "word_in p a" "p \<noteq> K" for p a
    using mmap_mem_other [OF that(1) K(1) that(2)] rd word_in_kva [OF that(1)] word_in_page [OF that(1) K(1)] that(2)
    by (simp add: m1_def)
  have mm1: "ld m1 mm = ld (kmem s) mm" using r1 [of mm mm] mmk by (simp add: addr_simps)
  have v1: "vmas m1 (ld m1 mm) as"
    unfolding mm1 using v ats
    by (subst vmas_cong [of as m1 "kmem s"]) (auto intro!: r1 [of "a_at _"] simp: addr_simps)
  have fl: "ld m1 (vm_flags K) = scast prot"
    using K(1) by (simp add: m1_def mmap_mem_def mem_simps addr_simps)
  define q where "q = (case find (\<lambda>a. addr < a_start a) as of None \<Rightarrow> 0 | Some a \<Rightarrow> a_at a)"
  define e where "e = (if as = [] then 0 else a_at (last as))"
  have first: "ld (kmem s) mm = 0 \<longleftrightarrow> as = []" using v by (cases as) auto
  have scan: "do_mmap_scan m1 (ld (kmem s) mm) 0 0 addr (addr + len) = Some (True, q, e)"
    using do_mmap_scan_list [OF v1 cl, of 0 0] by (simp add: mm1 q_def e_def)
  define m2 where "m2 = do_mmap_link m1 mm K q e addr (addr + len) (as = [])"
  define s' where "s' = s1\<lparr>kmem := m2\<rparr>"
  have run: "do_mmap s mm addr len prot = Some (addr, s')"
    using ka scan first kpage_nonzero [OF mmk(1)]
    by (simp add: do_mmap_def Let_def s'_def m2_def m1_def mmap_mem_def)
  have list: "vmas m2 (ld m2 mm) (insert_area as (new_area K addr len prot))"
    unfolding m2_def new_area_def by (rule vmas_after_link [OF v1 mmk(4) K(1) mmk(1) fl q_def e_def])
  have q: "q = 0 \<or> kpage q \<and> q \<in> a_at ` set as"
    using ats by (auto simp: q_def split: option.splits dest: findSomeD)
  have e: "e = 0 \<or> kpage e \<and> e \<in> a_at ` set as" using ats by (auto simp: e_def)
  have frame: "ld m2 a = ld m1 a" if "word_in p a" "p \<notin> set (K # mm # map a_at as)" for p a
  proof -
    have "p \<notin> {K, mm, q, e}" using that q e by (auto simp: word_in_def)
    then show ?thesis unfolding m2_def using that(1) K(1) mmk(1) q e by (intro do_mmap_link_other) auto
  qed
  have "free_pages s' qs"
  proof (rule free_pages_frame [OF f1])
    fix p assume p: "p \<in> set qs"
    have kp: "kpage p" "p \<notin> set (K # mm # map a_at as)"
      using fp p mmk ats by (auto simp: free_pages_def)
    have "ld m2 p = ld m1 p" using kp by (intro frame [of p]) (auto simp: addr_simps)
    also have "\<dots> = ld (kmem s1) p"
      using mmap_mem_other [of p p K] kp K by (simp add: m1_def addr_simps)
    finally show "ld (kmem s') p = ld (kmem s1) p" by (simp add: s'_def)
  qed (simp add: s'_def)
  moreover have "mm_list s' qs mm (insert_area as (new_area K addr len prot))"
    using list mmk ats K by (auto simp: mm_list_def s'_def insert_area_def new_area_def)
  moreover have "ld (kmem s') a = ld (kmem s) a" if "word_in p a" "p \<notin> set (K # mm # map a_at as)" for p a
    using frame [OF that] r1 [OF that(1)] that(2) by (simp add: s'_def)
  moreover have "kstate.more s' = kstate.more s" using mo by (simp add: s'_def)
  ultimately show ?thesis using run by blast
qed

section \<open>Areas that are found\<close>

lemma sorted_areas_unique:
  assumes "sorted_areas as" "a \<in> set as" "b \<in> set as" "covers x a" "covers x b"
  shows "a = b"
proof (rule ccontr)
  assume ne: "a \<noteq> b"
  obtain i j where ij: "i < length as" "j < length as" "as ! i = a" "as ! j = b"
    using assms(2,3) by (auto simp: in_set_conv_nth)
  have st: "a_end (as ! i) \<le> a_start (as ! j)" if "i < j" "j < length as" for i j
    using assms(1) that by (auto simp: sorted_areas_def sorted_wrt_iff_nth_less)
  have "i \<noteq> j" using ij ne by auto
  then consider "i < j" | "j < i" by linarith
  then show False
    using st [of i j] st [of j i] ij assms(4,5) by cases (auto simp: covers_def)
qed

lemma sorted_areas_append:
  assumes "sorted_areas as" "a_start n < a_end n" "\<forall>a \<in> set as. a_start a \<le> a_start n"
    "\<forall>a \<in> set as. clear_of (a_start n) (a_end n) a"
  shows "sorted_areas (as @ [n])"
proof -
  have "a_end a \<le> a_start n" if "a \<in> set as" for a
  proof -
    have "a_end a \<le> a_start n \<or> a_end n \<le> a_start a" "a_start a \<le> a_start n"
      using assms(3,4) that by (auto simp: clear_of_def)
    then show ?thesis using assms(2) by auto
  qed
  then show ?thesis using assms(1,2) by (auto simp: sorted_areas_def sorted_wrt_append)
qed

lemma sorted_areas_insert:
  assumes s: "sorted_areas as" and n: "a_start n < a_end n"
    and cl: "\<forall>a \<in> set as. clear_of (a_start n) (a_end n) a"
  shows "sorted_areas (insert_area as n)"
proof -
  have "a_end n \<le> a_start a" if "as \<noteq> []" "a_start n < a_start (hd as)" "a \<in> set as" for a
  proof -
    obtain b bs where as: "as = b # bs" using \<open>as \<noteq> []\<close> by (cases as) auto
    have "a_start b \<le> a_start a"
      using s as that(3) by (auto simp: sorted_areas_def dest!: bspec)
    then have "a_start n < a_start a" using that(2) as by auto
    moreover have "a_start a < a_end a" using s that(3) by (simp add: sorted_areas_def)
    ultimately show ?thesis using cl that(3) by (auto simp: clear_of_def)
  qed
  then have "sorted_areas (n # as)" if "as \<noteq> []" "a_start n < a_start (hd as)"
    using that s n by (auto simp: sorted_areas_def)
  then show ?thesis
    using s cl sorted_areas_append [OF s n] by (cases "as = []") (auto simp: insert_area_def)
qed

lemma find_covers_append:
  assumes "sorted_areas as" "\<forall>a \<in> set as. clear_of (a_start n) (a_end n) a"
    "n \<in> set (insert_area as n)"
  shows "find (covers x) (insert_area as n) =
    (if covers x n then Some n else find (covers x) as)"
proof -
  have "\<not> covers x a" if "covers x n" "a \<in> set as" for a
  proof -
    have "clear_of (a_start n) (a_end n) a" using assms(2) that(2) by blast
    then show ?thesis using that(1) by (auto simp: covers_def clear_of_def)
  qed
  then have none: "find (covers x) as = None" if "covers x n" using that by (auto simp: find_None_iff)
  have app: "find P (xs @ [y]) = (case find P xs of None \<Rightarrow> if P y then Some y else None | Some z \<Rightarrow> Some z)"
    for P :: "area \<Rightarrow> bool" and xs y
    by (induction xs) auto
  have "n \<notin> set as" if "covers x n" using that \<open>\<And>a. \<lbrakk>covers x n; a \<in> set as\<rbrakk> \<Longrightarrow> \<not> covers x a\<close> by blast
  then have ins: "insert_area as n \<noteq> as" if "covers x n" using that assms(3) by auto
  show ?thesis
  proof (cases "covers x n")
    case True
    then show ?thesis
      using none ins unfolding insert_area_def by (cases "\<forall>a \<in> set as. a_start a \<le> a_start n") (auto simp: app split: if_splits)
  next
    case False
    then show ?thesis by (simp add: insert_area_def app split: option.splits)
  qed
qed

section \<open>Properties\<close>

definition mm_example :: kstate where
  "mm_example = kfree \<lparr>kmem = (\<lambda>_. 0), freelist = 0\<rparr> (VM_START + 0x1000)"

lemma mm_example:
  "free_pages mm_example [VM_START + 0x1000]" "mm_list mm_example [VM_START + 0x1000] (VM_START + 0x2000) []"
proof -
  define z :: kstate where "z = \<lparr>kmem = (\<lambda>_. 0), freelist = 0\<rparr>"
  have z: "free_pages z []" by (simp add: z_def free_pages_def)
  note k = kpage_example
  have ne: "VM_START + 0x2000 \<noteq> VM_START + 0x1000" by simp
  show "free_pages mm_example [VM_START + 0x1000]"
    using kfree_free_pages(1) [OF z k(1)] by (simp add: mm_example_def z_def)
  have "ld (kmem mm_example) (VM_START + 0x2000) = 0"
    using kfree_free_pages(2) [OF z k(1), of "VM_START + 0x2000"] in_page_base [OF k(2) k(1)] kva_base [OF k(2)] ne
    by (simp add: mm_example_def z_def ld_def load64_zero_mem)
  then show "mm_list mm_example [VM_START + 0x1000] (VM_START + 0x2000) []"
    using k ne by (simp add: mm_list_def)
qed

text \<open>
  C19: \<open>find_vma\<close> ends on a list of areas and returns the structure of the area that contains the
  address, which is unique when the list is sorted, or a null pointer when there is none.
\<close>

theorem find_vma_correct:
  assumes "mm_list s ps mm as" "sorted_areas as"
  shows "(\<forall>a \<in> set as. covers addr a \<longrightarrow> find_vma (kmem s) mm addr = Some (a_at a)) \<and>
    ((\<forall>a \<in> set as. \<not> covers addr a) \<longrightarrow> find_vma (kmem s) mm addr = Some 0)"
proof -
  have "find (covers addr) as = Some a" if "a \<in> set as" "covers addr a" for a
    using that sorted_areas_unique [OF assms(2)] findSomeD [of "covers addr" as]
    by (cases "find (covers addr) as") (auto simp: find_None_iff)
  then show ?thesis
    using find_vma_list [OF assms(1), of addr] by (auto simp: find_None_iff [THEN iffD2])
qed

theorem find_vma_correct_witness:
  "\<exists>s'. do_mmap mm_example (VM_START + 0x2000) 0x1000 0x2000 31 = Some (0x1000, s') \<and>
     find_vma (kmem s') (VM_START + 0x2000) 0x1800 = Some (VM_START + 0x1000)"
proof -
  let ?n = "new_area (VM_START + 0x1000) 0x1000 0x2000 31"
  obtain s' where r: "do_mmap mm_example (VM_START + 0x2000) 0x1000 0x2000 31 = Some (0x1000, s')"
    and l: "mm_list s' [] (VM_START + 0x2000) [?n]"
    using do_mmap_clear [OF mm_example(1) mm_example(2), of "0x1000" "0x2000" 31] by (auto simp: insert_area_def)
  have "sorted_areas [?n]" by (simp add: sorted_areas_def new_area_def)
  moreover have "covers 0x1800 ?n" "a_at ?n = VM_START + 0x1000" by (simp_all add: covers_def new_area_def)
  ultimately show ?thesis using find_vma_correct [OF l, of "0x1800"] r by auto
qed

text \<open>
  C20: \<open>do_mmap\<close> of a range that no area overlaps, before the first or after the last area of a sorted
  list, takes one page for the structure and returns the address asked for; the list is sorted
  again, \<open>find_vma\<close> returns the new structure for every address of the range, and for every other
  address what it returned before.
\<close>

theorem do_mmap_inserts:
  assumes "free_pages s (K # qs)" "mm_list s (K # qs) mm as" "sorted_areas as"
    and "\<forall>a \<in> set as. clear_of addr (addr + len) a" "addr < addr + len"
    and "(\<forall>a \<in> set as. a_start a \<le> addr) \<or> addr < a_start (hd as)"
  shows "\<exists>s' as'. do_mmap s mm addr len prot = Some (addr, s') \<and> free_pages s' qs \<and>
    mm_list s' qs mm as' \<and> sorted_areas as' \<and> set as' = insert (new_area K addr len prot) (set as) \<and>
    (\<forall>x. find_vma (kmem s') mm x =
       (if addr \<le> x \<and> x < addr + len then Some K else find_vma (kmem s) mm x))"
proof -
  let ?n = "new_area K addr len prot"
  obtain s' where r: "do_mmap s mm addr len prot = Some (addr, s')" "free_pages s' qs"
    and l: "mm_list s' qs mm (insert_area as ?n)"
    using do_mmap_clear [OF assms(1,2,4)] by blast
  have n: "a_start ?n = addr" "a_end ?n = addr + len" "a_at ?n = K" by (simp_all add: new_area_def)
  have so: "sorted_areas (insert_area as ?n)"
    using assms by (intro sorted_areas_insert) (simp_all add: n)
  have set: "set (insert_area as ?n) = insert ?n (set as)" using assms(6) by (auto simp: insert_area_def n)
  have "find_vma (kmem s') mm x =
      (if addr \<le> x \<and> x < addr + len then Some K else find_vma (kmem s) mm x)" for x
    using find_vma_list [OF l, of x] find_vma_list [OF assms(2), of x] find_covers_append [OF assms(3), of ?n x] assms(4) set
    by (simp add: n covers_def [of x ?n])
  then show ?thesis using r l so set by blast
qed

theorem do_mmap_inserts_witness:
  "\<exists>s'. do_mmap mm_example (VM_START + 0x2000) 0x1000 0x2000 31 = Some (0x1000, s') \<and>
     find_vma (kmem s') (VM_START + 0x2000) 0x2fff = Some (VM_START + 0x1000)"
proof -
  have "sorted_areas []" by (simp add: sorted_areas_def)
  from do_mmap_inserts [OF mm_example(1) mm_example(2) this, of "0x1000" "0x2000" 31]
  obtain s' where "do_mmap mm_example (VM_START + 0x2000) 0x1000 0x2000 31 = Some (0x1000, s')"
    "\<forall>x. find_vma (kmem s') (VM_START + 0x2000) x =
       (if 0x1000 \<le> x \<and> x < 0x3000 then Some (VM_START + 0x1000)
        else find_vma (kmem mm_example) (VM_START + 0x2000) x)"
    by auto
  then show ?thesis by auto
qed

text \<open>
  C21: \<open>do_mmap\<close> of a range that falls between two areas returns the address as if it had mapped it,
  but the structure it fills is not reachable: no address of the range is found by \<open>find_vma\<close>,
  because the branch for the middle of the list never sets the \<open>vm_next\<close> of the predecessor.
\<close>

theorem do_mmap_middle_lost:
  assumes "free_pages s (K # qs)" "mm_list s (K # qs) mm as"
    and "\<forall>a \<in> set as. clear_of addr (addr + len) a"
    and "a_start (hd as) \<le> addr" "\<exists>a \<in> set as. addr < a_start a"
  shows "\<exists>s'. do_mmap s mm addr len prot = Some (addr, s') \<and> free_pages s' qs \<and>
    (\<forall>x. find_vma (kmem s') mm x = find_vma (kmem s) mm x) \<and>
    (\<forall>x. addr \<le> x \<longrightarrow> x < addr + len \<longrightarrow> find_vma (kmem s') mm x = Some 0)"
proof -
  obtain s' where r: "do_mmap s mm addr len prot = Some (addr, s')" "free_pages s' qs"
    and l: "mm_list s' qs mm (insert_area as (new_area K addr len prot))"
    using do_mmap_clear [OF assms(1-3)] by blast
  have "insert_area as (new_area K addr len prot) = as"
    using assms(4,5) by (auto simp: insert_area_def new_area_def not_le)
  then have l': "mm_list s' qs mm as" using l by simp
  have "find (covers x) as = None" if "addr \<le> x" "x < addr + len" for x
  proof -
    have "\<not> covers x a" if "a \<in> set as" for a
      using assms(3) that \<open>addr \<le> x\<close> \<open>x < addr + len\<close>
      by (fastforce simp: covers_def clear_of_def)
    then show ?thesis by (simp add: find_None_iff)
  qed
  then show ?thesis using r find_vma_list [OF l'] find_vma_list [OF assms(2)] by simp
qed

definition mm_example3 :: kstate where
  "mm_example3 = kfree (kfree (kfree \<lparr>kmem = (\<lambda>_. 0), freelist = 0\<rparr> (VM_START + 0x1000)) (VM_START + 0x2000)) (VM_START + 0x3000)"

lemma mm_example3:
  "free_pages mm_example3 [VM_START + 0x3000, VM_START + 0x2000, VM_START + 0x1000]"
  "mm_list mm_example3 [VM_START + 0x3000, VM_START + 0x2000, VM_START + 0x1000] (VM_START + 0x4000) []"
proof -
  define z :: kstate where "z = \<lparr>kmem = (\<lambda>_. 0), freelist = 0\<rparr>"
  have z: "free_pages z []" by (simp add: z_def free_pages_def)
  let ?a = "VM_START + 0x1000" and ?b = "VM_START + 0x2000" and ?c = "VM_START + 0x3000" and ?d = "VM_START + 0x4000"
  have k: "kpage ?a" "kpage ?b" "kpage ?c" "kpage ?d" by (simp_all add: kpage_def aligned_def layout_defs)
  have n: "?a \<notin> set []" "?b \<notin> set [?a]" "?c \<notin> set [?b, ?a]" by simp_all
  note f1 = kfree_free_pages(1) [OF z k(1) n(1)]
  note f2 = kfree_free_pages(1) [OF f1 k(2) n(2)]
  note f3 = kfree_free_pages(1) [OF f2 k(3) n(3)]
  show "free_pages mm_example3 [?c, ?b, ?a]" using f3 by (simp add: mm_example3_def z_def)
  have "ld (kmem mm_example3) ?d = 0"
    unfolding mm_example3_def z_def [symmetric]
    using kfree_free_pages(2) [OF z k(1) n(1) kva_base [OF k(4)]] kfree_free_pages(2) [OF f1 k(2) n(2) kva_base [OF k(4)]]
      kfree_free_pages(2) [OF f2 k(3) n(3) kva_base [OF k(4)]] k
    by (simp add: in_page_base) (simp add: z_def ld_def load64_zero_mem)
  then show "mm_list mm_example3 [?c, ?b, ?a] ?d []" using k by (simp add: mm_list_def)
qed

theorem do_mmap_middle_lost_witness:
  "\<exists>s0 s1 s2. do_mmap mm_example3 (VM_START + 0x4000) 0 0x1000 31 = Some (0, s0) \<and>
     do_mmap s0 (VM_START + 0x4000) 0x8000 0x1000 31 = Some (0x8000, s1) \<and>
     do_mmap s1 (VM_START + 0x4000) 0x4000 0x1000 31 = Some (0x4000, s2) \<and>
     find_vma (kmem s2) (VM_START + 0x4000) 0x4000 = Some 0"
proof -
  let ?mm = "VM_START + 0x4000"
  let ?n1 = "new_area (VM_START + 0x3000) 0 0x1000 31" and ?n2 = "new_area (VM_START + 0x2000) 0x8000 0x1000 31"
  obtain s0 where r0: "do_mmap mm_example3 ?mm 0 0x1000 31 = Some (0, s0)"
    "free_pages s0 [VM_START + 0x2000, VM_START + 0x1000]"
    and l0: "mm_list s0 [VM_START + 0x2000, VM_START + 0x1000] ?mm [?n1]"
    using do_mmap_clear [OF mm_example3(1) mm_example3(2), of 0 "0x1000" 31] by (auto simp: insert_area_def)
  have c: "\<forall>a \<in> set [?n1]. clear_of 0x8000 (0x8000 + 0x1000) a" by (simp add: clear_of_def new_area_def)
  obtain s1 where r1: "do_mmap s0 ?mm 0x8000 0x1000 31 = Some (0x8000, s1)" "free_pages s1 [VM_START + 0x1000]"
    and l1: "mm_list s1 [VM_START + 0x1000] ?mm [?n1, ?n2]"
    using do_mmap_clear [OF r0(2) l0 c, of 31] by (auto simp: insert_area_def new_area_def)
  have c: "\<forall>a \<in> set [?n1, ?n2]. clear_of 0x4000 (0x4000 + 0x1000) a" by (simp add: clear_of_def new_area_def)
  have "a_start (hd [?n1, ?n2]) \<le> 0x4000" "\<exists>a \<in> set [?n1, ?n2]. 0x4000 < a_start a"
    by (simp_all add: new_area_def)
  from do_mmap_middle_lost [OF r1(2) l1 c this, of 31]
  obtain s2 where r2: "do_mmap s1 ?mm 0x4000 0x1000 31 = Some (0x4000, s2)"
    and f: "\<forall>x. 0x4000 \<le> x \<longrightarrow> x < 0x4000 + 0x1000 \<longrightarrow> find_vma (kmem s2) ?mm x = Some 0"
    by blast
  have "find_vma (kmem s2) ?mm 0x4000 = Some 0" using f by simp
  then show ?thesis using r0 r1 r2 by blast
qed

lemma get_unmapped_area_loop_stuck:
  assumes "p \<noteq> 0" "PGROUNDUP va_end < ld m (vm_end p)" "ld m (vm_start p) < va_end"
    and "va = PGROUNDUP va_end"
  shows "get_unmapped_area_loop m p va va_end = None"
proof -
  have False if r: "get_unmapped_area_loop m p va va_end = Some r" for r
  proof -
    have "\<not> (m' = m \<and> p' = p \<and> va' = PGROUNDUP va_end \<and> e' = va_end)"
      if "get_unmapped_area_loop m' p' va' e' = Some y" for m' p' va' e' y
      by (rule get_unmapped_area_loop.raw_induct
          [where P = "\<lambda>m' p' va' e' y. \<not> (m' = m \<and> p' = p \<and> va' = PGROUNDUP va_end \<and> e' = va_end)", OF _ that])
        (use assms(1-3) in \<open>fastforce simp: not_le split: if_splits\<close>)
    then show ?thesis using r assms(4) by blast
  qed
  then show ?thesis using assms(4) by (cases "get_unmapped_area_loop m p va va_end") blast+
qed

text \<open>After the first move the loop stands still at the first area that overlaps.\<close>

lemma get_unmapped_area_loop_moved:
  assumes "vmas m p as"
  shows "get_unmapped_area_loop m p (PGROUNDUP len) len
    = (if \<forall>a \<in> set as. clear_of (PGROUNDUP len) len a then Some (PGROUNDUP len) else None)"
  using assms
proof (induction as arbitrary: p)
  case Nil
  then show ?case by (simp add: get_unmapped_area_loop.simps)
next
  case (Cons a as)
  have p: "p \<noteq> 0" using Cons.prems by (rule vmas_nonzero)
  have "vmas m (ld m (vm_next p)) as" using Cons.prems by auto
  note IH = Cons.IH [OF this]
  show ?case
  proof (cases "clear_of (PGROUNDUP len) len a")
    case True
    then have "get_unmapped_area_loop m p (PGROUNDUP len) len = get_unmapped_area_loop m (ld m (vm_next p)) (PGROUNDUP len) len"
      using p Cons.prems by (subst get_unmapped_area_loop.simps) (auto simp: clear_of_def)
    then show ?thesis using True IH by simp
  next
    case False
    then have "get_unmapped_area_loop m p (PGROUNDUP len) len = None"
      using p Cons.prems by (intro get_unmapped_area_loop_stuck) (auto simp: clear_of_def not_le)
    then show ?thesis using False by simp
  qed
qed

lemma get_unmapped_area_loop_start:
  assumes "vmas m p as"
  shows "get_unmapped_area_loop m p 0 len
    = (if \<forall>a \<in> set as. clear_of 0 len a then Some 0
       else if \<forall>a \<in> set as. clear_of (PGROUNDUP len) len a then Some (PGROUNDUP len) else None)"
  using assms
proof (induction as arbitrary: p)
  case Nil
  then show ?case by (simp add: get_unmapped_area_loop.simps)
next
  case (Cons a as)
  have p: "p \<noteq> 0" using Cons.prems by (rule vmas_nonzero)
  have "vmas m (ld m (vm_next p)) as" using Cons.prems by auto
  note IH = Cons.IH [OF this]
  show ?case
  proof (cases "clear_of 0 len a")
    case True
    then have "get_unmapped_area_loop m p 0 len = get_unmapped_area_loop m (ld m (vm_next p)) 0 len"
      using p Cons.prems by (subst get_unmapped_area_loop.simps) (auto simp: clear_of_def)
    moreover have "clear_of (PGROUNDUP len) len a" using True by (auto simp: clear_of_def)
    ultimately show ?thesis using True IH by simp
  next
    case False
    then have "get_unmapped_area_loop m p 0 len = get_unmapped_area_loop m p (PGROUNDUP len) len"
      using p Cons.prems by (subst get_unmapped_area_loop.simps) (auto simp: clear_of_def)
    then show ?thesis using get_unmapped_area_loop_moved [OF Cons.prems] False by simp
  qed
qed

text \<open>
  C22: what \<open>get_unmapped_area\<close> does on any list of areas. It returns 0 when no area overlaps the first \<open>len\<close> bytes;
  otherwise it returns \<open>PGROUNDUP(len)\<close> when every area starts at \<open>len\<close> or later or ends by \<open>PGROUNDUP(len)\<close>; otherwise, when an area
  starts before \<open>len\<close> and ends after \<open>PGROUNDUP(len)\<close>, it never returns: \<open>va_end\<close> is not updated with \<open>va\<close>, so the
  same area overlaps for ever.
\<close>

theorem get_unmapped_area_ends_or_hangs:
  assumes "mm_list s ps mm as"
  shows "get_unmapped_area (kmem s) mm len
    = (if \<forall>a \<in> set as. a_end a \<le> 0 \<or> len \<le> a_start a then Some 0
       else if \<forall>a \<in> set as. a_end a \<le> PGROUNDUP len \<or> len \<le> a_start a then Some (PGROUNDUP len)
       else None)"
proof -
  have "vmas (kmem s) (ld (kmem s) mm) as" using assms by (simp add: mm_list_def)
  from get_unmapped_area_loop_start [OF this, of len] show ?thesis by (simp only: get_unmapped_area_def clear_of_def Let_def add_0_left)
qed

theorem get_unmapped_area_ends_or_hangs_witness:
  "get_unmapped_area (kmem mm_example3) (VM_START + 0x4000) 0x1000 = Some 0 \<and>
   (\<exists>s0. do_mmap mm_example3 (VM_START + 0x4000) 0 0x5000 31 = Some (0, s0) \<and>
     get_unmapped_area (kmem s0) (VM_START + 0x4000) 0x1000 = None)"
proof
  show "get_unmapped_area (kmem mm_example3) (VM_START + 0x4000) 0x1000 = Some 0"
    using get_unmapped_area_ends_or_hangs [OF mm_example3(2)] by simp
  let ?n = "new_area (VM_START + 0x3000) 0 0x5000 31"
  obtain s0 where r: "do_mmap mm_example3 (VM_START + 0x4000) 0 0x5000 31 = Some (0, s0)"
    and l: "mm_list s0 [VM_START + 0x2000, VM_START + 0x1000] (VM_START + 0x4000) [?n]"
    using do_mmap_clear [OF mm_example3(1) mm_example3(2), of 0 "0x5000" 31] by (auto simp: insert_area_def)
  have "get_unmapped_area (kmem s0) (VM_START + 0x4000) 0x1000 = None"
    using get_unmapped_area_ends_or_hangs [OF l, of "0x1000"] by (simp add: new_area_def PGROUNDUP_def PGSIZE_def)
  then show "\<exists>s0. do_mmap mm_example3 (VM_START + 0x4000) 0 0x5000 31 = Some (0, s0) \<and>
     get_unmapped_area (kmem s0) (VM_START + 0x4000) 0x1000 = None"
    using r by blast
qed

end
