(* ===== verification/Printk.thy ===== *)
theory Printk
  imports Prelude
begin

text \<open>
  Formatted output: \<open>printk\<close> of \<open>lib/printk.c\<close>, the user-mode \<open>printf\<close> of \<open>user/printf.c\<close>, and
  \<open>puts\<close>/\<open>puti\<close> of \<open>lib/print.c\<close>. A call yields the characters it passes to \<open>putch\<close>. The
  specification is a list of directives, each with its rendering. A C string is the list of the
  characters before its NUL, so that the end of the list is where \<open>*fmt\<close> and \<open>*str\<close> are zero.
\<close>

section \<open>Signed division of C\<close>

definition c_quot :: "int \<Rightarrow> int \<Rightarrow> int" where
  "c_quot a b = sgn a * sgn b * (\<bar>a\<bar> div \<bar>b\<bar>)"

definition c_rem :: "int \<Rightarrow> int \<Rightarrow> int" where
  "c_rem a b = a - b * c_quot a b"

lemma c_quot_nonneg: "0 \<le> a \<Longrightarrow> 0 < b \<Longrightarrow> c_quot a b = a div b"
  by (auto simp: c_quot_def sgn_if)

lemma c_rem_nonneg: "0 \<le> a \<Longrightarrow> 0 < b \<Longrightarrow> c_rem a b = a mod b"
  by (simp add: c_rem_def c_quot_nonneg minus_mult_div_eq_mod)

lemma c_quot_decreases: "a \<noteq> 0 \<Longrightarrow> \<bar>c_quot a 10\<bar> < \<bar>a\<bar>"
  by (auto simp: c_quot_def sgn_if)

section \<open>The code\<close>

text \<open>
  Arguments of a variadic call: a 64-bit register, or a string. \<open>va_arg(vl, int)\<close> reads the low
  half of the register, sign-extended.
\<close>

datatype varg = VInt u64 | VStr string

definition va_num :: "bool \<Rightarrow> u64 \<Rightarrow> u64" where
  "va_num longarg w = (if longarg then w else scast (ucast w :: u32))"

text \<open>The loop that fills \<open>decchar\<close>: the characters written, lowest index first.\<close>

function decchars :: "int \<Rightarrow> char list" where
  "decchars tmp = (if tmp = 0 then [] else char_of (nat (c_rem tmp 10 + 48)) # decchars (c_quot tmp 10))"
  by pat_completeness auto
termination by (relation "measure (\<lambda>tmp. nat \<bar>tmp\<bar>)") (simp_all add: c_quot_decreases)

declare decchars.simps [simp del]

text \<open>\<open>char decchar[25] = {'0', 0}\<close> after the loop; \<open>None\<close> when the loop leaves the array.\<close>

definition decchar_array :: "int \<Rightarrow> (char list \<times> nat) option" where
  "decchar_array num =
     (let ds = decchars num; bits = length ds
      in if 25 < bits then None
         else Some (ds @ drop bits (CHR ''0'' # replicate 24 (CHR 0x00)), bits))"

text \<open>The kernel puts \<open>decchar[bits]\<close> down to \<open>decchar[0]\<close>; the user library starts at \<open>bits - 1\<close>.\<close>

definition k_dec :: "int \<Rightarrow> char list option" where
  "k_dec num =
     (case decchar_array num of None \<Rightarrow> None
      | Some (decchar, bits) \<Rightarrow> if bits < 25 then Some (rev (take (bits + 1) decchar)) else None)"

definition u_dec :: "int \<Rightarrow> char list option" where
  "u_dec num =
     (case decchar_array num of None \<Rightarrow> None
      | Some (decchar, bits) \<Rightarrow>
          let bits = (if bits = 0 then bits + 1 else bits) in Some (rev (take bits decchar)))"

definition hexchar :: "u64 \<Rightarrow> nat \<Rightarrow> char" where
  "hexchar num halfbyte =
     (let hex = unat (signed_drop_bit (4 * halfbyte) num AND 0xF)
      in char_of (if hex < 10 then 48 + hex else 97 + hex - 10))"

definition hexchars :: "bool \<Rightarrow> u64 \<Rightarrow> char list" where
  "hexchars longarg num =
     (let hexdigits = 2 * (if longarg then 8 else 4) - 1
      in map (hexchar num) (rev [0..<hexdigits + 1]))"

text \<open>\<open>'%d'\<close>: the sign is put first and the number negated, which wraps at the least \<open>long\<close>.\<close>

definition put_d :: "(int \<Rightarrow> char list option) \<Rightarrow> u64 \<Rightarrow> char list option" where
  "put_d dec num =
     (if sint num < 0 then map_option (\<lambda>s. CHR ''-'' # s) (dec (sint (- num))) else dec (sint num))"

text \<open>\<open>'%u'\<close>: the counter of the digit loop is a signed \<open>long\<close>.\<close>

definition put_u :: "(int \<Rightarrow> char list option) \<Rightarrow> u64 \<Rightarrow> char list option" where
  "put_u dec num = dec (sint num)"

text \<open>
  One conversion character in a format: the characters put and the arguments left, \<open>None\<close> when the
  argument is missing or of the wrong kind.
\<close>

fun conversion :: "(int \<Rightarrow> char list option) \<Rightarrow> bool \<Rightarrow> char \<Rightarrow> varg list \<Rightarrow> (char list \<times> varg list) option" where
  "conversion dec longarg f [] = None"
| "conversion dec longarg f (VStr str # vl) = (if f = CHR ''s'' then Some (str, vl) else None)"
| "conversion dec longarg f (VInt w # vl) =
     (if f = CHR ''x'' then Some (hexchars longarg (va_num longarg w), vl)
      else if f = CHR ''d'' then map_option (\<lambda>s. (s, vl)) (put_d dec (va_num longarg w))
      else if f = CHR ''u'' then map_option (\<lambda>s. (s, vl)) (put_u dec (va_num longarg w))
      else if f = CHR ''c'' then Some ([char_of (unat (ucast w :: u8))], vl)
      else None)"

text \<open>The loop over the format, with \<open>in_format\<close> and \<open>longarg\<close>; an unknown character in a format is skipped.\<close>

fun vprintfmt_loop ::
    "(int \<Rightarrow> char list option) \<Rightarrow> bool \<Rightarrow> bool \<Rightarrow> string \<Rightarrow> varg list \<Rightarrow> char list option" where
  "vprintfmt_loop dec in_format longarg [] vl = Some []"
| "vprintfmt_loop dec in_format longarg (f # fmt) vl =
     (if in_format then
        (if f = CHR ''l'' then vprintfmt_loop dec in_format True fmt vl
         else if f \<in> {CHR ''x'', CHR ''d'', CHR ''u'', CHR ''s'', CHR ''c''} then
           (case conversion dec longarg f vl of None \<Rightarrow> None
            | Some (s, vl) \<Rightarrow> map_option ((@) s) (vprintfmt_loop dec False False fmt vl))
         else vprintfmt_loop dec in_format longarg fmt vl)
      else if f = CHR ''%'' then vprintfmt_loop dec True longarg fmt vl
      else map_option ((#) f) (vprintfmt_loop dec in_format longarg fmt vl))"

definition vprintfmt :: "string \<Rightarrow> varg list \<Rightarrow> char list option" where
  "vprintfmt fmt vl = vprintfmt_loop k_dec False False fmt vl"

definition printk :: "string \<Rightarrow> varg list \<Rightarrow> char list option" where
  "printk s vl = vprintfmt s vl"

text \<open>
  User mode: the characters go to \<open>buffer[1000]\<close>, a NUL is added, and \<open>SYS_WRITE\<close> gets the buffer
  with its length; \<open>None\<close> also when the buffer overflows.
\<close>

definition user_vprintfmt :: "string \<Rightarrow> varg list \<Rightarrow> char list option" where
  "user_vprintfmt fmt vl =
     (case vprintfmt_loop u_dec False False fmt vl of None \<Rightarrow> None
      | Some s \<Rightarrow> if length s + 1 \<le> 1000 then Some (s @ [CHR 0x00]) else None)"

definition printf :: "string \<Rightarrow> varg list \<Rightarrow> char list option" where
  "printf s vl = user_vprintfmt s vl"

text \<open>\<open>puts\<close> and \<open>puti\<close>: one console call per character; \<open>puti\<close> has room for ten digits.\<close>

definition puts :: "string \<Rightarrow> char list" where
  "puts s = takeWhile (\<lambda>c. c \<noteq> CHR 0x00) s"

definition puti :: "int \<Rightarrow> char list option" where
  "puti x = (let s = decchars x in if 10 < length s then None else Some (rev s))"

section \<open>Decimal numerals\<close>

fun show_nat :: "nat \<Rightarrow> string" where
  "show_nat n = (if n < 10 then [char_of (48 + n)] else show_nat (n div 10) @ [char_of (48 + n mod 10)])"

declare show_nat.simps [simp del]

definition show_int :: "int \<Rightarrow> string" where
  "show_int n = (if n < 0 then CHR ''-'' # show_nat (nat (- n)) else show_nat (nat n))"

definition read_nat :: "string \<Rightarrow> nat" where
  "read_nat s = foldl (\<lambda>n c. 10 * n + (of_char c - 48)) 0 s"

fun read_int :: "string \<Rightarrow> int" where
  "read_int (c # s) = (if c = CHR ''-'' then - int (read_nat s) else int (read_nat (c # s)))"
| "read_int [] = 0"

lemma read_show_nat: "read_nat (show_nat n) = n"
proof (induction n rule: show_nat.induct)
  case (1 n)
  show ?case
  proof (cases "n < 10")
    case True
    then show ?thesis by (simp add: show_nat.simps [of n] read_nat_def)
  next
    case False
    then have "read_nat (show_nat (n div 10)) = n div 10" using 1 by simp
    then show ?thesis using False by (simp add: show_nat.simps [of n] read_nat_def)
  qed
qed

lemma char_of_48: "char_of (48 :: nat) = CHR ''0''"
  using char_of_char [of "CHR ''0''"] by simp

lemma digit_not_minus: "(d :: nat) < 10 \<Longrightarrow> char_of (48 + d) \<noteq> CHR ''-'' \<and> char_of (48 + d) \<noteq> CHR 0x00"
proof -
  assume d: "(d :: nat) < 10"
  have "of_char (char_of (48 + d) :: char) \<noteq> (of_char CHR ''-'' :: nat) \<and>
    of_char (char_of (48 + d) :: char) \<noteq> (of_char CHR 0x00 :: nat)"
    using d by simp
  then show ?thesis by metis
qed

lemma show_nat_digits: "c \<in> set (show_nat n) \<Longrightarrow> c \<noteq> CHR ''-'' \<and> c \<noteq> CHR 0x00"
proof (induction n rule: show_nat.induct)
  case (1 n)
  then show ?case
    using digit_not_minus [of n] digit_not_minus [of "n mod 10"]
    by (cases "n < 10") (auto simp: show_nat.simps [of n])
qed

lemma show_nat_nonempty: "show_nat n \<noteq> []"
  by (simp add: show_nat.simps [of n])

lemma read_show_int: "read_int (show_int n) = n"
proof (cases "n < 0")
  case True
  then show ?thesis by (simp add: show_int_def read_show_nat)
next
  case False
  obtain c s where cs: "show_nat (nat n) = c # s" using show_nat_nonempty by (cases "show_nat (nat n)") auto
  then have "c \<noteq> CHR ''-''" using show_nat_digits [of c "nat n"] by simp
  then show ?thesis using False cs read_show_nat [of "nat n"] by (simp add: show_int_def)
qed

lemma show_nat_length: "n < 10 ^ k \<Longrightarrow> 0 < k \<Longrightarrow> length (show_nat n) \<le> k"
proof (induction n arbitrary: k rule: show_nat.induct)
  case (1 n)
  show ?case
  proof (cases "n < 10")
    case True
    then show ?thesis using 1 by (simp add: show_nat.simps [of n])
  next
    case False
    obtain j where j: "k = Suc j" using 1(3) by (cases k) auto
    then have "0 < j" "n div 10 < 10 ^ j" using 1(2) False by (cases j, auto simp: less_mult_imp_div_less mult.commute)
    then show ?thesis using 1(1) [OF False, of j] False j by (simp add: show_nat.simps [of n])
  qed
qed

lemma decchars_nat: "0 < n \<Longrightarrow> decchars (int n) = rev (show_nat n)"
proof (induction n rule: show_nat.induct)
  case (1 n)
  have q: "c_quot (int n) 10 = int (n div 10)" "c_rem (int n) 10 = int (n mod 10)"
    by (simp_all add: c_quot_nonneg c_rem_nonneg zdiv_int zmod_int)
  have d: "decchars (int n) = char_of (48 + n mod 10) # decchars (int (n div 10))"
    using 1(2) by (simp add: decchars.simps [of "int n"] q nat_add_distrib add.commute)
  show ?case
  proof (cases "n < 10")
    case True
    then show ?thesis using d by (simp add: show_nat.simps [of n] decchars.simps [of 0])
  next
    case False
    then show ?thesis using d 1(1) by (simp add: show_nat.simps [of n])
  qed
qed

lemma decchars_zero: "decchars 0 = []"
  by (simp add: decchars.simps)

lemma decchars_fits:
  assumes "0 < n" "n < 2 ^ 63"
  shows "decchars (int n) = rev (show_nat n)" "length (show_nat n) \<le> 19" "0 < length (show_nat n)"
  using assms show_nat_length [of n 19] show_nat_nonempty [of n] by (auto simp: decchars_nat)

lemma u_dec_show:
  assumes "n < 2 ^ 63"
  shows "u_dec (int n) = Some (show_nat n)"
proof (cases "n = 0")
  case True
  then show ?thesis by (simp add: u_dec_def decchar_array_def decchars_zero show_nat.simps char_of_48)
next
  case False
  then show ?thesis
    using decchars_fits [of n] assms by (simp add: u_dec_def decchar_array_def Let_def)
qed

text \<open>The kernel's loop starts one place too high: a non-zero number is preceded by \<open>decchar[bits]\<close>, a NUL.\<close>

definition k_show_nat :: "nat \<Rightarrow> string" where
  "k_show_nat n = (if n = 0 then ''0'' else CHR 0x00 # show_nat n)"

lemma k_dec_show:
  assumes "n < 2 ^ 63"
  shows "k_dec (int n) = Some (k_show_nat n)"
proof (cases "n = 0")
  case True
  then show ?thesis by (simp add: k_dec_def decchar_array_def decchars_zero k_show_nat_def)
next
  case False
  then have d: "decchars (int n) = rev (show_nat n)" "length (show_nat n) \<le> 19" "0 < length (show_nat n)"
    using decchars_fits [of n] assms by auto
  obtain j where j: "length (show_nat n) = Suc j" using d(3) by (cases "length (show_nat n)") auto
  have "take (Suc j + 1) (rev (show_nat n) @ drop (Suc j) (CHR ''0'' # replicate 24 CHR 0x00)) =
      rev (show_nat n) @ [CHR 0x00]"
    using j d(2) by (simp add: take_replicate)
  then show ?thesis
    using d j False by (simp add: k_dec_def decchar_array_def k_show_nat_def Let_def)
qed

section \<open>Formats as lists of directives\<close>

datatype directive = Lit char | Dec bool u64 | Hex bool u64 | Str string | Chr char

fun fmt_of :: "directive \<Rightarrow> string" where
  "fmt_of (Lit c) = [c]"
| "fmt_of (Dec l w) = (if l then ''%ld'' else ''%d'')"
| "fmt_of (Hex l w) = (if l then ''%lx'' else ''%x'')"
| "fmt_of (Str s) = ''%s''"
| "fmt_of (Chr c) = ''%c''"

fun args_of :: "directive \<Rightarrow> varg list" where
  "args_of (Lit c) = []"
| "args_of (Dec l w) = [VInt w]"
| "args_of (Hex l w) = [VInt w]"
| "args_of (Str s) = [VStr s]"
| "args_of (Chr c) = [VInt (of_nat (of_char c))]"

text \<open>The hexadecimal numeral of fixed width: 8 or 16 digits, most significant first.\<close>

definition show_hex :: "nat \<Rightarrow> nat \<Rightarrow> string" where
  "show_hex k n = map (\<lambda>i. let d = n div 16 ^ i mod 16 in char_of (if d < 10 then 48 + d else 87 + d)) (rev [0..<k])"

text \<open>The rendering of a directive, given how a natural number is written in decimal.\<close>

fun render_with :: "(nat \<Rightarrow> string) \<Rightarrow> directive \<Rightarrow> string" where
  "render_with sh (Lit c) = [c]"
| "render_with sh (Dec l w) =
     (let n = sint (va_num l w) in if n < 0 then CHR ''-'' # sh (nat (- n)) else sh (nat n))"
| "render_with sh (Hex l w) = (if l then show_hex 16 (unat w) else show_hex 8 (unat w mod 2 ^ 32))"
| "render_with sh (Str s) = s"
| "render_with sh (Chr c) = [c]"

abbreviation render :: "directive \<Rightarrow> string" where
  "render \<equiv> render_with show_nat"

abbreviation k_render :: "directive \<Rightarrow> string" where
  "k_render \<equiv> render_with k_show_nat"

text \<open>
  A literal is not the percent sign, and a decimal is not the least \<open>long\<close>, whose negation wraps.
\<close>

fun printable :: "directive \<Rightarrow> bool" where
  "printable (Lit c) = (c \<noteq> CHR ''%'')"
| "printable (Dec l w) = (va_num l w \<noteq> 0x8000000000000000)"
| "printable (Hex l w) = True"
| "printable (Str s) = True"
| "printable (Chr c) = True"

lemma put_d_show:
  assumes dec: "\<And>n. n < 2 ^ 63 \<Longrightarrow> dec (int n) = Some (sh n)" and w: "w \<noteq> 0x8000000000000000"
  shows "put_d dec w =
    Some (if sint w < 0 then CHR ''-'' # sh (nat (- sint w)) else sh (nat (sint w)))"
proof -
  have b: "- (2 ^ 63) \<le> sint w" "sint w < 2 ^ 63"
    using sint_ge [of w] sint_lt [of w] by simp_all
  show ?thesis
  proof (cases "sint w < 0")
    case True
    have "sint w \<noteq> - (2 ^ 63)"
    proof
      assume "sint w = - (2 ^ 63)"
      then have "word_of_int (sint w) = (word_of_int (- (2 ^ 63)) :: u64)" by (rule arg_cong)
      then show False using w by simp
    qed
    then have "sint (- w) = - sint w"
      using b True by (simp add: sint_word_ariths signed_take_bit_int_eq_self)
    then show ?thesis
      using True b dec [of "nat (- sint w)"] \<open>sint w \<noteq> _\<close> by (simp add: put_d_def nat_less_iff)
  next
    case False
    then show ?thesis using b dec [of "nat (sint w)"] by (simp add: put_d_def nat_less_iff)
  qed
qed

lemma nibble: "unat (take_bit 4 (drop_bit (4 * i) (w :: u64))) = unat w div 16 ^ i mod 16"
proof -
  have "unat (take_bit 4 (drop_bit (4 * i) w)) = take_bit 4 (drop_bit (4 * i) (unat w))"
    by (simp only: unsigned_take_bit_eq unat_drop_bit_eq)
  then show ?thesis by (simp add: take_bit_eq_mod drop_bit_eq_div power_mult)
qed

lemma nibble_low:
  assumes "i < 8"
  shows "(n :: nat) mod 2 ^ 32 div 16 ^ i mod 16 = n div 16 ^ i mod 16"
proof -
  have "take_bit 4 (drop_bit (4 * i) (take_bit 32 n)) = take_bit 4 (drop_bit (4 * i) n)"
  proof (rule bit_eqI)
    fix k
    show "bit (take_bit 4 (drop_bit (4 * i) (take_bit 32 n))) k = bit (take_bit 4 (drop_bit (4 * i) n)) k"
      unfolding bit_take_bit_iff bit_drop_bit_eq comp_def using assms by auto
  qed
  then show ?thesis by (simp add: take_bit_eq_mod drop_bit_eq_div power_mult)
qed

lemma hexchar_show:
  assumes "i < 16"
  shows "hexchar w i = (let d = unat w div 16 ^ i mod 16 in char_of (if d < 10 then 48 + d else 87 + d))"
proof -
  have f: "(0xF :: u64) = mask 4" by (simp add: mask_eq_exp_minus_1)
  have "signed_drop_bit (4 * i) w AND mask 4 = take_bit 4 (drop_bit (4 * i) w)"
  proof (rule bit_word_eqI)
    fix n
    show "bit (signed_drop_bit (4 * i) w AND mask 4) n = bit (take_bit 4 (drop_bit (4 * i) w)) n"
      using assms by (auto simp: bit_simps)
  qed
  then show ?thesis unfolding hexchar_def f by (simp add: nibble Let_def)
qed

lemma hexchars_show:
  "hexchars True w = show_hex 16 (unat w)"
  "hexchars False (va_num False w) = show_hex 8 (unat w mod 2 ^ 32)"
proof -
  have n: "2 * 8 - 1 + 1 = (16 :: nat)" "2 * 4 - 1 + 1 = (8 :: nat)" by simp_all
  show "hexchars True w = show_hex 16 (unat w)"
    unfolding hexchars_def show_hex_def Let_def if_True n
    by (rule map_cong [OF refl]) (simp only: set_rev set_upt atLeastLessThan_iff hexchar_show Let_def)
  have "unat (va_num False w) div 16 ^ i mod 16 = unat w mod 2 ^ 32 div 16 ^ i mod 16" if "i < 8" for i
  proof -
    have "take_bit 4 (drop_bit (4 * i) (va_num False w)) = take_bit 4 (drop_bit (4 * i) w)"
    proof (rule bit_word_eqI)
      fix k
      show "bit (take_bit 4 (drop_bit (4 * i) (va_num False w))) k = bit (take_bit 4 (drop_bit (4 * i) w)) k"
        unfolding bit_take_bit_iff bit_drop_bit_eq comp_def va_num_def using that
        by (cases "4 * i + k = 31") (auto simp: bit_signed_iff bit_unsigned_iff min_def)
    qed
    then show ?thesis unfolding nibble_low [OF that] nibble [symmetric] by simp
  qed
  then have "hexchar (va_num False w) i =
      (let d = unat w mod 2 ^ 32 div 16 ^ i mod 16 in char_of (if d < 10 then 48 + d else 87 + d))"
    if "i < 8" for i
    using that hexchar_show [of i "va_num False w"] by (simp only: Let_def)
  then show "hexchars False (va_num False w) = show_hex 8 (unat w mod 2 ^ 32)"
    unfolding hexchars_def show_hex_def Let_def if_False n
    by (intro map_cong [OF refl]) (simp only: set_rev set_upt atLeastLessThan_iff Let_def)
qed

text \<open>
  A decimal printer and the numeral it produces: the contract that the format loop relies on.
\<close>

locale dec_printer =
  fixes dec :: "int \<Rightarrow> char list option"
    and sh :: "nat \<Rightarrow> string"
  assumes dec_sh: "n < 2 ^ 63 \<Longrightarrow> dec (int n) = Some (sh n)"
begin

lemma loop_directive:
  assumes "printable d"
  shows "vprintfmt_loop dec False False (fmt_of d @ fmt) (args_of d @ vl) =
    map_option ((@) (render_with sh d)) (vprintfmt_loop dec False False fmt vl)"
proof (cases d)
  case (Dec l w)
  then have "put_d dec (va_num l w) = Some (render_with sh d)"
    using assms put_d_show [of dec sh "va_num l w"] dec_sh by (simp add: Let_def)
  then show ?thesis using Dec by (cases l) auto
next
  case (Hex l w)
  then show ?thesis by (cases l) (auto simp: hexchars_show va_num_def [of True])
next
  case (Chr c)
  have "unat (ucast (of_nat (of_char c) :: u64) :: u8) = of_char c"
    using nat_of_char_less_256 [of c] by (simp add: unsigned_ucast_eq unat_of_nat take_bit_eq_mod del: nat_of_char_less_256)
  then have "char_of (unat (ucast (of_nat (of_char c) :: u64) :: u8)) = c" by simp
  then show ?thesis using Chr by auto
qed (use assms in \<open>auto intro!: option.map_cong\<close>)

lemma loop_directives:
  assumes "\<forall>d \<in> set ds. printable d"
  shows "vprintfmt_loop dec False False (concat (map fmt_of ds)) (concat (map args_of ds)) =
    Some (concat (map (render_with sh) ds))"
  using assms by (induction ds) (auto simp: loop_directive)

end

interpretation kd: dec_printer k_dec k_show_nat
  by unfold_locales (rule k_dec_show)

interpretation ud: dec_printer u_dec show_nat
  by unfold_locales (rule u_dec_show)

section \<open>Properties\<close>

lemma render_no_nul: "c \<in> set (show_nat n) \<Longrightarrow> c \<noteq> CHR 0x00"
  using show_nat_digits by blast

lemma filter_k_show: "filter (\<lambda>c. c \<noteq> CHR 0x00) (k_show_nat n) = show_nat n"
  using filter_True [of "show_nat n"] render_no_nul
  by (auto simp: k_show_nat_def show_nat.simps [of 0] char_of_48)

text \<open>Literals, strings and characters that hold no NUL, as every C string does.\<close>

fun nul_free :: "directive \<Rightarrow> bool" where
  "nul_free (Lit c) = (c \<noteq> CHR 0x00)"
| "nul_free (Str s) = (CHR 0x00 \<notin> set s)"
| "nul_free (Chr c) = (c \<noteq> CHR 0x00)"
| "nul_free _ = True"

lemma hex_no_nul: "c \<in> set (show_hex k n) \<Longrightarrow> c \<noteq> CHR 0x00"
proof -
  assume "c \<in> set (show_hex k n)"
  then obtain i where i: "c = (let d = n div 16 ^ i mod 16 in char_of (if d < 10 then 48 + d else 87 + d))"
    unfolding show_hex_def by auto
  define d where "d = n div 16 ^ i mod 16"
  have "d < 16" "c = char_of (if d < 10 then 48 + d else 87 + d)"
    using i by (simp_all add: d_def Let_def)
  then have "of_char c \<noteq> (0 :: nat)" by (simp split: if_splits)
  then show ?thesis by auto
qed

lemma filter_k_render: "nul_free d \<Longrightarrow> filter (\<lambda>c. c \<noteq> CHR 0x00) (k_render d) = render d"
  using hex_no_nul by (cases d) (auto simp: Let_def filter_k_show filter_id_conv)

text \<open>
  \<open>printk\<close> on a format made of literals and \<open>%d\<close>, \<open>%ld\<close>, \<open>%x\<close>, \<open>%lx\<close>, \<open>%s\<close>, \<open>%c\<close> conversions with
  matching arguments puts the renderings of the parts in order; the digit loop starts one place
  too high, so every non-zero decimal number has a NUL in front of its digits, and what is left
  when the NULs are dropped is the intended text.
\<close>

theorem printk_renders:
  assumes "\<forall>d \<in> set ds. printable d \<and> nul_free d"
  shows "printk (concat (map fmt_of ds)) (concat (map args_of ds)) = Some (concat (map k_render ds)) \<and>
    filter (\<lambda>c. c \<noteq> CHR 0x00) (concat (map k_render ds)) = concat (map render ds)"
proof -
  have "filter (\<lambda>c. c \<noteq> CHR 0x00) (concat (map k_render ds)) = concat (map render ds)"
    using assms by (induction ds) (auto simp: filter_k_render)
  then show ?thesis
    using kd.loop_directives [of ds] assms by (simp add: printk_def vprintfmt_def)
qed



text \<open>
  Printing a \<open>long\<close> with \<open>%ld\<close> in user mode and reading the numeral back gives the number, for
  every value but the least one; the digits always fit \<open>decchar[25]\<close>.
\<close>

theorem printf_decimal_roundtrip:
  assumes "w \<noteq> 0x8000000000000000"
  shows "\<exists>s. printf ''%ld'' [VInt w] = Some (s @ [CHR 0x00]) \<and> read_int s = sint w \<and> length s \<le> 20"
proof -
  have b: "- (2 ^ 63) \<le> sint w" "sint w < 2 ^ 63"
    using sint_ge [of w] sint_lt [of w] by simp_all
  have "put_d u_dec w = Some (show_int (sint w))"
    using put_d_show [of u_dec show_nat w] u_dec_show assms by (auto simp: show_int_def)
  moreover have "length (show_int (sint w)) \<le> 20"
    using b show_nat_length [of "nat (sint w)" 19] show_nat_length [of "nat (- sint w)" 19]
    by (auto simp: show_int_def nat_less_iff)
  ultimately show ?thesis
    using read_show_int [of "sint w"] by (auto simp: printf_def user_vprintfmt_def va_num_def)
qed

end
