(* ===== verification/Task.thy ===== *)
theory Task
  imports Page_Table Vma Printk "HOL-Library.Monad_Syntax"
begin

text \<open>
  Tasks and the scheduler of \<open>arch/riscv/kernel/proc.c\<close>, with the context switch of
  \<open>arch/riscv/kernel/entry.S\<close>: \<open>task_init\<close>, \<open>do_fork\<close>, \<open>switch_to\<close>, \<open>do_timer\<close>, \<open>schedule\<close>.
  Task structures live in kernel memory; the state adds the task table, the console, the
  clock and the registers the switch saves. \<open>None\<close> stands for a fault or an endless loop.
\<close>

section \<open>State\<close>

text \<open>The registers and CSRs of \<open>__switch_to\<close>.\<close>

record cpu =
  ra :: u64
  sp :: u64
  sregs :: "u64 list"
  sepc :: u64
  sstatus :: u64
  sscratch :: u64
  satp :: u64

record tstate = kstate +
  task :: "u64 list"
  current :: u64
  idle :: u64
  total_tasks :: nat
  console :: string
  mtime :: u64
  timer_cmp :: u64
  cpu :: cpu

text \<open>Further linker symbols: the user program, \<open>__dummy\<close> and \<open>forkret\<close>.\<close>

record task_symbols = kernel_symbols +
  uapp_start :: u64
  uapp_end :: u64
  dummy_addr :: u64
  forkret_addr :: u64

definition NR_TASKS :: nat where "NR_TASKS = 10"

text \<open>Fields of \<open>struct task_struct\<close>, \<open>struct thread_struct\<close> in it, and \<open>struct thread_info\<close>, by offset.\<close>

abbreviation t_state :: "u64 \<Rightarrow> u64" where "t_state t \<equiv> t + 8"
abbreviation t_counter :: "u64 \<Rightarrow> u64" where "t_counter t \<equiv> t + 16"
abbreviation t_priority :: "u64 \<Rightarrow> u64" where "t_priority t \<equiv> t + 24"
abbreviation t_pid :: "u64 \<Rightarrow> u64" where "t_pid t \<equiv> t + 32"
abbreviation t_ra :: "u64 \<Rightarrow> u64" where "t_ra t \<equiv> t + 40"
abbreviation t_sp :: "u64 \<Rightarrow> u64" where "t_sp t \<equiv> t + 48"
abbreviation t_sepc :: "u64 \<Rightarrow> u64" where "t_sepc t \<equiv> t + 152"
abbreviation t_sstatus :: "u64 \<Rightarrow> u64" where "t_sstatus t \<equiv> t + 160"
abbreviation t_sscratch :: "u64 \<Rightarrow> u64" where "t_sscratch t \<equiv> t + 168"
abbreviation t_pgd :: "u64 \<Rightarrow> u64" where "t_pgd t \<equiv> t + 176"
abbreviation t_mm :: "u64 \<Rightarrow> u64" where "t_mm t \<equiv> t + 184"
abbreviation t_trapframe :: "u64 \<Rightarrow> u64" where "t_trapframe t \<equiv> t + 192"

section \<open>Output and arrays\<close>

abbreviation nl :: string where "nl \<equiv> [CHR 0x0A]"

definition kprint :: "string \<Rightarrow> varg list \<Rightarrow> tstate \<Rightarrow> tstate option" where
  "kprint fmt vl s =
     (case printk fmt vl of None \<Rightarrow> None | Some cs \<Rightarrow> Some (s\<lparr>console := console s @ cs\<rparr>))"

definition task_at :: "tstate \<Rightarrow> nat \<Rightarrow> u64 option" where
  "task_at s i = (if i < NR_TASKS then Some (task s ! i) else None)"

definition set_task :: "nat \<Rightarrow> u64 \<Rightarrow> tstate \<Rightarrow> tstate option" where
  "set_task i t s = (if i < NR_TASKS then Some (s\<lparr>task := (task s)[i := t]\<rparr>) else None)"

definition put :: "u64 \<Rightarrow> u64 \<Rightarrow> tstate \<Rightarrow> tstate" where
  "put a v s = s\<lparr>kmem := st (kmem s) a v\<rparr>"

text \<open>\<open>for (j = 0; j < 512; j++) dst[j] = src[j]\<close> between kernel pages.\<close>

definition copy_page :: "u64 \<Rightarrow> u64 \<Rightarrow> mem \<Rightarrow> mem" where
  "copy_page dst src m = fold (\<lambda>j m. st m (dst + of_nat (8 * j)) (ld m (src + of_nat (8 * j)))) [0..<512] m"

text \<open>A doubleword of user memory, through the page table in \<open>satp\<close>; \<open>None\<close> is a page fault.\<close>

definition uload :: "mem \<Rightarrow> u64 \<Rightarrow> u64 \<Rightarrow> u64 option" where
  "uload m root va = map_option (load64 m) (sv39_translate m root va)"

fun copy_user :: "nat \<Rightarrow> u64 \<Rightarrow> u64 \<Rightarrow> u64 \<Rightarrow> mem \<Rightarrow> mem option" where
  "copy_user 0 dst src root m = Some m"
| "copy_user (Suc n) dst src root m =
     (case copy_user n dst src root m of None \<Rightarrow> None
      | Some m \<Rightarrow>
          (case uload m root (src + of_nat (8 * n)) of None \<Rightarrow> None
           | Some v \<Rightarrow> Some (st m (dst + of_nat (8 * n)) v)))"

section \<open>Initialisation\<close>

text \<open>The value of \<open>pgd\<close>: the page number of the root table with the Sv39 mode bits.\<close>

definition make_pgd :: "u64 \<Rightarrow> u64" where
  "make_pgd pgt = drop_bit 12 (pgt - PA2VA_OFFSET) OR 0x8000000000000000"

text \<open>\<open>~(1 << 8)\<close> is an \<open>int\<close>, sign-extended in the conjunction.\<close>

definition user_sstatus :: "u64 \<Rightarrow> u64" where
  "user_sstatus status = (status AND NOT 0x100) OR 0x40020"

definition task_init_user :: "task_symbols \<Rightarrow> nat \<Rightarrow> tstate \<Rightarrow> tstate option" where
  "task_init_user k i s = do {
     (page, s) \<leftarrow> kalloc s;
     s \<leftarrow> set_task i page s;
     let s = put (t_state page) 0 s;
     let s = put (t_counter page) 0 s;
     let s = put (t_priority page) (of_nat i) s;
     let s = put (t_pid page) (of_nat i) s;
     let s = put (t_ra page) (dummy_addr k) s;
     let s = put (t_sp page) (page + PGSIZE) s;
     (pgt, s) \<leftarrow> kalloc s;
     let s = put (t_pgd page) (make_pgd pgt) s;
     let s = s\<lparr>kmem := copy_page pgt (swapper_pg_dir k) (kmem s)\<rparr>;
     (mm, s) \<leftarrow> kalloc s;
     let s = put (t_mm page) mm s;
     let s = put mm 0 s;
     (_, s) \<leftarrow> do_mmap s mm USER_START (uapp_end k - uapp_start k) 31;
     (_, s) \<leftarrow> do_mmap s mm (USER_END - PGSIZE) PGSIZE 23;
     let s = put (t_sepc page) USER_START s;
     let s = put (t_sstatus page) (user_sstatus (sstatus (cpu s))) s;
     let s = put (t_sscratch page) USER_END s;
     Some s
   }"

definition task_init :: "task_symbols \<Rightarrow> tstate \<Rightarrow> tstate option" where
  "task_init k s = do {
     (t0, s) \<leftarrow> kalloc s;
     s \<leftarrow> set_task 0 t0 s;
     let s = put (t_state t0) 0 s;
     let s = put (t_counter t0) 0 s;
     let s = put (t_priority t0) 0 s;
     let s = put (t_pid t0) 0 s;
     let s = s\<lparr>current := t0\<rparr>;
     let s = s\<lparr>idle := t0\<rparr>;
     let s = s\<lparr>total_tasks := 2\<rparr>;
     s \<leftarrow> task_init_user k 1 s;
     kprint (''...proc_init done!'' @ nl) [] s
   }"

section \<open>Fork\<close>

text \<open>\<open>struct pt_regs\<close> at \<open>regs\<close>: \<open>reg[i]\<close> at \<open>8 * i\<close>, then \<open>sepc\<close>, \<open>sstatus\<close>, \<open>stval\<close>.\<close>

definition fork_frame :: "u64 \<Rightarrow> u64 \<Rightarrow> u64 \<Rightarrow> mem \<Rightarrow> mem" where
  "fork_frame tf regs page m =
     (let m = fold (\<lambda>i m. st m (tf + of_nat (8 * i))
                (if i = 2 then ld m (regs + of_nat (8 * 7))
                 else if i = 7 then page + PGSIZE
                 else if i = 10 then 0
                 else ld m (regs + of_nat (8 * i)))) [0..<32] m;
          m = st m (tf + 256) (ld m (regs + 256) + 4);
          m = st m (tf + 264) (ld m (regs + 264))
      in st m (tf + 272) (ld m (regs + 272)))"

partial_function (option) copy_vmas :: "u64 \<Rightarrow> u64 \<Rightarrow> tstate \<Rightarrow> tstate option" where
  "copy_vmas mm p s =
     (if p = 0 then Some s
      else
        case do_mmap s mm (ld (kmem s) (vm_start p)) (ld (kmem s) (vm_end p) - ld (kmem s) (vm_start p))
               (ucast (ld (kmem s) (vm_flags p))) of
          None \<Rightarrow> None
        | Some (_, s) \<Rightarrow> copy_vmas mm (ld (kmem s) (vm_next p)) s)"

definition do_fork :: "task_symbols \<Rightarrow> u64 \<Rightarrow> tstate \<Rightarrow> (u64 \<times> tstate) option" where
  "do_fork k regs s = do {
     let i = total_tasks s;
     let s = s\<lparr>total_tasks := i + 1\<rparr>;
     (page, s) \<leftarrow> kalloc s;
     s \<leftarrow> set_task i page s;
     (info, s) \<leftarrow> kalloc s;
     let s = put page info s;
     let s = put (t_state page) 0 s;
     let s = put (t_counter page) 0 s;
     let s = put (t_priority page) (of_nat i) s;
     let s = put (t_pid page) (of_nat i) s;
     (U_Stack, s) \<leftarrow> kalloc s;
     let s = put (info + 8) U_Stack s;
     m \<leftarrow> copy_user 512 U_Stack (USER_END - PGSIZE) (satp_root (satp (cpu s))) (kmem s);
     let s = s\<lparr>kmem := m\<rparr>;
     let s = put (t_ra page) (forkret_addr k) s;
     let s = put (t_sp page) (page + PGSIZE) s;
     let s = put (t_sscratch page) (page + PGSIZE) s;
     let s = put (t_sepc page) (ld (kmem s) (regs + 256) + 4) s;
     let s = put (t_sstatus page) (ld (kmem s) (regs + 264)) s;
     (pgt, s) \<leftarrow> kalloc s;
     let s = put (t_pgd page) (make_pgd pgt) s;
     let s = s\<lparr>kmem := copy_page pgt (swapper_pg_dir k) (kmem s)\<rparr>;
     (mm, s) \<leftarrow> kalloc s;
     let s = put (t_mm page) mm s;
     s \<leftarrow> copy_vmas mm (ld (kmem s) (ld (kmem s) (t_mm (current s)))) s;
     (tf, s) \<leftarrow> kalloc s;
     let s = put (t_trapframe page) tf s;
     let s = s\<lparr>kmem := fork_frame tf regs page (kmem s)\<rparr>;
     Some (of_nat i, s)
   }"

definition clone :: "task_symbols \<Rightarrow> u64 \<Rightarrow> tstate \<Rightarrow> (u64 \<times> tstate) option" where
  "clone k regs s = do_fork k regs s"

section \<open>The context switch (entry.S)\<close>

definition saved_context :: "u64 \<Rightarrow> cpu \<Rightarrow> (u64 \<times> u64) list" where
  "saved_context t c =
     (t_ra t, ra c) # (t_sp t, sp c) # map (\<lambda>i. (t + of_nat (56 + 8 * i), sregs c ! i)) [0..<12] @
     [(t_sepc t, sepc c), (t_sstatus t, sstatus c), (t_sscratch t, sscratch c)]"

definition loaded_context :: "mem \<Rightarrow> u64 \<Rightarrow> cpu" where
  "loaded_context m t =
     \<lparr>ra = ld m (t_ra t), sp = ld m (t_sp t), sregs = map (\<lambda>i. ld m (t + of_nat (56 + 8 * i))) [0..<12],
      sepc = ld m (t_sepc t), sstatus = ld m (t_sstatus t), sscratch = ld m (t_sscratch t),
      satp = ld m (t_pgd t)\<rparr>"

definition switch_context :: "u64 \<Rightarrow> u64 \<Rightarrow> tstate \<Rightarrow> tstate" where
  "switch_context prev next s =
     (let m = write_all st (kmem s) (saved_context prev (cpu s))
      in s\<lparr>kmem := m, cpu := loaded_context m next\<rparr>)"

definition switch_to :: "u64 \<Rightarrow> tstate \<Rightarrow> tstate" where
  "switch_to next s =
     (if current s = next then s
      else
        let previous = current s;
            s = s\<lparr>current := next\<rparr>
        in switch_context previous next s)"

section \<open>The scheduler\<close>

text \<open>The scan for the least positive counter below 11: the triple of \<open>c\<close>, \<open>next\<close> and \<open>index\<close>.\<close>

fun schedule_scan :: "nat list \<Rightarrow> u64 \<times> u64 \<times> nat \<Rightarrow> tstate \<Rightarrow> (u64 \<times> u64 \<times> nat) option" where
  "schedule_scan [] best s = Some best"
| "schedule_scan (i # is) (c, next, index) s = do {
     t \<leftarrow> task_at s i;
     let counter = ld (kmem s) (t_counter t);
     if 0 < counter \<and> counter < c then schedule_scan is (counter, t, i) s
     else schedule_scan is (c, next, index) s
   }"

fun schedule_refill :: "nat list \<Rightarrow> tstate \<Rightarrow> tstate option" where
  "schedule_refill [] s = Some s"
| "schedule_refill (i # is) s = do {
     t \<leftarrow> task_at s i;
     let s = put (t_counter t) (of_nat i) s;
     s \<leftarrow> kprint (''SET [PID = %d, PRIORITY = %d, COUNTER = %d]'' @ nl)
       [VInt (of_nat i), VInt (ld (kmem s) (t_priority t)), VInt (ld (kmem s) (t_counter t))] s;
     schedule_refill is s
   }"

partial_function (option) schedule_loop :: "tstate \<Rightarrow> (u64 \<times> nat \<times> tstate) option" where
  "schedule_loop s =
     (case schedule_scan [1..<total_tasks s] (11, 0, 0) s of None \<Rightarrow> None
      | Some (c, next, index) \<Rightarrow>
          if c < 11 then Some (next, index, s)
          else
            (case schedule_refill [1..<total_tasks s] s of None \<Rightarrow> None
             | Some s \<Rightarrow> schedule_loop s))"

definition schedule :: "tstate \<Rightarrow> tstate option" where
  "schedule s = do {
     (next, index, s) \<leftarrow> schedule_loop s;
     s \<leftarrow> kprint (''switch to [PID = %d, PRIORITY = %d, COUNTER = %d]'' @ nl)
       [VInt (of_nat index), VInt (ld (kmem s) (t_priority next)), VInt (ld (kmem s) (t_counter next))] s;
     Some (switch_to next s)
   }"

text \<open>\<open>(int)(current->counter) > 0\<close> looks at the low 32 bits.\<close>

definition do_timer :: "tstate \<Rightarrow> tstate option" where
  "do_timer s =
     (if current s = 0 then Some s
      else
        let s = put (t_counter (current s)) (ld (kmem s) (t_counter (current s)) - 1) s
        in if 0 < sint (ucast (ld (kmem s) (t_counter (current s))) :: u32) then Some s
           else schedule s)"

section \<open>The task table\<close>

text \<open>Tasks 1 to \<open>total_tasks - 1\<close> are pages of their own, and there is at least one.\<close>

definition tasks_ok :: "tstate \<Rightarrow> bool" where
  "tasks_ok s \<longleftrightarrow> length (task s) = NR_TASKS \<and> 2 \<le> total_tasks s \<and> total_tasks s \<le> NR_TASKS \<and>
     (\<forall>i \<in> {1..<total_tasks s}. kpage (task s ! i)) \<and> inj_on ((!) (task s)) {1..<total_tasks s}"

definition counter_of :: "tstate \<Rightarrow> nat \<Rightarrow> u64" where
  "counter_of s i = ld (kmem s) (t_counter (task s ! i))"

definition ready :: "tstate \<Rightarrow> nat \<Rightarrow> bool" where
  "ready s i \<longleftrightarrow> 1 \<le> i \<and> i < total_tasks s \<and> 0 < counter_of s i \<and> counter_of s i < 11"

text \<open>The task the scheduler means: the first of those with the least counter.\<close>

definition picks :: "tstate \<Rightarrow> nat \<Rightarrow> bool" where
  "picks s i \<longleftrightarrow> ready s i \<and>
     (\<forall>j. ready s j \<longrightarrow> counter_of s i < counter_of s j \<or> counter_of s i = counter_of s j \<and> i \<le> j)"

lemma schedule_scan_result:
  assumes "\<forall>i \<in> set is. i < NR_TASKS" "sorted is"
  shows "\<exists>c' next' i'. schedule_scan is (c, next, i) s = Some (c', next', i') \<and>
    ((c', next', i') = (c, next, i) \<and> (\<forall>j \<in> set is. \<not> (0 < counter_of s j \<and> counter_of s j < c)) \<or>
     i' \<in> set is \<and> next' = task s ! i' \<and> c' = counter_of s i' \<and> 0 < c' \<and> c' < c \<and>
     (\<forall>j \<in> set is. 0 < counter_of s j \<longrightarrow> c' < counter_of s j \<or> c' = counter_of s j \<and> i' \<le> j))"
  using assms
proof (induction "is" arbitrary: c "next" i)
  case Nil
  then show ?case by simp
next
  case (Cons k ks)
  have t: "task_at s k = Some (task s ! k)" using Cons.prems by (simp add: task_at_def)
  have ks: "\<forall>i \<in> set ks. i < NR_TASKS" "sorted ks" "\<forall>j \<in> set ks. k \<le> j" using Cons.prems by auto
  show ?case
  proof (cases "0 < counter_of s k \<and> counter_of s k < c")
    case True
    then have step: "schedule_scan (k # ks) (c, next, i) s = schedule_scan ks (counter_of s k, task s ! k, k) s"
      using t by (simp add: counter_of_def Let_def)
    show ?thesis
      unfolding step using Cons.IH [OF ks(1,2), of "counter_of s k" "task s ! k" k] True ks(3) by fastforce
  next
    case False
    then have step: "schedule_scan (k # ks) (c, next, i) s = schedule_scan ks (c, next, i) s"
      using t by (auto simp: counter_of_def Let_def)
    show ?thesis
      unfolding step using Cons.IH [OF ks(1,2), of c "next" i] False by fastforce
  qed
qed

lemma kprint_text:
  assumes "fmt = concat (map fmt_of ds)" "vl = concat (map args_of ds)" "\<forall>d \<in> set ds. printable d"
  shows "kprint fmt vl s = Some (s\<lparr>console := console s @ concat (map k_render ds)\<rparr>)"
  using kd.loop_directives [OF assms(3)] by (simp add: kprint_def printk_def vprintfmt_def assms(1,2))

lemma kprint_some:
  assumes "fmt = concat (map fmt_of ds)" "vl = concat (map args_of ds)" "\<forall>d \<in> set ds. printable d"
  shows "\<exists>cs. kprint fmt vl s = Some (s\<lparr>console := console s @ cs\<rparr>)"
  using kprint_text [OF assms] by blast

lemma va_num_int: "va_num False w \<noteq> 0x8000000000000000"
proof
  assume "va_num False w = 0x8000000000000000"
  then have "bit (va_num False w) 62 = bit (0x8000000000000000 :: u64) 62"
    "bit (va_num False w) 63 = bit (0x8000000000000000 :: u64) 63" by simp_all
  then show False by (simp add: va_num_def bit_signed_iff bit_numeral_rec)
qed

lemma kprint_sched:
  "\<exists>cs. kprint (''SET [PID = %d, PRIORITY = %d, COUNTER = %d]'' @ nl) [VInt a, VInt b, VInt c] s =
     Some (s\<lparr>console := console s @ cs\<rparr>)"
  "\<exists>cs. kprint (''switch to [PID = %d, PRIORITY = %d, COUNTER = %d]'' @ nl) [VInt a, VInt b, VInt c] s =
     Some (s\<lparr>console := console s @ cs\<rparr>)"
  by (rule kprint_some [of _ "map Lit ''SET [PID = '' @ Dec False a # map Lit '', PRIORITY = '' @ Dec False b #
        map Lit '', COUNTER = '' @ Dec False c # map Lit '']'' @ [Lit (CHR 0x0A)]"]; simp add: va_num_int)
    (rule kprint_some [of _ "map Lit ''switch to [PID = '' @ Dec False a # map Lit '', PRIORITY = '' @ Dec False b #
        map Lit '', COUNTER = '' @ Dec False c # map Lit '']'' @ [Lit (CHR 0x0A)]"]; simp add: va_num_int)

lemma refill_counters:
  assumes "set is \<subseteq> {1..<total_tasks s}" "distinct is" "tasks_ok s"
  shows "\<exists>s'. schedule_refill is s = Some s' \<and> task s' = task s \<and> total_tasks s' = total_tasks s \<and>
    current s' = current s \<and> cpu s' = cpu s \<and> (\<exists>cs. console s' = console s @ cs) \<and>
    (\<forall>i \<in> {1..<total_tasks s}. counter_of s' i = (if i \<in> set is then of_nat i else counter_of s i)) \<and>
    (\<forall>p a. word_in p a \<longrightarrow> (\<forall>i \<in> set is. a \<noteq> t_counter (task s ! i)) \<longrightarrow> ld (kmem s') a = ld (kmem s) a)"
  using assms
proof (induction "is" arbitrary: s)
  case Nil
  then show ?case by simp
next
  case (Cons k ks)
  have k: "k \<in> {1..<total_tasks s}" "k < NR_TASKS" "kpage (task s ! k)"
    using Cons.prems by (auto simp: tasks_ok_def)
  have t: "task_at s k = Some (task s ! k)" using k by (simp add: task_at_def)
  define s1 where "s1 = put (t_counter (task s ! k)) (of_nat k) s"
  obtain cs where "kprint (''SET [PID = %d, PRIORITY = %d, COUNTER = %d]'' @ nl)
      [VInt (of_nat k), VInt (ld (kmem s1) (t_priority (task s ! k))), VInt (ld (kmem s1) (t_counter (task s ! k)))] s1 =
      Some (s1\<lparr>console := console s1 @ cs\<rparr>)"
    using kprint_sched(1) by blast
  then have step: "schedule_refill (k # ks) s = schedule_refill ks (s1\<lparr>console := console s1 @ cs\<rparr>)"
    using t by (simp add: s1_def Let_def)
  define s2 where "s2 = s1\<lparr>console := console s1 @ cs\<rparr>"
  have s2: "task s2 = task s" "total_tasks s2 = total_tasks s" "current s2 = current s" "cpu s2 = cpu s"
    "kmem s2 = st (kmem s) (t_counter (task s ! k)) (of_nat k)" "console s2 = console s @ cs"
    by (simp_all add: s2_def s1_def put_def)
  have ok2: "tasks_ok s2" using Cons.prems(3) by (simp add: tasks_ok_def s2)
  have inj: "task s ! i = task s ! k \<longleftrightarrow> i = k" if "i \<in> {1..<total_tasks s}" for i
    using that k(1) Cons.prems(3) by (auto simp: tasks_ok_def inj_on_def)
  have c2: "counter_of s2 i = (if i = k then of_nat k else counter_of s i)" if "i \<in> {1..<total_tasks s}" for i
    using that k Cons.prems(3) inj [OF that] unfolding counter_of_def s2
    by (auto simp: tasks_ok_def mem_simps addr_simps)
  have "set ks \<subseteq> {1..<total_tasks s2}" "distinct ks" using Cons.prems by (auto simp: s2)
  from Cons.IH [OF this ok2] obtain s' where s': "schedule_refill ks s2 = Some s'" "task s' = task s"
    "total_tasks s' = total_tasks s" "current s' = current s" "cpu s' = cpu s"
    "\<forall>i \<in> {1..<total_tasks s}. counter_of s' i = (if i \<in> set ks then of_nat i else counter_of s2 i)"
    "\<forall>p a. word_in p a \<longrightarrow> (\<forall>i \<in> set ks. a \<noteq> t_counter (task s ! i)) \<longrightarrow> ld (kmem s') a = ld (kmem s2) a"
    "\<exists>ds. console s' = console s @ cs @ ds"
    by (auto simp: s2)
  have fr: "ld (kmem s2) a = ld (kmem s) a" if "word_in p a" "a \<noteq> t_counter (task s ! k)" for p a
    unfolding s2 using that k(3) by (subst dmap.rd_wr) (auto simp: word_in_kva addr_simps)
  have "\<forall>i \<in> {1..<total_tasks s}. counter_of s' i = (if i \<in> set (k # ks) then of_nat i else counter_of s i)"
    using s'(6) c2 Cons.prems(2) by auto
  moreover have "\<forall>p a. word_in p a \<longrightarrow> (\<forall>i \<in> set (k # ks). a \<noteq> t_counter (task s ! i)) \<longrightarrow>
      ld (kmem s') a = ld (kmem s) a"
    using s'(7) fr by auto
  moreover have "\<exists>ds. console s' = console s @ ds" using s'(8) by blast
  ultimately show ?case using step s'(1-5) unfolding s2_def by (intro exI [of _ s']) simp
qed

text \<open>The state the scheduler picks from: as it is, or with the counters set anew when no task is ready.\<close>

definition refilled :: "tstate \<Rightarrow> tstate \<Rightarrow> bool" where
  "refilled s s' \<longleftrightarrow> task s' = task s \<and> total_tasks s' = total_tasks s \<and> current s' = current s \<and> cpu s' = cpu s \<and>
     (\<exists>cs. console s' = console s @ cs) \<and>
     (if \<exists>i. ready s i then s' = s
      else (\<forall>i \<in> {1..<total_tasks s}. counter_of s' i = of_nat i) \<and>
        (\<forall>p a. word_in p a \<longrightarrow> (\<forall>i \<in> {1..<total_tasks s}. a \<noteq> t_counter (task s ! i)) \<longrightarrow>
           ld (kmem s') a = ld (kmem s) a))"

lemma scan_picks:
  assumes "tasks_ok s" "\<exists>i. ready s i"
  shows "\<exists>i. picks s i \<and> schedule_scan [1..<total_tasks s] (11, 0, 0) s = Some (counter_of s i, task s ! i, i)"
proof -
  have "\<forall>i \<in> set [1..<total_tasks s]. i < NR_TASKS" using assms(1) by (auto simp: tasks_ok_def)
  from schedule_scan_result [OF this sorted_upt, of 11 0 0 s] assms(2)
  obtain i where i: "schedule_scan [1..<total_tasks s] (11, 0, 0) s = Some (counter_of s i, task s ! i, i)"
    "i \<in> {1..<total_tasks s}" "0 < counter_of s i" "counter_of s i < 11"
    "\<forall>j \<in> {1..<total_tasks s}. 0 < counter_of s j \<longrightarrow>
       counter_of s i < counter_of s j \<or> counter_of s i = counter_of s j \<and> i \<le> j"
    by (auto simp: ready_def)
  then have "picks s i" by (auto simp: picks_def ready_def)
  then show ?thesis using i(1) by blast
qed

lemma scan_none:
  assumes "tasks_ok s" "\<not> (\<exists>i. ready s i)"
  shows "schedule_scan [1..<total_tasks s] (11, 0, 0) s = Some (11, 0, 0)"
proof -
  have "\<forall>i \<in> set [1..<total_tasks s]. i < NR_TASKS" using assms(1) by (auto simp: tasks_ok_def)
  from schedule_scan_result [OF this sorted_upt, of 11 0 0 s] assms(2)
  show ?thesis by (auto simp: ready_def)
qed

lemma of_nat_counter: "i < NR_TASKS \<Longrightarrow> unat (of_nat i :: u64) = i"
  by (simp add: unat_of_nat NR_TASKS_def)

lemma schedule_loop_picks:
  assumes ok: "tasks_ok s"
  shows "\<exists>i s'. schedule_loop s = Some (task s ! i, i, s') \<and> refilled s s' \<and> picks s' i"
proof (cases "\<exists>i. ready s i")
  case True
  then obtain i where i: "picks s i" "schedule_scan [1..<total_tasks s] (11, 0, 0) s = Some (counter_of s i, task s ! i, i)"
    using scan_picks [OF ok] by blast
  then have "schedule_loop s = Some (task s ! i, i, s)"
    by (simp add: schedule_loop.simps [of s] picks_def ready_def)
  then show ?thesis using True i(1) by (auto simp: refilled_def)
next
  case False
  obtain s1 where s1: "schedule_refill [1..<total_tasks s] s = Some s1" "task s1 = task s"
    "total_tasks s1 = total_tasks s" "current s1 = current s" "cpu s1 = cpu s"
    "\<forall>i \<in> {1..<total_tasks s}. counter_of s1 i = of_nat i"
    "\<forall>p a. word_in p a \<longrightarrow> (\<forall>i \<in> {1..<total_tasks s}. a \<noteq> t_counter (task s ! i)) \<longrightarrow> ld (kmem s1) a = ld (kmem s) a"
    "\<exists>cs. console s1 = console s @ cs"
    using refill_counters [of "[1..<total_tasks s]" s] ok by auto
  have ok1: "tasks_ok s1" using ok by (simp add: tasks_ok_def s1)
  have "ready s1 1" using s1 ok by (auto simp: ready_def tasks_ok_def)
  then obtain i where i: "picks s1 i" "schedule_scan [1..<total_tasks s1] (11, 0, 0) s1 = Some (counter_of s1 i, task s1 ! i, i)"
    using scan_picks [OF ok1] by blast
  have "counter_of s1 i < 11" using i(1) by (simp add: picks_def ready_def)
  then have "schedule_loop s1 = Some (task s ! i, i, s1)"
    using i(2) s1(2) by (simp add: schedule_loop.simps [of s1])
  then have "schedule_loop s = Some (task s ! i, i, s1)"
    using scan_none [OF ok False] s1(1) by (simp add: schedule_loop.simps [of s])
  then show ?thesis using i(1) False s1 by (auto simp: refilled_def)
qed

section \<open>The context switch\<close>

lemma word_in_nat: "kpage p \<Longrightarrow> i < 4096 \<Longrightarrow> 8 dvd i \<Longrightarrow> word_in p (p + of_nat i)"
  by (auto simp: word_in_def)

lemma saved_words:
  assumes "kpage t" "w \<in> set (saved_context t c)"
  shows "word_in t (fst w)"
  using assms by (auto simp: saved_context_def addr_simps intro!: word_in_nat simp del: of_nat_add of_nat_mult)

definition context_offsets :: "nat list" where
  "context_offsets = 40 # 48 # map (\<lambda>i. 56 + 8 * i) [0..<12] @ [152, 160, 168]"

lemma saved_addresses: "map fst (saved_context t c) = map (\<lambda>i. t + of_nat i) context_offsets"
  by (simp add: saved_context_def context_offsets_def del: of_nat_add of_nat_mult)

lemma context_offsets: "distinct context_offsets" "i \<in> set context_offsets \<Longrightarrow> i < 176"
  by (auto simp: context_offsets_def upt_rec)

lemma saved_distinct:
  assumes "kpage t"
  shows "distinct (map fst (saved_context t c))"
proof -
  have "inj_on (\<lambda>i. t + of_nat i) (set context_offsets)"
  proof (rule inj_onI)
    fix i j assume "i \<in> set context_offsets" "j \<in> set context_offsets" "t + of_nat i = t + of_nat j"
    then show "i = j" using kpage_offset_eq [OF assms assms, of i j] context_offsets(2) by fastforce
  qed
  then show ?thesis unfolding saved_addresses distinct_map using context_offsets(1) by blast
qed

lemma context_words:
  assumes "kpage t" "length (sregs c) = 12" "\<forall>w \<in> set (saved_context t c). ld m (fst w) = snd w"
  shows "loaded_context m t = c\<lparr>satp := ld m (t_pgd t)\<rparr>"
proof -
  have s: "map (\<lambda>i. ld m (t + of_nat (56 + 8 * i))) [0..<12] = sregs c"
  proof (rule nth_equalityI)
    fix i assume "i < length (map (\<lambda>i. ld m (t + of_nat (56 + 8 * i))) [0..<12])"
    then have i: "i < 12" by simp
    then have "(t + of_nat (56 + 8 * i), sregs c ! i) \<in> set (saved_context t c)"
      by (auto simp: saved_context_def simp del: of_nat_add of_nat_mult)
    then have "ld m (t + of_nat (56 + 8 * i)) = sregs c ! i" using assms(3) by fastforce
    then show "map (\<lambda>i. ld m (t + of_nat (56 + 8 * i))) [0..<12] ! i = sregs c ! i"
      using i by (simp del: of_nat_add of_nat_mult)
  qed (simp add: assms(2))
  have "ld m (t_ra t) = ra c" "ld m (t_sp t) = sp c" "ld m (t_sepc t) = sepc c"
    "ld m (t_sstatus t) = sstatus c" "ld m (t_sscratch t) = sscratch c"
    using assms(3) by (simp_all add: saved_context_def)
  then show ?thesis unfolding loaded_context_def s by (cases c) simp
qed

lemma switch_saves:
  assumes "kpage prev"
  shows "\<forall>w \<in> set (saved_context prev (cpu s)). ld (kmem (switch_context prev next s)) (fst w) = snd w"
    and "word_in p a \<Longrightarrow> p \<noteq> prev \<Longrightarrow> ld (kmem (switch_context prev next s)) a = ld (kmem s) a"
    and "ld (kmem (switch_context prev next s)) (t_pgd prev) = ld (kmem s) (t_pgd prev)"
proof -
  let ?ws = "saved_context prev (cpu s)"
  have ok: "\<forall>w \<in> set ?ws. kva (fst w)" using saved_words [OF assms] word_in_kva by blast
  have m: "kmem (switch_context prev next s) = write_all st (kmem s) ?ws"
    by (simp add: switch_context_def Let_def)
  show "\<forall>w \<in> set ?ws. ld (kmem (switch_context prev next s)) (fst w) = snd w"
    using dmap.rd_write_all_in [OF ok saved_distinct [OF assms]] unfolding m by auto
  show "ld (kmem (switch_context prev next s)) a = ld (kmem s) a" if "word_in p a" "p \<noteq> prev"
  proof -
    have "a \<notin> fst ` set ?ws" using saved_words [OF assms] word_in_neq [OF that(1) _ that(2)] by blast
    then show ?thesis unfolding m by (intro dmap.rd_write_all_other [OF word_in_kva [OF that(1)] ok])
  qed
  have "t_pgd prev \<notin> fst ` set ?ws"
  proof
    assume "t_pgd prev \<in> fst ` set ?ws"
    then have "prev + of_nat 176 \<in> set (map (\<lambda>i. prev + of_nat i) context_offsets)"
      unfolding saved_addresses [symmetric, of prev "cpu s"] by simp
    then obtain i where i: "i \<in> set context_offsets" "prev + of_nat 176 = prev + of_nat i" by auto
    then have "176 = i" using kpage_offset_eq [OF assms assms, of 176 i] context_offsets(2) [of i] by auto
    then show False using context_offsets(2) [OF i(1)] by simp
  qed
  then show "ld (kmem (switch_context prev next s)) (t_pgd prev) = ld (kmem s) (t_pgd prev)"
    unfolding m using assms by (intro dmap.rd_write_all_other [OF _ ok]) (auto simp: addr_simps)
qed

lemma schedule_result:
  assumes "tasks_ok s"
  shows "\<exists>i s1 cs. refilled s s1 \<and> picks s1 i \<and>
    schedule s = Some (switch_to (task s ! i) (s1\<lparr>console := console s1 @ cs\<rparr>)) \<and>
    ((\<nexists>j. ready s j) \<longrightarrow> i = 1)"
proof -
  obtain i s1 where l: "schedule_loop s = Some (task s ! i, i, s1)" and r: "refilled s s1" and p: "picks s1 i"
    using schedule_loop_picks [OF assms] by blast
  obtain cs where k: "kprint (''switch to [PID = %d, PRIORITY = %d, COUNTER = %d]'' @ nl)
      [VInt (of_nat i), VInt (ld (kmem s1) (t_priority (task s ! i))), VInt (ld (kmem s1) (t_counter (task s ! i)))] s1
      = Some (s1\<lparr>console := console s1 @ cs\<rparr>)"
    using kprint_sched(2) by blast
  have "schedule s = Some (switch_to (task s ! i) (s1\<lparr>console := console s1 @ cs\<rparr>))"
    using l k by (simp add: schedule_def)
  moreover have "i = 1" if "\<nexists>j. ready s j"
  proof -
    have c: "\<forall>j \<in> {1..<total_tasks s}. counter_of s1 j = of_nat j" "total_tasks s1 = total_tasks s"
      using r that by (auto simp: refilled_def)
    have t: "2 \<le> total_tasks s" "total_tasks s \<le> NR_TASKS" using assms by (auto simp: tasks_ok_def)
    have i: "1 \<le> i" "i < total_tasks s" using p c(2) by (auto simp: picks_def ready_def)
    have "ready s1 1" using c t by (auto simp: ready_def)
    then have "counter_of s1 i \<le> counter_of s1 1" using p unfolding picks_def by fastforce
    then have "unat (of_nat i :: u64) \<le> unat (of_nat 1 :: u64)"
      using c(1) i t by (simp add: word_le_nat_alt)
    then show ?thesis using i t of_nat_counter [of i] by simp
  qed
  ultimately show ?thesis using r p by blast
qed

section \<open>Properties\<close>

text \<open>
  C5: \<open>schedule\<close> returns whenever there is a user task: it switches to the task with the least
  positive counter below 11, the first one of equals; when no task has such a counter it first sets
  every counter to the task's index (so that task 1 is picked), changing nothing else in memory.
\<close>

theorem schedule_picks_least:
  assumes "tasks_ok s"
  shows "\<exists>i s1 cs. refilled s s1 \<and> picks s1 i \<and>
    schedule s = Some (switch_to (task s ! i) (s1\<lparr>console := console s1 @ cs\<rparr>)) \<and>
    ((\<nexists>j. ready s j) \<longrightarrow> i = 1)"
  using assms by (rule schedule_result)

definition two_tasks :: tstate where
  "two_tasks = \<lparr>kmem = (\<lambda>_. 0), freelist = 0,
     task = (replicate 10 0)[0 := VM_START + 0x1000, 1 := VM_START + 0x2000],
     current = VM_START + 0x1000, idle = VM_START + 0x1000, total_tasks = 2, console = [], mtime = 0, timer_cmp = 0,
     cpu = \<lparr>ra = 0, sp = 0, sregs = replicate 12 0, sepc = 0, sstatus = 0, sscratch = 0, satp = 0\<rparr>\<rparr>"

lemma two_tasks_ok: "tasks_ok two_tasks"
proof -
  have one: "{1..<2 :: nat} = {1}" by auto
  show ?thesis using kpage_example(2) by (simp add: tasks_ok_def two_tasks_def NR_TASKS_def one [unfolded One_nat_def])
qed

theorem schedule_picks_least_witness:
  "\<exists>s'. schedule two_tasks = Some s' \<and> current s' = VM_START + 0x2000"
proof -
  obtain i s1 cs where r: "refilled two_tasks s1" and p: "picks s1 i"
    and s: "schedule two_tasks = Some (switch_to (task two_tasks ! i) (s1\<lparr>console := console s1 @ cs\<rparr>))"
    using schedule_picks_least [OF two_tasks_ok] by blast
  have "total_tasks s1 = 2" "current s1 = VM_START + 0x1000"
    using r by (simp_all add: refilled_def two_tasks_def)
  then have "i = 1" using p by (auto simp: picks_def ready_def)
  then have t: "task two_tasks ! i = VM_START + 0x2000" by (simp add: two_tasks_def)
  then show ?thesis using s \<open>current s1 = _\<close> by (simp add: switch_to_def switch_context_def Let_def)
qed

text \<open>
  C15: the context switch is a round trip: after \<open>switch_to\<close> away from a task, and whatever runs in
  between as long as it leaves the saved words of that task alone, \<open>switch_to\<close> back restores the
  return address, stack pointer, the twelve saved registers and the three CSRs, and loads
  the task's own page table.
\<close>

theorem switch_to_roundtrip:
  assumes "kpage (current s)" "next \<noteq> current s" "length (sregs (cpu s)) = 12"
    and "\<forall>w \<in> set (saved_context (current s) (cpu s)).
      ld (kmem s2) (fst w) = ld (kmem (switch_to next s)) (fst w)"
    and "kpage (current s2)" "current s2 \<noteq> current s"
  shows "cpu (switch_to (current s) s2) = (cpu s)\<lparr>satp := ld (kmem s2) (t_pgd (current s))\<rparr> \<and>
    current (switch_to (current s) s2) = current s"
proof -
  let ?t = "current s"
  let ?s = "s2\<lparr>current := ?t\<rparr>"
  have sw: "switch_to next s = switch_context ?t next (s\<lparr>current := next\<rparr>)"
    using assms(2) by (auto simp: switch_to_def Let_def)
  have sv: "\<forall>w \<in> set (saved_context ?t (cpu s)). ld (kmem (switch_to next s)) (fst w) = snd w"
    using switch_saves(1) [OF assms(1), of "s\<lparr>current := next\<rparr>" "next"] by (simp add: sw)
  have bk: "switch_to ?t s2 = switch_context (current s2) ?t ?s"
    using assms(6) by (auto simp: switch_to_def Let_def)
  let ?m = "kmem (switch_context (current s2) ?t ?s)"
  have other: "ld ?m a = ld (kmem s2) a" if "word_in ?t a" for a
    using switch_saves(2) [OF assms(5) that] assms(6) by simp
  have "\<forall>w \<in> set (saved_context ?t (cpu s)). ld ?m (fst w) = snd w"
    using other saved_words [OF assms(1)] assms(4) sv by auto
  from context_words [OF assms(1,3) this]
  have "loaded_context ?m ?t = (cpu s)\<lparr>satp := ld (kmem s2) (t_pgd ?t)\<rparr>"
    using other [of "t_pgd ?t"] assms(1) by (simp add: addr_simps)
  then show ?thesis unfolding bk by (simp add: switch_context_def Let_def)
qed

theorem switch_to_roundtrip_witness:
  "cpu (switch_to (VM_START + 0x1000) (switch_to (VM_START + 0x2000) two_tasks)) = cpu two_tasks"
proof -
  let ?s1 = "switch_to (VM_START + 0x2000) two_tasks"
  have c: "current two_tasks = VM_START + 0x1000" "length (sregs (cpu two_tasks)) = 12"
    "current ?s1 = VM_START + 0x2000" "satp (cpu two_tasks) = 0" "ld (kmem two_tasks) a = 0" for a
    by (simp_all add: two_tasks_def switch_to_def switch_context_def Let_def ld_def load64_zero_mem)
  have k: "kpage (current two_tasks)" "kpage (current ?s1)" "VM_START + 0x2000 \<noteq> current two_tasks"
    using kpage_example c by simp_all
  have "ld (kmem ?s1) (t_pgd (current two_tasks)) = 0"
    using switch_saves(3) [OF k(1), of "VM_START + 0x2000" "two_tasks\<lparr>current := VM_START + 0x2000\<rparr>"] c k(3)
    by (auto simp: switch_to_def Let_def)
  moreover have "cpu (switch_to (current two_tasks) ?s1) = (cpu two_tasks)\<lparr>satp := ld (kmem ?s1) (t_pgd (current two_tasks))\<rparr>"
    using switch_to_roundtrip [OF k(1,3) c(2), of ?s1] k c by simp
  moreover have "(cpu two_tasks)\<lparr>satp := 0\<rparr> = cpu two_tasks" by (simp add: two_tasks_def)
  ultimately show ?thesis using c(1) by simp
qed

text \<open>
  A timer tick of a running task takes one from its counter and nothing else while the low
  half of the counter stays positive; when it reaches zero (or the counter was zero and wraps) the
  tick ends in \<open>schedule\<close>.
\<close>

theorem do_timer_ticks:
  assumes "kpage (current s)"
  shows "do_timer s =
    (let s1 = put (t_counter (current s)) (ld (kmem s) (t_counter (current s)) - 1) s
     in if 0 < sint (ucast (ld (kmem s) (t_counter (current s)) - 1) :: u32) then Some s1 else schedule s1) \<and>
    (2 \<le> ld (kmem s) (t_counter (current s)) \<and> ld (kmem s) (t_counter (current s)) \<le> 10 \<longrightarrow>
      do_timer s = Some (put (t_counter (current s)) (ld (kmem s) (t_counter (current s)) - 1) s))"
proof -
  let ?c = "ld (kmem s) (t_counter (current s))"
  have c: "ld (kmem (put (t_counter (current s)) (?c - 1) s)) (t_counter (current s)) = ?c - 1"
    using assms by (simp add: put_def mem_simps addr_simps)
  have cu: "current (put a v s) = current s" for a v by (simp add: put_def)
  have 1: "do_timer s = (let s1 = put (t_counter (current s)) (?c - 1) s
     in if 0 < sint (ucast (?c - 1) :: u32) then Some s1 else schedule s1)"
    using kpage_nonzero [OF assms] by (simp add: do_timer_def Let_def cu c)
  have "0 < sint (ucast (?c - 1) :: u32)" if "2 \<le> ?c" "?c \<le> 10"
  proof -
    define n where "n = unat ?c"
    have n: "2 \<le> n" "n \<le> 10" using that by (simp_all add: n_def word_le_nat_alt)
    have cn: "?c = of_nat n" by (simp add: n_def)
    have "n \<in> {2, 3, 4, 5, 6, 7, 8, 9, 10}" using n by auto
    then show ?thesis unfolding cn by auto
  qed
  then show ?thesis using 1 by (simp add: Let_def)
qed

end
