(* ===== verification/Trap.thy ===== *)
theory Trap
  imports Task
begin

text \<open>
  Traps of \<open>arch/riscv/kernel/trap.c\<close>: system calls, page faults and the timer interrupt, with
  \<open>clock.c\<close>. \<open>regs\<close> is the address of the saved registers on the kernel stack. \<open>None\<close> stands for
  a fault inside the kernel or for the loop a user task with an illegal address ends in.
\<close>

section \<open>The code\<close>

text \<open>\<open>putc\<close>: one SBI console call.\<close>

definition putc :: "char \<Rightarrow> tstate \<Rightarrow> tstate" where
  "putc c s = s\<lparr>console := console s @ [c]\<rparr>"

definition TIMECLOCK :: u64 where "TIMECLOCK = 10000000"

definition get_cycles :: "tstate \<Rightarrow> u64" where
  "get_cycles s = mtime s"

text \<open>\<open>sbi_ecall(0, 0, next, ...)\<close> sets the timer.\<close>

definition clock_set_next_event :: "tstate \<Rightarrow> tstate" where
  "clock_set_next_event s = s\<lparr>timer_cmp := get_cycles s + TIMECLOCK\<rparr>"

text \<open>A byte of user memory, through the page table in \<open>satp\<close>.\<close>

definition ubyte :: "tstate \<Rightarrow> u64 \<Rightarrow> u8 option" where
  "ubyte s va = map_option (kmem s) (sv39_translate (kmem s) (satp_root (satp (cpu s))) va)"

fun write_loop :: "nat list \<Rightarrow> u64 \<Rightarrow> tstate \<Rightarrow> tstate option" where
  "write_loop [] buf s = Some s"
| "write_loop (i # is) buf s = do {
     b \<leftarrow> ubyte s (buf + of_nat i);
     write_loop is buf (putc (char_of (unat b)) s)
   }"

definition sys_write :: "u32 \<Rightarrow> u64 \<Rightarrow> u64 \<Rightarrow> tstate \<Rightarrow> (u64 \<times> tstate) option" where
  "sys_write fd buf count s =
     (if fd \<noteq> 1 then do {
        s \<leftarrow> kprint (''fd != 1, ERROR!'' @ nl) [] s;
        Some (- 1, s)
      } else do {
        s \<leftarrow> write_loop [0..<unat count] buf s;
        Some (1, s)
      })"

definition sys_getpid :: "tstate \<Rightarrow> u64" where
  "sys_getpid s = ld (kmem s) (t_pid (current s))"

definition do_page_fault :: "task_symbols \<Rightarrow> u64 \<Rightarrow> u64 \<Rightarrow> tstate \<Rightarrow> tstate option" where
  "do_page_fault k regs scause s = do {
     let bad_va = ld (kmem s) (regs + 272);
     vm_unit \<leftarrow> find_vma (kmem s) (ld (kmem s) (t_mm (current s))) bad_va;
     if vm_unit = 0 then None
     else do {
       s \<leftarrow> kprint (''[S] PAGE_FAULT: scause: %lx, sepc: %lx, badaddr: %lx'' @ nl)
              [VInt scause, VInt (ld (kmem s) (regs + 256)), VInt bad_va] s;
       let va_start = ld (kmem s) (vm_start vm_unit);
       let va_end = ld (kmem s) (vm_end vm_unit);
       let va_size = va_end - va_start;
       let flags = ld (kmem s) (vm_flags vm_unit);
       let pgt = push_bit 12 (ld (kmem s) (t_pgd (current s))) + PA2VA_OFFSET;
       if flags = 31 then
         create_mapping s pgt va_start (uapp_start k - PA2VA_OFFSET) va_size (ucast flags)
       else if flags = 23 then do {
         (U_Stack, s) \<leftarrow>
           (if ld (kmem s) (current s) \<noteq> 0 then Some (ld (kmem s) (ld (kmem s) (current s) + 8), s)
            else kalloc s);
         create_mapping s pgt va_start (U_Stack - PA2VA_OFFSET) va_size (ucast flags)
       }
       else kprint (''Error Flags!'' @ nl) [] s
     }
   }"

definition syscall :: "task_symbols \<Rightarrow> u64 \<Rightarrow> tstate \<Rightarrow> (u64 \<times> tstate) option" where
  "syscall k regs s =
     (let exception = ld (kmem s) (regs + 136) in
      if exception = 64 then
        sys_write (ucast (ld (kmem s) (regs + 80))) (ld (kmem s) (regs + 88)) (ld (kmem s) (regs + 96)) s
      else if exception = 172 then Some (sys_getpid s, s)
      else if exception = 220 then clone k regs s
      else do {
        s \<leftarrow> kprint (''exception = %lx, Unknown excpetion code!'' @ nl) [VInt exception] s;
        Some (- 1, s)
      })"

definition trap_handler :: "task_symbols \<Rightarrow> u64 \<Rightarrow> u64 \<Rightarrow> tstate \<Rightarrow> tstate option" where
  "trap_handler k scause regs s =
     (if scause = 0x8000000000000005 then do_timer (clock_set_next_event s)
      else if scause = 8 then do {
        (ret_value, s) \<leftarrow> syscall k regs s;
        let s = put (regs + 80) ret_value s;
        Some (put (regs + 256) (ld (kmem s) (regs + 256) + 4) s)
      }
      else if scause = 12 \<or> scause = 13 \<or> scause = 15 then do_page_fault k regs scause s
      else do {
        s \<leftarrow> kprint ''%lx  '' [VInt scause] s;
        kprint (''Interrupt type error'' @ nl) [] s
      })"

section \<open>Page tables across unrelated writes\<close>

lemma pt_frame:
  assumes inv: "pt_inv m root fr" and fr: "fr' \<subseteq> fr"
    and same: "\<And>T i. ppage T \<Longrightarrow> T \<notin> fr \<Longrightarrow> i < 512 \<Longrightarrow> pte m' T i = pte m T i"
  shows "pt_inv m' root fr'" "lookup m' root x = lookup m root x"
proof -
  have pg: "ppage T \<and> T \<notin> fr" if "vpath q" "tab m root q = Some T" for q T
    using inv that unfolding pt_inv_def by blast
  have p: "pte m' T i = pte m T i" if "vpath q" "tab m root q = Some T" "i < 512" for q T i
    using same pg that by blast
  have t: "tab m' root q = tab m root q" if "vpath q" for q
    using that p by (rule tab_agree) 
  show "pt_inv m' root fr'"
    using inv fr unfolding pt_inv_def by (simp add: t p) blast
  have v: "vpath [vpn 2 x, vpn 1 x]" by (simp add: vpath_def vpn_bound)
  show "lookup m' root x = lookup m root x"
    unfolding lookup_def leaf_def t [OF v] using p [OF v _ vpn_bound] by (auto split: option.splits)
qed

lemma kalloc_pt:
  assumes fp: "free_pages s (K # qs)" and ka: "kalloc s = Some (K, s1)" and inv: "pt_inv (kmem s) root (pa_of ` set (K # qs))"
  shows "pt_inv (kmem s1) root (pa_of ` set qs)" "lookup (kmem s1) root x = lookup (kmem s) root x"
proof -
  have K: "kpage K" using fp by (simp add: free_pages_def)
  have m: "kmem s1 = memset (kmem s) K 0 PGSIZE" using kalloc_cases [OF fp] ka by auto
  have "pte (kmem s1) T i = pte (kmem s) T i" if "ppage T" "T \<notin> pa_of ` set (K # qs)" "i < 512" for T i
    using pte_memset [OF K that(1,3), of "kmem s"] that(2) by (auto simp: m)
  then show "pt_inv (kmem s1) root (pa_of ` set qs)" "lookup (kmem s1) root x = lookup (kmem s) root x"
    using pt_frame [OF inv, of "pa_of ` set qs" "kmem s1"] by auto
qed

lemma pgd_root:
  assumes "ppage T"
  shows "push_bit 12 (drop_bit 12 T OR 0x8000000000000000) = T"
proof -
  have lo: "\<not> bit T n" if "n < 12" for n using assms that by (simp add: ppage_def aligned_low_bits)
  have c: "(0x8000000000000000 :: u64) = push_bit 63 1" by simp
  have b: "bit (drop_bit 12 T OR push_bit 63 1) n \<longleftrightarrow> bit T (12 + n) \<or> n = 63" for n
    unfolding bit_or_iff bit_drop_bit_eq bit_push_bit_iff bit_1_iff by auto
  show ?thesis
    unfolding c
  proof (rule bit_word_eqI)
    fix n assume "n < LENGTH(64)"
    then show "bit (push_bit 12 (drop_bit 12 T OR push_bit 63 1)) n = bit T n"
      unfolding bit_push_bit_iff b using lo [of n] by (cases "n < 12") auto
  qed
qed

lemma kprint_fault:
  "\<exists>cs. kprint (''[S] PAGE_FAULT: scause: %lx, sepc: %lx, badaddr: %lx'' @ nl) [VInt a, VInt b, VInt c] s =
     Some (s\<lparr>console := console s @ cs\<rparr>)"
  by (rule kprint_some [of _ "map Lit ''[S] PAGE_FAULT: scause: '' @ Hex True a # map Lit '', sepc: '' @ Hex True b #
        map Lit '', badaddr: '' @ Hex True c # [Lit (CHR 0x0A)]"]) simp_all

text \<open>Mapping a whole area with a user permission, at one of its addresses.\<close>

lemma map_area:
  assumes fp: "free_pages s ps" and inv: "pt_inv (kmem s) T (pa_of ` set ps)" and T: "ppage T"
    and room: "missing (kmem s) T (range_paths va0 (npages (va1 - va0))) \<le> length ps"
    and al: "aligned 4096 va0" "aligned 4096 pa" and va: "va0 \<le> va" "va < va1" "va1 \<le> USER_END"
    and un: "unmapped (kmem s) T va" and perm: "leaf_perm perm"
  shows "\<exists>s'. create_mapping s (T + PA2VA_OFFSET) va0 pa (va1 - va0) perm = Some s' \<and>
    sv39_translate (kmem s') T va = Some (pa + (va - va0)) \<and>
    (\<exists>pte. sv39_walk (kmem s') T va = Some (0, pte) \<and> pte AND 0x3ff = scast perm)"
proof -
  define off where "off = unat va - unat va0"
  have ord: "unat va0 \<le> unat va" "unat va < unat va1" "unat va1 \<le> 0x4000000000"
    using va by (simp_all add: word_le_nat_alt word_less_nat_alt USER_END_def)
  have sz: "unat (va1 - va0) = unat va1 - unat va0"
    using ord by (simp add: unat_sub word_le_nat_alt)
  have two: "(2 :: nat) ^ 64 = 18446744073709551616" by simp
  have w: "unat va0 + unat (va1 - va0) + 4096 \<le> 2 ^ 64" using ord sz two by linarith
  have n: "npages (va1 - va0) \<le> 2 ^ 27"
    using npages_bounds(3) [of "va1 - va0"] ord sz by simp
  have vo: "va = va0 + of_nat off" using ord by (simp add: off_def of_nat_diff)
  have offl: "off < unat (va1 - va0)" using ord sz by (simp add: off_def)
  have tp: "tptr (T + PA2VA_OFFSET) T" using T by (simp add: tptr_def)
  obtain s' where c: "create_mapping s (T + PA2VA_OFFSET) va0 pa (va1 - va0) perm = Some s'"
    and g: "grows T (range_paths va0 (npages (va1 - va0))) s ps s' (drop (missing (kmem s) T (range_paths va0 (npages (va1 - va0)))) ps)"
    and l: "\<And>j x. in_range va0 (npages (va1 - va0)) j x \<Longrightarrow> lookup (kmem s') T x =
       (if unmapped (kmem s) T x then entry (pa + of_nat (4096 * j)) perm else lookup (kmem s) T x)"
    using create_mapping_pages [OF fp inv tp room w n, of pa perm] by blast
  have i: "pt_inv (kmem s') T (pa_of ` set (drop (missing (kmem s) T (range_paths va0 (npages (va1 - va0)))) ps))"
    using g by (simp add: grows_def)
  have ir: "in_range va0 (npages (va1 - va0)) (off div 4096) va"
    using offset_in_range [OF al(1) offl w] vo by simp
  have lk: "lookup (kmem s') T (va0 + of_nat off) = entry (pa + of_nat (4096 * (off div 4096))) perm"
    using l [OF ir] un vo by simp
  have wr: "unat va0 + off < 2 ^ 64" using ord two by (simp add: off_def)
  have "sv39_translate (kmem s') T va = Some (pa + of_nat off)"
    using translate_lookup [OF i lk al perm wr] vo by simp
  moreover have "pa + of_nat off = pa + (va - va0)" using vo by simp
  moreover have "sv39_walk (kmem s') T va = Some (0, entry (pa + of_nat (4096 * (off div 4096))) perm)"
    using sv39_walk_lookup [OF i, of va] lk vo entry_leaf [OF perm] by simp
  moreover have "entry (pa + of_nat (4096 * (off div 4096))) perm AND 0x3ff = scast perm"
    by (rule entry_flags) (use perm in \<open>simp add: leaf_perm_def\<close>)
  ultimately show ?thesis using c by auto
qed

text \<open>
  What a page fault needs: the current task, its areas, its page table, the faulting address in
  one of the areas and not yet mapped.
\<close>

definition fault_ready :: "tstate \<Rightarrow> u64 list \<Rightarrow> u64 \<Rightarrow> area list \<Rightarrow> area \<Rightarrow> u64 \<Rightarrow> bool" where
  "fault_ready s ps T as a va \<longleftrightarrow>
     free_pages s ps \<and> mm_list s ps (ld (kmem s) (t_mm (current s))) as \<and> sorted_areas as \<and>
     a \<in> set as \<and> covers va a \<and> aligned 4096 (a_start a) \<and> a_end a \<le> USER_END \<and>
     ppage T \<and> ld (kmem s) (t_pgd (current s)) = drop_bit 12 T OR 0x8000000000000000 \<and>
     pt_inv (kmem s) T (pa_of ` set ps) \<and> unmapped (kmem s) T va"

lemma find_vma_hit:
  assumes "mm_list s ps mm as" "sorted_areas as" "a \<in> set as" "covers va a"
  shows "find_vma (kmem s) mm va = Some (a_at a)"
proof -
  obtain b where b: "find (covers va) as = Some b"
    using assms(3,4) by (cases "find (covers va) as") (auto simp: find_None_iff)
  then have "b = a" using sorted_areas_unique [OF assms(2) _ assms(3) _ assms(4)] findSomeD [OF b] by blast
  then show ?thesis using find_vma_list [OF assms(1), of va] b by simp
qed

lemma vmas_fields:
  "vmas m p as \<Longrightarrow> a \<in> set as \<Longrightarrow> ld m (vm_start (a_at a)) = a_start a \<and> ld m (vm_end (a_at a)) = a_end a \<and>
     ld m (vm_flags (a_at a)) = a_flags a \<and> kpage (a_at a)"
  by (induction as arbitrary: p) auto

lemma do_page_fault_area:
  assumes f: "fault_ready s ps T as a va" and va: "va = ld (kmem s) (regs + 272)"
  shows "\<exists>cs. do_page_fault k regs sc s =
    (let s1 = s\<lparr>console := console s @ cs\<rparr> in
     if a_flags a = 31 then
       create_mapping s1 (T + PA2VA_OFFSET) (a_start a) (uapp_start k - PA2VA_OFFSET) (a_end a - a_start a) 31
     else if a_flags a = 23 then do {
       (U_Stack, s2) \<leftarrow>
         (if ld (kmem s) (current s) \<noteq> 0 then Some (ld (kmem s) (ld (kmem s) (current s) + 8), s1) else kalloc s1);
       create_mapping s2 (T + PA2VA_OFFSET) (a_start a) (U_Stack - PA2VA_OFFSET) (a_end a - a_start a) 23
     }
     else kprint (''Error Flags!'' @ nl) [] s1)"
proof -
  have h: "mm_list s ps (ld (kmem s) (t_mm (current s))) as" "sorted_areas as" "a \<in> set as" "covers va a"
    using f by (simp_all add: fault_ready_def)
  have fd: "ld (kmem s) (vm_start (a_at a)) = a_start a" "ld (kmem s) (vm_end (a_at a)) = a_end a"
    "ld (kmem s) (vm_flags (a_at a)) = a_flags a" "a_at a \<noteq> 0"
    using vmas_fields [of "kmem s" _ as a] h(1,3) kpage_nonzero by (auto simp: mm_list_def)
  have pg: "push_bit 12 (ld (kmem s) (t_pgd (current s))) = T"
    using f pgd_root by (simp add: fault_ready_def)
  obtain cs where cs: "kprint (''[S] PAGE_FAULT: scause: %lx, sepc: %lx, badaddr: %lx'' @ nl)
      [VInt sc, VInt (ld (kmem s) (regs + 256)), VInt va] s = Some (s\<lparr>console := console s @ cs\<rparr>)"
    using kprint_fault by blast
  show ?thesis
    by (rule exI [of _ cs])
      (use find_vma_hit [OF h] fd pg cs in \<open>simp add: do_page_fault_def va [symmetric] Let_def cong: if_cong\<close>)
qed

section \<open>Properties\<close>

text \<open>
  C16: a page fault inside the code area (flags 31) of the current task maps the whole area onto the
  user program, readable, writable, executable and user-accessible, and the faulting address then
  translates to the matching byte of the program, as long as the free list has a page for every
  page table that is missing.
\<close>

theorem page_fault_maps_program:
  assumes "fault_ready s ps T as a (ld (kmem s) (regs + 272))" "a_flags a = 31"
    and "aligned 4096 (uapp_start k)"
    and "missing (kmem s) T (range_paths (a_start a) (npages (a_end a - a_start a))) \<le> length ps"
  shows "\<exists>s'. do_page_fault k regs scause s = Some s' \<and>
    sv39_translate (kmem s') T (ld (kmem s) (regs + 272)) =
      Some (uapp_start k - PA2VA_OFFSET + (ld (kmem s) (regs + 272) - a_start a)) \<and>
    (\<exists>pte. sv39_walk (kmem s') T (ld (kmem s) (regs + 272)) = Some (0, pte) \<and> pte AND 0x3ff = 31)"
proof -
  let ?va = "ld (kmem s) (regs + 272)"
  obtain cs where d: "do_page_fault k regs scause s =
      create_mapping (s\<lparr>console := console s @ cs\<rparr>) (T + PA2VA_OFFSET) (a_start a) (uapp_start k - PA2VA_OFFSET)
        (a_end a - a_start a) 31"
    using do_page_fault_area [OF assms(1) refl, of k scause] assms(2) by (auto simp: Let_def)
  let ?s1 = "s\<lparr>console := console s @ cs\<rparr>"
  have f: "free_pages ?s1 ps" "pt_inv (kmem ?s1) T (pa_of ` set ps)" "ppage T" "aligned 4096 (a_start a)"
    "a_start a \<le> ?va" "?va < a_end a" "a_end a \<le> USER_END" "unmapped (kmem ?s1) T ?va"
    using assms(1) by (auto simp: fault_ready_def covers_def free_pages_def)
  have al: "aligned 4096 (uapp_start k - PA2VA_OFFSET)"
    using assms(3) by (intro aligned_diff) (auto simp: aligned_def layout_defs)
  have "missing (kmem ?s1) T (range_paths (a_start a) (npages (a_end a - a_start a))) \<le> length ps"
    using assms(4) by simp
  from map_area [OF f(1,2,3) this f(4) al f(5-8), of 31]
  show ?thesis unfolding d by (auto simp: leaf_perm_def)
qed

text \<open>
  A page fault on the stack area (flags 23) of a task with no \<open>thread_info\<close> takes a fresh page
  from the free list and maps it, not executable, so that the faulting address translates into it.
\<close>

theorem page_fault_maps_stack:
  assumes "fault_ready s (K # qs) T as a (ld (kmem s) (regs + 272))" "a_flags a = 23"
    and "ld (kmem s) (current s) = 0"
    and "missing (kmem s) T (range_paths (a_start a) (npages (a_end a - a_start a))) \<le> length qs"
  shows "\<exists>s'. do_page_fault k regs scause s = Some s' \<and>
    sv39_translate (kmem s') T (ld (kmem s) (regs + 272)) =
      Some (pa_of K + (ld (kmem s) (regs + 272) - a_start a)) \<and>
    (\<exists>pte. sv39_walk (kmem s') T (ld (kmem s) (regs + 272)) = Some (0, pte) \<and> pte AND 0x3ff = 23)"
proof -
  let ?va = "ld (kmem s) (regs + 272)"
  obtain cs where d: "do_page_fault k regs scause s = do {
      (U_Stack, s2) \<leftarrow> kalloc (s\<lparr>console := console s @ cs\<rparr>);
      create_mapping s2 (T + PA2VA_OFFSET) (a_start a) (U_Stack - PA2VA_OFFSET) (a_end a - a_start a) 23 }"
    using do_page_fault_area [OF assms(1) refl, of k scause] assms(2,3) by (auto simp: Let_def)
  let ?s1 = "s\<lparr>console := console s @ cs\<rparr>"
  have f: "free_pages ?s1 (K # qs)" "pt_inv (kmem ?s1) T (pa_of ` set (K # qs))" "ppage T" "aligned 4096 (a_start a)"
    "a_start a \<le> ?va" "?va < a_end a" "a_end a \<le> USER_END" "unmapped (kmem ?s1) T ?va"
    using assms(1) by (auto simp: fault_ready_def covers_def free_pages_def)
  obtain s2 where ka: "kalloc ?s1 = Some (K, s2)" and f2: "free_pages s2 qs" and K: "kpage K"
    using kalloc_free_pages [OF f(1)] by blast
  note pt = kalloc_pt [OF f(1) ka f(2)]
  have un: "unmapped (kmem s2) T ?va" using f(8) by (simp add: unmapped_def pt(2))
  have tab: "tab (kmem s2) T q = tab (kmem ?s1) T q" if "vpath q" for q
  proof (rule tab_agree [OF that])
    fix q T' and i :: u64 assume q: "vpath q" "tab (kmem ?s1) T q = Some T'" "i < 512"
    have "ppage T'" "T' \<noteq> pa_of K" using f(2) q unfolding pt_inv_def by auto
    then show "pte (kmem s2) T' i = pte (kmem ?s1) T' i"
      using pte_memset [OF K _ q(3), of T' "kmem ?s1"] kalloc_cases [OF f(1)] ka by auto
  qed
  have "missing (kmem s2) T (range_paths (a_start a) (npages (a_end a - a_start a))) \<le> length qs"
  proof -
    have "{q \<in> range_paths (a_start a) (npages (a_end a - a_start a)). tab (kmem s2) T q = None} =
        {q \<in> range_paths (a_start a) (npages (a_end a - a_start a)). tab (kmem s) T q = None}"
      using tab range_paths_vpath(1) by auto
    then show ?thesis using assms(4) unfolding missing_def by simp
  qed
  moreover have pk: "K - PA2VA_OFFSET = pa_of K" using K by (simp add: pa_of_def kpage_def)
  moreover have "aligned 4096 (pa_of K)" using kpage_ppage [OF K] by (simp add: ppage_def)
  ultimately show ?thesis
    using map_area [OF f2 pt(1) f(3) _ f(4) _ f(5-7) un, of "pa_of K" 23] ka
    unfolding d by (auto simp: leaf_perm_def)
qed

text \<open>
  A page fault outside every area of the current task never returns to it: the kernel
  reports the address and loops.
\<close>

theorem page_fault_outside_hangs:
  assumes "mm_list s ps (ld (kmem s) (t_mm (current s))) as" "\<forall>a \<in> set as. \<not> covers (ld (kmem s) (regs + 272)) a"
    and "scause \<in> {12, 13, 15}"
  shows "trap_handler k scause regs s = None"
proof -
  have "find_vma (kmem s) (ld (kmem s) (t_mm (current s))) (ld (kmem s) (regs + 272)) = Some 0"
    using find_vma_list [OF assms(1), of "ld (kmem s) (regs + 272)"] assms(2) by (simp add: find_None_iff [THEN iffD2])
  then have "do_page_fault k regs scause s = None" by (simp add: do_page_fault_def Let_def)
  then show ?thesis using assms(3) by (auto simp: trap_handler_def)
qed

section \<open>Concrete instances\<close>

lemma more_current: "kstate.more s = kstate.more s' \<Longrightarrow> current s = current s'" for s s' :: tstate
  by (cases s; cases s') simp

text \<open>
  A task at \<open>VM_START + 0x10000\<close> with its \<open>mm_struct\<close>, an empty page table, a trap frame whose
  \<open>stval\<close> is 16, and four free pages, one of which holds an area from 0 to 4096.
\<close>

definition fault_base :: tstate where
  "fault_base = put (VM_START + 0x10000 + 184) (VM_START + 0x20000)
     (put (VM_START + 0x10000 + 176) (drop_bit 12 (PHY_START + 0x30000) OR 0x8000000000000000)
     (put (VM_START + 0x40000 + 272) 16 (two_tasks\<lparr>current := VM_START + 0x10000\<rparr>)))"

definition fault_free :: tstate where
  "fault_free = kfree (kfree (kfree (kfree fault_base (VM_START + 0x1000)) (VM_START + 0x2000)) (VM_START + 0x3000)) (VM_START + 0x4000)"

lemma kfree_word:
  assumes "free_pages s ps" "kpage p" "p \<notin> set ps" "word_in q a" "q \<noteq> p"
  shows "ld (kmem (kfree s p)) a = ld (kmem s) a"
proof -
  have "a \<noteq> p" "\<not> in_page p a"
    using assms word_in_neq [OF assms(4) word_in_base [OF assms(2)]] word_in_page [OF assms(4,2)] by auto
  then show ?thesis using kfree_free_pages(2) [OF assms(1-3) word_in_kva [OF assms(4)]] by simp
qed

lemma kpages_example:
  "kpage (VM_START + 0x1000)" "kpage (VM_START + 0x2000)" "kpage (VM_START + 0x3000)" "kpage (VM_START + 0x4000)"
  "kpage (VM_START + 0x10000)" "kpage (VM_START + 0x20000)" "kpage (VM_START + 0x30000)" "kpage (VM_START + 0x40000)"
  by (simp_all add: kpage_def aligned_def layout_defs)

lemma fault_free:
  "free_pages fault_free [VM_START + 0x4000, VM_START + 0x3000, VM_START + 0x2000, VM_START + 0x1000]"
  "current fault_free = VM_START + 0x10000"
  "word_in q a \<Longrightarrow> q \<notin> {VM_START + 0x1000, VM_START + 0x2000, VM_START + 0x3000, VM_START + 0x4000} \<Longrightarrow>
     ld (kmem fault_free) a = ld (kmem fault_base) a"
proof -
  note k = kpages_example
  let ?a = "VM_START + 0x1000" and ?b = "VM_START + 0x2000" and ?c = "VM_START + 0x3000" and ?d = "VM_START + 0x4000"
  have z: "free_pages fault_base []" by (simp add: fault_base_def put_def two_tasks_def free_pages_def)
  have n: "?a \<notin> set []" "?b \<notin> set [?a]" "?c \<notin> set [?b, ?a]" "?d \<notin> set [?c, ?b, ?a]" by simp_all
  note f1 = kfree_free_pages(1,3) [OF z k(1) n(1)]
  note f2 = kfree_free_pages(1,3) [OF f1(1) k(2) n(2)]
  note f3 = kfree_free_pages(1,3) [OF f2(1) k(3) n(3)]
  note f4 = kfree_free_pages(1,3) [OF f3(1) k(4) n(4)]
  show "free_pages fault_free [?d, ?c, ?b, ?a]" using f4(1) by (simp add: fault_free_def)
  have "kstate.more fault_free = kstate.more fault_base" using f1 f2 f3 f4 by (simp add: fault_free_def)
  then show "current fault_free = VM_START + 0x10000"
    using more_current [of fault_free fault_base] by (simp add: fault_base_def put_def)
  show "ld (kmem fault_free) a = ld (kmem fault_base) a" if "word_in q a" "q \<notin> {?a, ?b, ?c, ?d}"
    using kfree_word [OF z k(1) n(1) that(1)] kfree_word [OF f1(1) k(2) n(2) that(1)]
      kfree_word [OF f2(1) k(3) n(3) that(1)] kfree_word [OF f3(1) k(4) n(4) that(1)] that(2)
    by (simp add: fault_free_def)
qed

lemma fault_base_words:
  assumes "word_in q a" "q \<notin> {VM_START + 0x10000, VM_START + 0x40000}"
  shows "ld (kmem fault_base) a = 0"
proof -
  note k = kpages_example
  have w: "word_in (VM_START + 0x10000) (VM_START + 0x10000 + 184)" "word_in (VM_START + 0x10000) (VM_START + 0x10000 + 176)"
    "word_in (VM_START + 0x40000) (VM_START + 0x40000 + 272)"
    using word_in_nat [OF k(5), of 184] word_in_nat [OF k(5), of 176] word_in_nat [OF k(8), of 272] by simp_all
  have ne: "q \<noteq> VM_START + 0x10000" "q \<noteq> VM_START + 0x40000" using assms(2) by auto
  show ?thesis
    unfolding fault_base_def put_def
    using ld_st_other [OF assms(1) w(1) ne(1)] ld_st_other [OF assms(1) w(2) ne(1)] ld_st_other [OF assms(1) w(3) ne(2)]
    by (simp add: two_tasks_def ld_def load64_zero_mem)
qed

lemma fault_base_fields:
  "ld (kmem fault_base) (VM_START + 0x10000 + 184) = VM_START + 0x20000"
  "ld (kmem fault_base) (VM_START + 0x10000 + 176) = drop_bit 12 (PHY_START + 0x30000) OR 0x8000000000000000"
  "ld (kmem fault_base) (VM_START + 0x40000 + 272) = 16"
  "ld (kmem fault_base) (VM_START + 0x10000) = 0"
proof -
  define t r where "t = VM_START + 0x10000" and "r = VM_START + 0x40000"
  have k: "kpage t" "kpage r" "t \<noteq> r" using kpages_example(5,8) by (simp_all add: t_def r_def)
  show "ld (kmem fault_base) (VM_START + 0x10000 + 184) = VM_START + 0x20000"
    "ld (kmem fault_base) (VM_START + 0x10000 + 176) = drop_bit 12 (PHY_START + 0x30000) OR 0x8000000000000000"
    "ld (kmem fault_base) (VM_START + 0x40000 + 272) = 16"
    "ld (kmem fault_base) (VM_START + 0x10000) = 0"
    unfolding fault_base_def put_def t_def [symmetric] r_def [symmetric]
    using k by (simp_all add: mem_simps addr_simps two_tasks_def ld_def [of "\<lambda>_. 0"] load64_zero_mem)
qed

lemma fault_example:
  "\<exists>s. do_mmap fault_free (VM_START + 0x20000) 0 0x1000 prot = Some (0, s) \<and>
     current s = VM_START + 0x10000 \<and> ld (kmem s) (current s) = 0 \<and> ld (kmem s) (VM_START + 0x40000 + 272) = 16 \<and>
     fault_ready s [VM_START + 0x3000, VM_START + 0x2000, VM_START + 0x1000] (PHY_START + 0x30000)
       [new_area (VM_START + 0x4000) 0 0x1000 prot] (new_area (VM_START + 0x4000) 0 0x1000 prot) 16 \<and>
     (\<forall>q. vpath q \<longrightarrow> q \<noteq> [] \<longrightarrow> tab (kmem s) (PHY_START + 0x30000) q = None)"
proof -
  note k = kpages_example
  let ?qs = "[VM_START + 0x3000, VM_START + 0x2000, VM_START + 0x1000]" and ?mm = "VM_START + 0x20000"
  let ?t = "VM_START + 0x10000" and ?T = "PHY_START + 0x30000" and ?n = "new_area (VM_START + 0x4000) 0 0x1000 prot"
  have mm0: "ld (kmem fault_free) ?mm = 0"
    using fault_free(3) [OF word_in_base [OF k(6)]] fault_base_words [OF word_in_base [OF k(6)]] by simp
  have ml: "mm_list fault_free ((VM_START + 0x4000) # ?qs) ?mm []" using k mm0 by (simp add: mm_list_def)
  obtain s where d: "do_mmap fault_free ?mm 0 0x1000 prot = Some (0, s)" and fp: "free_pages s ?qs"
    and l: "mm_list s ?qs ?mm [?n]"
    and fr: "\<And>p a. word_in p a \<Longrightarrow> p \<notin> {VM_START + 0x4000, ?mm} \<Longrightarrow> ld (kmem s) a = ld (kmem fault_free) a"
    and mo: "kstate.more s = kstate.more fault_free"
    using do_mmap_clear [OF fault_free(1) ml, of 0 "0x1000" prot] by (auto simp: insert_area_def)
  have cu: "current s = ?t" using more_current [OF mo] fault_free(2) by simp
  have rd: "ld (kmem s) a = ld (kmem fault_base) a"
    if "word_in p a" "p \<notin> {VM_START + 0x1000, VM_START + 0x2000, VM_START + 0x3000, VM_START + 0x4000, ?mm}" for p a
    using fr [OF that(1)] fault_free(3) [OF that(1)] that(2) by auto
  have w: "word_in ?t (?t + 184)" "word_in ?t (?t + 176)" "word_in (VM_START + 0x40000) (VM_START + 0x40000 + 272)" "word_in ?t ?t"
    using word_in_nat [OF k(5), of 184] word_in_nat [OF k(5), of 176] word_in_nat [OF k(8), of 272] word_in_base [OF k(5)] by simp_all
  have f: "ld (kmem s) (?t + 184) = ?mm" "ld (kmem s) (?t + 176) = drop_bit 12 ?T OR 0x8000000000000000"
    "ld (kmem s) (VM_START + 0x40000 + 272) = 16" "ld (kmem s) ?t = 0"
    using rd [OF w(1)] rd [OF w(2)] rd [OF w(3)] rd [OF w(4)] by (simp_all only: fault_base_fields) simp_all
  have T: "ppage ?T" "tptr (VM_START + 0x30000) ?T" by (simp_all add: ppage_def tptr_def aligned_def layout_defs)
  have z: "pte (kmem s) ?T i = 0" if i: "i < 512" for i
  proof -
    have "word_in (VM_START + 0x30000) (VM_START + 0x30000 + of_nat (8 * unat i))"
      using k(7) index_offset [OF i] by (intro word_in_nat) auto
    then have wi: "word_in (VM_START + 0x30000) (VM_START + 0x30000 + 8 * i)" by (simp only: slot_of_nat)
    show ?thesis using rd [OF wi] fault_base_words [OF wi] ld_tptr [OF T(2) i, of "kmem s"] by simp
  qed
  have "?T \<notin> pa_of ` set ?qs" by (simp add: pa_of_def layout_defs)
  note e = pt_inv_empty [OF T(1) this z]
  have "fault_ready s ?qs ?T [?n] ?n 16"
    unfolding fault_ready_def cu f using fp l e T(1)
    by (simp add: sorted_areas_def covers_def new_area_def aligned_def USER_END_def)
  moreover have "tab (kmem s) ?T q = None" if "vpath q" "q \<noteq> []" for q
    using that z by (cases rule: vpath_cases) (auto simp: nxt_def)
  ultimately show ?thesis using d cu f by auto
qed

lemma fault_missing:
  assumes "\<forall>q. vpath q \<longrightarrow> q \<noteq> [] \<longrightarrow> tab m T q = None"
  shows "missing m T (range_paths 0 (npages 0x1000)) = 2"
proof -
  have rp: "range_paths 0 (npages 0x1000) = {[0], [0, 0]}"
    by (simp add: npages_def range_paths_def pages_from_def walk_paths_def vpn_def)
  have "tab m T [0] = None" "tab m T [0, 0] = None"
    by (rule assms [rule_format]; simp add: vpath_def)+
  then have "{q \<in> {[0], [0, 0]}. tab m T q = None} = {[0], [0, 0]}" by blast
  then show ?thesis by (simp add: missing_def rp)
qed

theorem page_fault_maps_program_witness:
  "\<exists>s s'. do_mmap fault_free (VM_START + 0x20000) 0 0x1000 31 = Some (0, s) \<and>
     do_page_fault \<lparr>stext = 0, etext = 0, srodata = 0, erodata = 0, sdata = 0, swapper_pg_dir = 0,
       uapp_start = VM_START + 0x50000, uapp_end = VM_START + 0x51000, dummy_addr = 0, forkret_addr = 0\<rparr>
       (VM_START + 0x40000) 12 s = Some s' \<and>
     sv39_translate (kmem s') (PHY_START + 0x30000) 16 = Some (PHY_START + 0x50010)"
proof -
  let ?n = "new_area (VM_START + 0x4000) 0 0x1000 31"
  define k where "k = \<lparr>stext = 0, etext = 0, srodata = 0, erodata = 0, sdata = 0, swapper_pg_dir = 0,
       uapp_start = VM_START + 0x50000, uapp_end = VM_START + 0x51000, dummy_addr = 0, forkret_addr = 0\<rparr>"
  obtain s where s: "do_mmap fault_free (VM_START + 0x20000) 0 0x1000 31 = Some (0, s)"
    "ld (kmem s) (VM_START + 0x40000 + 272) = 16"
    "fault_ready s [VM_START + 0x3000, VM_START + 0x2000, VM_START + 0x1000] (PHY_START + 0x30000) [?n] ?n 16"
    "\<forall>q. vpath q \<longrightarrow> q \<noteq> [] \<longrightarrow> tab (kmem s) (PHY_START + 0x30000) q = None"
    using fault_example [of 31] by blast
  have n: "a_flags ?n = 31" "a_start ?n = 0" "a_end ?n = 0x1000" by (simp_all add: new_area_def)
  have u: "aligned 4096 (uapp_start k)" by (simp add: k_def aligned_def layout_defs)
  have "missing (kmem s) (PHY_START + 0x30000) (range_paths (a_start ?n) (npages (a_end ?n - a_start ?n))) \<le> 3"
    using fault_missing [OF s(4)] by (simp add: n)
  then obtain s' where "do_page_fault k (VM_START + 0x40000) 12 s = Some s'"
    "sv39_translate (kmem s') (PHY_START + 0x30000) 16 = Some (uapp_start k - PA2VA_OFFSET + 16)"
    using page_fault_maps_program [of s _ _ _ ?n "VM_START + 0x40000" k 12, unfolded s(2), OF s(3) n(1) u] by (auto simp: n)
  moreover have "uapp_start k - PA2VA_OFFSET + 16 = PHY_START + 0x50010" by (simp add: k_def layout_defs)
  ultimately show ?thesis using s(1) unfolding k_def by metis
qed

definition no_symbols :: task_symbols where
  "no_symbols = \<lparr>stext = 0, etext = 0, srodata = 0, erodata = 0, sdata = 0, swapper_pg_dir = 0,
     uapp_start = 0, uapp_end = 0, dummy_addr = 0, forkret_addr = 0\<rparr>"

text \<open>What \<open>write\<close> puts on the console when the user memory it reads is mapped.\<close>

lemma write_loop_bytes:
  "\<forall>j \<in> set js. ubyte s (buf + of_nat j) = Some (b j)
    \<Longrightarrow> write_loop js buf s = Some (s\<lparr>console := console s @ map (\<lambda>j. char_of (unat (b j))) js\<rparr>)"
proof (induction js arbitrary: s)
  case (Cons j js)
  have "ubyte (putc c s) a = ubyte s a" for c a by (simp add: ubyte_def putc_def)
  then show ?case using Cons.prems Cons.IH [of "putc (char_of (unat (b j))) s"] by (simp add: putc_def)
qed simp

lemma syscall_effect:
  assumes "ld (kmem s) (regs + 136) = n" "n \<noteq> 220"
    and "n = 64 \<and> ucast (ld (kmem s) (regs + 80)) = (1 :: u32) \<Longrightarrow> length bs = unat (ld (kmem s) (regs + 96)) \<and>
      (\<forall>j < length bs. ubyte s (ld (kmem s) (regs + 88) + of_nat j) = Some (bs ! j))"
    and "(r, cs) = (if n = 64 \<and> ucast (ld (kmem s) (regs + 80)) = (1 :: u32) then (1, map (\<lambda>b. char_of (unat b)) bs)
      else if n = 64 then (- 1, ''fd != 1, ERROR!'' @ nl)
      else if n = 172 then (ld (kmem s) (t_pid (current s)), [])
      else (- 1, ''exception = '' @ show_hex 16 (unat n) @ '', Unknown excpetion code!'' @ nl))"
  shows "syscall k regs s = Some (r, s\<lparr>console := console s @ cs\<rparr>)"
proof -
  consider "n = 64" "ucast (ld (kmem s) (regs + 80)) = (1 :: u32)" | "n = 64" "ucast (ld (kmem s) (regs + 80)) \<noteq> (1 :: u32)"
    | "n = 172" | "n \<noteq> 64" "n \<noteq> 172" by blast
  then show ?thesis
  proof cases
    case 1
    have "write_loop [0..<length bs] (ld (kmem s) (regs + 88)) s = Some (s\<lparr>console := console s @ map (\<lambda>b. char_of (unat b)) bs\<rparr>)"
      using write_loop_bytes [of "[0..<length bs]" s _ "\<lambda>j. bs ! j"] assms(3) 1 arg_cong [OF map_nth [of bs], of "map (\<lambda>b. char_of (unat b))"]
      by (simp add: comp_def)
    then show ?thesis using assms 1 by (simp add: syscall_def sys_write_def)
  next
    case 2
    have "kprint (''fd != 1, ERROR!'' @ nl) [] s = Some (s\<lparr>console := console s @ ''fd != 1, ERROR!'' @ nl\<rparr>)"
      by (subst kprint_text [of _ "map Lit ''fd != 1, ERROR!'' @ [Lit (CHR 0x0A)]"]) simp_all
    then show ?thesis using assms 2 by (simp add: syscall_def sys_write_def)
  next
    case 3
    then show ?thesis using assms by (simp add: syscall_def sys_getpid_def)
  next
    case 4
    have "kprint (''exception = %lx, Unknown excpetion code!'' @ nl) [VInt n] s
        = Some (s\<lparr>console := console s @ ''exception = '' @ show_hex 16 (unat n) @ '', Unknown excpetion code!'' @ nl\<rparr>)"
      by (subst kprint_text [of _ "map Lit ''exception = '' @ Hex True n # map Lit '', Unknown excpetion code!'' @ [Lit (CHR 0x0A)]"]) simp_all
    then show ?thesis using assms 4 by (simp add: syscall_def)
  qed
qed

text \<open>
  C17: a system call other than \<open>clone\<close> returns with exactly these changes of the whole state: \<open>a0\<close> of the saved
  registers is its result, \<open>sepc\<close> is moved past the \<open>ecall\<close>, and the console has its output. \<open>write\<close> to descriptor 1
  of a buffer in mapped memory prints the bytes of the buffer and returns 1; \<open>write\<close> to another descriptor and an unknown call number
  print a message and return -1; \<open>getpid\<close> prints nothing and returns the \<open>pid\<close> of the current task.
\<close>

theorem syscall_returns:
  assumes "kpage R" "i < 3816" "8 dvd i" "regs = R + of_nat i" "ld (kmem s) (regs + 136) = n" "n \<noteq> 220"
    and "n = 64 \<and> ucast (ld (kmem s) (regs + 80)) = (1 :: u32) \<Longrightarrow> length bs = unat (ld (kmem s) (regs + 96)) \<and>
      (\<forall>j < length bs. ubyte s (ld (kmem s) (regs + 88) + of_nat j) = Some (bs ! j))"
  shows "\<exists>r cs m. trap_handler k 8 regs s = Some (s\<lparr>kmem := m, console := console s @ cs\<rparr>) \<and>
    (r, cs) = (if n = 64 \<and> ucast (ld (kmem s) (regs + 80)) = (1 :: u32) then (1, map (\<lambda>b. char_of (unat b)) bs)
      else if n = 64 then (- 1, ''fd != 1, ERROR!'' @ nl)
      else if n = 172 then (ld (kmem s) (t_pid (current s)), [])
      else (- 1, ''exception = '' @ show_hex 16 (unat n) @ '', Unknown excpetion code!'' @ nl)) \<and>
    m = st (st (kmem s) (regs + 80) r) (regs + 256) (ld (kmem s) (regs + 256) + 4) \<and>
    ld m (regs + 80) = r \<and> ld m (regs + 256) = ld (kmem s) (regs + 256) + 4 \<and>
    (\<forall>a. kva a \<longrightarrow> a \<noteq> regs + 80 \<longrightarrow> a \<noteq> regs + 256 \<longrightarrow> ld m a = ld (kmem s) a)"
proof -
  have off: "word_in R (regs + of_nat j)" if "j < 280" "8 dvd j" for j
    using word_in_nat [OF assms(1), of "i + j"] assms(2,3) that by (simp add: assms(4) add.assoc)
  have w: "kva (regs + 80)" "kva (regs + 256)" using off [of 80] off [of 256] word_in_kva by auto
  have ne: "regs + 80 \<noteq> regs + 256" by simp
  obtain r cs where rc: "(r, cs) = (if n = 64 \<and> ucast (ld (kmem s) (regs + 80)) = (1 :: u32) then (1, map (\<lambda>b. char_of (unat b)) bs)
      else if n = 64 then (- 1, ''fd != 1, ERROR!'' @ nl)
      else if n = 172 then (ld (kmem s) (t_pid (current s)), [])
      else (- 1, ''exception = '' @ show_hex 16 (unat n) @ '', Unknown excpetion code!'' @ nl))" by (metis surj_pair)
  define m where "m = st (st (kmem s) (regs + 80) r) (regs + 256) (ld (kmem s) (regs + 256) + 4)"
  have "ld (st (kmem s) (regs + 80) r) (regs + 256) = ld (kmem s) (regs + 256)" using w ne by (simp add: dmap.rd_wr_other)
  then have "trap_handler k 8 regs s = Some (s\<lparr>kmem := m, console := console s @ cs\<rparr>)"
    using syscall_effect [OF assms(5-7) rc, of k] by (simp add: trap_handler_def put_def m_def)
  moreover have "ld m (regs + 80) = r" "ld m (regs + 256) = ld (kmem s) (regs + 256) + 4" using w ne by (simp_all add: m_def dmap.rd_wr)
  moreover have "ld m a = ld (kmem s) a" if "kva a" "a \<noteq> regs + 80" "a \<noteq> regs + 256" for a
    using w that by (simp add: m_def dmap.rd_wr_other)
  ultimately show ?thesis using rc m_def by blast
qed

definition write_regs :: mem where
  "write_regs = st (st (st (st (\<lambda>_. 0) (VM_START + 0x2000 + 136) 64) (VM_START + 0x2000 + 80) 1)
     (VM_START + 0x2000 + 88) (VM_START + 0x5000)) (VM_START + 0x2000 + 96) 1"

text \<open>A task that writes one byte, with the page table of \<open>setup_vm\<close>.\<close>

definition writing :: tstate where
  "writing = two_tasks\<lparr>kmem := setup_vm write_regs (PHY_START + 0x40000),
     cpu := (cpu two_tasks)\<lparr>satp := drop_bit 12 (PHY_START + 0x40000) OR 0x8000000000000000\<rparr>\<rparr>"

lemma writing_facts:
  "ubyte writing (VM_START + 0x5000) = Some (kmem writing (PHY_START + 0x5000))"
  "ld (kmem writing) (VM_START + 0x2000 + 136) = 64" "ld (kmem writing) (VM_START + 0x2000 + 80) = 1"
  "ld (kmem writing) (VM_START + 0x2000 + 88) = VM_START + 0x5000" "ld (kmem writing) (VM_START + 0x2000 + 96) = 1"
proof -
  let ?T = "PHY_START + 0x40000" and ?P = "PHY_START + 0x2000" and ?R = "VM_START + 0x2000" and ?V = "VM_START + 0x40000"
  have pp: "ppage ?T" "ppage ?P" "?T \<noteq> ?P" by (simp_all add: ppage_def aligned_def layout_defs)
  have w: "write_regs = store64 (store64 (store64 (store64 (\<lambda>_. 0) (?P + 8 * 17) 64) (?P + 8 * 10) 1) (?P + 8 * 11) (VM_START + 0x5000)) (?P + 8 * 12) 1"
    by (simp add: write_regs_def st_def pa_of_def layout_defs)
  have z: "pte (store64 (store64 (store64 (store64 (\<lambda>_. 0) (P + 8 * j1) a) (P + 8 * j2) b) (P + 8 * j3) c) (P + 8 * j4) d) T i = 0"
    if "ppage T" "ppage P" "T \<noteq> P" "i < 512" "j1 < 512" "j2 < 512" "j3 < 512" "j4 < 512" for i j1 j2 j3 j4 a b c d P T
    using that by (simp add: pte_store) (simp add: pte_def load64_zero_mem)
  have "pte write_regs ?T i = 0" if "i < 512" for i unfolding w using that by (intro z [OF pp]) simp_all
  then have "sv39_translate (setup_vm write_regs ?T) ?T (VM_START + 0x5000) = Some (PHY_START + 0x5000)"
    using early_pgtbl_translates [OF pp(1), of write_regs "VM_START + 0x5000"] by (simp add: pa_of_def layout_defs)
  then show "ubyte writing (VM_START + 0x5000) = Some (kmem writing (PHY_START + 0x5000))"
    using satp_of_root(1) [OF pp(1)] by (simp add: ubyte_def writing_def)
  have v: "setup_vm m ?T = st (st m (?V + 16) 0x2000000f) (?V + 3072) 0x2000000f" for m
    by (simp add: setup_vm_def st_def pa_of_def layout_defs Let_def)
  have k: "kpage ?R" "kpage ?V" "?R \<noteq> ?V" "?V \<noteq> ?R" by (simp_all add: kpage_def aligned_def layout_defs)
  have l: "ld m (R + 136) = 64 \<and> ld m (R + 80) = 1 \<and> ld m (R + 88) = b \<and> ld m (R + 96) = 1"
    if "m = st (st (st (st (st (st z (R + 136) 64) (R + 80) 1) (R + 88) b) (R + 96) 1) (V + 16) e) (V + 3072) e" "kpage R" "kpage V" "R \<noteq> V" "V \<noteq> R"
    for m z R V b e using that(2-5) unfolding that(1) by (simp add: mem_simps addr_simps)
  have "kmem writing = setup_vm write_regs ?T" by (simp add: writing_def)
  from l [OF this [unfolded v write_regs_def] k]
  show "ld (kmem writing) (?R + 136) = 64" "ld (kmem writing) (?R + 80) = 1"
    "ld (kmem writing) (?R + 88) = VM_START + 0x5000" "ld (kmem writing) (?R + 96) = 1" by blast+
qed

theorem syscall_returns_witness:
  "\<exists>m. trap_handler no_symbols 8 (VM_START + 0x2000) writing
      = Some (writing\<lparr>kmem := m, console := console writing @ [char_of (unat (kmem writing (PHY_START + 0x5000)))]\<rparr>)
    \<and> ld m (VM_START + 0x2000 + 80) = 1"
  using syscall_returns [OF kpage_example(2), of 0 "VM_START + 0x2000" writing 64 "[kmem writing (PHY_START + 0x5000)]" no_symbols] writing_facts
  by auto

end
