(* ===== verification/Boot.thy ===== *)
theory Boot
  imports Trap
begin

text \<open>
  The start of the kernel (\<open>init/main.c\<close>) and its idle loops: \<open>start_kernel\<close>, one turn of \<open>test\<close>
  (\<open>init/test.c\<close>) and one turn of \<open>dummy\<close> (\<open>proc.c\<close>).
\<close>

section \<open>The code\<close>

definition kputs :: "string \<Rightarrow> tstate \<Rightarrow> tstate" where
  "kputs str s = s\<lparr>console := console s @ puts str\<rparr>"

definition kputi :: "int \<Rightarrow> tstate \<Rightarrow> tstate option" where
  "kputi x s = map_option (\<lambda>cs. s\<lparr>console := console s @ cs\<rparr>) (puti x)"

text \<open>\<open>start_kernel\<close> up to the call of \<open>test\<close>, which does not return.\<close>

definition start_kernel :: "tstate \<Rightarrow> tstate option" where
  "start_kernel s = do {
     s \<leftarrow> kputi 2022 s;
     let s = kputs ('' ZJU Computer System II'' @ nl) s;
     schedule s
   }"

text \<open>One turn of the loop of \<open>test\<close>: the time in seconds is remembered when it advances.\<close>

definition test_turn :: "u64 \<Rightarrow> tstate \<Rightarrow> u64" where
  "test_turn record_time s =
     (let present_time = mtime s div 10000000
      in if record_time < present_time then present_time else record_time)"

text \<open>One turn of the loop of \<open>dummy\<close>, with its three local variables.\<close>

record dummy_locals =
  auto_inc_local_var :: u64
  last_counter :: int
  last_last_counter :: int

text \<open>\<open>current->counter != last_counter\<close> converts the \<open>int\<close> to 64 bits unsigned; the assignment truncates.\<close>

definition dummy_turn :: "dummy_locals \<Rightarrow> tstate \<Rightarrow> (dummy_locals \<times> tstate) option" where
  "dummy_turn l s =
     (let counter = ld (kmem s) (t_counter (current s)) in
      if last_counter l = - 1 \<or> counter \<noteq> word_of_int (last_counter l) then do {
        let l = l\<lparr>last_last_counter := last_counter l\<rparr>;
        let l = l\<lparr>last_counter := sint (ucast counter :: u32)\<rparr>;
        let l = l\<lparr>auto_inc_local_var := (auto_inc_local_var l + 1) mod 1000000007\<rparr>;
        s \<leftarrow> kprint (''[PID = %d] is running. Thread space begin at %lx'' @ nl)
               [VInt (ld (kmem s) (t_pid (current s))), VInt (current s)] s;
        Some (l, s)
      }
      else if (last_last_counter l = 0 \<or> last_last_counter l = - 1) \<and> last_counter l = 1 then
        Some (l\<lparr>last_counter := 0\<rparr>, put (t_counter (current s)) 0 s)
      else Some (l, s))"

section \<open>Properties\<close>

lemma puti_2022: "puti 2022 = Some ''2022''"
proof -
  have "puti 2022 = Some (show_nat 2022)"
    using decchars_fits [of 2022] show_nat_length [of 2022 4] by (simp add: puti_def Let_def)
  also have "show_nat 2022 = ''2022''" by (simp add: show_nat.simps char_of_def bit_numeral_rec bit_0)
  finally show ?thesis .
qed

text \<open>
  C18: started with a task table that has a user task and no counter set yet, \<open>start_kernel\<close> prints
  the banner first and hands the processor to task 1: \<open>ra\<close>, \<open>sp\<close>, all twelve saved registers, \<open>sepc\<close>, \<open>sstatus\<close>
  and \<open>sscratch\<close> are the words of its task structure, \<open>satp\<close> is its page table, and the counters are set.
\<close>

theorem start_kernel_runs_first_task:
  assumes "tasks_ok s" "\<nexists>i. ready s i" "current s \<noteq> task s ! 1" "kpage (current s)"
  shows "\<exists>s' cs. start_kernel s = Some s' \<and> current s' = task s ! 1 \<and>
    console s' = console s @ ''2022 ZJU Computer System II'' @ nl @ cs \<and>
    ra (cpu s') = ld (kmem s) (task s ! 1 + 40) \<and> sp (cpu s') = ld (kmem s) (task s ! 1 + 48) \<and>
    length (sregs (cpu s')) = 12 \<and> (\<forall>i < 12. sregs (cpu s') ! i = ld (kmem s) (task s ! 1 + of_nat (56 + 8 * i))) \<and>
    sepc (cpu s') = ld (kmem s) (task s ! 1 + 152) \<and> sstatus (cpu s') = ld (kmem s) (task s ! 1 + 160) \<and>
    sscratch (cpu s') = ld (kmem s) (task s ! 1 + 168) \<and> satp (cpu s') = ld (kmem s) (task s ! 1 + 176) \<and>
    (\<forall>i \<in> {1..<total_tasks s}. task s ! i \<noteq> current s \<longrightarrow> ld (kmem s') (t_counter (task s ! i)) = of_nat i)"
proof -
  let ?t = "task s ! 1"
  define s0 where "s0 = kputs ('' ZJU Computer System II'' @ nl) (s\<lparr>console := console s @ ''2022''\<rparr>)"
  have s0: "kmem s0 = kmem s" "task s0 = task s" "total_tasks s0 = total_tasks s" "current s0 = current s"
    by (simp_all add: s0_def kputs_def)
  have ok: "tasks_ok s0" and nr: "\<nexists>j. ready s0 j"
    using assms(1,2) by (simp_all add: tasks_ok_def ready_def counter_of_def s0)
  obtain i s1 cs where r: "refilled s0 s1"
    and sc: "schedule s0 = Some (switch_to (task s0 ! i) (s1\<lparr>console := console s1 @ cs\<rparr>))" and i: "i = 1"
    using schedule_result [OF ok] nr by blast
  define s2 where "s2 = s1\<lparr>console := console s1 @ cs, current := ?t\<rparr>"
  have s1: "current s1 = current s" using r by (simp add: refilled_def s0)
  have st: "start_kernel s = schedule s0"
    by (simp add: start_kernel_def kputi_def puti_2022 s0_def)
  have run: "start_kernel s = Some (switch_context (current s) ?t s2)"
    using st sc assms(3) s1 unfolding i by (simp add: switch_to_def Let_def s2_def s0)
  have kt: "kpage ?t" using assms(1) by (auto simp: tasks_ok_def)
  have m2: "kmem s2 = kmem s1" by (simp add: s2_def)
  have rd: "ld (kmem (switch_context (current s) ?t s2)) a = ld (kmem s) a"
    if a: "word_in ?t a" "\<forall>j \<in> {1..<total_tasks s}. a \<noteq> t_counter (task s ! j)" for a
  proof -
    have "ld (kmem s1) a = ld (kmem s) a" using r a nr unfolding refilled_def s0 by auto
    moreover have "ld (kmem (switch_context (current s) ?t s2)) a = ld (kmem s2) a"
      using switch_saves(2) [OF assms(4) a(1)] assms(3) by metis
    ultimately show ?thesis by (simp add: m2)
  qed
  have kj: "kpage (task s ! j)" if "j \<in> {1..<total_tasks s}" for j using assms(1) that by (auto simp: tasks_ok_def)
  have f: "ld (kmem (switch_context (current s) ?t s2)) (?t + of_nat d) = ld (kmem s) (?t + of_nat d)" if "40 \<le> d" "d < 184" "8 dvd d" for d
  proof (rule rd)
    show "word_in ?t (?t + of_nat d)" using that by (intro word_in_nat [OF kt]) simp_all
    show "\<forall>j \<in> {1..<total_tasks s}. ?t + of_nat d \<noteq> t_counter (task s ! j)"
      using kpage_offset_eq [OF kt kj, of _ d 16] that by auto
  qed
  have g: "ld (kmem (switch_context (current s) ?t s2)) (?t + of_nat (56 + 8 * i)) = ld (kmem s) (?t + of_nat (56 + 8 * i))" if "i < 12" for i
    using that by (intro f) simp_all
  have c: "cpu (switch_context (current s) ?t s2) = loaded_context (kmem (switch_context (current s) ?t s2)) ?t"
    "current (switch_context (current s) ?t s2) = ?t" "console (switch_context (current s) ?t s2) = console s2"
    by (simp_all add: switch_context_def Let_def s2_def)
  obtain ds where "console s1 = console s0 @ ds" using r by (auto simp: refilled_def)
  then have con: "console s2 = console s @ ''2022 ZJU Computer System II'' @ nl @ ds @ cs"
    by (simp add: s2_def s0_def kputs_def puts_def)
  have "ld (kmem (switch_context (current s) ?t s2)) (t_counter (task s ! i)) = of_nat i"
    if "i \<in> {1..<total_tasks s}" "task s ! i \<noteq> current s" for i
    using that kj [OF that(1)] r nr switch_saves(2) [OF assms(4), of "task s ! i" "t_counter (task s ! i)" ?t s2]
    by (auto simp: refilled_def counter_of_def s0 m2 addr_simps)
  then show ?thesis unfolding run using f [of 40] f [of 48] f [of 152] f [of 160] f [of 168] f [of 176] g c con
    by (simp add: loaded_context_def del: of_nat_add of_nat_mult)
qed

theorem start_kernel_runs_first_task_witness:
  "\<exists>s'. start_kernel two_tasks = Some s' \<and> current s' = VM_START + 0x2000"
proof -
  have c: "current two_tasks = VM_START + 0x1000" "task two_tasks ! 1 = VM_START + 0x2000" by (simp_all add: two_tasks_def)
  have "\<nexists>i. ready two_tasks i" by (simp add: ready_def counter_of_def two_tasks_def ld_def load64_zero_mem)
  then show ?thesis
    using start_kernel_runs_first_task [OF two_tasks_ok] c kpage_example(1) by auto
qed

end
