(* ===== verification/Rand.thy ===== *)
theory Rand
  imports Prelude Printk
begin

text \<open>
  The pseudo-random generator of \<open>lib/rand.c\<close>: an additive feedback generator over the array
  \<open>r[1000]\<close>, filled on the first call. The additions of \<open>int\<close> wrap at 32 bits, as the compiler emits them.
\<close>

section \<open>The code\<close>

record rand_state =
  initialize :: bool
  rr :: "u32 list"
  tt :: int

definition SEED :: u32 where "SEED = 13"

definition rand_boot :: rand_state where
  "rand_boot = \<lparr>initialize = False, rr = replicate 1000 0, tt = 0\<rparr>"

text \<open>The linear congruential step: computed in \<open>long long\<close>, reduced, stored as \<open>int\<close>.\<close>

definition lcg_step :: "nat \<Rightarrow> u32 list \<Rightarrow> u32 list" where
  "lcg_step i r =
     (let v = c_rem (16807 * sint (r ! (i - 1))) 2147483647;
          r = r[i := word_of_int v]
      in if sint (r ! i) < 0 then r[i := r ! i + 2147483647] else r)"

definition copy_step :: "nat \<Rightarrow> u32 list \<Rightarrow> u32 list" where
  "copy_step i r = r[i := r ! (i - 31)]"

definition add_step :: "nat \<Rightarrow> u32 list \<Rightarrow> u32 list" where
  "add_step i r = r[i := r ! (i - 31) + r ! (i - 3)]"

definition rand_init :: "rand_state \<Rightarrow> rand_state" where
  "rand_init st =
     (if initialize st then st
      else
        let r = (rr st)[0 := SEED];
            r = fold lcg_step [1..<31] r;
            r = fold copy_step [31..<34] r;
            r = fold add_step [34..<344] r
        in st\<lparr>rr := r, initialize := True\<rparr>)"

text \<open>A call; \<open>None\<close> when an index leaves the array.\<close>

definition rand :: "rand_state \<Rightarrow> (u64 \<times> rand_state) option" where
  "rand st =
     (let st = rand_init st;
          t = c_rem (tt st) 656
      in if t + 344 - 31 < 0 \<or> 1000 \<le> t + 344 then None
         else
           let i = nat (t + 344);
               r = add_step i (rr st);
               t = t + 1
           in Some ((scast (r ! nat (t - 1 + 344)) :: u64) mod 5 + 1, st\<lparr>rr := r, tt := t\<rparr>))"

primrec rand_calls :: "nat \<Rightarrow> rand_state \<Rightarrow> (u64 list \<times> rand_state) option" where
  "rand_calls 0 st = Some ([], st)"
| "rand_calls (Suc n) st =
     (case rand st of None \<Rightarrow> None
      | Some (v, st) \<Rightarrow>
          (case rand_calls n st of None \<Rightarrow> None | Some (vs, st) \<Rightarrow> Some (v # vs, st)))"

section \<open>The invariant\<close>

definition rand_inv :: "rand_state \<Rightarrow> bool" where
  "rand_inv st \<longleftrightarrow> length (rr st) = 1000 \<and> 0 \<le> tt st \<and> tt st \<le> 656"

lemma step_length [simp]:
  "length (lcg_step i r) = length r" "length (copy_step i r) = length r" "length (add_step i r) = length r"
  by (simp_all add: lcg_step_def copy_step_def add_step_def Let_def)

lemma fold_length: "(\<And>i r. length (f i r) = length r) \<Longrightarrow> length (fold f is r) = length r"
  by (induction "is" arbitrary: r) simp_all

lemma rand_init_inv: "rand_inv st \<Longrightarrow> rand_inv (rand_init st)"
  by (simp add: rand_inv_def rand_init_def Let_def fold_length del: upt_rec_numeral)

lemma rand_boot_inv: "rand_inv rand_boot"
  by (simp add: rand_inv_def rand_boot_def)

lemma mod5_bounds: "1 \<le> (w :: u64) mod 5 + 1 \<and> w mod 5 + 1 \<le> 5"
proof -
  have "unat (w mod 5) < 5" by (simp add: unat_mod)
  moreover from this have "unat (w mod 5 + 1) = unat (w mod 5) + 1" using unat_add_small [of "w mod 5" 1] by simp
  ultimately show ?thesis by (simp add: word_le_nat_alt)
qed

lemma rand_step:
  assumes "rand_inv st"
  shows "\<exists>v st'. rand st = Some (v, st') \<and> 1 \<le> v \<and> v \<le> 5 \<and> rand_inv st'"
proof -
  have i: "rand_inv (rand_init st)" using assms by (rule rand_init_inv)
  then have t: "c_rem (tt (rand_init st)) 656 = tt (rand_init st) mod 656"
    by (simp add: rand_inv_def c_rem_nonneg)
  have "0 \<le> tt (rand_init st) mod 656" "tt (rand_init st) mod 656 < 656" by simp_all
  then show ?thesis
    using i mod5_bounds by (auto simp: rand_def Let_def t rand_inv_def)
qed

section \<open>Properties\<close>

text \<open>
  Any number of calls of \<open>rand\<close> from the boot state stays inside the array \<open>r[1000]\<close> and returns
  values between \<open>PRIORITY_MIN\<close> (1) and \<open>PRIORITY_MAX\<close> (5).
\<close>

theorem rand_in_bounds:
  "\<exists>vs st. rand_calls n rand_boot = Some (vs, st) \<and> length vs = n \<and> (\<forall>v \<in> set vs. 1 \<le> v \<and> v \<le> 5)"
proof -
  have "\<exists>vs st'. rand_calls n st = Some (vs, st') \<and> length vs = n \<and> (\<forall>v \<in> set vs. 1 \<le> v \<and> v \<le> 5)"
    if "rand_inv st" for st
    using that
  proof (induction n arbitrary: st)
    case (Suc n)
    obtain v st' where v: "rand st = Some (v, st')" "1 \<le> v" "v \<le> 5" "rand_inv st'"
      using rand_step [OF Suc.prems] by blast
    obtain vs st'' where "rand_calls n st' = Some (vs, st'')" "length vs = n" "\<forall>v \<in> set vs. 1 \<le> v \<and> v \<le> 5"
      using Suc.IH [OF v(4)] by blast
    then show ?case using v by auto
  qed simp
  then show ?thesis using rand_boot_inv by blast
qed

end
