(* ===== verification/Yacc_Tables.thy ===== *)
theory Yacc_Tables
  imports Prelude
begin

text \<open>
  The data of the generated LALR(1) parser \<open>parser/minisql_yacc.c\<close>: the translation of token numbers,
  the grammar as the listing of right-hand sides that Bison leaves in the file, and the compressed
  action and goto tables. Symbols below \<open>YYNTOKENS\<close> are terminals. All entries are kept as integers;
  an array access outside its array yields \<open>None\<close>.
\<close>

definition fetch :: "int list \<Rightarrow> int \<Rightarrow> int option" where
  "fetch tab i = (if 0 \<le> i \<and> nat i < length tab then Some (tab ! nat i) else None)"

section \<open>Constants\<close>

abbreviation (input) YYFINAL :: int where "YYFINAL \<equiv> 53"

abbreviation (input) YYLAST :: int where "YYLAST \<equiv> 106"

abbreviation (input) YYNTOKENS :: int where "YYNTOKENS \<equiv> 54"

abbreviation (input) YYUNDEFTOK :: int where "YYUNDEFTOK \<equiv> 2"

abbreviation (input) YYMAXUTOK :: int where "YYMAXUTOK \<equiv> 301"

abbreviation (input) YYPACT_NINF :: int where "YYPACT_NINF \<equiv> -85"

abbreviation (input) YYTABLE_NINF :: int where "YYTABLE_NINF \<equiv> -1"

abbreviation (input) YYEMPTY :: int where "YYEMPTY \<equiv> -2"

abbreviation (input) YYEOF :: int where "YYEOF \<equiv> 0"

abbreviation (input) YYTERROR :: int where "YYTERROR \<equiv> 1"

abbreviation (input) YYINITDEPTH :: nat where "YYINITDEPTH \<equiv> 200"

abbreviation (input) YYMAXDEPTH :: nat where "YYMAXDEPTH \<equiv> 10000"

section \<open>Tables\<close>

definition yytranslate :: "int list" where
  "yytranslate = [
    0, 2, 2, 2, 2, 2, 2, 2, 2, 2, 2, 2, 2, 2, 2, 2, 2, 2, 2, 2, 2, 2, 2, 2, 2, 2, 2, 2, 2, 2, 2,
    2, 2, 2, 2, 2, 2, 2, 2, 2, 48, 49, 51, 2, 50, 2, 2, 2, 2, 2, 2, 2, 2, 2, 2, 2, 2, 2, 2, 47,
    52, 2, 53, 2, 2, 2, 2, 2, 2, 2, 2, 2, 2, 2, 2, 2, 2, 2, 2, 2, 2, 2, 2, 2, 2, 2, 2, 2, 2, 2, 2,
    2, 2, 2, 2, 2, 2, 2, 2, 2, 2, 2, 2, 2, 2, 2, 2, 2, 2, 2, 2, 2, 2, 2, 2, 2, 2, 2, 2, 2, 2, 2,
    2, 2, 2, 2, 2, 2, 2, 2, 2, 2, 2, 2, 2, 2, 2, 2, 2, 2, 2, 2, 2, 2, 2, 2, 2, 2, 2, 2, 2, 2, 2,
    2, 2, 2, 2, 2, 2, 2, 2, 2, 2, 2, 2, 2, 2, 2, 2, 2, 2, 2, 2, 2, 2, 2, 2, 2, 2, 2, 2, 2, 2, 2,
    2, 2, 2, 2, 2, 2, 2, 2, 2, 2, 2, 2, 2, 2, 2, 2, 2, 2, 2, 2, 2, 2, 2, 2, 2, 2, 2, 2, 2, 2, 2,
    2, 2, 2, 2, 2, 2, 2, 2, 2, 2, 2, 2, 2, 2, 2, 2, 2, 2, 2, 2, 2, 2, 2, 2, 2, 2, 2, 2, 2, 2, 2,
    2, 2, 2, 2, 2, 2, 2, 2, 2, 2, 1, 2, 3, 4, 5, 6, 7, 8, 9, 10, 11, 12, 13, 14, 15, 16, 17, 18,
    19, 20, 21, 22, 23, 24, 25, 26, 27, 28, 29, 30, 31, 32, 33, 34, 35, 36, 37, 38, 39, 40, 41,
    42, 43, 44, 45, 46]"

definition yyprhs :: "int list" where
  "yyprhs = [
    0, 0, 3, 6, 8, 10, 12, 14, 16, 18, 20, 22, 24, 26, 28, 30, 32, 34, 36, 38, 40, 42, 44, 48, 52,
    55, 58, 61, 68, 72, 74, 78, 80, 86, 90, 93, 95, 97, 102, 106, 115, 126, 130, 133, 138, 145,
    147, 149, 153, 155, 157, 159, 163, 165, 167, 169, 171, 173, 175, 177, 179, 181, 183, 185, 193,
    197, 199, 203, 209, 214, 221, 225, 227, 231, 233, 235, 237, 239]"

definition yyrhs :: "int list" where
  "yyrhs = [
    55, 0, - 1, 56, 47, - 1, 57, - 1, 58, - 1, 59, - 1, 60, - 1, 61, - 1, 62, - 1, 67, - 1, 68,
    - 1, 69, - 1, 70, - 1, 71, - 1, 78, - 1, 80, - 1, 81, - 1, 84, - 1, 85, - 1, 86, - 1, 87, - 1,
    88, - 1, 3, 17, 40, - 1, 4, 17, 40, - 1, 14, 18, - 1, 15, 40, - 1, 14, 20, - 1, 3, 19, 40, 48,
    64, 49, - 1, 40, 50, 63, - 1, 40, - 1, 65, 50, 64, - 1, 65, - 1, 29, 30, 48, 63, 49, - 1, 40,
    66, 31, - 1, 40, 66, - 1, 33, - 1, 34, - 1, 32, 48, 42, 49, - 1, 4, 19, 40, - 1, 3, 21, 40,
    23, 40, 48, 63, 49, - 1, 3, 21, 40, 23, 40, 48, 63, 49, 16, 40, - 1, 4, 21, 40, - 1, 14, 22,
    - 1, 5, 72, 24, 40, - 1, 5, 72, 24, 40, 25, 73, - 1, 51, - 1, 63, - 1, 73, 74, 75, - 1, 75,
    - 1, 35, - 1, 36, - 1, 40, 77, 76, - 1, 41, - 1, 42, - 1, 39, - 1, 43, - 1, 44, - 1, 45, - 1,
    46, - 1, 52, - 1, 53, - 1, 38, - 1, 37, - 1, 6, 26, 40, 28, 48, 79, 49, - 1, 76, 50, 79, - 1,
    76, - 1, 7, 24, 40, - 1, 7, 24, 40, 25, 73, - 1, 8, 40, 27, 82, - 1, 8, 40, 27, 82, 25, 73,
    - 1, 83, 50, 82, - 1, 83, - 1, 40, 43, 76, - 1, 9, - 1, 10, - 1, 11, - 1, 12, - 1, 13, 41,
    - 1]"

definition yyr1 :: "int list" where
  "yyr1 = [
    0, 54, 55, 56, 56, 56, 56, 56, 56, 56, 56, 56, 56, 56, 56, 56, 56, 56, 56, 56, 56, 56, 57, 58,
    59, 60, 61, 62, 63, 63, 64, 64, 64, 65, 65, 66, 66, 66, 67, 68, 68, 69, 70, 71, 71, 72, 72,
    73, 73, 74, 74, 75, 76, 76, 76, 77, 77, 77, 77, 77, 77, 77, 77, 78, 79, 79, 80, 80, 81, 81,
    82, 82, 83, 84, 85, 86, 87, 88]"

definition yyr2 :: "int list" where
  "yyr2 = [
    0, 2, 2, 1, 1, 1, 1, 1, 1, 1, 1, 1, 1, 1, 1, 1, 1, 1, 1, 1, 1, 1, 3, 3, 2, 2, 2, 6, 3, 1, 3,
    1, 5, 3, 2, 1, 1, 4, 3, 8, 10, 3, 2, 4, 6, 1, 1, 3, 1, 1, 1, 3, 1, 1, 1, 1, 1, 1, 1, 1, 1, 1,
    1, 7, 3, 1, 3, 5, 4, 6, 3, 1, 3, 1, 1, 1, 1, 2]"

definition yydefact :: "int list" where
  "yydefact = [
    0, 0, 0, 0, 0, 0, 0, 73, 74, 75, 76, 0, 0, 0, 0, 0, 3, 4, 5, 6, 7, 8, 9, 10, 11, 12, 13, 14,
    15, 16, 17, 18, 19, 20, 21, 0, 0, 0, 0, 0, 0, 29, 45, 46, 0, 0, 0, 0, 77, 24, 26, 42, 25, 1,
    2, 22, 0, 0, 23, 38, 41, 0, 0, 0, 66, 0, 0, 0, 28, 43, 0, 0, 0, 68, 71, 0, 0, 0, 31, 0, 0, 0,
    0, 67, 48, 0, 0, 0, 0, 0, 35, 36, 34, 27, 0, 0, 44, 54, 52, 53, 65, 0, 62, 61, 55, 56, 57, 58,
    59, 60, 0, 49, 50, 0, 72, 69, 70, 0, 0, 33, 30, 0, 0, 63, 51, 47, 0, 0, 39, 64, 32, 37, 0,
    40]"

definition yydefgoto :: "int list" where
  "yydefgoto = [
    - 1, 14, 15, 16, 17, 18, 19, 20, 21, 43, 77, 78, 92, 22, 23, 24, 25, 26, 44, 83, 113, 84, 100,
    110, 27, 101, 28, 29, 73, 74, 30, 31, 32, 33, 34]"

definition yypact :: "int list" where
  "yypact = [
    32, 2, 3, - 36, - 19, 8, - 7, - 85, - 85, - 85, - 85, 10, 7, 12, 53, 11, - 85, - 85, - 85,
    - 85, - 85, - 85, - 85, - 85, - 85, - 85, - 85, - 85, - 85, - 85, - 85, - 85, - 85, - 85,
    - 85, 14, 15, 17, 19, 20, 21, 13, - 85, - 85, 38, 24, 25, 39, - 85, - 85, - 85, - 85, - 85,
    - 85, - 85, - 85, 22, 44, - 85, - 85, - 85, 28, 29, 43, 47, 33, - 24, 34, - 85, 50, 30, 36,
    37, 52, 31, 49, 16, 35, 40, 41, 36, - 11, - 35, - 22, - 85, - 11, 36, 33, 45, 46, - 85, - 85,
    51, - 85, - 24, 28, - 22, - 85, - 85, - 85, 42, 48, - 85, - 85, - 85, - 85, - 85, - 85, - 85,
    - 85, - 11, - 85, - 85, 36, - 85, - 22, - 85, 28, 54, - 85, - 85, 55, - 11, - 85, - 85, - 85,
    56, 57, 67, - 85, - 85, - 85, 58, - 85]"

definition yypgoto :: "int list" where
  "yypgoto = [
    - 85, - 85, - 85, - 85, - 85, - 85, - 85, - 85, - 85, - 61, - 9, - 85, - 85, - 85, - 85, - 85,
    - 85, - 85, - 85, - 74, - 85, - 27, - 84, - 85, - 85, - 34, - 85, - 85, 0, - 85, - 85, - 85,
    - 85, - 85, - 85]"

definition yytable :: "int list" where
  "yytable = [
    68, 114, 102, 103, 41, 75, 96, 45, 104, 105, 106, 107, 115, 111, 112, 42, 76, 108, 109, 35,
    38, 36, 39, 37, 40, 49, 124, 50, 97, 51, 98, 99, 46, 47, 121, 1, 2, 3, 4, 5, 6, 7, 8, 9, 10,
    11, 12, 13, 89, 90, 91, 48, 52, 53, 55, 56, 126, 57, 54, 58, 59, 60, 62, 61, 63, 64, 65, 67,
    41, 69, 66, 70, 71, 72, 79, 80, 82, 86, 81, 88, 85, 87, 119, 132, 93, 120, 125, 116, 129, 95,
    94, 0, 122, 117, 118, 0, 127, 123, 133, 0, 0, 0, 0, 0, 128, 130, 131]"

definition yycheck :: "int list" where
  "yycheck = [
    61, 85, 37, 38, 40, 29, 80, 26, 43, 44, 45, 46, 86, 35, 36, 51, 40, 52, 53, 17, 17, 19, 19,
    21, 21, 18, 110, 20, 39, 22, 41, 42, 24, 40, 95, 3, 4, 5, 6, 7, 8, 9, 10, 11, 12, 13, 14, 15,
    32, 33, 34, 41, 40, 0, 40, 40, 117, 40, 47, 40, 40, 40, 24, 50, 40, 40, 27, 23, 40, 40, 48,
    28, 25, 40, 40, 25, 40, 25, 48, 30, 43, 50, 31, 16, 49, 94, 113, 87, 122, 48, 50, - 1, 50, 48,
    48, - 1, 42, 49, 40, - 1, - 1, - 1, - 1, - 1, 49, 49, 49]"

definition yystos :: "int list" where
  "yystos = [
    0, 3, 4, 5, 6, 7, 8, 9, 10, 11, 12, 13, 14, 15, 55, 56, 57, 58, 59, 60, 61, 62, 67, 68, 69,
    70, 71, 78, 80, 81, 84, 85, 86, 87, 88, 17, 19, 21, 17, 19, 21, 40, 51, 63, 72, 26, 24, 40,
    41, 18, 20, 22, 40, 0, 47, 40, 40, 40, 40, 40, 40, 50, 24, 40, 40, 27, 48, 23, 63, 40, 28, 25,
    40, 82, 83, 29, 40, 64, 65, 40, 25, 48, 40, 73, 75, 43, 25, 50, 30, 32, 33, 34, 66, 49, 50,
    48, 73, 39, 41, 42, 76, 79, 37, 38, 43, 44, 45, 46, 52, 53, 77, 35, 36, 74, 76, 73, 82, 48,
    48, 31, 64, 63, 50, 49, 76, 75, 63, 42, 49, 79, 49, 49, 16, 40]"

end
