(* ===== verification/Syntax_Tree.thy ===== *)
theory Syntax_Tree
  imports Prelude "HOL-Library.Monad_Syntax" "HOL-Library.Multiset"
begin

text \<open>
  The syntax tree of MiniSQL's parser: \<open>parser/syntax_tree.c\<close> and the parser's global state of
  \<open>parser/parser.c\<close>. Nodes live in a store of addresses; \<open>child_\<close> and \<open>next_\<close> are addresses or
  NULL (\<open>None\<close>), and the pointer walks of the code are loops over that store. An operation
  yields \<open>None\<close> where the C code dereferences NULL or a freed node, or leaves an array. The second
  half relates stores to trees: \<open>forest h p ts A\<close> says that the sibling list at \<open>p\<close> spells the trees
  \<open>ts\<close> with the nodes \<open>A\<close>, and \<open>holds\<close> says so of several lists that share no node.
\<close>

section \<open>Data\<close>

datatype SyntaxNodeType =
    kNodeUnknown
  | kNodeQuit
  | kNodeExecFile
  | kNodeIdentifier
  | kNodeNumber
  | kNodeString
  | kNodeNull
  | kNodeCreateDB
  | kNodeDropDB
  | kNodeShowDB
  | kNodeUseDB
  | kNodeShowTables
  | kNodeCreateTable
  | kNodeDropTable
  | kNodeShowIndexes
  | kNodeInsert
  | kNodeDelete
  | kNodeUpdate
  | kNodeSelect
  | kNodeConditions
  | kNodeConnector
  | kNodeCompareOperator
  | kNodeColumnType
  | kNodeColumnDefinition
  | kNodeColumnDefinitionList
  | kNodeColumnList
  | kNodeColumnValues
  | kNodeUpdateValues
  | kNodeUpdateValue
  | kNodeAllColumns
  | kNodeCreateIndex
  | kNodeDropIndex
  | kNodeIndexType
  | kNodeTrxBegin
  | kNodeTrxCommit
  | kNodeTrxRollback

text \<open>Fields of \<open>struct SyntaxNode\<close>; the trailing underscore of the C names is dropped.\<close>

record SyntaxNode =
  id_no :: int
  type_ix :: SyntaxNodeType
  line_no :: int
  col_no :: int
  child :: "nat option"
  sibling :: "nat option"
  val :: "string option"

text \<open>
  A message pointer designates a string literal, or an array of automatic storage of the function
  that made it.
\<close>

datatype message = Literal string | Automatic string

datatype report = Not_Null_Report | Error_Report int int message

text \<open>
  The globals of \<open>parser.c\<close>, the node store with the next address that \<open>malloc\<close> returns, and what
  was printed. \<open>node_list\<close> is \<open>minisql_parser_syntax_node_list_\<close>, newest first.
\<close>

record parser_state =
  root_node :: "nat option"
  node_list :: "nat list"
  line :: int
  column :: int
  error :: bool
  error_message :: "message option"
  node_count :: int
  store :: "nat \<rightharpoonup> SyntaxNode"
  fresh :: nat
  printed :: "report list"

section \<open>Operations of syntax_tree.c\<close>

text \<open>
  The copy of \<open>val\<close>: \<open>strlen(val) - 1\<close> and \<open>len - 1\<close> are of type \<open>size_t\<close> and wrap for a string
  shorter than two characters, which sends \<open>strncpy\<close> out of the allocated block.
\<close>

definition copy_val :: "SyntaxNodeType \<Rightarrow> string option \<Rightarrow> string option option" where
  "copy_val type v = (case v of
       None \<Rightarrow> Some None
     | Some s \<Rightarrow>
         if type = kNodeString
         then (if length s < 2 then None else Some (Some (take (length s - 2) (drop 1 s))))
         else Some (Some s))"

definition CreateSyntaxNode ::
    "SyntaxNodeType \<Rightarrow> string option \<Rightarrow> parser_state \<Rightarrow> (nat \<times> parser_state) option" where
  "CreateSyntaxNode type v g = do {
     w \<leftarrow> copy_val type v;
     let a = fresh g;
     let node = \<lparr>id_no = node_count g, type_ix = type, line_no = line g, col_no = column g,
                 child = None, sibling = None, val = w\<rparr>;
     Some (a, g\<lparr>node_count := node_count g + 1, store := (store g)(a \<mapsto> node),
                fresh := a + 1, node_list := a # node_list g\<rparr>)
   }"

definition FreeSyntaxNode :: "nat option \<Rightarrow> parser_state \<Rightarrow> parser_state option" where
  "FreeSyntaxNode node g = (case node of
       None \<Rightarrow> Some g
     | Some a \<Rightarrow> (case store g a of
           None \<Rightarrow> None
         | Some n \<Rightarrow> Some (g\<lparr>store := (store g)(a := None)\<rparr>)))"

fun free_all :: "nat list \<Rightarrow> parser_state \<Rightarrow> parser_state option" where
  "free_all [] g = Some g"
| "free_all (a # p) g = do { g' \<leftarrow> FreeSyntaxNode (Some a) g; free_all p g' }"

definition DestroySyntaxTree :: "parser_state \<Rightarrow> parser_state option" where
  "DestroySyntaxTree g = do { g' \<leftarrow> free_all (node_list g) g; Some (g'\<lparr>node_list := []\<rparr>) }"

text \<open>\<open>while (p->next_ != NULL) p = p->next_\<close>: the walk does not end on a cyclic list.\<close>

partial_function (option) last_sibling :: "(nat \<rightharpoonup> SyntaxNode) \<Rightarrow> nat \<Rightarrow> nat option" where
  "last_sibling h p = (case h p of
       None \<Rightarrow> None
     | Some n \<Rightarrow> (case sibling n of None \<Rightarrow> Some p | Some q \<Rightarrow> last_sibling h q))"

definition set_child :: "nat \<Rightarrow> nat option \<Rightarrow> parser_state \<Rightarrow> parser_state option" where
  "set_child a p g = do { n \<leftarrow> store g a; Some (g\<lparr>store := (store g)(a \<mapsto> n\<lparr>child := p\<rparr>)\<rparr>) }"

definition set_sibling :: "nat \<Rightarrow> nat option \<Rightarrow> parser_state \<Rightarrow> parser_state option" where
  "set_sibling a p g = do { n \<leftarrow> store g a; Some (g\<lparr>store := (store g)(a \<mapsto> n\<lparr>sibling := p\<rparr>)\<rparr>) }"

definition SyntaxNodeAddChildren ::
    "nat option \<Rightarrow> nat option \<Rightarrow> parser_state \<Rightarrow> parser_state option" where
  "SyntaxNodeAddChildren parent ch g = do {
     a \<leftarrow> parent;
     n \<leftarrow> store g a;
     (case child n of
        None \<Rightarrow> set_child a ch g
      | Some p \<Rightarrow> do { q \<leftarrow> last_sibling (store g) p; set_sibling q ch g })
   }"

definition SyntaxNodeAddSibling ::
    "nat option \<Rightarrow> nat option \<Rightarrow> parser_state \<Rightarrow> parser_state option" where
  "SyntaxNodeAddSibling node sib g = (case (node, sib) of
       (Some a, Some b) \<Rightarrow> do {
         n \<leftarrow> store g a;
         (case sibling n of
            None \<Rightarrow> set_sibling a (Some b) g
          | Some p \<Rightarrow> do { q \<leftarrow> last_sibling (store g) p; set_sibling q (Some b) g })
       }
     | _ \<Rightarrow> Some g)"

fun GetSyntaxNodeTypeStr :: "SyntaxNodeType \<Rightarrow> string" where
  "GetSyntaxNodeTypeStr kNodeUnknown = ''kNodeUnknown''"
| "GetSyntaxNodeTypeStr kNodeQuit = ''kNodeQuit''"
| "GetSyntaxNodeTypeStr kNodeExecFile = ''kNodeExecFile''"
| "GetSyntaxNodeTypeStr kNodeIdentifier = ''kNodeIdentifier''"
| "GetSyntaxNodeTypeStr kNodeNumber = ''kNodeNumber''"
| "GetSyntaxNodeTypeStr kNodeString = ''kNodeString''"
| "GetSyntaxNodeTypeStr kNodeNull = ''kNodeNull''"
| "GetSyntaxNodeTypeStr kNodeCreateDB = ''kNodeCreateDB''"
| "GetSyntaxNodeTypeStr kNodeDropDB = ''kNodeDropDB''"
| "GetSyntaxNodeTypeStr kNodeShowDB = ''kNodeShowDB''"
| "GetSyntaxNodeTypeStr kNodeUseDB = ''kNodeUseDB''"
| "GetSyntaxNodeTypeStr kNodeShowTables = ''kNodeShowTables''"
| "GetSyntaxNodeTypeStr kNodeCreateTable = ''kNodeCreateTable''"
| "GetSyntaxNodeTypeStr kNodeDropTable = ''kNodeDropTable''"
| "GetSyntaxNodeTypeStr kNodeShowIndexes = ''kNodeShowIndexes''"
| "GetSyntaxNodeTypeStr kNodeInsert = ''kNodeInsert''"
| "GetSyntaxNodeTypeStr kNodeDelete = ''kNodeDelete''"
| "GetSyntaxNodeTypeStr kNodeUpdate = ''kNodeUpdate''"
| "GetSyntaxNodeTypeStr kNodeSelect = ''kNodeSelect''"
| "GetSyntaxNodeTypeStr kNodeConditions = ''kNodeConditions''"
| "GetSyntaxNodeTypeStr kNodeConnector = ''kNodeConnector''"
| "GetSyntaxNodeTypeStr kNodeCompareOperator = ''kNodeCompareOperator''"
| "GetSyntaxNodeTypeStr kNodeColumnType = ''kNodeColumnType''"
| "GetSyntaxNodeTypeStr kNodeColumnDefinition = ''kNodeColumnDefinition''"
| "GetSyntaxNodeTypeStr kNodeColumnDefinitionList = ''kNodeColumnDefinitionList''"
| "GetSyntaxNodeTypeStr kNodeColumnList = ''kNodeColumnList''"
| "GetSyntaxNodeTypeStr kNodeColumnValues = ''kNodeColumnValues''"
| "GetSyntaxNodeTypeStr kNodeUpdateValues = ''kNodeUpdateValues''"
| "GetSyntaxNodeTypeStr kNodeUpdateValue = ''kNodeUpdateValue''"
| "GetSyntaxNodeTypeStr kNodeAllColumns = ''kNodeAllColumns''"
| "GetSyntaxNodeTypeStr kNodeCreateIndex = ''kNodeCreateIndex''"
| "GetSyntaxNodeTypeStr kNodeDropIndex = ''kNodeDropIndex''"
| "GetSyntaxNodeTypeStr kNodeTrxBegin = ''kNodeTrxBegin''"
| "GetSyntaxNodeTypeStr kNodeTrxCommit = ''kNodeTrxCommit''"
| "GetSyntaxNodeTypeStr kNodeTrxRollback = ''kNodeTrxRollback''"
| "GetSyntaxNodeTypeStr kNodeIndexType = ''error type''"

section \<open>Operations of parser.c\<close>

primrec MinisqlParserMovePos :: "string \<Rightarrow> parser_state \<Rightarrow> parser_state" where
  "MinisqlParserMovePos [] g = g"
| "MinisqlParserMovePos (ch # text) g = MinisqlParserMovePos text
     (if ch = CHR 0x0A then g\<lparr>column := 0, line := line g + 1\<rparr>
      else if ch = CHR 0x09 then g\<lparr>column := column g + (4 - column g mod 4)\<rparr>
      else g\<lparr>column := column g + 1\<rparr>)"

definition MinisqlParserSetRoot :: "nat option \<Rightarrow> parser_state \<Rightarrow> parser_state" where
  "MinisqlParserSetRoot node g = g\<lparr>root_node := node\<rparr>"

definition MinisqlParserSetError :: "message \<Rightarrow> parser_state \<Rightarrow> parser_state" where
  "MinisqlParserSetError msg g =
     (if error g then g
      else g\<lparr>error := True,
             printed := printed g @ (if error_message g \<noteq> None then [Not_Null_Report] else [])
                        @ [Error_Report (line g) (column g) msg],
             error_message := Some msg\<rparr>)"

definition MinisqlGetParserRootNode :: "parser_state \<Rightarrow> nat option" where
  "MinisqlGetParserRootNode g = root_node g"

definition MinisqlParserInit :: "parser_state \<Rightarrow> parser_state" where
  "MinisqlParserInit g = g\<lparr>root_node := None, line := 1, column := 0, error := False,
                          error_message := None, node_count := 0\<rparr>"

definition MinisqlParserFinish :: "parser_state \<Rightarrow> parser_state option" where
  "MinisqlParserFinish g = DestroySyntaxTree g"

definition MinisqlParserGetError :: "parser_state \<Rightarrow> int" where
  "MinisqlParserGetError g = (if error g then 1 else 0)"

definition MinisqlParserGetErrorMessage :: "parser_state \<Rightarrow> message option" where
  "MinisqlParserGetErrorMessage g = error_message g"

text \<open>The globals before the first statement: zero, as static storage is.\<close>

definition parser_zero :: parser_state where
  "parser_zero = \<lparr>root_node = None, node_list = [], line = 0, column = 0, error = False,
                  error_message = None, node_count = 0, store = Map.empty, fresh = 1,
                  printed = []\<rparr>"

section \<open>Trees in the store\<close>

datatype ast = Node SyntaxNodeType "string option" "ast list"

inductive forest :: "(nat \<rightharpoonup> SyntaxNode) \<Rightarrow> nat option \<Rightarrow> ast list \<Rightarrow> nat list \<Rightarrow> bool" where
  forest_nil: "forest h None [] []"
| forest_cons: "\<lbrakk>h a = Some n; forest h (child n) cs C; forest h (sibling n) ts S;
    distinct (a # C @ S)\<rbrakk>
    \<Longrightarrow> forest h (Some a) (Node (type_ix n) (val n) cs # ts) (a # C @ S)"

inductive_cases forest_NoneE: "forest h None ts A"
inductive_cases forest_SomeE: "forest h (Some a) ts A"
inductive_cases forest_NilE: "forest h p [] A"
inductive_cases forest_ConsE: "forest h p (t # ts) A"

text \<open>
  \<open>wf_nodes\<close>: the node list names every live node once, and no live node is at a fresh address.
  \<open>holds\<close>: several sibling lists at once, with pairwise disjoint nodes.
\<close>

definition wf_nodes :: "parser_state \<Rightarrow> bool" where
  "wf_nodes g \<longleftrightarrow> distinct (node_list g) \<and> set (node_list g) = dom (store g)
     \<and> dom (store g) \<subseteq> {..< fresh g}"

definition holds :: "parser_state \<Rightarrow> (nat option \<times> ast list) list \<Rightarrow> bool" where
  "holds g L \<longleftrightarrow> wf_nodes g
     \<and> (\<exists>As. list_all2 (\<lambda>(p, ts). forest (store g) p ts) L As \<and> distinct (concat As))"

lemma forest_dom: "forest h p ts A \<Longrightarrow> set A \<subseteq> dom h"
  by (induction rule: forest.induct) auto

lemma forest_distinct: "forest h p ts A \<Longrightarrow> distinct A"
  by (induction rule: forest.induct) auto

lemma forest_frame:
  "forest h p ts A \<Longrightarrow> \<forall>a\<in>set A. h' a = h a \<Longrightarrow> forest h' p ts A"
proof (induction rule: forest.induct)
  case (forest_cons h a n cs C ts S)
  then show ?case using forest.forest_cons [of h' a n cs C ts S] by simp
qed (rule forest_nil)

lemma forest_leaf:
  assumes "h a = Some n" "child n = None" "sibling n = None" "type_ix n = ty" "val n = w"
  shows "forest h (Some a) [Node ty w []] [a]"
  using forest_cons [of h a n "[]" "[]" "[]" "[]"] assms by (simp add: forest_nil)

lemma forest_empty: "forest h p [] A \<longleftrightarrow> p = None \<and> A = []"
  by (auto intro: forest_nil elim: forest_NilE)

lemma forest_upd: "forest h p ts A \<Longrightarrow> a \<notin> set A \<Longrightarrow> forest (h(a \<mapsto> n)) p ts A"
  by (rule forest_frame) auto

text \<open>The walk over the siblings ends at the last one; hanging a list there appends it.\<close>

lemma forest_last:
  assumes "forest h p ts A" "p = Some a"
  shows "\<exists>l n. last_sibling h a = Some l \<and> h l = Some n \<and> sibling n = None \<and> l \<in> set A
    \<and> (\<forall>q us B. forest h q us B \<longrightarrow> set A \<inter> set B = {} \<longrightarrow>
         (\<exists>A'. forest (h(l \<mapsto> n\<lparr>sibling := q\<rparr>)) p (ts @ us) A' \<and> set A' = set A \<union> set B))"
  using assms
proof (induction arbitrary: a rule: forest.induct)
  case (forest_cons h a n cs C ts S b)
  from forest_cons.prems have [simp]: "b = a" by simp
  show ?case
  proof (cases "sibling n")
    case None
    then have [simp]: "ts = []" "S = []"
      using forest_cons.hyps(3) by (auto elim: forest_NoneE)
    have "\<exists>A'. forest (h(a \<mapsto> n\<lparr>sibling := q\<rparr>)) (Some a) ((Node (type_ix n) (val n) cs # ts) @ us) A'
        \<and> set A' = set (a # C @ S) \<union> set B"
      if q: "forest h q us B" "set (a # C @ S) \<inter> set B = {}" for q us B
    proof (intro exI conjI)
      let ?h = "h(a \<mapsto> n\<lparr>sibling := q\<rparr>)"
      have "forest ?h (child n) cs C" "forest ?h q us B"
        using forest_cons q by (auto intro: forest_upd)
      then show "forest ?h (Some a) ((Node (type_ix n) (val n) cs # ts) @ us) (a # C @ B)"
        using forest.forest_cons [of ?h a "n\<lparr>sibling := q\<rparr>" cs C us B] forest_cons.hyps(4) q
          forest_distinct [OF q(1)] by auto
    qed auto
    moreover have "last_sibling h b = Some a"
      using None forest_cons.hyps(1) by (simp add: last_sibling.simps)
    ultimately show ?thesis using None forest_cons.hyps(1) by (metis list.set_intros(1))
  next
    case (Some c)
    from forest_cons.IH(2) [OF this] obtain l m where l: "last_sibling h c = Some l" "h l = Some m"
      "sibling m = None" "l \<in> set S"
      and ext: "\<And>q us B. forest h q us B \<Longrightarrow> set S \<inter> set B = {} \<Longrightarrow>
         \<exists>A'. forest (h(l \<mapsto> m\<lparr>sibling := q\<rparr>)) (sibling n) (ts @ us) A' \<and> set A' = set S \<union> set B"
      by blast
    have "\<exists>A'. forest (h(l \<mapsto> m\<lparr>sibling := q\<rparr>)) (Some a) ((Node (type_ix n) (val n) cs # ts) @ us) A'
        \<and> set A' = set (a # C @ S) \<union> set B"
      if q: "forest h q us B" "set (a # C @ S) \<inter> set B = {}" for q us B
    proof -
      let ?h = "h(l \<mapsto> m\<lparr>sibling := q\<rparr>)"
      obtain A' where A': "forest ?h (sibling n) (ts @ us) A'" "set A' = set S \<union> set B"
        using ext [OF q(1)] q(2) by auto
      have ne: "l \<noteq> a" "l \<notin> set C" using forest_cons.hyps(4) l(4) by auto
      have "forest ?h (child n) cs C" using forest_cons.hyps(2) ne by (auto intro: forest_upd)
      then have "forest ?h (Some a) (Node (type_ix n) (val n) cs # (ts @ us)) (a # C @ A')"
        using forest.forest_cons [of ?h a n cs C "ts @ us" A'] A' forest_cons.hyps(1,4) ne q(2)
          forest_distinct [OF A'(1)] by auto
      then show ?thesis using A'(2) by (intro exI [of _ "a # C @ A'"]) auto
    qed
    moreover have "last_sibling h b' = Some l" if "b' = a" for b'
      using l Some forest_cons.hyps(1) that by (simp add: last_sibling.simps [of _ a])
    moreover have "l \<in> set (a # C @ S)" using l(4) by simp
    ultimately show ?thesis using l(2,3) by (metis \<open>b = a\<close>)
  qed
qed simp

lemma forest_append:
  assumes "forest h (Some a) ts A" "forest h q us B" "set A \<inter> set B = {}"
  obtains l m A' where "last_sibling h a = Some l" "h l = Some m" "l \<in> set A"
    "forest (h(l \<mapsto> m\<lparr>sibling := q\<rparr>)) (Some a) (ts @ us) A'" "set A' = set A \<union> set B"
proof -
  obtain l m where l: "last_sibling h a = Some l" "h l = Some m" "l \<in> set A"
    and ext: "\<forall>q us B. forest h q us B \<longrightarrow> set A \<inter> set B = {} \<longrightarrow>
         (\<exists>A'. forest (h(l \<mapsto> m\<lparr>sibling := q\<rparr>)) (Some a) (ts @ us) A' \<and> set A' = set A \<union> set B)"
    using forest_last [OF assms(1) refl] by (elim exE conjE)
  from ext [rule_format, OF assms(2,3)] show ?thesis by (elim exE conjE) (rule that [OF l])
qed

lemma holds_wf: "holds g L \<Longrightarrow> wf_nodes g"
  by (simp add: holds_def)

lemma holds_Nil: "holds g [] \<longleftrightarrow> wf_nodes g"
  by (auto simp: holds_def)

lemma distinct_concat_mset:
  assumes "mset As = mset Bs"
  shows "distinct (concat As) \<longleftrightarrow> distinct (concat Bs)"
proof (rule mset_eq_imp_distinct_iff)
  have "mset (concat Cs) = sum_mset (image_mset mset (mset Cs))" for Cs :: "'a list list"
    by (induction Cs) auto
  with assms show "mset (concat As) = mset (concat Bs)" by simp
qed

lemma holds_perm:
  assumes "holds g L" "mset L' = mset L"
  shows "holds g L'"
proof -
  obtain As where "list_all2 (\<lambda>(p, ts). forest (store g) p ts) L As" "distinct (concat As)"
    using assms(1) by (auto simp: holds_def)
  with list_all2_reorder_left_invariance [OF this(1) assms(2)] assms(1) show ?thesis
    unfolding holds_def by (metis distinct_concat_mset)
qed

lemma holds_Cons:
  "holds g ((p, ts) # L) \<longleftrightarrow> wf_nodes g \<and>
    (\<exists>A As. forest (store g) p ts A \<and> list_all2 (\<lambda>(p, ts). forest (store g) p ts) L As
       \<and> distinct (A @ concat As))"
proof
  assume "holds g ((p, ts) # L)"
  then obtain Bs where wf: "wf_nodes g"
    and Bs: "list_all2 (\<lambda>(p, ts). forest (store g) p ts) ((p, ts) # L) Bs" "distinct (concat Bs)"
    by (auto simp: holds_def)
  from Bs(1) obtain A As where "Bs = A # As" "forest (store g) p ts A"
    "list_all2 (\<lambda>(p, ts). forest (store g) p ts) L As"
    by (cases Bs) auto
  with wf Bs(2) show "wf_nodes g \<and> (\<exists>A As. forest (store g) p ts A
      \<and> list_all2 (\<lambda>(p, ts). forest (store g) p ts) L As \<and> distinct (A @ concat As))"
    by (intro conjI exI [of _ A] exI [of _ As]) simp_all
next
  assume "wf_nodes g \<and> (\<exists>A As. forest (store g) p ts A
      \<and> list_all2 (\<lambda>(p, ts). forest (store g) p ts) L As \<and> distinct (A @ concat As))"
  then obtain A As where "wf_nodes g" "forest (store g) p ts A"
    "list_all2 (\<lambda>(p, ts). forest (store g) p ts) L As" "distinct (A @ concat As)" by blast
  then show "holds g ((p, ts) # L)" unfolding holds_def by (intro conjI exI [of _ "A # As"]) simp_all
qed

lemma holds_drop: "holds g (x # L) \<Longrightarrow> holds g L"
  by (cases x) (force simp: holds_Cons holds_def [of g L])

lemma list_all2_frame:
  assumes "list_all2 (\<lambda>(p, ts). forest h p ts) L As" "\<forall>a\<in>set (concat As). h' a = h a"
  shows "list_all2 (\<lambda>(p, ts). forest h' p ts) L As"
  using assms by (induction rule: list_all2_induct) (auto intro: forest_frame)

text \<open>Globals that the tree operations leave alone.\<close>

definition same_globals :: "parser_state \<Rightarrow> parser_state \<Rightarrow> bool" where
  "same_globals g g' \<longleftrightarrow> root_node g' = root_node g \<and> error g' = error g
     \<and> error_message g' = error_message g \<and> printed g' = printed g
     \<and> line g' = line g \<and> column g' = column g"

lemma same_globals_refl [simp]: "same_globals g g"
  by (simp add: same_globals_def)

lemma same_globals_trans: "same_globals g g' \<Longrightarrow> same_globals g' g'' \<Longrightarrow> same_globals g g''"
  by (simp add: same_globals_def)

lemma create_holds:
  assumes "holds g L" "copy_val ty v = Some w"
  shows "\<exists>a g'. CreateSyntaxNode ty v g = Some (a, g') \<and> same_globals g g'
    \<and> holds g' ((Some a, [Node ty w []]) # L)"
proof -
  let ?n = "\<lparr>id_no = node_count g, type_ix = ty, line_no = line g, col_no = column g,
             child = None, sibling = None, val = w\<rparr>"
  obtain As where As: "list_all2 (\<lambda>(p, ts). forest (store g) p ts) L As" "distinct (concat As)"
    and wf: "wf_nodes g" using assms(1) by (auto simp: holds_def)
  have dom: "set (concat As) \<subseteq> dom (store g)"
    using As(1) by (induction rule: list_all2_induct) (auto dest: forest_dom)
  then have fr: "fresh g \<notin> set (concat As)" "fresh g \<notin> dom (store g)" using wf by (auto simp: wf_nodes_def)
  let ?h = "(store g)(fresh g \<mapsto> ?n)"
  have "forest ?h (Some (fresh g)) [Node ty w []] [fresh g]"
    by (rule forest_leaf [where n = ?n]) simp_all
  moreover have "list_all2 (\<lambda>(p, ts). forest ?h p ts) L As"
    by (rule list_all2_frame [OF As(1)]) (use fr in auto)
  moreover have "wf_nodes (g\<lparr>node_count := node_count g + 1, store := ?h, fresh := fresh g + 1,
      node_list := fresh g # node_list g\<rparr>)"
    using wf fr(2) by (auto simp: wf_nodes_def)
  moreover have "distinct ([fresh g] @ concat As)" using As(2) fr(1) by simp
  ultimately have "holds (g\<lparr>node_count := node_count g + 1, store := ?h, fresh := fresh g + 1,
      node_list := fresh g # node_list g\<rparr>) ((Some (fresh g), [Node ty w []]) # L)"
    unfolding holds_Cons by (intro conjI exI [of _ "[fresh g]"] exI [of _ As]) simp_all
  then show ?thesis using assms(2) by (simp add: CreateSyntaxNode_def same_globals_def Let_def)
qed

lemma wf_nodes_store:
  "wf_nodes g \<Longrightarrow> a \<in> dom (store g) \<Longrightarrow> wf_nodes (g\<lparr>store := (store g)(a \<mapsto> n)\<rparr>)"
  by (auto simp: wf_nodes_def)

lemma set_sibling_ok:
  "store g a = Some n \<Longrightarrow> set_sibling a p g = Some (g\<lparr>store := (store g)(a \<mapsto> n\<lparr>sibling := p\<rparr>)\<rparr>)"
  by (simp add: set_sibling_def)

text \<open>An update at a node of the first list leaves the lists behind it in place.\<close>

lemma holds_update:
  assumes "wf_nodes g" "list_all2 (\<lambda>(p, ts). forest (store g) p ts) L As" "distinct (concat As)"
    and "l \<in> dom (store g)" "l \<notin> set (concat As)"
    and "forest ((store g)(l \<mapsto> n)) p ts A" "set A \<inter> set (concat As) = {}"
  shows "holds (g\<lparr>store := (store g)(l \<mapsto> n)\<rparr>) ((p, ts) # L)"
proof -
  have "list_all2 (\<lambda>(p, ts). forest ((store g)(l \<mapsto> n)) p ts) L As"
    by (rule list_all2_frame [OF assms(2)]) (use assms(5) in auto)
  then show ?thesis
    using assms forest_distinct [OF assms(6)] wf_nodes_store [OF assms(1,4)] by (auto simp: holds_Cons)
qed

lemma add_children_holds:
  assumes "holds g ((Some a, [Node ty w cs]) # (q, us) # L)"
  shows "\<exists>g'. SyntaxNodeAddChildren (Some a) q g = Some g' \<and> same_globals g g'
    \<and> holds g' ((Some a, [Node ty w (cs @ us)]) # L)"
proof -
  obtain A B As where A: "forest (store g) (Some a) [Node ty w cs] A" and B: "forest (store g) q us B"
    and As: "list_all2 (\<lambda>(p, ts). forest (store g) p ts) L As" and wf: "wf_nodes g"
    and dis: "distinct (A @ B @ concat As)"
  proof -
    obtain A Bs where "forest (store g) (Some a) [Node ty w cs] A" "wf_nodes g"
      "list_all2 (\<lambda>(p, ts). forest (store g) p ts) ((q, us) # L) Bs" "distinct (A @ concat Bs)"
      using assms unfolding holds_Cons [of g "Some a"] by blast
    then show ?thesis by (cases Bs) (auto intro!: that)
  qed
  from A obtain n C where n: "store g a = Some n" "type_ix n = ty" "val n = w" "sibling n = None"
    and C: "forest (store g) (child n) cs C" and AC: "A = a # C"
    by (cases rule: forest_SomeE) (auto simp: forest_empty)
  let ?h = "store g"
  show ?thesis
  proof (cases "child n")
    case None
    then have [simp]: "cs = []" "C = []" using C by (auto elim: forest_NoneE)
    let ?n = "n\<lparr>child := q\<rparr>"
    have "forest (?h(a \<mapsto> ?n)) q us B" using B dis AC by (auto intro: forest_upd)
    then have "forest (?h(a \<mapsto> ?n)) (Some a) [Node ty w us] (a # B)"
      using forest_cons [of "?h(a \<mapsto> ?n)" a ?n us B "[]" "[]"] n dis AC forest_distinct [OF B]
      by (simp add: forest_nil)
    then have "holds (g\<lparr>store := ?h(a \<mapsto> ?n)\<rparr>) ((Some a, [Node ty w us]) # L)"
      by (rule holds_update [OF wf As, rotated 3]) (use dis AC n(1) in auto)
    then show ?thesis using n None
      by (simp add: SyntaxNodeAddChildren_def set_child_def same_globals_def)
  next
    case (Some p)
    have "forest ?h (Some p) cs C" "set C \<inter> set B = {}" using C Some dis AC by auto
    then obtain l m C' where l: "last_sibling ?h p = Some l" "?h l = Some m" "l \<in> set C"
      and C': "forest (?h(l \<mapsto> m\<lparr>sibling := q\<rparr>)) (Some p) (cs @ us) C'" "set C' = set C \<union> set B"
      by (rule forest_append [OF _ B])
    have "a \<noteq> l" using l(3) dis AC by auto
    then have "forest (?h(l \<mapsto> m\<lparr>sibling := q\<rparr>)) (Some a) [Node ty w (cs @ us)] (a # C')"
      using forest_cons [of "?h(l \<mapsto> m\<lparr>sibling := q\<rparr>)" a n "cs @ us" C' "[]" "[]"] n C' dis AC l(3) Some
        forest_distinct [OF C'(1)] by (auto simp: forest_nil)
    then have "holds (g\<lparr>store := ?h(l \<mapsto> m\<lparr>sibling := q\<rparr>)\<rparr>) ((Some a, [Node ty w (cs @ us)]) # L)"
      by (rule holds_update [OF wf As, rotated 3]) (use dis AC l C' in auto)
    then show ?thesis using n Some l
      by (simp add: SyntaxNodeAddChildren_def set_sibling_def same_globals_def)
  qed
qed

lemma add_sibling_holds:
  assumes "holds g ((Some a, ts) # (Some b, us) # L)"
  shows "\<exists>g'. SyntaxNodeAddSibling (Some a) (Some b) g = Some g' \<and> same_globals g g'
    \<and> holds g' ((Some a, ts @ us) # L)"
proof -
  obtain A B As where A: "forest (store g) (Some a) ts A" and B: "forest (store g) (Some b) us B"
    and As: "list_all2 (\<lambda>(p, ts). forest (store g) p ts) L As" and wf: "wf_nodes g"
    and dis: "distinct (A @ B @ concat As)"
  proof -
    obtain A Bs where "forest (store g) (Some a) ts A" "wf_nodes g"
      "list_all2 (\<lambda>(p, ts). forest (store g) p ts) ((Some b, us) # L) Bs" "distinct (A @ concat Bs)"
      using assms unfolding holds_Cons [of g "Some a"] by blast
    then show ?thesis by (cases Bs) (auto intro!: that)
  qed
  let ?h = "store g"
  have "set A \<inter> set B = {}" using dis by auto
  then obtain l m A' where l: "last_sibling ?h a = Some l" "?h l = Some m" "l \<in> set A"
    and A': "forest (?h(l \<mapsto> m\<lparr>sibling := Some b\<rparr>)) (Some a) (ts @ us) A'" "set A' = set A \<union> set B"
    by (rule forest_append [OF A B])
  have "holds (g\<lparr>store := ?h(l \<mapsto> m\<lparr>sibling := Some b\<rparr>)\<rparr>) ((Some a, ts @ us) # L)"
    by (rule holds_update [OF wf As _ _ _ A'(1)]) (use dis l A'(2) in auto)
  moreover obtain n where n: "?h a = Some n"
    using A by (cases rule: forest_SomeE) auto
  have "SyntaxNodeAddSibling (Some a) (Some b) g
      = Some (g\<lparr>store := ?h(l \<mapsto> m\<lparr>sibling := Some b\<rparr>)\<rparr>)"
  proof (cases "sibling n")
    case None
    then show ?thesis using n l(1,2)
      by (simp add: SyntaxNodeAddSibling_def set_sibling_def last_sibling.simps [of _ a])
  next
    case (Some p)
    then show ?thesis using n l(1,2)
      by (simp add: SyntaxNodeAddSibling_def set_sibling_def last_sibling.simps [of _ a])
  qed
  ultimately show ?thesis by (simp add: same_globals_def)
qed

text \<open>Moving the position touches the line and the column only.\<close>

lemma MovePos_sel [simp]:
  "store (MinisqlParserMovePos w g) = store g" "node_list (MinisqlParserMovePos w g) = node_list g"
  "fresh (MinisqlParserMovePos w g) = fresh g" "root_node (MinisqlParserMovePos w g) = root_node g"
  "error (MinisqlParserMovePos w g) = error g" "error_message (MinisqlParserMovePos w g) = error_message g"
  "printed (MinisqlParserMovePos w g) = printed g"
  by (induction w arbitrary: g) auto

lemma MovePos_holds [simp]: "holds (MinisqlParserMovePos w g) L \<longleftrightarrow> holds g L"
  by (simp add: holds_def wf_nodes_def)

section \<open>Releasing the tree\<close>

lemma free_all_clears:
  assumes "distinct as" "set as \<subseteq> dom (store g)"
  shows "free_all as g = Some (g\<lparr>store := (store g) |` (- set as)\<rparr>)"
  using assms
proof (induction as arbitrary: g)
  case Nil
  have "(store g) |` UNIV = store g" by (simp add: restrict_map_def)
  then show ?case by simp
next
  case (Cons a as)
  then have "(store g)(a := None) |` (- set as) = (store g) |` (- set (a # as))"
    by (auto simp: restrict_map_def)
  moreover have "\<exists>n. store g a = Some n" "set as \<subseteq> dom ((store g)(a := None))"
    using Cons.prems by auto
  ultimately show ?case using Cons.IH [of "g\<lparr>store := (store g)(a := None)\<rparr>"] Cons.prems
    by (auto simp: FreeSyntaxNode_def simp del: fun_upd_apply)
qed

lemma finish_clears:
  assumes "wf_nodes g"
  shows "\<exists>g'. MinisqlParserFinish g = Some g' \<and> store g' = Map.empty \<and> node_list g' = []
    \<and> wf_nodes g' \<and> same_globals g g'"
proof -
  have "(store g) |` (- set (node_list g)) = Map.empty"
    using assms by (auto simp: wf_nodes_def restrict_map_def)
  then show ?thesis using assms
    by (auto simp: MinisqlParserFinish_def DestroySyntaxTree_def wf_nodes_def free_all_clears same_globals_def)
qed

section \<open>Properties\<close>

text \<open>
  \<open>SyntaxNodeAddChildren\<close> appends a whole sibling list behind the children a node already has:
  when the store spells one tree at \<open>parent\<close>, the list \<open>us\<close> at \<open>ch\<close> and further lists elsewhere,
  all with disjoint nodes, the call returns and afterwards the store spells the tree with the
  children \<open>cs @ us\<close> and still every other list.
\<close>
theorem add_children_appends:
  assumes "holds g ((Some a, [Node ty w cs]) # (ch, us) # L)"
  shows "\<exists>g'. SyntaxNodeAddChildren (Some a) ch g = Some g'
    \<and> holds g' ((Some a, [Node ty w (cs @ us)]) # L)"
  using add_children_holds [OF assms] by blast

definition two_nodes :: parser_state where
  "two_nodes = parser_zero\<lparr>store := [1 \<mapsto> \<lparr>id_no = 0, type_ix = kNodeDropDB, line_no = 1, col_no = 9,
       child = None, sibling = None, val = None\<rparr>,
     2 \<mapsto> \<lparr>id_no = 1, type_ix = kNodeIdentifier, line_no = 1, col_no = 4,
       child = None, sibling = None, val = Some ''db''\<rparr>], fresh := 3, node_list := [2, 1]\<rparr>"

lemma two_nodes_holds:
  "holds two_nodes [(Some 1, [Node kNodeDropDB None []]),
     (Some 2, [Node kNodeIdentifier (Some ''db'') []])]"
proof -
  have "forest (store two_nodes) (Some 1) [Node kNodeDropDB None []] [1]"
    "forest (store two_nodes) (Some 2) [Node kNodeIdentifier (Some ''db'') []] [2]"
    by (rule forest_leaf, auto simp: two_nodes_def)+
  moreover have "wf_nodes two_nodes" by (auto simp: wf_nodes_def two_nodes_def parser_zero_def)
  ultimately show ?thesis unfolding holds_def by (intro conjI exI [of _ "[[1], [2]]"]) simp_all
qed

text \<open>
  \<open>MinisqlParserFinish\<close> releases every live syntax node exactly once: with a node list that
  names the live nodes without repetition the loop never frees a node twice, and no node and no
  list entry is left. The parser's result and error flag stay readable.
\<close>
theorem finish_frees_every_node:
  assumes "wf_nodes g"
  shows "\<exists>g'. MinisqlParserFinish g = Some g' \<and> dom (store g') = {} \<and> node_list g' = []
    \<and> MinisqlParserGetError g' = MinisqlParserGetError g"
  using finish_clears [OF assms] by (auto simp: MinisqlParserGetError_def same_globals_def)

end
