(* ===== verification/Yacc.thy ===== *)
theory Yacc
  imports Yacc_Tables Syntax_Tree
begin

text \<open>
  The parser \<open>yyparse\<close> of \<open>parser/minisql_yacc.c\<close>. Its local and global variables are the fields of
  \<open>yyparser\<close>; the two stacks are lists with the top first. Every label of the function is a
  definition that returns the label the code goes to next, and \<open>yyparse_loop\<close> follows them. The scanner
  is called through the macro \<open>YYLEX\<close>, here the argument \<open>YYLEX\<close>. \<open>None\<close> stands for an access outside an
  array or a tree operation that fails. \<open>yydestruct\<close> does nothing in this grammar and the trace output
  is compiled out; memory for larger stacks is always available.
\<close>

section \<open>Semantic actions\<close>

text \<open>
  The value of \<open>$k\<close>, which the code writes \<open>yyvsp[(k) - (n)]\<close>; \<open>vs\<close> lists \<open>$1\<close> to \<open>$n\<close>. The argument
  \<open>yyval\<close> is the value that the code sets before the switch.
\<close>

definition dollar :: "nat option list \<Rightarrow> nat \<Rightarrow> nat option" where
  "dollar vs k = vs ! (k - 1)"

definition act_statement ::
    "int \<Rightarrow> nat option list \<Rightarrow> nat option \<Rightarrow> parser_state \<Rightarrow> (nat option \<times> parser_state) option" where
  "act_statement yyn vs yyval g =
    (if yyn = 2 then Some (dollar vs 1, MinisqlParserSetRoot (dollar vs 1) g)
     else if yyn = 3 then Some (dollar vs 1, g)
     else if yyn = 4 then Some (dollar vs 1, g)
     else if yyn = 5 then Some (dollar vs 1, g)
     else if yyn = 6 then Some (dollar vs 1, g)
     else if yyn = 7 then Some (dollar vs 1, g)
     else if yyn = 8 then Some (dollar vs 1, g)
     else if yyn = 9 then Some (dollar vs 1, g)
     else if yyn = 10 then Some (dollar vs 1, g)
     else if yyn = 11 then Some (dollar vs 1, g)
     else if yyn = 12 then Some (dollar vs 1, g)
     else if yyn = 13 then Some (dollar vs 1, g)
     else if yyn = 14 then Some (dollar vs 1, g)
     else if yyn = 15 then Some (dollar vs 1, g)
     else if yyn = 16 then Some (dollar vs 1, g)
     else if yyn = 17 then Some (dollar vs 1, g)
     else if yyn = 18 then Some (dollar vs 1, g)
     else if yyn = 19 then Some (dollar vs 1, g)
     else if yyn = 20 then Some (dollar vs 1, g)
     else if yyn = 21 then Some (dollar vs 1, g)
     else Some (yyval, g))"

definition act_definition ::
    "int \<Rightarrow> nat option list \<Rightarrow> nat option \<Rightarrow> parser_state \<Rightarrow> (nat option \<times> parser_state) option" where
  "act_definition yyn vs yyval g =
    (if yyn = 22 then do {
       (yyval, g) \<leftarrow> CreateSyntaxNode kNodeCreateDB None g;
       g \<leftarrow> SyntaxNodeAddChildren (Some yyval) (dollar vs 3) g;
       Some (Some yyval, g) }
     else if yyn = 23 then do {
       (yyval, g) \<leftarrow> CreateSyntaxNode kNodeDropDB None g;
       g \<leftarrow> SyntaxNodeAddChildren (Some yyval) (dollar vs 3) g;
       Some (Some yyval, g) }
     else if yyn = 24 then do {
       (yyval, g) \<leftarrow> CreateSyntaxNode kNodeShowDB None g;
       Some (Some yyval, g) }
     else if yyn = 25 then do {
       (yyval, g) \<leftarrow> CreateSyntaxNode kNodeUseDB None g;
       g \<leftarrow> SyntaxNodeAddChildren (Some yyval) (dollar vs 2) g;
       Some (Some yyval, g) }
     else if yyn = 26 then do {
       (yyval, g) \<leftarrow> CreateSyntaxNode kNodeShowTables None g;
       Some (Some yyval, g) }
     else if yyn = 27 then do {
       (yyval, g) \<leftarrow> CreateSyntaxNode kNodeCreateTable None g;
       (list_node, g) \<leftarrow> CreateSyntaxNode kNodeColumnDefinitionList None g;
       g \<leftarrow> SyntaxNodeAddChildren (Some list_node) (dollar vs 5) g;
       g \<leftarrow> SyntaxNodeAddChildren (Some yyval) (dollar vs 3) g;
       g \<leftarrow> SyntaxNodeAddChildren (Some yyval) (Some list_node) g;
       Some (Some yyval, g) }
     else if yyn = 28 then do {
       g \<leftarrow> SyntaxNodeAddSibling (dollar vs 1) (dollar vs 3) g;
       Some (dollar vs 1, g) }
     else if yyn = 29 then Some (dollar vs 1, g)
     else if yyn = 30 then do {
       g \<leftarrow> SyntaxNodeAddSibling (dollar vs 1) (dollar vs 3) g;
       Some (dollar vs 1, g) }
     else if yyn = 31 then Some (dollar vs 1, g)
     else if yyn = 32 then do {
       (yyval, g) \<leftarrow> CreateSyntaxNode kNodeColumnList (Some ''primary keys'') g;
       g \<leftarrow> SyntaxNodeAddChildren (Some yyval) (dollar vs 4) g;
       Some (Some yyval, g) }
     else if yyn = 33 then do {
       (yyval, g) \<leftarrow> CreateSyntaxNode kNodeColumnDefinition (Some ''unique'') g;
       g \<leftarrow> SyntaxNodeAddChildren (Some yyval) (dollar vs 1) g;
       g \<leftarrow> SyntaxNodeAddChildren (Some yyval) (dollar vs 2) g;
       Some (Some yyval, g) }
     else if yyn = 34 then do {
       (yyval, g) \<leftarrow> CreateSyntaxNode kNodeColumnDefinition None g;
       g \<leftarrow> SyntaxNodeAddChildren (Some yyval) (dollar vs 1) g;
       g \<leftarrow> SyntaxNodeAddChildren (Some yyval) (dollar vs 2) g;
       Some (Some yyval, g) }
     else if yyn = 35 then do {
       (yyval, g) \<leftarrow> CreateSyntaxNode kNodeColumnType (Some ''int'') g;
       Some (Some yyval, g) }
     else if yyn = 36 then do {
       (yyval, g) \<leftarrow> CreateSyntaxNode kNodeColumnType (Some ''float'') g;
       Some (Some yyval, g) }
     else if yyn = 37 then do {
       (yyval, g) \<leftarrow> CreateSyntaxNode kNodeColumnType (Some ''char'') g;
       g \<leftarrow> SyntaxNodeAddChildren (Some yyval) (dollar vs 3) g;
       Some (Some yyval, g) }
     else if yyn = 38 then do {
       (yyval, g) \<leftarrow> CreateSyntaxNode kNodeDropTable None g;
       g \<leftarrow> SyntaxNodeAddChildren (Some yyval) (dollar vs 3) g;
       Some (Some yyval, g) }
     else Some (yyval, g))"

definition act_query ::
    "int \<Rightarrow> nat option list \<Rightarrow> nat option \<Rightarrow> parser_state \<Rightarrow> (nat option \<times> parser_state) option" where
  "act_query yyn vs yyval g =
    (if yyn = 39 then do {
       (yyval, g) \<leftarrow> CreateSyntaxNode kNodeCreateIndex None g;
       g \<leftarrow> SyntaxNodeAddChildren (Some yyval) (dollar vs 3) g;
       g \<leftarrow> SyntaxNodeAddChildren (Some yyval) (dollar vs 5) g;
       (index_keys_node, g) \<leftarrow> CreateSyntaxNode kNodeColumnList (Some ''index keys'') g;
       g \<leftarrow> SyntaxNodeAddChildren (Some index_keys_node) (dollar vs 7) g;
       g \<leftarrow> SyntaxNodeAddChildren (Some yyval) (Some index_keys_node) g;
       Some (Some yyval, g) }
     else if yyn = 40 then do {
       (yyval, g) \<leftarrow> CreateSyntaxNode kNodeCreateIndex None g;
       g \<leftarrow> SyntaxNodeAddChildren (Some yyval) (dollar vs 3) g;
       g \<leftarrow> SyntaxNodeAddChildren (Some yyval) (dollar vs 5) g;
       (index_keys_node, g) \<leftarrow> CreateSyntaxNode kNodeColumnList (Some ''index keys'') g;
       g \<leftarrow> SyntaxNodeAddChildren (Some index_keys_node) (dollar vs 7) g;
       g \<leftarrow> SyntaxNodeAddChildren (Some yyval) (Some index_keys_node) g;
       (index_type_node, g) \<leftarrow> CreateSyntaxNode kNodeIndexType (Some ''index type'') g;
       g \<leftarrow> SyntaxNodeAddChildren (Some index_type_node) (dollar vs 10) g;
       g \<leftarrow> SyntaxNodeAddChildren (Some yyval) (Some index_type_node) g;
       Some (Some yyval, g) }
     else if yyn = 41 then do {
       (yyval, g) \<leftarrow> CreateSyntaxNode kNodeDropIndex None g;
       g \<leftarrow> SyntaxNodeAddChildren (Some yyval) (dollar vs 3) g;
       Some (Some yyval, g) }
     else if yyn = 42 then do {
       (yyval, g) \<leftarrow> CreateSyntaxNode kNodeShowIndexes None g;
       Some (Some yyval, g) }
     else if yyn = 43 then do {
       (yyval, g) \<leftarrow> CreateSyntaxNode kNodeSelect None g;
       g \<leftarrow> SyntaxNodeAddChildren (Some yyval) (dollar vs 2) g;
       g \<leftarrow> SyntaxNodeAddChildren (Some yyval) (dollar vs 4) g;
       Some (Some yyval, g) }
     else if yyn = 44 then do {
       (yyval, g) \<leftarrow> CreateSyntaxNode kNodeSelect None g;
       g \<leftarrow> SyntaxNodeAddChildren (Some yyval) (dollar vs 2) g;
       g \<leftarrow> SyntaxNodeAddChildren (Some yyval) (dollar vs 4) g;
       (condition_node, g) \<leftarrow> CreateSyntaxNode kNodeConditions None g;
       g \<leftarrow> SyntaxNodeAddChildren (Some condition_node) (dollar vs 6) g;
       g \<leftarrow> SyntaxNodeAddChildren (Some yyval) (Some condition_node) g;
       Some (Some yyval, g) }
     else if yyn = 45 then do {
       (yyval, g) \<leftarrow> CreateSyntaxNode kNodeAllColumns None g;
       Some (Some yyval, g) }
     else if yyn = 46 then do {
       (yyval, g) \<leftarrow> CreateSyntaxNode kNodeColumnList (Some ''select columns'') g;
       g \<leftarrow> SyntaxNodeAddChildren (Some yyval) (dollar vs 1) g;
       Some (Some yyval, g) }
     else if yyn = 47 then do {
       g \<leftarrow> SyntaxNodeAddChildren (dollar vs 2) (dollar vs 1) g;
       g \<leftarrow> SyntaxNodeAddChildren (dollar vs 2) (dollar vs 3) g;
       Some (dollar vs 2, g) }
     else if yyn = 48 then Some (dollar vs 1, g)
     else if yyn = 49 then do {
       (yyval, g) \<leftarrow> CreateSyntaxNode kNodeConnector (Some ''and'') g;
       Some (Some yyval, g) }
     else if yyn = 50 then do {
       (yyval, g) \<leftarrow> CreateSyntaxNode kNodeConnector (Some ''or'') g;
       Some (Some yyval, g) }
     else if yyn = 51 then do {
       g \<leftarrow> SyntaxNodeAddChildren (dollar vs 2) (dollar vs 1) g;
       g \<leftarrow> SyntaxNodeAddChildren (dollar vs 2) (dollar vs 3) g;
       Some (dollar vs 2, g) }
     else if yyn = 52 then Some (dollar vs 1, g)
     else if yyn = 53 then Some (dollar vs 1, g)
     else if yyn = 54 then do {
       (yyval, g) \<leftarrow> CreateSyntaxNode kNodeNull None g;
       Some (Some yyval, g) }
     else if yyn = 55 then do {
       (yyval, g) \<leftarrow> CreateSyntaxNode kNodeCompareOperator (Some ''='') g;
       Some (Some yyval, g) }
     else if yyn = 56 then do {
       (yyval, g) \<leftarrow> CreateSyntaxNode kNodeCompareOperator (Some ''<>'') g;
       Some (Some yyval, g) }
     else if yyn = 57 then do {
       (yyval, g) \<leftarrow> CreateSyntaxNode kNodeCompareOperator (Some ''<='') g;
       Some (Some yyval, g) }
     else if yyn = 58 then do {
       (yyval, g) \<leftarrow> CreateSyntaxNode kNodeCompareOperator (Some ''>='') g;
       Some (Some yyval, g) }
     else if yyn = 59 then do {
       (yyval, g) \<leftarrow> CreateSyntaxNode kNodeCompareOperator (Some ''<'') g;
       Some (Some yyval, g) }
     else if yyn = 60 then do {
       (yyval, g) \<leftarrow> CreateSyntaxNode kNodeCompareOperator (Some ''>'') g;
       Some (Some yyval, g) }
     else if yyn = 61 then do {
       (yyval, g) \<leftarrow> CreateSyntaxNode kNodeCompareOperator (Some ''is'') g;
       Some (Some yyval, g) }
     else if yyn = 62 then do {
       (yyval, g) \<leftarrow> CreateSyntaxNode kNodeCompareOperator (Some ''not'') g;
       Some (Some yyval, g) }
     else Some (yyval, g))"

definition act_update ::
    "int \<Rightarrow> nat option list \<Rightarrow> nat option \<Rightarrow> parser_state \<Rightarrow> (nat option \<times> parser_state) option" where
  "act_update yyn vs yyval g =
    (if yyn = 63 then do {
       (yyval, g) \<leftarrow> CreateSyntaxNode kNodeInsert None g;
       g \<leftarrow> SyntaxNodeAddChildren (Some yyval) (dollar vs 3) g;
       (col_val_node, g) \<leftarrow> CreateSyntaxNode kNodeColumnValues None g;
       g \<leftarrow> SyntaxNodeAddChildren (Some col_val_node) (dollar vs 6) g;
       g \<leftarrow> SyntaxNodeAddChildren (Some yyval) (Some col_val_node) g;
       Some (Some yyval, g) }
     else if yyn = 64 then do {
       g \<leftarrow> SyntaxNodeAddSibling (dollar vs 1) (dollar vs 3) g;
       Some (dollar vs 1, g) }
     else if yyn = 65 then Some (dollar vs 1, g)
     else if yyn = 66 then do {
       (yyval, g) \<leftarrow> CreateSyntaxNode kNodeDelete None g;
       g \<leftarrow> SyntaxNodeAddChildren (Some yyval) (dollar vs 3) g;
       Some (Some yyval, g) }
     else if yyn = 67 then do {
       (yyval, g) \<leftarrow> CreateSyntaxNode kNodeDelete None g;
       g \<leftarrow> SyntaxNodeAddChildren (Some yyval) (dollar vs 3) g;
       (condition_node, g) \<leftarrow> CreateSyntaxNode kNodeConditions None g;
       g \<leftarrow> SyntaxNodeAddChildren (Some condition_node) (dollar vs 5) g;
       g \<leftarrow> SyntaxNodeAddChildren (Some yyval) (Some condition_node) g;
       Some (Some yyval, g) }
     else if yyn = 68 then do {
       (yyval, g) \<leftarrow> CreateSyntaxNode kNodeUpdate None g;
       g \<leftarrow> SyntaxNodeAddChildren (Some yyval) (dollar vs 2) g;
       (upd_values_node, g) \<leftarrow> CreateSyntaxNode kNodeUpdateValues None g;
       g \<leftarrow> SyntaxNodeAddChildren (Some upd_values_node) (dollar vs 4) g;
       g \<leftarrow> SyntaxNodeAddChildren (Some yyval) (Some upd_values_node) g;
       Some (Some yyval, g) }
     else if yyn = 69 then do {
       (yyval, g) \<leftarrow> CreateSyntaxNode kNodeUpdate None g;
       g \<leftarrow> SyntaxNodeAddChildren (Some yyval) (dollar vs 2) g;
       (upd_values_node, g) \<leftarrow> CreateSyntaxNode kNodeUpdateValues None g;
       g \<leftarrow> SyntaxNodeAddChildren (Some upd_values_node) (dollar vs 4) g;
       g \<leftarrow> SyntaxNodeAddChildren (Some yyval) (Some upd_values_node) g;
       (condition_node, g) \<leftarrow> CreateSyntaxNode kNodeConditions None g;
       g \<leftarrow> SyntaxNodeAddChildren (Some condition_node) (dollar vs 6) g;
       g \<leftarrow> SyntaxNodeAddChildren (Some yyval) (Some condition_node) g;
       Some (Some yyval, g) }
     else if yyn = 70 then do {
       g \<leftarrow> SyntaxNodeAddSibling (dollar vs 1) (dollar vs 3) g;
       Some (dollar vs 1, g) }
     else if yyn = 71 then Some (dollar vs 1, g)
     else if yyn = 72 then do {
       (yyval, g) \<leftarrow> CreateSyntaxNode kNodeUpdateValue None g;
       g \<leftarrow> SyntaxNodeAddChildren (Some yyval) (dollar vs 1) g;
       g \<leftarrow> SyntaxNodeAddChildren (Some yyval) (dollar vs 3) g;
       Some (Some yyval, g) }
     else if yyn = 73 then do {
       (yyval, g) \<leftarrow> CreateSyntaxNode kNodeTrxBegin None g;
       Some (Some yyval, g) }
     else if yyn = 74 then do {
       (yyval, g) \<leftarrow> CreateSyntaxNode kNodeTrxCommit None g;
       Some (Some yyval, g) }
     else if yyn = 75 then do {
       (yyval, g) \<leftarrow> CreateSyntaxNode kNodeTrxRollback None g;
       Some (Some yyval, g) }
     else if yyn = 76 then do {
       (yyval, g) \<leftarrow> CreateSyntaxNode kNodeQuit None g;
       Some (Some yyval, g) }
     else if yyn = 77 then do {
       (yyval, g) \<leftarrow> CreateSyntaxNode kNodeExecFile None g;
       g \<leftarrow> SyntaxNodeAddChildren (Some yyval) (dollar vs 2) g;
       Some (Some yyval, g) }
     else Some (yyval, g))"

definition yyaction ::
    "int \<Rightarrow> nat option list \<Rightarrow> nat option \<Rightarrow> parser_state \<Rightarrow> (nat option \<times> parser_state) option" where
  "yyaction yyn vs yyval g =
    (if yyn \<le> 21 then act_statement yyn vs yyval g
     else if yyn \<le> 38 then act_definition yyn vs yyval g
     else if yyn \<le> 62 then act_query yyn vs yyval g
     else act_update yyn vs yyval g)"

section \<open>State and labels\<close>

record 'l yyparser =
  yystate :: int
  yyn :: int
  yyss :: "int list"
  yyvs :: "nat option list"
  yychar :: int
  yytoken :: int
  yylval :: "nat option"
  yyerrstatus :: int
  yynerrs :: int
  yystacksize :: nat
  scanner :: 'l
  globals :: parser_state

datatype label = Newstate | Setstate | Backup | Default | Reduce | Errlab | Errlab1
  | Acceptlab | Abortlab | Exhaustedlab

type_synonym 'l yylex_call =
  "'l \<Rightarrow> nat option \<Rightarrow> parser_state \<Rightarrow> (int \<times> 'l \<times> nat option \<times> parser_state) option"

definition YYTRANSLATE :: "int \<Rightarrow> int option" where
  "YYTRANSLATE c = (if 0 \<le> c \<and> c \<le> YYMAXUTOK then fetch yytranslate c else Some YYUNDEFTOK)"

definition yyerror :: "string \<Rightarrow> parser_state \<Rightarrow> parser_state" where
  "yyerror msg g = MinisqlParserSetError (Literal msg) g"

section \<open>The labels\<close>

text \<open>\<open>++yyssp\<close>: the new top of the state stack, which \<open>yysetstate\<close> fills.\<close>

definition yynewstate :: "'l yyparser \<Rightarrow> (label \<times> 'l yyparser) option" where
  "yynewstate p = Some (Setstate, p\<lparr>yyss := yystate p # yyss p\<rparr>)"

text \<open>\<open>yyssp - yyss\<close> is one less than the length of the stack.\<close>

definition yysetstate :: "'l yyparser \<Rightarrow> (label \<times> 'l yyparser) option" where
  "yysetstate p = (let p = p\<lparr>yyss := yystate p # tl (yyss p)\<rparr> in
     if yystacksize p - 1 \<le> length (yyss p) - 1 then
       if YYMAXDEPTH \<le> yystacksize p then Some (Exhaustedlab, p)
       else (let n = (if YYMAXDEPTH < 2 * yystacksize p then YYMAXDEPTH else 2 * yystacksize p);
                 p = p\<lparr>yystacksize := n\<rparr> in
             Some (if n - 1 \<le> length (yyss p) - 1 then Abortlab else Backup, p))
     else Some (Backup, p))"

definition read_token :: "'l yylex_call \<Rightarrow> 'l yyparser \<Rightarrow> 'l yyparser option" where
  "read_token YYLEX p = do {
     p \<leftarrow> (if yychar p = YYEMPTY then do {
              (c, l, v, g) \<leftarrow> YYLEX (scanner p) (yylval p) (globals p);
              Some (p\<lparr>yychar := c, scanner := l, yylval := v, globals := g\<rparr>) }
           else Some p);
     if yychar p \<le> YYEOF then Some (p\<lparr>yychar := YYEOF, yytoken := YYEOF\<rparr>)
     else do { t \<leftarrow> YYTRANSLATE (yychar p); Some (p\<lparr>yytoken := t\<rparr>) }
   }"

text \<open>Whether \<open>yycheck\<close> confirms the table index \<open>i\<close> for \<open>key\<close>.\<close>

definition confirmed :: "int \<Rightarrow> int \<Rightarrow> bool option" where
  "confirmed i key = (if i < 0 \<or> YYLAST < i then Some False
     else do { c \<leftarrow> fetch yycheck i; Some (c = key) })"

definition yyshift :: "'l yyparser \<Rightarrow> (label \<times> 'l yyparser) option" where
  "yyshift p = Some (Newstate, p\<lparr>
     yyerrstatus := (if yyerrstatus p \<noteq> 0 then yyerrstatus p - 1 else yyerrstatus p),
     yychar := (if yychar p \<noteq> YYEOF then YYEMPTY else yychar p),
     yystate := yyn p,
     yyvs := yylval p # yyvs p\<rparr>)"

definition yybackup :: "'l yylex_call \<Rightarrow> 'l yyparser \<Rightarrow> (label \<times> 'l yyparser) option" where
  "yybackup YYLEX p = do {
     n \<leftarrow> fetch yypact (yystate p);
     if n = YYPACT_NINF then Some (Default, p\<lparr>yyn := n\<rparr>)
     else do {
       p \<leftarrow> read_token YYLEX p;
       let n = n + yytoken p;
       ok \<leftarrow> confirmed n (yytoken p);
       if \<not> ok then Some (Default, p\<lparr>yyn := n\<rparr>)
       else do {
         n \<leftarrow> fetch yytable n;
         if n \<le> 0 then
           (if n = 0 \<or> n = YYTABLE_NINF then Some (Errlab, p\<lparr>yyn := n\<rparr>)
            else Some (Reduce, p\<lparr>yyn := - n\<rparr>))
         else if n = YYFINAL then Some (Acceptlab, p\<lparr>yyn := n\<rparr>)
         else yyshift (p\<lparr>yyn := n\<rparr>)
       }
     }
   }"

definition yydefault :: "'l yyparser \<Rightarrow> (label \<times> 'l yyparser) option" where
  "yydefault p = do {
     n \<leftarrow> fetch yydefact (yystate p);
     Some (if n = 0 then Errlab else Reduce, p\<lparr>yyn := n\<rparr>)
   }"

text \<open>The state after a reduction to the symbol \<open>n\<close> above the state \<open>s\<close>.\<close>

definition yygoto :: "int \<Rightarrow> int \<Rightarrow> int option" where
  "yygoto s n = do {
     b \<leftarrow> fetch yypgoto (n - YYNTOKENS);
     ok \<leftarrow> confirmed (b + s) s;
     if ok then fetch yytable (b + s) else fetch yydefgoto (n - YYNTOKENS)
   }"

definition yyreduce :: "'l yyparser \<Rightarrow> (label \<times> 'l yyparser) option" where
  "yyreduce p = do {
     yylen \<leftarrow> fetch yyr2 (yyn p);
     let k = nat yylen;
     if k = 0 \<or> length (yyss p) \<le> k \<or> length (yyvs p) \<le> k then None
     else do {
       let vs = rev (take k (yyvs p));
       (yyval, g) \<leftarrow> yyaction (yyn p) vs (dollar vs 1) (globals p);
       let ss = drop k (yyss p);
       n \<leftarrow> fetch yyr1 (yyn p);
       s \<leftarrow> yygoto (hd ss) n;
       Some (Newstate, p\<lparr>yyss := ss, yyvs := yyval # drop k (yyvs p), yyn := n, yystate := s, globals := g\<rparr>)
     }
   }"

definition yyerrlab :: "'l yyparser \<Rightarrow> (label \<times> 'l yyparser) option" where
  "yyerrlab p = (let p = (if yyerrstatus p = 0
       then p\<lparr>yynerrs := yynerrs p + 1, globals := yyerror ''syntax error'' (globals p)\<rparr> else p) in
     if yyerrstatus p = 3 then
       (if yychar p \<le> YYEOF then Some (if yychar p = YYEOF then Abortlab else Errlab1, p)
        else Some (Errlab1, p\<lparr>yychar := YYEMPTY\<rparr>))
     else Some (Errlab1, p))"

text \<open>The state that shifts the error token in state \<open>s\<close>, 0 when there is none.\<close>

definition error_shift :: "int \<Rightarrow> int option" where
  "error_shift s = do {
     n \<leftarrow> fetch yypact s;
     if n = YYPACT_NINF then Some 0
     else do {
       ok \<leftarrow> confirmed (n + YYTERROR) YYTERROR;
       if ok then do { t \<leftarrow> fetch yytable (n + YYTERROR); Some (if 0 < t then t else 0) } else Some 0
     }
   }"

text \<open>
  The loop of \<open>yyerrlab1\<close>: pop states until one shifts the error token. The outer \<open>None\<close> is a failed
  access, the inner one \<open>YYABORT\<close> at the bottom of the stack.
\<close>

fun pop_to_error :: "int \<Rightarrow> int list \<Rightarrow> nat option list
    \<Rightarrow> (int \<times> int list \<times> nat option list) option option" where
  "pop_to_error s (_ # ss) vs = do {
     t \<leftarrow> error_shift s;
     if 0 < t then Some (Some (t, s # ss, vs))
     else (case ss of [] \<Rightarrow> Some None | s' # _ \<Rightarrow> pop_to_error s' ss (tl vs))
   }"
| "pop_to_error s [] vs = None"

definition yyerrlab1 :: "'l yyparser \<Rightarrow> (label \<times> 'l yyparser) option" where
  "yyerrlab1 p = do {
     let p = p\<lparr>yyerrstatus := 3\<rparr>;
     r \<leftarrow> pop_to_error (yystate p) (yyss p) (yyvs p);
     (case r of
        None \<Rightarrow> Some (Abortlab, p)
      | Some (n, ss, vs) \<Rightarrow>
          if n = YYFINAL then Some (Acceptlab, p\<lparr>yyn := n, yyss := ss, yyvs := vs\<rparr>)
          else Some (Newstate, p\<lparr>yyn := n, yyss := ss, yyvs := yylval p # vs, yystate := n\<rparr>))
   }"

section \<open>yyparse\<close>

fun yystep :: "'l yylex_call \<Rightarrow> label \<Rightarrow> 'l yyparser \<Rightarrow> (label \<times> 'l yyparser) option" where
  "yystep YYLEX Newstate p = yynewstate p"
| "yystep YYLEX Setstate p = yysetstate p"
| "yystep YYLEX Backup p = yybackup YYLEX p"
| "yystep YYLEX Default p = yydefault p"
| "yystep YYLEX Reduce p = yyreduce p"
| "yystep YYLEX Errlab p = yyerrlab p"
| "yystep YYLEX Errlab1 p = yyerrlab1 p"
| "yystep YYLEX Acceptlab p = None"
| "yystep YYLEX Abortlab p = None"
| "yystep YYLEX Exhaustedlab p = None"

partial_function (option) yyparse_loop ::
    "'l yylex_call \<Rightarrow> label \<Rightarrow> 'l yyparser \<Rightarrow> (int \<times> 'l yyparser) option" where
  "yyparse_loop YYLEX lab p =
     (if lab = Acceptlab then Some (0, p)
      else if lab = Abortlab then Some (1, p)
      else if lab = Exhaustedlab then Some (2, p\<lparr>globals := yyerror ''memory exhausted'' (globals p)\<rparr>)
      else do { (lab', p') \<leftarrow> yystep YYLEX lab p; yyparse_loop YYLEX lab' p' })"

definition yyparse_start :: "'l \<Rightarrow> nat option \<Rightarrow> parser_state \<Rightarrow> 'l yyparser" where
  "yyparse_start l v g = \<lparr>yystate = 0, yyn = 0, yyss = [0], yyvs = [None], yychar = YYEMPTY,
     yytoken = 0, yylval = v, yyerrstatus = 0, yynerrs = 0, yystacksize = YYINITDEPTH,
     scanner = l, globals = g\<rparr>"

text \<open>The result of \<open>yyparse\<close>, and the scanner, \<open>yylval\<close> and the parser's globals it leaves.\<close>

definition yyparse :: "'l yylex_call \<Rightarrow> 'l \<Rightarrow> nat option \<Rightarrow> parser_state
    \<Rightarrow> (int \<times> 'l \<times> nat option \<times> parser_state) option" where
  "yyparse YYLEX l v g = do {
     (res, p) \<leftarrow> yyparse_loop YYLEX Setstate (yyparse_start l v g);
     Some (res, scanner p, yylval p, globals p)
   }"

end
