(* ===== verification/Grammar.thy ===== *)
theory Grammar
  imports Yacc_Tables Syntax_Tree
begin

text \<open>
  The grammar of MiniSQL's statements, as Bison lists it in \<open>parser/minisql_yacc.c\<close>: \<open>rules\<close> are the
  right-hand sides of \<open>yyrhs\<close>, \<open>yyr1\<close> the left-hand sides. Symbols are numbered as in the parser,
  terminals below 54; 55 is the start symbol. \<open>derives X w v\<close> says that the token sequence \<open>w\<close> is an
  instance of the symbol \<open>X\<close> with the list of trees \<open>v\<close>, where \<open>sem\<close> gives the trees of a rule from
  those of its right-hand side.
\<close>

section \<open>Rules\<close>

definition rules :: "int list list" where
  "rules = [
    [55, 0], [55, 0], [56, 47], [57], [58], [59], [60], [61], [62], [67], [68], [69], [70], [71],
    [78], [80], [81], [84], [85], [86], [87], [88], [3, 17, 40], [4, 17, 40], [14, 18], [15, 40],
    [14, 20], [3, 19, 40, 48, 64, 49], [40, 50, 63], [40], [65, 50, 64], [65],
    [29, 30, 48, 63, 49], [40, 66, 31], [40, 66], [33], [34], [32, 48, 42, 49], [4, 19, 40],
    [3, 21, 40, 23, 40, 48, 63, 49], [3, 21, 40, 23, 40, 48, 63, 49, 16, 40], [4, 21, 40],
    [14, 22], [5, 72, 24, 40], [5, 72, 24, 40, 25, 73], [51], [63], [73, 74, 75], [75], [35],
    [36], [40, 77, 76], [41], [42], [39], [43], [44], [45], [46], [52], [53], [38], [37],
    [6, 26, 40, 28, 48, 79, 49], [76, 50, 79], [76], [7, 24, 40], [7, 24, 40, 25, 73],
    [8, 40, 27, 82], [8, 40, 27, 82, 25, 73], [83, 50, 82], [83], [40, 43, 76], [9], [10], [11],
    [12], [13, 41]]"

definition rhs :: "int \<Rightarrow> int list" where
  "rhs r = rules ! nat r"

definition lhs :: "int \<Rightarrow> int" where
  "lhs r = yyr1 ! nat r"

text \<open>The trees of a rule: \<open>add_below\<close> hangs trees below a single node.\<close>

fun add_below :: "ast list \<Rightarrow> ast list \<Rightarrow> ast list" where
  "add_below [Node ty w cs] us = [Node ty w (cs @ us)]"
| "add_below ts us = ts"

definition sem :: "int \<Rightarrow> ast list list \<Rightarrow> ast list" where
  "sem r vs = (if r = 22 then [Node kNodeCreateDB None (vs ! 2)]
     else if r = 23 then [Node kNodeDropDB None (vs ! 2)]
     else if r = 24 then [Node kNodeShowDB None []]
     else if r = 25 then [Node kNodeUseDB None (vs ! 1)]
     else if r = 26 then [Node kNodeShowTables None []]
     else if r = 27 then
       [Node kNodeCreateTable None (vs ! 2 @ [Node kNodeColumnDefinitionList None (vs ! 4)])]
     else if r = 28 then vs ! 0 @ vs ! 2
     else if r = 30 then vs ! 0 @ vs ! 2
     else if r = 32 then [Node kNodeColumnList (Some ''primary keys'') (vs ! 3)]
     else if r = 33 then [Node kNodeColumnDefinition (Some ''unique'') (vs ! 0 @ vs ! 1)]
     else if r = 34 then [Node kNodeColumnDefinition None (vs ! 0 @ vs ! 1)]
     else if r = 35 then [Node kNodeColumnType (Some ''int'') []]
     else if r = 36 then [Node kNodeColumnType (Some ''float'') []]
     else if r = 37 then [Node kNodeColumnType (Some ''char'') (vs ! 2)]
     else if r = 38 then [Node kNodeDropTable None (vs ! 2)]
     else if r = 39 then
       [Node kNodeCreateIndex None (vs ! 2 @ vs ! 4
         @ [Node kNodeColumnList (Some ''index keys'') (vs ! 6)])]
     else if r = 40 then
       [Node kNodeCreateIndex None (vs ! 2 @ vs ! 4
         @ [Node kNodeColumnList (Some ''index keys'') (vs ! 6)]
         @ [Node kNodeIndexType (Some ''index type'') (vs ! 9)])]
     else if r = 41 then [Node kNodeDropIndex None (vs ! 2)]
     else if r = 42 then [Node kNodeShowIndexes None []]
     else if r = 43 then [Node kNodeSelect None (vs ! 1 @ vs ! 3)]
     else if r = 44 then
       [Node kNodeSelect None (vs ! 1 @ vs ! 3 @ [Node kNodeConditions None (vs ! 5)])]
     else if r = 45 then [Node kNodeAllColumns None []]
     else if r = 46 then [Node kNodeColumnList (Some ''select columns'') (vs ! 0)]
     else if r = 47 then add_below (vs ! 1) (vs ! 0 @ vs ! 2)
     else if r = 49 then [Node kNodeConnector (Some ''and'') []]
     else if r = 50 then [Node kNodeConnector (Some ''or'') []]
     else if r = 51 then add_below (vs ! 1) (vs ! 0 @ vs ! 2)
     else if r = 54 then [Node kNodeNull None []]
     else if r = 55 then [Node kNodeCompareOperator (Some ''='') []]
     else if r = 56 then [Node kNodeCompareOperator (Some ''<>'') []]
     else if r = 57 then [Node kNodeCompareOperator (Some ''<='') []]
     else if r = 58 then [Node kNodeCompareOperator (Some ''>='') []]
     else if r = 59 then [Node kNodeCompareOperator (Some ''<'') []]
     else if r = 60 then [Node kNodeCompareOperator (Some ''>'') []]
     else if r = 61 then [Node kNodeCompareOperator (Some ''is'') []]
     else if r = 62 then [Node kNodeCompareOperator (Some ''not'') []]
     else if r = 63 then [Node kNodeInsert None (vs ! 2 @ [Node kNodeColumnValues None (vs ! 5)])]
     else if r = 64 then vs ! 0 @ vs ! 2
     else if r = 66 then [Node kNodeDelete None (vs ! 2)]
     else if r = 67 then [Node kNodeDelete None (vs ! 2 @ [Node kNodeConditions None (vs ! 4)])]
     else if r = 68 then [Node kNodeUpdate None (vs ! 1 @ [Node kNodeUpdateValues None (vs ! 3)])]
     else if r = 69 then
       [Node kNodeUpdate None (vs ! 1 @ [Node kNodeUpdateValues None (vs ! 3)]
         @ [Node kNodeConditions None (vs ! 5)])]
     else if r = 70 then vs ! 0 @ vs ! 2
     else if r = 72 then [Node kNodeUpdateValue None (vs ! 0 @ vs ! 2)]
     else if r = 73 then [Node kNodeTrxBegin None []]
     else if r = 74 then [Node kNodeTrxCommit None []]
     else if r = 75 then [Node kNodeTrxRollback None []]
     else if r = 76 then [Node kNodeQuit None []]
     else if r = 77 then [Node kNodeExecFile None (vs ! 1)]
     else vs ! 0)"

text \<open>A token is its symbol with the trees it carries: one leaf for identifiers and values, else none.\<close>

type_synonym token = "int \<times> ast list"

inductive derives :: "int \<Rightarrow> token list \<Rightarrow> ast list \<Rightarrow> bool"
  and derives_all :: "int list \<Rightarrow> token list \<Rightarrow> ast list list \<Rightarrow> bool" where
  der_tok: "0 \<le> a \<Longrightarrow> a < 54 \<Longrightarrow> derives a [(a, v)] v"
| der_rule: "2 \<le> r \<Longrightarrow> r < 78 \<Longrightarrow> derives_all (rhs r) w vs \<Longrightarrow> derives (lhs r) w (sem r vs)"
| der_nil: "derives_all [] [] []"
| der_cons: "derives X w v \<Longrightarrow> derives_all Xs ws vs \<Longrightarrow> derives_all (X # Xs) (w @ ws) (v # vs)"

inductive_cases derives_all_NilE: "derives_all [] w vs"
inductive_cases derives_all_ConsE: "derives_all (X # Xs) w vs"

section \<open>The listing of the grammar\<close>

lemma drop_weak_cong: "n = m \<Longrightarrow> drop n xs = drop m xs" by simp

lemma rules_listed: "list_all2 (\<lambda>p r. takeWhile (\<lambda>x. x \<noteq> - 1) (drop (nat p) yyrhs) = r) yyprhs rules"
  unfolding rules_def yyprhs_def
  by (simp add: arg_cong [OF yyrhs_def, of "drop (numeral v)" for v] arg_cong [OF yyrhs_def, of "takeWhile P" for P]
      cong: drop_weak_cong)

section \<open>Shape of the trees\<close>

text \<open>
  The symbols whose values are used: nonterminals, IDENTIFIER, STRING and NUMBER. Their lists of trees
  are not empty, and connectors and operators are single nodes.
\<close>

definition valued :: "int \<Rightarrow> bool" where
  "valued X \<longleftrightarrow> 54 \<le> X \<or> X = 40 \<or> X = 41 \<or> X = 42"

definition shape :: "int \<Rightarrow> ast list \<Rightarrow> bool" where
  "shape X v \<longleftrightarrow> (valued X \<longrightarrow> v \<noteq> []) \<and> (X = 74 \<or> X = 77 \<longrightarrow> length v = 1)"

definition well_lexed :: "token list \<Rightarrow> bool" where
  "well_lexed w \<longleftrightarrow> list_all (\<lambda>(a, v). 1 \<le> a \<and> a < 54 \<and> (valued a \<longrightarrow> length v = 1)) w"

lemma well_lexed_append [simp]: "well_lexed (u @ w) \<longleftrightarrow> well_lexed u \<and> well_lexed w"
  by (simp add: well_lexed_def)

lemma grammar_lengths [simp]: "length rules = 78" "length yyr1 = 78" "length yyr2 = 78"
  by (simp_all add: rules_def yyr1_def yyr2_def)

lemma length_one: "length v = Suc 0 \<longleftrightarrow> (\<exists>ty w cs. v = [Node ty w cs])"
proof (cases v)
  case (Cons t ts)
  then show ?thesis by (cases t) auto
qed simp

lemma check_shapes:
  "all_ix2 (\<lambda>i X ys. 2 \<le> i \<longrightarrow> (\<forall>vs. list_all2 shape ys vs \<longrightarrow> shape X (sem (int i) vs))) 0 yyr1 rules"
  unfolding yyr1_def rules_def
  by (simp add: list_all2_Cons1 sem_def shape_def valued_def cong: all_ix2_weak_cong)
    (auto simp: length_one)

lemma rule_nth: "2 \<le> r \<Longrightarrow> r < 78 \<Longrightarrow> nat r < 78 \<and> 2 \<le> nat r \<and> int (nat r) = r"
  by auto

lemma sem_shape:
  assumes "2 \<le> r" "r < 78" "list_all2 shape (rhs r) vs"
  shows "shape (lhs r) (sem r vs)"
  using all_ix2D [OF check_shapes, of "nat r"] rule_nth [OF assms(1,2)] assms(3) by (simp add: lhs_def rhs_def)

lemma derives_shape:
  "derives X w v \<Longrightarrow> well_lexed w \<Longrightarrow> shape X v"
  "derives_all Xs w vs \<Longrightarrow> well_lexed w \<Longrightarrow> list_all2 shape Xs vs"
proof (induction rule: derives_derives_all.inducts)
  case (der_rule r w vs)
  then show ?case by (simp add: sem_shape)
qed (auto simp: well_lexed_def shape_def)

lemma derives_all_append:
  "derives_all Xs u us \<Longrightarrow> derives_all Ys w vs \<Longrightarrow> derives_all (Xs @ Ys) (u @ w) (us @ vs)"
proof (induction Xs arbitrary: u us)
  case (Cons X Xs)
  from Cons.prems(1) obtain x v xs vs' where "u = x @ xs" "us = v # vs'" "derives X x v" "derives_all Xs xs vs'"
    by (rule derives_all_ConsE)
  then show ?case using Cons.IH [of xs vs'] Cons.prems(2) der_cons [of X x v] by simp
qed (auto elim: derives_all_NilE)

lemma derives_all_single: "derives X w v \<Longrightarrow> derives_all [X] w [v]"
  using der_cons [of X w v "[]" "[]" "[]"] der_nil by simp

end
