(* ===== verification/LR_Tables.thy ===== *)
theory LR_Tables
  imports Yacc Grammar
begin

text \<open>
  What the compressed tables of the parser encode. \<open>rows\<close> lists the token transitions of every state,
  \<open>gotos\<close> those on nonterminals, and \<open>items\<close> the grammar rules with the position reached in them that
  a state stands for. Finite checks show that the tables decode to these lists and that the lists
  are closed the way an LR automaton is; \<open>first\<close> and \<open>follow\<close> bound the tokens that start and follow a
  nonterminal.
\<close>

section \<open>The automaton\<close>

definition rows :: "(int \<times> int) list list" where
  "rows = [
    [(3, 1), (4, 2), (5, 3), (6, 4), (7, 5), (8, 6), (9, 7), (10, 8), (11, 9), (12, 10),
     (13, 11), (14, 12), (15, 13)],
    [(17, 35), (19, 36), (21, 37)], [(17, 38), (19, 39), (21, 40)], [(40, 41), (51, 42)],
    [(26, 45)], [(24, 46)], [(40, 47)], [], [], [], [], [(41, 48)],
    [(18, 49), (20, 50), (22, 51)], [(40, 52)], [(0, 53)], [(47, 54)], [], [], [], [], [], [], [],
    [], [], [], [], [], [], [], [], [], [], [], [], [(40, 55)], [(40, 56)], [(40, 57)],
    [(40, 58)], [(40, 59)], [(40, 60)], [(50, 61)], [], [], [(24, 62)], [(40, 63)], [(40, 64)],
    [(27, 65)], [], [], [], [], [], [], [], [], [(48, 66)], [(23, 67)], [], [], [], [(40, 41)],
    [(40, 69)], [(28, 70)], [(25, 71)], [(40, 72)], [(29, 75), (40, 76)], [(40, 79)], [],
    [(25, 80)], [(48, 81)], [(40, 82)], [(43, 85)], [(25, 86)], [(50, 87)], [(30, 88)],
    [(32, 89), (33, 90), (34, 91)], [(49, 93)], [(50, 94)], [(48, 95)], [(40, 82)],
    [(39, 97), (41, 98), (42, 99)],
    [(37, 102), (38, 103), (43, 104), (44, 105), (45, 106), (46, 107), (52, 108), (53, 109)],
    [(35, 111), (36, 112)], [], [(39, 97), (41, 98), (42, 99)], [(40, 82)], [(40, 72)],
    [(48, 117)], [(48, 118)], [], [], [(31, 119)], [], [(29, 75), (40, 76)], [(40, 41)],
    [(35, 111), (36, 112)], [], [], [], [(50, 122)], [(49, 123)], [], [], [], [], [], [], [], [],
    [(39, 97), (41, 98), (42, 99)], [], [], [(40, 82)], [], [(35, 111), (36, 112)], [],
    [(40, 41)], [(42, 127)], [], [], [(49, 128)], [(39, 97), (41, 98), (42, 99)], [], [], [],
    [(49, 130)], [(49, 131)], [(16, 132)], [], [], [], [(40, 133)], []]"

definition gotos :: "(int \<times> int) list list" where
  "gotos = [
    [(55, 14), (56, 15), (57, 16), (58, 17), (59, 18), (60, 19), (61, 20), (62, 21), (67, 22),
     (68, 23), (69, 24), (70, 25), (71, 26), (78, 27), (80, 28), (81, 29), (84, 30), (85, 31),
     (86, 32), (87, 33), (88, 34)],
    [], [], [(63, 43), (72, 44)], [], [], [], [], [], [], [], [], [], [], [], [], [], [], [], [],
    [], [], [], [], [], [], [], [], [], [], [], [], [], [], [], [], [], [], [], [], [], [], [],
    [], [], [], [], [], [], [], [], [], [], [], [], [], [], [], [], [], [], [(63, 68)], [], [],
    [], [(82, 73), (83, 74)], [(64, 77), (65, 78)], [], [], [], [], [(73, 83), (75, 84)], [], [],
    [], [], [(66, 92)], [], [], [], [(73, 96), (75, 84)], [(76, 100), (79, 101)], [(77, 110)],
    [(74, 113)], [], [(76, 114)], [(73, 115), (75, 84)], [(82, 116), (83, 74)], [], [], [], [],
    [], [], [(64, 120), (65, 78)], [(63, 121)], [(74, 113)], [], [], [], [], [], [], [], [], [],
    [], [], [], [], [(76, 124)], [], [], [(75, 125)], [], [(74, 113)], [], [(63, 126)], [], [],
    [], [], [(76, 100), (79, 129)], [], [], [], [], [], [], [], [], [], [], []]"

definition items :: "(int \<times> nat) list list" where
  "items = [
    [(1, 0), (2, 0), (3, 0), (4, 0), (5, 0), (6, 0), (7, 0), (8, 0), (9, 0), (10, 0), (11, 0),
     (12, 0), (13, 0), (14, 0), (15, 0), (16, 0), (17, 0), (18, 0), (19, 0), (20, 0), (21, 0),
     (22, 0), (23, 0), (24, 0), (25, 0), (26, 0), (27, 0), (38, 0), (39, 0), (40, 0), (41, 0),
     (42, 0), (43, 0), (44, 0), (63, 0), (66, 0), (67, 0), (68, 0), (69, 0), (73, 0), (74, 0),
     (75, 0), (76, 0), (77, 0)],
    [(22, 1), (27, 1), (39, 1), (40, 1)], [(23, 1), (38, 1), (41, 1)],
    [(28, 0), (29, 0), (43, 1), (44, 1), (45, 0), (46, 0)], [(63, 1)], [(66, 1), (67, 1)],
    [(68, 1), (69, 1)], [(73, 1)], [(74, 1)], [(75, 1)], [(76, 1)], [(77, 1)],
    [(24, 1), (26, 1), (42, 1)], [(25, 1)], [(1, 1)], [(2, 1)], [(3, 1)], [(4, 1)], [(5, 1)],
    [(6, 1)], [(7, 1)], [(8, 1)], [(9, 1)], [(10, 1)], [(11, 1)], [(12, 1)], [(13, 1)], [(14, 1)],
    [(15, 1)], [(16, 1)], [(17, 1)], [(18, 1)], [(19, 1)], [(20, 1)], [(21, 1)], [(22, 2)],
    [(27, 2)], [(39, 2), (40, 2)], [(23, 2)], [(38, 2)], [(41, 2)], [(28, 1), (29, 1)], [(45, 1)],
    [(46, 1)], [(43, 2), (44, 2)], [(63, 2)], [(66, 2), (67, 2)], [(68, 2), (69, 2)], [(77, 2)],
    [(24, 2)], [(26, 2)], [(42, 2)], [(25, 2)], [(1, 2)], [(2, 2)], [(22, 3)], [(27, 3)],
    [(39, 3), (40, 3)], [(23, 3)], [(38, 3)], [(41, 3)], [(28, 0), (28, 2), (29, 0)],
    [(43, 3), (44, 3)], [(63, 3)], [(66, 3), (67, 3)],
    [(68, 3), (69, 3), (70, 0), (71, 0), (72, 0)],
    [(27, 4), (30, 0), (31, 0), (32, 0), (33, 0), (34, 0)], [(39, 4), (40, 4)], [(28, 3)],
    [(43, 4), (44, 4)], [(63, 4)], [(47, 0), (48, 0), (51, 0), (67, 4)], [(72, 1)],
    [(68, 4), (69, 4)], [(70, 1), (71, 1)], [(32, 1)],
    [(33, 1), (34, 1), (35, 0), (36, 0), (37, 0)], [(27, 5)], [(30, 1), (31, 1)],
    [(39, 5), (40, 5)], [(44, 5), (47, 0), (48, 0), (51, 0)],
    [(52, 0), (53, 0), (54, 0), (63, 5), (64, 0), (65, 0)],
    [(51, 1), (55, 0), (56, 0), (57, 0), (58, 0), (59, 0), (60, 0), (61, 0), (62, 0)],
    [(47, 1), (49, 0), (50, 0), (67, 5)], [(48, 1)], [(52, 0), (53, 0), (54, 0), (72, 2)],
    [(47, 0), (48, 0), (51, 0), (69, 5)], [(70, 0), (70, 2), (71, 0), (72, 0)], [(32, 2)],
    [(37, 1)], [(35, 1)], [(36, 1)], [(33, 2), (34, 2)], [(27, 6)],
    [(30, 0), (30, 2), (31, 0), (32, 0), (33, 0), (34, 0)], [(28, 0), (29, 0), (39, 6), (40, 6)],
    [(44, 6), (47, 1), (49, 0), (50, 0)], [(54, 1)], [(52, 1)], [(53, 1)], [(64, 1), (65, 1)],
    [(63, 6)], [(62, 1)], [(61, 1)], [(55, 1)], [(56, 1)], [(57, 1)], [(58, 1)], [(59, 1)],
    [(60, 1)], [(51, 2), (52, 0), (53, 0), (54, 0)], [(49, 1)], [(50, 1)], [(47, 2), (51, 0)],
    [(72, 3)], [(47, 1), (49, 0), (50, 0), (69, 6)], [(70, 3)], [(28, 0), (29, 0), (32, 3)],
    [(37, 2)], [(33, 3)], [(30, 3)], [(39, 7), (40, 7)],
    [(52, 0), (53, 0), (54, 0), (64, 0), (64, 2), (65, 0)], [(63, 7)], [(51, 3)], [(47, 3)],
    [(32, 4)], [(37, 3)], [(39, 8), (40, 8)], [(64, 3)], [(32, 5)], [(37, 4)], [(40, 9)],
    [(40, 10)]]"

text \<open>The rules of each nonterminal, from 54 on.\<close>

definition rules_of :: "int list list" where
  "rules_of = [
    [], [2], [3, 4, 5, 6, 7, 8, 9, 10, 11, 12, 13, 14, 15, 16, 17, 18, 19, 20, 21], [22], [23],
    [24], [25], [26], [27], [28, 29], [30, 31, 32], [33, 34], [35, 36, 37], [38], [39, 40], [41],
    [42], [43, 44], [45, 46], [47, 48], [49, 50], [51], [52, 53, 54],
    [55, 56, 57, 58, 59, 60, 61, 62], [63], [64, 65], [66, 67], [68, 69], [70, 71], [72], [73],
    [74], [75], [76], [77]]"

definition first :: "int list list" where
  "first = [
    [3, 4, 5, 6, 7, 8, 9, 10, 11, 12, 13, 14, 15], [3, 4, 5, 6, 7, 8, 9, 10, 11, 12, 13, 14, 15],
    [3, 4, 5, 6, 7, 8, 9, 10, 11, 12, 13, 14, 15], [3], [4], [14], [15], [14], [3], [40],
    [29, 40], [40], [32, 33, 34], [4], [3], [4], [14], [5], [40, 51], [40], [35, 36], [40],
    [39, 41, 42], [37, 38, 43, 44, 45, 46, 52, 53], [6], [39, 41, 42], [7], [8], [40], [40], [9],
    [10], [11], [12], [13]]"

definition follow :: "int list list" where
  "follow = [
    [], [0], [47], [47], [47], [47], [47], [47], [47], [24, 49], [49], [49, 50], [31, 49, 50],
    [47], [47], [47], [47], [47], [24], [35, 36, 47], [40], [35, 36, 47],
    [25, 35, 36, 47, 49, 50], [39, 41, 42], [47], [49], [47], [47], [25, 47], [25, 47, 50], [47],
    [47], [47], [47], [47]]"

definition succ_of :: "int \<Rightarrow> (int \<times> int) set" where
  "succ_of s = set (rows ! nat s) \<union> set (gotos ! nat s)"

definition items_of :: "int \<Rightarrow> (int \<times> nat) set" where
  "items_of s = set (items ! nat s)"

definition is_state :: "int \<Rightarrow> bool" where
  "is_state s \<longleftrightarrow> 0 \<le> s \<and> s < 134"

lemma lr_lengths [simp]:
  "length rows = 134" "length gotos = 134" "length items = 134" "length first = 35" "length follow = 35"
  "length yypact = 134" "length yydefact = 134" "length yytable = 107" "length yycheck = 107"
  "length yypgoto = 35" "length yydefgoto = 35" "length yytranslate = 302"
  by (simp_all add: rows_def gotos_def items_def first_def follow_def yypact_def yydefact_def yytable_def
      yycheck_def yypgoto_def yydefgoto_def yytranslate_def)

section \<open>Decoding the tables\<close>

text \<open>The entries of \<open>yycheck\<close> and \<open>yytable\<close> that belong to the base \<open>p\<close>.\<close>

fun row :: "int \<Rightarrow> int \<Rightarrow> int list \<Rightarrow> int list \<Rightarrow> (int \<times> int) list" where
  "row p i (a # as) (t # ts) = (if p + a = i then (a, t) # row p (i + 1) as ts else row p (i + 1) as ts)"
| "row p i [] ts = []"
| "row p i (a # as) [] = []"

lemma row_weak_cong: "i = j \<Longrightarrow> row p i as ts = row p j as ts" by simp

lemma row_iff:
  "length as \<le> length ts \<Longrightarrow> (a, t) \<in> set (row p i as ts)
    \<longleftrightarrow> i \<le> p + a \<and> nat (p + a - i) < length as \<and> as ! nat (p + a - i) = a \<and> ts ! nat (p + a - i) = t"
proof (induction p i as ts rule: row.induct)
  case (1 p i b as u ts)
  have shift: "nat (p + a - i) = Suc (nat (p + a - (i + 1)))" if "i < p + a" using that by simp
  show ?case
  proof (cases "p + a = i")
    case True
    with 1 show ?thesis by auto
  next
    case False
    with 1 shift show ?thesis by (cases "i < p + a") auto
  qed
qed auto

lemma check_rows:
  "list_all2 (\<lambda>p r. r = (if p = - 85 then [] else row p 0 yycheck yytable)) yypact rows"
  unfolding yypact_def rows_def yycheck_def yytable_def by (simp cong: row_weak_cong)

text \<open>Lookups by numeral, each table under its own name.\<close>

lemmas lr_nth =
  fun_cong [OF arg_cong [OF yypgoto_def, of nth], of "numeral v" for v]
  fun_cong [OF arg_cong [OF yydefgoto_def, of nth], of "numeral v" for v]
  fun_cong [OF arg_cong [OF yycheck_def, of nth], of "numeral v" for v]
  fun_cong [OF arg_cong [OF yytable_def, of nth], of "numeral v" for v]
  fun_cong [OF arg_cong [OF items_def, of nth], of "numeral v" for v]
  fun_cong [OF arg_cong [OF rules_def, of nth], of "numeral v" for v]
  fun_cong [OF arg_cong [OF first_def, of nth], of "numeral v" for v]
  fun_cong [OF arg_cong [OF follow_def, of nth], of "numeral v" for v]
  fun_cong [OF arg_cong [OF rules_of_def, of nth], of "numeral v" for v]
  fun_cong [OF arg_cong [OF yyr1_def, of nth], of "numeral v" for v]

lemmas lr_nth_1 =
  fun_cong [OF arg_cong [OF yyr1_def, of nth], of "Suc 0"]
  fun_cong [OF arg_cong [OF rules_of_def, of nth], of "Suc 0"]
  fun_cong [OF arg_cong [OF yypgoto_def, of nth], of "Suc 0"]
  fun_cong [OF arg_cong [OF yydefgoto_def, of nth], of "Suc 0"]
  fun_cong [OF arg_cong [OF yycheck_def, of nth], of "Suc 0"]
  fun_cong [OF arg_cong [OF yytable_def, of nth], of "Suc 0"]
  fun_cong [OF arg_cong [OF items_def, of nth], of "Suc 0"]
  fun_cong [OF arg_cong [OF rules_def, of nth], of "Suc 0"]
  fun_cong [OF arg_cong [OF first_def, of nth], of "Suc 0"]
  fun_cong [OF arg_cong [OF follow_def, of nth], of "Suc 0"]
  fun_cong [OF arg_cong [OF first_def, of nth], of 0]
  fun_cong [OF arg_cong [OF follow_def, of nth], of 0]
  fun_cong [OF arg_cong [OF yycheck_def, of nth], of 0]
  fun_cong [OF arg_cong [OF yytable_def, of nth], of 0]

lemma check_gotos: "all_ix (\<lambda>s gs. list_all (\<lambda>(N, t). 55 \<le> N \<and> N < 89 \<and> yygoto (int s) N = Some t) gs) 0 gotos"
  unfolding gotos_def
  by (simp add: yygoto_def confirmed_def fetch_def lr_nth lr_nth_1 cong: all_ix_weak_cong nth_weak_cong)

section \<open>Closure of the items\<close>

text \<open>
  Forward: behind every item there is a transition on its next symbol to a state with the advanced
  item, and a finished item is the state's default reduction. Backward: a transition leads to a state
  whose started items come from items of the source state. Inner: an item in front of a nonterminal
  brings in the nonterminal's rules; the rules a state starts with have a transition for their result.
\<close>

definition forward :: "(int \<times> int) list \<times> (int \<times> int) list \<Rightarrow> int \<Rightarrow> int \<times> nat \<Rightarrow> bool" where
  "forward tr def = (\<lambda>(r, d). let xs = rules ! nat r in
     if d < length xs then
       (case map_of (if xs ! d < 54 then fst tr else snd tr) (xs ! d) of
          None \<Rightarrow> False | Some t \<Rightarrow> (r, d + 1) \<in> set (items ! nat t))
     else d = length xs \<and> def = r)"

definition backward :: "(int \<times> nat) list \<Rightarrow> int \<times> int \<Rightarrow> bool" where
  "backward its = (\<lambda>(X, t). 0 < t \<and> t < 134 \<and>
     list_all (\<lambda>(r, d). d = 0 \<or> take 1 (drop (d - 1) (rules ! nat r)) = [X] \<and> (r, d - 1) \<in> set its)
       (items ! nat t))"

definition inner :: "(int \<times> nat) list \<Rightarrow> (int \<times> int) list \<Rightarrow> int \<times> nat \<Rightarrow> bool" where
  "inner its gs = (\<lambda>(r, d). 1 \<le> r \<and> r < 78 \<and> (let xs = rules ! nat r in
     d < length xs \<and> 54 \<le> xs ! d \<longrightarrow> list_all (\<lambda>q. (q, 0) \<in> set its) (rules_of ! nat (xs ! d - 54)))
     \<and> (d = 0 \<and> r \<noteq> 1 \<longrightarrow> yyr1 ! nat r \<in> fst ` set gs))"

lemma check_forward:
  "list_all2 (\<lambda>tr (its, def). list_all (forward tr def) its) (zip rows gotos) (zip items yydefact)"
  unfolding rows_def gotos_def items_def [symmetric] yydefact_def
  by (subst items_def) (simp add: forward_def lr_nth lr_nth_1 cong: nth_weak_cong)

lemma check_backward:
  "list_all2 (\<lambda>(rs, gs) its. list_all (backward its) rs \<and> list_all (backward its) gs) (zip rows gotos) items"
  unfolding rows_def gotos_def
  by (subst items_def) (simp add: backward_def lr_nth lr_nth_1 cong: nth_weak_cong)


lemma check_inner:
  "list_all2 (\<lambda>gs its. list_all (inner its gs) its) gotos items"
  unfolding gotos_def
  by (subst items_def) (simp add: inner_def lr_nth lr_nth_1 cong: nth_weak_cong)

lemma check_rules_of: "all_ix (\<lambda>r N. 2 \<le> r \<longrightarrow> int r \<in> set (rules_of ! nat (N - 54))) 0 yyr1"
  unfolding yyr1_def by (simp add: lr_nth lr_nth_1 cong: nth_weak_cong all_ix_weak_cong)

section \<open>Tokens around a symbol\<close>

text \<open>The tokens a symbol starts with, and the ones that may follow a nonterminal.\<close>

definition heads :: "int \<Rightarrow> int list" where
  "heads X = (if X < 54 then [X] else first ! nat (X - 54))"

definition tails :: "int \<Rightarrow> int list" where
  "tails X = follow ! nat (X - 54)"

fun follows :: "int \<Rightarrow> int list \<Rightarrow> bool" where
  "follows N [] = True"
| "follows N [X] = (54 \<le> X \<longrightarrow> list_all (\<lambda>a. a \<in> set (tails X)) (tails N))"
| "follows N (X # Y # ys) = ((54 \<le> X \<longrightarrow> list_all (\<lambda>a. a \<in> set (tails X)) (heads Y)) \<and> follows N (Y # ys))"

lemma check_firsts:
  "all_ix2 (\<lambda>r N xs. 2 \<le> r \<longrightarrow> xs \<noteq> [] \<and> list_all (\<lambda>a. a \<in> set (heads N)) (heads (hd xs))) 0 yyr1 rules"
  unfolding yyr1_def rules_def
  by (simp add: heads_def lr_nth lr_nth_1 cong: all_ix2_weak_cong nth_weak_cong)

lemma check_follow: "all_ix2 (\<lambda>r N xs. 1 \<le> r \<longrightarrow> follows N xs) 0 yyr1 rules"
  unfolding yyr1_def rules_def
  by (simp add: heads_def tails_def lr_nth lr_nth_1 cong: all_ix2_weak_cong nth_weak_cong)

text \<open>In a state with a finished item no token that may follow the rule's result is shifted.\<close>

lemma check_lookahead:
  "list_all2 (\<lambda>rs its. list_all (\<lambda>(r, d). r = 1 \<or> d < length (rules ! nat r)
      \<or> list_all (\<lambda>a. a \<notin> fst ` set rs) (tails (yyr1 ! nat r))) its) rows items"
  unfolding rows_def
  by (subst items_def) (simp add: tails_def lr_nth lr_nth_1 cong: nth_weak_cong)

lemma check_shifts: "list_all (list_all (\<lambda>(a, t). 0 \<le> a \<and> a < 54 \<and> (a = 0 \<longleftrightarrow> t = 53))) rows"
  unfolding rows_def by simp

lemma check_reductions:
  "all_ix2 (\<lambda>s r its. r = 0 \<or> 1 \<le> r \<and> r < 78 \<and> (r = 1 \<longrightarrow> s = 53) \<and> (r, length (rules ! nat r)) \<in> set its) 0 yydefact items"
  unfolding yydefact_def
  by (subst items_def) (simp add: lr_nth lr_nth_1 cong: nth_weak_cong all_ix2_weak_cong)

text \<open>A weight that every reduction lowers.\<close>

definition weight :: "int \<Rightarrow> nat" where
  "weight X = (if X < 54 then 7 else if X = 64 \<or> X = 72 \<or> X = 73 \<or> X = 79 \<or> X = 82 then 5
     else if X = 56 then 2 else if X = 55 then 1 else 6)"

lemma check_weights:
  "all_ix2 (\<lambda>r N xs. 2 \<le> r \<longrightarrow> weight N < sum_list (map weight xs)) 0 yyr1 rules"
  unfolding yyr1_def rules_def by (simp add: weight_def cong: all_ix2_weak_cong)

lemma check_lengths: "list_all2 (\<lambda>n xs. n = int (length xs)) (tl yyr2) (tl rules)"
  unfolding yyr2_def rules_def by simp

section \<open>Facts about the automaton\<close>

lemma state_nth: "is_state s \<Longrightarrow> nat s < 134 \<and> int (nat s) = s"
  by (auto simp: is_state_def)

lemma row_states: "is_state s \<Longrightarrow> rows ! nat s = (if yypact ! nat s = - 85 then [] else row (yypact ! nat s) 0 yycheck yytable)"
  using list_all2_nthD [OF check_rows, of "nat s"] state_nth [of s] by simp

lemma row_entry:
  assumes "is_state s" "yypact ! nat s \<noteq> - 85"
  shows "(a, t) \<in> set (rows ! nat s) \<longleftrightarrow>
    (let i = yypact ! nat s + a in 0 \<le> i \<and> i \<le> 106 \<and> yycheck ! nat i = a \<and> yytable ! nat i = t)"
  using row_states [OF assms(1)] assms(2) row_iff [of yycheck yytable a t "yypact ! nat s" 0]
  by (auto simp: Let_def)

lemma shift_range:
  assumes "is_state s" "(a, t) \<in> set (rows ! nat s)"
  shows "0 \<le> a \<and> a < 54 \<and> (a = 0 \<longleftrightarrow> t = 53)"
proof -
  have "rows ! nat s \<in> set rows" using state_nth [OF assms(1)] by simp
  with assms(2) check_shifts show ?thesis by (fastforce simp: list_all_iff)
qed

lemma goto_entry:
  assumes "is_state s" "(N, t) \<in> set (gotos ! nat s)"
  shows "55 \<le> N \<and> N < 89 \<and> yygoto s N = Some t"
  using all_ixD [OF check_gotos, of "nat s"] state_nth [OF assms(1)] assms(2) by (auto simp: list_all_iff)

lemma succ_unique:
  assumes "is_state s" "(X, t) \<in> succ_of s" "(X, u) \<in> succ_of s"
  shows "t = u"
proof -
  have "t = u" if "(X, t) \<in> set (rows ! nat s)" "(X, u) \<in> set (rows ! nat s)"
    using that row_entry [OF assms(1)] row_states [OF assms(1)] by (cases "yypact ! nat s = - 85") (auto simp: Let_def)
  moreover have "t = u" if "(X, t) \<in> set (gotos ! nat s)" "(X, u) \<in> set (gotos ! nat s)"
    using goto_entry [OF assms(1) that(1)] goto_entry [OF assms(1) that(2)] by simp
  ultimately show ?thesis
    using assms(2,3) shift_range [OF assms(1)] goto_entry [OF assms(1)] by (fastforce simp: succ_of_def)
qed

lemma succ_back:
  assumes "is_state s" "(X, t) \<in> succ_of s"
  shows "is_state t \<and> t \<noteq> 0 \<and> (\<forall>r d. (r, Suc d) \<in> items_of t \<longrightarrow>
     (r, d) \<in> items_of s \<and> d < length (rhs r) \<and> rhs r ! d = X)"
proof -
  have "backward (items ! nat s) (X, t)"
    using list_all2_nthD [OF check_backward, of "nat s"] state_nth [OF assms(1)] assms(2)
    by (auto simp: succ_of_def list_all_iff)
  moreover have "d < length xs \<and> xs ! d = X" if "take 1 (drop d xs) = [X]" for d and xs :: "int list"
    using that by (cases "drop d xs") (auto simp: nth_via_drop, metis drop_eq_Nil leI list.distinct(1))
  ultimately show ?thesis
    by (fastforce simp: backward_def list_all_iff is_state_def items_of_def rhs_def)
qed

lemma item_next:
  assumes "is_state s" "(r, d) \<in> items_of s" "d < length (rhs r)"
  shows "\<exists>t. (rhs r ! d, t) \<in> (if rhs r ! d < 54 then set (rows ! nat s) else set (gotos ! nat s))
    \<and> (r, Suc d) \<in> items_of t"
proof -
  have "forward (rows ! nat s, gotos ! nat s) (yydefact ! nat s) (r, d)"
    using list_all2_nthD [OF check_forward, of "nat s"] state_nth [OF assms(1)] assms(2)
    by (auto simp: items_of_def list_all_iff)
  then show ?thesis using assms(3)
    by (auto simp: forward_def rhs_def items_of_def Let_def split: option.splits if_splits dest: map_of_SomeD)
qed

lemma item_done:
  assumes "is_state s" "(r, length (rhs r)) \<in> items_of s"
  shows "yydefact ! nat s = r"
proof -
  have "forward (rows ! nat s, gotos ! nat s) (yydefact ! nat s) (r, length (rhs r))"
    using list_all2_nthD [OF check_forward, of "nat s"] state_nth [OF assms(1)] assms(2)
    by (auto simp: items_of_def list_all_iff)
  then show ?thesis by (simp add: forward_def rhs_def)
qed

lemma item_inner:
  assumes "is_state s" "(r, d) \<in> items_of s"
  shows "1 \<le> r \<and> r < 78"
    and "d < length (rhs r) \<Longrightarrow> 2 \<le> q \<Longrightarrow> q < 78 \<Longrightarrow> lhs q = rhs r ! d \<Longrightarrow> 54 \<le> lhs q \<Longrightarrow> (q, 0) \<in> items_of s"
    and "d = 0 \<Longrightarrow> r \<noteq> 1 \<Longrightarrow> \<exists>t. (lhs r, t) \<in> set (gotos ! nat s)"
proof -
  have i: "inner (items ! nat s) (gotos ! nat s) (r, d)"
    using list_all2_nthD [OF check_inner, of "nat s"] state_nth [OF assms(1)] assms(2)
    by (auto simp: items_of_def list_all_iff)
  show "1 \<le> r \<and> r < 78" using i by (simp add: inner_def)
  show "(q, 0) \<in> items_of s" if "d < length (rhs r)" "2 \<le> q" "q < 78" "lhs q = rhs r ! d" "54 \<le> lhs q"
  proof -
    have "q \<in> set (rules_of ! nat (lhs q - 54))"
      using all_ixD [OF check_rules_of, of "nat q"] rule_nth [OF that(2,3)] by (simp add: lhs_def)
    with i that show ?thesis by (auto simp: inner_def Let_def rhs_def items_of_def list_all_iff)
  qed
  show "\<exists>t. (lhs r, t) \<in> set (gotos ! nat s)" if "d = 0" "r \<noteq> 1"
    using i that by (force simp: inner_def lhs_def)
qed

lemma reduction_item:
  assumes "is_state s" "yydefact ! nat s = r" "r \<noteq> 0" "s \<noteq> 53"
  shows "2 \<le> r \<and> r < 78 \<and> (r, length (rhs r)) \<in> items_of s"
  using all_ix2D [OF check_reductions, of "nat s"] state_nth [OF assms(1)] assms(2-4)
  by (auto simp: items_of_def rhs_def)

lemma yyr2_rhs: "1 \<le> r \<Longrightarrow> r < 78 \<Longrightarrow> fetch yyr2 r = Some (int (length (rhs r)))"
  using list_all2_nthD [OF check_lengths, of "nat r - 1"]
  by (auto simp: fetch_def rhs_def nth_tl Suc_diff_Suc)

lemma yyr1_lhs: "1 \<le> r \<Longrightarrow> r < 78 \<Longrightarrow> fetch yyr1 r = Some (lhs r)"
  by (auto simp: fetch_def lhs_def)

lemma rule_weight: "2 \<le> r \<Longrightarrow> r < 78 \<Longrightarrow> weight (lhs r) < sum_list (map weight (rhs r))"
  using all_ix2D [OF check_weights, of "nat r"] rule_nth [of r] by (simp add: lhs_def rhs_def)

lemma rule_first: "2 \<le> r \<Longrightarrow> r < 78 \<Longrightarrow> rhs r \<noteq> [] \<and> set (heads (hd (rhs r))) \<subseteq> set (heads (lhs r))"
  using all_ix2D [OF check_firsts, of "nat r"] rule_nth [of r] by (auto simp: lhs_def rhs_def list_all_iff)

lemma rule_follow: "1 \<le> r \<Longrightarrow> r < 78 \<Longrightarrow> follows (lhs r) (rhs r)"
  using all_ix2D [OF check_follow, of "nat r"] by (simp add: lhs_def rhs_def)

lemma lookahead_free:
  assumes "is_state s" "(r, length (rhs r)) \<in> items_of s" "r \<noteq> 1" "a \<in> set (tails (lhs r))"
  shows "(a, t) \<notin> set (rows ! nat s)"
  using list_all2_nthD [OF check_lookahead, of "nat s"] state_nth [OF assms(1)] assms(2-4)
  by (force simp: items_of_def list_all_iff lhs_def rhs_def)

text \<open>Every state has an accessing symbol, and the start state has only fresh items.\<close>

definition accessing :: "int \<Rightarrow> int" where
  "accessing s = yystos ! nat s"

lemma check_stos: "list_all (list_all (\<lambda>(X, t). yystos ! nat t = X)) rows" "list_all (list_all (\<lambda>(X, t). yystos ! nat t = X)) gotos"
  unfolding rows_def gotos_def
  by (simp_all add: fun_cong [OF arg_cong [OF yystos_def, of nth], of "numeral v" for v]
      fun_cong [OF arg_cong [OF yystos_def, of nth], of "Suc 0"] cong: nth_weak_cong)

lemma succ_accessing:
  assumes "is_state s" "(X, t) \<in> succ_of s"
  shows "accessing t = X"
proof -
  have "rows ! nat s \<in> set rows" "gotos ! nat s \<in> set gotos" using state_nth [OF assms(1)] by simp_all
  with assms(2) check_stos show ?thesis by (fastforce simp: list_all_iff succ_of_def accessing_def)
qed

lemma start_items: "(r, d) \<in> items_of 0 \<Longrightarrow> d = 0" "(1, 0) \<in> items_of 0"
  by (auto simp: items_of_def items_def)

lemma check_start_items: "list_all (\<lambda>its. (1, 0) \<notin> set its) (tl items)"
  unfolding items_def by simp

lemma only_start: "is_state s \<Longrightarrow> (1, 0) \<in> items_of s \<Longrightarrow> s = 0"
proof (rule ccontr)
  assume s: "is_state s" "(1, 0) \<in> items_of s" "s \<noteq> 0"
  then have "items ! nat s = tl items ! (nat s - 1)" "nat s - 1 < length (tl items)"
    using state_nth [of s] by (auto simp: nth_tl is_state_def)
  then have "items ! nat s \<in> set (tl items)" by simp
  with check_start_items s(2) show False by (simp add: list_all_iff items_of_def)
qed

lemma final_items: "items_of 53 = {(1, 2)}"
  by (simp add: items_of_def lr_nth cong: nth_weak_cong)

lemma rhs_1: "rhs 1 = [55, 0]"
  by (simp add: rhs_def rules_def)

lemma check_symbols:
  "all_ix2 (\<lambda>r N xs. 2 \<le> r \<longrightarrow> 55 \<le> N \<and> N < 89 \<and> list_all (\<lambda>X. 0 < X \<and> X < 89) xs) 0 yyr1 rules"
  unfolding yyr1_def rules_def by (simp cong: all_ix2_weak_cong)

lemma rule_symbols:
  assumes "2 \<le> r" "r < 78"
  shows "55 \<le> lhs r \<and> lhs r < 89" and "X \<in> set (rhs r) \<Longrightarrow> 0 < X \<and> X < 89"
  using all_ix2D [OF check_symbols, of "nat r"] rule_nth [OF assms]
  by (auto simp: lhs_def rhs_def list_all_iff)

lemma check_start_rule: "all_ix (\<lambda>r N. 2 \<le> r \<longrightarrow> (N = 55 \<longleftrightarrow> r = 2)) 0 yyr1"
  unfolding yyr1_def by (simp cong: all_ix_weak_cong)

lemma lhs_start: "2 \<le> r \<Longrightarrow> r < 78 \<Longrightarrow> lhs r = 55 \<longleftrightarrow> r = 2"
  using all_ixD [OF check_start_rule, of "nat r"] rule_nth [of r] by (auto simp: lhs_def)

end
