(* ===== verification/LR_Machine.thy ===== *)
theory LR_Machine
  imports LR_Tables
begin

text \<open>
  The LR machine on trees that the parser's tables define, and its correctness with respect to the
  grammar: a run accepts exactly the token sequences of the start symbol and delivers their trees
  (soundness and completeness), every run ends, and the grammar is unambiguous.
\<close>

section \<open>The machine\<close>

text \<open>A configuration is the stack above the start state, with a list of trees per entry, and the input.\<close>

type_synonym stack = "(int \<times> ast list) list"

fun state_of :: "stack \<Rightarrow> int" where
  "state_of [] = 0"
| "state_of ((t, v) # S) = t"

fun ahead :: "token list \<Rightarrow> int" where
  "ahead [] = 0"
| "ahead ((a, v) # w) = a"

datatype action = Shift int | Reduce_by int | Accept | Fail

definition action_of :: "int \<Rightarrow> int \<Rightarrow> action" where
  "action_of s a = (case map_of (rows ! nat s) a of
       Some t \<Rightarrow> if t = 53 then Accept else Shift t
     | None \<Rightarrow> if yydefact ! nat s = 0 then Fail else Reduce_by (yydefact ! nat s))"

inductive lr_step :: "stack \<times> token list \<Rightarrow> stack \<times> token list \<Rightarrow> bool" where
  lr_shift: "action_of (state_of S) a = Shift t \<Longrightarrow> lr_step (S, (a, v) # w) ((t, v) # S, w)"
| lr_reduce: "action_of (state_of S) (ahead w) = Reduce_by r \<Longrightarrow> k = length (rhs r) \<Longrightarrow>
    yygoto (state_of (drop k S)) (lhs r) = Some t \<Longrightarrow>
    lr_step (S, w) ((t, sem r (map snd (rev (take k S)))) # drop k S, w)"

inductive_cases lr_stepE: "lr_step (S, w) c"

definition accepting :: "stack \<Rightarrow> token list \<Rightarrow> bool" where
  "accepting S w \<longleftrightarrow> action_of (state_of S) (ahead w) = Accept"

lemma lr_step_deterministic: "lr_step c d \<Longrightarrow> lr_step c e \<Longrightarrow> d = e"
  by (induction rule: lr_step.induct) (auto elim!: lr_stepE)

section \<open>What a stack stands for\<close>

text \<open>\<open>spells S w\<close>: the entries of \<open>S\<close> derive consecutive parts of \<open>w\<close>, along transitions of the automaton.\<close>

inductive spells :: "stack \<Rightarrow> token list \<Rightarrow> bool" where
  spells_Nil: "spells [] []"
| spells_Cons: "spells S w \<Longrightarrow> derives X u v \<Longrightarrow> (X, t) \<in> succ_of (state_of S) \<Longrightarrow> t \<noteq> 53
    \<Longrightarrow> spells ((t, v) # S) (w @ u)"

inductive_cases spells_NilE: "spells [] w"
inductive_cases spells_ConsE: "spells ((t, v) # S) w"

lemma spells_state: "spells S w \<Longrightarrow> is_state (state_of S) \<and> state_of S \<noteq> 53"
  by (induction rule: spells.induct) (auto simp: is_state_def [of 0] dest: succ_back)

lemma spells_past:
  assumes "spells S w" "(r, d) \<in> items_of (state_of S)"
  shows "d \<le> length S \<and> d \<le> length (rhs r) \<and> map (\<lambda>e. accessing (fst e)) (rev (take d S)) = take d (rhs r)
    \<and> (r, 0) \<in> items_of (state_of (drop d S))
    \<and> (\<exists>w1 w2. w = w1 @ w2 \<and> spells (drop d S) w1 \<and> derives_all (take d (rhs r)) w2 (map snd (rev (take d S))))"
  using assms
proof (induction d arbitrary: S w)
  case 0
  then show ?case by (auto intro: der_nil)
next
  case (Suc d)
  then obtain t v S' where S: "S = (t, v) # S'"
    using start_items(1) [of r "Suc d"] by (cases S) auto
  with Suc.prems(1) obtain w' u X where w: "w = w' @ u" "spells S' w'" "derives X u v" "(X, t) \<in> succ_of (state_of S')"
    by (auto elim: spells_ConsE)
  have st: "is_state (state_of S')" using spells_state [OF w(2)] by simp
  have b: "(r, d) \<in> items_of (state_of S')" "d < length (rhs r)" "rhs r ! d = X"
    using succ_back [OF st w(4)] Suc.prems(2) S by auto
  have sym: "accessing t = X" by (rule succ_accessing [OF st w(4)])
  from Suc.IH [OF w(2) b(1)] obtain w1 w2 where IH: "d \<le> length S'"
    "map (\<lambda>e. accessing (fst e)) (rev (take d S')) = take d (rhs r)" "(r, 0) \<in> items_of (state_of (drop d S'))"
    "w' = w1 @ w2" "spells (drop d S') w1" "derives_all (take d (rhs r)) w2 (map snd (rev (take d S')))" by blast
  have "derives_all (take (Suc d) (rhs r)) (w2 @ u) (map snd (rev (take (Suc d) S)))"
    using derives_all_append [OF IH(6) derives_all_single [OF w(3)]] b(2,3) S
    by (simp add: take_Suc_conv_app_nth)
  then show ?case using IH b S sym w(1) by (auto simp: take_Suc_conv_app_nth Suc_le_eq)
qed

section \<open>Soundness\<close>

lemma action_shift:
  assumes "is_state s" "action_of s a = Shift t"
  shows "(a, t) \<in> set (rows ! nat s) \<and> t \<noteq> 53 \<and> a \<noteq> 0 \<and> a < 54 \<and> 0 \<le> a"
proof -
  have "(a, t) \<in> set (rows ! nat s)" "t \<noteq> 53"
    using assms(2) by (auto simp: action_of_def split: option.splits if_splits dest: map_of_SomeD)
  with shift_range [OF assms(1)] show ?thesis by blast
qed

lemma action_reduce:
  "is_state s \<Longrightarrow> s \<noteq> 53 \<Longrightarrow> action_of s a = Reduce_by r \<Longrightarrow> 2 \<le> r \<and> r < 78 \<and> (r, length (rhs r)) \<in> items_of s"
  by (rule reduction_item) (auto simp: action_of_def split: option.splits if_splits)

text \<open>A reduction finds its right-hand side on the stack and a transition for its result below.\<close>

lemma spells_reduce:
  assumes "spells S w" "action_of (state_of S) a = Reduce_by r" "k = length (rhs r)"
  obtains w1 w2 t where "w = w1 @ w2" "2 \<le> r" "r < 78" "k \<le> length S" "map (\<lambda>e. accessing (fst e)) (rev (take k S)) = rhs r"
    "spells (drop k S) w1" "derives_all (rhs r) w2 (map snd (rev (take k S)))"
    "yygoto (state_of (drop k S)) (lhs r) = Some t" "(lhs r, t) \<in> succ_of (state_of (drop k S))" "t \<noteq> 53"
proof -
  have st: "is_state (state_of S)" "state_of S \<noteq> 53" using spells_state [OF assms(1)] by auto
  have r: "2 \<le> r" "r < 78" "(r, length (rhs r)) \<in> items_of (state_of S)"
    using action_reduce [OF st assms(2)] by auto
  from spells_past [OF assms(1) r(3)] obtain w1 w2 where p: "k \<le> length S" "map (\<lambda>e. accessing (fst e)) (rev (take k S)) = rhs r"
    "(r, 0) \<in> items_of (state_of (drop k S))" "w = w1 @ w2" "spells (drop k S) w1"
    "derives_all (rhs r) w2 (map snd (rev (take k S)))" using assms(3) by auto
  have st': "is_state (state_of (drop k S))" using spells_state [OF p(5)] by simp
  obtain t where t: "(lhs r, t) \<in> set (gotos ! nat (state_of (drop k S)))"
    using item_inner(3) [OF st' p(3)] r(1) by auto
  have g: "55 \<le> lhs r" "yygoto (state_of (drop k S)) (lhs r) = Some t" using goto_entry [OF st' t] by auto
  have s: "(lhs r, t) \<in> succ_of (state_of (drop k S))" using t by (simp add: succ_of_def)
  have "t \<noteq> 53"
  proof
    assume "t = 53"
    with succ_back [OF st' s] final_items have "rhs 1 ! 1 = lhs r" by (auto simp: numeral_2_eq_2)
    with g(1) show False by (simp add: rhs_1)
  qed
  with that p r g s show ?thesis by blast
qed

lemma lr_step_spells:
  assumes "lr_step (S, w) (S', w')" "spells S x"
  shows "\<exists>u. w = u @ w' \<and> spells S' (x @ u)"
  using assms(1)
proof (cases rule: lr_step.cases)
  case (lr_shift a t v)
  have st: "is_state (state_of S)" using spells_state [OF assms(2)] by simp
  note a = action_shift [OF st lr_shift(3)]
  then have "derives a [(a, v)] v" by (intro der_tok) auto
  with a assms(2) have "spells ((t, v) # S) (x @ [(a, v)])" by (intro spells_Cons) (auto simp: succ_of_def)
  with lr_shift show ?thesis by simp
next
  case (lr_reduce r k t)
  obtain w1 w2 where s: "x = w1 @ w2" "2 \<le> r" "r < 78" "spells (drop k S) w1"
    "derives_all (rhs r) w2 (map snd (rev (take k S)))" "(lhs r, t) \<in> succ_of (state_of (drop k S))" "t \<noteq> 53"
    by (rule spells_reduce [OF assms(2) lr_reduce(3,4)]) (use lr_reduce(5) in auto)
  have "derives (lhs r) w2 (sem r (map snd (rev (take k S))))" by (rule der_rule [OF s(2,3,5)])
  from spells_Cons [OF s(4) this s(6,7)] s(1) lr_reduce(1,2) show ?thesis by simp
qed

lemma lr_run_spells:
  assumes "lr_step\<^sup>*\<^sup>* (S, w) (S', w')" "spells S x"
  shows "\<exists>u. w = u @ w' \<and> spells S' (x @ u)"
  using assms
proof (induction "(S, w)" arbitrary: S w x rule: converse_rtranclp_induct)
  case (step c)
  obtain T v where c: "c = (T, v)" by (cases c)
  obtain u where u: "w = u @ v" "spells T (x @ u)" using lr_step_spells [OF _ step.prems] step.hyps(1) c by blast
  from step.hyps(3) [OF c u(2)] u(1) show ?case by auto
qed simp

lemma accepting_spells:
  assumes "accepting S w" "spells S x" "well_lexed w"
  shows "w = [] \<and> (\<exists>t v. S = [(t, v)] \<and> derives 55 x v)"
proof -
  have st: "is_state (state_of S)" "state_of S \<noteq> 53" using spells_state [OF assms(2)] by auto
  have "(ahead w, 53) \<in> set (rows ! nat (state_of S))"
    using assms(1) by (auto simp: accepting_def action_of_def split: option.splits if_splits dest: map_of_SomeD)
  then have s: "(ahead w, 53) \<in> succ_of (state_of S)" "ahead w = 0"
    using shift_range [OF st(1)] by (auto simp: succ_of_def)
  then have "w = []" using assms(3) by (cases w) (auto simp: well_lexed_def)
  moreover have i: "(1, 1) \<in> items_of (state_of S)"
    using succ_back [OF st(1) s(1)] final_items by (auto simp: numeral_2_eq_2)
  from spells_past [OF assms(2) i] obtain w1 w2 where p: "1 \<le> length S" "(1, 0) \<in> items_of (state_of (drop 1 S))"
    "x = w1 @ w2" "spells (drop 1 S) w1" "derives_all [55] w2 (map snd (rev (take 1 S)))" by (auto simp: rhs_1)
  obtain t v S' where S: "S = (t, v) # S'" using p(1) by (cases S) auto
  have "S' = []"
  proof (rule ccontr)
    assume "S' \<noteq> []"
    then obtain t' v' S'' where S': "S' = (t', v') # S''" by (cases S') auto
    have "state_of S' = 0" using only_start p(2) spells_state [OF p(4)] S by simp
    moreover have "t' \<noteq> 0"
      using p(4) S S' by (auto elim!: spells_ConsE dest: succ_back [OF conjunct1 [OF spells_state]])
    ultimately show False using S' by simp
  qed
  moreover from this have "w1 = []" using p(4) S by (auto elim: spells_NilE)
  moreover have "derives 55 w2 v"
    using p(5) S by (auto elim!: derives_all_ConsE derives_all_NilE)
  ultimately show ?thesis using p(3) S by simp
qed

lemma lr_sound:
  assumes "lr_step\<^sup>*\<^sup>* ([], w) (S, w')" "accepting S w'" "well_lexed w"
  shows "\<exists>t v. S = [(t, v)] \<and> w' = [] \<and> derives 55 w v"
proof -
  obtain u where "w = u @ w'" "spells S u" using lr_run_spells [OF assms(1) spells_Nil] by auto
  with accepting_spells [OF assms(2)] assms(3) show ?thesis by auto
qed

section \<open>Completeness\<close>

lemma map_of_row:
  assumes "is_state s" "(a, t) \<in> set (rows ! nat s)"
  shows "map_of (rows ! nat s) a = Some t"
proof -
  obtain u where u: "map_of (rows ! nat s) a = Some u"
    using assms(2) by (meson not_Some_eq weak_map_of_SomeI)
  with succ_unique [OF assms(1), of a u t] assms(2) show ?thesis by (auto simp: succ_of_def dest: map_of_SomeD)
qed

lemma derives_heads:
  "derives X w v \<Longrightarrow> w \<noteq> [] \<and> ahead w \<in> set (heads X)"
  "derives_all Xs w vs \<Longrightarrow> Xs \<noteq> [] \<Longrightarrow> w \<noteq> [] \<and> ahead w \<in> set (heads (hd Xs))"
proof (induction rule: derives_derives_all.inducts)
  case (der_rule r w vs)
  then show ?case using rule_first [of r] by auto
next
  case (der_cons X w v Xs ws vs)
  then show ?case by (cases w) auto
qed (auto simp: heads_def)

lemma follows_drop: "follows N xs \<Longrightarrow> follows N (drop d xs)"
proof (induction d arbitrary: xs)
  case (Suc d)
  have "follows N (tl xs)" using Suc.prems by (cases "(N, xs)" rule: follows.cases) auto
  from Suc.IH [OF this] show ?case by (simp add: drop_Suc)
qed simp

lemma drop_ConsD: "drop d xs = x # ys \<Longrightarrow> d < length xs \<and> xs ! d = x \<and> drop (Suc d) xs = ys"
  by (metis Cons_nth_drop_Suc drop_eq_Nil linorder_not_le list.distinct(1) list.inject)

lemma follow_next:
  assumes "1 \<le> r" "r < 78" "drop d (rhs r) = X # Xs" "54 \<le> X" "derives_all Xs ws vs"
    and "Xs = [] \<Longrightarrow> ahead z \<in> set (tails (lhs r))"
  shows "ahead (ws @ z) \<in> set (tails X)"
proof -
  have f: "follows (lhs r) (X # Xs)" using follows_drop [OF rule_follow [OF assms(1,2)], of d] assms(3) by simp
  show ?thesis
  proof (cases Xs)
    case Nil
    with f assms(4,5,6) show ?thesis by (auto simp: list_all_iff elim: derives_all_NilE)
  next
    case (Cons Y Ys)
    with derives_heads(2) [OF assms(5)] have "ahead (ws @ z) \<in> set (heads Y)" by (cases ws) auto
    with f assms(4) Cons show ?thesis by (simp add: list_all_iff)
  qed
qed

lemma lr_run_shift:
  assumes "is_state (state_of S)" "(a, t) \<in> set (rows ! nat (state_of S))" "a \<noteq> 0"
  shows "lr_step (S, (a, v) # z) ((t, v) # S, z)"
  using shift_range [OF assms(1,2)] map_of_row [OF assms(1,2)] assms(3)
  by (intro lr_shift) (auto simp: action_of_def)

lemma lr_run_reduce:
  assumes "is_state (state_of (R @ S))" "(r, length (rhs r)) \<in> items_of (state_of (R @ S))" "2 \<le> r"
    "ahead z \<in> set (tails (lhs r))" "length R = length (rhs r)" "yygoto (state_of S) (lhs r) = Some t"
  shows "lr_step (R @ S, z) ((t, sem r (map snd (rev R))) # S, z)"
proof -
  have "map_of (rows ! nat (state_of (R @ S))) (ahead z) = None"
    using lookahead_free [OF assms(1,2) _ assms(4)] assms(3) by (auto simp: map_of_eq_None_iff)
  then have "action_of (state_of (R @ S)) (ahead z) = Reduce_by r"
    using item_done [OF assms(1,2)] assms(3) by (simp add: action_of_def)
  moreover have "drop (length (rhs r)) (R @ S) = S" "take (length (rhs r)) (R @ S) = R"
    by (simp_all only: assms(5) [symmetric]) simp_all
  ultimately show ?thesis using lr_reduce [of "R @ S" z r, OF _ refl, of t] assms(6) by simp
qed

lemma lr_complete:
  "derives X w v \<Longrightarrow> is_state (state_of S) \<Longrightarrow> (r, d) \<in> items_of (state_of S) \<Longrightarrow> d < length (rhs r) \<Longrightarrow> rhs r ! d = X
    \<Longrightarrow> X \<noteq> 0 \<Longrightarrow> (54 \<le> X \<Longrightarrow> ahead z \<in> set (tails X))
    \<Longrightarrow> \<exists>t. (X, t) \<in> succ_of (state_of S) \<and> lr_step\<^sup>*\<^sup>* (S, w @ z) ((t, v) # S, z)"
  "derives_all Xs w vs \<Longrightarrow> is_state (state_of S) \<Longrightarrow> (r, d) \<in> items_of (state_of S) \<Longrightarrow> d \<le> length (rhs r)
    \<Longrightarrow> drop d (rhs r) = Xs \<Longrightarrow> 2 \<le> r \<Longrightarrow> ahead z \<in> set (tails (lhs r))
    \<Longrightarrow> \<exists>R. lr_step\<^sup>*\<^sup>* (S, w @ z) (R @ S, z) \<and> map snd (rev R) = vs \<and> length R = length Xs
      \<and> is_state (state_of (R @ S)) \<and> (r, length (rhs r)) \<in> items_of (state_of (R @ S))"
proof (induction arbitrary: S r d z and S r d z rule: derives_derives_all.inducts)
  case (der_tok a v)
  obtain t where "(a, t) \<in> set (rows ! nat (state_of S))" using item_next [OF der_tok.prems(1-3)] der_tok by auto
  with lr_run_shift [OF der_tok.prems(1) this, of v z] der_tok.prems(5) show ?case
    by (auto simp: succ_of_def)
next
  case (der_rule q w vs)
  have l: "55 \<le> lhs q" using rule_symbols(1) [OF der_rule.hyps(1,2)] by simp
  have i: "(q, 0) \<in> items_of (state_of S)"
    using item_inner(2) [OF der_rule.prems(1,2,3) der_rule.hyps(1,2)] der_rule.prems(4) l by simp
  have z: "ahead z \<in> set (tails (lhs q))" using der_rule.prems(6) l by simp
  from der_rule.IH [OF der_rule.prems(1) i _ _ der_rule.hyps(1) z] obtain R where
    R: "lr_step\<^sup>*\<^sup>* (S, w @ z) (R @ S, z)" "map snd (rev R) = vs" "length R = length (rhs q)"
      "is_state (state_of (R @ S))" "(q, length (rhs q)) \<in> items_of (state_of (R @ S))" by auto
  obtain t where t: "(lhs q, t) \<in> set (gotos ! nat (state_of S))"
    using item_next [OF der_rule.prems(1-3)] der_rule.prems(4) l by auto
  have g: "yygoto (state_of S) (lhs q) = Some t" using goto_entry [OF der_rule.prems(1) t] by simp
  from lr_run_reduce [OF R(4,5) der_rule.hyps(1) z R(3) g] R(1,2) t show ?case
    by (auto simp: succ_of_def intro: rtranclp.rtrancl_into_rtrancl)
next
  case der_nil
  then show ?case by (intro exI [of _ "[]"]) auto
next
  case (der_cons X w v Xs ws vs)
  have r: "r < 78" using item_inner(1) [OF der_cons.prems(1,2)] by simp
  have d: "d < length (rhs r)" "rhs r ! d = X" "drop (Suc d) (rhs r) = Xs"
    using drop_ConsD [OF der_cons.prems(4)] by simp_all
  have X: "X \<noteq> 0" using rule_symbols(2) [OF der_cons.prems(5) r nth_mem [OF d(1)]] d(2) by auto
  have a: "ahead (ws @ z) \<in> set (tails X)" if "54 \<le> X"
    using follow_next [OF _ r der_cons.prems(4) that der_cons.hyps(2)] der_cons.prems(5,6) by simp
  from der_cons.IH(1) [OF der_cons.prems(1,2) d(1,2) X a] obtain t where
    t: "(X, t) \<in> succ_of (state_of S)" "lr_step\<^sup>*\<^sup>* (S, w @ ws @ z) ((t, v) # S, ws @ z)" by blast
  obtain u where "(X, u) \<in> succ_of (state_of S)" "(r, Suc d) \<in> items_of u"
    using item_next [OF der_cons.prems(1,2) d(1)] d(2) by (auto simp: succ_of_def split: if_splits)
  with succ_unique [OF der_cons.prems(1) t(1)] have "(r, Suc d) \<in> items_of (state_of ((t, v) # S))" by simp
  moreover have "is_state (state_of ((t, v) # S))" using succ_back [OF der_cons.prems(1) t(1)] by simp
  ultimately obtain R where "lr_step\<^sup>*\<^sup>* ((t, v) # S, ws @ z) (R @ (t, v) # S, z)" "map snd (rev R) = vs"
    "length R = length Xs" "is_state (state_of (R @ (t, v) # S))"
    "(r, length (rhs r)) \<in> items_of (state_of (R @ (t, v) # S))"
    using der_cons.IH(2) [of "(t, v) # S" r "Suc d" z] d der_cons.prems(5,6) by auto
  with t(2) show ?case by (intro exI [of _ "R @ [(t, v)]"]) auto
qed

lemma start_follow: "0 \<in> set (tails 55)"
  using rule_follow [of 1] by (simp add: rhs_1 heads_def)

lemma lr_accepts_at_start:
  assumes "derives 55 w v"
  shows "\<exists>t. lr_step\<^sup>*\<^sup>* ([], w) ([(t, v)], []) \<and> accepting [(t, v)] [] \<and> accessing t = 55"
proof -
  have z: "is_state (state_of [])" "(1, 0) \<in> items_of (state_of [])" "0 < length (rhs 1)" "rhs 1 ! 0 = 55"
    using start_items(2) by (simp_all add: is_state_def rhs_1)
  from lr_complete(1) [OF assms z, of "[]"] start_follow obtain t where
    t: "(55, t) \<in> succ_of 0" "lr_step\<^sup>*\<^sup>* ([], w) ([(t, v)], [])" by auto
  obtain u where "(55, u) \<in> succ_of 0" "(1, 1) \<in> items_of u"
    using item_next [OF z(1-3)] z(4) by (auto simp: succ_of_def)
  with succ_unique [of 0 55 t u] t(1) z(1) have i: "(1, 1) \<in> items_of t" by simp
  have st: "is_state t" using succ_back [OF _ t(1)] z(1) by simp
  obtain u' where u': "(0, u') \<in> set (rows ! nat t)" using item_next [OF st i] by (auto simp: rhs_1)
  then have "accepting [(t, v)] []"
    using map_of_row [OF st u'] shift_range [OF st u'] by (simp add: accepting_def action_of_def)
  moreover have "accessing t = 55" using succ_accessing [OF _ t(1)] z(1) by simp
  ultimately show ?thesis using t(2) by blast
qed

lemma lr_accepts: "derives 55 w v \<Longrightarrow> \<exists>t. lr_step\<^sup>*\<^sup>* ([], w) ([(t, v)], []) \<and> accepting [(t, v)] []"
  using lr_accepts_at_start by blast

section \<open>Termination\<close>

definition potential :: "stack \<times> token list \<Rightarrow> nat" where
  "potential c = 8 * length (snd c) + sum_list (map (\<lambda>e. weight (accessing (fst e))) (fst c))"

lemma weight_le: "weight X \<le> 7"
  by (simp add: weight_def)

lemma weights_split:
  "sum_list (map (\<lambda>e. weight (accessing (fst e))) (S :: stack)) =
     sum_list (map weight (map (\<lambda>e. accessing (fst e)) (rev (take k S))))
     + sum_list (map (\<lambda>e. weight (accessing (fst e))) (drop k S))"
proof -
  let ?f = "\<lambda>e :: int \<times> ast list. weight (accessing (fst e))"
  have "sum_list (map ?f S) = sum_list (map ?f (take k S)) + sum_list (map ?f (drop k S))"
    by (metis append_take_drop_id map_append sum_list_append)
  then show ?thesis by (simp add: o_def sum_list_rev flip: rev_map)
qed

lemma lr_step_potential:
  assumes "lr_step c c'" "spells (fst c) x"
  shows "potential c' < potential c"
  using assms
proof (cases rule: lr_step.cases)
  case (lr_shift S a t v w)
  then show ?thesis using weight_le [of "accessing t"] by (simp add: potential_def)
next
  case (lr_reduce S w r k t)
  have sp: "spells S x" using assms(2) lr_reduce by simp
  from spells_reduce [OF sp lr_reduce(3,4)] lr_reduce(5) have
    s: "2 \<le> r" "r < 78" "map (\<lambda>e. accessing (fst e)) (rev (take k S)) = rhs r" "(lhs r, t) \<in> succ_of (state_of (drop k S))"
    by auto
  obtain y where "spells (drop k S) y" using spells_reduce [OF sp lr_reduce(3,4)] by blast
  then have "accessing t = lhs r" using succ_accessing s(4) spells_state by blast
  with rule_weight [OF s(1,2)] weights_split [of S k] s(3) lr_reduce(1,2) show ?thesis
    by (simp add: potential_def)
qed

lemma lr_progress:
  assumes "spells S x" "action_of (state_of S) (ahead w) \<noteq> Accept" "action_of (state_of S) (ahead w) \<noteq> Fail"
  shows "\<exists>c. lr_step (S, w) c"
proof (cases "action_of (state_of S) (ahead w)")
  case (Shift t)
  have "ahead w \<noteq> 0" using action_shift [OF _ Shift] spells_state [OF assms(1)] by simp
  then obtain a v w' where "w = (a, v) # w'" by (cases w) auto
  with Shift show ?thesis using lr_shift [of S a t v w'] by auto
next
  case (Reduce_by r)
  from spells_reduce [OF assms(1) Reduce_by refl] lr_reduce [OF Reduce_by refl] show ?thesis by metis
qed (use assms in auto)

lemma lr_terminates:
  assumes "spells S x"
  shows "\<exists>S' w'. lr_step\<^sup>*\<^sup>* (S, w) (S', w') \<and> (accepting S' w' \<or> action_of (state_of S') (ahead w') = Fail)"
  using assms
proof (induction "potential (S, w)" arbitrary: S w x rule: less_induct)
  case less
  show ?case
  proof (cases "accepting S w \<or> action_of (state_of S) (ahead w) = Fail")
    case False
    then obtain S1 w1 where s: "lr_step (S, w) (S1, w1)"
      using lr_progress [OF less.prems, of w] by (auto simp: accepting_def)
    obtain u where "spells S1 (x @ u)" using lr_step_spells [OF s less.prems] by blast
    moreover have "potential (S1, w1) < potential (S, w)" using lr_step_potential [OF s, of x] less.prems by simp
    ultimately show ?thesis using less.hyps s by (meson converse_rtranclp_into_rtranclp)
  qed auto
qed

section \<open>Unambiguity\<close>

lemma final_no_step: "accepting S w \<or> action_of (state_of S) (ahead w) = Fail \<Longrightarrow> \<not> lr_step (S, w) c"
  by (auto simp: accepting_def elim: lr_stepE)

lemma lr_run_unique:
  assumes "lr_step\<^sup>*\<^sup>* c d" "lr_step\<^sup>*\<^sup>* c e" "\<And>x. \<not> lr_step d x" "\<And>x. \<not> lr_step e x"
  shows "d = e"
  using assms(1,2)
proof (induction rule: converse_rtranclp_induct)
  case base
  then show ?case using assms(3) by (metis converse_rtranclpE)
next
  case (step y z)
  then show ?case using assms(4) lr_step_deterministic by (metis converse_rtranclpE)
qed

lemma grammar_unique:
  assumes "derives 55 w v" "derives 55 w v'"
  shows "v = v'"
proof -
  obtain t where t: "lr_step\<^sup>*\<^sup>* ([], w) ([(t, v)], [])" "accepting [(t, v)] []" using lr_accepts [OF assms(1)] by blast
  obtain u where u: "lr_step\<^sup>*\<^sup>* ([], w) ([(u, v')], [])" "accepting [(u, v')] []" using lr_accepts [OF assms(2)] by blast
  from lr_run_unique [OF t(1) u(1)] t(2) u(2) final_no_step show ?thesis by auto
qed

end
