(* ===== verification/Yacc_Actions.thy ===== *)
theory Yacc_Actions
  imports LR_Tables
begin

text \<open>
  The semantic actions of the parser build the trees of the grammar: run on cells that hold the trees
  of a rule's right-hand side, the action of rule \<open>r\<close> returns a cell that holds \<open>sem r\<close> of these trees
  and touches no other tree of the store.
\<close>

section \<open>Steps of an action\<close>

text \<open>
  \<open>delivers g0 m L v\<close>: the action \<open>m\<close>, started in \<open>g0\<close>, returns a cell with the trees \<open>v\<close>, keeps the
  cells \<open>L\<close>, and changes nothing else of the parser's globals.
\<close>

definition delivers :: "parser_state \<Rightarrow> (nat option \<times> parser_state) option
    \<Rightarrow> (nat option \<times> ast list) list \<Rightarrow> ast list \<Rightarrow> bool" where
  "delivers g0 m L v \<longleftrightarrow> (\<exists>p g. m = Some (p, g) \<and> same_globals g0 g \<and> holds g ((p, v) # L))"

lemma holds_nonempty: "holds g ((p, t # ts) # L) \<Longrightarrow> \<exists>a. p = Some a"
  by (cases p) (auto simp: holds_Cons elim: forest_NoneE)

lemma holds_swap: "holds g (x # y # K) \<Longrightarrow> holds g (y # x # K)"
  by (rule holds_perm) auto

lemma run_done: "holds g ((p, v) # L) \<Longrightarrow> same_globals g0 g \<Longrightarrow> delivers g0 (Some (p, g)) L v"
  by (auto simp: delivers_def)

lemma run_create:
  assumes "holds g K" "same_globals g0 g" "copy_val ty w = Some w'"
    and "\<And>a g'. holds g' ((Some a, [Node ty w' []]) # K) \<Longrightarrow> same_globals g0 g' \<Longrightarrow> delivers g0 (f a g') L v"
  shows "delivers g0 (CreateSyntaxNode ty w g \<bind> (\<lambda>(y, g). f y g)) L v"
proof -
  obtain a g' where "CreateSyntaxNode ty w g = Some (a, g')" "same_globals g g'" "holds g' ((Some a, [Node ty w' []]) # K)"
    using create_holds [OF assms(1,3)] by blast
  with assms(4) [of g' a] same_globals_trans [OF assms(2)] show ?thesis by simp
qed

lemma run_add:
  assumes "holds g ((p, [Node ty w cs]) # (q, us) # K)" "same_globals g0 g"
    and "\<And>g'. holds g' ((p, [Node ty w (cs @ us)]) # K) \<Longrightarrow> same_globals g0 g' \<Longrightarrow> delivers g0 (f g') L v"
  shows "delivers g0 (SyntaxNodeAddChildren p q g \<bind> f) L v"
proof -
  obtain a where p: "p = Some a" using holds_nonempty [OF assms(1)] by blast
  obtain g' where "SyntaxNodeAddChildren p q g = Some g'" "same_globals g g'" "holds g' ((p, [Node ty w (cs @ us)]) # K)"
    using add_children_holds [of g a] assms(1) unfolding p by blast
  with assms(3) [of g'] same_globals_trans [OF assms(2)] show ?thesis by simp
qed

lemma run_add_swapped:
  assumes "holds g ((q, us) # (p, [Node ty w cs]) # K)" "same_globals g0 g"
    and "\<And>g'. holds g' ((p, [Node ty w (cs @ us)]) # K) \<Longrightarrow> same_globals g0 g' \<Longrightarrow> delivers g0 (f g') L v"
  shows "delivers g0 (SyntaxNodeAddChildren p q g \<bind> f) L v"
  by (rule run_add [OF holds_swap [OF assms(1)] assms(2,3)])

text \<open>Below a node that is not the first cell, and to the node behind the one being filled.\<close>

lemma run_add_over:
  assumes "holds g ((p, [Node ty w cs]) # x # (q, us) # K)" "same_globals g0 g"
    and "\<And>g'. holds g' ((p, [Node ty w (cs @ us)]) # x # K) \<Longrightarrow> same_globals g0 g' \<Longrightarrow> delivers g0 (f g') L v"
  shows "delivers g0 (SyntaxNodeAddChildren p q g \<bind> f) L v"
  by (rule run_add [where K = "x # K", OF _ assms(2,3)]) (rule holds_perm [OF assms(1)], simp)

lemma run_add_far:
  assumes "holds g ((p, [Node ty w cs]) # x # y # (q, us) # K)" "same_globals g0 g"
    and "\<And>g'. holds g' ((p, [Node ty w (cs @ us)]) # x # y # K) \<Longrightarrow> same_globals g0 g' \<Longrightarrow> delivers g0 (f g') L v"
  shows "delivers g0 (SyntaxNodeAddChildren p q g \<bind> f) L v"
  by (rule run_add [where K = "x # y # K", OF _ assms(2,3)]) (rule holds_perm [OF assms(1)], simp)

lemma run_add_second:
  assumes "holds g (x # (p, [Node ty w cs]) # (q, us) # K)" "same_globals g0 g"
    and "\<And>g'. holds g' (x # (p, [Node ty w (cs @ us)]) # K) \<Longrightarrow> same_globals g0 g' \<Longrightarrow> delivers g0 (f g') L v"
  shows "delivers g0 (SyntaxNodeAddChildren p q g \<bind> f) L v"
proof (rule run_add [OF _ assms(2)])
  show "holds g ((p, [Node ty w cs]) # (q, us) # x # K)" by (rule holds_perm [OF assms(1)]) simp
  show "delivers g0 (f g') L v" if "holds g' ((p, [Node ty w (cs @ us)]) # x # K)" "same_globals g0 g'" for g'
    by (rule assms(3) [OF holds_swap [OF that(1)] that(2)])
qed

lemma run_sibling:
  assumes "holds g ((p, ts) # (q, us) # K)" "same_globals g0 g" "ts \<noteq> []" "us \<noteq> []"
    and "\<And>g'. holds g' ((p, ts @ us) # K) \<Longrightarrow> same_globals g0 g' \<Longrightarrow> delivers g0 (f g') L v"
  shows "delivers g0 (SyntaxNodeAddSibling p q g \<bind> f) L v"
proof -
  obtain a where p: "p = Some a" using holds_nonempty [of g p "hd ts" "tl ts"] assms(1,3) by auto
  obtain b where q: "q = Some b" using holds_nonempty [of g q "hd us" "tl us"] holds_drop [OF assms(1)] assms(4) by auto
  obtain g' where "SyntaxNodeAddSibling p q g = Some g'" "same_globals g g'" "holds g' ((p, ts @ us) # K)"
    using add_sibling_holds [of g a] assms(1) unfolding p q by blast
  with assms(5) [of g'] same_globals_trans [OF assms(2)] show ?thesis by simp
qed

section \<open>The actions of the rules\<close>

text \<open>The cells of the symbols that have a value.\<close>

fun owned :: "int list \<Rightarrow> nat option list \<Rightarrow> ast list list \<Rightarrow> (nat option \<times> ast list) list" where
  "owned (X # Xs) (p # ps) (v # vs) = (if valued X then (p, v) # owned Xs ps vs else owned Xs ps vs)"
| "owned Xs ps vs = []"

lemma shape_node: "shape 74 v \<longleftrightarrow> (\<exists>ty w cs. v = [Node ty w cs])" "shape 77 v \<longleftrightarrow> (\<exists>ty w cs. v = [Node ty w cs])"
  by (auto simp: shape_def length_one)

lemma shape_other: "X \<noteq> 74 \<Longrightarrow> X \<noteq> 77 \<Longrightarrow> shape X v \<longleftrightarrow> (valued X \<longrightarrow> v \<noteq> [])"
  by (simp add: shape_def)

lemmas rhs_simps = rhs_def lr_nth list_all2_Cons1 length_Suc_conv valued_def dollar_def shape_node shape_other

lemmas run_adds = run_add run_add_over run_add_far run_add_swapped run_add_second

lemma act_definition_cases: "22 \<le> r \<Longrightarrow> r \<le> 38 \<Longrightarrow>
     r = 22 \<or> r = 23 \<or> r = 24 \<or> r = 25 \<or> r = 26 \<or> r = 27 \<or> r = 28 \<or> r = 29 \<or> r = 30 \<or>
     r = 31 \<or> r = 32 \<or> r = 33 \<or> r = 34 \<or> r = 35 \<or> r = 36 \<or> r = 37 \<or> r = 38" for r :: int
  by presburger

lemma act_definition_ok:
  assumes "22 \<le> r" "r \<le> 38" "list_all2 shape (rhs r) vs" "length ps = length (rhs r)"
    "holds g (owned (rhs r) ps vs @ L)"
  shows "delivers g (act_definition r ps y g) L (sem r vs)"
  using act_definition_cases [OF assms(1,2)] assms(3-5)
  by (elim disjE; clarsimp simp: rhs_simps act_definition_def sem_def cong: nth_weak_cong)
    (((rule run_create, assumption, (assumption | simp), simp add: copy_val_def) | (erule run_adds, (assumption | simp))
        | (erule run_sibling, simp, simp, simp) | (rule run_done, simp, simp))+)

lemma act_query_cases: "39 \<le> r \<Longrightarrow> r \<le> 62 \<Longrightarrow>
     r = 39 \<or> r = 40 \<or> r = 41 \<or> r = 42 \<or> r = 43 \<or> r = 44 \<or> r = 45 \<or> r = 46 \<or> r = 47 \<or>
     r = 48 \<or> r = 49 \<or> r = 50 \<or> r = 51 \<or> r = 52 \<or> r = 53 \<or> r = 54 \<or> r = 55 \<or> r = 56 \<or>
     r = 57 \<or> r = 58 \<or> r = 59 \<or> r = 60 \<or> r = 61 \<or> r = 62" for r :: int
  by presburger

lemma act_query_ok:
  assumes "39 \<le> r" "r \<le> 62" "list_all2 shape (rhs r) vs" "length ps = length (rhs r)"
    "holds g (owned (rhs r) ps vs @ L)"
  shows "delivers g (act_query r ps y g) L (sem r vs)"
  using act_query_cases [OF assms(1,2)] assms(3-5)
  by (elim disjE; clarsimp simp: rhs_simps act_query_def sem_def cong: nth_weak_cong)
    (((rule run_create, assumption, (assumption | simp), simp add: copy_val_def) | (erule run_adds, (assumption | simp))
        | (erule run_sibling, simp, simp, simp) | (rule run_done, simp, simp))+)

lemma act_update_cases: "63 \<le> r \<Longrightarrow> r \<le> 77 \<Longrightarrow>
     r = 63 \<or> r = 64 \<or> r = 65 \<or> r = 66 \<or> r = 67 \<or> r = 68 \<or> r = 69 \<or> r = 70 \<or> r = 71 \<or>
     r = 72 \<or> r = 73 \<or> r = 74 \<or> r = 75 \<or> r = 76 \<or> r = 77" for r :: int
  by presburger

lemma act_update_ok:
  assumes "63 \<le> r" "r \<le> 77" "list_all2 shape (rhs r) vs" "length ps = length (rhs r)"
    "holds g (owned (rhs r) ps vs @ L)"
  shows "delivers g (act_update r ps y g) L (sem r vs)"
  using act_update_cases [OF assms(1,2)] assms(3-5)
  by (elim disjE; clarsimp simp: rhs_simps act_update_def sem_def cong: nth_weak_cong)
    (((rule run_create, assumption, (assumption | simp), simp add: copy_val_def) | (erule run_adds, (assumption | simp))
        | (erule run_sibling, simp, simp, simp) | (rule run_done, simp, simp))+)

text \<open>Rule 2 also enters its tree as the root.\<close>

lemma check_unit: "all_ix (\<lambda>i xs. 3 \<le> i \<and> i \<le> 21 \<longrightarrow> length xs = 1 \<and> 54 \<le> hd xs) 0 rules"
  unfolding rules_def by (simp cong: all_ix_weak_cong)

lemma act_statement_ok:
  assumes "2 \<le> r" "r \<le> 21" "list_all2 shape (rhs r) vs" "length ps = length (rhs r)"
    "holds g (owned (rhs r) ps vs @ L)"
  shows "act_statement r ps (dollar ps 1) g
      = Some (ps ! 0, if r = 2 then MinisqlParserSetRoot (ps ! 0) g else g)
    \<and> holds g ((ps ! 0, sem r vs) # L)"
proof (cases "r = 2")
  case True
  with assms(3-5) show ?thesis by (clarsimp simp: rhs_simps act_statement_def sem_def cong: nth_weak_cong)
next
  case False
  then have "3 \<le> nat r" "nat r \<le> 21" using assms(1,2) by linarith+
  then have "length (rhs r) = 1" "54 \<le> hd (rhs r)"
    using all_ixD [OF check_unit, of "nat r"] by (auto simp: rhs_def)
  then obtain X where X: "rhs r = [X]" "valued X" by (cases "rhs r") (auto simp: valued_def)
  have "act_statement r ps (dollar ps 1) g = Some (dollar ps 1, g)" using False by (simp add: act_statement_def)
  moreover have "sem r vs = vs ! 0" using assms(1,2) by (simp add: sem_def)
  ultimately show ?thesis using X assms(3-5) False by (auto simp: dollar_def list_all2_Cons1 length_Suc_conv)
qed

text \<open>All actions together.\<close>

definition same_errors :: "parser_state \<Rightarrow> parser_state \<Rightarrow> bool" where
  "same_errors g g' \<longleftrightarrow> error g' = error g \<and> error_message g' = error_message g \<and> printed g' = printed g"

lemma SetRoot_holds [simp]: "holds (MinisqlParserSetRoot p g) L \<longleftrightarrow> holds g L"
  by (simp add: holds_def wf_nodes_def MinisqlParserSetRoot_def)

lemma SetRoot_sel: "root_node (MinisqlParserSetRoot p g) = p" "error (MinisqlParserSetRoot p g) = error g"
  "error_message (MinisqlParserSetRoot p g) = error_message g" "printed (MinisqlParserSetRoot p g) = printed g"
  by (simp_all add: MinisqlParserSetRoot_def)

lemma yyaction_ok:
  assumes "2 \<le> r" "r < 78" "list_all2 shape (rhs r) vs" "length ps = length (rhs r)"
    "holds g (owned (rhs r) ps vs @ L)"
  shows "\<exists>p g'. yyaction r ps (dollar ps 1) g = Some (p, g') \<and> holds g' ((p, sem r vs) # L)
    \<and> same_errors g g' \<and> root_node g' = (if r = 2 then p else root_node g)"
proof (cases "r \<le> 21")
  case True
  with act_statement_ok [OF assms(1) True assms(3-5)] show ?thesis
    by (auto simp: yyaction_def same_errors_def SetRoot_sel)
next
  case False
  consider "22 \<le> r" "r \<le> 38" | "39 \<le> r" "r \<le> 62" | "63 \<le> r" "r \<le> 77" using False assms(2) by linarith
  then have "delivers g (yyaction r ps (dollar ps 1) g) L (sem r vs)"
    by cases (simp_all add: yyaction_def act_definition_ok act_query_ok act_update_ok assms(3-5))
  then show ?thesis using False by (auto simp: delivers_def same_errors_def same_globals_def)
qed

end
