(* ===== verification/Yacc_Correct.thy ===== *)
theory Yacc_Correct
  imports LR_Machine Yacc_Actions
begin

text \<open>
  \<open>yyparse\<close> follows the LR machine. The scanner is an interface: the locale \<open>token_source\<close> states what
  the parser relies on when it calls \<open>YYLEX\<close>. Between two visits of \<open>yybackup\<close> the parser's stacks are
  those of the machine, with the trees of each entry in the store, and the look-ahead token is the
  head of the machine's input once it has been read.
\<close>

section \<open>The simulation relation\<close>

definition looks :: "('l \<Rightarrow> bool \<Rightarrow> token list \<Rightarrow> bool) \<Rightarrow> bool \<Rightarrow> 'l yyparser \<Rightarrow> token list
    \<Rightarrow> (nat option \<times> ast list) list \<Rightarrow> bool" where
  "looks pending c p w LA \<longleftrightarrow>
     (if yychar p = YYEMPTY then pending (scanner p) c w \<and> LA = []
      else if yychar p = YYEOF then w = [] \<and> LA = [] \<and> c \<and> pending (scanner p) c []
      else 0 < yychar p \<and> (\<exists>a v w'. w = (a, v) # w' \<and> YYTRANSLATE (yychar p) = Some a
        \<and> pending (scanner p) c w' \<and> LA = (if valued a then [(yylval p, v)] else [])))"

text \<open>
  \<open>c0\<close>: the whole input is free of unrecognised characters; \<open>e0\<close>: the error flag at the start. The flag is
  raised as soon as an unrecognised character has been passed.
\<close>

definition flagged :: "bool \<Rightarrow> bool \<Rightarrow> bool \<Rightarrow> parser_state \<Rightarrow> bool" where
  "flagged c0 e0 c g \<longleftrightarrow> (c0 \<longrightarrow> c \<and> error g = e0) \<and> (\<not> c0 \<longrightarrow> \<not> c \<or> error g) \<and> (e0 \<longrightarrow> error g)"

definition symbols :: "stack \<Rightarrow> int list" where
  "symbols S = map (\<lambda>e. accessing (fst e)) S"

definition related :: "('l \<Rightarrow> bool \<Rightarrow> token list \<Rightarrow> bool) \<Rightarrow> bool \<Rightarrow> bool \<Rightarrow> 'l yyparser \<Rightarrow> stack \<Rightarrow> token list \<Rightarrow> bool" where
  "related pending c0 e0 p S w \<longleftrightarrow> (\<exists>c cells base LA. yyss p = map fst S @ [0] \<and> yyvs p = cells @ [base]
     \<and> length cells = length S \<and> yystate p = state_of S \<and> yyerrstatus p = 0
     \<and> length S + 1 < yystacksize p \<and> yystacksize p \<le> YYMAXDEPTH \<and> 200 \<le> yystacksize p
     \<and> looks pending c p w LA \<and> flagged c0 e0 c (globals p)
     \<and> holds (globals p) (owned (symbols S) cells (map snd S) @ LA)
     \<and> (S \<noteq> [] \<and> accessing (state_of S) = 55 \<longrightarrow> root_node (globals p) = hd cells))"

lemma related_update [simp]:
  "related pending c0 e0 (p\<lparr>yyn := n\<rparr>) S w = related pending c0 e0 p S w"
  "related pending c0 e0 (p\<lparr>yytoken := a\<rparr>) S w = related pending c0 e0 p S w"
  by (simp_all add: related_def looks_def)

lemma looks_update:
  "yychar p' = yychar p \<Longrightarrow> scanner p' = scanner p \<Longrightarrow> yylval p' = yylval p
    \<Longrightarrow> looks pending c p' w LA = looks pending c p w LA"
  by (simp add: looks_def)

lemma owned_append:
  "length Xs = length ps \<Longrightarrow> length ps = length vs \<Longrightarrow>
    owned (Xs @ Ys) (ps @ qs) (vs @ us) = owned Xs ps vs @ owned Ys qs us"
  by (induction Xs ps vs rule: list_induct3) auto

lemma owned_rev:
  "length Xs = length ps \<Longrightarrow> length ps = length vs \<Longrightarrow> mset (owned (rev Xs) (rev ps) (rev vs)) = mset (owned Xs ps vs)"
proof (induction Xs ps vs rule: list_induct3)
  case (Cons X Xs p ps v vs)
  then show ?case using owned_append [of "rev Xs" "rev ps" "rev vs" "[X]" "[p]" "[v]"] by auto
qed simp

section \<open>Labels that only move on\<close>

lemma loop_step:
  "yystep lexer lab p = Some (lab', p') \<Longrightarrow> yyparse_loop lexer lab p = yyparse_loop lexer lab' p'"
  by (subst yyparse_loop.simps, cases lab) auto

lemma loop_accept: "yyparse_loop lexer Acceptlab p = Some (0, p)"
  by (subst yyparse_loop.simps) simp

lemma loop_abort: "yyparse_loop lexer Abortlab p = Some (1, p)"
  by (subst yyparse_loop.simps) simp

text \<open>A push with room for it, with room after growing the stacks, or beyond the largest size.\<close>

definition exhausted :: "('l \<Rightarrow> bool \<Rightarrow> token list \<Rightarrow> bool) \<Rightarrow> (int \<times> 'l yyparser) option \<Rightarrow> bool" where
  "exhausted pending r \<longleftrightarrow> (\<exists>p c w. r = Some (2, p) \<and> error (globals p) \<and> wf_nodes (globals p)
     \<and> pending (scanner p) c w)"

lemma SetError_wf [simp]: "wf_nodes (MinisqlParserSetError m g) \<longleftrightarrow> wf_nodes g"
  by (simp add: MinisqlParserSetError_def wf_nodes_def)

lemma SetError_error [simp]: "error (MinisqlParserSetError m g)"
  by (simp add: MinisqlParserSetError_def)

lemma loop_exhausted:
  "wf_nodes (globals p) \<Longrightarrow> pending (scanner p) c w \<Longrightarrow> exhausted pending (yyparse_loop lexer Exhaustedlab p)"
  by (subst yyparse_loop.simps) (auto simp: exhausted_def yyerror_def)

lemma looks_pending: "looks pending c p w LA \<Longrightarrow> \<exists>w'. pending (scanner p) c w'"
  by (auto simp: looks_def split: if_splits)

lemma loop_setstate:
  assumes "length (yyss p) \<le> yystacksize p" "yystacksize p \<le> YYMAXDEPTH" "200 \<le> yystacksize p"
    "yyss p = s # ss" "yystate p = s" "wf_nodes (globals p)" "pending (scanner p) c w"
  shows "(\<exists>n. yyparse_loop lexer Setstate p = yyparse_loop lexer Backup (p\<lparr>yystacksize := n\<rparr>)
      \<and> length (yyss p) < n \<and> n \<le> YYMAXDEPTH \<and> 200 \<le> n)
    \<or> length (yyss p) = YYMAXDEPTH \<and> exhausted pending (yyparse_loop lexer Setstate p)"
proof -
  have same: "p\<lparr>yyss := yystate p # tl (yyss p)\<rparr> = p" using assms(4,5) by simp
  consider "length (yyss p) < yystacksize p" | "length (yyss p) = yystacksize p" "yystacksize p < YYMAXDEPTH"
    | "length (yyss p) = YYMAXDEPTH" "yystacksize p = YYMAXDEPTH" using assms(1,2) by linarith
  then show ?thesis
  proof cases
    case 1
    then have "yystep lexer Setstate p = Some (Backup, p)"
      using same assms(3,4) by (auto simp: yysetstate_def Let_def)
    from loop_step [OF this] 1 assms(2,3) show ?thesis
      by (intro disjI1 exI [of _ "yystacksize p"]) simp
  next
    case 2
    let ?n = "if YYMAXDEPTH < 2 * yystacksize p then YYMAXDEPTH else 2 * yystacksize p"
    have n: "length (yyss p) < ?n" "?n \<le> YYMAXDEPTH" "200 \<le> ?n" using 2 assms(3) by auto
    have "yystep lexer Setstate p = Some (Backup, p\<lparr>yystacksize := ?n\<rparr>)"
      using same assms(4) 2 n by (auto simp: yysetstate_def Let_def)
    from loop_step [OF this] n show ?thesis by blast
  next
    case 3
    then have "yystep lexer Setstate p = Some (Exhaustedlab, p)" using same by (simp add: yysetstate_def Let_def)
    from loop_step [OF this] loop_exhausted [of p pending c w, OF assms(6,7)] 3 show ?thesis by simp
  qed
qed

lemma loop_newstate:
  assumes "length (yyss p) < yystacksize p" "yystacksize p \<le> YYMAXDEPTH" "200 \<le> yystacksize p" "wf_nodes (globals p)"
    "pending (scanner p) c w"
  shows "(\<exists>n. yyparse_loop lexer Newstate p = yyparse_loop lexer Backup (p\<lparr>yyss := yystate p # yyss p, yystacksize := n\<rparr>)
      \<and> Suc (length (yyss p)) < n \<and> n \<le> YYMAXDEPTH \<and> 200 \<le> n)
    \<or> Suc (length (yyss p)) = YYMAXDEPTH \<and> exhausted pending (yyparse_loop lexer Newstate p)"
proof -
  let ?p = "p\<lparr>yyss := yystate p # yyss p\<rparr>"
  have "yyparse_loop lexer Newstate p = yyparse_loop lexer Setstate ?p"
    by (rule loop_step) (simp add: yynewstate_def)
  with loop_setstate [of ?p "yystate p" "yyss p" pending c w lexer] assms show ?thesis by auto
qed

section \<open>Errors\<close>

lemma no_error_token: "1 \<notin> set yycheck"
  by (simp add: yycheck_def)

lemma error_shift_none:
  assumes "is_state s"
  shows "error_shift s = Some 0"
proof -
  have "yycheck ! j \<noteq> 1" if "j < 107" for j using no_error_token that by (metis lr_lengths(9) nth_mem)
  then have "confirmed i 1 = Some False" for i by (auto simp: confirmed_def fetch_def)
  moreover have "fetch yypact s = Some (yypact ! nat s)" using assms by (auto simp: fetch_def is_state_def)
  ultimately show ?thesis by (simp add: error_shift_def)
qed

lemma pop_all: "list_all is_state (s # ss) \<Longrightarrow> pop_to_error s (s # ss) vs = Some None"
proof (induction ss arbitrary: s vs)
  case (Cons s' ss)
  then show ?case using Cons.IH [of s' "tl vs"] by (simp add: error_shift_none)
qed (simp add: error_shift_none)

lemma SetError_holds [simp]: "holds (MinisqlParserSetError m g) L \<longleftrightarrow> holds g L"
  by (simp add: MinisqlParserSetError_def holds_def wf_nodes_def)

lemma loop_errlab:
  assumes "yyss p = s # ss" "yystate p = s" "list_all is_state (s # ss)" "yyerrstatus p = 0"
  shows "\<exists>p'. yyparse_loop lexer Errlab p = Some (1, p') \<and> globals p' = yyerror ''syntax error'' (globals p)
    \<and> scanner p' = scanner p"
proof -
  let ?p = "p\<lparr>yynerrs := yynerrs p + 1, globals := yyerror ''syntax error'' (globals p)\<rparr>"
  have "yystep lexer Errlab p = Some (Errlab1, ?p)" using assms(4) by (simp add: yyerrlab_def)
  moreover have "yystep lexer Errlab1 ?p = Some (Abortlab, ?p\<lparr>yyerrstatus := 3\<rparr>)"
    using assms(1-3) pop_all [of s ss] by (simp add: yyerrlab1_def)
  ultimately have "yyparse_loop lexer Errlab p = Some (1, ?p\<lparr>yyerrstatus := 3\<rparr>)"
    using loop_step loop_abort by metis
  then show ?thesis by simp
qed

lemma spells_states: "spells S x \<Longrightarrow> list_all is_state (map fst S @ [0])"
proof (induction rule: spells.induct)
  case (spells_Cons S w X u v t)
  then show ?case using succ_back [of "state_of S" X t] spells_state by auto
qed (simp add: is_state_def)

text \<open>The new top of the stacks after a shift or a reduction.\<close>

lemma related_push:
  assumes "yyss p = map fst S @ [0]" "yyvs p = q # cells @ [base]" "length cells = length S" "yystate p = t"
    "yyerrstatus p = 0" "length S + 1 < yystacksize p" "yystacksize p \<le> YYMAXDEPTH" "200 \<le> yystacksize p"
    "looks pending c p w LA" "flagged c0 e0 c (globals p)"
    "holds (globals p) ((if valued (accessing t) then [(q, v)] else []) @ owned (symbols S) cells (map snd S) @ LA)"
    "accessing t = 55 \<longrightarrow> root_node (globals p) = q"
  shows "(\<exists>p'. yyparse_loop lexer Newstate p = yyparse_loop lexer Backup p' \<and> related pending c0 e0 p' ((t, v) # S) w)
    \<or> length S = 9998 \<and> exhausted pending (yyparse_loop lexer Newstate p)"
proof (cases "length S = 9998 \<and> exhausted pending (yyparse_loop lexer Newstate p)")
  case False
  then obtain n where n: "yyparse_loop lexer Newstate p = yyparse_loop lexer Backup (p\<lparr>yyss := yystate p # yyss p, yystacksize := n\<rparr>)"
    "Suc (length (yyss p)) < n" "n \<le> YYMAXDEPTH" "200 \<le> n"
    using loop_newstate [of p pending c _ lexer] looks_pending [OF assms(9)] assms(1,6-8) holds_wf [OF assms(11)] by auto
  let ?p = "p\<lparr>yyss := yystate p # yyss p, yystacksize := n\<rparr>"
  have "looks pending c ?p w LA" using assms(9) looks_update [of ?p p] by simp
  then have "related pending c0 e0 ?p ((t, v) # S) w"
    unfolding related_def using assms(1-5,10-12) n(2-4)
    by (intro exI [of _ c] exI [of _ "q # cells"] exI [of _ base] exI [of _ LA]) (auto simp: symbols_def)
  with n(1) show ?thesis by blast
qed blast

text \<open>How a run that starts in a configuration may end.\<close>

definition ends :: "('l \<Rightarrow> bool \<Rightarrow> token list \<Rightarrow> bool) \<Rightarrow> bool \<Rightarrow> bool \<Rightarrow> stack \<Rightarrow> token list \<Rightarrow> int \<Rightarrow> 'l yyparser \<Rightarrow> bool" where
  "ends pending c0 e0 S w res p \<longleftrightarrow>
     accepting S w \<and> res = 0 \<and> related pending c0 e0 p S w \<and> yychar p \<noteq> YYEMPTY
     \<or> action_of (state_of S) (ahead w) = Fail \<and> res = 1 \<and> error (globals p) \<and> wf_nodes (globals p)
       \<and> (\<exists>c w. pending (scanner p) c w)"

definition outcome :: "('l \<Rightarrow> bool \<Rightarrow> token list \<Rightarrow> bool) \<Rightarrow> bool \<Rightarrow> bool \<Rightarrow> stack \<Rightarrow> token list \<Rightarrow> (int \<times> 'l yyparser) option \<Rightarrow> bool" where
  "outcome pending c0 e0 S w r \<longleftrightarrow>
     (\<exists>S' w' res p. lr_step\<^sup>*\<^sup>* (S, w) (S', w') \<and> r = Some (res, p) \<and> ends pending c0 e0 S' w' res p)
     \<or> 9998 < length S + length w \<and> exhausted pending r"

lemma outcome_step:
  assumes "lr_step (S, w) (S1, w1)" "length S1 + length w1 \<le> length S + length w" "outcome pending c0 e0 S1 w1 r"
  shows "outcome pending c0 e0 S w r"
  using assms(3) unfolding outcome_def
proof
  assume "\<exists>S' w' res p. lr_step\<^sup>*\<^sup>* (S1, w1) (S', w') \<and> r = Some (res, p) \<and> ends pending c0 e0 S' w' res p"
  then show "(\<exists>S' w' res p. lr_step\<^sup>*\<^sup>* (S, w) (S', w') \<and> r = Some (res, p) \<and> ends pending c0 e0 S' w' res p)
     \<or> 9998 < length S + length w \<and> exhausted pending r"
    using converse_rtranclp_into_rtranclp [of lr_step, OF assms(1)] by blast
qed (use assms(2) in simp)

text \<open>
  The verdict of the parser on the tokens \<open>w\<close>: 0 for a sentence of the grammar, with its tree at the
  root and the error flag \<open>e\<close>; 1 for any other input, with the flag set; 2, with the flag set, only for
  an input that outgrows the stacks.
\<close>

definition verdict :: "token list \<Rightarrow> bool \<Rightarrow> int \<Rightarrow> parser_state \<Rightarrow> bool" where
  "verdict w e res g \<longleftrightarrow>
     res = 0 \<and> (\<exists>v. derives 55 w v \<and> holds g [(root_node g, v)]) \<and> error g = e
     \<or> res = 1 \<and> (\<nexists>v. derives 55 w v) \<and> error g
     \<or> res = 2 \<and> 9998 < length w \<and> error g"

section \<open>The scanner as an interface\<close>

text \<open>
  \<open>pending l c w\<close>: the scanner state \<open>l\<close> has the tokens \<open>w\<close> in front of it, and no unrecognised character
  when \<open>c\<close> holds. A call delivers the next token with its leaf, keeps every tree in the store, and
  raises the error flag exactly for unrecognised characters.
\<close>

locale token_source =
  fixes lexer :: "'l yylex_call" and pending :: "'l \<Rightarrow> bool \<Rightarrow> token list \<Rightarrow> bool"
  assumes pending_ok: "pending l c w \<Longrightarrow> well_lexed w"
    and next_token: "pending l c ((a, v) # w) \<Longrightarrow> holds g L \<Longrightarrow>
      \<exists>k l' y' g' c'. lexer l y g = Some (k, l', y', g') \<and> 0 < k \<and> YYTRANSLATE k = Some a \<and> pending l' c' w
        \<and> holds g' ((if valued a then [(y', v)] else []) @ L) \<and> root_node g' = root_node g
        \<and> (c \<longrightarrow> c' \<and> error g' = error g) \<and> (\<not> c \<longrightarrow> \<not> c' \<or> error g') \<and> (error g \<longrightarrow> error g')"
    and next_end: "pending l c [] \<Longrightarrow> holds g L \<Longrightarrow>
      \<exists>l' y' g'. lexer l y g = Some (0, l', y', g') \<and> pending l' True [] \<and> holds g' L \<and> root_node g' = root_node g
        \<and> (c \<longrightarrow> error g' = error g) \<and> (\<not> c \<longrightarrow> error g') \<and> (error g \<longrightarrow> error g')"
begin

lemma read_ahead:
  assumes "related pending c0 e0 p S w"
  shows "\<exists>p'. read_token lexer p = Some p' \<and> related pending c0 e0 p' S w \<and> yychar p' \<noteq> YYEMPTY \<and> yytoken p' = ahead w
    \<and> yystate p' = yystate p"
proof -
  obtain c cells base LA where r: "yyss p = map fst S @ [0]" "yyvs p = cells @ [base]"
     "length cells = length S" "yystate p = state_of S" "yyerrstatus p = 0"
     "length S + 1 < yystacksize p" "yystacksize p \<le> YYMAXDEPTH" "200 \<le> yystacksize p"
     "looks pending c p w LA" "flagged c0 e0 c (globals p)"
     "holds (globals p) (owned (symbols S) cells (map snd S) @ LA)"
     "S \<noteq> [] \<and> accessing (state_of S) = 55 \<longrightarrow> root_node (globals p) = hd cells"
    using assms unfolding related_def by blast
  let ?K = "owned (symbols S) cells (map snd S)"
  show ?thesis
  proof (cases "yychar p = YYEMPTY")
    case False
    consider "yychar p = 0" "w = []" | a v w' where "0 < yychar p" "w = (a, v) # w'" "YYTRANSLATE (yychar p) = Some a"
      using r(9) False unfolding looks_def by (simp split: if_splits) blast
    then have "read_token lexer p = Some (p\<lparr>yytoken := ahead w\<rparr>)"
      using False by cases (simp_all add: read_token_def)
    with assms False show ?thesis by simp
  next
    case True
    then have l: "pending (scanner p) c w" "LA = []" using r(9) by (simp_all add: looks_def)
    have h: "holds (globals p) ?K" using r(11) l(2) by simp
    show ?thesis
    proof (cases w)
      case Nil
      from next_end [OF l(1) [unfolded Nil] h, of "yylval p"] obtain l' y' g' where
        n: "lexer (scanner p) (yylval p) (globals p) = Some (0, l', y', g')" "holds g' ?K" "pending l' True []"
          "root_node g' = root_node (globals p)" "c \<longrightarrow> error g' = error (globals p)" "\<not> c \<longrightarrow> error g'"
          "error (globals p) \<longrightarrow> error g'" by blast
      let ?p = "p\<lparr>yychar := 0, scanner := l', yylval := y', globals := g', yytoken := 0\<rparr>"
      have "read_token lexer p = Some ?p" using True n(1) by (simp add: read_token_def)
      moreover have "related pending c0 e0 ?p S w"
        unfolding related_def using r(1-8,12) n(2-7) r(10) Nil
        by (intro exI [of _ True] exI [of _ cells] exI [of _ base] exI [of _ "[]"])
          (auto simp: looks_def flagged_def)
      ultimately show ?thesis using Nil by simp
    next
      case (Cons t w')
      obtain a v where t: "t = (a, v)" by (cases t)
      from next_token [OF l(1) [unfolded Cons t] h, of "yylval p"] obtain k l' y' g' c' where
        n: "lexer (scanner p) (yylval p) (globals p) = Some (k, l', y', g')" "0 < k" "YYTRANSLATE k = Some a"
          "pending l' c' w'" "holds g' ((if valued a then [(y', v)] else []) @ ?K)"
          "root_node g' = root_node (globals p)" "c \<longrightarrow> c' \<and> error g' = error (globals p)" "\<not> c \<longrightarrow> \<not> c' \<or> error g'"
          "error (globals p) \<longrightarrow> error g'" by blast
      let ?p = "p\<lparr>yychar := k, scanner := l', yylval := y', globals := g', yytoken := a\<rparr>"
      let ?LA = "if valued a then [(y', v)] else []"
      have "read_token lexer p = Some ?p" using True n(1-3) by (simp add: read_token_def)
      moreover have "holds g' (?K @ ?LA)" by (rule holds_perm [OF n(5)]) auto
      then have "related pending c0 e0 ?p S w"
        unfolding related_def using r(1-8,12) n(2-4,6-9) r(10) Cons t
        by (intro exI [of _ c'] exI [of _ cells] exI [of _ base] exI [of _ ?LA])
          (auto simp: looks_def flagged_def)
      ultimately show ?thesis using Cons t n(2) by simp
    qed
  qed
qed


text \<open>What \<open>yybackup\<close> does for each action of the machine.\<close>

lemma backup_shifts:
  assumes "related pending c0 e0 p S w" "is_state (state_of S)" "map_of (rows ! nat (state_of S)) (ahead w) = Some t"
    "0 \<le> ahead w"
  shows "\<exists>p'. related pending c0 e0 p' S w \<and> yychar p' \<noteq> YYEMPTY \<and>
    yybackup lexer p = (if t = YYFINAL then Some (Acceptlab, p'\<lparr>yyn := t\<rparr>) else yyshift (p'\<lparr>yyn := t\<rparr>))"
proof -
  let ?s = "state_of S"
  obtain p' where p': "read_token lexer p = Some p'" "related pending c0 e0 p' S w" "yychar p' \<noteq> YYEMPTY"
    "yytoken p' = ahead w" using read_ahead [OF assms(1)] by blast
  have e: "(ahead w, t) \<in> set (rows ! nat ?s)" using assms(3) by (rule map_of_SomeD)
  then have n: "yypact ! nat ?s \<noteq> - 85" using row_states [OF assms(2)] by auto
  let ?i = "yypact ! nat ?s + ahead w"
  have i: "0 \<le> ?i" "?i \<le> 106" "yycheck ! nat ?i = ahead w" "yytable ! nat ?i = t"
    using e row_entry [OF assms(2) n] by (auto simp: Let_def)
  have t: "0 < t" using succ_back [OF assms(2), of "ahead w" t] e by (auto simp: succ_of_def is_state_def)
  have "yystate p = ?s" using assms(1) by (auto simp: related_def)
  then have "fetch yypact (yystate p) = Some (yypact ! nat ?s)" using assms(2) by (auto simp: fetch_def is_state_def)
  moreover have "confirmed ?i (ahead w) = Some True" "fetch yytable ?i = Some t"
    using i by (auto simp: confirmed_def fetch_def)
  ultimately have "yybackup lexer p = (if t = YYFINAL then Some (Acceptlab, p'\<lparr>yyn := t\<rparr>) else yyshift (p'\<lparr>yyn := t\<rparr>))"
    using p'(1,4) n t by (simp add: yybackup_def Let_def)
  with p' show ?thesis by blast
qed

lemma backup_defaults:
  assumes "related pending c0 e0 p S w" "is_state (state_of S)" "map_of (rows ! nat (state_of S)) (ahead w) = None"
  shows "\<exists>p'. related pending c0 e0 p' S w \<and> yybackup lexer p = Some (Default, p')"
proof -
  let ?s = "state_of S"
  have "yystate p = ?s" using assms(1) by (auto simp: related_def)
  then have f: "fetch yypact (yystate p) = Some (yypact ! nat ?s)" using assms(2) by (auto simp: fetch_def is_state_def)
  show ?thesis
  proof (cases "yypact ! nat ?s = - 85")
    case True
    then have "yybackup lexer p = Some (Default, p\<lparr>yyn := - 85\<rparr>)" using f by (simp add: yybackup_def)
    with assms(1) show ?thesis by auto
  next
    case False
    obtain p' where p': "read_token lexer p = Some p'" "related pending c0 e0 p' S w" "yytoken p' = ahead w"
      using read_ahead [OF assms(1)] by blast
    let ?i = "yypact ! nat ?s + ahead w"
    have "\<not> (0 \<le> ?i \<and> ?i \<le> 106 \<and> yycheck ! nat ?i = ahead w)"
      using assms(3) row_entry [OF assms(2) False, of "ahead w" "yytable ! nat ?i"]
      by (auto simp: map_of_eq_None_iff Let_def) force
    then have "confirmed ?i (ahead w) = Some False" by (auto simp: confirmed_def fetch_def)
    then have "yybackup lexer p = Some (Default, p'\<lparr>yyn := ?i\<rparr>)"
      using f p'(1,3) False by (simp add: yybackup_def Let_def)
    with p'(2) show ?thesis by auto
  qed
qed


lemma sim_shift:
  assumes "related pending c0 e0 p S ((a, v) # w)" "is_state (state_of S)" "action_of (state_of S) a = Shift t"
  shows "(\<exists>p'. yyparse_loop lexer Backup p = yyparse_loop lexer Backup p' \<and> related pending c0 e0 p' ((t, v) # S) w)
    \<or> length S = 9998 \<and> exhausted pending (yyparse_loop lexer Backup p)"
proof -
  have m: "map_of (rows ! nat (state_of S)) a = Some t" "t \<noteq> 53"
    using assms(3) by (auto simp: action_of_def split: option.splits if_splits)
  have a: "0 < a" "a < 54" "accessing t = a"
    using action_shift [OF assms(2,3)] succ_accessing [OF assms(2), of a t] by (auto simp: succ_of_def)
  from backup_shifts [OF assms(1,2)] m a obtain p1 where p1: "related pending c0 e0 p1 S ((a, v) # w)"
    "yychar p1 \<noteq> YYEMPTY" "yybackup lexer p = yyshift (p1\<lparr>yyn := t\<rparr>)" by auto
  obtain c cells base LA where r: "yyss p1 = map fst S @ [0]" "yyvs p1 = cells @ [base]"
     "length cells = length S" "yyerrstatus p1 = 0"
     "length S + 1 < yystacksize p1" "yystacksize p1 \<le> YYMAXDEPTH" "200 \<le> yystacksize p1"
     "looks pending c p1 ((a, v) # w) LA" "flagged c0 e0 c (globals p1)"
     "holds (globals p1) (owned (symbols S) cells (map snd S) @ LA)"
    using p1(1) unfolding related_def by blast
  have l: "0 < yychar p1" "pending (scanner p1) c w" "LA = (if valued a then [(yylval p1, v)] else [])"
    using r(8) p1(2) unfolding looks_def by (simp_all split: if_splits)
  let ?p = "p1\<lparr>yyn := t, yychar := YYEMPTY, yystate := t, yyvs := yylval p1 # yyvs p1\<rparr>"
  have "yyparse_loop lexer Backup p = yyparse_loop lexer Newstate ?p"
    by (rule loop_step) (use p1(3) r(4) l(1) in \<open>simp add: yyshift_def\<close>)
  moreover have "holds (globals p1) ((if valued (accessing t) then [(yylval p1, v)] else []) @ owned (symbols S) cells (map snd S) @ [])"
    by (rule holds_perm [OF r(10)]) (auto simp: l(3) a(3))
  then have "(\<exists>p'. yyparse_loop lexer Newstate ?p = yyparse_loop lexer Backup p' \<and> related pending c0 e0 p' ((t, v) # S) w)
      \<or> length S = 9998 \<and> exhausted pending (yyparse_loop lexer Newstate ?p)"
    by (intro related_push [where cells = cells and base = base and q = "yylval p1" and LA = "[]" and c = c])
      (use r a l in \<open>auto simp: looks_def\<close>)
  ultimately show ?thesis by auto
qed

lemma default_step:
  assumes "related pending c0 e0 p S w" "is_state (state_of S)"
  shows "yyparse_loop lexer Default p =
    yyparse_loop lexer (if yydefact ! nat (state_of S) = 0 then Errlab else Reduce) (p\<lparr>yyn := yydefact ! nat (state_of S)\<rparr>)"
proof (rule loop_step)
  have "yystate p = state_of S" using assms(1) by (auto simp: related_def)
  then show "yystep lexer Default p = Some (if yydefact ! nat (state_of S) = 0 then Errlab else Reduce,
      p\<lparr>yyn := yydefact ! nat (state_of S)\<rparr>)"
    using assms(2) by (auto simp: yydefault_def fetch_def is_state_def)
qed

lemma sim_reduce:
  assumes "related pending c0 e0 p S w" "spells S x" "well_lexed x" "action_of (state_of S) (ahead w) = Reduce_by r"
    "k = length (rhs r)" "yygoto (state_of (drop k S)) (lhs r) = Some t"
  shows "(\<exists>p'. yyparse_loop lexer Backup p = yyparse_loop lexer Backup p'
      \<and> related pending c0 e0 p' ((t, sem r (map snd (rev (take k S)))) # drop k S) w)
    \<or> length (drop k S) = 9998 \<and> exhausted pending (yyparse_loop lexer Backup p)"
proof -
  have st: "is_state (state_of S)" using spells_state [OF assms(2)] by simp
  have m: "map_of (rows ! nat (state_of S)) (ahead w) = None" "yydefact ! nat (state_of S) = r" "r \<noteq> 0"
    using assms(4) by (auto simp: action_of_def split: option.splits if_splits)
  obtain w1 w2 where s: "x = w1 @ w2" "2 \<le> r" "r < 78" "k \<le> length S" "map (\<lambda>e. accessing (fst e)) (rev (take k S)) = rhs r"
    "spells (drop k S) w1" "derives_all (rhs r) w2 (map snd (rev (take k S)))"
    "(lhs r, t) \<in> succ_of (state_of (drop k S))"
    by (rule spells_reduce [OF assms(2,4,5)]) (use assms(6) in auto)
  have acc: "accessing t = lhs r" using succ_accessing s(8) spells_state [OF s(6)] by blast
  obtain p1 where p1: "related pending c0 e0 p1 S w" "yybackup lexer p = Some (Default, p1)"
    using backup_defaults [OF assms(1) st m(1)] by blast
  obtain c cells base LA where r: "yyss p1 = map fst S @ [0]" "yyvs p1 = cells @ [base]"
     "length cells = length S" "yyerrstatus p1 = 0"
     "length S + 1 < yystacksize p1" "yystacksize p1 \<le> YYMAXDEPTH" "200 \<le> yystacksize p1"
     "looks pending c p1 w LA" "flagged c0 e0 c (globals p1)"
     "holds (globals p1) (owned (symbols S) cells (map snd S) @ LA)"
    using p1(1) unfolding related_def by blast
  let ?ps = "rev (take k cells)" and ?vs = "map snd (rev (take k S))" and ?K = "owned (symbols (drop k S)) (drop k cells) (map snd (drop k S))"
  have "mset (owned (rhs r) ?ps ?vs @ ?K @ LA) = mset (owned (symbols S) cells (map snd S) @ LA)"
  proof -
    have "owned (symbols S) cells (map snd S) = owned (symbols (take k S) @ symbols (drop k S)) (take k cells @ drop k cells)
        (map snd (take k S) @ map snd (drop k S))"
      by (simp add: symbols_def flip: map_append)
    also have "\<dots> = owned (symbols (take k S)) (take k cells) (map snd (take k S)) @ ?K"
      by (rule owned_append) (simp_all add: symbols_def r(3))
    finally show ?thesis
      using owned_rev [of "symbols (take k S)" "take k cells" "map snd (take k S)"] s(5) r(3)
      by (simp add: symbols_def rev_map)
  qed
  then have "holds (globals p1) (owned (rhs r) ?ps ?vs @ ?K @ LA)" by (rule holds_perm [OF r(10)])
  moreover have "list_all2 shape (rhs r) ?vs" using derives_shape(2) [OF s(7)] assms(3) s(1) by simp
  ultimately obtain q g where q: "yyaction r ?ps (dollar ?ps 1) (globals p1) = Some (q, g)"
    "holds g ((q, sem r ?vs) # ?K @ LA)" "same_errors (globals p1) g" "root_node g = (if r = 2 then q else root_node (globals p1))"
    using yyaction_ok [OF s(2,3), of ?vs ?ps "globals p1" "?K @ LA"] r(3) s(4) assms(5) by auto
  let ?p = "p1\<lparr>yyss := map fst (drop k S) @ [0], yyvs := q # drop k cells @ [base], yyn := lhs r, yystate := t, globals := g\<rparr>"
  have "hd (map fst (drop k S) @ [0]) = state_of (drop k S)" by (cases "drop k S") auto
  moreover have "0 < k" using rule_first [OF s(2,3)] assms(5) by simp
  ultimately have "yystep lexer Reduce (p1\<lparr>yyn := r\<rparr>) = Some (Newstate, ?p)"
    using r(1-3) s(2-4) q(1) assms(6) yyr2_rhs [of r] yyr1_lhs [of r] assms(5)
    by (simp add: yyreduce_def drop_map Let_def)
  then have "yyparse_loop lexer Backup p = yyparse_loop lexer Newstate ?p"
    using loop_step [of lexer Backup p Default p1] p1(2) default_step [OF p1(1) st] m(2,3)
      loop_step [of lexer Reduce "p1\<lparr>yyn := r\<rparr>" Newstate ?p] by simp
  moreover have "(\<exists>p'. yyparse_loop lexer Newstate ?p = yyparse_loop lexer Backup p'
      \<and> related pending c0 e0 p' ((t, sem r ?vs) # drop k S) w)
      \<or> length (drop k S) = 9998 \<and> exhausted pending (yyparse_loop lexer Newstate ?p)"
  proof (rule related_push [where cells = "drop k cells" and base = base and q = q and LA = LA and c = c])
    show "looks pending c ?p w LA" using r(8) looks_update [of ?p p1] by simp
    show "flagged c0 e0 c (globals ?p)" using r(9) q(3) by (simp add: flagged_def same_errors_def)
    have "valued (lhs r)" using rule_symbols(1) [OF s(2,3)] by (simp add: valued_def)
    then show "holds (globals ?p) ((if valued (accessing t) then [(q, sem r ?vs)] else []) @ ?K @ LA)"
      using q(2) acc by simp
    show "accessing t = 55 \<longrightarrow> root_node (globals ?p) = q" using acc q(4) lhs_start [OF s(2,3)] by simp
  qed (use r in auto)
  ultimately show ?thesis by auto
qed


lemma sim_accept:
  assumes "related pending c0 e0 p S w" "is_state (state_of S)" "accepting S w" "0 \<le> ahead w"
  shows "\<exists>p'. yyparse_loop lexer Backup p = Some (0, p') \<and> related pending c0 e0 p' S w \<and> yychar p' \<noteq> YYEMPTY"
proof -
  have "map_of (rows ! nat (state_of S)) (ahead w) = Some 53"
    using assms(3) by (auto simp: accepting_def action_of_def split: option.splits if_splits)
  from backup_shifts [OF assms(1,2) this assms(4)] obtain p' where p': "related pending c0 e0 p' S w"
    "yychar p' \<noteq> YYEMPTY" "yybackup lexer p = Some (Acceptlab, p'\<lparr>yyn := 53\<rparr>)" by auto
  then have "yyparse_loop lexer Backup p = Some (0, p'\<lparr>yyn := 53\<rparr>)"
    using loop_step [of lexer Backup p Acceptlab "p'\<lparr>yyn := 53\<rparr>"] loop_accept by simp
  with p' show ?thesis by (intro exI [of _ "p'\<lparr>yyn := 53\<rparr>"]) simp
qed

lemma sim_fail:
  assumes "related pending c0 e0 p S w" "spells S x" "action_of (state_of S) (ahead w) = Fail"
  shows "\<exists>p'. yyparse_loop lexer Backup p = Some (1, p') \<and> error (globals p') \<and> wf_nodes (globals p')
    \<and> (\<exists>c w. pending (scanner p') c w)"
proof -
  have st: "is_state (state_of S)" using spells_state [OF assms(2)] by simp
  have m: "map_of (rows ! nat (state_of S)) (ahead w) = None" "yydefact ! nat (state_of S) = 0"
    using assms(3) by (auto simp: action_of_def split: option.splits if_splits)
  obtain p1 where p1: "related pending c0 e0 p1 S w" "yybackup lexer p = Some (Default, p1)"
    using backup_defaults [OF assms(1) st m(1)] by blast
  let ?p = "p1\<lparr>yyn := 0\<rparr>"
  have loop: "yyparse_loop lexer Backup p = yyparse_loop lexer Errlab ?p"
    using loop_step [of lexer Backup p Default p1] p1(2) default_step [OF p1(1) st] m(2) by simp
  have r: "yyss ?p = map fst S @ [0]" "yystate ?p = state_of S" "yyerrstatus ?p = 0" "wf_nodes (globals ?p)"
    using p1(1) by (auto simp: related_def dest: holds_wf)
  have "\<exists>ss. map fst S @ [0] = state_of S # ss" by (cases S) auto
  then obtain ss where ss: "map fst S @ [0] = state_of S # ss" by blast
  obtain p' where "yyparse_loop lexer Errlab ?p = Some (1, p')" "globals p' = yyerror ''syntax error'' (globals ?p)"
      "scanner p' = scanner p1"
    using loop_errlab [of ?p "state_of S" ss lexer] r ss spells_states [OF assms(2)] by auto
  moreover have "\<exists>c w. pending (scanner p1) c w" using p1(1) looks_pending unfolding related_def by blast
  ultimately show ?thesis using loop r(4) by (auto simp: yyerror_def)
qed

lemma parse_run:
  assumes "related pending c0 e0 p S w" "spells S x" "well_lexed (x @ w)"
  shows "outcome pending c0 e0 S w (yyparse_loop lexer Backup p)"
  using assms
proof (induction "potential (S, w)" arbitrary: S w x p rule: less_induct)
  case less
  have st: "is_state (state_of S)" using spells_state [OF less.prems(2)] by simp
  have a: "0 \<le> ahead w" using less.prems(3) by (cases w) (auto simp: well_lexed_def)
  show ?case
  proof (cases "accepting S w \<or> action_of (state_of S) (ahead w) = Fail")
    case True
    with sim_accept [OF less.prems(1) st _ a] sim_fail [OF less.prems(1,2)] show ?thesis
      unfolding outcome_def ends_def by blast
  next
    case False
    then obtain S1 w1 where s: "lr_step (S, w) (S1, w1)"
      using lr_progress [OF less.prems(2), of w] by (auto simp: accepting_def)
    obtain u where u: "w = u @ w1" "spells S1 (x @ u)" using lr_step_spells [OF s less.prems(2)] by blast
    have pot: "potential (S1, w1) < potential (S, w)" using lr_step_potential [OF s, of x] less.prems(2) by simp
    have sim: "(\<exists>p1. yyparse_loop lexer Backup p = yyparse_loop lexer Backup p1 \<and> related pending c0 e0 p1 S1 w1)
        \<or> 9998 < length S + length w \<and> exhausted pending (yyparse_loop lexer Backup p)"
      and len: "length S1 + length w1 \<le> length S + length w"
      using s
    proof (atomize (full), cases rule: lr_step.cases)
      case (lr_shift a t v)
      with sim_shift [of c0 e0 p S a v w1 t] less.prems(1) st show
        "((\<exists>p1. yyparse_loop lexer Backup p = yyparse_loop lexer Backup p1 \<and> related pending c0 e0 p1 S1 w1)
        \<or> 9998 < length S + length w \<and> exhausted pending (yyparse_loop lexer Backup p)) \<and> length S1 + length w1 \<le> length S + length w"
        by auto
    next
      case (lr_reduce r k t)
      have "k \<le> length S" "0 < k"
        using spells_reduce [OF less.prems(2) lr_reduce(3,4)] rule_first [of r] lr_reduce(4) by auto
      moreover have "(\<exists>p'. yyparse_loop lexer Backup p = yyparse_loop lexer Backup p'
          \<and> related pending c0 e0 p' ((t, sem r (map snd (rev (take k S)))) # drop k S) w)
          \<or> length (drop k S) = 9998 \<and> exhausted pending (yyparse_loop lexer Backup p)"
        by (rule sim_reduce [OF less.prems(1,2) _ lr_reduce(3-5)]) (use less.prems(3) in simp)
      ultimately show
        "((\<exists>p1. yyparse_loop lexer Backup p = yyparse_loop lexer Backup p1 \<and> related pending c0 e0 p1 S1 w1)
        \<or> 9998 < length S + length w \<and> exhausted pending (yyparse_loop lexer Backup p)) \<and> length S1 + length w1 \<le> length S + length w"
        using lr_reduce(1,2) by auto
    qed
    from sim show ?thesis
    proof
      assume "\<exists>p1. yyparse_loop lexer Backup p = yyparse_loop lexer Backup p1 \<and> related pending c0 e0 p1 S1 w1"
      then obtain p1 where p1: "yyparse_loop lexer Backup p = yyparse_loop lexer Backup p1" "related pending c0 e0 p1 S1 w1"
        by blast
      have "well_lexed ((x @ u) @ w1)" using less.prems(3) u(1) by simp
      from outcome_step [OF s len less.hyps [OF pot p1(2) u(2) this]] p1(1) show ?thesis by simp
    qed (simp add: outcome_def)
  qed
qed

lemma parse_ended:
  assumes run: "lr_step\<^sup>*\<^sup>* ([], w) (S', w')" "yyparse_loop lexer Setstate (yyparse_start l y g) = Some (res, p')"
    and wl: "well_lexed w"
    and res: "ends pending c (error g) S' w' res p'"
  shows "yyparse lexer l y g = Some (res, scanner p', yylval p', globals p') \<and> wf_nodes (globals p')
    \<and> (\<exists>c w. pending (scanner p') c w)
    \<and> verdict w (error g \<or> \<not> c) res (globals p')"
proof -
  have y: "yyparse lexer l y g = Some (res, scanner p', yylval p', globals p')" using run(2) by (simp add: yyparse_def)
  have same: "(S', w') = ([(t, v)], [])"
    if "lr_step\<^sup>*\<^sup>* ([], w) ([(t, v)], [])" "accepting [(t, v)] []" for t v
    by (rule lr_run_unique [OF run(1) that(1)]) (use res [unfolded ends_def] that(2) final_no_step in blast)+
  from res [unfolded ends_def] show ?thesis
  proof
    assume acc: "accepting S' w' \<and> res = 0 \<and> related pending c (error g) p' S' w' \<and> yychar p' \<noteq> YYEMPTY"
    then obtain t v where v: "S' = [(t, v)]" "w' = []" "derives 55 w v" using lr_sound [OF run(1) _ wl] by blast
    obtain t' where "lr_step\<^sup>*\<^sup>* ([], w) ([(t', v)], [])" "accepting [(t', v)] []" "accessing t' = 55"
      using lr_accepts_at_start [OF v(3)] by blast
    with same [of t' v] v(1) have "accessing t = 55" by simp
    then have "holds (globals p') [(root_node (globals p'), v)]" "error (globals p') = (error g \<or> \<not> c)"
      using acc v(1,2) unfolding related_def
      by (auto simp: looks_def flagged_def symbols_def valued_def length_Suc_conv split: if_splits)
    moreover have "\<exists>c w. pending (scanner p') c w" using acc looks_pending unfolding related_def by blast
    ultimately show ?thesis using y acc v(3) holds_wf unfolding verdict_def by blast
  next
    assume fail: "action_of (state_of S') (ahead w') = Fail \<and> res = 1 \<and> error (globals p') \<and> wf_nodes (globals p')
      \<and> (\<exists>c w. pending (scanner p') c w)"
    have "\<not> derives 55 w v" for v
    proof
      assume "derives 55 w v"
      then obtain t where t: "lr_step\<^sup>*\<^sup>* ([], w) ([(t, v)], [])" "accepting [(t, v)] []" using lr_accepts by blast
      with same [of t v] fail show False by (auto simp: accepting_def)
    qed
    then show ?thesis using y fail by (simp add: verdict_def)
  qed
qed

text \<open>
  The parser accepts exactly the sentences of the grammar. On one it returns 0 with the sentence's
  tree at the root; the error flag then tells whether the scanner met an unrecognised character. On
  any other input it returns 1 with the flag set.
\<close>

lemma parse_correct:
  assumes "pending l c w" "holds g []"
  shows "\<exists>res l' y' g'. yyparse lexer l y g = Some (res, l', y', g') \<and> wf_nodes g' \<and> (\<exists>c' w'. pending l' c' w')
    \<and> verdict w (error g \<or> \<not> c) res g'"
proof -
  let ?p = "yyparse_start l y g"
  have wl: "well_lexed w" by (rule pending_ok [OF assms(1)])
  obtain n where n: "yyparse_loop lexer Setstate ?p = yyparse_loop lexer Backup (?p\<lparr>yystacksize := n\<rparr>)"
    "1 < n" "n \<le> YYMAXDEPTH" "200 \<le> n"
    using loop_setstate [of ?p 0 "[]" pending c w lexer] holds_wf [OF assms(2)] assms(1)
    by (auto simp: yyparse_start_def)
  have "related pending c (error g) (?p\<lparr>yystacksize := n\<rparr>) [] w"
    unfolding related_def using assms(1,2) n(2-4)
    by (intro exI [of _ c] exI [of _ "[]"] exI [of _ None] exI [of _ "[]"])
      (auto simp: yyparse_start_def looks_def flagged_def symbols_def)
  from parse_run [OF this spells_Nil] wl n(1) consider
      (ended) S' w' res p' where "lr_step\<^sup>*\<^sup>* ([], w) (S', w')" "yyparse_loop lexer Setstate ?p = Some (res, p')"
        "ends pending c (error g) S' w' res p'"
    | (full) "9998 < length w" "exhausted pending (yyparse_loop lexer Setstate ?p)"
    by (auto simp: outcome_def)
  then show ?thesis
  proof cases
    case full
    then obtain p c' w' where "yyparse_loop lexer Setstate ?p = Some (2, p)" "error (globals p)" "wf_nodes (globals p)"
      "pending (scanner p) c' w'" unfolding exhausted_def by blast
    then show ?thesis using full(1) by (simp add: yyparse_def verdict_def) blast
  next
    case ended
    from parse_ended [OF ended(1,2) wl ended(3)] show ?thesis by auto
  qed
qed

end

end
