(* ===== verification/Lexer_Tables.thy ===== *)
theory Lexer_Tables
  imports Prelude
begin

text \<open>
  The data of the generated scanner and of the token interface: the tables of
  \<open>parser/minisql_lex.c\<close> and the token numbers of \<open>parser/minisql_yacc.c\<close>.
\<close>

section \<open>Token numbers\<close>

text \<open>The constructors of \<open>enum yytokentype\<close>, prefixed because several clash with HOL syntax.\<close>

datatype yytokentype =
    tk_CREATE
  | tk_DROP
  | tk_SELECT
  | tk_INSERT
  | tk_DELETE
  | tk_UPDATE
  | tk_TRXBEGIN
  | tk_TRXCOMMIT
  | tk_TRXROLLBACK
  | tk_QUIT
  | tk_EXECFILE
  | tk_SHOW
  | tk_USE
  | tk_USING
  | tk_DATABASE
  | tk_DATABASES
  | tk_TABLE
  | tk_TABLES
  | tk_INDEX
  | tk_INDEXES
  | tk_ON
  | tk_FROM
  | tk_WHERE
  | tk_INTO
  | tk_SET
  | tk_VALUES
  | tk_PRIMARY
  | tk_KEY
  | tk_UNIQUE
  | tk_CHAR
  | tk_INT
  | tk_FLOAT
  | tk_AND
  | tk_OR
  | tk_NOT
  | tk_IS
  | tk_FLAGNULL
  | tk_IDENTIFIER
  | tk_STRING
  | tk_NUMBER
  | tk_EQ
  | tk_NE
  | tk_LE
  | tk_GE

fun token_code :: "yytokentype \<Rightarrow> int" where
  "token_code tk_CREATE = 258"
| "token_code tk_DROP = 259"
| "token_code tk_SELECT = 260"
| "token_code tk_INSERT = 261"
| "token_code tk_DELETE = 262"
| "token_code tk_UPDATE = 263"
| "token_code tk_TRXBEGIN = 264"
| "token_code tk_TRXCOMMIT = 265"
| "token_code tk_TRXROLLBACK = 266"
| "token_code tk_QUIT = 267"
| "token_code tk_EXECFILE = 268"
| "token_code tk_SHOW = 269"
| "token_code tk_USE = 270"
| "token_code tk_USING = 271"
| "token_code tk_DATABASE = 272"
| "token_code tk_DATABASES = 273"
| "token_code tk_TABLE = 274"
| "token_code tk_TABLES = 275"
| "token_code tk_INDEX = 276"
| "token_code tk_INDEXES = 277"
| "token_code tk_ON = 278"
| "token_code tk_FROM = 279"
| "token_code tk_WHERE = 280"
| "token_code tk_INTO = 281"
| "token_code tk_SET = 282"
| "token_code tk_VALUES = 283"
| "token_code tk_PRIMARY = 284"
| "token_code tk_KEY = 285"
| "token_code tk_UNIQUE = 286"
| "token_code tk_CHAR = 287"
| "token_code tk_INT = 288"
| "token_code tk_FLOAT = 289"
| "token_code tk_AND = 290"
| "token_code tk_OR = 291"
| "token_code tk_NOT = 292"
| "token_code tk_IS = 293"
| "token_code tk_FLAGNULL = 294"
| "token_code tk_IDENTIFIER = 295"
| "token_code tk_STRING = 296"
| "token_code tk_NUMBER = 297"
| "token_code tk_EQ = 298"
| "token_code tk_NE = 299"
| "token_code tk_LE = 300"
| "token_code tk_GE = 301"

section \<open>Tables of the scanner\<close>

definition yy_accept :: "nat list" where
  "yy_accept = [
    0, 41, 41, 57, 55, 54, 54, 55, 49, 52, 53, 47, 46, 41, 55, 41, 48, 50, 42, 51,
    39, 39, 39, 39, 39, 39, 39, 39, 39, 39, 39, 39, 39, 39, 39, 39, 39, 39, 39, 0,
    1, 0, 0, 41, 40, 44, 43, 45, 39, 39, 39, 39, 39, 39, 39, 39, 39, 39, 39, 39,
    39, 37, 39, 39, 39, 22, 35, 39, 39, 39, 39, 39, 39, 39, 39, 39, 39, 39, 34, 39,
    39, 39, 39, 39, 39, 39, 39, 39, 39, 39, 39, 32, 29, 36, 39, 39, 39, 39, 39, 26,
    39, 39, 39, 39, 14, 39, 39, 39, 39, 31, 39, 39, 39, 39, 3, 39, 39, 23, 39, 39,
    25, 38, 39, 11, 39, 39, 13, 39, 39, 39, 39, 39, 39, 8, 39, 39, 39, 39, 39, 33,
    20, 39, 39, 39, 39, 18, 39, 39, 15, 39, 24, 9, 2, 39, 6, 39, 39, 5, 39, 39,
    4, 19, 30, 7, 27, 39, 39, 21, 28, 39, 16, 12, 10, 17, 0]"

definition yy_ec :: "nat list" where
  "yy_ec = [
    0, 1, 1, 1, 1, 1, 1, 1, 1, 2, 3, 2, 2, 1, 1, 1, 1, 1, 1, 1,
    1, 1, 1, 1, 1, 1, 1, 1, 1, 1, 1, 1, 2, 1, 4, 1, 1, 1, 1, 5,
    6, 7, 8, 1, 9, 10, 11, 1, 12, 12, 12, 12, 12, 12, 12, 12, 12, 12, 1, 13,
    14, 15, 16, 1, 1, 17, 17, 17, 17, 17, 17, 17, 17, 17, 17, 17, 17, 17, 17, 17,
    17, 17, 17, 17, 17, 17, 17, 17, 17, 17, 17, 1, 18, 1, 1, 17, 1, 19, 20, 21,
    22, 23, 24, 25, 26, 27, 17, 28, 29, 30, 31, 32, 33, 34, 35, 36, 37, 38, 39, 40,
    41, 42, 17, 1, 1, 1, 1, 1, 1, 1, 1, 1, 1, 1, 1, 1, 1, 1, 1, 1,
    1, 1, 1, 1, 1, 1, 1, 1, 1, 1, 1, 1, 1, 1, 1, 1, 1, 1, 1, 1,
    1, 1, 1, 1, 1, 1, 1, 1, 1, 1, 1, 1, 1, 1, 1, 1, 1, 1, 1, 1,
    1, 1, 1, 1, 1, 1, 1, 1, 1, 1, 1, 1, 1, 1, 1, 1, 1, 1, 1, 1,
    1, 1, 1, 1, 1, 1, 1, 1, 1, 1, 1, 1, 1, 1, 1, 1, 1, 1, 1, 1,
    1, 1, 1, 1, 1, 1, 1, 1, 1, 1, 1, 1, 1, 1, 1, 1, 1, 1, 1, 1,
    1, 1, 1, 1, 1, 1, 1, 1, 1, 1, 1, 1, 1, 1, 1, 1]"

definition yy_meta :: "nat list" where
  "yy_meta = [
    0, 1, 1, 1, 1, 1, 1, 1, 1, 1, 1, 1, 2, 1, 1, 1, 1, 2, 1, 2,
    2, 2, 2, 2, 2, 2, 2, 2, 2, 2, 2, 2, 2, 2, 2, 2, 2, 2, 2, 2,
    2, 2, 2]"

definition yy_base :: "nat list" where
  "yy_base = [
    0, 0, 0, 188, 189, 189, 189, 39, 189, 189, 189, 189, 189, 33, 175, 35, 189, 33, 189, 171,
    0, 154, 161, 24, 32, 142, 23, 29, 159, 30, 35, 146, 142, 147, 38, 159, 38, 158, 150, 59,
    189, 172, 162, 42, 161, 189, 189, 189, 0, 150, 146, 151, 139, 145, 130, 137, 133, 141, 131, 130,
    50, 0, 119, 123, 130, 0, 0, 131, 130, 127, 44, 123, 134, 126, 130, 52, 122, 127, 0, 122,
    113, 117, 127, 126, 121, 110, 121, 122, 110, 116, 115, 105, 0, 0, 107, 105, 97, 104, 109, 0,
    91, 101, 95, 109, 0, 96, 88, 90, 93, 0, 96, 85, 101, 83, 0, 95, 81, 0, 76, 81,
    0, 0, 96, 0, 94, 92, 0, 89, 73, 73, 84, 85, 84, 0, 69, 82, 85, 80, 75, 0,
    78, 63, 64, 79, 60, 60, 72, 71, 0, 57, 0, 0, 0, 56, 0, 62, 54, 0, 43, 63,
    0, 0, 0, 0, 0, 60, 59, 0, 0, 52, 42, 0, 0, 0, 189, 87, 74]"

definition yy_def :: "nat list" where
  "yy_def = [
    0, 174, 1, 174, 174, 174, 174, 175, 174, 174, 174, 174, 174, 174, 174, 174, 174, 174, 174, 174,
    176, 176, 176, 176, 176, 176, 176, 176, 176, 176, 176, 176, 176, 176, 176, 176, 176, 176, 176, 175,
    174, 175, 174, 174, 174, 174, 174, 174, 176, 176, 176, 176, 176, 176, 176, 176, 176, 176, 176, 176,
    176, 176, 176, 176, 176, 176, 176, 176, 176, 176, 176, 176, 176, 176, 176, 176, 176, 176, 176, 176,
    176, 176, 176, 176, 176, 176, 176, 176, 176, 176, 176, 176, 176, 176, 176, 176, 176, 176, 176, 176,
    176, 176, 176, 176, 176, 176, 176, 176, 176, 176, 176, 176, 176, 176, 176, 176, 176, 176, 176, 176,
    176, 176, 176, 176, 176, 176, 176, 176, 176, 176, 176, 176, 176, 176, 176, 176, 176, 176, 176, 176,
    176, 176, 176, 176, 176, 176, 176, 176, 176, 176, 176, 176, 176, 176, 176, 176, 176, 176, 176, 176,
    176, 176, 176, 176, 176, 176, 176, 176, 176, 176, 176, 176, 176, 176, 0, 174, 174]"

definition yy_nxt :: "nat list" where
  "yy_nxt = [
    0, 4, 5, 6, 7, 8, 9, 10, 11, 12, 13, 14, 15, 16, 17, 18, 19, 20, 4, 21,
    22, 23, 24, 25, 26, 20, 20, 27, 28, 20, 20, 29, 30, 31, 32, 33, 34, 35, 36, 37,
    38, 20, 20, 40, 42, 43, 42, 43, 45, 46, 51, 54, 58, 42, 43, 55, 52, 41, 59, 53,
    60, 70, 63, 40, 71, 61, 65, 56, 64, 73, 66, 74, 89, 98, 75, 104, 48, 41, 173, 105,
    172, 99, 171, 170, 169, 168, 90, 91, 39, 39, 167, 166, 165, 164, 163, 162, 161, 160, 159, 158,
    157, 156, 155, 154, 153, 152, 151, 150, 149, 148, 147, 146, 145, 144, 143, 142, 141, 140, 139, 138,
    137, 136, 135, 134, 133, 132, 131, 130, 129, 128, 127, 126, 125, 124, 123, 122, 121, 120, 119, 118,
    117, 116, 115, 114, 113, 112, 111, 110, 109, 108, 107, 106, 103, 102, 101, 100, 97, 96, 95, 94,
    93, 92, 88, 87, 86, 85, 84, 83, 82, 81, 80, 79, 78, 44, 44, 174, 77, 76, 72, 69,
    68, 67, 62, 57, 50, 49, 47, 44, 174, 3, 174, 174, 174, 174, 174, 174, 174, 174, 174, 174,
    174, 174, 174, 174, 174, 174, 174, 174, 174, 174, 174, 174, 174, 174, 174, 174, 174, 174, 174, 174,
    174, 174, 174, 174, 174, 174, 174, 174, 174, 174, 174, 174]"

definition yy_chk :: "nat list" where
  "yy_chk = [
    0, 1, 1, 1, 1, 1, 1, 1, 1, 1, 1, 1, 1, 1, 1, 1, 1, 1, 1, 1,
    1, 1, 1, 1, 1, 1, 1, 1, 1, 1, 1, 1, 1, 1, 1, 1, 1, 1, 1, 1,
    1, 1, 1, 7, 13, 13, 15, 15, 17, 17, 23, 24, 26, 43, 43, 24, 23, 7, 26, 23,
    27, 34, 29, 39, 34, 27, 30, 24, 29, 36, 30, 36, 60, 70, 36, 75, 176, 39, 170, 75,
    169, 70, 166, 165, 159, 158, 60, 60, 175, 175, 156, 155, 153, 149, 147, 146, 145, 144, 143, 142,
    141, 140, 138, 137, 136, 135, 134, 132, 131, 130, 129, 128, 127, 125, 124, 122, 119, 118, 116, 115,
    113, 112, 111, 110, 108, 107, 106, 105, 103, 102, 101, 100, 98, 97, 96, 95, 94, 91, 90, 89,
    88, 87, 86, 85, 84, 83, 82, 81, 80, 79, 77, 76, 74, 73, 72, 71, 69, 68, 67, 64,
    63, 62, 59, 58, 57, 56, 55, 54, 53, 52, 51, 50, 49, 44, 42, 41, 38, 37, 35, 33,
    32, 31, 28, 25, 22, 21, 19, 14, 3, 174, 174, 174, 174, 174, 174, 174, 174, 174, 174, 174,
    174, 174, 174, 174, 174, 174, 174, 174, 174, 174, 174, 174, 174, 174, 174, 174, 174, 174, 174, 174,
    174, 174, 174, 174, 174, 174, 174, 174, 174, 174, 174, 174]"

definition yy_rule_can_match_eol :: "nat list" where
  "yy_rule_can_match_eol = [
    0, 1, 0, 0, 0, 0, 0, 0, 0, 0, 0, 0, 0, 0, 0, 0, 0, 0, 0, 0,
    0, 0, 0, 0, 0, 0, 0, 0, 0, 0, 0, 0, 0, 0, 0, 0, 0, 0, 0, 0,
    0, 0, 0, 0, 0, 0, 0, 0, 0, 0, 0, 0, 0, 0, 1, 0, 0]"

end
