(* ===== verification/Lexer.thy ===== *)
theory Lexer
  imports Lexer_Tables Syntax_Tree
begin

text \<open>
  The scanner of \<open>parser/minisql_lex.c\<close>: buffers over a string (\<open>yy_scan_string\<close> and what it calls),
  the table-driven match loop, the actions of the rules and the end-of-buffer handling, and the
  release of the scanner. A pointer into the current buffer is an offset into its \<open>yy_ch_buf\<close>.
  \<open>None\<close> stands for an access outside an array, a use of a missing buffer or \<open>YY_FATAL_ERROR\<close>, and
  for reading from \<open>yyin\<close>: buffers that refill from a file are not modelled.
\<close>

section \<open>State\<close>

record yy_buffer_state =
  yy_ch_buf :: "char list"
  yy_buf_pos :: nat
  yy_buf_size :: nat
  b_n_chars :: nat
  yy_is_our_buffer :: bool
  yy_is_interactive :: bool
  yy_at_bol :: bool
  yy_fill_buffer :: bool
  yy_buffer_status :: nat

text \<open>
  The globals of the scanner. \<open>buffers\<close> holds the allocated buffer structures and \<open>next_buffer\<close> the
  address the next allocation returns; \<open>yy_buffer_stack\<close> is NULL or an array of such addresses.
\<close>

record lex_state =
  buffers :: "nat \<rightharpoonup> yy_buffer_state"
  next_buffer :: nat
  yy_buffer_stack :: "nat option list option"
  yy_buffer_stack_top :: nat
  yy_buffer_stack_max :: nat
  yy_hold_char :: char
  yy_n_chars :: nat
  yyleng :: nat
  yy_c_buf_p :: nat
  yy_init :: bool
  yy_start :: nat
  yytext_ptr :: nat
  yylineno :: int
  yy_did_buffer_switch_on_eof :: bool
  yy_last_accepting_state :: nat
  yy_last_accepting_cpos :: nat

definition lex_zero :: lex_state where
  "lex_zero = \<lparr>buffers = Map.empty, next_buffer = 1, yy_buffer_stack = None, yy_buffer_stack_top = 0,
     yy_buffer_stack_max = 0, yy_hold_char = CHR 0x00, yy_n_chars = 0, yyleng = 0, yy_c_buf_p = 0,
     yy_init = False, yy_start = 0, yytext_ptr = 0, yylineno = 1, yy_did_buffer_switch_on_eof = False,
     yy_last_accepting_state = 0, yy_last_accepting_cpos = 0\<rparr>"

text \<open>Array reads; \<open>None\<close> outside the array.\<close>

definition at :: "'a list \<Rightarrow> nat \<Rightarrow> 'a option" where
  "at xs i = (if i < length xs then Some (xs ! i) else None)"

definition YY_CURRENT_BUFFER :: "lex_state \<Rightarrow> nat option" where
  "YY_CURRENT_BUFFER lx = (case yy_buffer_stack lx of
       None \<Rightarrow> None
     | Some st \<Rightarrow> (if yy_buffer_stack_top lx < length st then st ! yy_buffer_stack_top lx else None))"

definition set_current :: "nat option \<Rightarrow> lex_state \<Rightarrow> lex_state option" where
  "set_current b lx = do {
     st \<leftarrow> yy_buffer_stack lx;
     if yy_buffer_stack_top lx < length st
     then Some (lx\<lparr>yy_buffer_stack := Some (st[yy_buffer_stack_top lx := b])\<rparr>)
     else None
   }"

definition cur_buf :: "lex_state \<Rightarrow> yy_buffer_state option" where
  "cur_buf lx = do { b \<leftarrow> YY_CURRENT_BUFFER lx; buffers lx b }"

definition set_cur_buf :: "yy_buffer_state \<Rightarrow> lex_state \<Rightarrow> lex_state option" where
  "set_cur_buf B lx = do {
     b \<leftarrow> YY_CURRENT_BUFFER lx;
     Some (lx\<lparr>buffers := (buffers lx)(b \<mapsto> B)\<rparr>)
   }"

text \<open>\<open>*p = c\<close> for a pointer \<open>p\<close> into the current buffer.\<close>

definition poke :: "nat \<Rightarrow> char \<Rightarrow> lex_state \<Rightarrow> lex_state option" where
  "poke p c lx = do {
     B \<leftarrow> cur_buf lx;
     if p < length (yy_ch_buf B) then set_cur_buf (B\<lparr>yy_ch_buf := (yy_ch_buf B)[p := c]\<rparr>) lx else None
   }"

section \<open>Buffers\<close>

definition yy_load_buffer_state :: "lex_state \<Rightarrow> lex_state option" where
  "yy_load_buffer_state lx = do {
     B \<leftarrow> cur_buf lx;
     c \<leftarrow> at (yy_ch_buf B) (yy_buf_pos B);
     Some (lx\<lparr>yy_n_chars := b_n_chars B, yytext_ptr := yy_buf_pos B, yy_c_buf_p := yy_buf_pos B,
              yy_hold_char := c\<rparr>)
   }"

definition yyensure_buffer_stack :: "lex_state \<Rightarrow> lex_state" where
  "yyensure_buffer_stack lx = (case yy_buffer_stack lx of
       None \<Rightarrow> lx\<lparr>yy_buffer_stack := Some [None], yy_buffer_stack_max := 1, yy_buffer_stack_top := 0\<rparr>
     | Some st \<Rightarrow>
         if int (yy_buffer_stack_max lx) - 1 \<le> int (yy_buffer_stack_top lx)
         then lx\<lparr>yy_buffer_stack := Some (st @ replicate 8 None),
                 yy_buffer_stack_max := yy_buffer_stack_max lx + 8\<rparr>
         else lx)"

text \<open>The old buffer's position is saved before another buffer becomes current.\<close>

definition flush_current :: "lex_state \<Rightarrow> lex_state option" where
  "flush_current lx = (case YY_CURRENT_BUFFER lx of
       None \<Rightarrow> Some lx
     | Some b \<Rightarrow> do {
         lx \<leftarrow> poke (yy_c_buf_p lx) (yy_hold_char lx) lx;
         B \<leftarrow> cur_buf lx;
         set_cur_buf (B\<lparr>yy_buf_pos := yy_c_buf_p lx, b_n_chars := yy_n_chars lx\<rparr>) lx
       })"

definition yy_switch_to_buffer :: "nat option \<Rightarrow> lex_state \<Rightarrow> lex_state option" where
  "yy_switch_to_buffer new_buffer lx = do {
     let lx = yyensure_buffer_stack lx;
     if YY_CURRENT_BUFFER lx = new_buffer then Some lx
     else do {
       lx \<leftarrow> flush_current lx;
       lx \<leftarrow> set_current new_buffer lx;
       lx \<leftarrow> yy_load_buffer_state lx;
       Some (lx\<lparr>yy_did_buffer_switch_on_eof := True\<rparr>)
     }
   }"

definition yypush_buffer_state :: "nat option \<Rightarrow> lex_state \<Rightarrow> lex_state option" where
  "yypush_buffer_state new_buffer lx = (if new_buffer = None then Some lx else do {
     let lx = yyensure_buffer_stack lx;
     lx \<leftarrow> flush_current lx;
     let lx = (if YY_CURRENT_BUFFER lx \<noteq> None
               then lx\<lparr>yy_buffer_stack_top := yy_buffer_stack_top lx + 1\<rparr> else lx);
     lx \<leftarrow> set_current new_buffer lx;
     lx \<leftarrow> yy_load_buffer_state lx;
     Some (lx\<lparr>yy_did_buffer_switch_on_eof := True\<rparr>)
   })"

text \<open>\<open>free\<close> of a structure that is not allocated is an error.\<close>

definition yy_delete_buffer :: "nat option \<Rightarrow> lex_state \<Rightarrow> lex_state option" where
  "yy_delete_buffer b lx = (case b of
       None \<Rightarrow> Some lx
     | Some a \<Rightarrow> do {
         lx \<leftarrow> (if b = YY_CURRENT_BUFFER lx then set_current None lx else Some lx);
         B \<leftarrow> buffers lx a;
         Some (lx\<lparr>buffers := (buffers lx)(a := None)\<rparr>)
       })"

definition yypop_buffer_state :: "lex_state \<Rightarrow> lex_state option" where
  "yypop_buffer_state lx = (case YY_CURRENT_BUFFER lx of
       None \<Rightarrow> Some lx
     | Some b \<Rightarrow> do {
         lx \<leftarrow> yy_delete_buffer (Some b) lx;
         lx \<leftarrow> set_current None lx;
         let lx = lx\<lparr>yy_buffer_stack_top := yy_buffer_stack_top lx - 1\<rparr>;
         if YY_CURRENT_BUFFER lx \<noteq> None
         then do { lx \<leftarrow> yy_load_buffer_state lx; Some (lx\<lparr>yy_did_buffer_switch_on_eof := True\<rparr>) }
         else Some lx
       })"

definition yy_flush_buffer :: "nat option \<Rightarrow> lex_state \<Rightarrow> lex_state option" where
  "yy_flush_buffer b lx = (case b of
       None \<Rightarrow> Some lx
     | Some a \<Rightarrow> do {
         B \<leftarrow> buffers lx a;
         if length (yy_ch_buf B) < 2 then None
         else do {
           let B = B\<lparr>b_n_chars := 0, yy_ch_buf := (yy_ch_buf B)[0 := CHR 0x00, 1 := CHR 0x00],
                     yy_buf_pos := 0, yy_at_bol := True, yy_buffer_status := 0\<rparr>;
           let lx = lx\<lparr>buffers := (buffers lx)(a \<mapsto> B)\<rparr>;
           if b = YY_CURRENT_BUFFER lx then yy_load_buffer_state lx else Some lx
         }
       })"

text \<open>
  \<open>yy_scan_buffer\<close> returns NULL when the two end-of-buffer characters are missing. The memory at
  \<open>base\<close> is owned by the new buffer from then on, so its contents are passed.
\<close>

definition yy_scan_buffer :: "char list \<Rightarrow> nat \<Rightarrow> lex_state \<Rightarrow> (nat option \<times> lex_state) option" where
  "yy_scan_buffer base sz lx =
     (if sz < 2 then Some (None, lx)
      else do {
        c1 \<leftarrow> at base (sz - 2);
        c2 \<leftarrow> at base (sz - 1);
        if c1 \<noteq> CHR 0x00 \<or> c2 \<noteq> CHR 0x00 then Some (None, lx)
        else do {
          let b = next_buffer lx;
          let B = \<lparr>yy_ch_buf = base, yy_buf_pos = 0, yy_buf_size = sz - 2, b_n_chars = sz - 2,
                   yy_is_our_buffer = False, yy_is_interactive = False, yy_at_bol = True,
                   yy_fill_buffer = False, yy_buffer_status = 0\<rparr>;
          lx \<leftarrow> yy_switch_to_buffer (Some b)
                  (lx\<lparr>buffers := (buffers lx)(b \<mapsto> B), next_buffer := b + 1\<rparr>);
          Some (Some b, lx)
        }
      })"

definition yy_scan_bytes :: "char list \<Rightarrow> nat \<Rightarrow> lex_state \<Rightarrow> (nat option \<times> lex_state) option" where
  "yy_scan_bytes yybytes len lx =
     (if length yybytes < len then None
      else do {
        let n = len + 2;
        let buf = take len yybytes @ [CHR 0x00, CHR 0x00];
        (b, lx) \<leftarrow> yy_scan_buffer buf n lx;
        a \<leftarrow> b;
        B \<leftarrow> buffers lx a;
        Some (b, lx\<lparr>buffers := (buffers lx)(a \<mapsto> B\<lparr>yy_is_our_buffer := True\<rparr>)\<rparr>)
      })"

definition yy_scan_string :: "string \<Rightarrow> lex_state \<Rightarrow> (nat option \<times> lex_state) option" where
  "yy_scan_string yystr lx = yy_scan_bytes yystr (length yystr) lx"

definition yy_init_globals :: "lex_state \<Rightarrow> lex_state" where
  "yy_init_globals lx = lx\<lparr>yylineno := 1, yy_buffer_stack := None, yy_buffer_stack_top := 0,
     yy_buffer_stack_max := 0, yy_c_buf_p := 0, yy_init := False, yy_start := 0\<rparr>"

partial_function (option) destroy_buffers :: "lex_state \<Rightarrow> lex_state option" where
  "destroy_buffers lx = (case YY_CURRENT_BUFFER lx of
       None \<Rightarrow> Some lx
     | Some b \<Rightarrow> do {
         lx \<leftarrow> yy_delete_buffer (Some b) lx;
         lx \<leftarrow> set_current None lx;
         lx \<leftarrow> yypop_buffer_state lx;
         destroy_buffers lx
       })"

definition yylex_destroy :: "lex_state \<Rightarrow> lex_state option" where
  "yylex_destroy lx = do {
     lx \<leftarrow> destroy_buffers lx;
     Some (yy_init_globals (lx\<lparr>yy_buffer_stack := None\<rparr>))
   }"

section \<open>The automaton\<close>

text \<open>The inner loop of every transition: fall back along \<open>yy_def\<close> until an entry belongs to the state.\<close>

partial_function (option) yy_trans :: "nat \<Rightarrow> nat \<Rightarrow> nat option" where
  "yy_trans s c = do {
     b \<leftarrow> at yy_base s;
     k \<leftarrow> at yy_chk (b + c);
     if k = s then at yy_nxt (b + c)
     else do {
       s' \<leftarrow> at yy_def s;
       c' \<leftarrow> (if 175 \<le> s' then at yy_meta c else Some c);
       yy_trans s' c'
     }
   }"

definition note_accepting :: "nat \<Rightarrow> nat \<Rightarrow> lex_state \<Rightarrow> lex_state option" where
  "note_accepting s cp lx = do {
     r \<leftarrow> at yy_accept s;
     Some (if r \<noteq> 0 then lx\<lparr>yy_last_accepting_state := s, yy_last_accepting_cpos := cp\<rparr> else lx)
   }"

definition peek :: "nat \<Rightarrow> lex_state \<Rightarrow> char option" where
  "peek p lx = do { B \<leftarrow> cur_buf lx; at (yy_ch_buf B) p }"

partial_function (option) yy_match :: "nat \<Rightarrow> nat \<Rightarrow> lex_state \<Rightarrow> (nat \<times> nat \<times> lex_state) option" where
  "yy_match s cp lx = do {
     ch \<leftarrow> peek cp lx;
     c \<leftarrow> at yy_ec (of_char ch);
     lx \<leftarrow> note_accepting s cp lx;
     s' \<leftarrow> yy_trans s c;
     b \<leftarrow> at yy_base s';
     if b \<noteq> 189 then yy_match s' (cp + 1) lx else Some (s', cp + 1, lx)
   }"

fun previous_state :: "nat \<Rightarrow> nat \<Rightarrow> nat \<Rightarrow> lex_state \<Rightarrow> (nat \<times> lex_state) option" where
  "previous_state 0 cp s lx = Some (s, lx)"
| "previous_state (Suc n) cp s lx = do {
     ch \<leftarrow> peek cp lx;
     c \<leftarrow> (if ch \<noteq> CHR 0x00 then at yy_ec (of_char ch) else Some 1);
     lx \<leftarrow> note_accepting s cp lx;
     s' \<leftarrow> yy_trans s c;
     previous_state n (cp + 1) s' lx
   }"

definition yy_get_previous_state :: "lex_state \<Rightarrow> (nat \<times> lex_state) option" where
  "yy_get_previous_state lx =
     previous_state (yy_c_buf_p lx - yytext_ptr lx) (yytext_ptr lx) (yy_start lx) lx"

definition yy_try_NUL_trans :: "nat \<Rightarrow> lex_state \<Rightarrow> (nat \<times> lex_state) option" where
  "yy_try_NUL_trans s lx = do {
     lx \<leftarrow> note_accepting s (yy_c_buf_p lx) lx;
     s' \<leftarrow> yy_trans s 1;
     Some (if s' = 174 then 0 else s', lx)
   }"

text \<open>
  \<open>yy_get_next_buffer\<close> up to the test of \<open>yy_fill_buffer\<close>; a buffer over a string never refills.
\<close>

datatype eob_act = EOB_ACT_CONTINUE_SCAN | EOB_ACT_END_OF_FILE | EOB_ACT_LAST_MATCH

definition yy_get_next_buffer :: "lex_state \<Rightarrow> eob_act option" where
  "yy_get_next_buffer lx = do {
     B \<leftarrow> cur_buf lx;
     if yy_n_chars lx + 1 < yy_c_buf_p lx then None
     else if \<not> yy_fill_buffer B then
       Some (if yy_c_buf_p lx - yytext_ptr lx = 1 then EOB_ACT_END_OF_FILE else EOB_ACT_LAST_MATCH)
     else None
   }"

section \<open>Actions of the rules\<close>

text \<open>The keywords, by what they are used for: statements, objects and clauses, constraints and conditions.\<close>

definition statement_keyword :: "nat \<Rightarrow> int option" where
  "statement_keyword act = (
     if act = 2 then Some (token_code tk_CREATE)
     else if act = 3 then Some (token_code tk_DROP)
     else if act = 4 then Some (token_code tk_SELECT)
     else if act = 5 then Some (token_code tk_INSERT)
     else if act = 6 then Some (token_code tk_DELETE)
     else if act = 7 then Some (token_code tk_UPDATE)
     else if act = 8 then Some (token_code tk_TRXBEGIN)
     else if act = 9 then Some (token_code tk_TRXCOMMIT)
     else if act = 10 then Some (token_code tk_TRXROLLBACK)
     else if act = 11 then Some (token_code tk_QUIT)
     else if act = 12 then Some (token_code tk_EXECFILE)
     else if act = 13 then Some (token_code tk_SHOW)
     else if act = 14 then Some (token_code tk_USE)
     else if act = 15 then Some (token_code tk_USING)
     else None)"

definition clause_keyword :: "nat \<Rightarrow> int option" where
  "clause_keyword act = (
     if act = 16 then Some (token_code tk_DATABASE)
     else if act = 17 then Some (token_code tk_DATABASES)
     else if act = 18 then Some (token_code tk_TABLE)
     else if act = 19 then Some (token_code tk_TABLES)
     else if act = 20 then Some (token_code tk_INDEX)
     else if act = 21 then Some (token_code tk_INDEXES)
     else if act = 22 then Some (token_code tk_ON)
     else if act = 23 then Some (token_code tk_FROM)
     else if act = 24 then Some (token_code tk_WHERE)
     else if act = 25 then Some (token_code tk_INTO)
     else if act = 26 then Some (token_code tk_SET)
     else if act = 27 then Some (token_code tk_VALUES)
     else if act = 28 then Some (token_code tk_PRIMARY)
     else None)"

definition condition_keyword :: "nat \<Rightarrow> int option" where
  "condition_keyword act = (
     if act = 29 then Some (token_code tk_KEY)
     else if act = 30 then Some (token_code tk_UNIQUE)
     else if act = 31 then Some (token_code tk_CHAR)
     else if act = 32 then Some (token_code tk_INT)
     else if act = 33 then Some (token_code tk_FLOAT)
     else if act = 34 then Some (token_code tk_AND)
     else if act = 35 then Some (token_code tk_OR)
     else if act = 36 then Some (token_code tk_NOT)
     else if act = 37 then Some (token_code tk_IS)
     else if act = 38 then Some (token_code tk_FLAGNULL)
     else None)"

definition operator_token :: "nat \<Rightarrow> int option" where
  "operator_token act = (
     if act = 42 then Some (token_code tk_EQ)
     else if act = 43 then Some (token_code tk_NE)
     else if act = 44 then Some (token_code tk_LE)
     else if act = 45 then Some (token_code tk_GE)
     else if act = 46 then Some (of_char CHR '','')
     else if act = 47 then Some (of_char CHR ''*'')
     else if act = 48 then Some (of_char CHR '';'')
     else if act = 49 then Some (of_char (CHR 0x27))
     else if act = 50 then Some (of_char CHR ''<'')
     else if act = 51 then Some (of_char CHR ''>'')
     else if act = 52 then Some (of_char CHR ''('')
     else if act = 53 then Some (of_char CHR '')'')
     else None)"

definition value_token :: "nat \<Rightarrow> (SyntaxNodeType \<times> int) option" where
  "value_token act = (
     if act = 1 then Some (kNodeString, token_code tk_STRING)
     else if act = 39 then Some (kNodeIdentifier, token_code tk_IDENTIFIER)
     else if act = 40 \<or> act = 41 then Some (kNodeNumber, token_code tk_NUMBER)
     else None)"

text \<open>\<open>char str[128]\<close>, filled by \<open>sprintf\<close>: \<open>None\<close> when the message with its NUL does not fit.\<close>

definition unrecognized_message :: "string \<Rightarrow> message option" where
  "unrecognized_message text =
     (let str = ''Unrecognized token ['' @ text @ ''] in input sql.''
      in if length str < 128 then Some (Automatic str) else None)"

text \<open>
  One action: the token to return, or \<open>None\<close> when scanning goes on, with \<open>yylval\<close> and the parser's
  globals. Rule 56 copies \<open>yytext\<close> to the output.
\<close>

definition lex_action :: "nat \<Rightarrow> string \<Rightarrow> nat option \<Rightarrow> parser_state
    \<Rightarrow> (int option \<times> nat option \<times> parser_state) option" where
  "lex_action act text yylval g = (
     case value_token act of
       Some (ty, tok) \<Rightarrow> do {
         (a, g) \<leftarrow> CreateSyntaxNode ty (Some text) (MinisqlParserMovePos text g);
         Some (Some tok, Some a, g)
       }
     | None \<Rightarrow>
         if 2 \<le> act \<and> act \<le> 15 then Some (statement_keyword act, yylval, MinisqlParserMovePos text g)
         else if 16 \<le> act \<and> act \<le> 28 then Some (clause_keyword act, yylval, MinisqlParserMovePos text g)
         else if 29 \<le> act \<and> act \<le> 38 then Some (condition_keyword act, yylval, MinisqlParserMovePos text g)
         else if 42 \<le> act \<and> act \<le> 53 then Some (operator_token act, yylval, MinisqlParserMovePos text g)
         else if act = 54 then Some (None, yylval, MinisqlParserMovePos text g)
         else if act = 55 then do {
           msg \<leftarrow> unrecognized_message text;
           Some (None, yylval, MinisqlParserSetError msg g)
         }
         else if act = 56 then Some (None, yylval, g)
         else None)"

section \<open>yylex\<close>

text \<open>\<open>yytext\<close> as the actions see it: the characters up to the NUL written behind the match.\<close>

definition yytext :: "lex_state \<Rightarrow> string option" where
  "yytext lx = do { B \<leftarrow> cur_buf lx; Some (takeWhile (\<lambda>c. c \<noteq> CHR 0x00) (drop (yytext_ptr lx) (yy_ch_buf B))) }"

definition YY_DO_BEFORE_ACTION :: "nat \<Rightarrow> nat \<Rightarrow> lex_state \<Rightarrow> lex_state option" where
  "YY_DO_BEFORE_ACTION bp cp lx = do {
     c \<leftarrow> peek cp lx;
     poke cp (CHR 0x00) (lx\<lparr>yytext_ptr := bp, yyleng := cp - bp, yy_hold_char := c, yy_c_buf_p := cp\<rparr>)
   }"

text \<open>Lines counted by the scanner: newlines among the \<open>yyleng\<close> characters of the match.\<close>

definition count_lines :: "nat \<Rightarrow> lex_state \<Rightarrow> lex_state option" where
  "count_lines act lx = do {
     B \<leftarrow> cur_buf lx;
     e \<leftarrow> (if act = 57 then Some 0 else at yy_rule_can_match_eol act);
     Some (if e = 0 then lx
           else lx\<lparr>yylineno := yylineno lx + int (length (filter (\<lambda>c. c = CHR 0x0A)
                  (take (yyleng lx) (drop (yytext_ptr lx) (yy_ch_buf B)))))\<rparr>)
   }"

text \<open>
  \<open>find_action\<close>: the rule of the reached state, backing up to the last accepting one; then
  \<open>YY_DO_BEFORE_ACTION\<close> and the line count. It yields the rule and the end of the match.
\<close>

definition find_action :: "nat \<Rightarrow> nat \<Rightarrow> nat \<Rightarrow> lex_state \<Rightarrow> (nat \<times> nat \<times> lex_state) option" where
  "find_action s bp cp lx = do {
     r \<leftarrow> at yy_accept s;
     (act, cp) \<leftarrow> (if r = 0
        then do { r \<leftarrow> at yy_accept (yy_last_accepting_state lx); Some (r, yy_last_accepting_cpos lx) }
        else Some (r, cp));
     lx \<leftarrow> YY_DO_BEFORE_ACTION bp cp lx;
     lx \<leftarrow> count_lines act lx;
     Some (act, cp, lx)
   }"

text \<open>
  The points of \<open>yylex\<close> a jump leads to: the head of the loop, and the labels \<open>yy_match\<close> and
  \<open>yy_find_action\<close> with the locals they use.
\<close>

datatype point = Scan | Match nat nat nat | Find nat nat nat

text \<open>\<open>case YY_END_OF_BUFFER\<close>: where to go on, or \<open>Inl\<close> for the return of \<open>YY_NULL\<close>.\<close>

definition end_of_buffer :: "nat \<Rightarrow> lex_state \<Rightarrow> (lex_state + point \<times> lex_state) option" where
  "end_of_buffer cp lx = do {
     let matched = cp - yytext_ptr lx - 1;
     lx \<leftarrow> poke cp (yy_hold_char lx) lx;
     B \<leftarrow> cur_buf lx;
     lx \<leftarrow> (if yy_buffer_status B = 0
        then set_cur_buf (B\<lparr>yy_buffer_status := 1\<rparr>) (lx\<lparr>yy_n_chars := b_n_chars B\<rparr>) else Some lx);
     if yy_c_buf_p lx \<le> yy_n_chars lx then do {
       let lx = lx\<lparr>yy_c_buf_p := yytext_ptr lx + matched\<rparr>;
       (s, lx) \<leftarrow> yy_get_previous_state lx;
       (s', lx) \<leftarrow> yy_try_NUL_trans s lx;
       if s' \<noteq> 0
       then Some (Inr (Match s' (yytext_ptr lx) (yy_c_buf_p lx + 1), lx\<lparr>yy_c_buf_p := yy_c_buf_p lx + 1\<rparr>))
       else Some (Inr (Find s (yytext_ptr lx) (yy_c_buf_p lx), lx))
     }
     else do {
       e \<leftarrow> yy_get_next_buffer lx;
       (case e of
          EOB_ACT_END_OF_FILE \<Rightarrow>
            Some (Inl (lx\<lparr>yy_did_buffer_switch_on_eof := False, yy_c_buf_p := yytext_ptr lx\<rparr>))
        | EOB_ACT_CONTINUE_SCAN \<Rightarrow> do {
            let lx = lx\<lparr>yy_c_buf_p := yytext_ptr lx + matched\<rparr>;
            (s, lx) \<leftarrow> yy_get_previous_state lx;
            Some (Inr (Match s (yytext_ptr lx) (yy_c_buf_p lx), lx))
          }
        | EOB_ACT_LAST_MATCH \<Rightarrow> do {
            let lx = lx\<lparr>yy_c_buf_p := yy_n_chars lx\<rparr>;
            (s, lx) \<leftarrow> yy_get_previous_state lx;
            Some (Inr (Find s (yytext_ptr lx) (yy_c_buf_p lx), lx))
          })
     }
   }"

text \<open>From a point to the end of the match.\<close>

definition to_action :: "point \<Rightarrow> lex_state \<Rightarrow> (nat \<times> nat \<times> lex_state) option" where
  "to_action pt lx = (case pt of
       Scan \<Rightarrow> do {
         let cp = yy_c_buf_p lx;
         lx \<leftarrow> poke cp (yy_hold_char lx) lx;
         (s, e, lx) \<leftarrow> yy_match (yy_start lx) cp lx;
         find_action s cp e lx
       }
     | Match s bp cp \<Rightarrow> do {
         (s', e, lx) \<leftarrow> yy_match s cp lx;
         find_action s' bp e lx
       }
     | Find s bp cp \<Rightarrow> find_action s bp cp lx)"

partial_function (option) yylex_loop ::
    "point \<Rightarrow> lex_state \<Rightarrow> nat option \<Rightarrow> parser_state
      \<Rightarrow> (int \<times> lex_state \<times> nat option \<times> parser_state) option" where
  "yylex_loop pt lx yylval g = do {
     (act, cp, lx) \<leftarrow> to_action pt lx;
     if act = 57 then do {
       r \<leftarrow> end_of_buffer cp lx;
       (case r of Inl lx \<Rightarrow> Some (0, lx, yylval, g) | Inr (pt, lx) \<Rightarrow> yylex_loop pt lx yylval g)
     }
     else do {
       text \<leftarrow> yytext lx;
       (tok, yylval, g) \<leftarrow> lex_action act text yylval g;
       (case tok of Some t \<Rightarrow> Some (t, lx, yylval, g) | None \<Rightarrow> yylex_loop Scan lx yylval g)
     }
   }"

text \<open>The initialisation of the first call; without a buffer the scanner would open one on \<open>stdin\<close>.\<close>

definition yylex_init :: "lex_state \<Rightarrow> lex_state option" where
  "yylex_init lx =
     (if yy_init lx then Some lx
      else do {
        let lx = lx\<lparr>yy_init := True, yy_start := (if yy_start lx = 0 then 1 else yy_start lx)\<rparr>;
        b \<leftarrow> YY_CURRENT_BUFFER lx;
        yy_load_buffer_state lx
      })"

definition yylex :: "lex_state \<Rightarrow> nat option \<Rightarrow> parser_state
    \<Rightarrow> (int \<times> lex_state \<times> nat option \<times> parser_state) option" where
  "yylex lx yylval g = do { lx \<leftarrow> yylex_init lx; yylex_loop Scan lx yylval g }"

end
