(* ===== verification/Lexer_Automaton.thy ===== *)
theory Lexer_Automaton
  imports Lexer
begin

text \<open>
  What the tables of the scanner recognise. The states 20-38 and 48-173 are reached by words; their
  own transitions are listed in \<open>word_entries\<close> and every other word character leads to state 48.
  \<open>word_spell\<close> gives for such a state the character classes that lead to it, last one first. From
  finite checks of the tables follow the automaton's behaviour on every text and the lexical
  specification \<open>lexeme\<close>: rule and length of the next match.
\<close>

section \<open>Specification\<close>

definition keyword_list :: "string list" where
  "keyword_list = [
    ''create'', ''drop'', ''select'', ''insert'', ''delete'', ''update'', ''begin'',
    ''commit'', ''rollback'', ''quit'', ''execfile'', ''show'', ''use'', ''using'',
    ''database'', ''databases'', ''table'', ''tables'', ''index'', ''indexes'', ''on'',
    ''from'', ''where'', ''into'', ''set'', ''values'', ''primary'', ''key'', ''unique'',
    ''char'', ''int'', ''float'', ''and'', ''or'', ''not'', ''is'', ''null'']"

definition word_char :: "char \<Rightarrow> bool" where
  "word_char c \<longleftrightarrow> (let n = of_char c :: nat in
     48 \<le> n \<and> n \<le> 57 \<or> 65 \<le> n \<and> n \<le> 90 \<or> n = 95 \<or> 97 \<le> n \<and> n \<le> 122)"

definition digit_char :: "char \<Rightarrow> bool" where
  "digit_char c \<longleftrightarrow> (let n = of_char c :: nat in 48 \<le> n \<and> n \<le> 57)"

section \<open>Finite facts about the tables\<close>

definition word_state :: "nat \<Rightarrow> bool" where
  "word_state s \<longleftrightarrow> 20 \<le> s \<and> s \<le> 38 \<or> 48 \<le> s \<and> s \<le> 173"

definition word_entries :: "(nat \<times> nat \<times> nat) list" where
  "word_entries = [
    (50, 23, 51), (51, 24, 54), (52, 26, 58), (55, 24, 55), (56, 23, 52), (58, 26, 59),
    (59, 23, 53), (60, 27, 60), (61, 34, 70), (62, 29, 63), (64, 34, 71), (65, 27, 61),
    (66, 30, 65), (67, 24, 56), (68, 29, 64), (69, 36, 73), (70, 30, 66), (71, 36, 74),
    (72, 60, 89), (73, 70, 98), (74, 36, 75), (75, 75, 104), (78, 170, 173), (79, 75, 105),
    (80, 169, 172), (81, 70, 99), (82, 166, 171), (83, 165, 170), (84, 159, 169),
    (85, 158, 168), (86, 60, 90), (87, 60, 91), (90, 156, 167), (91, 155, 166), (92, 153, 165),
    (93, 149, 164), (94, 147, 163), (95, 146, 162), (96, 145, 161), (97, 144, 160),
    (98, 143, 159), (99, 142, 158), (100, 141, 157), (101, 140, 156), (102, 138, 155),
    (103, 137, 154), (104, 136, 153), (105, 135, 152), (106, 134, 151), (107, 132, 150),
    (108, 131, 149), (109, 130, 148), (110, 129, 147), (111, 128, 146), (112, 127, 145),
    (113, 125, 144), (114, 124, 143), (115, 122, 142), (116, 119, 141), (117, 118, 140),
    (118, 116, 139), (119, 115, 138), (120, 113, 137), (121, 112, 136), (122, 111, 135),
    (123, 110, 134), (124, 108, 133), (125, 107, 132), (126, 106, 131), (127, 105, 130),
    (128, 103, 129), (129, 102, 128), (130, 101, 127), (131, 100, 126), (132, 98, 125),
    (133, 97, 124), (134, 96, 123), (135, 95, 122), (136, 94, 121), (137, 91, 120),
    (138, 90, 119), (139, 89, 118), (140, 88, 117), (141, 87, 116), (142, 86, 115),
    (143, 85, 114), (144, 84, 113), (145, 83, 112), (146, 82, 111), (147, 81, 110),
    (148, 80, 109), (149, 79, 108), (150, 77, 107), (151, 76, 106), (152, 74, 103),
    (153, 73, 102), (154, 72, 101), (155, 71, 100), (156, 69, 97), (157, 68, 96),
    (158, 67, 95), (159, 64, 94), (160, 63, 93), (161, 62, 92), (162, 59, 88), (163, 58, 87),
    (164, 57, 86), (165, 56, 85), (166, 55, 84), (167, 54, 83), (168, 53, 82), (169, 52, 81),
    (170, 51, 80), (171, 50, 79), (172, 49, 78), (176, 38, 77), (177, 37, 76), (178, 35, 72),
    (179, 33, 69), (180, 32, 68), (181, 31, 67), (182, 28, 62), (183, 25, 57), (184, 22, 50),
    (185, 21, 49)]"

definition word_spell :: "nat list list" where
  "word_spell = [
    [], [], [], [], [], [], [], [], [], [], [], [], [], [], [], [], [], [], [], [], [], [19],
    [20], [21], [22], [23], [24], [27], [28], [31], [32], [33], [34], [35], [36], [37], [38],
    [39], [40], [], [], [], [], [], [], [], [], [], [], [31, 19], [23, 20], [26, 21], [32, 21],
    [35, 21], [19, 22], [23, 22], [35, 22], [41, 23], [29, 24], [35, 24], [31, 27], [36, 27],
    [23, 28], [32, 31], [38, 31], [31, 32], [35, 32], [35, 33], [38, 34], [32, 35], [23, 36],
    [26, 36], [19, 37], [31, 38], [33, 38], [36, 38], [19, 39], [26, 40], [22, 31, 19],
    [25, 23, 20], [19, 26, 21], [30, 32, 21], [23, 35, 21], [37, 19, 22], [29, 23, 22],
    [32, 35, 22], [23, 41, 23], [32, 29, 24], [32, 35, 24], [22, 31, 27], [36, 31, 27],
    [37, 31, 27], [42, 23, 28], [37, 32, 31], [29, 38, 31], [27, 35, 33], [27, 38, 34],
    [29, 32, 35], [29, 23, 36], [37, 23, 36], [32, 26, 36], [20, 19, 37], [27, 31, 38],
    [22, 33, 38], [23, 36, 38], [27, 36, 38], [29, 19, 39], [23, 26, 40], [27, 25, 23, 20],
    [35, 19, 26, 21], [30, 30, 32, 21], [19, 23, 35, 21], [19, 37, 19, 22], [23, 29, 23, 22],
    [33, 32, 35, 22], [21, 23, 41, 23], [19, 32, 29, 24], [30, 32, 35, 24], [23, 22, 31, 27],
    [23, 36, 31, 27], [32, 37, 31, 27], [29, 29, 38, 31], [30, 27, 35, 33], [37, 27, 38, 34],
    [29, 29, 32, 35], [23, 29, 23, 36], [40, 32, 26, 36], [29, 20, 19, 37], [34, 27, 31, 38],
    [19, 22, 33, 38], [31, 27, 36, 38], [38, 29, 19, 39], [35, 23, 26, 40],
    [31, 27, 25, 23, 20], [27, 30, 30, 32, 21], [37, 19, 23, 35, 21], [20, 19, 37, 19, 22],
    [37, 23, 29, 23, 22], [24, 21, 23, 41, 23], [37, 19, 32, 29, 24], [41, 23, 22, 31, 27],
    [35, 23, 36, 31, 27], [19, 30, 27, 35, 33], [20, 29, 29, 32, 35], [21, 23, 29, 23, 36],
    [23, 29, 20, 19, 37], [38, 34, 27, 31, 38], [37, 19, 22, 33, 38], [25, 31, 27, 36, 38],
    [23, 38, 29, 19, 39], [23, 35, 23, 26, 40], [37, 27, 30, 30, 32, 21],
    [23, 37, 19, 23, 35, 21], [19, 20, 19, 37, 19, 22], [23, 37, 23, 29, 23, 22],
    [27, 24, 21, 23, 41, 23], [23, 41, 23, 22, 31, 27], [37, 35, 23, 36, 31, 27],
    [35, 19, 30, 27, 35, 33], [19, 20, 29, 29, 32, 35], [37, 21, 23, 29, 23, 36],
    [36, 23, 29, 20, 19, 37], [23, 38, 34, 27, 31, 38], [23, 37, 19, 22, 33, 38],
    [36, 23, 38, 29, 19, 39], [36, 19, 20, 19, 37, 19, 22], [29, 27, 24, 21, 23, 41, 23],
    [36, 23, 41, 23, 22, 31, 27], [42, 35, 19, 30, 27, 35, 33], [21, 19, 20, 29, 29, 32, 35],
    [23, 36, 19, 20, 19, 37, 19, 22], [23, 29, 27, 24, 21, 23, 41, 23],
    [28, 21, 19, 20, 29, 29, 32, 35], [36, 23, 36, 19, 20, 19, 37, 19, 22]]"

lemmas table_nth =
  fun_cong [OF arg_cong [OF yy_base_def, of nth], of "numeral v" for v]
  fun_cong [OF arg_cong [OF yy_chk_def, of nth], of "numeral v" for v]
  fun_cong [OF arg_cong [OF yy_nxt_def, of nth], of "numeral v" for v]
  fun_cong [OF arg_cong [OF yy_def_def, of nth], of "numeral v" for v]
  fun_cong [OF arg_cong [OF yy_meta_def, of nth], of "numeral v" for v]
  fun_cong [OF arg_cong [OF yy_accept_def, of nth], of "numeral v" for v]
  fun_cong [OF arg_cong [OF word_spell_def, of nth], of "numeral v" for v]

lemma table_lengths [simp]:
  "length yy_base = 177" "length yy_chk = 232" "length yy_nxt = 232" "length yy_def = 177"
  "length yy_meta = 43" "length yy_accept = 175" "length yy_ec = 256"
  "length yy_rule_can_match_eol = 57"
  by (simp_all add: yy_base_def yy_chk_def yy_nxt_def yy_def_def yy_meta_def yy_accept_def yy_ec_def
      yy_rule_can_match_eol_def)

text \<open>\<open>word_entries\<close> lists the entries of \<open>yy_chk\<close> and \<open>yy_nxt\<close> that belong to word states, by index.\<close>

fun entries_listed :: "nat \<Rightarrow> nat list \<Rightarrow> nat list \<Rightarrow> (nat \<times> nat \<times> nat) list \<Rightarrow> bool" where
  "entries_listed i (s # ss) (t # ts) es =
     (if word_state s
      then (case es of [] \<Rightarrow> False | (j, s', t') # es' \<Rightarrow> j = i \<and> s' = s \<and> t' = t \<and> entries_listed (i + 1) ss ts es')
      else entries_listed (i + 1) ss ts es)"
| "entries_listed i [] ts es = True"
| "entries_listed i (s # ss) [] es = False"

lemma entries_listed_weak_cong: "i = j \<Longrightarrow> entries_listed i ss ts es = entries_listed j ss ts es" by simp

lemma entries_listedD:
  "entries_listed i ss ts es \<Longrightarrow> j < length ss \<Longrightarrow> word_state (ss ! j) \<Longrightarrow> (i + j, ss ! j, ts ! j) \<in> set es"
proof (induction i ss ts es arbitrary: j rule: entries_listed.induct)
  case (1 i s ss t ts es)
  then show ?case by (cases j) (auto split: if_splits list.splits)
qed auto

lemma word_entries_listed: "entries_listed 0 yy_chk yy_nxt word_entries"
  unfolding yy_chk_def yy_nxt_def word_entries_def
  by (simp add: word_state_def cong: entries_listed_weak_cong)

lemma check_word_entries:
  "list_all (\<lambda>(i, s, t). yy_base ! s + 19 \<le> i \<and> word_spell ! s \<noteq> [] \<and> word_state t
      \<and> word_spell ! t = (i - yy_base ! s) # word_spell ! s) word_entries"
  unfolding word_entries_def by (simp add: table_nth word_state_def cong: nth_weak_cong)

lemma check_word_def: "all_ix (\<lambda>s d. word_state s \<longrightarrow> d = 176) 0 yy_def"
  unfolding yy_def_def by (simp add: word_state_def cong: all_ix_weak_cong)

lemma check_base: "all_ix (\<lambda>s b. b \<le> 189 \<and> (word_state s \<longrightarrow> b \<noteq> 189)) 0 yy_base"
  unfolding yy_base_def by (simp add: word_state_def cong: all_ix_weak_cong)

lemma check_meta: "all_ix (\<lambda>k m. 1 \<le> k \<longrightarrow> m = (if k = 12 \<or> k = 17 \<or> 19 \<le> k then 2 else 1)) 0 yy_meta"
  unfolding yy_meta_def by (simp cong: all_ix_weak_cong)

text \<open>The transitions of the start state and of the sink.\<close>

lemma check_start: "all_ix2 (\<lambda>k c t. 1 \<le> k \<and> k \<le> 42 \<longrightarrow> c = 1) 0 yy_chk yy_nxt"
  unfolding yy_chk_def yy_nxt_def by (simp cong: all_ix2_weak_cong)

lemma check_sink: "all_ix2 (\<lambda>i s t. 189 \<le> i \<longrightarrow> s = 174 \<and> t = (if i = 189 then 3 else 174)) 0 yy_chk yy_nxt"
  unfolding yy_chk_def yy_nxt_def by (simp cong: all_ix2_weak_cong)

section \<open>Character classes\<close>

definition cls :: "char \<Rightarrow> nat" where
  "cls c = yy_ec ! of_char c"

lemma check_classes:
  "all_ix (\<lambda>n k. k \<le> 42 \<and> (k = 0 \<longleftrightarrow> n = 0)
      \<and> (48 \<le> n \<and> n \<le> 57 \<or> 65 \<le> n \<and> n \<le> 90 \<or> n = 95 \<or> 97 \<le> n \<and> n \<le> 122 \<longleftrightarrow> k = 12 \<or> k = 17 \<or> 19 \<le> k)
      \<and> (48 \<le> n \<and> n \<le> 57 \<longleftrightarrow> k = 12)) 0 yy_ec"
  unfolding yy_ec_def by (simp cong: all_ix_weak_cong)

lemma check_letters: "all_ix (\<lambda>n k. 19 \<le> k \<longrightarrow> n = (if k \<le> 27 then k + 78 else k + 79)) 0 yy_ec"
  unfolding yy_ec_def by (simp cong: all_ix_weak_cong)

lemma check_marks:
  "all_ix (\<lambda>n k. (k = 2 \<longleftrightarrow> n = 9 \<or> n = 11 \<or> n = 12 \<or> n = 32) \<and> (k = 3 \<longleftrightarrow> n = 10) \<and> (k = 4 \<longleftrightarrow> n = 34)
      \<and> (k = 5 \<longleftrightarrow> n = 39) \<and> (k = 6 \<longleftrightarrow> n = 40) \<and> (k = 7 \<longleftrightarrow> n = 41) \<and> (k = 8 \<longleftrightarrow> n = 42)
      \<and> (k = 9 \<longleftrightarrow> n = 44) \<and> (k = 10 \<longleftrightarrow> n = 45) \<and> (k = 11 \<longleftrightarrow> n = 46) \<and> (k = 13 \<longleftrightarrow> n = 59)
      \<and> (k = 14 \<longleftrightarrow> n = 60) \<and> (k = 15 \<longleftrightarrow> n = 61) \<and> (k = 16 \<longleftrightarrow> n = 62) \<and> (k = 18 \<longleftrightarrow> n = 92)) 0 yy_ec"
  unfolding yy_ec_def by (simp cong: all_ix_weak_cong)

lemma of_char_lt: "(of_char c :: nat) < 256"
  by simp

lemma of_char_eq: "(of_char c :: nat) = of_char d \<longleftrightarrow> c = d"
  by simp

lemma cls_bound: "cls c \<le> 42"
  and cls_NUL: "cls c = 0 \<longleftrightarrow> c = CHR 0x00"
  and cls_word: "word_char c \<longleftrightarrow> cls c = 12 \<or> cls c = 17 \<or> 19 \<le> cls c"
  and cls_digit: "digit_char c \<longleftrightarrow> cls c = 12"
  using all_ixD [OF check_classes, of "of_char c"] of_char_eq [of c "CHR 0x00"]
  by (auto simp: cls_def word_char_def digit_char_def Let_def)

lemma cls_inj:
  assumes "cls c = cls d" "19 \<le> cls c"
  shows "c = d"
proof -
  have "0 + of_char x = (if cls x \<le> 27 then cls x + 78 else cls x + 79)" if "19 \<le> cls x" for x
    by (rule all_ixD [OF check_letters, of "of_char x", folded cls_def, rule_format, OF _ that]) simp
  from this [of c] this [of d] assms have "(of_char c :: nat) = of_char d" by (metis add_0)
  then show ?thesis by simp
qed

lemma cls_marks:
  "cls c = 2 \<longleftrightarrow> c \<in> {CHR 0x09, CHR 0x0B, CHR 0x0C, CHR '' ''}" "cls c = 3 \<longleftrightarrow> c = CHR 0x0A"
  "cls c = 4 \<longleftrightarrow> c = CHR 0x22" "cls c = 5 \<longleftrightarrow> c = CHR 0x27" "cls c = 6 \<longleftrightarrow> c = CHR ''(''"
  "cls c = 7 \<longleftrightarrow> c = CHR '')''" "cls c = 8 \<longleftrightarrow> c = CHR ''*''" "cls c = 9 \<longleftrightarrow> c = CHR '',''"
  "cls c = 10 \<longleftrightarrow> c = CHR ''-''" "cls c = 11 \<longleftrightarrow> c = CHR ''.''" "cls c = 13 \<longleftrightarrow> c = CHR '';''"
  "cls c = 14 \<longleftrightarrow> c = CHR ''<''" "cls c = 15 \<longleftrightarrow> c = CHR ''=''" "cls c = 16 \<longleftrightarrow> c = CHR ''>''"
  "cls c = 18 \<longleftrightarrow> c = CHR 0x5C"
proof -
  have eq: "(of_char c = n) = (c = char_of n)" if "n < 256" for n :: nat
    using that by auto
  have m: "(cls c = 2 \<longleftrightarrow> of_char c \<in> {9, 11, 12, 32::nat}) \<and> (cls c = 3 \<longleftrightarrow> of_char c = (10::nat))
      \<and> (cls c = 4 \<longleftrightarrow> of_char c = (34::nat)) \<and> (cls c = 5 \<longleftrightarrow> of_char c = (39::nat))
      \<and> (cls c = 6 \<longleftrightarrow> of_char c = (40::nat)) \<and> (cls c = 7 \<longleftrightarrow> of_char c = (41::nat))
      \<and> (cls c = 8 \<longleftrightarrow> of_char c = (42::nat)) \<and> (cls c = 9 \<longleftrightarrow> of_char c = (44::nat))
      \<and> (cls c = 10 \<longleftrightarrow> of_char c = (45::nat)) \<and> (cls c = 11 \<longleftrightarrow> of_char c = (46::nat))
      \<and> (cls c = 13 \<longleftrightarrow> of_char c = (59::nat)) \<and> (cls c = 14 \<longleftrightarrow> of_char c = (60::nat))
      \<and> (cls c = 15 \<longleftrightarrow> of_char c = (61::nat)) \<and> (cls c = 16 \<longleftrightarrow> of_char c = (62::nat))
      \<and> (cls c = 18 \<longleftrightarrow> of_char c = (92::nat))"
    using all_ixD [OF check_marks, of "of_char c"] by (simp add: cls_def)
  have ch: "char_of (9::nat) = CHR 0x09" "char_of (11::nat) = CHR 0x0B" "char_of (12::nat) = CHR 0x0C"
    "char_of (32::nat) = CHR '' ''" "char_of (10::nat) = CHR 0x0A" "char_of (34::nat) = CHR 0x22"
    "char_of (39::nat) = CHR 0x27" "char_of (40::nat) = CHR ''(''" "char_of (41::nat) = CHR '')''"
    "char_of (42::nat) = CHR ''*''" "char_of (44::nat) = CHR '',''" "char_of (45::nat) = CHR ''-''"
    "char_of (46::nat) = CHR ''.''" "char_of (59::nat) = CHR '';''" "char_of (60::nat) = CHR ''<''"
    "char_of (61::nat) = CHR ''=''" "char_of (62::nat) = CHR ''>''" "char_of (92::nat) = CHR 0x5C"
    by code_simp+
  show "cls c = 2 \<longleftrightarrow> c \<in> {CHR 0x09, CHR 0x0B, CHR 0x0C, CHR '' ''}" "cls c = 3 \<longleftrightarrow> c = CHR 0x0A"
    "cls c = 4 \<longleftrightarrow> c = CHR 0x22" "cls c = 5 \<longleftrightarrow> c = CHR 0x27" "cls c = 6 \<longleftrightarrow> c = CHR ''(''"
    "cls c = 7 \<longleftrightarrow> c = CHR '')''" "cls c = 8 \<longleftrightarrow> c = CHR ''*''" "cls c = 9 \<longleftrightarrow> c = CHR '',''"
    "cls c = 10 \<longleftrightarrow> c = CHR ''-''" "cls c = 11 \<longleftrightarrow> c = CHR ''.''" "cls c = 13 \<longleftrightarrow> c = CHR '';''"
    "cls c = 14 \<longleftrightarrow> c = CHR ''<''" "cls c = 15 \<longleftrightarrow> c = CHR ''=''" "cls c = 16 \<longleftrightarrow> c = CHR ''>''"
    "cls c = 18 \<longleftrightarrow> c = CHR 0x5C"
    using m by (simp_all only: eq ch insert_iff empty_iff simp_thms rel_simps) 
qed

section \<open>Transitions\<close>

definition word_class :: "nat \<Rightarrow> bool" where
  "word_class k \<longleftrightarrow> k = 12 \<or> k = 17 \<or> 19 \<le> k"

lemma word_char_class: "word_char c \<longleftrightarrow> word_class (cls c)"
  by (simp add: cls_word word_class_def)

lemma base_le: "s < 177 \<Longrightarrow> yy_base ! s \<le> 189"
  using all_ixD [OF check_base, of s] by simp

lemma meta_class: "1 \<le> k \<Longrightarrow> k \<le> 42 \<Longrightarrow> yy_meta ! k = (if word_class k then 2 else 1)"
  using all_ixD [OF check_meta, of k] by (simp add: word_class_def)

lemma trans_own:
  assumes "s < 177" "k \<le> 42" "yy_chk ! (yy_base ! s + k) = s"
  shows "yy_trans s k = Some (yy_nxt ! (yy_base ! s + k))"
  using assms base_le [of s] by (simp add: yy_trans.simps [of s] at_def)

lemma trans_inherit:
  assumes "s < 177" "k \<le> 42" "yy_chk ! (yy_base ! s + k) \<noteq> s"
  shows "yy_trans s k = yy_trans (yy_def ! s) (if 175 \<le> yy_def ! s then yy_meta ! k else k)"
  using assms base_le [of s] by (simp add: yy_trans.simps [of s] at_def)

lemma trans_sink: "k \<le> 42 \<Longrightarrow> yy_trans 174 k = Some (if k = 0 then 3 else 174)"
proof -
  assume k: "k \<le> 42"
  have b: "yy_base ! 174 = 189" by (simp add: table_nth cong: nth_weak_cong)
  have "yy_chk ! (189 + k) = 174 \<and> yy_nxt ! (189 + k) = (if 189 + k = 189 then 3 else 174)"
    using all_ix2D [OF check_sink, of "189 + k"] k by simp
  with trans_own [of 174 k] k b show ?thesis by simp
qed

lemma trans_176: "yy_trans 176 2 = Some 48" "yy_trans 176 1 = Some 174" "yy_trans 176 0 = Some 3"
proof -
  have b: "yy_base ! 176 = 74" "yy_def ! 176 = 174" by (simp_all add: table_nth cong: nth_weak_cong)
  have c: "yy_chk ! 76 = 176" "yy_nxt ! 76 = 48" "yy_chk ! 75 \<noteq> 176" "yy_chk ! 74 \<noteq> 176"
    by (simp_all add: table_nth cong: nth_weak_cong)
  show "yy_trans 176 2 = Some 48" "yy_trans 176 1 = Some 174" "yy_trans 176 0 = Some 3"
    using trans_own [of 176 2] trans_inherit [of 176 1] trans_inherit [of 176 0] trans_sink [of 1] trans_sink [of 0] b c
    by simp_all
qed

lemma trans_175: "yy_trans 175 2 = Some 39" "yy_trans 175 1 = Some 39" "yy_trans 175 0 = Some 3"
proof -
  have b: "yy_base ! 175 = 87" "yy_def ! 175 = 174" by (simp_all add: table_nth cong: nth_weak_cong)
  have c: "yy_chk ! 88 = 175" "yy_nxt ! 88 = 39" "yy_chk ! 89 = 175" "yy_nxt ! 89 = 39" "yy_chk ! 87 \<noteq> 175"
    by (simp_all add: table_nth cong: nth_weak_cong)
  show "yy_trans 175 2 = Some 39" "yy_trans 175 1 = Some 39" "yy_trans 175 0 = Some 3"
    using trans_own [of 175 2] trans_own [of 175 1] trans_inherit [of 175 0] trans_sink [of 0] b c by simp_all
qed

lemma meta_zero: "yy_meta ! 0 = 0"
  by (simp add: yy_meta_def)

text \<open>Word states: an entry of its own, state 48 on the other word characters, else the sink.\<close>

lemma word_lt: "word_state s \<Longrightarrow> s < 177"
  by (auto simp: word_state_def)

lemma word_entry:
  assumes "word_state s" "k \<le> 42" "yy_chk ! (yy_base ! s + k) = s"
  defines "t \<equiv> yy_nxt ! (yy_base ! s + k)"
  shows "19 \<le> k \<and> word_state t \<and> word_spell ! s \<noteq> [] \<and> word_spell ! t = k # word_spell ! s"
proof -
  let ?i = "yy_base ! s + k"
  have "?i < 232" using base_le [OF word_lt [OF assms(1)]] assms(2) by simp
  then have "(0 + ?i, yy_chk ! ?i, yy_nxt ! ?i) \<in> set word_entries"
    using assms(1,3) by (intro entries_listedD [OF word_entries_listed]) simp_all
  with check_word_entries assms(3) show ?thesis by (auto simp: list_all_iff t_def)
qed

lemma word_inherit:
  assumes "word_state s" "k \<le> 42" "yy_chk ! (yy_base ! s + k) \<noteq> s"
  shows "yy_trans s k = yy_trans 176 (yy_meta ! k)"
  using trans_inherit [OF word_lt [OF assms(1)] assms(2,3)] all_ixD [OF check_word_def, of s]
    word_lt [OF assms(1)] assms(1) by simp

lemma word_step:
  assumes "word_state s" "word_class k" "k \<le> 42"
  shows "\<exists>t. yy_trans s k = Some t \<and> word_state t
    \<and> (t = 48 \<or> word_spell ! s \<noteq> [] \<and> word_spell ! t = k # word_spell ! s)"
proof (cases "yy_chk ! (yy_base ! s + k) = s")
  case True
  then show ?thesis using trans_own [OF word_lt] word_entry assms by blast
next
  case False
  have "1 \<le> k" using assms(2) by (auto simp: word_class_def)
  then show ?thesis
    using word_inherit [OF assms(1,3) False] meta_class [of k] assms trans_176(1)
    by (simp add: word_state_def)
qed

lemma word_stop:
  assumes "word_state s" "\<not> word_class k" "k \<le> 42"
  shows "yy_trans s k = Some (if k = 0 then 3 else 174)"
proof -
  have "yy_chk ! (yy_base ! s + k) \<noteq> s" using word_entry [OF assms(1,3)] assms(2) by (auto simp: word_class_def)
  then show ?thesis
    using word_inherit [OF assms(1,3)] meta_class [of k] meta_zero assms trans_176 by (cases "k = 0") auto
qed

end
