(* ===== verification/Lexer_Spec.thy ===== *)
theory Lexer_Spec
  imports Lexer_Automaton
begin

text \<open>
  The lexical specification. \<open>lexeme\<close> gives rule and length of the longest match at the start of a
  text, in terms of words, numbers, strings and marks; \<open>munch\<close> is what the automaton of the tables
  computes. They agree on every text without NUL.
\<close>

section \<open>Rules of words\<close>

definition word_rule :: "string \<Rightarrow> nat" where
  "word_rule w = (if w \<in> set keyword_list then 2 + length (takeWhile (\<lambda>k. k \<noteq> w) keyword_list) else 39)"

text \<open>The automaton on a list of character classes.\<close>

fun run :: "nat \<Rightarrow> nat list \<Rightarrow> nat option" where
  "run s [] = Some s"
| "run s (k # ks) = (case yy_trans s k of None \<Rightarrow> None | Some t \<Rightarrow> run t ks)"

text \<open>The accepting states of words: rule 39, or a keyword whose classes spell the state.\<close>

lemmas ec_nth = fun_cong [OF arg_cong [OF yy_ec_def, of nth], of "numeral v" for v]

lemma keyword_classes:
  "map (map cls) keyword_list = [
    [21, 35, 23, 19, 37, 23],
    [22, 35, 32, 33],
    [36, 23, 29, 23, 21, 37],
    [27, 31, 36, 23, 35, 37],
    [22, 23, 29, 23, 37, 23],
    [38, 33, 22, 19, 37, 23],
    [20, 23, 25, 27, 31],
    [21, 32, 30, 30, 27, 37],
    [35, 32, 29, 29, 20, 19, 21, 28],
    [34, 38, 27, 37],
    [23, 41, 23, 21, 24, 27, 29, 23],
    [36, 26, 32, 40],
    [38, 36, 23],
    [38, 36, 27, 31, 25],
    [22, 19, 37, 19, 20, 19, 36, 23],
    [22, 19, 37, 19, 20, 19, 36, 23, 36],
    [37, 19, 20, 29, 23],
    [37, 19, 20, 29, 23, 36],
    [27, 31, 22, 23, 41],
    [27, 31, 22, 23, 41, 23, 36],
    [32, 31],
    [24, 35, 32, 30],
    [40, 26, 23, 35, 23],
    [27, 31, 37, 32],
    [36, 23, 37],
    [39, 19, 29, 38, 23, 36],
    [33, 35, 27, 30, 19, 35, 42],
    [28, 23, 42],
    [38, 31, 27, 34, 38, 23],
    [21, 26, 19, 35],
    [27, 31, 37],
    [24, 29, 32, 19, 37],
    [19, 31, 22],
    [32, 35],
    [31, 32, 37],
    [27, 36],
    [31, 38, 29, 29]]"
  unfolding keyword_list_def by (simp add: cls_def ec_nth cong: nth_weak_cong)

lemma keywords_letters: "list_all (list_all (\<lambda>c. 19 \<le> cls c)) keyword_list"
proof -
  have "list_all (list_all (\<lambda>k. 19 \<le> k)) (map (map cls) keyword_list)"
    unfolding keyword_classes by simp
  then show ?thesis by (simp add: list_all_iff)
qed

lemma keyword_length: "length keyword_list = 37" and keyword_distinct: "distinct keyword_list"
  and keyword_nonempty: "list_all (\<lambda>w. w \<noteq> []) keyword_list"
  by (simp_all add: keyword_list_def)

lemma takeWhile_distinct_nth:
  "distinct xs \<Longrightarrow> i < length xs \<Longrightarrow> length (takeWhile (\<lambda>x. x \<noteq> xs ! i) xs) = i"
proof (induction xs arbitrary: i)
  case (Cons x xs)
  then show ?case by (cases i) (auto simp: nth_mem)
qed simp

lemma map_upt_nth: "i < n - m \<Longrightarrow> map f [m..<n] ! i = f (m + i)"
  by simp

lemma trans_start: "1 \<le> k \<Longrightarrow> k \<le> 42 \<Longrightarrow> yy_trans (Suc 0) k = Some (yy_nxt ! k)"
proof -
  assume k: "1 \<le> k" "k \<le> 42"
  have b: "yy_base ! Suc 0 = 0" by (simp add: yy_base_def)
  have "yy_chk ! k = 1" using all_ix2D [OF check_start, of k] k by simp
  with trans_own [of "Suc 0" k] k b show ?thesis by simp
qed

lemma check_accept:
  "all_ix2 (\<lambda>s r sp. word_state s \<longrightarrow> r = 39 \<or> 2 \<le> r \<and> r \<le> 38 \<and> rev sp = map (map cls) keyword_list ! (r - 2))
     0 yy_accept word_spell"
  unfolding yy_accept_def word_spell_def keyword_classes
  by (simp add: word_state_def cong: all_ix2_weak_cong nth_weak_cong)

lemma keywords_accepted:
  "map (\<lambda>ks. map_option (nth yy_accept) (run 1 ks)) (map (map cls) keyword_list) = map Some [2..<39]"
  unfolding keyword_classes
  by (simp add: trans_start trans_own table_nth upt_rec cong: nth_weak_cong)

lemma keyword_state:
  assumes "i < 37" "run (Suc 0) (map cls (keyword_list ! i)) = Some u"
  shows "yy_accept ! u = i + 2"
proof -
  have "map (\<lambda>ks. map_option (nth yy_accept) (run 1 ks)) (map (map cls) keyword_list) ! i = Some (2 + i)"
    unfolding keywords_accepted by (rule map_upt_nth) (use assms(1) in simp)
  with assms show ?thesis by (simp add: keyword_length)
qed

lemma check_first:
  "all_ix (\<lambda>k t. (k = 17 \<or> 19 \<le> k) \<and> k \<le> 42 \<longrightarrow> word_state t \<and> (word_spell ! t = [] \<or> word_spell ! t = [k])) 0 yy_nxt"
  unfolding yy_nxt_def by (simp add: word_state_def table_nth cong: all_ix_weak_cong nth_weak_cong)

lemma word_run:
  assumes "word_state s" "list_all word_char w"
  shows "\<exists>t. run s (map cls w) = Some t \<and> word_state t
    \<and> (word_spell ! t = [] \<or> word_spell ! s \<noteq> [] \<and> word_spell ! t = rev (map cls w) @ word_spell ! s)"
  using assms
proof (induction w arbitrary: s)
  case (Cons c w)
  obtain u where u: "yy_trans s (cls c) = Some u" "word_state u"
    "u = 48 \<or> word_spell ! s \<noteq> [] \<and> word_spell ! u = cls c # word_spell ! s"
    using word_step [OF Cons.prems(1)] Cons.prems(2) cls_bound [of c] by (auto simp: word_char_class)
  have "word_spell ! 48 = []" by (simp add: table_nth cong: nth_weak_cong)
  with Cons.IH [OF u(2)] Cons.prems(2) u show ?case by auto
qed simp

lemma letter_class: "word_char c \<Longrightarrow> \<not> digit_char c \<Longrightarrow> (cls c = 17 \<or> 19 \<le> cls c) \<and> cls c \<le> 42"
  using cls_bound [of c] by (auto simp: cls_word cls_digit)

lemma word_accept:
  assumes "word_char c" "\<not> digit_char c" "list_all word_char w"
  shows "\<exists>t. run (Suc 0) (map cls (c # w)) = Some t \<and> word_state t \<and> yy_accept ! t = word_rule (c # w)"
proof -
  let ?w = "c # w" and ?k = "cls c"
  have k: "?k = 17 \<or> 19 \<le> ?k" "1 \<le> ?k" "?k \<le> 42" using letter_class [OF assms(1,2)] by auto
  have f: "word_state (yy_nxt ! ?k) \<and> (word_spell ! (yy_nxt ! ?k) = [] \<or> word_spell ! (yy_nxt ! ?k) = [?k])"
    using all_ixD [OF check_first, of ?k] k by auto
  obtain t where t: "run (yy_nxt ! ?k) (map cls w) = Some t" "word_state t"
    "word_spell ! t = [] \<or> rev (word_spell ! t) = map cls ?w"
    using word_run [OF conjunct1 [OF f] assms(3)] f by auto
  then have run: "run (Suc 0) (map cls ?w) = Some t" using trans_start [OF k(2,3)] by simp
  have "t < 174" using t(2) by (auto simp: word_state_def)
  then have acc: "yy_accept ! t = 39 \<or> 2 \<le> yy_accept ! t \<and> yy_accept ! t \<le> 38
      \<and> rev (word_spell ! t) = map (map cls) keyword_list ! (yy_accept ! t - 2)"
    using all_ix2D [OF check_accept, of t] t(2) by (simp add: word_spell_def)
  note len = keyword_length
  have rule_ix: "word_rule (keyword_list ! i) = i + 2" if "i < 37" for i
  proof -
    have "length (takeWhile (\<lambda>k. k \<noteq> keyword_list ! i) keyword_list) = i"
      using that len keyword_distinct by (intro takeWhile_distinct_nth) simp_all
    with that len show ?thesis by (simp add: word_rule_def)
  qed
  show ?thesis
  proof (cases "?w \<in> set keyword_list")
    case True
    then obtain i where "i < 37" "?w = keyword_list ! i" by (auto simp: in_set_conv_nth len)
    with keyword_state [of i t] rule_ix [of i] run t(2) show ?thesis by auto
  next
    case False
    have "yy_accept ! t = 39"
    proof (rule ccontr)
      assume "yy_accept ! t \<noteq> 39"
      with acc have r: "2 \<le> yy_accept ! t" "yy_accept ! t \<le> 38"
        "rev (word_spell ! t) = map cls (keyword_list ! (yy_accept ! t - 2))" by (auto simp: len)
      define v where "v = keyword_list ! (yy_accept ! t - 2)"
      have v: "v \<in> set keyword_list" "v \<noteq> []"
        using r(1,2) len keyword_nonempty by (auto simp: v_def list_all_length)
      then have "map cls v = map cls ?w" using r(3) t(3) by (auto simp: v_def)
      moreover have "\<forall>x\<in>set v. 19 \<le> cls x" 
        using keywords_letters v(1) by (auto simp: list_all_iff)
      ultimately have "v = ?w" by (metis (no_types, lifting) cls_inj list.inj_map_strong)
      with v(1) False show False by simp
    qed
    with False run t(2) show ?thesis by (auto simp: word_rule_def)
  qed
qed

section \<open>The other states\<close>

text \<open>
  Strings (7, 39, 41), numbers (13, 15, 43, 14, 42, 44) and comparisons (17, 19): state, base, default
  state and own transitions.
\<close>

definition mark_states :: "(nat \<times> nat \<times> nat \<times> (nat \<times> nat) list) list" where
  "mark_states = [(7, 39, 175, [(4, 40), (18, 41)]), (39, 59, 175, [(4, 40), (18, 41)]), (41, 172, 175, [(3, 174)]),
    (13, 33, 174, [(11, 42), (12, 43)]), (15, 35, 174, [(11, 42), (12, 43)]), (43, 42, 174, [(11, 42), (12, 43)]),
    (14, 175, 174, [(12, 44)]), (42, 162, 174, [(12, 44)]), (44, 161, 174, [(12, 44)]),
    (17, 33, 174, [(15, 45), (16, 46)]), (19, 171, 174, [(15, 47)])]"

lemma check_mark_states:
  "list_all (\<lambda>(s, b, d, es). s < 177 \<and> yy_base ! s = b \<and> yy_def ! s = d
     \<and> list_all (\<lambda>(k, t). yy_chk ! (b + k) = s \<and> yy_nxt ! (b + k) = t) es) mark_states"
  unfolding mark_states_def by (simp add: table_nth cong: nth_weak_cong)

lemma check_mark_entries:
  "all_ix2 (\<lambda>i s t. (s = 7 \<longrightarrow> i = 43 \<or> i = 57) \<and> (s = 39 \<longrightarrow> i = 63 \<or> i = 77) \<and> (s = 41 \<longrightarrow> i = 175)
      \<and> (s = 13 \<longrightarrow> i = 44 \<or> i = 45) \<and> (s = 15 \<longrightarrow> i = 46 \<or> i = 47) \<and> (s = 43 \<longrightarrow> i = 53 \<or> i = 54)
      \<and> (s = 14 \<longrightarrow> i = 187) \<and> (s = 42 \<longrightarrow> i = 174) \<and> (s = 44 \<longrightarrow> i = 173)
      \<and> (s = 17 \<longrightarrow> i = 48 \<or> i = 49) \<and> (s = 19 \<longrightarrow> i = 186))
     0 yy_chk yy_nxt"
  unfolding yy_chk_def yy_nxt_def by (simp cong: all_ix2_weak_cong)

lemma mark_entries:
  assumes "(s, b, d, es) \<in> set mark_states" "b + k < 232" "yy_chk ! (b + k) = s"
  shows "k \<in> fst ` set es"
proof -
  note d = all_ix2D [OF check_mark_entries, of "b + k", unfolded table_lengths add_0, OF assms(2,2)]
  have "s = 7 \<and> b = 39 \<and> es = [(4, 40), (18, 41)] \<or> s = 39 \<and> b = 59 \<and> es = [(4, 40), (18, 41)]
      \<or> s = 41 \<and> b = 172 \<and> es = [(3, 174)] \<or> s = 13 \<and> b = 33 \<and> es = [(11, 42), (12, 43)]
      \<or> s = 15 \<and> b = 35 \<and> es = [(11, 42), (12, 43)] \<or> s = 43 \<and> b = 42 \<and> es = [(11, 42), (12, 43)]
      \<or> s = 14 \<and> b = 175 \<and> es = [(12, 44)] \<or> s = 42 \<and> b = 162 \<and> es = [(12, 44)]
      \<or> s = 44 \<and> b = 161 \<and> es = [(12, 44)] \<or> s = 17 \<and> b = 33 \<and> es = [(15, 45), (16, 46)]
      \<or> s = 19 \<and> b = 171 \<and> es = [(15, 47)]"
    using assms(1) unfolding mark_states_def by simp metis
  then show ?thesis
    by (elim disjE conjE) (use d assms(3) in \<open>simp; fail\<close>)+
qed

lemma mark_trans:
  assumes "(s, b, d, es) \<in> set mark_states" "k \<le> 42"
  shows "yy_trans s k = (case map_of es k of Some t \<Rightarrow> Some t
    | None \<Rightarrow> yy_trans d (if 175 \<le> d then yy_meta ! k else k))"
proof -
  have st: "s < 177" "yy_base ! s = b" "yy_def ! s = d"
    and own: "(k, t) \<in> set es \<Longrightarrow> yy_chk ! (b + k) = s \<and> yy_nxt ! (b + k) = t" for k t
    using check_mark_states assms(1) by (auto simp: list_all_iff)
  show ?thesis
  proof (cases "map_of es k")
    case None
    have "b + k < 232" using base_le [OF st(1)] st(2) assms(2) by simp
    then have "yy_chk ! (b + k) \<noteq> s"
      using None mark_entries [OF assms(1)] by (auto simp: map_of_eq_None_iff)
    then show ?thesis using None trans_inherit [OF st(1) assms(2)] st by simp
  next
    case (Some t)
    then show ?thesis using own [OF map_of_SomeD [OF Some]] trans_own [OF st(1) assms(2)] st by simp
  qed
qed

lemma mark_members:
  "(7, 39, 175, [(4, 40), (18, 41)]) \<in> set mark_states" "(39, 59, 175, [(4, 40), (18, 41)]) \<in> set mark_states"
  "(41, 172, 175, [(3, 174)]) \<in> set mark_states" "(13, 33, 174, [(11, 42), (12, 43)]) \<in> set mark_states"
  "(15, 35, 174, [(11, 42), (12, 43)]) \<in> set mark_states" "(43, 42, 174, [(11, 42), (12, 43)]) \<in> set mark_states"
  "(14, 175, 174, [(12, 44)]) \<in> set mark_states" "(42, 162, 174, [(12, 44)]) \<in> set mark_states"
  "(44, 161, 174, [(12, 44)]) \<in> set mark_states" "(17, 33, 174, [(15, 45), (16, 46)]) \<in> set mark_states"
  "(19, 171, 174, [(15, 47)]) \<in> set mark_states"
  by (simp_all add: mark_states_def)

lemma trans_string:
  assumes "k \<le> 42"
  shows "yy_trans 7 k = Some (if k = 0 then 3 else if k = 4 then 40 else if k = 18 then 41 else 39)"
    and "yy_trans 39 k = Some (if k = 0 then 3 else if k = 4 then 40 else if k = 18 then 41 else 39)"
    and "yy_trans 41 k = Some (if k = 0 then 3 else if k = 3 then 174 else 39)"
proof -
  have m: "yy_trans 175 (yy_meta ! k) = Some (if k = 0 then 3 else 39)"
    using meta_class [of k] meta_zero trans_175 assms by (cases "k = 0") auto
  show "yy_trans 7 k = Some (if k = 0 then 3 else if k = 4 then 40 else if k = 18 then 41 else 39)"
    "yy_trans 39 k = Some (if k = 0 then 3 else if k = 4 then 40 else if k = 18 then 41 else 39)"
    "yy_trans 41 k = Some (if k = 0 then 3 else if k = 3 then 174 else 39)"
    by (auto simp: mark_members [THEN mark_trans [OF _ assms]] m meta_zero trans_175)
qed

lemma trans_number:
  assumes "k \<le> 42"
  shows "s \<in> {13, 15, 43} \<Longrightarrow> yy_trans s k = Some (if k = 11 then 42 else if k = 12 then 43 else if k = 0 then 3 else 174)"
    and "s \<in> {14, 42, 44} \<Longrightarrow> yy_trans s k = Some (if k = 12 then 44 else if k = 0 then 3 else 174)"
    and "yy_trans 17 k = Some (if k = 15 then 45 else if k = 16 then 46 else if k = 0 then 3 else 174)"
    and "yy_trans 19 k = Some (if k = 15 then 47 else if k = 0 then 3 else 174)"
  using assms by (auto simp: mark_members [THEN mark_trans] trans_sink)

section \<open>Longest match\<close>

definition accepts :: "nat \<Rightarrow> (nat \<times> nat) option" where
  "accepts s = (if yy_accept ! s = 0 then None else Some (yy_accept ! s, 0))"

text \<open>Rule and length of the longest match from a state, as the match loop and its back-up find it.\<close>

fun munch :: "nat \<Rightarrow> string \<Rightarrow> (nat \<times> nat) option" where
  "munch s [] = accepts s"
| "munch s (c # cs) = (case yy_trans s (cls c) of
      None \<Rightarrow> None
    | Some t \<Rightarrow>
        if yy_base ! t = 189 then (if yy_accept ! t = 0 then accepts s else Some (yy_accept ! t, 1))
        else (case munch t cs of Some (r, n) \<Rightarrow> Some (r, n + 1) | None \<Rightarrow> accepts s))"

text \<open>Specification: the tail of a number, of a fraction and of a string.\<close>

fun number_tail :: "string \<Rightarrow> nat \<times> nat" where
  "number_tail [] = (41, 0)"
| "number_tail (c # cs) =
     (if digit_char c then (case number_tail cs of (r, n) \<Rightarrow> (r, n + 1))
      else if c = CHR ''.'' \<and> (\<exists>d ds. cs = d # ds \<and> digit_char d)
      then (40, 1 + length (takeWhile digit_char cs))
      else (41, 0))"

fun string_tail :: "string \<Rightarrow> nat option" where
  "string_tail [] = None"
| "string_tail (c # cs) =
     (if c = CHR 0x22 then Some 1
      else if c = CHR 0x5C then
        (case cs of [] \<Rightarrow> None | d # ds \<Rightarrow> if d = CHR 0x0A then None else map_option (\<lambda>n. n + 2) (string_tail ds))
      else map_option (\<lambda>n. n + 1) (string_tail cs))"

definition lexeme :: "string \<Rightarrow> nat \<times> nat" where
  "lexeme s = (case s of [] \<Rightarrow> (0, 0) | c # cs \<Rightarrow>
     if word_char c \<and> \<not> digit_char c
     then (let w = c # takeWhile word_char cs in (word_rule w, length w))
     else if c = CHR 0x22 then (case string_tail cs of Some n \<Rightarrow> (1, n + 1) | None \<Rightarrow> (55, 1))
     else if c = CHR ''-'' \<or> digit_char c then (case number_tail cs of (r, n) \<Rightarrow> (r, n + 1))
     else if c = CHR ''.'' then
       (if \<exists>d ds. cs = d # ds \<and> digit_char d then (40, 1 + length (takeWhile digit_char cs)) else (55, 1))
     else if c = CHR ''<'' then
       (case cs of [] \<Rightarrow> (50, 1) | d # ds \<Rightarrow> if d = CHR ''='' then (44, 2) else if d = CHR ''>'' then (43, 2) else (50, 1))
     else if c = CHR ''>'' then
       (case cs of [] \<Rightarrow> (51, 1) | d # ds \<Rightarrow> if d = CHR ''='' then (45, 2) else (51, 1))
     else if c = CHR ''='' then (42, 1)
     else if c = CHR '','' then (46, 1)
     else if c = CHR ''*'' then (47, 1)
     else if c = CHR '';'' then (48, 1)
     else if c = CHR 0x27 then (49, 1)
     else if c = CHR ''('' then (52, 1)
     else if c = CHR '')'' then (53, 1)
     else if c \<in> {CHR 0x09, CHR 0x0A, CHR 0x0B, CHR 0x0C, CHR '' ''} then (54, 1)
     else (55, 1))"

lemma state_bases:
  "yy_base ! 7 \<noteq> 189" "yy_base ! 13 \<noteq> 189" "yy_base ! 14 \<noteq> 189" "yy_base ! 15 \<noteq> 189" "yy_base ! 17 \<noteq> 189"
  "yy_base ! 19 \<noteq> 189" "yy_base ! 39 \<noteq> 189" "yy_base ! 41 \<noteq> 189" "yy_base ! 42 \<noteq> 189" "yy_base ! 43 \<noteq> 189"
  "yy_base ! 44 \<noteq> 189" "yy_base ! 174 = 189" "yy_base ! 40 = 189" "yy_base ! 45 = 189" "yy_base ! 46 = 189"
  "yy_base ! 47 = 189"
  by (simp_all add: table_nth cong: nth_weak_cong)

lemma state_rules:
  "yy_accept ! 7 = 55" "yy_accept ! 13 = 41" "yy_accept ! 14 = 55" "yy_accept ! 15 = 41" "yy_accept ! 17 = 50"
  "yy_accept ! 19 = 51" "yy_accept ! 39 = 0" "yy_accept ! 41 = 0" "yy_accept ! 42 = 0" "yy_accept ! 43 = 41"
  "yy_accept ! 44 = 40" "yy_accept ! 174 = 0" "yy_accept ! 40 = 1" "yy_accept ! 45 = 44" "yy_accept ! 46 = 43"
  "yy_accept ! 47 = 45"
  by (simp_all add: table_nth cong: nth_weak_cong)

lemma word_base: "word_state s \<Longrightarrow> yy_base ! s \<noteq> 189"
  using all_ixD [OF check_base, of s] word_lt [of s] by simp

lemma word_accepts: "word_state s \<Longrightarrow> accepts s = Some (yy_accept ! s, 0)"
proof -
  assume s: "word_state s"
  then have "s < 174" by (auto simp: word_state_def)
  then have "yy_accept ! s = 39 \<or> 2 \<le> yy_accept ! s"
    using all_ix2D [OF check_accept, of s] s by (auto simp: word_spell_def)
  then show ?thesis by (auto simp: accepts_def)
qed

lemma munch_word:
  assumes "word_state s" "CHR 0x00 \<notin> set cs"
  shows "\<exists>t. run s (map cls (takeWhile word_char cs)) = Some t
    \<and> munch s cs = Some (yy_accept ! t, length (takeWhile word_char cs))"
  using assms
proof (induction cs arbitrary: s)
  case (Cons c cs)
  show ?case
  proof (cases "word_char c")
    case True
    then obtain t where t: "yy_trans s (cls c) = Some t" "word_state t"
      using word_step [OF Cons.prems(1)] cls_bound [of c] by (auto simp: word_char_class)
    with Cons.IH [OF t(2)] Cons.prems(2) True word_base [OF t(2)] show ?thesis by auto
  next
    case False
    then have "yy_trans s (cls c) = Some 174"
      using word_stop [OF Cons.prems(1)] cls_bound [of c] cls_NUL [of c] Cons.prems(2) by (auto simp: word_char_class)
    with False word_accepts [OF Cons.prems(1)] show ?thesis by (simp add: state_bases state_rules)
  qed
qed (simp add: word_accepts)

lemma munch_fraction:
  "CHR 0x00 \<notin> set cs \<Longrightarrow> munch 44 cs = Some (40, length (takeWhile digit_char cs))"
proof (induction cs)
  case (Cons c cs)
  then show ?case using cls_bound [of c] cls_NUL [of c]
    by (auto simp: trans_number accepts_def state_rules state_bases cls_digit)
qed (simp add: accepts_def state_rules)

lemma munch_point:
  assumes "CHR 0x00 \<notin> set cs" "s = 42 \<or> s = 14"
  shows "munch s cs = (if \<exists>d ds. cs = d # ds \<and> digit_char d
    then Some (40, length (takeWhile digit_char cs)) else accepts s)"
proof (cases cs)
  case (Cons c ds)
  then show ?thesis using assms cls_bound [of c] cls_NUL [of c] munch_fraction [of ds]
    by (auto simp: trans_number state_rules state_bases cls_digit)
qed simp

lemma munch_number:
  "CHR 0x00 \<notin> set cs \<Longrightarrow> s \<in> {13, 15, 43} \<Longrightarrow> munch s cs = Some (number_tail cs)"
proof (induction cs arbitrary: s)
  case (Cons c cs)
  have acc: "accepts s = Some (41, 0)" using Cons.prems(2) by (auto simp: accepts_def state_rules)
  consider "digit_char c" | "c = CHR ''.''" | "\<not> digit_char c" "c \<noteq> CHR ''.''" by blast
  then show ?case
  proof cases
    case 1
    then have "yy_trans s (cls c) = Some 43"
      using trans_number(1) [OF cls_bound [of c] Cons.prems(2)] by (simp add: cls_digit)
    with 1 Cons show ?thesis by (simp add: state_bases split: prod.splits)
  next
    case 2
    then have k: "cls c = 11" by (simp add: cls_marks)
    then have "yy_trans s (cls c) = Some 42" "\<not> digit_char c"
      using trans_number(1) [OF cls_bound [of c] Cons.prems(2)] by (auto simp: cls_digit)
    with 2 acc munch_point [of cs 42] Cons.prems(1) show ?thesis
      by (auto simp: state_bases state_rules accepts_def)
  next
    case 3
    then have "yy_trans s (cls c) = Some 174"
      using trans_number(1) [OF cls_bound [of c] Cons.prems(2)] cls_NUL [of c] Cons.prems(1)
      by (auto simp: cls_digit cls_marks)
    with 3 acc show ?thesis by (auto simp: state_bases state_rules)
  qed
qed (auto simp: accepts_def state_rules)

lemma munch_string:
  "CHR 0x00 \<notin> set cs \<Longrightarrow> munch 39 cs = map_option (\<lambda>n. (1, n)) (string_tail cs)"
proof (induction cs rule: string_tail.induct)
  case (2 c cs)
  have k: "cls c \<noteq> 0" using 2(3) by (auto simp: cls_NUL)
  have n39: "accepts 39 = None" "accepts 41 = None" by (simp_all add: accepts_def state_rules)
  consider "c = CHR 0x22" | "c = CHR 0x5C" | "c \<noteq> CHR 0x22" "c \<noteq> CHR 0x5C" by blast
  then show ?case
  proof cases
    case 1
    then have "cls c = 4" by (simp add: cls_marks)
    then show ?thesis using 1 by (simp add: trans_string state_bases state_rules)
  next
    case 2
    then have c: "cls c = 18" by (simp add: cls_marks)
    show ?thesis
    proof (cases cs)
      case Nil
      then show ?thesis using 2 c n39 by (simp add: trans_string state_bases)
    next
      case (Cons d ds)
      have d: "cls d \<noteq> 0" "cls d \<le> 42" "cls d = 3 \<longleftrightarrow> d = CHR 0x0A"
        using Cons "2.prems" cls_bound by (auto simp: cls_NUL cls_marks)
      have "d \<noteq> CHR 0x0A \<Longrightarrow> munch 39 ds = map_option (\<lambda>n. (1, n)) (string_tail ds)"
        using "2.IH"(1) [OF _ _ Cons] 2 Cons "2.prems" by simp
      with Cons 2 c d n39 show ?thesis
        by (auto simp: trans_string state_bases state_rules split: option.splits)
    qed
  next
    case 3
    then have "cls c \<noteq> 4" "cls c \<noteq> 18" by (auto simp: cls_marks)
    with 3 k n39 "2.IH"(2) "2.prems" cls_bound [of c] show ?thesis
      by (auto simp: trans_string state_bases split: option.splits)
  qed
qed (simp add: accepts_def state_rules)

lemma munch_quote:
  assumes "CHR 0x00 \<notin> set cs"
  shows "munch 7 cs = Some (case string_tail cs of Some n \<Rightarrow> (1, n) | None \<Rightarrow> (55, 0))"
proof (cases cs)
  case Nil
  then show ?thesis by (simp add: accepts_def state_rules)
next
  case (Cons c ds)
  have "accepts 39 = None" "accepts 7 = Some (55, 0)" by (simp_all add: accepts_def state_rules)
  then have "munch 7 cs = (case munch 39 cs of Some x \<Rightarrow> Some x | None \<Rightarrow> Some (55, 0))"
    using Cons cls_bound [of c] by (auto simp: trans_string state_rules split: option.splits)
  then show ?thesis using munch_string [OF assms] by (simp split: option.splits)
qed

text \<open>The transitions of the start state, by class.\<close>

lemma start_next:
  "yy_nxt ! Suc 0 = 4" "yy_nxt ! 2 = 5" "yy_nxt ! 3 = 6" "yy_nxt ! 4 = 7" "yy_nxt ! 5 = 8" "yy_nxt ! 6 = 9"
  "yy_nxt ! 7 = 10" "yy_nxt ! 8 = 11" "yy_nxt ! 9 = 12" "yy_nxt ! 10 = 13" "yy_nxt ! 11 = 14" "yy_nxt ! 12 = 15"
  "yy_nxt ! 13 = 16" "yy_nxt ! 14 = 17" "yy_nxt ! 15 = 18" "yy_nxt ! 16 = 19" "yy_nxt ! 18 = 4"
  by (simp_all add: yy_nxt_def)

lemma start_single:
  "list_all (\<lambda>(t, r). yy_base ! t = 189 \<and> yy_accept ! t = r)
    [(4, 55), (5, 54), (6, 54), (8, 49), (9, 52), (10, 53), (11, 47), (12, 46), (16, 48), (18, 42)]"
  by (simp add: table_nth cong: nth_weak_cong)

lemma munch_single:
  assumes "yy_nxt ! cls c = t" "(t, r) \<in> {(4, 55), (5, 54), (6, 54), (8, 49), (9, 52), (10, 53), (11, 47), (12, 46), (16, 48), (18, 42)}"
    "c \<noteq> CHR 0x00"
  shows "munch (Suc 0) (c # cs) = Some (r, 1)"
proof -
  have "yy_trans (Suc 0) (cls c) = Some t"
    using trans_start [of "cls c"] cls_bound [of c] cls_NUL [of c] assms by simp
  moreover have "yy_base ! t = 189" "yy_accept ! t = r" "r \<noteq> 0" using start_single assms(2) by auto
  ultimately show ?thesis by simp
qed

lemma munch_start:
  assumes "yy_nxt ! cls c = t" "yy_base ! t \<noteq> 189" "c \<noteq> CHR 0x00" "munch t cs = Some (r, n)"
  shows "munch (Suc 0) (c # cs) = Some (r, n + 1)"
  using trans_start [of "cls c"] cls_bound [of c] cls_NUL [of c] assms by simp

lemma munch_comparison:
  assumes "CHR 0x00 \<notin> set cs"
  shows "munch 17 cs = Some (case cs of [] \<Rightarrow> (50, 0)
      | d # ds \<Rightarrow> if d = CHR ''='' then (44, 1) else if d = CHR ''>'' then (43, 1) else (50, 0))"
    and "munch 19 cs = Some (case cs of [] \<Rightarrow> (51, 0) | d # ds \<Rightarrow> if d = CHR ''='' then (45, 1) else (51, 0))"
proof (atomize(full), cases cs)
  case Nil
  then show "munch 17 cs = Some (case cs of [] \<Rightarrow> (50, 0)
      | d # ds \<Rightarrow> if d = CHR ''='' then (44, 1) else if d = CHR ''>'' then (43, 1) else (50, 0))
    \<and> munch 19 cs = Some (case cs of [] \<Rightarrow> (51, 0) | d # ds \<Rightarrow> if d = CHR ''='' then (45, 1) else (51, 0))"
    by (simp add: accepts_def state_rules)
next
  case (Cons d ds)
  then have d: "cls d \<noteq> 0" "cls d \<le> 42" "d = CHR ''='' \<longleftrightarrow> cls d = 15" "d = CHR ''>'' \<longleftrightarrow> cls d = 16"
    using assms cls_bound [of d] by (auto simp: cls_NUL cls_marks)
  with Cons show "munch 17 cs = Some (case cs of [] \<Rightarrow> (50, 0)
      | d # ds \<Rightarrow> if d = CHR ''='' then (44, 1) else if d = CHR ''>'' then (43, 1) else (50, 0))
    \<and> munch 19 cs = Some (case cs of [] \<Rightarrow> (51, 0) | d # ds \<Rightarrow> if d = CHR ''='' then (45, 1) else (51, 0))"
    by (simp add: trans_number accepts_def state_bases state_rules)
qed

text \<open>On every text without NUL the automaton finds the lexeme of the specification.\<close>

lemma munch_letter:
  assumes "word_char c" "\<not> digit_char c" "CHR 0x00 \<notin> set cs" "c \<noteq> CHR 0x00"
  shows "munch (Suc 0) (c # cs) = Some (lexeme (c # cs))"
proof -
  let ?w = "takeWhile word_char cs" and ?t = "yy_nxt ! cls c"
  have k: "cls c = 17 \<or> 19 \<le> cls c" "cls c \<le> 42" "1 \<le> cls c" using letter_class [OF assms(1,2)] by auto
  then have ws: "word_state ?t" using all_ixD [OF check_first, of "cls c"] by auto
  obtain u where u: "run ?t (map cls ?w) = Some u" "munch ?t cs = Some (yy_accept ! u, length ?w)"
    using munch_word [OF ws assms(3)] by blast
  have "list_all word_char ?w" by (auto simp: list_all_iff dest: set_takeWhileD)
  from word_accept [OF assms(1,2) this] u(1) trans_start [OF k(3,2)]
  have "yy_accept ! u = word_rule (c # ?w)" by auto
  with munch_start [OF refl word_base [OF ws] assms(4) u(2)] assms(1,2) show ?thesis
    by (simp add: lexeme_def Let_def)
qed

lemma cls_space: "c \<in> {CHR 0x09, CHR 0x0A, CHR 0x0B, CHR 0x0C, CHR '' ''} \<longleftrightarrow> cls c = 2 \<or> cls c = 3"
  by (auto simp: cls_marks)

text \<open>\<open>lexeme\<close> with its tests on the first character read as tests on its class.\<close>

lemma lexeme_class:
  assumes "\<not> (word_char c \<and> \<not> digit_char c)"
  shows "lexeme (c # cs) =
    (if cls c = 4 then (case string_tail cs of Some n \<Rightarrow> (1, n + 1) | None \<Rightarrow> (55, 1))
     else if cls c = 10 \<or> cls c = 12 then (case number_tail cs of (r, n) \<Rightarrow> (r, n + 1))
     else if cls c = 11 then
       (if \<exists>d ds. cs = d # ds \<and> digit_char d then (40, 1 + length (takeWhile digit_char cs)) else (55, 1))
     else if cls c = 14 then
       (case cs of [] \<Rightarrow> (50, 1) | d # ds \<Rightarrow> if d = CHR ''='' then (44, 2) else if d = CHR ''>'' then (43, 2) else (50, 1))
     else if cls c = 16 then (case cs of [] \<Rightarrow> (51, 1) | d # ds \<Rightarrow> if d = CHR ''='' then (45, 2) else (51, 1))
     else if cls c = 15 then (42, 1) else if cls c = 9 then (46, 1) else if cls c = 8 then (47, 1)
     else if cls c = 13 then (48, 1) else if cls c = 5 then (49, 1) else if cls c = 6 then (52, 1)
     else if cls c = 7 then (53, 1) else if cls c = 2 \<or> cls c = 3 then (54, 1) else (55, 1))"
  unfolding lexeme_def list.case(2) cls_space if_not_P [OF assms]
  by (simp only: cls_marks(3-14) cls_digit)

lemma munch_lexeme:
  assumes "CHR 0x00 \<notin> set (c # cs)"
  shows "munch (Suc 0) (c # cs) = Some (lexeme (c # cs))"
proof (cases "word_char c \<and> \<not> digit_char c")
  case True
  with assms show ?thesis by (intro munch_letter) auto
next
  case False
  have c0: "c \<noteq> CHR 0x00" "CHR 0x00 \<notin> set cs" "cls c \<noteq> 0" using assms cls_NUL [of c] by auto
  note lex = lexeme_class [OF False, of cs]
  have le: "cls c \<le> 18" "cls c \<noteq> 17" using False cls_bound [of c] by (auto simp: cls_word cls_digit)
  have all: "cls c = 1 \<or> cls c = 2 \<or> cls c = 3 \<or> cls c = 4 \<or> cls c = 5 \<or> cls c = 6 \<or> cls c = 7 \<or> cls c = 8
      \<or> cls c = 9 \<or> cls c = 10 \<or> cls c = 11 \<or> cls c = 12 \<or> cls c = 13 \<or> cls c = 14 \<or> cls c = 15 \<or> cls c = 16
      \<or> cls c = 18"
    using le c0(3) by arith
  consider (str) "cls c = 4" | (num) "cls c = 10 \<or> cls c = 12" | (pt) "cls c = 11" | (lt) "cls c = 14" | (gt) "cls c = 16"
    | (single) "cls c \<in> {1, 2, 3, 5, 6, 7, 8, 9, 13, 15, 18}"
    using all by (simp only: insert_iff empty_iff) blast
  then show ?thesis
  proof cases
    case str
    have "munch 7 cs = Some (case string_tail cs of Some n \<Rightarrow> (1, n) | None \<Rightarrow> (55, 0))"
      by (rule munch_quote [OF c0(2)])
    with munch_start [of c 7 cs] str c0(1) show ?thesis
      by (simp only: lex) (auto simp: start_next state_bases split: option.splits simp del: munch.simps)
  next
    case num
    with munch_number [OF c0(2), of "yy_nxt ! cls c"] munch_start [of c "yy_nxt ! cls c" cs] c0(1) show ?thesis
      by (simp only: lex) (auto simp: start_next state_bases split: prod.splits simp del: munch.simps)
  next
    case pt
    with munch_point [OF c0(2), of 14] munch_start [of c 14 cs] c0(1) show ?thesis
      by (simp only: lex) (auto simp: start_next state_bases state_rules accepts_def simp del: munch.simps)
  next
    case lt
    with munch_comparison(1) [OF c0(2)] munch_start [of c 17 cs] c0(1) show ?thesis
      by (simp only: lex) (auto simp: start_next state_bases split: list.splits simp del: munch.simps)
  next
    case gt
    with munch_comparison(2) [OF c0(2)] munch_start [of c 19 cs] c0(1) show ?thesis
      by (simp only: lex) (auto simp: start_next state_bases split: list.splits simp del: munch.simps)
  next
    case single
    then show ?thesis
      by (elim insertE emptyE) (subst munch_single [OF refl _ c0(1)]; simp add: lex start_next)+
  qed
qed

end
