(* ===== verification/Lexer_Correct.thy ===== *)
theory Lexer_Correct
  imports Lexer_Spec
begin

text \<open>
  The scanner on a string: every call of \<open>yylex\<close> consumes the lexemes of the specification and does
  their actions, up to the first one that yields a token. The match loop is related to \<open>munch\<close>, the
  end-of-buffer path to the same function, and both to the buffer with its hold character.
\<close>

section \<open>Totality of the transitions\<close>

definition live :: "nat \<Rightarrow> bool" where
  "live s \<longleftrightarrow> s = 1 \<or> 4 \<le> s \<and> s \<le> 173"

lemma check_defaults: "all_ix (\<lambda>s d. live s \<longrightarrow> d = 174 \<or> d = 175 \<or> d = 176) 0 yy_def"
  unfolding yy_def_def by (simp add: live_def cong: all_ix_weak_cong)

lemma check_targets: "all_ix (\<lambda>i t. 1 \<le> i \<longrightarrow> t = 174 \<or> live t \<or> t = 3 \<and> i = 189) 0 yy_nxt"
  unfolding yy_nxt_def by (simp add: live_def cong: all_ix_weak_cong)

lemma check_own_NUL: "all_ix (\<lambda>s b. live s \<longrightarrow> yy_chk ! b \<noteq> s) 0 yy_base"
  unfolding yy_base_def
  by (simp add: live_def table_nth fun_cong [OF arg_cong [OF yy_chk_def, of nth], of 0] cong: all_ix_weak_cong nth_weak_cong)

lemma live_lt: "live s \<Longrightarrow> s < 174"
  by (auto simp: live_def)

lemma trans_live:
  assumes "live s" "1 \<le> k" "k \<le> 42"
  shows "\<exists>t. yy_trans s k = Some t \<and> (t = 174 \<or> live t)"
proof (cases "yy_chk ! (yy_base ! s + k) = s")
  case True
  let ?i = "yy_base ! s + k"
  have s: "s < 177" "?i < 232" using live_lt [OF assms(1)] base_le [of s] assms(3) by auto
  have "?i \<noteq> 189"
  proof
    assume "?i = 189"
    with True all_ix2D [OF check_sink, of 189] have "s = 174" by simp
    with live_lt [OF assms(1)] show False by simp
  qed
  then have "yy_nxt ! ?i = 174 \<or> live (yy_nxt ! ?i)"
    using all_ixD [OF check_targets, of ?i] s(2) assms(2) by simp
  with trans_own [OF s(1) assms(3) True] show ?thesis by simp
next
  case False
  have s: "s < 177" using live_lt [OF assms(1)] by simp
  have d: "yy_def ! s = 174 \<or> yy_def ! s = 175 \<or> yy_def ! s = 176"
    using all_ixD [OF check_defaults, of s] assms(1) s by simp
  have "live 39" "live 48" by (simp_all add: live_def)
  with trans_inherit [OF s assms(3) False] d trans_sink [OF assms(3)] trans_175 trans_176
    meta_class [OF assms(2,3)] assms(2) show ?thesis by auto
qed

lemma trans_NUL:
  assumes "live s"
  shows "yy_trans s 0 = Some 3"
proof -
  have s: "s < 177" using live_lt [OF assms] by simp
  have "yy_chk ! (yy_base ! s + 0) \<noteq> s" using all_ixD [OF check_own_NUL, of s] assms s by simp
  from trans_inherit [OF s _ this] have "yy_trans s 0
      = yy_trans (yy_def ! s) (if 175 \<le> yy_def ! s then yy_meta ! 0 else 0)" by simp
  moreover have "yy_def ! s = 174 \<or> yy_def ! s = 175 \<or> yy_def ! s = 176"
    using all_ixD [OF check_defaults, of s] assms s by simp
  ultimately show ?thesis using trans_sink [of 0] trans_175(3) trans_176(3) by (auto simp: meta_zero)
qed

lemma trans_3_NUL: "yy_trans 3 0 = Some 174"
proof -
  have "yy_base ! 3 = 188" "yy_chk ! 188 = 3" "yy_nxt ! 188 = 174"
    by (simp_all add: table_nth cong: nth_weak_cong)
  with trans_own [of 3 0] show ?thesis by simp
qed

section \<open>The match loop\<close>

lemma at_ec: "at yy_ec (of_char c) = Some (cls c)"
  by (simp add: at_def cls_def)

lemma at_base: "t < 177 \<Longrightarrow> at yy_base t = Some (yy_base ! t)"
  by (simp add: at_def)

text \<open>Whether the automaton stops inside the text.\<close>

fun stops :: "nat \<Rightarrow> string \<Rightarrow> bool" where
  "stops s [] = False"
| "stops s (c # cs) = (case yy_trans s (cls c) of None \<Rightarrow> True | Some t \<Rightarrow> yy_base ! t = 189 \<or> stops t cs)"

text \<open>Rule and end of the match that \<open>find_action\<close> reads off.\<close>

definition decide :: "nat \<Rightarrow> nat \<Rightarrow> lex_state \<Rightarrow> nat \<times> nat" where
  "decide s e lx = (if yy_accept ! s = 0 then (yy_accept ! yy_last_accepting_state lx, yy_last_accepting_cpos lx)
     else (yy_accept ! s, e))"

definition found :: "nat \<Rightarrow> lex_state \<Rightarrow> (nat \<times> nat) option \<Rightarrow> nat \<times> nat" where
  "found cp lx m = (case m of Some (r, n) \<Rightarrow> (r, cp + n)
     | None \<Rightarrow> (yy_accept ! yy_last_accepting_state lx, yy_last_accepting_cpos lx))"

definition last_at :: "nat \<Rightarrow> nat \<Rightarrow> lex_state \<Rightarrow> lex_state" where
  "last_at a q lx = lx\<lparr>yy_last_accepting_state := a, yy_last_accepting_cpos := q\<rparr>"

lemma last_at_sel [simp]:
  "yy_last_accepting_state (last_at a q lx) = a" "yy_last_accepting_cpos (last_at a q lx) = q"
  "last_at a q (last_at a' q' lx) = last_at a q lx" "cur_buf (last_at a q lx) = cur_buf lx"
  "peek p (last_at a q lx) = peek p lx" "last_at (yy_last_accepting_state lx) (yy_last_accepting_cpos lx) lx = lx"
  by (simp_all add: last_at_def cur_buf_def YY_CURRENT_BUFFER_def peek_def cong: option.case_cong if_cong)

definition noted :: "nat \<Rightarrow> nat \<Rightarrow> lex_state \<Rightarrow> lex_state" where
  "noted s cp lx = (if yy_accept ! s = 0 then lx else last_at s cp lx)"

lemma note_accepting_eq: "s < 175 \<Longrightarrow> note_accepting s cp lx = Some (noted s cp lx)"
  by (simp add: note_accepting_def at_def noted_def last_at_def)

lemma noted_sel [simp]:
  "cur_buf (noted s cp lx) = cur_buf lx" "peek p (noted s cp lx) = peek p lx"
  "last_at a q (noted s cp lx) = last_at a q lx"
  by (simp_all add: noted_def)

lemma found_noted:
  "found cp (noted s cp lx) None = found cp lx (accepts s)"
  by (simp add: found_def noted_def accepts_def)

lemma found_Suc:
  "found cp lx (case m of Some (r, n) \<Rightarrow> Some (r, n + 1) | None \<Rightarrow> accepts s)
    = found (cp + 1) (noted s cp lx) m"
proof (cases m)
  case None
  then show ?thesis using found_noted [of cp s lx] by (simp add: found_def)
qed (auto simp: found_def)

lemma noted_is_last:
  "yy_last_accepting_state lx < 175 \<Longrightarrow> s < 175 \<Longrightarrow>
    \<exists>a q. noted s cp lx = last_at a q lx \<and> a < 175"
  unfolding noted_def by (metis last_at_sel(6))

lemma match_step:
  assumes "peek cp lx = Some ch" "s < 175" "yy_trans s (cls ch) = Some t" "t < 177"
  shows "yy_match s cp lx = (if yy_base ! t \<noteq> 189 then yy_match t (cp + 1) (noted s cp lx)
    else Some (t, cp + 1, noted s cp lx))"
  using assms by (subst yy_match.simps) (simp add: at_ec note_accepting_eq at_base)

lemma match_inside:
  assumes "\<And>i. i < length cs \<Longrightarrow> peek (cp + i) lx = Some (cs ! i)" "CHR 0x00 \<notin> set cs" "live s"
    "stops s cs" "yy_last_accepting_state lx < 175"
  shows "\<exists>t e a q. yy_match s cp lx = Some (t, e, last_at a q lx) \<and> t < 175 \<and> a < 175
    \<and> decide t e (last_at a q lx) = found cp lx (munch s cs)"
  using assms
proof (induction cs arbitrary: s cp lx)
  case (Cons c cs)
  have k: "1 \<le> cls c" "cls c \<le> 42" using Cons.prems(2) cls_NUL [of c] cls_bound [of c] by auto
  obtain t where t: "yy_trans s (cls c) = Some t" "t = 174 \<or> live t" using trans_live [OF Cons.prems(3) k] by blast
  have lt: "s < 175" "t < 175" using t(2) live_lt [OF Cons.prems(3)] live_lt [of t] by auto
  have pk: "peek cp lx = Some c" using Cons.prems(1) [of 0] by simp
  obtain a q where aq: "noted s cp lx = last_at a q lx" "a < 175"
    using noted_is_last [OF Cons.prems(5) lt(1)] by blast
  show ?case
  proof (cases "yy_base ! t = 189")
    case True
    then have "yy_match s cp lx = Some (t, cp + 1, last_at a q lx)"
      using match_step [OF pk lt(1) t(1)] lt(2) aq by simp
    moreover have "decide t (cp + 1) (last_at a q lx) = found cp lx (munch s (c # cs))"
      using True t(1) found_noted [of cp s lx] by (simp add: decide_def aq(1) [symmetric] found_def)
    ultimately show ?thesis using lt(2) aq(2) by blast
  next
    case False
    then have "t \<noteq> 174" by (auto simp: state_bases)
    with t have "live t" by simp
    have "\<exists>t' e a' q'. yy_match t (cp + 1) (noted s cp lx) = Some (t', e, last_at a' q' (noted s cp lx))
        \<and> t' < 175 \<and> a' < 175 \<and> decide t' e (last_at a' q' (noted s cp lx)) = found (cp + 1) (noted s cp lx) (munch t cs)"
    proof (rule Cons.IH)
      show "peek (cp + 1 + i) (noted s cp lx) = Some (cs ! i)" if "i < length cs" for i
        using Cons.prems(1) [of "Suc i"] that by simp
    qed (use Cons.prems False t \<open>live t\<close> aq in auto)
    with match_step [OF pk lt(1) t(1)] lt(2) False t(1) show ?thesis by (simp add: found_Suc)
  qed
qed simp

lemma rules_3: "yy_accept ! 3 = 57" "yy_base ! 3 = 188"
  by (simp_all add: table_nth cong: nth_weak_cong)

lemma match_to_end:
  assumes "\<And>i. i < length cs \<Longrightarrow> peek (cp + i) lx = Some (cs ! i)" "CHR 0x00 \<notin> set cs" "live s" "\<not> stops s cs"
    "peek (cp + length cs) lx = Some (CHR 0x00)" "peek (cp + length cs + 1) lx = Some (CHR 0x00)"
  shows "yy_match s cp lx = Some (174, cp + length cs + 2, last_at 3 (cp + length cs + 1) lx)"
  using assms
proof (induction cs arbitrary: s cp lx)
  case Nil
  have z: "cls (CHR 0x00) = 0" by (simp add: cls_NUL)
  have "yy_match s cp lx = yy_match 3 (cp + 1) (noted s cp lx)"
    using match_step [of cp lx "CHR 0x00" s 3] Nil trans_NUL [of s] live_lt [of s] by (simp add: z rules_3)
  also have "\<dots> = Some (174, cp + 2, last_at 3 (cp + 1) lx)"
    using match_step [of "cp + 1" "noted s cp lx" "CHR 0x00" 3 174] Nil trans_3_NUL
    by (simp add: z state_bases noted_def [of 3] rules_3)
  finally show ?case by simp
next
  case (Cons c cs)
  have k: "1 \<le> cls c" "cls c \<le> 42" using Cons.prems(2) cls_NUL [of c] cls_bound [of c] by auto
  obtain t where t: "yy_trans s (cls c) = Some t" "t = 174 \<or> live t" using trans_live [OF Cons.prems(3) k] by blast
  with Cons.prems(4) have nb: "yy_base ! t \<noteq> 189" "\<not> stops t cs" by auto
  then have "t \<noteq> 174" by (auto simp: state_bases)
  with t have "live t" by simp
  have "yy_match t (cp + 1) (noted s cp lx)
      = Some (174, cp + 1 + length cs + 2, last_at 3 (cp + 1 + length cs + 1) (noted s cp lx))"
  proof (rule Cons.IH)
    show "peek (cp + 1 + i) (noted s cp lx) = Some (cs ! i)" if "i < length cs" for i
      using Cons.prems(1) [of "Suc i"] that by simp
  qed (use Cons.prems nb \<open>live t\<close> in \<open>auto simp: add.commute add.left_commute\<close>)
  moreover have "peek cp lx = Some c" using Cons.prems(1) [of 0] by simp
  ultimately show ?case
    using match_step [of cp lx c s t] t(1) nb(1) live_lt [OF Cons.prems(3)] live_lt [OF \<open>live t\<close>]
    by (simp add: add.commute add.left_commute)
qed

lemma previous_state_munch:
  assumes "\<And>i. i < length cs \<Longrightarrow> peek (cp + i) lx = Some (cs ! i)" "CHR 0x00 \<notin> set cs" "live s"
    "\<not> stops s cs" "yy_last_accepting_state lx < 175"
  shows "\<exists>t a q. previous_state (length cs) cp s lx = Some (t, last_at a q lx) \<and> t < 175 \<and> a < 175
    \<and> decide t (cp + length cs) (last_at a q lx) = found cp lx (munch s cs)"
  using assms
proof (induction cs arbitrary: s cp lx)
  case Nil
  then show ?case using live_lt [of s]
    by (intro exI [of _ s] exI [of _ "yy_last_accepting_state lx"] exI [of _ "yy_last_accepting_cpos lx"])
      (auto simp: decide_def found_def accepts_def)
next
  case (Cons c cs)
  have k: "1 \<le> cls c" "cls c \<le> 42" using Cons.prems(2) cls_NUL [of c] cls_bound [of c] by auto
  obtain t where t: "yy_trans s (cls c) = Some t" "t = 174 \<or> live t" using trans_live [OF Cons.prems(3) k] by blast
  with Cons.prems(4) have nb: "yy_base ! t \<noteq> 189" "\<not> stops t cs" by auto
  then have "t \<noteq> 174" by (auto simp: state_bases)
  with t have "live t" by simp
  have s: "s < 175" using live_lt [OF Cons.prems(3)] by simp
  obtain a q where aq: "noted s cp lx = last_at a q lx" "a < 175" using noted_is_last [OF Cons.prems(5) s] by blast
  have "\<exists>t' a' q'. previous_state (length cs) (cp + 1) t (noted s cp lx) = Some (t', last_at a' q' (noted s cp lx))
      \<and> t' < 175 \<and> a' < 175
      \<and> decide t' (cp + 1 + length cs) (last_at a' q' (noted s cp lx)) = found (cp + 1) (noted s cp lx) (munch t cs)"
  proof (rule Cons.IH)
    show "peek (cp + 1 + i) (noted s cp lx) = Some (cs ! i)" if "i < length cs" for i
      using Cons.prems(1) [of "Suc i"] that by simp
  qed (use Cons.prems nb \<open>live t\<close> aq in auto)
  moreover have "peek cp lx = Some c" "c \<noteq> CHR 0x00" using Cons.prems(1) [of 0] Cons.prems(2) by auto
  ultimately show ?case using t(1) nb(1) s by (simp add: at_ec note_accepting_eq found_Suc)
qed

section \<open>The buffer\<close>

text \<open>The contents of the buffer over a text, with the two end-of-buffer characters.\<close>

definition framed :: "string \<Rightarrow> char list" where
  "framed txt = txt @ [CHR 0x00, CHR 0x00]"

lemma framed_length [simp]: "length (framed txt) = length txt + 2"
  by (simp add: framed_def)

lemma framed_nonempty [simp]: "framed txt \<noteq> []"
  by (simp add: framed_def)

lemma framed_nth: "i < length txt \<Longrightarrow> framed txt ! i = txt ! i" "framed txt ! length txt = CHR 0x00"
  "framed txt ! Suc (length txt) = CHR 0x00"
  by (simp_all add: framed_def nth_append)

text \<open>
  \<open>loaded\<close>: the current buffer holds the text as it is. \<open>scanning\<close>: between two matches, at offset \<open>p\<close>,
  it does once the hold character is back in its place.
\<close>

definition loaded :: "nat \<Rightarrow> string \<Rightarrow> yy_buffer_state \<Rightarrow> lex_state \<Rightarrow> bool" where
  "loaded b txt B lx \<longleftrightarrow> yy_init lx \<and> yy_start lx = 1 \<and> YY_CURRENT_BUFFER lx = Some b
     \<and> buffers lx b = Some B \<and> yy_ch_buf B = framed txt \<and> \<not> yy_fill_buffer B \<and> b_n_chars B = length txt
     \<and> yy_n_chars lx = length txt \<and> yy_last_accepting_state lx < 175"

definition scanning :: "nat \<Rightarrow> string \<Rightarrow> nat \<Rightarrow> lex_state \<Rightarrow> bool" where
  "scanning b txt p lx \<longleftrightarrow> yy_c_buf_p lx = p \<and> p \<le> length txt \<and>
     (\<exists>lx' B. poke p (yy_hold_char lx) lx = Some lx' \<and> loaded b txt B lx')"

lemma loaded_peek: "loaded b txt B lx \<Longrightarrow> i < length txt + 2 \<Longrightarrow> peek i lx = Some (framed txt ! i)"
  by (simp add: loaded_def peek_def cur_buf_def at_def)

lemma loaded_last_at: "loaded b txt B lx \<Longrightarrow> a < 175 \<Longrightarrow> loaded b txt B (last_at a q lx)"
  by (simp add: loaded_def last_at_def YY_CURRENT_BUFFER_def cong: option.case_cong if_cong)

text \<open>The state after \<open>YY_DO_BEFORE_ACTION\<close> and the line count.\<close>

definition matched :: "nat \<Rightarrow> string \<Rightarrow> yy_buffer_state \<Rightarrow> nat \<Rightarrow> nat \<Rightarrow> int \<Rightarrow> lex_state \<Rightarrow> lex_state" where
  "matched b txt B bp q l lx = lx\<lparr>yytext_ptr := bp, yyleng := q - bp, yy_hold_char := framed txt ! q, yy_c_buf_p := q,
     buffers := (buffers lx)(b \<mapsto> B\<lparr>yy_ch_buf := (framed txt)[q := CHR 0x00]\<rparr>), yylineno := l\<rparr>"

lemma matched_current: "YY_CURRENT_BUFFER (matched b txt B bp q l lx) = YY_CURRENT_BUFFER lx"
  by (simp add: matched_def YY_CURRENT_BUFFER_def cong: option.case_cong if_cong)

lemma find_action_matched:
  assumes "loaded b txt B lx" "decide s e lx = (r, q)" "s < 175" "r \<le> 57" "q < length txt + 2"
  shows "\<exists>l. find_action s bp e lx = Some (r, q, matched b txt B bp q l lx)"
proof -
  have las: "yy_last_accepting_state lx < 175" using assms(1) by (simp add: loaded_def)
  have sel: "find_action s bp e lx
      = do { lx \<leftarrow> YY_DO_BEFORE_ACTION bp q lx; lx \<leftarrow> count_lines r lx; Some (r, q, lx) }"
    using assms(2,3) las by (auto simp: find_action_def at_def decide_def split: if_splits)
  have cur: "YY_CURRENT_BUFFER (lx\<lparr>yytext_ptr := bp, yyleng := q - bp, yy_hold_char := framed txt ! q, yy_c_buf_p := q\<rparr>) = Some b"
    using assms(1) by (simp add: loaded_def YY_CURRENT_BUFFER_def cong: option.case_cong if_cong)
  let ?lx = "lx\<lparr>yytext_ptr := bp, yyleng := q - bp, yy_hold_char := framed txt ! q, yy_c_buf_p := q,
     buffers := (buffers lx)(b \<mapsto> B\<lparr>yy_ch_buf := (framed txt)[q := CHR 0x00]\<rparr>)\<rparr>"
  have before: "YY_DO_BEFORE_ACTION bp q lx = Some ?lx"
    using assms(1,5) loaded_peek [OF assms(1,5)] cur
    by (simp add: YY_DO_BEFORE_ACTION_def poke_def cur_buf_def set_cur_buf_def loaded_def)
  have "\<exists>l. count_lines r ?lx = Some (?lx\<lparr>yylineno := l\<rparr>)"
  proof -
    have "YY_CURRENT_BUFFER ?lx = Some b"
      using assms(1) by (simp add: loaded_def YY_CURRENT_BUFFER_def cong: option.case_cong if_cong)
    moreover have "\<exists>e. (if r = 57 then Some 0 else at yy_rule_can_match_eol r) = Some e"
      using assms(4) by (auto simp: at_def)
    moreover have "\<exists>l. ?lx = ?lx\<lparr>yylineno := l\<rparr>" by (rule exI [of _ "yylineno lx"]) simp
    ultimately show ?thesis by (auto simp: count_lines_def cur_buf_def)
  qed
  then obtain l where "count_lines r ?lx = Some (?lx\<lparr>yylineno := l\<rparr>)" ..
  then have "find_action s bp e lx = Some (r, q, ?lx\<lparr>yylineno := l\<rparr>)"
    using before sel by simp
  then show ?thesis by (intro exI [of _ l]) (simp add: matched_def)
qed

lemma takeWhile_framed:
  assumes "CHR 0x00 \<notin> set txt" "p \<le> q" "q \<le> length txt"
  shows "takeWhile (\<lambda>c. c \<noteq> CHR 0x00) (drop p ((framed txt)[q := CHR 0x00])) = take (q - p) (drop p txt)"
proof -
  have "drop p ((framed txt)[q := CHR 0x00])
      = take (q - p) (drop p txt) @ CHR 0x00 # drop (Suc q) (framed txt)"
    using assms(2,3) by (auto simp: framed_def upd_conv_take_nth_drop drop_take)
  moreover have "CHR 0x00 \<notin> set (take (q - p) (drop p txt))"
    using assms(1) by (meson in_set_dropD in_set_takeD)
  ultimately show ?thesis by (auto simp: takeWhile_append takeWhile_eq_all_conv)
qed

lemma matched_scanning:
  assumes "loaded b txt B lx" "q \<le> length txt"
  shows "scanning b txt q (matched b txt B bp q l lx)"
proof -
  let ?lx = "matched b txt B bp q l lx"
  have cur: "YY_CURRENT_BUFFER ?lx = Some b" using assms(1) by (simp add: matched_current loaded_def)
  have "poke q (yy_hold_char ?lx) ?lx = Some (?lx\<lparr>buffers := (buffers ?lx)(b \<mapsto> B\<lparr>yy_ch_buf := framed txt\<rparr>)\<rparr>)"
    using cur assms(2) by (simp add: poke_def cur_buf_def set_cur_buf_def matched_def)
  moreover have "loaded b txt (B\<lparr>yy_ch_buf := framed txt\<rparr>) (?lx\<lparr>buffers := (buffers ?lx)(b \<mapsto> B\<lparr>yy_ch_buf := framed txt\<rparr>)\<rparr>)"
    using assms(1) cur by (simp add: loaded_def matched_def YY_CURRENT_BUFFER_def cong: option.case_cong if_cong)
  ultimately show ?thesis using assms(2) by (auto simp: scanning_def matched_def)
qed

lemma matched_yytext:
  assumes "loaded b txt B lx" "CHR 0x00 \<notin> set txt" "bp \<le> q" "q \<le> length txt"
  shows "yytext (matched b txt B bp q l lx) = Some (take (q - bp) (drop bp txt))"
  using assms matched_current [of b "txt" B bp q l lx] takeWhile_framed [OF assms(2-4)]
  by (simp add: yytext_def cur_buf_def loaded_def) (simp add: matched_def)

text \<open>At the end of the buffer: a further match is looked for, or the input is used up.\<close>

lemma end_of_buffer_steps:
  assumes "poke cp (yy_hold_char m) m = Some m" "cur_buf m = Some B"
    "(if yy_buffer_status B = 0 then set_cur_buf (B\<lparr>yy_buffer_status := 1\<rparr>) (m\<lparr>yy_n_chars := b_n_chars B\<rparr>)
      else Some m) = Some lx'"
    "yy_n_chars lx' < yy_c_buf_p lx'"
  shows "yy_get_next_buffer lx' = Some EOB_ACT_END_OF_FILE \<Longrightarrow>
      end_of_buffer cp m = Some (Inl (lx'\<lparr>yy_did_buffer_switch_on_eof := False, yy_c_buf_p := yytext_ptr lx'\<rparr>))"
    and "yy_get_next_buffer lx' = Some EOB_ACT_LAST_MATCH \<Longrightarrow>
      end_of_buffer cp m = do {
        (s, lx'') \<leftarrow> yy_get_previous_state (lx'\<lparr>yy_c_buf_p := yy_n_chars lx'\<rparr>);
        Some (Inr (Find s (yytext_ptr lx'') (yy_c_buf_p lx''), lx'')) }"
  unfolding end_of_buffer_def by (simp_all only: assms bind.bind_lunit Let_def) (use assms(4) in simp_all)

lemma end_of_buffer_loaded:
  assumes "loaded b txt B lx" "bp \<le> length txt"
  shows "\<exists>B' lx'. loaded b txt B' lx' \<and> yytext_ptr lx' = bp \<and> yy_hold_char lx' = CHR 0x00 \<and>
    end_of_buffer (length txt + 1) (matched b txt B bp (length txt + 1) l lx) =
      (if bp = length txt
       then Some (Inl (lx'\<lparr>yy_did_buffer_switch_on_eof := False, yy_c_buf_p := bp\<rparr>))
       else do { (s, lx'') \<leftarrow> previous_state (length txt - bp) bp 1 (lx'\<lparr>yy_c_buf_p := length txt\<rparr>);
                 Some (Inr (Find s (yytext_ptr lx'') (yy_c_buf_p lx''), lx'')) })"
proof -
  let ?q = "length txt + 1"
  let ?m = "matched b txt B bp ?q l lx"
  have z: "framed txt ! ?q = CHR 0x00" by (simp add: framed_nth)
  then have same: "(framed txt)[?q := CHR 0x00] = framed txt" by (metis list_update_id)
  have cur: "YY_CURRENT_BUFFER ?m = Some b" using assms(1) by (simp add: matched_current loaded_def)
  have buf: "buffers ?m b = Some (B\<lparr>yy_ch_buf := framed txt\<rparr>)" "yy_hold_char ?m = CHR 0x00" "yytext_ptr ?m = bp"
    "yy_c_buf_p ?m = ?q" "yy_n_chars ?m = length txt" "yy_start ?m = 1"
    using assms(1) same z by (simp_all add: matched_def loaded_def)
  have upd: "(buffers ?m)(b \<mapsto> B\<lparr>yy_ch_buf := framed txt\<rparr>) = buffers ?m" using buf(1) by auto
  have poke: "poke ?q (yy_hold_char ?m) ?m = Some ?m"
    using cur buf same by (simp add: poke_def cur_buf_def set_cur_buf_def upd [simplified])
  define B' where "B' = (if yy_buffer_status B = 0 then B\<lparr>yy_ch_buf := framed txt, yy_buffer_status := 1\<rparr>
      else B\<lparr>yy_ch_buf := framed txt\<rparr>)"
  define lx' where "lx' = ?m\<lparr>buffers := (buffers ?m)(b \<mapsto> B')\<rparr>"
  have cur': "YY_CURRENT_BUFFER lx' = Some b"
    using cur by (simp add: lx'_def YY_CURRENT_BUFFER_def cong: option.case_cong if_cong)
  have cb: "cur_buf ?m = Some (B\<lparr>yy_ch_buf := framed txt\<rparr>)" using cur buf by (simp add: cur_buf_def)
  have status: "(if yy_buffer_status (B\<lparr>yy_ch_buf := framed txt\<rparr>) = 0
      then set_cur_buf (B\<lparr>yy_ch_buf := framed txt\<rparr>\<lparr>yy_buffer_status := 1\<rparr>)
             (?m\<lparr>yy_n_chars := b_n_chars (B\<lparr>yy_ch_buf := framed txt\<rparr>)\<rparr>) else Some ?m) = Some lx'"
  proof -
    have n: "?m\<lparr>yy_n_chars := b_n_chars B\<rparr> = ?m" using assms(1) by (simp add: matched_def loaded_def)
    show ?thesis using cur n upd by (simp add: lx'_def B'_def set_cur_buf_def)
  qed
  have ld: "loaded b txt B' lx'"
    using assms(1) cur' buf by (simp add: loaded_def lx'_def B'_def) (simp add: matched_def)
  have sel: "yytext_ptr lx' = bp" "yy_hold_char lx' = CHR 0x00" "yy_c_buf_p lx' = ?q" "yy_n_chars lx' = length txt"
    "yy_start lx' = 1" "cur_buf lx' = Some B'" "\<not> yy_fill_buffer B'"
    using buf ld cur' by (simp_all add: lx'_def loaded_def cur_buf_def)
  have nb: "yy_get_next_buffer lx' = Some (if bp = length txt then EOB_ACT_END_OF_FILE else EOB_ACT_LAST_MATCH)"
    using sel assms(2) by (auto simp: yy_get_next_buffer_def)
  have "end_of_buffer ?q ?m = (if bp = length txt
       then Some (Inl (lx'\<lparr>yy_did_buffer_switch_on_eof := False, yy_c_buf_p := bp\<rparr>))
       else do { (s, lx'') \<leftarrow> previous_state (length txt - bp) bp 1 (lx'\<lparr>yy_c_buf_p := length txt\<rparr>);
                 Some (Inr (Find s (yytext_ptr lx'') (yy_c_buf_p lx''), lx'')) })"
    using end_of_buffer_steps [OF poke cb status] sel nb
    by (auto simp: yy_get_previous_state_def)
  with ld sel show ?thesis by blast
qed

section \<open>One turn of the loop\<close>

lemma loop_token:
  assumes "to_action pt lx = Some (r, q, lx2)" "r \<noteq> 57" "yytext lx2 = Some w"
  shows "yylex_loop pt lx yylval g = do {
     (tok, yylval, g) \<leftarrow> lex_action r w yylval g;
     (case tok of Some t \<Rightarrow> Some (t, lx2, yylval, g) | None \<Rightarrow> yylex_loop Scan lx2 yylval g) }"
  using assms by (subst yylex_loop.simps) simp

lemma loop_eob:
  assumes "to_action pt lx = Some (57, q, lx2)"
  shows "end_of_buffer q lx2 = Some (Inr (pt', lx3)) \<Longrightarrow> yylex_loop pt lx yylval g = yylex_loop pt' lx3 yylval g"
    and "end_of_buffer q lx2 = Some (Inl lx3) \<Longrightarrow> yylex_loop pt lx yylval g = Some (0, lx3, yylval, g)"
  using assms by (subst yylex_loop.simps, simp)+

lemma number_tail_bounds: "number_tail cs = (r, n) \<Longrightarrow> n \<le> length cs \<and> (r = 40 \<or> r = 41)"
proof (induction cs arbitrary: r n rule: number_tail.induct)
  case (2 c cs)
  then show ?case by (auto split: if_splits prod.splits intro: le_trans [OF length_takeWhile_le])
qed simp

lemma string_tail_bounds: "string_tail cs = Some n \<Longrightarrow> 1 \<le> n \<and> n \<le> length cs"
proof (induction cs arbitrary: n rule: string_tail.induct)
  case (2 c cs)
  then show ?case by (fastforce split: if_splits list.splits)
qed simp

lemma word_rule_bounds: "2 \<le> word_rule w \<and> word_rule w \<le> 39"
proof (cases "w \<in> set keyword_list")
  case True
  then obtain i where "i < length keyword_list" "w = keyword_list ! i" by (auto simp: in_set_conv_nth)
  then show ?thesis using True takeWhile_distinct_nth [OF keyword_distinct] keyword_length
    by (simp add: word_rule_def)
qed (simp add: word_rule_def)

lemma lexeme_bounds:
  assumes "lexeme (c # cs) = (r, n)"
  shows "1 \<le> n \<and> n \<le> length (c # cs) \<and> 1 \<le> r \<and> r \<le> 55"
proof (cases "word_char c \<and> \<not> digit_char c")
  case True
  then show ?thesis using assms word_rule_bounds [of "c # takeWhile word_char cs"] length_takeWhile_le [of word_char cs]
    by (auto simp: lexeme_def Let_def)
next
  case False
  show ?thesis
    using assms length_takeWhile_le [of digit_char cs] unfolding lexeme_class [OF False]
    by (auto split: if_splits option.splits list.splits prod.splits dest: number_tail_bounds string_tail_bounds)
qed

lemma lexeme_pos: "s \<noteq> [] \<Longrightarrow> lexeme s = (r, n) \<Longrightarrow> 0 < n"
  using lexeme_bounds [of "hd s" "tl s" r n] by (cases s) auto

lemma scanning_poke:
  assumes "scanning b txt p lx"
  obtains lx1 B where "poke (yy_c_buf_p lx) (yy_hold_char lx) lx = Some lx1" "loaded b txt B lx1"
    "yy_c_buf_p lx = p" "p \<le> length txt"
  using assms by (auto simp: scanning_def)

lemma to_action_scan:
  assumes "poke (yy_c_buf_p lx) (yy_hold_char lx) lx = Some lx1" "loaded b txt B lx1" "yy_c_buf_p lx = p"
  shows "to_action Scan lx = do { (s, e, lx) \<leftarrow> yy_match (Suc 0) p lx1; find_action s p e lx }"
  using assms by (simp add: to_action_def loaded_def)

lemma start_live: "live (Suc 0)" "live 1"
  by (simp_all add: live_def)

lemma framed_drop:
  "p + i < length txt \<Longrightarrow> framed txt ! (p + i) = drop p txt ! i"
  by (simp add: framed_nth)

lemma found_lexeme:
  assumes "CHR 0x00 \<notin> set txt" "p < length txt" "lexeme (drop p txt) = (r, n)"
  shows "found p lx (munch (Suc 0) (drop p txt)) = (r, p + n)"
proof -
  obtain c cs where c: "drop p txt = c # cs" using assms(2) by (cases "drop p txt") auto
  have "CHR 0x00 \<notin> set (c # cs)" using assms(1) c by (metis in_set_dropD)
  from munch_lexeme [OF this] c assms(3) show ?thesis by (simp add: found_def)
qed

text \<open>A match inside the text, or one that runs into the end of the buffer, gives the same result.\<close>

lemma scan_match:
  assumes "scanning b txt p lx" "CHR 0x00 \<notin> set txt" "p < length txt" "lexeme (drop p txt) = (r, n)"
  shows "\<exists>lx2. scanning b txt (p + n) lx2 \<and> (\<forall>yylval g. yylex_loop Scan lx yylval g = do {
     (tok, yylval, g) \<leftarrow> lex_action r (take n (drop p txt)) yylval g;
     (case tok of Some t \<Rightarrow> Some (t, lx2, yylval, g) | None \<Rightarrow> yylex_loop Scan lx2 yylval g) })"
proof -
  let ?cs = "drop p txt"
  obtain lx1 B where lx1: "poke (yy_c_buf_p lx) (yy_hold_char lx) lx = Some lx1" "loaded b txt B lx1" "yy_c_buf_p lx = p"
    using scanning_poke [OF assms(1)] by metis
  have start: "yy_start lx1 = Suc 0" "yy_last_accepting_state lx1 < 175" using lx1(2) by (simp_all add: loaded_def)
  have nul: "CHR 0x00 \<notin> set ?cs" using assms(2) by (meson in_set_dropD)
  have bnd: "1 \<le> n" "p + n \<le> length txt" "r \<le> 55"
  proof -
    obtain c cs where c: "?cs = c # cs" using assms(3) by (cases ?cs) auto
    from lexeme_bounds [of c cs r n] assms(4) c
    have "1 \<le> n" "n \<le> length ?cs" "r \<le> 55" by simp_all
    then show "1 \<le> n" "p + n \<le> length txt" "r \<le> 55" using assms(3) by simp_all
  qed
  have pk: "peek (p + i) lx1 = Some (?cs ! i)" if "i < length ?cs" for i
    using that loaded_peek [OF lx1(2), of "p + i"] by (simp add: framed_nth)
  note act = to_action_scan [OF lx1]
  have fnd: "found p lx' (munch (Suc 0) ?cs) = (r, p + n)" for lx'
    by (rule found_lexeme [OF assms(2-4)])
  have final: "scanning b txt (p + n) (matched b txt C p (p + n) l m)
      \<and> yytext (matched b txt C p (p + n) l m) = Some (take n ?cs)" if "loaded b txt C m" for C l m
    using matched_scanning [OF that bnd(2)] matched_yytext [OF that assms(2) _ bnd(2), of p] by simp
  have finish: ?thesis if "loaded b txt C m" "to_action pt m' = Some (r, p + n, matched b txt C p (p + n) l m)"
      "\<And>yylval g. yylex_loop Scan lx yylval g = yylex_loop pt m' yylval g" for C l m pt m'
  proof (intro exI conjI allI)
    show "scanning b txt (p + n) (matched b txt C p (p + n) l m)" using final [OF that(1)] by blast
    show "yylex_loop Scan lx yylval g = do {
       (tok, yylval, g) \<leftarrow> lex_action r (take n ?cs) yylval g;
       (case tok of Some t \<Rightarrow> Some (t, matched b txt C p (p + n) l m, yylval, g)
        | None \<Rightarrow> yylex_loop Scan (matched b txt C p (p + n) l m) yylval g) }" for yylval g
      unfolding that(3) by (rule loop_token [OF that(2)]) (use final [OF that(1)] bnd(3) in auto)
  qed
  show ?thesis
  proof (cases "stops (Suc 0) ?cs")
    case True
    obtain t e a q where m: "yy_match (Suc 0) p lx1 = Some (t, e, last_at a q lx1)" "t < 175" "a < 175"
      "decide t e (last_at a q lx1) = (r, p + n)"
      using match_inside [OF pk nul start_live(1) True start(2)] fnd by auto
    have ld: "loaded b txt B (last_at a q lx1)" by (rule loaded_last_at [OF lx1(2) m(3)])
    obtain l where "find_action t p e (last_at a q lx1) = Some (r, p + n, matched b txt B p (p + n) l (last_at a q lx1))"
      using find_action_matched [OF ld m(4,2)] bnd by auto
    then have "to_action Scan lx = Some (r, p + n, matched b txt B p (p + n) l (last_at a q lx1))"
      using act m(1) by simp
    from finish [OF ld this] show ?thesis by simp
  next
    case False
    let ?e = "length txt + 1"
    have m: "yy_match (Suc 0) p lx1 = Some (174, ?e + 1, last_at 3 ?e lx1)"
      using match_to_end [OF pk nul start_live(1) False] loaded_peek [OF lx1(2)] assms(3)
      by (simp add: framed_nth)
    have ld: "loaded b txt B (last_at 3 ?e lx1)" by (rule loaded_last_at [OF lx1(2)]) simp
    have "decide 174 (?e + 1) (last_at 3 ?e lx1) = (57, ?e)" by (simp add: decide_def state_rules rules_3)
    from find_action_matched [OF ld this] obtain l where
      "to_action Scan lx = Some (57, ?e, matched b txt B p ?e l (last_at 3 ?e lx1))"
      using act m by auto
    note eob = loop_eob(1) [OF this]
    obtain B' lx' where lx': "loaded b txt B' lx'" "yytext_ptr lx' = p"
      "end_of_buffer ?e (matched b txt B p ?e l (last_at 3 ?e lx1)) =
        do { (s, lx'') \<leftarrow> previous_state (length txt - p) p 1 (lx'\<lparr>yy_c_buf_p := length txt\<rparr>);
             Some (Inr (Find s (yytext_ptr lx'') (yy_c_buf_p lx''), lx'')) }"
      using end_of_buffer_loaded [OF ld, of p l] assms(3) by auto
    let ?m = "lx'\<lparr>yy_c_buf_p := length txt\<rparr>"
    have ldm: "loaded b txt B' ?m"
      using lx'(1) by (simp add: loaded_def YY_CURRENT_BUFFER_def cong: option.case_cong if_cong)
    have pkm: "peek (p + i) ?m = Some (?cs ! i)" if "i < length ?cs" for i
      using that loaded_peek [OF ldm, of "p + i"] by (simp add: framed_nth)
    obtain t a q where t: "previous_state (length ?cs) p (Suc 0) ?m = Some (t, last_at a q ?m)" "t < 175" "a < 175"
      "decide t (p + length ?cs) (last_at a q ?m) = (r, p + n)"
      using previous_state_munch [OF pkm nul start_live(1) False] ldm fnd by (auto simp: loaded_def)
    have ldt: "loaded b txt B' (last_at a q ?m)" by (rule loaded_last_at [OF ldm t(3)])
    have sel: "yytext_ptr (last_at a q ?m) = p" "yy_c_buf_p (last_at a q ?m) = length txt"
      using lx'(2) by (simp_all add: last_at_def)
    have "yylex_loop Scan lx yylval g = yylex_loop (Find t p (length txt)) (last_at a q ?m) yylval g" for yylval g
      using eob lx'(3) t(1) sel by simp
    moreover obtain l' where "to_action (Find t p (length txt)) (last_at a q ?m)
        = Some (r, p + n, matched b txt B' p (p + n) l' (last_at a q ?m))"
      using find_action_matched [OF ldt t(4,2)] bnd assms(3) by (auto simp: to_action_def)
    ultimately show ?thesis using finish [OF ldt] by simp
  qed
qed

lemma scan_eof:
  assumes "scanning b txt (length txt) lx"
  shows "\<exists>lx2. scanning b txt (length txt) lx2
    \<and> (\<forall>yylval g. yylex_loop Scan lx yylval g = Some (0, lx2, yylval, g))"
proof -
  let ?p = "length txt" and ?e = "length txt + 1"
  obtain lx1 B where lx1: "poke (yy_c_buf_p lx) (yy_hold_char lx) lx = Some lx1" "loaded b txt B lx1" "yy_c_buf_p lx = ?p"
    using scanning_poke [OF assms] by metis
  have m: "yy_match (Suc 0) ?p lx1 = Some (174, ?e + 1, last_at 3 ?e lx1)"
    using match_to_end [of "[]" ?p lx1 "Suc 0"] loaded_peek [OF lx1(2)] start_live by (simp add: framed_nth)
  have ld: "loaded b txt B (last_at 3 ?e lx1)" by (rule loaded_last_at [OF lx1(2)]) simp
  have "decide 174 (?e + 1) (last_at 3 ?e lx1) = (57, ?e)" by (simp add: decide_def state_rules rules_3)
  from find_action_matched [OF ld this, of ?p] obtain l where
    act: "to_action Scan lx = Some (57, ?e, matched b txt B ?p ?e l (last_at 3 ?e lx1))"
    using m to_action_scan [OF lx1] by auto
  obtain B' lx' where lx': "loaded b txt B' lx'" "yytext_ptr lx' = ?p" "yy_hold_char lx' = CHR 0x00"
    "end_of_buffer ?e (matched b txt B ?p ?e l (last_at 3 ?e lx1)) =
      Some (Inl (lx'\<lparr>yy_did_buffer_switch_on_eof := False, yy_c_buf_p := ?p\<rparr>))"
    using end_of_buffer_loaded [OF ld, of ?p l] by auto
  let ?m = "lx'\<lparr>yy_did_buffer_switch_on_eof := False, yy_c_buf_p := ?p\<rparr>"
  have cur: "YY_CURRENT_BUFFER ?m = Some b" using lx'(1)
    by (simp add: loaded_def YY_CURRENT_BUFFER_def cong: option.case_cong if_cong)
  have "(framed txt)[?p := CHR 0x00] = framed txt" by (metis framed_nth(2) list_update_id)
  then have "poke ?p (yy_hold_char ?m) ?m = Some (?m\<lparr>buffers := (buffers ?m)(b \<mapsto> B'\<lparr>yy_ch_buf := framed txt\<rparr>)\<rparr>)"
    using lx'(1,3) cur by (simp add: poke_def cur_buf_def set_cur_buf_def loaded_def)
  moreover have "loaded b txt (B'\<lparr>yy_ch_buf := framed txt\<rparr>) (?m\<lparr>buffers := (buffers ?m)(b \<mapsto> B'\<lparr>yy_ch_buf := framed txt\<rparr>)\<rparr>)"
    using lx'(1) cur by (simp add: loaded_def YY_CURRENT_BUFFER_def cong: option.case_cong if_cong)
  ultimately have "scanning b txt ?p ?m" by (auto simp: scanning_def)
  then show ?thesis using loop_eob(2) [OF act lx'(4)] by blast
qed

section \<open>yylex\<close>

text \<open>The lexemes of a text, rule and characters of each.\<close>

function lexemes :: "string \<Rightarrow> (nat \<times> string) list" where
  "lexemes s = (if s = [] then [] else (case lexeme s of (r, n) \<Rightarrow> (r, take n s) # lexemes (drop n s)))"
  by pat_completeness auto
termination by (relation "measure length") (auto simp: lexeme_pos [OF _ sym])

declare lexemes.simps [simp del]

text \<open>What a call of the scanner does on a list of lexemes: their actions, up to the first token.\<close>

fun lex_run :: "(nat \<times> string) list \<Rightarrow> nat option \<Rightarrow> parser_state
    \<Rightarrow> (int \<times> (nat \<times> string) list \<times> nat option \<times> parser_state) option" where
  "lex_run [] yylval g = Some (0, [], yylval, g)"
| "lex_run ((r, w) # ls) yylval g = do {
     (tok, yylval, g) \<leftarrow> lex_action r w yylval g;
     (case tok of Some t \<Rightarrow> Some (t, ls, yylval, g) | None \<Rightarrow> lex_run ls yylval g) }"

text \<open>The scanner reads \<open>txt\<close> and has consumed \<open>p\<close> characters; it may still have to initialise itself.\<close>

definition reading :: "nat \<Rightarrow> string \<Rightarrow> nat \<Rightarrow> lex_state \<Rightarrow> bool" where
  "reading b txt p lx \<longleftrightarrow> (\<exists>lx'. yylex_init lx = Some lx' \<and> scanning b txt p lx')"

lemma poke_init: "poke p c lx = Some lx' \<Longrightarrow> yy_init lx' = yy_init lx"
  by (auto simp: poke_def set_cur_buf_def split: bind_splits if_splits)

lemma scanning_reading: "scanning b txt p lx \<Longrightarrow> reading b txt p lx"
  by (auto simp: scanning_def reading_def yylex_init_def loaded_def dest: poke_init)

lemma string_lexeme: "lexeme (c # cs) = (1, n) \<Longrightarrow> 2 \<le> n"
  using word_rule_bounds [of "c # takeWhile word_char cs"]
  by (auto simp: lexeme_def Let_def split: if_splits option.splits list.splits prod.splits
      dest: string_tail_bounds number_tail_bounds)

lemma unrecognized_lexeme: "lexeme (c # cs) = (55, n) \<Longrightarrow> n = 1"
  using word_rule_bounds [of "c # takeWhile word_char cs"]
  by (auto simp: lexeme_def Let_def split: if_splits option.splits list.splits prod.splits dest: number_tail_bounds)

lemma lex_action_total:
  assumes "lexeme (c # cs) = (r, n)"
  shows "\<exists>tok yylval' g'. lex_action r (take n (c # cs)) yylval g = Some (tok, yylval', g')"
proof -
  let ?w = "take n (c # cs)"
  have r: "1 \<le> n" "n \<le> length (c # cs)" "1 \<le> r" "r \<le> 55" using lexeme_bounds [OF assms] by auto
  have w: "length ?w = n" using r(2) by simp
  have str: "r = 1 \<Longrightarrow> \<not> length ?w < 2" using string_lexeme [of c cs n] assms w by auto
  have un: "r = 55 \<Longrightarrow> length ?w = 1" using unrecognized_lexeme [of c cs n] assms w by auto
  show ?thesis
    using r(3,4) str un
    by (auto simp: lex_action_def value_token_def CreateSyntaxNode_def copy_val_def unrecognized_message_def Let_def)
qed

lemma yylex_loop_run:
  assumes "scanning b txt p lx" "CHR 0x00 \<notin> set txt"
  shows "\<exists>t p' lx' yylval' g'. yylex_loop Scan lx yylval g = Some (t, lx', yylval', g')
    \<and> lex_run (lexemes (drop p txt)) yylval g = Some (t, lexemes (drop p' txt), yylval', g') \<and> scanning b txt p' lx'"
  using assms(1)
proof (induction "length txt - p" arbitrary: p lx yylval g rule: less_induct)
  case less
  have le: "p \<le> length txt" using less.prems by (simp add: scanning_def)
  show ?case
  proof (cases "p = length txt")
    case True
    with scan_eof [of b "txt" lx] less.prems show ?thesis
      by (auto simp: lexemes.simps intro!: exI [of _ "length txt"])
  next
    case False
    then have p: "p < length txt" using le by simp
    then obtain c cs where c: "drop p txt = c # cs" by (cases "drop p txt") auto
    obtain r n where rn: "lexeme (drop p txt) = (r, n)" by fastforce
    then have n: "1 \<le> n" using lexeme_bounds [of c cs r n] c by simp
    let ?w = "take n (drop p txt)"
    obtain lx2 where lx2: "scanning b txt (p + n) lx2"
      "\<And>yylval g. yylex_loop Scan lx yylval g = do {
         (tok, yylval, g) \<leftarrow> lex_action r ?w yylval g;
         (case tok of Some t \<Rightarrow> Some (t, lx2, yylval, g) | None \<Rightarrow> yylex_loop Scan lx2 yylval g) }"
      using scan_match [OF less.prems assms(2) p rn] by blast
    obtain tok yylval1 g1 where a: "lex_action r ?w yylval g = Some (tok, yylval1, g1)"
      using lex_action_total [of c cs r n yylval g] rn c by auto
    have ls: "lexemes (drop p txt) = (r, ?w) # lexemes (drop (p + n) txt)"
      using rn p by (subst lexemes.simps) (simp add: add.commute)
    show ?thesis
    proof (cases tok)
      case None
      have "length txt - (p + n) < length txt - p" using p n by simp
      from less.hyps [OF this lx2(1), of yylval1 g1] show ?thesis using a None ls lx2(2) by simp
    next
      case (Some t)
      then show ?thesis using a ls lx2 by (intro exI [of _ t] exI [of _ "p + n"]) simp
    qed
  qed
qed

lemma yylex_run:
  assumes "reading b txt p lx" "CHR 0x00 \<notin> set txt"
  shows "\<exists>t p' lx' yylval' g'. yylex lx yylval g = Some (t, lx', yylval', g')
    \<and> lex_run (lexemes (drop p txt)) yylval g = Some (t, lexemes (drop p' txt), yylval', g') \<and> reading b txt p' lx'"
proof -
  obtain lx' where "yylex_init lx = Some lx'" "scanning b txt p lx'" using assms(1) by (auto simp: reading_def)
  with yylex_loop_run [OF this(2) assms(2), of yylval g] show ?thesis
    unfolding yylex_def using scanning_reading by (simp, blast)
qed

text \<open>A scanner without buffers, as it is at the start and after \<open>yylex_destroy\<close>.\<close>

definition idle :: "lex_state \<Rightarrow> bool" where
  "idle lx \<longleftrightarrow> yy_buffer_stack lx = None \<and> \<not> yy_init lx \<and> yy_start lx = 0 \<and> yy_last_accepting_state lx < 175"

text \<open>
  The state after \<open>yy_scan_string\<close>; \<open>st\<close> is the buffer stack, with the new buffer at the bottom, which a
  further \<open>yy_switch_to_buffer\<close> enlarges.
\<close>

definition scanned :: "nat option list \<Rightarrow> string \<Rightarrow> lex_state \<Rightarrow> lex_state" where
  "scanned st txt lx = lx\<lparr>next_buffer := next_buffer lx + 1, yy_buffer_stack := Some st, yy_buffer_stack_max := length st,
     yy_buffer_stack_top := 0, yy_n_chars := length txt, yytext_ptr := 0, yy_c_buf_p := 0,
     yy_hold_char := framed txt ! 0, yy_did_buffer_switch_on_eof := True,
     buffers := (buffers lx)(next_buffer lx \<mapsto> \<lparr>yy_ch_buf = framed txt, yy_buf_pos = 0, yy_buf_size = length txt,
       b_n_chars = length txt, yy_is_our_buffer = True, yy_is_interactive = False, yy_at_bol = True,
       yy_fill_buffer = False, yy_buffer_status = 0\<rparr>)\<rparr>"

lemma scan_string_scanned:
  "idle lx \<Longrightarrow> yy_scan_string txt lx = Some (Some (next_buffer lx), scanned [Some (next_buffer lx)] txt lx)"
  by (simp add: idle_def yy_scan_string_def yy_scan_bytes_def yy_scan_buffer_def at_def framed_def [symmetric]
      framed_nth yy_switch_to_buffer_def yyensure_buffer_stack_def YY_CURRENT_BUFFER_def flush_current_def
      set_current_def yy_load_buffer_state_def cur_buf_def scanned_def Let_def nth_append)

lemma switch_scanned:
  "yy_switch_to_buffer (Some b) (scanned [Some b] txt lx) = Some (scanned (Some b # replicate 8 None) txt lx)"
  by (simp add: yy_switch_to_buffer_def yyensure_buffer_stack_def YY_CURRENT_BUFFER_def scanned_def Let_def)

lemma scanned_current: "YY_CURRENT_BUFFER (scanned (Some b # st) txt lx) = Some b"
  by (simp add: scanned_def YY_CURRENT_BUFFER_def)

lemma scanned_reading:
  "idle lx \<Longrightarrow> reading (next_buffer lx) txt 0 (scanned (Some (next_buffer lx) # st) txt lx)"
  by (simp add: reading_def yylex_init_def scanned_def idle_def Let_def YY_CURRENT_BUFFER_def yy_load_buffer_state_def
      cur_buf_def at_def scanning_def poke_def set_cur_buf_def loaded_def list_update_id)

lemma scan_string_reading:
  assumes "idle lx"
  obtains b lx' where "yy_scan_string txt lx = Some (Some b, lx')" "reading b txt 0 lx'"
  using scan_string_scanned [OF assms] scanned_reading [OF assms] by blast

lemma keyword_action:
  assumes "2 \<le> r" "r \<le> 38"
  shows "lex_action r w yylval g = Some (Some (int r + 256), yylval, MinisqlParserMovePos w g)"
proof -
  have "statement_keyword r = Some (int r + 256)" if "r \<le> 15" using that assms(1) unfolding statement_keyword_def by (simp split: if_split) arith
  moreover have "clause_keyword r = Some (int r + 256)" if "16 \<le> r" "r \<le> 28" using that unfolding clause_keyword_def by (simp split: if_split) arith
  moreover have "condition_keyword r = Some (int r + 256)" if "29 \<le> r" using that assms(2) unfolding condition_keyword_def by (simp split: if_split) arith
  ultimately show ?thesis using assms by (auto simp: lex_action_def value_token_def)
qed

lemma word_rule_keyword: "w \<in> set keyword_list \<Longrightarrow> 2 \<le> word_rule w \<and> word_rule w \<le> 38"
proof -
  assume w: "w \<in> set keyword_list"
  then obtain i where "i < length keyword_list" "w = keyword_list ! i" by (auto simp: in_set_conv_nth)
  then show ?thesis using w takeWhile_distinct_nth [OF keyword_distinct] keyword_length
    by (simp add: word_rule_def)
qed

lemma lexemes_word:
  assumes "list_all word_char (c # w)" "\<not> digit_char c" "rest = [] \<or> \<not> word_char (hd rest)"
  shows "lexemes (c # w @ rest) = (word_rule (c # w), c # w) # lexemes rest"
proof -
  have "takeWhile word_char (w @ rest) = w"
    using assms(1,3) by (cases rest) (auto simp: takeWhile_append list_all_iff takeWhile_eq_all_conv)
  then have "lexeme (c # w @ rest) = (word_rule (c # w), length (c # w))"
    using assms(1,2) by (simp add: lexeme_def Let_def)
  then show ?thesis by (subst lexemes.simps) simp
qed

lemma SetError_again: "error g \<Longrightarrow> MinisqlParserSetError m g = g"
  by (simp add: MinisqlParserSetError_def)

lemma lex_action_keeps_error:
  "lex_action r w yylval g = Some (tok, yylval', g') \<Longrightarrow> error g \<Longrightarrow> error g' \<and> error_message g' = error_message g"
  by (auto simp: lex_action_def CreateSyntaxNode_def SetError_again Let_def split: option.splits bind_splits if_splits)

lemma lex_run_keeps_error:
  "lex_run ls yylval g = Some (t, ls', yylval', g') \<Longrightarrow> error g \<Longrightarrow> error g' \<and> error_message g' = error_message g"
proof (induction ls yylval g rule: lex_run.induct)
  case (2 r w ls yylval g)
  then show ?case using lex_action_keeps_error by (fastforce split: bind_splits option.splits)
qed simp

section \<open>Properties\<close>


lemma idle_zero: "idle lex_zero"
  by (simp add: idle_def lex_zero_def)

definition scan_example :: lex_state where
  "scan_example = (case yy_scan_string ''drop -1.5'' lex_zero of Some (b, lx) \<Rightarrow> lx | None \<Rightarrow> lex_zero)"

lemma scan_example_reading: "\<exists>b. reading b ''drop -1.5'' 0 scan_example"
  by (rule scan_string_reading [OF idle_zero, of "''drop -1.5''"]) (auto simp: scan_example_def)


text \<open>
  Words. After \<open>yy_scan_string\<close> of a text that starts with a word (a letter or underscore, then
  letters, digits and underscores) not followed by another word character, the first token is the
  word's keyword if it is one of the 37 keywords, in lower case, and IDENTIFIER otherwise: token
  numbers 258 to 294 in the order of the keyword list, and 295. For an identifier \<open>yylval\<close> is a
  new node that holds the word.
\<close>
theorem yylex_word:
  assumes "idle lx" "list_all word_char (c # w)" "\<not> digit_char c" "rest = [] \<or> \<not> word_char (hd rest)"
    and "CHR 0x00 \<notin> set (c # w @ rest)" "holds g L"
  shows "\<exists>b lx1 lx2 p yylval' g'. yy_scan_string (c # w @ rest) lx = Some (Some b, lx1)
    \<and> yylex lx1 yylval g = Some (int (word_rule (c # w)) + 256, lx2, yylval', g')
    \<and> reading b (c # w @ rest) p lx2 \<and> lexemes (drop p (c # w @ rest)) = lexemes rest
    \<and> (if c # w \<in> set keyword_list then yylval' = yylval \<and> store g' = store g
       else holds g' ((yylval', [Node kNodeIdentifier (Some (c # w)) []]) # L))"
proof -
  let ?t = "c # w @ rest"
  obtain b lx1 where lx1: "yy_scan_string ?t lx = Some (Some b, lx1)" "reading b ?t 0 lx1"
    by (rule scan_string_reading [OF assms(1)])
  obtain t p lx2 yylval' g' where y: "yylex lx1 yylval g = Some (t, lx2, yylval', g')"
    "lex_run (lexemes ?t) yylval g = Some (t, lexemes (drop p ?t), yylval', g')" "reading b ?t p lx2"
    using yylex_run [OF lx1(2) assms(5), of yylval g] unfolding drop0 by blast
  note ls = lexemes_word [OF assms(2-4)]
  show ?thesis
  proof (cases "c # w \<in> set keyword_list")
    case True
    then have "lex_action (word_rule (c # w)) (c # w) yylval g
        = Some (Some (int (word_rule (c # w)) + 256), yylval, MinisqlParserMovePos (c # w) g)"
      by (intro keyword_action) (auto simp: word_rule_keyword)
    then show ?thesis using lx1 y ls True by auto
  next
    case False
    let ?g = "MinisqlParserMovePos (c # w) g"
    have "holds ?g L" using assms(6) by (simp only: MovePos_holds)
    from create_holds [OF this, of kNodeIdentifier "Some (c # w)"] obtain a g1 where
      a: "CreateSyntaxNode kNodeIdentifier (Some (c # w)) ?g = Some (a, g1)"
        "holds g1 ((Some a, [Node kNodeIdentifier (Some (c # w)) []]) # L)"
      by (auto simp: copy_val_def)
    have r: "word_rule (c # w) = 39" using False by (simp add: word_rule_def)
    then have "lex_action (word_rule (c # w)) (c # w) yylval g = Some (Some 295, Some a, g1)"
      using a(1) by (simp add: lex_action_def value_token_def)
    then show ?thesis using lx1 y ls False r a(2) by auto
  qed
qed

text \<open>
  A character that starts no token is reported. On a text that starts with such a character
  the scanner sets the error flag, unless an error is already set, with a message whose storage is
  the local array of \<open>yylex\<close>: the pointer that \<open>MinisqlParserGetErrorMessage\<close> then returns is dangling.
  Scanning goes on behind the character.
\<close>
theorem unrecognized_reported:
  assumes "reading b txt 0 lx" "CHR 0x00 \<notin> set txt" "txt = c # cs" "lexeme txt = (55, n)" "\<not> error g"
    "yylex lx yylval g = Some (t, lx', yylval', g')"
  shows "error g' \<and> MinisqlParserGetErrorMessage g'
      = Some (Automatic (''Unrecognized token ['' @ [c] @ ''] in input sql.''))
    \<and> (\<exists>p'. lex_run (lexemes cs) yylval
          (MinisqlParserSetError (Automatic (''Unrecognized token ['' @ [c] @ ''] in input sql.'')) g)
        = Some (t, lexemes (drop p' txt), yylval', g'))"
proof -
  have n: "n = 1" using unrecognized_lexeme assms(3,4) by simp
  let ?m = "Automatic (''Unrecognized token ['' @ [c] @ ''] in input sql.'')"
  let ?g = "MinisqlParserSetError ?m g"
  have "lexemes txt = (55, [c]) # lexemes cs" using assms(3,4) n by (subst lexemes.simps) simp
  moreover have "lex_action 55 [c] yylval g = Some (None, yylval, ?g)"
    by (simp add: lex_action_def value_token_def unrecognized_message_def)
  ultimately obtain p' where r: "lex_run (lexemes cs) yylval ?g = Some (t, lexemes (drop p' txt), yylval', g')"
    using yylex_run [OF assms(1,2), of yylval g] assms(6) by auto
  have "error ?g" "error_message ?g = Some ?m" using assms(5) by (simp_all add: MinisqlParserSetError_def)
  with lex_run_keeps_error [OF r] r show ?thesis by (auto simp: MinisqlParserGetErrorMessage_def)
qed

definition scan_hash :: lex_state where
  "scan_hash = (case yy_scan_string ''#'' lex_zero of Some (b, lx) \<Rightarrow> lx | None \<Rightarrow> lex_zero)"

end
