(* ===== verification/Sql_Parser.thy ===== *)
theory Sql_Parser
  imports Yacc_Correct Lexer_Correct
begin

text \<open>
  Scanner and parser together, as the main loop of \<open>MiniSQL/src/main.cpp\<close> uses them: a command is read,
  scanned and parsed, and the scanner and the tree are released before the next one. The scanner is
  an instance of the interface the parser relies on; from this follows which texts are accepted and
  which tree they yield.
\<close>

section \<open>The main loop's use of the parser\<close>

text \<open>
  \<open>InputCommand\<close> on the characters that \<open>getchar\<close> will return: the array of \<open>len\<close> characters, all NUL at
  first, receives the characters up to the first semicolon with it, and one more character is dropped.
  \<open>None\<close>: \<open>input[i]\<close> is outside the array, also when the input ends before a semicolon, because
  \<open>getchar\<close> then returns \<open>EOF\<close> for ever.
\<close>

fun input_loop :: "nat \<Rightarrow> char list \<Rightarrow> string \<Rightarrow> (char list \<times> string) option" where
  "input_loop i input [] = None"
| "input_loop i input (ch # inp) =
     (if \<not> i < length input then None
      else if ch \<noteq> CHR '';'' then input_loop (i + 1) (input[i := ch]) inp
      else Some (input[i := ch], drop 1 inp))"

definition InputCommand :: "nat \<Rightarrow> string \<Rightarrow> (char list \<times> string) option" where
  "InputCommand len inp = input_loop 0 (replicate len (CHR 0x00)) inp"

text \<open>An array read as a C string; without a NUL the reader leaves the array.\<close>

definition c_string :: "char list \<Rightarrow> string option" where
  "c_string a = (if CHR 0x00 \<in> set a then Some (takeWhile (\<lambda>c. c \<noteq> CHR 0x00) a) else None)"

text \<open>The statements from \<open>yy_scan_string\<close> to \<open>yyparse\<close>, on the command as a C string.\<close>

definition parse_command :: "string \<Rightarrow> lex_state \<Rightarrow> nat option \<Rightarrow> parser_state
    \<Rightarrow> (nat \<times> int \<times> lex_state \<times> nat option \<times> parser_state) option" where
  "parse_command cmd lx y g = do {
     (bp, lx) \<leftarrow> yy_scan_string cmd lx;
     b \<leftarrow> bp;
     lx \<leftarrow> yy_switch_to_buffer (Some b) lx;
     (res, lx, y, g) \<leftarrow> yyparse yylex lx y (MinisqlParserInit g);
     Some (b, res, lx, y, g)
   }"

definition clean_command :: "nat \<Rightarrow> lex_state \<Rightarrow> parser_state \<Rightarrow> (lex_state \<times> parser_state) option" where
  "clean_command b lx g = do {
     g \<leftarrow> MinisqlParserFinish g;
     lx \<leftarrow> yy_delete_buffer (Some b) lx;
     lx \<leftarrow> yylex_destroy lx;
     Some (lx, g)
   }"

section \<open>Tokens of a text\<close>

text \<open>The token of a lexeme, by the scanner's rule; white space and unrecognised characters have none.\<close>

fun lex_token :: "nat \<times> string \<Rightarrow> token option" where
  "lex_token (r, w) =
    (if r = 1 then Some (41, [Node kNodeString (Some (take (length w - 2) (drop 1 w))) []])
     else if r = 39 then Some (40, [Node kNodeIdentifier (Some w) []])
     else if r = 40 \<or> r = 41 then Some (42, [Node kNodeNumber (Some w) []])
     else if 2 \<le> r \<and> r \<le> 38 \<or> 42 \<le> r \<and> r \<le> 45 then Some (int r + 1, [])
     else if r = 46 then Some (50, []) else if r = 47 then Some (51, []) else if r = 48 then Some (47, [])
     else if r = 49 then Some (2, []) else if r = 50 then Some (52, []) else if r = 51 then Some (53, [])
     else if r = 52 then Some (48, []) else if r = 53 then Some (49, []) else None)"

fun tokens :: "(nat \<times> string) list \<Rightarrow> token list" where
  "tokens [] = []"
| "tokens (l # ls) = (case lex_token l of None \<Rightarrow> tokens ls | Some t \<Rightarrow> t # tokens ls)"

definition recognised :: "(nat \<times> string) list \<Rightarrow> bool" where
  "recognised ls = list_all (\<lambda>(r, w). r \<noteq> 55) ls"

definition sql_tokens :: "string \<Rightarrow> token list" where
  "sql_tokens txt = tokens (lexemes txt)"

definition sql_clean :: "string \<Rightarrow> bool" where
  "sql_clean txt = recognised (lexemes txt)"

section \<open>The scanner is a token source\<close>

definition proper :: "nat \<times> string \<Rightarrow> bool" where
  "proper l \<longleftrightarrow> (case l of (r, w) \<Rightarrow> 1 \<le> r \<and> r \<le> 55 \<and> (r = 1 \<longrightarrow> 2 \<le> length w) \<and> (r = 55 \<longrightarrow> length w = 1))"

lemma lexemes_proper: "list_all proper (lexemes s)"
proof (induction s rule: lexemes.induct)
  case (1 s)
  show ?case
  proof (cases s)
    case Nil
    then show ?thesis by (simp add: lexemes.simps)
  next
    case (Cons c cs)
    obtain r n where l: "lexeme s = (r, n)" by fastforce
    have "proper (r, take n s)"
      using lexeme_bounds [of c cs r n] string_lexeme [of c cs n] unrecognized_lexeme [of c cs n] l Cons
      by (auto simp: proper_def)
    moreover have "list_all proper (lexemes (drop n s))" using 1 l Cons by auto
    moreover have "lexemes s = (r, take n s) # lexemes (drop n s)" using l Cons by (subst lexemes.simps) simp
    ultimately show ?thesis by simp
  qed
qed

lemma check_translate: "all_ix (\<lambda>i a. 258 \<le> i \<longrightarrow> a = int i - 255) 0 yytranslate"
  unfolding yytranslate_def by (simp cong: all_ix_weak_cong)

lemma translate_word: "258 \<le> k \<Longrightarrow> k \<le> 301 \<Longrightarrow> YYTRANSLATE k = Some (k - 255)"
  using all_ixD [OF check_translate, of "nat k"] by (auto simp: YYTRANSLATE_def fetch_def)

lemmas translate_nth = fun_cong [OF arg_cong [OF yytranslate_def, of nth], of "numeral v" for v]

lemma translate_char:
  "YYTRANSLATE 39 = Some 2" "YYTRANSLATE 40 = Some 48" "YYTRANSLATE 41 = Some 49" "YYTRANSLATE 42 = Some 51"
  "YYTRANSLATE 44 = Some 50" "YYTRANSLATE 59 = Some 47" "YYTRANSLATE 60 = Some 52" "YYTRANSLATE 62 = Some 53"
  by (simp_all add: YYTRANSLATE_def fetch_def translate_nth cong: nth_weak_cong)

lemma value_action:
  assumes "value_token r = Some (ty, k)" "copy_val ty (Some w) = Some u" "holds g L"
  shows "\<exists>a g'. lex_action r w y g = Some (Some k, Some a, g') \<and> holds g' ((Some a, [Node ty u []]) # L)
    \<and> root_node g' = root_node g \<and> error g' = error g"
proof -
  let ?g = "MinisqlParserMovePos w g"
  have "holds ?g L" using assms(3) by simp
  from create_holds [OF this assms(2)] obtain a g' where
    "CreateSyntaxNode ty (Some w) ?g = Some (a, g')" "same_globals ?g g'" "holds g' ((Some a, [Node ty u []]) # L)"
    by blast
  with assms(1) show ?thesis by (simp add: lex_action_def same_globals_def)
qed

lemma operator_action:
  assumes "42 \<le> r" "r \<le> 53"
  shows "\<exists>k a. operator_token r = Some k \<and> 0 < k \<and> YYTRANSLATE k = Some a \<and> lex_token (r, w) = Some (a, []) \<and> \<not> valued a
    \<and> lex_action r w y g = Some (Some k, y, MinisqlParserMovePos w g)"
proof -
  have "r = 42 \<or> r = 43 \<or> r = 44 \<or> r = 45 \<or> r = 46 \<or> r = 47 \<or> r = 48 \<or> r = 49 \<or> r = 50 \<or> r = 51 \<or> r = 52 \<or> r = 53"
    using assms by presburger
  then show ?thesis
    by (elim disjE)
      (simp_all add: operator_token_def lex_action_def value_token_def translate_word translate_char valued_def)
qed

lemma token_action:
  assumes "proper (r, w)" "lex_token (r, w) = Some (a, v)" "holds g L"
  shows "\<exists>k y' g'. lex_action r w y g = Some (Some k, y', g') \<and> 0 < k \<and> YYTRANSLATE k = Some a
    \<and> holds g' ((if valued a then [(y', v)] else []) @ L) \<and> root_node g' = root_node g \<and> error g' = error g"
proof -
  have r: "1 \<le> r" "r \<le> 53" using assms(1,2) by (auto simp: proper_def split: if_splits)
  consider (val) "r = 1 \<or> r = 39 \<or> r = 40 \<or> r = 41" | (key) "2 \<le> r" "r \<le> 38" | (op) "42 \<le> r" "r \<le> 53"
    using r by linarith
  then show ?thesis
  proof cases
    case val
    then obtain ty k u where t: "value_token r = Some (ty, k)" "copy_val ty (Some w) = Some u" "v = [Node ty u []]"
      "0 < k" "YYTRANSLATE k = Some a" "valued a"
      using assms(1,2) by (auto simp: value_token_def copy_val_def proper_def translate_word valued_def)
    with value_action [OF t(1,2) assms(3), of y] show ?thesis by auto
  next
    case key
    then have "lex_token (r, w) = Some (int r + 1, [])" by simp
    then have "a = int r + 1" "\<not> valued a" using assms(2) key by (auto simp: valued_def)
    with keyword_action [OF key, of w y g] key assms(3) show ?thesis by (simp add: translate_word)
  next
    case op
    with operator_action [OF op, of w y g] assms(2,3) show ?thesis by auto
  qed
qed

lemma silent_action:
  assumes "proper (r, w)" "lex_token (r, w) = None" "holds g L"
  shows "\<exists>g'. lex_action r w y g = Some (None, y, g') \<and> holds g' L \<and> root_node g' = root_node g
    \<and> error g' = (error g \<or> r = 55)"
proof -
  have "r = 54 \<or> r = 55" using assms(1,2) by (auto simp: proper_def split: if_splits) presburger+
  then show ?thesis using assms(1,3)
    by (elim disjE) (auto simp: lex_action_def value_token_def unrecognized_message_def proper_def
        MinisqlParserSetError_def holds_def wf_nodes_def)
qed

text \<open>The token that a call returns for the lexemes \<open>ls\<close>, and how it treats the error flag.\<close>

definition returned :: "(nat \<times> string) list \<Rightarrow> (nat option \<times> ast list) list \<Rightarrow> int \<Rightarrow> (nat \<times> string) list
    \<Rightarrow> nat option \<Rightarrow> parser_state \<Rightarrow> bool" where
  "returned ls L k ls' y g = (case tokens ls of [] \<Rightarrow> k = 0 \<and> ls' = [] \<and> holds g L
     | (a, v) # w \<Rightarrow> 0 < k \<and> YYTRANSLATE k = Some a \<and> tokens ls' = w \<and> holds g ((if valued a then [(y, v)] else []) @ L))"

definition flags :: "(nat \<times> string) list \<Rightarrow> (nat \<times> string) list \<Rightarrow> parser_state \<Rightarrow> parser_state \<Rightarrow> bool" where
  "flags ls ls' g g' \<longleftrightarrow> root_node g' = root_node g \<and> (recognised ls \<longrightarrow> recognised ls' \<and> error g' = error g)
     \<and> (\<not> recognised ls \<longrightarrow> \<not> recognised ls' \<or> error g') \<and> (error g \<longrightarrow> error g')"

lemma lex_run_tokens:
  assumes "list_all proper ls" "holds g L"
  shows "\<exists>k ls' y' g'. lex_run ls y g = Some (k, ls', y', g') \<and> returned ls L k ls' y' g' \<and> flags ls ls' g g'"
  using assms
proof (induction ls arbitrary: y g)
  case Nil
  then show ?case by (simp add: recognised_def returned_def flags_def)
next
  case (Cons l ls)
  obtain r w where l: "l = (r, w)" by (cases l)
  have pr: "proper (r, w)" "list_all proper ls" using Cons.prems(1) l by simp_all
  show ?case
  proof (cases "lex_token (r, w)")
    case None
    obtain g1 where g1: "lex_action r w y g = Some (None, y, g1)" "holds g1 L" "root_node g1 = root_node g"
      "error g1 = (error g \<or> r = 55)" using silent_action [OF pr(1) None Cons.prems(2)] by blast
    from Cons.IH [OF pr(2) g1(2), of y] obtain k ls' y' g' where
      IH: "lex_run ls y g1 = Some (k, ls', y', g')" "returned ls L k ls' y' g'" "flags ls ls' g1 g'" by blast
    have "returned (l # ls) L k ls' y' g'" using IH(2) l None by (simp only: returned_def tokens.simps option.case)
    moreover have "flags (l # ls) ls' g g'" using IH(3) g1(3,4) l by (auto simp: flags_def recognised_def)
    ultimately show ?thesis using IH(1) g1(1) l by simp
  next
    case (Some t)
    obtain a v where t: "t = (a, v)" by (cases t)
    obtain k y' g' where k: "lex_action r w y g = Some (Some k, y', g')" "0 < k" "YYTRANSLATE k = Some a"
      "holds g' ((if valued a then [(y', v)] else []) @ L)" "root_node g' = root_node g" "error g' = error g"
      using token_action [OF pr(1) Some [unfolded t] Cons.prems(2), of y] by blast
    have "returned (l # ls) L k ls y' g'" using k(2-4) l Some t by (simp add: returned_def del: lex_token.simps)
    moreover have "flags (l # ls) ls g g'" using k(5,6) l Some by (auto simp: flags_def recognised_def)
    ultimately show ?thesis using k(1) l by simp
  qed
qed

definition scans :: "nat \<Rightarrow> string \<Rightarrow> lex_state \<Rightarrow> bool \<Rightarrow> token list \<Rightarrow> bool" where
  "scans b txt lx c w \<longleftrightarrow> (\<exists>p. reading b txt p lx \<and> CHR 0x00 \<notin> set txt
     \<and> c = recognised (lexemes (drop p txt)) \<and> w = tokens (lexemes (drop p txt)))"

lemma lex_token_ok: "proper l \<Longrightarrow> lex_token l = Some (a, v) \<Longrightarrow> 1 \<le> a \<and> a < 54 \<and> (valued a \<longrightarrow> length v = 1)"
  by (cases l) (auto simp: proper_def valued_def split: if_splits)

lemma tokens_ok: "list_all proper ls \<Longrightarrow> well_lexed (tokens ls)"
proof (induction ls)
  case (Cons l ls)
  then show ?case using lex_token_ok [of l] by (auto simp: well_lexed_def split: option.splits)
qed (simp add: well_lexed_def)

interpretation sql: token_source yylex "scans b txt" for b "txt"
proof
  show "well_lexed w" if "scans b txt l c w" for l c w
    using that tokens_ok lexemes_proper by (auto simp: scans_def)
next
  fix l c a v w g L y
  assume l: "scans b txt l c ((a, v) # w)" and h: "holds g L"
  then obtain p where p: "reading b txt p l" "CHR 0x00 \<notin> set txt" "c = recognised (lexemes (drop p txt))"
    "tokens (lexemes (drop p txt)) = (a, v) # w" by (auto simp: scans_def)
  from yylex_run [OF p(1,2), of y g] lex_run_tokens [OF lexemes_proper h, of "drop p txt" y]
  obtain k p' l' y' g' where y: "yylex l y g = Some (k, l', y', g')" "reading b txt p' l'"
    "returned (lexemes (drop p txt)) L k (lexemes (drop p' txt)) y' g'"
    "flags (lexemes (drop p txt)) (lexemes (drop p' txt)) g g'" by auto
  then show "\<exists>k l' y' g' c'. yylex l y g = Some (k, l', y', g') \<and> 0 < k \<and> YYTRANSLATE k = Some a \<and> scans b txt l' c' w
        \<and> holds g' ((if valued a then [(y', v)] else []) @ L) \<and> root_node g' = root_node g
        \<and> (c \<longrightarrow> c' \<and> error g' = error g) \<and> (\<not> c \<longrightarrow> \<not> c' \<or> error g') \<and> (error g \<longrightarrow> error g')"
    using p(2-4) unfolding scans_def returned_def flags_def by auto
next
  fix l c g L y
  assume l: "scans b txt l c []" and h: "holds g L"
  then obtain p where p: "reading b txt p l" "CHR 0x00 \<notin> set txt" "c = recognised (lexemes (drop p txt))"
    "tokens (lexemes (drop p txt)) = []" by (auto simp: scans_def)
  from yylex_run [OF p(1,2), of y g] lex_run_tokens [OF lexemes_proper h, of "drop p txt" y]
  obtain k p' l' y' g' where y: "yylex l y g = Some (k, l', y', g')" "reading b txt p' l'"
    "returned (lexemes (drop p txt)) L k (lexemes (drop p' txt)) y' g'"
    "flags (lexemes (drop p txt)) (lexemes (drop p' txt)) g g'" by auto
  then have "k = 0" "lexemes (drop p' txt) = []" using p(4) by (auto simp: returned_def)
  with y show "\<exists>l' y' g'. yylex l y g = Some (0, l', y', g') \<and> scans b txt l' True [] \<and> holds g' L \<and> root_node g' = root_node g
        \<and> (c \<longrightarrow> error g' = error g) \<and> (\<not> c \<longrightarrow> error g') \<and> (error g \<longrightarrow> error g')"
    using p(2-4) unfolding scans_def returned_def flags_def by (auto simp: recognised_def)
qed

section \<open>One command\<close>

lemma reading_current:
  assumes "reading b txt p lx"
  shows "YY_CURRENT_BUFFER lx = Some b \<and> buffers lx b \<noteq> None \<and> yy_last_accepting_state lx < 175"
proof -
  obtain lx1 lx2 B where l: "yylex_init lx = Some lx1" "poke p (yy_hold_char lx1) lx1 = Some lx2" "loaded b txt B lx2"
    using assms by (auto simp: reading_def scanning_def)
  have "YY_CURRENT_BUFFER lx2 = YY_CURRENT_BUFFER lx1 \<and> (buffers lx1 b = None \<longrightarrow> buffers lx2 b = None)
      \<and> yy_last_accepting_state lx2 = yy_last_accepting_state lx1"
    using l(2) by (auto simp: poke_def set_cur_buf_def cur_buf_def YY_CURRENT_BUFFER_def split: bind_splits if_splits option.splits)
  moreover have "YY_CURRENT_BUFFER lx1 = YY_CURRENT_BUFFER lx \<and> buffers lx1 = buffers lx
      \<and> yy_last_accepting_state lx1 = yy_last_accepting_state lx"
    using l(1) by (auto simp: yylex_init_def yy_load_buffer_state_def cur_buf_def YY_CURRENT_BUFFER_def Let_def
        split: bind_splits if_splits option.splits)
  ultimately show ?thesis using l(3) by (auto simp: loaded_def)
qed

lemma tokens_length: "length (tokens ls) \<le> length ls"
  by (induction ls) (auto split: option.splits)

lemma lexemes_length: "length (lexemes s) \<le> length s"
proof (induction s rule: lexemes.induct)
  case (1 s)
  show ?case
  proof (cases "s = []")
    case False
    obtain r n where l: "lexeme s = (r, n)" by fastforce
    have "0 < n" by (rule lexeme_pos [OF False l])
    moreover have "length (lexemes (drop n s)) \<le> length s - n" using 1 l False by auto
    moreover have "lexemes s = (r, take n s) # lexemes (drop n s)" using l False by (subst lexemes.simps) simp
    moreover have "0 < length s" using False by simp
    ultimately show ?thesis by (simp only: list.size)
  qed (simp add: lexemes.simps)
qed

lemma sql_tokens_length: "length (sql_tokens s) \<le> length s"
  using tokens_length [of "lexemes s"] lexemes_length [of s] by (simp add: sql_tokens_def)

lemma Init_sel: "wf_nodes (MinisqlParserInit g) = wf_nodes g" "\<not> error (MinisqlParserInit g)"
  by (simp_all add: MinisqlParserInit_def wf_nodes_def)

lemma parse_command_run:
  assumes "idle lx" "CHR 0x00 \<notin> set cmd" "wf_nodes g"
  shows "\<exists>b res lx' y' g'. parse_command cmd lx y g = Some (b, res, lx', y', g') \<and> wf_nodes g'
    \<and> (\<exists>p. reading b cmd p lx') \<and> verdict (sql_tokens cmd) (\<not> sql_clean cmd) res g'"
proof -
  let ?b = "next_buffer lx"
  let ?lx = "scanned (Some ?b # replicate 8 None) cmd lx"
  have "scans ?b cmd ?lx (sql_clean cmd) (sql_tokens cmd)"
    unfolding scans_def sql_clean_def sql_tokens_def using scanned_reading [OF assms(1)] assms(2)
    by (intro exI [of _ 0]) simp
  moreover have "holds (MinisqlParserInit g) []" using assms(3) by (simp add: holds_Nil Init_sel)
  moreover have "parse_command cmd lx y g = do {
      (res, lx, y, g) \<leftarrow> yyparse yylex ?lx y (MinisqlParserInit g); Some (?b, res, lx, y, g) }"
    by (simp add: parse_command_def scan_string_scanned [OF assms(1)] switch_scanned)
  ultimately show ?thesis
    using sql.parse_correct [of ?b cmd ?lx "sql_clean cmd" "sql_tokens cmd" "MinisqlParserInit g" y] Init_sel(2) [of g]
    by (auto simp: scans_def)
qed

lemma destroy_idle:
  assumes "reading b txt p lx"
  shows "\<exists>lx1 lx2. yy_delete_buffer (Some b) lx = Some lx1 \<and> yylex_destroy lx1 = Some lx2 \<and> idle lx2"
proof -
  note c = reading_current [OF assms]
  obtain st where st: "yy_buffer_stack lx = Some st" "yy_buffer_stack_top lx < length st"
    using c by (auto simp: YY_CURRENT_BUFFER_def split: option.splits if_splits)
  let ?lx = "lx\<lparr>yy_buffer_stack := Some (st[yy_buffer_stack_top lx := None]), buffers := (buffers lx)(b := None)\<rparr>"
  have "yy_delete_buffer (Some b) lx = Some ?lx" using c st by (auto simp: yy_delete_buffer_def set_current_def)
  moreover have "YY_CURRENT_BUFFER ?lx = None" using st by (simp add: YY_CURRENT_BUFFER_def)
  then have "destroy_buffers ?lx = Some ?lx" by (subst destroy_buffers.simps) simp
  then have "\<exists>lx2. yylex_destroy ?lx = Some lx2 \<and> idle lx2"
    using c by (simp add: yylex_destroy_def yy_init_globals_def idle_def)
  ultimately show ?thesis by blast
qed

lemma clean_command_run:
  assumes "reading b txt p lx" "wf_nodes g"
  shows "\<exists>lx' g'. clean_command b lx g = Some (lx', g') \<and> idle lx' \<and> wf_nodes g' \<and> store g' = Map.empty"
  using destroy_idle [OF assms(1)] finish_clears [OF assms(2)] by (auto simp: clean_command_def)

end
