(* ===== verification/Grammar_Rules.thy ===== *)
theory Grammar_Rules
  imports LR_Tables
begin

text \<open>
  The grammar rule by rule: what each rule of \<open>parser/minisql_yacc.c\<close> derives and with which trees, as
  introduction rules. Rules 3 to 21 let every kind of statement be a statement.
\<close>

lemma rhs_eval:
  "rhs 2 = [56, 47]" "rhs 3 = [57]" "rhs 4 = [58]" "rhs 5 = [59]" "rhs 6 = [60]" "rhs 7 = [61]"
  "rhs 8 = [62]" "rhs 9 = [67]" "rhs 10 = [68]" "rhs 11 = [69]" "rhs 12 = [70]" "rhs 13 = [71]"
  "rhs 14 = [78]" "rhs 15 = [80]" "rhs 16 = [81]" "rhs 17 = [84]" "rhs 18 = [85]" "rhs 19 = [86]"
  "rhs 20 = [87]" "rhs 21 = [88]" "rhs 22 = [3, 17, 40]" "rhs 23 = [4, 17, 40]" "rhs 24 = [14, 18]"
  "rhs 25 = [15, 40]" "rhs 26 = [14, 20]" "rhs 27 = [3, 19, 40, 48, 64, 49]" "rhs 28 = [40, 50, 63]"
  "rhs 29 = [40]" "rhs 30 = [65, 50, 64]" "rhs 31 = [65]" "rhs 32 = [29, 30, 48, 63, 49]"
  "rhs 33 = [40, 66, 31]" "rhs 34 = [40, 66]" "rhs 35 = [33]" "rhs 36 = [34]" "rhs 37 = [32, 48, 42, 49]"
  "rhs 38 = [4, 19, 40]" "rhs 39 = [3, 21, 40, 23, 40, 48, 63, 49]"
  "rhs 40 = [3, 21, 40, 23, 40, 48, 63, 49, 16, 40]" "rhs 41 = [4, 21, 40]" "rhs 42 = [14, 22]"
  "rhs 43 = [5, 72, 24, 40]" "rhs 44 = [5, 72, 24, 40, 25, 73]" "rhs 45 = [51]" "rhs 46 = [63]"
  "rhs 47 = [73, 74, 75]" "rhs 48 = [75]" "rhs 49 = [35]" "rhs 50 = [36]" "rhs 51 = [40, 77, 76]"
  "rhs 52 = [41]" "rhs 53 = [42]" "rhs 54 = [39]" "rhs 55 = [43]" "rhs 56 = [44]" "rhs 57 = [45]"
  "rhs 58 = [46]" "rhs 59 = [52]" "rhs 60 = [53]" "rhs 61 = [38]" "rhs 62 = [37]"
  "rhs 63 = [6, 26, 40, 28, 48, 79, 49]" "rhs 64 = [76, 50, 79]" "rhs 65 = [76]" "rhs 66 = [7, 24, 40]"
  "rhs 67 = [7, 24, 40, 25, 73]" "rhs 68 = [8, 40, 27, 82]" "rhs 69 = [8, 40, 27, 82, 25, 73]"
  "rhs 70 = [83, 50, 82]" "rhs 71 = [83]" "rhs 72 = [40, 43, 76]" "rhs 73 = [9]" "rhs 74 = [10]"
  "rhs 75 = [11]" "rhs 76 = [12]" "rhs 77 = [13, 41]"
  by (simp_all add: rhs_def lr_nth cong: nth_weak_cong)

lemma lhs_eval:
  "lhs 2 = 55" "lhs 3 = 56" "lhs 4 = 56" "lhs 5 = 56" "lhs 6 = 56" "lhs 7 = 56" "lhs 8 = 56" "lhs 9 = 56"
  "lhs 10 = 56" "lhs 11 = 56" "lhs 12 = 56" "lhs 13 = 56" "lhs 14 = 56" "lhs 15 = 56" "lhs 16 = 56"
  "lhs 17 = 56" "lhs 18 = 56" "lhs 19 = 56" "lhs 20 = 56" "lhs 21 = 56" "lhs 22 = 57" "lhs 23 = 58"
  "lhs 24 = 59" "lhs 25 = 60" "lhs 26 = 61" "lhs 27 = 62" "lhs 28 = 63" "lhs 29 = 63" "lhs 30 = 64"
  "lhs 31 = 64" "lhs 32 = 64" "lhs 33 = 65" "lhs 34 = 65" "lhs 35 = 66" "lhs 36 = 66" "lhs 37 = 66"
  "lhs 38 = 67" "lhs 39 = 68" "lhs 40 = 68" "lhs 41 = 69" "lhs 42 = 70" "lhs 43 = 71" "lhs 44 = 71"
  "lhs 45 = 72" "lhs 46 = 72" "lhs 47 = 73" "lhs 48 = 73" "lhs 49 = 74" "lhs 50 = 74" "lhs 51 = 75"
  "lhs 52 = 76" "lhs 53 = 76" "lhs 54 = 76" "lhs 55 = 77" "lhs 56 = 77" "lhs 57 = 77" "lhs 58 = 77"
  "lhs 59 = 77" "lhs 60 = 77" "lhs 61 = 77" "lhs 62 = 77" "lhs 63 = 78" "lhs 64 = 79" "lhs 65 = 79"
  "lhs 66 = 80" "lhs 67 = 80" "lhs 68 = 81" "lhs 69 = 81" "lhs 70 = 82" "lhs 71 = 82" "lhs 72 = 83"
  "lhs 73 = 84" "lhs 74 = 85" "lhs 75 = 86" "lhs 76 = 87" "lhs 77 = 88"
  by (simp_all add: lhs_def lr_nth cong: nth_weak_cong)

lemma seq_tok: "0 \<le> a \<Longrightarrow> a < 54 \<Longrightarrow> derives_all Xs w vs \<Longrightarrow> derives_all (a # Xs) ((a, v) # w) (v # vs)"
  using der_cons [OF der_tok] by fastforce

lemma seq_last: "derives X w v \<Longrightarrow> derives_all [X] w [v]"
  by (rule derives_all_single)

lemmas rule_eval = rhs_eval lhs_eval sem_def
lemmas seq_intros = seq_tok seq_last der_cons der_nil der_tok

lemma derives_by:
  "rhs r = Xs \<Longrightarrow> lhs r = X \<Longrightarrow> derives_all Xs w vs \<Longrightarrow> sem r vs = v \<Longrightarrow> 2 \<le> r \<Longrightarrow> r < 78 \<Longrightarrow> derives X w v"
  using der_rule by blast

section \<open>Statements\<close>

lemma rule_2: "derives 56 aa a \<Longrightarrow> derives 55 (aa @ [(47, b)]) a"
  by (rule derives_by [of 2 _ _ _ "[a, b]"]) (auto simp: rule_eval intro!: seq_intros)

lemma rule_22: "derives 57 [(3, a), (17, b), (40, c)] [Node kNodeCreateDB None c]"
  by (rule derives_by [of 22 _ _ _ "[a, b, c]"]) (auto simp: rule_eval intro!: seq_intros)

lemma rule_23: "derives 58 [(4, a), (17, b), (40, c)] [Node kNodeDropDB None c]"
  by (rule derives_by [of 23 _ _ _ "[a, b, c]"]) (auto simp: rule_eval intro!: seq_intros)

lemma rule_24: "derives 59 [(14, a), (18, b)] [Node kNodeShowDB None []]"
  by (rule derives_by [of 24 _ _ _ "[a, b]"]) (auto simp: rule_eval intro!: seq_intros)

lemma rule_25: "derives 60 [(15, a), (40, b)] [Node kNodeUseDB None b]"
  by (rule derives_by [of 25 _ _ _ "[a, b]"]) (auto simp: rule_eval intro!: seq_intros)

lemma rule_26: "derives 61 [(14, a), (20, b)] [Node kNodeShowTables None []]"
  by (rule derives_by [of 26 _ _ _ "[a, b]"]) (auto simp: rule_eval intro!: seq_intros)

lemma rule_27:
  "derives 64 ee e \<Longrightarrow> derives 62 ((3, a) # (19, b) # (40, c) #
    (48, d) # ee @ [(49, f)]) [Node kNodeCreateTable None (c @ [Node kNodeColumnDefinitionList None e])]"
  by (rule derives_by [of 27 _ _ _ "[a, b, c, d, e, f]"]) (auto simp: rule_eval intro!: seq_intros)

section \<open>Lists of columns and column definitions\<close>

lemma rule_28: "derives 63 cc c \<Longrightarrow> derives 63 ((40, a) # (50, b) # cc) (a @ c)"
  by (rule derives_by [of 28 _ _ _ "[a, b, c]"]) (auto simp: rule_eval intro!: seq_intros)

lemma rule_29: "derives 63 [(40, a)] a"
  by (rule derives_by [of 29 _ _ _ "[a]"]) (auto simp: rule_eval intro!: seq_intros)

lemma rule_30:
  "derives 65 aa a \<Longrightarrow> derives 64 cc c \<Longrightarrow> derives 64 (aa @ (50, b) # cc)
    (a @ c)"
  by (rule derives_by [of 30 _ _ _ "[a, b, c]"]) (auto simp: rule_eval intro!: seq_intros)

lemma rule_31: "derives 65 aa a \<Longrightarrow> derives 64 aa a"
  by (rule derives_by [of 31 _ _ _ "[a]"]) (auto simp: rule_eval intro!: seq_intros)

lemma rule_32:
  "derives 63 dd d \<Longrightarrow> derives 64 ((29, a) # (30, b) # (48, c) # dd @ [(49, e)])
    [Node kNodeColumnList (Some ''primary keys'') d]"
  by (rule derives_by [of 32 _ _ _ "[a, b, c, d, e]"]) (auto simp: rule_eval intro!: seq_intros)

lemma rule_33:
  "derives 66 bb b \<Longrightarrow> derives 65 ((40, a) # bb @ [(31, c)])
    [Node kNodeColumnDefinition (Some ''unique'') (a @ b)]"
  by (rule derives_by [of 33 _ _ _ "[a, b, c]"]) (auto simp: rule_eval intro!: seq_intros)

lemma rule_34:
  "derives 66 bb b \<Longrightarrow> derives 65 ((40, a) # bb) [Node kNodeColumnDefinition None (a @ b)]"
  by (rule derives_by [of 34 _ _ _ "[a, b]"]) (auto simp: rule_eval intro!: seq_intros)

lemma rule_35: "derives 66 [(33, a)] [Node kNodeColumnType (Some ''int'') []]"
  by (rule derives_by [of 35 _ _ _ "[a]"]) (auto simp: rule_eval intro!: seq_intros)

lemma rule_36: "derives 66 [(34, a)] [Node kNodeColumnType (Some ''float'') []]"
  by (rule derives_by [of 36 _ _ _ "[a]"]) (auto simp: rule_eval intro!: seq_intros)

lemma rule_37: "derives 66 [(32, a), (48, b), (42, c), (49, d)] [Node kNodeColumnType (Some ''char'') c]"
  by (rule derives_by [of 37 _ _ _ "[a, b, c, d]"]) (auto simp: rule_eval intro!: seq_intros)

section \<open>Tables, indexes and queries\<close>

lemma rule_38: "derives 67 [(4, a), (19, b), (40, c)] [Node kNodeDropTable None c]"
  by (rule derives_by [of 38 _ _ _ "[a, b, c]"]) (auto simp: rule_eval intro!: seq_intros)

lemma rule_39:
  "derives 63 gg g \<Longrightarrow> derives 68 ((3, a) # (21, b) # (40, c) # (23, d) # (40, e) #
    (48, f) # gg @ [(49, h)]) [Node kNodeCreateIndex None (c @ e @
    [Node kNodeColumnList (Some ''index keys'') g])]"
  by (rule derives_by [of 39 _ _ _ "[a, b, c, d, e, f, g, h]"]) (auto simp: rule_eval intro!: seq_intros)

lemma rule_40:
  "derives 63 gg g \<Longrightarrow> derives 68 ((3, a) # (21, b) # (40, c) # (23, d) # (40, e) #
    (48, f) # gg @ [(49, h), (16, i), (40, j)]) [Node kNodeCreateIndex None (c @ e @
    [Node kNodeColumnList (Some ''index keys'') g] @ [Node kNodeIndexType (Some ''index type'') j])]"
  by (rule derives_by [of 40 _ _ _ "[a, b, c, d, e, f, g, h, i, j]"]) (auto simp: rule_eval intro!: seq_intros)

lemma rule_41: "derives 69 [(4, a), (21, b), (40, c)] [Node kNodeDropIndex None c]"
  by (rule derives_by [of 41 _ _ _ "[a, b, c]"]) (auto simp: rule_eval intro!: seq_intros)

lemma rule_42: "derives 70 [(14, a), (22, b)] [Node kNodeShowIndexes None []]"
  by (rule derives_by [of 42 _ _ _ "[a, b]"]) (auto simp: rule_eval intro!: seq_intros)

lemma rule_43:
  "derives 72 bb b \<Longrightarrow> derives 71 ((5, a) # bb @ [(24, c), (40, d)])
    [Node kNodeSelect None (b @ d)]"
  by (rule derives_by [of 43 _ _ _ "[a, b, c, d]"]) (auto simp: rule_eval intro!: seq_intros)

lemma rule_44:
  "derives 72 bb b \<Longrightarrow> derives 73 ff f \<Longrightarrow> derives 71 ((5, a) # bb @
    (24, c) # (40, d) # (25, e) # ff) [Node kNodeSelect None (b @ d @ [Node kNodeConditions None f])]"
  by (rule derives_by [of 44 _ _ _ "[a, b, c, d, e, f]"]) (auto simp: rule_eval intro!: seq_intros)

section \<open>Columns of a query, conditions and values\<close>

lemma rule_45: "derives 72 [(51, a)] [Node kNodeAllColumns None []]"
  by (rule derives_by [of 45 _ _ _ "[a]"]) (auto simp: rule_eval intro!: seq_intros)

lemma rule_46:
  "derives 63 aa a \<Longrightarrow> derives 72 aa [Node kNodeColumnList (Some ''select columns'') a]"
  by (rule derives_by [of 46 _ _ _ "[a]"]) (auto simp: rule_eval intro!: seq_intros)

lemma rule_47:
  "derives 73 aa a \<Longrightarrow> derives 74 bb b
    \<Longrightarrow> derives 75 cc c \<Longrightarrow> derives 73 (aa @ bb @ cc) (add_below b (a @ c))"
  by (rule derives_by [of 47 _ _ _ "[a, b, c]"]) (auto simp: rule_eval intro!: seq_intros)

lemma rule_48: "derives 75 aa a \<Longrightarrow> derives 73 aa a"
  by (rule derives_by [of 48 _ _ _ "[a]"]) (auto simp: rule_eval intro!: seq_intros)

lemma rule_49: "derives 74 [(35, a)] [Node kNodeConnector (Some ''and'') []]"
  by (rule derives_by [of 49 _ _ _ "[a]"]) (auto simp: rule_eval intro!: seq_intros)

lemma rule_50: "derives 74 [(36, a)] [Node kNodeConnector (Some ''or'') []]"
  by (rule derives_by [of 50 _ _ _ "[a]"]) (auto simp: rule_eval intro!: seq_intros)

lemma rule_51:
  "derives 77 bb b \<Longrightarrow> derives 76 cc c \<Longrightarrow> derives 75 ((40, a) # bb @ cc)
    (add_below b (a @ c))"
  by (rule derives_by [of 51 _ _ _ "[a, b, c]"]) (auto simp: rule_eval intro!: seq_intros)

lemma rule_52: "derives 76 [(41, a)] a"
  by (rule derives_by [of 52 _ _ _ "[a]"]) (auto simp: rule_eval intro!: seq_intros)

lemma rule_53: "derives 76 [(42, a)] a"
  by (rule derives_by [of 53 _ _ _ "[a]"]) (auto simp: rule_eval intro!: seq_intros)

lemma rule_54: "derives 76 [(39, a)] [Node kNodeNull None []]"
  by (rule derives_by [of 54 _ _ _ "[a]"]) (auto simp: rule_eval intro!: seq_intros)

lemma rule_55: "derives 77 [(43, a)] [Node kNodeCompareOperator (Some ''='') []]"
  by (rule derives_by [of 55 _ _ _ "[a]"]) (auto simp: rule_eval intro!: seq_intros)

lemma rule_56: "derives 77 [(44, a)] [Node kNodeCompareOperator (Some ''<>'') []]"
  by (rule derives_by [of 56 _ _ _ "[a]"]) (auto simp: rule_eval intro!: seq_intros)

lemma rule_57: "derives 77 [(45, a)] [Node kNodeCompareOperator (Some ''<='') []]"
  by (rule derives_by [of 57 _ _ _ "[a]"]) (auto simp: rule_eval intro!: seq_intros)

lemma rule_58: "derives 77 [(46, a)] [Node kNodeCompareOperator (Some ''>='') []]"
  by (rule derives_by [of 58 _ _ _ "[a]"]) (auto simp: rule_eval intro!: seq_intros)

lemma rule_59: "derives 77 [(52, a)] [Node kNodeCompareOperator (Some ''<'') []]"
  by (rule derives_by [of 59 _ _ _ "[a]"]) (auto simp: rule_eval intro!: seq_intros)

lemma rule_60: "derives 77 [(53, a)] [Node kNodeCompareOperator (Some ''>'') []]"
  by (rule derives_by [of 60 _ _ _ "[a]"]) (auto simp: rule_eval intro!: seq_intros)

lemma rule_61: "derives 77 [(38, a)] [Node kNodeCompareOperator (Some ''is'') []]"
  by (rule derives_by [of 61 _ _ _ "[a]"]) (auto simp: rule_eval intro!: seq_intros)

lemma rule_62: "derives 77 [(37, a)] [Node kNodeCompareOperator (Some ''not'') []]"
  by (rule derives_by [of 62 _ _ _ "[a]"]) (auto simp: rule_eval intro!: seq_intros)

section \<open>Changes of a table\<close>

lemma rule_63:
  "derives 79 ff f \<Longrightarrow> derives 78 ((6, a) # (26, b) # (40, c) # (28, d) #
    (48, e) # ff @ [(49, g)]) [Node kNodeInsert None (c @ [Node kNodeColumnValues None f])]"
  by (rule derives_by [of 63 _ _ _ "[a, b, c, d, e, f, g]"]) (auto simp: rule_eval intro!: seq_intros)

lemma rule_64:
  "derives 76 aa a \<Longrightarrow> derives 79 cc c \<Longrightarrow> derives 79 (aa @ (50, b) # cc)
    (a @ c)"
  by (rule derives_by [of 64 _ _ _ "[a, b, c]"]) (auto simp: rule_eval intro!: seq_intros)

lemma rule_65: "derives 76 aa a \<Longrightarrow> derives 79 aa a"
  by (rule derives_by [of 65 _ _ _ "[a]"]) (auto simp: rule_eval intro!: seq_intros)

lemma rule_66: "derives 80 [(7, a), (24, b), (40, c)] [Node kNodeDelete None c]"
  by (rule derives_by [of 66 _ _ _ "[a, b, c]"]) (auto simp: rule_eval intro!: seq_intros)

lemma rule_67:
  "derives 73 ee e \<Longrightarrow> derives 80 ((7, a) # (24, b) # (40, c) # (25, d) # ee)
    [Node kNodeDelete None (c @ [Node kNodeConditions None e])]"
  by (rule derives_by [of 67 _ _ _ "[a, b, c, d, e]"]) (auto simp: rule_eval intro!: seq_intros)

lemma rule_68:
  "derives 82 dd d \<Longrightarrow> derives 81 ((8, a) # (40, b) # (27, c) # dd)
    [Node kNodeUpdate None (b @ [Node kNodeUpdateValues None d])]"
  by (rule derives_by [of 68 _ _ _ "[a, b, c, d]"]) (auto simp: rule_eval intro!: seq_intros)

lemma rule_69:
  "derives 82 dd d \<Longrightarrow> derives 73 ff f \<Longrightarrow> derives 81 ((8, a) # (40, b) #
    (27, c) # dd @ (25, e) # ff) [Node kNodeUpdate None (b @ [Node kNodeUpdateValues None d] @
    [Node kNodeConditions None f])]"
  by (rule derives_by [of 69 _ _ _ "[a, b, c, d, e, f]"]) (auto simp: rule_eval intro!: seq_intros)

lemma rule_70:
  "derives 83 aa a \<Longrightarrow> derives 82 cc c \<Longrightarrow> derives 82 (aa @ (50, b) # cc)
    (a @ c)"
  by (rule derives_by [of 70 _ _ _ "[a, b, c]"]) (auto simp: rule_eval intro!: seq_intros)

lemma rule_71: "derives 83 aa a \<Longrightarrow> derives 82 aa a"
  by (rule derives_by [of 71 _ _ _ "[a]"]) (auto simp: rule_eval intro!: seq_intros)

lemma rule_72:
  "derives 76 cc c \<Longrightarrow> derives 83 ((40, a) # (43, b) # cc)
    [Node kNodeUpdateValue None (a @ c)]"
  by (rule derives_by [of 72 _ _ _ "[a, b, c]"]) (auto simp: rule_eval intro!: seq_intros)

section \<open>Transactions and the shell\<close>

lemma rule_73: "derives 84 [(9, a)] [Node kNodeTrxBegin None []]"
  by (rule derives_by [of 73 _ _ _ "[a]"]) (auto simp: rule_eval intro!: seq_intros)

lemma rule_74: "derives 85 [(10, a)] [Node kNodeTrxCommit None []]"
  by (rule derives_by [of 74 _ _ _ "[a]"]) (auto simp: rule_eval intro!: seq_intros)

lemma rule_75: "derives 86 [(11, a)] [Node kNodeTrxRollback None []]"
  by (rule derives_by [of 75 _ _ _ "[a]"]) (auto simp: rule_eval intro!: seq_intros)

lemma rule_76: "derives 87 [(12, a)] [Node kNodeQuit None []]"
  by (rule derives_by [of 76 _ _ _ "[a]"]) (auto simp: rule_eval intro!: seq_intros)

lemma rule_77: "derives 88 [(13, a), (41, b)] [Node kNodeExecFile None b]"
  by (rule derives_by [of 77 _ _ _ "[a, b]"]) (auto simp: rule_eval intro!: seq_intros)

lemma rule_unit:
  assumes "3 \<le> r" "r \<le> 21" "rhs r = [X]" "derives X w v"
  shows "derives 56 w v"
proof (rule derives_by)
  have "r = 3 \<or> r = 4 \<or> r = 5 \<or> r = 6 \<or> r = 7 \<or> r = 8 \<or> r = 9 \<or> r = 10 \<or> r = 11 \<or> r = 12 \<or> r = 13
      \<or> r = 14 \<or> r = 15 \<or> r = 16 \<or> r = 17 \<or> r = 18 \<or> r = 19 \<or> r = 20 \<or> r = 21" using assms(1,2) by presburger
  then show "lhs r = 56" by (elim disjE) (simp_all add: lhs_eval)
  show "sem r [v] = v" using assms(1,2) by (simp add: sem_def)
  show "derives_all [X] w [v]" by (rule seq_last [OF assms(4)])
qed (use assms in auto)

end
