(* ===== verification/Sql_Syntax.thy ===== *)
theory Sql_Syntax
  imports Sql_Parser Grammar_Rules
begin

text \<open>
  The statements of MiniSQL as an abstract syntax, their texts and their syntax trees. Every statement
  that is written out is a sentence of the grammar with the expected tree, so scanner and parser read
  it back. The properties of the whole path from the command text to the tree follow.
\<close>

section \<open>Abstract syntax\<close>

datatype column_type = Int_Type | Float_Type | Char_Type string
datatype column_definition = Column string column_type bool
datatype column_value = Null_Value | String_Value string | Number_Value string
datatype operator = Op_eq | Op_ne | Op_le | Op_ge | Op_lt | Op_gt | Op_is | Op_not
datatype condition = Compare string operator column_value
datatype connector = And | Or

text \<open>Conditions associate to the left: the first one, then connectors with further ones.\<close>

type_synonym conditions = "condition \<times> (connector \<times> condition) list"

datatype statement =
    Create_Database string | Drop_Database string | Show_Databases | Use_Database string | Show_Tables
  | Create_Table string "column_definition list" "string list option"
  | Drop_Table string
  | Create_Index string string "string list" "string option"
  | Drop_Index string | Show_Indexes
  | Select "string list option" string "conditions option"
  | Insert string "column_value list"
  | Delete string "conditions option"
  | Update string "(string \<times> column_value) list" "conditions option"
  | Trx_Begin | Trx_Commit | Trx_Rollback | Quit | Exec_File string

section \<open>Texts\<close>

text \<open>A piece of a text: its characters and the token they stand for. Pieces are written with a blank behind.\<close>

type_synonym piece = "string \<times> token"

definition ident :: "string \<Rightarrow> piece" where
  "ident n = (n, 40, [Node kNodeIdentifier (Some n) []])"

definition quoted :: "string \<Rightarrow> piece" where
  "quoted s = (CHR 0x22 # s @ [CHR 0x22], 41, [Node kNodeString (Some s) []])"

definition number :: "string \<Rightarrow> piece" where
  "number n = (n, 42, [Node kNodeNumber (Some n) []])"

definition plain :: "string \<Rightarrow> int \<Rightarrow> piece" where
  "plain w a = (w, a, [])"

abbreviation (input) "LPAREN \<equiv> plain ''('' 48"
abbreviation (input) "RPAREN \<equiv> plain '')'' 49"
abbreviation (input) "COMMA \<equiv> plain '','' 50"

fun separated :: "('a \<Rightarrow> piece list) \<Rightarrow> 'a list \<Rightarrow> piece list" where
  "separated f [] = []"
| "separated f [x] = f x"
| "separated f (x # y # xs) = f x @ COMMA # separated f (y # xs)"

abbreviation (input) names :: "string list \<Rightarrow> piece list" where
  "names \<equiv> separated (\<lambda>n. [ident n])"

fun type_pieces :: "column_type \<Rightarrow> piece list" where
  "type_pieces Int_Type = [plain ''int'' 33]"
| "type_pieces Float_Type = [plain ''float'' 34]"
| "type_pieces (Char_Type n) = [plain ''char'' 32, LPAREN, number n, RPAREN]"

fun column_pieces :: "column_definition \<Rightarrow> piece list" where
  "column_pieces (Column n t u) = ident n # type_pieces t @ (if u then [plain ''unique'' 31] else [])"

fun value_piece :: "column_value \<Rightarrow> piece" where
  "value_piece Null_Value = plain ''null'' 39"
| "value_piece (String_Value s) = quoted s"
| "value_piece (Number_Value n) = number n"

fun op_piece :: "operator \<Rightarrow> piece" where
  "op_piece Op_eq = plain ''='' 43" | "op_piece Op_ne = plain ''<>'' 44" | "op_piece Op_le = plain ''<='' 45"
| "op_piece Op_ge = plain ''>='' 46" | "op_piece Op_lt = plain ''<'' 52" | "op_piece Op_gt = plain ''>'' 53"
| "op_piece Op_is = plain ''is'' 38" | "op_piece Op_not = plain ''not'' 37"

fun condition_pieces :: "condition \<Rightarrow> piece list" where
  "condition_pieces (Compare n op v) = [ident n, op_piece op, value_piece v]"

fun connector_piece :: "connector \<Rightarrow> piece" where
  "connector_piece And = plain ''and'' 35" | "connector_piece Or = plain ''or'' 36"

definition conditions_pieces :: "conditions \<Rightarrow> piece list" where
  "conditions_pieces cs = condition_pieces (fst cs) @ concat (map (\<lambda>(k, c). connector_piece k # condition_pieces c) (snd cs))"

fun where_pieces :: "conditions option \<Rightarrow> piece list" where
  "where_pieces None = []"
| "where_pieces (Some cs) = plain ''where'' 25 # conditions_pieces cs"

fun column_list_pieces :: "column_definition list \<Rightarrow> string list option \<Rightarrow> piece list" where
  "column_list_pieces ds None = separated column_pieces ds"
| "column_list_pieces [] (Some ks) = [plain ''primary'' 29, plain ''key'' 30, LPAREN] @ names ks @ [RPAREN]"
| "column_list_pieces (d # ds) (Some ks) = column_pieces d @ COMMA # column_list_pieces ds (Some ks)"

fun pieces :: "statement \<Rightarrow> piece list" where
  "pieces (Create_Database d) = [plain ''create'' 3, plain ''database'' 17, ident d]"
| "pieces (Drop_Database d) = [plain ''drop'' 4, plain ''database'' 17, ident d]"
| "pieces Show_Databases = [plain ''show'' 14, plain ''databases'' 18]"
| "pieces (Use_Database d) = [plain ''use'' 15, ident d]"
| "pieces Show_Tables = [plain ''show'' 14, plain ''tables'' 20]"
| "pieces (Create_Table t ds ks) = [plain ''create'' 3, plain ''table'' 19, ident t, LPAREN] @ column_list_pieces ds ks @ [RPAREN]"
| "pieces (Drop_Table t) = [plain ''drop'' 4, plain ''table'' 19, ident t]"
| "pieces (Create_Index i t ks u) = [plain ''create'' 3, plain ''index'' 21, ident i, plain ''on'' 23, ident t, LPAREN]
     @ names ks @ [RPAREN] @ (case u of None \<Rightarrow> [] | Some n \<Rightarrow> [plain ''using'' 16, ident n])"
| "pieces (Drop_Index i) = [plain ''drop'' 4, plain ''index'' 21, ident i]"
| "pieces Show_Indexes = [plain ''show'' 14, plain ''indexes'' 22]"
| "pieces (Select cs t w) = plain ''select'' 5 # (case cs of None \<Rightarrow> [plain ''*'' 51] | Some ns \<Rightarrow> names ns)
     @ [plain ''from'' 24, ident t] @ where_pieces w"
| "pieces (Insert t vs) = [plain ''insert'' 6, plain ''into'' 26, ident t, plain ''values'' 28, LPAREN]
     @ separated (\<lambda>v. [value_piece v]) vs @ [RPAREN]"
| "pieces (Delete t w) = [plain ''delete'' 7, plain ''from'' 24, ident t] @ where_pieces w"
| "pieces (Update t us w) = [plain ''update'' 8, ident t, plain ''set'' 27]
     @ separated (\<lambda>(n, v). [ident n, plain ''='' 43, value_piece v]) us @ where_pieces w"
| "pieces Trx_Begin = [plain ''begin'' 9]"
| "pieces Trx_Commit = [plain ''commit'' 10]"
| "pieces Trx_Rollback = [plain ''rollback'' 11]"
| "pieces Quit = [plain ''quit'' 12]"
| "pieces (Exec_File f) = [plain ''execfile'' 13, quoted f]"

definition text_of :: "piece list \<Rightarrow> string" where
  "text_of ps = concat (map (\<lambda>p. fst p @ '' '') ps) @ '';''"

definition sql_text :: "statement \<Rightarrow> string" where
  "sql_text s = text_of (pieces s)"

section \<open>Trees\<close>

abbreviation (input) Ident :: "string \<Rightarrow> ast" where
  "Ident n \<equiv> Node kNodeIdentifier (Some n) []"

fun type_tree :: "column_type \<Rightarrow> ast" where
  "type_tree Int_Type = Node kNodeColumnType (Some ''int'') []"
| "type_tree Float_Type = Node kNodeColumnType (Some ''float'') []"
| "type_tree (Char_Type n) = Node kNodeColumnType (Some ''char'') [Node kNodeNumber (Some n) []]"

fun column_tree :: "column_definition \<Rightarrow> ast" where
  "column_tree (Column n t u) = Node kNodeColumnDefinition (if u then Some ''unique'' else None) [Ident n, type_tree t]"

fun value_tree :: "column_value \<Rightarrow> ast" where
  "value_tree Null_Value = Node kNodeNull None []"
| "value_tree (String_Value s) = Node kNodeString (Some s) []"
| "value_tree (Number_Value n) = Node kNodeNumber (Some n) []"

fun op_name :: "operator \<Rightarrow> string" where
  "op_name Op_eq = ''=''" | "op_name Op_ne = ''<>''" | "op_name Op_le = ''<=''" | "op_name Op_ge = ''>=''"
| "op_name Op_lt = ''<''" | "op_name Op_gt = ''>''" | "op_name Op_is = ''is''" | "op_name Op_not = ''not''"

fun condition_tree :: "condition \<Rightarrow> ast" where
  "condition_tree (Compare n op v) = Node kNodeCompareOperator (Some (op_name op)) [Ident n, value_tree v]"

fun connector_name :: "connector \<Rightarrow> string" where
  "connector_name And = ''and''" | "connector_name Or = ''or''"

definition conditions_tree :: "conditions \<Rightarrow> ast" where
  "conditions_tree cs = foldl (\<lambda>t (k, c). Node kNodeConnector (Some (connector_name k)) [t, condition_tree c])
     (condition_tree (fst cs)) (snd cs)"

fun where_trees :: "conditions option \<Rightarrow> ast list" where
  "where_trees None = []"
| "where_trees (Some cs) = [Node kNodeConditions None [conditions_tree cs]]"

fun key_trees :: "string list option \<Rightarrow> ast list" where
  "key_trees None = []"
| "key_trees (Some ks) = [Node kNodeColumnList (Some ''primary keys'') (map Ident ks)]"

fun tree_of :: "statement \<Rightarrow> ast" where
  "tree_of (Create_Database d) = Node kNodeCreateDB None [Ident d]"
| "tree_of (Drop_Database d) = Node kNodeDropDB None [Ident d]"
| "tree_of Show_Databases = Node kNodeShowDB None []"
| "tree_of (Use_Database d) = Node kNodeUseDB None [Ident d]"
| "tree_of Show_Tables = Node kNodeShowTables None []"
| "tree_of (Create_Table t ds ks) = Node kNodeCreateTable None
     [Ident t, Node kNodeColumnDefinitionList None (map column_tree ds @ key_trees ks)]"
| "tree_of (Drop_Table t) = Node kNodeDropTable None [Ident t]"
| "tree_of (Create_Index i t ks u) = Node kNodeCreateIndex None
     ([Ident i, Ident t, Node kNodeColumnList (Some ''index keys'') (map Ident ks)]
      @ (case u of None \<Rightarrow> [] | Some n \<Rightarrow> [Node kNodeIndexType (Some ''index type'') [Ident n]]))"
| "tree_of (Drop_Index i) = Node kNodeDropIndex None [Ident i]"
| "tree_of Show_Indexes = Node kNodeShowIndexes None []"
| "tree_of (Select cs t w) = Node kNodeSelect None
     ([(case cs of None \<Rightarrow> Node kNodeAllColumns None []
        | Some ns \<Rightarrow> Node kNodeColumnList (Some ''select columns'') (map Ident ns)), Ident t] @ where_trees w)"
| "tree_of (Insert t vs) = Node kNodeInsert None [Ident t, Node kNodeColumnValues None (map value_tree vs)]"
| "tree_of (Delete t w) = Node kNodeDelete None (Ident t # where_trees w)"
| "tree_of (Update t us w) = Node kNodeUpdate None
     ([Ident t, Node kNodeUpdateValues None (map (\<lambda>(n, v). Node kNodeUpdateValue None [Ident n, value_tree v]) us)]
      @ where_trees w)"
| "tree_of Trx_Begin = Node kNodeTrxBegin None []"
| "tree_of Trx_Commit = Node kNodeTrxCommit None []"
| "tree_of Trx_Rollback = Node kNodeTrxRollback None []"
| "tree_of Quit = Node kNodeQuit None []"
| "tree_of (Exec_File f) = Node kNodeExecFile None [Node kNodeString (Some f) []]"

section \<open>Statements are sentences\<close>

abbreviation (input) toks :: "piece list \<Rightarrow> token list" where
  "toks \<equiv> map snd"

lemmas piece_simps = ident_def quoted_def number_def plain_def

lemma value_derives: "derives 76 [snd (value_piece v)] [value_tree v]"
  by (cases v) (auto simp: piece_simps intro: rule_52 rule_53 rule_54)

lemma op_derives: "derives 77 [snd (op_piece op)] [Node kNodeCompareOperator (Some (op_name op)) []]"
  by (cases op) (auto simp: piece_simps intro: rule_55 rule_56 rule_57 rule_58 rule_59 rule_60 rule_61 rule_62)

lemma condition_derives: "derives 75 (toks (condition_pieces c)) [condition_tree c]"
proof (cases c)
  case (Compare n op v)
  then show ?thesis using rule_51 [OF op_derives [of op] value_derives [of v], of "[Ident n]"] by (simp add: ident_def)
qed

lemma connector_derives: "derives 74 [snd (connector_piece k)] [Node kNodeConnector (Some (connector_name k)) []]"
  by (cases k) (auto simp: piece_simps intro: rule_49 rule_50)

lemma conditions_derives: "derives 73 (toks (conditions_pieces (c, kcs))) [conditions_tree (c, kcs)]"
proof (induction kcs rule: rev_induct)
  case Nil
  then show ?case using rule_48 [OF condition_derives [of c]] by (simp add: conditions_pieces_def conditions_tree_def)
next
  case (snoc kc kcs)
  obtain k d where kc: "kc = (k, d)" by (cases kc)
  from rule_47 [OF snoc connector_derives [of k] condition_derives [of d]] show ?case
    by (simp add: conditions_pieces_def conditions_tree_def kc)
qed

lemma names_derive: "ns \<noteq> [] \<Longrightarrow> derives 63 (toks (names ns)) (map Ident ns)"
proof (induction ns rule: induct_list012)
  case (2 n)
  then show ?case using rule_29 [of "[Ident n]"] by (simp add: ident_def)
next
  case (3 n m ns)
  then show ?case using rule_28 [of _ _ "[Ident n]" "[]"] by (simp add: ident_def plain_def)
qed simp

lemma type_derives: "derives 66 (toks (type_pieces t)) [type_tree t]"
  by (cases t) (auto simp: piece_simps intro: rule_35 rule_36 rule_37)

lemma column_derives: "derives 65 (toks (column_pieces d)) [column_tree d]"
proof (cases d)
  case (Column n t u)
  then show ?thesis
    using rule_33 [OF type_derives [of t], of "[Ident n]" "[]"] rule_34 [OF type_derives [of t], of "[Ident n]"]
    by (auto simp: piece_simps)
qed

lemma columns_derive: "ds \<noteq> [] \<Longrightarrow> derives 64 (toks (separated column_pieces ds)) (map column_tree ds)"
proof (induction ds rule: induct_list012)
  case (2 d)
  then show ?case using rule_31 [OF column_derives] by simp
next
  case (3 d e ds)
  then show ?case using rule_30 [OF column_derives [of d], of _ _ "[]"] by (simp add: plain_def)
qed simp

lemma column_list_derives:
  assumes "ds \<noteq> [] \<or> ks \<noteq> None" "ks \<noteq> Some []"
  shows "derives 64 (toks (column_list_pieces ds ks)) (map column_tree ds @ key_trees ks)"
proof (cases ks)
  case None
  then have "ds \<noteq> []" using assms(1) by simp
  then show ?thesis using columns_derive [of ds] None by simp
next
  case (Some ns)
  then have "ns \<noteq> []" using assms(2) by simp
  have "derives 64 (toks (column_list_pieces ds (Some ns))) (map column_tree ds @ key_trees (Some ns))"
  proof (induction ds)
    case Nil
    then show ?case using rule_32 [OF names_derive [OF \<open>ns \<noteq> []\<close>]] by (simp add: plain_def)
  next
    case (Cons d ds)
    then show ?case using rule_30 [OF column_derives [of d] Cons, of "[]"] by (simp add: plain_def)
  qed
  with Some show ?thesis by simp
qed

lemma values_derive: "vs \<noteq> [] \<Longrightarrow> derives 79 (toks (separated (\<lambda>v. [value_piece v]) vs)) (map value_tree vs)"
proof (induction vs rule: induct_list012)
  case (2 v)
  then show ?case using rule_65 [OF value_derives [of v]] by simp
next
  case (3 v u vs)
  then show ?case using rule_64 [OF value_derives [of v], of _ _ "[]"] by (simp add: plain_def)
qed simp

lemma updates_derive:
  "us \<noteq> [] \<Longrightarrow> derives 82 (toks (separated (\<lambda>(n, v). [ident n, plain ''='' 43, value_piece v]) us))
    (map (\<lambda>(n, v). Node kNodeUpdateValue None [Ident n, value_tree v]) us)"
proof (induction us rule: induct_list012)
  case (2 u)
  obtain n v where u: "u = (n, v)" by (cases u)
  then show ?case using rule_71 [OF rule_72 [OF value_derives [of v], of "[Ident n]" "[]"]] by (simp add: ident_def plain_def)
next
  case (3 u u' us)
  obtain n v where u: "u = (n, v)" by (cases u)
  then show ?case using 3 rule_70 [OF rule_72 [OF value_derives [of v], of "[Ident n]" "[]"], of _ _ "[]"]
    by (simp add: ident_def plain_def)
qed simp

section \<open>Valid statements\<close>

definition is_ident :: "string \<Rightarrow> bool" where
  "is_ident n \<longleftrightarrow> n \<noteq> [] \<and> list_all word_char n \<and> \<not> digit_char (hd n) \<and> n \<notin> set keyword_list"

definition digits :: "string \<Rightarrow> bool" where
  "digits n \<longleftrightarrow> n \<noteq> [] \<and> list_all digit_char n"

definition quotable :: "string \<Rightarrow> bool" where
  "quotable s \<longleftrightarrow> list_all (\<lambda>c. c \<noteq> CHR 0x22 \<and> c \<noteq> CHR 0x5C \<and> c \<noteq> CHR 0x00) s"

fun valid_type :: "column_type \<Rightarrow> bool" where
  "valid_type (Char_Type n) = digits n"
| "valid_type _ = True"

fun valid_column :: "column_definition \<Rightarrow> bool" where
  "valid_column (Column n t u) \<longleftrightarrow> is_ident n \<and> valid_type t"

fun valid_value :: "column_value \<Rightarrow> bool" where
  "valid_value Null_Value = True"
| "valid_value (String_Value s) = quotable s"
| "valid_value (Number_Value n) = digits n"

fun valid_condition :: "condition \<Rightarrow> bool" where
  "valid_condition (Compare n op v) \<longleftrightarrow> is_ident n \<and> valid_value v"

definition valid_conditions :: "conditions \<Rightarrow> bool" where
  "valid_conditions cs \<longleftrightarrow> valid_condition (fst cs) \<and> list_all (\<lambda>kc. valid_condition (snd kc)) (snd cs)"

definition valid_where :: "conditions option \<Rightarrow> bool" where
  "valid_where w \<longleftrightarrow> (case w of None \<Rightarrow> True | Some cs \<Rightarrow> valid_conditions cs)"

definition valid_names :: "string list \<Rightarrow> bool" where
  "valid_names ns \<longleftrightarrow> ns \<noteq> [] \<and> list_all is_ident ns"

fun valid_statement :: "statement \<Rightarrow> bool" where
  "valid_statement (Create_Database d) = is_ident d"
| "valid_statement (Drop_Database d) = is_ident d"
| "valid_statement (Use_Database d) = is_ident d"
| "valid_statement (Create_Table t ds ks) \<longleftrightarrow> is_ident t \<and> list_all valid_column ds
     \<and> (case ks of None \<Rightarrow> ds \<noteq> [] | Some ns \<Rightarrow> valid_names ns)"
| "valid_statement (Drop_Table t) = is_ident t"
| "valid_statement (Create_Index i t ks u) \<longleftrightarrow> is_ident i \<and> is_ident t \<and> valid_names ks
     \<and> (case u of None \<Rightarrow> True | Some n \<Rightarrow> is_ident n)"
| "valid_statement (Drop_Index i) = is_ident i"
| "valid_statement (Select cs t w) \<longleftrightarrow> (case cs of None \<Rightarrow> True | Some ns \<Rightarrow> valid_names ns) \<and> is_ident t \<and> valid_where w"
| "valid_statement (Insert t vs) \<longleftrightarrow> is_ident t \<and> vs \<noteq> [] \<and> list_all valid_value vs"
| "valid_statement (Delete t w) \<longleftrightarrow> is_ident t \<and> valid_where w"
| "valid_statement (Update t us w) \<longleftrightarrow> is_ident t \<and> us \<noteq> [] \<and> list_all (\<lambda>u. is_ident (fst u) \<and> valid_value (snd u)) us
     \<and> valid_where w"
| "valid_statement (Exec_File f) = quotable f"
| "valid_statement _ = True"

lemma select_columns_derive:
  assumes "case cs of None \<Rightarrow> True | Some ns \<Rightarrow> valid_names ns"
  shows "derives 72 (toks (case cs of None \<Rightarrow> [plain ''*'' 51] | Some ns \<Rightarrow> names ns))
    [case cs of None \<Rightarrow> Node kNodeAllColumns None [] | Some ns \<Rightarrow> Node kNodeColumnList (Some ''select columns'') (map Ident ns)]"
  using assms rule_45 rule_46 names_derive by (cases cs) (auto simp: plain_def valid_names_def)

lemma select_derives:
  assumes "valid_statement (Select cs t w)"
  shows "derives 71 (toks (pieces (Select cs t w))) [tree_of (Select cs t w)]"
proof -
  have c: "derives 72 (toks (case cs of None \<Rightarrow> [plain ''*'' 51] | Some ns \<Rightarrow> names ns))
    [case cs of None \<Rightarrow> Node kNodeAllColumns None [] | Some ns \<Rightarrow> Node kNodeColumnList (Some ''select columns'') (map Ident ns)]"
    using assms by (intro select_columns_derive) simp
  show ?thesis
  proof (cases w)
    case None
    then show ?thesis using rule_43 [OF c, of "[]" "[]" "[Ident t]"] by (simp add: piece_simps)
  next
    case (Some k)
    then show ?thesis using rule_44 [OF c conditions_derives, of "[]" "[]" "[Ident t]" "[]" "fst k" "snd k"]
      by (simp add: piece_simps)
  qed
qed

lemma delete_derives: "derives 80 (toks (pieces (Delete t w))) [tree_of (Delete t w)]"
proof (cases w)
  case None
  then show ?thesis using rule_66 [of "[]" "[]" "[Ident t]"] by (simp add: piece_simps)
next
  case (Some k)
  then show ?thesis using rule_67 [OF conditions_derives, of "[]" "[]" "[Ident t]" "[]" "fst k" "snd k"]
    by (simp add: piece_simps)
qed

lemma update_derives:
  assumes "us \<noteq> []"
  shows "derives 81 (toks (pieces (Update t us w))) [tree_of (Update t us w)]"
proof (cases w)
  case None
  then show ?thesis using rule_68 [OF updates_derive [OF assms], of "[]" "[Ident t]" "[]"] by (simp add: piece_simps)
next
  case (Some k)
  then show ?thesis
    using rule_69 [OF updates_derive [OF assms] conditions_derives, of "[]" "[Ident t]" "[]" "[]" "fst k" "snd k"]
    by (simp add: piece_simps)
qed

lemma create_index_derives:
  assumes "ks \<noteq> []"
  shows "derives 68 (toks (pieces (Create_Index i t ks u))) [tree_of (Create_Index i t ks u)]"
proof (cases u)
  case None
  then show ?thesis
    using rule_39 [OF names_derive [OF assms], of "[]" "[]" "[Ident i]" "[]" "[Ident t]" "[]" "[]"] by (simp add: piece_simps)
next
  case (Some n)
  then show ?thesis
    using rule_40 [OF names_derive [OF assms], of "[]" "[]" "[Ident i]" "[]" "[Ident t]" "[]" "[]" "[]" "[Ident n]"]
    by (simp add: piece_simps)
qed

text \<open>The unit rules: what derives from the nonterminal of one kind of statement is a statement.\<close>

lemmas unit_rules =
  rule_unit [of 3, OF _ _ rhs_eval(2), simplified] rule_unit [of 4, OF _ _ rhs_eval(3), simplified]
  rule_unit [of 5, OF _ _ rhs_eval(4), simplified] rule_unit [of 6, OF _ _ rhs_eval(5), simplified]
  rule_unit [of 7, OF _ _ rhs_eval(6), simplified] rule_unit [of 8, OF _ _ rhs_eval(7), simplified]
  rule_unit [of 9, OF _ _ rhs_eval(8), simplified] rule_unit [of 10, OF _ _ rhs_eval(9), simplified]
  rule_unit [of 11, OF _ _ rhs_eval(10), simplified] rule_unit [of 12, OF _ _ rhs_eval(11), simplified]
  rule_unit [of 13, OF _ _ rhs_eval(12), simplified] rule_unit [of 14, OF _ _ rhs_eval(13), simplified]
  rule_unit [of 15, OF _ _ rhs_eval(14), simplified] rule_unit [of 16, OF _ _ rhs_eval(15), simplified]
  rule_unit [of 17, OF _ _ rhs_eval(16), simplified] rule_unit [of 18, OF _ _ rhs_eval(17), simplified]
  rule_unit [of 19, OF _ _ rhs_eval(18), simplified] rule_unit [of 20, OF _ _ rhs_eval(19), simplified]
  rule_unit [of 21, OF _ _ rhs_eval(20), simplified]

lemma statement_derives:
  assumes "valid_statement s"
  shows "derives 56 (toks (pieces s)) [tree_of s]"
proof (cases s)
  case (Create_Table t ds ks)
  then have "derives 64 (toks (column_list_pieces ds ks)) (map column_tree ds @ key_trees ks)"
    using assms by (intro column_list_derives) (auto simp: valid_names_def split: option.splits)
  from rule_27 [OF this, of "[]" "[]" "[Ident t]" "[]" "[]"] Create_Table show ?thesis
    by (intro unit_rules(6)) (simp add: piece_simps)
next
  case (Create_Index i t ks u)
  then show ?thesis using assms create_index_derives by (intro unit_rules(8)) (auto simp: valid_names_def)
next
  case (Select cs t w)
  then show ?thesis using assms select_derives by (intro unit_rules(11)) simp
next
  case (Insert t vs)
  then have "derives 79 (toks (separated (\<lambda>v. [value_piece v]) vs)) (map value_tree vs)"
    using assms by (intro values_derive) simp
  from rule_63 [OF this, of "[]" "[]" "[Ident t]" "[]" "[]" "[]"] Insert show ?thesis
    by (intro unit_rules(12)) (simp add: piece_simps)
next
  case (Delete t w)
  then show ?thesis using delete_derives by (intro unit_rules(13)) simp
next
  case (Update t us w)
  then show ?thesis using assms update_derives by (intro unit_rules(14)) simp
qed (simp_all add: piece_simps unit_rules rule_22 rule_23 rule_24 rule_25 rule_26 rule_38 rule_41 rule_42
    rule_73 rule_74 rule_75 rule_76 rule_77)

lemma sentence_derives: "valid_statement s \<Longrightarrow> derives 55 (toks (pieces s) @ [(47, [])]) [tree_of s]"
  by (intro rule_2 statement_derives)

section \<open>The scanner reads the pieces back\<close>

definition lexes :: "piece \<Rightarrow> bool" where
  "lexes p \<longleftrightarrow> CHR 0x00 \<notin> set (fst p) \<and> (\<forall>rest. \<exists>r. lexemes (fst p @ CHR '' '' # rest) = (r, fst p) # (54, '' '') # lexemes rest
     \<and> lex_token (r, fst p) = Some (snd p) \<and> r \<noteq> 55)"

lemma lexemes_step: "lexeme s = (r, n) \<Longrightarrow> 0 < n \<Longrightarrow> s \<noteq> [] \<Longrightarrow> lexemes s = (r, take n s) # lexemes (drop n s)"
  by (subst lexemes.simps) simp

lemma lexemes_blank: "lexemes (CHR '' '' # rest) = (54, '' '') # lexemes rest"
  by (subst lexemes_step [of _ 54 1]) (simp_all add: lexeme_def word_char_def digit_char_def)

lemma lexesI:
  assumes "\<And>rest. lexeme (fst p @ CHR '' '' # rest) = (r, length (fst p))" "fst p \<noteq> []"
    "lex_token (r, fst p) = Some (snd p)" "r \<noteq> 55" "CHR 0x00 \<notin> set (fst p)"
  shows "lexes p"
  using assms(2-5) lexemes_step [OF assms(1)] by (simp add: lexes_def lexemes_blank)

lemma blank_char: "\<not> word_char (CHR '' '')" "\<not> digit_char (CHR '' '')"
  by (simp_all add: word_char_def digit_char_def)

lemma takeWhile_blank: "list_all P w \<Longrightarrow> \<not> P (CHR '' '') \<Longrightarrow> takeWhile P (w @ CHR '' '' # rest) = w"
  by (simp add: takeWhile_append list_all_iff takeWhile_eq_all_conv)

lemma word_lexes:
  assumes "list_all word_char w" "w \<noteq> []" "\<not> digit_char (hd w)" "lex_token (word_rule w, w) = Some t"
  shows "lexes (w, t)"
proof (rule lexesI)
  show "lexeme (fst (w, t) @ CHR '' '' # rest) = (word_rule w, length (fst (w, t)))" for rest
    using assms(1-3) takeWhile_blank [of word_char] blank_char by (cases w) (auto simp: lexeme_def Let_def)
  show "CHR 0x00 \<notin> set (fst (w, t))" using assms(1) by (auto simp: list_all_iff word_char_def)
  show "word_rule w \<noteq> 55" using word_rule_bounds [of w] by simp
qed (use assms in auto)

lemma ident_lexes: "is_ident n \<Longrightarrow> lexes (ident n)"
  unfolding ident_def is_ident_def by (intro word_lexes) (auto simp: word_rule_def)

lemma keyword_lexes:
  assumes "w \<in> set keyword_list" "word_rule w + 1 = nat a" "0 \<le> a"
  shows "lexes (plain w a)"
  unfolding plain_def
proof (rule word_lexes)
  have "list_all (\<lambda>c. 19 \<le> cls c) w" using keywords_letters assms(1) by (simp add: list_all_iff)
  then have *: "list_all (\<lambda>c. word_char c \<and> \<not> digit_char c) w" by (auto simp: list_all_iff cls_word cls_digit)
  then show "list_all word_char w" by (simp add: list_all_iff)
  show "w \<noteq> []" using keyword_nonempty assms(1) by (auto simp: list_all_iff)
  with * show "\<not> digit_char (hd w)" by (simp add: list_all_iff)
  show "lex_token (word_rule w, w) = Some (a, [])" using word_rule_keyword [OF assms(1)] assms(2,3) by auto
qed

lemma keywords_lex: "list_all2 (\<lambda>w a. lexes (plain w a)) keyword_list (map int [3..<40])"
  unfolding list_all2_conv_all_nth
proof (intro conjI allI impI)
  fix i assume i: "i < length keyword_list"
  then have "word_rule (keyword_list ! i) = 2 + i"
    using takeWhile_distinct_nth [OF keyword_distinct i] by (simp add: word_rule_def)
  then have "lexes (plain (keyword_list ! i) (int (3 + i)))" using i by (intro keyword_lexes) simp_all
  moreover have "map int [3..<40] ! i = int (3 + i)" by (rule map_upt_nth) (use i keyword_length in simp)
  ultimately show "lexes (plain (keyword_list ! i) (map int [3..<40] ! i))" by (simp only:)
qed (simp add: keyword_length)

lemmas keyword_pieces = keywords_lex [unfolded keyword_list_def, simplified]

lemma mark_lexes:
  assumes "w = ''('' \<and> a = 48 \<or> w = '')'' \<and> a = 49 \<or> w = '','' \<and> a = 50 \<or> w = ''*'' \<and> a = 51 \<or> w = ''='' \<and> a = 43
    \<or> w = ''<'' \<and> a = 52 \<or> w = ''>'' \<and> a = 53 \<or> w = ''<>'' \<and> a = 44 \<or> w = ''<='' \<and> a = 45 \<or> w = ''>='' \<and> a = 46"
  shows "lexes (plain w a)"
proof -
  have "lexes (plain w a)" if "lexeme (w @ CHR '' '' # []) = (r, length w)" "\<And>rest. lexeme (w @ CHR '' '' # rest) = (r, length w)"
    "lex_token (r, w) = Some (a, [])" "r \<noteq> 55" "w \<noteq> []" "CHR 0x00 \<notin> set w" for r
    using that by (intro lexesI [of _ r]) (simp_all add: plain_def)
  with assms show ?thesis by (elim disjE) (simp_all add: lexeme_def word_char_def digit_char_def)
qed

lemma number_tail_digits: "list_all digit_char n \<Longrightarrow> number_tail (n @ CHR '' '' # rest) = (41, length n)"
  by (induction n) (auto simp: blank_char)

lemma number_lexes: "digits n \<Longrightarrow> lexes (number n)"
  unfolding number_def
proof (rule lexesI)
  assume d: "digits n"
  then obtain c cs where n: "n = c # cs" "digit_char c" "list_all digit_char cs" by (cases n) (auto simp: digits_def)
  have "c \<noteq> CHR 0x22" using n(2) by (auto simp: digit_char_def)
  with n show "lexeme (fst (n, 42, [Node kNodeNumber (Some n) []]) @ CHR '' '' # rest)
      = (41, length (fst (n, 42 :: int, [Node kNodeNumber (Some n) []])))" for rest
    using number_tail_digits [of cs] by (simp add: lexeme_def)
qed (auto simp: digits_def list_all_iff digit_char_def)

lemma string_tail_quotable: "quotable s \<Longrightarrow> string_tail (s @ CHR 0x22 # rest) = Some (length s + 1)"
  by (induction s) (auto simp: quotable_def)

lemma quoted_lexes: "quotable s \<Longrightarrow> lexes (quoted s)"
  unfolding quoted_def
  by (rule lexesI [of _ 1]) (auto simp: lexeme_def string_tail_quotable word_char_def quotable_def list_all_iff)

lemmas lexes_intros = ident_lexes number_lexes quoted_lexes mark_lexes

lemma separated_all:
  "list_all (\<lambda>x. list_all P (f x)) xs \<Longrightarrow> P COMMA \<Longrightarrow> list_all P (separated f xs)"
  by (induction f xs rule: separated.induct) simp_all

lemma names_lex: "list_all is_ident ns \<Longrightarrow> list_all lexes (names ns)"
  by (rule separated_all) (auto simp: list_all_iff intro: lexes_intros)

lemma type_lex: "valid_type t \<Longrightarrow> list_all lexes (type_pieces t)"
  by (cases t) (simp_all add: keyword_pieces lexes_intros)

lemma column_lex: "valid_column d \<Longrightarrow> list_all lexes (column_pieces d)"
  by (cases d) (simp add: keyword_pieces lexes_intros type_lex)

lemma value_lex: "valid_value v \<Longrightarrow> lexes (value_piece v)"
  by (cases v) (simp_all add: keyword_pieces lexes_intros)

lemma op_lex: "lexes (op_piece op)"
  by (cases op) (simp_all add: keyword_pieces mark_lexes)

lemma condition_lex: "valid_condition c \<Longrightarrow> list_all lexes (condition_pieces c)"
  by (cases c) (simp add: lexes_intros value_lex op_lex)

lemma connector_lex: "lexes (connector_piece k)"
  by (cases k) (simp_all add: keyword_pieces)

lemma where_lex: "valid_where w \<Longrightarrow> list_all lexes (where_pieces w)"
  using condition_lex by (cases w) (fastforce simp: valid_where_def valid_conditions_def conditions_pieces_def keyword_pieces
      connector_lex list_all_iff)+

lemma columns_lex: "list_all valid_column ds \<Longrightarrow> list_all lexes (separated column_pieces ds)"
  by (rule separated_all) (auto elim!: list.pred_mono_strong simp: column_lex mark_lexes)

lemma column_list_lex:
  "list_all valid_column ds \<Longrightarrow> (case ks of None \<Rightarrow> True | Some ns \<Rightarrow> list_all is_ident ns)
    \<Longrightarrow> list_all lexes (column_list_pieces ds ks)"
  by (induction ds ks rule: column_list_pieces.induct)
    (simp_all add: keyword_pieces column_lex columns_lex mark_lexes names_lex)

lemma update_lex:
  "list_all (\<lambda>u. is_ident (fst u) \<and> valid_value (snd u)) us
    \<Longrightarrow> list_all lexes (separated (\<lambda>(n, v). [ident n, plain ''='' 43, value_piece v]) us)"
  by (rule separated_all) (auto simp: list_all_iff mark_lexes ident_lexes value_lex)

lemma statement_lexes: "valid_statement s \<Longrightarrow> list_all lexes (pieces s)"
proof (cases s)
  case (Insert t vs)
  assume "valid_statement s"
  with Insert have "list_all lexes (separated (\<lambda>v. [value_piece v]) vs)"
    by (intro separated_all) (auto simp: list_all_iff mark_lexes value_lex)
  with Insert \<open>valid_statement s\<close> show ?thesis by (simp add: keyword_pieces lexes_intros)
qed (auto simp: keyword_pieces lexes_intros valid_names_def names_lex where_lex update_lex columns_lex column_list_lex split: option.splits)

lemma text_lexemes:
  "list_all lexes ps \<Longrightarrow> tokens (lexemes (text_of ps)) = map snd ps @ [(47, [])] \<and> recognised (lexemes (text_of ps))"
proof (induction ps)
  case Nil
  have "lexeme '';'' = (48, 1)" by (simp add: lexeme_def word_char_def digit_char_def)
  then have "lexemes '';'' = [(48, '';'')]" by (subst lexemes_step [of _ 48 1]) (simp_all add: lexemes.simps [of "[]"])
  then show ?case by (simp add: text_of_def recognised_def)
next
  case (Cons p ps)
  have "text_of (p # ps) = fst p @ CHR '' '' # text_of ps" by (simp add: text_of_def)
  moreover obtain r where "lexemes (fst p @ CHR '' '' # text_of ps) = (r, fst p) # (54, '' '') # lexemes (text_of ps)"
    "lex_token (r, fst p) = Some (snd p)" "r \<noteq> 55" using Cons.prems by (auto simp: lexes_def)
  ultimately show ?case using Cons by (simp add: recognised_def del: lex_token.simps) simp
qed

lemma sql_text_no_NUL: "valid_statement s \<Longrightarrow> CHR 0x00 \<notin> set (sql_text s)"
  using statement_lexes [of s] by (auto simp: sql_text_def text_of_def list_all_iff lexes_def)

lemma sql_text_tokens:
  "valid_statement s \<Longrightarrow> sql_tokens (sql_text s) = toks (pieces s) @ [(47, [])] \<and> sql_clean (sql_text s)"
  using text_lexemes [OF statement_lexes] by (simp add: sql_tokens_def sql_clean_def sql_text_def)

end
