(* ===== verification/Sql_Commands.thy ===== *)
theory Sql_Commands
  imports Sql_Syntax
begin

text \<open>
  The properties of the path from the typed characters to the syntax tree: which commands the shell
  reads, which the parser accepts, and with which tree. They rest on the interpretation of the
  scanner as the parser's token source and on the grammar's unambiguity.
\<close>

section \<open>Reading a command\<close>

lemma input_loop_reads:
  assumes "CHR '';'' \<notin> set u"
  shows "input_loop (length v) (v @ replicate n (CHR 0x00)) (u @ CHR '';'' # w)
    = (if length u < n then Some (v @ u @ CHR '';'' # replicate (n - (length u + 1)) (CHR 0x00), drop 1 w) else None)"
  using assms
proof (induction u arbitrary: v n)
  case Nil
  show ?case by (cases n) auto
next
  case (Cons ch u)
  show ?case
  proof (cases n)
    case (Suc n')
    then have "input_loop (length v) (v @ replicate n (CHR 0x00)) ((ch # u) @ CHR '';'' # w)
        = input_loop (length (v @ [ch])) ((v @ [ch]) @ replicate n' (CHR 0x00)) (u @ CHR '';'' # w)"
      using Cons.prems by auto
    also have "\<dots> = (if length u < n' then Some ((v @ [ch]) @ u @ CHR '';'' # replicate (n' - (length u + 1)) (CHR 0x00), drop 1 w) else None)"
      using Cons.prems by (intro Cons.IH) simp
    finally show ?thesis using Suc by simp
  qed simp
qed

lemma InputCommand_reads:
  assumes "CHR '';'' \<notin> set u"
  shows "InputCommand len (u @ CHR '';'' # w)
    = (if length u < len then Some (u @ CHR '';'' # replicate (len - (length u + 1)) (CHR 0x00), drop 1 w) else None)"
  using input_loop_reads [OF assms, of "[]" len w] by (simp add: InputCommand_def)

lemma c_string_padded:
  "CHR 0x00 \<notin> set u \<Longrightarrow> c_string (u @ replicate n (CHR 0x00)) = (if 0 < n then Some u else None)"
  by (cases n) (auto simp: c_string_def takeWhile_append takeWhile_eq_all_conv)

text \<open>
  C25: a command ends at its first semicolon, wherever that stands, and one more character is
  dropped. Up to 1022 characters before it the array holds the command as a C string; with 1023 the
  array has no room for the terminating NUL and is not a C string; with more the store leaves the
  array.
\<close>
theorem InputCommand_bounds:
  assumes "CHR '';'' \<notin> set u" "CHR 0x00 \<notin> set u"
  shows "(length u \<le> 1022 \<longrightarrow> (\<exists>a. InputCommand 1024 (u @ '';'' @ c # rest) = Some (a, rest) \<and> length a = 1024
      \<and> c_string a = Some (u @ '';'')))
    \<and> (length u = 1023 \<longrightarrow> (\<exists>a. InputCommand 1024 (u @ '';'' @ c # rest) = Some (a, rest) \<and> c_string a = None))
    \<and> (1024 \<le> length u \<longrightarrow> InputCommand 1024 (u @ '';'' @ c # rest) = None)"
proof -
  have p: "c_string (u @ CHR '';'' # replicate n (CHR 0x00)) = (if 0 < n then Some (u @ '';'') else None)" for n
    using c_string_padded [of "u @ '';''" n] assms(2) by simp
  show ?thesis
    using InputCommand_reads [OF assms(1), of 1024 "c # rest"] p [of "1024 - (length u + 1)"] p [of 0] by auto
qed

theorem InputCommand_bounds_witness:
  "(\<exists>a. InputCommand 1024 ''insert into t values(\"a;b\");'' = Some (a, ''\");'') \<and> c_string a = Some ''insert into t values(\"a;'')
    \<and> InputCommand 1024 (replicate 1024 (CHR ''x'') @ '';'' @ CHR 0x0A # ''quit;'') = None"
  using InputCommand_bounds [of "''insert into t values(\"a''" "CHR ''b''" "''\");''"]
    InputCommand_bounds [of "replicate 1024 (CHR ''x'')" "CHR 0x0A" "''quit;''"] by auto

section \<open>The parser decides the grammar\<close>

text \<open>
  C1: the parser decides the grammar. A command of at most 9998 characters, scanned and parsed the
  way the main loop does it, is reported free of errors exactly when all its characters are
  recognised and its tokens are a sentence of the grammar; then \<open>yyparse\<close> returns 0 and the root node
  is the root of the sentence's tree, whichever derivation it comes from. When the tokens are not a
  sentence \<open>yyparse\<close> returns 1.
\<close>
theorem command_verdict:
  assumes "idle lx" "CHR 0x00 \<notin> set cmd" "wf_nodes g" "length cmd \<le> 9998"
  shows "\<exists>b res lx' y' g'. parse_command cmd lx y g = Some (b, res, lx', y', g')
    \<and> (MinisqlParserGetError g' = 0 \<longleftrightarrow> sql_clean cmd \<and> (\<exists>v. derives 55 (sql_tokens cmd) v))
    \<and> (\<forall>v. derives 55 (sql_tokens cmd) v \<longrightarrow> res = 0 \<and> holds g' [(MinisqlGetParserRootNode g', v)])
    \<and> ((\<nexists>v. derives 55 (sql_tokens cmd) v) \<longrightarrow> res = 1)"
proof -
  obtain b res lx' y' g' where r: "parse_command cmd lx y g = Some (b, res, lx', y', g')"
    "verdict (sql_tokens cmd) (\<not> sql_clean cmd) res g'" using parse_command_run [OF assms(1-3), of y] by blast
  have "\<not> 9998 < length (sql_tokens cmd)" using sql_tokens_length [of cmd] assms(4) by simp
  with r show ?thesis
    by (auto simp: verdict_def MinisqlParserGetError_def MinisqlGetParserRootNode_def dest: grammar_unique)
qed

lemma wf_nodes_zero: "wf_nodes parser_zero"
  by (simp add: wf_nodes_def parser_zero_def)

abbreviation (input) example_select :: statement where
  "example_select \<equiv> Select (Some [''a'', ''b'']) ''t'' (Some (Compare ''a'' Op_ge (Number_Value ''12''), []))"

lemma example_select_valid: "valid_statement example_select"
  by (simp add: valid_names_def valid_where_def valid_conditions_def is_ident_def digits_def word_char_def digit_char_def
      keyword_list_def)

lemma example_select_text: "sql_text example_select = ''select a , b from t where a >= 12 ;''"
  by (simp add: sql_text_def text_of_def piece_simps conditions_pieces_def)

theorem command_verdict_witness:
  "\<exists>b lx' y' g'. parse_command ''select a , b from t where a >= 12 ;'' lex_zero None parser_zero = Some (b, 0, lx', y', g')
    \<and> MinisqlParserGetError g' = 0 \<and> holds g' [(MinisqlGetParserRootNode g', [tree_of example_select])]"
proof -
  have "length ''select a , b from t where a >= 12 ;'' \<le> 9998" by simp
  with command_verdict [OF idle_zero sql_text_no_NUL [OF example_select_valid] wf_nodes_zero, of None]
    sql_text_tokens [OF example_select_valid] sentence_derives [OF example_select_valid]
  show ?thesis unfolding example_select_text by (metis (no_types, lifting))
qed

section \<open>Statements are read back\<close>

text \<open>
  C3: what is written is read. Any statement whose names are identifiers, whose numbers are digits
  and whose strings have no quote, backslash or NUL, written out with blanks between its tokens and
  typed at the prompt, is taken from the input as a whole, parsed without an error, and the tree that
  is handed to the execution engine is the statement's own; only the semicolons inside strings and
  commands beyond the array are excluded.
\<close>
theorem statement_roundtrip:
  assumes "valid_statement s" "CHR '';'' \<notin> set (butlast (sql_text s))" "length (sql_text s) \<le> 1023" "idle lx" "wf_nodes g"
  shows "\<exists>a b lx' y' g'. InputCommand 1024 (sql_text s @ CHR 0x0A # rest) = Some (a, rest) \<and> c_string a = Some (sql_text s)
    \<and> parse_command (sql_text s) lx y g = Some (b, 0, lx', y', g') \<and> MinisqlParserGetError g' = 0
    \<and> holds g' [(MinisqlGetParserRootNode g', [tree_of s])]"
proof -
  obtain u where u: "sql_text s = u @ '';''" by (simp add: sql_text_def text_of_def)
  then have i: "CHR '';'' \<notin> set u" "length u < 1024" "0 < 1024 - (length u + 1)" using assms(2,3) by simp_all
  let ?a = "u @ CHR '';'' # replicate (1024 - (length u + 1)) (CHR 0x00)"
  have "InputCommand 1024 (sql_text s @ CHR 0x0A # rest) = Some (?a, rest)"
    using InputCommand_reads [OF i(1), of 1024 "CHR 0x0A # rest"] i(2) u by simp
  moreover have "c_string ?a = Some (sql_text s)"
    using c_string_padded [OF sql_text_no_NUL [OF assms(1)], of "1024 - (length u + 1)"] i(3) u by simp
  moreover obtain b res lx' y' g' where r: "parse_command (sql_text s) lx y g = Some (b, res, lx', y', g')"
    "verdict (sql_tokens (sql_text s)) (\<not> sql_clean (sql_text s)) res g'"
    using parse_command_run [OF assms(4) sql_text_no_NUL [OF assms(1)] assms(5), of y] by blast
  moreover have "length (sql_tokens (sql_text s)) \<le> 9998" using sql_tokens_length [of "sql_text s"] assms(3) by simp
  ultimately show ?thesis using sql_text_tokens [OF assms(1)] sentence_derives [OF assms(1)]
    by (auto simp: verdict_def MinisqlParserGetError_def MinisqlGetParserRootNode_def dest: grammar_unique)
qed

theorem statement_roundtrip_witness:
  "\<exists>a b lx' y' g'. InputCommand 1024 ''select a , b from t where a >= 12 ;\<newline>quit;'' = Some (a, ''quit;'')
    \<and> parse_command ''select a , b from t where a >= 12 ;'' lex_zero None parser_zero = Some (b, 0, lx', y', g')
    \<and> holds g' [(MinisqlGetParserRootNode g', [tree_of example_select])]"
proof -
  have "CHR '';'' \<notin> set (butlast (sql_text example_select))" "length (sql_text example_select) \<le> 1023"
    unfolding example_select_text by simp_all
  from statement_roundtrip [OF example_select_valid this idle_zero wf_nodes_zero, of "''quit;''" None] show ?thesis
    unfolding example_select_text by auto
qed

section \<open>Every command gets an answer\<close>

text \<open>
  C24: scanning and parsing end on every text, of any length: \<open>yyparse\<close> returns 0, 1 or 2, the error
  flag is set whenever the result is not 0, the result 2 needs more than 9998 tokens, and afterwards
  the release of tree and scanner succeeds, leaves no node of the store behind and makes the scanner
  ready for the next command.
\<close>
theorem command_returns:
  assumes "idle lx" "CHR 0x00 \<notin> set cmd" "wf_nodes g"
  shows "\<exists>b res lx' y' g' lx'' g''. parse_command cmd lx y g = Some (b, res, lx', y', g') \<and> res \<in> {0, 1, 2}
    \<and> (res \<noteq> 0 \<longrightarrow> MinisqlParserGetError g' = 1) \<and> (res = 2 \<longrightarrow> 9998 < length (sql_tokens cmd))
    \<and> clean_command b lx' g' = Some (lx'', g'') \<and> idle lx'' \<and> wf_nodes g'' \<and> store g'' = Map.empty"
proof -
  obtain b res lx' y' g' p where r: "parse_command cmd lx y g = Some (b, res, lx', y', g')" "wf_nodes g'" "reading b cmd p lx'"
    "verdict (sql_tokens cmd) (\<not> sql_clean cmd) res g'" using parse_command_run [OF assms, of y] by blast
  obtain lx'' g'' where c: "clean_command b lx' g' = Some (lx'', g'')" "idle lx''" "wf_nodes g''" "store g'' = Map.empty"
    using clean_command_run [OF r(3,2)] by blast
  have "res \<in> {0, 1, 2} \<and> (res \<noteq> 0 \<longrightarrow> MinisqlParserGetError g' = 1) \<and> (res = 2 \<longrightarrow> 9998 < length (sql_tokens cmd))"
    using r(4) by (auto simp: verdict_def MinisqlParserGetError_def)
  with r(1) c show ?thesis by blast
qed

theorem command_returns_witness:
  "\<exists>b res lx' y' g' lx'' g''. parse_command ''select # from;'' lex_zero None parser_zero = Some (b, res, lx', y', g')
    \<and> res \<in> {0, 1, 2} \<and> clean_command b lx' g' = Some (lx'', g'') \<and> idle lx'' \<and> store g'' = Map.empty"
  using command_returns [OF idle_zero _ wf_nodes_zero, of "''select # from;''" None] by fastforce

end
