(* ===== verification/Bytes.thy ===== *)
theory Bytes
  imports Prelude "HOL-Library.Monad_Syntax"
begin

text \<open>
  Memory images of 32-bit integers in pages and serialized records: a \<open>MACH_WRITE_TO\<close> or a
  \<open>reinterpret_cast\<close> stores the low byte first, and reading four bytes gives the integer back.
\<close>

definition le32 :: "u32 \<Rightarrow> u8 list" where
  "le32 w = map (\<lambda>i. ucast (drop_bit (8 * i) w)) [0, 1, 2, 3]"

text \<open>The integer at an offset of an array; \<open>None\<close> is a read outside it.\<close>

definition read32 :: "u8 list \<Rightarrow> nat \<Rightarrow> u32 option" where
  "read32 bs i = (if i + 4 \<le> length bs
     then Some (ucast (bs ! i) OR push_bit 8 (ucast (bs ! (i + 1))) OR push_bit 16 (ucast (bs ! (i + 2)))
       OR push_bit 24 (ucast (bs ! (i + 3)))) else None)"

definition write_bytes :: "u8 list \<Rightarrow> nat \<Rightarrow> u8 list \<Rightarrow> u8 list option" where
  "write_bytes bs i xs = (if i + length xs \<le> length bs
     then Some (take i bs @ xs @ drop (i + length xs) bs) else None)"

lemma le32_length [simp]: "length (le32 w) = 4"
  by (simp add: le32_def)

lemma le32_join:
  "ucast (ucast w :: u8) OR push_bit 8 (ucast (ucast (drop_bit 8 w) :: u8)) OR push_bit 16 (ucast (ucast (drop_bit 16 w) :: u8))
    OR push_bit 24 (ucast (ucast (drop_bit 24 w) :: u8)) = (w :: u32)"
proof (rule bit_word_eqI, goal_cases)
  case (1 n)
  then consider "n < 8" | "8 \<le> n" "n < 16" | "16 \<le> n" "n < 24" | "24 \<le> n" "n < 32" by fastforce
  then show ?case
    by cases (auto simp: bit_or_iff bit_push_bit_iff bit_ucast_iff bit_drop_bit_eq)
qed

lemma read32_le32: "read32 (xs @ le32 w @ ys) (length xs) = Some w"
  using le32_join [of w] by (simp add: read32_def le32_def nth_append)

lemma write_bytes_length: "write_bytes bs i xs = Some bs' \<Longrightarrow> length bs' = length bs"
  by (auto simp: write_bytes_def split: if_splits)

end
