(* ===== verification/Serial.thy ===== *)
theory Serial
  imports Bytes
begin

text \<open>
  Objects written one behind the other into a buffer, the way rows, columns and schemas are
  serialized: \<open>i\<close> is where \<open>buf\<close> points in the array around it and \<open>len\<close> the 32-bit counter of the
  bytes passed so far. The locale \<open>codec\<close> is the contract of one kind of object; its lemmas give the
  contract of a sequence of them.
\<close>

section \<open>The loops over fields and columns\<close>

fun put_all :: "('a \<Rightarrow> u8 list \<Rightarrow> nat \<Rightarrow> u32 \<Rightarrow> (u8 list \<times> u32) option) \<Rightarrow> 'a list \<Rightarrow> u8 list \<Rightarrow> nat \<Rightarrow> u32
    \<Rightarrow> (u8 list \<times> u32) option" where
  "put_all put [] buf i len = Some (buf, len)"
| "put_all put (x # xs) buf i len = do {
     (buf, len) \<leftarrow> put x buf i len;
     put_all put xs buf i len }"

fun get_all :: "('k \<Rightarrow> u8 list \<Rightarrow> nat \<Rightarrow> u32 \<Rightarrow> ('a \<times> u32) option) \<Rightarrow> 'k list \<Rightarrow> u8 list \<Rightarrow> nat \<Rightarrow> u32
    \<Rightarrow> ('a list \<times> u32) option" where
  "get_all get [] buf i len = Some ([], len)"
| "get_all get (k # ks) buf i len = do {
     (x, len) \<leftarrow> get k buf i len;
     (xs, len) \<leftarrow> get_all get ks buf i len;
     Some (x # xs, len) }"

section \<open>Counters and segments of an array\<close>

lemma unat_add32: "unat (len :: u32) + n < 2 ^ 32 \<Longrightarrow> unat (len + of_nat n) = unat len + n"
  by (simp add: unat_word_ariths unat_of_nat)

lemma write_segment:
  "i = length as \<Longrightarrow> length old = length xs \<Longrightarrow> write_bytes (as @ old @ bs) i xs = Some (as @ xs @ bs)"
  by (simp add: write_bytes_def)

lemma read32_segment: "i = length as \<Longrightarrow> read32 (as @ le32 w @ bs) i = Some w"
  by (simp add: read32_le32)

text \<open>Two writes side by side are one, and reading passes over what lies before.\<close>

lemma write_bytes_seq:
  "j = i + length xs \<Longrightarrow> Option.bind (write_bytes b i xs) (\<lambda>b. Option.bind (write_bytes b j ys) f)
    = Option.bind (write_bytes b i (xs @ ys)) f"
  by (auto simp: write_bytes_def ac_simps)

lemma read32_skip: "length as \<le> i \<Longrightarrow> read32 (as @ bs) i = read32 bs (i - length as)"
  by (auto simp: read32_def nth_append Suc_diff_le)

lemma read32_here: "read32 (le32 w @ bs) 0 = Some w"
  using read32_le32 [of "[]"] by simp

lemma split_at: "n + m = length xs \<Longrightarrow> \<exists>ys zs. xs = ys @ zs \<and> length ys = n \<and> length zs = m"
  by (intro exI [of _ "take n xs"] exI [of _ "drop n xs"]) simp

section \<open>The contract of a serializer\<close>

locale codec =
  fixes put :: "'a \<Rightarrow> u8 list \<Rightarrow> nat \<Rightarrow> u32 \<Rightarrow> (u8 list \<times> u32) option"
    and get :: "'k \<Rightarrow> u8 list \<Rightarrow> nat \<Rightarrow> u32 \<Rightarrow> ('a \<times> u32) option"
    and image :: "'a \<Rightarrow> u8 list"
    and ok :: "'a \<Rightarrow> bool"
    and known :: "'k \<Rightarrow> 'a \<Rightarrow> bool"
    and norm :: "'a \<Rightarrow> 'a"
  assumes put_image: "ok x \<Longrightarrow> i + unat len = length as \<Longrightarrow> length old = length (image x)
      \<Longrightarrow> unat len + length (image x) < 2 ^ 32
      \<Longrightarrow> put x (as @ old @ bs) i len = Some (as @ image x @ bs, len + of_nat (length (image x)))"
    and get_image: "ok x \<Longrightarrow> known k x \<Longrightarrow> i + unat len = length as \<Longrightarrow> unat len + length (image x) < 2 ^ 32
      \<Longrightarrow> get k (as @ image x @ bs) i len = Some (norm x, len + of_nat (length (image x)))"
begin

definition images :: "'a list \<Rightarrow> u8 list" where
  "images xs = concat (map image xs)"

lemma images_simps [simp]: "images [] = []" "images (x # xs) = image x @ images xs"
  by (simp_all add: images_def)

lemma put_all_images:
  assumes "\<forall>x\<in>set xs. ok x" "i + unat len = length as" "length old = length (images xs)"
    "unat len + length (images xs) < 2 ^ 32"
  shows "put_all put xs (as @ old @ bs) i len = Some (as @ images xs @ bs, len + of_nat (length (images xs)))"
  using assms
proof (induction xs arbitrary: as old len)
  case (Cons x xs)
  obtain o1 o2 where o: "old = o1 @ o2" "length o1 = length (image x)" "length o2 = length (images xs)"
    using split_at [of "length (image x)" "length (images xs)" old] Cons.prems(3) by auto
  have p: "put x (as @ o1 @ (o2 @ bs)) i len = Some (as @ image x @ (o2 @ bs), len + of_nat (length (image x)))"
    using Cons.prems o by (intro put_image) auto
  have u: "unat (len + of_nat (length (image x))) = unat len + length (image x)"
    using Cons.prems(4) by (intro unat_add32) simp
  have "put_all put xs ((as @ image x) @ o2 @ bs) i (len + of_nat (length (image x)))
    = Some ((as @ image x) @ images xs @ bs, len + of_nat (length (image x)) + of_nat (length (images xs)))"
    using Cons.prems o u by (intro Cons.IH) auto
  then show ?case using p o by (simp add: add.assoc)
qed simp

lemma get_all_images:
  assumes "\<forall>x\<in>set xs. ok x" "list_all2 known ks xs" "i + unat len = length as"
    "unat len + length (images xs) < 2 ^ 32"
  shows "get_all get ks (as @ images xs @ bs) i len = Some (map norm xs, len + of_nat (length (images xs)))"
  using assms
proof (induction xs arbitrary: ks as len)
  case (Cons x xs)
  obtain k ks' where k: "ks = k # ks'" "known k x" "list_all2 known ks' xs"
    using Cons.prems(2) by (auto simp: list_all2_Cons2)
  have p: "get k (as @ image x @ (images xs @ bs)) i len = Some (norm x, len + of_nat (length (image x)))"
    using Cons.prems k by (intro get_image) auto
  have u: "unat (len + of_nat (length (image x))) = unat len + length (image x)"
    using Cons.prems(4) by (intro unat_add32) simp
  have "get_all get ks' ((as @ image x) @ images xs @ bs) i (len + of_nat (length (image x)))
    = Some (map norm xs, len + of_nat (length (image x)) + of_nat (length (images xs)))"
    using Cons.prems k u by (intro Cons.IH) auto
  then show ?case using p k by (simp add: add.assoc)
qed simp

end

end
