(* ===== verification/Field_Types.thy ===== *)
theory Field_Types
  imports Serial
begin

text \<open>
  Fields and their types, \<open>MiniSQL/src/include/record/field.h\<close> and \<open>record/types.cpp\<close>: construction, serialization
  and comparison of integers, floats and character strings. A failing \<open>ASSERT\<close>, a read or write
  outside an array and the use of a member of the union that is not set are \<open>None\<close>.
\<close>

section \<open>Model\<close>

datatype TypeId = kTypeInvalid | kTypeInt | kTypeFloat | kTypeChar
datatype CmpBool = kFalse | kTrue | kNull

definition GetCmpBool :: "bool \<Rightarrow> CmpBool" where
  "GetCmpBool boolean = (if boolean then kTrue else kFalse)"

text \<open>
  The union \<open>Val\<close>: a 32-bit integer, the 32 bits of a float, or the array \<open>chars_\<close> points to; \<open>VUnset\<close> when
  no member was stored. The flag \<open>manage_data_\<close>, which says who frees the array, is left out.
\<close>

datatype Val = VUnset | VInteger u32 | VFloat u32 | VChars "u8 list"

record Field =
  fvalue :: Val
  type_id :: TypeId
  flen :: u32
  is_null :: bool

definition FIELD_NULL_LEN :: u32 where "FIELD_NULL_LEN = - 1"
definition VARCHAR_MAX_LEN :: u32 where "VARCHAR_MAX_LEN = 2048"

fun GetTypeSize :: "TypeId \<Rightarrow> u32 option" where
  "GetTypeSize kTypeInt = Some 4"
| "GetTypeSize kTypeFloat = Some 4"
| "GetTypeSize kTypeChar = Some 0"
| "GetTypeSize kTypeInvalid = None"

definition Field_null :: "TypeId \<Rightarrow> Field" where
  "Field_null type = \<lparr>fvalue = VUnset, type_id = type, flen = FIELD_NULL_LEN, is_null = True\<rparr>"

definition Field_int :: "TypeId \<Rightarrow> u32 \<Rightarrow> Field option" where
  "Field_int type i = (if type \<noteq> kTypeInt then None
     else do { n \<leftarrow> GetTypeSize type; Some \<lparr>fvalue = VInteger i, type_id = type, flen = n, is_null = False\<rparr> })"

definition Field_float :: "TypeId \<Rightarrow> u32 \<Rightarrow> Field option" where
  "Field_float type f = (if type \<noteq> kTypeFloat then None
     else do { n \<leftarrow> GetTypeSize type; Some \<lparr>fvalue = VFloat f, type_id = type, flen = n, is_null = False\<rparr> })"

text \<open>\<open>data\<close> is the array from the pointer on, \<open>None\<close> for \<open>nullptr\<close>.\<close>

definition Field_char :: "TypeId \<Rightarrow> u8 list option \<Rightarrow> u32 \<Rightarrow> bool \<Rightarrow> Field option" where
  "Field_char type data len manage_data = (if type \<noteq> kTypeChar then None
     else case data of
       None \<Rightarrow> Some \<lparr>fvalue = VUnset, type_id = type, flen = 0, is_null = True\<rparr>
     | Some a \<Rightarrow>
         if manage_data
         then if \<not> len < VARCHAR_MAX_LEN \<or> length a < unat len then None
              else Some \<lparr>fvalue = VChars (take (unat len) a), type_id = type, flen = len, is_null = False\<rparr>
         else Some \<lparr>fvalue = VChars a, type_id = type, flen = len, is_null = False\<rparr>)"

subsection \<open>Serialization\<close>

definition type_code :: "TypeId \<Rightarrow> u32" where
  "type_code t = (case t of kTypeInvalid \<Rightarrow> 0 | kTypeInt \<Rightarrow> 1 | kTypeFloat \<Rightarrow> 2 | kTypeChar \<Rightarrow> 3)"

definition type_of_code :: "u32 \<Rightarrow> TypeId option" where
  "type_of_code w = (if w = 0 then Some kTypeInvalid else if w = 1 then Some kTypeInt
     else if w = 2 then Some kTypeFloat else if w = 3 then Some kTypeChar else None)"

text \<open>\<open>SerializeTo\<close> with \<open>buf\<close> at an offset of an array; the number of bytes is returned.\<close>

definition TypeInt_SerializeTo :: "Field \<Rightarrow> u8 list \<Rightarrow> nat \<Rightarrow> (u8 list \<times> u32) option" where
  "TypeInt_SerializeTo field buf i =
     (if \<not> is_null field then case fvalue field of
        VInteger v \<Rightarrow> do { buf \<leftarrow> write_bytes buf i (le32 v); n \<leftarrow> GetTypeSize kTypeInt; Some (buf, n) }
      | _ \<Rightarrow> None
      else Some (buf, 0))"

definition TypeFloat_SerializeTo :: "Field \<Rightarrow> u8 list \<Rightarrow> nat \<Rightarrow> (u8 list \<times> u32) option" where
  "TypeFloat_SerializeTo field buf i =
     (if \<not> is_null field then case fvalue field of
        VFloat v \<Rightarrow> do { buf \<leftarrow> write_bytes buf i (le32 v); n \<leftarrow> GetTypeSize kTypeFloat; Some (buf, n) }
      | _ \<Rightarrow> None
      else Some (buf, 0))"

definition TypeChar_SerializeTo :: "Field \<Rightarrow> u8 list \<Rightarrow> nat \<Rightarrow> (u8 list \<times> u32) option" where
  "TypeChar_SerializeTo field buf i =
     (if \<not> is_null field then case fvalue field of
        VChars a \<Rightarrow>
          let len = flen field in
          if length a < unat len then None
          else do {
            buf \<leftarrow> write_bytes buf i (le32 len);
            buf \<leftarrow> write_bytes buf (i + 4) (take (unat len) a);
            Some (buf, len + 4) }
      | _ \<Rightarrow> None
      else Some (buf, 0))"

definition Field_SerializeTo :: "Field \<Rightarrow> u8 list \<Rightarrow> nat \<Rightarrow> (u8 list \<times> u32) option" where
  "Field_SerializeTo field buf i = (case type_id field of
     kTypeInt \<Rightarrow> TypeInt_SerializeTo field buf i
   | kTypeFloat \<Rightarrow> TypeFloat_SerializeTo field buf i
   | kTypeChar \<Rightarrow> TypeChar_SerializeTo field buf i
   | kTypeInvalid \<Rightarrow> None)"

definition TypeInt_DeserializeFrom :: "u8 list \<Rightarrow> nat \<Rightarrow> bool \<Rightarrow> (Field \<times> u32) option" where
  "TypeInt_DeserializeFrom storage i null =
     (if null then Some (Field_null kTypeInt, 0)
      else do {
        v \<leftarrow> read32 storage i;
        f \<leftarrow> Field_int kTypeInt v;
        n \<leftarrow> GetTypeSize kTypeInt;
        Some (f, n) })"

definition TypeFloat_DeserializeFrom :: "u8 list \<Rightarrow> nat \<Rightarrow> bool \<Rightarrow> (Field \<times> u32) option" where
  "TypeFloat_DeserializeFrom storage i null =
     (if null then Some (Field_null kTypeFloat, 0)
      else do {
        v \<leftarrow> read32 storage i;
        f \<leftarrow> Field_float kTypeFloat v;
        n \<leftarrow> GetTypeSize kTypeFloat;
        Some (f, n) })"

definition TypeChar_DeserializeFrom :: "u8 list \<Rightarrow> nat \<Rightarrow> bool \<Rightarrow> (Field \<times> u32) option" where
  "TypeChar_DeserializeFrom storage i null =
     (if null then Some (Field_null kTypeChar, 0)
      else do {
        len \<leftarrow> read32 storage i;
        f \<leftarrow> Field_char kTypeChar (Some (drop (i + 4) storage)) len True;
        Some (f, len + 4) })"

definition Field_DeserializeFrom :: "u8 list \<Rightarrow> nat \<Rightarrow> TypeId \<Rightarrow> bool \<Rightarrow> (Field \<times> u32) option" where
  "Field_DeserializeFrom buf i type null = (case type of
     kTypeInt \<Rightarrow> TypeInt_DeserializeFrom buf i null
   | kTypeFloat \<Rightarrow> TypeFloat_DeserializeFrom buf i null
   | kTypeChar \<Rightarrow> TypeChar_DeserializeFrom buf i null
   | kTypeInvalid \<Rightarrow> None)"

definition TypeInt_GetSerializedSize :: "Field \<Rightarrow> bool \<Rightarrow> u32 option" where
  "TypeInt_GetSerializedSize field null = (if null then Some 0 else GetTypeSize kTypeInt)"

definition TypeFloat_GetSerializedSize :: "Field \<Rightarrow> bool \<Rightarrow> u32 option" where
  "TypeFloat_GetSerializedSize field null = (if null then Some 0 else GetTypeSize kTypeFloat)"

definition TypeChar_GetSerializedSize :: "Field \<Rightarrow> bool \<Rightarrow> u32 option" where
  "TypeChar_GetSerializedSize field null = (if null then Some 0 else Some (flen field + 4))"

definition Field_GetSerializedSize :: "Field \<Rightarrow> u32 option" where
  "Field_GetSerializedSize field = (case type_id field of
     kTypeInt \<Rightarrow> TypeInt_GetSerializedSize field (is_null field)
   | kTypeFloat \<Rightarrow> TypeFloat_GetSerializedSize field (is_null field)
   | kTypeChar \<Rightarrow> TypeChar_GetSerializedSize field (is_null field)
   | kTypeInvalid \<Rightarrow> None)"

subsection \<open>Comparison\<close>

text \<open>
  \<open>memcmp\<close> on two arrays: the difference of the first bytes that differ, read as unsigned numbers; \<open>None\<close>
  when the count leaves one of them.
\<close>

fun memcmp :: "u8 list \<Rightarrow> u8 list \<Rightarrow> nat \<Rightarrow> int option" where
  "memcmp xs ys 0 = Some 0"
| "memcmp (x # xs) (y # ys) (Suc n) = (if x = y then memcmp xs ys n else Some (uint x - uint y))"
| "memcmp _ _ (Suc n) = None"

definition CompareStrings :: "u8 list \<Rightarrow> int \<Rightarrow> u8 list \<Rightarrow> int \<Rightarrow> int option" where
  "CompareStrings str1 len1 str2 len2 =
     (if len1 < 0 \<or> len2 < 0 then None
      else do {
        ret \<leftarrow> memcmp str1 str2 (nat (min len1 len2));
        Some (if ret = 0 \<and> len1 \<noteq> len2 then len1 - len2 else ret) })"

text \<open>
  The value of a float in units of \<open>2\<^bsup>-149\<^esup>\<close>, with the infinities beyond all finite numbers; \<open>None\<close> for a NaN,
  which no comparison but \<open>!=\<close> accepts.
\<close>

definition float_number :: "u32 \<Rightarrow> int option" where
  "float_number w = (let e = unat (drop_bit 23 w AND 255); m = uint (w AND 8388607);
       a = (if e = 0 then m else (8388608 + m) * 2 ^ (e - 1))
     in if e = 255 \<and> m \<noteq> 0 then None else Some (if bit w 31 then - a else a))"

definition float_rel :: "(int \<Rightarrow> int \<Rightarrow> bool) \<Rightarrow> u32 \<Rightarrow> u32 \<Rightarrow> bool" where
  "float_rel r a b = (case (float_number a, float_number b) of (Some x, Some y) \<Rightarrow> r x y | _ \<Rightarrow> False)"

text \<open>The comparisons differ in the operator only: the checks in front of it are these.\<close>

definition compare_guard :: "Field \<Rightarrow> Field \<Rightarrow> bool option \<Rightarrow> CmpBool option" where
  "compare_guard left right outcome =
     (if type_id left \<noteq> type_id right then None
      else if is_null left \<or> is_null right then Some kNull
      else map_option GetCmpBool outcome)"

definition int_outcome :: "(int \<Rightarrow> int \<Rightarrow> bool) \<Rightarrow> Field \<Rightarrow> Field \<Rightarrow> bool option" where
  "int_outcome r left right = (case (fvalue left, fvalue right) of
     (VInteger a, VInteger b) \<Rightarrow> Some (r (sint a) (sint b)) | _ \<Rightarrow> None)"

definition float_outcome :: "(u32 \<Rightarrow> u32 \<Rightarrow> bool) \<Rightarrow> Field \<Rightarrow> Field \<Rightarrow> bool option" where
  "float_outcome r left right = (case (fvalue left, fvalue right) of
     (VFloat a, VFloat b) \<Rightarrow> Some (r a b) | _ \<Rightarrow> None)"

definition char_outcome :: "(int \<Rightarrow> bool) \<Rightarrow> Field \<Rightarrow> Field \<Rightarrow> bool option" where
  "char_outcome r left right = (case (fvalue left, fvalue right) of
     (VChars a, VChars b) \<Rightarrow> map_option r (CompareStrings a (sint (flen left)) b (sint (flen right))) | _ \<Rightarrow> None)"

definition TypeInt_CompareEquals :: "Field \<Rightarrow> Field \<Rightarrow> CmpBool option" where
  "TypeInt_CompareEquals left right = compare_guard left right (int_outcome (=) left right)"

definition TypeInt_CompareNotEquals :: "Field \<Rightarrow> Field \<Rightarrow> CmpBool option" where
  "TypeInt_CompareNotEquals left right = compare_guard left right (int_outcome (\<noteq>) left right)"

definition TypeInt_CompareLessThan :: "Field \<Rightarrow> Field \<Rightarrow> CmpBool option" where
  "TypeInt_CompareLessThan left right = compare_guard left right (int_outcome (<) left right)"

definition TypeInt_CompareLessThanEquals :: "Field \<Rightarrow> Field \<Rightarrow> CmpBool option" where
  "TypeInt_CompareLessThanEquals left right = compare_guard left right (int_outcome (\<le>) left right)"

definition TypeInt_CompareGreaterThan :: "Field \<Rightarrow> Field \<Rightarrow> CmpBool option" where
  "TypeInt_CompareGreaterThan left right = compare_guard left right (int_outcome (>) left right)"

definition TypeInt_CompareGreaterThanEquals :: "Field \<Rightarrow> Field \<Rightarrow> CmpBool option" where
  "TypeInt_CompareGreaterThanEquals left right = compare_guard left right (int_outcome (\<ge>) left right)"

definition TypeFloat_CompareEquals :: "Field \<Rightarrow> Field \<Rightarrow> CmpBool option" where
  "TypeFloat_CompareEquals left right = compare_guard left right (float_outcome (float_rel (=)) left right)"

definition TypeFloat_CompareNotEquals :: "Field \<Rightarrow> Field \<Rightarrow> CmpBool option" where
  "TypeFloat_CompareNotEquals left right = compare_guard left right (float_outcome (\<lambda>a b. \<not> float_rel (=) a b) left right)"

definition TypeFloat_CompareLessThan :: "Field \<Rightarrow> Field \<Rightarrow> CmpBool option" where
  "TypeFloat_CompareLessThan left right = compare_guard left right (float_outcome (float_rel (<)) left right)"

definition TypeFloat_CompareLessThanEquals :: "Field \<Rightarrow> Field \<Rightarrow> CmpBool option" where
  "TypeFloat_CompareLessThanEquals left right = compare_guard left right (float_outcome (float_rel (\<le>)) left right)"

definition TypeFloat_CompareGreaterThan :: "Field \<Rightarrow> Field \<Rightarrow> CmpBool option" where
  "TypeFloat_CompareGreaterThan left right = compare_guard left right (float_outcome (float_rel (>)) left right)"

definition TypeFloat_CompareGreaterThanEquals :: "Field \<Rightarrow> Field \<Rightarrow> CmpBool option" where
  "TypeFloat_CompareGreaterThanEquals left right = compare_guard left right (float_outcome (float_rel (\<ge>)) left right)"

definition TypeChar_CompareEquals :: "Field \<Rightarrow> Field \<Rightarrow> CmpBool option" where
  "TypeChar_CompareEquals left right = compare_guard left right (char_outcome (\<lambda>r. r = 0) left right)"

definition TypeChar_CompareNotEquals :: "Field \<Rightarrow> Field \<Rightarrow> CmpBool option" where
  "TypeChar_CompareNotEquals left right = compare_guard left right (char_outcome (\<lambda>r. r \<noteq> 0) left right)"

definition TypeChar_CompareLessThan :: "Field \<Rightarrow> Field \<Rightarrow> CmpBool option" where
  "TypeChar_CompareLessThan left right = compare_guard left right (char_outcome (\<lambda>r. r < 0) left right)"

definition TypeChar_CompareLessThanEquals :: "Field \<Rightarrow> Field \<Rightarrow> CmpBool option" where
  "TypeChar_CompareLessThanEquals left right = compare_guard left right (char_outcome (\<lambda>r. r \<le> 0) left right)"

definition TypeChar_CompareGreaterThan :: "Field \<Rightarrow> Field \<Rightarrow> CmpBool option" where
  "TypeChar_CompareGreaterThan left right = compare_guard left right (char_outcome (\<lambda>r. r > 0) left right)"

definition TypeChar_CompareGreaterThanEquals :: "Field \<Rightarrow> Field \<Rightarrow> CmpBool option" where
  "TypeChar_CompareGreaterThanEquals left right = compare_guard left right (char_outcome (\<lambda>r. r \<ge> 0) left right)"

definition CompareEquals :: "Field \<Rightarrow> Field \<Rightarrow> CmpBool option" where
  "CompareEquals f o' = (case type_id f of
     kTypeInt \<Rightarrow> TypeInt_CompareEquals f o' | kTypeFloat \<Rightarrow> TypeFloat_CompareEquals f o'
   | kTypeChar \<Rightarrow> TypeChar_CompareEquals f o' | kTypeInvalid \<Rightarrow> None)"

definition CompareNotEquals :: "Field \<Rightarrow> Field \<Rightarrow> CmpBool option" where
  "CompareNotEquals f o' = (case type_id f of
     kTypeInt \<Rightarrow> TypeInt_CompareNotEquals f o' | kTypeFloat \<Rightarrow> TypeFloat_CompareNotEquals f o'
   | kTypeChar \<Rightarrow> TypeChar_CompareNotEquals f o' | kTypeInvalid \<Rightarrow> None)"

definition CompareLessThan :: "Field \<Rightarrow> Field \<Rightarrow> CmpBool option" where
  "CompareLessThan f o' = (case type_id f of
     kTypeInt \<Rightarrow> TypeInt_CompareLessThan f o' | kTypeFloat \<Rightarrow> TypeFloat_CompareLessThan f o'
   | kTypeChar \<Rightarrow> TypeChar_CompareLessThan f o' | kTypeInvalid \<Rightarrow> None)"

definition CompareLessThanEquals :: "Field \<Rightarrow> Field \<Rightarrow> CmpBool option" where
  "CompareLessThanEquals f o' = (case type_id f of
     kTypeInt \<Rightarrow> TypeInt_CompareLessThanEquals f o' | kTypeFloat \<Rightarrow> TypeFloat_CompareLessThanEquals f o'
   | kTypeChar \<Rightarrow> TypeChar_CompareLessThanEquals f o' | kTypeInvalid \<Rightarrow> None)"

definition CompareGreaterThan :: "Field \<Rightarrow> Field \<Rightarrow> CmpBool option" where
  "CompareGreaterThan f o' = (case type_id f of
     kTypeInt \<Rightarrow> TypeInt_CompareGreaterThan f o' | kTypeFloat \<Rightarrow> TypeFloat_CompareGreaterThan f o'
   | kTypeChar \<Rightarrow> TypeChar_CompareGreaterThan f o' | kTypeInvalid \<Rightarrow> None)"

definition CompareGreaterThanEquals :: "Field \<Rightarrow> Field \<Rightarrow> CmpBool option" where
  "CompareGreaterThanEquals f o' = (case type_id f of
     kTypeInt \<Rightarrow> TypeInt_CompareGreaterThanEquals f o' | kTypeFloat \<Rightarrow> TypeFloat_CompareGreaterThanEquals f o'
   | kTypeChar \<Rightarrow> TypeChar_CompareGreaterThanEquals f o' | kTypeInvalid \<Rightarrow> None)"

section \<open>Fields and their images\<close>

text \<open>
  A field as the constructors build it, with its character string short enough to be read back; the
  bytes it is serialized to; and the field that reading gives, where a null field has lost the length
  of its constructor.
\<close>

definition field_ok :: "Field \<Rightarrow> bool" where
  "field_ok f \<longleftrightarrow> (if is_null f then type_id f \<noteq> kTypeInvalid
     else case fvalue f of
       VInteger v \<Rightarrow> type_id f = kTypeInt \<and> flen f = 4
     | VFloat v \<Rightarrow> type_id f = kTypeFloat \<and> flen f = 4
     | VChars a \<Rightarrow> type_id f = kTypeChar \<and> flen f = of_nat (length a) \<and> length a < 2048
     | VUnset \<Rightarrow> False)"

definition field_image :: "Field \<Rightarrow> u8 list" where
  "field_image f = (if is_null f then [] else case fvalue f of
     VInteger v \<Rightarrow> le32 v | VFloat v \<Rightarrow> le32 v | VChars a \<Rightarrow> le32 (flen f) @ a | VUnset \<Rightarrow> [])"

definition field_read :: "Field \<Rightarrow> Field" where
  "field_read f = (if is_null f then Field_null (type_id f) else f)"

text \<open>The four shapes of a well-formed field.\<close>

lemma field_ok_cases:
  assumes "field_ok f"
  obtains (null) "is_null f" "type_id f \<noteq> kTypeInvalid"
  | (int) v where "f = \<lparr>fvalue = VInteger v, type_id = kTypeInt, flen = 4, is_null = False\<rparr>"
  | (float) v where "f = \<lparr>fvalue = VFloat v, type_id = kTypeFloat, flen = 4, is_null = False\<rparr>"
  | (char) a where "f = \<lparr>fvalue = VChars a, type_id = kTypeChar, flen = of_nat (length a), is_null = False\<rparr>" "length a < 2048"
  using assms by (cases f) (auto simp: field_ok_def split: if_splits Val.splits)

lemma unat_small32: "n < 4294967296 \<Longrightarrow> unat (of_nat n :: u32) = n"
  by (simp add: unat_of_nat)

lemma Field_SerializeTo_image:
  assumes "field_ok f" "i = length as" "length old = length (field_image f)"
  shows "Field_SerializeTo f (as @ old @ bs) i = Some (as @ field_image f @ bs, of_nat (length (field_image f)))"
  using assms(1)
proof (cases rule: field_ok_cases)
  case null
  then show ?thesis using assms by (cases "type_id f")
    (auto simp: Field_SerializeTo_def TypeInt_SerializeTo_def TypeFloat_SerializeTo_def TypeChar_SerializeTo_def field_image_def)
next
  case (int v)
  then show ?thesis using assms write_segment [of i as old "le32 v" bs]
    by (simp add: Field_SerializeTo_def TypeInt_SerializeTo_def field_image_def)
next
  case (float v)
  then show ?thesis using assms write_segment [of i as old "le32 v" bs]
    by (simp add: Field_SerializeTo_def TypeFloat_SerializeTo_def field_image_def)
next
  case (char a)
  obtain o1 o2 where o: "old = o1 @ o2" "length o1 = 4" "length o2 = length a"
    using split_at [of 4 "length a" old] assms(3) char by (auto simp: field_image_def)
  have "write_bytes (as @ o1 @ o2 @ bs) i (le32 (flen f)) = Some (as @ le32 (flen f) @ o2 @ bs)"
    using assms o by (intro write_segment) auto
  moreover have "write_bytes ((as @ le32 (flen f)) @ o2 @ bs) (i + 4) a = Some ((as @ le32 (flen f)) @ a @ bs)"
    using assms o by (intro write_segment) auto
  ultimately show ?thesis using char o
    by (simp add: Field_SerializeTo_def TypeChar_SerializeTo_def field_image_def unat_small32 add.commute Let_def)
qed

lemma Field_DeserializeFrom_image:
  assumes "field_ok f" "i = length as"
  shows "Field_DeserializeFrom (as @ field_image f @ bs) i (type_id f) (is_null f)
    = Some (field_read f, of_nat (length (field_image f)))"
  using assms(1)
proof (cases rule: field_ok_cases)
  case null
  then show ?thesis by (cases "type_id f") (auto simp: Field_DeserializeFrom_def TypeInt_DeserializeFrom_def
        TypeFloat_DeserializeFrom_def TypeChar_DeserializeFrom_def field_image_def field_read_def)
next
  case (int v)
  then show ?thesis using assms(2)
    by (simp add: Field_DeserializeFrom_def TypeInt_DeserializeFrom_def Field_int_def field_image_def field_read_def read32_segment)
next
  case (float v)
  then show ?thesis using assms(2)
    by (simp add: Field_DeserializeFrom_def TypeFloat_DeserializeFrom_def Field_float_def field_image_def field_read_def read32_segment)
next
  case (char a)
  then have "(of_nat (length a) :: u32) < 2048" by (simp add: word_less_nat_alt unat_small32)
  then show ?thesis using char assms(2)
    by (simp add: Field_DeserializeFrom_def TypeChar_DeserializeFrom_def Field_char_def field_image_def field_read_def
        read32_segment unat_small32 VARCHAR_MAX_LEN_def add.commute)
qed

lemma Field_GetSerializedSize_image:
  assumes "field_ok f"
  shows "Field_GetSerializedSize f = Some (of_nat (length (field_image f)))"
  using assms
proof (cases rule: field_ok_cases)
  case null
  then show ?thesis by (cases "type_id f") (auto simp: Field_GetSerializedSize_def TypeInt_GetSerializedSize_def
        TypeFloat_GetSerializedSize_def TypeChar_GetSerializedSize_def field_image_def)
qed (auto simp: Field_GetSerializedSize_def TypeInt_GetSerializedSize_def TypeFloat_GetSerializedSize_def
      TypeChar_GetSerializedSize_def field_image_def)

lemma field_image_bound: "field_ok f \<Longrightarrow> length (field_image f) < 2052"
  by (cases rule: field_ok_cases) (auto simp: field_image_def)

section \<open>The order of fields\<close>

lemma memcmp_lexord:
  "\<exists>r. memcmp xs ys (min (length xs) (length ys)) = Some r
    \<and> (r < 0 \<or> r = 0 \<and> length xs < length ys \<longleftrightarrow> ord_class.lexordp xs ys) \<and> (r = 0 \<and> length xs = length ys \<longleftrightarrow> xs = ys)"
proof (induction xs arbitrary: ys)
  case Nil
  then show ?case by (cases ys) auto
next
  case (Cons x xs)
  show ?case
  proof (cases ys)
    case (Cons y zs)
    from Cons.IH [of zs] obtain r where "memcmp xs zs (min (length xs) (length zs)) = Some r"
      "r < 0 \<or> r = 0 \<and> length xs < length zs \<longleftrightarrow> ord_class.lexordp xs zs" "r = 0 \<and> length xs = length zs \<longleftrightarrow> xs = zs" by blast
    moreover have "x \<noteq> y \<Longrightarrow> uint x \<noteq> uint y" by (simp add: word_uint_eq_iff)
    ultimately show ?thesis using Cons by (cases "x = y") (auto simp: word_less_def)
  qed simp
qed

lemma CompareStrings_lexord:
  "\<exists>r. CompareStrings xs (int (length xs)) ys (int (length ys)) = Some r
    \<and> (r < 0 \<longleftrightarrow> ord_class.lexordp xs ys) \<and> (r = 0 \<longleftrightarrow> xs = ys)"
proof -
  obtain r where r: "memcmp xs ys (min (length xs) (length ys)) = Some r"
    "r < 0 \<or> r = 0 \<and> length xs < length ys \<longleftrightarrow> ord_class.lexordp xs ys" "r = 0 \<and> length xs = length ys \<longleftrightarrow> xs = ys"
    using memcmp_lexord by blast
  have "nat (min (int (length xs)) (int (length ys))) = min (length xs) (length ys)" by simp
  then show ?thesis using r by (auto simp: CompareStrings_def)
qed

lemma sint_small32: "n < 2147483648 \<Longrightarrow> sint (of_nat n :: u32) = int n"
  by (simp add: signed_of_nat signed_take_bit_int_eq_self)

text \<open>
  What the comparisons mean: integers by their signed value, floats by their number, strings in the
  lexicographic order of their bytes.
\<close>

definition field_less :: "Field \<Rightarrow> Field \<Rightarrow> bool" where
  "field_less f g = (case (fvalue f, fvalue g) of
     (VInteger a, VInteger b) \<Rightarrow> sint a < sint b | (VFloat a, VFloat b) \<Rightarrow> float_rel (<) a b
   | (VChars a, VChars b) \<Rightarrow> ord_class.lexordp a b | _ \<Rightarrow> False)"

definition field_same :: "Field \<Rightarrow> Field \<Rightarrow> bool" where
  "field_same f g = (case (fvalue f, fvalue g) of
     (VInteger a, VInteger b) \<Rightarrow> a = b | (VFloat a, VFloat b) \<Rightarrow> float_rel (=) a b
   | (VChars a, VChars b) \<Rightarrow> a = b | _ \<Rightarrow> False)"

lemmas compare_defs = CompareEquals_def CompareNotEquals_def CompareLessThan_def CompareLessThanEquals_def
  CompareGreaterThan_def CompareGreaterThanEquals_def

lemmas compare_int_defs = TypeInt_CompareEquals_def TypeInt_CompareNotEquals_def TypeInt_CompareLessThan_def
  TypeInt_CompareLessThanEquals_def TypeInt_CompareGreaterThan_def TypeInt_CompareGreaterThanEquals_def int_outcome_def

lemmas compare_float_defs = TypeFloat_CompareEquals_def TypeFloat_CompareNotEquals_def TypeFloat_CompareLessThan_def
  TypeFloat_CompareLessThanEquals_def TypeFloat_CompareGreaterThan_def TypeFloat_CompareGreaterThanEquals_def float_outcome_def

lemmas compare_char_defs = TypeChar_CompareEquals_def TypeChar_CompareNotEquals_def TypeChar_CompareLessThan_def
  TypeChar_CompareLessThanEquals_def TypeChar_CompareGreaterThan_def TypeChar_CompareGreaterThanEquals_def char_outcome_def

text \<open>
  Two fields of one type are compared by one order: with a null field every comparison is
  \<open>kNull\<close>, otherwise the six comparisons are those of \<open>field_less\<close> and \<open>field_same\<close>, and strings are ordered
  lexicographically by unsigned bytes, shorter before longer.
\<close>

lemma field_verdicts:
  assumes "field_ok f" "field_ok g" "type_id f = type_id g"
  shows "let verdict = (\<lambda>b. Some (if is_null f \<or> is_null g then kNull else GetCmpBool b)) in
    CompareEquals f g = verdict (field_same f g) \<and> CompareNotEquals f g = verdict (\<not> field_same f g)
    \<and> CompareLessThan f g = verdict (field_less f g) \<and> CompareLessThanEquals f g = verdict (field_less f g \<or> field_same f g)
    \<and> CompareGreaterThan f g = verdict (field_less g f) \<and> CompareGreaterThanEquals f g = verdict (field_less g f \<or> field_same f g)"
proof (cases "is_null f \<or> is_null g")
  case True
  have "type_id f \<noteq> kTypeInvalid" using assms(1) by (cases rule: field_ok_cases) auto
  then show ?thesis using True assms(3)
    by (cases "type_id f") (simp_all add: compare_defs compare_int_defs compare_float_defs compare_char_defs compare_guard_def)
next
  case False
  from assms(1) show ?thesis
  proof (cases rule: field_ok_cases)
    case null
    with False show ?thesis by simp
  next
    case (int a)
    with assms(2,3) False obtain b where "g = \<lparr>fvalue = VInteger b, type_id = kTypeInt, flen = 4, is_null = False\<rparr>"
      by (elim field_ok_cases) auto
    moreover have "a = b \<longleftrightarrow> sint a = sint b" by (auto intro: signed_word_eqI)
    ultimately show ?thesis using int
      by (simp add: compare_defs compare_int_defs compare_guard_def field_same_def field_less_def le_less eq_commute [of "sint b" "sint a"])
  next
    case (float a)
    with assms(2,3) False obtain b where "g = \<lparr>fvalue = VFloat b, type_id = kTypeFloat, flen = 4, is_null = False\<rparr>"
      by (elim field_ok_cases) auto
    with float show ?thesis
      by (auto simp: compare_defs compare_float_defs compare_guard_def field_same_def field_less_def float_rel_def GetCmpBool_def split: option.splits)
  next
    case (char a)
    with assms(2,3) False obtain b where b: "g = \<lparr>fvalue = VChars b, type_id = kTypeChar, flen = of_nat (length b), is_null = False\<rparr>"
      "length b < 2048" by (elim field_ok_cases) auto
    obtain r where r: "CompareStrings a (int (length a)) b (int (length b)) = Some r" "r < 0 \<longleftrightarrow> ord_class.lexordp a b" "r = 0 \<longleftrightarrow> a = b"
      using CompareStrings_lexord by blast
    have "0 < r \<longleftrightarrow> ord_class.lexordp b a"
      using r(2,3) lexordp_linear [of a b] lexordp_antisym [of a b] lexordp_irreflexive' [of a] by auto
    then show ?thesis using char b r
      by (auto simp: compare_defs compare_char_defs compare_guard_def field_same_def field_less_def sint_small32)
  qed
qed

end
