(* ===== verification/Schemas.thy ===== *)
theory Schemas
  imports Field_Types
begin

text \<open>
  Columns and schemas, \<open>MiniSQL/src/record/column.cpp\<close> and \<open>record/schema.cpp\<close>: construction, lookup of a column and
  serialization. A schema of well-formed columns is restored from its image.
\<close>

section \<open>Model\<close>

record Column =
  col_name :: "u8 list"
  col_type :: TypeId
  col_len :: u32
  table_ind :: u32
  nullable :: bool
  unique :: bool

definition COLUMN_MAGIC_NUM :: u32 where "COLUMN_MAGIC_NUM = 210928"
definition SCHEMA_MAGIC_NUM :: u32 where "SCHEMA_MAGIC_NUM = 200715"

text \<open>The constructor without a length refuses strings and unknown types.\<close>

definition Column_fixed :: "u8 list \<Rightarrow> TypeId \<Rightarrow> u32 \<Rightarrow> bool \<Rightarrow> bool \<Rightarrow> Column option" where
  "Column_fixed column_name type ind null uniq = (case type of
     kTypeInt \<Rightarrow> Some \<lparr>col_name = column_name, col_type = type, col_len = 4, table_ind = ind, nullable = null, unique = uniq\<rparr>
   | kTypeFloat \<Rightarrow> Some \<lparr>col_name = column_name, col_type = type, col_len = 4, table_ind = ind, nullable = null, unique = uniq\<rparr>
   | _ \<Rightarrow> None)"

definition Column_char :: "u8 list \<Rightarrow> TypeId \<Rightarrow> u32 \<Rightarrow> u32 \<Rightarrow> bool \<Rightarrow> bool \<Rightarrow> Column option" where
  "Column_char column_name type len ind null uniq = (if type \<noteq> kTypeChar then None
     else Some \<lparr>col_name = column_name, col_type = type, col_len = len, table_ind = ind, nullable = null, unique = uniq\<rparr>)"

definition bool_byte :: "bool \<Rightarrow> u8" where
  "bool_byte b = (if b then 1 else 0)"

definition Column_SerializeTo :: "Column \<Rightarrow> u8 list \<Rightarrow> nat \<Rightarrow> (u8 list \<times> u32) option" where
  "Column_SerializeTo c buf i = do {
     buf \<leftarrow> write_bytes buf i (le32 COLUMN_MAGIC_NUM);
     let size = (of_nat (length (col_name c)) :: u32);
     buf \<leftarrow> write_bytes buf (i + 4) (le32 size);
     buf \<leftarrow> write_bytes buf (i + 8) (col_name c);
     let len = 8 + size;
     buf \<leftarrow> write_bytes buf (i + unat len) (le32 (type_code (col_type c)));
     let len = len + 4;
     buf \<leftarrow> write_bytes buf (i + unat len) (le32 (col_len c));
     let len = len + 4;
     buf \<leftarrow> write_bytes buf (i + unat len) (le32 (table_ind c));
     let len = len + 4;
     buf \<leftarrow> write_bytes buf (i + unat len) [bool_byte (nullable c)];
     let len = len + 1;
     buf \<leftarrow> write_bytes buf (i + unat len) [bool_byte (unique c)];
     let len = len + 1;
     Some (buf, len) }"

definition Column_GetSerializedSize :: "Column \<Rightarrow> u32" where
  "Column_GetSerializedSize c = 4 * 4 + 2 * 1 + of_nat (length (col_name c)) + 4"

definition read8 :: "u8 list \<Rightarrow> nat \<Rightarrow> u8 option" where
  "read8 bs i = (if i < length bs then Some (bs ! i) else None)"

text \<open>
  The name is copied into an array of \<open>length + 1\<close> bytes and passed as a C string, which ends at its
  first zero byte.
\<close>

definition Column_DeserializeFrom :: "u8 list \<Rightarrow> nat \<Rightarrow> (Column \<times> u32) option" where
  "Column_DeserializeFrom buf i = do {
     magic_num \<leftarrow> read32 buf i;
     if magic_num \<noteq> COLUMN_MAGIC_NUM then None else do {
     len' \<leftarrow> read32 buf (i + 4);
     if len' + 1 = 0 \<or> length buf < i + 8 + unat len' then None else do {
     let name = takeWhile (\<lambda>b. b \<noteq> 0) (take (unat len') (drop (i + 8) buf));
     let len = 8 + len';
     w \<leftarrow> read32 buf (i + unat len);
     typeId \<leftarrow> type_of_code w;
     let len = len + 4;
     l \<leftarrow> read32 buf (i + unat len);
     let len = len + 4;
     ind \<leftarrow> read32 buf (i + unat len);
     let len = len + 4;
     null \<leftarrow> read8 buf (i + unat len);
     let len = len + 1;
     uniq \<leftarrow> read8 buf (i + unat len);
     let len = len + 1;
     c \<leftarrow> (if typeId = kTypeChar then Column_char name typeId l ind (null \<noteq> 0) (uniq \<noteq> 0)
       else Column_fixed name typeId ind (null \<noteq> 0) (uniq \<noteq> 0));
     Some (c, len) }}}"

text \<open>A schema is its vector of columns; one turn of each of its loops.\<close>

definition put_column :: "Column \<Rightarrow> u8 list \<Rightarrow> nat \<Rightarrow> u32 \<Rightarrow> (u8 list \<times> u32) option" where
  "put_column c buf i len = do { (buf, n) \<leftarrow> Column_SerializeTo c buf (i + unat len); Some (buf, len + n) }"

definition get_column :: "nat \<Rightarrow> u8 list \<Rightarrow> nat \<Rightarrow> u32 \<Rightarrow> (Column \<times> u32) option" where
  "get_column k buf i len = do { (c, n) \<leftarrow> Column_DeserializeFrom buf (i + unat len); Some (c, len + n) }"

definition Schema_SerializeTo :: "Column list \<Rightarrow> u8 list \<Rightarrow> nat \<Rightarrow> (u8 list \<times> u32) option" where
  "Schema_SerializeTo columns buf i = do {
     buf \<leftarrow> write_bytes buf i (le32 SCHEMA_MAGIC_NUM);
     let size = (of_nat (length columns) :: u32);
     buf \<leftarrow> write_bytes buf (i + 4) (le32 size);
     put_all put_column (take (unat size) columns) buf i 8 }"

fun columns_size :: "Column list \<Rightarrow> u32 \<Rightarrow> u32" where
  "columns_size [] len = len"
| "columns_size (c # cs) len = columns_size cs (len + Column_GetSerializedSize c)"

definition Schema_GetSerializedSize :: "Column list \<Rightarrow> u32" where
  "Schema_GetSerializedSize columns = columns_size columns 0 + 2 * 4"

definition Schema_DeserializeFrom :: "u8 list \<Rightarrow> nat \<Rightarrow> (Column list \<times> u32) option" where
  "Schema_DeserializeFrom buf i = do {
     magic_num \<leftarrow> read32 buf i;
     if magic_num \<noteq> SCHEMA_MAGIC_NUM then None else do {
     size \<leftarrow> read32 buf (i + 4);
     get_all get_column [0..<unat size] buf i 8 }}"

text \<open>The index of the first column with a name; \<open>None\<close> is \<open>DB_COLUMN_NAME_NOT_EXIST\<close>.\<close>

fun GetColumnIndex_from :: "Column list \<Rightarrow> u8 list \<Rightarrow> u32 \<Rightarrow> u32 option" where
  "GetColumnIndex_from [] name i = None"
| "GetColumnIndex_from (c # cs) name i = (if col_name c = name then Some i else GetColumnIndex_from cs name (i + 1))"

definition GetColumnIndex :: "Column list \<Rightarrow> u8 list \<Rightarrow> u32 option" where
  "GetColumnIndex columns name = GetColumnIndex_from columns name 0"

text \<open>The columns of an index, by their positions in the table; \<open>None\<close> is a position outside it.\<close>

fun ShallowCopySchema :: "Column list \<Rightarrow> u32 list \<Rightarrow> Column list option" where
  "ShallowCopySchema table_schema [] = Some []"
| "ShallowCopySchema table_schema (i # attrs) = (if unat i < length table_schema
     then map_option ((#) (table_schema ! unat i)) (ShallowCopySchema table_schema attrs) else None)"

section \<open>Images\<close>

text \<open>A column as its constructors build it, with a name that has no zero byte.\<close>

definition column_ok :: "Column \<Rightarrow> bool" where
  "column_ok c \<longleftrightarrow> 0 \<notin> set (col_name c) \<and> length (col_name c) + 22 < 2 ^ 32 \<and>
     (col_type c = kTypeChar \<or> col_type c \<in> {kTypeInt, kTypeFloat} \<and> col_len c = 4)"

definition column_image :: "Column \<Rightarrow> u8 list" where
  "column_image c = le32 COLUMN_MAGIC_NUM @ le32 (of_nat (length (col_name c))) @ col_name c @ le32 (type_code (col_type c))
     @ le32 (col_len c) @ le32 (table_ind c) @ [bool_byte (nullable c)] @ [bool_byte (unique c)]"

lemma column_image_length [simp]: "length (column_image c) = 22 + length (col_name c)"
  by (simp add: column_image_def)

lemma column_offsets:
  assumes "n + 22 < 4294967296" "w = (of_nat n :: u32)"
  shows "unat w = n" "unat (8 + w) = n + 8" "unat (8 + w + 4) = n + 12" "unat (8 + w + 4 + 4) = n + 16" "unat (8 + w + 4 + 4 + 4) = n + 20"
    "unat (8 + w + 4 + 4 + 4 + 1) = n + 21" "8 + w + 4 + 4 + 4 + 1 + 1 = of_nat (22 + n)" "w + 1 \<noteq> 0"
proof -
  have "unat (of_nat (n + k) :: u32) = n + k" if "k \<le> 22" for k using assms(1) that by (intro unat_small32) simp
  from this [of 0] this [of 8] this [of 12] this [of 16] this [of 20] this [of 21]
  show "unat w = n" "unat (8 + w) = n + 8" "unat (8 + w + 4) = n + 12" "unat (8 + w + 4 + 4) = n + 16" "unat (8 + w + 4 + 4 + 4) = n + 20"
    "unat (8 + w + 4 + 4 + 4 + 1) = n + 21" "8 + w + 4 + 4 + 4 + 1 + 1 = of_nat (22 + n)"
    using assms(2) by (simp_all add: ac_simps)
  have "unat (of_nat (n + 1) :: u32) = n + 1" using assms(1) by (intro unat_small32) simp
  then show "w + 1 \<noteq> 0" using assms(2) by (metis add_is_0 of_nat_1 of_nat_add one_neq_zero unat_0)
qed


lemma Column_SerializeTo_write:
  assumes "column_ok c"
  shows "Column_SerializeTo c buf i = Option.bind (write_bytes buf i (column_image c)) (\<lambda>b. Some (b, of_nat (length (column_image c))))"
proof -
  have n: "length (col_name c) + 22 < 4294967296" using assms by (simp add: column_ok_def)
  note w = column_offsets [OF n refl]
  show ?thesis unfolding Column_SerializeTo_def Let_def w column_image_length column_image_def
    by (simp add: write_bytes_seq add.commute add.left_commute)
qed

lemma read8_skip: "length as \<le> i \<Longrightarrow> read8 (as @ bs) i = read8 bs (i - length as)"
  by (auto simp: read8_def nth_append)

lemma read8_here: "read8 (b # bs) 0 = Some b" "read8 (a # b # bs) (Suc 0) = Some b"
  by (simp_all add: read8_def)

lemma takeWhile_all: "0 \<notin> set xs \<Longrightarrow> takeWhile (\<lambda>b. b \<noteq> 0) xs = xs"
  by (induction xs) auto

lemma Column_DeserializeFrom_image:
  assumes "column_ok c" "i = length as"
  shows "Column_DeserializeFrom (as @ column_image c @ bs) i = Some (c, of_nat (length (column_image c)))"
proof -
  let ?n = "length (col_name c)"
  have n: "?n + 22 < 4294967296" using assms by (simp add: column_ok_def)
  note w = column_offsets [OF n refl]
  define B where "B = as @ column_image c @ bs"
  have r: "read32 B i = Some COLUMN_MAGIC_NUM" "read32 B (i + 4) = Some (of_nat ?n)"
    "read32 B (i + (?n + 8)) = Some (type_code (col_type c))" "read32 B (i + (?n + 12)) = Some (col_len c)"
    "read32 B (i + (?n + 16)) = Some (table_ind c)"
    "read8 B (i + (?n + 20)) = Some (bool_byte (nullable c))" "read8 B (i + (?n + 21)) = Some (bool_byte (unique c))"
    by (simp_all add: B_def column_image_def assms(2) read32_skip read32_here read8_skip read8_here)
  have d: "takeWhile (\<lambda>b. b \<noteq> 0) (take ?n (drop (i + 8) B)) = col_name c" "\<not> length B < i + 8 + ?n"
    using assms by (simp_all add: B_def column_image_def column_ok_def takeWhile_all)
  have t: "type_of_code (type_code (col_type c)) = Some (col_type c)" by (cases "col_type c") (auto simp: type_of_code_def type_code_def)
  have b: "bool_byte x \<noteq> 0 \<longleftrightarrow> x" for x by (simp add: bool_byte_def)
  have c: "(if col_type c = kTypeChar then Column_char (col_name c) (col_type c) (col_len c) (table_ind c) (nullable c) (unique c)
       else Column_fixed (col_name c) (col_type c) (table_ind c) (nullable c) (unique c)) = Some c"
    using assms(1) by (cases c) (auto simp: column_ok_def Column_char_def Column_fixed_def)
  have "Column_DeserializeFrom B i = Some (c, of_nat (length (column_image c)))"
    unfolding Column_DeserializeFrom_def Let_def column_image_length using r d t c w by (cases "col_type c = kTypeChar") (simp_all add: b)
  then show ?thesis by (simp add: B_def)
qed

lemma write_segment_bind:
  "i = length as \<Longrightarrow> length old = length xs \<Longrightarrow> Option.bind (write_bytes (as @ old @ bs) i xs) f = f (as @ xs @ bs)"
  by (simp add: write_segment)

interpretation sc: codec put_column get_column column_image column_ok "\<lambda>k c. True" "\<lambda>c. c"
  by unfold_locales (simp_all add: put_column_def get_column_def Column_SerializeTo_write write_segment_bind
      Column_DeserializeFrom_image del: column_image_length)

definition schema_image :: "Column list \<Rightarrow> u8 list" where
  "schema_image cs = le32 SCHEMA_MAGIC_NUM @ le32 (of_nat (length cs)) @ sc.images cs"

definition schema_ok :: "Column list \<Rightarrow> bool" where
  "schema_ok cs \<longleftrightarrow> (\<forall>c\<in>set cs. column_ok c) \<and> length (schema_image cs) < 2 ^ 32"

lemma column_images_length_ge: "22 * length cs \<le> length (sc.images cs)"
  by (induction cs) auto

lemma schema_size: "schema_ok cs \<Longrightarrow> unat (of_nat (length cs) :: u32) = length cs"
  using column_images_length_ge [of cs] by (intro unat_small32) (simp add: schema_ok_def schema_image_def)

lemma Schema_SerializeTo_image:
  assumes "schema_ok cs" "i = length as" "length old = length (schema_image cs)"
  shows "Schema_SerializeTo cs (as @ old @ bs) i = Some (as @ schema_image cs @ bs, of_nat (length (schema_image cs)))"
proof -
  let ?h = "le32 SCHEMA_MAGIC_NUM @ le32 (of_nat (length cs))"
  obtain o1 o2 where o: "old = o1 @ o2" "length o1 = 8" "length o2 = length (sc.images cs)"
    using split_at [of 8 "length (sc.images cs)" old] assms(3) by (auto simp: schema_image_def)
  have "put_all put_column cs ((as @ ?h) @ o2 @ bs) i 8 = Some ((as @ ?h) @ sc.images cs @ bs, 8 + of_nat (length (sc.images cs)))"
    using assms o by (intro sc.put_all_images) (auto simp: schema_ok_def schema_image_def)
  then have "Option.bind (write_bytes (as @ o1 @ (o2 @ bs)) i ?h) (\<lambda>b. put_all put_column cs b i 8)
    = Some ((as @ ?h) @ sc.images cs @ bs, 8 + of_nat (length (sc.images cs)))"
    using assms(2) o by (subst write_segment_bind) auto
  then show ?thesis using assms(1) o
    by (simp add: Schema_SerializeTo_def write_bytes_seq schema_size schema_image_def)
qed

lemma Schema_DeserializeFrom_image:
  assumes "schema_ok cs" "i = length as"
  shows "Schema_DeserializeFrom (as @ schema_image cs @ bs) i = Some (cs, of_nat (length (schema_image cs)))"
proof -
  let ?h = "le32 SCHEMA_MAGIC_NUM @ le32 (of_nat (length cs))"
  have "get_all get_column [0..<length cs] ((as @ ?h) @ sc.images cs @ bs) i 8 = Some (map (\<lambda>c. c) cs, 8 + of_nat (length (sc.images cs)))"
    using assms by (intro sc.get_all_images) (auto simp: schema_ok_def schema_image_def list_all2_conv_all_nth)
  then show ?thesis using assms
    by (simp add: Schema_DeserializeFrom_def schema_size schema_image_def read32_skip read32_here)
qed

lemma columns_size_images: "columns_size cs len = len + of_nat (length (sc.images cs))"
  by (induction cs arbitrary: len) (auto simp: Column_GetSerializedSize_def)

lemma Schema_GetSerializedSize_image: "Schema_GetSerializedSize cs = of_nat (length (schema_image cs))"
  by (simp add: Schema_GetSerializedSize_def columns_size_images schema_image_def)

text \<open>
  A schema of well-formed columns is written in the number of bytes that \<open>GetSerializedSize\<close>
  announces, and reading at the place it was written to gives the same columns and the same size,
  whatever surrounds it.
\<close>

theorem schema_roundtrip:
  assumes "schema_ok cs" "i + length (schema_image cs) \<le> length buf"
  shows "\<exists>buf'. Schema_SerializeTo cs buf i = Some (buf', Schema_GetSerializedSize cs)
    \<and> Schema_DeserializeFrom buf' i = Some (cs, Schema_GetSerializedSize cs) \<and> take i buf' = take i buf"
proof -
  let ?k = "length (schema_image cs)"
  have "Schema_GetSerializedSize cs = of_nat ?k" by (rule Schema_GetSerializedSize_image)
  moreover have "Schema_SerializeTo cs (take i buf @ take ?k (drop i buf) @ drop (i + ?k) buf) i
    = Some (take i buf @ schema_image cs @ drop (i + ?k) buf, of_nat ?k)"
    using assms by (intro Schema_SerializeTo_image) auto
  moreover have "Schema_DeserializeFrom (take i buf @ schema_image cs @ drop (i + ?k) buf) i = Some (cs, of_nat ?k)"
    using assms by (intro Schema_DeserializeFrom_image) auto
  moreover have "take i buf @ take ?k (drop i buf) @ drop (i + ?k) buf = buf"
    by (metis append_take_drop_id drop_drop add.commute)
  ultimately show ?thesis using assms by auto
qed

end
