(* ===== verification/Bitmap_Page.thy ===== *)
theory Bitmap_Page
  imports Prelude "HOL-Library.Monad_Syntax"
begin

text \<open>
  The bitmap page of \<open>MiniSQL/src/page/bitmap_page.cpp\<close>, which records which pages of an extent are in
  use. The abstraction is the set of allocated offsets; an allocation takes the least free one.
\<close>

section \<open>Model\<close>

text \<open>
  The members of the class. The length of \<open>bytes\<close> is \<open>MAX_CHARS\<close>, which the template argument fixes.
  \<open>None\<close> is an access outside \<open>bytes\<close>.
\<close>

record BitmapPage =
  page_allocated :: u32
  next_free_page :: u32
  bytes :: "u8 list"

definition MAX_CHARS :: "BitmapPage \<Rightarrow> nat" where
  "MAX_CHARS B = length (bytes B)"

definition byte_at :: "BitmapPage \<Rightarrow> nat \<Rightarrow> u8 option" where
  "byte_at B i = (if i < MAX_CHARS B then Some (bytes B ! i) else None)"

text \<open>The loops of \<open>AllocatePage\<close>: the first byte up to \<open>page_allocated_\<close> that is not full, and its first zero bit.\<close>

function scan_bytes :: "BitmapPage \<Rightarrow> nat \<Rightarrow> nat option" where
  "scan_bytes B i =
     (if i \<le> unat (page_allocated B)
      then do { b \<leftarrow> byte_at B i; if b \<noteq> 255 then Some i else scan_bytes B (i + 1) }
      else Some i)"
  by auto
termination by (relation "measure (\<lambda>(B, i). Suc (unat (page_allocated B)) - i)") auto

definition scan_bits :: "u8 \<Rightarrow> nat" where
  "scan_bits b = length (takeWhile (\<lambda>j. bit b j) [0..<8])"

definition set_page_bit :: "u32 \<Rightarrow> BitmapPage \<Rightarrow> BitmapPage option" where
  "set_page_bit page_offset B = do {
     let byte_index = unat (page_offset div 8);
     let bit_index = unat (page_offset mod 8);
     b \<leftarrow> byte_at B byte_index;
     Some (B\<lparr>bytes := (bytes B)[byte_index := b OR push_bit bit_index 1]\<rparr>)
   }"

text \<open>The result is the offset in the reference parameter, or \<open>None\<close> when the function returns \<open>false\<close>.\<close>

definition AllocatePage :: "BitmapPage \<Rightarrow> (u32 option \<times> BitmapPage) option" where
  "AllocatePage B =
     (if unat (page_allocated B) = 8 * MAX_CHARS B then Some (None, B)
      else if page_allocated B = next_free_page B then do {
        let page_offset = next_free_page B;
        B \<leftarrow> set_page_bit page_offset
               (B\<lparr>page_allocated := page_allocated B + 1, next_free_page := next_free_page B + 1\<rparr>);
        Some (Some page_offset, B)
      }
      else do {
        i \<leftarrow> scan_bytes B 0;
        b \<leftarrow> byte_at B i;
        let page_offset = of_nat (i * 8 + scan_bits b);
        B \<leftarrow> set_page_bit page_offset (B\<lparr>page_allocated := page_allocated B + 1\<rparr>);
        Some (Some page_offset, B)
      })"

definition IsPageFreeLow :: "nat \<Rightarrow> nat \<Rightarrow> BitmapPage \<Rightarrow> bool option" where
  "IsPageFreeLow byte_index bit_index B = do { b \<leftarrow> byte_at B byte_index; Some (\<not> bit b bit_index) }"

definition IsPageFree :: "u32 \<Rightarrow> BitmapPage \<Rightarrow> bool option" where
  "IsPageFree page_offset B = IsPageFreeLow (unat (page_offset div 8)) (unat (page_offset mod 8)) B"

definition DeAllocatePage :: "u32 \<Rightarrow> BitmapPage \<Rightarrow> (bool \<times> BitmapPage) option" where
  "DeAllocatePage page_offset B = do {
     free \<leftarrow> IsPageFree page_offset B;
     if free then Some (False, B)
     else do {
       let byte_index = unat (page_offset div 8);
       let bit_index = unat (page_offset mod 8);
       b \<leftarrow> byte_at B byte_index;
       Some (True, B\<lparr>bytes := (bytes B)[byte_index := b AND NOT (push_bit bit_index 1)],
                     page_allocated := page_allocated B - 1\<rparr>)
     }
   }"

section \<open>The set of allocated offsets\<close>

definition allocated :: "BitmapPage \<Rightarrow> nat set" where
  "allocated B = {n. n < 8 * MAX_CHARS B \<and> bit (bytes B ! (n div 8)) (n mod 8)}"

text \<open>
  The counter is the number of allocated offsets, and all of them are below \<open>next_free_page_\<close>. The size is
  bounded so that the 32-bit counters hold every offset.
\<close>

definition bitmap_ok :: "BitmapPage \<Rightarrow> bool" where
  "bitmap_ok B \<longleftrightarrow> 8 * MAX_CHARS B < 2 ^ 32 \<and> unat (page_allocated B) = card (allocated B)
     \<and> allocated B \<subseteq> {..<unat (next_free_page B)} \<and> unat (next_free_page B) \<le> 8 * MAX_CHARS B"

lemma allocated_finite: "finite (allocated B)" "allocated B \<subseteq> {..<8 * MAX_CHARS B}"
  by (auto simp: allocated_def)

lemma bit_or_push: "bit (b OR 2 ^ k :: u8) j \<longleftrightarrow> bit b j \<or> j = k \<and> k < 8"
  by (auto simp: bit_or_iff bit_exp_iff)

lemma bit_clear: "bit (b AND NOT (2 ^ k) :: u8) j \<longleftrightarrow> bit b j \<and> j \<noteq> k"
proof -
  have "bit b j \<Longrightarrow> j < 8" using bit_imp_le_length [of b j] by simp
  then show ?thesis by (auto simp: bit_and_iff bit_not_iff bit_exp_iff)
qed

lemma offset_index:
  "unat (o' div 8 :: u32) = unat o' div 8" "unat (o' mod 8 :: u32) = unat o' mod 8"
  by (simp_all add: unat_div unat_mod)

lemma byte_at_offset: "unat p < 8 * MAX_CHARS B \<Longrightarrow> byte_at B (unat p div 8) = Some (bytes B ! (unat p div 8))"
  by (auto simp: byte_at_def)

lemma index_eq: "n div 8 = m div 8 \<Longrightarrow> n mod 8 = m mod 8 \<Longrightarrow> n = (m :: nat)"
  by (metis div_mult_mod_eq)

lemma set_page_bit_ok:
  assumes "unat p < 8 * MAX_CHARS B"
  shows "\<exists>bs. set_page_bit p B = Some (B\<lparr>bytes := bs\<rparr>) \<and> length bs = MAX_CHARS B
    \<and> allocated (B\<lparr>bytes := bs\<rparr>) = insert (unat p) (allocated B)"
proof -
  let ?i = "unat p div 8"
  let ?bs = "(bytes B)[?i := bytes B ! ?i OR push_bit (unat p mod 8) 1]"
  have i: "?i < length (bytes B)" using assms by (simp add: MAX_CHARS_def)
  have "allocated (B\<lparr>bytes := ?bs\<rparr>) = insert (unat p) (allocated B)"
    using assms i index_eq [of _ "unat p"]
    by (auto simp: allocated_def MAX_CHARS_def nth_list_update bit_or_push split: if_splits)
  then show ?thesis
    using assms i by (intro exI [of _ ?bs]) (simp add: set_page_bit_def offset_index byte_at_offset MAX_CHARS_def Let_def)
qed

section \<open>The first free offset\<close>

definition first_free :: "BitmapPage \<Rightarrow> nat" where
  "first_free B = (LEAST n. n \<notin> allocated B)"

lemma first_free:
  shows "first_free B \<notin> allocated B" and "n < first_free B \<Longrightarrow> n \<in> allocated B"
proof -
  have "8 * MAX_CHARS B \<notin> allocated B" by (simp add: allocated_def)
  then show "first_free B \<notin> allocated B" unfolding first_free_def by (rule LeastI)
  show "n < first_free B \<Longrightarrow> n \<in> allocated B" unfolding first_free_def using not_less_Least by blast
qed

lemma first_free_le_card: "first_free B \<le> card (allocated B)"
proof -
  have "{..<first_free B} \<subseteq> allocated B" using first_free(2) by auto
  from card_mono [OF allocated_finite(1) this] show ?thesis by simp
qed

lemma full_byte: "b = (255 :: u8) \<longleftrightarrow> (\<forall>j<8. bit b j)"
proof -
  have "(255 :: u8) = mask 8" by (simp add: mask_eq_exp_minus_1)
  then show ?thesis by (auto simp: bit_eq_iff bit_mask_iff)
qed

lemma takeWhile_upt_length:
  assumes "\<And>j. j < k \<Longrightarrow> P j" "\<not> P k" "k < n"
  shows "length (takeWhile P [0..<n]) = k"
proof -
  have "[0..<n] = [0..<k] @ k # [Suc k..<n]"
    using upt_add_eq_append [of 0 k "n - k"] upt_conv_Cons [OF assms(3)] assms(3) by simp
  moreover have "takeWhile P ([0..<k] @ k # [Suc k..<n]) = [0..<k]" using assms(1,2) by (subst takeWhile_append2) auto
  ultimately show ?thesis by simp
qed

lemma scan_bits_first: "(\<And>j. j < k \<Longrightarrow> bit b j) \<Longrightarrow> \<not> bit b k \<Longrightarrow> k < 8 \<Longrightarrow> scan_bits b = k"
  unfolding scan_bits_def by (rule takeWhile_upt_length)

lemma scan_bytes_first:
  assumes "i \<le> k" "k \<le> unat (page_allocated B)" "k < MAX_CHARS B" "bytes B ! k \<noteq> 255"
    "\<And>l. i \<le> l \<Longrightarrow> l < k \<Longrightarrow> bytes B ! l = 255"
  shows "scan_bytes B i = Some k"
  using assms
proof (induction "k - i" arbitrary: i)
  case 0
  then show ?case by (subst scan_bytes.simps) (simp add: byte_at_def)
next
  case (Suc d)
  from Suc.hyps(1) [of "i + 1"] Suc.hyps(2) Suc.prems have "scan_bytes B (i + 1) = Some k" by auto
  moreover have "bytes B ! i = 255" "i < k" using Suc.hyps(2) Suc.prems by auto
  ultimately show ?case using Suc.prems by (subst scan_bytes.simps) (simp add: byte_at_def)
qed

lemma scan_finds:
  assumes "unat (page_allocated B) = card (allocated B)" "card (allocated B) < 8 * MAX_CHARS B"
  shows "scan_bytes B 0 = Some (first_free B div 8) \<and> scan_bits (bytes B ! (first_free B div 8)) = first_free B mod 8"
proof
  let ?m = "first_free B"
  have m: "?m < 8 * MAX_CHARS B" using first_free_le_card [of B] assms(2) by simp
  have split: "8 * (?m div 8) + ?m mod 8 = ?m" by simp
  have free: "\<not> bit (bytes B ! (?m div 8)) (?m mod 8)" using first_free(1) [of B] m by (simp add: allocated_def)
  have used: "bit (bytes B ! (n div 8)) (n mod 8)" if "n < ?m" for n using first_free(2) [OF that] by (simp add: allocated_def)
  show "scan_bits (bytes B ! (?m div 8)) = ?m mod 8"
  proof (rule scan_bits_first [OF _ free])
    fix j assume j: "j < ?m mod 8"
    then have "8 * (?m div 8) + j < ?m" using split by linarith
    from used [OF this] j show "bit (bytes B ! (?m div 8)) j" by simp
  qed simp
  show "scan_bytes B 0 = Some (?m div 8)"
  proof (rule scan_bytes_first)
    show "?m div 8 \<le> unat (page_allocated B)"
      using first_free_le_card [of B] assms(1) div_le_dividend [of ?m 8] by linarith
    show "bytes B ! (?m div 8) \<noteq> 255"
    proof
      assume "bytes B ! (?m div 8) = 255"
      then have "bit (bytes B ! (?m div 8)) (?m mod 8)" unfolding full_byte by simp
      with free show False by contradiction
    qed
    fix l assume l: "l < ?m div 8"
    have "bit (bytes B ! l) j" if "j < 8" for j
    proof -
      have "8 * l + j < ?m" using l that split by linarith
      from used [OF this] that show ?thesis by simp
    qed
    then show "bytes B ! l = 255" by (simp add: full_byte)
  qed (use m in auto)
qed

section \<open>Allocation and release\<close>

lemma unat_Suc: "unat (x :: u32) < 2 ^ 32 - 1 \<Longrightarrow> unat (x + 1) = unat x + 1"
  by (simp add: unat_word_ariths)

lemma bitmap_ok_insert:
  assumes "bitmap_ok B" "unat p \<notin> allocated B" "length bs = MAX_CHARS B" "card (allocated B) < 8 * MAX_CHARS B"
    "unat p < unat nf" "unat (next_free_page B) \<le> unat nf" "unat nf \<le> 8 * MAX_CHARS B"
    "allocated (B\<lparr>bytes := bs\<rparr>) = insert (unat (p :: u32)) (allocated B)"
  shows "bitmap_ok (B\<lparr>page_allocated := page_allocated B + 1, next_free_page := nf, bytes := bs\<rparr>)"
proof -
  let ?B = "B\<lparr>page_allocated := page_allocated B + 1, next_free_page := nf, bytes := bs\<rparr>"
  have a: "allocated ?B = insert (unat p) (allocated B)" using assms(8) by (simp add: allocated_def MAX_CHARS_def)
  have "unat (page_allocated B + 1) = unat (page_allocated B) + 1"
    using assms(1,4) by (intro unat_Suc) (simp add: bitmap_ok_def)
  moreover have "card (allocated ?B) = card (allocated B) + 1" unfolding a using assms(2) allocated_finite(1) by simp
  ultimately show ?thesis using assms(1,3,5-7) a unfolding bitmap_ok_def
    by (auto simp: MAX_CHARS_def subset_iff)
qed

lemma allocate_ok:
  assumes "bitmap_ok B" "card (allocated B) < 8 * MAX_CHARS B"
  shows "\<exists>p B'. AllocatePage B = Some (Some p, B') \<and> unat p = first_free B \<and> bitmap_ok B'
    \<and> allocated B' = insert (first_free B) (allocated B) \<and> MAX_CHARS B' = MAX_CHARS B"
proof (cases "page_allocated B = next_free_page B")
  case True
  let ?p = "next_free_page B"
  have below: "allocated B = {..<unat ?p}" using assms(1) True by (intro card_subset_eq) (auto simp: bitmap_ok_def)
  have ff: "first_free B = unat ?p" unfolding first_free_def below by (rule Least_equality) auto
  have lt: "unat ?p < 8 * MAX_CHARS B" using assms True by (simp add: bitmap_ok_def)
  let ?B = "B\<lparr>page_allocated := page_allocated B + 1, next_free_page := ?p + 1\<rparr>"
  obtain bs where bs: "set_page_bit ?p ?B = Some (?B\<lparr>bytes := bs\<rparr>)" "length bs = MAX_CHARS B"
    "allocated (B\<lparr>bytes := bs\<rparr>) = insert (unat ?p) (allocated B)"
    using set_page_bit_ok [of ?p ?B] lt by (auto simp: allocated_def MAX_CHARS_def)
  have "unat (?p + 1) = unat ?p + 1" using lt assms(1) by (intro unat_Suc) (simp add: bitmap_ok_def)
  then have "bitmap_ok (?B\<lparr>bytes := bs\<rparr>)"
    using bitmap_ok_insert [OF assms(1) _ bs(2) assms(2) _ _ _ bs(3), of "?p + 1"] lt below by simp
  moreover have "AllocatePage B = Some (Some ?p, ?B\<lparr>bytes := bs\<rparr>)" using True lt bs(1) by (simp add: AllocatePage_def Let_def)
  moreover have "allocated (?B\<lparr>bytes := bs\<rparr>) = insert (first_free B) (allocated B)"
    using bs(3) ff by (simp add: allocated_def MAX_CHARS_def)
  ultimately show ?thesis using bs(2) ff by (simp add: MAX_CHARS_def)
next
  case False
  let ?m = "first_free B" and ?p = "of_nat (first_free B) :: u32"
  note cnt = assms(1) [unfolded bitmap_ok_def]
  have m: "?m < 8 * MAX_CHARS B" using first_free_le_card [of B] assms(2) by simp
  have p: "unat ?p = ?m" using m cnt by (simp add: unat_of_nat)
  have "card (allocated B) \<le> unat (next_free_page B)" using cnt card_mono [of "{..<unat (next_free_page B)}"] by fastforce
  moreover have "unat (page_allocated B) \<noteq> unat (next_free_page B)" using False by (simp add: word_unat_eq_iff)
  ultimately have lt: "?m < unat (next_free_page B)" using cnt first_free_le_card [of B] by linarith
  let ?B = "B\<lparr>page_allocated := page_allocated B + 1\<rparr>"
  obtain bs where bs: "set_page_bit ?p ?B = Some (?B\<lparr>bytes := bs\<rparr>)" "length bs = MAX_CHARS B"
    "allocated (B\<lparr>bytes := bs\<rparr>) = insert (unat ?p) (allocated B)"
    using set_page_bit_ok [of ?p ?B] m p by (auto simp: allocated_def MAX_CHARS_def)
  have "bitmap_ok (B\<lparr>page_allocated := page_allocated B + 1, next_free_page := next_free_page B, bytes := bs\<rparr>)"
    using bitmap_ok_insert [OF assms(1) _ bs(2) assms(2) _ _ _ bs(3), of "next_free_page B"] lt p first_free(1) [of B] cnt by simp
  moreover have "AllocatePage B = Some (Some ?p, ?B\<lparr>bytes := bs\<rparr>)"
  proof -
    have "byte_at B (?m div 8) = Some (bytes B ! (?m div 8))" using m by (auto simp: byte_at_def)
    moreover have "(of_nat (?m div 8 * 8 + ?m mod 8) :: u32) = ?p" by (simp only: div_mult_mod_eq)
    ultimately show ?thesis using scan_finds [OF _ assms(2)] cnt False assms(2) bs(1)
      by (simp only: AllocatePage_def if_False bind.simps Let_def) simp
  qed
  moreover have "allocated (?B\<lparr>bytes := bs\<rparr>) = insert ?m (allocated B)"
    using bs(3) p by (simp add: allocated_def MAX_CHARS_def)
  ultimately show ?thesis using bs(2) p by (simp add: MAX_CHARS_def)
qed

lemma deallocate_ok:
  assumes "bitmap_ok B" "unat p < 8 * MAX_CHARS B"
  shows "\<exists>B'. DeAllocatePage p B = Some (unat p \<in> allocated B, B') \<and> bitmap_ok B'
    \<and> allocated B' = allocated B - {unat p} \<and> MAX_CHARS B' = MAX_CHARS B"
proof (cases "unat p \<in> allocated B")
  case False
  with assms show ?thesis
    by (auto simp: DeAllocatePage_def IsPageFree_def IsPageFreeLow_def offset_index byte_at_offset allocated_def)
next
  case True
  let ?i = "unat p div 8"
  let ?B = "B\<lparr>bytes := (bytes B)[?i := bytes B ! ?i AND NOT (2 ^ (unat p mod 8))], page_allocated := page_allocated B - 1\<rparr>"
  have i: "?i < length (bytes B)" using assms(2) by (simp add: MAX_CHARS_def)
  have a: "allocated ?B = allocated B - {unat p}"
    using assms i index_eq [of _ "unat p"]
    by (auto simp: allocated_def MAX_CHARS_def nth_list_update bit_clear split: if_splits)
  have c: "0 < card (allocated B)" using True allocated_finite(1) by (auto simp: card_gt_0_iff)
  then have "unat (page_allocated B - 1) = unat (page_allocated B) - 1"
    using assms(1) by (intro unat_minus_one) (auto simp: bitmap_ok_def)
  moreover have "card (allocated ?B) = card (allocated B) - 1" unfolding a using True allocated_finite(1) by simp
  ultimately have "bitmap_ok ?B" using assms(1) a unfolding bitmap_ok_def by (auto simp: MAX_CHARS_def)
  moreover have "bit (bytes B ! ?i) (unat p mod 8)" using True by (simp add: allocated_def)
  ultimately show ?thesis using a assms(2) True
    by (simp add: DeAllocatePage_def IsPageFree_def IsPageFreeLow_def offset_index byte_at_offset MAX_CHARS_def Let_def)
qed

lemma is_free_ok: "unat p < 8 * MAX_CHARS B \<Longrightarrow> IsPageFree p B = Some (unat p \<notin> allocated B)"
  by (simp add: IsPageFree_def IsPageFreeLow_def offset_index byte_at_offset allocated_def)

lemma allocate_full: "bitmap_ok B \<Longrightarrow> card (allocated B) = 8 * MAX_CHARS B \<Longrightarrow> AllocatePage B = Some (None, B)"
  by (simp add: AllocatePage_def bitmap_ok_def)

text \<open>A page of zeroes is an empty bitmap.\<close>

definition empty_bitmap :: "nat \<Rightarrow> BitmapPage" where
  "empty_bitmap n = \<lparr>page_allocated = 0, next_free_page = 0, bytes = replicate n 0\<rparr>"

lemma empty_bitmap_ok:
  "8 * n < 2 ^ 32 \<Longrightarrow> bitmap_ok (empty_bitmap n) \<and> allocated (empty_bitmap n) = {} \<and> MAX_CHARS (empty_bitmap n) = n"
  by (auto simp: bitmap_ok_def empty_bitmap_def MAX_CHARS_def allocated_def)

section \<open>Properties\<close>

text \<open>
  C29: a bitmap page is a set of offsets. On a page whose counters agree with its bits, \<open>AllocatePage\<close>
  returns \<open>false\<close> exactly when every offset is taken and otherwise takes the least free offset, also
  after releases; \<open>DeAllocatePage\<close> removes its offset and reports whether it was allocated; \<open>IsPageFree\<close> is
  membership. No access leaves the array, and the counters keep agreeing with the bits.
\<close>
theorem bitmap_refines_set:
  assumes "bitmap_ok B" "unat p < 8 * MAX_CHARS B"
  shows "(\<exists>q B'. AllocatePage B = Some (q, B') \<and> bitmap_ok B' \<and> MAX_CHARS B' = MAX_CHARS B
      \<and> (if card (allocated B) = 8 * MAX_CHARS B then q = None \<and> B' = B
         else map_option unat q = Some (LEAST n. n \<notin> allocated B) \<and> allocated B' = insert (LEAST n. n \<notin> allocated B) (allocated B)))
    \<and> (\<exists>B'. DeAllocatePage p B = Some (unat p \<in> allocated B, B') \<and> bitmap_ok B' \<and> MAX_CHARS B' = MAX_CHARS B
      \<and> allocated B' = allocated B - {unat p})
    \<and> IsPageFree p B = Some (unat p \<notin> allocated B)"
proof -
  have "card (allocated B) \<le> 8 * MAX_CHARS B"
    using card_mono [OF _ allocated_finite(2) [of B]] by simp
  then consider "card (allocated B) = 8 * MAX_CHARS B" | "card (allocated B) < 8 * MAX_CHARS B" by linarith
  then have "\<exists>q B'. AllocatePage B = Some (q, B') \<and> bitmap_ok B' \<and> MAX_CHARS B' = MAX_CHARS B
      \<and> (if card (allocated B) = 8 * MAX_CHARS B then q = None \<and> B' = B
         else map_option unat q = Some (first_free B) \<and> allocated B' = insert (first_free B) (allocated B))"
  proof cases
    case 1
    then show ?thesis using allocate_full [OF assms(1)] assms(1) by simp
  next
    case 2
    then obtain q B' where "AllocatePage B = Some (Some q, B')" "unat q = first_free B" "bitmap_ok B'"
      "allocated B' = insert (first_free B) (allocated B)" "MAX_CHARS B' = MAX_CHARS B"
      using allocate_ok [OF assms(1)] by blast
    with 2 show ?thesis by simp
  qed
  with deallocate_ok [OF assms] is_free_ok [OF assms(2)] show ?thesis unfolding first_free_def by blast
qed

text \<open>Three allocations, the release of the first two and an allocation.\<close>

definition bitmap_example :: BitmapPage where
  "bitmap_example = \<lparr>page_allocated = 1, next_free_page = 3, bytes = [4, 0]\<rparr>"

lemma bitmap_example_ok: "allocated bitmap_example = {2}" "bitmap_ok bitmap_example"
proof -
  have "allocated bitmap_example = set (filter (\<lambda>n. bit ([4, 0 :: u8] ! (n div 8)) (n mod 8)) [0..<16])"
    by (auto simp: allocated_def bitmap_example_def MAX_CHARS_def)
  also have "\<dots> = {2}" by (simp add: upt_rec)
  finally show "allocated bitmap_example = {2}" .
  then show "bitmap_ok bitmap_example" by (simp add: bitmap_ok_def bitmap_example_def MAX_CHARS_def)
qed

theorem bitmap_refines_set_witness:
  "(\<exists>B'. AllocatePage bitmap_example = Some (Some 0, B') \<and> allocated B' = {0, 2})
    \<and> (\<exists>B'. DeAllocatePage 2 bitmap_example = Some (True, B') \<and> allocated B' = {}) \<and> IsPageFree 2 bitmap_example = Some False"
proof -
  have "(LEAST n. n \<notin> {2 :: nat}) = 0" by (rule Least_equality) auto
  with bitmap_refines_set [OF bitmap_example_ok(2), of 2] show ?thesis
    unfolding bitmap_example_ok(1) by (auto simp: bitmap_example_def MAX_CHARS_def unat_eq_zero)
qed

end
