(* ===== verification/Disk_Manager.thy ===== *)
theory Disk_Manager
  imports Bitmap_Page Bytes
begin

text \<open>
  The disk manager of \<open>MiniSQL/src/storage/disk_manager.cpp\<close>: logical pages over the physical pages of a
  database file, with a meta page and one bitmap page per extent. Reading what was written, the
  allocation of logical pages, and where the second bitmap collides with a data page.
\<close>

section \<open>Model\<close>

type_synonym page = "u8 list"

definition PAGE_SIZE :: nat where "PAGE_SIZE = 4096"
definition BITMAP_SIZE :: nat where "BITMAP_SIZE = 8 * (PAGE_SIZE - 8)"

record DiskFileMetaPage =
  num_allocated_pages :: u32
  num_extents :: u32
  extent_used_page :: "u32 list"

text \<open>
  The file: the number of pages up to its end and their contents; what was never written is zero.
  \<open>meta_data\<close> is the structure over \<open>meta_data_\<close>.
\<close>

record DiskManager =
  file_pages :: nat
  file_page :: "nat \<Rightarrow> page"
  meta_data :: DiskFileMetaPage

abbreviation (input) zero_page :: page where
  "zero_page \<equiv> replicate 4096 0"

text \<open>\<open>GetFileSize\<close> returns the size as a 32-bit \<open>int\<close>.\<close>

definition GetFileSize :: "DiskManager \<Rightarrow> int" where
  "GetFileSize dm = sint (of_nat (file_pages dm * PAGE_SIZE) :: u32)"

text \<open>\<open>None\<close>: the offset overflows or is negative, so that the stream is not positioned.\<close>

definition ReadPhysicalPage :: "int \<Rightarrow> DiskManager \<Rightarrow> page option" where
  "ReadPhysicalPage physical_page_id dm = (let offset = physical_page_id * int PAGE_SIZE in
     if offset < 0 \<or> 2 ^ 31 \<le> offset then None
     else if GetFileSize dm \<le> offset then Some zero_page
     else Some (file_page dm (nat physical_page_id)))"

definition WritePhysicalPage :: "int \<Rightarrow> page \<Rightarrow> DiskManager \<Rightarrow> DiskManager option" where
  "WritePhysicalPage physical_page_id page_data dm =
     (if physical_page_id < 0 then None
      else Some (dm\<lparr>file_pages := max (file_pages dm) (nat physical_page_id + 1),
                    file_page := (file_page dm)(nat physical_page_id := page_data)\<rparr>))"

text \<open>
  \<open>BITMAP_SIZE\<close> is a \<open>size_t\<close>, so a page id is divided as an unsigned 64-bit number; the results are
  stored in 32 bits.
\<close>

definition extent_of :: "int \<Rightarrow> u32" where
  "extent_of logical_page_id = of_nat (nat (logical_page_id mod 2 ^ 64) div BITMAP_SIZE)"

definition offset_of :: "int \<Rightarrow> u32" where
  "offset_of logical_page_id = of_nat (nat (logical_page_id mod 2 ^ 64) mod BITMAP_SIZE)"

definition MapPageId :: "int \<Rightarrow> int" where
  "MapPageId logical_page_id = sint (of_nat ((BITMAP_SIZE + 1) * unat (extent_of logical_page_id)
     + unat (offset_of logical_page_id) + 2) :: u32)"

definition ReadPage :: "int \<Rightarrow> DiskManager \<Rightarrow> page option" where
  "ReadPage logical_page_id dm =
     (if logical_page_id < 0 then None else ReadPhysicalPage (MapPageId logical_page_id) dm)"

definition WritePage :: "int \<Rightarrow> page \<Rightarrow> DiskManager \<Rightarrow> DiskManager option" where
  "WritePage logical_page_id page_data dm =
     (if logical_page_id < 0 then None else WritePhysicalPage (MapPageId logical_page_id) page_data dm)"

text \<open>A page as a bitmap page and back.\<close>

definition bitmap_of :: "page \<Rightarrow> BitmapPage option" where
  "bitmap_of pg = do {
     a \<leftarrow> read32 pg 0;
     f \<leftarrow> read32 pg 4;
     Some \<lparr>page_allocated = a, next_free_page = f, bytes = drop 8 pg\<rparr>
   }"

definition page_of :: "BitmapPage \<Rightarrow> page" where
  "page_of B = le32 (page_allocated B) @ le32 (next_free_page B) @ bytes B"

definition bitmap_page_id :: "u32 \<Rightarrow> int" where
  "bitmap_page_id extent_id = sint (of_nat (unat extent_id * BITMAP_SIZE + 1) :: u32)"

definition set_extent_used :: "u32 \<Rightarrow> u32 \<Rightarrow> DiskFileMetaPage \<Rightarrow> DiskFileMetaPage option" where
  "set_extent_used extent_id n mp = (if unat extent_id < length (extent_used_page mp)
     then Some (mp\<lparr>extent_used_page := (extent_used_page mp)[unat extent_id := n]\<rparr>) else None)"

text \<open>
  \<open>AllocatePage\<close> ignores the result of the bitmap: when the bitmap is full, \<open>page_offset\<close> is read
  uninitialised, which is \<open>None\<close> here.
\<close>

definition DiskManager_AllocatePage :: "DiskManager \<Rightarrow> (int \<times> DiskManager) option" where
  "DiskManager_AllocatePage dm = do {
     let extent_id = num_allocated_pages (meta_data dm) div of_nat BITMAP_SIZE;
     let bitmap_page = bitmap_page_id extent_id;
     page_data \<leftarrow> ReadPhysicalPage bitmap_page dm;
     bitmap \<leftarrow> bitmap_of page_data;
     (q, bitmap) \<leftarrow> AllocatePage bitmap;
     page_offset \<leftarrow> q;
     let logical_page_id = page_offset + extent_id * of_nat BITMAP_SIZE;
     mp \<leftarrow> set_extent_used extent_id (page_allocated bitmap)
       ((meta_data dm)\<lparr>num_allocated_pages := num_allocated_pages (meta_data dm) + 1, num_extents := extent_id + 1\<rparr>);
     dm \<leftarrow> WritePhysicalPage bitmap_page (page_of bitmap) (dm\<lparr>meta_data := mp\<rparr>);
     Some (sint logical_page_id, dm)
   }"

definition DiskManager_DeAllocatePage :: "int \<Rightarrow> DiskManager \<Rightarrow> DiskManager option" where
  "DiskManager_DeAllocatePage logical_page_id dm = do {
     let extent_id = extent_of logical_page_id;
     let bitmap_page = bitmap_page_id extent_id;
     page_data \<leftarrow> ReadPhysicalPage bitmap_page dm;
     bitmap \<leftarrow> bitmap_of page_data;
     (_, bitmap) \<leftarrow> DeAllocatePage (offset_of logical_page_id) bitmap;
     let n = num_allocated_pages (meta_data dm) - 1;
     mp \<leftarrow> set_extent_used extent_id (page_allocated bitmap)
       ((meta_data dm)\<lparr>num_allocated_pages := n, num_extents := n div of_nat BITMAP_SIZE + 1\<rparr>);
     WritePhysicalPage bitmap_page (page_of bitmap) (dm\<lparr>meta_data := mp\<rparr>)
   }"

definition DiskManager_IsPageFree :: "int \<Rightarrow> DiskManager \<Rightarrow> bool option" where
  "DiskManager_IsPageFree logical_page_id dm = do {
     page_data \<leftarrow> ReadPhysicalPage (bitmap_page_id (extent_of logical_page_id)) dm;
     bitmap \<leftarrow> bitmap_of page_data;
     IsPageFree (offset_of logical_page_id) bitmap
   }"

text \<open>The constructor on a file: the meta page is read, and never written back by any operation.\<close>

definition meta_of :: "page \<Rightarrow> DiskFileMetaPage option" where
  "meta_of pg = do {
     a \<leftarrow> read32 pg 0;
     e \<leftarrow> read32 pg 4;
     us \<leftarrow> those (map (\<lambda>i. read32 pg (8 + 4 * i)) [0..<1000]);
     Some \<lparr>num_allocated_pages = a, num_extents = e, extent_used_page = us\<rparr>
   }"

definition DiskManager_open :: "nat \<Rightarrow> (nat \<Rightarrow> page) \<Rightarrow> DiskManager option" where
  "DiskManager_open n f = do {
     let dm = \<lparr>file_pages = n, file_page = f,
               meta_data = \<lparr>num_allocated_pages = 0, num_extents = 0, extent_used_page = []\<rparr>\<rparr>;
     page_data \<leftarrow> ReadPhysicalPage 0 dm;
     mp \<leftarrow> meta_of page_data;
     Some (dm\<lparr>meta_data := mp\<rparr>)
   }"

section \<open>Physical pages\<close>

lemma sint_of_nat32: "n < 2 ^ 31 \<Longrightarrow> sint (of_nat n :: u32) = int n"
  by (simp add: signed_of_nat signed_take_bit_int_eq_self)

lemma sint_small: "unat (w :: u32) < 2 ^ 31 \<Longrightarrow> sint w = int (unat w)"
  using sint_of_nat32 [of "unat w"] by simp

text \<open>
  A file of fewer than 524288 pages, that is less than 2 GiB, so that the size and every offset below
  it fit an \<open>int\<close>; all pages have the page size, and nothing is stored behind the end.
\<close>

definition file_ok :: "DiskManager \<Rightarrow> bool" where
  "file_ok dm \<longleftrightarrow> file_pages dm < 524288 \<and> (\<forall>n. length (file_page dm n) = 4096)
     \<and> (\<forall>n\<ge>file_pages dm. file_page dm n = zero_page)"

lemma read_physical:
  assumes "file_ok dm" "0 \<le> p" "p < 524288"
  shows "ReadPhysicalPage p dm = Some (file_page dm (nat p))"
proof -
  have "GetFileSize dm = int (file_pages dm * 4096)"
    unfolding GetFileSize_def PAGE_SIZE_def using assms(1) by (intro sint_of_nat32) (simp add: file_ok_def)
  then have "GetFileSize dm \<le> p * 4096 \<Longrightarrow> file_page dm (nat p) = zero_page"
    using assms(1,2) by (auto simp: file_ok_def)
  with assms(2,3) show ?thesis by (auto simp: ReadPhysicalPage_def PAGE_SIZE_def Let_def)
qed

lemma write_physical:
  assumes "file_ok dm" "0 \<le> p" "p < 524287" "length d = 4096"
  shows "\<exists>dm'. WritePhysicalPage p d dm = Some dm' \<and> file_ok dm' \<and> meta_data dm' = meta_data dm
    \<and> file_page dm' = (file_page dm)(nat p := d)"
  using assms by (auto simp: WritePhysicalPage_def file_ok_def)

section \<open>Logical pages\<close>

definition physical :: "int \<Rightarrow> int" where
  "physical l = l + l div 32704 + 2"

text \<open>The logical pages whose physical page is inside the file size an \<open>int\<close> can express.\<close>

definition addressable :: "int \<Rightarrow> bool" where
  "addressable l \<longleftrightarrow> 0 \<le> l \<and> physical l < 524287"

lemma physical_mono: "l < k \<Longrightarrow> physical l < physical k"
  using zdiv_mono1 [of l k 32704] by (simp add: physical_def)

lemma physical_inj: "physical l = physical k \<longleftrightarrow> l = k"
  using physical_mono by (metis linorder_less_linear order_less_irrefl)

lemma extent_offset:
  assumes "0 \<le> l" "l < 2 ^ 31"
  shows "unat (extent_of l) = nat l div 32704 \<and> unat (offset_of l) = nat l mod 32704"
proof -
  have "l mod 2 ^ 64 = l" using assms by (intro mod_pos_pos_trivial) auto
  moreover have "nat l div 32704 < 2 ^ 32" "nat l mod 32704 < 2 ^ 32" using assms by (simp_all add: nat_less_iff zdiv_int)
  ultimately show ?thesis by (simp add: extent_of_def offset_of_def BITMAP_SIZE_def PAGE_SIZE_def unat_of_nat)
qed

lemma MapPageId_physical:
  assumes "addressable l"
  shows "MapPageId l = physical l"
proof -
  have l: "0 \<le> l" "l < 524287" using assms pos_imp_zdiv_nonneg_iff [of 32704 l] by (auto simp: addressable_def physical_def)
  let ?n = "32705 * (nat l div 32704) + nat l mod 32704 + 2"
  have "int ?n = physical l" using l by (simp add: physical_def zdiv_int zmod_int)
  moreover have "?n < 2 ^ 31" using calculation assms by (simp add: addressable_def)
  ultimately show ?thesis
    using extent_offset [of l] l sint_of_nat32 [of ?n] by (simp add: MapPageId_def BITMAP_SIZE_def PAGE_SIZE_def)
qed

lemma physical_ge: "0 \<le> l \<Longrightarrow> 2 \<le> physical l"
  by (simp add: physical_def)

lemma read_page: "file_ok dm \<Longrightarrow> addressable l \<Longrightarrow> ReadPage l dm = Some (file_page dm (nat (physical l)))"
  using physical_ge [of l] by (simp add: ReadPage_def MapPageId_physical read_physical addressable_def)

lemma write_page:
  assumes "file_ok dm" "addressable l" "length d = 4096"
  shows "\<exists>dm'. WritePage l d dm = Some dm' \<and> file_ok dm' \<and> meta_data dm' = meta_data dm
    \<and> file_page dm' = (file_page dm)(nat (physical l) := d)"
  using write_physical [OF assms(1), of "physical l" d] physical_ge [of l] assms(2,3)
  by (simp add: WritePage_def MapPageId_physical addressable_def)

lemma physical_data: "addressable l \<Longrightarrow> nat (physical l) \<noteq> 1 \<and> nat (physical l) \<noteq> Suc 0"
  using physical_ge [of l] by (auto simp: addressable_def)

lemma physical_nat_inj: "addressable l \<Longrightarrow> addressable k \<Longrightarrow> nat (physical l) = nat (physical k) \<longleftrightarrow> l = k"
  using physical_inj [of l k] physical_ge [of l] physical_ge [of k] by (auto simp: addressable_def)

section \<open>The first extent\<close>

lemma bitmap_page_roundtrip: "bitmap_of (page_of B) = Some B"
  using read32_le32 [of "[]" "page_allocated B" "le32 (next_free_page B) @ bytes B"]
    read32_le32 [of "le32 (page_allocated B)" "next_free_page B" "bytes B"]
  by (simp add: bitmap_of_def page_of_def)

lemma page_of_length: "MAX_CHARS B = 4088 \<Longrightarrow> length (page_of B) = 4096"
  by (simp add: page_of_def MAX_CHARS_def)

text \<open>The bitmap of the first extent agrees with the counter of the meta page.\<close>

definition first_extent :: "DiskManager \<Rightarrow> BitmapPage \<Rightarrow> bool" where
  "first_extent dm B \<longleftrightarrow> file_ok dm \<and> bitmap_of (file_page dm 1) = Some B \<and> bitmap_ok B \<and> MAX_CHARS B = 4088
     \<and> unat (num_allocated_pages (meta_data dm)) = card (allocated B) \<and> length (extent_used_page (meta_data dm)) = 1000"

lemma bitmap_page_zero: "bitmap_page_id 0 = 1"
  by (simp add: bitmap_page_id_def)

lemma extent_zero:
  assumes "0 \<le> l" "l < 32704"
  shows "extent_of l = 0" "unat (offset_of l) = nat l"
  using extent_offset [of l] assms by (auto simp: word_unat_eq_iff nat_less_iff)

lemma first_extent_read: "first_extent dm B \<Longrightarrow> ReadPhysicalPage 1 dm = Some (file_page dm 1)"
  by (simp add: first_extent_def read_physical)

lemma is_page_free:
  assumes "first_extent dm B" "0 \<le> l" "l < 32704"
  shows "DiskManager_IsPageFree l dm = Some (nat l \<notin> allocated B)"
proof -
  have "MAX_CHARS B = 4088" "bitmap_of (file_page dm 1) = Some B" using assms(1) by (auto simp: first_extent_def)
  with is_free_ok [of "offset_of l" B] assms(2,3) show ?thesis
    by (simp add: DiskManager_IsPageFree_def extent_zero bitmap_page_zero first_extent_read [OF assms(1)] nat_less_iff)
qed

text \<open>What a bitmap update leaves: the new bitmap on physical page 1, the counter of the meta page and nothing else.\<close>

lemma first_extent_update:
  assumes "first_extent dm B" "bitmap_ok B'" "MAX_CHARS B' = 4088" "unat n = card (allocated B')"
    "set_extent_used 0 (page_allocated B') ((meta_data dm)\<lparr>num_allocated_pages := n, num_extents := e\<rparr>) = Some mp"
  shows "\<exists>dm'. WritePhysicalPage 1 (page_of B') (dm\<lparr>meta_data := mp\<rparr>) = Some dm' \<and> first_extent dm' B'
    \<and> file_page dm' = (file_page dm)(1 := page_of B')"
proof -
  have "file_ok (dm\<lparr>meta_data := mp\<rparr>)" using assms(1) by (simp add: first_extent_def file_ok_def)
  from write_physical [OF this, of 1 "page_of B'"] obtain dm' where
    w: "WritePhysicalPage 1 (page_of B') (dm\<lparr>meta_data := mp\<rparr>) = Some dm'" "file_ok dm'" "meta_data dm' = mp"
       "file_page dm' = (file_page dm)(1 := page_of B')" using page_of_length [OF assms(3)] by auto
  have "num_allocated_pages mp = n" "length (extent_used_page mp) = 1000"
    using assms(1,5) by (auto simp: set_extent_used_def first_extent_def split: if_splits)
  with w assms(2-4) bitmap_page_roundtrip [of B'] show ?thesis by (auto simp: first_extent_def)
qed

lemma set_extent_used_first:
  "first_extent dm B \<Longrightarrow> \<exists>mp. set_extent_used 0 k ((meta_data dm)\<lparr>num_allocated_pages := n, num_extents := e\<rparr>) = Some mp"
  by (simp add: set_extent_used_def first_extent_def)

lemma word_div_small: "unat (a :: u32) < n \<Longrightarrow> n < 2 ^ 32 \<Longrightarrow> a div of_nat n = 0"
  by (simp add: word_unat_eq_iff unat_div unat_of_nat)

lemma disk_allocate:
  assumes "first_extent dm B" "card (allocated B) < 32704"
  shows "\<exists>dm' B'. DiskManager_AllocatePage dm = Some (int (first_free B), dm') \<and> first_extent dm' B'
    \<and> allocated B' = insert (first_free B) (allocated B) \<and> file_page dm' = (file_page dm)(1 := page_of B')"
proof -
  note fe = assms(1) [unfolded first_extent_def]
  let ?n = "num_allocated_pages (meta_data dm)"
  obtain p B' where p: "AllocatePage B = Some (Some p, B')" "unat p = first_free B" "bitmap_ok B'"
    "allocated B' = insert (first_free B) (allocated B)" "MAX_CHARS B' = 4088"
    using allocate_ok [of B] fe assms(2) by auto
  have e: "?n div of_nat BITMAP_SIZE = 0"
    using fe assms(2) by (intro word_div_small) (simp_all add: BITMAP_SIZE_def PAGE_SIZE_def)
  obtain mp where mp: "set_extent_used 0 (page_allocated B') ((meta_data dm)\<lparr>num_allocated_pages := ?n + 1, num_extents := 1\<rparr>) = Some mp"
    using set_extent_used_first [OF assms(1)] by blast
  have "unat (?n + 1) = card (allocated B')"
    using fe assms(2) p(4) first_free(1) [of B] allocated_finite(1) unat_Suc [of ?n] by simp
  from first_extent_update [OF assms(1) p(3,5) this mp] obtain dm' where
    dm': "WritePhysicalPage 1 (page_of B') (dm\<lparr>meta_data := mp\<rparr>) = Some dm'" "first_extent dm' B'"
      "file_page dm' = (file_page dm)(1 := page_of B')" by blast
  have "sint p = int (first_free B)"
    using sint_small [of p] first_free_le_card [of B] assms(2) p(2) by simp
  then have "DiskManager_AllocatePage dm = Some (int (first_free B), dm')"
    using e mp dm'(1) p(1) fe first_extent_read [OF assms(1)]
    by (simp add: DiskManager_AllocatePage_def bitmap_page_zero Let_def)
  with dm' p(4) show ?thesis by blast
qed

lemma disk_release:
  assumes "first_extent dm B" "0 \<le> l" "l < 32704" "nat l \<in> allocated B"
  shows "\<exists>dm' B'. DiskManager_DeAllocatePage l dm = Some dm' \<and> first_extent dm' B'
    \<and> allocated B' = allocated B - {nat l} \<and> file_page dm' = (file_page dm)(1 := page_of B')"
proof -
  note fe = assms(1) [unfolded first_extent_def]
  let ?n = "num_allocated_pages (meta_data dm)"
  note l = extent_zero [OF assms(2,3)]
  have "unat (offset_of l) < 8 * MAX_CHARS B" using l(2) assms(2,3) fe by (simp add: nat_less_iff)
  then obtain B' where B': "DeAllocatePage (offset_of l) B = Some (True, B')" "bitmap_ok B'"
    "allocated B' = allocated B - {nat l}" "MAX_CHARS B' = 4088"
    using deallocate_ok [of B "offset_of l"] fe assms(4) l(2) by auto
  obtain mp where mp: "set_extent_used 0 (page_allocated B') ((meta_data dm)\<lparr>num_allocated_pages := ?n - 1,
      num_extents := (?n - 1) div of_nat BITMAP_SIZE + 1\<rparr>) = Some mp"
    using set_extent_used_first [OF assms(1)] by blast
  have "0 < card (allocated B)" using assms(4) allocated_finite(1) by (auto simp: card_gt_0_iff)
  then have "?n \<noteq> 0" using fe by auto
  then have "unat (?n - 1) = card (allocated B')"
    using fe B'(3) assms(4) allocated_finite(1) unat_minus_one [of ?n] by auto
  from first_extent_update [OF assms(1) B'(2,4) this mp] obtain dm' where
    dm': "WritePhysicalPage 1 (page_of B') (dm\<lparr>meta_data := mp\<rparr>) = Some dm'" "first_extent dm' B'"
      "file_page dm' = (file_page dm)(1 := page_of B')" by blast
  then have "DiskManager_DeAllocatePage l dm = Some dm'"
    using mp B'(1) fe l(1) first_extent_read [OF assms(1)]
    by (simp add: DiskManager_DeAllocatePage_def bitmap_page_zero Let_def)
  with dm' B'(3) show ?thesis by blast
qed

section \<open>The disk as an interface\<close>

text \<open>
  What the buffer pool relies on. \<open>ok s A\<close>: the disk is consistent and \<open>A\<close> are its allocated pages. Every
  page of the address space can be read; a write changes that page only; an allocation takes a page
  that was not allocated and changes no content.
\<close>

locale page_disk =
  fixes rd :: "int \<Rightarrow> 's \<Rightarrow> page option" and wr :: "int \<Rightarrow> page \<Rightarrow> 's \<Rightarrow> 's option" and alloc :: "'s \<Rightarrow> (int \<times> 's) option"
    and ok :: "'s \<Rightarrow> int set \<Rightarrow> bool" and space :: "int \<Rightarrow> bool" and cap :: nat
  assumes read_total: "ok s A \<Longrightarrow> space p \<Longrightarrow> \<exists>d. rd p s = Some d \<and> length d = 4096"
    and write_read: "ok s A \<Longrightarrow> space p \<Longrightarrow> length d = 4096 \<Longrightarrow>
      \<exists>s'. wr p d s = Some s' \<and> ok s' A \<and> (\<forall>q. space q \<longrightarrow> rd q s' = (if q = p then Some d else rd q s))"
    and alloc_fresh: "ok s A \<Longrightarrow> card A < cap \<Longrightarrow>
      \<exists>p s'. alloc s = Some (p, s') \<and> p \<notin> A \<and> space p \<and> ok s' (insert p A) \<and> (\<forall>q. space q \<longrightarrow> rd q s' = rd q s)"
    and ok_space: "ok s A \<Longrightarrow> finite A \<and> (\<forall>p\<in>A. space p)"
begin

text \<open>A page that is rewritten with its own content leaves every content as it was.\<close>

lemma write_same:
  assumes "ok s A" "space p" "rd p s = Some d"
  shows "\<exists>s'. wr p d s = Some s' \<and> ok s' A \<and> (\<forall>q. space q \<longrightarrow> rd q s' = rd q s)"
proof -
  have "length d = 4096" using read_total [OF assms(1,2)] assms(3) by auto
  from write_read [OF assms(1,2) this] show ?thesis using assms(3) by auto
qed

text \<open>The content of a page of the address space.\<close>

definition content :: "'s \<Rightarrow> int \<Rightarrow> page" where
  "content s p = the (rd p s)"

lemma content_read: "ok s A \<Longrightarrow> space p \<Longrightarrow> rd p s = Some (content s p) \<and> length (content s p) = 4096"
  using read_total by (fastforce simp: content_def)

lemma content_write:
  assumes "ok s A" "space p" "length d = 4096"
  shows "\<exists>s'. wr p d s = Some s' \<and> ok s' A \<and> (\<forall>q. space q \<longrightarrow> content s' q = (if q = p then d else content s q))"
  using write_read [OF assms] by (fastforce simp: content_def)

lemma content_alloc:
  assumes "ok s A" "card A < cap"
  shows "\<exists>p s'. alloc s = Some (p, s') \<and> p \<notin> A \<and> space p \<and> ok s' (insert p A) \<and> (\<forall>q. space q \<longrightarrow> content s' q = content s q)"
  using alloc_fresh [OF assms] by (fastforce simp: content_def)

end

definition disk_ok :: "DiskManager \<Rightarrow> int set \<Rightarrow> bool" where
  "disk_ok dm A \<longleftrightarrow> (\<exists>B. first_extent dm B \<and> A = int ` allocated B)"

lemma allocated_bound: "first_extent dm B \<Longrightarrow> n \<in> allocated B \<Longrightarrow> n < 32704"
  by (auto simp: first_extent_def allocated_def)

lemma addressable_small: "0 \<le> l \<Longrightarrow> l < 32704 \<Longrightarrow> addressable l"
  by (simp add: addressable_def physical_def)

lemma disk_write:
  assumes "disk_ok dm A" "addressable p" "length d = 4096"
  shows "\<exists>dm'. WritePage p d dm = Some dm' \<and> disk_ok dm' A
    \<and> (\<forall>q. addressable q \<longrightarrow> ReadPage q dm' = (if q = p then Some d else ReadPage q dm))"
proof -
  obtain B where B: "first_extent dm B" "A = int ` allocated B" using assms(1) by (auto simp: disk_ok_def)
  then have f: "file_ok dm" by (simp add: first_extent_def)
  obtain dm' where dm': "WritePage p d dm = Some dm'" "file_ok dm'" "meta_data dm' = meta_data dm"
    "file_page dm' = (file_page dm)(nat (physical p) := d)" using write_page [OF f assms(2,3)] by blast
  from physical_data [OF assms(2)] dm' B(1) have "first_extent dm' B" by (simp add: first_extent_def)
  with B(2) have "disk_ok dm' A" by (auto simp: disk_ok_def)
  moreover have "ReadPage q dm' = (if q = p then Some d else ReadPage q dm)" if "addressable q" for q
    using that dm'(2,4) f assms(2) by (auto simp: read_page physical_nat_inj)
  ultimately show ?thesis using dm'(1) by blast
qed

lemma disk_alloc:
  assumes "disk_ok dm A" "card A < 32704"
  shows "\<exists>dm'. DiskManager_AllocatePage dm = Some (int (LEAST n. int n \<notin> A), dm') \<and> disk_ok dm' (insert (int (LEAST n. int n \<notin> A)) A)
    \<and> (\<forall>q. addressable q \<longrightarrow> ReadPage q dm' = ReadPage q dm) \<and> (LEAST n. int n \<notin> A) < 32704 \<and> int (LEAST n. int n \<notin> A) \<notin> A"
proof -
  obtain B where B: "first_extent dm B" "A = int ` allocated B" using assms(1) by (auto simp: disk_ok_def)
  have c: "card (allocated B) < 32704" using assms(2) B(2) by (simp add: card_image)
  have l: "(LEAST n. int n \<notin> A) = first_free B" unfolding first_free_def B(2) by (simp add: image_iff)
  obtain dm' B' where dm': "DiskManager_AllocatePage dm = Some (int (first_free B), dm')" "first_extent dm' B'"
    "allocated B' = insert (first_free B) (allocated B)" "file_page dm' = (file_page dm)(1 := page_of B')"
    using disk_allocate [OF B(1) c] by blast
  have "ReadPage q dm' = ReadPage q dm" if "addressable q" for q
    using that dm'(2,4) B(1) physical_data [OF that] by (simp add: read_page first_extent_def)
  moreover have "disk_ok dm' (insert (int (first_free B)) A)" using dm'(2,3) B(2) unfolding disk_ok_def by (intro exI [of _ B']) simp
  moreover have "first_free B < 32704" using first_free_le_card [of B] c by simp
  moreover have "int (first_free B) \<notin> A" using first_free(1) [of B] B(2) by auto
  ultimately show ?thesis using dm'(1) l by simp
qed

interpretation dk: page_disk ReadPage WritePage DiskManager_AllocatePage disk_ok addressable 32704
proof
  fix s A p assume ok: "disk_ok s A" and p: "addressable p"
  then have "file_ok s" by (auto simp: disk_ok_def first_extent_def)
  with p show "\<exists>d. ReadPage p s = Some d \<and> length d = 4096" by (simp add: read_page file_ok_def)
next
  fix s A assume "disk_ok s A" "card A < 32704"
  from disk_alloc [OF this] addressable_small show "\<exists>p s'. DiskManager_AllocatePage s = Some (p, s') \<and> p \<notin> A \<and> addressable p
      \<and> disk_ok s' (insert p A) \<and> (\<forall>q. addressable q \<longrightarrow> ReadPage q s' = ReadPage q s)"
    by fastforce
next
  fix s A assume "disk_ok s A"
  then show "finite A \<and> (\<forall>p\<in>A. addressable p)"
    using allocated_finite(1) allocated_bound addressable_small by (fastforce simp: disk_ok_def)
qed (rule disk_write)

section \<open>An empty database file\<close>

lemma read32_zero: "i + 4 \<le> n \<Longrightarrow> read32 (replicate n 0) i = Some 0"
  by (simp add: read32_def)

lemma those_map_Some: "(\<And>x. x \<in> set xs \<Longrightarrow> f x = Some (g x)) \<Longrightarrow> those (map f xs) = Some (map g xs)"
  by (induction xs) auto

lemma bitmap_zero: "bitmap_of zero_page = Some (empty_bitmap 4088)"
  by (simp add: bitmap_of_def read32_zero empty_bitmap_def)

lemma meta_page_zero: "meta_of zero_page = Some \<lparr>num_allocated_pages = 0, num_extents = 0, extent_used_page = replicate 1000 0\<rparr>"
  using those_map_Some [of "[0..<1000]" "\<lambda>i. read32 zero_page (8 + 4 * i)" "\<lambda>_. 0"]
  by (simp add: meta_of_def read32_zero map_replicate_const)

definition empty_disk :: DiskManager where
  "empty_disk = \<lparr>file_pages = 0, file_page = \<lambda>_. zero_page,
     meta_data = \<lparr>num_allocated_pages = 0, num_extents = 0, extent_used_page = replicate 1000 0\<rparr>\<rparr>"

lemma open_empty: "DiskManager_open 0 (\<lambda>_. zero_page) = Some empty_disk"
  by (simp add: DiskManager_open_def ReadPhysicalPage_def GetFileSize_def Let_def meta_page_zero empty_disk_def PAGE_SIZE_def)

lemma empty_disk_ok: "disk_ok empty_disk {}"
  using empty_bitmap_ok [of 4088] bitmap_zero
  by (auto simp: disk_ok_def first_extent_def file_ok_def empty_disk_def)

section \<open>Properties\<close>

text \<open>
  What is written to a logical page is read back, and no other page changes. This holds for every
  page whose physical page lies below 2 GiB; the allocation of pages is not disturbed.
\<close>
theorem disk_page_roundtrip:
  assumes "disk_ok dm A" "addressable l" "length d = 4096"
  shows "\<exists>dm'. WritePage l d dm = Some dm' \<and> ReadPage l dm' = Some d
    \<and> (\<forall>k. addressable k \<longrightarrow> k \<noteq> l \<longrightarrow> ReadPage k dm' = ReadPage k dm)
    \<and> (\<forall>k. 0 \<le> k \<longrightarrow> k < 32704 \<longrightarrow> DiskManager_IsPageFree k dm' = Some (k \<notin> A) \<and> DiskManager_IsPageFree k dm = Some (k \<notin> A))"
proof -
  have free: "DiskManager_IsPageFree k dm'' = Some (k \<notin> A)" if k: "0 \<le> k" "k < 32704" and ok: "disk_ok dm'' A" for k dm''
  proof -
    obtain B where B: "first_extent dm'' B" "A = int ` allocated B" using ok by (auto simp: disk_ok_def)
    have "nat k \<in> allocated B \<longleftrightarrow> k \<in> A" using k(1) B(2) by (force simp: image_iff intro: bexI [of _ "nat k"])
    with is_page_free [OF B(1) k] show ?thesis by simp
  qed
  obtain dm' where w: "WritePage l d dm = Some dm'" "disk_ok dm' A"
    "\<And>q. addressable q \<Longrightarrow> ReadPage q dm' = (if q = l then Some d else ReadPage q dm)"
    using disk_write [OF assms] by blast
  then show ?thesis using assms(1,2) free by auto
qed

text \<open>
  In the first extent \<open>AllocatePage\<close> returns the least logical page that is not allocated and \<open>DeAllocatePage\<close>
  gives a page back; each changes the allocation of that page only and the content of none.
\<close>
theorem disk_allocation:
  assumes "disk_ok dm A" "card A < 32704"
  shows "\<exists>p dm1 dm2. DiskManager_AllocatePage dm = Some (p, dm1) \<and> p \<notin> A \<and> (\<forall>q. 0 \<le> q \<longrightarrow> q < p \<longrightarrow> q \<in> A) \<and> disk_ok dm1 (insert p A)
    \<and> DiskManager_DeAllocatePage p dm1 = Some dm2 \<and> disk_ok dm2 A
    \<and> (\<forall>q. addressable q \<longrightarrow> ReadPage q dm1 = ReadPage q dm \<and> ReadPage q dm2 = ReadPage q dm)"
proof -
  define n where "n = (LEAST n. int n \<notin> A)"
  obtain dm1 where a: "DiskManager_AllocatePage dm = Some (int n, dm1)" "disk_ok dm1 (insert (int n) A)"
    "\<And>q. addressable q \<Longrightarrow> ReadPage q dm1 = ReadPage q dm" "n < 32704" "int n \<notin> A"
    using disk_alloc [OF assms] unfolding n_def by blast
  have least: "q \<in> A" if "0 \<le> q" "q < int n" for q
    using not_less_Least [of "nat q" "\<lambda>n. int n \<notin> A"] that by (auto simp: n_def)
  obtain B where B: "first_extent dm1 B" "insert (int n) A = int ` allocated B" using a(2) by (auto simp: disk_ok_def)
  have m: "n \<in> allocated B" using B(2) by (metis image_iff insertI1 of_nat_eq_iff)
  obtain dm2 B' where r: "DiskManager_DeAllocatePage (int n) dm1 = Some dm2" "first_extent dm2 B'" "allocated B' = allocated B - {n}"
    "file_page dm2 = (file_page dm1)(1 := page_of B')"
    using disk_release [OF B(1), of "int n"] a(4) m by auto
  have "A = int ` allocated B'" using r(3) B(2) a(5) by (auto simp: image_set_diff)
  then have "disk_ok dm2 A" using r(2) by (auto simp: disk_ok_def)
  moreover have "ReadPage q dm2 = ReadPage q dm1" if "addressable q" for q
    using that r(2,4) B(1) physical_data [OF that] by (simp add: read_page first_extent_def)
  ultimately show ?thesis using a r(1) least by auto
qed

lemma AllocatePage_counts:
  assumes "AllocatePage B = Some (Some k, B')"
  shows "page_allocated B' = page_allocated B + 1 \<and> MAX_CHARS B' = MAX_CHARS B"
  using assms by (auto simp: AllocatePage_def set_page_bit_def MAX_CHARS_def Let_def simp del: scan_bytes.simps split: Option.bind_splits if_splits)

text \<open>
  C28: the bitmap of the second extent is the last data page of the first. When the first extent is
  full, the next allocation takes the content \<open>d\<close> of logical page 32703 for that bitmap. If the bitmap it reads there has a free
  offset \<open>k\<close>, the bitmap with \<open>k\<close> allocated is written over logical page 32703, whose content changes by this, every other page
  keeps its content, and page \<open>32704 + k\<close> is returned; a page of zeros becomes the bitmap of an extent with page 0 allocated.
  If the word in front of \<open>d\<close> says that all 32704 pages are allocated, the offset is never set.
\<close>

theorem second_bitmap_overwrites_page:
  assumes "file_ok dm" "num_allocated_pages (meta_data dm) = 32704" "length (extent_used_page (meta_data dm)) = 1000"
    "ReadPage 32703 dm = Some d" "bitmap_of d = Some B"
  shows "(\<forall>k B'. AllocatePage B = Some (Some k, B') \<longrightarrow> (\<exists>dm'. DiskManager_AllocatePage dm = Some (sint (k + 32704), dm')
      \<and> ReadPage 32703 dm' = Some (page_of B') \<and> page_of B' \<noteq> d \<and> (\<forall>l. addressable l \<and> l \<noteq> 32703 \<longrightarrow> ReadPage l dm' = ReadPage l dm)))
    \<and> (d = zero_page \<longrightarrow> (\<exists>dm'. DiskManager_AllocatePage dm = Some (32704, dm') \<and> ReadPage 32703 dm' = Some (le32 1 @ le32 1 @ 1 # replicate 4087 0)))
    \<and> (unat (page_allocated B) = 32704 \<longrightarrow> DiskManager_AllocatePage dm = None)"
proof -
  have p: "bitmap_page_id 1 = 32705" "physical 32703 = 32705" "addressable 32703"
    by (simp_all add: bitmap_page_id_def BITMAP_SIZE_def PAGE_SIZE_def physical_def addressable_def)
  then have r: "ReadPhysicalPage 32705 dm = Some d" and d: "d = file_page dm 32705"
    using assms(1,4) by (simp_all add: read_page read_physical)
  have c: "MAX_CHARS B = 4088" using assms(1,5) d by (auto simp: bitmap_of_def MAX_CHARS_def file_ok_def split: Option.bind_splits)
  note A = DiskManager_AllocatePage_def BITMAP_SIZE_def PAGE_SIZE_def Let_def
  have step: "\<exists>dm'. DiskManager_AllocatePage dm = Some (sint (k + 32704), dm') \<and> ReadPage 32703 dm' = Some (page_of B')
      \<and> page_of B' \<noteq> d \<and> (\<forall>l. addressable l \<and> l \<noteq> 32703 \<longrightarrow> ReadPage l dm' = ReadPage l dm)" if b: "AllocatePage B = Some (Some k, B')" for k B'
  proof -
    obtain mp where mp: "set_extent_used 1 (page_allocated B') ((meta_data dm)\<lparr>num_allocated_pages := 32705, num_extents := 2\<rparr>) = Some mp"
      using assms(3) by (simp add: set_extent_used_def)
    have "file_ok (dm\<lparr>meta_data := mp\<rparr>)" using assms(1) by (simp add: file_ok_def)
    from write_physical [OF this, of 32705 "page_of B'"] page_of_length [of B'] AllocatePage_counts [OF b] c obtain dm' where
      w: "WritePhysicalPage 32705 (page_of B') (dm\<lparr>meta_data := mp\<rparr>) = Some dm'" "file_ok dm'" "file_page dm' = (file_page dm)(32705 := page_of B')"
      by auto
    have "DiskManager_AllocatePage dm = Some (sint (k + 32704), dm')"
      using r b assms(2,5) p(1) mp w(1) by (simp add: A)
    moreover have "ReadPage 32703 dm' = Some (page_of B')" using w(2,3) p by (simp add: read_page)
    moreover have "page_of B' \<noteq> d" using AllocatePage_counts [OF b] bitmap_page_roundtrip [of B'] assms(5) by auto
    moreover have "ReadPage l dm' = ReadPage l dm" if "addressable l" "l \<noteq> 32703" for l
    proof -
      have "physical l \<noteq> 32705" using physical_mono [of l 32703] physical_mono [of 32703 l] that(2) p(2) by linarith
      then have "nat (physical l) \<noteq> 32705" by linarith
      then show ?thesis using that(1) w(2,3) assms(1) by (simp add: read_page)
    qed
    ultimately show ?thesis by blast
  qed
  have "\<exists>dm'. DiskManager_AllocatePage dm = Some (32704, dm') \<and> ReadPage 32703 dm' = Some (le32 1 @ le32 1 @ 1 # replicate 4087 0)" if z: "d = zero_page"
  proof -
    let ?B = "\<lparr>page_allocated = 1, next_free_page = 1, bytes = (replicate 4088 0)[0 := 1]\<rparr>"
    have e: "B = empty_bitmap 4088" using z assms(5) bitmap_zero by simp
    have b: "AllocatePage B = Some (Some 0, ?B)" unfolding e
      by (simp add: AllocatePage_def empty_bitmap_def MAX_CHARS_def set_page_bit_def byte_at_def Let_def)
    have "(replicate 4088 (0 :: u8))[0 := 1] = 1 # replicate 4087 0"
      by (simp add: replicate_Suc [of 4087, simplified] del: replicate_Suc)
    then show ?thesis using step [OF b] by (auto simp: page_of_def)
  qed
  moreover have "DiskManager_AllocatePage dm = None" if "unat (page_allocated B) = 32704"
    using r assms(2,5) p(1) c that by (simp add: A AllocatePage_def)
  ultimately show ?thesis using step by blast
qed

definition full_extent :: DiskManager where
  "full_extent = \<lparr>file_pages = 0, file_page = \<lambda>_. zero_page,
     meta_data = \<lparr>num_allocated_pages = 32704, num_extents = 1, extent_used_page = replicate 1000 0\<rparr>\<rparr>"

theorem second_bitmap_overwrites_page_witness:
  "\<exists>dm'. ReadPage 32703 full_extent = Some zero_page \<and> DiskManager_AllocatePage full_extent = Some (32704, dm')
    \<and> ReadPage 32703 dm' = Some (le32 1 @ le32 1 @ 1 # replicate 4087 0) \<and> ReadPage 5 dm' = Some zero_page"
proof -
  have f: "file_ok full_extent" by (simp add: file_ok_def full_extent_def)
  then have z: "ReadPage 32703 full_extent = Some zero_page" "ReadPage 5 full_extent = Some zero_page" "addressable 5"
    by (simp_all add: read_page addressable_small full_extent_def)
  have n: "num_allocated_pages (meta_data full_extent) = 32704" "length (extent_used_page (meta_data full_extent)) = 1000"
    by (simp_all add: full_extent_def)
  have b: "AllocatePage (empty_bitmap 4088) = Some (Some 0, \<lparr>page_allocated = 1, next_free_page = 1, bytes = (replicate 4088 0)[0 := 1]\<rparr>)"
    by (simp add: AllocatePage_def empty_bitmap_def MAX_CHARS_def set_page_bit_def byte_at_def Let_def)
  note t = second_bitmap_overwrites_page [OF f n z(1) bitmap_zero]
  from t obtain dm' where "DiskManager_AllocatePage full_extent = Some (32704, dm')" "ReadPage 32703 dm' = Some (le32 1 @ le32 1 @ 1 # replicate 4087 0)" by blast
  moreover from this t b have "ReadPage 5 dm' = ReadPage 5 full_extent" using z(3) by fastforce
  ultimately show ?thesis using z by auto
qed

end
