(* ===== verification/Lru_Replacer.thy ===== *)
theory Lru_Replacer
  imports Main
begin

text \<open>
  The page replacement policy: the interface \<open>Replacer\<close> of \<open>MiniSQL/src/include/buffer/replacer.h\<close> as a locale
  and \<open>LRUReplacer\<close> of \<open>buffer/lru_replacer.cpp\<close>, which refines a list of frames.
\<close>

section \<open>Model\<close>

record LRUReplacer =
  frame_num :: nat
  lru_list :: "nat list"
  buffer :: "nat set"
  lruList :: "nat set"

definition LRUReplacer_init :: "nat \<Rightarrow> LRUReplacer" where
  "LRUReplacer_init num_pages = \<lparr>frame_num = num_pages, lru_list = [], buffer = {}, lruList = {}\<rparr>"

definition Size :: "LRUReplacer \<Rightarrow> nat" where
  "Size r = length (lru_list r)"

text \<open>\<open>None\<close>: the function returns \<open>false\<close>.\<close>

definition Victim :: "LRUReplacer \<Rightarrow> nat option \<times> LRUReplacer" where
  "Victim r = (if Size r = 0 then (None, r)
     else let frameId = last (lru_list r) in
       (Some frameId, r\<lparr>lru_list := butlast (lru_list r), lruList := lruList r - {frameId}, buffer := buffer r - {frameId}\<rparr>))"

definition Pin :: "nat \<Rightarrow> LRUReplacer \<Rightarrow> LRUReplacer" where
  "Pin frame_id r = r\<lparr>lru_list := removeAll frame_id (lru_list r), lruList := lruList r - {frame_id}\<rparr>"

definition Unpin :: "nat \<Rightarrow> LRUReplacer \<Rightarrow> LRUReplacer" where
  "Unpin frame_id r =
     (if frame_id \<notin> buffer r
      then r\<lparr>buffer := insert frame_id (buffer r), lru_list := frame_id # lru_list r, lruList := insert frame_id (lruList r)\<rparr>
      else if frame_id \<notin> lruList r
      then r\<lparr>lru_list := frame_id # lru_list r, lruList := insert frame_id (lruList r)\<rparr>
      else r)"

section \<open>The interface\<close>

lemma butlast_distinct: "distinct xs \<Longrightarrow> xs \<noteq> [] \<Longrightarrow> set (butlast xs) = set xs - {last xs}"
  by (induction xs rule: rev_induct) auto

text \<open>
  The candidates for replacement are a list without repetition. Unpinning puts a frame in front unless
  it is a candidate already, pinning removes it, and the victim is the last one.
\<close>

locale replacer =
  fixes victim :: "'r \<Rightarrow> 'f option \<times> 'r" and pin :: "'f \<Rightarrow> 'r \<Rightarrow> 'r" and unpin :: "'f \<Rightarrow> 'r \<Rightarrow> 'r" and sz :: "'r \<Rightarrow> nat"
    and cands :: "'r \<Rightarrow> 'f list" and ok :: "'r \<Rightarrow> bool"
  assumes victim_none: "ok r \<Longrightarrow> cands r = [] \<Longrightarrow> victim r = (None, r)"
    and victim_some: "ok r \<Longrightarrow> cands r \<noteq> [] \<Longrightarrow>
      \<exists>r'. victim r = (Some (last (cands r)), r') \<and> ok r' \<and> cands r' = butlast (cands r)"
    and pin_cands: "ok r \<Longrightarrow> ok (pin f r) \<and> cands (pin f r) = removeAll f (cands r)"
    and unpin_cands: "ok r \<Longrightarrow> ok (unpin f r) \<and> cands (unpin f r) = (if f \<in> set (cands r) then cands r else f # cands r)"
    and size_cands: "ok r \<Longrightarrow> sz r = length (cands r)"
    and cands_distinct: "ok r \<Longrightarrow> distinct (cands r)"
begin

lemma victim_cases:
  assumes "ok r" "victim r = (q, r')"
  shows "ok r' \<and> (q = None \<longleftrightarrow> cands r = []) \<and> set (cands r') = set (cands r) - set_option q
    \<and> (\<forall>f. q = Some f \<longrightarrow> f \<in> set (cands r))"
proof (cases "cands r = []")
  case True
  then show ?thesis using victim_none [OF assms(1)] assms by simp
next
  case False
  then show ?thesis using victim_some [OF assms(1) False] butlast_distinct [OF cands_distinct [OF assms(1)]] assms(2) by auto
qed

lemma pin_set: "ok r \<Longrightarrow> set (cands (pin f r)) = set (cands r) - {f}"
  using pin_cands by auto

lemma unpin_set: "ok r \<Longrightarrow> set (cands (unpin f r)) = insert f (set (cands r))"
  using unpin_cands by auto

end

definition lru_ok :: "LRUReplacer \<Rightarrow> bool" where
  "lru_ok r \<longleftrightarrow> distinct (lru_list r) \<and> lruList r = set (lru_list r) \<and> lruList r \<subseteq> buffer r"

interpretation lru: replacer Victim Pin Unpin Size lru_list lru_ok
proof
  fix r assume ok: "lru_ok r" and "lru_list r \<noteq> []"
  with butlast_distinct [of "lru_list r"] distinct_butlast [of "lru_list r"]
  show "\<exists>r'. Victim r = (Some (last (lru_list r)), r') \<and> lru_ok r' \<and> lru_list r' = butlast (lru_list r)"
    by (auto simp: Victim_def Size_def lru_ok_def Let_def)
qed (auto simp: Victim_def Pin_def Unpin_def Size_def lru_ok_def distinct_removeAll)

lemma lru_init_ok: "lru_ok (LRUReplacer_init n)" "lru_list (LRUReplacer_init n) = []"
  by (simp_all add: lru_ok_def LRUReplacer_init_def)

section \<open>Properties\<close>

datatype replacer_op = OpVictim | OpPin nat | OpUnpin nat | OpSize

text \<open>The answers to a sequence of calls, by the class and by the list.\<close>

fun lru_answers :: "replacer_op list \<Rightarrow> LRUReplacer \<Rightarrow> nat option list" where
  "lru_answers [] r = []"
| "lru_answers (OpVictim # ops) r = (case Victim r of (q, r) \<Rightarrow> q # lru_answers ops r)"
| "lru_answers (OpPin f # ops) r = lru_answers ops (Pin f r)"
| "lru_answers (OpUnpin f # ops) r = lru_answers ops (Unpin f r)"
| "lru_answers (OpSize # ops) r = Some (Size r) # lru_answers ops r"

fun list_answers :: "replacer_op list \<Rightarrow> nat list \<Rightarrow> nat option list" where
  "list_answers [] fs = []"
| "list_answers (OpVictim # ops) fs = (if fs = [] then None # list_answers ops [] else Some (last fs) # list_answers ops (butlast fs))"
| "list_answers (OpPin f # ops) fs = list_answers ops (removeAll f fs)"
| "list_answers (OpUnpin f # ops) fs = list_answers ops (if f \<in> set fs then fs else f # fs)"
| "list_answers (OpSize # ops) fs = Some (length fs) # list_answers ops fs"

lemma answers_agree: "lru_ok r \<Longrightarrow> lru_answers ops r = list_answers ops (lru_list r)"
proof (induction ops arbitrary: r)
  case (Cons op ops)
  show ?case
  proof (cases op)
    case OpVictim
    then show ?thesis using Cons lru.victim_none [OF Cons.prems] lru.victim_some [OF Cons.prems]
      by (cases "lru_list r = []") auto
  next
    case (OpPin f)
    then show ?thesis using Cons.IH [of "Pin f r"] lru.pin_cands [OF Cons.prems, of f] by simp
  next
    case (OpUnpin f)
    then show ?thesis using Cons.IH [of "Unpin f r"] lru.unpin_cands [OF Cons.prems, of f] by simp
  next
    case OpSize
    then show ?thesis using Cons lru.size_cands [OF Cons.prems] by simp
  qed
qed simp

text \<open>
  C30: the replacer is a queue of unpinned frames. Over any sequence of calls its answers are those of a
  plain list in which unpinning enters a frame at the front once, pinning takes it out and the victim
  is taken from the back; the two hash sets never disagree with the list.
\<close>
theorem lru_equals_list: "lru_answers ops (LRUReplacer_init n) = list_answers ops []"
  using answers_agree [OF lru_init_ok(1)] lru_init_ok(2) by simp

end
