(* ===== verification/Buffer_Pool.thy ===== *)
theory Buffer_Pool
  imports Disk_Manager Lru_Replacer
begin

text \<open>
  The buffer pool of \<open>MiniSQL/src/buffer/buffer_pool_manager.cpp\<close> over the disk manager and the LRU
  replacer. Clients that use it by its protocol see one content per page, whatever is evicted in
  between; the release of a page breaks this.
\<close>

section \<open>Model\<close>

record Page =
  data :: page
  page_id :: int
  pin_count :: int
  is_dirty :: bool

text \<open>
  \<open>page_table_\<close> is an association list without an order of its own: the order of iteration of the hash map
  is not fixed, and no result depends on it. The latch is never taken.
\<close>

record BufferPoolManager =
  pool_size :: nat
  pages :: "Page list"
  page_table :: "(int \<times> nat) list"
  replacer :: LRUReplacer
  free_list :: "nat list"
  disk_manager :: DiskManager

abbreviation (input) INVALID_PAGE_ID :: int where "INVALID_PAGE_ID \<equiv> -1"

definition new_Page :: Page where
  "new_Page = \<lparr>data = zero_page, page_id = INVALID_PAGE_ID, pin_count = 0, is_dirty = False\<rparr>"

definition BufferPoolManager_init :: "nat \<Rightarrow> DiskManager \<Rightarrow> BufferPoolManager" where
  "BufferPoolManager_init n dm = \<lparr>pool_size = n, pages = replicate n new_Page, page_table = [],
     replacer = LRUReplacer_init n, free_list = [0..<n], disk_manager = dm\<rparr>"

text \<open>\<open>page_table_.insert\<close> leaves an entry that exists; \<open>pages_[i]\<close> outside the array is \<open>None\<close>.\<close>

definition table_insert :: "int \<Rightarrow> nat \<Rightarrow> (int \<times> nat) list \<Rightarrow> (int \<times> nat) list" where
  "table_insert p f t = (if p \<in> fst ` set t then t else (p, f) # t)"

definition table_erase :: "int \<Rightarrow> (int \<times> nat) list \<Rightarrow> (int \<times> nat) list" where
  "table_erase p t = filter (\<lambda>e. fst e \<noteq> p) t"

definition page_at :: "nat \<Rightarrow> BufferPoolManager \<Rightarrow> Page option" where
  "page_at f bp = (if f < length (pages bp) then Some (pages bp ! f) else None)"

definition set_page :: "nat \<Rightarrow> Page \<Rightarrow> BufferPoolManager \<Rightarrow> BufferPoolManager" where
  "set_page f pg bp = bp\<lparr>pages := (pages bp)[f := pg]\<rparr>"

text \<open>
  The common part of \<open>FetchPage\<close> and \<open>NewPage\<close> on the frame of a victim: the search for its page, the write
  back and the removal from the table. Without an entry for the frame \<open>pageId\<close> is uninitialised: \<open>None\<close>.
\<close>

definition write_back :: "nat \<Rightarrow> BufferPoolManager \<Rightarrow> BufferPoolManager option" where
  "write_back frameId bp = do {
     e \<leftarrow> find (\<lambda>e. snd e = frameId) (page_table bp);
     let pageId = fst e;
     pg \<leftarrow> page_at frameId bp;
     dm \<leftarrow> (if is_dirty pg then WritePage pageId (data pg) (disk_manager bp) else Some (disk_manager bp));
     Some (bp\<lparr>disk_manager := dm, page_table := table_erase pageId (page_table bp)\<rparr>)
   }"

text \<open>A frame from the back of the free list, else the replacer's victim; \<open>None\<close> inside: there is none.\<close>

definition take_frame :: "BufferPoolManager \<Rightarrow> (nat option \<times> BufferPoolManager) option" where
  "take_frame bp =
     (if free_list bp \<noteq> [] then Some (Some (last (free_list bp)), bp\<lparr>free_list := butlast (free_list bp)\<rparr>)
      else (case Victim (replacer bp) of
         (None, r) \<Rightarrow> Some (None, bp\<lparr>replacer := r\<rparr>)
       | (Some frameId, r) \<Rightarrow> do { bp \<leftarrow> write_back frameId (bp\<lparr>replacer := r\<rparr>); Some (Some frameId, bp) }))"

definition FetchPage :: "int \<Rightarrow> BufferPoolManager \<Rightarrow> (nat option \<times> BufferPoolManager) option" where
  "FetchPage p bp = (case map_of (page_table bp) p of
       Some frameId \<Rightarrow> do {
         pg \<leftarrow> page_at frameId bp;
         Some (Some frameId, set_page frameId (pg\<lparr>pin_count := pin_count pg + 1\<rparr>)
                               (bp\<lparr>replacer := Pin frameId (replacer bp)\<rparr>))
       }
     | None \<Rightarrow> do {
         (q, bp) \<leftarrow> take_frame bp;
         (case q of
            None \<Rightarrow> Some (None, bp)
          | Some frameId \<Rightarrow> do {
              let bp = bp\<lparr>page_table := table_insert p frameId (page_table bp)\<rparr>;
              pg \<leftarrow> page_at frameId bp;
              d \<leftarrow> ReadPage p (disk_manager bp);
              Some (Some frameId, set_page frameId (pg\<lparr>page_id := p, pin_count := 1, is_dirty := False, data := d\<rparr>) bp)
            })
       })"

text \<open>The result is the page id in the reference parameter and the frame.\<close>

definition NewPage :: "BufferPoolManager \<Rightarrow> ((int \<times> nat) option \<times> BufferPoolManager) option" where
  "NewPage bp =
     (if free_list bp = [] \<and> Size (replacer bp) = 0 then Some (None, bp)
      else do {
        (p, dm) \<leftarrow> DiskManager_AllocatePage (disk_manager bp);
        (q, bp) \<leftarrow> take_frame (bp\<lparr>disk_manager := dm\<rparr>);
        frameId \<leftarrow> q;
        let bp = bp\<lparr>page_table := table_insert p frameId (page_table bp)\<rparr>;
        pg \<leftarrow> page_at frameId bp;
        Some (Some (p, frameId), set_page frameId (pg\<lparr>page_id := p, data := zero_page, pin_count := 1, is_dirty := False\<rparr>) bp)
      })"

definition DeletePage :: "int \<Rightarrow> BufferPoolManager \<Rightarrow> (bool \<times> BufferPoolManager) option" where
  "DeletePage p bp = do {
     dm \<leftarrow> DiskManager_DeAllocatePage p (disk_manager bp);
     let bp = bp\<lparr>disk_manager := dm\<rparr>;
     (case map_of (page_table bp) p of
        None \<Rightarrow> Some (True, bp)
      | Some frameId \<Rightarrow> do {
          pg \<leftarrow> page_at frameId bp;
          if pin_count pg \<noteq> 0 then Some (False, bp)
          else Some (True, set_page frameId (pg\<lparr>is_dirty := False, data := zero_page, page_id := INVALID_PAGE_ID\<rparr>)
                 (bp\<lparr>page_table := table_erase p (page_table bp), free_list := free_list bp @ [frameId]\<rparr>))
        })
   }"

definition UnpinPage :: "int \<Rightarrow> bool \<Rightarrow> BufferPoolManager \<Rightarrow> (bool \<times> BufferPoolManager) option" where
  "UnpinPage p dirty bp = (case map_of (page_table bp) p of
       None \<Rightarrow> Some (False, bp)
     | Some frameId \<Rightarrow> do {
         pg \<leftarrow> page_at frameId bp;
         Some (True, set_page frameId (pg\<lparr>pin_count := 0, is_dirty := is_dirty pg \<or> dirty\<rparr>)
                       (bp\<lparr>replacer := Unpin frameId (replacer bp)\<rparr>))
       })"

definition FlushPage :: "int \<Rightarrow> BufferPoolManager \<Rightarrow> (bool \<times> BufferPoolManager) option" where
  "FlushPage p bp =
     (if p = INVALID_PAGE_ID then Some (False, bp)
      else (case map_of (page_table bp) p of
          None \<Rightarrow> Some (False, bp)
        | Some frameId \<Rightarrow> do {
            pg \<leftarrow> page_at frameId bp;
            dm \<leftarrow> (if is_dirty pg then WritePage p (data pg) (disk_manager bp) else Some (disk_manager bp));
            Some (True, set_page frameId (pg\<lparr>pin_count := 0, is_dirty := False\<rparr>)
                          (bp\<lparr>disk_manager := dm, page_table := table_erase p (page_table bp), free_list := free_list bp @ [frameId]\<rparr>))
          }))"

text \<open>The destructor flushes the page of every frame, by the page ids stored in the frames.\<close>

fun flush_frames :: "nat list \<Rightarrow> BufferPoolManager \<Rightarrow> BufferPoolManager option" where
  "flush_frames [] bp = Some bp"
| "flush_frames (i # is) bp = do {
     pg \<leftarrow> page_at i bp;
     bp \<leftarrow> (if page_id pg \<noteq> INVALID_PAGE_ID then do { (_, bp) \<leftarrow> FlushPage (page_id pg) bp; Some bp } else Some bp);
     flush_frames is bp
   }"

definition BufferPoolManager_destroy :: "BufferPoolManager \<Rightarrow> DiskManager option" where
  "BufferPoolManager_destroy bp = do { bp \<leftarrow> flush_frames [0..<pool_size bp] bp; Some (disk_manager bp) }"

definition BufferPool_IsPageFree :: "int \<Rightarrow> BufferPoolManager \<Rightarrow> bool option" where
  "BufferPool_IsPageFree p bp = DiskManager_IsPageFree p (disk_manager bp)"

definition CheckAllUnpinned :: "BufferPoolManager \<Rightarrow> bool" where
  "CheckAllUnpinned bp = list_all (\<lambda>pg. pin_count pg = 0) (pages bp)"

section \<open>The invariant\<close>

text \<open>
  \<open>W\<close> is the set of pages a client has written since it got them and not yet unpinned as dirty. An entry
  of the table, with \<open>L\<close> the candidates for replacement: its page is allocated, the frame knows the page,
  it is a candidate exactly when nobody pins it, and then nothing unreported was written; outside \<open>W\<close> a
  frame that is not dirty agrees with the disk.
\<close>

definition entry_ok :: "DiskManager \<Rightarrow> nat set \<Rightarrow> int set \<Rightarrow> int set \<Rightarrow> Page \<Rightarrow> int \<Rightarrow> nat \<Rightarrow> bool" where
  "entry_ok dm L A W pg p f \<longleftrightarrow> p \<in> A \<and> page_id pg = p \<and> length (data pg) = 4096 \<and> 0 \<le> pin_count pg
     \<and> (f \<in> L \<longleftrightarrow> pin_count pg = 0) \<and> (f \<in> L \<longrightarrow> p \<notin> W) \<and> (p \<notin> W \<longrightarrow> is_dirty pg \<or> data pg = dk.content dm p)"

definition frames_of :: "BufferPoolManager \<Rightarrow> nat list" where
  "frames_of bp = map snd (page_table bp) @ free_list bp"

definition pool_ok :: "BufferPoolManager \<Rightarrow> int set \<Rightarrow> int set \<Rightarrow> bool" where
  "pool_ok bp A W \<longleftrightarrow> disk_ok (disk_manager bp) A \<and> lru_ok (replacer bp) \<and> length (pages bp) = pool_size bp
     \<and> distinct (map fst (page_table bp)) \<and> distinct (frames_of bp) \<and> (\<forall>f\<in>set (frames_of bp). f < pool_size bp)
     \<and> set (lru_list (replacer bp)) \<subseteq> snd ` set (page_table bp)
     \<and> (\<forall>e\<in>set (page_table bp). entry_ok (disk_manager bp) (set (lru_list (replacer bp))) A W (pages bp ! snd e) (fst e) (snd e))"

text \<open>The content of a page as a client sees it: in its frame, else on the disk.\<close>

definition view :: "BufferPoolManager \<Rightarrow> int \<Rightarrow> page" where
  "view bp p = (case map_of (page_table bp) p of Some f \<Rightarrow> data (pages bp ! f) | None \<Rightarrow> dk.content (disk_manager bp) p)"

lemma pool_okD:
  assumes "pool_ok bp A W"
  shows "disk_ok (disk_manager bp) A" "lru_ok (replacer bp)" "length (pages bp) = pool_size bp"
    "distinct (map fst (page_table bp))" "distinct (frames_of bp)" "\<And>f. f \<in> set (frames_of bp) \<Longrightarrow> f < pool_size bp"
    "set (lru_list (replacer bp)) \<subseteq> snd ` set (page_table bp)"
    "\<And>p f. (p, f) \<in> set (page_table bp) \<Longrightarrow> entry_ok (disk_manager bp) (set (lru_list (replacer bp))) A W (pages bp ! f) p f"
  using assms unfolding pool_ok_def by (auto dest: bspec)

lemma pool_entry:
  assumes "pool_ok bp A W" "map_of (page_table bp) p = Some f"
  shows "(p, f) \<in> set (page_table bp)" "page_at f bp = Some (pages bp ! f)" "f < length (pages bp)"
    "entry_ok (disk_manager bp) (set (lru_list (replacer bp))) A W (pages bp ! f) p f"
proof -
  show m: "(p, f) \<in> set (page_table bp)" by (rule map_of_SomeD [OF assms(2)])
  show "entry_ok (disk_manager bp) (set (lru_list (replacer bp))) A W (pages bp ! f) p f" by (rule pool_okD(8) [OF assms(1) m])
  have "f \<in> set (frames_of bp)" using m by (force simp: frames_of_def)
  then show "f < length (pages bp)" using pool_okD(3,6) [OF assms(1)] by simp
  then show "page_at f bp = Some (pages bp ! f)" by (simp add: page_at_def)
qed

lemma frame_unique:
  assumes "pool_ok bp A W" "(p, f) \<in> set (page_table bp)" "(q, f) \<in> set (page_table bp)"
  shows "p = q"
proof -
  have "distinct (map snd (page_table bp))" using pool_okD(5) [OF assms(1)] by (simp add: frames_of_def)
  then show ?thesis using assms(2,3) by (auto simp: distinct_map dest: inj_onD [of _ _ "(p, f)" "(q, f)"])
qed

lemma key_unique:
  "pool_ok bp A W \<Longrightarrow> (p, f) \<in> set (page_table bp) \<Longrightarrow> (p, g) \<in> set (page_table bp) \<Longrightarrow> f = g"
  using eq_key_imp_eq_value pool_okD(4) by fast

lemma table_erase_map [simp]: "map_of (table_erase p t) q = (if q = p then None else map_of t q)"
  by (induction t) (auto simp: table_erase_def)

lemma table_erase_set: "set (table_erase p t) = {e \<in> set t. fst e \<noteq> p}"
  by (auto simp: table_erase_def)

lemma table_insert_new: "map_of t p = None \<Longrightarrow> table_insert p f t = (p, f) # t"
  by (simp add: table_insert_def map_of_eq_None_iff)

lemma pool_ok_disk:
  assumes "pool_ok bp A W" "disk_ok dm A'" "A \<subseteq> A'" "\<And>q. q \<in> A \<Longrightarrow> dk.content dm q = dk.content (disk_manager bp) q"
  shows "pool_ok (bp\<lparr>disk_manager := dm\<rparr>) A' W"
proof -
  have "entry_ok dm (set (lru_list (replacer bp))) A' W (pages bp ! f) p f" if "(p, f) \<in> set (page_table bp)" for p f
    using pool_okD(8) [OF assms(1) that] assms(3,4) by (auto simp: entry_ok_def)
  with assms(1,2) show ?thesis by (auto simp: pool_ok_def frames_of_def)
qed

section \<open>Frames for pages that are not in the pool\<close>

lemma disk_space: "disk_ok dm A \<Longrightarrow> p \<in> A \<Longrightarrow> addressable p"
  using dk.ok_space by blast

text \<open>Writing a page back makes disk and frame agree, and no other content changes.\<close>

definition settled :: "DiskManager \<Rightarrow> int set \<Rightarrow> Page \<Rightarrow> int \<Rightarrow> bool" where
  "settled dm A pg p \<longleftrightarrow> p \<in> A \<and> page_id pg = p \<and> length (data pg) = 4096 \<and> (is_dirty pg \<or> data pg = dk.content dm p)"

lemma entry_settled: "entry_ok dm L A W pg p f \<Longrightarrow> p \<notin> W \<Longrightarrow> settled dm A pg p"
  by (simp add: entry_ok_def settled_def)

lemma write_back_disk:
  assumes "disk_ok dm A" "settled dm A pg p"
  shows "\<exists>dm'. (if is_dirty pg then WritePage p (data pg) dm else Some dm) = Some dm' \<and> disk_ok dm' A
    \<and> dk.content dm' p = data pg \<and> (\<forall>q\<in>A - {p}. dk.content dm' q = dk.content dm q)"
proof (cases "is_dirty pg")
  case True
  have "p \<in> A" "length (data pg) = 4096" using assms(2) by (auto simp: settled_def)
  with dk.content_write [OF assms(1) disk_space [OF assms(1)], of p "data pg"] show ?thesis
    using True disk_space [OF assms(1)] by auto
next
  case False
  then show ?thesis using assms by (auto simp: settled_def)
qed

lemma find_frame:
  assumes "pool_ok bp A W" "(p, f) \<in> set (page_table bp)"
  shows "find (\<lambda>e. snd e = f) (page_table bp) = Some (p, f)"
proof -
  obtain e where e: "find (\<lambda>e. snd e = f) (page_table bp) = Some e"
    using assms(2) by (cases "find (\<lambda>e. snd e = f) (page_table bp)") (auto simp: find_None_iff)
  then have "e \<in> set (page_table bp)" "snd e = f" by (auto simp: find_Some_iff)
  then show ?thesis using e frame_unique [OF assms(1,2), of "fst e"] by (cases e) auto
qed

lemma map_of_table: "pool_ok bp A W \<Longrightarrow> (p, f) \<in> set (page_table bp) \<Longrightarrow> map_of (page_table bp) p = Some f"
  using pool_okD(4) by (simp add: map_of_is_SomeI)

text \<open>A frame that is outside table and free list, with everything else in order.\<close>

definition spare :: "nat \<Rightarrow> BufferPoolManager \<Rightarrow> bool" where
  "spare f bp \<longleftrightarrow> f < pool_size bp \<and> f \<notin> set (frames_of bp)"

lemma evict_ok:
  assumes ok: "pool_ok bp A W" and f: "(p, f) \<in> set (page_table bp)" "f \<in> set (lru_list (replacer bp))"
    and r: "lru_ok r" "set (lru_list r) = set (lru_list (replacer bp)) - {f}"
  shows "\<exists>bp'. write_back f (bp\<lparr>replacer := r\<rparr>) = Some bp' \<and> pool_ok bp' A W \<and> spare f bp' \<and> pages bp' = pages bp
    \<and> pool_size bp' = pool_size bp \<and> page_table bp' = table_erase p (page_table bp)
    \<and> (\<forall>q\<in>A. view bp' q = view bp q)"
proof -
  let ?dm = "disk_manager bp" and ?L = "set (lru_list (replacer bp))"
  note e = pool_entry [OF ok map_of_table [OF ok f(1)]]
  have "p \<notin> W" using e(4) f(2) by (simp add: entry_ok_def)
  from write_back_disk [OF pool_okD(1) [OF ok] entry_settled [OF e(4) this]] obtain dm' where
    dm': "(if is_dirty (pages bp ! f) then WritePage p (data (pages bp ! f)) ?dm else Some ?dm) = Some dm'" "disk_ok dm' A"
      "dk.content dm' p = data (pages bp ! f)" "\<forall>q\<in>A - {p}. dk.content dm' q = dk.content ?dm q" by blast
  let ?bp = "bp\<lparr>replacer := r, disk_manager := dm', page_table := table_erase p (page_table bp)\<rparr>"
  have "write_back f (bp\<lparr>replacer := r\<rparr>) = Some ?bp"
    using find_frame [OF ok f(1)] e(3) dm'(1) by (cases "is_dirty (pages bp ! f)") (auto simp: write_back_def page_at_def Let_def)
  moreover have others: "g \<noteq> f" if "(q, g) \<in> set (page_table bp)" "q \<noteq> p" for q g
    using frame_unique [OF ok f(1), of q] that by blast
  have "entry_ok dm' (set (lru_list r)) A W (pages bp ! g) q g" if "(q, g) \<in> set (page_table bp)" "q \<noteq> p" for q g
    using pool_okD(8) [OF ok that(1)] others [OF that] dm'(4) r(2) that(2) by (auto simp: entry_ok_def)
  moreover have d: "distinct (frames_of ?bp)" "set (frames_of ?bp) \<subseteq> set (frames_of bp) - {f}"
    using pool_okD(5) [OF ok] f(1) others
    by (auto simp: frames_of_def table_erase_def distinct_map_filter dest: key_unique [OF ok f(1)] frame_unique [OF ok f(1)])
  moreover have "set (lru_list r) \<subseteq> snd ` set (page_table ?bp)"
  proof
    fix g assume g: "g \<in> set (lru_list r)"
    then have "g \<in> snd ` set (page_table bp)" "g \<noteq> f" using pool_okD(7) [OF ok] r(2) by auto
    then obtain q where q: "(q, g) \<in> set (page_table bp)" by auto
    then have "q \<noteq> p" using key_unique [OF ok f(1), of g] \<open>g \<noteq> f\<close> by auto
    with q have "(q, g) \<in> set (page_table ?bp)" by (simp add: table_erase_set)
    then show "g \<in> snd ` set (page_table ?bp)" by (simp add: rev_image_eqI)
  qed
  moreover have "distinct (map fst (page_table ?bp))"
    using pool_okD(4) [OF ok] by (simp add: table_erase_def distinct_map_filter)
  ultimately have "pool_ok ?bp A W"
    using dm'(2) r(1) pool_okD(3,6) [OF ok] by (auto simp: pool_ok_def table_erase_set)
  moreover have "spare f ?bp" using d(2) e(3) pool_okD(3) [OF ok] by (auto simp: spare_def)
  moreover have "view ?bp q = view bp q" if "q \<in> A" for q
    using that dm'(3,4) map_of_table [OF ok f(1)] by (auto simp: view_def split: option.splits)
  ultimately show ?thesis using \<open>write_back f (bp\<lparr>replacer := r\<rparr>) = Some ?bp\<close> by fastforce
qed

lemma take_frame_ok:
  assumes "pool_ok bp A W"
  shows "\<exists>q bp'. take_frame bp = Some (q, bp') \<and> pool_ok bp' A W \<and> pool_size bp' = pool_size bp
    \<and> (q = None \<longleftrightarrow> free_list bp = [] \<and> lru_list (replacer bp) = []) \<and> (q = None \<longrightarrow> bp' = bp)
    \<and> (\<forall>f. q = Some f \<longrightarrow> spare f bp') \<and> (\<forall>q. map_of (page_table bp) q = None \<longrightarrow> map_of (page_table bp') q = None)
    \<and> (\<forall>p\<in>A. view bp' p = view bp p)"
proof (cases "free_list bp = []")
  case False
  let ?bp = "bp\<lparr>free_list := butlast (free_list bp)\<rparr>"
  have f: "free_list bp = butlast (free_list bp) @ [last (free_list bp)]" using False by simp
  have "distinct (frames_of ?bp @ [last (free_list bp)])" "set (frames_of bp) = set (frames_of ?bp @ [last (free_list bp)])"
    using pool_okD(5) [OF assms] f by (simp_all add: frames_of_def)
  moreover have "last (free_list bp) < pool_size bp" using pool_okD(6) [OF assms] False by (simp add: frames_of_def)
  ultimately have "pool_ok ?bp A W" "spare (last (free_list bp)) ?bp"
    using assms by (auto simp: pool_ok_def spare_def)
  then show ?thesis using False by (simp add: take_frame_def view_def split: option.splits)
next
  case True
  obtain q r where v: "Victim (replacer bp) = (q, r)" by fastforce
  note vc = lru.victim_cases [OF pool_okD(2) [OF assms] v]
  show ?thesis
  proof (cases q)
    case None
    then have "r = replacer bp" "lru_list (replacer bp) = []" using lru.victim_none [OF pool_okD(2) [OF assms]] v vc by auto
    with None v True assms show ?thesis by (simp add: take_frame_def)
  next
    case (Some f)
    then have f: "f \<in> set (lru_list (replacer bp))" using vc by simp
    then obtain p where p: "(p, f) \<in> set (page_table bp)" using pool_okD(7) [OF assms] by force
    have r: "lru_ok r" "set (lru_list r) = set (lru_list (replacer bp)) - {f}" using vc Some by auto
    from evict_ok [OF assms p f r] obtain bp' where b: "write_back f (bp\<lparr>replacer := r\<rparr>) = Some bp'" "pool_ok bp' A W"
      "spare f bp'" "pool_size bp' = pool_size bp" "page_table bp' = table_erase p (page_table bp)" "\<forall>q\<in>A. view bp' q = view bp q"
      by blast
    have "take_frame bp = Some (Some f, bp')" using True v Some b(1) by (simp add: take_frame_def)
    with b(2-6) f show ?thesis by auto
  qed
qed

text \<open>A page is put into a spare frame, pinned.\<close>

lemma install_ok:
  assumes ok: "pool_ok bp A W" and f: "spare f bp" and p: "p \<in> A" "map_of (page_table bp) p = None"
    and pg: "page_id pg = p" "length (data pg) = 4096" "pin_count pg = 1" "p \<notin> W' \<longrightarrow> data pg = dk.content (disk_manager bp) p"
    and W: "W' = W \<or> W' = insert p W"
  shows "pool_ok (set_page f pg (bp\<lparr>page_table := table_insert p f (page_table bp)\<rparr>)) A W'
    \<and> view (set_page f pg (bp\<lparr>page_table := table_insert p f (page_table bp)\<rparr>)) q = (if q = p then data pg else view bp q)"
proof -
  let ?bp = "set_page f pg (bp\<lparr>page_table := (p, f) # page_table bp\<rparr>)" and ?L = "set (lru_list (replacer bp))"
  have fl: "f < length (pages bp)" "f \<notin> snd ` set (page_table bp)" "f \<notin> set (free_list bp)"
    using f pool_okD(3) [OF ok] by (auto simp: spare_def frames_of_def)
  have pf: "p \<notin> fst ` set (page_table bp)" using p(2) by (simp add: map_of_eq_None_iff)
  have "f \<notin> ?L" using fl(2) pool_okD(7) [OF ok] by auto
  then have new: "entry_ok (disk_manager bp) ?L A W' pg p f" using p(1) pg by (simp add: entry_ok_def)
  have old: "entry_ok (disk_manager bp) ?L A W' ((pages bp)[f := pg] ! g) q g" if "(q, g) \<in> set (page_table bp)" for q g
  proof -
    have "g \<noteq> f" "q \<noteq> p" using that fl(2) pf by force+
    then show ?thesis using pool_okD(8) [OF ok that] W by (auto simp: entry_ok_def)
  qed
  have "pool_ok ?bp A W'"
    using ok new old fl pf f by (auto simp: pool_ok_def set_page_def frames_of_def spare_def)
  moreover have "view ?bp q = (if q = p then data pg else view bp q)"
  proof (cases "map_of (page_table bp) q")
    case (Some g)
    then have "g \<noteq> f" using fl(2) map_of_SomeD by force
    with Some show ?thesis using fl(1) p(2) by (auto simp: view_def set_page_def)
  qed (use fl(1) in \<open>auto simp: view_def set_page_def\<close>)
  ultimately show ?thesis using table_insert_new [OF p(2)] by simp
qed

text \<open>A page of the pool gets a new frame content or pin count, and its frame enters or leaves the candidates.\<close>

lemma touch_ok:
  assumes ok: "pool_ok bp A W" and p: "map_of (page_table bp) p = Some f"
    and r: "lru_ok r" "set (lru_list r) - {f} = set (lru_list (replacer bp)) - {f}"
    and pg: "entry_ok (disk_manager bp) (set (lru_list r)) A W' pg p f" and W: "W' - {p} = W - {p}"
  shows "pool_ok (set_page f pg (bp\<lparr>replacer := r\<rparr>)) A W'
    \<and> view (set_page f pg (bp\<lparr>replacer := r\<rparr>)) q = (if q = p then data pg else view bp q)"
proof -
  let ?bp = "set_page f pg (bp\<lparr>replacer := r\<rparr>)"
  note e = pool_entry [OF ok p]
  have other: "g \<noteq> f" if "(q, g) \<in> set (page_table bp)" "q \<noteq> p" for q g
    using frame_unique [OF ok e(1), of q] that by blast
  have "entry_ok (disk_manager bp) (set (lru_list r)) A W' ((pages bp)[f := pg] ! g) q g" if m: "(q, g) \<in> set (page_table bp)" for q g
  proof (cases "q = p")
    case True
    then show ?thesis using key_unique [OF ok e(1)] m pg e(3) by auto
  next
    case False
    have "g \<noteq> f" by (rule other [OF m False])
    then have "g \<in> set (lru_list r) \<longleftrightarrow> g \<in> set (lru_list (replacer bp))" "q \<in> W' \<longleftrightarrow> q \<in> W" using r(2) W False by blast+
    then show ?thesis using pool_okD(8) [OF ok m] \<open>g \<noteq> f\<close> by (simp add: entry_ok_def)
  qed
  moreover have "f \<in> snd ` set (page_table bp)" using e(1) by (simp add: rev_image_eqI)
  then have "set (lru_list r) \<subseteq> snd ` set (page_table bp)" using pool_okD(7) [OF ok] r(2) by blast
  ultimately have "pool_ok ?bp A W'" using ok r(1) by (auto simp: pool_ok_def set_page_def frames_of_def)
  moreover have "view ?bp q = (if q = p then data pg else view bp q)"
  proof (cases "map_of (page_table bp) q")
    case (Some g)
    then show ?thesis using other [OF map_of_SomeD [OF Some]] p e(3) by (auto simp: view_def set_page_def)
  qed (use p in \<open>auto simp: view_def set_page_def\<close>)
  ultimately show ?thesis by blast
qed

section \<open>The operations\<close>

lemma FetchPage_ok:
  assumes "pool_ok bp A W" "p \<in> A"
  shows "\<exists>q bp'. FetchPage p bp = Some (q, bp') \<and> pool_ok bp' A W \<and> (\<forall>x\<in>A. view bp' x = view bp x)
    \<and> (q = None \<longleftrightarrow> map_of (page_table bp) p = None \<and> free_list bp = [] \<and> lru_list (replacer bp) = [])
    \<and> (\<forall>f. q = Some f \<longrightarrow> map_of (page_table bp') p = Some f \<and> data (pages bp' ! f) = view bp p \<and> 0 < pin_count (pages bp' ! f))"
proof (cases "map_of (page_table bp) p")
  case (Some f)
  note e = pool_entry [OF assms(1) Some]
  let ?pg = "(pages bp ! f)\<lparr>pin_count := pin_count (pages bp ! f) + 1\<rparr>"
  have ok: "lru_ok (replacer bp)" by (rule pool_okD(2) [OF assms(1)])
  have "entry_ok (disk_manager bp) (set (lru_list (Pin f (replacer bp)))) A W ?pg p f"
    using e(4) lru.pin_set [OF ok, of f] by (simp add: entry_ok_def)
  from touch_ok [OF assms(1) Some _ _ this] lru.pin_cands [OF ok, of f] lru.pin_set [OF ok, of f]
  have "pool_ok (set_page f ?pg (bp\<lparr>replacer := Pin f (replacer bp)\<rparr>)) A W"
    "view (set_page f ?pg (bp\<lparr>replacer := Pin f (replacer bp)\<rparr>)) q = (if q = p then data ?pg else view bp q)" for q by auto
  moreover have "view bp p = data (pages bp ! f)" using Some by (simp add: view_def)
  ultimately show ?thesis using Some e(2,3,4) assms(2) by (simp add: FetchPage_def) (simp add: set_page_def entry_ok_def)
next
  case None
  obtain q bp' where t: "take_frame bp = Some (q, bp')" "pool_ok bp' A W" "pool_size bp' = pool_size bp"
    "q = None \<longleftrightarrow> free_list bp = [] \<and> lru_list (replacer bp) = []" "\<forall>f. q = Some f \<longrightarrow> spare f bp'"
    "map_of (page_table bp') p = None" "\<forall>x\<in>A. view bp' x = view bp x"
    using take_frame_ok [OF assms(1)] None by blast
  show ?thesis
  proof (cases q)
    case None
    with t \<open>map_of (page_table bp) p = None\<close> show ?thesis by (simp add: FetchPage_def)
  next
    case (Some f)
    have sp: "spare f bp'" using t(5) Some by simp
    have pt: "page_at f bp' = Some (pages bp' ! f)" "f < length (pages bp')"
      using sp pool_okD(3) [OF t(2)] by (simp_all add: spare_def page_at_def)
    have rd: "ReadPage p (disk_manager bp') = Some (dk.content (disk_manager bp') p)" "length (dk.content (disk_manager bp') p) = 4096"
      using dk.content_read [OF pool_okD(1) [OF t(2)] disk_space [OF pool_okD(1) [OF t(2)] assms(2)]] by auto
    let ?pg = "(pages bp' ! f)\<lparr>page_id := p, pin_count := 1, is_dirty := False, data := dk.content (disk_manager bp') p\<rparr>"
    let ?bp = "set_page f ?pg (bp'\<lparr>page_table := table_insert p f (page_table bp')\<rparr>)"
    have i: "pool_ok ?bp A W" "view ?bp x = (if x = p then data ?pg else view bp' x)" for x
      using install_ok [OF t(2) sp assms(2) t(6), of ?pg W] rd(2) by auto
    have "FetchPage p bp = Some (Some f, ?bp)"
      using None t(1) Some pt(2) rd(1) by (simp add: FetchPage_def page_at_def Let_def)
    moreover have "view bp p = dk.content (disk_manager bp') p" using t(6,7) assms(2) by (auto simp: view_def)
    ultimately show ?thesis using i t(4,6,7) Some pt(2) table_insert_new [OF t(6)] by (auto simp: set_page_def)
  qed
qed

lemma NewPage_ok:
  assumes "pool_ok bp A W" "card A < 32704"
  shows "\<exists>q bp'. NewPage bp = Some (q, bp') \<and> (q = None \<longleftrightarrow> free_list bp = [] \<and> lru_list (replacer bp) = [])
    \<and> (q = None \<longrightarrow> bp' = bp)
    \<and> (\<forall>p f. q = Some (p, f) \<longrightarrow> p \<notin> A \<and> pool_ok bp' (insert p A) (insert p W)
        \<and> (\<forall>x\<in>insert p A. view bp' x = (if x = p then zero_page else view bp x))
        \<and> map_of (page_table bp') p = Some f \<and> pin_count (pages bp' ! f) = 1)"
proof (cases "free_list bp = [] \<and> Size (replacer bp) = 0")
  case True
  then show ?thesis by (simp add: NewPage_def Size_def)
next
  case False
  note ok = pool_okD(1) [OF assms(1)]
  obtain p dm where a: "DiskManager_AllocatePage (disk_manager bp) = Some (p, dm)" "p \<notin> A" "disk_ok dm (insert p A)"
    "\<And>q. addressable q \<Longrightarrow> dk.content dm q = dk.content (disk_manager bp) q"
    using dk.content_alloc [OF ok assms(2)] by blast
  have ok1: "pool_ok (bp\<lparr>disk_manager := dm\<rparr>) (insert p A) W"
    using pool_ok_disk [OF assms(1) a(3)] a(4) disk_space [OF ok] by blast
  have v1: "view (bp\<lparr>disk_manager := dm\<rparr>) x = view bp x" if "x \<in> A" for x
    using a(4) [OF disk_space [OF ok that]] by (simp add: view_def split: option.splits)
  have np: "map_of (page_table bp) p = None"
    using a(2) pool_entry(4) [OF assms(1)] by (cases "map_of (page_table bp) p") (auto simp: entry_ok_def)
  obtain q bp' where t: "take_frame (bp\<lparr>disk_manager := dm\<rparr>) = Some (q, bp')" "pool_ok bp' (insert p A) W"
    "q = None \<longleftrightarrow> free_list (bp\<lparr>disk_manager := dm\<rparr>) = [] \<and> lru_list (replacer (bp\<lparr>disk_manager := dm\<rparr>)) = []"
    "\<forall>f. q = Some f \<longrightarrow> spare f bp'" "\<forall>x. map_of (page_table (bp\<lparr>disk_manager := dm\<rparr>)) x = None \<longrightarrow> map_of (page_table bp') x = None"
    "\<forall>x\<in>insert p A. view bp' x = view (bp\<lparr>disk_manager := dm\<rparr>) x"
    using take_frame_ok [OF ok1] by blast
  have np': "map_of (page_table bp') p = None" using t(5) np by simp
  obtain f where q: "q = Some f" using t(3) False by (auto simp: Size_def)
  have sp: "spare f bp'" using t(4) q by simp
  have pt: "page_at f bp' = Some (pages bp' ! f)" "f < length (pages bp')"
    using sp pool_okD(3) [OF t(2)] by (simp_all add: spare_def page_at_def)
  let ?pg = "(pages bp' ! f)\<lparr>page_id := p, data := zero_page, pin_count := 1, is_dirty := False\<rparr>"
  let ?bp = "set_page f ?pg (bp'\<lparr>page_table := table_insert p f (page_table bp')\<rparr>)"
  have "pool_ok ?bp (insert p A) (insert p W)" "view ?bp x = (if x = p then zero_page else view bp' x)" for x
    using install_ok [OF t(2) sp _ np', of ?pg "insert p W"] by auto
  moreover have "NewPage bp = Some (Some (p, f), ?bp)"
    using False a(1) t(1) q pt(2) by (auto simp: NewPage_def page_at_def Let_def)
  moreover have "map_of (page_table ?bp) p = Some f" "pin_count (pages ?bp ! f) = 1"
    using table_insert_new [OF np'] pt(2) by (simp_all add: set_page_def)
  ultimately show ?thesis using a(2) t(3,6) q v1 by auto
qed

lemma UnpinPage_ok:
  assumes "pool_ok bp A W" "dirty \<or> p \<notin> W"
  shows "\<exists>b bp'. UnpinPage p dirty bp = Some (b, bp') \<and> pool_ok bp' A (W - {p}) \<and> (\<forall>x\<in>A. view bp' x = view bp x)
    \<and> (b \<longleftrightarrow> map_of (page_table bp) p \<noteq> None)"
proof (cases "map_of (page_table bp) p")
  case None
  have "entry_ok (disk_manager bp) (set (lru_list (replacer bp))) A (W - {p}) (pages bp ! f) q f" if "(q, f) \<in> set (page_table bp)" for q f
    using pool_okD(8) [OF assms(1) that] that None by (force simp: entry_ok_def map_of_eq_None_iff)
  then have "pool_ok bp A (W - {p})" using assms(1) by (auto simp: pool_ok_def)
  then show ?thesis using None by (auto simp: UnpinPage_def)
next
  case (Some f)
  note e = pool_entry [OF assms(1) Some]
  let ?pg = "(pages bp ! f)\<lparr>pin_count := 0, is_dirty := is_dirty (pages bp ! f) \<or> dirty\<rparr>"
  have ok: "lru_ok (replacer bp)" by (rule pool_okD(2) [OF assms(1)])
  have "entry_ok (disk_manager bp) (set (lru_list (Unpin f (replacer bp)))) A (W - {p}) ?pg p f"
    using e(4) assms(2) lru.unpin_set [OF ok, of f] by (auto simp: entry_ok_def)
  from touch_ok [OF assms(1) Some _ _ this] lru.unpin_cands [OF ok, of f] lru.unpin_set [OF ok, of f]
  have "pool_ok (set_page f ?pg (bp\<lparr>replacer := Unpin f (replacer bp)\<rparr>)) A (W - {p})"
    "view (set_page f ?pg (bp\<lparr>replacer := Unpin f (replacer bp)\<rparr>)) q = (if q = p then data ?pg else view bp q)" for q by auto
  moreover have "view bp p = data (pages bp ! f)" using Some by (simp add: view_def)
  ultimately show ?thesis using Some e(2) by (auto simp: UnpinPage_def)
qed

lemma client_write_ok:
  assumes "pool_ok bp A W" "map_of (page_table bp) p = Some f" "0 < pin_count (pages bp ! f)" "length d = 4096"
  shows "pool_ok (set_page f ((pages bp ! f)\<lparr>data := d\<rparr>) bp) A (insert p W)
    \<and> view (set_page f ((pages bp ! f)\<lparr>data := d\<rparr>) bp) q = (if q = p then d else view bp q)"
proof -
  let ?pg = "(pages bp ! f)\<lparr>data := d\<rparr>"
  have "entry_ok (disk_manager bp) (set (lru_list (replacer bp))) A (insert p W) ?pg p f"
    using pool_entry(4) [OF assms(1,2)] assms(3,4) by (auto simp: entry_ok_def)
  from touch_ok [OF assms(1,2) pool_okD(2) [OF assms(1)] _ this] show ?thesis by simp
qed

lemma init_ok:
  assumes "disk_ok dm A"
  shows "pool_ok (BufferPoolManager_init n dm) A {} \<and> (\<forall>p. view (BufferPoolManager_init n dm) p = dk.content dm p)"
  using assms lru_init_ok [of n] by (auto simp: pool_ok_def BufferPoolManager_init_def frames_of_def view_def)

section \<open>Closing the pool\<close>

text \<open>What the destructor needs: it holds of a pool in order with nothing unreported, and each flush keeps it.\<close>

definition closing :: "BufferPoolManager \<Rightarrow> int set \<Rightarrow> bool" where
  "closing bp A \<longleftrightarrow> disk_ok (disk_manager bp) A \<and> distinct (map snd (page_table bp))
     \<and> (\<forall>(p, f)\<in>set (page_table bp). f < length (pages bp) \<and> settled (disk_manager bp) A (pages bp ! f) p)"

lemma table_frame: "pool_ok bp A W \<Longrightarrow> (p, f) \<in> set (page_table bp) \<Longrightarrow> f < pool_size bp"
  using pool_entry(3) map_of_table pool_okD(3) by metis

lemma closing_of_pool:
  assumes "pool_ok bp A {}"
  shows "closing bp A"
proof -
  have "f < length (pages bp) \<and> settled (disk_manager bp) A (pages bp ! f) p" if "(p, f) \<in> set (page_table bp)" for p f
    using entry_settled [OF pool_okD(8) [OF assms that]] table_frame [OF assms that] pool_okD(3) [OF assms] by simp
  then show ?thesis using pool_okD(1,5) [OF assms] by (auto simp: closing_def frames_of_def)
qed

lemma flush_ok:
  assumes "closing bp A" "p \<noteq> INVALID_PAGE_ID"
  shows "\<exists>b bp'. FlushPage p bp = Some (b, bp') \<and> closing bp' A \<and> page_table bp' = table_erase p (page_table bp)
    \<and> length (pages bp') = length (pages bp) \<and> (\<forall>f. page_id (pages bp' ! f) = page_id (pages bp ! f)) \<and> (\<forall>x\<in>A. view bp' x = view bp x)"
proof (cases "map_of (page_table bp) p")
  case None
  then have "table_erase p (page_table bp) = page_table bp" by (force simp: table_erase_def map_of_eq_None_iff filter_id_conv)
  then show ?thesis using None assms by (auto simp: FlushPage_def)
next
  case (Some f)
  let ?dm = "disk_manager bp" and ?pg = "pages bp ! f"
  have m: "(p, f) \<in> set (page_table bp)" by (rule map_of_SomeD [OF Some])
  then have f: "f < length (pages bp)" and e: "settled ?dm A ?pg p"
    using assms(1) by (auto simp: closing_def)
  obtain dm' where dm': "(if is_dirty ?pg then WritePage p (data ?pg) ?dm else Some ?dm) = Some dm'" "disk_ok dm' A"
    "dk.content dm' p = data ?pg" "\<forall>q\<in>A - {p}. dk.content dm' q = dk.content ?dm q"
    using write_back_disk [OF _ e] assms(1) by (auto simp: closing_def)
  let ?bp = "set_page f (?pg\<lparr>pin_count := 0, is_dirty := False\<rparr>)
    (bp\<lparr>disk_manager := dm', page_table := table_erase p (page_table bp), free_list := free_list bp @ [f]\<rparr>)"
  have "FlushPage p bp = Some (True, ?bp)"
    using Some f dm'(1) assms(2) by (cases "is_dirty ?pg") (auto simp: FlushPage_def page_at_def)
  moreover have other: "g \<noteq> f" if "(q, g) \<in> set (page_table bp)" "q \<noteq> p" for q g
    using assms(1) m that by (auto simp: closing_def distinct_map dest: inj_onD [of _ _ "(p, f)" "(q, g)"])
  have "closing ?bp A"
    unfolding closing_def
  proof (intro conjI ballI)
    show "disk_ok (disk_manager ?bp) A" using dm'(2) by (simp add: set_page_def)
    show "distinct (map snd (page_table ?bp))"
      using assms(1) by (simp add: closing_def set_page_def table_erase_def distinct_map_filter)
    fix x assume "x \<in> set (page_table ?bp)"
    then have "x \<in> set (page_table bp)" "fst x \<noteq> p" by (simp_all add: set_page_def table_erase_set)
    moreover obtain q g where "x = (q, g)" by fastforce
    ultimately have x: "x = (q, g)" "(q, g) \<in> set (page_table bp)" "q \<noteq> p" by simp_all
    then have "g < length (pages bp)" "settled ?dm A (pages bp ! g) q"
      using assms(1) by (auto simp: closing_def)
    then show "case x of (q, g) \<Rightarrow> g < length (pages ?bp) \<and> settled (disk_manager ?bp) A (pages ?bp ! g) q"
      using other [OF x(2,3)] dm'(4) x(1,3) by (auto simp: set_page_def settled_def)
  qed
  moreover have "view ?bp x = view bp x" if "x \<in> A" for x
    using that Some dm'(3,4) other [OF map_of_SomeD] by (fastforce simp: view_def set_page_def split: option.splits)
  moreover have "page_id (pages ?bp ! g) = page_id (pages bp ! g)" for g using f by (cases "g = f") (simp_all add: set_page_def)
  ultimately show ?thesis by (auto simp: set_page_def)
qed

lemma flush_frames_ok:
  assumes "closing bp A" "list_all (\<lambda>i. i < length (pages bp)) is"
  shows "\<exists>bp'. flush_frames is bp = Some bp' \<and> closing bp' A \<and> (\<forall>x\<in>A. view bp' x = view bp x)
    \<and> set (page_table bp') \<subseteq> {e \<in> set (page_table bp). snd e \<notin> set is}"
  using assms
proof (induction "is" arbitrary: bp)
  case (Cons i "is")
  let ?p = "page_id (pages bp ! i)"
  have at: "page_at i bp = Some (pages bp ! i)" using Cons.prems(2) by (simp add: page_at_def)
  have own: "fst e = ?p" "?p \<noteq> INVALID_PAGE_ID" if "e \<in> set (page_table bp)" "snd e = i" for e
    using Cons.prems(1) that disk_space [of "disk_manager bp" A "fst e"]
    by (force simp: closing_def settled_def addressable_def)+
  obtain bp1 where 1: "(if ?p \<noteq> INVALID_PAGE_ID then do { (_, bp) \<leftarrow> FlushPage ?p bp; Some bp } else Some bp) = Some bp1"
    "closing bp1 A" "length (pages bp1) = length (pages bp)" "\<forall>x\<in>A. view bp1 x = view bp x"
    "set (page_table bp1) \<subseteq> {e \<in> set (page_table bp). snd e \<noteq> i}"
  proof (cases "?p = INVALID_PAGE_ID")
    case True
    then have "set (page_table bp) \<subseteq> {e \<in> set (page_table bp). snd e \<noteq> i}" using own(2) by blast
    then show ?thesis using that [of bp] Cons.prems(1) True by simp
  next
    case False
    obtain b bp1 where f: "FlushPage ?p bp = Some (b, bp1)" "closing bp1 A" "page_table bp1 = table_erase ?p (page_table bp)"
      "length (pages bp1) = length (pages bp)" "\<forall>x\<in>A. view bp1 x = view bp x" using flush_ok [OF Cons.prems(1) False] by blast
    have "set (page_table bp1) \<subseteq> {e \<in> set (page_table bp). snd e \<noteq> i}" using own(1) f(3) by (auto simp: table_erase_set)
    with False f show ?thesis using that [of bp1] by simp
  qed
  from Cons.IH [OF 1(2)] Cons.prems(2) 1(3) obtain bp2 where "flush_frames is bp1 = Some bp2" "closing bp2 A"
    "\<forall>x\<in>A. view bp2 x = view bp1 x" "set (page_table bp2) \<subseteq> {e \<in> set (page_table bp1). snd e \<notin> set is}" by auto
  with 1 at show ?case by auto
qed simp

lemma destroy_ok:
  assumes "pool_ok bp A {}"
  shows "\<exists>dm. BufferPoolManager_destroy bp = Some dm \<and> disk_ok dm A \<and> (\<forall>p\<in>A. ReadPage p dm = Some (view bp p))"
proof -
  obtain bp' where f: "flush_frames [0..<pool_size bp] bp = Some bp'" "closing bp' A" "\<forall>x\<in>A. view bp' x = view bp x"
    "set (page_table bp') \<subseteq> {e \<in> set (page_table bp). snd e \<notin> set [0..<pool_size bp]}"
    using flush_frames_ok [OF closing_of_pool [OF assms], of "[0..<pool_size bp]"] pool_okD(3) [OF assms]
    by (auto simp: list_all_iff)
  have "page_table bp' = []"
  proof (rule ccontr)
    assume "page_table bp' \<noteq> []"
    then obtain e where "e \<in> set (page_table bp')" by (meson last_in_set)
    then show False using f(4) table_frame [OF assms, of "fst e" "snd e"] by auto
  qed
  moreover have ok: "disk_ok (disk_manager bp') A" using f(2) by (simp add: closing_def)
  ultimately have "ReadPage p (disk_manager bp') = Some (view bp p)" if "p \<in> A" for p
    using dk.content_read [OF ok disk_space [OF ok that]] f(3) that by (simp add: view_def)
  with f(1) ok show ?thesis by (simp add: BufferPoolManager_destroy_def)
qed

section \<open>Clients\<close>

text \<open>
  What a client may do, with the pages \<open>A\<close> that are allocated, the content \<open>M\<close> each page should have and the
  pages \<open>W\<close> written and not yet reported: fetch a page, make a new one (which counts as written, since
  its zeroes are in the frame only), write through the pointer of a pinned page, and unpin a page, as
  dirty unless it was not written.
\<close>

type_synonym pool_state = "BufferPoolManager \<times> int set \<times> (int \<Rightarrow> page) \<times> int set"

inductive pool_step :: "pool_state \<Rightarrow> pool_state \<Rightarrow> bool" where
  client_fetch: "p \<in> A \<Longrightarrow> FetchPage p bp = Some (q, bp') \<Longrightarrow> pool_step (bp, A, M, W) (bp', A, M, W)"
| client_new: "card A < 32704 \<Longrightarrow> NewPage bp = Some (Some (p, f), bp')
    \<Longrightarrow> pool_step (bp, A, M, W) (bp', insert p A, M(p := zero_page), insert p W)"
| client_new_full: "card A < 32704 \<Longrightarrow> NewPage bp = Some (None, bp') \<Longrightarrow> pool_step (bp, A, M, W) (bp', A, M, W)"
| client_write: "map_of (page_table bp) p = Some f \<Longrightarrow> 0 < pin_count (pages bp ! f) \<Longrightarrow> length d = 4096
    \<Longrightarrow> pool_step (bp, A, M, W) (set_page f ((pages bp ! f)\<lparr>data := d\<rparr>) bp, A, M(p := d), insert p W)"
| client_unpin: "dirty \<or> p \<notin> W \<Longrightarrow> UnpinPage p dirty bp = Some (b, bp') \<Longrightarrow> pool_step (bp, A, M, W) (bp', A, M, W - {p})"

inductive_cases pool_stepE: "pool_step (bp, A, M, W) s'"

definition pool_rel :: "pool_state \<Rightarrow> bool" where
  "pool_rel s = (case s of (bp, A, M, W) \<Rightarrow> pool_ok bp A W \<and> (\<forall>p\<in>A. view bp p = M p))"

lemma pool_step_rel:
  assumes "pool_step s s'" "pool_rel s"
  shows "pool_rel s'"
  using assms
proof (induction rule: pool_step.induct)
  case (client_fetch p A bp q bp' M W)
  then show ?case using FetchPage_ok [of bp A W p] by (auto simp: pool_rel_def)
next
  case (client_new A bp p f bp' M W)
  then show ?case using NewPage_ok [of bp A W] by (auto simp: pool_rel_def)
next
  case (client_new_full A bp bp' M W)
  then show ?case using NewPage_ok [of bp A W] by (auto simp: pool_rel_def)
next
  case (client_write bp p f d A M W)
  then show ?case using client_write_ok [of bp A W p f d] by (auto simp: pool_rel_def)
next
  case (client_unpin dirty p W bp b bp' A M)
  then show ?case using UnpinPage_ok [of bp A W dirty p] by (auto simp: pool_rel_def)
qed

lemma pool_run_rel: "pool_step\<^sup>*\<^sup>* s s' \<Longrightarrow> pool_rel s \<Longrightarrow> pool_rel s'"
  by (induction rule: rtranclp_induct) (auto intro: pool_step_rel)

lemma pool_init_rel:
  "disk_ok dm A \<Longrightarrow> \<forall>p\<in>A. ReadPage p dm = Some (M p) \<Longrightarrow> pool_rel (BufferPoolManager_init n dm, A, M, {})"
  using init_ok [of dm A n] by (simp add: pool_rel_def dk.content_def)

section \<open>Properties\<close>

text \<open>
  C2: no update is lost. Whatever clients do by the protocol from an empty pool on, fetching a page gives
  a pinned frame with the content last written to the page, also when it was evicted in between; the
  fetch fails only when the page is not in the pool, no frame is free and every page is pinned. The
  bookkeeping of the pool stays consistent.
\<close>
theorem buffer_pool_no_lost_update:
  assumes "disk_ok dm A" "\<forall>p\<in>A. ReadPage p dm = Some (M p)"
    "pool_step\<^sup>*\<^sup>* (BufferPoolManager_init n dm, A, M, {}) (bp, A', M', W)" "p \<in> A'"
  shows "pool_ok bp A' W \<and> (\<exists>q bp'. FetchPage p bp = Some (q, bp')
    \<and> (q = None \<longleftrightarrow> map_of (page_table bp) p = None \<and> free_list bp = [] \<and> (\<forall>(x, f)\<in>set (page_table bp). 0 < pin_count (pages bp ! f)))
    \<and> (\<forall>f. q = Some f \<longrightarrow> data (pages bp' ! f) = M' p \<and> page_id (pages bp' ! f) = p \<and> 0 < pin_count (pages bp' ! f)))"
proof -
  have ok: "pool_ok bp A' W" and v: "view bp p = M' p"
    using pool_run_rel [OF assms(3) pool_init_rel [OF assms(1,2)]] assms(4) by (auto simp: pool_rel_def)
  have "lru_list (replacer bp) = [] \<longleftrightarrow> (\<forall>(x, f)\<in>set (page_table bp). 0 < pin_count (pages bp ! f))"
  proof -
    have e: "0 < pin_count (pages bp ! f) \<longleftrightarrow> f \<notin> set (lru_list (replacer bp))" if "(x, f) \<in> set (page_table bp)" for x f
      using pool_okD(8) [OF ok that] by (auto simp: entry_ok_def)
    have "set (lru_list (replacer bp)) = {f \<in> snd ` set (page_table bp). \<not> 0 < pin_count (pages bp ! f)}"
      using pool_okD(7) [OF ok] e by auto
    then show ?thesis by (auto simp flip: set_empty)
  qed
  moreover obtain q bp' where f: "FetchPage p bp = Some (q, bp')" "pool_ok bp' A' W"
    "q = None \<longleftrightarrow> map_of (page_table bp) p = None \<and> free_list bp = [] \<and> lru_list (replacer bp) = []"
    "\<forall>f. q = Some f \<longrightarrow> map_of (page_table bp') p = Some f \<and> data (pages bp' ! f) = view bp p \<and> 0 < pin_count (pages bp' ! f)"
    using FetchPage_ok [OF ok assms(4)] by blast
  moreover have "page_id (pages bp' ! f) = p" if "map_of (page_table bp') p = Some f" for f
    using pool_entry(4) [OF f(2) that] by (simp add: entry_ok_def)
  ultimately show ?thesis using ok v by auto
qed

text \<open>A pool of one frame over an empty file: a new page, written and unpinned.\<close>

lemma take_frame_size: "take_frame bp = Some (q, bp') \<Longrightarrow> pool_size bp' = pool_size bp"
  by (auto simp: take_frame_def write_back_def Let_def split: if_splits option.splits prod.splits bind_splits)

lemma NewPage_size: "NewPage bp = Some (q, bp') \<Longrightarrow> pool_size bp' = pool_size bp"
  using take_frame_size by (fastforce simp: NewPage_def set_page_def Let_def split: if_splits prod.splits bind_splits)

lemma pool_example:
  "\<exists>p f bp M. pool_step\<^sup>*\<^sup>* (BufferPoolManager_init 1 empty_disk, {}, \<lambda>_. zero_page, {}) (bp, {p}, M, {})
      \<and> M p = replicate 4096 7 \<and> map_of (page_table bp) p = Some f \<and> pool_size bp = 1 \<and> pin_count (pages bp ! f) = 0"
proof -
  let ?b = "BufferPoolManager_init 1 empty_disk" and ?M = "\<lambda>_ :: int. zero_page" and ?d = "replicate 4096 7 :: page"
  have ok: "pool_ok ?b {} {}" using init_ok [OF empty_disk_ok] by simp
  obtain p f b1 where n: "NewPage ?b = Some (Some (p, f), b1)" "pool_ok b1 {p} {p}" "map_of (page_table b1) p = Some f"
    "pin_count (pages b1 ! f) = 1"
    using NewPage_ok [OF ok] by (fastforce simp: BufferPoolManager_init_def)
  let ?b2 = "set_page f ((pages b1 ! f)\<lparr>data := ?d\<rparr>) b1"
  have w: "pool_ok ?b2 {p} {p}" "map_of (page_table ?b2) p = Some f"
    using client_write_ok [OF n(2,3), of ?d] n(3,4) by (auto simp: set_page_def)
  obtain b bp where u: "UnpinPage p True ?b2 = Some (b, bp)" using UnpinPage_ok [OF w(1), of True p] by blast
  have "f < length (pages b1)" by (rule pool_entry(3) [OF n(2,3)])
  then have "map_of (page_table bp) p = Some f" "pool_size bp = 1" "pin_count (pages bp ! f) = 0"
    using u n(3) NewPage_size [OF n(1)]
    by (auto simp: UnpinPage_def set_page_def page_at_def BufferPoolManager_init_def split: bind_splits)
  moreover have "(?M(p := zero_page, p := ?d)) p = ?d" by simp
  moreover have "pool_step (?b, {}, ?M, {}) (b1, {p}, ?M(p := zero_page), {p})"
    using client_new [OF _ n(1), of "{}" ?M "{}"] by simp
  moreover have "pool_step (b1, {p}, ?M(p := zero_page), {p}) (?b2, {p}, ?M(p := zero_page, p := ?d), {p})"
    using client_write [OF n(3), of ?d "{p}" "?M(p := zero_page)" "{p}"] n(4) by simp
  moreover have "pool_step (?b2, {p}, ?M(p := zero_page, p := ?d), {p}) (bp, {p}, ?M(p := zero_page, p := ?d), {})"
    using client_unpin [OF _ u, of "{p}" "{p}" "?M(p := zero_page, p := ?d)"] by simp
  ultimately have "pool_step\<^sup>*\<^sup>* (?b, {}, ?M, {}) (bp, {p}, ?M(p := zero_page, p := ?d), {})"
    by (meson converse_rtranclp_into_rtranclp rtranclp.rtrancl_refl)
  with \<open>map_of (page_table bp) p = Some f\<close> \<open>pool_size bp = 1\<close> \<open>pin_count (pages bp ! f) = 0\<close> show ?thesis
    by (intro exI [of _ p] exI [of _ f] exI [of _ bp] exI [of _ "?M(p := zero_page, p := ?d)"]) simp
qed

theorem buffer_pool_no_lost_update_witness:
  "\<exists>p bp M bp' f. pool_step\<^sup>*\<^sup>* (BufferPoolManager_init 1 empty_disk, {}, \<lambda>_. zero_page, {}) (bp, {p}, M, {})
    \<and> M p = replicate 4096 7 \<and> FetchPage p bp = Some (Some f, bp') \<and> data (pages bp' ! f) = replicate 4096 7"
proof -
  obtain p f bp M where r: "pool_step\<^sup>*\<^sup>* (BufferPoolManager_init 1 empty_disk, {}, \<lambda>_. zero_page, {}) (bp, {p}, M, {})"
    "M p = replicate 4096 7" "map_of (page_table bp) p = Some f" using pool_example by blast
  have "\<forall>p\<in>({} :: int set). ReadPage p empty_disk = Some zero_page" by simp
  from buffer_pool_no_lost_update [OF empty_disk_ok this r(1), of p] obtain q bp' where
    "FetchPage p bp = Some (q, bp')" "q \<noteq> None" "\<forall>f. q = Some f \<longrightarrow> data (pages bp' ! f) = M p" using r(3) by auto
  with r(1,2) show ?thesis by (metis not_None_eq)
qed

text \<open>
  C26: closing the pool makes everything durable. When nothing written is unreported, the destructor
  flushes so that every allocated page on the disk has the content last written to it, pinned or not.
\<close>
theorem buffer_pool_durable:
  assumes "disk_ok dm A" "\<forall>p\<in>A. ReadPage p dm = Some (M p)"
    "pool_step\<^sup>*\<^sup>* (BufferPoolManager_init n dm, A, M, {}) (bp, A', M', {})"
  shows "\<exists>dm'. BufferPoolManager_destroy bp = Some dm' \<and> (\<forall>p\<in>A'. ReadPage p dm' = Some (M' p))"
proof -
  have "pool_ok bp A' {}" "\<forall>p\<in>A'. view bp p = M' p"
    using pool_run_rel [OF assms(3) pool_init_rel [OF assms(1,2)]] by (auto simp: pool_rel_def)
  with destroy_ok [of bp A'] show ?thesis by auto
qed

theorem buffer_pool_durable_witness:
  "\<exists>p bp M dm'. pool_step\<^sup>*\<^sup>* (BufferPoolManager_init 1 empty_disk, {}, \<lambda>_. zero_page, {}) (bp, {p}, M, {})
    \<and> BufferPoolManager_destroy bp = Some dm' \<and> ReadPage p dm' = Some (replicate 4096 7)"
proof -
  obtain p bp M where r: "pool_step\<^sup>*\<^sup>* (BufferPoolManager_init 1 empty_disk, {}, \<lambda>_. zero_page, {}) (bp, {p}, M, {})"
    "M p = replicate 4096 7" using pool_example by blast
  have "\<forall>p\<in>({} :: int set). ReadPage p empty_disk = Some zero_page" by simp
  from buffer_pool_durable [OF empty_disk_ok this r(1)] r show ?thesis by auto
qed

lemma disk_dealloc:
  assumes "disk_ok dm A" "p \<in> A"
  shows "\<exists>dm'. DiskManager_DeAllocatePage p dm = Some dm' \<and> disk_ok dm' (A - {p})"
proof -
  obtain B where B: "first_extent dm B" "A = int ` allocated B" using assms(1) by (auto simp: disk_ok_def)
  then obtain n where n: "p = int n" "n \<in> allocated B" using assms(2) by auto
  obtain dm' B' where d: "DiskManager_DeAllocatePage p dm = Some dm'" "first_extent dm' B'" "allocated B' = allocated B - {n}"
    using disk_release [OF B(1), of p] allocated_bound [OF B(1) n(2)] n by auto
  have "A - {p} = int ` allocated B'" using d(3) B(2) n(1) by (auto simp: image_set_diff)
  with d(1,2) show ?thesis by (auto simp: disk_ok_def)
qed

text \<open>
  C27: a frame is handed out twice. \<open>DeletePage\<close> puts the frame of an unpinned page on the free list but
  leaves it with the replacer. In a full pool where it is the only candidate, the next \<open>NewPage\<close> takes it
  from the free list and pins it, and the one after evicts that pinned page and returns the same frame
  for a different page.
\<close>
theorem deleted_frame_shared:
  assumes "pool_ok bp A W" "map_of (page_table bp) p = Some f" "lru_list (replacer bp) = [f]" "free_list bp = []" "card A < 32704"
  shows "\<exists>bp1 q bp2 q' bp3. DeletePage p bp = Some (True, bp1) \<and> NewPage bp1 = Some (Some (q, f), bp2)
    \<and> pin_count (pages bp2 ! f) = 1 \<and> NewPage bp2 = Some (Some (q', f), bp3) \<and> q' \<noteq> q"
proof -
  note e = pool_entry [OF assms(1,2)] and D = pool_okD [OF assms(1)]
  let ?pg = "pages bp ! f" and ?t = "table_erase p (page_table bp)"
  have p: "p \<in> A" "pin_count ?pg = 0" using e(4) assms(3) by (auto simp: entry_ok_def)
  obtain dm1 where d1: "DiskManager_DeAllocatePage p (disk_manager bp) = Some dm1" "disk_ok dm1 (A - {p})"
    using disk_dealloc [OF D(1) p(1)] by blast
  have c: "card (A - {p}) + 1 = card A" "finite A" using p(1) dk.ok_space [OF D(1)] card_Suc_Diff1 [of A p] by auto
  obtain q dm2 where d2: "DiskManager_AllocatePage dm1 = Some (q, dm2)" "q \<notin> A - {p}" "disk_ok dm2 (insert q (A - {p}))"
    using dk.alloc_fresh [OF d1(2)] c(1) assms(5) by auto
  have "card (insert q (A - {p})) < 32704" using c assms(5) d2(2) by simp
  then obtain q' dm3 where d3: "DiskManager_AllocatePage dm2 = Some (q', dm3)" "q' \<notin> insert q (A - {p})"
    using dk.alloc_fresh [OF d2(3)] by blast
  let ?bp1 = "set_page f (?pg\<lparr>is_dirty := False, data := zero_page, page_id := INVALID_PAGE_ID\<rparr>)
    (bp\<lparr>disk_manager := dm1, page_table := ?t, free_list := [f]\<rparr>)"
  have 1: "DeletePage p bp = Some (True, ?bp1)"
    using d1(1) assms(2,4) e(3) p(2) by (simp add: DeletePage_def page_at_def)
  have "x \<in> A - {p}" if "x \<in> fst ` set ?t" for x
    using that D(8) by (auto simp: table_erase_set entry_ok_def)
  then have keys: "q \<notin> fst ` set ?t" "q' \<notin> fst ` set ?t" using d2(2) d3(2) by blast+
  let ?pg2 = "?pg\<lparr>page_id := q, data := zero_page, pin_count := 1, is_dirty := False\<rparr>"
  let ?bp2 = "bp\<lparr>disk_manager := dm2, free_list := [], page_table := (q, f) # ?t, pages := (pages bp)[f := ?pg2]\<rparr>"
  have 2: "NewPage ?bp1 = Some (Some (q, f), ?bp2)"
    using d2(1) keys(1) e(3) by (simp add: NewPage_def take_frame_def set_page_def page_at_def table_insert_def Let_def)
  obtain r where r: "Victim (replacer bp) = (Some f, r)" using assms(3) by (simp add: Victim_def Size_def Let_def)
  let ?bp3 = "set_page f (?pg2\<lparr>page_id := q', data := zero_page, pin_count := 1, is_dirty := False\<rparr>)
    (?bp2\<lparr>disk_manager := dm3, replacer := r, page_table := table_insert q' f (table_erase q ((q, f) # ?t))\<rparr>)"
  have 3: "NewPage ?bp2 = Some (Some (q', f), ?bp3)"
    using d3(1) e(3) r assms(3) by (simp add: NewPage_def take_frame_def write_back_def set_page_def page_at_def Size_def Let_def)
  show ?thesis using 1 2 3 e(3) d3(2) by (intro exI [of _ ?bp1] exI [of _ q] exI [of _ ?bp2] exI [of _ q'] exI [of _ ?bp3]) simp
qed

lemma singleton_list: "distinct xs \<Longrightarrow> set xs = {x} \<Longrightarrow> xs = [x]"
  using distinct_card [of xs] by (cases xs; cases "tl xs") auto

theorem deleted_frame_shared_witness:
  "\<exists>bp M p f bp1 q bp2 q' bp3. pool_step\<^sup>*\<^sup>* (BufferPoolManager_init 1 empty_disk, {}, \<lambda>_. zero_page, {}) (bp, {p}, M, {})
    \<and> DeletePage p bp = Some (True, bp1) \<and> NewPage bp1 = Some (Some (q, f), bp2)
    \<and> pin_count (pages bp2 ! f) = 1 \<and> NewPage bp2 = Some (Some (q', f), bp3) \<and> q' \<noteq> q"
proof -
  obtain p f bp M where r: "pool_step\<^sup>*\<^sup>* (BufferPoolManager_init 1 empty_disk, {}, \<lambda>_. zero_page, {}) (bp, {p}, M, {})"
    "map_of (page_table bp) p = Some f" "pool_size bp = 1" "pin_count (pages bp ! f) = 0" using pool_example by blast
  have ok: "pool_ok bp {p} {}"
    using pool_run_rel [OF r(1) pool_init_rel [OF empty_disk_ok]] by (simp add: pool_rel_def)
  note e = pool_entry [OF ok r(2)] and D = pool_okD [OF ok]
  have fr: "set (frames_of bp) \<subseteq> {0}" using D(6) r(3) by auto
  moreover have "f \<in> set (frames_of bp)" using e(1) by (force simp: frames_of_def)
  ultimately have f: "f = 0" by auto
  have "0 \<in> set (map snd (page_table bp))" using e(1) f by (simp add: rev_image_eqI)
  then have "0 \<notin> set (free_list bp)" using D(5) by (auto simp: frames_of_def)
  moreover have "set (free_list bp) \<subseteq> {0}" "set (map snd (page_table bp)) \<subseteq> {0}" using fr by (auto simp: frames_of_def)
  ultimately have fl: "free_list bp = []" by (cases "free_list bp") auto
  have "f \<in> set (lru_list (replacer bp))" using e(4) r(4) by (simp add: entry_ok_def)
  moreover have "set (lru_list (replacer bp)) \<subseteq> {0}" using D(7) \<open>set (map snd (page_table bp)) \<subseteq> {0}\<close> by auto
  ultimately have "set (lru_list (replacer bp)) = {f}" using f by auto
  then have ll: "lru_list (replacer bp) = [f]" using D(2) by (intro singleton_list) (simp_all add: lru_ok_def)
  from deleted_frame_shared [OF ok r(2) ll fl] r(1) show ?thesis by fastforce
qed

end
