(* ===== verification/Pool_Pins.thy ===== *)
theory Pool_Pins
  imports Buffer_Pool
begin

text \<open>
  The buffer pool as its clients in the storage layer use it: which frame a client may reach through
  its pointer (\<open>pin_at\<close>), that no frame is lost (\<open>no_frame_lost\<close>), and therefore when \<open>FetchPage\<close> and \<open>NewPage\<close>
  succeed. \<open>pool_at\<close> collects what a client knows: the allocated pages, their contents, the pages written
  and not yet reported as dirty, and the pinned pages with their frames.
\<close>

definition pin_at :: "BufferPoolManager \<Rightarrow> int \<Rightarrow> nat option" where
  "pin_at bp p = (case map_of (page_table bp) p of
     Some f \<Rightarrow> if 0 < pin_count (pages bp ! f) then Some f else None | None \<Rightarrow> None)"

definition no_frame_lost :: "BufferPoolManager \<Rightarrow> bool" where
  "no_frame_lost bp \<longleftrightarrow> {..<pool_size bp} \<subseteq> set (frames_of bp)"

definition pool_at :: "BufferPoolManager \<Rightarrow> int set \<Rightarrow> (int \<Rightarrow> page) \<Rightarrow> int set \<Rightarrow> (int \<Rightarrow> nat option) \<Rightarrow> bool" where
  "pool_at bp A M W pins \<longleftrightarrow> pool_ok bp A W \<and> (\<forall>p\<in>A. view bp p = M p) \<and> pin_at bp = pins \<and> no_frame_lost bp"

section \<open>Pins and frames under the operations\<close>

lemma pin_at_table: "pool_ok bp A W \<Longrightarrow> pin_at bp p = Some f \<Longrightarrow> map_of (page_table bp) p = Some f \<and> 0 < pin_count (pages bp ! f)"
  by (auto simp: pin_at_def split: option.splits if_splits)

lemma pin_at_cong: "page_table bp' = page_table bp \<Longrightarrow> pages bp' = pages bp \<Longrightarrow> pin_at bp' = pin_at bp"
  by (simp add: pin_at_def fun_eq_iff split: option.splits)

lemma pin_at_touch:
  assumes "pool_ok bp A W" "map_of (page_table bp) p = Some f"
  shows "pin_at (set_page f pg (bp\<lparr>replacer := r\<rparr>)) = (pin_at bp)(p := if 0 < pin_count pg then Some f else None)"
proof
  fix q
  note e = pool_entry [OF assms]
  show "pin_at (set_page f pg (bp\<lparr>replacer := r\<rparr>)) q = ((pin_at bp)(p := if 0 < pin_count pg then Some f else None)) q"
  proof (cases "q = p")
    case True
    then show ?thesis using assms(2) e(3) by (simp add: pin_at_def set_page_def)
  next
    case False
    have "g \<noteq> f" if "map_of (page_table bp) q = Some g" for g
      using frame_unique [OF assms(1) e(1), of q] map_of_SomeD [OF that] False by blast
    then show ?thesis using False by (auto simp: pin_at_def set_page_def split: option.splits)
  qed
qed

lemma take_frame_pins:
  assumes "pool_ok bp A W" "take_frame bp = Some (Some f, bp')"
  shows "pin_at bp' = pin_at bp" "set (frames_of bp) \<subseteq> insert f (set (frames_of bp'))" "pool_size bp' = pool_size bp"
proof -
  have "pin_at bp' = pin_at bp \<and> set (frames_of bp) \<subseteq> insert f (set (frames_of bp')) \<and> pool_size bp' = pool_size bp"
  proof (cases "free_list bp = []")
    case False
    then have b: "f = last (free_list bp)" "bp' = bp\<lparr>free_list := butlast (free_list bp)\<rparr>" using assms(2) by (simp_all add: take_frame_def)
    have "set (free_list bp) = insert (last (free_list bp)) (set (butlast (free_list bp)))"
      using False by (metis append_butlast_last_id list.set(2) rotate1.simps(2) set_rotate1)
    then show ?thesis using b pin_at_cong [of bp' bp] by (auto simp: frames_of_def)
  next
    case True
    obtain q r where v: "Victim (replacer bp) = (q, r)" by fastforce
    then have q: "q = Some f" "write_back f (bp\<lparr>replacer := r\<rparr>) = Some bp'"
      using assms(2) True by (auto simp: take_frame_def split: option.splits Option.bind_splits)
    note vc = lru.victim_cases [OF pool_okD(2) [OF assms(1)] v]
    have f: "f \<in> set (lru_list (replacer bp))" "lru_ok r" "set (lru_list r) = set (lru_list (replacer bp)) - {f}" using vc q(1) by auto
    then obtain p where p: "(p, f) \<in> set (page_table bp)" using pool_okD(7) [OF assms(1)] by force
    obtain bp1 where b: "write_back f (bp\<lparr>replacer := r\<rparr>) = Some bp1" "pages bp1 = pages bp" "pool_size bp1 = pool_size bp"
      "page_table bp1 = table_erase p (page_table bp)" using evict_ok [OF assms(1) p f] by blast
    have z: "pin_count (pages bp ! f) = 0" using pool_okD(8) [OF assms(1) p] f(1) by (simp add: entry_ok_def)
    have "pin_at bp1 = pin_at bp"
      using b(2,4) z map_of_table [OF assms(1) p] by (auto simp: pin_at_def fun_eq_iff split: option.splits)
    moreover have "free_list bp1 = free_list bp"
      using b(1) by (auto simp: write_back_def Let_def split: Option.bind_splits)
    then have "set (frames_of bp) \<subseteq> insert f (set (frames_of bp1))"
      using b(4) key_unique [OF assms(1) p] by (force simp: frames_of_def table_erase_set)
    ultimately show ?thesis using b(1,3) q(2) by simp
  qed
  then show "pin_at bp' = pin_at bp" "set (frames_of bp) \<subseteq> insert f (set (frames_of bp'))" "pool_size bp' = pool_size bp" by auto
qed

lemma pin_at_install:
  assumes "pool_ok bp A W" "spare f bp" "map_of (page_table bp) p = None" "0 < pin_count pg"
  shows "pin_at (set_page f pg (bp\<lparr>page_table := table_insert p f (page_table bp)\<rparr>)) = (pin_at bp)(p := Some f)"
proof
  fix q
  have f: "f < length (pages bp)" "f \<notin> snd ` set (page_table bp)"
    using assms(2) pool_okD(3) [OF assms(1)] by (auto simp: spare_def frames_of_def)
  then have "g \<noteq> f" if "map_of (page_table bp) q = Some g" for g using map_of_SomeD [OF that] by force
  then show "pin_at (set_page f pg (bp\<lparr>page_table := table_insert p f (page_table bp)\<rparr>)) q = ((pin_at bp)(p := Some f)) q"
    using assms(3,4) f(1) table_insert_new [OF assms(3)] by (auto simp: pin_at_def set_page_def split: option.splits)
qed

lemma frames_install:
  "map_of (page_table bp) p = None \<Longrightarrow>
    set (frames_of (set_page f pg (bp\<lparr>page_table := table_insert p f (page_table bp)\<rparr>))) = insert f (set (frames_of bp))"
  using table_insert_new [of "page_table bp" p f] by (simp add: frames_of_def set_page_def)


section \<open>The laws a client relies on\<close>

text \<open>A frame can be had unless every frame is pinned.\<close>

lemma frame_available:
  assumes "pool_at bp A M W pins" "finite (dom pins)" "card (dom pins) < pool_size bp"
  shows "\<not> (free_list bp = [] \<and> lru_list (replacer bp) = [])"
proof
  assume a: "free_list bp = [] \<and> lru_list (replacer bp) = []"
  have ok: "pool_ok bp A W" and pins: "pin_at bp = pins" and full: "{..<pool_size bp} \<subseteq> set (frames_of bp)"
    using assms(1) by (auto simp: pool_at_def no_frame_lost_def)
  have "f \<in> the ` pins ` dom pins" if f: "f < pool_size bp" for f
  proof -
    obtain p where p: "(p, f) \<in> set (page_table bp)" using full f a by (force simp: frames_of_def)
    have "0 < pin_count (pages bp ! f)" using pool_okD(8) [OF ok p] a by (auto simp: entry_ok_def)
    then have "pins p = Some f" using map_of_table [OF ok p] pins by (auto simp: pin_at_def)
    then show ?thesis by (metis domI image_eqI option.sel)
  qed
  then have "{..<pool_size bp} \<subseteq> the ` pins ` dom pins" by auto
  then have "pool_size bp \<le> card (the ` pins ` dom pins)" using assms(2) card_mono [of "the ` pins ` dom pins" "{..<pool_size bp}"] by simp
  also have "\<dots> \<le> card (dom pins)" by (metis assms(2) card_image_le finite_imageI le_trans)
  finally show False using assms(3) by simp
qed

lemma pinned_page:
  assumes "pool_at bp A M W pins" "pins p = Some f"
  shows "page_at f bp = Some (pages bp ! f)" "data (pages bp ! f) = M p" "page_id (pages bp ! f) = p" "p \<in> A" "f < length (pages bp)"
    "length (M p) = 4096"
proof -
  have ok: "pool_ok bp A W" and v: "\<forall>p\<in>A. view bp p = M p" and pins: "pin_at bp = pins" using assms(1) by (auto simp: pool_at_def)
  have t: "map_of (page_table bp) p = Some f" using pin_at_table [OF ok] pins assms(2) by blast
  note e = pool_entry [OF ok t]
  show "page_at f bp = Some (pages bp ! f)" "f < length (pages bp)" by (rule e(2), rule e(3))
  show p: "p \<in> A" "page_id (pages bp ! f) = p" using e(4) by (simp_all add: entry_ok_def)
  then show "data (pages bp ! f) = M p" using v t by (auto simp: view_def)
  then show "length (M p) = 4096" using e(4) by (simp add: entry_ok_def)
qed

lemma pool_fetch:
  assumes "pool_at bp A M W pins" "p \<in> A" "finite (dom pins)" "p \<in> dom pins \<or> card (dom pins) < pool_size bp"
  shows "\<exists>f bp'. FetchPage p bp = Some (Some f, bp') \<and> pool_at bp' A M W (pins(p := Some f)) \<and> pool_size bp' = pool_size bp"
proof -
  have ok: "pool_ok bp A W" and v: "\<forall>p\<in>A. view bp p = M p" and pins: "pin_at bp = pins" and full: "no_frame_lost bp"
    using assms(1) by (auto simp: pool_at_def)
  obtain q bp' where f: "FetchPage p bp = Some (q, bp')" "pool_ok bp' A W" "\<forall>x\<in>A. view bp' x = view bp x"
    "q = None \<longleftrightarrow> map_of (page_table bp) p = None \<and> free_list bp = [] \<and> lru_list (replacer bp) = []"
    using FetchPage_ok [OF ok assms(2)] by blast
  have "q \<noteq> None"
    using f(4) assms(4) frame_available [OF assms(1,3)] pin_at_table [OF ok] pins by (metis domD option.distinct(1))
  then obtain g where g: "q = Some g" by blast
  have "pin_at bp' = pins(p := Some g) \<and> no_frame_lost bp' \<and> pool_size bp' = pool_size bp"
  proof (cases "map_of (page_table bp) p")
    case (Some h)
    note e = pool_entry [OF ok Some]
    have b: "g = h" "bp' = set_page h ((pages bp ! h)\<lparr>pin_count := pin_count (pages bp ! h) + 1\<rparr>) (bp\<lparr>replacer := Pin h (replacer bp)\<rparr>)"
      using f(1) g Some e(2) by (auto simp: FetchPage_def)
    have "0 < pin_count (pages bp ! h) + 1" using e(4) by (simp add: entry_ok_def)
    then show ?thesis using b pin_at_touch [OF ok Some] pins full by (simp add: no_frame_lost_def frames_of_def set_page_def)
  next
    case None
    obtain t bp1 where t: "take_frame bp = Some (t, bp1)" "pool_ok bp1 A W" "map_of (page_table bp1) p = None" "\<forall>f. t = Some f \<longrightarrow> spare f bp1"
      using take_frame_ok [OF ok] None by blast
    then have tg: "t = Some g" using f(1) g None by (auto simp: FetchPage_def Let_def split: option.splits Option.bind_splits)
    note tp = take_frame_pins [OF ok t(1) [unfolded tg]]
    have sp: "spare g bp1" using t(4) tg by blast
    obtain d where b: "bp' = set_page g ((pages bp1 ! g)\<lparr>page_id := p, pin_count := 1, is_dirty := False, data := d\<rparr>)
        (bp1\<lparr>page_table := table_insert p g (page_table bp1)\<rparr>)"
      using f(1) g None t(1) tg by (auto simp: FetchPage_def page_at_def Let_def split: Option.bind_splits if_splits)
    have "pin_at bp' = (pin_at bp1)(p := Some g)" unfolding b by (rule pin_at_install [OF t(2) sp t(3)]) simp
    moreover have "set (frames_of bp') = insert g (set (frames_of bp1))" unfolding b by (rule frames_install [OF t(3)])
    moreover have "pool_size bp' = pool_size bp" using b tp(3) by (simp add: set_page_def)
    ultimately show ?thesis using tp(1,2) pins full by (auto simp: no_frame_lost_def)
  qed
  then show ?thesis using f(1-3) g v by (auto simp: pool_at_def)
qed

lemma pool_new:
  assumes "pool_at bp A M W pins" "card A < 32704" "finite (dom pins)" "card (dom pins) < pool_size bp"
  shows "\<exists>p f bp'. NewPage bp = Some (Some (p, f), bp') \<and> p \<notin> A \<and> pool_size bp' = pool_size bp
    \<and> pool_at bp' (insert p A) (M(p := zero_page)) (insert p W) (pins(p := Some f))"
proof -
  have ok: "pool_ok bp A W" and v: "\<forall>p\<in>A. view bp p = M p" and pins: "pin_at bp = pins" and full: "no_frame_lost bp"
    using assms(1) by (auto simp: pool_at_def)
  obtain q bp' where n: "NewPage bp = Some (q, bp')" "q = None \<longleftrightarrow> free_list bp = [] \<and> lru_list (replacer bp) = []"
    "\<forall>p f. q = Some (p, f) \<longrightarrow> p \<notin> A \<and> pool_ok bp' (insert p A) (insert p W)
        \<and> (\<forall>x\<in>insert p A. view bp' x = (if x = p then zero_page else view bp x))"
    using NewPage_ok [OF ok assms(2)] by blast
  obtain p f where q: "q = Some (p, f)" using n(2) frame_available [OF assms(1,3,4)] by fastforce
  note pf = n(3) [rule_format, OF q]
  have "pin_at bp' = pins(p := Some f) \<and> no_frame_lost bp' \<and> pool_size bp' = pool_size bp"
  proof -
    obtain dm bp1 where a: "DiskManager_AllocatePage (disk_manager bp) = Some (p, dm)" "take_frame (bp\<lparr>disk_manager := dm\<rparr>) = Some (Some f, bp1)"
      "bp' = set_page f ((pages bp1 ! f)\<lparr>page_id := p, data := zero_page, pin_count := 1, is_dirty := False\<rparr>)
        (bp1\<lparr>page_table := table_insert p f (page_table bp1)\<rparr>)"
      using n(1) q by (auto simp: NewPage_def page_at_def Let_def split: Option.bind_splits if_splits)
    obtain p' dm' where d: "DiskManager_AllocatePage (disk_manager bp) = Some (p', dm')" "disk_ok dm' (insert p' A)"
      "\<And>q. addressable q \<Longrightarrow> dk.content dm' q = dk.content (disk_manager bp) q"
      using dk.content_alloc [OF pool_okD(1) [OF ok] assms(2)] by blast
    then have ok1: "pool_ok (bp\<lparr>disk_manager := dm\<rparr>) (insert p A) W"
      using pool_ok_disk [OF ok d(2)] d(3) disk_space [OF pool_okD(1) [OF ok]] a(1) by auto
    have np: "map_of (page_table bp) p = None"
      using pf pool_entry(4) [OF ok] by (cases "map_of (page_table bp) p") (auto simp: entry_ok_def)
    have t: "pool_ok bp1 (insert p A) W" "map_of (page_table bp1) p = None" "spare f bp1"
      using take_frame_ok [OF ok1] a(2) np by auto
    note tp = take_frame_pins [OF ok1 a(2)]
    have "pin_at bp' = (pin_at bp1)(p := Some f)" unfolding a(3) by (rule pin_at_install [OF t(1,3,2)]) simp
    moreover have "set (frames_of bp') = insert f (set (frames_of bp1))" unfolding a(3) by (rule frames_install [OF t(2)])
    moreover have "pool_size bp' = pool_size bp" using a(3) tp(3) by (simp add: set_page_def)
    moreover have "pin_at (bp\<lparr>disk_manager := dm\<rparr>) = pins" "frames_of (bp\<lparr>disk_manager := dm\<rparr>) = frames_of bp"
      using pins pin_at_cong [of "bp\<lparr>disk_manager := dm\<rparr>" bp] by (simp_all add: frames_of_def)
    ultimately show ?thesis using tp(1,2) full by (auto simp: no_frame_lost_def)
  qed
  then show ?thesis using n(1) q pf v by (auto simp: pool_at_def)
qed

lemma pool_unpin:
  assumes "pool_at bp A M W pins" "dirty \<or> p \<notin> W"
  shows "\<exists>b bp'. UnpinPage p dirty bp = Some (b, bp') \<and> pool_at bp' A M (W - {p}) (pins(p := None)) \<and> pool_size bp' = pool_size bp"
proof -
  have ok: "pool_ok bp A W" and v: "\<forall>p\<in>A. view bp p = M p" and pins: "pin_at bp = pins" and full: "no_frame_lost bp"
    using assms(1) by (auto simp: pool_at_def)
  obtain b bp' where u: "UnpinPage p dirty bp = Some (b, bp')" "pool_ok bp' A (W - {p})" "\<forall>x\<in>A. view bp' x = view bp x"
    using UnpinPage_ok [OF ok assms(2)] by blast
  have "pin_at bp' = pins(p := None) \<and> no_frame_lost bp' \<and> pool_size bp' = pool_size bp"
  proof (cases "map_of (page_table bp) p")
    case None
    then have "pins p = None" using pins by (auto simp: pin_at_def)
    then show ?thesis using None u(1) pins full by (simp add: UnpinPage_def fun_upd_idem)
  next
    case (Some h)
    note e = pool_entry [OF ok Some]
    have "bp' = set_page h ((pages bp ! h)\<lparr>pin_count := 0, is_dirty := is_dirty (pages bp ! h) \<or> dirty\<rparr>) (bp\<lparr>replacer := Unpin h (replacer bp)\<rparr>)"
      using u(1) Some e(2) by (simp add: UnpinPage_def)
    then show ?thesis using pin_at_touch [OF ok Some] pins full by (simp add: no_frame_lost_def frames_of_def set_page_def)
  qed
  then show ?thesis using u v by (auto simp: pool_at_def)
qed

lemma pool_write:
  assumes "pool_at bp A M W pins" "pins p = Some f" "length d = 4096"
  shows "pool_at (set_page f ((pages bp ! f)\<lparr>data := d\<rparr>) bp) A (M(p := d)) (insert p W) pins"
proof -
  have ok: "pool_ok bp A W" and v: "\<forall>p\<in>A. view bp p = M p" and pins: "pin_at bp = pins" and full: "no_frame_lost bp"
    using assms(1) by (auto simp: pool_at_def)
  have t: "map_of (page_table bp) p = Some f" "0 < pin_count (pages bp ! f)" using pin_at_table [OF ok] pins assms(2) by auto
  have "pin_at (set_page f ((pages bp ! f)\<lparr>data := d\<rparr>) bp) = pins"
    using pin_at_touch [OF ok t(1), of "(pages bp ! f)\<lparr>data := d\<rparr>" "replacer bp"] t(2) pins assms(2) by (simp add: fun_upd_idem)
  moreover have "view (set_page f ((pages bp ! f)\<lparr>data := d\<rparr>) bp) x = (M(p := d)) x" if "x \<in> A" for x
    using client_write_ok [OF ok t assms(3)] v that by simp
  ultimately show ?thesis using client_write_ok [OF ok t assms(3)] full
    by (auto simp: pool_at_def no_frame_lost_def frames_of_def set_page_def)
qed

lemma set_page_size [simp]: "pool_size (set_page f pg bp) = pool_size bp"
  by (simp add: set_page_def)

section \<open>Reading and writing through a pointer\<close>

text \<open>A page id as it is stored in a page, and back.\<close>

abbreviation (input) id_word :: "int \<Rightarrow> u32" where "id_word p \<equiv> word_of_int p"

definition write_frame :: "nat \<Rightarrow> u8 list \<Rightarrow> BufferPoolManager \<Rightarrow> BufferPoolManager option" where
  "write_frame f d bp = do { pg \<leftarrow> page_at f bp; Some (set_page f (pg\<lparr>data := d\<rparr>) bp) }"

section \<open>Page ids\<close>

lemma pool_id_range: "pool_ok bp A W \<Longrightarrow> p \<in> A \<Longrightarrow> 0 \<le> p \<and> p < 524287"
  using disk_space [OF pool_okD(1)] pos_imp_zdiv_nonneg_iff [of 32704 p] by (force simp: addressable_def physical_def)

lemma sint_id: "0 \<le> p \<Longrightarrow> p < 524287 \<Longrightarrow> sint (id_word p :: u32) = p"
  by (simp add: signed_of_int signed_take_bit_int_eq_self)

lemma sint_id_at: "pool_at bp A M W pins \<Longrightarrow> p \<in> A \<Longrightarrow> sint (id_word p :: u32) = p \<and> p \<noteq> - 1"
  using pool_id_range [of bp A W p] sint_id [of p] by (auto simp: pool_at_def)

lemma write_frame_at:
  assumes "pool_at bp A M W pins" "pins p = Some f" "length d = 4096"
  shows "\<exists>bp'. write_frame f d bp = Some bp' \<and> pool_at bp' A (M(p := d)) (insert p W) pins \<and> pool_size bp' = pool_size bp"
  using pinned_page(1) [OF assms(1,2)] pool_write [OF assms] by (simp add: write_frame_def)

text \<open>A frame written with what it held.\<close>

lemma rewrite_frame:
  assumes "pool_at bp A M W pins" "pins p = Some f"
  shows "write_frame f (M p) bp = Some bp"
proof -
  have "set_page f ((pages bp ! f)\<lparr>data := M p\<rparr>) bp = bp"
    using pinned_page(2,5) [OF assms] by (cases bp) (auto simp: set_page_def list_update_same_conv)
  then show ?thesis using pinned_page(1) [OF assms] by (simp add: write_frame_def)
qed

lemma minus_one_free: "pool_at bp A M W pins \<Longrightarrow> - 1 \<notin> A"
  using sint_id_at by blast

lemma pool_page_at: "pool_at bp A M W pins \<Longrightarrow> f < pool_size bp \<Longrightarrow> page_at f bp = Some (pages bp ! f)"
  using pool_okD(3) by (auto simp: pool_at_def page_at_def)

lemma pinned_frame: "pool_at bp A M W pins \<Longrightarrow> pins p = Some f \<Longrightarrow> f < pool_size bp"
  using pinned_page(5) pool_okD(3) by (metis pool_at_def)

lemma pins_room:
  assumes "finite D" "dom pins \<subseteq> insert p D" "card D < n"
  shows "finite (dom pins)" "p \<in> dom pins \<or> card (dom pins) < n"
proof -
  show "finite (dom pins)" using assms(1,2) finite_subset by blast
  have "card (dom pins) \<le> card D" if "p \<notin> dom pins" using assms(1,2) that by (intro card_mono) auto
  then show "p \<in> dom pins \<or> card (dom pins) < n" using assms(3) by linarith
qed

text \<open>A pool over an empty file, and the ids it hands out.\<close>

lemma empty_pool_at: "pool_at (BufferPoolManager_init n empty_disk) {} M {} (\<lambda>_. None)"
  using init_ok [OF empty_disk_ok, of n]
  by (auto simp: pool_at_def pin_at_def no_frame_lost_def frames_of_def BufferPoolManager_init_def fun_eq_iff)

lemma new_page_least:
  assumes "pool_at bp A M W pins" "card A < 32704" "NewPage bp = Some (Some (p, f), bp')"
  shows "p = int (LEAST n. int n \<notin> A)"
proof -
  have "disk_ok (disk_manager bp) A" using assms(1) pool_okD(1) by (auto simp: pool_at_def)
  then obtain dm where "DiskManager_AllocatePage (disk_manager bp) = Some (int (LEAST n. int n \<notin> A), dm)" using disk_alloc [OF _ assms(2)] by blast
  then show ?thesis using assms(3) by (auto simp: NewPage_def Let_def split: Option.bind_splits if_splits option.splits)
qed

text \<open>A file with the catalog page and the page of the roots.\<close>

lemma sample_pool: "\<exists>bp. pool_at bp {0, 1} (\<lambda>_. zero_page) {} (\<lambda>_. None) \<and> pool_size bp = 4"
proof -
  have step: "\<exists>bp'. pool_at bp' (insert (int n) A) (\<lambda>_. zero_page) {} (\<lambda>_. None) \<and> pool_size bp' = 4"
    if a: "pool_at bp A (\<lambda>_. zero_page) {} (\<lambda>_. None)" "pool_size bp = 4" "card A < 32704" "(LEAST n. int n \<notin> A) = n" for bp A n
  proof -
    obtain p f bp1 where n: "NewPage bp = Some (Some (p, f), bp1)" "pool_size bp1 = pool_size bp"
      "pool_at bp1 (insert p A) ((\<lambda>_. zero_page)(p := zero_page)) {p} ((\<lambda>_. None)(p := Some f))"
      using pool_new [OF a(1,3)] a(2) by auto
    have "p = int n" using new_page_least [OF a(1,3) n(1)] a(4) by simp
    then show ?thesis using pool_unpin [OF n(3), of True p] n(2) a(2) by (auto simp: fun_upd_idem)
  qed
  obtain bp where b: "pool_at bp {0} (\<lambda>_. zero_page) {} (\<lambda>_. None)" "pool_size bp = 4"
    using step [OF empty_pool_at [of 4], of 0] by (auto simp: BufferPoolManager_init_def Least_eq_0)
  have "(LEAST n. int n \<notin> {0}) = 1" by (rule Least_equality) auto
  from step [OF b _ this] show ?thesis by (simp add: insert_commute)
qed

end
