(* ===== verification/Rows.thy ===== *)
theory Rows
  imports Field_Types
begin

text \<open>
  Rows, \<open>MiniSQL/src/record/row.cpp\<close>: a header with the row id, the number of fields and a bitmap of the
  null fields, followed by the fields with their types. Reading a serialized row gives its fields back
  and consumes the bytes that \<open>GetSerializedSize\<close> announces.
\<close>

section \<open>Model\<close>

record RowId =
  rid_page_id :: u32
  slot_num :: u32

definition INVALID_ROWID :: RowId where
  "INVALID_ROWID = \<lparr>rid_page_id = - 1, slot_num = 0\<rparr>"

record Row =
  rid :: RowId
  row_fields :: "Field list"

definition Row_of_fields :: "Field list \<Rightarrow> Row" where
  "Row_of_fields fs = \<lparr>rid = INVALID_ROWID, row_fields = fs\<rparr>"

definition Row_of_rid :: "RowId \<Rightarrow> Row" where
  "Row_of_rid r = \<lparr>rid = r, row_fields = []\<rparr>"

fun mark_nulls :: "Field list \<Rightarrow> nat \<Rightarrow> u8 list \<Rightarrow> u8 list" where
  "mark_nulls [] i null_bitmap = null_bitmap"
| "mark_nulls (f # fs) i null_bitmap = mark_nulls fs (i + 1)
     (if is_null f then null_bitmap[i div 8 := null_bitmap ! (i div 8) OR push_bit (i mod 8) 1] else null_bitmap)"

text \<open>One turn of the loop that writes the fields.\<close>

definition put_field :: "Field \<Rightarrow> u8 list \<Rightarrow> nat \<Rightarrow> u32 \<Rightarrow> (u8 list \<times> u32) option" where
  "put_field field buf i len = do {
     buf \<leftarrow> write_bytes buf (i + unat len) (le32 (type_code (type_id field)));
     let len = len + 4;
     (buf, n) \<leftarrow> Field_SerializeTo field buf (i + unat len);
     Some (buf, len + n) }"

definition Row_SerializeTo :: "Row \<Rightarrow> u8 list \<Rightarrow> nat \<Rightarrow> (u8 list \<times> u32) option" where
  "Row_SerializeTo row buf i = do {
     buf \<leftarrow> write_bytes buf i (le32 (rid_page_id (rid row)));
     buf \<leftarrow> write_bytes buf (i + 4) (le32 (slot_num (rid row)));
     let size = (of_nat (length (row_fields row)) :: u32);
     buf \<leftarrow> write_bytes buf (i + 8) (le32 size);
     let null_bitmap = mark_nulls (take (unat size) (row_fields row)) 0 (replicate (unat (size div 8 + 1)) 0);
     let bitmap_size = size div 8 + 1;
     buf \<leftarrow> write_bytes buf (i + 12) (le32 bitmap_size);
     buf \<leftarrow> write_bytes buf (i + 16) null_bitmap;
     put_all put_field (row_fields row) buf i (16 + bitmap_size) }"

text \<open>One turn of the loop that reads them, for the field with number \<open>k\<close>.\<close>

definition get_field :: "u8 list \<Rightarrow> nat \<Rightarrow> u8 list \<Rightarrow> nat \<Rightarrow> u32 \<Rightarrow> (Field \<times> u32) option" where
  "get_field null_bitmap k buf i len = do {
     w \<leftarrow> read32 buf (i + unat len);
     typeId \<leftarrow> type_of_code w;
     let len = len + 4;
     (field, n) \<leftarrow> Field_DeserializeFrom buf (i + unat len) typeId (bit (null_bitmap ! (k div 8)) (k mod 8));
     Some (field, len + n) }"

text \<open>
  The stored row id is skipped. The copy of \<open>bitmap_size\<close> bytes must stay inside the local array of
  \<open>size/8 + 1\<close> bytes, which starts as zeros.
\<close>

definition Row_DeserializeFrom :: "Row \<Rightarrow> u8 list \<Rightarrow> nat \<Rightarrow> (Row \<times> u32) option" where
  "Row_DeserializeFrom row buf i = do {
     size \<leftarrow> read32 buf (i + 8);
     bitmap_size \<leftarrow> read32 buf (i + 12);
     let null_bitmap = replicate (unat (size div 8 + 1)) 0;
     null_bitmap \<leftarrow> (if length buf < i + 16 + unat bitmap_size then None
       else write_bytes null_bitmap 0 (take (unat bitmap_size) (drop (i + 16) buf)));
     (fs, len) \<leftarrow> get_all (get_field null_bitmap) [0..<unat size] buf i (16 + bitmap_size);
     Some (row\<lparr>row_fields := fs\<rparr>, len) }"

fun fields_size :: "Field list \<Rightarrow> u32 \<Rightarrow> u32 option" where
  "fields_size [] len = Some len"
| "fields_size (f # fs) len = do { n \<leftarrow> Field_GetSerializedSize f; fields_size fs (len + 4 + n) }"

definition Row_GetSerializedSize :: "Row \<Rightarrow> u32 option" where
  "Row_GetSerializedSize row = do {
     len \<leftarrow> fields_size (row_fields row) 0;
     let size = (of_nat (length (row_fields row)) :: u32);
     Some (4 + 3 * 4 + len + size div 8 + 1) }"

section \<open>The null bitmap\<close>

lemma mark_nulls_length [simp]: "length (mark_nulls fs i bm) = length bm"
  by (induction fs i bm rule: mark_nulls.induct) auto

lemma mark_nulls_bit:
  assumes "i + length fs \<le> 8 * length bm" "k < 8 * length bm"
  shows "bit (mark_nulls fs i bm ! (k div 8)) (k mod 8) \<longleftrightarrow>
    bit (bm ! (k div 8)) (k mod 8) \<or> i \<le> k \<and> k < i + length fs \<and> is_null (fs ! (k - i))"
  using assms
proof (induction fs i bm rule: mark_nulls.induct)
  case (2 f fs i bm)
  let ?bm = "if is_null f then bm[i div 8 := bm ! (i div 8) OR push_bit (i mod 8) 1] else bm"
  have b: "bit (?bm ! (k div 8)) (k mod 8) \<longleftrightarrow> bit (bm ! (k div 8)) (k mod 8) \<or> k = i \<and> is_null f"
  proof (cases "k div 8 = i div 8")
    case True
    then have "k mod 8 = i mod 8 \<longleftrightarrow> k = i" by (metis div_mult_mod_eq)
    then show ?thesis using True 2(2,3) by (auto simp: bit_or_iff bit_push_bit_iff nth_list_update bit_exp_iff)
  next
    case False
    then show ?thesis by (auto simp: nth_list_update)
  qed
  have "bit (mark_nulls fs (i + 1) ?bm ! (k div 8)) (k mod 8) \<longleftrightarrow>
    bit (?bm ! (k div 8)) (k mod 8) \<or> i + 1 \<le> k \<and> k < i + 1 + length fs \<and> is_null (fs ! (k - (i + 1)))"
    using 2(2,3) by (intro 2(1)) auto
  then show ?case unfolding mark_nulls.simps b by (cases "k = i") (auto simp: nth_Cons')
qed auto

section \<open>The image of a row\<close>

definition typed_image :: "Field \<Rightarrow> u8 list" where
  "typed_image f = le32 (type_code (type_id f)) @ field_image f"

lemma type_of_type_code [simp]: "type_of_code (type_code t) = Some t"
  by (cases t) (auto simp: type_of_code_def type_code_def)

lemma put_field_image:
  assumes "field_ok f" "i + unat len = length as" "length old = length (typed_image f)"
    "unat len + length (typed_image f) < 2 ^ 32"
  shows "put_field f (as @ old @ bs) i len = Some (as @ typed_image f @ bs, len + of_nat (length (typed_image f)))"
proof -
  let ?t = "le32 (type_code (type_id f))"
  obtain o1 o2 where o: "old = o1 @ o2" "length o1 = 4" "length o2 = length (field_image f)"
    using split_at [of 4 "length (field_image f)" old] assms(3) by (auto simp: typed_image_def)
  have "unat (len + of_nat 4) = unat len + 4" using assms(4) by (intro unat_add32) (simp add: typed_image_def)
  then have u: "unat (len + 4) = unat len + 4" by simp
  have w: "write_bytes (as @ o1 @ (o2 @ bs)) (i + unat len) ?t = Some (as @ ?t @ (o2 @ bs))"
    using assms o by (intro write_segment) auto
  have "Field_SerializeTo f ((as @ ?t) @ o2 @ bs) (i + unat (len + 4))
    = Some ((as @ ?t) @ field_image f @ bs, of_nat (length (field_image f)))"
    using assms o u by (intro Field_SerializeTo_image) auto
  with w show ?thesis using o by (simp add: put_field_def typed_image_def add.assoc)
qed

lemma get_field_image:
  assumes "field_ok f" "bit (bm ! (k div 8)) (k mod 8) = is_null f" "i + unat len = length as"
    "unat len + length (typed_image f) < 2 ^ 32"
  shows "get_field bm k (as @ typed_image f @ bs) i len = Some (field_read f, len + of_nat (length (typed_image f)))"
proof -
  let ?t = "le32 (type_code (type_id f))"
  have "unat (len + of_nat 4) = unat len + 4" using assms(4) by (intro unat_add32) (simp add: typed_image_def)
  then have u: "unat (len + 4) = unat len + 4" by simp
  have r: "read32 (as @ ?t @ (field_image f @ bs)) (i + unat len) = Some (type_code (type_id f))"
    using assms by (intro read32_segment) auto
  have "Field_DeserializeFrom ((as @ ?t) @ field_image f @ bs) (i + unat (len + 4)) (type_id f) (is_null f)
    = Some (field_read f, of_nat (length (field_image f)))"
    using assms u by (intro Field_DeserializeFrom_image) auto
  with r assms(2) show ?thesis by (simp add: get_field_def typed_image_def add.assoc)
qed

interpretation rf: codec put_field "get_field bm" typed_image field_ok
    "\<lambda>k f. bit (bm ! (k div 8)) (k mod 8) = is_null f" field_read for bm
  by unfold_locales (auto intro: put_field_image get_field_image)

definition null_bits :: "Field list \<Rightarrow> u8 list" where
  "null_bits fs = mark_nulls fs 0 (replicate (length fs div 8 + 1) 0)"

definition row_image :: "Row \<Rightarrow> u8 list" where
  "row_image row = le32 (rid_page_id (rid row)) @ le32 (slot_num (rid row)) @ le32 (of_nat (length (row_fields row)))
     @ le32 (of_nat (length (row_fields row) div 8 + 1)) @ null_bits (row_fields row) @ rf.images (row_fields row)"

text \<open>A row whose fields are well formed and whose image can be counted in 32 bits.\<close>

definition row_ok :: "Row \<Rightarrow> bool" where
  "row_ok row \<longleftrightarrow> (\<forall>f\<in>set (row_fields row). field_ok f) \<and> length (row_image row) < 2 ^ 32"

lemma null_bits_length [simp]: "length (null_bits fs) = length fs div 8 + 1"
  by (simp add: null_bits_def)

lemma typed_image_length [simp]: "length (typed_image f) = 4 + length (field_image f)"
  by (simp add: typed_image_def)

lemma images_length_ge: "length (rf.images fs) \<ge> 4 * length fs"
  by (induction fs) auto

lemma row_image_length: "length (row_image row) = 17 + length (row_fields row) div 8 + length (rf.images (row_fields row))"
  by (simp add: row_image_def)

lemma row_size_words:
  assumes "row_ok row" "n = length (row_fields row)"
  shows "unat (of_nat n :: u32) = n" "(of_nat n :: u32) div 8 + 1 = of_nat (n div 8 + 1)"
    "unat (of_nat (n div 8 + 1) :: u32) = n div 8 + 1" "unat (16 + of_nat (n div 8 + 1) :: u32) = 16 + (n div 8 + 1)"
proof -
  have n: "17 + n div 8 + 4 * n < 4294967296"
    using assms images_length_ge [of "row_fields row"] by (simp add: row_ok_def row_image_length)
  then show a: "unat (of_nat n :: u32) = n" by (intro unat_small32) simp
  show b: "unat (of_nat (n div 8 + 1) :: u32) = n div 8 + 1" using n by (intro unat_small32) simp
  have "unat ((of_nat n :: u32) div 8) = n div 8" by (simp add: unat_div a)
  then have "(of_nat n :: u32) div 8 = of_nat (n div 8)" using n unat_small32 [of "n div 8"] by (simp add: word_unat_eq_iff)
  then show "(of_nat n :: u32) div 8 + 1 = of_nat (n div 8 + 1)" by simp
  have "unat ((of_nat (n div 8 + 1) :: u32) + of_nat 16) = unat (of_nat (n div 8 + 1) :: u32) + 16"
    using n b by (intro unat_add32) simp
  then show "unat (16 + of_nat (n div 8 + 1) :: u32) = 16 + (n div 8 + 1)" using b by (simp add: add.commute)
qed


lemma row_header_segments:
  assumes "length old = length (row_image row)"
  obtains a b c d e f where "old = a @ b @ c @ d @ e @ f" "length a = 4" "length b = 4" "length c = 4" "length d = 4"
    "length e = length (row_fields row) div 8 + 1" "length f = length (rf.images (row_fields row))"
proof -
  let ?n = "length (row_fields row) div 8 + 1"
  have "old = take 4 old @ take 4 (drop 4 old) @ take 4 (drop 8 old) @ take 4 (drop 12 old) @ take ?n (drop 16 old) @ drop (16 + ?n) old"
    by (simp add: take_add [symmetric] flip: append_assoc) 
  then show thesis using assms by (intro that) (auto simp: row_image_length)
qed

text \<open>Serializing replaces a part of the array by the image of the row.\<close>

lemma Row_SerializeTo_image:
  assumes "row_ok row" "i = length as" "length old = length (row_image row)"
  shows "Row_SerializeTo row (as @ old @ bs) i = Some (as @ row_image row @ bs, of_nat (length (row_image row)))"
proof -
  let ?n = "length (row_fields row)"
  define z :: u32 where "z = of_nat (?n div 8 + 1)"
  note w = row_size_words [OF assms(1) refl, folded z_def]
  let ?p = "le32 (rid_page_id (rid row))" and ?s = "le32 (slot_num (rid row))" and ?c = "le32 (of_nat ?n)"
    and ?b = "le32 z" and ?m = "null_bits (row_fields row)"
  have im: "row_image row = ?p @ ?s @ ?c @ ?b @ ?m @ rf.images (row_fields row)" by (simp add: row_image_def z_def)
  have len: "of_nat (length (row_image row)) = 16 + z + (of_nat (length (rf.images (row_fields row))) :: u32)"
    by (simp add: row_image_length z_def)
  obtain a b c d e f where o: "old = a @ b @ c @ d @ e @ f" "length a = 4" "length b = 4" "length c = 4" "length d = 4"
    "length e = ?n div 8 + 1" "length f = length (rf.images (row_fields row))"
    using row_header_segments [OF assms(3)] by blast
  have "write_bytes (as @ a @ (b @ c @ d @ e @ f @ bs)) i ?p = Some (as @ ?p @ (b @ c @ d @ e @ f @ bs))"
    "write_bytes ((as @ ?p) @ b @ (c @ d @ e @ f @ bs)) (i + 4) ?s = Some ((as @ ?p) @ ?s @ (c @ d @ e @ f @ bs))"
    "write_bytes ((as @ ?p @ ?s) @ c @ (d @ e @ f @ bs)) (i + 8) ?c = Some ((as @ ?p @ ?s) @ ?c @ (d @ e @ f @ bs))"
    "write_bytes ((as @ ?p @ ?s @ ?c) @ d @ (e @ f @ bs)) (i + 12) ?b = Some ((as @ ?p @ ?s @ ?c) @ ?b @ (e @ f @ bs))"
    "write_bytes ((as @ ?p @ ?s @ ?c @ ?b) @ e @ (f @ bs)) (i + 16) ?m = Some ((as @ ?p @ ?s @ ?c @ ?b) @ ?m @ (f @ bs))"
    using assms(2) o by (intro write_segment; simp)+
  moreover have "put_all put_field (row_fields row) ((as @ ?p @ ?s @ ?c @ ?b @ ?m) @ f @ bs) i (16 + z)
    = Some ((as @ ?p @ ?s @ ?c @ ?b @ ?m) @ rf.images (row_fields row) @ bs, 16 + z + of_nat (length (rf.images (row_fields row))))"
    using assms o w(4) by (intro rf.put_all_images) (auto simp: row_ok_def row_image_length)
  moreover have "mark_nulls (row_fields row) 0 (replicate (unat z) 0) = ?m" by (simp add: null_bits_def w(3))
  ultimately have "Row_SerializeTo row (as @ old @ bs) i
    = Some (as @ ?p @ ?s @ ?c @ ?b @ ?m @ rf.images (row_fields row) @ bs, 16 + z + of_nat (length (rf.images (row_fields row))))"
    unfolding Row_SerializeTo_def Let_def w(1,2) o(1) by simp
  then show ?thesis unfolding len by (simp only: im append_assoc)
qed

lemma null_bits_bit:
  assumes "k < length fs"
  shows "bit (null_bits fs ! (k div 8)) (k mod 8) = is_null (fs ! k)"
proof -
  have "k < 8 * (length fs div 8 + 1)" "0 + length fs \<le> 8 * (length fs div 8 + 1)" using assms by presburger+
  moreover have "replicate (length fs div 8 + 1) (0 :: u8) ! (k div 8) = 0"
    using assms by (intro nth_replicate) (simp add: div_le_mono less_Suc_eq_le)
  ultimately show ?thesis using assms mark_nulls_bit [of 0 fs "replicate (length fs div 8 + 1) 0" k]
    by (simp add: null_bits_def del: replicate_Suc replicate.simps)
qed

text \<open>Reading a row at the place where its image is.\<close>

lemma Row_DeserializeFrom_image:
  assumes "row_ok row" "i = length as"
  shows "Row_DeserializeFrom r (as @ row_image row @ bs) i
    = Some (r\<lparr>row_fields := map field_read (row_fields row)\<rparr>, of_nat (length (row_image row)))"
proof -
  let ?n = "length (row_fields row)"
  define z :: u32 where "z = of_nat (?n div 8 + 1)"
  note w = row_size_words [OF assms(1) refl, folded z_def]
  let ?p = "le32 (rid_page_id (rid row))" and ?s = "le32 (slot_num (rid row))" and ?c = "le32 (of_nat ?n)"
    and ?b = "le32 z" and ?m = "null_bits (row_fields row)" and ?f = "rf.images (row_fields row)"
  have im: "row_image row = ?p @ ?s @ ?c @ ?b @ ?m @ ?f" by (simp add: row_image_def z_def)
  define B where "B = as @ row_image row @ bs"
  have "read32 ((as @ ?p @ ?s) @ ?c @ (?b @ ?m @ ?f @ bs)) (i + 8) = Some (of_nat ?n)"
    "read32 ((as @ ?p @ ?s @ ?c) @ ?b @ (?m @ ?f @ bs)) (i + 12) = Some z"
    using assms(2) by (intro read32_segment; simp)+
  then have r: "read32 B (i + 8) = Some (of_nat ?n)" "read32 B (i + 12) = Some z" by (simp_all add: B_def im)
  have l: "length ?m = unat z" by (simp add: w(3))
  have b: "\<not> length B < i + 16 + unat z" "write_bytes (replicate (unat z) 0) 0 (take (unat z) (drop (i + 16) B)) = Some ?m"
    using assms(2) l by (auto simp: B_def im write_bytes_def)
  have "list_all2 (\<lambda>k f. bit (?m ! (k div 8)) (k mod 8) = is_null f) [0..<?n] (row_fields row)"
    by (auto simp: list_all2_conv_all_nth null_bits_bit)
  then have "get_all (get_field ?m) [0..<?n] ((as @ ?p @ ?s @ ?c @ ?b @ ?m) @ ?f @ bs) i (16 + z)
    = Some (map field_read (row_fields row), 16 + z + of_nat (length ?f))"
    using assms w(4) by (intro rf.get_all_images) (auto simp: row_ok_def row_image_length)
  then have "get_all (get_field ?m) [0..<?n] B i (16 + z) = Some (map field_read (row_fields row), 16 + z + of_nat (length ?f))"
    by (simp add: B_def im)
  with r b have "Row_DeserializeFrom r B i = Some (r\<lparr>row_fields := map field_read (row_fields row)\<rparr>, 16 + z + of_nat (length ?f))"
    unfolding Row_DeserializeFrom_def Let_def by (simp add: w(1,2))
  moreover have "of_nat (length (row_image row)) = 16 + z + (of_nat (length ?f) :: u32)"
    by (simp add: row_image_length z_def)
  ultimately show ?thesis by (simp only: B_def)
qed

lemma fields_size_images:
  "\<forall>f\<in>set fs. field_ok f \<Longrightarrow> fields_size fs len = Some (len + of_nat (length (rf.images fs)))"
  by (induction fs arbitrary: len) (auto simp: Field_GetSerializedSize_image add.assoc)

lemma Row_GetSerializedSize_image:
  assumes "row_ok row"
  shows "Row_GetSerializedSize row = Some (of_nat (length (row_image row)))"
proof -
  have "(of_nat (length (row_fields row)) :: u32) div 8 + 1 = of_nat (length (row_fields row) div 8 + 1)"
    using row_size_words(2) [OF assms refl] .
  then have "(of_nat (length (row_fields row)) :: u32) div 8 = of_nat (length (row_fields row) div 8)" by simp
  then show ?thesis using assms by (simp add: Row_GetSerializedSize_def row_ok_def fields_size_images row_image_length)
qed

text \<open>
  C31: a row written into an array by \<open>SerializeTo\<close> takes exactly the \<open>GetSerializedSize\<close> bytes at its
  place and no other byte changes; \<open>DeserializeFrom\<close> at that place, into any row, restores all fields
  (a null field as the null of its type), keeps the row id it was called with, and returns the same
  size.
\<close>

theorem row_roundtrip:
  assumes "row_ok row" "i + length (row_image row) \<le> length buf"
  shows "\<exists>buf' n. Row_GetSerializedSize row = Some n \<and> Row_SerializeTo row buf i = Some (buf', n)
    \<and> length buf' = length buf \<and> take i buf' = take i buf \<and> drop (i + unat n) buf' = drop (i + unat n) buf
    \<and> Row_DeserializeFrom r buf' i = Some (\<lparr>rid = rid r, row_fields = map field_read (row_fields row)\<rparr>, n)"
proof -
  let ?k = "length (row_image row)"
  have "unat (of_nat ?k :: u32) = ?k" using assms(1) by (intro unat_small32) (simp add: row_ok_def)
  moreover have "Row_SerializeTo row (take i buf @ take ?k (drop i buf) @ drop (i + ?k) buf) i
    = Some (take i buf @ row_image row @ drop (i + ?k) buf, of_nat ?k)"
    using assms by (intro Row_SerializeTo_image) auto
  moreover have "Row_DeserializeFrom r (take i buf @ row_image row @ drop (i + ?k) buf) i
    = Some (r\<lparr>row_fields := map field_read (row_fields row)\<rparr>, of_nat ?k)"
    using assms by (intro Row_DeserializeFrom_image) auto
  moreover have "take i buf @ take ?k (drop i buf) @ drop (i + ?k) buf = buf"
    by (metis append_take_drop_id drop_drop add.commute)
  moreover have "r\<lparr>row_fields := map field_read (row_fields row)\<rparr> = \<lparr>rid = rid r, row_fields = map field_read (row_fields row)\<rparr>"
    by (cases r) simp
  ultimately show ?thesis using assms Row_GetSerializedSize_image [OF assms(1)] by auto
qed


theorem row_roundtrip_witness:
  "\<exists>buf'. Row_SerializeTo (Row_of_fields [\<lparr>fvalue = VChars [104, 105], type_id = kTypeChar, flen = 2, is_null = False\<rparr>,
       Field_null kTypeInt]) (replicate 64 0) 10 = Some (buf', 31)
    \<and> Row_DeserializeFrom (Row_of_rid \<lparr>rid_page_id = 3, slot_num = 4\<rparr>) buf' 10
      = Some (\<lparr>rid = \<lparr>rid_page_id = 3, slot_num = 4\<rparr>, row_fields =
          [\<lparr>fvalue = VChars [104, 105], type_id = kTypeChar, flen = 2, is_null = False\<rparr>, Field_null kTypeInt]\<rparr>, 31)"
proof -
  let ?row = "Row_of_fields [\<lparr>fvalue = VChars [104, 105], type_id = kTypeChar, flen = 2, is_null = False\<rparr>, Field_null kTypeInt]"
  have l: "length (row_image ?row) = 31"
    by (simp add: row_image_length Row_of_fields_def Field_null_def field_image_def)
  then have "row_ok ?row" by (simp add: row_ok_def) (simp add: Row_of_fields_def field_ok_def Field_null_def)
  moreover from this have "Row_GetSerializedSize ?row = Some 31" using l by (simp add: Row_GetSerializedSize_image)
  ultimately show ?thesis
    using row_roundtrip [of ?row 10 "replicate 64 0" "Row_of_rid \<lparr>rid_page_id = 3, slot_num = 4\<rparr>"] l
    by (auto simp: Row_of_rid_def Row_of_fields_def field_read_def Field_null_def)
qed

end
