(* ===== verification/Table_Page.thy ===== *)
theory Table_Page
  imports Rows
begin

text \<open>
  The slotted page of a table, \<open>MiniSQL/src/page/table_page.cpp\<close> and \<open>include/page/table_page.h\<close>: a header, an array of
  slots (offset and size of a tuple) growing upwards and the tuples growing downwards from the end of
  the page. All of it lives in the 4096 bytes of the page. A failing \<open>ASSERT\<close> and an access outside the
  page are \<open>None\<close>. The transaction, lock and log arguments are not used by the code.
\<close>

section \<open>Model\<close>

subsection \<open>Fields of the header and of the slots\<close>

definition GetTablePageId :: "u8 list \<Rightarrow> u32 option" where
  "GetTablePageId p = read32 p 0"

definition GetPrevPageId :: "u8 list \<Rightarrow> u32 option" where
  "GetPrevPageId p = read32 p 8"

definition GetNextPageId :: "u8 list \<Rightarrow> u32 option" where
  "GetNextPageId p = read32 p 12"

definition SetPrevPageId :: "u8 list \<Rightarrow> u32 \<Rightarrow> u8 list option" where
  "SetPrevPageId p prev_page_id = write_bytes p 8 (le32 prev_page_id)"

definition SetNextPageId :: "u8 list \<Rightarrow> u32 \<Rightarrow> u8 list option" where
  "SetNextPageId p next_page_id = write_bytes p 12 (le32 next_page_id)"

definition GetFreeSpacePointer :: "u8 list \<Rightarrow> u32 option" where
  "GetFreeSpacePointer p = read32 p 16"

definition SetFreeSpacePointer :: "u8 list \<Rightarrow> u32 \<Rightarrow> u8 list option" where
  "SetFreeSpacePointer p free_space_pointer = write_bytes p 16 (le32 free_space_pointer)"

definition GetTupleCount :: "u8 list \<Rightarrow> u32 option" where
  "GetTupleCount p = read32 p 20"

definition SetTupleCount :: "u8 list \<Rightarrow> u32 \<Rightarrow> u8 list option" where
  "SetTupleCount p tuple_count = write_bytes p 20 (le32 tuple_count)"

definition GetFreeSpaceRemaining :: "u8 list \<Rightarrow> u32 option" where
  "GetFreeSpaceRemaining p = do {
     f \<leftarrow> GetFreeSpacePointer p;
     n \<leftarrow> GetTupleCount p;
     Some (f - 24 - 8 * n) }"

definition GetTupleOffsetAtSlot :: "u8 list \<Rightarrow> u32 \<Rightarrow> u32 option" where
  "GetTupleOffsetAtSlot p slot = read32 p (24 + 8 * unat slot)"

definition SetTupleOffsetAtSlot :: "u8 list \<Rightarrow> u32 \<Rightarrow> u32 \<Rightarrow> u8 list option" where
  "SetTupleOffsetAtSlot p slot offset = write_bytes p (24 + 8 * unat slot) (le32 offset)"

definition GetTupleSize :: "u8 list \<Rightarrow> u32 \<Rightarrow> u32 option" where
  "GetTupleSize p slot = read32 p (28 + 8 * unat slot)"

definition SetTupleSize :: "u8 list \<Rightarrow> u32 \<Rightarrow> u32 \<Rightarrow> u8 list option" where
  "SetTupleSize p slot n = write_bytes p (28 + 8 * unat slot) (le32 n)"

definition DELETE_MASK :: u32 where
  "DELETE_MASK = push_bit 31 1"

definition IsDeleted :: "u32 \<Rightarrow> bool" where
  "IsDeleted tuple_size \<longleftrightarrow> tuple_size AND DELETE_MASK \<noteq> 0 \<or> tuple_size = 0"

definition SetDeletedFlag :: "u32 \<Rightarrow> u32" where
  "SetDeletedFlag tuple_size = tuple_size OR DELETE_MASK"

definition UnsetDeletedFlag :: "u32 \<Rightarrow> u32" where
  "UnsetDeletedFlag tuple_size = tuple_size AND NOT DELETE_MASK"

subsection \<open>Operations\<close>

definition TablePage_Init :: "u8 list \<Rightarrow> u32 \<Rightarrow> u32 \<Rightarrow> u8 list option" where
  "TablePage_Init p page_id prev_id = do {
     p \<leftarrow> write_bytes p 0 (le32 page_id);
     p \<leftarrow> SetPrevPageId p prev_id;
     p \<leftarrow> SetNextPageId p (- 1);
     p \<leftarrow> SetFreeSpacePointer p 4096;
     SetTupleCount p 0 }"

text \<open>The first slot from \<open>i\<close> on whose tuple has size 0, or the number of slots.\<close>

function free_slot :: "u8 list \<Rightarrow> u32 \<Rightarrow> u32 \<Rightarrow> u32 option" where
  "free_slot p count i = (if i < count then do {
     n \<leftarrow> GetTupleSize p i;
     if n = 0 then Some i else free_slot p count (i + 1) }
   else Some i)"
  by pat_completeness auto

lemma unat_Suc_less: "(i :: u32) < n \<Longrightarrow> unat (i + 1) = unat i + 1"
  using unat_add32 [of i 1] unsigned_less [where 'a = nat, of n] by (simp add: word_less_nat_alt)

termination free_slot
  by (relation "measure (\<lambda>(p, count, i). unat count - unat i)") (auto simp: unat_Suc_less word_less_nat_alt)

definition TablePage_InsertTuple :: "u8 list \<Rightarrow> Row \<Rightarrow> (bool \<times> u8 list \<times> Row) option" where
  "TablePage_InsertTuple p row = do {
     serialized_size \<leftarrow> Row_GetSerializedSize row;
     if \<not> 0 < serialized_size then None else do {
     remaining \<leftarrow> GetFreeSpaceRemaining p;
     if unat remaining < unat serialized_size + 8 then Some (False, p, row) else do {
     count \<leftarrow> GetTupleCount p;
     i \<leftarrow> free_slot p count 0;
     remaining \<leftarrow> GetFreeSpaceRemaining p;
     if i = count \<and> unat remaining < unat serialized_size + 8 then Some (False, p, row) else do {
     f \<leftarrow> GetFreeSpacePointer p;
     p \<leftarrow> SetFreeSpacePointer p (f - serialized_size);
     f \<leftarrow> GetFreeSpacePointer p;
     (p, n) \<leftarrow> Row_SerializeTo row p (unat f);
     if n \<noteq> serialized_size then None else do {
     f \<leftarrow> GetFreeSpacePointer p;
     p \<leftarrow> SetTupleOffsetAtSlot p i f;
     p \<leftarrow> SetTupleSize p i serialized_size;
     page_id \<leftarrow> GetTablePageId p;
     count \<leftarrow> GetTupleCount p;
     p \<leftarrow> (if i = count then SetTupleCount p (count + 1) else Some p);
     Some (True, p, row\<lparr>rid := \<lparr>rid_page_id = page_id, slot_num = i\<rparr>\<rparr>) }}}}}"

definition TablePage_MarkDelete :: "u8 list \<Rightarrow> RowId \<Rightarrow> (bool \<times> u8 list) option" where
  "TablePage_MarkDelete p r = do {
     count \<leftarrow> GetTupleCount p;
     if count \<le> slot_num r then Some (False, p) else do {
     tuple_size \<leftarrow> GetTupleSize p (slot_num r);
     if IsDeleted tuple_size then Some (False, p) else do {
     p \<leftarrow> (if 0 < tuple_size then SetTupleSize p (slot_num r) (SetDeletedFlag tuple_size) else Some p);
     Some (True, p) }}}"

text \<open>
  \<open>memmove\<close> inside the page, and the loop that adds \<open>delta\<close> to the offsets of the tuples that lie before
  \<open>bound\<close>.
\<close>

definition memmove :: "u8 list \<Rightarrow> nat \<Rightarrow> nat \<Rightarrow> nat \<Rightarrow> u8 list option" where
  "memmove p dst src n = (if length p < src + n then None else write_bytes p dst (take n (drop src p)))"

function move_offsets :: "u8 list \<Rightarrow> u32 \<Rightarrow> u32 \<Rightarrow> u32 \<Rightarrow> u32 \<Rightarrow> u8 list option" where
  "move_offsets p count bound delta i = (if i < count then do {
     tuple_offset_i \<leftarrow> GetTupleOffsetAtSlot p i;
     n \<leftarrow> GetTupleSize p i;
     p \<leftarrow> (if n \<noteq> 0 \<and> tuple_offset_i < bound then SetTupleOffsetAtSlot p i (tuple_offset_i + delta) else Some p);
     move_offsets p count bound delta (i + 1) }
   else Some p)"
  by pat_completeness auto

termination move_offsets
  by (relation "measure (\<lambda>(p, count, bound, delta, i). unat count - unat i)") (auto simp: unat_Suc_less word_less_nat_alt)

text \<open>The status codes are 1, 0 (no such slot), -1 (deleted) and -2 (not enough space).\<close>

definition TablePage_UpdateTuple :: "u8 list \<Rightarrow> Row \<Rightarrow> Row \<Rightarrow> (int \<times> u8 list \<times> Row) option" where
  "TablePage_UpdateTuple p new_row old_row =
     (if rid old_row = INVALID_ROWID then None else do {
     serialized_size \<leftarrow> Row_GetSerializedSize new_row;
     if \<not> 0 < serialized_size then None else do {
     let slot = slot_num (rid old_row);
     count \<leftarrow> GetTupleCount p;
     if count \<le> slot then Some (0, p, old_row) else do {
     tuple_size \<leftarrow> GetTupleSize p slot;
     if IsDeleted tuple_size then Some (- 1, p, old_row) else do {
     remaining \<leftarrow> GetFreeSpaceRemaining p;
     if remaining + tuple_size < serialized_size then Some (- 2, p, old_row) else do {
     tuple_offset \<leftarrow> GetTupleOffsetAtSlot p slot;
     (old_row, read_bytes) \<leftarrow> Row_DeserializeFrom old_row p (unat tuple_offset);
     if tuple_size \<noteq> read_bytes then None else do {
     f \<leftarrow> GetFreeSpacePointer p;
     if \<not> f \<le> tuple_offset then None else if unat f + unat tuple_size < unat serialized_size then None else do {
     p \<leftarrow> memmove p (unat f + unat tuple_size - unat serialized_size) (unat f) (unat (tuple_offset - f));
     p \<leftarrow> SetFreeSpacePointer p (f + tuple_size - serialized_size);
     (p, _) \<leftarrow> Row_SerializeTo new_row p (unat tuple_offset + unat tuple_size - unat serialized_size);
     p \<leftarrow> SetTupleSize p slot serialized_size;
     count \<leftarrow> GetTupleCount p;
     p \<leftarrow> move_offsets p count (tuple_offset + tuple_size) (tuple_size - serialized_size) 0;
     Some (1, p, old_row) }}}}}}})"

definition TablePage_ApplyDelete :: "u8 list \<Rightarrow> RowId \<Rightarrow> u8 list option" where
  "TablePage_ApplyDelete p r = do {
     let slot = slot_num r;
     count \<leftarrow> GetTupleCount p;
     if \<not> slot < count then None else do {
     tuple_offset \<leftarrow> GetTupleOffsetAtSlot p slot;
     tuple_size \<leftarrow> GetTupleSize p slot;
     let tuple_size = (if IsDeleted tuple_size then UnsetDeletedFlag tuple_size else tuple_size);
     f \<leftarrow> GetFreeSpacePointer p;
     if \<not> f \<le> tuple_offset then None else do {
     p \<leftarrow> memmove p (unat f + unat tuple_size) (unat f) (unat (tuple_offset - f));
     p \<leftarrow> SetFreeSpacePointer p (f + tuple_size);
     p \<leftarrow> SetTupleSize p slot 0;
     p \<leftarrow> SetTupleOffsetAtSlot p slot 0;
     count \<leftarrow> GetTupleCount p;
     move_offsets p count tuple_offset tuple_size 0 }}}"

definition TablePage_RollbackDelete :: "u8 list \<Rightarrow> RowId \<Rightarrow> u8 list option" where
  "TablePage_RollbackDelete p r = do {
     count \<leftarrow> GetTupleCount p;
     if \<not> slot_num r < count then None else do {
     tuple_size \<leftarrow> GetTupleSize p (slot_num r);
     if IsDeleted tuple_size then SetTupleSize p (slot_num r) (UnsetDeletedFlag tuple_size) else Some p }}"

definition TablePage_GetTuple :: "u8 list \<Rightarrow> Row \<Rightarrow> (bool \<times> Row) option" where
  "TablePage_GetTuple p row = (if rid row = INVALID_ROWID then None else do {
     count \<leftarrow> GetTupleCount p;
     if count \<le> slot_num (rid row) then Some (False, row) else do {
     tuple_size \<leftarrow> GetTupleSize p (slot_num (rid row));
     if IsDeleted tuple_size then Some (False, row) else do {
     tuple_offset \<leftarrow> GetTupleOffsetAtSlot p (slot_num (rid row));
     (row, read_bytes) \<leftarrow> Row_DeserializeFrom row p (unat tuple_offset);
     if tuple_size \<noteq> read_bytes then None else Some (True, row) }}})"

text \<open>The first slot from \<open>i\<close> on that is not deleted.\<close>

function live_slot :: "u8 list \<Rightarrow> u32 \<Rightarrow> u32 \<Rightarrow> u32 option option" where
  "live_slot p count i = (if i < count then do {
     n \<leftarrow> GetTupleSize p i;
     if \<not> IsDeleted n then Some (Some i) else live_slot p count (i + 1) }
   else Some None)"
  by pat_completeness auto

termination live_slot
  by (relation "measure (\<lambda>(p, count, i). unat count - unat i)") (auto simp: unat_Suc_less word_less_nat_alt)

definition slot_rid :: "u8 list \<Rightarrow> u32 option \<Rightarrow> (bool \<times> RowId) option" where
  "slot_rid p s = (case s of None \<Rightarrow> Some (False, INVALID_ROWID)
     | Some i \<Rightarrow> do { page_id \<leftarrow> GetTablePageId p; Some (True, \<lparr>rid_page_id = page_id, slot_num = i\<rparr>) })"

definition GetFirstTupleRid :: "u8 list \<Rightarrow> (bool \<times> RowId) option" where
  "GetFirstTupleRid p = do { count \<leftarrow> GetTupleCount p; s \<leftarrow> live_slot p count 0; slot_rid p s }"

definition GetNextTupleRid :: "u8 list \<Rightarrow> RowId \<Rightarrow> (bool \<times> RowId) option" where
  "GetNextTupleRid p cur_rid = do {
     page_id \<leftarrow> GetTablePageId p;
     if rid_page_id cur_rid \<noteq> page_id then None else do {
     count \<leftarrow> GetTupleCount p;
     s \<leftarrow> live_slot p count (slot_num cur_rid + 1);
     slot_rid p s }}"


declare free_slot.simps [simp del] move_offsets.simps [simp del] live_slot.simps [simp del]

section \<open>Pages by their parts\<close>

text \<open>
  A page as its header, its slots and the bytes behind them. The accessors read and update the parts;
  the number of slots that is stored need not cover all parts seen as slots.
\<close>

record parts =
  page_id_part :: u32
  lsn_part :: u32
  prev_part :: u32
  next_part :: u32
  free_part :: u32
  count_part :: u32
  slots_part :: "(u32 \<times> u32) list"
  rest_part :: "u8 list"

definition slot_bytes :: "(u32 \<times> u32) list \<Rightarrow> u8 list" where
  "slot_bytes tb = concat (map (\<lambda>(off, n). le32 off @ le32 n) tb)"

definition page_bytes :: "parts \<Rightarrow> u8 list" where
  "page_bytes r = le32 (page_id_part r) @ le32 (lsn_part r) @ le32 (prev_part r) @ le32 (next_part r) @ le32 (free_part r)
     @ le32 (count_part r) @ slot_bytes (slots_part r) @ rest_part r"

lemma slot_bytes_simps [simp]: "slot_bytes [] = []" "slot_bytes ((off, n) # tb) = le32 off @ le32 n @ slot_bytes tb"
  by (simp_all add: slot_bytes_def)

lemma slot_bytes_append [simp]: "slot_bytes (tb @ tb') = slot_bytes tb @ slot_bytes tb'"
  by (simp add: slot_bytes_def)

lemma slot_bytes_length [simp]: "length (slot_bytes tb) = 8 * length tb"
  by (induction tb) auto

lemma page_bytes_length [simp]: "length (page_bytes r) = 24 + 8 * length (slots_part r) + length (rest_part r)"
  by (simp add: page_bytes_def)

lemma write_skip: "length as \<le> i \<Longrightarrow> write_bytes (as @ bs) i xs = map_option ((@) as) (write_bytes bs (i - length as) xs)"
  by (auto simp: write_bytes_def)

lemma write_here: "length old = length xs \<Longrightarrow> write_bytes (old @ bs) 0 xs = Some (xs @ bs)"
  by (simp add: write_bytes_def)

lemma page_reads [simp]:
  "GetTablePageId (page_bytes r) = Some (page_id_part r)" "GetPrevPageId (page_bytes r) = Some (prev_part r)"
  "GetNextPageId (page_bytes r) = Some (next_part r)" "GetFreeSpacePointer (page_bytes r) = Some (free_part r)"
  "GetTupleCount (page_bytes r) = Some (count_part r)"
  by (simp_all add: GetTablePageId_def GetPrevPageId_def GetNextPageId_def GetFreeSpacePointer_def GetTupleCount_def
      page_bytes_def read32_skip read32_here)

lemma page_writes [simp]:
  "SetPrevPageId (page_bytes r) w = Some (page_bytes (r\<lparr>prev_part := w\<rparr>))"
  "SetNextPageId (page_bytes r) w = Some (page_bytes (r\<lparr>next_part := w\<rparr>))"
  "SetFreeSpacePointer (page_bytes r) w = Some (page_bytes (r\<lparr>free_part := w\<rparr>))"
  "SetTupleCount (page_bytes r) w = Some (page_bytes (r\<lparr>count_part := w\<rparr>))"
  by (simp_all add: SetPrevPageId_def SetNextPageId_def SetFreeSpacePointer_def SetTupleCount_def
      page_bytes_def write_skip write_here)

lemma slot_split: "k < length tb \<Longrightarrow> slot_bytes tb = slot_bytes (take k tb) @ le32 (fst (tb ! k)) @ le32 (snd (tb ! k)) @ slot_bytes (drop (Suc k) tb)"
  by (subst id_take_nth_drop [of k tb]) (auto simp: slot_bytes_def split: prod.splits)

lemma slot_reads [simp]:
  assumes "unat k < length (slots_part r)"
  shows "GetTupleOffsetAtSlot (page_bytes r) k = Some (fst (slots_part r ! unat k))"
    "GetTupleSize (page_bytes r) k = Some (snd (slots_part r ! unat k))"
  using assms by (simp_all add: GetTupleOffsetAtSlot_def GetTupleSize_def page_bytes_def slot_split read32_skip read32_here)

lemma slot_writes [simp]:
  assumes "unat k < length (slots_part r)"
  shows "SetTupleOffsetAtSlot (page_bytes r) k w
      = Some (page_bytes (r\<lparr>slots_part := (slots_part r)[unat k := (w, snd (slots_part r ! unat k))]\<rparr>))"
    "SetTupleSize (page_bytes r) k w
      = Some (page_bytes (r\<lparr>slots_part := (slots_part r)[unat k := (fst (slots_part r ! unat k), w)]\<rparr>))"
  using assms by (simp_all add: SetTupleOffsetAtSlot_def SetTupleSize_def page_bytes_def slot_split write_skip write_here
      take_update_cancel)

text \<open>What the operations do to the bytes behind the slots.\<close>

lemma page_bytes_rest: "page_bytes r = page_bytes (r\<lparr>rest_part := []\<rparr>) @ rest_part r"
  by (simp add: page_bytes_def)

lemma memmove_rest:
  assumes "h = 24 + 8 * length (slots_part r)" "h \<le> d" "h \<le> s" "s - h + n \<le> length (rest_part r)" "d - h + n \<le> length (rest_part r)"
  shows "memmove (page_bytes r) d s n = Some (page_bytes (r\<lparr>rest_part := take (d - h) (rest_part r)
    @ take n (drop (s - h) (rest_part r)) @ drop (d - h + n) (rest_part r)\<rparr>))"
proof -
  let ?H = "page_bytes (r\<lparr>rest_part := []\<rparr>)"
  have h: "length ?H = h" using assms(1) by simp
  have "memmove (?H @ rest_part r) d s n = Some (?H @ take (d - h) (rest_part r)
    @ take n (drop (s - h) (rest_part r)) @ drop (d - h + n) (rest_part r))"
    using assms(2-) h by (auto simp: memmove_def write_bytes_def)
  then show ?thesis
    using page_bytes_rest [of r] page_bytes_rest [of "r\<lparr>rest_part := take (d - h) (rest_part r)
    @ take n (drop (s - h) (rest_part r)) @ drop (d - h + n) (rest_part r)\<rparr>"] by simp
qed

lemma serialize_rest:
  assumes "row_ok row" "h = 24 + 8 * length (slots_part r)" "h \<le> i" "i - h + length (row_image row) \<le> length (rest_part r)"
  shows "Row_SerializeTo row (page_bytes r) i = Some (page_bytes (r\<lparr>rest_part := take (i - h) (rest_part r)
    @ row_image row @ drop (i - h + length (row_image row)) (rest_part r)\<rparr>), of_nat (length (row_image row)))"
proof -
  let ?H = "page_bytes (r\<lparr>rest_part := []\<rparr>)" and ?k = "length (row_image row)"
  have h: "length ?H = h" using assms(2) by simp
  have e: "rest_part r = take (i - h) (rest_part r) @ take ?k (drop (i - h) (rest_part r)) @ drop (i - h + ?k) (rest_part r)"
    by (metis append_take_drop_id drop_drop add.commute)
  have "Row_SerializeTo row ((?H @ take (i - h) (rest_part r)) @ take ?k (drop (i - h) (rest_part r)) @ drop (i - h + ?k) (rest_part r)) i
    = Some ((?H @ take (i - h) (rest_part r)) @ row_image row @ drop (i - h + ?k) (rest_part r), of_nat ?k)"
    using assms h by (intro Row_SerializeTo_image) auto
  moreover have "page_bytes r = (?H @ take (i - h) (rest_part r)) @ take ?k (drop (i - h) (rest_part r)) @ drop (i - h + ?k) (rest_part r)"
    using page_bytes_rest [of r] e by simp
  ultimately show ?thesis
    using page_bytes_rest [of "r\<lparr>rest_part := take (i - h) (rest_part r) @ row_image row @ drop (i - h + ?k) (rest_part r)\<rparr>"]
    by simp
qed

lemma deserialize_rest:
  assumes "row_ok row" "rest_part r = X @ row_image row @ Y" "i = 24 + 8 * length (slots_part r) + length X"
  shows "Row_DeserializeFrom old (page_bytes r) i
    = Some (old\<lparr>row_fields := map field_read (row_fields row)\<rparr>, of_nat (length (row_image row)))"
proof -
  have "Row_DeserializeFrom old ((page_bytes (r\<lparr>rest_part := []\<rparr>) @ X) @ row_image row @ Y) i
    = Some (old\<lparr>row_fields := map field_read (row_fields row)\<rparr>, of_nat (length (row_image row)))"
    using assms by (intro Row_DeserializeFrom_image) auto
  then show ?thesis using page_bytes_rest [of r] assms(2) by simp
qed

definition move_slot :: "u32 \<Rightarrow> u32 \<Rightarrow> u32 \<times> u32 \<Rightarrow> u32 \<times> u32" where
  "move_slot bound delta e = (if snd e \<noteq> 0 \<and> fst e < bound then (fst e + delta, snd e) else e)"

lemma move_offsets_slots:
  assumes "unat count = length (slots_part r)"
  shows "move_offsets (page_bytes r) count bound delta i = Some (page_bytes (r\<lparr>slots_part :=
    take (unat i) (slots_part r) @ map (move_slot bound delta) (drop (unat i) (slots_part r))\<rparr>))"
  using assms
proof (induction "unat count - unat i" arbitrary: i r)
  case 0
  then have "\<not> i < count" by (simp add: word_less_nat_alt)
  with 0 show ?case by (subst move_offsets.simps) simp
next
  case (Suc n)
  then have i: "i < count" "unat i < length (slots_part r)" by (simp_all add: word_less_nat_alt)
  let ?tb = "slots_part r" and ?e = "slots_part r ! unat i"
  let ?r = "r\<lparr>slots_part := ?tb[unat i := move_slot bound delta ?e]\<rparr>"
  have "move_offsets (page_bytes ?r) count bound delta (i + 1) = Some (page_bytes (?r\<lparr>slots_part :=
    take (unat (i + 1)) (slots_part ?r) @ map (move_slot bound delta) (drop (unat (i + 1)) (slots_part ?r))\<rparr>))"
    using Suc i by (intro Suc.hyps) (auto simp: unat_Suc_less)
  moreover have "take (unat (i + 1)) (slots_part ?r) @ map (move_slot bound delta) (drop (unat (i + 1)) (slots_part ?r))
    = take (unat i) ?tb @ map (move_slot bound delta) (drop (unat i) ?tb)"
    using i by (simp add: unat_Suc_less take_Suc_conv_app_nth Cons_nth_drop_Suc [symmetric])
  moreover have "page_bytes ?r = page_bytes r" if "\<not> (snd ?e \<noteq> 0 \<and> fst ?e < bound)"
    using that by (auto simp: move_slot_def)
  ultimately show ?case using i by (subst move_offsets.simps) (auto simp: move_slot_def)
qed

section \<open>The slots as a table keeps them\<close>

datatype slot = Empty | Present "Field list" | Deleted "Field list"

text \<open>
  The tuples of the page in the order of their addresses, each with its slot; the address of a tuple
  is counted from the end of the page.
\<close>

definition body_length :: "(nat \<times> u8 list) list \<Rightarrow> nat" where
  "body_length b = length (concat (map snd b))"

fun address :: "(nat \<times> u8 list) list \<Rightarrow> nat \<Rightarrow> nat" where
  "address [] k = 4096"
| "address ((j, img) # b) k = (if j = k then 4096 - body_length ((j, img) # b) else address b k)"

definition tuple_image :: "Field list \<Rightarrow> u8 list \<Rightarrow> bool" where
  "tuple_image fs img \<longleftrightarrow> (\<exists>row. row_ok row \<and> row_fields row = fs \<and> img = row_image row)"

definition slot_inv :: "(nat \<times> u8 list) list \<Rightarrow> u32 \<times> u32 \<Rightarrow> nat \<Rightarrow> slot \<Rightarrow> bool" where
  "slot_inv b e k s \<longleftrightarrow> (case s of
     Empty \<Rightarrow> e = (0, 0) \<and> map_of b k = None
   | Present fs \<Rightarrow> (\<exists>img. map_of b k = Some img \<and> tuple_image fs img
       \<and> e = (of_nat (address b k), of_nat (length img)))
   | Deleted fs \<Rightarrow> (\<exists>img. map_of b k = Some img \<and> tuple_image fs img
       \<and> e = (of_nat (address b k), SetDeletedFlag (of_nat (length img)))))"

definition page_inv :: "parts \<Rightarrow> (nat \<times> u8 list) list \<Rightarrow> slot list \<Rightarrow> bool" where
  "page_inv r b S \<longleftrightarrow> length (page_bytes r) = 4096 \<and> length (slots_part r) = length S \<and> count_part r = of_nat (length S)
     \<and> free_part r = of_nat (4096 - body_length b) \<and> (\<exists>gap. rest_part r = gap @ concat (map snd b))
     \<and> distinct (map fst b) \<and> (\<forall>k\<in>fst ` set b. k < length S) \<and> (\<forall>k<length S. slot_inv b (slots_part r ! k) k (S ! k))"

subsection \<open>Sizes and flags\<close>

lemma size_bit31: "n \<le> 4096 \<Longrightarrow> \<not> bit (of_nat n :: u32) 31"
proof -
  assume n: "n \<le> 4096"
  then have "n < 2 ^ 31" by simp
  then have "\<not> bit n 31" by (simp add: bit_iff_odd)
  then show ?thesis by (simp add: bit_of_nat_iff)
qed

lemma bit_DELETE_MASK [simp]: "bit DELETE_MASK n \<longleftrightarrow> n = 31"
  unfolding DELETE_MASK_def by (subst bit_push_bit_iff) (auto simp: bit_1_iff)

lemma size_flags:
  assumes "n \<le> 4096"
  shows "IsDeleted (of_nat n) \<longleftrightarrow> n = 0" "UnsetDeletedFlag (SetDeletedFlag (of_nat n)) = of_nat n"
proof -
  have "(of_nat n :: u32) AND DELETE_MASK = 0"
    by (rule bit_word_eqI) (use size_bit31 [OF assms] in \<open>auto simp: bit_and_iff\<close>)
  moreover have "(of_nat n :: u32) = 0 \<longleftrightarrow> n = 0" using assms unat_small32 [of n] by (auto simp: word_unat_eq_iff)
  ultimately show "IsDeleted (of_nat n) \<longleftrightarrow> n = 0" by (simp add: IsDeleted_def)
  show "UnsetDeletedFlag (SetDeletedFlag (of_nat n)) = of_nat n"
    by (rule bit_word_eqI) (use size_bit31 [OF assms] in
      \<open>auto simp: UnsetDeletedFlag_def SetDeletedFlag_def bit_and_iff bit_or_iff bit_not_iff\<close>)
qed

lemma flag_set [simp]: "IsDeleted (SetDeletedFlag w)" "SetDeletedFlag w \<noteq> 0" "IsDeleted 0" "UnsetDeletedFlag 0 = 0"
proof -
  have "bit (SetDeletedFlag w AND DELETE_MASK) 31"
    by (simp add: SetDeletedFlag_def bit_and_iff bit_or_iff)
  then have "SetDeletedFlag w AND DELETE_MASK \<noteq> 0" by (metis bit_0_eq bot_apply bot_bool_def)
  then show "IsDeleted (SetDeletedFlag w)" "SetDeletedFlag w \<noteq> 0" by (auto simp: IsDeleted_def)
  show "IsDeleted 0" "UnsetDeletedFlag 0 = 0" by (simp_all add: IsDeleted_def UnsetDeletedFlag_def)
qed

subsection \<open>Addresses of tuples\<close>

lemma body_length_simps [simp]: "body_length [] = 0" "body_length ((k, img) # b) = length img + body_length b"
  "body_length (b @ b') = body_length b + body_length b'"
  by (simp_all add: body_length_def)

lemma address_append:
  "body_length (xs @ ys) \<le> 4096 \<Longrightarrow>
    address (xs @ ys) j = (if j \<in> fst ` set xs then address xs j - body_length ys else address ys j)"
proof (induction xs)
  case (Cons e xs)
  then show ?case by (cases e; cases "j \<in> fst ` set xs") (simp_all add: add.assoc)
qed simp

lemma address_bounds:
  assumes "map_of b j = Some img" "body_length b \<le> 4096"
  shows "4096 - body_length b \<le> address b j" "address b j + length img \<le> 4096"
  using assms by (induction b) (auto split: if_splits)

lemma map_of_split:
  assumes "map_of b k = Some img"
  obtains xs ys where "b = xs @ (k, img) # ys" "k \<notin> fst ` set xs"
  using assms
proof (induction b arbitrary: thesis)
  case (Cons e b)
  show ?case
  proof (cases "fst e = k")
    case True
    then show ?thesis using Cons.prems(1) [of "[]" b] Cons.prems(2) by (cases e) auto
  next
    case False
    then have "map_of b k = Some img" using Cons.prems(2) by (cases e) auto
    then obtain xs ys where "b = xs @ (k, img) # ys" "k \<notin> fst ` set xs" using Cons.IH by blast
    then show ?thesis using Cons.prems(1) [of "e # xs" ys] False by auto
  qed
qed simp

lemma tuple_image_length: "tuple_image fs img \<Longrightarrow> 17 \<le> length img"
  by (auto simp: tuple_image_def row_image_length)

subsection \<open>Consequences of the invariant\<close>

lemma page_invD:
  assumes "page_inv r b S"
  shows "24 + 8 * length S + length (rest_part r) = 4096" "length (slots_part r) = length S" "unat (count_part r) = length S"
    "unat (free_part r) = 4096 - body_length b" "body_length b \<le> length (rest_part r)" "distinct (map fst b)"
    "k < length S \<Longrightarrow> slot_inv b (slots_part r ! k) k (S ! k)" "k \<in> fst ` set b \<Longrightarrow> k < length S"
proof -
  show l: "24 + 8 * length S + length (rest_part r) = 4096" "length (slots_part r) = length S" "distinct (map fst b)"
    "k < length S \<Longrightarrow> slot_inv b (slots_part r ! k) k (S ! k)"
    using assms by (simp_all add: page_inv_def)
  show "k \<in> fst ` set b \<Longrightarrow> k < length S" using assms by (auto simp: page_inv_def)
  show "unat (count_part r) = length S" using assms l(1) unat_small32 [of "length S"] by (simp add: page_inv_def)
  show "unat (free_part r) = 4096 - body_length b" using assms unat_small32 [of "4096 - body_length b"] by (simp add: page_inv_def)
  show "body_length b \<le> length (rest_part r)" using assms by (auto simp: page_inv_def body_length_def)
qed

lemma slot_inv_image:
  assumes "slot_inv b e k s" "s \<noteq> Empty"
  obtains img fs where "map_of b k = Some img" "tuple_image fs img" "fst e = of_nat (address b k)"
    "s = Present fs \<and> snd e = of_nat (length img) \<or> s = Deleted fs \<and> snd e = SetDeletedFlag (of_nat (length img))"
  using assms by (cases s) (auto simp: slot_inv_def)

lemma page_inv_images:
  assumes "page_inv r b S" "(k, img) \<in> set b"
  shows "17 \<le> length img" "map_of b k = Some img" "S ! k \<noteq> Empty"
proof -
  have "k \<in> fst ` set b" using assms(2) by force
  then have k: "k < length S" using page_invD(8) [OF assms(1)] by blast
  show m: "map_of b k = Some img" using assms(2) page_invD(6) [OF assms(1)] by simp
  then show e: "S ! k \<noteq> Empty" using page_invD(7) [OF assms(1) k] by (auto simp: slot_inv_def)
  then obtain img' fs where "map_of b k = Some img'" "tuple_image fs img'"
    using slot_inv_image [OF page_invD(7) [OF assms(1) k]] by metis
  then show "17 \<le> length img" using m tuple_image_length by auto
qed

lemma slot_empty_iff:
  assumes "page_inv r b S" "k < length S"
  shows "snd (slots_part r ! k) = 0 \<longleftrightarrow> S ! k = Empty"
proof (cases "S ! k = Empty")
  case True
  then show ?thesis using page_invD(7) [OF assms] by (simp add: slot_inv_def)
next
  case False
  then obtain img fs where i: "map_of b k = Some img" "tuple_image fs img"
    "snd (slots_part r ! k) = of_nat (length img) \<or> snd (slots_part r ! k) = SetDeletedFlag (of_nat (length img))"
    using slot_inv_image [OF page_invD(7) [OF assms]] by metis
  have "(of_nat (length img) :: u32) \<noteq> 0"
    using tuple_image_length [OF i(2)] address_bounds(2) [OF i(1)] page_invD(1,5) [OF assms(1)] unat_small32 [of "length img"]
    by (auto simp: word_unat_eq_iff)
  then show ?thesis using i False by auto
qed

lemma slot_deleted_iff:
  assumes "page_inv r b S" "k < length S"
  shows "IsDeleted (snd (slots_part r ! k)) \<longleftrightarrow> (\<forall>fs. S ! k \<noteq> Present fs)"
proof (cases "S ! k = Empty")
  case True
  then show ?thesis using page_invD(7) [OF assms] by (simp add: slot_inv_def)
next
  case False
  then obtain img fs where i: "map_of b k = Some img" "tuple_image fs img"
    "S ! k = Present fs \<and> snd (slots_part r ! k) = of_nat (length img)
      \<or> S ! k = Deleted fs \<and> snd (slots_part r ! k) = SetDeletedFlag (of_nat (length img))"
    using slot_inv_image [OF page_invD(7) [OF assms]] by metis
  have "\<not> IsDeleted (of_nat (length img))"
    using tuple_image_length [OF i(2)] address_bounds(2) [OF i(1)] page_invD(1,5) [OF assms(1)] by (subst size_flags) auto
  then show ?thesis using i(3) by auto
qed

section \<open>Specification\<close>

text \<open>The operations on the list of slots alone, with the sizes of the tuples deciding what fits.\<close>

definition tuple_length :: "Field list \<Rightarrow> nat" where
  "tuple_length fs = length (row_image (Row_of_fields fs))"

fun slot_size :: "slot \<Rightarrow> nat" where
  "slot_size Empty = 0"
| "slot_size (Present fs) = tuple_length fs"
| "slot_size (Deleted fs) = tuple_length fs"

definition free_space :: "slot list \<Rightarrow> nat" where
  "free_space S = 4072 - 8 * length S - sum_list (map slot_size S)"

definition first_empty :: "slot list \<Rightarrow> nat" where
  "first_empty S = length (takeWhile (\<lambda>s. s \<noteq> Empty) S)"

definition insert_slot :: "slot list \<Rightarrow> Field list \<Rightarrow> slot list" where
  "insert_slot S fs = take (first_empty S) S @ Present fs # drop (Suc (first_empty S)) S"

definition page_holds :: "u8 list \<Rightarrow> u32 \<times> u32 \<times> u32 \<Rightarrow> slot list \<Rightarrow> bool" where
  "page_holds p h S \<longleftrightarrow> (\<exists>r b. p = page_bytes r \<and> h = (page_id_part r, prev_part r, next_part r) \<and> page_inv r b S)"

lemma tuple_image_size: "tuple_image fs img \<Longrightarrow> length img = tuple_length fs"
  by (auto simp: tuple_image_def tuple_length_def row_image_length Row_of_fields_def)

lemma body_length_slots:
  assumes "page_inv r b S"
  shows "body_length b = sum_list (map slot_size S)"
proof -
  have d: "distinct (map fst b)" using page_invD(6) [OF assms] .
  have "body_length b = sum_list (map (\<lambda>e. length (snd e)) b)" by (induction b) auto
  also have "map (\<lambda>e. length (snd e)) b = map (\<lambda>k. length (the (map_of b k))) (map fst b)" using d by auto
  also have "sum_list \<dots> = (\<Sum>k\<in>fst ` set b. length (the (map_of b k)))" using d by (subst sum_list_distinct_conv_sum_set) auto
  also have "\<dots> = (\<Sum>k\<in>fst ` set b. slot_size (S ! k))"
  proof (intro sum.cong refl)
    fix k assume "k \<in> fst ` set b"
    then obtain img where "(k, img) \<in> set b" by force
    note i = page_inv_images [OF assms this]
    have "k < length S" using page_invD(8) [OF assms] \<open>k \<in> fst ` set b\<close> .
    from slot_inv_image [OF page_invD(7) [OF assms this] i(3)] i(2)
    show "length (the (map_of b k)) = slot_size (S ! k)" by (metis option.sel slot_size.simps(2,3) tuple_image_size)
  qed
  also have "\<dots> = (\<Sum>k<length S. slot_size (S ! k))"
  proof (intro sum.mono_neutral_left ballI)
    fix k assume k: "k \<in> {..<length S} - fst ` set b"
    then have "map_of b k = None" by (simp add: map_of_eq_None_iff)
    then have "S ! k = Empty" using slot_inv_image [OF page_invD(7) [OF assms]] k by (metis DiffD1 lessThan_iff option.distinct(1))
    then show "slot_size (S ! k) = 0" by simp
  qed (use page_invD(8) [OF assms] in auto)
  also have "\<dots> = sum_list (map slot_size S)" by (simp add: sum_list_sum_nth atLeast0LessThan)
  finally show ?thesis .
qed

lemma free_space_page:
  assumes "page_inv r b S"
  shows "GetFreeSpaceRemaining (page_bytes r) = Some (of_nat (free_space S))" "free_space S + 24 + 8 * length S + body_length b = 4096"
    "free_space S = length (rest_part r) - body_length b"
proof -
  note D = page_invD [OF assms]
  show e: "free_space S + 24 + 8 * length S + body_length b = 4096" using D(1,5) body_length_slots [OF assms] by (simp add: free_space_def)
  then show "free_space S = length (rest_part r) - body_length b" using D(1) by simp
  have "free_part r = of_nat (free_space S) + 24 + 8 * of_nat (length S)"
  proof -
    have "4096 - body_length b = free_space S + 24 + 8 * length S" using e by simp
    then show ?thesis using assms by (simp add: page_inv_def)
  qed
  moreover have "count_part r = of_nat (length S)" using assms by (simp add: page_inv_def)
  ultimately show "GetFreeSpaceRemaining (page_bytes r) = Some (of_nat (free_space S))"
    by (simp add: GetFreeSpaceRemaining_def)
qed

section \<open>Refinement\<close>

lemma four_bytes:
  fixes bs :: "u8 list"
  assumes "length bs = 4"
  shows "\<exists>w. bs = le32 w"
proof -
  obtain a b c d where bs: "bs = [a, b, c, d]" using assms by (auto simp: numeral_eq_Suc length_Suc_conv)
  let ?w = "ucast a OR push_bit 8 (ucast b) OR push_bit 16 (ucast c) OR push_bit 24 (ucast d) :: u32"
  have "ucast ?w = a" "ucast (drop_bit 8 ?w) = b" "ucast (drop_bit 16 ?w) = c" "ucast (drop_bit 24 ?w) = d"
    by (rule bit_word_eqI; auto simp: bit_or_iff bit_push_bit_iff bit_ucast_iff bit_drop_bit_eq dest: bit_imp_le_length)+
  then have "bs = le32 ?w" by (simp add: bs le32_def)
  then show ?thesis by blast
qed

lemma Init_holds:
  assumes "length p = 4096"
  shows "\<exists>p'. TablePage_Init p pid prev = Some p' \<and> page_holds p' (pid, prev, - 1) []"
proof -
  let ?f = "\<lambda>i. take 4 (drop i p)"
  have s: "p = ?f 0 @ ?f 4 @ ?f 8 @ ?f 12 @ ?f 16 @ ?f 20 @ drop 24 p"
    by (simp add: take_add [symmetric] flip: append_assoc)
  have "\<forall>i. \<exists>w. i \<le> 20 \<longrightarrow> ?f i = le32 w" using assms four_bytes by simp
  then obtain g where g: "\<forall>i. i \<le> 20 \<longrightarrow> ?f i = le32 (g i)" by metis
  have "p = le32 (g 0) @ le32 (g 4) @ le32 (g 8) @ le32 (g 12) @ le32 (g 16) @ le32 (g 20) @ drop 24 p"
    using s g [rule_format, of 0] g [rule_format, of 4] g [rule_format, of 8] g [rule_format, of 12] g [rule_format, of 16]
      g [rule_format, of 20] by simp
  then have "p = page_bytes \<lparr>page_id_part = g 0, lsn_part = g 4, prev_part = g 8, next_part = g 12, free_part = g 16, count_part = g 20,
      slots_part = [], rest_part = drop 24 p\<rparr>" by (simp add: page_bytes_def)
  then obtain r where r: "p = page_bytes r" "slots_part r = []" by (metis parts.select_convs(7))
  have w: "write_bytes (page_bytes r) 0 (le32 pid) = Some (page_bytes (r\<lparr>page_id_part := pid\<rparr>))"
    by (simp add: page_bytes_def write_here)
  show ?thesis unfolding page_holds_def
    by (rule exI [of _ "page_bytes (r\<lparr>page_id_part := pid, prev_part := prev, next_part := - 1, free_part := 4096, count_part := 0\<rparr>)"])
      (use r assms w in \<open>auto simp: TablePage_Init_def page_inv_def intro!: exI\<close>)
qed

lemma page_inv_slot:
  assumes "page_inv r b S" "k < length S" "slot_inv b e k s"
  shows "page_inv (r\<lparr>slots_part := (slots_part r)[k := e]\<rparr>) b (S[k := s])"
  using assms by (auto simp: page_inv_def nth_list_update)

lemma page_holdsI: "page_inv r b S \<Longrightarrow> h = (page_id_part r, prev_part r, next_part r) \<Longrightarrow> page_holds (page_bytes r) h S"
  by (auto simp: page_holds_def)

lemma slot_below: "page_inv r b S \<Longrightarrow> count_part r \<le> k \<longleftrightarrow> length S \<le> unat k"
  using page_invD(3) by (auto simp: word_le_nat_alt)

definition mark_slot :: "slot list \<Rightarrow> nat \<Rightarrow> bool \<times> slot list" where
  "mark_slot S k = (if k < length S then case S ! k of Present fs \<Rightarrow> (True, S[k := Deleted fs]) | _ \<Rightarrow> (False, S) else (False, S))"

lemma MarkDelete_holds:
  assumes "page_holds p h S"
  shows "\<exists>p'. TablePage_MarkDelete p r = Some (fst (mark_slot S (unat (slot_num r))), p')
    \<and> page_holds p' h (snd (mark_slot S (unat (slot_num r))))"
proof -
  obtain q b where q: "p = page_bytes q" "h = (page_id_part q, prev_part q, next_part q)" "page_inv q b S"
    using assms by (auto simp: page_holds_def)
  let ?k = "unat (slot_num r)"
  show ?thesis
  proof (cases "?k < length S \<and> (\<exists>fs. S ! ?k = Present fs)")
    case True
    then obtain fs where k: "?k < length S" "S ! ?k = Present fs" by blast
    let ?e = "slots_part q ! ?k"
    have n: "\<not> IsDeleted (snd ?e)" "snd ?e \<noteq> 0" using slot_deleted_iff [OF q(3) k(1)] slot_empty_iff [OF q(3) k(1)] k(2) by auto
    have "slot_inv b (fst ?e, SetDeletedFlag (snd ?e)) ?k (Deleted fs)"
      using page_invD(7) [OF q(3) k(1)] k(2) by (auto simp: slot_inv_def)
    then have "page_inv (q\<lparr>slots_part := (slots_part q)[?k := (fst ?e, SetDeletedFlag (snd ?e))]\<rparr>) b (S[?k := Deleted fs])"
      by (rule page_inv_slot [OF q(3) k(1)])
    then show ?thesis using q k n page_invD(2) [OF q(3)] slot_below [OF q(3), of "slot_num r"]
      by (auto simp: TablePage_MarkDelete_def mark_slot_def word_gt_0 intro: page_holdsI)
  next
    case False
    then have "mark_slot S ?k = (False, S)" by (auto simp: mark_slot_def split: slot.splits)
    moreover have "IsDeleted (snd (slots_part q ! ?k))" if "?k < length S" using slot_deleted_iff [OF q(3) that] False that by blast
    ultimately show ?thesis using q assms page_invD(2) [OF q(3)] slot_below [OF q(3), of "slot_num r"]
      by (auto simp: TablePage_MarkDelete_def)
  qed
qed

definition rollback_slot :: "slot list \<Rightarrow> nat \<Rightarrow> slot list option" where
  "rollback_slot S k = (if k < length S then Some (case S ! k of Deleted fs \<Rightarrow> S[k := Present fs] | _ \<Rightarrow> S) else None)"

lemma RollbackDelete_holds:
  assumes "page_holds p h S"
  shows "case rollback_slot S (unat (slot_num r)) of None \<Rightarrow> TablePage_RollbackDelete p r = None
    | Some S' \<Rightarrow> \<exists>p'. TablePage_RollbackDelete p r = Some p' \<and> page_holds p' h S'"
proof -
  obtain q b where q: "p = page_bytes q" "h = (page_id_part q, prev_part q, next_part q)" "page_inv q b S"
    using assms by (auto simp: page_holds_def)
  let ?k = "unat (slot_num r)" and ?e = "slots_part q ! unat (slot_num r)"
  have c: "slot_num r < count_part q \<longleftrightarrow> ?k < length S" using page_invD(3) [OF q(3)] by (simp add: word_less_nat_alt)
  show ?thesis
  proof (cases "?k < length S")
    case True
    have i: "slot_inv b (if IsDeleted (snd ?e) then (fst ?e, UnsetDeletedFlag (snd ?e)) else ?e) ?k
        (case S ! ?k of Deleted fs \<Rightarrow> Present fs | s \<Rightarrow> s)"
    proof (cases "S ! ?k")
      case (Deleted fs)
      then obtain img where m: "map_of b ?k = Some img" "tuple_image fs img" "?e = (of_nat (address b ?k), SetDeletedFlag (of_nat (length img)))"
        using page_invD(7) [OF q(3) True] by (auto simp: slot_inv_def)
      then have "length img \<le> 4096" using address_bounds(2) [OF m(1)] page_invD(1,5) [OF q(3)] by simp
      then show ?thesis using m Deleted by (simp add: slot_inv_def size_flags)
    qed (use page_invD(7) [OF q(3) True] slot_deleted_iff [OF q(3) True] in \<open>auto simp: slot_inv_def\<close>)
    note inv = page_inv_slot [OF q(3) True i]
    have s: "S[?k := case S ! ?k of Deleted fs \<Rightarrow> Present fs | s \<Rightarrow> s] = (case S ! ?k of Deleted fs \<Rightarrow> S[?k := Present fs] | _ \<Rightarrow> S)"
      by (auto split: slot.splits simp: list_update_same_conv True)
    have u: "q\<lparr>slots_part := (slots_part q)[?k := ?e]\<rparr> = q" by (cases q) simp
    show ?thesis using q inv s True c page_invD(2) [OF q(3)] u
      by (cases "IsDeleted (snd ?e)") (auto simp: TablePage_RollbackDelete_def rollback_slot_def intro: page_holdsI)
  qed (use q c in \<open>simp add: TablePage_RollbackDelete_def rollback_slot_def\<close>)
qed

definition read_slot :: "slot list \<Rightarrow> nat \<Rightarrow> Field list option" where
  "read_slot S k = (if k < length S then case S ! k of Present fs \<Rightarrow> Some (map field_read fs) | _ \<Rightarrow> None else None)"

text \<open>Where a tuple lies behind the slots.\<close>

lemma tuple_place:
  assumes "page_inv r b S" "b = xs @ (k, img) # ys"
  obtains gap where "rest_part r = gap @ concat (map snd xs) @ img @ concat (map snd ys)"
    "24 + 8 * length S + length gap = unat (free_part r)" "address b k = unat (free_part r) + body_length xs"
proof -
  note D = page_invD [OF assms(1)]
  obtain gap where g: "rest_part r = gap @ concat (map snd b)" using assms(1) by (auto simp: page_inv_def)
  have "k \<notin> fst ` set xs" using D(6) assms(2) by auto
  then have "address b k = 4096 - body_length ((k, img) # ys)" using D(1,5) assms(2) by (simp add: address_append)
  then have "address b k = unat (free_part r) + body_length xs" using D(1,4,5) assms(2) by simp
  moreover have "24 + 8 * length S + length gap = unat (free_part r)" using D(1,4,5) g by (simp add: body_length_def)
  ultimately show thesis using that [of gap] g assms(2) by simp
qed

lemma tuple_read:
  assumes "page_inv q b S" "k < length S" "S ! k = Present fs"
  shows "Row_DeserializeFrom row (page_bytes q) (unat (fst (slots_part q ! k)))
    = Some (row\<lparr>row_fields := map field_read fs\<rparr>, snd (slots_part q ! k))"
proof -
  obtain img where m: "map_of b k = Some img" "tuple_image fs img" "slots_part q ! k = (of_nat (address b k), of_nat (length img))"
    using page_invD(7) [OF assms(1,2)] assms(3) by (auto simp: slot_inv_def)
  obtain xs ys where b: "b = xs @ (k, img) # ys" using map_of_split [OF m(1)] by metis
  obtain gap where g: "rest_part q = (gap @ concat (map snd xs)) @ img @ concat (map snd ys)"
    "24 + 8 * length S + length gap = unat (free_part q)" "address b k = unat (free_part q) + body_length xs"
    using tuple_place [OF assms(1) b] by auto
  obtain w where w: "row_ok w" "row_fields w = fs" "img = row_image w" using m(2) by (auto simp: tuple_image_def)
  have a: "unat (of_nat (address b k) :: u32) = address b k"
    using address_bounds(2) [OF m(1)] page_invD(1,5) [OF assms(1)] by (intro unat_small32) simp
  have "address b k = 24 + 8 * length (slots_part q) + length (gap @ concat (map snd xs))"
    using g(2,3) page_invD(2) [OF assms(1)] by (simp add: body_length_def)
  from deserialize_rest [OF w(1) _ this] g(1) w show ?thesis by (simp add: m(3) a)
qed

lemma GetTuple_holds:
  assumes "page_holds p h S" "rid row \<noteq> INVALID_ROWID"
  shows "TablePage_GetTuple p row = Some (case read_slot S (unat (slot_num (rid row))) of
     None \<Rightarrow> (False, row) | Some fs \<Rightarrow> (True, row\<lparr>row_fields := fs\<rparr>))"
proof -
  obtain q b where q: "p = page_bytes q" "page_inv q b S" using assms by (auto simp: page_holds_def)
  let ?k = "unat (slot_num (rid row))"
  have c: "count_part q \<le> slot_num (rid row) \<longleftrightarrow> \<not> ?k < length S" by (auto simp: slot_below [OF q(2)])
  show ?thesis
  proof (cases "?k < length S \<and> (\<exists>fs. S ! ?k = Present fs)")
    case True
    then obtain fs where k: "?k < length S" "S ! ?k = Present fs" by blast
    then show ?thesis using q c assms(2) tuple_read [OF q(2) k] slot_deleted_iff [OF q(2) k(1)] page_invD(2) [OF q(2)]
      by (simp add: TablePage_GetTuple_def read_slot_def)
  next
    case False
    then have "read_slot S ?k = None" by (auto simp: read_slot_def split: slot.splits)
    moreover have "IsDeleted (snd (slots_part q ! ?k))" if "?k < length S" using slot_deleted_iff [OF q(2) that] False that by blast
    ultimately show ?thesis using q c assms(2) page_invD(2) [OF q(2)] by (auto simp: TablePage_GetTuple_def)
  qed
qed


text \<open>Scanning for the first slot that is present.\<close>

definition next_present :: "slot list \<Rightarrow> nat \<Rightarrow> nat option" where
  "next_present S i = find (\<lambda>k. \<exists>fs. S ! k = Present fs) [i..<length S]"

lemma live_slot_next:
  assumes "page_inv q b S"
  shows "live_slot (page_bytes q) (count_part q) i = Some (map_option of_nat (next_present S (unat i)))"
proof (induction "length S - unat i" arbitrary: i)
  case 0
  then have "\<not> i < count_part q" using page_invD(3) [OF assms] by (simp add: word_less_nat_alt)
  with 0 show ?case by (subst live_slot.simps) (simp add: next_present_def)
next
  case (Suc n)
  then have i: "i < count_part q" "unat i < length S" using page_invD(3) [OF assms] by (simp_all add: word_less_nat_alt)
  have "live_slot (page_bytes q) (count_part q) (i + 1) = Some (map_option of_nat (next_present S (unat (i + 1))))"
    using Suc.hyps i by (intro Suc.hyps(1)) (simp add: unat_Suc_less)
  moreover have "next_present S (unat i) = (if \<exists>fs. S ! unat i = Present fs then Some (unat i) else next_present S (Suc (unat i)))"
    using i(2) by (simp add: next_present_def upt_rec)
  ultimately show ?case using i page_invD(2) [OF assms] slot_deleted_iff [OF assms i(2)]
    by (subst live_slot.simps) (auto simp: unat_Suc_less)
qed

definition found_rid :: "u32 \<Rightarrow> nat option \<Rightarrow> bool \<times> RowId" where
  "found_rid page_id k = (case k of None \<Rightarrow> (False, INVALID_ROWID) | Some k \<Rightarrow> (True, \<lparr>rid_page_id = page_id, slot_num = of_nat k\<rparr>))"

lemma FirstTuple_holds:
  assumes "page_holds p (page_id, prev, nxt) S"
  shows "GetFirstTupleRid p = Some (found_rid page_id (next_present S 0))"
proof -
  obtain q b where q: "p = page_bytes q" "page_id = page_id_part q" "page_inv q b S" using assms by (auto simp: page_holds_def)
  then show ?thesis using live_slot_next [OF q(3), of 0]
    by (auto simp: GetFirstTupleRid_def slot_rid_def found_rid_def split: option.splits)
qed

lemma NextTuple_holds:
  assumes "page_holds p (page_id, prev, nxt) S" "rid_page_id r = page_id" "unat (slot_num r) < length S"
  shows "GetNextTupleRid p r = Some (found_rid page_id (next_present S (unat (slot_num r) + 1)))"
proof -
  obtain q b where q: "p = page_bytes q" "page_id = page_id_part q" "page_inv q b S" using assms by (auto simp: page_holds_def)
  have "slot_num r < count_part q" using assms(3) page_invD(3) [OF q(3)] by (simp add: word_less_nat_alt)
  then have "unat (slot_num r + 1) = unat (slot_num r) + 1" by (rule unat_Suc_less)
  then show ?thesis using q assms(2) live_slot_next [OF q(3), of "slot_num r + 1"]
    by (auto simp: GetNextTupleRid_def slot_rid_def found_rid_def split: option.splits)
qed

subsection \<open>Insertion\<close>

lemma free_slot_first:
  assumes "page_inv q b S"
  shows "free_slot (page_bytes q) (count_part q) 0 = Some (of_nat (first_empty S))"
proof -
  have "free_slot (page_bytes q) (count_part q) i = Some (of_nat (unat i + length (takeWhile (\<lambda>s. s \<noteq> Empty) (drop (unat i) S))))"
    if "unat i \<le> length S" for i using that
  proof (induction "length S - unat i" arbitrary: i)
    case 0
    then have "\<not> i < count_part q" using page_invD(3) [OF assms] by (simp add: word_less_nat_alt)
    with 0 show ?case by (subst free_slot.simps) simp
  next
    case (Suc n)
    then have i: "i < count_part q" "unat i < length S" using page_invD(3) [OF assms] by (simp_all add: word_less_nat_alt)
    have "free_slot (page_bytes q) (count_part q) (i + 1)
      = Some (of_nat (unat (i + 1) + length (takeWhile (\<lambda>s. s \<noteq> Empty) (drop (unat (i + 1)) S))))"
      using Suc.hyps i by (intro Suc.hyps(1)) (simp_all add: unat_Suc_less)
    then show ?case using i page_invD(2) [OF assms] slot_empty_iff [OF assms i(2)]
      by (subst free_slot.simps) (auto simp: unat_Suc_less Cons_nth_drop_Suc [symmetric])
  qed
  from this [of 0] show ?thesis by (simp add: first_empty_def)
qed

lemma first_empty_le: "first_empty S \<le> length S"
  by (simp add: first_empty_def length_takeWhile_le)

lemma first_empty_nth: "first_empty S < length S \<Longrightarrow> S ! first_empty S = Empty"
  unfolding first_empty_def using nth_length_takeWhile by fastforce

lemma insert_slot_nth:
  "insert_slot S fs = (if first_empty S < length S then S[first_empty S := Present fs] else S @ [Present fs])"
  using first_empty_le [of S] by (auto simp: insert_slot_def upd_conv_take_nth_drop)

text \<open>Eight free bytes behind the slots can be seen as one more slot.\<close>

lemma extend_slots:
  assumes "rest_part r = s @ rest" "length s = 8"
  shows "\<exists>e. page_bytes r = page_bytes (r\<lparr>slots_part := slots_part r @ [e], rest_part := rest\<rparr>)"
proof -
  obtain x y where "take 4 s = le32 x" "drop 4 s = le32 y"
    using four_bytes [of "take 4 s"] four_bytes [of "drop 4 s"] assms(2) by auto
  then have "s = le32 x @ le32 y" by (metis append_take_drop_id)
  then show ?thesis using assms(1) by (intro exI [of _ "(x, y)"]) (simp add: page_bytes_def)
qed

lemma row_image_tuple: "length (row_image row) = tuple_length (row_fields row)"
  by (simp add: tuple_length_def row_image_length Row_of_fields_def)

lemma Insert_full:
  assumes "page_holds p h S" "row_ok row" "free_space S < tuple_length (row_fields row) + 8"
  shows "TablePage_InsertTuple p row = Some (False, p, row)"
proof -
  obtain q b where q: "p = page_bytes q" "page_inv q b S" using assms by (auto simp: page_holds_def)
  have n: "unat (of_nat (length (row_image row)) :: u32) = length (row_image row)" using assms(2) by (intro unat_small32) (simp add: row_ok_def)
  moreover have "(0 :: u32) < of_nat (length (row_image row))" using n by (simp add: word_less_nat_alt row_image_length)
  moreover have "unat (of_nat (free_space S) :: u32) = free_space S" by (intro unat_small32) (simp add: free_space_def)
  ultimately show ?thesis using assms(3) q free_space_page(1) [OF q(2)]
    by (simp add: TablePage_InsertTuple_def Row_GetSerializedSize_image [OF assms(2)] row_image_tuple)
qed

text \<open>The page seen with a slot for the tuple, and a gap that still has room for it.\<close>

lemma insert_view:
  assumes "page_inv q b S" "n + 8 \<le> free_space S" "k = first_empty S"
  obtains v g where "page_bytes q = page_bytes v" "k < length (slots_part v)" "length (slots_part v) = max (length S) (Suc k)"
    "rest_part v = g @ concat (map snd b)" "n \<le> length g" "24 + 8 * length (slots_part v) + length g = unat (free_part q)"
    "\<And>j. j < length S \<Longrightarrow> slots_part v ! j = slots_part q ! j" "page_id_part v = page_id_part q" "prev_part v = prev_part q"
    "next_part v = next_part q" "free_part v = free_part q" "count_part v = count_part q"
proof -
  note D = page_invD [OF assms(1)]
  obtain gap where g: "rest_part q = gap @ concat (map snd b)" using assms(1) by (auto simp: page_inv_def)
  have l: "length gap = free_space S" using free_space_page(3) [OF assms(1)] g by (simp add: body_length_def)
  have f: "24 + 8 * length S + length gap = unat (free_part q)" using l free_space_page(2) [OF assms(1)] D(4) by simp
  show thesis
  proof (cases "k < length S")
    case True
    then show ?thesis using that [of q gap] D(2) g l assms(2) f by (auto simp: max_def)
  next
    case False
    then have k: "k = length S" using first_empty_le [of S] assms(3) by simp
    have "rest_part q = take 8 gap @ (drop 8 gap @ concat (map snd b))" using g by simp
    then obtain e where e: "page_bytes q = page_bytes (q\<lparr>slots_part := slots_part q @ [e], rest_part := drop 8 gap @ concat (map snd b)\<rparr>)"
      using extend_slots [of q "take 8 gap"] l assms(2) by auto
    show ?thesis using that [OF e, of "drop 8 gap"] k D(2) l assms(2) f by (simp add: nth_append)
  qed
qed

lemma Insert_holds:
  assumes "page_holds p (page_id, prev, nxt) S" "row_ok row" "tuple_length (row_fields row) + 8 \<le> free_space S"
  shows "\<exists>p'. TablePage_InsertTuple p row
      = Some (True, p', row\<lparr>rid := \<lparr>rid_page_id = page_id, slot_num = of_nat (first_empty S)\<rparr>\<rparr>)
    \<and> page_holds p' (page_id, prev, nxt) (insert_slot S (row_fields row))"
proof -
  obtain q b where q: "p = page_bytes q" "(page_id, prev, nxt) = (page_id_part q, prev_part q, next_part q)" "page_inv q b S"
    using assms by (auto simp: page_holds_def)
  note D = page_invD [OF q(3)] and F = free_space_page [OF q(3)]
  define k where "k = first_empty S"
  define n where "n = length (row_image row)"
  have n8: "n + 8 \<le> free_space S" using assms(3) by (simp add: n_def row_image_tuple)
  have n17: "17 \<le> n" by (simp add: n_def row_image_length)
  have un: "unat (of_nat n :: u32) = n" using n8 F(2) by (intro unat_small32) simp
  have uf: "unat (of_nat (free_space S) :: u32) = free_space S" by (intro unat_small32) (simp add: free_space_def)
  have uk: "unat (of_nat k :: u32) = k" using first_empty_le [of S] D(1) by (intro unat_small32) (simp add: k_def)
  obtain v g where v: "page_bytes q = page_bytes v" "k < length (slots_part v)" "length (slots_part v) = max (length S) (Suc k)"
    "rest_part v = g @ concat (map snd b)" "n \<le> length g" "24 + 8 * length (slots_part v) + length g = unat (free_part q)"
    "\<And>j. j < length S \<Longrightarrow> slots_part v ! j = slots_part q ! j" "page_id_part v = page_id_part q" "prev_part v = prev_part q"
    "next_part v = next_part q" "free_part v = free_part q" "count_part v = count_part q"
    using insert_view [OF q(3) n8 k_def] by metis
  define f where "f = free_part q - of_nat n"
  have "n \<le> unat (free_part q)" using v(5,6) by simp
  then have fn: "unat f = unat (free_part q) - n" using un by (simp add: f_def unat_sub word_le_nat_alt)
  define v1 where "v1 = v\<lparr>free_part := f\<rparr>"
  define v2 where "v2 = v1\<lparr>rest_part := take (length g - n) g @ row_image row @ concat (map snd b)\<rparr>"
  have "Row_SerializeTo row (page_bytes v1) (unat f) = Some (page_bytes (v1\<lparr>rest_part := take (unat f - (24 + 8 * length (slots_part v1))) (rest_part v1)
    @ row_image row @ drop (unat f - (24 + 8 * length (slots_part v1)) + length (row_image row)) (rest_part v1)\<rparr>), of_nat (length (row_image row)))"
    using v(4,5,6) fn by (intro serialize_rest [OF assms(2) refl]) (simp_all add: v1_def n_def)
  moreover have "unat f - (24 + 8 * length (slots_part v1)) = length g - n" using v(6) fn by (simp add: v1_def)
  ultimately have ser: "Row_SerializeTo row (page_bytes v1) (unat f) = Some (page_bytes v2, of_nat n)"
    using v(4,5) by (simp add: v2_def v1_def n_def)
  have c: "(of_nat k :: u32) = count_part q \<longleftrightarrow> k = length S" using D(3) uk by (simp add: word_unat_eq_iff)
  define v3 where "v3 = v2\<lparr>slots_part := (slots_part v)[k := (f, of_nat n)]\<rparr>"
  have set: "SetTupleOffsetAtSlot (page_bytes v2) (of_nat k) f = Some (page_bytes (v2\<lparr>slots_part := (slots_part v)[k := (f, snd (slots_part v ! k))]\<rparr>))"
    "SetTupleSize (page_bytes (v2\<lparr>slots_part := (slots_part v)[k := (f, snd (slots_part v ! k))]\<rparr>)) (of_nat k) (of_nat n) = Some (page_bytes v3)"
    using v(2) uk by (simp_all add: v3_def v2_def v1_def)
  define v4 where "v4 = (if k = length S then v3\<lparr>count_part := count_part q + 1\<rparr> else v3)"
  have "TablePage_InsertTuple p row = Some (True, page_bytes v4, row\<lparr>rid := \<lparr>rid_page_id = page_id, slot_num = of_nat k\<rparr>\<rparr>)"
  proof -
    have "(0 :: u32) < of_nat n" using un n17 by (simp add: word_less_nat_alt)
    moreover have "Row_GetSerializedSize row = Some (of_nat n)" using Row_GetSerializedSize_image [OF assms(2)] by (simp add: n_def)
    moreover have "GetFreeSpaceRemaining (page_bytes v) = Some (of_nat (free_space S))" "free_slot (page_bytes v) (count_part q) 0 = Some (of_nat k)"
      using F(1) free_slot_first [OF q(3)] v(1) by (simp_all add: k_def)
    moreover have "v\<lparr>free_part := free_part q - of_nat n\<rparr> = v1" "free_part v1 = f" "free_part v2 = f" "page_id_part v3 = page_id"
      "count_part v3 = count_part q" using v(8,12) q(2) by (simp_all add: v3_def v2_def v1_def f_def)
    moreover have "p = page_bytes v" using q(1) v(1) by simp
    ultimately show ?thesis using un uf n8 ser set c v(11,12) by (auto simp: TablePage_InsertTuple_def v4_def)
  qed
  moreover have "page_inv v4 ((k, row_image row) # b) (insert_slot S (row_fields row))"
  proof -
    have kb: "k \<notin> fst ` set b"
    proof (cases "k < length S")
      case True
      then have "map_of b k = None" using first_empty_nth D(7) [OF True] by (simp add: k_def slot_inv_def)
      then show ?thesis by (simp add: map_of_eq_None_iff)
    qed (use D(8) in blast)
    have fw: "f = of_nat (4096 - (n + body_length b))"
      using fn D(4) v(5,6) unat_small32 [of "4096 - (n + body_length b)"] by (simp add: word_unat_eq_iff)
    have l: "length (insert_slot S (row_fields row)) = length (slots_part v)" "insert_slot S (row_fields row) ! k = Present (row_fields row)"
      "\<And>j. j < length (slots_part v) \<Longrightarrow> j \<noteq> k \<Longrightarrow> j < length S \<and> insert_slot S (row_fields row) ! j = S ! j"
      using first_empty_le [of S] v(3) by (auto simp: insert_slot_nth nth_append k_def)
    have "slot_inv ((k, row_image row) # b) (f, of_nat n) k (Present (row_fields row))"
      using assms(2) fw by (auto simp: slot_inv_def tuple_image_def n_def)
    moreover have "slot_inv ((k, row_image row) # b) e j s = slot_inv b e j s" if "j \<noteq> k" for e j s
      using that by (cases s) (auto simp: slot_inv_def)
    ultimately have "\<forall>j<length (slots_part v). slot_inv ((k, row_image row) # b) ((slots_part v)[k := (f, of_nat n)] ! j) j (insert_slot S (row_fields row) ! j)"
      using l v(7) D(7) v(2) by (simp add: nth_list_update)
    moreover have "length (page_bytes v4) = 4096" using v(4,5,6) D(1,4,5) by (simp add: v4_def v3_def v2_def v1_def body_length_def n_def)
    moreover have "count_part v4 = of_nat (length (slots_part v))"
      using v(3,12) first_empty_le [of S] q(3) by (auto simp: v4_def v3_def v2_def v1_def page_inv_def k_def)
    moreover have "\<forall>j\<in>fst ` set b. j < length (slots_part v)" by (intro ballI) (simp add: v(3) less_max_iff_disj D(8))
    ultimately show ?thesis unfolding page_inv_def using l(1) v(2) kb fw D(6)
      by (auto simp: v4_def v3_def v2_def v1_def n_def)
  qed
  moreover have "(page_id, prev, nxt) = (page_id_part v4, prev_part v4, next_part v4)"
    using q(2) v(8-10) by (simp add: v4_def v3_def v2_def v1_def)
  ultimately show ?thesis using page_holdsI unfolding k_def by blast
qed

subsection \<open>Replacing a tuple\<close>

text \<open>
  Deleting and updating move the tuples below the one in slot \<open>k\<close> by the difference of the sizes; \<open>zs\<close> is
  what replaces the tuple.
\<close>

lemma address_shift:
  assumes "b = xs @ (k, img) # ys" "distinct (map fst b)" "body_length b \<le> 4096" "body_length (xs @ zs @ ys) \<le> 4096" "fst ` set zs \<subseteq> {k}"
    "j \<noteq> k" "map_of b j = Some im" "0 < length im"
  shows "map_of (xs @ zs @ ys) j = Some im"
    "j \<in> fst ` set xs \<and> address b j < address b k \<and> address (xs @ zs @ ys) j + body_length zs = address b j + length img
     \<or> j \<notin> fst ` set xs \<and> address b k + length img \<le> address b j \<and> address (xs @ zs @ ys) j = address b j"
proof -
  have kx: "k \<notin> fst ` set xs" using assms(1,2) by auto
  have ak: "address b k = 4096 - (length img + body_length ys)" using assms(1,3) kx by (simp add: address_append)
  have z: "map_of zs j = None" "j \<notin> fst ` set zs" using assms(5,6) by (auto simp: map_of_eq_None_iff)
  then show "map_of (xs @ zs @ ys) j = Some im" using assms(1,6,7) by (auto simp: map_add_def split: option.splits)
  show "j \<in> fst ` set xs \<and> address b j < address b k \<and> address (xs @ zs @ ys) j + body_length zs = address b j + length img
     \<or> j \<notin> fst ` set xs \<and> address b k + length img \<le> address b j \<and> address (xs @ zs @ ys) j = address b j"
  proof (cases "j \<in> fst ` set xs")
    case True
    then have "\<exists>i. map_of xs j = Some i" by (metis map_of_eq_None_iff not_None_eq)
    then have x: "map_of xs j = Some im" using assms(1,6,7) by auto
    have "4096 - body_length xs \<le> address xs j" "address xs j + length im \<le> 4096"
      using address_bounds [OF x] assms(1,3) by auto
    moreover have "address b j = address xs j - (length img + body_length ys)" "address (xs @ zs @ ys) j = address xs j - (body_length zs + body_length ys)"
      using True assms(1,3,4) by (simp_all add: address_append)
    moreover have "body_length xs + (length img + body_length ys) \<le> 4096" "body_length xs + (body_length zs + body_length ys) \<le> 4096"
      using assms(1,3,4) by simp_all
    ultimately have "address b j < address b k" "address (xs @ zs @ ys) j + body_length zs = address b j + length img"
      using ak assms(8) by linarith+
    then show ?thesis using True by blast
  next
    case False
    then have "map_of xs j = None" by (simp add: map_of_eq_None_iff)
    then have y: "map_of ys j = Some im" using assms(1,6,7) by (auto simp: map_add_def)
    have "address (zs @ ys) j = address ys j" using z(2) assms(4) by (subst address_append) auto
    then have "address b j = address ys j" "address (xs @ zs @ ys) j = address ys j"
      using False assms(1,3,4,6) by (simp_all add: address_append)
    then show ?thesis using False ak address_bounds(1) [OF y] assms(1,3) by simp
  qed
qed

lemma move_slot_word:
  assumes "sz \<noteq> 0" "a < 2 ^ 32" "c < 2 ^ 32" "a < c \<longrightarrow> a' + m = a + n" "\<not> a < c \<longrightarrow> a' = a"
  shows "move_slot (of_nat c) (of_nat n - of_nat m) (of_nat a, sz) = (of_nat a', sz)"
proof -
  have "(of_nat a :: u32) < of_nat c \<longleftrightarrow> a < c" using assms(2,3) by (simp add: word_less_nat_alt unat_small32)
  moreover have "(of_nat a' :: u32) = of_nat a + (of_nat n - of_nat m)" if "a < c"
  proof -
    have "(of_nat (a' + m) :: u32) = of_nat (a + n)" using assms(4) that by simp
    then show ?thesis by (simp add: algebra_simps)
  qed
  ultimately show ?thesis using assms(1,5) by (auto simp: move_slot_def)
qed

lemma page_inv_replace:
  assumes inv: "page_inv q b S" and b: "b = xs @ (k, img) # ys"
    and zs: "fst ` set zs \<subseteq> {k}" "distinct (map fst zs)" "body_length (xs @ zs @ ys) \<le> length (rest_part q)"
    and bound: "address b k \<le> c" "c \<le> address b k + length img"
    and slots: "length (slots_part q') = length S" "slot_inv (xs @ zs @ ys) (slots_part q' ! k) k s"
      "\<And>j. j < length S \<Longrightarrow> j \<noteq> k \<Longrightarrow> slots_part q' ! j = move_slot (of_nat c) (of_nat (length img) - of_nat (body_length zs)) (slots_part q ! j)"
    and rest: "rest_part q' = g @ concat (map snd (xs @ zs @ ys))" "length (rest_part q') = length (rest_part q)"
    and parts: "free_part q' = of_nat (4096 - body_length (xs @ zs @ ys))" "count_part q' = count_part q"
  shows "page_inv q' (xs @ zs @ ys) (S[k := s])"
proof -
  note D = page_invD [OF inv]
  have k: "k < length S" using D(8) b by simp
  have km: "map_of b k = Some img" using D(6) b by (intro map_of_is_SomeI) auto
  have b4: "body_length b \<le> 4096" "body_length (xs @ zs @ ys) \<le> 4096" using D(1,5) zs(3) by auto
  have "slot_inv (xs @ zs @ ys) (slots_part q' ! j) j (S ! j)" if j: "j < length S" "j \<noteq> k" for j
  proof (cases "S ! j = Empty")
    case True
    then have e: "map_of b j = None" "slots_part q ! j = (0, 0)" using D(7) [OF j(1)] by (auto simp: slot_inv_def)
    then have "map_of (xs @ zs @ ys) j = None" using b zs(1) j(2) by (auto simp: map_of_eq_None_iff)
    moreover have "slots_part q' ! j = (0, 0)" using slots(3) [OF j] e(2) by (simp add: move_slot_def)
    ultimately show ?thesis using True by (simp add: slot_inv_def)
  next
    case False
    obtain im fs where m: "map_of b j = Some im" "tuple_image fs im" "fst (slots_part q ! j) = of_nat (address b j)"
      "S ! j = Present fs \<and> snd (slots_part q ! j) = of_nat (length im) \<or> S ! j = Deleted fs \<and> snd (slots_part q ! j) = SetDeletedFlag (of_nat (length im))"
      by (rule slot_inv_image [OF D(7) [OF j(1)] False]) blast
    have im: "0 < length im" using tuple_image_length [OF m(2)] by linarith
    note A = address_shift [OF b D(6) b4 zs(1) j(2) m(1) im]
    have sz: "snd (slots_part q ! j) \<noteq> 0" using slot_empty_iff [OF inv j(1)] False by simp
    have "address b j < 2 ^ 32" "c < 2 ^ 32" using address_bounds(2) [OF m(1) b4(1)] address_bounds(2) [OF km b4(1)] bound by auto
    moreover have "address b j < c \<longrightarrow> address (xs @ zs @ ys) j + body_length zs = address b j + length img"
      "\<not> address b j < c \<longrightarrow> address (xs @ zs @ ys) j = address b j" using A(2) bound by auto
    ultimately have "move_slot (of_nat c) (of_nat (length img) - of_nat (body_length zs)) (of_nat (address b j), snd (slots_part q ! j))
      = (of_nat (address (xs @ zs @ ys) j), snd (slots_part q ! j))"
      by (rule move_slot_word [OF sz])
    moreover have "slots_part q ! j = (of_nat (address b j), snd (slots_part q ! j))" using m(3) by (metis prod.collapse)
    ultimately have "slots_part q' ! j = (of_nat (address (xs @ zs @ ys) j), snd (slots_part q ! j))" using slots(3) [OF j] by metis
    then show ?thesis using m A(1) by (auto simp: slot_inv_def simp del: map_of_append)
  qed
  then have "\<forall>j<length S. slot_inv (xs @ zs @ ys) (slots_part q' ! j) j (S[k := s] ! j)"
    using slots(2) k by (metis nth_list_update_eq nth_list_update_neq)
  moreover have "distinct (map fst (xs @ zs @ ys))" using D(6) b zs(1,2) by auto
  moreover have "\<forall>j\<in>fst ` set (xs @ zs @ ys). j < length S"
  proof
    fix j assume "j \<in> fst ` set (xs @ zs @ ys)"
    then have "j \<in> fst ` set b \<or> j = k" using b zs(1) by auto
    then show "j < length S" using D(8) k by blast
  qed
  moreover have "count_part q' = of_nat (length S)" using parts(2) inv by (simp add: page_inv_def)
  moreover have "length (page_bytes q') = 4096" using slots(1) rest(2) D(1) by simp
  ultimately show ?thesis using slots(1) rest(1) parts(1) unfolding page_inv_def by (simp only: length_list_update) blast
qed


text \<open>A tuple with its slot, its address and its size as the operations read them.\<close>

lemma stored_tuple:
  assumes "page_inv q b S" "k < length S" "S ! k \<noteq> Empty"
  obtains xs img ys gap where "b = xs @ (k, img) # ys" "17 \<le> length img" "length img \<le> 4096"
    "rest_part q = gap @ concat (map snd xs) @ img @ concat (map snd ys)"
    "24 + 8 * length S + length gap = unat (free_part q)" "address b k = unat (free_part q) + body_length xs"
    "unat (fst (slots_part q ! k)) = address b k" "address b k + length img \<le> 4096"
    "(if IsDeleted (snd (slots_part q ! k)) then UnsetDeletedFlag (snd (slots_part q ! k)) else snd (slots_part q ! k)) = of_nat (length img)"
    "unat (of_nat (length img) :: u32) = length img"
proof -
  note D = page_invD [OF assms(1)]
  obtain img fs where m: "map_of b k = Some img" "tuple_image fs img" "fst (slots_part q ! k) = of_nat (address b k)"
    "S ! k = Present fs \<and> snd (slots_part q ! k) = of_nat (length img) \<or> S ! k = Deleted fs \<and> snd (slots_part q ! k) = SetDeletedFlag (of_nat (length img))"
    by (rule slot_inv_image [OF D(7) [OF assms(2)] assms(3)]) blast
  obtain xs ys where b: "b = xs @ (k, img) # ys" using map_of_split [OF m(1)] by metis
  obtain gap where g: "rest_part q = gap @ concat (map snd xs) @ img @ concat (map snd ys)"
    "24 + 8 * length S + length gap = unat (free_part q)" "address b k = unat (free_part q) + body_length xs"
    using tuple_place [OF assms(1) b] by metis
  have b4: "body_length b \<le> 4096" using D(1,5) by simp
  note a = address_bounds(2) [OF m(1) b4]
  have l: "17 \<le> length img" "length img \<le> 4096" using tuple_image_length [OF m(2)] a by auto
  have "(if IsDeleted (snd (slots_part q ! k)) then UnsetDeletedFlag (snd (slots_part q ! k)) else snd (slots_part q ! k)) = of_nat (length img)"
    using m(4) size_flags [OF l(2)] l(1) by auto
  moreover have "unat (fst (slots_part q ! k)) = address b k" using m(3) a unat_small32 [of "address b k"] by simp
  moreover have "unat (of_nat (length img) :: u32) = length img" using l(2) by (intro unat_small32) simp
  ultimately show thesis using that [OF b l g] a by blast
qed

definition apply_slot :: "slot list \<Rightarrow> nat \<Rightarrow> slot list option" where
  "apply_slot S k = (if k < length S \<and> S ! k \<noteq> Empty then Some (S[k := Empty]) else None)"

lemma ApplyDelete_deletes:
  assumes "page_inv q b S" "unat (slot_num r) < length S" "S ! unat (slot_num r) \<noteq> Empty"
    "h = (page_id_part q, prev_part q, next_part q)"
  shows "\<exists>p'. TablePage_ApplyDelete (page_bytes q) r = Some p' \<and> page_holds p' h (S[unat (slot_num r) := Empty])"
proof -
  note D = page_invD [OF assms(1)]
  define k where "k = unat (slot_num r)"
  have k: "k < length S" "S ! k \<noteq> Empty" using assms(2,3) by (auto simp: k_def)
  obtain xs img ys gap where t: "b = xs @ (k, img) # ys" "17 \<le> length img" "length img \<le> 4096"
    "rest_part q = gap @ concat (map snd xs) @ img @ concat (map snd ys)"
    "24 + 8 * length S + length gap = unat (free_part q)" "address b k = unat (free_part q) + body_length xs"
    "unat (fst (slots_part q ! k)) = address b k" "address b k + length img \<le> 4096"
    "(if IsDeleted (snd (slots_part q ! k)) then UnsetDeletedFlag (snd (slots_part q ! k)) else snd (slots_part q ! k)) = of_nat (length img)"
    "unat (of_nat (length img) :: u32) = length img"
    by (rule stored_tuple [OF assms(1) k]) blast
  let ?off = "fst (slots_part q ! k)" and ?n = "length img" and ?X = "concat (map snd xs)" and ?Y = "concat (map snd ys)"
  have fo: "free_part q \<le> ?off" using t(6,7) by (simp add: word_le_nat_alt)
  have d: "unat (?off - free_part q) = length ?X" using fo t(6,7) by (simp add: unat_sub body_length_def)
  define q1 where "q1 = q\<lparr>rest_part := take (length gap + ?n) (rest_part q) @ ?X @ ?Y\<rparr>"
  have mv: "memmove (page_bytes q) (unat (free_part q) + ?n) (unat (free_part q)) (unat (?off - free_part q)) = Some (page_bytes q1)"
  proof -
    have h: "24 + 8 * length (slots_part q) = unat (free_part q) - length gap" "length gap \<le> unat (free_part q)" using t(5) D(2) by auto
    show ?thesis unfolding d
      using t(4) h by (subst memmove_rest [OF refl]) (auto simp: q1_def)
  qed
  define q2 where "q2 = q1\<lparr>free_part := free_part q + of_nat ?n, slots_part := (slots_part q)[k := (0, 0)]\<rparr>"
  define q3 where "q3 = q2\<lparr>slots_part := map (move_slot ?off (of_nat ?n)) ((slots_part q)[k := (0, 0)])\<rparr>"
  have "move_offsets (page_bytes q2) (count_part q) ?off (of_nat ?n) 0 = Some (page_bytes q3)"
    using D(2,3) by (subst move_offsets_slots) (auto simp: q3_def q2_def)
  then have "TablePage_ApplyDelete (page_bytes q) r = Some (page_bytes q3)"
    using mv k t(9,10) fo D(2,3) by (simp add: TablePage_ApplyDelete_def Let_def k_def [symmetric] word_less_nat_alt q2_def q1_def)
  moreover have "page_inv q3 (xs @ [] @ ys) (S[k := Empty])"
  proof (rule page_inv_replace [OF assms(1) t(1), where c = "address b k"])
    show "body_length (xs @ [] @ ys) \<le> length (rest_part q)" using D(5) t(1) by simp
    have "map_of (xs @ ys) k = None" using D(6) t(1) by (auto simp: map_of_eq_None_iff)
    then show "slot_inv (xs @ [] @ ys) (slots_part q3 ! k) k Empty" using k(1) D(2) by (simp add: slot_inv_def q3_def move_slot_def)
    have "of_nat (address b k) = ?off" using t(7,8) unat_small32 [of "address b k"] by (simp add: word_unat_eq_iff)
    then show "slots_part q3 ! j = move_slot (of_nat (address b k)) (of_nat (length img) - of_nat (body_length [])) (slots_part q ! j)"
      if "j < length S" "j \<noteq> k" for j using that D(2) by (simp add: q3_def)
    show "rest_part q3 = take (length gap + ?n) (rest_part q) @ concat (map snd (xs @ [] @ ys))" by (simp add: q3_def q2_def q1_def)
    show "length (rest_part q3) = length (rest_part q)" using t(4) by (simp add: q3_def q2_def q1_def)
    have "4096 - body_length (xs @ ys) = 4096 - body_length b + ?n" using t(1) D(1,5) by simp
    then show "free_part q3 = of_nat (4096 - body_length (xs @ [] @ ys))" using assms(1) by (simp add: q3_def q2_def q1_def page_inv_def)
    show "count_part q3 = count_part q" by (simp add: q3_def q2_def q1_def)
  qed (use D(2) in \<open>simp_all add: q3_def\<close>)
  moreover have "h = (page_id_part q3, prev_part q3, next_part q3)" using assms(4) by (simp add: q3_def q2_def q1_def)
  ultimately show ?thesis using page_holdsI unfolding k_def by blast
qed

lemma ApplyDelete_holds:
  assumes "page_holds p h S"
  shows "case apply_slot S (unat (slot_num r)) of
      None \<Rightarrow> TablePage_ApplyDelete p r = None
    | Some S' \<Rightarrow> \<exists>p'. TablePage_ApplyDelete p r = Some p' \<and> page_holds p' h S'"
proof -
  obtain q b where q: "p = page_bytes q" "h = (page_id_part q, prev_part q, next_part q)" "page_inv q b S"
    using assms by (auto simp: page_holds_def)
  have "slot_num r < count_part q \<longleftrightarrow> unat (slot_num r) < length S" using page_invD(3) [OF q(3)] by (simp add: word_less_nat_alt)
  then have c: "unat (slot_num r) < length S \<Longrightarrow> slot_num r < count_part q" "\<not> unat (slot_num r) < length S \<Longrightarrow> TablePage_ApplyDelete p r = None"
    by (simp_all add: q(1) TablePage_ApplyDelete_def Let_def)
  have "TablePage_ApplyDelete p r = None" if "unat (slot_num r) < length S" "S ! unat (slot_num r) = Empty"
  proof -
    have "slots_part q ! unat (slot_num r) = (0, 0)" using page_invD(7) [OF q(3) that(1)] that(2) by (simp add: slot_inv_def)
    moreover have "\<not> free_part q \<le> 0" using page_invD(1,4,5) [OF q(3)] by (simp add: word_le_nat_alt)
    ultimately show ?thesis using c(1) that(1) page_invD(2) [OF q(3)] by (simp add: q(1) TablePage_ApplyDelete_def Let_def)
  qed
  then show ?thesis using c(2) q(1) ApplyDelete_deletes [OF q(3) _ _ q(2)]
    by (cases "unat (slot_num r) < length S"; cases "S ! unat (slot_num r) = Empty") (simp_all add: apply_slot_def)
qed

definition update_slot :: "slot list \<Rightarrow> nat \<Rightarrow> Field list \<Rightarrow> int \<times> slot list" where
  "update_slot S k new = (if length S \<le> k then (0, S) else case S ! k of
     Present fs \<Rightarrow> if free_space S + tuple_length fs < tuple_length new then (- 2, S) else (1, S[k := Present new])
   | _ \<Rightarrow> (- 1, S))"

lemma UpdateTuple_updates:
  assumes "page_inv q b S" "h = (page_id_part q, prev_part q, next_part q)" "row_ok new" "rid old \<noteq> INVALID_ROWID"
    "unat (slot_num (rid old)) < length S" "S ! unat (slot_num (rid old)) = Present fs"
    "tuple_length (row_fields new) \<le> free_space S + tuple_length fs"
  shows "\<exists>p'. TablePage_UpdateTuple (page_bytes q) new old = Some (1, p', old\<lparr>row_fields := map field_read fs\<rparr>)
    \<and> page_holds p' h (S[unat (slot_num (rid old)) := Present (row_fields new)])"
proof -
  note D = page_invD [OF assms(1)] and F = free_space_page [OF assms(1)]
  define k where "k = unat (slot_num (rid old))"
  have k: "k < length S" "S ! k \<noteq> Empty" "S ! k = Present fs" using assms(5,6) by (auto simp: k_def)
  obtain xs img ys gap where t: "b = xs @ (k, img) # ys" "17 \<le> length img" "length img \<le> 4096"
    "rest_part q = gap @ concat (map snd xs) @ img @ concat (map snd ys)"
    "24 + 8 * length S + length gap = unat (free_part q)" "address b k = unat (free_part q) + body_length xs"
    "unat (fst (slots_part q ! k)) = address b k" "address b k + length img \<le> 4096"
    "(if IsDeleted (snd (slots_part q ! k)) then UnsetDeletedFlag (snd (slots_part q ! k)) else snd (slots_part q ! k)) = of_nat (length img)"
    "unat (of_nat (length img) :: u32) = length img"
    by (rule stored_tuple [OF assms(1) k(1,2)]) blast
  define off where "off = fst (slots_part q ! k)"
  define n where "n = length img"
  define m where "m = length (row_image new)"
  let ?X = "concat (map snd xs)" and ?Y = "concat (map snd ys)"
  have live: "\<not> IsDeleted (snd (slots_part q ! k))" using slot_deleted_iff [OF assms(1) k(1)] k(3) by blast
  have sz: "snd (slots_part q ! k) = of_nat n" using live t(9) by (simp add: n_def)
  have "map_of b k = Some img" using D(6) t(1) by (intro map_of_is_SomeI) auto
  then have "n = tuple_length fs" using D(7) [OF k(1)] k(3) tuple_image_size by (auto simp: slot_inv_def n_def)
  then have mn: "m \<le> length gap + n" using assms(7) F(3) t(4) t(1) by (simp add: m_def row_image_tuple body_length_def)
  have um: "unat (of_nat m :: u32) = m" using assms(3) by (intro unat_small32) (simp add: row_ok_def m_def)
  have m17: "17 \<le> m" by (simp add: m_def row_image_length)
  have gap: "length gap = free_space S" using F(3) t(1,4) by (simp add: body_length_def)
  have ur: "unat (of_nat (free_space S) + of_nat n :: u32) = free_space S + n"
    using unat_small32 [of "free_space S + n"] F(2) t(3) by (simp add: n_def)
  have fo: "free_part q \<le> off" using t(6,7) by (simp add: word_le_nat_alt off_def)
  have d: "unat (off - free_part q) = length ?X" using fo t(6,7) by (simp add: unat_sub body_length_def off_def)
  have h: "24 + 8 * length (slots_part q) = unat (free_part q) - length gap" "length gap \<le> unat (free_part q)" using t(5) D(2) by auto
  define q1 where "q1 = q\<lparr>rest_part := take (length gap + n - m) (rest_part q) @ ?X @ drop (length gap + n - m + length ?X) (rest_part q)\<rparr>"
  have mv: "memmove (page_bytes q) (unat (free_part q) + n - m) (unat (free_part q)) (unat (off - free_part q)) = Some (page_bytes q1)"
  proof -
    let ?h = "24 + 8 * length (slots_part q)" and ?D = "unat (free_part q) + n - m"
    have e: "?D - ?h = length gap + n - m" "unat (free_part q) - ?h = length gap" using h mn by auto
    have "memmove (page_bytes q) ?D (unat (free_part q)) (length ?X) = Some (page_bytes (q\<lparr>rest_part := take (?D - ?h) (rest_part q)
      @ take (length ?X) (drop (unat (free_part q) - ?h) (rest_part q)) @ drop (?D - ?h + length ?X) (rest_part q)\<rparr>))"
      using t(4) h mn e m17 by (intro memmove_rest) (auto simp: n_def)
    moreover have "take (length ?X) (drop (length gap) (rest_part q)) = ?X" using t(4) by simp
    ultimately show ?thesis unfolding d e q1_def by simp
  qed
  define q2 where "q2 = q1\<lparr>free_part := free_part q + of_nat n - of_nat m\<rparr>"
  define q3 where "q3 = q2\<lparr>rest_part := take (length gap + n - m) (rest_part q) @ ?X @ row_image new @ ?Y\<rparr>"
  have ser: "Row_SerializeTo new (page_bytes q2) (unat off + n - m) = Some (page_bytes q3, of_nat m)"
  proof -
    let ?h = "24 + 8 * length (slots_part q2)" and ?i = "unat off + n - m"
      and ?A = "take (length gap + n - m) (rest_part q)" and ?Z = "drop (length gap + n - m + length ?X) (rest_part q)"
    have r2: "rest_part q2 = (?A @ ?X) @ ?Z" by (simp add: q2_def q1_def)
    have A: "length ?A = length gap + n - m" using t(4) by (simp add: n_def)
    have e: "?i - ?h = length (?A @ ?X)" "?h \<le> ?i" using A t(6,7) h mn by (auto simp: q2_def q1_def off_def body_length_def)
    have lr: "length (rest_part q) = length gap + length ?X + n + length ?Y" using t(4) by (simp add: n_def)
    have Z: "length ?Z = m + length ?Y" unfolding length_drop lr using mn by arith
    have l: "length (rest_part q2) = length gap + n + length ?X + length ?Y" unfolding r2 length_append A Z using mn by arith
    have "drop (m + (length gap + n - m + length ?X)) (rest_part q) = drop (length (gap @ ?X @ img)) ((gap @ ?X @ img) @ ?Y)"
      using mn t(4) by (intro arg_cong2 [where f = drop]) (auto simp: n_def)
    then have dr: "drop (?i - ?h + m) (rest_part q2) = ?Y" unfolding e r2 by simp
    have "Row_SerializeTo new (page_bytes q2) ?i = Some (page_bytes (q2\<lparr>rest_part := take (?i - ?h) (rest_part q2)
      @ row_image new @ drop (?i - ?h + length (row_image new)) (rest_part q2)\<rparr>), of_nat (length (row_image new)))"
      using e A l mn by (intro serialize_rest [OF assms(3) refl]) (auto simp: m_def)
    moreover have "take (?i - ?h) (rest_part q2) = ?A @ ?X" unfolding e(1) r2 by (metis append_eq_conv_conj)
    ultimately show ?thesis unfolding m_def [symmetric] dr q3_def by (simp only: append_assoc)
  qed
  define q4 where "q4 = q3\<lparr>slots_part := (slots_part q)[k := (off, of_nat m)]\<rparr>"
  define q5 where "q5 = q4\<lparr>slots_part := map (move_slot (off + of_nat n) (of_nat n - of_nat m)) ((slots_part q)[k := (off, of_nat m)])\<rparr>"
  have "move_offsets (page_bytes q4) (count_part q) (off + of_nat n) (of_nat n - of_nat m) 0 = Some (page_bytes q5)"
    using D(2,3) by (subst move_offsets_slots) (auto simp: q5_def q4_def)
  moreover have "SetTupleSize (page_bytes q3) (slot_num (rid old)) (of_nat m) = Some (page_bytes q4)"
    using k(1) D(2) by (simp add: q4_def q3_def q2_def q1_def off_def k_def)
  moreover have "SetFreeSpacePointer (page_bytes q1) (free_part q + of_nat n - of_nat m) = Some (page_bytes q2)" by (simp add: q2_def)
  ultimately have * : "move_offsets (page_bytes q4) (count_part q) (off + of_nat n) (of_nat n - of_nat m) 0 = Some (page_bytes q5)"
    "SetTupleSize (page_bytes q3) (slot_num (rid old)) (of_nat m) = Some (page_bytes q4)"
    "SetFreeSpacePointer (page_bytes q1) (free_part q + of_nat n - of_nat m) = Some (page_bytes q2)" by blast+
  have "TablePage_UpdateTuple (page_bytes q) new old = Some (1, page_bytes q5, old\<lparr>row_fields := map field_read fs\<rparr>)"
  proof -
    have "(0 :: u32) < of_nat m" using um m17 by (simp add: word_less_nat_alt)
    moreover have "\<not> (of_nat (free_space S) + of_nat n :: u32) < of_nat m" using ur um mn gap by (simp add: word_less_nat_alt)
    moreover have "\<not> unat (free_part q) + n < m" using mn h by simp
    moreover have "\<not> count_part q \<le> slot_num (rid old)" using slot_below [OF assms(1)] k(1) by (simp add: k_def)
    moreover have "Row_GetSerializedSize new = Some (of_nat m)" using Row_GetSerializedSize_image [OF assms(3)] by (simp add: m_def)
    moreover have "Row_DeserializeFrom old (page_bytes q) (unat off) = Some (old\<lparr>row_fields := map field_read fs\<rparr>, of_nat n)"
      using tuple_read [OF assms(1) k(1,3)] sz by (simp add: off_def)
    moreover have "GetTupleOffsetAtSlot (page_bytes q) (slot_num (rid old)) = Some off" "GetTupleSize (page_bytes q) (slot_num (rid old)) = Some (of_nat n)"
      using k(1) D(2) sz by (simp_all add: off_def k_def)
    moreover have "\<not> IsDeleted (of_nat n)" "unat (of_nat n :: u32) = n" using live sz t(10) by (simp_all add: n_def)
    moreover have "count_part q4 = count_part q" by (simp add: q4_def q3_def q2_def q1_def)
    ultimately show ?thesis using mv ser F(1) fo um assms(4) * by (simp add: TablePage_UpdateTuple_def Let_def)
  qed
  moreover have "page_inv q5 (xs @ [(k, row_image new)] @ ys) (S[k := Present (row_fields new)])"
  proof (rule page_inv_replace [OF assms(1) t(1), where c = "address b k + n"])
    let ?b = "xs @ [(k, row_image new)] @ ys"
    have bl: "body_length ?b + n = body_length b + m" using t(1) by (simp add: n_def m_def)
    show "body_length ?b \<le> length (rest_part q)" using t(4) mn by (simp add: m_def n_def body_length_def)
    have wo: "of_nat (address b k) = off" using t(7,8) unat_small32 [of "address b k"] by (simp add: word_unat_eq_iff off_def)
    show "slots_part q5 ! j = move_slot (of_nat (address b k + n)) (of_nat (length img) - of_nat (body_length [(k, row_image new)])) (slots_part q ! j)"
      if "j < length S" "j \<noteq> k" for j using that D(2) wo by (simp add: q5_def n_def m_def)
    have kx: "k \<notin> fst ` set xs" "k \<notin> fst ` set ys" using D(6) t(1) by auto
    have ak: "address ?b k + m = address b k + n"
      using kx t(1,4,8) D(1,5) mn by (simp add: address_append n_def m_def body_length_def)
    have "(of_nat m :: u32) \<noteq> 0" using um m17 by (auto simp: word_unat_eq_iff)
    then have "move_slot (of_nat (address b k + n)) (of_nat n - of_nat m) (of_nat (address b k), of_nat m) = (of_nat (address ?b k), of_nat m)"
      using t(2,8) ak by (intro move_slot_word) (auto simp: n_def)
    moreover have "slots_part q5 ! k = move_slot (off + of_nat n) (of_nat n - of_nat m) (off, of_nat m)" using k(1) D(2) by (simp add: q5_def)
    ultimately have "slots_part q5 ! k = (of_nat (address ?b k), of_nat m)" by (simp add: wo)
    moreover have "map_of xs k = None" using kx(1) by (simp add: map_of_eq_None_iff)
    then have "map_of ?b k = Some (row_image new)" by (simp add: map_add_def)
    ultimately show "slot_inv ?b (slots_part q5 ! k) k (Present (row_fields new))"
      using assms(3) by (auto simp: slot_inv_def tuple_image_def m_def simp del: map_of_append)
    show "rest_part q5 = take (length gap + n - m) (rest_part q) @ concat (map snd ?b)" by (simp add: q5_def q4_def q3_def q2_def q1_def)
    show "length (rest_part q5) = length (rest_part q)" using t(4) mn by (simp add: q5_def q4_def q3_def q2_def q1_def n_def m_def)
    have "4096 - body_length ?b + m = 4096 - body_length b + n" using bl D(1,5) t(4) mn by (simp add: body_length_def n_def m_def)
    then have "of_nat (4096 - body_length ?b) + of_nat m = (of_nat (4096 - body_length b) + of_nat n :: u32)" by (metis of_nat_add)
    then show "free_part q5 = of_nat (4096 - body_length ?b)"
      using assms(1) by (simp add: q5_def q4_def q3_def q2_def q1_def page_inv_def algebra_simps)
    show "count_part q5 = count_part q" by (simp add: q5_def q4_def q3_def q2_def q1_def)
  qed (use D(2) in \<open>simp_all add: q5_def n_def\<close>)
  moreover have "h = (page_id_part q5, prev_part q5, next_part q5)" using assms(2) by (simp add: q5_def q4_def q3_def q2_def q1_def)
  ultimately show ?thesis using page_holdsI unfolding k_def by blast
qed


lemma UpdateTuple_holds:
  assumes "page_holds p h S" "row_ok new" "rid old \<noteq> INVALID_ROWID" "k = unat (slot_num (rid old))"
  shows "\<exists>p' old'. TablePage_UpdateTuple p new old = Some (fst (update_slot S k (row_fields new)), p', old')
    \<and> page_holds p' h (snd (update_slot S k (row_fields new)))
    \<and> old' = (if fst (update_slot S k (row_fields new)) = 1 then old\<lparr>row_fields := the (read_slot S k)\<rparr> else old)"
proof -
  obtain q b where q: "p = page_bytes q" "h = (page_id_part q, prev_part q, next_part q)" "page_inv q b S"
    using assms(1) by (auto simp: page_holds_def)
  note D = page_invD [OF q(3)] and F = free_space_page [OF q(3)]
  define m where "m = tuple_length (row_fields new)"
  have sz: "Row_GetSerializedSize new = Some (of_nat m)" using Row_GetSerializedSize_image [OF assms(2)] by (simp add: m_def row_image_tuple)
  have um: "unat (of_nat m :: u32) = m" using assms(2) by (intro unat_small32) (simp add: row_ok_def m_def row_image_tuple)
  have "17 \<le> m" using row_image_length [of new] by (simp add: m_def row_image_tuple)
  then have m0: "(0 :: u32) < of_nat m" using um by (simp add: word_less_nat_alt)
  have c: "count_part q \<le> slot_num (rid old) \<longleftrightarrow> length S \<le> k" using slot_below [OF q(3)] assms(4) by simp
  consider "length S \<le> k" | "k < length S" "\<forall>fs. S ! k \<noteq> Present fs" | fs where "k < length S" "S ! k = Present fs" by force
  then show ?thesis
  proof cases
    case 1
    then show ?thesis using q(1) assms(1,3) c sz m0 by (simp add: TablePage_UpdateTuple_def update_slot_def Let_def)
  next
    case 2
    then have "update_slot S k (row_fields new) = (- 1, S)" by (auto simp: update_slot_def split: slot.splits)
    then show ?thesis using 2 q(1) assms c sz m0 D(2) slot_deleted_iff [OF q(3) 2(1)]
      by (simp add: TablePage_UpdateTuple_def Let_def)
  next
    case (3 fs)
    show ?thesis
    proof (cases "free_space S + tuple_length fs < m")
      case False
      then show ?thesis using UpdateTuple_updates [OF q(3,2) assms(2,3), of fs] 3 assms(4) q(1)
        by (simp add: update_slot_def read_slot_def m_def)
    next
      case True
      obtain img where t: "map_of b k = Some img" "tuple_image fs img" "snd (slots_part q ! k) = of_nat (length img)"
        using D(7) [OF 3(1)] 3(2) by (auto simp: slot_inv_def)
      have "unat (of_nat (free_space S + tuple_length fs) :: u32) = free_space S + tuple_length fs" using True um
        by (intro unat_small32) (use unsigned_less [where 'a = nat, of "of_nat m :: u32"] in simp)
      then have "(of_nat (free_space S) + snd (slots_part q ! k) :: u32) < of_nat m"
        using True um t(2,3) tuple_image_size by (simp add: word_less_nat_alt)
      moreover have "\<not> IsDeleted (snd (slots_part q ! k))" using slot_deleted_iff [OF q(3) 3(1)] 3(2) by blast
      ultimately show ?thesis using 3 True q(1) assms c sz m0 D(2) F(1)
        by (simp add: TablePage_UpdateTuple_def update_slot_def Let_def m_def)
    qed
  qed
qed

section \<open>Sequences of operations\<close>

datatype page_op = InsertOp Row | MarkOp RowId | UpdateOp Row RowId | ApplyOp RowId | RollbackOp RowId

text \<open>The calls of the table heap on one page, with what they report.\<close>

fun page_step :: "page_op \<Rightarrow> u8 list \<Rightarrow> (int \<times> u8 list) option" where
  "page_step (InsertOp row) p = map_option (\<lambda>(ok, p, _). (of_bool ok, p)) (TablePage_InsertTuple p row)"
| "page_step (MarkOp r) p = map_option (\<lambda>(ok, p). (of_bool ok, p)) (TablePage_MarkDelete p r)"
| "page_step (UpdateOp row r) p = map_option (\<lambda>(c, p, _). (c, p)) (TablePage_UpdateTuple p row (Row_of_rid r))"
| "page_step (ApplyOp r) p = map_option (\<lambda>p. (1, p)) (TablePage_ApplyDelete p r)"
| "page_step (RollbackOp r) p = map_option (\<lambda>p. (1, p)) (TablePage_RollbackDelete p r)"

fun slots_step :: "page_op \<Rightarrow> slot list \<Rightarrow> (int \<times> slot list) option" where
  "slots_step (InsertOp row) S = Some (if free_space S < tuple_length (row_fields row) + 8 then (0, S) else (1, insert_slot S (row_fields row)))"
| "slots_step (MarkOp r) S = (let (ok, S) = mark_slot S (unat (slot_num r)) in Some (of_bool ok, S))"
| "slots_step (UpdateOp row r) S = Some (update_slot S (unat (slot_num r)) (row_fields row))"
| "slots_step (ApplyOp r) S = map_option (\<lambda>S. (1, S)) (apply_slot S (unat (slot_num r)))"
| "slots_step (RollbackOp r) S = map_option (\<lambda>S. (1, S)) (rollback_slot S (unat (slot_num r)))"

fun op_ok :: "page_op \<Rightarrow> bool" where
  "op_ok (InsertOp row) = row_ok row"
| "op_ok (UpdateOp row r) = (row_ok row \<and> r \<noteq> INVALID_ROWID)"
| "op_ok _ = True"

lemma page_step_refines:
  assumes "page_holds p h S" "op_ok op"
  shows "case slots_step op S of None \<Rightarrow> page_step op p = None
    | Some (c, S') \<Rightarrow> \<exists>p'. page_step op p = Some (c, p') \<and> page_holds p' h S'"
proof (cases op)
  case (InsertOp row)
  then have row: "row_ok row" using assms(2) by simp
  obtain i v x where h: "h = (i, v, x)" by (cases h)
  show ?thesis
  proof (cases "free_space S < tuple_length (row_fields row) + 8")
    case True
    then show ?thesis using InsertOp Insert_full [OF assms(1) row] assms(1) by simp
  next
    case False
    then show ?thesis using InsertOp Insert_holds [OF _ row] assms(1) h by fastforce
  qed
next
  case (MarkOp r)
  obtain p' where "TablePage_MarkDelete p r = Some (fst (mark_slot S (unat (slot_num r))), p')"
    "page_holds p' h (snd (mark_slot S (unat (slot_num r))))" using MarkDelete_holds [OF assms(1)] by blast
  then show ?thesis using MarkOp by (cases "mark_slot S (unat (slot_num r))") auto
next
  case (UpdateOp row r)
  then show ?thesis using UpdateTuple_holds [OF assms(1), of row "Row_of_rid r"] assms(2)
    by (auto simp: Row_of_rid_def split: prod.splits)
next
  case (ApplyOp r)
  then show ?thesis using ApplyDelete_holds [OF assms(1), of r] by (auto split: option.splits)
next
  case (RollbackOp r)
  then show ?thesis using RollbackDelete_holds [OF assms(1), of r] by (auto split: option.splits)
qed


fun page_run :: "page_op list \<Rightarrow> u8 list \<Rightarrow> (int list \<times> u8 list) option" where
  "page_run [] p = Some ([], p)"
| "page_run (op # ops) p = do { (c, p) \<leftarrow> page_step op p; (cs, p) \<leftarrow> page_run ops p; Some (c # cs, p) }"

fun slots_run :: "page_op list \<Rightarrow> slot list \<Rightarrow> (int list \<times> slot list) option" where
  "slots_run [] S = Some ([], S)"
| "slots_run (op # ops) S = do { (c, S) \<leftarrow> slots_step op S; (cs, S) \<leftarrow> slots_run ops S; Some (c # cs, S) }"

lemma page_run_refines:
  assumes "page_holds p h S" "\<forall>op\<in>set ops. op_ok op"
  shows "case slots_run ops S of None \<Rightarrow> page_run ops p = None
    | Some (cs, S') \<Rightarrow> \<exists>p'. page_run ops p = Some (cs, p') \<and> page_holds p' h S'"
  using assms
proof (induction ops arbitrary: p S)
  case (Cons op ops)
  note st = page_step_refines [OF Cons.prems(1), of op]
  show ?case
  proof (cases "slots_step op S")
    case None
    then show ?thesis using st Cons.prems(2) by simp
  next
    case (Some cS)
    then obtain c S1 where s: "slots_step op S = Some (c, S1)" by (cases cS) auto
    then obtain p1 where p1: "page_step op p = Some (c, p1)" "page_holds p1 h S1" using st Cons.prems(2) by auto
    show ?thesis using Cons.IH [OF p1(2)] Cons.prems(2) s p1(1) by (auto split: option.splits)
  qed
qed simp

text \<open>
  C13: on a new table page any sequence of insertions, deletions, updates, commits of deletions and
  rollbacks reports and stores what the list of slots says: a row keeps its slot until its deletion is
  applied, a new row takes the first free slot if it fits into the space that is left, a freed slot's
  space is reused, other rows are not disturbed when tuples are moved, and reading a slot gives
  exactly the row that was stored in it last. A failed assertion of the code is an operation on a
  slot that does not exist or is empty, and nothing else.
\<close>

theorem table_page_refines_slots:
  assumes "length p = 4096" "\<forall>op\<in>set ops. op_ok op"
  shows "\<exists>p0. TablePage_Init p page_id prev = Some p0 \<and> (case slots_run ops [] of
      None \<Rightarrow> page_run ops p0 = None
    | Some (codes, S) \<Rightarrow> \<exists>p'. page_run ops p0 = Some (codes, p') \<and> length p' = 4096
        \<and> GetTablePageId p' = Some page_id \<and> GetPrevPageId p' = Some prev \<and> GetNextPageId p' = Some (- 1)
        \<and> GetFirstTupleRid p' = Some (found_rid page_id (next_present S 0))
        \<and> (\<forall>r. r \<noteq> INVALID_ROWID \<longrightarrow> TablePage_GetTuple p' (Row_of_rid r) = Some (case read_slot S (unat (slot_num r)) of
             None \<Rightarrow> (False, Row_of_rid r) | Some fs \<Rightarrow> (True, \<lparr>rid = r, row_fields = fs\<rparr>))))"
proof -
  obtain p0 where p0: "TablePage_Init p page_id prev = Some p0" "page_holds p0 (page_id, prev, - 1) []"
    using Init_holds [OF assms(1)] by blast
  note run = page_run_refines [OF p0(2) assms(2)]
  show ?thesis
  proof (cases "slots_run ops []")
    case None
    then show ?thesis using p0(1) run by simp
  next
    case (Some cS)
    then obtain cs S where s: "slots_run ops [] = Some (cs, S)" by (cases cS) auto
    then obtain p' where p': "page_run ops p0 = Some (cs, p')" "page_holds p' (page_id, prev, - 1) S" using run by auto
    then have "length p' = 4096 \<and> GetTablePageId p' = Some page_id \<and> GetPrevPageId p' = Some prev \<and> GetNextPageId p' = Some (- 1)"
      by (auto simp: page_holds_def page_inv_def)
    moreover have "TablePage_GetTuple p' (Row_of_rid r) = Some (case read_slot S (unat (slot_num r)) of
             None \<Rightarrow> (False, Row_of_rid r) | Some fs \<Rightarrow> (True, \<lparr>rid = r, row_fields = fs\<rparr>))" if "r \<noteq> INVALID_ROWID" for r
      using GetTuple_holds [OF p'(2), of "Row_of_rid r"] that by (simp add: Row_of_rid_def split: option.splits)
    ultimately show ?thesis using p0(1) s p'(1) FirstTuple_holds [OF p'(2)] by auto
  qed
qed

definition example_row :: "u32 \<Rightarrow> Row" where
  "example_row v = Row_of_fields [\<lparr>fvalue = VInteger v, type_id = kTypeInt, flen = 4, is_null = False\<rparr>]"

lemma example_row_facts: "row_ok (example_row v)" "tuple_length (row_fields (example_row v)) = 25"
  by (simp_all add: row_ok_def row_image_length tuple_length_def example_row_def Row_of_fields_def field_image_def field_ok_def)

theorem table_page_refines_slots_witness:
  "\<exists>p0 p'. TablePage_Init (replicate 4096 0) 5 4 = Some p0
    \<and> page_run [InsertOp (example_row 1), InsertOp (example_row 2), ApplyOp \<lparr>rid_page_id = 5, slot_num = 0\<rparr>] p0 = Some ([1, 1, 1], p')
    \<and> TablePage_GetTuple p' (Row_of_rid \<lparr>rid_page_id = 5, slot_num = 1\<rparr>)
      = Some (True, \<lparr>rid = \<lparr>rid_page_id = 5, slot_num = 1\<rparr>, row_fields = row_fields (example_row 2)\<rparr>)
    \<and> GetFirstTupleRid p' = Some (True, \<lparr>rid_page_id = 5, slot_num = 1\<rparr>)"
proof -
  let ?ops = "[InsertOp (example_row 1), InsertOp (example_row 2), ApplyOp \<lparr>rid_page_id = 5, slot_num = 0\<rparr>]"
  have r: "slots_run ?ops [] = Some ([1, 1, 1], [Empty, Present (row_fields (example_row 2))])"
    by (simp add: example_row_facts(2) free_space_def insert_slot_def first_empty_def apply_slot_def)
  have f: "map field_read (row_fields (example_row 2)) = row_fields (example_row 2)"
    by (simp add: example_row_def Row_of_fields_def field_read_def)
  have "\<lparr>rid_page_id = 5, slot_num = 1\<rparr> \<noteq> INVALID_ROWID" by (simp add: INVALID_ROWID_def)
  then show ?thesis
    using table_page_refines_slots [of "replicate 4096 0" ?ops 5 4] r f
    by (auto simp: example_row_facts(1) read_slot_def next_present_def found_rid_def)
qed

end
