(* ===== verification/Table_Heap.thy ===== *)
theory Table_Heap
  imports Pool_Pins Table_Page
begin

text \<open>
  The table heap of \<open>MiniSQL/src/storage/table_heap.cpp\<close> and its iterator, \<open>storage/table_iterator.cpp\<close>: a doubly linked list
  of table pages that are reached through the buffer pool. A pointer to a page is the frame it lies in;
  using a null pointer is \<open>None\<close>.
\<close>

section \<open>Model\<close>

record TableHeap =
  first_page_id :: int
  insert_page_id :: int

definition TableHeap_new :: "BufferPoolManager \<Rightarrow> (TableHeap \<times> BufferPoolManager) option" where
  "TableHeap_new bp = do {
     (q, bp) \<leftarrow> NewPage bp;
     (pageId, f) \<leftarrow> q;
     pg \<leftarrow> page_at f bp;
     d \<leftarrow> TablePage_Init (data pg) (id_word pageId) (- 1);
     bp \<leftarrow> write_frame f d bp;
     (_, bp) \<leftarrow> UnpinPage pageId True bp;
     Some (\<lparr>first_page_id = pageId, insert_page_id = pageId\<rparr>, bp) }"

definition TableHeap_load :: "int \<Rightarrow> TableHeap" where
  "TableHeap_load p = \<lparr>first_page_id = p, insert_page_id = p\<rparr>"

text \<open>The loop of \<open>InsertTuple\<close>, with \<open>cur_page\<close> in frame \<open>f\<close>; the last component is \<open>cur_page\<close> at its end.\<close>

partial_function (option) insert_loop :: "Row \<Rightarrow> nat \<Rightarrow> BufferPoolManager \<Rightarrow> (bool \<times> Row \<times> BufferPoolManager \<times> nat) option" where
  "insert_loop row f bp = do {
     pg \<leftarrow> page_at f bp;
     (ok, d, row) \<leftarrow> TablePage_InsertTuple (data pg) row;
     bp \<leftarrow> write_frame f d bp;
     if ok then Some (True, row, bp, f) else do {
     next_page_id \<leftarrow> GetNextPageId d;
     cur \<leftarrow> GetTablePageId d;
     if sint next_page_id \<noteq> INVALID_PAGE_ID then do {
       (_, bp) \<leftarrow> UnpinPage (sint cur) False bp;
       (q, bp) \<leftarrow> FetchPage (sint next_page_id) bp;
       g \<leftarrow> q;
       insert_loop row g bp }
     else do {
       (q, bp) \<leftarrow> NewPage bp;
       case q of
         None \<Rightarrow> do { (_, bp) \<leftarrow> UnpinPage (sint cur) False bp; Some (False, row, bp, f) }
       | Some (p, g) \<Rightarrow> do {
           pg \<leftarrow> page_at f bp;
           d \<leftarrow> SetNextPageId (data pg) (id_word p);
           bp \<leftarrow> write_frame f d bp;
           npg \<leftarrow> page_at g bp;
           cur \<leftarrow> GetTablePageId d;
           d \<leftarrow> TablePage_Init (data npg) (id_word p) cur;
           bp \<leftarrow> write_frame g d bp;
           (_, bp) \<leftarrow> UnpinPage (sint cur) True bp;
           insert_loop row g bp }}}}"

definition TableHeap_InsertTuple :: "TableHeap \<Rightarrow> Row \<Rightarrow> BufferPoolManager \<Rightarrow> (bool \<times> Row \<times> TableHeap \<times> BufferPoolManager) option" where
  "TableHeap_InsertTuple hp row bp = do {
     (q, bp) \<leftarrow> FetchPage (insert_page_id hp) bp;
     case q of
       None \<Rightarrow> Some (False, row, hp, bp)
     | Some f \<Rightarrow> do {
         (ok, row, bp, g) \<leftarrow> insert_loop row f bp;
         if \<not> ok then Some (False, row, hp, bp) else do {
         pg \<leftarrow> page_at g bp;
         cur \<leftarrow> GetTablePageId (data pg);
         (_, bp) \<leftarrow> UnpinPage (sint cur) True bp;
         Some (True, row, hp\<lparr>insert_page_id := page_id pg\<rparr>, bp) }}}"

definition TableHeap_MarkDelete :: "RowId \<Rightarrow> BufferPoolManager \<Rightarrow> (bool \<times> BufferPoolManager) option" where
  "TableHeap_MarkDelete r bp = do {
     (q, bp) \<leftarrow> FetchPage (sint (rid_page_id r)) bp;
     case q of
       None \<Rightarrow> Some (False, bp)
     | Some f \<Rightarrow> do {
         pg \<leftarrow> page_at f bp;
         (_, d) \<leftarrow> TablePage_MarkDelete (data pg) r;
         bp \<leftarrow> write_frame f d bp;
         cur \<leftarrow> GetTablePageId d;
         (_, bp) \<leftarrow> UnpinPage (sint cur) True bp;
         Some (True, bp) }}"

definition TableHeap_UpdateTuple :: "TableHeap \<Rightarrow> Row \<Rightarrow> RowId \<Rightarrow> BufferPoolManager \<Rightarrow> (bool \<times> Row \<times> TableHeap \<times> BufferPoolManager) option" where
  "TableHeap_UpdateTuple hp row r bp = do {
     (q, bp) \<leftarrow> FetchPage (sint (rid_page_id r)) bp;
     f \<leftarrow> q;
     pg \<leftarrow> page_at f bp;
     (status, d, _) \<leftarrow> TablePage_UpdateTuple (data pg) row (Row_of_rid r);
     bp \<leftarrow> write_frame f d bp;
     cur \<leftarrow> GetTablePageId d;
     if status = 1 then do { (_, bp) \<leftarrow> UnpinPage (sint cur) True bp; Some (True, row, hp, bp) }
     else if status \<noteq> - 2 then do { (_, bp) \<leftarrow> UnpinPage (sint cur) False bp; Some (False, row, hp, bp) }
     else do {
       (_, d) \<leftarrow> TablePage_MarkDelete d r;
       bp \<leftarrow> write_frame f d bp;
       cur \<leftarrow> GetTablePageId d;
       (_, bp) \<leftarrow> UnpinPage (sint cur) False bp;
       TableHeap_InsertTuple hp row bp }}"

definition TableHeap_ApplyDelete :: "RowId \<Rightarrow> BufferPoolManager \<Rightarrow> BufferPoolManager option" where
  "TableHeap_ApplyDelete r bp = do {
     (q, bp) \<leftarrow> FetchPage (sint (rid_page_id r)) bp;
     f \<leftarrow> q;
     pg \<leftarrow> page_at f bp;
     d \<leftarrow> TablePage_ApplyDelete (data pg) r;
     bp \<leftarrow> write_frame f d bp;
     cur \<leftarrow> GetTablePageId d;
     (_, bp) \<leftarrow> UnpinPage (sint cur) True bp;
     Some bp }"

definition TableHeap_RollbackDelete :: "RowId \<Rightarrow> BufferPoolManager \<Rightarrow> BufferPoolManager option" where
  "TableHeap_RollbackDelete r bp = do {
     (q, bp) \<leftarrow> FetchPage (sint (rid_page_id r)) bp;
     f \<leftarrow> q;
     pg \<leftarrow> page_at f bp;
     d \<leftarrow> TablePage_RollbackDelete (data pg) r;
     bp \<leftarrow> write_frame f d bp;
     cur \<leftarrow> GetTablePageId d;
     (_, bp) \<leftarrow> UnpinPage (sint cur) True bp;
     Some bp }"

text \<open>\<open>GetTuple\<close> ignores the answer of the page and leaves the page pinned.\<close>

definition TableHeap_GetTuple :: "Row \<Rightarrow> BufferPoolManager \<Rightarrow> (bool \<times> Row \<times> BufferPoolManager) option" where
  "TableHeap_GetTuple row bp = do {
     (q, bp) \<leftarrow> FetchPage (sint (rid_page_id (rid row))) bp;
     case q of
       None \<Rightarrow> Some (False, row, bp)
     | Some f \<Rightarrow> do {
         pg \<leftarrow> page_at f bp;
         (_, row) \<leftarrow> TablePage_GetTuple (data pg) row;
         Some (True, row, bp) }}"

text \<open>The loop fetches the first page of the heap in every turn.\<close>

partial_function (option) free_loop :: "int \<Rightarrow> int \<Rightarrow> BufferPoolManager \<Rightarrow> BufferPoolManager option" where
  "free_loop first cur bp =
     (if cur = INVALID_PAGE_ID then Some bp else do {
     (q, bp) \<leftarrow> FetchPage first bp;
     f \<leftarrow> q;
     pg \<leftarrow> page_at f bp;
     nxt \<leftarrow> GetNextPageId (data pg);
     (_, bp) \<leftarrow> UnpinPage cur False bp;
     (_, bp) \<leftarrow> DeletePage cur bp;
     free_loop first (sint nxt) bp })"

definition FreeHeap :: "TableHeap \<Rightarrow> BufferPoolManager \<Rightarrow> BufferPoolManager option" where
  "FreeHeap hp bp = free_loop (first_page_id hp) (first_page_id hp) bp"

subsection \<open>Iteration\<close>

text \<open>An iterator is its row; with the row id of \<open>End\<close> the row is not read.\<close>

definition TableIterator_init :: "RowId \<Rightarrow> BufferPoolManager \<Rightarrow> (Row \<times> BufferPoolManager) option" where
  "TableIterator_init r bp = (if sint (rid_page_id r) \<noteq> INVALID_PAGE_ID
     then do { (_, row, bp) \<leftarrow> TableHeap_GetTuple (Row_of_rid r) bp; Some (row, bp) }
     else Some (Row_of_rid r, bp))"

partial_function (option) begin_loop :: "int \<Rightarrow> RowId \<Rightarrow> BufferPoolManager \<Rightarrow> (RowId \<times> BufferPoolManager) option" where
  "begin_loop pageId first_rid bp =
     (if pageId = INVALID_PAGE_ID then Some (first_rid, bp) else do {
     (q, bp) \<leftarrow> FetchPage pageId bp;
     f \<leftarrow> q;
     pg \<leftarrow> page_at f bp;
     (found, first_rid) \<leftarrow> GetFirstTupleRid (data pg);
     (_, bp) \<leftarrow> UnpinPage (page_id pg) False bp;
     if found then Some (first_rid, bp) else do {
     pg \<leftarrow> page_at f bp;
     nxt \<leftarrow> GetNextPageId (data pg);
     begin_loop (sint nxt) first_rid bp }})"

definition TableHeap_Begin :: "TableHeap \<Rightarrow> BufferPoolManager \<Rightarrow> (Row \<times> BufferPoolManager) option" where
  "TableHeap_Begin hp bp = do {
     (first_rid, bp) \<leftarrow> begin_loop (first_page_id hp) INVALID_ROWID bp;
     TableIterator_init first_rid bp }"

text \<open>The loop over the following pages; \<open>cur_Page\<close> in frame \<open>f\<close> is left on the page before the one with the row.\<close>

partial_function (option) next_loop :: "nat \<Rightarrow> RowId \<Rightarrow> BufferPoolManager \<Rightarrow> (RowId \<times> BufferPoolManager \<times> nat) option" where
  "next_loop f rowId_next bp = do {
     pg \<leftarrow> page_at f bp;
     nxt \<leftarrow> GetNextPageId (data pg);
     if sint nxt = INVALID_PAGE_ID then Some (rowId_next, bp, f) else do {
     (q, bp) \<leftarrow> FetchPage (sint nxt) bp;
     g \<leftarrow> q;
     pg \<leftarrow> page_at f bp;
     (_, bp) \<leftarrow> UnpinPage (page_id pg) False bp;
     npg \<leftarrow> page_at g bp;
     (found, rowId_next) \<leftarrow> GetFirstTupleRid (data npg);
     if found then Some (rowId_next, bp, f) else next_loop g rowId_next bp }}"

definition TableIterator_next :: "Row \<Rightarrow> BufferPoolManager \<Rightarrow> (Row \<times> BufferPoolManager) option" where
  "TableIterator_next row bp = do {
     (q, bp) \<leftarrow> FetchPage (sint (rid_page_id (rid row))) bp;
     f \<leftarrow> q;
     pg \<leftarrow> page_at f bp;
     (flag, rowId_next) \<leftarrow> GetNextTupleRid (data pg) (rid row);
     (rowId_next, bp, f) \<leftarrow> (if \<not> flag then next_loop f rowId_next bp else Some (rowId_next, bp, f));
     let row = row\<lparr>rid := rowId_next\<rparr>;
     (row, bp) \<leftarrow> (if rid row \<noteq> INVALID_ROWID then do { (_, row, bp) \<leftarrow> TableHeap_GetTuple row bp; Some (row, bp) } else Some (row, bp));
     pg \<leftarrow> page_at f bp;
     (_, bp) \<leftarrow> UnpinPage (page_id pg) False bp;
     Some (row, bp) }"

text \<open>
  The loop \<open>for (it = Begin(); it != End(); ++it)\<close> with which the execution engine reads a table; its value is
  the list of the rows it has visited.
\<close>

partial_function (option) scan_loop :: "Row \<Rightarrow> BufferPoolManager \<Rightarrow> (Row list \<times> BufferPoolManager) option" where
  "scan_loop row bp =
     (if rid row = INVALID_ROWID then Some ([], bp) else do {
     (row', bp) \<leftarrow> TableIterator_next row bp;
     (rows, bp) \<leftarrow> scan_loop row' bp;
     Some (row # rows, bp) })"

definition scan :: "TableHeap \<Rightarrow> BufferPoolManager \<Rightarrow> (Row list \<times> BufferPoolManager) option" where
  "scan hp bp = do { (row, bp) \<leftarrow> TableHeap_Begin hp bp; scan_loop row bp }"

section \<open>Chains of pages\<close>

text \<open>
  A segment of the list of pages with the slots they hold, between the ids \<open>v\<close> and \<open>x\<close> of the pages around
  it, in contents \<open>M\<close>.
\<close>

definition head_id :: "(int \<times> slot list) list \<Rightarrow> int \<Rightarrow> int" where
  "head_id ch x = (if ch = [] then x else fst (hd ch))"

fun segment :: "(int \<Rightarrow> page) \<Rightarrow> int \<Rightarrow> (int \<times> slot list) list \<Rightarrow> int \<Rightarrow> bool" where
  "segment M v [] x = True"
| "segment M v ((p, S) # ch) x = (page_holds (M p) (id_word p, id_word v, id_word (head_id ch x)) S \<and> segment M p ch x)"

definition last_id :: "int \<Rightarrow> (int \<times> slot list) list \<Rightarrow> int" where
  "last_id v ch = (if ch = [] then v else fst (last ch))"

lemma head_id_simps [simp]: "head_id [] x = x" "head_id ((p, S) # ch) x = p"
  by (simp_all add: head_id_def)

lemma last_id_simps [simp]: "last_id v [] = v" "last_id v ((p, S) # ch) = last_id p ch"
  by (simp_all add: last_id_def)

lemma head_id_append [simp]: "head_id (a @ b) x = head_id a (head_id b x)"
  by (simp add: head_id_def)

lemma segment_append: "segment M v (a @ b) x \<longleftrightarrow> segment M v a (head_id b x) \<and> segment M (last_id v a) b x"
  by (induction a arbitrary: v) auto

lemma segment_cong: "\<forall>p\<in>fst ` set ch. M' p = M p \<Longrightarrow> segment M' v ch x = segment M v ch x"
  by (induction ch arbitrary: v) auto

lemma segment_upd: "p \<notin> fst ` set ch \<Longrightarrow> segment (M(p := d)) v ch x = segment M v ch x"
  by (induction ch arbitrary: v) auto

text \<open>A page of the chain gets new slots.\<close>

lemma segment_update:
  assumes "segment M v (a @ (p, S) # b) x" "distinct (map fst (a @ (p, S) # b))"
    "page_holds d (id_word p, id_word (last_id v a), id_word (head_id b x)) S'"
  shows "segment (M(p := d)) v (a @ (p, S') # b) x"
proof -
  have "segment (M(p := d)) v a p = segment M v a p" "segment (M(p := d)) p b x = segment M p b x"
    using assms(2) by (auto simp: segment_upd)
  then show ?thesis using assms(1,3) by (simp add: segment_append)
qed

text \<open>A page is linked to the end.\<close>

lemma segment_extend:
  assumes "segment M v (a @ [(p, S)]) x" "distinct (map fst (a @ [(p, S)]))" "q \<notin> fst ` set (a @ [(p, S)])"
    "page_holds d (id_word p, id_word (last_id v a), id_word q) S" "page_holds d' (id_word q, id_word p, id_word x) T"
  shows "segment (M(p := d, q := d')) v (a @ [(p, S), (q, T)]) x"
proof -
  have "segment (M(p := d, q := d')) v a p = segment M v a p" using assms(2,3) by (auto simp: segment_upd)
  then show ?thesis using assms by (simp add: segment_append)
qed

lemma page_holds_facts:
  assumes "page_holds d (i, v, x) S"
  shows "length d = 4096" "GetTablePageId d = Some i" "GetPrevPageId d = Some v" "GetNextPageId d = Some x"
    "\<exists>d'. SetNextPageId d y = Some d' \<and> page_holds d' (i, v, y) S"
proof -
  obtain r b where r: "d = page_bytes r" "(i, v, x) = (page_id_part r, prev_part r, next_part r)" "page_inv r b S"
    using assms by (auto simp: page_holds_def)
  then show "length d = 4096" "GetTablePageId d = Some i" "GetPrevPageId d = Some v" "GetNextPageId d = Some x"
    by (auto simp: page_inv_def)
  have "page_inv (r\<lparr>next_part := y\<rparr>) b S" using r(3) by (simp add: page_inv_def)
  then show "\<exists>d'. SetNextPageId d y = Some d' \<and> page_holds d' (i, v, y) S" using r(1,2) by (auto intro: page_holdsI)
qed

section \<open>Insertion\<close>

lemma insert_loop_fits:
  assumes "pool_at bp A M W pins" "pins p = Some f" "page_holds (M p) (i, v, x) S" "row_ok row"
    "tuple_length (row_fields row) + 8 \<le> free_space S"
  shows "\<exists>bp' d. insert_loop row f bp = Some (True, row\<lparr>rid := \<lparr>rid_page_id = i, slot_num = of_nat (first_empty S)\<rparr>\<rparr>, bp', f)
    \<and> pool_at bp' A (M(p := d)) (insert p W) pins \<and> pool_size bp' = pool_size bp
    \<and> page_holds d (i, v, x) (insert_slot S (row_fields row))"
proof -
  note P = pinned_page [OF assms(1,2)]
  obtain d where d: "TablePage_InsertTuple (M p) row = Some (True, d, row\<lparr>rid := \<lparr>rid_page_id = i, slot_num = of_nat (first_empty S)\<rparr>\<rparr>)"
    "page_holds d (i, v, x) (insert_slot S (row_fields row))" using Insert_holds [OF assms(3-5)] by blast
  obtain bp' where w: "write_frame f d bp = Some bp'" "pool_at bp' A (M(p := d)) (insert p W) pins" "pool_size bp' = pool_size bp"
    using write_frame_at [OF assms(1,2) page_holds_facts(1) [OF d(2)]] by blast
  have "insert_loop row f bp = Some (True, row\<lparr>rid := \<lparr>rid_page_id = i, slot_num = of_nat (first_empty S)\<rparr>\<rparr>, bp', f)"
    using P(1,2) d(1) w(1) by (subst insert_loop.simps) simp
  then show ?thesis using w(2,3) d(2) by blast
qed

text \<open>Insertion on the list of pages, where \<open>q\<close> is the page added when none has room.\<close>

fun chain_insert :: "(int \<times> slot list) list \<Rightarrow> Field list \<Rightarrow> int \<Rightarrow> (int \<times> slot list) list \<times> int \<times> nat" where
  "chain_insert [] fs q = ([(q, [Present fs])], q, 0)"
| "chain_insert ((p, S) # ch) fs q = (if tuple_length fs + 8 \<le> free_space S then ((p, insert_slot S fs) # ch, p, first_empty S)
     else (let (ch', p', k) = chain_insert ch fs q in ((p, S) # ch', p', k)))"

definition chain_at :: "(int \<Rightarrow> page) \<Rightarrow> int set \<Rightarrow> (int \<times> slot list) list \<Rightarrow> bool" where
  "chain_at M A ch \<longleftrightarrow> segment M (- 1) ch (- 1) \<and> distinct (map fst ch) \<and> fst ` set ch \<subseteq> A"

lemma empty_page_room: "tuple_length fs \<le> 4064 \<Longrightarrow> tuple_length fs + 8 \<le> free_space []"
  by (simp add: free_space_def)

lemma small_insert_slot: "insert_slot [] fs = [Present fs]" "first_empty [] = 0"
  by (simp_all add: insert_slot_def first_empty_def)

text \<open>The last page is full: a new page is linked behind it and takes the row.\<close>

lemma insert_loop_new:
  assumes "pool_at bp A M {} pins" "pins p = Some f" "chain_at M A (a @ [(p, S)])" "row_ok row"
    "free_space S < tuple_length (row_fields row) + 8" "tuple_length (row_fields row) \<le> 4064" "card A < 32704"
    "finite (dom pins)" "card (dom pins) < pool_size bp"
  shows "\<exists>q bp' M' pins' g. insert_loop row f bp = Some (True, row\<lparr>rid := \<lparr>rid_page_id = id_word q, slot_num = 0\<rparr>\<rparr>, bp', g)
    \<and> q \<notin> A \<and> pool_at bp' (insert q A) M' {q} pins' \<and> pool_size bp' = pool_size bp \<and> pins' q = Some g
    \<and> dom pins' \<subseteq> insert q (dom pins - {p}) \<and> chain_at M' (insert q A) (a @ [(p, S), (q, [Present (row_fields row)])])
    \<and> (\<forall>y\<in>A - fst ` set (a @ [(p, S)]). M' y = M y)"
proof -
  note P = pinned_page [OF assms(1,2)]
  let ?v = "id_word (last_id (- 1) a) :: u32"
  have h: "page_holds (M p) (id_word p, ?v, - 1) S" using assms(3) by (simp add: chain_at_def segment_append)
  note H = page_holds_facts [OF h]
  have sp: "sint (id_word p :: u32) = p" using sint_id_at [OF assms(1) P(4)] by simp
  obtain q g bp1 where n: "NewPage bp = Some (Some (q, g), bp1)" "q \<notin> A" "pool_size bp1 = pool_size bp"
    "pool_at bp1 (insert q A) (M(q := zero_page)) {q} (pins(q := Some g))"
    using pool_new [OF assms(1,7,8,9)] by auto
  have qp: "q \<noteq> p" using n(2) P(4) by auto
  have pp: "(pins(q := Some g)) p = Some f" using qp assms(2) by simp
  note P1 = pinned_page [OF n(4) pp]
  obtain d where d: "SetNextPageId (M p) (id_word q) = Some d" "page_holds d (id_word p, ?v, id_word q) S" using H(5) by blast
  obtain bp2 where b2: "write_frame f d bp1 = Some bp2" "pool_at bp2 (insert q A) ((M(q := zero_page))(p := d)) (insert p {q}) (pins(q := Some g))"
    "pool_size bp2 = pool_size bp1" using write_frame_at [OF n(4) pp page_holds_facts(1) [OF d(2)]] by blast
  have qq: "(pins(q := Some g)) q = Some g" by simp
  note P2 = pinned_page [OF b2(2) qq]
  obtain d' where d': "TablePage_Init zero_page (id_word q) (id_word p) = Some d'" "page_holds d' (id_word q, id_word p, - 1) []"
    using Init_holds [of zero_page] by auto
  obtain bp3 where b3: "write_frame g d' bp2 = Some bp3"
    "pool_at bp3 (insert q A) ((M(q := zero_page))(p := d, q := d')) (insert q (insert p {q})) (pins(q := Some g))" "pool_size bp3 = pool_size bp2"
    using write_frame_at [OF b2(2) qq page_holds_facts(1) [OF d'(2)]] by blast
  obtain c bp4 where b4: "UnpinPage p True bp3 = Some (c, bp4)"
    "pool_at bp4 (insert q A) ((M(q := zero_page))(p := d, q := d')) (insert q (insert p {q}) - {p}) ((pins(q := Some g))(p := None))"
    "pool_size bp4 = pool_size bp3" using pool_unpin [OF b3(2), of True p] by auto
  have W: "insert q (insert q (insert p {q}) - {p}) = {q}" using qp by auto
  have m4: "((M(q := zero_page))(p := d, q := d')) q = d'" "((pins(q := Some g))(p := None)) q = Some g" using qp by auto
  have h4: "page_holds (((M(q := zero_page))(p := d, q := d')) q) (id_word q, id_word p, - 1) []" using d'(2) m4(1) by simp
  obtain bp' e where i: "insert_loop row g bp4 = Some (True, row\<lparr>rid := \<lparr>rid_page_id = id_word q, slot_num = 0\<rparr>\<rparr>, bp', g)"
    "pool_at bp' (insert q A) ((M(q := zero_page))(p := d, q := d', q := e)) {q} ((pins(q := Some g))(p := None))" "pool_size bp' = pool_size bp4"
    "page_holds e (id_word q, id_word p, - 1) [Present (row_fields row)]"
    using insert_loop_fits [OF b4(2) m4(2) h4 assms(4) empty_page_room [OF assms(6)]] unfolding W small_insert_slot semiring_1_class.of_nat_0 by blast
  let ?M = "(M(q := zero_page))(p := d, q := d', q := e)" and ?pins = "(pins(q := Some g))(p := None)"
  have "insert_loop row f bp = insert_loop row g bp4"
    using P(1,2) Insert_full [OF h assms(4,5)] rewrite_frame [OF assms(1,2)] H(2,4) sp n(1) P1(1,2) qp d(1) b2(1) P2(1,2)
      page_holds_facts(2) [OF d(2)] d'(1) b3(1) b4(1)
    by (subst insert_loop.simps) simp
  then have r: "insert_loop row f bp = Some (True, row\<lparr>rid := \<lparr>rid_page_id = id_word q, slot_num = 0\<rparr>\<rparr>, bp', g)" using i(1) by simp
  have ch: "chain_at ((M(q := zero_page))(p := d, q := d', q := e)) (insert q A) (a @ [(p, S), (q, [Present (row_fields row)])])"
  proof -
    have c: "segment M (- 1) (a @ [(p, S)]) (- 1)" "distinct (map fst (a @ [(p, S)]))" "q \<notin> fst ` set (a @ [(p, S)])" "fst ` set (a @ [(p, S)]) \<subseteq> A"
      using assms(3) n(2) by (auto simp: chain_at_def)
    have e: "(M(q := zero_page))(p := d, q := d', q := e) = M(p := d, q := e)" using qp by auto
    have "segment (M(p := d, q := e)) (- 1) (a @ [(p, S), (q, [Present (row_fields row)])]) (- 1)"
      using segment_extend [OF c(1-3) d(2), of e] i(4) by simp
    then show ?thesis unfolding e using c by (auto simp: chain_at_def)
  qed
  have "dom ?pins \<subseteq> insert q (dom pins - {p})" by auto
  moreover have "\<forall>y\<in>A - fst ` set (a @ [(p, S)]). ?M y = M y" using n(2) by auto
  moreover have "pool_size bp' = pool_size bp" using i(3) n(3) b2(3) b3(3) b4(3) by simp
  ultimately show ?thesis using r n(2) i(2) m4(2) ch
    by (intro exI [of _ q] exI [of _ bp'] exI [of _ ?M] exI [of _ ?pins] exI [of _ g]) blast
qed

text \<open>The row fits into the page the loop is at.\<close>

lemma insert_loop_here:
  assumes "pool_at bp A M {} pins" "pins p = Some f" "chain_at M A (a @ (p, S) # ch)" "row_ok row"
    "tuple_length (row_fields row) + 8 \<le> free_space S"
  shows "\<exists>bp' M'. insert_loop row f bp = Some (True, row\<lparr>rid := \<lparr>rid_page_id = id_word p, slot_num = of_nat (first_empty S)\<rparr>\<rparr>, bp', f)
    \<and> pool_at bp' A M' {p} pins \<and> chain_at M' A (a @ (p, insert_slot S (row_fields row)) # ch) \<and> pool_size bp' = pool_size bp
    \<and> (\<forall>y\<in>A - fst ` set (a @ (p, S) # ch). M' y = M y)"
proof -
  have h: "page_holds (M p) (id_word p, id_word (last_id (- 1) a), id_word (head_id ch (- 1))) S"
    and c: "segment M (- 1) (a @ (p, S) # ch) (- 1)" "distinct (map fst (a @ (p, S) # ch))" "fst ` set (a @ (p, S) # ch) \<subseteq> A"
    using assms(3) by (auto simp: chain_at_def segment_append)
  obtain bp' d where i: "insert_loop row f bp = Some (True, row\<lparr>rid := \<lparr>rid_page_id = id_word p, slot_num = of_nat (first_empty S)\<rparr>\<rparr>, bp', f)"
    "pool_at bp' A (M(p := d)) {p} pins" "pool_size bp' = pool_size bp"
    "page_holds d (id_word p, id_word (last_id (- 1) a), id_word (head_id ch (- 1))) (insert_slot S (row_fields row))"
    using insert_loop_fits [OF assms(1,2) h assms(4,5)] by blast
  have "chain_at (M(p := d)) A (a @ (p, insert_slot S (row_fields row)) # ch)"
    using segment_update [OF c(1,2) i(4)] c(2,3) by (simp add: chain_at_def)
  moreover have "\<forall>y\<in>A - fst ` set (a @ (p, S) # ch). (M(p := d)) y = M y" by auto
  ultimately show ?thesis using i(1-3) by blast
qed

text \<open>It does not fit and there is a page behind: the loop moves on.\<close>

lemma insert_loop_moves:
  assumes "pool_at bp A M {} pins" "pins p = Some f" "chain_at M A (a @ (p, S) # (x, T) # ch)" "row_ok row"
    "free_space S < tuple_length (row_fields row) + 8" "finite D" "dom pins \<subseteq> insert p D" "card D + 2 \<le> pool_size bp"
  shows "\<exists>bp' pins' g. insert_loop row f bp = insert_loop row g bp' \<and> pool_at bp' A M {} pins' \<and> pins' x = Some g
    \<and> dom pins' \<subseteq> insert x D \<and> pool_size bp' = pool_size bp"
proof -
  note P = pinned_page [OF assms(1,2)]
  have h: "page_holds (M p) (id_word p, id_word (last_id (- 1) a), id_word x) S" and x: "x \<in> A"
    using assms(3) by (auto simp: chain_at_def segment_append)
  note H = page_holds_facts [OF h]
  have sp: "sint (id_word p :: u32) = p" using sint_id_at [OF assms(1) P(4)] by simp
  have sx: "sint (id_word x :: u32) = x" "x \<noteq> - 1" using sint_id_at [OF assms(1) x] by auto
  obtain c bp1 where u: "UnpinPage p False bp = Some (c, bp1)" "pool_at bp1 A M {} (pins(p := None))" "pool_size bp1 = pool_size bp"
    using pool_unpin [OF assms(1), of False p] by auto
  have D: "dom (pins(p := None)) \<subseteq> D" using assms(7) by auto
  have "card (dom (pins(p := None))) \<le> card D" by (rule card_mono [OF assms(6) D])
  then have fr: "card (dom (pins(p := None))) < pool_size bp1" using assms(8) u(3) by simp
  obtain g bp2 where f: "FetchPage x bp1 = Some (Some g, bp2)" "pool_at bp2 A M {} ((pins(p := None))(x := Some g))" "pool_size bp2 = pool_size bp1"
    using pool_fetch [OF u(2) x finite_subset [OF D assms(6)]] fr by blast
  have "insert_loop row f bp = insert_loop row g bp2"
    using P(1,2) Insert_full [OF h assms(4,5)] rewrite_frame [OF assms(1,2)] H(2,4) sp sx u(1) f(1)
    by (subst insert_loop.simps) simp
  moreover have "dom ((pins(p := None))(x := Some g)) \<subseteq> insert x D" using D by auto
  ultimately show ?thesis using f(2,3) u(3) by (intro exI [of _ bp2] exI [of _ "(pins(p := None))(x := Some g)"] exI [of _ g]) simp
qed

lemma insert_loop_ok:
  assumes "pool_at bp A M {} pins" "pins p = Some f" "chain_at M A (a @ (p, S) # ch)" "row_ok row"
    "tuple_length (row_fields row) \<le> 4064" "card A < 32704" "finite D" "dom pins \<subseteq> insert p D" "card D + 2 \<le> pool_size bp"
  shows "\<exists>q bp' A' M' pins' g ch' p' k. chain_insert ((p, S) # ch) (row_fields row) q = (ch', p', k) \<and> q \<notin> A
    \<and> insert_loop row f bp = Some (True, row\<lparr>rid := \<lparr>rid_page_id = id_word p', slot_num = of_nat k\<rparr>\<rparr>, bp', g)
    \<and> pool_at bp' A' M' {p'} pins' \<and> pins' p' = Some g \<and> dom pins' \<subseteq> insert p' D \<and> chain_at M' A' (a @ ch')
    \<and> pool_size bp' = pool_size bp \<and> A \<subseteq> A' \<and> A' \<subseteq> insert q A \<and> (\<forall>y\<in>A - fst ` set (a @ (p, S) # ch). M' y = M y)"
  using assms
proof (induction ch arbitrary: a p S f bp pins)
  case Nil
  show ?case
  proof (cases "tuple_length (row_fields row) + 8 \<le> free_space S")
    case True
    obtain bp' M' where "insert_loop row f bp = Some (True, row\<lparr>rid := \<lparr>rid_page_id = id_word p, slot_num = of_nat (first_empty S)\<rparr>\<rparr>, bp', f)"
      "pool_at bp' A M' {p} pins" "chain_at M' A (a @ [(p, insert_slot S (row_fields row))])" "pool_size bp' = pool_size bp"
      "\<forall>y\<in>A - fst ` set (a @ [(p, S)]). M' y = M y" using insert_loop_here [OF Nil.prems(1-4) True] by blast
    then show ?thesis using True Nil.prems(2,8) minus_one_free [OF Nil.prems(1)]
      by (intro exI [of _ "- 1"] exI [of _ bp'] exI [of _ A] exI [of _ M'] exI [of _ pins] exI [of _ f]) auto
  next
    case False
    have "card (dom pins) \<le> card (insert p D)" using Nil.prems(7,8) by (intro card_mono) auto
    also have "\<dots> \<le> card D + 1" using Nil.prems(7) by (simp add: card_insert_if)
    finally have fr: "card (dom pins) < pool_size bp" using Nil.prems(9) by simp
    have fin: "finite (dom pins)" using Nil.prems(7,8) finite_subset by blast
    have full: "free_space S < tuple_length (row_fields row) + 8" using False by simp
    obtain q bp' M' pins' g where n: "insert_loop row f bp = Some (True, row\<lparr>rid := \<lparr>rid_page_id = id_word q, slot_num = 0\<rparr>\<rparr>, bp', g)"
      "q \<notin> A" "pool_at bp' (insert q A) M' {q} pins'" "pool_size bp' = pool_size bp" "pins' q = Some g" "dom pins' \<subseteq> insert q (dom pins - {p})"
      "chain_at M' (insert q A) (a @ [(p, S), (q, [Present (row_fields row)])])" "\<forall>y\<in>A - fst ` set (a @ [(p, S)]). M' y = M y"
      using insert_loop_new [OF Nil.prems(1-4) full Nil.prems(5,6) fin fr] by blast
    have "dom pins' \<subseteq> insert q D" using n(6) Nil.prems(8) by auto
    then show ?thesis using n False
      by (intro exI [of _ q] exI [of _ bp'] exI [of _ "insert q A"] exI [of _ M'] exI [of _ pins'] exI [of _ g]
          exI [of _ "[(p, S), (q, [Present (row_fields row)])]"] exI [of _ q] exI [of _ 0]) auto
  qed
next
  case (Cons c ch)
  obtain x T where c: "c = (x, T)" by (cases c)
  show ?case
  proof (cases "tuple_length (row_fields row) + 8 \<le> free_space S")
    case True
    obtain bp' M' where "insert_loop row f bp = Some (True, row\<lparr>rid := \<lparr>rid_page_id = id_word p, slot_num = of_nat (first_empty S)\<rparr>\<rparr>, bp', f)"
      "pool_at bp' A M' {p} pins" "chain_at M' A (a @ (p, insert_slot S (row_fields row)) # c # ch)" "pool_size bp' = pool_size bp"
      "\<forall>y\<in>A - fst ` set (a @ (p, S) # c # ch). M' y = M y" using insert_loop_here [OF Cons.prems(1-4) True] by blast
    then show ?thesis using True Cons.prems(2,8) minus_one_free [OF Cons.prems(1)]
      by (intro exI [of _ "- 1"] exI [of _ bp'] exI [of _ A] exI [of _ M'] exI [of _ pins] exI [of _ f]) auto
  next
    case False
    have full: "free_space S < tuple_length (row_fields row) + 8" using False by simp
    obtain bp1 pins1 g1 where m: "insert_loop row f bp = insert_loop row g1 bp1" "pool_at bp1 A M {} pins1" "pins1 x = Some g1"
      "dom pins1 \<subseteq> insert x D" "pool_size bp1 = pool_size bp"
      using insert_loop_moves [OF Cons.prems(1,2) Cons.prems(3) [unfolded c] Cons.prems(4) full Cons.prems(7-9)] by blast
    have ca: "chain_at M A ((a @ [(p, S)]) @ (x, T) # ch)" using Cons.prems(3) c by simp
    have sz: "card D + 2 \<le> pool_size bp1" using Cons.prems(9) m(5) by simp
    obtain q bp' A' M' pins' g ch' p' k where r: "chain_insert ((x, T) # ch) (row_fields row) q = (ch', p', k)" "q \<notin> A"
      "insert_loop row g1 bp1 = Some (True, row\<lparr>rid := \<lparr>rid_page_id = id_word p', slot_num = of_nat k\<rparr>\<rparr>, bp', g)"
      "pool_at bp' A' M' {p'} pins'" "pins' p' = Some g" "dom pins' \<subseteq> insert p' D" "chain_at M' A' ((a @ [(p, S)]) @ ch')"
      "pool_size bp' = pool_size bp1" "A \<subseteq> A'" "A' \<subseteq> insert q A" "\<forall>y\<in>A - fst ` set ((a @ [(p, S)]) @ (x, T) # ch). M' y = M y"
      using Cons.IH [OF m(2,3) ca Cons.prems(4-7) m(4) sz] by blast
    have "chain_insert ((p, S) # c # ch) (row_fields row) q = ((p, S) # ch', p', k)" using r(1) False c by simp
    moreover have "chain_at M' A' (a @ (p, S) # ch')" "\<forall>y\<in>A - fst ` set (a @ (p, S) # c # ch). M' y = M y" using r(7,11) c by simp_all
    moreover have "insert_loop row f bp = Some (True, row\<lparr>rid := \<lparr>rid_page_id = id_word p', slot_num = of_nat k\<rparr>\<rparr>, bp', g)"
      using m(1) r(3) by simp
    moreover have "pool_size bp' = pool_size bp" using r(8) m(5) by simp
    ultimately show ?thesis using r(2,4-6,9,10) by blast
  qed
qed

section \<open>The heap and what is read from it\<close>

text \<open>
  A heap at rest: its pages form the chain \<open>ch\<close>, nothing written is unreported, and only pages of \<open>D\<close> may
  still be pinned by earlier reads.
\<close>

definition heap_at :: "BufferPoolManager \<Rightarrow> int set \<Rightarrow> (int \<Rightarrow> page) \<Rightarrow> int set \<Rightarrow> TableHeap \<Rightarrow> (int \<times> slot list) list \<Rightarrow> bool" where
  "heap_at bp A M D hp ch \<longleftrightarrow> (\<exists>pins. pool_at bp A M {} pins \<and> dom pins \<subseteq> D) \<and> chain_at M A ch \<and> ch \<noteq> []
     \<and> first_page_id hp = fst (hd ch) \<and> insert_page_id hp \<in> fst ` set ch"

definition heap_read :: "(int \<times> slot list) list \<Rightarrow> RowId \<Rightarrow> Field list option" where
  "heap_read ch r = (case map_of ch (sint (rid_page_id r)) of None \<Rightarrow> None | Some S \<Rightarrow> read_slot S (unat (slot_num r)))"

lemma read_insert_slot: "read_slot (insert_slot S fs) j = (if j = first_empty S then Some (map field_read fs) else read_slot S j)"
  using first_empty_le [of S] by (auto simp: insert_slot_nth read_slot_def nth_append)

lemma read_first_empty: "read_slot S (first_empty S) = None"
  using first_empty_nth [of S] by (auto simp: read_slot_def)

lemma chain_insert_reads:
  assumes "chain_insert ch fs q = (ch', p', k)" "distinct (map fst ch)" "q \<notin> fst ` set ch"
  shows "(case map_of ch' x of None \<Rightarrow> None | Some S \<Rightarrow> read_slot S j)
    = (if x = p' \<and> j = k then Some (map field_read fs) else (case map_of ch x of None \<Rightarrow> None | Some S \<Rightarrow> read_slot S j))"
    "(case map_of ch p' of None \<Rightarrow> None | Some S \<Rightarrow> read_slot S k) = None"
    "p' \<in> fst ` set ch'" "fst ` set ch' \<subseteq> insert q (fst ` set ch)" "ch \<noteq> [] \<Longrightarrow> fst (hd ch') = fst (hd ch)" "p' \<in> insert q (fst ` set ch)"
    "ch' \<noteq> []"
proof -
  have "(\<forall>x j. (case map_of ch' x of None \<Rightarrow> None | Some S \<Rightarrow> read_slot S j)
      = (if x = p' \<and> j = k then Some (map field_read fs) else (case map_of ch x of None \<Rightarrow> None | Some S \<Rightarrow> read_slot S j)))
    \<and> (case map_of ch p' of None \<Rightarrow> None | Some S \<Rightarrow> read_slot S k) = None
    \<and> p' \<in> fst ` set ch' \<and> fst ` set ch' \<subseteq> insert q (fst ` set ch) \<and> (ch \<noteq> [] \<longrightarrow> fst (hd ch') = fst (hd ch)) \<and> p' \<in> insert q (fst ` set ch) \<and> ch' \<noteq> []"
    using assms
  proof (induction ch fs q arbitrary: ch' rule: chain_insert.induct)
    case (1 fs q)
    then show ?case by (auto simp: read_slot_def nth_Cons' split: if_splits)
  next
    case (2 p S ch fs q)
    show ?case
    proof (cases "tuple_length fs + 8 \<le> free_space S")
      case True
      then have "ch' = (p, insert_slot S fs) # ch" "p' = p" "k = first_empty S" using 2(2) by auto
      then show ?thesis by (auto simp: read_insert_slot read_first_empty)
    next
      case False
      obtain ch1 where c: "chain_insert ch fs q = (ch1, p', k)" "ch' = (p, S) # ch1"
        using 2(2) False by (auto simp: Let_def split: prod.splits)
      have q: "q \<notin> fst ` set ch" "distinct (map fst ch)" "p \<notin> fst ` set ch" "q \<noteq> p" using 2(3,4) by auto
      note ih = 2(1) [OF False c(1) q(2,1)]
      have "p' \<noteq> p" using ih q(3,4) by auto
      then show ?thesis using ih c(2) by auto
    qed
  qed
  then show "(case map_of ch' x of None \<Rightarrow> None | Some S \<Rightarrow> read_slot S j)
    = (if x = p' \<and> j = k then Some (map field_read fs) else (case map_of ch x of None \<Rightarrow> None | Some S \<Rightarrow> read_slot S j))"
    "(case map_of ch p' of None \<Rightarrow> None | Some S \<Rightarrow> read_slot S k) = None"
    "p' \<in> fst ` set ch'" "fst ` set ch' \<subseteq> insert q (fst ` set ch)" "ch \<noteq> [] \<Longrightarrow> fst (hd ch') = fst (hd ch)" "p' \<in> insert q (fst ` set ch)"
    "ch' \<noteq> []" by blast+
qed

lemma page_holds_count: "page_holds d h S \<Longrightarrow> 8 * length S \<le> 4072"
  using page_invD(1) by (fastforce simp: page_holds_def)

lemma chain_slots: "chain_at M A ch \<Longrightarrow> (p, S) \<in> set ch \<Longrightarrow> 8 * length S \<le> 4072 \<and> p \<in> A"
proof -
  assume c: "chain_at M A ch" and "(p, S) \<in> set ch"
  then obtain a b where "ch = a @ (p, S) # b" by (meson split_list)
  then show ?thesis using c page_holds_count by (fastforce simp: chain_at_def segment_append)
qed

lemma chain_insert_slot_bound:
  assumes "chain_insert ch fs q = (ch', p', k)" "distinct (map fst ch')" shows "\<exists>S. (p', S) \<in> set ch' \<and> k < length S"
  using assms
proof (induction ch fs q arbitrary: ch' rule: chain_insert.induct)
  case (2 p S ch fs q)
  show ?case
  proof (cases "tuple_length fs + 8 \<le> free_space S")
    case True
    then show ?thesis using 2(2) first_empty_le [of S] by (intro exI [of _ "insert_slot S fs"]) (auto simp: insert_slot_nth)
  next
    case False
    obtain ch1 where c: "chain_insert ch fs q = (ch1, p', k)" "ch' = (p, S) # ch1"
      using 2(2) False by (auto simp: Let_def split: prod.splits)
    then show ?thesis using 2(1) [OF False c(1)] 2(3) by auto
  qed
qed auto

lemma map_of_append_reads: "map_of (a @ b) x = (if x \<in> fst ` set a then map_of a x else map_of b x)"
proof (cases "map_of a x")
  case None
  then have "x \<notin> fst ` set a" by (simp add: map_of_eq_None_iff)
  then show ?thesis using None by (simp add: map_add_def)
next
  case (Some y)
  then have "x \<in> fst ` set a" by (metis map_of_eq_None_iff option.distinct(1))
  then show ?thesis using Some by simp
qed

text \<open>Insertion on the whole heap.\<close>

lemma heap_insert_ok:
  assumes "heap_at bp A M D hp ch" "row_ok row" "tuple_length (row_fields row) \<le> 4064" "card A < 32704"
    "finite D" "card D + 2 \<le> pool_size bp"
  shows "\<exists>row' hp' bp' A' M' ch'. TableHeap_InsertTuple hp row bp = Some (True, row', hp', bp')
    \<and> heap_at bp' A' M' D hp' ch' \<and> row_fields row' = row_fields row \<and> heap_read ch (rid row') = None
    \<and> (\<forall>r. heap_read ch' r = (if r = rid row' then Some (map field_read (row_fields row)) else heap_read ch r))
    \<and> (\<forall>y\<in>A - fst ` set ch. M' y = M y) \<and> pool_size bp' = pool_size bp"
proof -
  obtain pins where pins: "pool_at bp A M {} pins" "dom pins \<subseteq> D" and ca: "chain_at M A ch" and hp: "ch \<noteq> []" "first_page_id hp = fst (hd ch)"
    "insert_page_id hp \<in> fst ` set ch" using assms(1) by (auto simp: heap_at_def)
  define p where "p = insert_page_id hp"
  obtain S where "(p, S) \<in> set ch" using hp(3) by (auto simp: p_def)
  then obtain a b where ch: "ch = a @ (p, S) # b" by (meson split_list)
  have pA: "p \<in> A" using ca ch by (auto simp: chain_at_def)
  have "card (dom pins) \<le> card D" by (rule card_mono [OF assms(5) pins(2)])
  then have fr: "card (dom pins) < pool_size bp" using assms(6) by simp
  obtain f bp1 where f: "FetchPage p bp = Some (Some f, bp1)" "pool_at bp1 A M {} (pins(p := Some f))" "pool_size bp1 = pool_size bp"
    using pool_fetch [OF pins(1) pA finite_subset [OF pins(2) assms(5)]] fr by blast
  have d1: "dom (pins(p := Some f)) \<subseteq> insert p D" "(pins(p := Some f)) p = Some f" "card D + 2 \<le> pool_size bp1" using pins(2) assms(6) f(3) by auto
  obtain q bp2 A' M' pins' g ch' p' k where r: "chain_insert ((p, S) # b) (row_fields row) q = (ch', p', k)" "q \<notin> A"
    "insert_loop row f bp1 = Some (True, row\<lparr>rid := \<lparr>rid_page_id = id_word p', slot_num = of_nat k\<rparr>\<rparr>, bp2, g)"
    "pool_at bp2 A' M' {p'} pins'" "pins' p' = Some g" "dom pins' \<subseteq> insert p' D" "chain_at M' A' (a @ ch')" "pool_size bp2 = pool_size bp1"
    "\<forall>y\<in>A - fst ` set (a @ (p, S) # b). M' y = M y"
    using insert_loop_ok [OF f(2) d1(2) ca [unfolded ch] assms(2-5) d1(1,3)] by blast
  note P = pinned_page [OF r(4,5)]
  have dist: "distinct (map fst ((p, S) # b))" "q \<notin> fst ` set ((p, S) # b)" "distinct (map fst (a @ (p, S) # b))" "q \<notin> fst ` set a"
    "distinct (map fst (a @ ch'))" "fst ` set (a @ ch') \<subseteq> A'"
    using ca r(2,7) ch by (auto simp: chain_at_def)
  note R = chain_insert_reads [OF r(1) dist(1,2)]
  obtain S' where S': "(p', S') \<in> set ch'" "k < length S'" using chain_insert_slot_bound [OF r(1)] dist(5) by auto
  have k: "unat (of_nat k :: u32) = k" using chain_slots [OF r(7), of p' S'] S' by (intro unat_small32) auto
  have sp: "sint (id_word p' :: u32) = p'" using sint_id_at [OF r(4) P(4)] by simp
  obtain h v x where "page_holds (M' p') (id_word p', v, x) S'"
  proof -
    have "(p', S') \<in> set (a @ ch')" using S'(1) by simp
    then obtain a1 b1 where "a @ ch' = a1 @ (p', S') # b1" by (meson split_list)
    then show thesis using that r(7) by (auto simp: chain_at_def segment_append)
  qed
  then have id: "GetTablePageId (M' p') = Some (id_word p')" by (rule page_holds_facts(2))
  obtain c bp3 where u: "UnpinPage p' True bp2 = Some (c, bp3)" "pool_at bp3 A' M' {} (pins'(p' := None))" "pool_size bp3 = pool_size bp2"
    using pool_unpin [OF r(4), of True p'] by auto
  let ?row = "row\<lparr>rid := \<lparr>rid_page_id = id_word p', slot_num = of_nat k\<rparr>\<rparr>" and ?hp = "hp\<lparr>insert_page_id := p'\<rparr>"
  have ins: "TableHeap_InsertTuple hp row bp = Some (True, ?row, ?hp, bp3)"
    using f(1) r(3) P(1,2,3) id sp u(1) by (simp add: TableHeap_InsertTuple_def p_def)
  have pa: "p' \<notin> fst ` set a" using R(6) dist(3,4) by auto
  have "fst (hd (a @ ch')) = fst (hd ch)" using R(5,7) ch by (cases a) auto
  moreover have "dom (pins'(p' := None)) \<subseteq> D" using r(6) by auto
  then have "\<exists>pins. pool_at bp3 A' M' {} pins \<and> dom pins \<subseteq> D" using u(2) by blast
  ultimately have "heap_at bp3 A' M' D ?hp (a @ ch')" using r(7) R(3,7) hp(2) by (auto simp: heap_at_def)
  moreover have "heap_read ch (rid ?row) = None" using R(2) pa k sp by (simp add: heap_read_def ch map_of_append_reads del: map_of_append cong: option.case_cong)
  moreover have "heap_read (a @ ch') s = (if s = rid ?row then Some (map field_read (row_fields row)) else heap_read ch s)" for s
  proof -
    have e: "s = rid ?row \<longleftrightarrow> sint (rid_page_id s) = p' \<and> unat (slot_num s) = k"
    proof
      assume "sint (rid_page_id s) = p' \<and> unat (slot_num s) = k"
      then have "rid_page_id s = id_word p'" "slot_num s = of_nat k" using sp by (auto intro: signed_word_eqI)
      then show "s = rid ?row" by (cases s) simp
    qed (use sp k in simp)
    show ?thesis
    proof (cases "sint (rid_page_id s) \<in> fst ` set a")
      case True
      then have "s \<noteq> rid ?row" using e pa by auto
      then show ?thesis using True by (simp add: heap_read_def ch map_of_append_reads del: map_of_append cong: option.case_cong)
    next
      case False
      then show ?thesis using R(1) [where x = "sint (rid_page_id s)" and j = "unat (slot_num s)"] e
        by (simp add: heap_read_def ch map_of_append_reads del: map_of_append cong: option.case_cong)
    qed
  qed
  ultimately show ?thesis using ins r(8,9) u(3) f(3) ch
    by (intro exI [of _ ?row] exI [of _ ?hp] exI [of _ bp3] exI [of _ A'] exI [of _ M'] exI [of _ "a @ ch'"]) simp
qed

section \<open>Operations on one page of the heap\<close>

lemma heap_page:
  assumes "heap_at bp A M D hp ch" "S = the (map_of ch p)" "p \<in> fst ` set ch"
  obtains a b where "ch = a @ (p, S) # b" "page_holds (M p) (id_word p, id_word (last_id (- 1) a), id_word (head_id b (- 1))) S"
    "map_of ch p = Some S" "p \<in> A" "sint (id_word p :: u32) = p" "p \<noteq> - 1" "p \<notin> fst ` set a" "p \<notin> fst ` set b"
proof -
  have c: "chain_at M A ch" and "\<exists>pins. pool_at bp A M {} pins" using assms(1) by (auto simp: heap_at_def)
  then obtain pins where pa: "pool_at bp A M {} pins" by blast
  obtain T where "map_of ch p = Some T" using assms(3) by (metis map_of_eq_None_iff not_None_eq)
  then have m: "map_of ch p = Some S" using assms(2) by simp
  obtain a b where ab: "ch = a @ (p, S) # b" "p \<notin> fst ` set a" using m
  proof -
    obtain a b where "ch = a @ (p, S) # b" using map_of_SomeD [OF m] by (meson split_list)
    then show thesis using that c by (auto simp: chain_at_def)
  qed
  moreover have "p \<in> A" using c ab(1) by (auto simp: chain_at_def)
  moreover have "p \<notin> fst ` set b" using c ab(1) by (auto simp: chain_at_def)
  ultimately show thesis using that c m sint_id_at [OF pa, of p] by (auto simp: chain_at_def segment_append)
qed

lemma heap_fetch:
  assumes "heap_at bp A M D hp ch" "p \<in> fst ` set ch" "finite D" "card D < pool_size bp"
  shows "\<exists>f bp1 pins. FetchPage p bp = Some (Some f, bp1) \<and> pool_at bp1 A M {} pins \<and> pins p = Some f \<and> dom pins \<subseteq> insert p D
    \<and> page_at f bp1 = Some (pages bp1 ! f) \<and> data (pages bp1 ! f) = M p \<and> page_id (pages bp1 ! f) = p \<and> pool_size bp1 = pool_size bp"
proof -
  obtain pins where pins: "pool_at bp A M {} pins" "dom pins \<subseteq> D" and c: "chain_at M A ch" using assms(1) by (auto simp: heap_at_def)
  have pA: "p \<in> A" using c assms(2) by (auto simp: chain_at_def)
  have "card (dom pins) \<le> card D" by (rule card_mono [OF assms(3) pins(2)])
  then have "card (dom pins) < pool_size bp" using assms(4) by simp
  then obtain f bp1 where f: "FetchPage p bp = Some (Some f, bp1)" "pool_at bp1 A M {} (pins(p := Some f))" "pool_size bp1 = pool_size bp"
    using pool_fetch [OF pins(1) pA finite_subset [OF pins(2) assms(3)]] by blast
  then show ?thesis using pinned_page [OF f(2), of p f] pins(2) by (intro exI [of _ f] exI [of _ bp1] exI [of _ "pins(p := Some f)"]) auto
qed

text \<open>A page is replaced by one that holds other slots and unpinned as dirty.\<close>

lemma heap_store:
  assumes "heap_at bp A M D hp (a @ (p, S) # b)" "pool_at bp1 A M {} pins" "pins p = Some f" "dom pins \<subseteq> insert p D"
    "page_holds d (id_word p, id_word (last_id (- 1) a), id_word (head_id b (- 1))) S'"
  shows "\<exists>bp2 c bp3. write_frame f d bp1 = Some bp2 \<and> UnpinPage p True bp2 = Some (c, bp3)
    \<and> heap_at bp3 A (M(p := d)) D hp (a @ (p, S') # b) \<and> pool_size bp3 = pool_size bp1"
proof -
  have c: "segment M (- 1) (a @ (p, S) # b) (- 1)" "distinct (map fst (a @ (p, S) # b))" "fst ` set (a @ (p, S) # b) \<subseteq> A"
    and hp: "first_page_id hp = fst (hd (a @ (p, S) # b))" "insert_page_id hp \<in> fst ` set (a @ (p, S) # b)"
    using assms(1) by (auto simp: heap_at_def chain_at_def)
  obtain bp2 where w: "write_frame f d bp1 = Some bp2" "pool_at bp2 A (M(p := d)) {p} pins" "pool_size bp2 = pool_size bp1"
    using write_frame_at [OF assms(2,3) page_holds_facts(1) [OF assms(5)]] by blast
  obtain x bp3 where u: "UnpinPage p True bp2 = Some (x, bp3)" "pool_at bp3 A (M(p := d)) {} (pins(p := None))" "pool_size bp3 = pool_size bp2"
    using pool_unpin [OF w(2), of True p] by auto
  have "chain_at (M(p := d)) A (a @ (p, S') # b)" using segment_update [OF c(1,2) assms(5)] c(2,3) by (simp add: chain_at_def)
  moreover have "dom (pins(p := None)) \<subseteq> D" using assms(4) by auto
  then have "\<exists>pins. pool_at bp3 A (M(p := d)) {} pins \<and> dom pins \<subseteq> D" using u(2) by blast
  moreover have "fst (hd (a @ (p, S') # b)) = fst (hd (a @ (p, S) # b))" by (cases a) auto
  ultimately have "heap_at bp3 A (M(p := d)) D hp (a @ (p, S') # b)" using hp by (auto simp: heap_at_def)
  then show ?thesis using w(1,3) u(1,3) by auto
qed

lemma heap_read_page:
  assumes "p \<notin> fst ` set a"
  shows "heap_read (a @ (p, S) # b) r = (if sint (rid_page_id r) = p then read_slot S (unat (slot_num r)) else heap_read (a @ b) r)"
  using assms by (auto simp: heap_read_def map_of_append_reads simp del: map_of_append split: option.splits)

lemma read_other_slot: "j \<noteq> k \<Longrightarrow> read_slot (S[k := s]) j = read_slot S j"
  by (auto simp: read_slot_def)

lemma rid_eq: "r = s \<longleftrightarrow> sint (rid_page_id r) = sint (rid_page_id s) \<and> unat (slot_num r) = unat (slot_num (s :: RowId))"
proof
  assume a: "sint (rid_page_id r) = sint (rid_page_id s) \<and> unat (slot_num r) = unat (slot_num s)"
  then have "rid_page_id r = rid_page_id s" using signed_word_eqI by blast
  moreover have "slot_num r = slot_num s" using a by (simp add: word_unat_eq_iff)
  ultimately show "r = s" by (cases r; cases s) simp
qed simp

lemma read_slot_present: "read_slot S k = Some fs \<Longrightarrow> \<exists>gs. k < length S \<and> S ! k = Present gs \<and> fs = map field_read gs"
  by (auto simp: read_slot_def split: if_splits slot.splits)

text \<open>The slot of a row id, and the heap with that slot replaced.\<close>

definition slot_at :: "(int \<times> slot list) list \<Rightarrow> RowId \<Rightarrow> slot option" where
  "slot_at ch r = (case map_of ch (sint (rid_page_id r)) of None \<Rightarrow> None
     | Some S \<Rightarrow> if unat (slot_num r) < length S then Some (S ! unat (slot_num r)) else None)"

fun set_slot :: "(int \<times> slot list) list \<Rightarrow> RowId \<Rightarrow> slot \<Rightarrow> (int \<times> slot list) list" where
  "set_slot [] r x = []"
| "set_slot ((p, S) # ch) r x = (if p = sint (rid_page_id r) then (p, S[unat (slot_num r) := x]) # ch else (p, S) # set_slot ch r x)"

lemma set_slot_page: "p \<notin> fst ` set a \<Longrightarrow> p = sint (rid_page_id r) \<Longrightarrow> set_slot (a @ (p, S) # b) r x = a @ (p, S[unat (slot_num r) := x]) # b"
  by (induction a) auto

lemma map_of_set_slot:
  "map_of (set_slot ch r x) p = (if p = sint (rid_page_id r) then map_option (\<lambda>S. S[unat (slot_num r) := x]) (map_of ch p) else map_of ch p)"
  by (induction ch) auto

lemma set_slot_at: "slot_at ch r \<noteq> None \<Longrightarrow> slot_at (set_slot ch r x) r = Some x"
  by (auto simp: slot_at_def map_of_set_slot split: option.splits if_splits)

lemma set_slot_twice: "set_slot (set_slot ch r x) r y = set_slot ch r y"
  by (induction ch) auto

lemma set_slot_same: "slot_at ch r = Some x \<Longrightarrow> set_slot ch r x = ch"
  by (induction ch) (auto simp: slot_at_def split: if_splits)

lemma heap_read_set_slot:
  assumes "slot_at ch r \<noteq> None" "\<nexists>gs. x = Present gs"
  shows "heap_read (set_slot ch r x) s = (if s = r then None else heap_read ch s)"
  using assms rid_eq [of s r]
  by (auto simp: heap_read_def slot_at_def map_of_set_slot read_slot_def nth_list_update split: option.splits if_splits slot.splits)

text \<open>An operation of the table page that replaces the slot of a row, on the page of that row in the pool.\<close>

lemma heap_slot_step:
  assumes "heap_at bp A M D hp ch" "slot_at ch r = Some x" "finite D" "card D < pool_size bp"
    "\<forall>d h S. page_holds d h S \<and> unat (slot_num r) < length S \<and> S ! unat (slot_num r) = x
      \<longrightarrow> (\<exists>d'. f d = Some d' \<and> page_holds d' h (S[unat (slot_num r) := y]))"
  shows "\<exists>g bp0 pg d bpx i c bp'. FetchPage (sint (rid_page_id r)) bp = Some (Some g, bp0) \<and> page_at g bp0 = Some pg \<and> f (data pg) = Some d
    \<and> write_frame g d bp0 = Some bpx \<and> GetTablePageId d = Some i \<and> UnpinPage (sint i) True bpx = Some (c, bp')
    \<and> heap_at bp' A (M(sint (rid_page_id r) := d)) D hp (set_slot ch r y) \<and> pool_size bp' = pool_size bp"
proof -
  define p k where "p = sint (rid_page_id r)" and "k = unat (slot_num r)"
  obtain S where S: "map_of ch p = Some S" "k < length S" "S ! k = x" using assms(2) by (auto simp: slot_at_def p_def k_def split: option.splits if_splits)
  then have pc: "S = the (map_of ch p)" "p \<in> fst ` set ch" using map_of_SomeD by force+
  obtain a b where ab: "ch = a @ (p, S) # b" "page_holds (M p) (id_word p, id_word (last_id (- 1) a), id_word (head_id b (- 1))) S"
    "sint (id_word p :: u32) = p" "p \<notin> fst ` set a" using heap_page [OF assms(1) pc] by metis
  obtain g bp0 pins where g: "FetchPage p bp = Some (Some g, bp0)" "pool_at bp0 A M {} pins" "pins p = Some g" "dom pins \<subseteq> insert p D"
    "page_at g bp0 = Some (pages bp0 ! g)" "data (pages bp0 ! g) = M p" "pool_size bp0 = pool_size bp"
    using heap_fetch [OF assms(1) pc(2) assms(3,4)] by blast
  obtain d where d: "f (M p) = Some d" "page_holds d (id_word p, id_word (last_id (- 1) a), id_word (head_id b (- 1))) (S[k := y])"
    using assms(5) ab(2) S(2,3) unfolding k_def by blast
  obtain bpx c bp' where st: "write_frame g d bp0 = Some bpx" "UnpinPage p True bpx = Some (c, bp')"
    "heap_at bp' A (M(p := d)) D hp (a @ (p, S[k := y]) # b)" "pool_size bp' = pool_size bp0"
    using heap_store [OF assms(1) [unfolded ab(1)] g(2,3,4) d(2)] by blast
  have "set_slot ch r y = a @ (p, S[k := y]) # b" using ab(1,4) set_slot_page [of p a r S b y] by (simp add: p_def k_def)
  then show ?thesis using g(1,5-7) d(1) st page_holds_facts(2) [OF d(2)] ab(3) unfolding p_def [symmetric] by auto
qed

text \<open>
  C32: deleting a row of a table heap. \<open>MarkDelete\<close> of a row that can be read marks its slot as deleted, which hides it and no other row;
  after that \<open>RollbackDelete\<close> brings the heap back to the slots it had, while \<open>ApplyDelete\<close> makes the slot
  empty and leaves the other rows readable although it moves their bytes. Only the page of the row changes, and the heap stays
  well formed.
\<close>

theorem heap_delete_protocol:
  assumes "heap_at bp A M D hp ch" "heap_read ch r = Some fs" "finite D" "card D < pool_size bp"
  shows "\<exists>gs bp1 M1. slot_at ch r = Some (Present gs) \<and> TableHeap_MarkDelete r bp = Some (True, bp1)
    \<and> heap_at bp1 A M1 D hp (set_slot ch r (Deleted gs)) \<and> (\<forall>q. q \<noteq> sint (rid_page_id r) \<longrightarrow> M1 q = M q)
    \<and> (\<forall>s. heap_read (set_slot ch r (Deleted gs)) s = (if s = r then None else heap_read ch s))
    \<and> (\<exists>bp2 M2. TableHeap_RollbackDelete r bp1 = Some bp2 \<and> heap_at bp2 A M2 D hp ch \<and> (\<forall>q. q \<noteq> sint (rid_page_id r) \<longrightarrow> M2 q = M q))
    \<and> (\<exists>bp3 M3. TableHeap_ApplyDelete r bp1 = Some bp3 \<and> heap_at bp3 A M3 D hp (set_slot ch r Empty) \<and> (\<forall>q. q \<noteq> sint (rid_page_id r) \<longrightarrow> M3 q = M q)
      \<and> slot_at (set_slot ch r Empty) r = Some Empty \<and> (\<forall>s. heap_read (set_slot ch r Empty) s = (if s = r then None else heap_read ch s)))"
proof -
  let ?p = "sint (rid_page_id r)" and ?k = "unat (slot_num r)"
  obtain gs where gs: "slot_at ch r = Some (Present gs)"
    using assms(2) read_slot_present by (fastforce simp: heap_read_def slot_at_def split: option.splits)
  have mk: "\<forall>d h S. page_holds d h S \<and> ?k < length S \<and> S ! ?k = Present gs \<longrightarrow> (\<exists>d'. map_option snd (TablePage_MarkDelete d r) = Some d' \<and> page_holds d' h (S[?k := Deleted gs]))"
    using MarkDelete_holds [of _ _ _ r] by (fastforce simp: mark_slot_def rollback_slot_def apply_slot_def)
  obtain g bp0 pg d bpx i c bp1 where m: "FetchPage ?p bp = Some (Some g, bp0)" "page_at g bp0 = Some pg" "map_option snd (TablePage_MarkDelete (data pg) r) = Some d"
    "write_frame g d bp0 = Some bpx" "GetTablePageId d = Some i" "UnpinPage (sint i) True bpx = Some (c, bp1)"
    "heap_at bp1 A (M(?p := d)) D hp (set_slot ch r (Deleted gs))" "pool_size bp1 = pool_size bp"
    using heap_slot_step [where f = "\<lambda>d. map_option snd (TablePage_MarkDelete d r)", OF assms(1) gs assms(3,4) mk] by (elim exE conjE) (rule that)
  have md: "TableHeap_MarkDelete r bp = Some (True, bp1)" using m(1-6) by (auto simp: TableHeap_MarkDelete_def)
  have sl: "slot_at (set_slot ch r (Deleted gs)) r = Some (Deleted gs)" "card D < pool_size bp1" using gs set_slot_at assms(4) m(8) by auto
  have rb: "\<forall>d h S. page_holds d h S \<and> ?k < length S \<and> S ! ?k = Deleted gs \<longrightarrow> (\<exists>d'. TablePage_RollbackDelete d r = Some d' \<and> page_holds d' h (S[?k := Present gs]))"
    using RollbackDelete_holds [of _ _ _ r] by (fastforce simp: mark_slot_def rollback_slot_def apply_slot_def)
  have ap: "\<forall>d h S. page_holds d h S \<and> ?k < length S \<and> S ! ?k = Deleted gs \<longrightarrow> (\<exists>d'. TablePage_ApplyDelete d r = Some d' \<and> page_holds d' h (S[?k := Empty]))"
    using ApplyDelete_holds [of _ _ _ r] by (fastforce simp: mark_slot_def rollback_slot_def apply_slot_def)
  have "\<exists>bp2 M2. TableHeap_RollbackDelete r bp1 = Some bp2 \<and> heap_at bp2 A M2 D hp ch \<and> (\<forall>q. q \<noteq> ?p \<longrightarrow> M2 q = M q)"
    using heap_slot_step [where f = "\<lambda>d. TablePage_RollbackDelete d r", OF m(7) sl(1) assms(3) sl(2) rb] set_slot_same [OF gs] set_slot_twice [of ch r]
    by (fastforce simp: TableHeap_RollbackDelete_def)
  moreover have "\<exists>bp3 M3. TableHeap_ApplyDelete r bp1 = Some bp3 \<and> heap_at bp3 A M3 D hp (set_slot ch r Empty) \<and> (\<forall>q. q \<noteq> ?p \<longrightarrow> M3 q = M q)"
    using heap_slot_step [where f = "\<lambda>d. TablePage_ApplyDelete d r", OF m(7) sl(1) assms(3) sl(2) ap] set_slot_twice [of ch r]
    by (fastforce simp: TableHeap_ApplyDelete_def)
  ultimately show ?thesis using gs md m(7) set_slot_at [of ch r] heap_read_set_slot [of ch r]
    by (intro exI [of _ gs] exI [of _ bp1] exI [of _ "M(?p := d)"]) simp
qed

section \<open>Scanning\<close>

text \<open>The rows of a chain in the order of the iterator: page by page and slot by slot.\<close>

definition page_rows :: "slot list \<Rightarrow> nat \<Rightarrow> nat list" where
  "page_rows S i = filter (\<lambda>k. \<exists>fs. S ! k = Present fs) [i..<length S]"

fun chain_rows :: "(int \<times> slot list) list \<Rightarrow> (int \<times> nat) list" where
  "chain_rows [] = []"
| "chain_rows ((p, S) # ch) = map (Pair p) (page_rows S 0) @ chain_rows ch"

definition row_rid :: "int \<times> nat \<Rightarrow> RowId" where
  "row_rid e = \<lparr>rid_page_id = id_word (fst e), slot_num = of_nat (snd e)\<rparr>"

definition first_rid :: "(int \<times> nat) list \<Rightarrow> RowId" where
  "first_rid es = (case es of [] \<Rightarrow> INVALID_ROWID | e # _ \<Rightarrow> row_rid e)"

lemma page_rows_next: "page_rows S i = (case next_present S i of None \<Rightarrow> [] | Some k \<Rightarrow> k # page_rows S (Suc k))"
proof (induction "length S - i" arbitrary: i)
  case 0
  then show ?case by (simp add: page_rows_def next_present_def)
next
  case (Suc n)
  then have i: "i < length S" by simp
  have "page_rows S (Suc i) = (case next_present S (Suc i) of None \<Rightarrow> [] | Some k \<Rightarrow> k # page_rows S (Suc k))"
    using Suc.hyps i by (intro Suc.hyps(1)) simp
  then show ?case using i by (auto simp: page_rows_def next_present_def upt_rec [of i])
qed

lemma page_rows_member: "k \<in> set (page_rows S i) \<Longrightarrow> k < length S \<and> (\<exists>fs. S ! k = Present fs)"
  by (auto simp: page_rows_def)

lemma page_rows_after: "page_rows S i = xs @ k # ys \<Longrightarrow> page_rows S (Suc k) = ys"
proof (induction xs arbitrary: i)
  case Nil
  then show ?case using page_rows_next [of S i] by (auto split: option.splits)
next
  case (Cons x xs)
  have "page_rows S (Suc x) = xs @ k # ys" using Cons.prems page_rows_next [of S i] by (auto split: option.splits)
  then show ?case using Cons.IH by blast
qed

lemma found_first:
  "found_rid (id_word p) (next_present S i) = (page_rows S i \<noteq> [], first_rid (map (Pair p) (page_rows S i)))"
  using page_rows_next [of S i] by (cases "next_present S i") (auto simp: found_rid_def first_rid_def row_rid_def)

lemma first_rid_append: "first_rid (xs @ ys) = (if xs = [] then first_rid ys else first_rid xs)"
  by (cases xs) (auto simp: first_rid_def)

lemma next_loop_ok:
  assumes "pool_at bp A M {} pins" "pins p = Some f" "chain_at M A (a @ (p, S) # b)" "finite D" "dom pins \<subseteq> insert p D" "card D + 2 \<le> pool_size bp"
  shows "\<exists>bp' g pins' z. next_loop f INVALID_ROWID bp = Some (first_rid (chain_rows b), bp', g) \<and> pool_at bp' A M {} pins'
    \<and> dom pins' \<subseteq> insert z D \<and> g < pool_size bp' \<and> pool_size bp' = pool_size bp
    \<and> (if chain_rows b = [] then pins' z = Some g else z = fst (hd (chain_rows b)))"
  using assms
proof (induction b arbitrary: a p S f bp pins)
  case Nil
  note P = pinned_page [OF Nil.prems(1,2)]
  have h: "page_holds (M p) (id_word p, id_word (last_id (- 1) a), - 1) S" using Nil.prems(3) by (simp add: chain_at_def segment_append)
  have "next_loop f INVALID_ROWID bp = Some (INVALID_ROWID, bp, f)"
    using P(1,2) page_holds_facts(4) [OF h] by (subst next_loop.simps) simp
  then show ?case using Nil.prems(1,2,5) pinned_frame [OF Nil.prems(1,2)]
    by (intro exI [of _ bp] exI [of _ f] exI [of _ pins] exI [of _ p]) (simp add: first_rid_def)
next
  case (Cons c b)
  obtain x T where c: "c = (x, T)" by (cases c)
  note P = pinned_page [OF Cons.prems(1,2)]
  have h: "page_holds (M p) (id_word p, id_word (last_id (- 1) a), id_word x) S" and hx: "page_holds (M x) (id_word x, id_word p, id_word (head_id b (- 1))) T"
    and x: "x \<in> A" "x \<noteq> p" using Cons.prems(3) c by (auto simp: chain_at_def segment_append)
  have sx: "sint (id_word x :: u32) = x" "x \<noteq> - 1" using sint_id_at [OF Cons.prems(1) x(1)] by auto
  have fin: "finite (dom pins)" using Cons.prems(4,5) finite_subset by blast
  have "card (dom pins) \<le> card (insert p D)" using Cons.prems(4,5) by (intro card_mono) auto
  also have "\<dots> \<le> card D + 1" using Cons.prems(4) by (simp add: card_insert_if)
  finally have fr: "card (dom pins) < pool_size bp" using Cons.prems(6) by simp
  obtain g bp1 where f: "FetchPage x bp = Some (Some g, bp1)" "pool_at bp1 A M {} (pins(x := Some g))" "pool_size bp1 = pool_size bp"
    using pool_fetch [OF Cons.prems(1) x(1) fin] fr by blast
  have "(pins(x := Some g)) p = Some f" using Cons.prems(2) x(2) by simp
  note P1 = pinned_page [OF f(2) this]
  obtain y bp2 where u: "UnpinPage p False bp1 = Some (y, bp2)" "pool_at bp2 A M {} ((pins(x := Some g))(p := None))" "pool_size bp2 = pool_size bp1"
    using pool_unpin [OF f(2), of False p] by auto
  have p2: "((pins(x := Some g))(p := None)) x = Some g" "dom ((pins(x := Some g))(p := None)) \<subseteq> insert x D" using x(2) Cons.prems(5) by auto
  note P2 = pinned_page [OF u(2) p2(1)]
  have first: "GetFirstTupleRid (M x) = Some (page_rows T 0 \<noteq> [], first_rid (map (Pair x) (page_rows T 0)))"
    using FirstTuple_holds [OF hx] found_first by simp
  have step: "next_loop f INVALID_ROWID bp = (if page_rows T 0 \<noteq> [] then Some (first_rid (map (Pair x) (page_rows T 0)), bp2, f)
      else next_loop g INVALID_ROWID bp2)"
    using P(1,2) page_holds_facts(4) [OF h] sx f(1) P1(1,3) u(1) P2(1,2) first
    by (subst next_loop.simps) (auto simp: first_rid_def)
  show ?case
  proof (cases "page_rows T 0 = []")
    case False
    have "f < pool_size bp2" using pinned_frame [OF Cons.prems(1,2)] f(3) u(3) by simp
    moreover have "fst (hd (chain_rows (c # b))) = x" using False c by (cases "page_rows T 0") auto
    moreover have "first_rid (chain_rows (c # b)) = first_rid (map (Pair x) (page_rows T 0))" using False c by (simp add: first_rid_append)
    moreover have "pool_size bp2 = pool_size bp" using u(3) f(3) by simp
    moreover have "chain_rows (c # b) \<noteq> []" using False c by simp
    ultimately show ?thesis using step False u(2) p2(2)
      by (intro exI [of _ bp2] exI [of _ f] exI [of _ "(pins(x := Some g))(p := None)"] exI [of _ x]) (simp del: fun_upd_apply chain_rows.simps)
  next
    case True
    have ca: "chain_at M A ((a @ [(p, S)]) @ (x, T) # b)" "card D + 2 \<le> pool_size bp2" using Cons.prems(3,6) c u(3) f(3) by simp_all
    have e: "chain_rows (c # b) = chain_rows b" "pool_size bp2 = pool_size bp" using True c u(3) f(3) by simp_all
    show ?thesis unfolding e(1) using Cons.IH [OF u(2) p2(1) ca(1) Cons.prems(4) p2(2) ca(2)] step True e(2) by (simp split del: if_split)
  qed
qed

lemma row_rid_facts:
  assumes "pool_at bp A M W pins" "p \<in> A" "k < 4096"
  shows "sint (rid_page_id (row_rid (p, k))) = p" "unat (slot_num (row_rid (p, k))) = k" "row_rid (p, k) \<noteq> INVALID_ROWID"
proof -
  show p: "sint (rid_page_id (row_rid (p, k))) = p" using sint_id_at [OF assms(1,2)] by (simp add: row_rid_def)
  show "unat (slot_num (row_rid (p, k))) = k" using assms(3) by (simp add: row_rid_def unat_of_nat)
  show "row_rid (p, k) \<noteq> INVALID_ROWID" using p sint_id_at [OF assms(1,2)] by (auto simp: INVALID_ROWID_def)
qed

text \<open>\<open>GetTuple\<close> of a row that is present reads it and leaves its page pinned.\<close>

lemma heap_get:
  assumes "pool_at bp A M {} pins" "chain_at M A ch" "(p, S) \<in> set ch" "k < length S" "S ! k = Present fs" "rid row = row_rid (p, k)"
    "finite D" "dom pins \<subseteq> insert p D" "card D < pool_size bp"
  shows "\<exists>bp' f. TableHeap_GetTuple row bp = Some (True, row\<lparr>row_fields := map field_read fs\<rparr>, bp')
    \<and> pool_at bp' A M {} (pins(p := Some f)) \<and> pool_size bp' = pool_size bp"
proof -
  obtain a b where ab: "ch = a @ (p, S) # b" using assms(3) by (meson split_list)
  have h: "page_holds (M p) (id_word p, id_word (last_id (- 1) a), id_word (head_id b (- 1))) S" and p: "p \<in> A"
    using assms(2) ab by (auto simp: chain_at_def segment_append)
  have k: "k < 4096" using page_holds_count [OF h] assms(4) by linarith
  note R = row_rid_facts [OF assms(1) p k] and room = pins_room [OF assms(7-9)]
  obtain f bp' where f: "FetchPage p bp = Some (Some f, bp')" "pool_at bp' A M {} (pins(p := Some f))" "pool_size bp' = pool_size bp"
    using pool_fetch [OF assms(1) p room] by blast
  have "(pins(p := Some f)) p = Some f" by simp
  note P = pinned_page [OF f(2) this]
  have "TablePage_GetTuple (M p) row = Some (True, row\<lparr>row_fields := map field_read fs\<rparr>)"
    using GetTuple_holds [OF h, of row] R(2,3) assms(4-6) by (simp add: read_slot_def)
  then have "TableHeap_GetTuple row bp = Some (True, row\<lparr>row_fields := map field_read fs\<rparr>, bp')"
    using f(1) P(1,2) R(1) assms(6) by (simp add: TableHeap_GetTuple_def)
  then show ?thesis using f(2,3) by blast
qed

text \<open>The row an iterator holds at an entry.\<close>

definition slot_fields :: "(int \<times> slot list) list \<Rightarrow> int \<times> nat \<Rightarrow> Field list" where
  "slot_fields ch e = (case the (map_of ch (fst e)) ! snd e of Present fs \<Rightarrow> map field_read fs | _ \<Rightarrow> [])"

lemma chain_rows_member: "(p, k) \<in> set (chain_rows ch) \<Longrightarrow> \<exists>S fs. (p, S) \<in> set ch \<and> k < length S \<and> S ! k = Present fs"
  by (induction ch) (use page_rows_member in fastforce)+

lemma chain_rows_complete: "(p, S) \<in> set ch \<Longrightarrow> k < length S \<Longrightarrow> S ! k = Present fs \<Longrightarrow> (p, k) \<in> set (chain_rows ch)"
  by (induction ch rule: chain_rows.induct) (auto simp: page_rows_def)

lemma chain_rows_page: "e \<in> set (chain_rows ch) \<Longrightarrow> fst e \<in> fst ` set ch"
  by (induction ch rule: chain_rows.induct) auto

lemma chain_rows_distinct: "distinct (map fst ch) \<Longrightarrow> distinct (chain_rows ch)"
proof (induction ch rule: chain_rows.induct)
  case (2 p S ch)
  moreover have "distinct (map (Pair p) (page_rows S 0))" by (simp add: distinct_map inj_on_def page_rows_def)
  ultimately show ?case using chain_rows_page by fastforce
qed simp

lemma heap_read_rows:
  assumes "distinct (map fst ch)"
  shows "heap_read ch r = (let e = (sint (rid_page_id r), unat (slot_num r)) in if e \<in> set (chain_rows ch) then Some (slot_fields ch e) else None)"
proof (cases "(sint (rid_page_id r), unat (slot_num r)) \<in> set (chain_rows ch)")
  case True
  then obtain S fs where "(sint (rid_page_id r), S) \<in> set ch" "unat (slot_num r) < length S" "S ! unat (slot_num r) = Present fs"
    using chain_rows_member by blast
  then show ?thesis using True assms by (simp add: heap_read_def read_slot_def slot_fields_def)
next
  case False
  have "heap_read ch r = None"
  proof (cases "map_of ch (sint (rid_page_id r))")
    case (Some S)
    then have "\<not> (unat (slot_num r) < length S \<and> (\<exists>fs. S ! unat (slot_num r) = Present fs))"
      using False chain_rows_complete map_of_SomeD by metis
    then show ?thesis using Some by (auto simp: heap_read_def read_slot_def split: slot.splits)
  qed (simp add: heap_read_def)
  then show ?thesis using False by simp
qed

lemma heap_get_entry:
  assumes "pool_at bp A M {} pins" "chain_at M A ch" "(p, k) \<in> set (chain_rows ch)" "rid row = row_rid (p, k)"
    "finite D" "dom pins \<subseteq> insert p D" "card D < pool_size bp"
  shows "\<exists>bp' f. TableHeap_GetTuple row bp = Some (True, row\<lparr>row_fields := slot_fields ch (p, k)\<rparr>, bp')
    \<and> pool_at bp' A M {} (pins(p := Some f)) \<and> pool_size bp' = pool_size bp"
proof -
  obtain S fs where S: "(p, S) \<in> set ch" "k < length S" "S ! k = Present fs" using chain_rows_member [OF assms(3)] by blast
  have "map_of ch p = Some S" using S(1) assms(2) by (simp add: chain_at_def)
  then have "slot_fields ch (p, k) = map field_read fs" using S(3) by (simp add: slot_fields_def)
  then show ?thesis using heap_get [OF assms(1,2) S assms(4-7)] by simp
qed

lemma chain_rows_append: "chain_rows (a @ b) = chain_rows a @ chain_rows b"
  by (induction a) auto

lemma chain_rows_split:
  "chain_rows ch = xs @ (p, k) # ys \<Longrightarrow> \<exists>a S b us vs. ch = a @ (p, S) # b \<and> page_rows S 0 = us @ k # vs \<and> ys = map (Pair p) vs @ chain_rows b"
proof (induction ch arbitrary: xs)
  case (Cons c ch)
  obtain q T where c: "c = (q, T)" by (cases c)
  have "map (Pair q) (page_rows T 0) @ chain_rows ch = xs @ (p, k) # ys" using Cons.prems c by simp
  then consider us where "map (Pair q) (page_rows T 0) = xs @ us" "us @ chain_rows ch = (p, k) # ys"
    | us where "map (Pair q) (page_rows T 0) @ us = xs" "chain_rows ch = us @ (p, k) # ys"
    by (auto simp: append_eq_append_conv2)
  then show ?case
  proof cases
    case 1
    show ?thesis
    proof (cases us)
      case Nil
      then have "chain_rows ch = [] @ (p, k) # ys" using 1 by simp
      then show ?thesis using Cons.IH [of "[]"] c by (metis append_Cons)
    next
      case (Cons u vs)
      then have m: "map (Pair q) (page_rows T 0) = xs @ (p, k) # vs" and ys: "ys = vs @ chain_rows ch" using 1 by auto
      then obtain us' k' vs' where "page_rows T 0 = us' @ k' # vs'" "Pair q k' = (p, k)" "map (Pair q) vs' = vs"
        by (auto simp: map_eq_append_conv map_eq_Cons_conv)
      then have "c # ch = [] @ (p, T) # ch" "page_rows T 0 = us' @ k # vs'" "ys = map (Pair p) vs' @ chain_rows ch" using c ys by auto
      then show ?thesis by blast
    qed
  next
    case 2
    then show ?thesis using Cons.IH [of us] by (metis append_Cons)
  qed
qed simp

text \<open>The iterator moves to the next row; its page stays pinned, beside those of \<open>D\<close>.\<close>

definition iter_at :: "BufferPoolManager \<Rightarrow> int set \<Rightarrow> (int \<Rightarrow> page) \<Rightarrow> int set \<Rightarrow> (int \<times> slot list) list \<Rightarrow> (int \<times> nat) list \<Rightarrow> Row \<Rightarrow> bool" where
  "iter_at bp A M D ch es row \<longleftrightarrow> chain_at M A ch \<and> rid row = first_rid es \<and> (\<exists>xs. chain_rows ch = xs @ es)
     \<and> (es \<noteq> [] \<longrightarrow> row_fields row = slot_fields ch (hd es))
     \<and> (\<exists>pins. pool_at bp A M {} pins \<and> dom pins \<subseteq> (if es = [] then D else insert (fst (hd es)) D))"

lemma iter_settle:
  assumes "pool_at bp A M {} pins" "dom pins \<subseteq> insert z D" "if es = [] then pins z = Some f else z = fst (hd es)" "chain_at M A ch" "chain_rows ch = xs @ es"
    "f < pool_size bp" "rid row = first_rid es" "finite D" "card D < pool_size bp"
  shows "\<exists>bp1 c row' bp'. (if rid row \<noteq> INVALID_ROWID then do { (_, row, bp) \<leftarrow> TableHeap_GetTuple row bp; Some (row, bp) } else Some (row, bp))
      = Some (row', bp1) \<and> page_at f bp1 = Some (pages bp1 ! f) \<and> UnpinPage (page_id (pages bp1 ! f)) False bp1 = Some (c, bp')
    \<and> iter_at bp' A M D ch es row' \<and> pool_size bp' = pool_size bp"
proof -
  have "\<exists>row' bp1 pins1. (if rid row \<noteq> INVALID_ROWID then do { (_, row, bp) \<leftarrow> TableHeap_GetTuple row bp; Some (row, bp) } else Some (row, bp))
      = Some (row', bp1) \<and> pool_at bp1 A M {} pins1 \<and> dom pins1 \<subseteq> insert z D \<and> pool_size bp1 = pool_size bp \<and> (es = [] \<longrightarrow> pins1 z = Some f)
      \<and> rid row' = first_rid es \<and> (es \<noteq> [] \<longrightarrow> row_fields row' = slot_fields ch (hd es))"
  proof (cases es)
    case Nil
    then have "rid row = INVALID_ROWID" using assms(7) by (simp add: first_rid_def)
    then show ?thesis using assms(1,2,3,7) Nil by auto
  next
    case (Cons e es')
    obtain p k where e: "e = (p, k)" by (cases e)
    have m: "(p, k) \<in> set (chain_rows ch)" and r: "rid row = row_rid (p, k)" and z: "z = p"
      using assms(3,5,7) Cons e by (auto simp: first_rid_def)
    obtain S fs where S: "(p, S) \<in> set ch" "k < length S" using chain_rows_member [OF m] by blast
    have k: "p \<in> A" "k < 4096" using chain_slots [OF assms(4) S(1)] S(2) by linarith+
    obtain bp1 g where g: "TableHeap_GetTuple row bp = Some (True, row\<lparr>row_fields := slot_fields ch (p, k)\<rparr>, bp1)"
      "pool_at bp1 A M {} (pins(p := Some g))" "pool_size bp1 = pool_size bp"
      using heap_get_entry [OF assms(1,4) m r assms(8) assms(2) [unfolded z] assms(9)] by blast
    have "dom (pins(p := Some g)) \<subseteq> insert z D" using assms(2) z by auto
    then show ?thesis using g row_rid_facts(3) [OF assms(1) k] r assms(7) Cons e
      by (intro exI [of _ "row\<lparr>row_fields := slot_fields ch (p, k)\<rparr>"] exI [of _ bp1] exI [of _ "pins(p := Some g)"]) simp
  qed
  then obtain row' bp1 pins1 where b: "(if rid row \<noteq> INVALID_ROWID then do { (_, row, bp) \<leftarrow> TableHeap_GetTuple row bp; Some (row, bp) } else Some (row, bp))
      = Some (row', bp1)" "pool_at bp1 A M {} pins1" "dom pins1 \<subseteq> insert z D" "pool_size bp1 = pool_size bp"
      "rid row' = first_rid es" "es \<noteq> [] \<longrightarrow> row_fields row' = slot_fields ch (hd es)" "es = [] \<longrightarrow> pins1 z = Some f" by blast
  obtain c bp' where u: "UnpinPage (page_id (pages bp1 ! f)) False bp1 = Some (c, bp')"
    "pool_at bp' A M {} (pins1(page_id (pages bp1 ! f) := None))" "pool_size bp' = pool_size bp1"
    using pool_unpin [OF b(2), of False "page_id (pages bp1 ! f)"] by auto
  have "dom (pins1(page_id (pages bp1 ! f) := None)) \<subseteq> (if es = [] then D else insert (fst (hd es)) D)"
    using b(3,7) assms(3) pinned_page(3) [OF b(2), of z f] by auto
  then have "iter_at bp' A M D ch es row'" using u(2) b(5,6) assms(4,5) unfolding iter_at_def by blast
  moreover have "page_at f bp1 = Some (pages bp1 ! f)" using pool_page_at [OF b(2)] assms(6) b(4) by simp
  ultimately show ?thesis using b(1,4) u(1,3) by metis
qed

lemma TableIterator_next_ok:
  assumes "iter_at bp A M D ch ((p, k) # es) row" "finite D" "card D + 2 \<le> pool_size bp"
  shows "\<exists>row' bp'. TableIterator_next row bp = Some (row', bp') \<and> iter_at bp' A M D ch es row' \<and> pool_size bp' = pool_size bp"
proof -
  obtain xs pins where i: "chain_at M A ch" "rid row = row_rid (p, k)" "chain_rows ch = xs @ (p, k) # es" "pool_at bp A M {} pins" "dom pins \<subseteq> insert p D"
    using assms(1) by (auto simp: iter_at_def first_rid_def)
  obtain a S b us vs where s: "ch = a @ (p, S) # b" "page_rows S 0 = us @ k # vs" "es = map (Pair p) vs @ chain_rows b"
    using chain_rows_split [OF i(3)] by blast
  have k: "k < length S" using page_rows_member [of k S 0] s(2) by simp
  have h: "page_holds (M p) (id_word p, id_word (last_id (- 1) a), id_word (head_id b (- 1))) S" and p: "p \<in> A"
    using i(1) s(1) by (auto simp: chain_at_def segment_append)
  have k': "k < 4096" using page_holds_count [OF h] k by linarith
  note R = row_rid_facts [OF i(4) p k']
  have room: "card D < pool_size bp" using assms(3) by simp
  obtain f bp1 where f: "FetchPage p bp = Some (Some f, bp1)" "pool_at bp1 A M {} (pins(p := Some f))" "pool_size bp1 = pool_size bp"
    using pool_fetch [OF i(4) p pins_room [OF assms(2) i(5) room]] by blast
  have pf: "(pins(p := Some f)) p = Some f" and dm: "dom (pins(p := Some f)) \<subseteq> insert p D" using i(5) by auto
  note P = pinned_page [OF f(2) pf]
  have nx: "GetNextTupleRid (M p) (row_rid (p, k)) = Some (vs \<noteq> [], first_rid (map (Pair p) vs))"
    using NextTuple_holds [OF h, of "row_rid (p, k)"] k R(2) found_first [of p S "Suc k"] page_rows_after [OF s(2)] by (simp add: row_rid_def)
  have "\<exists>bp2 g pins2 z. (if vs = [] then next_loop f (first_rid (map (Pair p) vs)) bp1 else Some (first_rid (map (Pair p) vs), bp1, f))
      = Some (first_rid es, bp2, g) \<and> pool_at bp2 A M {} pins2 \<and> dom pins2 \<subseteq> insert z D \<and> g < pool_size bp2 \<and> pool_size bp2 = pool_size bp
      \<and> (if es = [] then pins2 z = Some g else z = fst (hd es))"
  proof (cases "vs = []")
    case True
    then have es: "es = chain_rows b" "first_rid (map (Pair p) vs) = INVALID_ROWID" using s(3) by (auto simp: first_rid_def)
    have "card D + 2 \<le> pool_size bp1" using assms(3) f(3) by simp
    from next_loop_ok [OF f(2) pf i(1) [unfolded s(1)] assms(2) dm this] True f(3) show ?thesis
      unfolding es by (simp split del: if_split)
  next
    case False
    then have "first_rid es = first_rid (map (Pair p) vs)" "fst (hd es) = p" "es \<noteq> []" using s(3) by (auto simp: first_rid_append hd_append hd_map)
    then show ?thesis using False f(2,3) dm pinned_frame [OF f(2) pf]
      by (intro exI [of _ bp1] exI [of _ f] exI [of _ "pins(p := Some f)"] exI [of _ p]) (simp del: fun_upd_apply)
  qed
  then obtain bp2 g pins2 z where n: "(if vs = [] then next_loop f (first_rid (map (Pair p) vs)) bp1 else Some (first_rid (map (Pair p) vs), bp1, f))
      = Some (first_rid es, bp2, g)" "pool_at bp2 A M {} pins2" "dom pins2 \<subseteq> insert z D" "g < pool_size bp2" "pool_size bp2 = pool_size bp"
      "if es = [] then pins2 z = Some g else z = fst (hd es)" by blast
  have ce: "chain_rows ch = (xs @ [(p, k)]) @ es" "card D < pool_size bp2" using i(3) room n(5) by simp_all
  have rr: "rid (row\<lparr>rid := first_rid es\<rparr>) = first_rid es" by simp
  obtain bp3 c row' bp' where t: "(if rid (row\<lparr>rid := first_rid es\<rparr>) \<noteq> INVALID_ROWID
      then do { (_, row, bp) \<leftarrow> TableHeap_GetTuple (row\<lparr>rid := first_rid es\<rparr>) bp2; Some (row, bp) } else Some (row\<lparr>rid := first_rid es\<rparr>, bp2)) = Some (row', bp3)"
    "page_at g bp3 = Some (pages bp3 ! g)" "UnpinPage (page_id (pages bp3 ! g)) False bp3 = Some (c, bp')" "iter_at bp' A M D ch es row'"
    "pool_size bp' = pool_size bp2" using iter_settle [OF n(2,3,6) i(1) ce(1) n(4) rr assms(2) ce(2)] by blast
  have "TableIterator_next row bp = Some (row', bp')"
    using f(1) P(1,2) nx n(1) t(1-3) R(1) i(2) by (simp add: TableIterator_next_def cong: if_cong)
  then show ?thesis using t(4,5) n(5) by metis
qed

lemma UnpinPage_data:
  assumes "pool_at bp A M W pins" "UnpinPage p dirty bp = Some (c, bp')"
  shows "data (pages bp' ! f) = data (pages bp ! f)" "page_id (pages bp' ! f) = page_id (pages bp ! f)" "length (pages bp') = length (pages bp)"
  using assms(2) by (auto simp: UnpinPage_def page_at_def set_page_def nth_list_update split: option.splits if_splits bind_splits)

lemma begin_loop_ok:
  assumes "pool_at bp A M {} pins" "chain_at M A (a @ b)" "dom pins \<subseteq> D" "finite D" "card D < pool_size bp"
  shows "\<exists>bp' pins'. begin_loop (head_id b (- 1)) INVALID_ROWID bp = Some (first_rid (chain_rows b), bp')
    \<and> pool_at bp' A M {} pins' \<and> dom pins' \<subseteq> D \<and> pool_size bp' = pool_size bp"
  using assms
proof (induction b arbitrary: a bp pins)
  case Nil
  have "begin_loop (head_id [] (- 1)) INVALID_ROWID bp = Some (first_rid (chain_rows []), bp)"
    by (subst begin_loop.simps) (simp add: first_rid_def)
  then show ?case using Nil.prems by blast
next
  case (Cons c b)
  obtain x T where c: "c = (x, T)" by (cases c)
  have hx: "page_holds (M x) (id_word x, id_word (last_id (- 1) a), id_word (head_id b (- 1))) T" and x: "x \<in> A"
    using Cons.prems(2) c by (auto simp: chain_at_def segment_append)
  have sx: "x \<noteq> - 1" using sint_id_at [OF Cons.prems(1) x] by simp
  have "dom pins \<subseteq> insert x D" using Cons.prems(3) by auto
  note room = pins_room [OF Cons.prems(4) this Cons.prems(5)]
  obtain f bp1 where f: "FetchPage x bp = Some (Some f, bp1)" "pool_at bp1 A M {} (pins(x := Some f))" "pool_size bp1 = pool_size bp"
    using pool_fetch [OF Cons.prems(1) x room] by blast
  have "(pins(x := Some f)) x = Some f" by simp
  note P = pinned_page [OF f(2) this]
  obtain y bp2 where u: "UnpinPage x False bp1 = Some (y, bp2)" "pool_at bp2 A M {} ((pins(x := Some f))(x := None))" "pool_size bp2 = pool_size bp1"
    using pool_unpin [OF f(2), of False x] by auto
  have p2: "page_at f bp2 = Some (pages bp2 ! f)" "data (pages bp2 ! f) = M x"
    using UnpinPage_data [OF f(2) u(1)] P(2,5) by (auto simp: page_at_def)
  have first: "GetFirstTupleRid (M x) = Some (page_rows T 0 \<noteq> [], first_rid (map (Pair x) (page_rows T 0)))"
    using FirstTuple_holds [OF hx] found_first by simp
  have dm: "dom ((pins(x := Some f))(x := None)) \<subseteq> D" using Cons.prems(3) by auto
  have nx: "sint (id_word (head_id b (- 1)) :: u32) = head_id b (- 1)"
  proof (cases b)
    case (Cons e b')
    then have "fst e \<in> A" using Cons.prems(2) by (auto simp: chain_at_def)
    then show ?thesis using Cons sint_id_at [OF Cons.prems(1)] by (cases e) simp
  qed simp
  have step: "begin_loop (head_id (c # b) (- 1)) INVALID_ROWID bp = (if page_rows T 0 \<noteq> [] then Some (first_rid (map (Pair x) (page_rows T 0)), bp2)
      else begin_loop (head_id b (- 1)) INVALID_ROWID bp2)"
    using sx f(1) P(1,2,3) first u(1) p2 page_holds_facts(4) [OF hx] nx c
    by (subst begin_loop.simps) (auto simp: first_rid_def)
  show ?case
  proof (cases "page_rows T 0 = []")
    case False
    then have "first_rid (chain_rows (c # b)) = first_rid (map (Pair x) (page_rows T 0))" using c by (simp add: first_rid_append)
    moreover have "pool_size bp2 = pool_size bp" using u(3) f(3) by simp
    ultimately show ?thesis using step False u(2) dm by metis
  next
    case True
    have ca: "chain_at M A ((a @ [c]) @ b)" "card D < pool_size bp2" using Cons.prems(2,5) u(3) f(3) by simp_all
    show ?thesis using Cons.IH [OF u(2) ca(1) dm Cons.prems(4) ca(2)] step True c u(3) f(3) by simp
  qed
qed

lemma TableHeap_Begin_ok:
  assumes "heap_at bp A M D hp ch" "finite D" "card D < pool_size bp"
  shows "\<exists>row bp'. TableHeap_Begin hp bp = Some (row, bp') \<and> iter_at bp' A M D ch (chain_rows ch) row \<and> pool_size bp' = pool_size bp"
proof -
  obtain pins where h: "pool_at bp A M {} pins" "dom pins \<subseteq> D" "chain_at M A ([] @ ch)" "first_page_id hp = head_id ch (- 1)"
    using assms(1) by (auto simp: heap_at_def head_id_def)
  have ch: "chain_at M A ch" using h(3) by simp
  obtain bp1 pins1 where b: "begin_loop (first_page_id hp) INVALID_ROWID bp = Some (first_rid (chain_rows ch), bp1)" "pool_at bp1 A M {} pins1"
    "dom pins1 \<subseteq> D" "pool_size bp1 = pool_size bp" using begin_loop_ok [OF h(1,3,2) assms(2,3)] h(4) by auto
  show ?thesis
  proof (cases "chain_rows ch")
    case Nil
    then have "TableHeap_Begin hp bp = Some (Row_of_rid INVALID_ROWID, bp1)"
      using b(1) by (simp add: TableHeap_Begin_def TableIterator_init_def first_rid_def INVALID_ROWID_def)
    moreover have "iter_at bp1 A M D ch (chain_rows ch) (Row_of_rid INVALID_ROWID)"
      using Nil b(2,3) ch by (auto simp: iter_at_def first_rid_def Row_of_rid_def)
    ultimately show ?thesis using b(4) by blast
  next
    case (Cons e es)
    obtain p k where e: "e = (p, k)" by (cases e)
    then have m: "(p, k) \<in> set (chain_rows ch)" using Cons by simp
    obtain S fs where S: "(p, S) \<in> set ch" "k < length S" using chain_rows_member [OF m] by blast
    have k: "p \<in> A" "k < 4096" using chain_slots [OF ch S(1)] S(2) by linarith+
    let ?row = "Row_of_rid (row_rid (p, k))"
    have r: "rid ?row = row_rid (p, k)" "dom pins1 \<subseteq> insert p D" "card D < pool_size bp1" using b(3,4) assms(3) by (auto simp: Row_of_rid_def)
    obtain bp2 f where g: "TableHeap_GetTuple ?row bp1 = Some (True, ?row\<lparr>row_fields := slot_fields ch (p, k)\<rparr>, bp2)"
      "pool_at bp2 A M {} (pins1(p := Some f))" "pool_size bp2 = pool_size bp1" using heap_get_entry [OF b(2) ch m r(1) assms(2) r(2,3)] by blast
    have "TableHeap_Begin hp bp = Some (?row\<lparr>row_fields := slot_fields ch (p, k)\<rparr>, bp2)"
      using b(1) g(1) row_rid_facts(1) [OF b(2) k] sint_id_at [OF b(2) k(1)] Cons e
      by (simp add: TableHeap_Begin_def TableIterator_init_def first_rid_def)
    moreover have "dom (pins1(p := Some f)) \<subseteq> insert p D" using b(3) by auto
    then have "iter_at bp2 A M D ch (chain_rows ch) (?row\<lparr>row_fields := slot_fields ch (p, k)\<rparr>)"
      using Cons e ch g(2) unfolding iter_at_def by (intro conjI exI [of _ "pins1(p := Some f)"]) (simp_all add: first_rid_def Row_of_rid_def)
    ultimately show ?thesis using g(3) b(4) by metis
  qed
qed

lemma scan_loop_ok:
  assumes "iter_at bp A M D ch es row" "finite D" "card D + 2 \<le> pool_size bp"
  shows "\<exists>rows bp'. scan_loop row bp = Some (rows, bp') \<and> map rid rows = map row_rid es \<and> map row_fields rows = map (slot_fields ch) es
    \<and> iter_at bp' A M D ch [] (Row_of_rid INVALID_ROWID)"
  using assms
proof (induction es arbitrary: bp row)
  case Nil
  then have r: "rid row = INVALID_ROWID" by (simp add: iter_at_def first_rid_def)
  moreover have "iter_at bp A M D ch [] (Row_of_rid INVALID_ROWID)" using Nil.prems(1) by (auto simp: iter_at_def first_rid_def Row_of_rid_def)
  ultimately show ?case by (subst scan_loop.simps) simp
next
  case (Cons e es)
  obtain p k where e: "e = (p, k)" by (cases e)
  obtain pins xs where i: "pool_at bp A M {} pins" "chain_at M A ch" "chain_rows ch = xs @ (p, k) # es" "rid row = row_rid (p, k)"
    "row_fields row = slot_fields ch (p, k)" using Cons.prems(1) e by (auto simp: iter_at_def first_rid_def)
  have m: "(p, k) \<in> set (chain_rows ch)" using i(3) by simp
  obtain S fs where S: "(p, S) \<in> set ch" "k < length S" using chain_rows_member [OF m] by blast
  have k: "p \<in> A" "k < 4096" using chain_slots [OF i(2) S(1)] S(2) by linarith+
  obtain row' bp' where n: "TableIterator_next row bp = Some (row', bp')" "iter_at bp' A M D ch es row'" "pool_size bp' = pool_size bp"
    using TableIterator_next_ok [OF Cons.prems(1) [unfolded e] Cons.prems(2,3)] by blast
  obtain rows bp2 where s: "scan_loop row' bp' = Some (rows, bp2)" "map rid rows = map row_rid es" "map row_fields rows = map (slot_fields ch) es"
    "iter_at bp2 A M D ch [] (Row_of_rid INVALID_ROWID)" using Cons.IH [OF n(2) Cons.prems(2)] Cons.prems(3) n(3) by auto
  have "scan_loop row bp = Some (row # rows, bp2)"
    using n(1) s(1) i(4) row_rid_facts(3) [OF i(1) k] by (subst scan_loop.simps) simp
  then show ?case using s(2-4) i(4,5) e by simp
qed

text \<open>
  C9: scanning a table heap. The loop from \<open>Begin\<close> to \<open>End\<close> that a select without an index runs ends, and the
  rows it visits are the readable rows of the heap, each once: a row id is visited if and only if a row can be read there,
  with the fields that are read there. Pages without rows in between, at the start or at the end do not disturb it, and
  afterwards the iterator keeps no page pinned.
\<close>

theorem heap_scan_complete:
  assumes "heap_at bp A M D hp ch" "finite D" "card D + 2 \<le> pool_size bp"
  shows "\<exists>rows bp'. scan hp bp = Some (rows, bp') \<and> heap_at bp' A M D hp ch \<and> distinct (map rid rows)
    \<and> (\<forall>r. map_of (map (\<lambda>row. (rid row, row_fields row)) rows) r = heap_read ch r)"
proof -
  obtain row bp1 where b: "TableHeap_Begin hp bp = Some (row, bp1)" "iter_at bp1 A M D ch (chain_rows ch) row" "pool_size bp1 = pool_size bp"
    using TableHeap_Begin_ok [OF assms(1,2)] assms(3) by auto
  then obtain rows bp2 where s: "scan_loop row bp1 = Some (rows, bp2)" "map rid rows = map row_rid (chain_rows ch)"
    "map row_fields rows = map (slot_fields ch) (chain_rows ch)" "iter_at bp2 A M D ch [] (Row_of_rid INVALID_ROWID)"
    using scan_loop_ok [OF b(2) assms(2)] assms(3) by auto
  obtain pins where c: "pool_at bp2 A M {} pins" "dom pins \<subseteq> D" "chain_at M A ch" using s(4) by (auto simp: iter_at_def)
  have d: "distinct (map fst ch)" using c(3) by (simp add: chain_at_def)
  have rr: "(sint (rid_page_id (row_rid e)), unat (slot_num (row_rid e))) = e" if "e \<in> set (chain_rows ch)" for e
  proof -
    obtain S where S: "(fst e, S) \<in> set ch" "snd e < length S" using chain_rows_member [of "fst e" "snd e" ch] \<open>e \<in> set (chain_rows ch)\<close> by auto
    have "fst e \<in> A" "snd e < 4096" using chain_slots [OF c(3) S(1)] S(2) by linarith+
    then show ?thesis using row_rid_facts(1,2) [OF c(1), of "fst e" "snd e"] by simp
  qed
  have "inj_on row_rid (set (chain_rows ch))" using rr by (intro inj_on_inverseI)
  then have dr: "distinct (map row_rid (chain_rows ch))" using chain_rows_distinct [OF d] by (simp add: distinct_map)
  have "map (\<lambda>row. (rid row, row_fields row)) rows = zip (map rid rows) (map row_fields rows)" by (simp add: zip_map_map zip_same_conv_map)
  also have "\<dots> = map (\<lambda>e. (row_rid e, slot_fields ch e)) (chain_rows ch)" unfolding s(2,3) by (simp add: zip_map_map zip_same_conv_map)
  finally have z: "map (\<lambda>row. (rid row, row_fields row)) rows = map (\<lambda>e. (row_rid e, slot_fields ch e)) (chain_rows ch)" .
  have dz: "distinct (map fst (map (\<lambda>e. (row_rid e, slot_fields ch e)) (chain_rows ch)))" using dr by (simp add: comp_def)
  have "map_of (map (\<lambda>e. (row_rid e, slot_fields ch e)) (chain_rows ch)) r = heap_read ch r" for r
  proof (cases "(sint (rid_page_id r), unat (slot_num r)) \<in> set (chain_rows ch)")
    case True
    then have "row_rid (sint (rid_page_id r), unat (slot_num r)) = r" using rr [OF True] rid_eq [of "row_rid _" r] by simp
    then have "(r, slot_fields ch (sint (rid_page_id r), unat (slot_num r))) \<in> set (map (\<lambda>e. (row_rid e, slot_fields ch e)) (chain_rows ch))"
      using True by (force intro: image_eqI)
    then show ?thesis using map_of_is_SomeI [OF dz] True by (simp add: heap_read_rows [OF d])
  next
    case False
    then have "r \<notin> row_rid ` set (chain_rows ch)" using rr by auto
    then show ?thesis using False by (simp add: heap_read_rows [OF d] map_of_eq_None_iff image_image)
  qed
  moreover have "heap_at bp2 A M D hp ch" using c assms(1) by (auto simp: heap_at_def)
  moreover have "scan hp bp = Some (rows, bp2)" using b(1) s(1) by (simp add: scan_def)
  ultimately show ?thesis using z dr s(2) by metis
qed

section \<open>Insertion and reading\<close>

lemma heap_get_read:
  assumes "heap_at bp A M D hp ch" "heap_read ch (rid row) = Some fs" "finite D" "card D < pool_size bp"
  shows "\<exists>bp'. TableHeap_GetTuple row bp = Some (True, row\<lparr>row_fields := fs\<rparr>, bp')"
proof -
  obtain pins where h: "pool_at bp A M {} pins" "dom pins \<subseteq> D" "chain_at M A ch" using assms(1) by (auto simp: heap_at_def)
  define p k where "p = sint (rid_page_id (rid row))" and "k = unat (slot_num (rid row))"
  have d: "distinct (map fst ch)" using h(3) by (simp add: chain_at_def)
  have m: "(p, k) \<in> set (chain_rows ch)" "slot_fields ch (p, k) = fs"
    using assms(2) heap_read_rows [OF d, of "rid row"] by (auto simp: p_def k_def Let_def split: if_splits)
  obtain S where S: "(p, S) \<in> set ch" "k < length S" using chain_rows_member [OF m(1)] by blast
  have k: "p \<in> A" "k < 4096" using chain_slots [OF h(3) S(1)] S(2) by linarith+
  have r: "rid row = row_rid (p, k)" using row_rid_facts(1,2) [OF h(1) k] rid_eq [of "rid row"] by (simp add: p_def k_def)
  have "dom pins \<subseteq> insert p D" using h(2) by auto
  from heap_get_entry [OF h(1,3) m(1) r assms(3) this assms(4)] m(2) show ?thesis by auto
qed

text \<open>
  C8: inserting into a table heap. A row of at most 4064 bytes is always stored, in the first page
  from the last insertion on that has room or in a new page linked to the end; the row id that is
  returned was not in use, \<open>GetTuple\<close> at it returns the row, every other row of the heap reads as before, and
  pages outside the heap keep their content. This needs two frames of the buffer pool that are not
  pinned and a free page on the disk.
\<close>

theorem heap_insert_reads_back:
  assumes "heap_at bp A M D hp ch" "row_ok row" "tuple_length (row_fields row) \<le> 4064" "card A < 32704"
    "finite D" "card D + 2 \<le> pool_size bp"
  shows "\<exists>row' hp' bp' A' M' ch' bp''. TableHeap_InsertTuple hp row bp = Some (True, row', hp', bp')
    \<and> heap_at bp' A' M' D hp' ch' \<and> row_fields row' = row_fields row \<and> heap_read ch (rid row') = None
    \<and> (\<forall>r. heap_read ch' r = (if r = rid row' then Some (map field_read (row_fields row)) else heap_read ch r))
    \<and> TableHeap_GetTuple (Row_of_rid (rid row')) bp' = Some (True, \<lparr>rid = rid row', row_fields = map field_read (row_fields row)\<rparr>, bp'')
    \<and> (\<forall>y\<in>A - fst ` set ch. M' y = M y) \<and> pool_size bp' = pool_size bp"
proof -
  obtain row' hp' bp' A' M' ch' where i: "TableHeap_InsertTuple hp row bp = Some (True, row', hp', bp')"
    "heap_at bp' A' M' D hp' ch'" "row_fields row' = row_fields row" "heap_read ch (rid row') = None"
    "\<forall>r. heap_read ch' r = (if r = rid row' then Some (map field_read (row_fields row)) else heap_read ch r)"
    "\<forall>y\<in>A - fst ` set ch. M' y = M y" "pool_size bp' = pool_size bp" using heap_insert_ok [OF assms] by blast
  have g: "heap_read ch' (rid (Row_of_rid (rid row'))) = Some (map field_read (row_fields row))" "card D < pool_size bp'"
    using i(5,7) assms(6) by (simp_all add: Row_of_rid_def)
  obtain bp'' where "TableHeap_GetTuple (Row_of_rid (rid row')) bp' = Some (True, (Row_of_rid (rid row'))\<lparr>row_fields := map field_read (row_fields row)\<rparr>, bp'')"
    using heap_get_read [OF i(2) g(1) assms(5) g(2)] by blast
  then have "TableHeap_GetTuple (Row_of_rid (rid row')) bp' = Some (True, \<lparr>rid = rid row', row_fields = map field_read (row_fields row)\<rparr>, bp'')"
    by (simp add: Row_of_rid_def)
  then show ?thesis using i by blast
qed

section \<open>A heap from an empty database file\<close>

lemma TableHeap_new_at:
  assumes "pool_at bp A M {} pins" "card A < 32704" "finite (dom pins)" "card (dom pins) < pool_size bp"
  shows "\<exists>p d bp'. TableHeap_new bp = Some (\<lparr>first_page_id = p, insert_page_id = p\<rparr>, bp') \<and> p \<notin> A \<and> page_holds d (id_word p, - 1, - 1) []
    \<and> pool_at bp' (insert p A) (M(p := d)) {} (pins(p := None)) \<and> pool_size bp' = pool_size bp"
proof -
  obtain p f bp1 where n: "NewPage bp = Some (Some (p, f), bp1)" "p \<notin> A" "pool_size bp1 = pool_size bp"
    "pool_at bp1 (insert p A) (M(p := zero_page)) {p} (pins(p := Some f))" using pool_new [OF assms] by auto
  have pf: "(pins(p := Some f)) p = Some f" by simp
  note P = pinned_page [OF n(4) pf]
  obtain d where d: "TablePage_Init zero_page (id_word p) (- 1) = Some d" "page_holds d (id_word p, - 1, - 1) []"
    using Init_holds [of zero_page] by auto
  obtain bp2 where w: "write_frame f d bp1 = Some bp2" "pool_at bp2 (insert p A) (M(p := d)) {p} (pins(p := Some f))"
    "pool_size bp2 = pool_size bp1" using write_frame_at [OF n(4) pf page_holds_facts(1) [OF d(2)]] by (simp only: fun_upd_upd insert_absorb2) blast
  obtain c bp3 where u: "UnpinPage p True bp2 = Some (c, bp3)" "pool_at bp3 (insert p A) (M(p := d)) {} (pins(p := None))" "pool_size bp3 = pool_size bp2"
    using pool_unpin [OF w(2), of True p] by (simp del: fun_upd_apply) blast
  have "TableHeap_new bp = Some (\<lparr>first_page_id = p, insert_page_id = p\<rparr>, bp3)"
    using n(1) P(1,2) d(1) w(1) u(1) by (simp add: TableHeap_new_def)
  then show ?thesis using u(2,3) n(2,3) d(2) w(3) by (intro exI [of _ p] exI [of _ d] exI [of _ bp3]) simp
qed

lemma TableHeap_new_ok:
  assumes "pool_at bp A M {} pins" "card A < 32704" "finite (dom pins)" "card (dom pins) < pool_size bp"
  shows "\<exists>hp bp' p M'. TableHeap_new bp = Some (hp, bp') \<and> p \<notin> A \<and> heap_at bp' (insert p A) M' (dom pins) hp [(p, [])] \<and> pool_size bp' = pool_size bp"
proof -
  obtain p d bp' where n: "TableHeap_new bp = Some (\<lparr>first_page_id = p, insert_page_id = p\<rparr>, bp')" "p \<notin> A" "page_holds d (id_word p, - 1, - 1) []"
    "pool_at bp' (insert p A) (M(p := d)) {} (pins(p := None))" "pool_size bp' = pool_size bp" using TableHeap_new_at [OF assms] by blast
  have "heap_at bp' (insert p A) (M(p := d)) (dom pins) \<lparr>first_page_id = p, insert_page_id = p\<rparr> [(p, [])]"
    using n(3,4) unfolding heap_at_def chain_at_def by (intro conjI exI [of _ "pins(p := None)"]) auto
  then show ?thesis using n(1,2,5) by blast
qed

text \<open>A heap in a pool of two frames over an empty file, and a row with a string and a null.\<close>

definition sample_row :: Row where
  "sample_row = Row_of_fields [\<lparr>fvalue = VChars [104, 105], type_id = kTypeChar, flen = 2, is_null = False\<rparr>, Field_null kTypeInt]"

lemma sample_row_ok: "row_ok sample_row" "tuple_length (row_fields sample_row) = 31" "map field_read (row_fields sample_row) = row_fields sample_row"
proof -
  have l: "length (row_image sample_row) = 31"
    by (simp add: sample_row_def row_image_length Row_of_fields_def Field_null_def field_image_def)
  then show "row_ok sample_row" by (simp add: row_ok_def) (simp add: sample_row_def Row_of_fields_def field_ok_def Field_null_def)
  have "Row_of_fields (row_fields sample_row) = sample_row" by (simp add: sample_row_def Row_of_fields_def)
  then show "tuple_length (row_fields sample_row) = 31" using l by (simp add: tuple_length_def)
  show "map field_read (row_fields sample_row) = row_fields sample_row"
    by (simp add: sample_row_def Row_of_fields_def field_read_def Field_null_def)
qed

lemma empty_heap: "\<exists>hp bp p M. TableHeap_new (BufferPoolManager_init 2 empty_disk) = Some (hp, bp) \<and> heap_at bp {p} M {} hp [(p, [])] \<and> pool_size bp = 2"
  using TableHeap_new_ok [OF empty_pool_at [of 2]] by (auto simp: BufferPoolManager_init_def)

lemma sample_heap:
  "\<exists>hp bp row hp' bp' A M ch. TableHeap_new (BufferPoolManager_init 2 empty_disk) = Some (hp, bp)
    \<and> TableHeap_InsertTuple hp sample_row bp = Some (True, row, hp', bp') \<and> heap_at bp' A M {} hp' ch \<and> pool_size bp' = 2
    \<and> (\<forall>r. heap_read ch r = (if r = rid row then Some (row_fields sample_row) else None))"
proof -
  obtain hp bp p M where n: "TableHeap_new (BufferPoolManager_init 2 empty_disk) = Some (hp, bp)" "heap_at bp {p} M {} hp [(p, [])]" "pool_size bp = 2"
    using empty_heap by blast
  have c: "tuple_length (row_fields sample_row) \<le> 4064" "card {p} < 32704" "finite ({} :: int set)" "card ({} :: int set) + 2 \<le> pool_size bp"
    using n(3) sample_row_ok(2) by simp_all
  have e: "heap_read [(p, [])] r = None" for r by (simp add: heap_read_def read_slot_def)
  obtain row hp' bp' A' M' ch' where i: "TableHeap_InsertTuple hp sample_row bp = Some (True, row, hp', bp')" "heap_at bp' A' M' {} hp' ch'"
    "\<forall>r. heap_read ch' r = (if r = rid row then Some (row_fields sample_row) else None)" "pool_size bp' = 2"
    using heap_insert_ok [OF n(2) sample_row_ok(1) c, unfolded sample_row_ok(3) n(3) e] by (elim exE conjE) (rule that)
  show ?thesis
    using n(1) i by (intro exI [of _ hp] exI [of _ bp] exI [of _ row] exI [of _ hp'] exI [of _ bp'] exI [of _ A'] exI [of _ M'] exI [of _ ch'] conjI)
qed

theorem heap_insert_reads_back_witness:
  "\<exists>hp bp row hp' bp' bp''. TableHeap_new (BufferPoolManager_init 2 empty_disk) = Some (hp, bp)
    \<and> TableHeap_InsertTuple hp sample_row bp = Some (True, row, hp', bp')
    \<and> TableHeap_GetTuple (Row_of_rid (rid row)) bp' = Some (True, \<lparr>rid = rid row, row_fields = row_fields sample_row\<rparr>, bp'')"
proof -
  obtain hp bp p M where n: "TableHeap_new (BufferPoolManager_init 2 empty_disk) = Some (hp, bp)" "heap_at bp {p} M {} hp [(p, [])]" "pool_size bp = 2"
    using empty_heap by blast
  have c: "tuple_length (row_fields sample_row) \<le> 4064" "card {p} < 32704" "finite ({} :: int set)" "card ({} :: int set) + 2 \<le> pool_size bp"
    using n(3) sample_row_ok(2) by simp_all
  obtain row hp' bp' bp'' where "TableHeap_InsertTuple hp sample_row bp = Some (True, row, hp', bp')"
    "TableHeap_GetTuple (Row_of_rid (rid row)) bp' = Some (True, \<lparr>rid = rid row, row_fields = row_fields sample_row\<rparr>, bp'')"
    using heap_insert_reads_back [OF n(2) sample_row_ok(1) c] unfolding sample_row_ok(3) by blast
  with n(1) show ?thesis by blast
qed

lemma sample_heap_elim:
  obtains row :: Row and hp bp A M ch where "heap_at bp A M {} hp ch" "pool_size bp = 2" "heap_read ch (rid row) = Some (row_fields sample_row)"
    "\<forall>r. r \<noteq> rid row \<longrightarrow> heap_read ch r = None"
proof -
  obtain row :: Row and hp bp A M ch where "heap_at bp A M {} hp ch" "pool_size bp = 2"
    "\<forall>r. heap_read ch r = (if r = rid row then Some (row_fields sample_row) else None)" using sample_heap by blast
  then show thesis using that [of bp A M hp ch row] by simp
qed

theorem heap_delete_protocol_witness:
  "\<exists>row bp1 bp2 bp3 bp4. TableHeap_MarkDelete (rid (row :: Row)) bp1 = Some (True, bp2)
    \<and> TableHeap_RollbackDelete (rid row) bp2 = Some bp3 \<and> TableHeap_ApplyDelete (rid row) bp2 = Some bp4"
proof -
  obtain row :: Row and hp bp A M ch where h: "heap_at bp A M {} hp ch" "pool_size bp = 2" "heap_read ch (rid row) = Some (row_fields sample_row)"
    by (rule sample_heap_elim)
  have c: "finite ({} :: int set)" "card ({} :: int set) < pool_size bp" using h(2) by simp_all
  obtain bp2 bp3 bp4 where "TableHeap_MarkDelete (rid row) bp = Some (True, bp2)" "TableHeap_RollbackDelete (rid row) bp2 = Some bp3"
    "TableHeap_ApplyDelete (rid row) bp2 = Some bp4" using heap_delete_protocol [OF h(1,3) c] by blast
  then show ?thesis by blast
qed

theorem heap_scan_complete_witness:
  "\<exists>row hp bp rows bp'. scan hp bp = Some (rows, bp')
    \<and> map_of (map (\<lambda>row. (rid row, row_fields row)) rows) (rid (row :: Row)) = Some (row_fields sample_row)"
proof -
  obtain row :: Row and hp bp A M ch where h: "heap_at bp A M {} hp ch" "pool_size bp = 2" "heap_read ch (rid row) = Some (row_fields sample_row)"
    by (rule sample_heap_elim)
  have c: "finite ({} :: int set)" "card ({} :: int set) + 2 \<le> pool_size bp" using h(2) by simp_all
  obtain rows bp' where r: "scan hp bp = Some (rows, bp')" "\<forall>r. map_of (map (\<lambda>row. (rid row, row_fields row)) rows) r = heap_read ch r"
    using heap_scan_complete [OF h(1) c] by blast
  have "map_of (map (\<lambda>row. (rid row, row_fields row)) rows) (rid row) = Some (row_fields sample_row)"
    using r(2) [rule_format, of "rid row"] h(3) by simp
  with r(1) show ?thesis by blast
qed

end
