(* ===== verification/Index_Pages.thy ===== *)
theory Index_Pages
  imports Prelude "HOL-Library.Monad_Syntax"
begin

text \<open>
  The nodes of the B+ tree index: \<open>MiniSQL/src/page/b_plus_tree_page.cpp\<close>, \<open>b_plus_tree_leaf_page.cpp\<close> and the parts of
  \<open>b_plus_tree_internal_page.cpp\<close> that stay inside the node. Key and value types are type variables, as they are
  template parameters in the source; the comparator is an argument that may fail (\<open>None\<close>), because the
  comparator of the database asserts that a key can be read as a row. Access outside the array of a node is
  \<open>None\<close>. Sizes are unbounded integers; they stay below the length of the array, which is at most 509.
\<close>

section \<open>Nodes\<close>

datatype IndexPageType = INVALID_INDEX_PAGE | LEAF_PAGE | INTERNAL_PAGE

record BPlusTreePage =
  node_type :: IndexPageType
  node_lsn :: u32
  node_size :: int
  node_max_size :: int
  node_parent :: int
  node_id :: int

record ('k, 'v) LeafPage = BPlusTreePage +
  leaf_next :: int
  leaf_array :: "('k \<times> 'v) list"

record 'k InternalPage = BPlusTreePage +
  internal_array :: "('k \<times> int) list"

definition IsLeafPage :: "'a BPlusTreePage_scheme \<Rightarrow> bool" where
  "IsLeafPage n \<longleftrightarrow> node_type n = LEAF_PAGE"

definition IsRootPage :: "'a BPlusTreePage_scheme \<Rightarrow> bool" where
  "IsRootPage n \<longleftrightarrow> node_parent n = - 1"

definition IncreaseSize :: "int \<Rightarrow> 'a BPlusTreePage_scheme \<Rightarrow> 'a BPlusTreePage_scheme" where
  "IncreaseSize amount n = n\<lparr>node_size := node_size n + amount\<rparr>"

definition GetMinSize :: "'a BPlusTreePage_scheme \<Rightarrow> int" where
  "GetMinSize n = node_max_size n div 2"

section \<open>Arrays\<close>

definition arr_get :: "'a list \<Rightarrow> int \<Rightarrow> 'a option" where
  "arr_get a i = (if 0 \<le> i \<and> i < int (length a) then Some (a ! nat i) else None)"

definition arr_set :: "'a list \<Rightarrow> int \<Rightarrow> 'a \<Rightarrow> 'a list option" where
  "arr_set a i x = (if 0 \<le> i \<and> i < int (length a) then Some (a[nat i := x]) else None)"

text \<open>The loops \<open>for (i = size; i > index; i--) a[i] = a[i - 1]\<close> and \<open>for (i = index; i < n; i++) a[i] = a[i + 1]\<close>.\<close>

function shift_up :: "'a list \<Rightarrow> int \<Rightarrow> int \<Rightarrow> 'a list option" where
  "shift_up a i index = (if index < i then do {
     e \<leftarrow> arr_get a (i - 1);
     a \<leftarrow> arr_set a i e;
     shift_up a (i - 1) index }
   else Some a)"
  by pat_completeness auto

termination shift_up
  by (relation "measure (\<lambda>(a, i, index). nat (i - index))") auto

function shift_down :: "'a list \<Rightarrow> int \<Rightarrow> int \<Rightarrow> 'a list option" where
  "shift_down a i n = (if i < n then do {
     e \<leftarrow> arr_get a (i + 1);
     a \<leftarrow> arr_set a i e;
     shift_down a (i + 1) n }
   else Some a)"
  by pat_completeness auto

termination shift_down
  by (relation "measure (\<lambda>(a, i, n). nat (n - i))") auto

text \<open>The loop \<open>for (i = 0; i < size; i++) a[n + i] = items[i]\<close>.\<close>

function copy_items :: "'a list \<Rightarrow> int \<Rightarrow> 'a list \<Rightarrow> int \<Rightarrow> int \<Rightarrow> 'a list option" where
  "copy_items a n items i m = (if i < m then do {
     e \<leftarrow> arr_get items i;
     a \<leftarrow> arr_set a (n + i) e;
     copy_items a n items (i + 1) m }
   else Some a)"
  by pat_completeness auto

termination copy_items
  by (relation "measure (\<lambda>(a, n, items, i, m). nat (m - i))") auto

section \<open>Leaf pages\<close>

definition LeafPage_Init :: "int \<Rightarrow> int \<Rightarrow> int \<Rightarrow> ('k, 'v) LeafPage \<Rightarrow> ('k, 'v) LeafPage" where
  "LeafPage_Init pageId parent_id max_size lf =
     lf\<lparr>node_type := LEAF_PAGE, node_size := 0, node_id := pageId, node_parent := parent_id, leaf_next := - 1, node_max_size := max_size\<rparr>"

function KeyIndex_loop :: "('k \<Rightarrow> 'k \<Rightarrow> int option) \<Rightarrow> ('k \<times> 'v) list \<Rightarrow> 'k \<Rightarrow> int \<Rightarrow> int \<Rightarrow> int option" where
  "KeyIndex_loop comparator a key i j = (if i \<le> j then do {
     let mid = (i + j) div 2;
     e \<leftarrow> arr_get a mid;
     c \<leftarrow> comparator (fst e) key;
     if c < 0 then KeyIndex_loop comparator a key (mid + 1) j else KeyIndex_loop comparator a key i (mid - 1) }
   else Some i)"
  by pat_completeness auto

termination KeyIndex_loop
  by (relation "measure (\<lambda>(comparator, a, key, i, j). nat (j + 1 - i))") auto

definition LeafPage_KeyIndex :: "('k \<Rightarrow> 'k \<Rightarrow> int option) \<Rightarrow> 'k \<Rightarrow> ('k, 'v) LeafPage \<Rightarrow> int option" where
  "LeafPage_KeyIndex comparator key lf = KeyIndex_loop comparator (leaf_array lf) key 0 (node_size lf - 1)"

definition LeafPage_KeyAt :: "int \<Rightarrow> ('k, 'v) LeafPage \<Rightarrow> 'k option" where
  "LeafPage_KeyAt index lf = map_option fst (arr_get (leaf_array lf) index)"

definition LeafPage_GetItem :: "int \<Rightarrow> ('k, 'v) LeafPage \<Rightarrow> ('k \<times> 'v) option" where
  "LeafPage_GetItem index lf = arr_get (leaf_array lf) index"

text \<open>\<open>Lookup\<close> returns the value it finds, or \<open>None\<close> for the answer \<open>false\<close>.\<close>

function Lookup_loop :: "('k \<Rightarrow> 'k \<Rightarrow> int option) \<Rightarrow> ('k \<times> 'v) list \<Rightarrow> 'k \<Rightarrow> int \<Rightarrow> int \<Rightarrow> 'v option option" where
  "Lookup_loop comparator a key i j = (if i \<le> j then do {
     let mid = (i + j) div 2;
     e \<leftarrow> arr_get a mid;
     c \<leftarrow> comparator (fst e) key;
     if c < 0 then Lookup_loop comparator a key (mid + 1) j
     else if c > 0 then Lookup_loop comparator a key i (mid - 1)
     else Some (Some (snd e)) }
   else Some None)"
  by pat_completeness auto

termination Lookup_loop
  by (relation "measure (\<lambda>(comparator, a, key, i, j). nat (j + 1 - i))") auto

definition LeafPage_Lookup :: "('k \<Rightarrow> 'k \<Rightarrow> int option) \<Rightarrow> 'k \<Rightarrow> ('k, 'v) LeafPage \<Rightarrow> 'v option option" where
  "LeafPage_Lookup comparator key lf = Lookup_loop comparator (leaf_array lf) key 0 (node_size lf - 1)"

definition LeafPage_Insert :: "('k \<Rightarrow> 'k \<Rightarrow> int option) \<Rightarrow> 'k \<Rightarrow> 'v \<Rightarrow> ('k, 'v) LeafPage \<Rightarrow> (int \<times> ('k, 'v) LeafPage) option" where
  "LeafPage_Insert comparator key v lf = do {
     found \<leftarrow> LeafPage_Lookup comparator key lf;
     if found \<noteq> None then Some (node_size lf, lf) else do {
     index \<leftarrow> LeafPage_KeyIndex comparator key lf;
     a \<leftarrow> shift_up (leaf_array lf) (node_size lf) index;
     a \<leftarrow> arr_set a index (key, v);
     let lf = IncreaseSize 1 (lf\<lparr>leaf_array := a\<rparr>);
     Some (node_size lf, lf) }}"

definition LeafPage_CopyNFrom :: "('k \<times> 'v) list \<Rightarrow> int \<Rightarrow> ('k, 'v) LeafPage \<Rightarrow> ('k, 'v) LeafPage option" where
  "LeafPage_CopyNFrom items n lf = do {
     a \<leftarrow> copy_items (leaf_array lf) (node_size lf) items 0 n;
     Some (IncreaseSize n (lf\<lparr>leaf_array := a\<rparr>)) }"

text \<open>The operations on two nodes return this node and the recipient.\<close>

definition LeafPage_MoveHalfTo :: "('k, 'v) LeafPage \<Rightarrow> ('k, 'v) LeafPage \<Rightarrow> (('k, 'v) LeafPage \<times> ('k, 'v) LeafPage) option" where
  "LeafPage_MoveHalfTo lf recipient = do {
     let n = node_size lf - GetMinSize lf;
     recipient \<leftarrow> LeafPage_CopyNFrom (drop (nat (GetMinSize lf)) (leaf_array lf)) n recipient;
     Some (IncreaseSize (- n) lf, recipient) }"

definition LeafPage_RemoveAndDeleteRecord :: "('k \<Rightarrow> 'k \<Rightarrow> int option) \<Rightarrow> 'k \<Rightarrow> ('k, 'v) LeafPage \<Rightarrow> (int \<times> ('k, 'v) LeafPage) option" where
  "LeafPage_RemoveAndDeleteRecord comparator key lf = do {
     found \<leftarrow> LeafPage_Lookup comparator key lf;
     if found = None then Some (node_size lf, lf) else do {
     index \<leftarrow> LeafPage_KeyIndex comparator key lf;
     a \<leftarrow> shift_down (leaf_array lf) index (node_size lf - 1);
     let lf = IncreaseSize (- 1) (lf\<lparr>leaf_array := a\<rparr>);
     Some (node_size lf, lf) }}"

definition LeafPage_MoveAllTo :: "('k, 'v) LeafPage \<Rightarrow> ('k, 'v) LeafPage \<Rightarrow> (('k, 'v) LeafPage \<times> ('k, 'v) LeafPage) option" where
  "LeafPage_MoveAllTo lf recipient = do {
     recipient \<leftarrow> LeafPage_CopyNFrom (leaf_array lf) (node_size lf) recipient;
     let lf = lf\<lparr>node_size := 0\<rparr>;
     Some (lf, recipient\<lparr>leaf_next := leaf_next lf\<rparr>) }"

definition LeafPage_CopyLastFrom :: "'k \<times> 'v \<Rightarrow> ('k, 'v) LeafPage \<Rightarrow> ('k, 'v) LeafPage option" where
  "LeafPage_CopyLastFrom item lf = do {
     a \<leftarrow> arr_set (leaf_array lf) (node_size lf) item;
     Some (IncreaseSize 1 (lf\<lparr>leaf_array := a\<rparr>)) }"

definition LeafPage_MoveFirstToEndOf :: "('k, 'v) LeafPage \<Rightarrow> ('k, 'v) LeafPage \<Rightarrow> (('k, 'v) LeafPage \<times> ('k, 'v) LeafPage) option" where
  "LeafPage_MoveFirstToEndOf lf recipient = do {
     e \<leftarrow> arr_get (leaf_array lf) 0;
     recipient \<leftarrow> LeafPage_CopyLastFrom e recipient;
     a \<leftarrow> shift_down (leaf_array lf) 0 (node_size lf - 1);
     Some (IncreaseSize (- 1) (lf\<lparr>leaf_array := a\<rparr>), recipient) }"

definition LeafPage_CopyFirstFrom :: "'k \<times> 'v \<Rightarrow> ('k, 'v) LeafPage \<Rightarrow> ('k, 'v) LeafPage option" where
  "LeafPage_CopyFirstFrom item lf = do {
     a \<leftarrow> shift_up (leaf_array lf) (node_size lf) 0;
     a \<leftarrow> arr_set a 0 item;
     Some (IncreaseSize 1 (lf\<lparr>leaf_array := a\<rparr>)) }"

definition LeafPage_MoveLastToFrontOf :: "('k, 'v) LeafPage \<Rightarrow> ('k, 'v) LeafPage \<Rightarrow> (('k, 'v) LeafPage \<times> ('k, 'v) LeafPage) option" where
  "LeafPage_MoveLastToFrontOf lf recipient = do {
     e \<leftarrow> arr_get (leaf_array lf) (node_size lf - 1);
     recipient \<leftarrow> LeafPage_CopyFirstFrom e recipient;
     Some (IncreaseSize (- 1) lf, recipient) }"

section \<open>Internal pages\<close>

text \<open>Entry 0 has a child but no key.\<close>

definition InternalPage_Init :: "int \<Rightarrow> int \<Rightarrow> int \<Rightarrow> 'k InternalPage \<Rightarrow> 'k InternalPage" where
  "InternalPage_Init pageId parent_id max_size n =
     n\<lparr>node_parent := parent_id, node_id := pageId, node_max_size := max_size, node_type := INTERNAL_PAGE, node_size := 0\<rparr>"

definition InternalPage_KeyAt :: "int \<Rightarrow> 'k InternalPage \<Rightarrow> 'k option" where
  "InternalPage_KeyAt index n = map_option fst (arr_get (internal_array n) index)"

definition InternalPage_SetKeyAt :: "int \<Rightarrow> 'k \<Rightarrow> 'k InternalPage \<Rightarrow> 'k InternalPage option" where
  "InternalPage_SetKeyAt index key n = do {
     e \<leftarrow> arr_get (internal_array n) index;
     a \<leftarrow> arr_set (internal_array n) index (key, snd e);
     Some (n\<lparr>internal_array := a\<rparr>) }"

function ValueIndex_loop :: "('k \<times> int) list \<Rightarrow> int \<Rightarrow> int \<Rightarrow> int \<Rightarrow> int option" where
  "ValueIndex_loop a v i m = (if i < m then do {
     e \<leftarrow> arr_get a i;
     if snd e = v then Some i else ValueIndex_loop a v (i + 1) m }
   else Some (- 1))"
  by pat_completeness auto

termination ValueIndex_loop
  by (relation "measure (\<lambda>(a, v, i, m). nat (m - i))") auto

definition InternalPage_ValueIndex :: "int \<Rightarrow> 'k InternalPage \<Rightarrow> int option" where
  "InternalPage_ValueIndex v n = ValueIndex_loop (internal_array n) v 0 (node_size n)"

definition InternalPage_ValueAt :: "int \<Rightarrow> 'k InternalPage \<Rightarrow> int option" where
  "InternalPage_ValueAt index n = map_option snd (arr_get (internal_array n) index)"

function child_loop :: "('k \<Rightarrow> 'k \<Rightarrow> int option) \<Rightarrow> ('k \<times> int) list \<Rightarrow> 'k \<Rightarrow> int \<Rightarrow> int \<Rightarrow> int option" where
  "child_loop comparator a key i j = (if i \<le> j then do {
     let mid = (i + j) div 2;
     e \<leftarrow> arr_get a mid;
     c \<leftarrow> comparator (fst e) key;
     if c \<le> 0 then child_loop comparator a key (mid + 1) j else child_loop comparator a key i (mid - 1) }
   else Some i)"
  by pat_completeness auto

termination child_loop
  by (relation "measure (\<lambda>(comparator, a, key, i, j). nat (j + 1 - i))") auto

definition InternalPage_Lookup :: "('k \<Rightarrow> 'k \<Rightarrow> int option) \<Rightarrow> 'k \<Rightarrow> 'k InternalPage \<Rightarrow> int option" where
  "InternalPage_Lookup comparator key n = do {
     i \<leftarrow> child_loop comparator (internal_array n) key 1 (node_size n - 1);
     InternalPage_ValueAt (i - 1) n }"

definition InternalPage_PopulateNewRoot :: "int \<Rightarrow> 'k \<Rightarrow> int \<Rightarrow> 'k InternalPage \<Rightarrow> 'k InternalPage option" where
  "InternalPage_PopulateNewRoot old_value new_key new_value n = do {
     e \<leftarrow> arr_get (internal_array n) 0;
     a \<leftarrow> arr_set (internal_array n) 0 (fst e, old_value);
     a \<leftarrow> arr_set a 1 (new_key, new_value);
     Some (IncreaseSize 2 (n\<lparr>internal_array := a\<rparr>)) }"

definition InternalPage_InsertNodeAfter :: "int \<Rightarrow> 'k \<Rightarrow> int \<Rightarrow> 'k InternalPage \<Rightarrow> (int \<times> 'k InternalPage) option" where
  "InternalPage_InsertNodeAfter old_value new_key new_value n = do {
     i \<leftarrow> InternalPage_ValueIndex old_value n;
     let index = i + 1;
     a \<leftarrow> shift_up (internal_array n) (node_size n) index;
     a \<leftarrow> arr_set a index (new_key, new_value);
     let n = IncreaseSize 1 (n\<lparr>internal_array := a\<rparr>);
     Some (node_size n, n) }"

definition InternalPage_Remove :: "int \<Rightarrow> 'k InternalPage \<Rightarrow> 'k InternalPage option" where
  "InternalPage_Remove index n = do {
     a \<leftarrow> shift_down (internal_array n) index (node_size n - 1);
     Some (IncreaseSize (- 1) (n\<lparr>internal_array := a\<rparr>)) }"

definition InternalPage_RemoveAndReturnOnlyChild :: "'k InternalPage \<Rightarrow> (int \<times> 'k InternalPage) option" where
  "InternalPage_RemoveAndReturnOnlyChild n = do {
     let n = IncreaseSize (- 1) n;
     v \<leftarrow> InternalPage_ValueAt 0 n;
     Some (v, n) }"

section \<open>The loops on lists\<close>

lemma arr_get_nth [simp]: "i < length a \<Longrightarrow> arr_get a (int i) = Some (a ! i)"
  by (simp add: arr_get_def)

lemma arr_set_nth [simp]: "i < length a \<Longrightarrow> arr_set a (int i) x = Some (a[i := x])"
  by (simp add: arr_set_def)

lemma arr_get_mid: "i = int (length xs) \<Longrightarrow> arr_get (xs @ x # ys) i = Some x"
  by (simp add: arr_get_def)

lemma arr_set_mid: "i = int (length xs) \<Longrightarrow> arr_set (xs @ x # ys) i y = Some (xs @ y # ys)"
  by (simp add: arr_set_def)

declare shift_up.simps [simp del] shift_down.simps [simp del] copy_items.simps [simp del]
  KeyIndex_loop.simps [simp del] Lookup_loop.simps [simp del] child_loop.simps [simp del] ValueIndex_loop.simps [simp del]

text \<open>Shifting opens or closes a gap.\<close>

lemma shift_up_list:
  "i = int (length xs) \<Longrightarrow> k = i + int (length ys) \<Longrightarrow> \<exists>g. shift_up (xs @ ys @ z # zs) k i = Some (xs @ g # ys @ zs)"
proof (induction ys arbitrary: z zs k rule: rev_induct)
  case Nil
  then show ?case by (intro exI [of _ z]) (simp add: shift_up.simps)
next
  case (snoc y ys)
  have e: "xs @ (ys @ [y]) @ z # zs = (xs @ ys) @ y # z # zs" "xs @ (ys @ [y]) @ z # zs = (xs @ ys @ [y]) @ z # zs" by simp_all
  have "shift_up (xs @ (ys @ [y]) @ z # zs) k i = shift_up ((xs @ ys @ [y]) @ y # zs) (k - 1) i"
    using snoc.prems arr_get_mid [of "k - 1" "xs @ ys" y "z # zs"] arr_set_mid [of k "xs @ ys @ [y]" z zs y]
    by (subst shift_up.simps) simp
  then show ?case using snoc.IH [of "k - 1" y "y # zs"] snoc.prems by simp
qed

lemma shift_down_list:
  "i = int (length xs) \<Longrightarrow> k = i + int (length ys) \<Longrightarrow> \<exists>g. shift_down (xs @ x # ys @ zs) i k = Some (xs @ ys @ g # zs)"
proof (induction ys arbitrary: xs x i)
  case Nil
  then show ?case by (intro exI [of _ x]) (simp add: shift_down.simps)
next
  case (Cons y ys)
  have "shift_down (xs @ x # (y # ys) @ zs) i k = shift_down ((xs @ [y]) @ y # ys @ zs) (i + 1) k"
    using Cons.prems arr_get_mid [of "i + 1" "xs @ [x]" y "ys @ zs"] arr_set_mid [of i xs x "y # ys @ zs" y]
    by (subst shift_down.simps) simp
  then show ?case using Cons.IH [of "i + 1" "xs @ [y]" y] Cons.prems by simp
qed

lemma copy_items_list:
  "length olds = length new \<Longrightarrow> i = int (length pre) \<Longrightarrow> n + i = int (length xs) \<Longrightarrow> m = i + int (length new)
    \<Longrightarrow> copy_items (xs @ olds @ zs) n (pre @ new @ post) i m = Some (xs @ new @ zs)"
proof (induction new arbitrary: xs olds pre i)
  case Nil
  then show ?case by (simp add: copy_items.simps)
next
  case (Cons y new)
  then obtain o1 olds' where o: "olds = o1 # olds'" by (cases olds) auto
  have "copy_items (xs @ olds @ zs) n (pre @ (y # new) @ post) i m = copy_items ((xs @ [y]) @ olds' @ zs) n ((pre @ [y]) @ new @ post) (i + 1) m"
    using Cons.prems o arr_get_mid [of i pre y "new @ post"] arr_set_mid [of "n + i" xs o1 "olds' @ zs" y]
    by (subst copy_items.simps) simp
  then show ?case using Cons.IH [of olds' "i + 1" "pre @ [y]" "xs @ [y]"] Cons.prems o by simp
qed

section \<open>Binary search\<close>

text \<open>
  Each search finds a boundary: the entries before it compare one way with the key and those from it on
  the other way.
\<close>

lemma mid_bounds: "(i :: int) \<le> j \<Longrightarrow> i \<le> (i + j) div 2 \<and> (i + j) div 2 \<le> j"
  by presburger

lemma KeyIndex_loop_point:
  assumes "\<And>x. x < n \<Longrightarrow> \<exists>c. comparator (fst (a ! x)) key = Some c \<and> (c < 0 \<longleftrightarrow> x < k)"
    "n \<le> length a" "0 \<le> i" "i \<le> int k" "int k \<le> j + 1" "j < int n"
  shows "KeyIndex_loop comparator a key i j = Some (int k)"
  using assms
proof (induction comparator a key i j rule: KeyIndex_loop.induct)
  case (1 comparator a key i j)
  show ?case
  proof (cases "i \<le> j")
    case True
    define mid where "mid = (i + j) div 2"
    have m: "i \<le> mid" "mid \<le> j" using mid_bounds [OF True] by (simp_all add: mid_def)
    define x where "x = nat mid"
    have x: "mid = int x" "x < n" "x < length a" using m "1.prems" by (simp_all add: x_def)
    obtain c where c: "comparator (fst (a ! x)) key = Some c" "c < 0 \<longleftrightarrow> x < k" using "1.prems"(1) [OF x(2)] by blast
    have g: "arr_get a mid = Some (a ! x)" using x by simp
    show ?thesis
    proof (cases "c < 0")
      case neg: True
      have "KeyIndex_loop comparator a key (mid + 1) j = Some (int k)"
        using "1.prems" m x neg c(2) by (intro "1.IH"(1) [OF True mid_def g c(1) neg]) auto
      then show ?thesis using True g c(1) neg unfolding mid_def by (subst KeyIndex_loop.simps) simp
    next
      case pos: False
      have "KeyIndex_loop comparator a key i (mid - 1) = Some (int k)"
        using "1.prems" m x pos c(2) by (intro "1.IH"(2) [OF True mid_def g c(1) pos]) auto
      then show ?thesis using True g c(1) pos unfolding mid_def by (subst KeyIndex_loop.simps) simp
    qed
  next
    case False
    then show ?thesis using "1.prems" by (subst KeyIndex_loop.simps) simp
  qed
qed

lemma child_loop_point:
  assumes "\<And>x. 0 < x \<Longrightarrow> x < n \<Longrightarrow> \<exists>c. comparator (fst (a ! x)) key = Some c \<and> (c \<le> 0 \<longleftrightarrow> x < k)"
    "n \<le> length a" "1 \<le> i" "i \<le> int k" "int k \<le> j + 1" "j < int n"
  shows "child_loop comparator a key i j = Some (int k)"
  using assms
proof (induction comparator a key i j rule: child_loop.induct)
  case (1 comparator a key i j)
  show ?case
  proof (cases "i \<le> j")
    case True
    define mid where "mid = (i + j) div 2"
    have m: "i \<le> mid" "mid \<le> j" using mid_bounds [OF True] by (simp_all add: mid_def)
    define x where "x = nat mid"
    have x: "mid = int x" "x < n" "x < length a" "0 < x" using m "1.prems" by (simp_all add: x_def)
    obtain c where c: "comparator (fst (a ! x)) key = Some c" "c \<le> 0 \<longleftrightarrow> x < k" using "1.prems"(1) [OF x(4,2)] by blast
    have g: "arr_get a mid = Some (a ! x)" using x by simp
    show ?thesis
    proof (cases "c \<le> 0")
      case neg: True
      have "child_loop comparator a key (mid + 1) j = Some (int k)"
        using "1.prems" m x neg c(2) by (intro "1.IH"(1) [OF True mid_def g c(1) neg]) auto
      then show ?thesis using True g c(1) neg unfolding mid_def by (subst child_loop.simps) simp
    next
      case pos: False
      have "child_loop comparator a key i (mid - 1) = Some (int k)"
        using "1.prems" m x pos c(2) by (intro "1.IH"(2) [OF True mid_def g c(1) pos]) auto
      then show ?thesis using True g c(1) pos unfolding mid_def by (subst child_loop.simps) simp
    qed
  next
    case False
    then show ?thesis using "1.prems" by (subst child_loop.simps) simp
  qed
qed

lemma Lookup_loop_point:
  assumes "\<And>x. x < n \<Longrightarrow> \<exists>c. comparator (fst (a ! x)) key = Some c \<and> (c < 0 \<longleftrightarrow> x < k) \<and> (c = 0 \<longleftrightarrow> x = k \<and> hit)"
    "n \<le> length a" "0 \<le> i" "i \<le> int k" "int k \<le> j + 1" "j < int n"
  shows "Lookup_loop comparator a key i j = Some (if hit \<and> int k \<le> j then Some (snd (a ! k)) else None)"
  using assms
proof (induction comparator a key i j rule: Lookup_loop.induct)
  case (1 comparator a key i j)
  show ?case
  proof (cases "i \<le> j")
    case True
    define mid where "mid = (i + j) div 2"
    have m: "i \<le> mid" "mid \<le> j" using mid_bounds [OF True] by (simp_all add: mid_def)
    define x where "x = nat mid"
    have x: "mid = int x" "x < n" "x < length a" using m "1.prems" by (simp_all add: x_def)
    obtain c where c: "comparator (fst (a ! x)) key = Some c" "c < 0 \<longleftrightarrow> x < k" "c = 0 \<longleftrightarrow> x = k \<and> hit" using "1.prems"(1) [OF x(2)] by blast
    have g: "arr_get a mid = Some (a ! x)" using x by simp
    consider "c < 0" | "\<not> c < 0" "c > 0" | "c = 0" by linarith
    then show ?thesis
    proof cases
      case neg: 1
      have "Lookup_loop comparator a key (mid + 1) j = Some (if hit \<and> int k \<le> j then Some (snd (a ! k)) else None)"
        using "1.prems" m x neg c(2) by (intro "1.IH"(1) [OF True mid_def g c(1) neg]) auto
      then show ?thesis using True g c(1) neg unfolding mid_def by (subst Lookup_loop.simps) simp
    next
      case pos: 2
      have "Lookup_loop comparator a key i (mid - 1) = Some (if hit \<and> int k \<le> mid - 1 then Some (snd (a ! k)) else None)"
        using "1.prems" m x pos c(2) by (intro "1.IH"(2) [OF True mid_def g c(1) pos]) auto
      moreover have "hit \<longrightarrow> (int k \<le> mid - 1 \<longleftrightarrow> int k \<le> j)" using pos c(2,3) x m by auto
      ultimately show ?thesis using True g c(1) pos unfolding mid_def by (subst Lookup_loop.simps) auto
    next
      case 3
      then show ?thesis using True g c m x unfolding mid_def by (subst Lookup_loop.simps) auto
    qed
  next
    case False
    then show ?thesis using "1.prems" by (subst Lookup_loop.simps) simp
  qed
qed

section \<open>The contract of a comparator\<close>

text \<open>
  On the keys \<open>K\<close> of an index the comparator never fails and is a total preorder; keys it calls equal are
  one key for the tree.
\<close>

locale key_order =
  fixes comparator :: "'k \<Rightarrow> 'k \<Rightarrow> int option" and K :: "'k set"
  assumes total: "a \<in> K \<Longrightarrow> b \<in> K \<Longrightarrow> \<exists>c. comparator a b = Some c"
    and flip: "a \<in> K \<Longrightarrow> b \<in> K \<Longrightarrow> comparator a b = Some c \<Longrightarrow> comparator b a = Some d \<Longrightarrow> (c < 0 \<longleftrightarrow> d > 0) \<and> (c = 0 \<longleftrightarrow> d = 0)"
    and trans: "a \<in> K \<Longrightarrow> b \<in> K \<Longrightarrow> z \<in> K \<Longrightarrow> comparator a b = Some c \<Longrightarrow> comparator b z = Some d \<Longrightarrow> c \<le> 0 \<Longrightarrow> d \<le> 0
      \<Longrightarrow> \<exists>e. comparator a z = Some e \<and> e \<le> 0 \<and> (e = 0 \<longleftrightarrow> c = 0 \<and> d = 0)"

text \<open>The order of two keys, and keys that are equal for the comparator.\<close>

definition key_less :: "('k \<Rightarrow> 'k \<Rightarrow> int option) \<Rightarrow> 'k \<Rightarrow> 'k \<Rightarrow> bool" where
  "key_less comparator a b \<longleftrightarrow> (\<exists>c < 0. comparator a b = Some c)"

definition key_same :: "('k \<Rightarrow> 'k \<Rightarrow> int option) \<Rightarrow> 'k \<Rightarrow> 'k \<Rightarrow> bool" where
  "key_same comparator a b \<longleftrightarrow> comparator a b = Some 0"

context key_order
begin

lemma comparison:
  assumes "a \<in> K" "b \<in> K"
  shows "\<exists>c. comparator a b = Some c \<and> (c < 0 \<longleftrightarrow> key_less comparator a b) \<and> (c = 0 \<longleftrightarrow> key_same comparator a b)
    \<and> (c > 0 \<longleftrightarrow> key_less comparator b a)"
proof -
  obtain c d where cd: "comparator a b = Some c" "comparator b a = Some d" using total assms by meson
  have "(c < 0 \<longleftrightarrow> d > 0)" "(d < 0 \<longleftrightarrow> c > 0)" using flip [OF assms cd] flip [OF assms(2,1) cd(2,1)] by auto
  then show ?thesis using cd by (auto simp: key_less_def key_same_def)
qed

lemma less_cases:
  assumes "a \<in> K" "b \<in> K"
  shows "key_less comparator a b \<and> \<not> key_same comparator a b \<and> \<not> key_less comparator b a
    \<or> \<not> key_less comparator a b \<and> key_same comparator a b \<and> \<not> key_less comparator b a
    \<or> \<not> key_less comparator a b \<and> \<not> key_same comparator a b \<and> key_less comparator b a"
  using comparison [OF assms] by (metis linorder_cases less_irrefl order.strict_trans)

lemma same_sym: "a \<in> K \<Longrightarrow> b \<in> K \<Longrightarrow> key_same comparator a b \<Longrightarrow> key_same comparator b a"
  using less_cases [of a b] less_cases [of b a] by blast

lemma same_refl: "a \<in> K \<Longrightarrow> key_same comparator a a"
  using less_cases [of a a] by blast

lemma less_trans: "a \<in> K \<Longrightarrow> b \<in> K \<Longrightarrow> z \<in> K \<Longrightarrow> key_less comparator a b \<Longrightarrow> key_less comparator b z \<Longrightarrow> key_less comparator a z"
  using trans [of a b z] unfolding key_less_def by (metis order_less_le)

lemma less_same: "a \<in> K \<Longrightarrow> b \<in> K \<Longrightarrow> z \<in> K \<Longrightarrow> key_less comparator a b \<Longrightarrow> key_same comparator b z \<Longrightarrow> key_less comparator a z"
  using trans [of a b z] unfolding key_less_def key_same_def by (metis order_less_le order_refl)

lemma same_less: "a \<in> K \<Longrightarrow> b \<in> K \<Longrightarrow> z \<in> K \<Longrightarrow> key_same comparator a b \<Longrightarrow> key_less comparator b z \<Longrightarrow> key_less comparator a z"
  using trans [of a b z] unfolding key_less_def key_same_def by (metis order_less_le order_refl)

lemma same_trans: "a \<in> K \<Longrightarrow> b \<in> K \<Longrightarrow> z \<in> K \<Longrightarrow> key_same comparator a b \<Longrightarrow> key_same comparator b z \<Longrightarrow> key_same comparator a z"
  using trans [of a b z] unfolding key_same_def by fastforce

end

text \<open>\<open>BasicComparator<int>\<close>.\<close>

definition BasicComparator :: "int \<Rightarrow> int \<Rightarrow> int option" where
  "BasicComparator l r = Some (if l < r then - 1 else if l > r then 1 else 0)"

interpretation basic: key_order BasicComparator UNIV
  by unfold_locales (auto simp: BasicComparator_def split: if_splits)

section \<open>Entries of a leaf\<close>

definition keys_sorted :: "('k \<Rightarrow> 'k \<Rightarrow> int option) \<Rightarrow> ('k \<times> 'v) list \<Rightarrow> bool" where
  "keys_sorted comparator es \<longleftrightarrow> sorted_wrt (\<lambda>e f. key_less comparator (fst e) (fst f)) es"

definition leaf_holds :: "('k, 'v) LeafPage \<Rightarrow> ('k \<times> 'v) list \<Rightarrow> bool" where
  "leaf_holds lf es \<longleftrightarrow> node_size lf = int (length es) \<and> (\<exists>rest. leaf_array lf = es @ rest)"

definition find_entry :: "('k \<Rightarrow> 'k \<Rightarrow> int option) \<Rightarrow> ('k \<times> 'v) list \<Rightarrow> 'k \<Rightarrow> 'v option" where
  "find_entry comparator es key = map_option snd (find (\<lambda>e. key_same comparator (fst e) key) es)"

lemma find_entry_Nil [simp]: "find_entry comparator [] key = None"
  by (simp add: find_entry_def)

lemma find_entry_append: "find_entry comparator (xs @ ys) key = (case find_entry comparator xs key of None \<Rightarrow> find_entry comparator ys key | Some v \<Rightarrow> Some v)"
  by (induction xs) (auto simp: find_entry_def split: option.splits)

lemma find_entry_None: "(\<And>e. e \<in> set es \<Longrightarrow> \<not> key_same comparator (fst e) key) \<Longrightarrow> find_entry comparator es key = None"
  by (induction es) (auto simp: find_entry_def)

lemma find_entry_Cons: "find_entry comparator (e # es) key = (if key_same comparator (fst e) key then Some (snd e) else find_entry comparator es key)"
  by (simp add: find_entry_def)

context key_order
begin

text \<open>A key cuts a sorted list of entries into those before it, at most one equal to it, and those after it.\<close>

lemma sorted_cut:
  assumes "keys_sorted comparator es" "fst ` set es \<subseteq> K" "key \<in> K"
  obtains ls ms rs where "es = ls @ ms @ rs" "\<forall>e\<in>set ls. key_less comparator (fst e) key" "\<forall>e\<in>set rs. key_less comparator key (fst e)"
    "ms = [] \<or> (\<exists>e. ms = [e] \<and> key_same comparator (fst e) key)"
proof -
  have "\<exists>ls ms rs. es = ls @ ms @ rs \<and> (\<forall>e\<in>set ls. key_less comparator (fst e) key) \<and> (\<forall>e\<in>set rs. key_less comparator key (fst e))
    \<and> (ms = [] \<or> (\<exists>e. ms = [e] \<and> key_same comparator (fst e) key))"
    using assms(1,2)
  proof (induction es)
    case (Cons e es)
    have K: "fst e \<in> K" "\<forall>f\<in>set es. fst f \<in> K" "\<forall>f\<in>set es. key_less comparator (fst e) (fst f)" using Cons.prems by (auto simp: keys_sorted_def)
    have ex: "\<exists>ls ms rs. es = ls @ ms @ rs \<and> (\<forall>e\<in>set ls. key_less comparator (fst e) key) \<and> (\<forall>e\<in>set rs. key_less comparator key (fst e))
      \<and> (ms = [] \<or> (\<exists>e. ms = [e] \<and> key_same comparator (fst e) key))" using Cons by (simp add: keys_sorted_def)
    consider "key_less comparator (fst e) key" | "key_same comparator (fst e) key" | "key_less comparator key (fst e)"
      using less_cases [OF K(1) assms(3)] by blast
    then show ?case
    proof cases
      case 1
      obtain ls ms rs where c: "es = ls @ ms @ rs" "\<forall>e\<in>set ls. key_less comparator (fst e) key" "\<forall>e\<in>set rs. key_less comparator key (fst e)"
        "ms = [] \<or> (\<exists>e. ms = [e] \<and> key_same comparator (fst e) key)" using ex by blast
      then show ?thesis using 1 by (intro exI [of _ "e # ls"] exI [of _ ms] exI [of _ rs]) simp
    next
      case 2
      have "\<forall>f\<in>set es. key_less comparator key (fst f)" using same_less [OF assms(3) K(1)] same_sym [OF K(1) assms(3) 2] K(2,3) by blast
      then show ?thesis using 2 by (intro exI [of _ "[]"] exI [of _ "[e]"] exI [of _ es]) simp
    next
      case 3
      have "\<forall>f\<in>set (e # es). key_less comparator key (fst f)" using less_trans [OF assms(3) K(1)] 3 K(2,3) by auto
      then show ?thesis by (intro exI [of _ "[]"] exI [of _ "[]"] exI [of _ "e # es"]) simp
    qed
  qed simp
  then show thesis using that by blast
qed

lemma find_entry_cut:
  assumes "fst ` set (ls @ ms @ rs) \<subseteq> K" "key \<in> K" "\<forall>e\<in>set ls. key_less comparator (fst e) key" "\<forall>e\<in>set rs. key_less comparator key (fst e)"
    "ms = [] \<or> (\<exists>e. ms = [e] \<and> key_same comparator (fst e) key)"
  shows "find_entry comparator (ls @ ms @ rs) key = (case ms of [] \<Rightarrow> None | e # _ \<Rightarrow> Some (snd e))"
proof -
  have "\<not> key_same comparator (fst e) key" if "e \<in> set ls \<or> e \<in> set rs" for e
  proof -
    have "fst e \<in> K" using that assms(1) by auto
    then show ?thesis using less_cases [OF _ assms(2)] that assms(3,4) by blast
  qed
  then have l: "find_entry comparator ls key = None" "find_entry comparator rs key = None" by (simp_all add: find_entry_None)
  then show ?thesis using assms(5) by (auto simp: find_entry_append find_entry_Cons)
qed

end

section \<open>Operations of a leaf\<close>

definition leaf_ok :: "('k \<Rightarrow> 'k \<Rightarrow> int option) \<Rightarrow> 'k set \<Rightarrow> ('k \<times> 'v) list \<Rightarrow> bool" where
  "leaf_ok comparator K es \<longleftrightarrow> keys_sorted comparator es \<and> fst ` set es \<subseteq> K"

lemma leaf_holds_array: "leaf_holds lf es \<Longrightarrow> leaf_array lf = es @ drop (length es) (leaf_array lf) \<and> length es \<le> length (leaf_array lf)"
  by (auto simp: leaf_holds_def)

context key_order
begin

lemma cut_verdict:
  assumes "fst ` set (ls @ ms @ rs) \<subseteq> K" "key \<in> K" "\<forall>e\<in>set ls. key_less comparator (fst e) key" "\<forall>e\<in>set rs. key_less comparator key (fst e)"
    "ms = [] \<or> (\<exists>e. ms = [e] \<and> key_same comparator (fst e) key)" "x < length (ls @ ms @ rs)"
  shows "\<exists>c. comparator (fst ((ls @ ms @ rs) ! x)) key = Some c \<and> (c < 0 \<longleftrightarrow> x < length ls) \<and> (c = 0 \<longleftrightarrow> x = length ls \<and> ms \<noteq> [])"
proof -
  let ?e = "(ls @ ms @ rs) ! x"
  have e: "fst ?e \<in> K" using assms(1,6) nth_mem by blast
  have in_rs: "?e \<in> set rs" if "length ls \<le> x" "\<not> (x = length ls \<and> ms \<noteq> [])"
  proof -
    have "length (ls @ ms) \<le> x" using that assms(5) by auto
    then have "?e = rs ! (x - length (ls @ ms))" "x - length (ls @ ms) < length rs" using assms(6) by (auto simp: nth_append)
    then show ?thesis by simp
  qed
  consider "x < length ls" | "x = length ls" "ms \<noteq> []" | "length ls \<le> x" "\<not> (x = length ls \<and> ms \<noteq> [])" by linarith
  then show ?thesis
  proof cases
    case 1
    then have "key_less comparator (fst ?e) key" using assms(3) by (simp add: nth_append)
    then show ?thesis using comparison [OF e assms(2)] less_cases [OF e assms(2)] 1 by auto
  next
    case 2
    then have "key_same comparator (fst ?e) key" using assms(5) by (auto simp: nth_append)
    then show ?thesis using comparison [OF e assms(2)] less_cases [OF e assms(2)] 2 by auto
  next
    case 3
    then have "key_less comparator key (fst ?e)" using in_rs assms(4) by blast
    then show ?thesis using comparison [OF e assms(2)] less_cases [OF e assms(2)] 3 by auto
  qed
qed

lemma leaf_search:
  assumes "leaf_holds lf (ls @ ms @ rs)" "fst ` set (ls @ ms @ rs) \<subseteq> K" "key \<in> K"
    "\<forall>e\<in>set ls. key_less comparator (fst e) key" "\<forall>e\<in>set rs. key_less comparator key (fst e)"
    "ms = [] \<or> (\<exists>e. ms = [e] \<and> key_same comparator (fst e) key)"
  shows "LeafPage_Lookup comparator key lf = Some (find_entry comparator (ls @ ms @ rs) key)"
    "LeafPage_KeyIndex comparator key lf = Some (int (length ls))"
proof -
  let ?n = "length (ls @ ms @ rs)"
  obtain rest where a: "leaf_array lf = (ls @ ms @ rs) @ rest" and n: "node_size lf = int ?n" using assms(1) by (auto simp: leaf_holds_def)
  have v: "\<exists>c. comparator (fst (leaf_array lf ! x)) key = Some c \<and> (c < 0 \<longleftrightarrow> x < length ls) \<and> (c = 0 \<longleftrightarrow> x = length ls \<and> ms \<noteq> [])"
    if "x < ?n" for x
  proof -
    have "leaf_array lf ! x = (ls @ ms @ rs) ! x" unfolding a using that by (rule nth_append_left)
    then show ?thesis using cut_verdict [OF assms(2-6) that] by simp
  qed
  show "LeafPage_KeyIndex comparator key lf = Some (int (length ls))"
    unfolding LeafPage_KeyIndex_def by (rule KeyIndex_loop_point [where n = ?n]) (use v a n in auto)
  have "LeafPage_Lookup comparator key lf = Some (if ms \<noteq> [] \<and> int (length ls) \<le> node_size lf - 1 then Some (snd (leaf_array lf ! length ls)) else None)"
    unfolding LeafPage_Lookup_def by (rule Lookup_loop_point [where n = ?n]) (use v a n in auto)
  also have "\<dots> = Some (case ms of [] \<Rightarrow> None | e # _ \<Rightarrow> Some (snd e))" using a n by (cases ms) (auto simp: nth_append)
  finally show "LeafPage_Lookup comparator key lf = Some (find_entry comparator (ls @ ms @ rs) key)"
    using find_entry_cut [OF assms(2-6)] by simp
qed

lemma sorted_insert_between:
  assumes "keys_sorted comparator (ls @ rs)" "\<forall>e\<in>set ls. key_less comparator (fst e) (fst x)" "\<forall>e\<in>set rs. key_less comparator (fst x) (fst e)"
  shows "keys_sorted comparator (ls @ x # rs)"
  using assms by (auto simp: keys_sorted_def sorted_wrt_append)

lemma find_entry_update:
  assumes "fst ` set (ls @ rs) \<subseteq> K" "key \<in> K" "q \<in> K" "\<forall>e\<in>set ls. key_less comparator (fst e) key" "\<forall>e\<in>set rs. key_less comparator key (fst e)"
  shows "find_entry comparator (ls @ (key, v) # rs) q = (if key_same comparator key q then Some v else find_entry comparator (ls @ rs) q)"
    "key_same comparator key q \<Longrightarrow> find_entry comparator (ls @ rs) q = None"
proof -
  have n: "\<not> key_same comparator (fst e) q" if "key_same comparator key q" "e \<in> set ls \<or> e \<in> set rs" for e
  proof -
    have e: "fst e \<in> K" using that assms(1) by auto
    have "key_less comparator (fst e) q \<or> key_less comparator q (fst e)"
      using that assms(2-5) e less_same [OF e assms(2,3)] same_less [OF assms(3,2) e same_sym [OF assms(2,3)]] by blast
    then show ?thesis using less_cases [OF e assms(3)] by blast
  qed
  then show "key_same comparator key q \<Longrightarrow> find_entry comparator (ls @ rs) q = None" by (intro find_entry_None) auto
  show "find_entry comparator (ls @ (key, v) # rs) q = (if key_same comparator key q then Some v else find_entry comparator (ls @ rs) q)"
  proof (cases "key_same comparator key q")
    case True
    then have "find_entry comparator ls q = None" using n by (intro find_entry_None) auto
    then show ?thesis using True by (simp add: find_entry_append find_entry_Cons)
  next
    case False
    then show ?thesis by (simp add: find_entry_append find_entry_Cons split: option.splits)
  qed
qed

text \<open>Insertion of a new key, with room for one more entry.\<close>

lemma leaf_insert_new:
  assumes "leaf_holds lf es" "leaf_ok comparator K es" "key \<in> K" "find_entry comparator es key = None" "length es < length (leaf_array lf)"
  shows "\<exists>lf' ls rs. LeafPage_Insert comparator key v lf = Some (int (length es) + 1, lf') \<and> es = ls @ rs \<and> leaf_holds lf' (ls @ (key, v) # rs)
    \<and> leaf_ok comparator K (ls @ (key, v) # rs) \<and> lf' = lf\<lparr>node_size := int (length es) + 1, leaf_array := leaf_array lf'\<rparr>
    \<and> length (leaf_array lf') = length (leaf_array lf)
    \<and> (\<forall>q\<in>K. find_entry comparator (ls @ (key, v) # rs) q = (if key_same comparator key q then Some v else find_entry comparator es q))"
proof -
  have ok: "keys_sorted comparator es" "fst ` set es \<subseteq> K" using assms(2) by (auto simp: leaf_ok_def)
  obtain ls ms rs where c: "es = ls @ ms @ rs" "\<forall>e\<in>set ls. key_less comparator (fst e) key" "\<forall>e\<in>set rs. key_less comparator key (fst e)"
    "ms = [] \<or> (\<exists>e. ms = [e] \<and> key_same comparator (fst e) key)" using sorted_cut [OF ok assms(3)] by blast
  note ok' = ok(2) [unfolded c(1)]
  have ms: "ms = []" using find_entry_cut [OF ok' assms(3) c(2-4)] assms(4) c(1) by (cases ms) auto
  note S = leaf_search [OF assms(1) [unfolded c(1)] ok' assms(3) c(2-4)]
  obtain z rest where a: "leaf_array lf = ls @ rs @ z # rest" and n: "node_size lf = int (length es)"
    using assms(1,5) c(1) ms unfolding leaf_holds_def by (metis append.assoc append_Nil append_Nil2 length_append less_irrefl list.exhaust)
  obtain g where g: "shift_up (ls @ rs @ z # rest) (node_size lf) (int (length ls)) = Some (ls @ g # rs @ rest)"
    using shift_up_list [of "int (length ls)" ls "node_size lf" rs z rest] n c(1) ms by auto
  let ?lf = "IncreaseSize 1 (lf\<lparr>leaf_array := ls @ (key, v) # rs @ rest\<rparr>)"
  have "LeafPage_Insert comparator key v lf = Some (int (length es) + 1, ?lf)"
    using S assms(4) c(1) a g arr_set_mid [of "int (length ls)" ls g "rs @ rest" "(key, v)"] n by (simp add: LeafPage_Insert_def IncreaseSize_def)
  moreover have "leaf_holds ?lf (ls @ (key, v) # rs)" using n c(1) ms by (simp add: leaf_holds_def IncreaseSize_def)
  moreover have "leaf_ok comparator K (ls @ (key, v) # rs)"
    using sorted_insert_between [of ls rs "(key, v)"] ok c ms assms(3) by (auto simp: leaf_ok_def)
  moreover have "find_entry comparator (ls @ (key, v) # rs) q = (if key_same comparator key q then Some v else find_entry comparator es q)" if "q \<in> K" for q
    using find_entry_update(1) [of ls rs, OF _ assms(3) that c(2,3)] ok' c(1) ms by simp
  ultimately show ?thesis using c(1) ms a n
    by (intro exI [of _ ?lf] exI [of _ ls] exI [of _ rs]) (simp add: IncreaseSize_def)
qed

lemma leaf_insert_present:
  assumes "leaf_holds lf es" "leaf_ok comparator K es" "key \<in> K" "find_entry comparator es key \<noteq> None"
  shows "LeafPage_Insert comparator key v lf = Some (int (length es), lf)"
proof -
  have ok: "keys_sorted comparator es" "fst ` set es \<subseteq> K" using assms(2) by (auto simp: leaf_ok_def)
  obtain ls ms rs where c: "es = ls @ ms @ rs" "\<forall>e\<in>set ls. key_less comparator (fst e) key" "\<forall>e\<in>set rs. key_less comparator key (fst e)"
    "ms = [] \<or> (\<exists>e. ms = [e] \<and> key_same comparator (fst e) key)" using sorted_cut [OF ok assms(3)] by blast
  from leaf_search(1) [OF assms(1) [unfolded c(1)] ok(2) [unfolded c(1)] assms(3) c(2-4)] show ?thesis
    using assms(1,4) c(1) by (auto simp: LeafPage_Insert_def leaf_holds_def)
qed

lemma leaf_lookup:
  assumes "leaf_holds lf es" "leaf_ok comparator K es" "key \<in> K"
  shows "LeafPage_Lookup comparator key lf = Some (find_entry comparator es key)"
proof -
  have ok: "keys_sorted comparator es" "fst ` set es \<subseteq> K" using assms(2) by (auto simp: leaf_ok_def)
  obtain ls ms rs where c: "es = ls @ ms @ rs" "\<forall>e\<in>set ls. key_less comparator (fst e) key" "\<forall>e\<in>set rs. key_less comparator key (fst e)"
    "ms = [] \<or> (\<exists>e. ms = [e] \<and> key_same comparator (fst e) key)" using sorted_cut [OF ok assms(3)] by blast
  from leaf_search(1) [OF assms(1) [unfolded c(1)] ok(2) [unfolded c(1)] assms(3) c(2-4)] show ?thesis using c(1) by simp
qed

end

context key_order
begin

lemma leaf_remove_present:
  assumes "leaf_holds lf es" "leaf_ok comparator K es" "key \<in> K" "find_entry comparator es key \<noteq> None"
  shows "\<exists>lf' ls e rs. LeafPage_RemoveAndDeleteRecord comparator key lf = Some (int (length es) - 1, lf') \<and> es = ls @ e # rs \<and> leaf_holds lf' (ls @ rs)
    \<and> leaf_ok comparator K (ls @ rs) \<and> lf' = lf\<lparr>node_size := int (length es) - 1, leaf_array := leaf_array lf'\<rparr>
    \<and> length (leaf_array lf') = length (leaf_array lf)
    \<and> (\<forall>q\<in>K. find_entry comparator (ls @ rs) q = (if key_same comparator key q then None else find_entry comparator es q))"
proof -
  have ok: "keys_sorted comparator es" "fst ` set es \<subseteq> K" using assms(2) by (auto simp: leaf_ok_def)
  obtain ls ms rs where c: "es = ls @ ms @ rs" "\<forall>e\<in>set ls. key_less comparator (fst e) key" "\<forall>e\<in>set rs. key_less comparator key (fst e)"
    "ms = [] \<or> (\<exists>e. ms = [e] \<and> key_same comparator (fst e) key)" using sorted_cut [OF ok assms(3)] by blast
  note ok' = ok(2) [unfolded c(1)]
  obtain e where e: "ms = [e]" "key_same comparator (fst e) key" using find_entry_cut [OF ok' assms(3) c(2-4)] assms(4) c(1,4) by (cases ms) auto
  have es: "es = ls @ e # rs" using c(1) e(1) by simp
  have eK: "fst e \<in> K" "fst ` set (ls @ rs) \<subseteq> K" using ok(2) es by auto
  have so: "\<forall>f\<in>set ls. key_less comparator (fst f) (fst e)" "\<forall>f\<in>set rs. key_less comparator (fst e) (fst f)"
    using ok(1) es by (auto simp: keys_sorted_def sorted_wrt_append)
  note S = leaf_search [OF assms(1) [unfolded c(1)] ok' assms(3) c(2-4)]
  obtain rest where a: "leaf_array lf = ls @ e # rs @ rest" and n: "node_size lf = int (length es)"
    using assms(1) es by (auto simp: leaf_holds_def)
  obtain g where g: "shift_down (ls @ e # rs @ rest) (int (length ls)) (node_size lf - 1) = Some (ls @ rs @ g # rest)"
    using shift_down_list [of "int (length ls)" ls "node_size lf - 1" rs e rest] n es by auto
  let ?lf = "IncreaseSize (- 1) (lf\<lparr>leaf_array := ls @ rs @ g # rest\<rparr>)"
  have "LeafPage_RemoveAndDeleteRecord comparator key lf = Some (int (length es) - 1, ?lf)"
    using S assms(4) c(1) a g n by (auto simp: LeafPage_RemoveAndDeleteRecord_def IncreaseSize_def)
  moreover have "leaf_holds ?lf (ls @ rs)" using n es by (simp add: leaf_holds_def IncreaseSize_def)
  moreover have "leaf_ok comparator K (ls @ rs)" using ok(1) es eK by (auto simp: leaf_ok_def keys_sorted_def sorted_wrt_append)
  moreover have "find_entry comparator (ls @ rs) q = (if key_same comparator key q then None else find_entry comparator es q)" if "q \<in> K" for q
  proof -
    have "key_same comparator key q \<longleftrightarrow> key_same comparator (fst e) q"
      using e(2) same_trans [OF assms(3) eK(1) that] same_trans [OF eK(1) assms(3) that] same_sym [OF eK(1) assms(3)] by blast
    then show ?thesis using find_entry_update(1) [OF eK(2,1) that so, of "snd e"] find_entry_update(2) [OF eK(2,1) that so] es by simp
  qed
  ultimately show ?thesis using es a n
    by (intro exI [of _ ?lf] exI [of _ ls] exI [of _ e] exI [of _ rs]) (simp add: IncreaseSize_def)
qed

lemma leaf_remove_absent:
  assumes "leaf_holds lf es" "leaf_ok comparator K es" "key \<in> K" "find_entry comparator es key = None"
  shows "LeafPage_RemoveAndDeleteRecord comparator key lf = Some (int (length es), lf)"
  using leaf_lookup [OF assms(1-3)] assms(1,4) by (simp add: LeafPage_RemoveAndDeleteRecord_def leaf_holds_def)

lemma find_entry_same:
  assumes "leaf_ok comparator K es" "key \<in> K" "q \<in> K" "key_same comparator key q"
  shows "find_entry comparator es key = find_entry comparator es q"
proof -
  have "key_same comparator (fst e) key \<longleftrightarrow> key_same comparator (fst e) q" if "e \<in> set es" for e
  proof -
    have e: "fst e \<in> K" using that assms(1) by (auto simp: leaf_ok_def)
    show ?thesis using same_trans [OF e assms(2,3) _ assms(4)] same_trans [OF e assms(3,2) _ same_sym [OF assms(2-4)]] by blast
  qed
  then show ?thesis by (induction es) (auto simp: find_entry_def)
qed

end

text \<open>A leaf against a map: calls of \<open>Insert\<close> and \<open>RemoveAndDeleteRecord\<close> in any order.\<close>

datatype ('k, 'v) leaf_call = Put 'k 'v | Del 'k

fun call_key :: "('k, 'v) leaf_call \<Rightarrow> 'k" where
  "call_key (Put k v) = k"
| "call_key (Del k) = k"

fun leaf_run :: "('k \<Rightarrow> 'k \<Rightarrow> int option) \<Rightarrow> ('k, 'v) leaf_call list \<Rightarrow> ('k, 'v) LeafPage \<Rightarrow> ('k, 'v) LeafPage option" where
  "leaf_run comparator [] lf = Some lf"
| "leaf_run comparator (Put k v # cs) lf = do { (_, lf) \<leftarrow> LeafPage_Insert comparator k v lf; leaf_run comparator cs lf }"
| "leaf_run comparator (Del k # cs) lf = do { (_, lf) \<leftarrow> LeafPage_RemoveAndDeleteRecord comparator k lf; leaf_run comparator cs lf }"

fun map_run :: "('k \<Rightarrow> 'k \<Rightarrow> int option) \<Rightarrow> ('k, 'v) leaf_call list \<Rightarrow> ('k \<rightharpoonup> 'v) \<Rightarrow> ('k \<rightharpoonup> 'v)" where
  "map_run comparator [] m = m"
| "map_run comparator (Put k v # cs) m = map_run comparator cs (if m k = None then (\<lambda>q. if key_same comparator k q then Some v else m q) else m)"
| "map_run comparator (Del k # cs) m = map_run comparator cs (\<lambda>q. if key_same comparator k q then None else m q)"

lemma map_run_cong:
  "(\<And>q. q \<in> K \<Longrightarrow> m q = m' q) \<Longrightarrow> call_key ` set cs \<subseteq> K \<Longrightarrow> q \<in> K \<Longrightarrow> map_run comparator cs m q = map_run comparator cs m' q"
proof (induction comparator cs m arbitrary: m' rule: map_run.induct)
  case (2 comparator k v cs m)
  have "m k = m' k" using "2.prems" by simp
  then show ?case using "2.prems" unfolding map_run.simps by (intro "2.IH") auto
next
  case (3 comparator k cs m)
  then show ?case unfolding map_run.simps by (intro "3.IH") auto
qed simp

context key_order
begin

lemma leaf_run_ok:
  "leaf_holds lf es \<Longrightarrow> leaf_ok comparator K es \<Longrightarrow> call_key ` set cs \<subseteq> K \<Longrightarrow> length es + length cs \<le> length (leaf_array lf)
    \<Longrightarrow> \<exists>lf' es'. leaf_run comparator cs lf = Some lf' \<and> leaf_holds lf' es' \<and> leaf_ok comparator K es'
      \<and> (\<forall>q\<in>K. find_entry comparator es' q = map_run comparator cs (find_entry comparator es) q)"
proof (induction cs arbitrary: lf es)
  case (Cons call cs)
  have K: "call_key ` set cs \<subseteq> K" "call_key call \<in> K" using Cons.prems(3) by auto
  have step: "\<exists>lf' es'. leaf_run comparator (call # cs) lf = Some lf' \<and> leaf_holds lf' es' \<and> leaf_ok comparator K es'
      \<and> (\<forall>q\<in>K. find_entry comparator es' q = map_run comparator (call # cs) (find_entry comparator es) q)"
    if "leaf_run comparator (call # cs) lf = leaf_run comparator cs lf1" "leaf_holds lf1 es1" "leaf_ok comparator K es1"
      "length es1 \<le> length es + 1" "length (leaf_array lf1) = length (leaf_array lf)"
      "map_run comparator (call # cs) (find_entry comparator es) = map_run comparator cs m" "\<And>q. q \<in> K \<Longrightarrow> find_entry comparator es1 q = m q" for lf1 es1 m
    using Cons.IH [OF that(2,3) K(1)] Cons.prems(4) that(1,4-6) map_run_cong [OF that(7) K(1)] by auto
  show ?case
  proof (cases call)
    case (Put k v)
    then have k: "k \<in> K" using K(2) by simp
    show ?thesis
    proof (cases "find_entry comparator es k = None")
      case True
      have room: "length es < length (leaf_array lf)" using Cons.prems(4) by simp
      obtain lf1 ls rs where i: "LeafPage_Insert comparator k v lf = Some (int (length es) + 1, lf1)" "es = ls @ rs" "leaf_holds lf1 (ls @ (k, v) # rs)"
        "leaf_ok comparator K (ls @ (k, v) # rs)" "length (leaf_array lf1) = length (leaf_array lf)"
        "\<forall>q\<in>K. find_entry comparator (ls @ (k, v) # rs) q = (if key_same comparator k q then Some v else find_entry comparator es q)"
        using leaf_insert_new [OF Cons.prems(1,2) k True room] by blast
      have "length (ls @ (k, v) # rs) \<le> length es + 1" using i(2) by simp
      then show ?thesis using i(1,5,6) Put True by (intro step [OF _ i(3,4)]) simp_all
    next
      case False
      then show ?thesis using leaf_insert_present [OF Cons.prems(1,2) k False] Put by (intro step [OF _ Cons.prems(1,2)]) auto
    qed
  next
    case (Del k)
    then have k: "k \<in> K" using K(2) by simp
    show ?thesis
    proof (cases "find_entry comparator es k = None")
      case True
      have "find_entry comparator es q = (if key_same comparator k q then None else find_entry comparator es q)" if "q \<in> K" for q
        using find_entry_same [OF Cons.prems(2) k that] True by simp
      then show ?thesis using leaf_remove_absent [OF Cons.prems(1,2) k True] Del
        by (intro step [OF _ Cons.prems(1,2), of "\<lambda>q. if key_same comparator k q then None else find_entry comparator es q"]) simp_all
    next
      case False
      obtain lf1 ls e rs where i: "LeafPage_RemoveAndDeleteRecord comparator k lf = Some (int (length es) - 1, lf1)" "es = ls @ e # rs" "leaf_holds lf1 (ls @ rs)"
        "leaf_ok comparator K (ls @ rs)" "length (leaf_array lf1) = length (leaf_array lf)"
        "\<forall>q\<in>K. find_entry comparator (ls @ rs) q = (if key_same comparator k q then None else find_entry comparator es q)"
        using leaf_remove_present [OF Cons.prems(1,2) k False] by blast
      have "length (ls @ rs) \<le> length es + 1" using i(2) by simp
      then show ?thesis using i(1,5,6) Del by (intro step [OF _ i(3,4)]) simp_all
    qed
  qed
qed auto

end

section \<open>Splitting, merging and redistribution\<close>

lemma leaf_copy:
  assumes "leaf_holds r fs" "length fs + length new \<le> length (leaf_array r)"
  shows "\<exists>r'. LeafPage_CopyNFrom (new @ post) (int (length new)) r = Some r' \<and> leaf_holds r' (fs @ new)
    \<and> r' = r\<lparr>node_size := int (length fs + length new), leaf_array := leaf_array r'\<rparr> \<and> length (leaf_array r') = length (leaf_array r)"
proof -
  obtain rest where a: "leaf_array r = fs @ rest" and n: "node_size r = int (length fs)" using assms(1) by (auto simp: leaf_holds_def)
  obtain olds zs where o: "rest = olds @ zs" "length olds = length new" using assms(2) a
    by (metis append_take_drop_id length_append length_take min.absorb2 nat_add_left_cancel_le)
  have "copy_items (fs @ olds @ zs) (int (length fs)) ([] @ new @ post) 0 (int (length new)) = Some (fs @ new @ zs)"
    by (rule copy_items_list) (use o(2) in simp_all)
  then have "LeafPage_CopyNFrom (new @ post) (int (length new)) r = Some (IncreaseSize (int (length new)) (r\<lparr>leaf_array := fs @ new @ zs\<rparr>))"
    using a n o(1) by (simp add: LeafPage_CopyNFrom_def)
  then show ?thesis using a n o by (simp add: leaf_holds_def IncreaseSize_def)
qed

lemma leaf_move_half:
  assumes "leaf_holds lf es" "leaf_holds r fs" "0 \<le> GetMinSize lf" "nat (GetMinSize lf) \<le> length es"
    "length fs + length es - nat (GetMinSize lf) \<le> length (leaf_array r)"
  shows "\<exists>lf' r'. LeafPage_MoveHalfTo lf r = Some (lf', r') \<and> leaf_holds lf' (take (nat (GetMinSize lf)) es)
    \<and> leaf_holds r' (fs @ drop (nat (GetMinSize lf)) es) \<and> lf' = lf\<lparr>node_size := GetMinSize lf\<rparr>
    \<and> r' = r\<lparr>node_size := int (length fs + length es) - GetMinSize lf, leaf_array := leaf_array r'\<rparr> \<and> length (leaf_array r') = length (leaf_array r)"
proof -
  let ?h = "nat (GetMinSize lf)"
  obtain rest where a: "leaf_array lf = es @ rest" and n: "node_size lf = int (length es)" using assms(1) by (auto simp: leaf_holds_def)
  have "length fs + length (drop ?h es) \<le> length (leaf_array r)" using assms(4,5) by simp
  from leaf_copy [OF assms(2) this, of rest] obtain r' where r: "LeafPage_CopyNFrom (drop ?h es @ rest) (int (length (drop ?h es))) r = Some r'"
    "leaf_holds r' (fs @ drop ?h es)" "r' = r\<lparr>node_size := int (length fs + length (drop ?h es)), leaf_array := leaf_array r'\<rparr>"
    "length (leaf_array r') = length (leaf_array r)" by blast
  have sz: "node_size lf - GetMinSize lf = int (length (drop ?h es))" "int (length fs + length (drop ?h es)) = int (length fs + length es) - GetMinSize lf"
    using n assms(3,4) by (simp_all add: of_nat_diff)
  have "LeafPage_MoveHalfTo lf r = Some (IncreaseSize (- (node_size lf - GetMinSize lf)) lf, r')"
    using r(1) a assms(4) by (simp add: LeafPage_MoveHalfTo_def sz(1))
  moreover have "IncreaseSize (- (node_size lf - GetMinSize lf)) lf = lf\<lparr>node_size := GetMinSize lf\<rparr>" by (simp add: IncreaseSize_def)
  moreover have "leaf_holds (lf\<lparr>node_size := GetMinSize lf\<rparr>) (take ?h es)"
    using a assms(3,4) by (auto simp: leaf_holds_def intro: exI [of _ "drop ?h es @ rest"])
  ultimately show ?thesis using r(2-4) unfolding sz(2) by metis
qed

text \<open>
  C36: moving entries between neighbouring leaves. Splitting keeps the first half of the entries and
  appends the rest to the recipient; merging appends all of them and hands on the link to the next leaf;
  redistribution moves the first entry behind the recipient's last or the last one before its first.
  Nothing is lost, duplicated or reordered.
\<close>

theorem leaf_moves_keep_entries:
  assumes "leaf_holds lf es" "leaf_holds r fs" "0 \<le> GetMinSize lf" "GetMinSize lf \<le> int (length es)" "length fs + length es \<le> length (leaf_array r)"
  shows "(\<exists>lf' r'. LeafPage_MoveHalfTo lf r = Some (lf', r') \<and> leaf_holds lf' (take (nat (GetMinSize lf)) es)
      \<and> leaf_holds r' (fs @ drop (nat (GetMinSize lf)) es))
    \<and> (\<exists>lf' r'. LeafPage_MoveAllTo lf r = Some (lf', r') \<and> leaf_holds lf' [] \<and> leaf_holds r' (fs @ es) \<and> leaf_next r' = leaf_next lf)
    \<and> (\<forall>e es'. es = e # es' \<longrightarrow> (\<exists>lf' r'. LeafPage_MoveFirstToEndOf lf r = Some (lf', r') \<and> leaf_holds lf' es' \<and> leaf_holds r' (fs @ [e])))
    \<and> (\<forall>e es'. es = es' @ [e] \<longrightarrow> (\<exists>lf' r'. LeafPage_MoveLastToFrontOf lf r = Some (lf', r') \<and> leaf_holds lf' es' \<and> leaf_holds r' (e # fs)))"
proof (intro conjI allI impI)
  show "\<exists>lf' r'. LeafPage_MoveHalfTo lf r = Some (lf', r') \<and> leaf_holds lf' (take (nat (GetMinSize lf)) es) \<and> leaf_holds r' (fs @ drop (nat (GetMinSize lf)) es)"
    using leaf_move_half [OF assms(1-3)] assms(4,5) by fastforce
  obtain rest where a: "leaf_array lf = es @ rest" and n: "node_size lf = int (length es)" using assms(1) by (auto simp: leaf_holds_def)
  obtain rr where b: "leaf_array r = fs @ rr" and m: "node_size r = int (length fs)" using assms(2) by (auto simp: leaf_holds_def)
  obtain r1 where r1: "LeafPage_CopyNFrom (es @ rest) (int (length es)) r = Some r1" "leaf_holds r1 (fs @ es)"
    using leaf_copy [OF assms(2,5), of rest] by blast
  then have "LeafPage_MoveAllTo lf r = Some (lf\<lparr>node_size := 0\<rparr>, r1\<lparr>leaf_next := leaf_next lf\<rparr>)"
    using a n by (simp add: LeafPage_MoveAllTo_def)
  then show "\<exists>lf' r'. LeafPage_MoveAllTo lf r = Some (lf', r') \<and> leaf_holds lf' [] \<and> leaf_holds r' (fs @ es) \<and> leaf_next r' = leaf_next lf"
    using r1(2) by (simp add: leaf_holds_def)
  fix e es'
  {
    assume es: "es = e # es'"
    obtain z zs where z: "rr = z # zs" using assms(5) b es by (cases rr) auto
    obtain g where g: "shift_down (e # es' @ rest) 0 (node_size lf - 1) = Some (es' @ g # rest)"
      using shift_down_list [of 0 "[]" "node_size lf - 1" es' e rest] n es by auto
    have "LeafPage_MoveFirstToEndOf lf r = Some (IncreaseSize (- 1) (lf\<lparr>leaf_array := es' @ g # rest\<rparr>), IncreaseSize 1 (r\<lparr>leaf_array := fs @ e # zs\<rparr>))"
      using a es g b z m arr_set_mid [of "node_size r" fs z zs e] arr_get_mid [of 0 "[]" e "es' @ rest"]
      by (simp add: LeafPage_MoveFirstToEndOf_def LeafPage_CopyLastFrom_def)
    then show "\<exists>lf' r'. LeafPage_MoveFirstToEndOf lf r = Some (lf', r') \<and> leaf_holds lf' es' \<and> leaf_holds r' (fs @ [e])"
      using n m es by (simp add: leaf_holds_def IncreaseSize_def)
  next
    assume es: "es = es' @ [e]"
    obtain z zs where z: "rr = z # zs" using assms(5) b es by (cases rr) auto
    obtain g where g: "shift_up (fs @ z # zs) (node_size r) 0 = Some (g # fs @ zs)"
      using shift_up_list [of 0 "[]" "node_size r" fs z zs] m by auto
    have "LeafPage_MoveLastToFrontOf lf r = Some (IncreaseSize (- 1) lf, IncreaseSize 1 (r\<lparr>leaf_array := e # fs @ zs\<rparr>))"
      using a es n g b z arr_get_mid [of "node_size lf - 1" es' e rest] arr_set_mid [of 0 "[]" g "fs @ zs" e]
      by (simp add: LeafPage_MoveLastToFrontOf_def LeafPage_CopyFirstFrom_def)
    then show "\<exists>lf' r'. LeafPage_MoveLastToFrontOf lf r = Some (lf', r') \<and> leaf_holds lf' es' \<and> leaf_holds r' (e # fs)"
      using n m es a by (simp add: leaf_holds_def IncreaseSize_def)
  }
qed

theorem leaf_moves_keep_entries_witness:
  "\<exists>lf' r'. LeafPage_MoveHalfTo \<lparr>node_type = LEAF_PAGE, node_lsn = 0, node_size = 3, node_max_size = 2, node_parent = 4, node_id = 5, leaf_next = 6,
       leaf_array = [(1 :: int, 10 :: int), (2, 20), (3, 30)]\<rparr>
     \<lparr>node_type = LEAF_PAGE, node_lsn = 0, node_size = 0, node_max_size = 2, node_parent = 4, node_id = 7, leaf_next = - 1,
       leaf_array = replicate 3 (0, 0)\<rparr> = Some (lf', r')
    \<and> leaf_holds lf' [(1, 10)] \<and> leaf_holds r' [(2, 20), (3, 30)]"
  using leaf_moves_keep_entries [of "\<lparr>node_type = LEAF_PAGE, node_lsn = 0, node_size = 3, node_max_size = 2, node_parent = 4, node_id = 5, leaf_next = 6,
       leaf_array = [(1 :: int, 10 :: int), (2, 20), (3, 30)]\<rparr>" "[(1, 10), (2, 20), (3, 30)]"
     "\<lparr>node_type = LEAF_PAGE, node_lsn = 0, node_size = 0, node_max_size = 2, node_parent = 4, node_id = 7, leaf_next = - 1,
       leaf_array = replicate 3 (0, 0)\<rparr>" "[]"]
  by (simp add: leaf_holds_def GetMinSize_def)

section \<open>Search in an internal page\<close>

definition internal_holds :: "'k InternalPage \<Rightarrow> ('k \<times> int) list \<Rightarrow> bool" where
  "internal_holds n es \<longleftrightarrow> node_size n = int (length es) \<and> (\<exists>rest. internal_array n = es @ rest)"

context key_order
begin

lemma internal_lookup:
  assumes "internal_holds n (e0 # es)" "leaf_ok comparator K es" "key \<in> K"
  shows "\<exists>as bs. es = as @ bs \<and> InternalPage_Lookup comparator key n = Some (snd (last (e0 # as)))
    \<and> (\<forall>e\<in>set as. \<not> key_less comparator key (fst e)) \<and> (\<forall>e\<in>set bs. key_less comparator key (fst e))"
proof -
  have ok: "keys_sorted comparator es" "fst ` set es \<subseteq> K" using assms(2) by (auto simp: leaf_ok_def)
  obtain ls ms rs where c: "es = ls @ ms @ rs" "\<forall>e\<in>set ls. key_less comparator (fst e) key" "\<forall>e\<in>set rs. key_less comparator key (fst e)"
    "ms = [] \<or> (\<exists>e. ms = [e] \<and> key_same comparator (fst e) key)" using sorted_cut [OF ok assms(3)] by blast
  obtain rest where a: "internal_array n = e0 # es @ rest" and sz: "node_size n = int (length es) + 1" using assms(1) by (auto simp: internal_holds_def)
  define as where "as = ls @ ms"
  have v: "\<exists>d. comparator (fst (internal_array n ! x)) key = Some d \<and> (d \<le> 0 \<longleftrightarrow> x < Suc (length as))" if "0 < x" "x < Suc (length es)" for x
  proof -
    have x: "x - 1 < length (ls @ ms @ rs)" using that c(1) by simp
    have "internal_array n ! x = ((ls @ ms @ rs) @ rest) ! (x - 1)" using that(1) a c(1) by (simp add: nth_Cons')
    then have e: "internal_array n ! x = (ls @ ms @ rs) ! (x - 1)" using nth_append_left [OF x, of rest] by simp
    obtain d where d: "comparator (fst ((ls @ ms @ rs) ! (x - 1))) key = Some d" "d < 0 \<longleftrightarrow> x - 1 < length ls" "d = 0 \<longleftrightarrow> x - 1 = length ls \<and> ms \<noteq> []"
      using cut_verdict [OF ok(2) [unfolded c(1)] assms(3) c(2-4) x] by blast
    have "d \<le> 0 \<longleftrightarrow> d < 0 \<or> d = 0" by linarith
    also have "\<dots> \<longleftrightarrow> x < Suc (length as)" using d(2,3) that(1) c(4) by (auto simp: as_def)
    finally show ?thesis using d(1) e by simp
  qed
  have "child_loop comparator (internal_array n) key 1 (node_size n - 1) = Some (int (Suc (length as)))"
    by (rule child_loop_point [where n = "Suc (length es)"]) (use v a sz c(1) in \<open>auto simp: as_def\<close>)
  moreover have "internal_array n ! length as = last (e0 # as)"
  proof -
    have "internal_array n = (e0 # as) @ rs @ rest" using a c(1) by (simp add: as_def)
    then have "internal_array n ! length as = (e0 # as) ! length as" by (simp only: nth_append_left length_Cons lessI)
    then show ?thesis by (simp add: last_conv_nth)
  qed
  moreover have "arr_get (internal_array n) (int (length as)) = Some (internal_array n ! length as)" using a c(1) by (intro arr_get_nth) (simp add: as_def)
  ultimately have "InternalPage_Lookup comparator key n = Some (snd (last (e0 # as)))"
    by (simp add: InternalPage_Lookup_def InternalPage_ValueAt_def)
  moreover have "\<forall>e\<in>set as. \<not> key_less comparator key (fst e)"
  proof
    fix e assume e: "e \<in> set as"
    then have "fst e \<in> K" using ok(2) c(1) by (auto simp: as_def)
    moreover have "key_less comparator (fst e) key \<or> key_same comparator (fst e) key" using e c(2,4) by (auto simp: as_def)
    ultimately show "\<not> key_less comparator key (fst e)" using less_cases [of "fst e" key] assms(3) by blast
  qed
  ultimately show ?thesis using c(1,3) by (intro exI [of _ as] exI [of _ rs]) (simp add: as_def)
qed

end

section \<open>Properties\<close>

text \<open>
  C35: a leaf page is a map. After \<open>Init\<close>, any sequence of calls of \<open>Insert\<close> and \<open>RemoveAndDeleteRecord\<close> that the array
  has room for returns, keeps the entries sorted by the comparator, and leaves \<open>Lookup\<close> with exactly the answers of
  the map: the first value inserted for a key since it was last removed. \<open>Insert\<close> of a present key changes nothing.
\<close>

theorem leaf_page_refines_map:
  assumes "key_order comparator K" "call_key ` set cs \<subseteq> K" "length cs \<le> length (leaf_array lf)"
  shows "\<exists>lf' es. leaf_run comparator cs (LeafPage_Init pageId parent max_size lf) = Some lf' \<and> leaf_holds lf' es \<and> keys_sorted comparator es
    \<and> (\<forall>q\<in>K. LeafPage_Lookup comparator q lf' = Some (map_run comparator cs Map.empty q))"
proof -
  let ?lf = "LeafPage_Init pageId parent max_size lf"
  have i: "leaf_holds ?lf []" "leaf_ok comparator K ([] :: ('a \<times> 'b) list)" "length ([] :: ('a \<times> 'b) list) + length cs \<le> length (leaf_array ?lf)"
    using assms(3) by (simp_all add: leaf_holds_def leaf_ok_def keys_sorted_def LeafPage_Init_def)
  obtain lf' es where r: "leaf_run comparator cs ?lf = Some lf'" "leaf_holds lf' es" "leaf_ok comparator K es"
    "\<forall>q\<in>K. find_entry comparator es q = map_run comparator cs (find_entry comparator []) q"
    using key_order.leaf_run_ok [OF assms(1) i(1,2) assms(2) i(3)] by blast
  have "find_entry comparator [] = (Map.empty :: 'a \<Rightarrow> 'b option)" by (simp add: fun_eq_iff)
  then have "LeafPage_Lookup comparator q lf' = Some (map_run comparator cs Map.empty q)" if "q \<in> K" for q
    using key_order.leaf_lookup [OF assms(1) r(2,3) that] r(4) that by simp
  then show ?thesis using r(1-3) by (auto simp: leaf_ok_def)
qed

theorem leaf_page_refines_map_witness:
  "\<exists>lf'. leaf_run BasicComparator [Put 5 50, Put 3 30, Put 5 51, Del 3, Put 4 40]
      (LeafPage_Init 7 (- 1) 4 \<lparr>node_type = INVALID_INDEX_PAGE, node_lsn = 0, node_size = 9, node_max_size = 0, node_parent = 0, node_id = 0, leaf_next = 0,
        leaf_array = replicate 5 (0, 0 :: int)\<rparr>) = Some lf'
    \<and> LeafPage_Lookup BasicComparator 5 lf' = Some (Some 50) \<and> LeafPage_Lookup BasicComparator 3 lf' = Some None
    \<and> LeafPage_Lookup BasicComparator 4 lf' = Some (Some 40)"
proof -
  let ?cs = "[Put 5 50, Put 3 30, Put 5 51, Del 3, Put 4 40] :: (int, int) leaf_call list"
  have "\<exists>lf' es. leaf_run BasicComparator ?cs (LeafPage_Init 7 (- 1) 4 \<lparr>node_type = INVALID_INDEX_PAGE, node_lsn = 0, node_size = 9, node_max_size = 0,
      node_parent = 0, node_id = 0, leaf_next = 0, leaf_array = replicate 5 (0, 0 :: int)\<rparr>) = Some lf'
    \<and> leaf_holds lf' es \<and> keys_sorted BasicComparator es
    \<and> (\<forall>q\<in>UNIV. LeafPage_Lookup BasicComparator q lf' = Some (map_run BasicComparator ?cs Map.empty q))"
    by (rule leaf_page_refines_map [OF basic.key_order_axioms]) simp_all
  then show ?thesis by (auto simp: key_same_def BasicComparator_def)
qed

end
