(* ===== verification/Generic_Key.thy ===== *)
theory Generic_Key
  imports Rows Index_Pages "HOL-Library.List_Lexorder"
begin

text \<open>
  The keys of an index, \<open>MiniSQL/src/include/index/generic_key.h\<close>: a row of the key columns serialized into a fixed
  number of bytes, and the comparator that reads both keys back and compares them column by column. The schema is
  used for its number of columns only. On rows without null fields and without NaN the comparator satisfies the
  contract \<open>key_order\<close> of the tree.
\<close>

section \<open>Model\<close>

definition SerializeFromKey :: "nat \<Rightarrow> nat \<Rightarrow> Row \<Rightarrow> u8 list option" where
  "SerializeFromKey KeySize column_count key = do {
     n \<leftarrow> Row_GetSerializedSize key;
     if length (row_fields key) \<noteq> column_count then None else if KeySize < unat n then None else do {
     (d, _) \<leftarrow> Row_SerializeTo key (replicate KeySize 0) 0;
     Some d }}"

definition DeserializeToKey :: "nat \<Rightarrow> u8 list \<Rightarrow> Row \<Rightarrow> Row option" where
  "DeserializeToKey KeySize d key = do {
     (key, ofs) \<leftarrow> Row_DeserializeFrom key d 0;
     if unat ofs \<le> KeySize then Some key else None }"

definition GetField :: "Row \<Rightarrow> nat \<Rightarrow> Field option" where
  "GetField row i = (if i < length (row_fields row) then Some (row_fields row ! i) else None)"

function compare_columns :: "Row \<Rightarrow> Row \<Rightarrow> nat \<Rightarrow> nat \<Rightarrow> int option" where
  "compare_columns lhs_key rhs_key i column_count = (if i < column_count then do {
     l \<leftarrow> GetField lhs_key i;
     r \<leftarrow> GetField rhs_key i;
     lt \<leftarrow> CompareLessThan l r;
     if lt = kTrue then Some (- 1) else do {
     gt \<leftarrow> CompareGreaterThan l r;
     if gt = kTrue then Some 1 else compare_columns lhs_key rhs_key (i + 1) column_count }}
   else Some 0)"
  by pat_completeness auto

termination compare_columns
  by (relation "measure (\<lambda>(l, r, i, n). n - i)") auto

definition GenericComparator :: "nat \<Rightarrow> nat \<Rightarrow> u8 list \<Rightarrow> u8 list \<Rightarrow> int option" where
  "GenericComparator KeySize column_count lhs rhs = do {
     lhs_key \<leftarrow> DeserializeToKey KeySize lhs (Row_of_rid INVALID_ROWID);
     rhs_key \<leftarrow> DeserializeToKey KeySize rhs (Row_of_rid INVALID_ROWID);
     compare_columns lhs_key rhs_key 0 column_count }"

section \<open>The order of keys\<close>

text \<open>
  The rank of a field is a list of integers, compared lexicographically: a number is a list of length one,
  a string the list of its bytes.
\<close>

definition field_rank :: "Field \<Rightarrow> int list" where
  "field_rank f = (case fvalue f of VInteger a \<Rightarrow> [sint a] | VFloat a \<Rightarrow> [the (float_number a)] | VChars a \<Rightarrow> map uint a | VUnset \<Rightarrow> [])"

definition field_ordered :: "Field \<Rightarrow> bool" where
  "field_ordered f \<longleftrightarrow> field_ok f \<and> \<not> is_null f \<and> (\<forall>a. fvalue f = VFloat a \<longrightarrow> float_number a \<noteq> None)"

lemma lexordp_uint: "ord_class.lexordp a b \<longleftrightarrow> map uint (a :: u8 list) < map uint b"
proof (induction a arbitrary: b)
  case Nil
  show ?case by (cases b) simp_all
next
  case (Cons x a)
  show ?case
  proof (cases b)
    case (Cons y c)
    have "(x < y) = (uint x < uint y)" "(y < x) = (uint y < uint x)" by (simp_all only: word_less_def)
    then show ?thesis unfolding Cons list.map Cons_less_Cons lexordp_simps \<open>\<And>b. ord_class.lexordp a b = (map uint a < map uint b)\<close> by auto
  qed simp
qed

lemma field_less_rank:
  assumes "field_ordered f" "field_ordered g" "type_id f = type_id g"
  shows "field_less f g \<longleftrightarrow> field_rank f < field_rank g"
proof -
  have ok: "field_ok f" "field_ok g" "\<not> is_null f" "\<not> is_null g" using assms(1,2) by (auto simp: field_ordered_def)
  from ok(1) show ?thesis
  proof (cases "fvalue f")
    case (VInteger a)
    then obtain b where "fvalue g = VInteger b" using ok assms(3) by (cases "fvalue g") (auto simp: field_ok_def)
    then show ?thesis using VInteger by (simp add: field_less_def field_rank_def)
  next
    case (VFloat a)
    then obtain b where b: "fvalue g = VFloat b" using ok assms(3) by (cases "fvalue g") (auto simp: field_ok_def)
    then obtain x y where "float_number a = Some x" "float_number b = Some y" using VFloat assms(1,2) by (auto simp: field_ordered_def)
    then show ?thesis using VFloat b by (simp add: field_less_def field_rank_def float_rel_def)
  next
    case (VChars a)
    then obtain b where "fvalue g = VChars b" using ok assms(3) by (cases "fvalue g") (auto simp: field_ok_def)
    then show ?thesis using VChars by (simp add: field_less_def field_rank_def lexordp_uint)
  qed (auto simp: field_ok_def ok)
qed

lemma field_compare_rank:
  assumes "field_ordered f" "field_ordered g" "type_id f = type_id g"
  shows "CompareLessThan f g = Some (GetCmpBool (field_rank f < field_rank g))" "CompareGreaterThan f g = Some (GetCmpBool (field_rank g < field_rank f))"
proof -
  have ok: "field_ok f" "field_ok g" "\<not> is_null f" "\<not> is_null g" using assms(1,2) by (auto simp: field_ordered_def)
  show "CompareLessThan f g = Some (GetCmpBool (field_rank f < field_rank g))" "CompareGreaterThan f g = Some (GetCmpBool (field_rank g < field_rank f))"
    using field_verdicts [OF ok(1,2) assms(3)] ok(3,4) field_less_rank [OF assms] field_less_rank [OF assms(2,1) assms(3) [symmetric]] by (simp_all add: Let_def)
qed

definition row_rank :: "Row \<Rightarrow> int list list" where
  "row_rank row = map field_rank (row_fields row)"

definition order_sign :: "'a :: linorder \<Rightarrow> 'a \<Rightarrow> int" where
  "order_sign a b = (if a < b then - 1 else if b < a then 1 else 0)"

lemma compare_columns_rank:
  assumes "i \<le> n" "length (row_fields l) = n" "length (row_fields r) = n"
    "\<And>k. k < n \<Longrightarrow> field_ordered (row_fields l ! k) \<and> field_ordered (row_fields r ! k) \<and> type_id (row_fields l ! k) = type_id (row_fields r ! k)"
  shows "compare_columns l r i n = Some (order_sign (drop i (row_rank l)) (drop i (row_rank r)))"
  using assms(1)
proof (induction "n - i" arbitrary: i)
  case 0
  then show ?case using assms(2,3) by (subst compare_columns.simps) (simp add: row_rank_def order_sign_def)
next
  case (Suc m)
  then have i: "i < n" by simp
  let ?f = "row_fields l ! i" and ?g = "row_fields r ! i"
  have o: "field_ordered ?f" "field_ordered ?g" "type_id ?f = type_id ?g" using assms(4) [OF i] by auto
  have d: "drop i (row_rank l) = field_rank ?f # drop (i + 1) (row_rank l)" "drop i (row_rank r) = field_rank ?g # drop (i + 1) (row_rank r)"
    using i assms(2,3) by (simp_all add: row_rank_def Cons_nth_drop_Suc [symmetric])
  have "compare_columns l r (i + 1) n = Some (order_sign (drop (i + 1) (row_rank l)) (drop (i + 1) (row_rank r)))"
    using Suc.hyps(2) i by (intro Suc.hyps(1)) auto
  then show ?case using i assms(2,3) field_compare_rank [OF o] unfolding d
    by (subst compare_columns.simps) (auto simp: GetField_def GetCmpBool_def order_sign_def)
qed

section \<open>The keys of an index\<close>

text \<open>Rows of the given column types, without null fields and NaN, whose image fits.\<close>

definition key_row :: "nat \<Rightarrow> TypeId list \<Rightarrow> Row \<Rightarrow> bool" where
  "key_row KeySize ts row \<longleftrightarrow> row_ok row \<and> (\<forall>f\<in>set (row_fields row). field_ordered f) \<and> map type_id (row_fields row) = ts \<and> length (row_image row) \<le> KeySize"

definition index_keys :: "nat \<Rightarrow> TypeId list \<Rightarrow> u8 list set" where
  "index_keys KeySize ts = {d. \<exists>row. key_row KeySize ts row \<and> SerializeFromKey KeySize (length ts) row = Some d}"

lemma SerializeFromKey_image:
  assumes "key_row KeySize ts row"
  shows "SerializeFromKey KeySize (length ts) row = Some (row_image row @ replicate (KeySize - length (row_image row)) 0)"
proof -
  have r: "row_ok row" "length (row_image row) \<le> KeySize" "length (row_fields row) = length ts" using assms by (auto simp: key_row_def)
  have "unat (of_nat (length (row_image row)) :: u32) = length (row_image row)" using r(1) by (intro unat_small32) (simp add: row_ok_def)
  moreover have "replicate KeySize (0 :: u8) = [] @ replicate (length (row_image row)) 0 @ replicate (KeySize - length (row_image row)) 0"
    using r(2) by (simp flip: replicate_add)
  ultimately show ?thesis
    using Row_GetSerializedSize_image [OF r(1)] Row_SerializeTo_image [OF r(1), of 0 "[]" "replicate (length (row_image row)) 0"] r(2,3)
    by (simp add: SerializeFromKey_def)
qed

lemma DeserializeToKey_image:
  assumes "key_row KeySize ts row"
  shows "DeserializeToKey KeySize (row_image row @ bs) key = Some (key\<lparr>row_fields := row_fields row\<rparr>)"
proof -
  have r: "row_ok row" "length (row_image row) \<le> KeySize" "\<forall>f\<in>set (row_fields row). field_ordered f" using assms by (auto simp: key_row_def)
  have u: "unat (of_nat (length (row_image row)) :: u32) = length (row_image row)" using r(1) by (intro unat_small32) (simp add: row_ok_def)
  have "map field_read (row_fields row) = row_fields row" using r(3) by (auto simp: field_read_def field_ordered_def intro: map_idI)
  then show ?thesis using Row_DeserializeFrom_image [OF r(1), of 0 "[]" key bs] u r(2) by (simp add: DeserializeToKey_def)
qed

lemma comparator_rank:
  assumes "key_row KeySize ts l" "key_row KeySize ts r"
  shows "GenericComparator KeySize (length ts) (row_image l @ as) (row_image r @ bs) = Some (order_sign (row_rank l) (row_rank r))"
proof -
  have t: "map type_id (row_fields l) = ts" "map type_id (row_fields r) = ts"
    and o: "\<forall>f\<in>set (row_fields l). field_ordered f" "\<forall>f\<in>set (row_fields r). field_ordered f" using assms by (auto simp: key_row_def)
  have n: "length (row_fields l) = length ts" "length (row_fields r) = length ts" using t by (metis length_map)+
  have k: "field_ordered (row_fields l ! k) \<and> field_ordered (row_fields r ! k) \<and> type_id (row_fields l ! k) = type_id (row_fields r ! k)"
    if "k < length ts" for k using o n that t by (metis nth_map nth_mem)
  let ?l = "(Row_of_rid INVALID_ROWID)\<lparr>row_fields := row_fields l\<rparr>" and ?r = "(Row_of_rid INVALID_ROWID)\<lparr>row_fields := row_fields r\<rparr>"
  have "compare_columns ?l ?r 0 (length ts) = Some (order_sign (drop 0 (row_rank ?l)) (drop 0 (row_rank ?r)))"
    by (rule compare_columns_rank) (use n k in simp_all)
  then show ?thesis using DeserializeToKey_image [OF assms(1)] DeserializeToKey_image [OF assms(2)]
    by (simp add: GenericComparator_def row_rank_def)
qed

text \<open>A comparator that follows a linear order of ranks satisfies the contract.\<close>

lemma key_order_rank:
  assumes "\<And>a b. a \<in> K \<Longrightarrow> b \<in> K \<Longrightarrow> comparator a b = Some (order_sign (rank a) (rank b))"
  shows "key_order comparator K"
  by unfold_locales (auto simp: assms order_sign_def split: if_splits)

definition key_rank :: "nat \<Rightarrow> TypeId list \<Rightarrow> u8 list \<Rightarrow> int list list" where
  "key_rank KeySize ts d = row_rank (the (DeserializeToKey KeySize d (Row_of_rid INVALID_ROWID)))"

lemma comparator_key_rank:
  assumes "a \<in> index_keys KeySize ts" "b \<in> index_keys KeySize ts"
  shows "GenericComparator KeySize (length ts) a b = Some (order_sign (key_rank KeySize ts a) (key_rank KeySize ts b))"
proof -
  obtain l r where l: "key_row KeySize ts l" "SerializeFromKey KeySize (length ts) l = Some a"
    and r: "key_row KeySize ts r" "SerializeFromKey KeySize (length ts) r = Some b" using assms by (auto simp: index_keys_def)
  obtain as bs where a: "a = row_image l @ as" and b: "b = row_image r @ bs"
    using l(2) r(2) SerializeFromKey_image [OF l(1)] SerializeFromKey_image [OF r(1)] by auto
  have "key_rank KeySize ts a = row_rank l" "key_rank KeySize ts b = row_rank r"
    using DeserializeToKey_image [OF l(1)] DeserializeToKey_image [OF r(1)] by (simp_all add: key_rank_def row_rank_def a b)
  then show ?thesis using comparator_rank [OF l(1) r(1)] a b by simp
qed

interpretation gk: key_order "GenericComparator KeySize (length ts)" "index_keys KeySize ts" for KeySize ts
  by (rule key_order_rank [OF comparator_key_rank])

end
