(* ===== verification/Node_Bytes.thy ===== *)
theory Node_Bytes
  imports Pool_Pins Generic_Key
begin

text \<open>
  The nodes of the index as they lie in a page: the members of \<open>BPlusTreePage\<close>, \<open>BPlusTreeLeafPage\<close> and \<open>BPlusTreeInternalPage\<close>
  of \<open>MiniSQL/src/include/page/\<close> at their offsets, for the instance \<open>GenericKey<64>\<close> with \<open>RowId\<close> values that the catalog creates
  (\<open>include/catalog/indexes.h\<close>). Casting the data of a page to a node is \<open>leaf_of\<close> or \<open>internal_of\<close>; storing through the pointer is
  \<open>leaf_bytes\<close> or \<open>internal_bytes\<close>.
\<close>

section \<open>Layout\<close>

type_synonym key = "u8 list"

definition KEY_SIZE :: nat where "KEY_SIZE = 64"

text \<open>\<open>LEAF_PAGE_SIZE\<close> and \<open>INTERNAL_PAGE_SIZE\<close>; the arrays have one element more.\<close>

definition LEAF_PAGE_SIZE :: nat where "LEAF_PAGE_SIZE = (4096 - 28) div (KEY_SIZE + 8) - 1"

definition INTERNAL_PAGE_SIZE :: nat where "INTERNAL_PAGE_SIZE = (4096 - 24) div (KEY_SIZE + 4) - 1"

lemma page_sizes: "KEY_SIZE = 64" "LEAF_PAGE_SIZE = 55" "INTERNAL_PAGE_SIZE = 58"
  by (simp_all add: KEY_SIZE_def LEAF_PAGE_SIZE_def INTERNAL_PAGE_SIZE_def)

fun chunks :: "nat \<Rightarrow> nat \<Rightarrow> 'a list \<Rightarrow> 'a list list" where
  "chunks 0 w xs = []"
| "chunks (Suc n) w xs = take w xs # chunks n w (drop w xs)"

fun page_type_code :: "IndexPageType \<Rightarrow> u32" where
  "page_type_code INVALID_INDEX_PAGE = 0"
| "page_type_code LEAF_PAGE = 1"
| "page_type_code INTERNAL_PAGE = 2"

definition page_type_of :: "u32 \<Rightarrow> IndexPageType option" where
  "page_type_of w = (if w = 0 then Some INVALID_INDEX_PAGE else if w = 1 then Some LEAF_PAGE else if w = 2 then Some INTERNAL_PAGE else None)"

definition header_of :: "u8 list \<Rightarrow> BPlusTreePage option" where
  "header_of d = do {
     t \<leftarrow> read32 d 0; ty \<leftarrow> page_type_of t;
     lsn \<leftarrow> read32 d 4; n \<leftarrow> read32 d 8; mx \<leftarrow> read32 d 12; par \<leftarrow> read32 d 16; pid \<leftarrow> read32 d 20;
     Some \<lparr>node_type = ty, node_lsn = lsn, node_size = sint n, node_max_size = sint mx, node_parent = sint par, node_id = sint pid\<rparr> }"

definition leaf_entry_of :: "u8 list \<Rightarrow> (key \<times> RowId) option" where
  "leaf_entry_of c = do { p \<leftarrow> read32 c KEY_SIZE; s \<leftarrow> read32 c (KEY_SIZE + 4); Some (take KEY_SIZE c, \<lparr>rid_page_id = p, slot_num = s\<rparr>) }"

definition child_entry_of :: "u8 list \<Rightarrow> (key \<times> int) option" where
  "child_entry_of c = do { p \<leftarrow> read32 c KEY_SIZE; Some (take KEY_SIZE c, sint p) }"

definition leaf_of :: "u8 list \<Rightarrow> (key, RowId) LeafPage option" where
  "leaf_of d = do {
     h \<leftarrow> header_of d;
     nxt \<leftarrow> read32 d 24;
     es \<leftarrow> those (map leaf_entry_of (chunks (LEAF_PAGE_SIZE + 1) (KEY_SIZE + 8) (drop 28 d)));
     Some \<lparr>node_type = node_type h, node_lsn = node_lsn h, node_size = node_size h, node_max_size = node_max_size h,
       node_parent = node_parent h, node_id = node_id h, leaf_next = sint nxt, leaf_array = es\<rparr> }"

definition internal_of :: "u8 list \<Rightarrow> key InternalPage option" where
  "internal_of d = do {
     h \<leftarrow> header_of d;
     es \<leftarrow> those (map child_entry_of (chunks (INTERNAL_PAGE_SIZE + 1) (KEY_SIZE + 4) (drop 24 d)));
     Some \<lparr>node_type = node_type h, node_lsn = node_lsn h, node_size = node_size h, node_max_size = node_max_size h,
       node_parent = node_parent h, node_id = node_id h, internal_array = es\<rparr> }"

definition header_bytes :: "'a BPlusTreePage_scheme \<Rightarrow> u8 list" where
  "header_bytes h = le32 (page_type_code (node_type h)) @ le32 (node_lsn h) @ le32 (id_word (node_size h)) @ le32 (id_word (node_max_size h))
     @ le32 (id_word (node_parent h)) @ le32 (id_word (node_id h))"

definition leaf_entry_bytes :: "key \<times> RowId \<Rightarrow> u8 list" where
  "leaf_entry_bytes e = fst e @ le32 (rid_page_id (snd e)) @ le32 (slot_num (snd e))"

definition child_entry_bytes :: "key \<times> int \<Rightarrow> u8 list" where
  "child_entry_bytes e = fst e @ le32 (id_word (snd e))"

definition leaf_bytes :: "(key, RowId) LeafPage \<Rightarrow> u8 list \<Rightarrow> u8 list" where
  "leaf_bytes lf d = header_bytes lf @ le32 (id_word (leaf_next lf)) @ concat (map leaf_entry_bytes (leaf_array lf))
     @ drop (28 + (LEAF_PAGE_SIZE + 1) * (KEY_SIZE + 8)) d"

definition internal_bytes :: "key InternalPage \<Rightarrow> u8 list \<Rightarrow> u8 list" where
  "internal_bytes n d = header_bytes n @ concat (map child_entry_bytes (internal_array n)) @ drop (24 + (INTERNAL_PAGE_SIZE + 1) * (KEY_SIZE + 4)) d"

definition set_header :: "'a BPlusTreePage_scheme \<Rightarrow> u8 list \<Rightarrow> u8 list" where
  "set_header h d = header_bytes h @ drop 24 d"

section \<open>Reading back\<close>

definition int32 :: "int \<Rightarrow> bool" where
  "int32 x \<longleftrightarrow> - (2 ^ 31) \<le> x \<and> x < 2 ^ 31"

definition header_ok :: "'a BPlusTreePage_scheme \<Rightarrow> bool" where
  "header_ok h \<longleftrightarrow> int32 (node_size h) \<and> int32 (node_max_size h) \<and> int32 (node_parent h) \<and> int32 (node_id h)"

definition leaf_wf :: "(key, RowId) LeafPage \<Rightarrow> bool" where
  "leaf_wf lf \<longleftrightarrow> header_ok lf \<and> int32 (leaf_next lf) \<and> length (leaf_array lf) = LEAF_PAGE_SIZE + 1 \<and> (\<forall>e\<in>set (leaf_array lf). length (fst e) = KEY_SIZE)"

definition internal_wf :: "key InternalPage \<Rightarrow> bool" where
  "internal_wf n \<longleftrightarrow> header_ok n \<and> length (internal_array n) = INTERNAL_PAGE_SIZE + 1
     \<and> (\<forall>e\<in>set (internal_array n). length (fst e) = KEY_SIZE \<and> int32 (snd e))"

lemma sint_int32: "int32 x \<Longrightarrow> sint (id_word x :: u32) = x"
  by (simp add: int32_def signed_of_int signed_take_bit_int_eq_self)

lemma int32_sint: "int32 (sint (w :: u32))"
  using sint_ge [of w] sint_lt [of w] by (simp add: int32_def)

lemma page_type_of_code [simp]: "page_type_of (page_type_code t) = Some t"
  by (cases t) (simp_all add: page_type_of_def)

lemma header_bytes_length [simp]: "length (header_bytes h) = 24"
  by (simp add: header_bytes_def)

lemma header_of_bytes:
  assumes "header_ok h"
  shows "header_of (header_bytes h @ bs) = Some \<lparr>node_type = node_type h, node_lsn = node_lsn h, node_size = node_size h,
    node_max_size = node_max_size h, node_parent = node_parent h, node_id = node_id h\<rparr>"
  using assms by (simp add: header_of_def header_bytes_def read32_skip read32_here sint_int32 header_ok_def)

lemma chunks_concat: "\<forall>x\<in>set xss. length x = w \<Longrightarrow> chunks (length xss) w (concat xss @ rest) = xss"
  by (induction xss) auto

lemma chunks_length: "n * w \<le> length xs \<Longrightarrow> c \<in> set (chunks n w xs) \<Longrightarrow> length c = w"
proof (induction n arbitrary: xs)
  case (Suc n)
  then have "n * w \<le> length (drop w xs)" by simp
  then show ?case using Suc.IH [of "drop w xs"] Suc.prems by auto
qed simp

lemma chunks_count [simp]: "length (chunks n w xs) = n"
  by (induction n arbitrary: xs) auto

lemma those_SomeD: "those (map f xs) = Some ys \<Longrightarrow> length ys = length xs \<and> (\<forall>y\<in>set ys. \<exists>x\<in>set xs. f x = Some y)"
  by (induction xs arbitrary: ys) (fastforce split: option.splits)+

lemma read32_end: "read32 (le32 w) 0 = Some w"
  using read32_here [of w "[]"] by simp

lemma leaf_entry_read: "length (fst e) = KEY_SIZE \<Longrightarrow> leaf_entry_of (leaf_entry_bytes e) = Some e"
  by (cases e; cases "snd e") (simp add: leaf_entry_of_def leaf_entry_bytes_def read32_skip read32_here read32_end page_sizes)

lemma child_entry_read: "length (fst e) = KEY_SIZE \<Longrightarrow> int32 (snd e) \<Longrightarrow> child_entry_of (child_entry_bytes e) = Some e"
  by (simp add: child_entry_of_def child_entry_bytes_def read32_skip read32_end sint_int32 page_sizes)

lemma entries_length: "\<forall>e\<in>set es. length (f e) = w \<Longrightarrow> length (concat (map f es)) = length es * w"
  by (induction es) auto

lemma entries_read:
  assumes "\<forall>e\<in>set es. length (enc e) = w" "\<forall>e\<in>set es. dec (enc e) = Some e"
  shows "those (map dec (chunks (length es) w (concat (map enc es) @ rest))) = Some es"
proof -
  have "chunks (length (map enc es)) w (concat (map enc es) @ rest) = map enc es" using assms(1) by (intro chunks_concat) auto
  then have c: "chunks (length es) w (concat (map enc es) @ rest) = map enc es" by simp
  show ?thesis unfolding c map_map using those_map_Some [of es "dec \<circ> enc" id] assms(2) by simp
qed

lemma leaf_bytes_read:
  assumes "leaf_wf lf" "length d = 4096"
  shows "leaf_of (leaf_bytes lf d) = Some lf" "length (leaf_bytes lf d) = 4096"
    "header_of (leaf_bytes lf d) = Some \<lparr>node_type = node_type lf, node_lsn = node_lsn lf, node_size = node_size lf,
      node_max_size = node_max_size lf, node_parent = node_parent lf, node_id = node_id lf\<rparr>"
proof -
  have w: "\<forall>e\<in>set (leaf_array lf). length (leaf_entry_bytes e) = KEY_SIZE + 8" using assms(1) by (simp add: leaf_wf_def leaf_entry_bytes_def)
  have r: "\<forall>e\<in>set (leaf_array lf). leaf_entry_of (leaf_entry_bytes e) = Some e" using assms(1) by (simp add: leaf_wf_def leaf_entry_read)
  have n: "length (leaf_array lf) = LEAF_PAGE_SIZE + 1" "header_ok lf" "int32 (leaf_next lf)" using assms(1) by (auto simp: leaf_wf_def)
  let ?r = "drop (28 + (LEAF_PAGE_SIZE + 1) * (KEY_SIZE + 8)) d"
  show h: "header_of (leaf_bytes lf d) = Some \<lparr>node_type = node_type lf, node_lsn = node_lsn lf, node_size = node_size lf,
      node_max_size = node_max_size lf, node_parent = node_parent lf, node_id = node_id lf\<rparr>"
    unfolding leaf_bytes_def by (rule header_of_bytes [OF n(2)])
  have x: "read32 (leaf_bytes lf d) 24 = Some (id_word (leaf_next lf))" by (simp add: leaf_bytes_def read32_skip read32_here)
  have "drop 28 (leaf_bytes lf d) = concat (map leaf_entry_bytes (leaf_array lf)) @ ?r" by (simp add: leaf_bytes_def)
  then have e: "those (map leaf_entry_of (chunks (LEAF_PAGE_SIZE + 1) (KEY_SIZE + 8) (drop 28 (leaf_bytes lf d)))) = Some (leaf_array lf)"
    using entries_read [OF w r, of ?r] n(1) by simp
  show "leaf_of (leaf_bytes lf d) = Some lf" using h x e sint_int32 [OF n(3)] by (cases lf) (simp add: leaf_of_def)
  show "length (leaf_bytes lf d) = 4096" using entries_length [OF w] n(1) assms(2) by (simp add: leaf_bytes_def page_sizes)
qed

lemma internal_bytes_read:
  assumes "internal_wf n" "length d = 4096"
  shows "internal_of (internal_bytes n d) = Some n" "length (internal_bytes n d) = 4096"
    "header_of (internal_bytes n d) = Some \<lparr>node_type = node_type n, node_lsn = node_lsn n, node_size = node_size n,
      node_max_size = node_max_size n, node_parent = node_parent n, node_id = node_id n\<rparr>"
proof -
  have w: "\<forall>e\<in>set (internal_array n). length (child_entry_bytes e) = KEY_SIZE + 4" using assms(1) by (simp add: internal_wf_def child_entry_bytes_def)
  have r: "\<forall>e\<in>set (internal_array n). child_entry_of (child_entry_bytes e) = Some e" using assms(1) by (simp add: internal_wf_def child_entry_read)
  have s: "length (internal_array n) = INTERNAL_PAGE_SIZE + 1" "header_ok n" using assms(1) by (auto simp: internal_wf_def)
  let ?r = "drop (24 + (INTERNAL_PAGE_SIZE + 1) * (KEY_SIZE + 4)) d"
  show h: "header_of (internal_bytes n d) = Some \<lparr>node_type = node_type n, node_lsn = node_lsn n, node_size = node_size n,
      node_max_size = node_max_size n, node_parent = node_parent n, node_id = node_id n\<rparr>"
    unfolding internal_bytes_def by (rule header_of_bytes [OF s(2)])
  have "drop 24 (internal_bytes n d) = concat (map child_entry_bytes (internal_array n)) @ ?r" by (simp add: internal_bytes_def)
  then have e: "those (map child_entry_of (chunks (INTERNAL_PAGE_SIZE + 1) (KEY_SIZE + 4) (drop 24 (internal_bytes n d)))) = Some (internal_array n)"
    using entries_read [OF w r, of ?r] s(1) by simp
  show "internal_of (internal_bytes n d) = Some n" using h e by (cases n) (simp add: internal_of_def)
  show "length (internal_bytes n d) = 4096" using entries_length [OF w] s(1) assms(2) by (simp add: internal_bytes_def page_sizes)
qed

text \<open>What is read from a page is well formed.\<close>

lemma header_of_ok: "header_of d = Some h \<Longrightarrow> header_ok h"
  by (auto simp: header_of_def header_ok_def int32_sint split: bind_splits)

lemma leaf_of_wf:
  assumes "leaf_of d = Some lf" "length d = 4096"
  shows "leaf_wf lf" "header_of d = Some (BPlusTreePage.truncate lf)"
proof -
  obtain h nxt es where h: "header_of d = Some h" "those (map leaf_entry_of (chunks (LEAF_PAGE_SIZE + 1) (KEY_SIZE + 8) (drop 28 d))) = Some es"
    "lf = \<lparr>node_type = node_type h, node_lsn = node_lsn h, node_size = node_size h, node_max_size = node_max_size h,
       node_parent = node_parent h, node_id = node_id h, leaf_next = sint (nxt :: u32), leaf_array = es\<rparr>"
    using assms(1) by (auto simp: leaf_of_def split: bind_splits)
  have "length (fst e) = KEY_SIZE" if e: "e \<in> set es" for e
  proof -
    obtain c where c: "c \<in> set (chunks (LEAF_PAGE_SIZE + 1) (KEY_SIZE + 8) (drop 28 d))" "leaf_entry_of c = Some e"
      using those_SomeD [OF h(2)] e by blast
    have "length c = KEY_SIZE + 8" by (rule chunks_length [OF _ c(1)]) (simp add: assms(2) page_sizes)
    then show ?thesis using c(2) by (auto simp: leaf_entry_of_def split: bind_splits)
  qed
  then show "leaf_wf lf" using h(3) header_of_ok [OF h(1)] those_SomeD [OF h(2)] by (auto simp: leaf_wf_def header_ok_def int32_sint)
  show "header_of d = Some (BPlusTreePage.truncate lf)" using h(1,3) by (cases h) (simp add: BPlusTreePage.truncate_def)
qed

lemma internal_of_wf:
  assumes "internal_of d = Some n" "length d = 4096"
  shows "internal_wf n" "header_of d = Some (BPlusTreePage.truncate n)"
proof -
  obtain h es where h: "header_of d = Some h" "those (map child_entry_of (chunks (INTERNAL_PAGE_SIZE + 1) (KEY_SIZE + 4) (drop 24 d))) = Some es"
    "n = \<lparr>node_type = node_type h, node_lsn = node_lsn h, node_size = node_size h, node_max_size = node_max_size h,
       node_parent = node_parent h, node_id = node_id h, internal_array = es\<rparr>"
    using assms(1) by (auto simp: internal_of_def split: bind_splits)
  have "length (fst e) = KEY_SIZE \<and> int32 (snd e)" if e: "e \<in> set es" for e
  proof -
    obtain c where c: "c \<in> set (chunks (INTERNAL_PAGE_SIZE + 1) (KEY_SIZE + 4) (drop 24 d))" "child_entry_of c = Some e"
      using those_SomeD [OF h(2)] e by blast
    have "length c = KEY_SIZE + 4" by (rule chunks_length [OF _ c(1)]) (simp add: assms(2) page_sizes)
    then show ?thesis using c(2) by (auto simp: child_entry_of_def int32_sint split: bind_splits)
  qed
  then show "internal_wf n" using h(3) header_of_ok [OF h(1)] those_SomeD [OF h(2)] by (auto simp: internal_wf_def header_ok_def)
  show "header_of d = Some (BPlusTreePage.truncate n)" using h(1,3) by (cases h) (simp add: BPlusTreePage.truncate_def)
qed

end
