(* ===== verification/Index_Roots.thy ===== *)
theory Index_Roots
  imports Serial
begin

text \<open>
  The page with the roots of all indexes, \<open>MiniSQL/src/page/index_roots_page.cpp\<close>: a 32-bit count and pairs of an index id
  and a page id on the bytes of the page. \<open>roots_hold\<close> relates it to an association list.
\<close>

section \<open>Model\<close>

function FindIndex_loop :: "u8 list \<Rightarrow> u32 \<Rightarrow> int \<Rightarrow> int \<Rightarrow> int option" where
  "FindIndex_loop d index_id i count = (if i < count then do {
     x \<leftarrow> read32 d (4 + 8 * nat i);
     if x = index_id then Some i else FindIndex_loop d index_id (i + 1) count }
   else Some (- 1))"
  by pat_completeness auto

termination FindIndex_loop
  by (relation "measure (\<lambda>(d, x, i, n). nat (n - i))") auto

definition roots_count :: "u8 list \<Rightarrow> int option" where
  "roots_count d = map_option sint (read32 d 0)"

definition FindIndex :: "u8 list \<Rightarrow> u32 \<Rightarrow> int option" where
  "FindIndex d index_id = do { n \<leftarrow> roots_count d; FindIndex_loop d index_id 0 n }"

definition IndexRoots_Insert :: "u32 \<Rightarrow> u32 \<Rightarrow> u8 list \<Rightarrow> (bool \<times> u8 list) option" where
  "IndexRoots_Insert index_id root_id d = do {
     index \<leftarrow> FindIndex d index_id;
     if index \<noteq> - 1 then Some (False, d) else do {
     n \<leftarrow> roots_count d;
     d \<leftarrow> write_bytes d (4 + 8 * nat n) (le32 index_id);
     d \<leftarrow> write_bytes d (8 + 8 * nat n) (le32 root_id);
     d \<leftarrow> write_bytes d 0 (le32 (word_of_int (n + 1)));
     Some (True, d) }}"

text \<open>The loop that moves the pairs behind a deleted one.\<close>

function close_gap :: "u8 list \<Rightarrow> int \<Rightarrow> int \<Rightarrow> u8 list option" where
  "close_gap d i n = (if i < n then do {
     x \<leftarrow> read32 d (4 + 8 * nat (i + 1));
     y \<leftarrow> read32 d (8 + 8 * nat (i + 1));
     d \<leftarrow> write_bytes d (4 + 8 * nat i) (le32 x);
     d \<leftarrow> write_bytes d (8 + 8 * nat i) (le32 y);
     close_gap d (i + 1) n }
   else Some d)"
  by pat_completeness auto

termination close_gap
  by (relation "measure (\<lambda>(d, i, n). nat (n - i))") auto

definition IndexRoots_Delete :: "u32 \<Rightarrow> u8 list \<Rightarrow> (bool \<times> u8 list) option" where
  "IndexRoots_Delete index_id d = do {
     index \<leftarrow> FindIndex d index_id;
     if index = - 1 then Some (False, d) else do {
     n \<leftarrow> roots_count d;
     d \<leftarrow> close_gap d index (n - 1);
     d \<leftarrow> write_bytes d 0 (le32 (word_of_int (n - 1)));
     Some (True, d) }}"

definition IndexRoots_Update :: "u32 \<Rightarrow> u32 \<Rightarrow> u8 list \<Rightarrow> (bool \<times> u8 list) option" where
  "IndexRoots_Update index_id root_id d = do {
     index \<leftarrow> FindIndex d index_id;
     if index = - 1 then Some (False, d) else do {
     d \<leftarrow> write_bytes d (8 + 8 * nat index) (le32 root_id);
     Some (True, d) }}"

text \<open>\<open>GetRootId\<close> returns the page id, or \<open>None\<close> for the answer \<open>false\<close>.\<close>

definition IndexRoots_GetRootId :: "u32 \<Rightarrow> u8 list \<Rightarrow> u32 option option" where
  "IndexRoots_GetRootId index_id d = do {
     index \<leftarrow> FindIndex d index_id;
     if index = - 1 then Some None else do {
     r \<leftarrow> read32 d (8 + 8 * nat index);
     Some (Some r) }}"

section \<open>The page as a table\<close>

definition pair_bytes :: "u32 \<times> u32 \<Rightarrow> u8 list" where
  "pair_bytes e = le32 (fst e) @ le32 (snd e)"

definition roots_image :: "(u32 \<times> u32) list \<Rightarrow> u8 list" where
  "roots_image rs = le32 (of_nat (length rs)) @ concat (map pair_bytes rs)"

definition roots_hold :: "u8 list \<Rightarrow> (u32 \<times> u32) list \<Rightarrow> bool" where
  "roots_hold d rs \<longleftrightarrow> distinct (map fst rs) \<and> length d = 4096 \<and> (\<exists>rest. d = roots_image rs @ rest)"

declare FindIndex_loop.simps [simp del] close_gap.simps [simp del]

lemma zero_roots: "roots_hold (replicate 4096 0) []"
proof -
  have "replicate 4096 0 = replicate 4 (0 :: u8) @ replicate 4092 0" by (simp only: replicate_add [symmetric]) simp
  moreover have "replicate 4 (0 :: u8) = le32 0" by (simp add: le32_def numeral_eq_Suc)
  ultimately show ?thesis by (auto simp: roots_hold_def roots_image_def)
qed

lemma pairs_length [simp]: "length (concat (map pair_bytes rs)) = 8 * length rs"
  by (induction rs) (simp_all add: pair_bytes_def)

lemma roots_image_length [simp]: "length (roots_image rs) = 4 + 8 * length rs"
  by (simp add: roots_image_def)

lemma roots_room: "roots_hold d rs \<Longrightarrow> 4 + 8 * length rs \<le> 4096"
  by (auto simp: roots_hold_def)

lemma roots_split:
  "roots_image (as @ (x, r) # bs) = (le32 (of_nat (length (as @ (x, r) # bs))) @ concat (map pair_bytes as)) @ le32 x @ le32 r @ concat (map pair_bytes bs)"
  by (simp add: roots_image_def pair_bytes_def)

lemma roots_read:
  "read32 (roots_image (as @ (x, r) # bs) @ rest) (4 + 8 * length as) = Some x"
  "read32 (roots_image (as @ (x, r) # bs) @ rest) (8 + 8 * length as) = Some r"
  unfolding roots_split by (simp_all add: read32_skip read32_here)

lemma roots_count_read:
  assumes "length rs \<le> 511" shows "roots_count (roots_image rs @ rest) = Some (int (length rs))"
proof -
  have "sint (of_nat (length rs) :: u32) = int (length rs)"
    using assms by (simp add: signed_of_nat signed_take_bit_int_eq_self)
  then show ?thesis by (simp add: roots_count_def roots_image_def read32_here)
qed

lemma FindIndex_loop_hit:
  assumes "\<forall>e\<in>set as. fst e \<noteq> x" "i \<le> length as" "int (length as) < n"
  shows "FindIndex_loop (roots_image (as @ (x, r) # bs) @ rest) x (int i) n = Some (int (length as))"
  using assms(2)
proof (induction "length as - i" arbitrary: i)
  case 0
  then have i: "i = length as" by simp
  show ?case unfolding i using assms(3) roots_read(1) [of as x r bs rest] by (subst FindIndex_loop.simps) simp
next
  case (Suc k)
  then have i: "i < length as" by simp
  obtain a1 y s a2 where a: "as = a1 @ (y, s) # a2" "length a1 = i" using i by (metis id_take_nth_drop length_take min.absorb4 surj_pair)
  have "y \<noteq> x" using assms(1) a(1) by auto
  moreover have "read32 (roots_image (as @ (x, r) # bs) @ rest) (4 + 8 * i) = Some y" using roots_read(1) [of a1 y s "a2 @ (x, r) # bs" rest] a by simp
  moreover have "FindIndex_loop (roots_image (as @ (x, r) # bs) @ rest) x (int (Suc i)) n = Some (int (length as))"
    using Suc.hyps(2) i by (intro Suc.hyps(1)) auto
  ultimately show ?case using assms(3) i by (subst FindIndex_loop.simps) (simp add: add.commute)
qed

lemma FindIndex_loop_miss:
  assumes "\<forall>e\<in>set rs. fst e \<noteq> x" "i \<le> length rs"
  shows "FindIndex_loop (roots_image rs @ rest) x (int i) (int (length rs)) = Some (- 1)"
  using assms(2)
proof (induction "length rs - i" arbitrary: i)
  case 0
  then show ?case by (subst FindIndex_loop.simps) simp
next
  case (Suc k)
  then have i: "i < length rs" by simp
  obtain a1 y s a2 where a: "rs = a1 @ (y, s) # a2" "length a1 = i" using i by (metis id_take_nth_drop length_take min.absorb4 surj_pair)
  have "y \<noteq> x" using assms(1) a(1) by auto
  moreover have "read32 (roots_image rs @ rest) (4 + 8 * i) = Some y" using roots_read(1) [of a1 y s a2 rest] a by simp
  moreover have "FindIndex_loop (roots_image rs @ rest) x (int (Suc i)) (int (length rs)) = Some (- 1)"
    using Suc.hyps(2) i by (intro Suc.hyps(1)) auto
  ultimately show ?case using i by (subst FindIndex_loop.simps) (simp add: add.commute)
qed

lemma FindIndex_ok:
  assumes "roots_hold d rs"
  shows "x \<notin> fst ` set rs \<Longrightarrow> FindIndex d x = Some (- 1)"
    "rs = as @ (x, r) # bs \<Longrightarrow> FindIndex d x = Some (int (length as))"
proof -
  obtain rest where d: "d = roots_image rs @ rest" "distinct (map fst rs)" using assms by (auto simp: roots_hold_def)
  have n: "length rs \<le> 511" using roots_room [OF assms] by simp
  show "FindIndex d x = Some (- 1)" if "x \<notin> fst ` set rs"
    using FindIndex_loop_miss [of rs x 0 rest] that roots_count_read [OF n, of rest] d(1) by (force simp: FindIndex_def)
  show "FindIndex d x = Some (int (length as))" if rs: "rs = as @ (x, r) # bs"
  proof -
    have "\<forall>e\<in>set as. fst e \<noteq> x" using d(2) rs by auto
    then show ?thesis using FindIndex_loop_hit [of as x 0 "int (length rs)" r bs rest] roots_count_read [OF n, of rest] d(1) rs by (simp add: FindIndex_def)
  qed
qed

lemma roots_entry: "x \<in> fst ` set rs \<Longrightarrow> \<exists>as r bs. rs = as @ (x, r) # bs"
  by (force dest: split_list)

lemma roots_get:
  assumes "roots_hold d rs" shows "IndexRoots_GetRootId x d = Some (map_of rs x)"
proof (cases "x \<in> fst ` set rs")
  case True
  obtain as r bs where rs: "rs = as @ (x, r) # bs" using roots_entry [OF True] by blast
  obtain rest where d: "d = roots_image rs @ rest" "distinct (map fst rs)" using assms by (auto simp: roots_hold_def)
  have "map_of rs x = Some r" using d(2) rs by (intro map_of_is_SomeI) auto
  then show ?thesis using FindIndex_ok(2) [OF assms rs] roots_read(2) [of as x r bs rest] d(1) rs by (simp add: IndexRoots_GetRootId_def)
next
  case False
  then have "map_of rs x = None" by (simp add: map_of_eq_None_iff)
  then show ?thesis using FindIndex_ok(1) [OF assms False] by (simp add: IndexRoots_GetRootId_def)
qed

lemma roots_insert:
  assumes "roots_hold d rs" "x \<notin> fst ` set rs" "length rs < 511"
  shows "\<exists>d'. IndexRoots_Insert x r d = Some (True, d') \<and> roots_hold d' (rs @ [(x, r)])"
proof -
  obtain rest where d: "d = roots_image rs @ rest" "distinct (map fst rs)" "length d = 4096" using assms(1) by (auto simp: roots_hold_def)
  have "8 \<le> length rest" using d(1,3) assms(3) by simp
  then obtain o1 o2 zs where o: "rest = o1 @ o2 @ zs" "length o1 = 4" "length o2 = 4"
    by (intro that [of "take 4 rest" "take 4 (drop 4 rest)" "drop 8 rest"]) (simp_all flip: append_assoc take_add)
  let ?n = "le32 (of_nat (length rs)) :: u8 list" and ?b = "concat (map pair_bytes rs)"
  have n: "length rs \<le> 511" using assms(3) by simp
  have w1: "write_bytes d (4 + 8 * length rs) (le32 x) = Some ((?n @ ?b) @ le32 x @ o2 @ zs)"
    unfolding d(1) o(1) roots_image_def by (rule write_segment) (simp_all add: o(2))
  have "write_bytes ((?n @ ?b @ le32 x) @ o2 @ zs) (8 + 8 * length rs) (le32 r) = Some ((?n @ ?b @ le32 x) @ le32 r @ zs)"
    by (rule write_segment) (simp_all add: o(3))
  then have w2: "write_bytes ((?n @ ?b) @ le32 x @ o2 @ zs) (8 + 8 * length rs) (le32 r) = Some ((?n @ ?b @ le32 x) @ le32 r @ zs)" by simp
  have "write_bytes ([] @ ?n @ ?b @ le32 x @ le32 r @ zs) 0 (le32 (1 + of_nat (length rs))) = Some ([] @ le32 (1 + of_nat (length rs)) @ ?b @ le32 x @ le32 r @ zs)"
    by (rule write_segment) simp_all
  then have w3: "write_bytes ((?n @ ?b @ le32 x) @ le32 r @ zs) 0 (le32 (word_of_int (int (length rs) + 1))) = Some (roots_image (rs @ [(x, r)]) @ zs)"
    by (simp add: roots_image_def pair_bytes_def add.commute)
  have "IndexRoots_Insert x r d = Some (True, roots_image (rs @ [(x, r)]) @ zs)"
    using FindIndex_ok(1) [OF assms(1,2)] roots_count_read [OF n, of rest] d(1) w1 w2 w3 by (simp add: IndexRoots_Insert_def)
  moreover have "roots_hold (roots_image (rs @ [(x, r)]) @ zs) (rs @ [(x, r)])"
    using d o assms(2) by (auto simp: roots_hold_def)
  ultimately show ?thesis by blast
qed

lemma roots_update:
  assumes "roots_hold d (as @ (x, r) # bs)"
  shows "\<exists>d'. IndexRoots_Update x r' d = Some (True, d') \<and> roots_hold d' (as @ (x, r') # bs)"
proof -
  obtain rest where d: "d = roots_image (as @ (x, r) # bs) @ rest" using assms by (auto simp: roots_hold_def)
  let ?p = "le32 (of_nat (length (as @ (x, r) # bs))) @ concat (map pair_bytes as) @ le32 x :: u8 list"
  have "write_bytes (?p @ le32 r @ concat (map pair_bytes bs) @ rest) (8 + 8 * length as) (le32 r') = Some (?p @ le32 r' @ concat (map pair_bytes bs) @ rest)"
    by (rule write_segment) simp_all
  then have "write_bytes d (8 + 8 * length as) (le32 r') = Some (roots_image (as @ (x, r') # bs) @ rest)"
    by (simp add: d roots_image_def pair_bytes_def)
  then have "IndexRoots_Update x r' d = Some (True, roots_image (as @ (x, r') # bs) @ rest)"
    using FindIndex_ok(2) [OF assms refl] by (simp add: IndexRoots_Update_def)
  moreover have "roots_hold (roots_image (as @ (x, r') # bs) @ rest) (as @ (x, r') # bs)"
    using assms d by (auto simp: roots_hold_def)
  ultimately show ?thesis by blast
qed

lemma close_gap_ok:
  "length h = 4 \<Longrightarrow> \<exists>g. length g = 8 \<and> close_gap (h @ concat (map pair_bytes as) @ pair_bytes e @ concat (map pair_bytes bs) @ rest)
      (int (length as)) (int (length as + length bs)) = Some (h @ concat (map pair_bytes (as @ bs)) @ g @ rest)"
proof (induction bs arbitrary: as e)
  case Nil
  show ?case by (intro exI [of _ "pair_bytes e"]) (simp add: pair_bytes_def close_gap.simps)
next
  case (Cons b bs)
  obtain x y where e: "e = (x, y)" by (cases e)
  obtain u v where b: "b = (u, v)" by (cases b)
  let ?a = "concat (map pair_bytes as)" and ?r = "concat (map pair_bytes bs) @ rest"
  let ?d = "h @ ?a @ pair_bytes e @ concat (map pair_bytes (b # bs)) @ rest"
  have d: "?d = (h @ ?a @ le32 x @ le32 y) @ le32 u @ le32 v @ ?r" by (simp add: e b pair_bytes_def)
  have i: "nat (int (length as) + 1) = Suc (length as)" by simp
  have r: "read32 ?d (4 + 8 * Suc (length as)) = Some u" "read32 ?d (8 + 8 * Suc (length as)) = Some v"
    unfolding d using Cons.prems by (simp_all add: read32_skip read32_here)
  have "write_bytes ((h @ ?a) @ le32 x @ le32 y @ le32 u @ le32 v @ ?r) (4 + 8 * length as) (le32 u)
      = Some ((h @ ?a) @ le32 u @ le32 y @ le32 u @ le32 v @ ?r)" using Cons.prems by (intro write_segment) simp_all
  then have w1: "write_bytes ?d (4 + 8 * length as) (le32 u) = Some ((h @ ?a @ le32 u) @ le32 y @ le32 u @ le32 v @ ?r)" by (simp add: e b pair_bytes_def)
  have w2: "write_bytes ((h @ ?a @ le32 u) @ le32 y @ le32 u @ le32 v @ ?r) (8 + 8 * length as) (le32 v)
      = Some ((h @ ?a @ le32 u) @ le32 v @ le32 u @ le32 v @ ?r)" using Cons.prems by (intro write_segment) simp_all
  have m: "(h @ ?a @ le32 u) @ le32 v @ le32 u @ le32 v @ ?r = h @ concat (map pair_bytes (as @ [b])) @ pair_bytes b @ concat (map pair_bytes bs) @ rest"
    by (simp add: b pair_bytes_def)
  define d d1 d2 where "d = ?d" and "d1 = (h @ ?a @ le32 u) @ le32 y @ le32 u @ le32 v @ ?r" and "d2 = (h @ ?a @ le32 u) @ le32 v @ le32 u @ le32 v @ ?r"
  note f = r [folded d_def] w1 [folded d_def d1_def] w2 [folded d1_def d2_def]
  have "close_gap d (int (length as)) (int (length as + length (b # bs))) = close_gap d2 (int (length as) + 1) (int (length as + length (b # bs)))"
    using f by (subst close_gap.simps) (simp add: i)
  then have "close_gap ?d (int (length as)) (int (length as + length (b # bs)))
      = close_gap (h @ concat (map pair_bytes (as @ [b])) @ pair_bytes b @ concat (map pair_bytes bs) @ rest) (int (length (as @ [b]))) (int (length (as @ [b]) + length bs))"
    unfolding m [folded d2_def, symmetric] d_def [symmetric] by (simp add: algebra_simps)
  then show ?case using Cons.IH [OF Cons.prems, of "as @ [b]" b] by simp
qed

lemma roots_delete:
  assumes "roots_hold d (as @ (x, r) # bs)"
  shows "\<exists>d'. IndexRoots_Delete x d = Some (True, d') \<and> roots_hold d' (as @ bs)"
proof -
  let ?rs = "as @ (x, r) # bs"
  obtain rest where d: "d = roots_image ?rs @ rest" "length d = 4096" "distinct (map fst ?rs)" using assms by (auto simp: roots_hold_def)
  have n: "length ?rs \<le> 511" using roots_room [OF assms] by simp
  let ?h = "le32 (of_nat (length ?rs)) :: u8 list"
  have e: "d = ?h @ concat (map pair_bytes as) @ pair_bytes (x, r) @ concat (map pair_bytes bs) @ rest" by (simp add: d(1) roots_image_def)
  obtain g where g: "length g = 8" "close_gap d (int (length as)) (int (length as + length bs)) = Some (?h @ concat (map pair_bytes (as @ bs)) @ g @ rest)"
    using close_gap_ok [of ?h as "(x, r)" bs rest] unfolding e by auto
  have s: "int (length ?rs) - 1 = int (length as + length bs)" by simp
  have "write_bytes ([] @ ?h @ concat (map pair_bytes (as @ bs)) @ g @ rest) 0 (le32 (of_nat (length (as @ bs))))
      = Some ([] @ le32 (of_nat (length (as @ bs))) @ concat (map pair_bytes (as @ bs)) @ g @ rest)" by (rule write_segment) simp_all
  then have w: "write_bytes (?h @ concat (map pair_bytes (as @ bs)) @ g @ rest) 0 (le32 (word_of_int (int (length ?rs) - 1))) = Some (roots_image (as @ bs) @ g @ rest)"
    unfolding s by (simp add: roots_image_def)
  have "IndexRoots_Delete x d = Some (True, roots_image (as @ bs) @ g @ rest)"
    using FindIndex_ok(2) [OF assms refl] roots_count_read [OF n, of rest] d(1) g(2) w s by (simp add: IndexRoots_Delete_def)
  moreover have "roots_hold (roots_image (as @ bs) @ g @ rest) (as @ bs)" using d g(1) by (simp add: roots_hold_def)
  ultimately show ?thesis by blast
qed

text \<open>
  C37: the page of the index roots is a finite map from index ids to root pages, for up to 511 indexes:
  \<open>GetRootId\<close> reads it, \<open>Insert\<close> adds a new id and refuses a known one, \<open>Update\<close> and \<open>Delete\<close> change a known id and
  refuse an unknown one, and no other id is affected.
\<close>

theorem index_roots_refine_map:
  assumes "roots_hold d rs"
  shows "IndexRoots_GetRootId x d = Some (map_of rs x)
    \<and> (if map_of rs x = None
       then IndexRoots_Update x r d = Some (False, d) \<and> IndexRoots_Delete x d = Some (False, d)
         \<and> (length rs < 511 \<longrightarrow> (\<exists>d' rs'. IndexRoots_Insert x r d = Some (True, d') \<and> roots_hold d' rs' \<and> map_of rs' = (map_of rs)(x \<mapsto> r)))
       else IndexRoots_Insert x r d = Some (False, d)
         \<and> (\<exists>d' rs'. IndexRoots_Update x r d = Some (True, d') \<and> roots_hold d' rs' \<and> map_of rs' = (map_of rs)(x \<mapsto> r))
         \<and> (\<exists>d' rs'. IndexRoots_Delete x d = Some (True, d') \<and> roots_hold d' rs' \<and> map_of rs' = (map_of rs)(x := None)))"
proof (cases "x \<in> fst ` set rs")
  case True
  obtain as s bs where rs: "rs = as @ (x, s) # bs" using roots_entry [OF True] by blast
  have x: "x \<notin> fst ` set as" "x \<notin> fst ` set bs" using assms rs by (auto simp: roots_hold_def)
  have nx: "map_of as x = None" "map_of bs x = None" using x by (simp_all add: map_of_eq_None_iff)
  have m: "map_of (as @ (x, r) # bs) = (map_of rs)(x \<mapsto> r)" "map_of (as @ bs) = (map_of rs)(x := None)" "map_of rs x \<noteq> None"
    using nx rs by (auto simp: fun_eq_iff map_add_def split: option.splits)
  obtain d1 d2 where "IndexRoots_Update x r d = Some (True, d1)" "roots_hold d1 (as @ (x, r) # bs)"
    "IndexRoots_Delete x d = Some (True, d2)" "roots_hold d2 (as @ bs)"
    using roots_update [OF assms [unfolded rs]] roots_delete [OF assms [unfolded rs]] by blast
  moreover have "IndexRoots_Insert x r d = Some (False, d)" using FindIndex_ok(2) [OF assms rs] by (simp add: IndexRoots_Insert_def)
  ultimately show ?thesis using roots_get [OF assms, of x] m by auto
next
  case False
  then have n: "map_of rs x = None" by (simp add: map_of_eq_None_iff)
  have "\<exists>d' rs'. IndexRoots_Insert x r d = Some (True, d') \<and> roots_hold d' rs' \<and> map_of rs' = (map_of rs)(x \<mapsto> r)" if room: "length rs < 511"
  proof -
    obtain d' where "IndexRoots_Insert x r d = Some (True, d')" "roots_hold d' (rs @ [(x, r)])" using roots_insert [OF assms False room] by blast
    moreover have "map_of (rs @ [(x, r)]) = (map_of rs)(x \<mapsto> r)" using n by (auto simp: fun_eq_iff map_add_def split: option.splits)
    ultimately show ?thesis by blast
  qed
  then show ?thesis using FindIndex_ok(1) [OF assms False] roots_get [OF assms, of x] n by (simp add: IndexRoots_Update_def IndexRoots_Delete_def)
qed

theorem index_roots_refine_map_witness:
  "IndexRoots_GetRootId 7 (replicate 4096 0) = Some None
    \<and> (\<exists>d' rs'. IndexRoots_Insert 7 3 (replicate 4096 0) = Some (True, d') \<and> roots_hold d' rs' \<and> map_of rs' = [7 \<mapsto> 3])"
proof -
  have "roots_image [] = replicate 4 0" by (simp add: roots_image_def le32_def eval_nat_numeral)
  moreover have "replicate 4096 (0 :: u8) = replicate 4 0 @ replicate 4092 0" by (simp only: replicate_add [symmetric]) simp
  ultimately have "replicate 4096 (0 :: u8) = roots_image [] @ replicate 4092 0" by (simp only:)
  then have "roots_hold (replicate 4096 0) []" by (auto simp: roots_hold_def)
  from index_roots_refine_map [OF this, of 7 3] show ?thesis by simp
qed

end
