(* ===== verification/BPlus_Tree.thy ===== *)
theory BPlus_Tree
  imports Node_Bytes Index_Roots
begin

text \<open>
  The B+ tree index, \<open>MiniSQL/src/index/b_plus_tree.cpp\<close>, with the operations of \<open>page/b_plus_tree_internal_page.cpp\<close> that change other nodes,
  the iterator of \<open>index/index_iterator.cpp\<close> and the wrapper \<open>index/b_plus_tree_index.cpp\<close>, over the buffer pool. A pointer to a node is the frame of
  its page. \<open>None\<close> stands for an assertion, an exception that is not caught, or the use of a null pointer.
\<close>

section \<open>Nodes in frames\<close>

definition read_header :: "nat \<Rightarrow> BufferPoolManager \<Rightarrow> BPlusTreePage option" where
  "read_header f bp = do { pg \<leftarrow> page_at f bp; header_of (data pg) }"

definition write_header :: "nat \<Rightarrow> BPlusTreePage \<Rightarrow> BufferPoolManager \<Rightarrow> BufferPoolManager option" where
  "write_header f h bp = do { pg \<leftarrow> page_at f bp; write_frame f (set_header h (data pg)) bp }"

definition read_leaf :: "nat \<Rightarrow> BufferPoolManager \<Rightarrow> (key, RowId) LeafPage option" where
  "read_leaf f bp = do { pg \<leftarrow> page_at f bp; leaf_of (data pg) }"

definition write_leaf :: "nat \<Rightarrow> (key, RowId) LeafPage \<Rightarrow> BufferPoolManager \<Rightarrow> BufferPoolManager option" where
  "write_leaf f lf bp = do { pg \<leftarrow> page_at f bp; write_frame f (leaf_bytes lf (data pg)) bp }"

definition read_internal :: "nat \<Rightarrow> BufferPoolManager \<Rightarrow> key InternalPage option" where
  "read_internal f bp = do { pg \<leftarrow> page_at f bp; internal_of (data pg) }"

definition write_internal :: "nat \<Rightarrow> key InternalPage \<Rightarrow> BufferPoolManager \<Rightarrow> BufferPoolManager option" where
  "write_internal f n bp = do { pg \<leftarrow> page_at f bp; write_frame f (internal_bytes n (data pg)) bp }"

text \<open>\<open>node->SetParentPageId(p)\<close>, and unpinning the page of a \<open>Page\<close> pointer.\<close>

definition SetParentPageId :: "nat \<Rightarrow> int \<Rightarrow> BufferPoolManager \<Rightarrow> BufferPoolManager option" where
  "SetParentPageId f p bp = do { h \<leftarrow> read_header f bp; write_header f (h\<lparr>node_parent := p\<rparr>) bp }"

definition unpin_frame :: "nat \<Rightarrow> bool \<Rightarrow> BufferPoolManager \<Rightarrow> BufferPoolManager option" where
  "unpin_frame f dirty bp = do { pg \<leftarrow> page_at f bp; (_, bp) \<leftarrow> UnpinPage (page_id pg) dirty bp; Some bp }"

section \<open>Internal pages and their children\<close>

text \<open>Fetch a child, set its parent, unpin it.\<close>

definition adopt :: "int \<Rightarrow> int \<Rightarrow> BufferPoolManager \<Rightarrow> BufferPoolManager option" where
  "adopt v parent bp = do {
     (q, bp) \<leftarrow> FetchPage v bp;
     c \<leftarrow> q;
     bp \<leftarrow> SetParentPageId c parent bp;
     unpin_frame c True bp }"

text \<open>The loop of \<open>CopyNFrom\<close> in the node at \<open>g\<close>; the items are the array of the node at \<open>f\<close> from \<open>off\<close> on.\<close>

function copy_children :: "nat \<Rightarrow> nat \<Rightarrow> int \<Rightarrow> int \<Rightarrow> int \<Rightarrow> int \<Rightarrow> BufferPoolManager \<Rightarrow> BufferPoolManager option" where
  "copy_children g f off n i m bp = (if i < m + n then do {
     src \<leftarrow> read_internal f bp;
     e \<leftarrow> arr_get (internal_array src) (off + (i - n));
     r \<leftarrow> read_internal g bp;
     a \<leftarrow> arr_set (internal_array r) i e;
     bp \<leftarrow> write_internal g (r\<lparr>internal_array := a\<rparr>) bp;
     bp \<leftarrow> adopt (snd e) (node_id r) bp;
     copy_children g f off n (i + 1) m bp }
   else Some bp)"
  by pat_completeness auto

termination copy_children
  by (relation "measure (\<lambda>(g, f, off, n, i, m, bp). nat (m + n - i))") auto

definition change_size :: "nat \<Rightarrow> int \<Rightarrow> BufferPoolManager \<Rightarrow> BufferPoolManager option" where
  "change_size f amount bp = do { h \<leftarrow> read_header f bp; write_header f (IncreaseSize amount h) bp }"

definition InternalPage_CopyNFrom :: "nat \<Rightarrow> nat \<Rightarrow> int \<Rightarrow> int \<Rightarrow> BufferPoolManager \<Rightarrow> BufferPoolManager option" where
  "InternalPage_CopyNFrom g f off m bp = do {
     r \<leftarrow> read_internal g bp;
     bp \<leftarrow> copy_children g f off (node_size r) (node_size r) m bp;
     change_size g m bp }"

definition InternalPage_MoveHalfTo :: "nat \<Rightarrow> nat \<Rightarrow> BufferPoolManager \<Rightarrow> BufferPoolManager option" where
  "InternalPage_MoveHalfTo f recipient bp = do {
     n \<leftarrow> read_internal f bp;
     let m = node_size n - GetMinSize n;
     bp \<leftarrow> InternalPage_CopyNFrom recipient f (GetMinSize n) m bp;
     change_size f (- m) bp }"

definition InternalPage_MoveAllTo :: "nat \<Rightarrow> nat \<Rightarrow> key \<Rightarrow> BufferPoolManager \<Rightarrow> BufferPoolManager option" where
  "InternalPage_MoveAllTo f recipient middle_key bp = do {
     n \<leftarrow> read_internal f bp;
     n \<leftarrow> InternalPage_SetKeyAt 0 middle_key n;
     bp \<leftarrow> write_internal f n bp;
     bp \<leftarrow> InternalPage_CopyNFrom recipient f 0 (node_size n) bp;
     h \<leftarrow> read_header f bp;
     write_header f (h\<lparr>node_size := 0\<rparr>) bp }"

definition InternalPage_CopyLastFrom :: "nat \<Rightarrow> key \<times> int \<Rightarrow> BufferPoolManager \<Rightarrow> BufferPoolManager option" where
  "InternalPage_CopyLastFrom g pair bp = do {
     r \<leftarrow> read_internal g bp;
     a \<leftarrow> arr_set (internal_array r) (node_size r) pair;
     bp \<leftarrow> write_internal g (r\<lparr>internal_array := a\<rparr>) bp;
     bp \<leftarrow> adopt (snd pair) (node_id r) bp;
     change_size g 1 bp }"

definition InternalPage_MoveFirstToEndOf :: "nat \<Rightarrow> nat \<Rightarrow> key \<Rightarrow> BufferPoolManager \<Rightarrow> BufferPoolManager option" where
  "InternalPage_MoveFirstToEndOf f recipient middle_key bp = do {
     n \<leftarrow> read_internal f bp;
     n \<leftarrow> InternalPage_SetKeyAt 0 middle_key n;
     bp \<leftarrow> write_internal f n bp;
     e \<leftarrow> arr_get (internal_array n) 0;
     bp \<leftarrow> InternalPage_CopyLastFrom recipient e bp;
     n \<leftarrow> read_internal f bp;
     a \<leftarrow> shift_down (internal_array n) 0 (node_size n - 1);
     write_internal f (IncreaseSize (- 1) (n\<lparr>internal_array := a\<rparr>)) bp }"

definition InternalPage_CopyFirstFrom :: "nat \<Rightarrow> key \<times> int \<Rightarrow> BufferPoolManager \<Rightarrow> BufferPoolManager option" where
  "InternalPage_CopyFirstFrom g pair bp = do {
     r \<leftarrow> read_internal g bp;
     a \<leftarrow> shift_up (internal_array r) (node_size r) 0;
     a \<leftarrow> arr_set a 0 pair;
     bp \<leftarrow> write_internal g (r\<lparr>internal_array := a\<rparr>) bp;
     bp \<leftarrow> adopt (snd pair) (node_id r) bp;
     change_size g 1 bp }"

definition InternalPage_MoveLastToFrontOf :: "nat \<Rightarrow> nat \<Rightarrow> key \<Rightarrow> BufferPoolManager \<Rightarrow> BufferPoolManager option" where
  "InternalPage_MoveLastToFrontOf f recipient middle_key bp = do {
     n \<leftarrow> read_internal f bp;
     e \<leftarrow> arr_get (internal_array n) (node_size n - 1);
     bp \<leftarrow> InternalPage_CopyFirstFrom recipient e bp;
     r \<leftarrow> read_internal recipient bp;
     r \<leftarrow> InternalPage_SetKeyAt 1 middle_key r;
     bp \<leftarrow> write_internal recipient r bp;
     change_size f (- 1) bp }"

section \<open>The tree\<close>

record BPlusTree =
  tree_index_id :: u32
  root_page_id :: int

definition INDEX_ROOTS_PAGE_ID :: int where "INDEX_ROOTS_PAGE_ID = 1"

text \<open>The constructor leaves the page of the roots pinned.\<close>

definition BPlusTree_new :: "u32 \<Rightarrow> BufferPoolManager \<Rightarrow> (BPlusTree \<times> BufferPoolManager) option" where
  "BPlusTree_new index_id bp = do {
     (q, bp) \<leftarrow> FetchPage INDEX_ROOTS_PAGE_ID bp;
     f \<leftarrow> q;
     pg \<leftarrow> page_at f bp;
     r \<leftarrow> IndexRoots_GetRootId index_id (data pg);
     Some (\<lparr>tree_index_id = index_id, root_page_id = (case r of Some root_id \<Rightarrow> sint root_id | None \<Rightarrow> INVALID_PAGE_ID)\<rparr>, bp) }"

definition IsEmpty :: "BPlusTree \<Rightarrow> bool" where
  "IsEmpty t \<longleftrightarrow> root_page_id t = INVALID_PAGE_ID"

definition UpdateRootPageId :: "bool \<Rightarrow> BPlusTree \<Rightarrow> BufferPoolManager \<Rightarrow> BufferPoolManager option" where
  "UpdateRootPageId insert_record t bp = do {
     (q, bp) \<leftarrow> FetchPage INDEX_ROOTS_PAGE_ID bp;
     f \<leftarrow> q;
     pg \<leftarrow> page_at f bp;
     (_, d) \<leftarrow> (if \<not> insert_record then IndexRoots_Update (tree_index_id t) (id_word (root_page_id t)) (data pg)
       else IndexRoots_Insert (tree_index_id t) (id_word (root_page_id t)) (data pg));
     bp \<leftarrow> write_frame f d bp;
     unpin_frame f True bp }"

subsection \<open>Search\<close>

text \<open>The descent that \<open>GetValue\<close>, \<open>InsertIntoLeaf\<close>, \<open>Remove\<close> and \<open>FindLeafPage\<close> share.\<close>

partial_function (option) descend :: "(key \<Rightarrow> key \<Rightarrow> int option) \<Rightarrow> key \<Rightarrow> nat \<Rightarrow> BufferPoolManager \<Rightarrow> (nat \<times> BufferPoolManager) option" where
  "descend comparator k f bp = do {
     h \<leftarrow> read_header f bp;
     if IsLeafPage h then Some (f, bp) else do {
     n \<leftarrow> read_internal f bp;
     v \<leftarrow> InternalPage_Lookup comparator k n;
     bp \<leftarrow> unpin_frame f False bp;
     (q, bp) \<leftarrow> FetchPage v bp;
     g \<leftarrow> q;
     descend comparator k g bp }}"

definition GetValue :: "(key \<Rightarrow> key \<Rightarrow> int option) \<Rightarrow> key \<Rightarrow> BPlusTree \<Rightarrow> BufferPoolManager \<Rightarrow> (RowId option \<times> BufferPoolManager) option" where
  "GetValue comparator k t bp = (if IsEmpty t then Some (None, bp) else do {
     (q, bp) \<leftarrow> FetchPage (root_page_id t) bp;
     f \<leftarrow> q;
     (f, bp) \<leftarrow> descend comparator k f bp;
     leaf \<leftarrow> read_leaf f bp;
     v \<leftarrow> LeafPage_Lookup comparator k leaf;
     bp \<leftarrow> unpin_frame f False bp;
     Some (v, bp) })"

subsection \<open>Insertion\<close>

definition StartNewTree :: "(key \<Rightarrow> key \<Rightarrow> int option) \<Rightarrow> key \<Rightarrow> RowId \<Rightarrow> BPlusTree \<Rightarrow> BufferPoolManager \<Rightarrow> (BPlusTree \<times> BufferPoolManager) option" where
  "StartNewTree comparator k v t bp = do {
     (q, bp) \<leftarrow> NewPage bp;
     (pageId, f) \<leftarrow> q;
     node \<leftarrow> read_leaf f bp;
     (_, node) \<leftarrow> LeafPage_Insert comparator k v (LeafPage_Init pageId (- 1) (int LEAF_PAGE_SIZE) node);
     bp \<leftarrow> write_leaf f node bp;
     let t = t\<lparr>root_page_id := pageId\<rparr>;
     bp \<leftarrow> UpdateRootPageId True t bp;
     (_, bp) \<leftarrow> UnpinPage pageId True bp;
     Some (t, bp) }"

text \<open>\<open>Split\<close> returns the frame of the new node.\<close>

definition Split :: "nat \<Rightarrow> BufferPoolManager \<Rightarrow> (nat \<times> BufferPoolManager) option" where
  "Split f bp = do {
     (q, bp) \<leftarrow> NewPage bp;
     (pageId, g) \<leftarrow> q;
     old \<leftarrow> read_header f bp;
     if IsLeafPage old then do {
       new_leaf \<leftarrow> read_leaf g bp;
       old_leaf \<leftarrow> read_leaf f bp;
       (old_leaf, new_leaf) \<leftarrow> LeafPage_MoveHalfTo old_leaf (LeafPage_Init pageId (- 1) (int LEAF_PAGE_SIZE) new_leaf);
       let new_leaf = new_leaf\<lparr>leaf_next := leaf_next old_leaf\<rparr>;
       let old_leaf = old_leaf\<lparr>leaf_next := node_id new_leaf\<rparr>;
       bp \<leftarrow> write_leaf g new_leaf bp;
       bp \<leftarrow> write_leaf f old_leaf bp;
       Some (g, bp) }
     else do {
       new_internal \<leftarrow> read_internal g bp;
       bp \<leftarrow> write_internal g (InternalPage_Init pageId (- 1) (int INTERNAL_PAGE_SIZE) new_internal) bp;
       bp \<leftarrow> InternalPage_MoveHalfTo f g bp;
       Some (g, bp) }}"

partial_function (option) InsertIntoParent :: "nat \<Rightarrow> key \<Rightarrow> nat \<Rightarrow> BPlusTree \<Rightarrow> BufferPoolManager \<Rightarrow> (BPlusTree \<times> BufferPoolManager) option" where
  "InsertIntoParent old_node k new_node t bp = do {
     old \<leftarrow> read_header old_node bp;
     if IsRootPage old then do {
       (q, bp) \<leftarrow> NewPage bp;
       (pageId, r) \<leftarrow> q;
       root \<leftarrow> read_internal r bp;
       old \<leftarrow> read_header old_node bp;
       new \<leftarrow> read_header new_node bp;
       root \<leftarrow> InternalPage_PopulateNewRoot (node_id old) k (node_id new) (InternalPage_Init pageId (- 1) (int INTERNAL_PAGE_SIZE) root);
       bp \<leftarrow> write_internal r root bp;
       bp \<leftarrow> SetParentPageId old_node pageId bp;
       bp \<leftarrow> SetParentPageId new_node pageId bp;
       let t = t\<lparr>root_page_id := pageId\<rparr>;
       bp \<leftarrow> UpdateRootPageId False t bp;
       bp \<leftarrow> unpin_frame r True bp;
       old \<leftarrow> read_header old_node bp;
       (_, bp) \<leftarrow> UnpinPage (node_id old) True bp;
       new \<leftarrow> read_header new_node bp;
       (_, bp) \<leftarrow> UnpinPage (node_id new) True bp;
       Some (t, bp) }
     else do {
       let parent_page_id = node_parent old;
       (q, bp) \<leftarrow> FetchPage parent_page_id bp;
       p \<leftarrow> q;
       node \<leftarrow> read_internal p bp;
       old \<leftarrow> read_header old_node bp;
       new \<leftarrow> read_header new_node bp;
       (m, node) \<leftarrow> InternalPage_InsertNodeAfter (node_id old) k (node_id new) node;
       bp \<leftarrow> write_internal p node bp;
       bp \<leftarrow> SetParentPageId old_node parent_page_id bp;
       bp \<leftarrow> SetParentPageId new_node parent_page_id bp;
       (t, bp) \<leftarrow> (if node_max_size node < m then do {
           k \<leftarrow> InternalPage_KeyAt (GetMinSize node) node;
           (g, bp) \<leftarrow> Split p bp;
           InsertIntoParent p k g t bp }
         else Some (t, bp));
       (_, bp) \<leftarrow> UnpinPage parent_page_id True bp;
       old \<leftarrow> read_header old_node bp;
       (_, bp) \<leftarrow> UnpinPage (node_id old) True bp;
       new \<leftarrow> read_header new_node bp;
       (_, bp) \<leftarrow> UnpinPage (node_id new) True bp;
       Some (t, bp) }}"

text \<open>A duplicate key is answered without unpinning the leaf.\<close>

definition InsertIntoLeaf :: "(key \<Rightarrow> key \<Rightarrow> int option) \<Rightarrow> key \<Rightarrow> RowId \<Rightarrow> BPlusTree \<Rightarrow> BufferPoolManager \<Rightarrow> (bool \<times> BPlusTree \<times> BufferPoolManager) option" where
  "InsertIntoLeaf comparator k v t bp = do {
     (q, bp) \<leftarrow> FetchPage (root_page_id t) bp;
     f \<leftarrow> q;
     (f, bp) \<leftarrow> descend comparator k f bp;
     leaf \<leftarrow> read_leaf f bp;
     found \<leftarrow> LeafPage_Lookup comparator k leaf;
     if found \<noteq> None then Some (False, t, bp) else do {
     (m, leaf) \<leftarrow> LeafPage_Insert comparator k v leaf;
     bp \<leftarrow> write_leaf f leaf bp;
     (t, bp) \<leftarrow> (if node_max_size leaf < m then do {
         k \<leftarrow> LeafPage_KeyAt (GetMinSize leaf) leaf;
         (g, bp) \<leftarrow> Split f bp;
         InsertIntoParent f k g t bp }
       else Some (t, bp));
     leaf \<leftarrow> read_header f bp;
     (_, bp) \<leftarrow> UnpinPage (node_id leaf) True bp;
     Some (True, t, bp) }}"

definition BPlusTree_Insert :: "(key \<Rightarrow> key \<Rightarrow> int option) \<Rightarrow> key \<Rightarrow> RowId \<Rightarrow> BPlusTree \<Rightarrow> BufferPoolManager \<Rightarrow> (bool \<times> BPlusTree \<times> BufferPoolManager) option" where
  "BPlusTree_Insert comparator k v t bp =
     (if IsEmpty t then do { (t, bp) \<leftarrow> StartNewTree comparator k v t bp; Some (True, t, bp) }
      else InsertIntoLeaf comparator k v t bp)"

subsection \<open>Removal\<close>

definition AdjustRoot :: "nat \<Rightarrow> BPlusTree \<Rightarrow> BufferPoolManager \<Rightarrow> (bool \<times> BPlusTree \<times> BufferPoolManager) option" where
  "AdjustRoot f t bp = do {
     h \<leftarrow> read_header f bp;
     if \<not> IsLeafPage h \<and> node_size h = 1 then do {
       n \<leftarrow> read_internal f bp;
       (pageId, n) \<leftarrow> InternalPage_RemoveAndReturnOnlyChild n;
       bp \<leftarrow> write_internal f n bp;
       let t = t\<lparr>root_page_id := pageId\<rparr>;
       bp \<leftarrow> UpdateRootPageId False t bp;
       (q, bp) \<leftarrow> FetchPage pageId bp;
       c \<leftarrow> q;
       bp \<leftarrow> SetParentPageId c INVALID_PAGE_ID bp;
       (_, bp) \<leftarrow> UnpinPage pageId True bp;
       Some (True, t, bp) }
     else if IsLeafPage h \<and> node_size h = 0 then do {
       let t = t\<lparr>root_page_id := INVALID_PAGE_ID\<rparr>;
       bp \<leftarrow> UpdateRootPageId False t bp;
       Some (True, t, bp) }
     else Some (False, t, bp) }"

definition Redistribute :: "nat \<Rightarrow> nat \<Rightarrow> int \<Rightarrow> BufferPoolManager \<Rightarrow> BufferPoolManager option" where
  "Redistribute neighbor_node node index bp = do {
     h \<leftarrow> read_header node bp;
     (q, bp) \<leftarrow> FetchPage (node_parent h) bp;
     p \<leftarrow> q;
     h \<leftarrow> read_header node bp;
     bp \<leftarrow> (if IsLeafPage h then do {
         leaf \<leftarrow> read_leaf node bp;
         sibling_leaf \<leftarrow> read_leaf neighbor_node bp;
         (sibling_leaf, leaf) \<leftarrow> (if index = 0 then LeafPage_MoveFirstToEndOf sibling_leaf leaf else LeafPage_MoveLastToFrontOf sibling_leaf leaf);
         bp \<leftarrow> write_leaf neighbor_node sibling_leaf bp;
         bp \<leftarrow> write_leaf node leaf bp;
         k \<leftarrow> LeafPage_KeyAt 0 (if index = 0 then sibling_leaf else leaf);
         parent \<leftarrow> read_internal p bp;
         parent \<leftarrow> InternalPage_SetKeyAt (if index = 0 then 1 else index) k parent;
         write_internal p parent bp }
       else do {
         parent \<leftarrow> read_internal p bp;
         k \<leftarrow> InternalPage_KeyAt (if index = 0 then 1 else index) parent;
         bp \<leftarrow> (if index = 0 then InternalPage_MoveFirstToEndOf neighbor_node node k bp else InternalPage_MoveLastToFrontOf neighbor_node node k bp);
         n \<leftarrow> read_internal (if index = 0 then neighbor_node else node) bp;
         k \<leftarrow> InternalPage_KeyAt 0 n;
         parent \<leftarrow> read_internal p bp;
         parent \<leftarrow> InternalPage_SetKeyAt (if index = 0 then 1 else index) k parent;
         write_internal p parent bp });
     unpin_frame p True bp }"

text \<open>
  \<open>Coalesce\<close> up to its recursive call. With \<open>index = 0\<close> it exchanges its own copies of the two pointers, so the right
  neighbour is emptied into the node.
\<close>

definition coalesce_nodes :: "nat \<Rightarrow> nat \<Rightarrow> nat \<Rightarrow> int \<Rightarrow> BufferPoolManager \<Rightarrow> BufferPoolManager option" where
  "coalesce_nodes neighbor_node node p index bp = do {
     let index' = (if index = 0 then 1 else index);
     let (neighbor_node, node) = (if index = 0 then (node, neighbor_node) else (neighbor_node, node));
     parent \<leftarrow> read_internal p bp;
     k \<leftarrow> InternalPage_KeyAt index' parent;
     h \<leftarrow> read_header node bp;
     bp \<leftarrow> (if IsLeafPage h then do {
         leaf \<leftarrow> read_leaf node bp;
         sibling_leaf \<leftarrow> read_leaf neighbor_node bp;
         (leaf, sibling_leaf) \<leftarrow> LeafPage_MoveAllTo leaf sibling_leaf;
         bp \<leftarrow> write_leaf node leaf bp;
         write_leaf neighbor_node sibling_leaf bp }
       else InternalPage_MoveAllTo node neighbor_node k bp);
     parent \<leftarrow> read_internal p bp;
     parent \<leftarrow> InternalPage_Remove index' parent;
     write_internal p parent bp }"

text \<open>Unpinning through a node pointer uses the page id stored in the node.\<close>

definition unpin_node :: "nat \<Rightarrow> BufferPoolManager \<Rightarrow> BufferPoolManager option" where
  "unpin_node f bp = do { h \<leftarrow> read_header f bp; (_, bp) \<leftarrow> UnpinPage (node_id h) True bp; Some bp }"

partial_function (option) CoalesceOrRedistribute :: "nat \<Rightarrow> BPlusTree \<Rightarrow> BufferPoolManager \<Rightarrow> (bool \<times> BPlusTree \<times> BufferPoolManager) option" where
  "CoalesceOrRedistribute f t bp = do {
     h \<leftarrow> read_header f bp;
     if IsRootPage h then AdjustRoot f t bp
     else if GetMinSize h \<le> node_size h then Some (False, t, bp)
     else do {
     (q, bp) \<leftarrow> FetchPage (node_parent h) bp;
     p \<leftarrow> q;
     parent \<leftarrow> read_internal p bp;
     h \<leftarrow> read_header f bp;
     index \<leftarrow> InternalPage_ValueIndex (node_id h) parent;
     sibling_pageId \<leftarrow> InternalPage_ValueAt (if index = 0 then 1 else index - 1) parent;
     (q, bp) \<leftarrow> FetchPage sibling_pageId bp;
     s \<leftarrow> q;
     sibling \<leftarrow> read_header s bp;
     h \<leftarrow> read_header f bp;
     if node_max_size h < node_size sibling + node_size h then do {
       bp \<leftarrow> Redistribute s f index bp;
       bp \<leftarrow> unpin_node p bp;
       bp \<leftarrow> unpin_node s bp;
       Some (False, t, bp) }
     else do {
       bp \<leftarrow> coalesce_nodes s f p index bp;
       (deleteOrNot, t, bp) \<leftarrow> CoalesceOrRedistribute p t bp;
       bp \<leftarrow> unpin_node p bp;
       bp \<leftarrow> unpin_node s bp;
       bp \<leftarrow> (if deleteOrNot then do { h \<leftarrow> read_header p bp; (_, bp) \<leftarrow> DeletePage (node_id h) bp; Some bp } else Some bp);
       Some (True, t, bp) }}}"

definition BPlusTree_Remove :: "(key \<Rightarrow> key \<Rightarrow> int option) \<Rightarrow> key \<Rightarrow> BPlusTree \<Rightarrow> BufferPoolManager \<Rightarrow> (BPlusTree \<times> BufferPoolManager) option" where
  "BPlusTree_Remove comparator k t bp = (if IsEmpty t then Some (t, bp) else do {
     (q, bp) \<leftarrow> FetchPage (root_page_id t) bp;
     f \<leftarrow> q;
     (f, bp) \<leftarrow> descend comparator k f bp;
     leaf \<leftarrow> read_leaf f bp;
     found \<leftarrow> LeafPage_Lookup comparator k leaf;
     if found = None then Some (t, bp) else do {
     let old_size = node_size leaf;
     (m, leaf) \<leftarrow> LeafPage_RemoveAndDeleteRecord comparator k leaf;
     bp \<leftarrow> write_leaf f leaf bp;
     if old_size = m then Some (t, bp) else do {
     (delete, t, bp) \<leftarrow> CoalesceOrRedistribute f t bp;
     bp \<leftarrow> unpin_frame f True bp;
     bp \<leftarrow> (if delete then do { pg \<leftarrow> page_at f bp; (_, bp) \<leftarrow> DeletePage (page_id pg) bp; Some bp } else Some bp);
     bp \<leftarrow> unpin_frame f True bp;
     Some (t, bp) }}})"

section \<open>Iteration\<close>

partial_function (option) leftmost :: "nat \<Rightarrow> BufferPoolManager \<Rightarrow> (nat \<times> BufferPoolManager) option" where
  "leftmost f bp = do {
     h \<leftarrow> read_header f bp;
     if IsLeafPage h then Some (f, bp) else do {
     n \<leftarrow> read_internal f bp;
     v \<leftarrow> InternalPage_ValueAt 0 n;
     bp \<leftarrow> unpin_frame f False bp;
     (q, bp) \<leftarrow> FetchPage v bp;
     g \<leftarrow> q;
     leftmost g bp }}"

definition FindLeafPage :: "(key \<Rightarrow> key \<Rightarrow> int option) \<Rightarrow> key \<Rightarrow> bool \<Rightarrow> BPlusTree \<Rightarrow> BufferPoolManager \<Rightarrow> (nat \<times> BufferPoolManager) option" where
  "FindLeafPage comparator k leftMost t bp = do {
     (q, bp) \<leftarrow> FetchPage (root_page_id t) bp;
     f \<leftarrow> q;
     if \<not> leftMost then descend comparator k f bp else leftmost f bp }"

record IndexIterator =
  it_leaf :: "nat option"
  it_index :: int
  it_page_id :: int

definition IndexIterator_new :: "nat \<Rightarrow> int \<Rightarrow> BufferPoolManager \<Rightarrow> IndexIterator option" where
  "IndexIterator_new f index bp = do { h \<leftarrow> read_header f bp; Some \<lparr>it_leaf = Some f, it_index = index, it_page_id = node_id h\<rparr> }"

definition BPlusTree_Begin :: "(key \<Rightarrow> key \<Rightarrow> int option) \<Rightarrow> BPlusTree \<Rightarrow> BufferPoolManager \<Rightarrow> (IndexIterator \<times> BufferPoolManager) option" where
  "BPlusTree_Begin comparator t bp = do {
     (f, bp) \<leftarrow> FindLeafPage comparator (replicate KEY_SIZE 0) True t bp;
     it \<leftarrow> IndexIterator_new f 0 bp;
     Some (it, bp) }"

definition BPlusTree_Begin_key :: "(key \<Rightarrow> key \<Rightarrow> int option) \<Rightarrow> key \<Rightarrow> BPlusTree \<Rightarrow> BufferPoolManager \<Rightarrow> (IndexIterator \<times> BufferPoolManager) option" where
  "BPlusTree_Begin_key comparator k t bp = do {
     (f, bp) \<leftarrow> FindLeafPage comparator k False t bp;
     leaf \<leftarrow> read_leaf f bp;
     index \<leftarrow> LeafPage_KeyIndex comparator k leaf;
     it \<leftarrow> IndexIterator_new f index bp;
     Some (it, bp) }"

definition BPlusTree_End :: IndexIterator where
  "BPlusTree_End = \<lparr>it_leaf = None, it_index = - 1, it_page_id = INVALID_PAGE_ID\<rparr>"

definition IndexIterator_item :: "IndexIterator \<Rightarrow> BufferPoolManager \<Rightarrow> (key \<times> RowId) option" where
  "IndexIterator_item it bp = do { f \<leftarrow> it_leaf it; leaf \<leftarrow> read_leaf f bp; LeafPage_GetItem (it_index it) leaf }"

definition IndexIterator_next :: "IndexIterator \<Rightarrow> BufferPoolManager \<Rightarrow> (IndexIterator \<times> BufferPoolManager) option" where
  "IndexIterator_next it bp = do {
     f \<leftarrow> it_leaf it;
     leaf \<leftarrow> read_leaf f bp;
     let it = it\<lparr>it_index := it_index it + 1\<rparr>;
     if it_index it < node_size leaf then Some (it, bp) else do {
     let pageId = leaf_next leaf;
     (_, bp) \<leftarrow> UnpinPage (node_id leaf) False bp;
     if pageId = INVALID_PAGE_ID then Some (it\<lparr>it_leaf := None, it_index := - 1, it_page_id := INVALID_PAGE_ID\<rparr>, bp) else do {
     (q, bp) \<leftarrow> FetchPage pageId bp;
     g \<leftarrow> q;
     Some (it\<lparr>it_leaf := Some g, it_index := 0, it_page_id := pageId\<rparr>, bp) }}}"

definition iterators_differ :: "IndexIterator \<Rightarrow> IndexIterator \<Rightarrow> bool" where
  "iterators_differ a b \<longleftrightarrow> it_page_id a \<noteq> it_page_id b \<or> it_index a \<noteq> it_index b"

section \<open>The index of the database\<close>

datatype dberr_t = DB_SUCCESS | DB_FAILED | DB_TABLE_ALREADY_EXIST | DB_TABLE_NOT_EXIST | DB_INDEX_ALREADY_EXIST | DB_INDEX_NOT_FOUND
  | DB_COLUMN_NAME_NOT_EXIST | DB_KEY_NOT_FOUND

definition InsertEntry :: "nat \<Rightarrow> Row \<Rightarrow> RowId \<Rightarrow> BPlusTree \<Rightarrow> BufferPoolManager \<Rightarrow> (dberr_t \<times> BPlusTree \<times> BufferPoolManager) option" where
  "InsertEntry column_count krow row_id t bp = (if row_id = INVALID_ROWID then None else do {
     k \<leftarrow> SerializeFromKey KEY_SIZE column_count krow;
     (status, t, bp) \<leftarrow> BPlusTree_Insert (GenericComparator KEY_SIZE column_count) k row_id t bp;
     Some (if \<not> status then DB_FAILED else DB_SUCCESS, t, bp) })"

definition RemoveEntry :: "nat \<Rightarrow> Row \<Rightarrow> BPlusTree \<Rightarrow> BufferPoolManager \<Rightarrow> (dberr_t \<times> BPlusTree \<times> BufferPoolManager) option" where
  "RemoveEntry column_count krow t bp = do {
     k \<leftarrow> SerializeFromKey KEY_SIZE column_count krow;
     (t, bp) \<leftarrow> BPlusTree_Remove (GenericComparator KEY_SIZE column_count) k t bp;
     Some (DB_SUCCESS, t, bp) }"

definition ScanKey :: "nat \<Rightarrow> Row \<Rightarrow> BPlusTree \<Rightarrow> BufferPoolManager \<Rightarrow> (dberr_t \<times> RowId list \<times> BufferPoolManager) option" where
  "ScanKey column_count krow t bp = do {
     k \<leftarrow> SerializeFromKey KEY_SIZE column_count krow;
     (v, bp) \<leftarrow> GetValue (GenericComparator KEY_SIZE column_count) k t bp;
     Some (case v of Some r \<Rightarrow> (DB_SUCCESS, [r], bp) | None \<Rightarrow> (DB_KEY_NOT_FOUND, [], bp)) }"

end
