(* ===== verification/BPlus_Search.thy ===== *)
theory BPlus_Search
  imports BPlus_Tree
begin

text \<open>
  The B+ tree as a sorted list of entries. \<open>tree_at M t\<close> says that the pages \<open>M\<close> hold the tree \<open>t\<close>, \<open>tree_ok\<close> that its keys are in
  order and separated by the keys of the internal nodes. The descent reaches the one leaf that can hold a key, so a
  search answers as the list of all entries does, and an insertion that fits its leaf inserts into that list.
\<close>

section \<open>Trees\<close>

datatype btree = BLeaf int "(key \<times> RowId) list" | BNode int btree "(key \<times> btree) list"

fun root_id :: "btree \<Rightarrow> int" where
  "root_id (BLeaf p es) = p"
| "root_id (BNode p t kts) = p"

fun inorder :: "btree \<Rightarrow> (key \<times> RowId) list" where
  "inorder (BLeaf p es) = es"
| "inorder (BNode p t kts) = inorder t @ concat (map (\<lambda>kt. inorder (snd kt)) kts)"

fun tree_ids :: "btree \<Rightarrow> int list" where
  "tree_ids (BLeaf p es) = [p]"
| "tree_ids (BNode p t kts) = p # tree_ids t @ concat (map (\<lambda>kt. tree_ids (snd kt)) kts)"

definition child_entries :: "(key \<times> btree) list \<Rightarrow> (key \<times> int) list" where
  "child_entries kts = map (\<lambda>kt. (fst kt, root_id (snd kt))) kts"

definition leaf_page :: "page \<Rightarrow> int \<Rightarrow> (key \<times> RowId) list \<Rightarrow> bool" where
  "leaf_page d p es \<longleftrightarrow> length d = 4096 \<and> (\<exists>lf. leaf_of d = Some lf \<and> node_type lf = LEAF_PAGE
     \<and> node_id lf = p \<and> node_max_size lf = int LEAF_PAGE_SIZE \<and> leaf_holds lf es)"

definition internal_page :: "page \<Rightarrow> int \<Rightarrow> int \<Rightarrow> (key \<times> int) list \<Rightarrow> bool" where
  "internal_page d p c es \<longleftrightarrow> length d = 4096
     \<and> (\<exists>n k. internal_of d = Some n \<and> node_type n = INTERNAL_PAGE \<and> node_id n = p \<and> internal_holds n ((k, c) # es))"

fun tree_at :: "(int \<Rightarrow> page) \<Rightarrow> btree \<Rightarrow> bool" where
  "tree_at M (BLeaf p es) = leaf_page (M p) p es"
| "tree_at M (BNode p t kts) = (internal_page (M p) p (root_id t) (child_entries kts) \<and> tree_at M t \<and> (\<forall>kt\<in>set kts. tree_at M (snd kt)))"

fun key_separated :: "(key \<Rightarrow> key \<Rightarrow> int option) \<Rightarrow> btree \<Rightarrow> (key \<times> btree) list \<Rightarrow> bool" where
  "key_separated comparator t [] = True"
| "key_separated comparator t (kt # kts) = ((\<forall>e\<in>set (inorder t). key_less comparator (fst e) (fst kt))
     \<and> (\<forall>e\<in>set (inorder (snd kt)). \<not> key_less comparator (fst e) (fst kt)) \<and> key_separated comparator (snd kt) kts)"

fun tree_ok :: "(key \<Rightarrow> key \<Rightarrow> int option) \<Rightarrow> key set \<Rightarrow> btree \<Rightarrow> bool" where
  "tree_ok comparator K (BLeaf p es) = leaf_ok comparator K es"
| "tree_ok comparator K (BNode p t kts) = (leaf_ok comparator K (child_entries kts) \<and> key_separated comparator t kts
     \<and> tree_ok comparator K t \<and> (\<forall>kt\<in>set kts. tree_ok comparator K (snd kt)))"

text \<open>The child the descent takes, and the leaf it ends in.\<close>

fun pick :: "(key \<Rightarrow> key \<Rightarrow> int option) \<Rightarrow> key \<Rightarrow> btree \<Rightarrow> (key \<times> btree) list \<Rightarrow> btree" where
  "pick comparator k t [] = t"
| "pick comparator k t (kt # kts) = (if key_less comparator k (fst kt) then t else pick comparator k (snd kt) kts)"

lemma pick_split:
  "\<forall>kt\<in>set as. \<not> key_less comparator k (fst kt) \<Longrightarrow> bs = [] \<or> key_less comparator k (fst (hd bs)) \<Longrightarrow>
    pick comparator k t (as @ bs) = last (t # map snd as)"
proof (induction as arbitrary: t)
  case Nil
  then show ?case by (cases bs) auto
qed simp

lemma pick_child: "pick comparator k t kts = t \<or> pick comparator k t kts \<in> snd ` set kts"
  by (induction kts arbitrary: t) auto

function route :: "(key \<Rightarrow> key \<Rightarrow> int option) \<Rightarrow> key \<Rightarrow> btree \<Rightarrow> int \<times> (key \<times> RowId) list" where
  "route comparator k (BLeaf p es) = (p, es)"
| "route comparator k (BNode p t kts) = route comparator k (pick comparator k t kts)"
  by pat_completeness auto

lemma child_size: "(s, u) \<in> set kts \<Longrightarrow> size u < Suc (size_list (size_prod (\<lambda>x. 0) size) kts)"
  by (induction kts) auto

termination route
proof (relation "measure (\<lambda>(comparator, k, t). size t)")
  fix comparator k p t kts
  show "((comparator, k, pick comparator k t kts), (comparator, k, BNode p t kts)) \<in> measure (\<lambda>(comparator, k, t). size t)"
    using pick_child [of comparator k t kts] child_size [of _ "pick comparator k t kts" kts] by fastforce
qed simp

lemma route_induct:
  assumes "\<And>p es. P (BLeaf p es)" "\<And>p t kts. P (pick comparator k t kts) \<Longrightarrow> P (BNode p t kts)"
  shows "P t"
  using assms by (induction comparator k t rule: route.induct) auto

section \<open>Order\<close>

lemma inorder_keys: "tree_ok comparator K t \<Longrightarrow> e \<in> set (inorder t) \<Longrightarrow> fst e \<in> K"
  by (induction t) (fastforce simp: leaf_ok_def)+

lemma child_entries_keys: "fst ` set (child_entries kts) = fst ` set kts"
  by (force simp: child_entries_def)

lemma node_children:
  "inorder (BNode p t kts) = concat (map inorder (t # map snd kts))" "tree_ids (BNode p t kts) = p # concat (map tree_ids (t # map snd kts))"
  "tree_at M (BNode p t kts) \<longleftrightarrow> internal_page (M p) p (root_id t) (child_entries kts) \<and> (\<forall>u\<in>set (t # map snd kts). tree_at M u)"
  "tree_ok comparator K (BNode p t kts) \<longleftrightarrow> leaf_ok comparator K (child_entries kts) \<and> key_separated comparator t kts \<and> (\<forall>u\<in>set (t # map snd kts). tree_ok comparator K u)"
  "child_entries kts = zip (map fst kts) (map root_id (map snd kts))"
  by (simp_all add: comp_def child_entries_def zip_map_map zip_same_conv_map)

lemma children_split: "t # map snd (as @ bs) = butlast (t # map snd as) @ last (t # map snd as) # map snd bs"
  using append_butlast_last_id [of "t # map snd as"] by simp

lemma key_separated_append:
  "key_separated comparator t (as @ bs) \<longleftrightarrow> key_separated comparator t as \<and> key_separated comparator (last (t # map snd as)) bs"
  by (induction as arbitrary: t) auto

locale tree_order = key_order comparator K for comparator :: "key \<Rightarrow> key \<Rightarrow> int option" and K :: "key set"
begin

lemma less_to_key: "a \<in> K \<Longrightarrow> b \<in> K \<Longrightarrow> k \<in> K \<Longrightarrow> key_less comparator a b \<Longrightarrow> \<not> key_less comparator k b \<Longrightarrow> key_less comparator a k"
  using less_cases [of b k] less_trans [of a b k] less_same [of a b k] by blast

lemma key_to_less: "a \<in> K \<Longrightarrow> b \<in> K \<Longrightarrow> k \<in> K \<Longrightarrow> \<not> key_less comparator a b \<Longrightarrow> key_less comparator k b \<Longrightarrow> key_less comparator k a"
  using less_cases [of a b] same_sym [of a b] less_trans [of k b a] less_same [of k b a] by blast

text \<open>The child the descent takes holds the entries that are not below and not above the key.\<close>

lemma children_above:
  assumes "key_separated comparator t kts" "\<forall>kt\<in>set kts. tree_ok comparator K (snd kt) \<and> fst kt \<in> K" "k \<in> K" "\<forall>kt\<in>set kts. key_less comparator k (fst kt)"
    "e \<in> set (concat (map inorder (map snd kts)))"
  shows "key_less comparator k (fst e)"
  using assms
proof (induction kts arbitrary: t)
  case (Cons kt kts)
  show ?case
  proof (cases "e \<in> set (inorder (snd kt))")
    case True
    then have "fst e \<in> K" "\<not> key_less comparator (fst e) (fst kt)" using inorder_keys [of comparator K "snd kt"] Cons.prems(1,2) by auto
    then show ?thesis using key_to_less [of "fst e" "fst kt" k] Cons.prems(2-4) by auto
  next
    case False
    then show ?thesis using Cons.IH [of "snd kt"] Cons.prems by auto
  qed
qed simp

lemma children_below:
  assumes "key_separated comparator t as" "tree_ok comparator K t" "\<forall>kt\<in>set as. tree_ok comparator K (snd kt) \<and> fst kt \<in> K" "k \<in> K"
    "\<forall>kt\<in>set as. \<not> key_less comparator k (fst kt)" "e \<in> set (concat (map inorder (butlast (t # map snd as))))"
  shows "key_less comparator (fst e) k"
  using assms
proof (induction as arbitrary: t)
  case (Cons kt as)
  show ?case
  proof (cases "e \<in> set (inorder t)")
    case True
    then have "fst e \<in> K" "key_less comparator (fst e) (fst kt)" using inorder_keys [OF Cons.prems(2)] Cons.prems(1) by auto
    then show ?thesis using less_to_key [of "fst e" "fst kt" k] Cons.prems(3-5) by auto
  next
    case False
    then show ?thesis using Cons.IH [of "snd kt"] Cons.prems by auto
  qed
qed simp

text \<open>The separators up to the child that \<open>pick\<close> takes, and those behind it.\<close>

lemma node_split:
  assumes "tree_ok comparator K (BNode p t kts)" "k \<in> K"
  obtains as bs where "kts = as @ bs" "\<forall>kt\<in>set as. \<not> key_less comparator k (fst kt)" "\<forall>kt\<in>set bs. key_less comparator k (fst kt)"
    "pick comparator k t kts = last (t # map snd as)"
proof -
  define as bs where "as = takeWhile (\<lambda>kt. \<not> key_less comparator k (fst kt)) kts" and "bs = dropWhile (\<lambda>kt. \<not> key_less comparator k (fst kt)) kts"
  have kts: "kts = as @ bs" by (simp add: as_def bs_def)
  have a: "\<forall>kt\<in>set as. \<not> key_less comparator k (fst kt)" by (auto simp: as_def dest: set_takeWhileD)
  have b: "bs = [] \<or> key_less comparator k (fst (hd bs))" using hd_dropWhile [of "\<lambda>kt. \<not> key_less comparator k (fst kt)" kts] by (auto simp: bs_def)
  have K: "fst ` set kts \<subseteq> K" "sorted_wrt (\<lambda>a b. key_less comparator (fst a) (fst b)) kts"
    using assms(1) child_entries_keys [of kts] by (auto simp: leaf_ok_def keys_sorted_def child_entries_def sorted_wrt_map)
  have "\<forall>kt\<in>set bs. key_less comparator k (fst kt)"
  proof
    fix kt assume kt: "kt \<in> set bs"
    have "kt = hd bs \<or> key_less comparator (fst (hd bs)) (fst kt)" using kt K(2) kts by (cases bs) (auto simp: sorted_wrt_append)
    moreover have "fst (hd bs) \<in> K" "fst kt \<in> K" using kt K(1) kts by (cases bs; auto)+
    ultimately show "key_less comparator k (fst kt)" using b kt less_trans [OF assms(2)] by (metis list.set(1) empty_iff)
  qed
  then show thesis using that kts a pick_split [OF a b, of t] by blast
qed

lemma pick_ok: "tree_ok comparator K (BNode p t kts) \<Longrightarrow> tree_ok comparator K (pick comparator k t kts)"
  using pick_child [of comparator k t kts] by auto

text \<open>The entries of a node around those of the child for a key.\<close>

lemma node_cut:
  assumes "tree_ok comparator K (BNode p t kts)" "k \<in> K"
  obtains as bs where "kts = as @ bs" "\<forall>kt\<in>set as. \<not> key_less comparator k (fst kt)" "\<forall>kt\<in>set bs. key_less comparator k (fst kt)"
    "pick comparator k t kts = last (t # map snd as)"
    "\<forall>e\<in>set (concat (map inorder (butlast (t # map snd as)))) \<union> set (concat (map inorder (map snd bs))). fst e \<in> K \<and> \<not> key_same comparator (fst e) k"
proof -
  obtain as bs where s: "kts = as @ bs" "\<forall>kt\<in>set as. \<not> key_less comparator k (fst kt)" "\<forall>kt\<in>set bs. key_less comparator k (fst kt)"
    "pick comparator k t kts = last (t # map snd as)" using node_split [OF assms] by blast
  have "key_separated comparator t as" "key_separated comparator (last (t # map snd as)) bs" using assms(1) s(1) by (simp_all add: key_separated_append)
  moreover have "tree_ok comparator K t" "\<forall>kt\<in>set kts. tree_ok comparator K (snd kt) \<and> fst kt \<in> K"
    using assms(1) child_entries_keys [of kts] by (auto simp: leaf_ok_def)
  ultimately have lh: "key_less comparator (fst e) k" if "e \<in> set (concat (map inorder (butlast (t # map snd as))))" for e
    using children_below [of t as k e] s(1,2) assms(2) that by auto
  have rh: "key_less comparator k (fst e)" if "e \<in> set (concat (map inorder (map snd bs)))" for e
    using children_above [of "last (t # map snd as)" bs k e] s(1,3) assms(2) that
      \<open>key_separated comparator (last (t # map snd as)) bs\<close> \<open>\<forall>kt\<in>set kts. tree_ok comparator K (snd kt) \<and> fst kt \<in> K\<close> by auto
  have K: "fst e \<in> K" if "e \<in> set (concat (map inorder (butlast (t # map snd as)))) \<union> set (concat (map inorder (map snd bs)))" for e
  proof (rule inorder_keys [OF assms(1)])
    show "e \<in> set (inorder (BNode p t kts))" using that unfolding node_children(1) s(1) children_split by (simp only: map_append concat_append list.map concat.simps set_append Un_iff) blast
  qed
  then show thesis using that [OF s] lh rh less_cases [OF K assms(2)] by blast
qed

lemma search_route:
  assumes "tree_ok comparator K t" "k \<in> K"
  shows "find_entry comparator (inorder t) k = find_entry comparator (snd (route comparator k t)) k" "leaf_ok comparator K (snd (route comparator k t))"
proof -
  have "find_entry comparator (inorder t) k = find_entry comparator (snd (route comparator k t)) k \<and> leaf_ok comparator K (snd (route comparator k t))"
    using assms(1)
  proof (induction t rule: route_induct [where comparator = comparator and k = k])
    case (2 p t kts)
    obtain as bs where s: "kts = as @ bs" "pick comparator k t kts = last (t # map snd as)"
      "\<forall>e\<in>set (concat (map inorder (butlast (t # map snd as)))) \<union> set (concat (map inorder (map snd bs))). fst e \<in> K \<and> \<not> key_same comparator (fst e) k"
      using node_cut [OF 2(2) assms(2)] by blast
    have "find_entry comparator (concat (map inorder (butlast (t # map snd as)))) k = None" "find_entry comparator (concat (map inorder (map snd bs))) k = None"
      by (rule find_entry_None; use s(3) in blast)+
    then have "find_entry comparator (inorder (BNode p t kts)) k = find_entry comparator (inorder (pick comparator k t kts)) k"
      unfolding node_children(1) s(1) children_split s(2) [unfolded s(1)] by (simp add: find_entry_append split: option.splits)
    then show ?case using 2(1) pick_ok [OF 2(2)] by simp
  qed simp
  then show "find_entry comparator (inorder t) k = find_entry comparator (snd (route comparator k t)) k" "leaf_ok comparator K (snd (route comparator k t))" by simp_all
qed

lemma lookup_pick:
  assumes "internal_holds n ((k0, root_id t) # child_entries kts)" "leaf_ok comparator K (child_entries kts)" "k \<in> K"
  shows "InternalPage_Lookup comparator k n = Some (root_id (pick comparator k t kts))"
proof -
  obtain cs ds where l: "child_entries kts = cs @ ds" "InternalPage_Lookup comparator k n = Some (snd (last ((k0, root_id t) # cs)))"
    "\<forall>e\<in>set cs. \<not> key_less comparator k (fst e)" "\<forall>e\<in>set ds. key_less comparator k (fst e)" using internal_lookup [OF assms] by blast
  obtain as bs where a: "kts = as @ bs" "cs = child_entries as" "ds = child_entries bs"
    using l(1) unfolding child_entries_def map_eq_append_conv by blast
  have "pick comparator k t (as @ bs) = last (t # map snd as)"
    by (rule pick_split) (use l(3,4) a(2,3) in \<open>cases bs; auto simp: child_entries_def\<close>)+
  moreover have "snd (last ((k0, root_id t) # cs)) = root_id (last (t # map snd as))"
    by (cases as rule: rev_cases) (simp_all add: a(2) child_entries_def)
  ultimately show ?thesis using l(2) a(1) by simp
qed

end

section \<open>The descent in the pool\<close>

lemma node_at:
  assumes "pool_at bp A M W pins" "pins p = Some f"
  shows "read_header f bp = header_of (M p)" "read_leaf f bp = leaf_of (M p)" "read_internal f bp = internal_of (M p)"
    "unpin_frame f dirty bp = do { (_, bp) \<leftarrow> UnpinPage p dirty bp; Some bp }"
  using pinned_page(1-3) [OF assms] by (simp_all add: read_header_def read_leaf_def read_internal_def unpin_frame_def)

lemma unpin_again:
  assumes "pool_at bp A M W pins" "pins p = Some f" "UnpinPage p dirty bp = Some (b, bp')"
  shows "\<exists>pg. page_at f bp' = Some pg \<and> page_id pg = p"
proof -
  have "map_of (page_table bp) p = Some f" using assms(1,2) pin_at_table [of bp A W p f] by (auto simp: pool_at_def)
  then show ?thesis using assms(3) pinned_page(1,3,5) [OF assms(1,2)] by (auto simp: UnpinPage_def page_at_def set_page_def)
qed

lemma leaf_page_header:
  assumes "leaf_page d p es"
  shows "\<exists>h. header_of d = Some h \<and> IsLeafPage h \<and> node_id h = p"
proof -
  obtain lf where lf: "leaf_of d = Some lf" "node_type lf = LEAF_PAGE" "node_id lf = p" "length d = 4096" using assms by (auto simp: leaf_page_def)
  then show ?thesis using leaf_of_wf(2) [OF lf(1,4)] by (simp add: IsLeafPage_def BPlusTreePage.truncate_def)
qed

lemma internal_page_header:
  assumes "internal_page d p c es"
  shows "\<exists>h. header_of d = Some h \<and> \<not> IsLeafPage h"
proof -
  obtain n where n: "internal_of d = Some n" "node_type n = INTERNAL_PAGE" "length d = 4096" using assms by (auto simp: internal_page_def)
  then show ?thesis using internal_of_wf(2) [OF n(1,3)] by (simp add: IsLeafPage_def BPlusTreePage.truncate_def)
qed

lemma root_in_ids: "root_id t \<in> set (tree_ids t)"
  by (cases t) simp_all

lemma pick_at: "tree_at M (BNode p t kts) \<Longrightarrow> tree_at M (pick comparator k t kts)"
  using pick_child [of comparator k t kts] by auto

lemma pick_ids: "set (tree_ids (pick comparator k t kts)) \<subseteq> set (tree_ids (BNode p t kts))"
  using pick_child [of comparator k t kts] by fastforce

lemma route_at:
  assumes "tree_at M t"
  shows "leaf_page (M (fst (route comparator k t))) (fst (route comparator k t)) (snd (route comparator k t))" "fst (route comparator k t) \<in> set (tree_ids t)"
proof -
  show "leaf_page (M (fst (route comparator k t))) (fst (route comparator k t)) (snd (route comparator k t))"
    using assms
  proof (induction t rule: route_induct [where comparator = comparator and k = k])
    case (2 p t kts)
    then show ?case using pick_at [OF 2(2), of comparator k] by simp
  qed simp
  show "fst (route comparator k t) \<in> set (tree_ids t)"
    using pick_ids by (induction t rule: route_induct [where comparator = comparator and k = k]) fastforce+
qed

context tree_order
begin

lemma descend_at:
  assumes "pool_at bp A M {} pins" "pins (root_id t) = Some f" "tree_at M t" "tree_ok comparator K t" "k \<in> K" "set (tree_ids t) \<subseteq> A"
    "finite D" "dom pins \<subseteq> insert (root_id t) D" "card D < pool_size bp"
  shows "\<exists>g bp' pins'. descend comparator k f bp = Some (g, bp') \<and> pool_at bp' A M {} pins' \<and> pool_size bp' = pool_size bp
    \<and> pins' (fst (route comparator k t)) = Some g \<and> dom pins' \<subseteq> insert (fst (route comparator k t)) D \<and> (\<forall>q. q \<notin> set (tree_ids t) \<longrightarrow> pins' q = pins q)"
  using assms(1-4,6,8,9)
proof (induction t arbitrary: f bp pins rule: route_induct [where comparator = comparator and k = k])
  case (1 p es)
  obtain h where h: "header_of (M p) = Some h" "IsLeafPage h" using leaf_page_header 1(3) by fastforce
  then have "descend comparator k f bp = Some (f, bp)" using node_at(1) [OF 1(1), of p f] 1(2) by (subst descend.simps) simp
  then show ?case using 1 by auto
next
  case (2 p t kts)
  let ?u = "pick comparator k t kts"
  have pins: "pins p = Some f" using 2(3) by simp
  obtain n k0 where n: "internal_of (M p) = Some n" "internal_holds n ((k0, root_id t) # child_entries kts)" using 2(4) by (auto simp: internal_page_def)
  obtain h where h: "header_of (M p) = Some h" "\<not> IsLeafPage h" using internal_page_header 2(4) by fastforce
  have l: "InternalPage_Lookup comparator k n = Some (root_id ?u)" using lookup_pick [OF n(2) _ assms(5)] 2(5) by simp
  obtain b bp1 where u: "UnpinPage p False bp = Some (b, bp1)" "pool_at bp1 A M {} (pins(p := None))" "pool_size bp1 = pool_size bp"
    using pool_unpin [OF 2(2), of False p] by auto
  have A: "root_id ?u \<in> A" "set (tree_ids ?u) \<subseteq> A" using root_in_ids [of ?u] pick_ids [of comparator k t kts p] 2(6) by auto
  have D: "dom (pins(p := None)) \<subseteq> insert (root_id ?u) D" using 2(7) by auto
  have n1: "card D < pool_size bp1" using 2(8) u(3) by simp
  obtain g bp2 where g: "FetchPage (root_id ?u) bp1 = Some (Some g, bp2)" "pool_at bp2 A M {} ((pins(p := None))(root_id ?u := Some g))" "pool_size bp2 = pool_size bp1"
    using pool_fetch [OF u(2) A(1) pins_room [OF assms(7) D n1]] by blast
  have d: "descend comparator k f bp = descend comparator k g bp2"
    using node_at(1,3,4) [OF 2(2) pins] h n(1) l u(1) g(1) by (subst descend.simps) simp
  have D2: "dom ((pins(p := None))(root_id ?u := Some g)) \<subseteq> insert (root_id ?u) D" using 2(7) by auto
  obtain g' bp' pins' where r: "descend comparator k g bp2 = Some (g', bp')" "pool_at bp' A M {} pins'" "pool_size bp' = pool_size bp2"
    "pins' (fst (route comparator k ?u)) = Some g'" "dom pins' \<subseteq> insert (fst (route comparator k ?u)) D"
    "\<forall>q. q \<notin> set (tree_ids ?u) \<longrightarrow> pins' q = ((pins(p := None))(root_id ?u := Some g)) q"
    using 2(1) [OF g(2) _ pick_at [OF 2(4)] pick_ok [OF 2(5)] A(2) D2] 2(8) u(3) g(3) by auto
  have "pins' q = pins q" if "q \<notin> set (tree_ids (BNode p t kts))" for q
  proof -
    have "q \<notin> set (tree_ids ?u)" "q \<noteq> p" using that pick_ids [of comparator k t kts p] by auto
    then show ?thesis using r(6) root_in_ids [of ?u] by (metis fun_upd_other)
  qed
  then show ?case using r(1-5) d u(3) g(3) by (intro exI [of _ g'] exI [of _ bp'] exI [of _ pins']) simp
qed

text \<open>A descent from the root of a tree, with one frame to spare.\<close>

lemma fetch_descend:
  assumes "pool_at bp A M {} pins" "tree_at M t" "tree_ok comparator K t" "k \<in> K" "set (tree_ids t) \<subseteq> A" "finite (dom pins)" "card (dom pins) < pool_size bp"
  shows "\<exists>f bp1 g bp' pins'. FetchPage (root_id t) bp = Some (Some f, bp1) \<and> descend comparator k f bp1 = Some (g, bp')
    \<and> pool_at bp' A M {} pins' \<and> pool_size bp' = pool_size bp
    \<and> pins' (fst (route comparator k t)) = Some g \<and> dom pins' \<subseteq> insert (fst (route comparator k t)) (dom pins) \<and> (\<forall>q. q \<notin> set (tree_ids t) \<longrightarrow> pins' q = pins q)"
proof -
  have A: "root_id t \<in> A" using assms(5) root_in_ids by blast
  obtain f bp1 where f: "FetchPage (root_id t) bp = Some (Some f, bp1)" "pool_at bp1 A M {} (pins(root_id t := Some f))" "pool_size bp1 = pool_size bp"
    using pool_fetch [OF assms(1) A assms(6)] assms(7) by blast
  have "card (dom pins) < pool_size bp1" using assms(7) f(3) by simp
  then obtain g bp' pins' where d: "descend comparator k f bp1 = Some (g, bp')" "pool_at bp' A M {} pins'" "pool_size bp' = pool_size bp1"
    "pins' (fst (route comparator k t)) = Some g" "dom pins' \<subseteq> insert (fst (route comparator k t)) (dom pins)"
    "\<forall>q. q \<notin> set (tree_ids t) \<longrightarrow> pins' q = (pins(root_id t := Some f)) q"
    using descend_at [OF f(2) _ assms(2,3,4,5,6)] by auto
  have "pins' q = pins q" if "q \<notin> set (tree_ids t)" for q using d(6) that root_in_ids [of t] by (metis fun_upd_other)
  then show ?thesis using d(1-5) f(1,3) by (intro exI [of _ f] exI [of _ bp1] exI [of _ g] exI [of _ bp'] exI [of _ pins']) simp
qed

end

section \<open>The index in the pool\<close>

text \<open>\<open>None\<close> is the empty tree.\<close>

fun index_at :: "(key \<Rightarrow> key \<Rightarrow> int option) \<Rightarrow> key set \<Rightarrow> BPlusTree \<Rightarrow> int set \<Rightarrow> (int \<Rightarrow> page) \<Rightarrow> btree option \<Rightarrow> bool" where
  "index_at comparator K T A M None = (root_page_id T = - 1)"
| "index_at comparator K T A M (Some t) = (root_page_id T = root_id t \<and> tree_at M t \<and> tree_ok comparator K t \<and> set (tree_ids t) \<subseteq> A \<and> distinct (tree_ids t))"

fun index_entries :: "btree option \<Rightarrow> (key \<times> RowId) list" where
  "index_entries None = []"
| "index_entries (Some t) = inorder t"

fun index_pages :: "btree option \<Rightarrow> int set" where
  "index_pages None = {}"
| "index_pages (Some t) = set (tree_ids t)"

section \<open>Changing one leaf\<close>

lemma shift_up_set: "shift_up a i j = Some b \<Longrightarrow> set b \<subseteq> set a"
proof (induction a i j arbitrary: b rule: shift_up.induct)
  case (1 a i j)
  show ?case
  proof (cases "j < i")
    case True
    then obtain e a' where e: "arr_get a (i - 1) = Some e" "arr_set a i e = Some a'" "shift_up a' (i - 1) j = Some b"
      using 1(2) by (subst (asm) shift_up.simps) (auto split: bind_splits)
    have "e \<in> set a" using e(1) by (auto simp: arr_get_def split: if_splits)
    then have "set a' \<subseteq> set a" using e(2) set_update_subset_insert [of a "nat i" e] by (auto simp: arr_set_def split: if_splits)
    then show ?thesis using 1(1) [OF True e(1,2,3)] by blast
  next
    case False
    then show ?thesis using 1(2) by (subst (asm) shift_up.simps) simp
  qed
qed

lemma shift_down_set: "shift_down a i n = Some b \<Longrightarrow> set b \<subseteq> set a"
proof (induction a i n arbitrary: b rule: shift_down.induct)
  case (1 a i n)
  show ?case
  proof (cases "i < n")
    case True
    then obtain e a' where e: "arr_get a (i + 1) = Some e" "arr_set a i e = Some a'" "shift_down a' (i + 1) n = Some b"
      using 1(2) by (subst (asm) shift_down.simps) (auto split: bind_splits)
    have "e \<in> set a" using e(1) by (auto simp: arr_get_def split: if_splits)
    then have "set a' \<subseteq> set a" using e(2) set_update_subset_insert [of a "nat i" e] by (auto simp: arr_set_def split: if_splits)
    then show ?thesis using 1(1) [OF True e(1,2,3)] by blast
  next
    case False
    then show ?thesis using 1(2) by (subst (asm) shift_down.simps) simp
  qed
qed

lemma LeafPage_Insert_set:
  assumes "LeafPage_Insert comparator k v lf = Some (m, lf')" shows "set (leaf_array lf') \<subseteq> insert (k, v) (set (leaf_array lf))"
proof -
  consider "lf' = lf" | i a b where "shift_up (leaf_array lf) (node_size lf) i = Some a" "arr_set a i (k, v) = Some b" "leaf_array lf' = b"
    using assms by (auto simp: LeafPage_Insert_def IncreaseSize_def Let_def split: bind_splits if_splits)
  then show ?thesis
  proof cases
    case (2 i a b)
    have "set b \<subseteq> insert (k, v) (set a)" using 2(2) set_update_subset_insert [of a "nat i" "(k, v)"] by (auto simp: arr_set_def split: if_splits)
    then show ?thesis using shift_up_set [OF 2(1)] 2(3) by blast
  qed auto
qed

lemma LeafPage_Remove_set:
  assumes "LeafPage_RemoveAndDeleteRecord comparator k lf = Some (m, lf')" shows "set (leaf_array lf') \<subseteq> set (leaf_array lf)"
  using assms by (auto simp: LeafPage_RemoveAndDeleteRecord_def IncreaseSize_def Let_def split: bind_splits if_splits) (meson shift_down_set subsetD)

lemma write_leaf_at:
  assumes "pool_at bp A M W pins" "pins p = Some f" "leaf_wf lf"
  shows "\<exists>bp'. write_leaf f lf bp = Some bp' \<and> pool_at bp' A (M(p := leaf_bytes lf (M p))) (insert p W) pins \<and> pool_size bp' = pool_size bp"
  using pinned_page(1,2) [OF assms(1,2)] write_frame_at [OF assms(1,2) leaf_bytes_read(2) [OF assms(3) pinned_page(6) [OF assms(1,2)]]]
  by (simp add: write_leaf_def)

lemma leaf_page_write:
  assumes "leaf_wf lf" "length d = 4096" "node_type lf = LEAF_PAGE" "node_id lf = p" "node_max_size lf = int LEAF_PAGE_SIZE" "leaf_holds lf es"
  shows "leaf_page (leaf_bytes lf d) p es"
  using leaf_bytes_read [OF assms(1,2)] assms(3-6) by (auto simp: leaf_page_def)

lemma key_separated_first:
  assumes "key_separated comparator u bs" "bs = [] \<or> (\<forall>e\<in>set (inorder u'). key_less comparator (fst e) (fst (hd bs)))"
  shows "key_separated comparator u' bs"
  using assms by (cases bs) auto

lemma tree_at_cong: "(\<And>q. q \<in> set (tree_ids t) \<Longrightarrow> M' q = M q) \<Longrightarrow> tree_at M' t = tree_at M t"
proof (induction t)
  case (BNode p t kts)
  have "tree_at M' (snd kt) = tree_at M (snd kt)" if "kt \<in> set kts" for kt
    using BNode.IH(2) [of kt "snd kt"] BNode.prems that by (cases kt) fastforce
  then show ?case using BNode.IH(1) BNode.prems by auto
qed simp

text \<open>A node with one child replaced by a tree with the same pages.\<close>

lemma swap_child:
  assumes "t # map snd kts = us @ u # vs" "t' # map snd kts' = us @ u' # vs" "map fst kts' = map fst kts" "root_id u' = root_id u" "tree_ids u' = tree_ids u"
  shows "root_id t' = root_id t" "child_entries kts' = child_entries kts" "tree_ids (BNode p t' kts') = tree_ids (BNode p t kts)"
proof -
  have "map root_id (t' # map snd kts') = map root_id (t # map snd kts)" unfolding assms(1,2) using assms(4) by simp
  then have r: "root_id t' = root_id t" "map root_id (map snd kts') = map root_id (map snd kts)" by (simp_all only: list.map list.inject)
  then show "root_id t' = root_id t" "child_entries kts' = child_entries kts" using assms(3) by (simp_all only: node_children(5))
  show "tree_ids (BNode p t' kts') = tree_ids (BNode p t kts)" unfolding node_children(2) assms(1,2) using assms(5) by simp
qed

lemma swap_child_at:
  assumes "t # map snd kts = us @ u # vs" "t' # map snd kts' = us @ u' # vs" "map fst kts' = map fst kts" "root_id u' = root_id u" "tree_ids u' = tree_ids u"
    "distinct (tree_ids (BNode p t kts))" "tree_at M (BNode p t kts)" "q \<in> set (tree_ids u)" "tree_at (M(q := d)) u'"
  shows "tree_at (M(q := d)) (BNode p t' kts')"
proof -
  note s = swap_child [OF assms(1-5)]
  have ids: "distinct (p # concat (map tree_ids (us @ u # vs)))" using assms(6) unfolding node_children(2) assms(1) .
  then have "p \<noteq> q" using assms(8) by auto
  moreover have "tree_at (M(q := d)) w" if w: "w \<in> set us \<union> set vs" for w
  proof -
    have "q \<notin> set (tree_ids w)" using ids w assms(8) by auto
    then have "tree_at (M(q := d)) w = tree_at M w" by (intro tree_at_cong) auto
    then show ?thesis using assms(7) w unfolding node_children(3) assms(1) by auto
  qed
  ultimately show ?thesis using assms(7,9) unfolding node_children(3) assms(1,2) s(1,2) by auto
qed

context tree_order
begin

lemma swap_child_ok:
  assumes "tree_ok comparator K (BNode p t kts)" "kts = as @ bs" "\<forall>kt\<in>set as. \<not> key_less comparator k (fst kt)" "\<forall>kt\<in>set bs. key_less comparator k (fst kt)"
    "root_id u' = root_id (last (t # map snd as))" "tree_ids u' = tree_ids (last (t # map snd as))" "tree_ok comparator K u'"
    "fst ` set (inorder u') \<subseteq> insert k (fst ` set (inorder (last (t # map snd as))))"
  shows "\<exists>t' kts'. t' # map snd kts' = butlast (t # map snd as) @ u' # map snd bs \<and> map fst kts' = map fst kts
    \<and> tree_ok comparator K (BNode p t' kts')"
proof -
  let ?u = "last (t # map snd as)"
  have sep: "key_separated comparator t as" "key_separated comparator ?u bs" using assms(1,2) by (simp_all add: key_separated_append)
  have hi: "bs = [] \<or> (\<forall>e\<in>set (inorder u'). key_less comparator (fst e) (fst (hd bs)))"
  proof (cases bs)
    case (Cons b bs')
    then show ?thesis using sep(2) assms(4,8) by force
  qed simp
  note new = key_separated_first [OF sep(2) hi]
  show ?thesis
  proof (cases as rule: rev_cases)
    case Nil
    then have kts: "kts = bs" "?u = t" using assms(2) by simp_all
    have "tree_ok comparator K (BNode p u' bs)" using assms(1,7) new kts by simp
    then show ?thesis using kts Nil by (intro exI [of _ u'] exI [of _ kts]) simp
  next
    case (snoc as' su)
    obtain s u where su: "su = (s, u)" by (cases su)
    have u: "?u = u" using snoc su by simp
    have kts: "kts = as' @ (s, u) # bs" using snoc su assms(2) by simp
    have sep': "key_separated comparator t as'" "\<forall>e\<in>set (inorder (last (t # map snd as'))). key_less comparator (fst e) s" "\<forall>e\<in>set (inorder u). \<not> key_less comparator (fst e) s"
      using sep(1) snoc su by (simp_all add: key_separated_append)
    have "\<not> key_less comparator k s" using assms(3) snoc su by auto
    then have "\<not> key_less comparator x s" if "x \<in> insert k (fst ` set (inorder u))" for x using sep'(3) that by auto
    then have lo: "\<forall>e\<in>set (inorder u'). \<not> key_less comparator (fst e) s" using assms(8) unfolding u by blast
    have "key_separated comparator t (as' @ (s, u') # bs)" using sep' lo new by (simp add: key_separated_append)
    moreover have "child_entries (as' @ (s, u') # bs) = child_entries kts" using assms(5) u kts by (simp add: child_entries_def)
    ultimately have "tree_ok comparator K (BNode p t (as' @ (s, u') # bs))" using assms(1,7) kts by simp
    then show ?thesis using kts snoc by (intro exI [of _ t] exI [of _ "as' @ (s, u') # bs"]) (simp add: butlast_append)
  qed
qed

text \<open>The tree whose leaf for the key holds other entries.\<close>

lemma graft:
  assumes "tree_ok comparator K t" "k \<in> K" "distinct (tree_ids t)" "leaf_ok comparator K es'"
    "fst ` set es' \<subseteq> insert k (fst ` set (snd (route comparator k t)))"
  shows "\<exists>t' xs ys. root_id t' = root_id t \<and> tree_ids t' = tree_ids t \<and> tree_ok comparator K t'
    \<and> inorder t = xs @ snd (route comparator k t) @ ys \<and> inorder t' = xs @ es' @ ys
    \<and> (\<forall>e\<in>set (xs @ ys). fst e \<in> K \<and> \<not> key_same comparator (fst e) k)
    \<and> (\<forall>M d. tree_at M t \<longrightarrow> leaf_page d (fst (route comparator k t)) es' \<longrightarrow> tree_at (M(fst (route comparator k t) := d)) t')"
  using assms(1,3,5)
proof (induction t rule: route_induct [where comparator = comparator and k = k])
  case (1 p es)
  then show ?case using assms(4) by (intro exI [of _ "BLeaf p es'"] exI [of _ "[]"]) simp
next
  case (2 p t kts)
  obtain as bs where s: "kts = as @ bs" "\<forall>kt\<in>set as. \<not> key_less comparator k (fst kt)" "\<forall>kt\<in>set bs. key_less comparator k (fst kt)"
    "pick comparator k t kts = last (t # map snd as)"
    "\<forall>e\<in>set (concat (map inorder (butlast (t # map snd as)))) \<union> set (concat (map inorder (map snd bs))). fst e \<in> K \<and> \<not> key_same comparator (fst e) k"
    using node_cut [OF 2(2) assms(2)] by blast
  let ?u = "last (t # map snd as)" and ?us = "butlast (t # map snd as)" and ?vs = "map snd bs"
  have r: "route comparator k (BNode p t kts) = route comparator k ?u" using s(4) by simp
  note L = children_split [of t as bs, folded s(1)]
  have du: "distinct (tree_ids ?u)" using 2(3) unfolding node_children(2) L by simp
  obtain u' xs ys where u': "root_id u' = root_id ?u" "tree_ids u' = tree_ids ?u" "tree_ok comparator K u'"
    "inorder ?u = xs @ snd (route comparator k ?u) @ ys" "inorder u' = xs @ es' @ ys"
    "\<forall>e\<in>set (xs @ ys). fst e \<in> K \<and> \<not> key_same comparator (fst e) k"
    "\<forall>M d. tree_at M ?u \<longrightarrow> leaf_page d (fst (route comparator k ?u)) es' \<longrightarrow> tree_at (M(fst (route comparator k ?u) := d)) u'"
    using 2(1) [unfolded s(4), OF pick_ok [OF 2(2), of k, unfolded s(4)] du 2(4) [unfolded r]] by (elim exE conjE) (rule that)
  have "fst ` set (inorder u') \<subseteq> insert k (fst ` set (inorder ?u))" using 2(4) unfolding u'(4,5) r by (simp only: set_append image_Un) blast
  then obtain t' kts' where w: "t' # map snd kts' = ?us @ u' # ?vs" "map fst kts' = map fst kts" "tree_ok comparator K (BNode p t' kts')"
    using swap_child_ok [OF 2(2) s(1-3) u'(1-3)] by blast
  have i1: "inorder (BNode p t kts) = (concat (map inorder ?us) @ xs) @ snd (route comparator k ?u) @ ys @ concat (map inorder ?vs)"
    unfolding node_children(1) L using u'(4) by simp
  have i2: "inorder (BNode p t' kts') = (concat (map inorder ?us) @ xs) @ es' @ ys @ concat (map inorder ?vs)"
    unfolding node_children(1) w(1) using u'(5) by simp
  have ns: "\<forall>e\<in>set ((concat (map inorder ?us) @ xs) @ ys @ concat (map inorder ?vs)). fst e \<in> K \<and> \<not> key_same comparator (fst e) k"
    using s(5) u'(6) by (simp only: set_append ball_Un) blast
  have at: "tree_at (M(fst (route comparator k ?u) := d)) (BNode p t' kts')" if "tree_at M (BNode p t kts)" "leaf_page d (fst (route comparator k ?u)) es'" for M d
  proof -
    have u: "tree_at M ?u" using that(1) unfolding node_children(3) L by simp
    show ?thesis using swap_child_at [OF L w(1,2) u'(1,2) 2(3) that(1) route_at(2) [OF u]] u'(7) u that(2) by blast
  qed
  have "root_id (BNode p t' kts') = root_id (BNode p t kts)" by simp
  then show ?case using swap_child(3) [OF L w(1,2) u'(1,2), of p] w(3) i1 i2 ns at unfolding r by blast
qed

text \<open>What a changed leaf does to the answers of the tree.\<close>

lemma around_find:
  assumes "\<forall>e\<in>set (xs @ ys). fst e \<in> K \<and> \<not> key_same comparator (fst e) k" "k \<in> K" "q \<in> K"
    "find_entry comparator es' q = (if key_same comparator k q then w else find_entry comparator es q)"
  shows "find_entry comparator (xs @ es' @ ys) q = (if key_same comparator k q then w else find_entry comparator (xs @ es @ ys) q)"
proof (cases "key_same comparator k q")
  case True
  have "\<not> key_same comparator (fst e) q" if "e \<in> set (xs @ ys)" for e
    using assms(1) that same_trans [OF _ assms(3,2) _ same_sym [OF assms(2,3) True]] by blast
  then have "find_entry comparator xs q = None" "find_entry comparator ys q = None" by (simp_all add: find_entry_None)
  then show ?thesis using assms(4) True by (simp add: find_entry_append split: option.splits)
next
  case False
  then show ?thesis using assms(4) by (simp add: find_entry_append split: option.splits)
qed

text \<open>The leaf for a key, reached from the root and pinned.\<close>

lemma reach_leaf:
  assumes "pool_at bp A M {} pins" "index_at comparator K T A M (Some t)" "k \<in> K" "finite (dom pins)" "card (dom pins) < pool_size bp"
  shows "\<exists>f bp1 g bp' pins' lf. FetchPage (root_page_id T) bp = Some (Some f, bp1) \<and> descend comparator k f bp1 = Some (g, bp')
    \<and> pool_at bp' A M {} pins' \<and> pool_size bp' = pool_size bp \<and> pins' (fst (route comparator k t)) = Some g
    \<and> dom pins' \<subseteq> insert (fst (route comparator k t)) (dom pins) \<and> (\<forall>q. q \<notin> set (tree_ids t) \<longrightarrow> pins' q = pins q)
    \<and> leaf_of (M (fst (route comparator k t))) = Some lf \<and> node_type lf = LEAF_PAGE \<and> node_id lf = fst (route comparator k t)
    \<and> node_max_size lf = int LEAF_PAGE_SIZE \<and> leaf_holds lf (snd (route comparator k t)) \<and> leaf_wf lf \<and> \<not> IsEmpty T"
proof -
  have t: "root_page_id T = root_id t" "tree_at M t" "tree_ok comparator K t" "set (tree_ids t) \<subseteq> A" using assms(2) by auto
  let ?p = "fst (route comparator k t)"
  obtain f bp1 g bp2 pins2 where d: "FetchPage (root_id t) bp = Some (Some f, bp1)" "descend comparator k f bp1 = Some (g, bp2)"
    "pool_at bp2 A M {} pins2" "pool_size bp2 = pool_size bp" "pins2 ?p = Some g" "dom pins2 \<subseteq> insert ?p (dom pins)"
    "\<forall>q. q \<notin> set (tree_ids t) \<longrightarrow> pins2 q = pins q"
    using fetch_descend [OF assms(1) t(2,3) assms(3) t(4) assms(4,5)] by blast
  obtain lf where lf: "leaf_of (M ?p) = Some lf" "node_type lf = LEAF_PAGE" "node_id lf = ?p" "node_max_size lf = int LEAF_PAGE_SIZE"
    "leaf_holds lf (snd (route comparator k t))" using route_at(1) [OF t(2), of comparator k] by (auto simp: leaf_page_def)
  have "leaf_wf lf" by (rule leaf_of_wf(1) [OF lf(1) pinned_page(6) [OF d(3,5)]])
  moreover have "\<not> IsEmpty T" using t(1,4) root_in_ids [of t] minus_one_free [OF assms(1)] by (auto simp: IsEmpty_def)
  ultimately show ?thesis using d lf unfolding t(1) by blast
qed

lemma GetValue_at:
  assumes "pool_at bp A M {} pins" "index_at comparator K T A M s" "k \<in> K" "finite (dom pins)" "card (dom pins) < pool_size bp"
  shows "\<exists>bp' pins'. GetValue comparator k T bp = Some (find_entry comparator (index_entries s) k, bp') \<and> pool_at bp' A M {} pins'
    \<and> pool_size bp' = pool_size bp \<and> dom pins' \<subseteq> dom pins \<and> (\<forall>q. q \<notin> index_pages s \<longrightarrow> pins' q = pins q)"
proof (cases s)
  case None
  then show ?thesis using assms(1,2) by (auto simp: GetValue_def IsEmpty_def)
next
  case (Some t)
  let ?p = "fst (route comparator k t)" and ?es = "snd (route comparator k t)"
  have t: "tree_at M t" "tree_ok comparator K t" using assms(2) Some by auto
  note sr = search_route [OF t(2) assms(3)]
  obtain f bp1 g bp2 pins2 lf where d: "FetchPage (root_page_id T) bp = Some (Some f, bp1)" "descend comparator k f bp1 = Some (g, bp2)"
    "pool_at bp2 A M {} pins2" "pool_size bp2 = pool_size bp" "pins2 ?p = Some g" "dom pins2 \<subseteq> insert ?p (dom pins)"
    "\<forall>q. q \<notin> set (tree_ids t) \<longrightarrow> pins2 q = pins q" "leaf_of (M ?p) = Some lf" "leaf_holds lf ?es" "\<not> IsEmpty T"
    using reach_leaf [OF assms(1,2) [unfolded Some] assms(3-5)] by blast
  obtain b bp3 where u: "UnpinPage ?p False bp2 = Some (b, bp3)" "pool_at bp3 A M {} (pins2(?p := None))" "pool_size bp3 = pool_size bp2"
    using pool_unpin [OF d(3), of False ?p] by auto
  have "GetValue comparator k T bp = Some (find_entry comparator (index_entries s) k, bp3)"
    using d(1,2,8,10) node_at(2,4) [OF d(3,5)] leaf_lookup [OF d(9) sr(2) assms(3)] u(1) sr(1) Some by (simp add: GetValue_def)
  moreover have "(pins2(?p := None)) q = pins q" if "q \<notin> index_pages s" for q
    using that d(7) route_at(2) [OF t(1), of comparator k] Some by (metis fun_upd_other index_pages.simps(2))
  moreover have "dom (pins2(?p := None)) \<subseteq> dom pins" using d(6) by auto
  ultimately show ?thesis using u(2,3) d(4) by (intro exI [of _ bp3] exI [of _ "pins2(?p := None)"]) simp
qed

text \<open>Storing other entries in that leaf.\<close>

lemma store_leaf:
  assumes "pool_at bp A M {} pins" "index_at comparator K T A M (Some t)" "k \<in> K" "pins (fst (route comparator k t)) = Some g"
    "leaf_wf lf'" "node_type lf' = LEAF_PAGE" "node_id lf' = fst (route comparator k t)" "node_max_size lf' = int LEAF_PAGE_SIZE"
    "leaf_holds lf' es'" "leaf_ok comparator K es'" "fst ` set es' \<subseteq> insert k (fst ` set (snd (route comparator k t)))"
    "\<forall>q\<in>K. find_entry comparator es' q = (if key_same comparator k q then w else find_entry comparator (snd (route comparator k t)) q)"
  shows "\<exists>bp' M' t'. write_leaf g lf' bp = Some bp' \<and> pool_at bp' A M' {fst (route comparator k t)} pins \<and> pool_size bp' = pool_size bp
    \<and> index_at comparator K T A M' (Some t') \<and> tree_ids t' = tree_ids t \<and> read_header g bp' = Some (BPlusTreePage.truncate lf')
    \<and> (\<forall>q\<in>K. find_entry comparator (inorder t') q = (if key_same comparator k q then w else find_entry comparator (inorder t) q))
    \<and> (\<forall>q. q \<notin> set (tree_ids t) \<longrightarrow> M' q = M q)"
proof -
  let ?p = "fst (route comparator k t)" and ?es = "snd (route comparator k t)"
  have t: "root_page_id T = root_id t" "tree_at M t" "tree_ok comparator K t" "set (tree_ids t) \<subseteq> A" "distinct (tree_ids t)" using assms(2) by auto
  have len: "length (M ?p) = 4096" by (rule pinned_page(6) [OF assms(1,4)])
  let ?d = "leaf_bytes lf' (M ?p)"
  obtain bp' where b: "write_leaf g lf' bp = Some bp'" "pool_at bp' A (M(?p := ?d)) {?p} pins" "pool_size bp' = pool_size bp"
    using write_leaf_at [OF assms(1,4,5)] by auto
  obtain t' xs ys where g: "root_id t' = root_id t" "tree_ids t' = tree_ids t" "tree_ok comparator K t'"
    "inorder t = xs @ ?es @ ys" "inorder t' = xs @ es' @ ys" "\<forall>e\<in>set (xs @ ys). fst e \<in> K \<and> \<not> key_same comparator (fst e) k"
    "\<forall>M d. tree_at M t \<longrightarrow> leaf_page d ?p es' \<longrightarrow> tree_at (M(?p := d)) t'"
    using graft [OF t(3) assms(3) t(5) assms(10,11)] by (elim exE conjE) (rule that)
  have "tree_at (M(?p := ?d)) t'" using g(7) t(2) leaf_page_write [OF assms(5) len assms(6-9)] by blast
  then have "index_at comparator K T A (M(?p := ?d)) (Some t')" using t g(1-3) by simp
  moreover have "find_entry comparator (inorder t') q = (if key_same comparator k q then w else find_entry comparator (inorder t) q)" if "q \<in> K" for q
    unfolding g(4,5) by (rule around_find [OF g(6) assms(3) that]) (use assms(12) that in blast)
  moreover have "read_header g bp' = Some (BPlusTreePage.truncate lf')"
    using node_at(1) [OF b(2) assms(4)] leaf_bytes_read(3) [OF assms(5) len] by (simp add: BPlusTreePage.truncate_def)
  moreover have "(M(?p := ?d)) q = M q" if "q \<notin> set (tree_ids t)" for q using route_at(2) [OF t(2), of comparator k] that by auto
  ultimately show ?thesis using b g(2) by (intro exI [of _ bp'] exI [of _ "M(?p := ?d)"] exI [of _ t']) blast
qed

lemma InsertIntoLeaf_new:
  assumes "pool_at bp A M {} pins" "index_at comparator K T A M (Some t)" "k \<in> K" "finite (dom pins)" "card (dom pins) < pool_size bp"
    "length k = KEY_SIZE" "find_entry comparator (inorder t) k = None" "length (snd (route comparator k t)) < LEAF_PAGE_SIZE"
  shows "\<exists>bp' M' t' pins'. InsertIntoLeaf comparator k v T bp = Some (True, T, bp') \<and> pool_at bp' A M' {} pins' \<and> pool_size bp' = pool_size bp
    \<and> dom pins' \<subseteq> dom pins \<and> index_at comparator K T A M' (Some t') \<and> tree_ids t' = tree_ids t
    \<and> (\<forall>q\<in>K. find_entry comparator (inorder t') q = (if key_same comparator k q then Some v else find_entry comparator (inorder t) q))
    \<and> (\<forall>q. q \<notin> set (tree_ids t) \<longrightarrow> M' q = M q)"
proof -
  let ?p = "fst (route comparator k t)" and ?es = "snd (route comparator k t)"
  have ok: "tree_ok comparator K t" using assms(2) by simp
  note sr = search_route [OF ok assms(3)]
  obtain f bp1 g bp2 pins2 lf where d: "FetchPage (root_page_id T) bp = Some (Some f, bp1)" "descend comparator k f bp1 = Some (g, bp2)"
    "pool_at bp2 A M {} pins2" "pool_size bp2 = pool_size bp" "pins2 ?p = Some g" "dom pins2 \<subseteq> insert ?p (dom pins)"
    and lf: "leaf_of (M ?p) = Some lf" "node_type lf = LEAF_PAGE" "node_id lf = ?p" "node_max_size lf = int LEAF_PAGE_SIZE" "leaf_holds lf ?es" "leaf_wf lf"
    using reach_leaf [OF assms(1-5)] by blast
  have none: "find_entry comparator ?es k = None" using sr(1) assms(7) by simp
  have room: "length ?es < length (leaf_array lf)" using lf(6) assms(8) by (simp add: leaf_wf_def)
  obtain lf' ls rs where i: "LeafPage_Insert comparator k v lf = Some (int (length ?es) + 1, lf')" "?es = ls @ rs" "leaf_holds lf' (ls @ (k, v) # rs)"
    "leaf_ok comparator K (ls @ (k, v) # rs)" "lf' = lf\<lparr>node_size := int (length ?es) + 1, leaf_array := leaf_array lf'\<rparr>"
    "length (leaf_array lf') = length (leaf_array lf)"
    "\<forall>q\<in>K. find_entry comparator (ls @ (k, v) # rs) q = (if key_same comparator k q then Some v else find_entry comparator ?es q)"
    using leaf_insert_new [OF lf(5) sr(2) assms(3) none room, of v] by blast
  have h: "node_type lf' = LEAF_PAGE" "node_id lf' = ?p" "node_max_size lf' = int LEAF_PAGE_SIZE" "node_parent lf' = node_parent lf" "leaf_next lf' = leaf_next lf"
    "node_size lf' = int (length ?es) + 1"
    by (subst i(5); simp add: lf(2-4))+
  have "leaf_wf lf'" using lf(6) h i(6) assms(6,8) LeafPage_Insert_set [OF i(1)] unfolding leaf_wf_def header_ok_def
    by (auto simp: lf(3,4) int32_def page_sizes)
  then obtain bp3 M' t' where w: "write_leaf g lf' bp2 = Some bp3" "pool_at bp3 A M' {?p} pins2" "pool_size bp3 = pool_size bp2"
    "index_at comparator K T A M' (Some t')" "tree_ids t' = tree_ids t" "read_header g bp3 = Some (BPlusTreePage.truncate lf')"
    "\<forall>q\<in>K. find_entry comparator (inorder t') q = (if key_same comparator k q then Some v else find_entry comparator (inorder t) q)"
    "\<forall>q. q \<notin> set (tree_ids t) \<longrightarrow> M' q = M q"
    using store_leaf [OF d(3) assms(2,3) d(5) _ h(1-3) i(3,4) _ i(7)] i(2) by auto
  obtain b bp4 where u: "UnpinPage ?p True bp3 = Some (b, bp4)" "pool_at bp4 A M' {} (pins2(?p := None))" "pool_size bp4 = pool_size bp3"
    using pool_unpin [OF w(2), of True ?p] by auto
  have "InsertIntoLeaf comparator k v T bp = Some (True, T, bp4)"
    using d(1,2) node_at(2) [OF d(3,5)] lf(1) leaf_lookup [OF lf(5) sr(2) assms(3)] none i(1) w(1,6) h(2,3) u(1) assms(8)
    by (simp add: InsertIntoLeaf_def BPlusTreePage.truncate_def)
  moreover have "dom (pins2(?p := None)) \<subseteq> dom pins" using d(6) by auto
  ultimately show ?thesis using u(2,3) w d(4) by (intro exI [of _ bp4] exI [of _ M'] exI [of _ t'] exI [of _ "pins2(?p := None)"]) simp
qed

text \<open>A duplicate key leaves the leaf pinned.\<close>

lemma InsertIntoLeaf_duplicate:
  assumes "pool_at bp A M {} pins" "index_at comparator K T A M (Some t)" "k \<in> K" "finite (dom pins)" "card (dom pins) < pool_size bp"
    "find_entry comparator (inorder t) k \<noteq> None"
  shows "\<exists>bp' pins' f. InsertIntoLeaf comparator k v T bp = Some (False, T, bp') \<and> pool_at bp' A M {} pins' \<and> pool_size bp' = pool_size bp
    \<and> pins' (fst (route comparator k t)) = Some f \<and> dom pins' \<subseteq> insert (fst (route comparator k t)) (dom pins)"
proof -
  let ?p = "fst (route comparator k t)" and ?es = "snd (route comparator k t)"
  have t: "tree_ok comparator K t" using assms(2) by simp
  note sr = search_route [OF t assms(3)]
  obtain f bp1 g bp2 pins2 lf where d: "FetchPage (root_page_id T) bp = Some (Some f, bp1)" "descend comparator k f bp1 = Some (g, bp2)"
    "pool_at bp2 A M {} pins2" "pool_size bp2 = pool_size bp" "pins2 ?p = Some g" "dom pins2 \<subseteq> insert ?p (dom pins)"
    "leaf_of (M ?p) = Some lf" "leaf_holds lf ?es" using reach_leaf [OF assms(1-5)] by blast
  have "InsertIntoLeaf comparator k v T bp = Some (False, T, bp2)"
    using d(1,2,7) node_at(2) [OF d(3,5)] leaf_lookup [OF d(8) sr(2) assms(3)] sr(1) assms(6) by (simp add: InsertIntoLeaf_def)
  then show ?thesis using d(3-6) by blast
qed

text \<open>Removal from a leaf that stays at least half full.\<close>

lemma Remove_present:
  assumes "pool_at bp A M {} pins" "index_at comparator K T A M (Some t)" "k \<in> K" "finite (dom pins)" "card (dom pins) < pool_size bp"
    "find_entry comparator (inorder t) k \<noteq> None" "LEAF_PAGE_SIZE div 2 < length (snd (route comparator k t))"
  shows "\<exists>bp' M' t' pins'. BPlusTree_Remove comparator k T bp = Some (T, bp') \<and> pool_at bp' A M' {} pins' \<and> pool_size bp' = pool_size bp
    \<and> dom pins' \<subseteq> dom pins \<and> index_at comparator K T A M' (Some t') \<and> tree_ids t' = tree_ids t
    \<and> (\<forall>q\<in>K. find_entry comparator (inorder t') q = (if key_same comparator k q then None else find_entry comparator (inorder t) q))
    \<and> (\<forall>q. q \<notin> set (tree_ids t) \<longrightarrow> M' q = M q)"
proof -
  let ?p = "fst (route comparator k t)" and ?es = "snd (route comparator k t)"
  have ok: "tree_ok comparator K t" using assms(2) by simp
  note sr = search_route [OF ok assms(3)]
  obtain f bp1 g bp2 pins2 lf where d: "FetchPage (root_page_id T) bp = Some (Some f, bp1)" "descend comparator k f bp1 = Some (g, bp2)"
    "pool_at bp2 A M {} pins2" "pool_size bp2 = pool_size bp" "pins2 ?p = Some g" "dom pins2 \<subseteq> insert ?p (dom pins)"
    and lf: "leaf_of (M ?p) = Some lf" "node_type lf = LEAF_PAGE" "node_id lf = ?p" "node_max_size lf = int LEAF_PAGE_SIZE" "leaf_holds lf ?es" "leaf_wf lf"
    and ne: "\<not> IsEmpty T"
    using reach_leaf [OF assms(1-5)] by blast
  have some: "find_entry comparator ?es k \<noteq> None" using sr(1) assms(6) by simp
  obtain lf' ls e rs where i: "LeafPage_RemoveAndDeleteRecord comparator k lf = Some (int (length ?es) - 1, lf')" "?es = ls @ e # rs" "leaf_holds lf' (ls @ rs)"
    "leaf_ok comparator K (ls @ rs)" "lf' = lf\<lparr>node_size := int (length ?es) - 1, leaf_array := leaf_array lf'\<rparr>"
    "length (leaf_array lf') = length (leaf_array lf)"
    "\<forall>q\<in>K. find_entry comparator (ls @ rs) q = (if key_same comparator k q then None else find_entry comparator ?es q)"
    using leaf_remove_present [OF lf(5) sr(2) assms(3) some] by (elim exE conjE) (rule that)
  have h: "node_type lf' = LEAF_PAGE" "node_id lf' = ?p" "node_max_size lf' = int LEAF_PAGE_SIZE" "node_parent lf' = node_parent lf" "leaf_next lf' = leaf_next lf"
    "node_size lf' = int (length ?es) - 1"
    by (subst i(5); simp add: lf(2-4))+
  have sz: "node_size lf = int (length ?es)" "length ?es \<le> LEAF_PAGE_SIZE + 1" using lf(5,6) by (auto simp: leaf_holds_def leaf_wf_def)
  have sub: "fst ` set (ls @ rs) \<subseteq> insert k (fst ` set ?es)" unfolding i(2) by auto
  have wf': "leaf_wf lf'" using lf(6) h i(6) sz(2) assms(7) LeafPage_Remove_set [OF i(1)] unfolding leaf_wf_def header_ok_def
    by (auto simp: lf(3,4) int32_def page_sizes)
  obtain bp3 M' t' where w: "write_leaf g lf' bp2 = Some bp3" "pool_at bp3 A M' {?p} pins2" "pool_size bp3 = pool_size bp2"
    "index_at comparator K T A M' (Some t')" "tree_ids t' = tree_ids t" "read_header g bp3 = Some (BPlusTreePage.truncate lf')"
    "\<forall>q\<in>K. find_entry comparator (inorder t') q = (if key_same comparator k q then None else find_entry comparator (inorder t) q)"
    "\<forall>q. q \<notin> set (tree_ids t) \<longrightarrow> M' q = M q"
    using store_leaf [OF d(3) assms(2,3) d(5) wf' h(1-3) i(3,4) sub i(7)] by (elim exE conjE) (rule that)
  have "CoalesceOrRedistribute g T bp3 = Some (False, T, bp3)"
    using w(6) h assms(7) by (subst CoalesceOrRedistribute.simps) (simp add: AdjustRoot_def IsRootPage_def IsLeafPage_def GetMinSize_def BPlusTreePage.truncate_def page_sizes)
  moreover obtain b bp4 where u: "UnpinPage ?p True bp3 = Some (b, bp4)" "pool_at bp4 A M' {} (pins2(?p := None))" "pool_size bp4 = pool_size bp3"
    using pool_unpin [OF w(2), of True ?p] by auto
  moreover obtain bp5 where v: "unpin_frame g True bp4 = Some bp5" "pool_at bp5 A M' {} (pins2(?p := None))" "pool_size bp5 = pool_size bp4"
    using unpin_again [OF w(2) d(5) u(1)] pool_unpin [OF u(2), of True ?p] by (auto simp: unpin_frame_def)
  ultimately have "BPlusTree_Remove comparator k T bp = Some (T, bp5)"
    using d(1,2) ne node_at(2) [OF d(3,5)] node_at(4) [OF w(2) d(5)] lf(1) leaf_lookup [OF lf(5) sr(2) assms(3)] some i(1) w(1) sz(1)
    by (auto simp: BPlusTree_Remove_def)
  moreover have "dom (pins2(?p := None)) \<subseteq> dom pins" using d(6) by auto
  ultimately show ?thesis using u(2,3) v(2,3) w d(4) by (intro exI [of _ bp5] exI [of _ M'] exI [of _ t'] exI [of _ "pins2(?p := None)"]) simp
qed

end

section \<open>The first key of an index\<close>

definition record_root :: "u32 \<Rightarrow> int \<Rightarrow> (u32 \<times> u32) list \<Rightarrow> (u32 \<times> u32) list" where
  "record_root index_id p rs = (if index_id \<in> fst ` set rs then rs else rs @ [(index_id, id_word p)])"

lemma roots_record:
  assumes "roots_hold d rs" "length rs < 511"
  shows "\<exists>b d'. IndexRoots_Insert x (id_word p) d = Some (b, d') \<and> roots_hold d' (record_root x p rs)"
proof (cases "x \<in> fst ` set rs")
  case True
  obtain as r bs where rs: "rs = as @ (x, r) # bs" using roots_entry [OF True] by blast
  then show ?thesis using FindIndex_ok(2) [OF assms(1) rs] True assms(1) by (auto simp: IndexRoots_Insert_def record_root_def)
next
  case False
  then show ?thesis using roots_insert [OF assms(1) False assms(2), of "id_word p"] by (auto simp: record_root_def)
qed

lemma UpdateRootPageId_at:
  assumes "pool_at bp A M W pins" "1 \<in> A" "roots_hold (M 1) rs" "length rs < 511" "finite (dom pins)" "card (dom pins) < pool_size bp"
  shows "\<exists>bp' d. UpdateRootPageId True T bp = Some bp' \<and> pool_at bp' A (M(1 := d)) (W - {1}) (pins(1 := None)) \<and> pool_size bp' = pool_size bp
    \<and> roots_hold d (record_root (tree_index_id T) (root_page_id T) rs)"
proof -
  obtain f bp1 where f: "FetchPage 1 bp = Some (Some f, bp1)" "pool_at bp1 A M W (pins(1 := Some f))" "pool_size bp1 = pool_size bp"
    using pool_fetch [OF assms(1,2,5)] assms(6) by blast
  have p: "(pins(1 := Some f)) 1 = Some f" by simp
  obtain b d where d: "IndexRoots_Insert (tree_index_id T) (id_word (root_page_id T)) (M 1) = Some (b, d)"
    "roots_hold d (record_root (tree_index_id T) (root_page_id T) rs)" using roots_record [OF assms(3,4)] by blast
  have "length d = 4096" using d(2) by (simp add: roots_hold_def)
  then obtain bp2 where w: "write_frame f d bp1 = Some bp2" "pool_at bp2 A (M(1 := d)) (insert 1 W) (pins(1 := Some f))" "pool_size bp2 = pool_size bp1"
    using write_frame_at [OF f(2) p] by blast
  obtain c bp3 where u: "UnpinPage 1 True bp2 = Some (c, bp3)" "pool_at bp3 A (M(1 := d)) (insert 1 W - {1}) ((pins(1 := Some f))(1 := None))" "pool_size bp3 = pool_size bp2"
    using pool_unpin [OF w(2), of True 1] by blast
  have "UpdateRootPageId True T bp = Some bp3"
    using f(1) pinned_page(1,2) [OF f(2) p] d(1) w(1) node_at(4) [OF w(2) p] u(1) by (simp add: UpdateRootPageId_def INDEX_ROOTS_PAGE_ID_def)
  then show ?thesis using u(2,3) w(3) f(3) d(2) by (intro exI [of _ bp3] exI [of _ d]) simp
qed

text \<open>A page of zero bytes read as a leaf.\<close>

lemma zero_leaf: "\<exists>lf. leaf_of zero_page = Some lf \<and> leaf_wf lf"
proof -
  have h: "\<exists>h. header_of zero_page = Some h" by (simp add: header_of_def read32_zero page_type_of_def)
  have "those (map leaf_entry_of (chunks (LEAF_PAGE_SIZE + 1) (KEY_SIZE + 8) (drop 28 zero_page))) \<noteq> None"
  proof -
    have "length c = KEY_SIZE + 8" if "c \<in> set (chunks (LEAF_PAGE_SIZE + 1) (KEY_SIZE + 8) (drop 28 zero_page))" for c
      by (rule chunks_length [OF _ that]) (simp add: page_sizes)
    then have "\<exists>e. leaf_entry_of c = Some e" if "c \<in> set (chunks (LEAF_PAGE_SIZE + 1) (KEY_SIZE + 8) (drop 28 zero_page))" for c
      using that by (simp add: leaf_entry_of_def read32_def page_sizes)
    then show ?thesis by (subst those_map_Some [where g = "\<lambda>c. the (leaf_entry_of c)"]) force+
  qed
  then obtain lf where "leaf_of zero_page = Some lf" using h by (auto simp: leaf_of_def read32_zero)
  then show ?thesis using leaf_of_wf(1) [of zero_page lf] by auto
qed

context tree_order
begin

lemma StartNewTree_at:
  assumes "pool_at bp A M {} pins" "1 \<in> A" "roots_hold (M 1) rs" "length rs < 511" "card A < 32704" "finite (dom pins)" "card (dom pins) + 1 < pool_size bp"
    "k \<in> K" "length k = KEY_SIZE"
  shows "\<exists>p bp' M' pins'. StartNewTree comparator k v T bp = Some (T\<lparr>root_page_id := p\<rparr>, bp') \<and> p \<notin> A \<and> pool_at bp' (insert p A) M' {} pins'
    \<and> pool_size bp' = pool_size bp \<and> dom pins' \<subseteq> dom pins \<and> index_at comparator K (T\<lparr>root_page_id := p\<rparr>) (insert p A) M' (Some (BLeaf p [(k, v)]))
    \<and> roots_hold (M' 1) (record_root (tree_index_id T) p rs) \<and> (\<forall>q\<in>A - {1}. M' q = M q)"
proof -
  obtain p f bp1 where n: "NewPage bp = Some (Some (p, f), bp1)" "p \<notin> A" "pool_size bp1 = pool_size bp"
    "pool_at bp1 (insert p A) (M(p := zero_page)) {p} (pins(p := Some f))"
    using pool_new [OF assms(1,5,6)] assms(7) by auto
  have pf: "(pins(p := Some f)) p = Some f" by simp
  obtain lf where lf: "leaf_of zero_page = Some lf" "leaf_wf lf" using zero_leaf by blast
  let ?lf = "LeafPage_Init p (- 1) (int LEAF_PAGE_SIZE) lf"
  have holds: "leaf_holds ?lf []" "leaf_ok comparator K ([] :: (key \<times> RowId) list)" "length ([] :: (key \<times> RowId) list) < length (leaf_array ?lf)"
    using lf(2) by (simp_all add: leaf_holds_def LeafPage_Init_def leaf_ok_def keys_sorted_def leaf_wf_def)
  obtain lf' ls rs' where i: "LeafPage_Insert comparator k v ?lf = Some (1, lf')" "[] = ls @ rs'" "leaf_holds lf' (ls @ (k, v) # rs')"
    "leaf_ok comparator K (ls @ (k, v) # rs')" "lf' = ?lf\<lparr>node_size := 1, leaf_array := leaf_array lf'\<rparr>" "length (leaf_array lf') = length (leaf_array ?lf)"
    using leaf_insert_new [OF holds(1,2) assms(8) _ holds(3), of v] by auto
  have h: "node_type lf' = LEAF_PAGE" "node_id lf' = p" "node_max_size lf' = int LEAF_PAGE_SIZE" "node_parent lf' = - 1" "leaf_next lf' = - 1" "node_size lf' = 1"
    by (subst i(5); simp add: LeafPage_Init_def)+
  have pr: "0 \<le> p \<and> p < 524287" using n(4) pool_id_range [of bp1 "insert p A" "{p}" p] by (auto simp: pool_at_def)
  have wf': "leaf_wf lf'" using lf(2) h i(6) assms(9) pr LeafPage_Insert_set [OF i(1)] unfolding leaf_wf_def header_ok_def
    by (auto simp: int32_def page_sizes LeafPage_Init_def)
  obtain bp2 where w: "write_leaf f lf' bp1 = Some bp2" "pool_at bp2 (insert p A) (M(p := leaf_bytes lf' zero_page)) {p} (pins(p := Some f))" "pool_size bp2 = pool_size bp1"
    using write_leaf_at [OF n(4) pf wf'] by (simp only: fun_upd_same fun_upd_upd insert_absorb2) blast
  let ?T = "T\<lparr>root_page_id := p\<rparr>"
  have p1: "p \<noteq> 1" using n(2) assms(2) by auto
  have c: "finite (dom (pins(p := Some f)))" "card (dom (pins(p := Some f))) < pool_size bp2"
    using assms(6,7) n(3) w(3) card_insert_le_m1 [of "card (dom pins) + 1" "dom pins" p] by simp_all
  have r1: "roots_hold ((M(p := leaf_bytes lf' zero_page)) 1) rs" "1 \<in> insert p A" using assms(2,3) p1 by simp_all
  obtain bp3 d where u: "UpdateRootPageId True ?T bp2 = Some bp3"
    "pool_at bp3 (insert p A) ((M(p := leaf_bytes lf' zero_page))(1 := d)) ({p} - {1}) ((pins(p := Some f))(1 := None))" "pool_size bp3 = pool_size bp2"
    "roots_hold d (record_root (tree_index_id T) p rs)"
    using UpdateRootPageId_at [OF w(2) r1(2,1) assms(4) c, of ?T] by (simp del: fun_upd_apply) blast
  let ?M = "(M(p := leaf_bytes lf' zero_page))(1 := d)" and ?pins = "((pins(p := Some f))(1 := None))(p := None)"
  obtain b bp4 where z: "UnpinPage p True bp3 = Some (b, bp4)" "pool_at bp4 (insert p A) ?M ({p} - {1} - {p}) ?pins" "pool_size bp4 = pool_size bp3"
    using pool_unpin [OF u(2), of True p] by blast
  have "StartNewTree comparator k v T bp = Some (?T, bp4)"
    using n(1) node_at(2) [OF n(4) pf] lf(1) i(1) w(1) u(1) z(1) by (simp add: StartNewTree_def)
  moreover have "index_at comparator K ?T (insert p A) ?M (Some (BLeaf p [(k, v)]))"
    using leaf_page_write [OF wf' _ h(1-3), of zero_page "[(k, v)]"] i(2-4) p1 by simp
  moreover have "pool_at bp4 (insert p A) ?M {} ?pins" "dom ?pins \<subseteq> dom pins" "roots_hold (?M 1) (record_root (tree_index_id T) p rs)" "\<forall>q\<in>A - {1}. ?M q = M q"
    using z(2) u(4) n(2) by (auto simp: Diff_eq)
  ultimately show ?thesis using n(2,3) w(3) u(3) z(3) by (intro exI [of _ p] exI [of _ bp4] exI [of _ ?M] exI [of _ ?pins]) simp
qed

end

interpretation gt: tree_order "GenericComparator KEY_SIZE (length ts)" "index_keys KEY_SIZE ts" for ts
  by unfold_locales

abbreviation (input) key_comparator :: "TypeId list \<Rightarrow> key \<Rightarrow> key \<Rightarrow> int option" where
  "key_comparator ts \<equiv> GenericComparator KEY_SIZE (length ts)"

abbreviation (input) db_index :: "TypeId list \<Rightarrow> BPlusTree \<Rightarrow> int set \<Rightarrow> (int \<Rightarrow> page) \<Rightarrow> btree option \<Rightarrow> bool" where
  "db_index ts \<equiv> index_at (key_comparator ts) (index_keys KEY_SIZE ts)"

lemma key_of_row:
  assumes "key_row KEY_SIZE ts krow"
  obtains k where "SerializeFromKey KEY_SIZE (length ts) krow = Some k" "k \<in> index_keys KEY_SIZE ts" "length k = KEY_SIZE"
proof -
  let ?k = "row_image krow @ replicate (KEY_SIZE - length (row_image krow)) 0"
  have s: "SerializeFromKey KEY_SIZE (length ts) krow = Some ?k" by (rule SerializeFromKey_image [OF assms])
  moreover have "?k \<in> index_keys KEY_SIZE ts" using assms s by (auto simp: index_keys_def)
  moreover have "length ?k = KEY_SIZE" using assms by (simp add: key_row_def)
  ultimately show thesis by (rule that)
qed

lemma index_insert:
  assumes "pool_at bp A M {} pins" "index_at (key_comparator ts) (index_keys KEY_SIZE ts) T A M s" "k \<in> index_keys KEY_SIZE ts" "length k = KEY_SIZE"
    "finite (dom pins)" "card (dom pins) + 1 < pool_size bp" "find_entry (key_comparator ts) (index_entries s) k = None"
    "\<forall>t. s = Some t \<longrightarrow> length (snd (route (key_comparator ts) k t)) < LEAF_PAGE_SIZE"
    "1 \<in> A" "roots_hold (M 1) rs" "length rs < 511" "card A < 32704"
  shows "\<exists>T' bp' A' M' s' pins'. BPlusTree_Insert (key_comparator ts) k v T bp = Some (True, T', bp') \<and> pool_at bp' A' M' {} pins' \<and> pool_size bp' = pool_size bp
    \<and> dom pins' \<subseteq> dom pins \<and> index_at (key_comparator ts) (index_keys KEY_SIZE ts) T' A' M' s' \<and> A \<subseteq> A' \<and> (\<forall>q\<in>A - index_pages s - {1}. M' q = M q)
    \<and> (\<forall>q\<in>index_keys KEY_SIZE ts. find_entry (key_comparator ts) (index_entries s') q
        = (if key_same (key_comparator ts) k q then Some v else find_entry (key_comparator ts) (index_entries s) q))"
proof (cases s)
  case None
  obtain p bp' M' pins' where n: "StartNewTree (key_comparator ts) k v T bp = Some (T\<lparr>root_page_id := p\<rparr>, bp')" "p \<notin> A" "pool_at bp' (insert p A) M' {} pins'"
    "pool_size bp' = pool_size bp" "dom pins' \<subseteq> dom pins" "index_at (key_comparator ts) (index_keys KEY_SIZE ts) (T\<lparr>root_page_id := p\<rparr>) (insert p A) M' (Some (BLeaf p [(k, v)]))"
    "\<forall>q\<in>A - {1}. M' q = M q"
    using gt.StartNewTree_at [OF assms(1,9,10,11,12,5,6,3,4), of v T] by (elim exE conjE) (rule that)
  have "BPlusTree_Insert (key_comparator ts) k v T bp = Some (True, T\<lparr>root_page_id := p\<rparr>, bp')"
    using n(1) assms(2) None by (simp add: BPlusTree_Insert_def IsEmpty_def)
  moreover have "\<forall>q\<in>index_keys KEY_SIZE ts. find_entry (key_comparator ts) (index_entries (Some (BLeaf p [(k, v)]))) q
        = (if key_same (key_comparator ts) k q then Some v else find_entry (key_comparator ts) (index_entries s) q)"
    using None by (simp add: find_entry_Cons)
  ultimately show ?thesis using n(3-7) None by (intro exI [of _ "T\<lparr>root_page_id := p\<rparr>"] exI [of _ bp'] exI [of _ "insert p A"] exI [of _ M'] exI [of _ "Some (BLeaf p [(k, v)])"] exI [of _ pins']) blast
next
  case (Some t)
  have c: "card (dom pins) < pool_size bp" "find_entry (key_comparator ts) (inorder t) k = None" using assms(6,7) Some by simp_all
  obtain bp' M' t' pins' where n: "InsertIntoLeaf (key_comparator ts) k v T bp = Some (True, T, bp')" "pool_at bp' A M' {} pins'" "pool_size bp' = pool_size bp"
    "dom pins' \<subseteq> dom pins" "index_at (key_comparator ts) (index_keys KEY_SIZE ts) T A M' (Some t')"
    "\<forall>q\<in>index_keys KEY_SIZE ts. find_entry (key_comparator ts) (inorder t') q = (if key_same (key_comparator ts) k q then Some v else find_entry (key_comparator ts) (inorder t) q)"
    "\<forall>q. q \<notin> set (tree_ids t) \<longrightarrow> M' q = M q"
    using gt.InsertIntoLeaf_new [OF assms(1,2) [unfolded Some] assms(3,5) c(1) assms(4) c(2) assms(8) [rule_format, OF Some], of v] by (elim exE conjE) (rule that)
  have "\<not> IsEmpty T" using assms(2) Some root_in_ids [of t] minus_one_free [OF assms(1)] by (auto simp: IsEmpty_def)
  then have "BPlusTree_Insert (key_comparator ts) k v T bp = Some (True, T, bp')" using n(1) by (simp add: BPlusTree_Insert_def)
  moreover have "\<forall>q\<in>A - index_pages s - {1}. M' q = M q" using n(7) Some by simp
  ultimately show ?thesis using n(2-6) Some
    by (intro exI [of _ T] exI [of _ bp'] exI [of _ A] exI [of _ M'] exI [of _ "Some t'"] exI [of _ pins']) simp
qed

section \<open>An index of integers\<close>

definition int_row :: "nat \<Rightarrow> Row" where
  "int_row i = Row_of_fields [\<lparr>fvalue = VInteger (of_nat i), type_id = kTypeInt, flen = 4, is_null = False\<rparr>]"

definition int_key :: "nat \<Rightarrow> key" where
  "int_key i = row_image (int_row i) @ replicate (KEY_SIZE - length (row_image (int_row i))) 0"

definition int_entries :: "nat \<Rightarrow> (key \<times> RowId) list" where
  "int_entries n = map (\<lambda>i. (int_key (2 * i), \<lparr>rid_page_id = 7, slot_num = of_nat i\<rparr>)) [0..<n]"

lemma int_row_key: "key_row KEY_SIZE [kTypeInt] (int_row i)"
  by (simp add: key_row_def int_row_def Row_of_fields_def row_ok_def field_ok_def field_ordered_def row_image_length field_image_def page_sizes)

lemma int_key_ok: "SerializeFromKey KEY_SIZE 1 (int_row i) = Some (int_key i)" "int_key i \<in> index_keys KEY_SIZE [kTypeInt]" "length (int_key i) = KEY_SIZE"
proof -
  show s: "SerializeFromKey KEY_SIZE 1 (int_row i) = Some (int_key i)" using SerializeFromKey_image [OF int_row_key [of i]] by (simp add: int_key_def)
  then show "int_key i \<in> index_keys KEY_SIZE [kTypeInt]" using int_row_key [of i] by (auto simp: index_keys_def)
  show "length (int_key i) = KEY_SIZE" using int_row_key [of i] by (simp add: int_key_def key_row_def)
qed

lemma int_key_order:
  assumes "i < 1000" "j < 1000"
  shows "GenericComparator KEY_SIZE 1 (int_key i) (int_key j) = Some (if i < j then - 1 else if j < i then 1 else 0)"
proof -
  have "row_rank (int_row n) = [[int n]]" if "n < 1000" for n
    using that by (simp add: row_rank_def int_row_def Row_of_fields_def field_rank_def sint_of_nat32)
  then show ?thesis using comparator_rank [OF int_row_key [of i] int_row_key [of j]] assms by (simp add: int_key_def order_sign_def)
qed

lemma int_entries_ok: "n < 500 \<Longrightarrow> leaf_ok (GenericComparator KEY_SIZE 1) (index_keys KEY_SIZE [kTypeInt]) (int_entries n)"
  unfolding leaf_ok_def keys_sorted_def int_entries_def sorted_wrt_map
  by (auto simp: key_less_def int_key_order [unfolded One_nat_def] int_key_ok(2) sorted_wrt_iff_nth_less)

lemma int_entries_find:
  assumes "n < 500" "j < 1000"
  shows "find_entry (GenericComparator KEY_SIZE 1) (int_entries n) (int_key j)
    = (if even j \<and> j div 2 < n then Some \<lparr>rid_page_id = 7, slot_num = of_nat (j div 2)\<rparr> else None)"
  using assms(1)
proof (induction n)
  case 0
  then show ?case by (simp add: int_entries_def)
next
  case (Suc n)
  have "key_same (GenericComparator KEY_SIZE 1) (int_key (2 * n)) (int_key j) \<longleftrightarrow> j = 2 * n" using int_key_order [of "2 * n" j] Suc.prems assms(2) by (auto simp: key_same_def)
  then show ?case using Suc by (auto simp: int_entries_def find_entry_append find_entry_Cons less_Suc_eq split: option.splits)
qed

text \<open>A file with the catalog page, the page of the roots and one leaf of entries.\<close>

lemma sample_index:
  assumes "n \<le> LEAF_PAGE_SIZE"
  shows "\<exists>bp A M p. pool_at bp A M {} (\<lambda>_. None) \<and> pool_size bp = 4 \<and> 1 \<in> A \<and> card A < 32704 \<and> roots_hold (M 1) []
    \<and> db_index [kTypeInt] \<lparr>tree_index_id = 5, root_page_id = p\<rparr> A M (Some (BLeaf p (int_entries n)))"
proof -
  obtain bp where b: "pool_at bp {0, 1} (\<lambda>_. zero_page) {} (\<lambda>_. None)" "pool_size bp = 4" using sample_pool by blast
  obtain p f bp1 where n: "p \<notin> {0, 1}" "pool_size bp1 = pool_size bp"
    "pool_at bp1 (insert p {0, 1}) ((\<lambda>_. zero_page)(p := zero_page)) {p} ((\<lambda>_. None)(p := Some f))"
    using pool_new [OF b(1)] b(2) by auto
  obtain lf where lf: "leaf_of zero_page = Some lf" "leaf_wf lf" using zero_leaf by blast
  define nd where "nd = (LeafPage_Init p (- 1) (int LEAF_PAGE_SIZE) lf)\<lparr>node_size := int n, leaf_array := int_entries n @ drop n (leaf_array lf)\<rparr>"
  have e: "length (int_entries n) = n" "\<forall>e\<in>set (int_entries n). length (fst e) = KEY_SIZE" by (auto simp: int_entries_def int_key_ok(3))
  have pr: "0 \<le> p \<and> p < 524287" using n(3) pool_id_range [of bp1 "insert p {0, 1}" "{p}" p] by (auto simp: pool_at_def)
  have wf: "leaf_wf nd" using lf(2) pr e assms
    by (auto simp: leaf_wf_def header_ok_def nd_def LeafPage_Init_def int32_def page_sizes dest: in_set_dropD)
  have h: "node_type nd = LEAF_PAGE" "node_id nd = p" "node_max_size nd = int LEAF_PAGE_SIZE" "leaf_holds nd (int_entries n)"
    using e(1) by (simp_all add: nd_def LeafPage_Init_def leaf_holds_def)
  let ?M = "(\<lambda>_. zero_page)(p := leaf_bytes nd zero_page)"
  obtain bp2 where w: "pool_at bp2 (insert p {0, 1}) ?M {p} ((\<lambda>_. None)(p := Some f))" "pool_size bp2 = pool_size bp1"
    using write_leaf_at [OF n(3) _ wf, of p f] by (auto simp del: fun_upd_apply simp: fun_upd_same)
  obtain bp3 where u: "pool_at bp3 (insert p {0, 1}) ?M {} (\<lambda>_. None)" "pool_size bp3 = pool_size bp2"
    using pool_unpin [OF w(1), of True p] by (auto simp: fun_upd_idem)
  have "roots_hold (?M 1) []" using n(1) zero_roots by simp
  moreover have "leaf_page (?M p) p (int_entries n)" using leaf_page_write [OF wf _ h, of zero_page] by simp
  ultimately show ?thesis using u w(2) n(1,2) b(2) int_entries_ok [of n] assms
    by (intro exI [of _ bp3] exI [of _ "insert p {0, 1}"] exI [of _ ?M] exI [of _ p]) (auto simp: page_sizes)
qed

section \<open>Properties\<close>

text \<open>
  C10: a search in the index answers as the list of all entries of the tree does. When the pages of the pool hold an index of
  any height whose keys are in order, and one frame is not pinned, \<open>ScanKey\<close> finds the row stored for a key that the comparator
  calls equal, and reports a missing key as \<open>DB_KEY_NOT_FOUND\<close>; the pages keep their contents and no page stays pinned that was not.
\<close>

theorem index_scan:
  assumes "pool_at bp A M {} pins" "db_index ts T A M s" "key_row KEY_SIZE ts krow" "finite (dom pins)" "card (dom pins) < pool_size bp"
  shows "\<exists>k bp' pins'. SerializeFromKey KEY_SIZE (length ts) krow = Some k \<and> pool_at bp' A M {} pins' \<and> dom pins' \<subseteq> dom pins
    \<and> ScanKey (length ts) krow T bp = Some (case find_entry (key_comparator ts) (index_entries s) k of
        Some r \<Rightarrow> (DB_SUCCESS, [r], bp') | None \<Rightarrow> (DB_KEY_NOT_FOUND, [], bp'))"
proof -
  obtain k where k: "SerializeFromKey KEY_SIZE (length ts) krow = Some k" "k \<in> index_keys KEY_SIZE ts" using key_of_row [OF assms(3)] by blast
  obtain bp' pins' where g: "GetValue (key_comparator ts) k T bp = Some (find_entry (key_comparator ts) (index_entries s) k, bp')" "pool_at bp' A M {} pins'"
    "dom pins' \<subseteq> dom pins" using gt.GetValue_at [OF assms(1,2) k(2) assms(4,5)] by blast
  then show ?thesis using k(1) by (intro exI [of _ k] exI [of _ bp'] exI [of _ pins']) (simp add: ScanKey_def)
qed

text \<open>
  C11: inserting a key that is not in the index, into an empty index or into a leaf with room, succeeds: the new index answers the
  key with the given row and every other key as before, no page outside the index changes but the page of the roots, and no page stays
  pinned that was not.
\<close>

theorem index_insert_entry:
  assumes "pool_at bp A M {} pins" "db_index ts T A M s" "key_row KEY_SIZE ts krow" "v \<noteq> INVALID_ROWID"
    "finite (dom pins)" "card (dom pins) + 1 < pool_size bp" "1 \<in> A" "roots_hold (M 1) rs" "length rs < 511" "card A < 32704"
    "SerializeFromKey KEY_SIZE (length ts) krow = Some k" "find_entry (key_comparator ts) (index_entries s) k = None"
    "\<forall>t. s = Some t \<longrightarrow> length (snd (route (key_comparator ts) k t)) < LEAF_PAGE_SIZE"
  shows "\<exists>T' bp' A' M' s' pins'. InsertEntry (length ts) krow v T bp = Some (DB_SUCCESS, T', bp') \<and> pool_at bp' A' M' {} pins'
    \<and> dom pins' \<subseteq> dom pins \<and> db_index ts T' A' M' s' \<and> A \<subseteq> A' \<and> (\<forall>q\<in>A - index_pages s - {1}. M' q = M q)
    \<and> (\<forall>q\<in>index_keys KEY_SIZE ts. find_entry (key_comparator ts) (index_entries s') q
        = (if key_same (key_comparator ts) k q then Some v else find_entry (key_comparator ts) (index_entries s) q))"
proof -
  have k: "k \<in> index_keys KEY_SIZE ts" "length k = KEY_SIZE" using key_of_row [OF assms(3)] assms(11) by auto
  obtain T' bp' A' M' s' pins' where i: "BPlusTree_Insert (key_comparator ts) k v T bp = Some (True, T', bp')" "pool_at bp' A' M' {} pins'" "dom pins' \<subseteq> dom pins"
    "db_index ts T' A' M' s'" "A \<subseteq> A'" "\<forall>q\<in>A - index_pages s - {1}. M' q = M q"
    "\<forall>q\<in>index_keys KEY_SIZE ts. find_entry (key_comparator ts) (index_entries s') q
        = (if key_same (key_comparator ts) k q then Some v else find_entry (key_comparator ts) (index_entries s) q)"
    using index_insert [OF assms(1,2) k assms(5,6,12,13,7-10), of v] by (elim exE conjE) (rule that)
  have "InsertEntry (length ts) krow v T bp = Some (DB_SUCCESS, T', bp')" using i(1) assms(4,11) by (simp add: InsertEntry_def)
  then show ?thesis using i(2-7)
    by (intro exI [of _ T'] exI [of _ bp'] exI [of _ A'] exI [of _ M'] exI [of _ s'] exI [of _ pins']) (intro conjI)
qed

text \<open>
  C34: a key that is in the index already is refused with \<open>DB_FAILED\<close> and no page changes, but the leaf of the key stays pinned.
\<close>

theorem index_duplicate_pins_leaf:
  assumes "pool_at bp A M {} pins" "db_index ts T A M (Some t)" "key_row KEY_SIZE ts krow" "v \<noteq> INVALID_ROWID"
    "finite (dom pins)" "card (dom pins) < pool_size bp"
    "SerializeFromKey KEY_SIZE (length ts) krow = Some k" "find_entry (key_comparator ts) (inorder t) k \<noteq> None"
  shows "\<exists>bp' pins' f. InsertEntry (length ts) krow v T bp = Some (DB_FAILED, T, bp') \<and> pool_at bp' A M {} pins'
    \<and> pins' (fst (route (key_comparator ts) k t)) = Some f"
proof -
  have k: "k \<in> index_keys KEY_SIZE ts" using key_of_row [OF assms(3)] assms(7) by auto
  obtain bp' pins' f where i: "InsertIntoLeaf (key_comparator ts) k v T bp = Some (False, T, bp')" "pool_at bp' A M {} pins'"
    "pins' (fst (route (key_comparator ts) k t)) = Some f"
    using gt.InsertIntoLeaf_duplicate [OF assms(1,2) k assms(5,6,8), of v] by (elim exE conjE) (rule that)
  have "\<not> IsEmpty T" using assms(2) root_in_ids [of t] minus_one_free [OF assms(1)] by (auto simp: IsEmpty_def)
  then show ?thesis using i assms(4,7) by (auto simp: InsertEntry_def BPlusTree_Insert_def)
qed

text \<open>
  C33: removing a key from a leaf that stays at least half full leaves an index without that key and with every other entry, changes no page
  outside the index and leaves no page pinned that was not.
\<close>

theorem index_remove_entry:
  assumes "pool_at bp A M {} pins" "db_index ts T A M (Some t)" "key_row KEY_SIZE ts krow" "finite (dom pins)" "card (dom pins) < pool_size bp"
    "SerializeFromKey KEY_SIZE (length ts) krow = Some k" "find_entry (key_comparator ts) (inorder t) k \<noteq> None"
    "LEAF_PAGE_SIZE div 2 < length (snd (route (key_comparator ts) k t))"
  shows "\<exists>bp' M' t' pins'. RemoveEntry (length ts) krow T bp = Some (DB_SUCCESS, T, bp') \<and> pool_at bp' A M' {} pins'
    \<and> dom pins' \<subseteq> dom pins \<and> db_index ts T A M' (Some t') \<and> (\<forall>q. q \<notin> set (tree_ids t) \<longrightarrow> M' q = M q)
    \<and> (\<forall>q\<in>index_keys KEY_SIZE ts. find_entry (key_comparator ts) (inorder t') q
        = (if key_same (key_comparator ts) k q then None else find_entry (key_comparator ts) (inorder t) q))"
proof -
  have k: "k \<in> index_keys KEY_SIZE ts" using key_of_row [OF assms(3)] assms(6) by auto
  obtain bp' M' t' pins' where r: "BPlusTree_Remove (key_comparator ts) k T bp = Some (T, bp')" "pool_at bp' A M' {} pins'" "dom pins' \<subseteq> dom pins"
    "db_index ts T A M' (Some t')" "\<forall>q\<in>index_keys KEY_SIZE ts. find_entry (key_comparator ts) (inorder t') q
        = (if key_same (key_comparator ts) k q then None else find_entry (key_comparator ts) (inorder t) q)"
    "\<forall>q. q \<notin> set (tree_ids t) \<longrightarrow> M' q = M q"
    using gt.Remove_present [OF assms(1,2) k assms(4,5,7,8)] by (elim exE conjE) (rule that)
  have "RemoveEntry (length ts) krow T bp = Some (DB_SUCCESS, T, bp')" using r(1) assms(6) by (simp add: RemoveEntry_def)
  then show ?thesis using r(2-6) by (intro exI [of _ bp'] exI [of _ M'] exI [of _ t'] exI [of _ pins']) (intro conjI)
qed

theorem index_scan_witness:
  "\<exists>T bp bp' bp''. ScanKey 1 (int_row 4) T bp = Some (DB_SUCCESS, [\<lparr>rid_page_id = 7, slot_num = 2\<rparr>], bp')
    \<and> ScanKey 1 (int_row 5) T bp = Some (DB_KEY_NOT_FOUND, [], bp'')"
proof -
  have n: "3 \<le> LEAF_PAGE_SIZE" by (simp add: page_sizes)
  obtain bp A M p where i: "pool_at bp A M {} (\<lambda>_. None)" "pool_size bp = 4"
    "db_index [kTypeInt] \<lparr>tree_index_id = 5, root_page_id = p\<rparr> A M (Some (BLeaf p (int_entries 3)))"
    using sample_index [OF n] by (elim exE conjE) (rule that)
  have c: "finite (dom (\<lambda>_ :: int. None :: nat option))" "card (dom (\<lambda>_ :: int. None :: nat option)) < pool_size bp" using i(2) by simp_all
  show ?thesis
    using index_scan [OF i(1,3) int_row_key [of 4] c] index_scan [OF i(1,3) int_row_key [of 5] c] int_key_ok(1)
      int_entries_find [of 3 4] int_entries_find [of 3 5] by auto
qed

theorem index_insert_entry_witness:
  "\<exists>T bp T' bp'. InsertEntry 1 (int_row 5) \<lparr>rid_page_id = 8, slot_num = 0\<rparr> T bp = Some (DB_SUCCESS, T', bp')"
proof -
  have n: "3 \<le> LEAF_PAGE_SIZE" by (simp add: page_sizes)
  obtain bp A M p where i: "pool_at bp A M {} (\<lambda>_. None)" "pool_size bp = 4" "1 \<in> A" "card A < 32704" "roots_hold (M 1) []"
    "db_index [kTypeInt] \<lparr>tree_index_id = 5, root_page_id = p\<rparr> A M (Some (BLeaf p (int_entries 3)))"
    using sample_index [OF n] by (elim exE conjE) (rule that)
  have c: "finite (dom (\<lambda>_ :: int. None :: nat option))" "card (dom (\<lambda>_ :: int. None :: nat option)) + 1 < pool_size bp" using i(2) by simp_all
  have v: "\<lparr>rid_page_id = 8, slot_num = 0\<rparr> \<noteq> INVALID_ROWID" "length ([] :: (u32 \<times> u32) list) < 511" by (simp_all add: INVALID_ROWID_def)
  have f: "find_entry (key_comparator [kTypeInt]) (index_entries (Some (BLeaf p (int_entries 3)))) (int_key 5) = None" using int_entries_find [of 3 5] by simp
  have s: "SerializeFromKey KEY_SIZE (length [kTypeInt]) (int_row 5) = Some (int_key 5)" using int_key_ok(1) [of 5] by simp
  show ?thesis using index_insert_entry [OF i(1,6) int_row_key v(1) c i(3,5) v(2) i(4) s f] by (auto simp: int_entries_def page_sizes)
qed

theorem index_duplicate_pins_leaf_witness:
  "\<exists>T bp bp'. InsertEntry 1 (int_row 4) \<lparr>rid_page_id = 8, slot_num = 0\<rparr> T bp = Some (DB_FAILED, T, bp')"
proof -
  have n: "3 \<le> LEAF_PAGE_SIZE" by (simp add: page_sizes)
  obtain bp A M p where i: "pool_at bp A M {} (\<lambda>_. None)" "pool_size bp = 4"
    "db_index [kTypeInt] \<lparr>tree_index_id = 5, root_page_id = p\<rparr> A M (Some (BLeaf p (int_entries 3)))"
    using sample_index [OF n] by (elim exE conjE) (rule that)
  have c: "finite (dom (\<lambda>_ :: int. None :: nat option))" "card (dom (\<lambda>_ :: int. None :: nat option)) < pool_size bp" using i(2) by simp_all
  have v: "\<lparr>rid_page_id = 8, slot_num = 0\<rparr> \<noteq> INVALID_ROWID" by (simp add: INVALID_ROWID_def)
  have f: "find_entry (key_comparator [kTypeInt]) (inorder (BLeaf p (int_entries 3))) (int_key 4) \<noteq> None" using int_entries_find [of 3 4] by simp
  have s: "SerializeFromKey KEY_SIZE (length [kTypeInt]) (int_row 4) = Some (int_key 4)" using int_key_ok(1) [of 4] by simp
  show ?thesis using index_duplicate_pins_leaf [OF i(1,3) int_row_key v c s f] by auto
qed

theorem index_remove_entry_witness:
  "\<exists>T bp bp'. RemoveEntry 1 (int_row 4) T bp = Some (DB_SUCCESS, T, bp')"
proof -
  have n: "30 \<le> LEAF_PAGE_SIZE" by (simp add: page_sizes)
  obtain bp A M p where i: "pool_at bp A M {} (\<lambda>_. None)" "pool_size bp = 4"
    "db_index [kTypeInt] \<lparr>tree_index_id = 5, root_page_id = p\<rparr> A M (Some (BLeaf p (int_entries 30)))"
    using sample_index [OF n] by (elim exE conjE) (rule that)
  have c: "finite (dom (\<lambda>_ :: int. None :: nat option))" "card (dom (\<lambda>_ :: int. None :: nat option)) < pool_size bp" using i(2) by simp_all
  have f: "find_entry (key_comparator [kTypeInt]) (inorder (BLeaf p (int_entries 30))) (int_key 4) \<noteq> None" using int_entries_find [of 30 4] by simp
  have s: "SerializeFromKey KEY_SIZE (length [kTypeInt]) (int_row 4) = Some (int_key 4)" using int_key_ok(1) [of 4] by simp
  show ?thesis using index_remove_entry [OF i(1,3) int_row_key c s f] by (auto simp: int_entries_def page_sizes)
qed

end
