(* ===== verification/Catalog_Meta.thy ===== *)
theory Catalog_Meta
  imports Schemas Index_Roots
begin

text \<open>
  The records the catalog keeps on its pages: \<open>CatalogMeta\<close> of \<open>MiniSQL/src/catalog/catalog.cpp\<close>, \<open>TableMetadata\<close> of \<open>catalog/table.cpp\<close> and
  \<open>IndexMetadata\<close> of \<open>catalog/indexes.cpp\<close>. A buffer is the array behind \<open>buf\<close>, a page; a store behind its end is \<open>None\<close>. A \<open>std::map\<close>
  is the list of its entries in the order of the keys.
\<close>

section \<open>Model\<close>

subsection \<open>Ordered maps\<close>

text \<open>\<open>insert\<close> keeps an entry that is there already.\<close>

fun map_put :: "'k :: linorder \<Rightarrow> 'v \<Rightarrow> ('k \<times> 'v) list \<Rightarrow> ('k \<times> 'v) list" where
  "map_put k v [] = [(k, v)]"
| "map_put k v (e # m) = (if k < fst e then (k, v) # e # m else if k = fst e then e # m else e # map_put k v m)"

definition map_erase :: "'k \<Rightarrow> ('k \<times> 'v) list \<Rightarrow> ('k \<times> 'v) list" where
  "map_erase k m = filter (\<lambda>e. fst e \<noteq> k) m"

subsection \<open>The pages of the tables and indexes\<close>

record CatalogMeta =
  table_meta_pages :: "(u32 \<times> u32) list"
  index_meta_pages :: "(u32 \<times> u32) list"

definition CATALOG_METADATA_MAGIC_NUM :: u32 where "CATALOG_METADATA_MAGIC_NUM = 89849"

definition put_pair :: "u32 \<times> u32 \<Rightarrow> u8 list \<Rightarrow> nat \<Rightarrow> u32 \<Rightarrow> (u8 list \<times> u32) option" where
  "put_pair e buf i len = do {
     buf \<leftarrow> write_bytes buf (i + unat len) (le32 (fst e));
     let len = len + 4;
     buf \<leftarrow> write_bytes buf (i + unat len) (le32 (snd e));
     Some (buf, len + 4) }"

definition get_pair :: "nat \<Rightarrow> u8 list \<Rightarrow> nat \<Rightarrow> u32 \<Rightarrow> ((u32 \<times> u32) \<times> u32) option" where
  "get_pair k buf i len = do {
     a \<leftarrow> read32 buf (i + unat len);
     let len = len + 4;
     b \<leftarrow> read32 buf (i + unat len);
     Some ((a, b), len + 4) }"

definition CatalogMeta_SerializeTo :: "CatalogMeta \<Rightarrow> u8 list \<Rightarrow> u8 list option" where
  "CatalogMeta_SerializeTo m buf = do {
     buf \<leftarrow> write_bytes buf 0 (le32 CATALOG_METADATA_MAGIC_NUM);
     buf \<leftarrow> write_bytes buf 4 (le32 (of_nat (length (table_meta_pages m))));
     (buf, len) \<leftarrow> put_all put_pair (table_meta_pages m) buf 0 8;
     buf \<leftarrow> write_bytes buf (unat len) (le32 (of_nat (length (index_meta_pages m))));
     (buf, len) \<leftarrow> put_all put_pair (index_meta_pages m) buf 0 (len + 4);
     Some buf }"

definition pairs_map :: "(u32 \<times> u32) list \<Rightarrow> (u32 \<times> u32) list" where
  "pairs_map es = foldl (\<lambda>m e. map_put (fst e) (snd e) m) [] es"

definition CatalogMeta_DeserializeFrom :: "u8 list \<Rightarrow> CatalogMeta option" where
  "CatalogMeta_DeserializeFrom buf = do {
     magic \<leftarrow> read32 buf 0;
     if magic \<noteq> CATALOG_METADATA_MAGIC_NUM then None else do {
     size1 \<leftarrow> read32 buf 4;
     (ts, len) \<leftarrow> get_all get_pair [0..<unat size1] buf 0 8;
     size2 \<leftarrow> read32 buf (unat len);
     (ixs, len) \<leftarrow> get_all get_pair [0..<unat size2] buf 0 (len + 4);
     Some \<lparr>table_meta_pages = pairs_map ts, index_meta_pages = pairs_map ixs\<rparr> }}"

definition CatalogMeta_GetSerializedSize :: "CatalogMeta \<Rightarrow> u32" where
  "CatalogMeta_GetSerializedSize m = 3 * 4 + of_nat (length (table_meta_pages m)) * (4 + 4) + of_nat (length (index_meta_pages m)) * (4 + 4)"

definition next_id :: "(u32 \<times> u32) list \<Rightarrow> u32" where
  "next_id m = (if m = [] then 0 else fst (last m) + 1)"

definition CatalogMeta_new :: CatalogMeta where
  "CatalogMeta_new = \<lparr>table_meta_pages = [], index_meta_pages = []\<rparr>"

subsection \<open>Tables\<close>

record TableMetadata =
  tm_table_id :: u32
  tm_table_name :: "u8 list"
  tm_root_page_id :: u32
  tm_schema :: "Column list"

definition TABLE_METADATA_MAGIC_NUM :: u32 where "TABLE_METADATA_MAGIC_NUM = 344528"

definition TableMetadata_SerializeTo :: "TableMetadata \<Rightarrow> u8 list \<Rightarrow> (u8 list \<times> u32) option" where
  "TableMetadata_SerializeTo t buf = do {
     buf \<leftarrow> write_bytes buf 0 (le32 TABLE_METADATA_MAGIC_NUM);
     buf \<leftarrow> write_bytes buf 4 (le32 (tm_table_id t));
     let n = (of_nat (length (tm_table_name t)) :: u32);
     buf \<leftarrow> write_bytes buf 8 (le32 n);
     buf \<leftarrow> write_bytes buf 12 (tm_table_name t);
     let len = 12 + n;
     buf \<leftarrow> write_bytes buf (unat len) (le32 (tm_root_page_id t));
     let len = len + 4;
     (buf, _) \<leftarrow> Schema_SerializeTo (tm_schema t) buf (unat len);
     Some (buf, len + Schema_GetSerializedSize (tm_schema t)) }"

definition TableMetadata_GetSerializedSize :: "TableMetadata \<Rightarrow> u32" where
  "TableMetadata_GetSerializedSize t = of_nat (length (tm_table_name t)) + 3 * 4 + 4 + Schema_GetSerializedSize (tm_schema t)"

text \<open>The bytes of a name of \<open>n\<close> bytes, copied into an array of \<open>n + 1\<close>; the counter returned does not include the schema.\<close>

definition read_name :: "u8 list \<Rightarrow> nat \<Rightarrow> u32 \<Rightarrow> u8 list option" where
  "read_name buf i n = (if n + 1 = 0 \<or> length buf < i + unat n then None else Some (take (unat n) (drop i buf)))"

definition TableMetadata_DeserializeFrom :: "u8 list \<Rightarrow> (TableMetadata \<times> u32) option" where
  "TableMetadata_DeserializeFrom buf = do {
     magic \<leftarrow> read32 buf 0;
     if magic \<noteq> TABLE_METADATA_MAGIC_NUM then None else do {
     tableId \<leftarrow> read32 buf 4;
     n \<leftarrow> read32 buf 8;
     name \<leftarrow> read_name buf 12 n;
     let len = 12 + n;
     pageId \<leftarrow> read32 buf (unat len);
     let len = len + 4;
     (schema, _) \<leftarrow> Schema_DeserializeFrom buf (unat len);
     Some (\<lparr>tm_table_id = tableId, tm_table_name = name, tm_root_page_id = pageId, tm_schema = schema\<rparr>, len) }}"

subsection \<open>Indexes\<close>

record IndexMetadata =
  im_index_id :: u32
  im_index_name :: "u8 list"
  im_table_id :: u32
  im_key_map :: "u32 list"

definition INDEX_METADATA_MAGIC_NUM :: u32 where "INDEX_METADATA_MAGIC_NUM = 344528"

definition put_word :: "u32 \<Rightarrow> u8 list \<Rightarrow> nat \<Rightarrow> u32 \<Rightarrow> (u8 list \<times> u32) option" where
  "put_word w buf i len = do { buf \<leftarrow> write_bytes buf (i + unat len) (le32 w); Some (buf, len + 4) }"

definition get_word :: "nat \<Rightarrow> u8 list \<Rightarrow> nat \<Rightarrow> u32 \<Rightarrow> (u32 \<times> u32) option" where
  "get_word k buf i len = do { w \<leftarrow> read32 buf (i + unat len); Some (w, len + 4) }"

definition IndexMetadata_SerializeTo :: "IndexMetadata \<Rightarrow> u8 list \<Rightarrow> (u8 list \<times> u32) option" where
  "IndexMetadata_SerializeTo x buf = do {
     buf \<leftarrow> write_bytes buf 0 (le32 INDEX_METADATA_MAGIC_NUM);
     buf \<leftarrow> write_bytes buf 4 (le32 (im_index_id x));
     let n = (of_nat (length (im_index_name x)) :: u32);
     buf \<leftarrow> write_bytes buf 8 (le32 n);
     buf \<leftarrow> write_bytes buf 12 (im_index_name x);
     let len = 12 + n;
     buf \<leftarrow> write_bytes buf (unat len) (le32 (im_table_id x));
     let len = len + 4;
     let m = (of_nat (length (im_key_map x)) :: u32);
     buf \<leftarrow> write_bytes buf (unat len) (le32 m);
     put_all put_word (take (unat m) (im_key_map x)) buf 0 (len + 4) }"

definition IndexMetadata_GetSerializedSize :: "IndexMetadata \<Rightarrow> u32" where
  "IndexMetadata_GetSerializedSize x = (3 + of_nat (length (im_key_map x))) * 4 + 4 + 4 + of_nat (length (im_index_name x))"

definition IndexMetadata_DeserializeFrom :: "u8 list \<Rightarrow> (IndexMetadata \<times> u32) option" where
  "IndexMetadata_DeserializeFrom buf = do {
     magic \<leftarrow> read32 buf 0;
     if magic \<noteq> INDEX_METADATA_MAGIC_NUM then None else do {
     indexId \<leftarrow> read32 buf 4;
     n \<leftarrow> read32 buf 8;
     name \<leftarrow> read_name buf 12 n;
     let len = 12 + n;
     tableId \<leftarrow> read32 buf (unat len);
     let len = len + 4;
     m \<leftarrow> read32 buf (unat len);
     (km, len) \<leftarrow> get_all get_word [0..<unat m] buf 0 (len + 4);
     Some (\<lparr>im_index_id = indexId, im_index_name = name, im_table_id = tableId, im_key_map = km\<rparr>, len) }}"

section \<open>Images\<close>

lemma unat_add4: "unat len + 8 < 4294967296 \<Longrightarrow> unat (len + 4 :: u32) = unat len + 4"
  using unat_add32 [of len 4] by simp

interpretation cp: codec put_pair get_pair pair_bytes "\<lambda>e. True" "\<lambda>k e. True" "\<lambda>e. e"
proof
  fix x :: "u32 \<times> u32" and i :: nat and len :: u32 and as old bs :: "u8 list" and k :: nat
  assume a: "i + unat len = length as" "unat len + length (pair_bytes x) < 2 ^ 32"
  have u: "unat (len + 4) = unat len + 4" using a(2) by (intro unat_add4) (simp add: pair_bytes_def)
  show "put_pair x (as @ old @ bs) i len = Some (as @ pair_bytes x @ bs, len + of_nat (length (pair_bytes x)))" if "length old = length (pair_bytes x)"
    using a(1) that by (simp add: put_pair_def u write_bytes_seq write_segment_bind pair_bytes_def add.assoc)
  show "get_pair k (as @ pair_bytes x @ bs) i len = Some (x, len + of_nat (length (pair_bytes x)))"
    using a(1) by (simp add: get_pair_def u pair_bytes_def read32_skip read32_here add.assoc)
qed

interpretation cu: codec put_word get_word le32 "\<lambda>e. True" "\<lambda>k e. True" "\<lambda>e. e"
  by unfold_locales (simp_all add: put_word_def get_word_def write_segment_bind read32_skip read32_here)

definition catalog_image :: "CatalogMeta \<Rightarrow> u8 list" where
  "catalog_image m = le32 CATALOG_METADATA_MAGIC_NUM @ le32 (of_nat (length (table_meta_pages m))) @ cp.images (table_meta_pages m)
     @ le32 (of_nat (length (index_meta_pages m))) @ cp.images (index_meta_pages m)"

definition table_image :: "TableMetadata \<Rightarrow> u8 list" where
  "table_image t = le32 TABLE_METADATA_MAGIC_NUM @ le32 (tm_table_id t) @ le32 (of_nat (length (tm_table_name t))) @ tm_table_name t
     @ le32 (tm_root_page_id t) @ schema_image (tm_schema t)"

definition index_image :: "IndexMetadata \<Rightarrow> u8 list" where
  "index_image x = le32 INDEX_METADATA_MAGIC_NUM @ le32 (im_index_id x) @ le32 (of_nat (length (im_index_name x))) @ im_index_name x
     @ le32 (im_table_id x) @ le32 (of_nat (length (im_key_map x))) @ cu.images (im_key_map x)"

text \<open>Records that fit a page.\<close>

definition meta_ok :: "CatalogMeta \<Rightarrow> bool" where
  "meta_ok m \<longleftrightarrow> sorted_wrt (<) (map fst (table_meta_pages m)) \<and> sorted_wrt (<) (map fst (index_meta_pages m)) \<and> length (catalog_image m) \<le> 4096"

definition table_ok :: "TableMetadata \<Rightarrow> bool" where
  "table_ok t \<longleftrightarrow> schema_ok (tm_schema t) \<and> length (table_image t) \<le> 4096"

definition index_ok :: "IndexMetadata \<Rightarrow> bool" where
  "index_ok x \<longleftrightarrow> length (index_image x) \<le> 4096"

lemma pair_bytes_length [simp]: "length (pair_bytes e) = 8"
  by (simp add: pair_bytes_def)

lemma pair_images_length [simp]: "length (cp.images es) = 8 * length es"
  by (induction es) simp_all

lemma word_images_length [simp]: "length (cu.images ws) = 4 * length ws"
  by (induction ws) simp_all

lemma map_put_last: "\<forall>e\<in>set m. fst e < k \<Longrightarrow> map_put k v m = m @ [(k, v)]"
  by (induction m) auto

lemma pairs_map_id:
  assumes "sorted_wrt (<) (map fst es)" shows "pairs_map es = es"
  using assms
proof (induction es rule: rev_induct)
  case (snoc e es)
  then have "pairs_map es = es" "\<forall>x\<in>set es. fst x < fst e" by (auto simp: sorted_wrt_append)
  then show ?case using map_put_last [of es "fst e" "snd e"] by (simp add: pairs_map_def)
qed (simp add: pairs_map_def)

lemma unat_plus: "unat (a :: u32) = n \<Longrightarrow> n + m < 4294967296 \<Longrightarrow> unat (a + of_nat m) = n + m"
  using unat_add32 [of a m] by simp

lemma cut_front: "n \<le> length d \<Longrightarrow> \<exists>a b. d = a @ b \<and> length a = n \<and> b = drop n d"
  by (intro exI [of _ "take n d"] exI [of _ "drop n d"]) simp

lemma CatalogMeta_SerializeTo_image:
  assumes "meta_ok m" "length d = 4096"
  shows "CatalogMeta_SerializeTo m d = Some (catalog_image m @ drop (length (catalog_image m)) d)"
proof -
  let ?T = "table_meta_pages m" and ?I = "index_meta_pages m"
  let ?h = "le32 CATALOG_METADATA_MAGIC_NUM @ le32 (of_nat (length ?T)) :: u8 list" and ?s = "le32 (of_nat (length ?I)) :: u8 list"
  have n: "12 + 8 * length ?T + 8 * length ?I \<le> 4096" using assms(1) by (simp add: meta_ok_def catalog_image_def)
  obtain o1 r1 where r1: "d = o1 @ r1" "length o1 = 8" using cut_front [of 8 d] assms(2) by auto
  obtain o2 r2 where r2: "r1 = o2 @ r2" "length o2 = 8 * length ?T" using cut_front [of "8 * length ?T" r1] assms(2) n r1 by auto
  obtain o3 r3 where r3: "r2 = o3 @ r3" "length o3 = 4" using cut_front [of 4 r2] assms(2) n r1 r2 by auto
  obtain o4 r4 where r4: "r3 = o4 @ r4" "length o4 = 8 * length ?I" using cut_front [of "8 * length ?I" r3] assms(2) n r1 r2 r3 by auto
  have u: "unat (8 + of_nat (8 * length ?T) :: u32) = 8 + 8 * length ?T" using n by (intro unat_plus) simp_all
  have u4: "unat (8 + of_nat (8 * length ?T) + 4 :: u32) = 8 + 8 * length ?T + 4" using n u unat_add4 [of "8 + of_nat (8 * length ?T)"] by simp
  have p1: "put_all put_pair ?T (?h @ o2 @ r2) 0 8 = Some (?h @ cp.images ?T @ r2, 8 + of_nat (length (cp.images ?T)))"
    by (rule cp.put_all_images) (use r2 n in auto)
  have p2: "put_all put_pair ?I ((?h @ cp.images ?T @ ?s) @ o4 @ r4) 0 (8 + of_nat (8 * length ?T) + 4)
    = Some ((?h @ cp.images ?T @ ?s) @ cp.images ?I @ r4, 8 + of_nat (8 * length ?T) + 4 + of_nat (length (cp.images ?I)))"
    by (rule cp.put_all_images) (use r4 n u4 in auto)
  have w1: "Option.bind (write_bytes d 0 (le32 CATALOG_METADATA_MAGIC_NUM)) (\<lambda>b. Option.bind (write_bytes b 4 (le32 (of_nat (length ?T)))) f) = f (?h @ r1)" for f :: "u8 list \<Rightarrow> 'a option"
    using write_segment_bind [of 0 "[]" o1 ?h r1 f] r1 by (simp add: write_bytes_seq)
  have w2: "write_bytes (?h @ cp.images ?T @ o3 @ r3) (8 + 8 * length ?T) ?s = Some (?h @ cp.images ?T @ ?s @ r3)"
    using write_segment [of "8 + 8 * length ?T" "?h @ cp.images ?T" o3 ?s r3] r3 by simp
  have e: "drop (length (catalog_image m)) d = r4" using r1 r2 r3 r4 by (simp add: catalog_image_def)
  show ?thesis unfolding CatalogMeta_SerializeTo_def w1 e using p1 p2 w2 r2 r3 r4 u by (simp add: catalog_image_def)
qed

lemma CatalogMeta_DeserializeFrom_image:
  assumes "meta_ok m"
  shows "CatalogMeta_DeserializeFrom (catalog_image m @ bs) = Some m"
proof -
  let ?T = "table_meta_pages m" and ?I = "index_meta_pages m"
  let ?h = "le32 CATALOG_METADATA_MAGIC_NUM @ le32 (of_nat (length ?T)) :: u8 list" and ?s = "le32 (of_nat (length ?I)) :: u8 list"
  have n: "12 + 8 * length ?T + 8 * length ?I \<le> 4096" "sorted_wrt (<) (map fst ?T)" "sorted_wrt (<) (map fst ?I)"
    using assms by (simp_all add: meta_ok_def catalog_image_def)
  have u: "unat (8 + of_nat (8 * length ?T) :: u32) = 8 + 8 * length ?T" using n by (intro unat_plus) simp_all
  have u4: "unat (8 + of_nat (8 * length ?T) + 4 :: u32) = 8 + 8 * length ?T + 4" using n u unat_add4 [of "8 + of_nat (8 * length ?T)"] by simp
  have l: "unat (of_nat (length ?T) :: u32) = length ?T" "unat (of_nat (length ?I) :: u32) = length ?I" using n by (intro unat_small32; simp)+
  have g1: "get_all get_pair [0..<length ?T] (?h @ cp.images ?T @ (?s @ cp.images ?I @ bs)) 0 8 = Some (map (\<lambda>e. e) ?T, 8 + of_nat (length (cp.images ?T)))"
    by (rule cp.get_all_images) (use n in \<open>auto simp: list_all2_conv_all_nth\<close>)
  have g2: "get_all get_pair [0..<length ?I] ((?h @ cp.images ?T @ ?s) @ cp.images ?I @ bs) 0 (8 + of_nat (8 * length ?T) + 4)
    = Some (map (\<lambda>e. e) ?I, 8 + of_nat (8 * length ?T) + 4 + of_nat (length (cp.images ?I)))"
    by (rule cp.get_all_images) (use n u4 in \<open>auto simp: list_all2_conv_all_nth\<close>)
  have r: "read32 (catalog_image m @ bs) (8 + 8 * length ?T) = Some (of_nat (length ?I))"
    "read32 (catalog_image m @ bs) 0 = Some CATALOG_METADATA_MAGIC_NUM" "read32 (catalog_image m @ bs) 4 = Some (of_nat (length ?T))"
    by (simp_all add: catalog_image_def read32_skip read32_here)
  show ?thesis using g1 g2 r u l n(2,3) by (simp add: CatalogMeta_DeserializeFrom_def pairs_map_id catalog_image_def)
qed

lemma name_offsets:
  assumes "n + 20 < 4294967296" "w = (of_nat n :: u32)"
  shows "unat w = n" "unat (12 + w) = 12 + n" "unat (12 + w + 4) = 16 + n" "unat (12 + w + 4 + 4) = 20 + n" "w + 1 \<noteq> 0"
proof -
  have "unat (of_nat (n + k) :: u32) = n + k" if "k \<le> 20" for k using assms(1) that by (intro unat_small32) simp
  from this [of 0] this [of 12] this [of 16] this [of 20] this [of 1]
  show "unat w = n" "unat (12 + w) = 12 + n" "unat (12 + w + 4) = 16 + n" "unat (12 + w + 4 + 4) = 20 + n" "w + 1 \<noteq> 0"
    using assms(2) by (simp_all add: ac_simps) (metis Suc_neq_Zero of_nat_Suc unat_0)
qed

lemma TableMetadata_SerializeTo_image:
  assumes "table_ok t" "length d = 4096"
  shows "TableMetadata_SerializeTo t d = Some (table_image t @ drop (length (table_image t)) d, TableMetadata_GetSerializedSize t)"
proof -
  let ?n = "length (tm_table_name t)" and ?k = "length (schema_image (tm_schema t))"
  let ?h = "le32 TABLE_METADATA_MAGIC_NUM @ le32 (tm_table_id t) @ le32 (of_nat ?n) @ tm_table_name t @ le32 (tm_root_page_id t) :: u8 list"
  have s: "schema_ok (tm_schema t)" "16 + ?n + ?k \<le> 4096" using assms(1) by (simp_all add: table_ok_def table_image_def)
  note w = name_offsets [of ?n, OF _ refl]
  have n: "?n + 20 < 4294967296" using s(2) by simp
  obtain o1 r1 where r1: "d = o1 @ r1" "length o1 = 16 + ?n" using cut_front [of "16 + ?n" d] assms(2) s(2) by auto
  obtain o2 r2 where r2: "r1 = o2 @ r2" "length o2 = ?k" using cut_front [of ?k r1] assms(2) s(2) r1 by auto
  have h: "?h @ r1 = ?h @ o2 @ r2" using r2 by simp
  have p: "Schema_SerializeTo (tm_schema t) (?h @ o2 @ r2) (16 + ?n) = Some (?h @ schema_image (tm_schema t) @ r2, of_nat ?k)"
    by (rule Schema_SerializeTo_image) (use s r2 in simp_all)
  have b: "write_bytes d 0 ?h = Some (?h @ r1)" using write_segment [of 0 "[]" o1 ?h r1] r1 by simp
  have e: "drop (length (table_image t)) d = r2" using r1 r2 by (simp add: table_image_def)
  show ?thesis unfolding TableMetadata_SerializeTo_def Let_def w [OF n] e using b p r2
    by (simp add: write_bytes_seq table_image_def TableMetadata_GetSerializedSize_def add.commute add.left_commute)
qed

lemma TableMetadata_DeserializeFrom_image:
  assumes "table_ok t"
  shows "TableMetadata_DeserializeFrom (table_image t @ bs) = Some (t, 16 + of_nat (length (tm_table_name t)))"
proof -
  let ?n = "length (tm_table_name t)"
  let ?h = "le32 TABLE_METADATA_MAGIC_NUM @ le32 (tm_table_id t) @ le32 (of_nat ?n) @ tm_table_name t @ le32 (tm_root_page_id t) :: u8 list"
  have s: "schema_ok (tm_schema t)" "?n + 20 < 4294967296" using assms by (simp_all add: table_ok_def table_image_def)
  note w = name_offsets [of ?n, OF s(2) refl]
  have p: "Schema_DeserializeFrom (?h @ schema_image (tm_schema t) @ bs) (16 + ?n) = Some (tm_schema t, of_nat (length (schema_image (tm_schema t))))"
    by (rule Schema_DeserializeFrom_image [OF s(1)]) simp
  have b: "table_image t @ bs = ?h @ schema_image (tm_schema t) @ bs" by (simp add: table_image_def)
  have r: "read32 (table_image t @ bs) 0 = Some TABLE_METADATA_MAGIC_NUM" "read32 (table_image t @ bs) 4 = Some (tm_table_id t)"
    "read32 (table_image t @ bs) 8 = Some (of_nat ?n)" "read32 (table_image t @ bs) (12 + ?n) = Some (tm_root_page_id t)"
    by (simp_all add: table_image_def read32_skip read32_here)
  have m: "read_name (table_image t @ bs) 12 (of_nat ?n) = Some (tm_table_name t)" using w by (simp add: read_name_def table_image_def)
  show ?thesis using r m w p unfolding b by (cases t) (simp add: TableMetadata_DeserializeFrom_def Let_def add.commute)
qed

lemma IndexMetadata_SerializeTo_image:
  assumes "index_ok x" "length d = 4096"
  shows "IndexMetadata_SerializeTo x d = Some (index_image x @ drop (length (index_image x)) d, IndexMetadata_GetSerializedSize x)"
proof -
  let ?n = "length (im_index_name x)" and ?k = "length (im_key_map x)"
  let ?h = "le32 INDEX_METADATA_MAGIC_NUM @ le32 (im_index_id x) @ le32 (of_nat ?n) @ im_index_name x @ le32 (im_table_id x) @ le32 (of_nat ?k) :: u8 list"
  have s: "20 + ?n + 4 * ?k \<le> 4096" using assms(1) by (simp add: index_ok_def index_image_def)
  have n: "?n + 20 < 4294967296" "unat (of_nat ?k :: u32) = ?k" using s by (simp, intro unat_small32) simp
  note w = name_offsets [of ?n, OF n(1) refl]
  obtain o1 r1 where r1: "d = o1 @ r1" "length o1 = 20 + ?n" using cut_front [of "20 + ?n" d] assms(2) s by auto
  obtain o2 r2 where r2: "r1 = o2 @ r2" "length o2 = 4 * ?k" using cut_front [of "4 * ?k" r1] assms(2) s r1 by auto
  have p: "put_all put_word (im_key_map x) (?h @ o2 @ r2) 0 (12 + of_nat ?n + 4 + 4)
    = Some (?h @ cu.images (im_key_map x) @ r2, 12 + of_nat ?n + 4 + 4 + of_nat (length (cu.images (im_key_map x))))"
    by (rule cu.put_all_images) (use s r2 w in auto)
  have b: "write_bytes d 0 ?h = Some (?h @ r1)" using write_segment [of 0 "[]" o1 ?h r1] r1 by simp
  have e: "drop (length (index_image x)) d = r2" using r1 r2 by (simp add: index_image_def)
  show ?thesis unfolding IndexMetadata_SerializeTo_def Let_def w(1-4) n(2) e using b p r2
    by (simp add: write_bytes_seq index_image_def IndexMetadata_GetSerializedSize_def add.commute add.left_commute mult.commute)
qed

lemma IndexMetadata_DeserializeFrom_image:
  assumes "index_ok x"
  shows "IndexMetadata_DeserializeFrom (index_image x @ bs) = Some (x, IndexMetadata_GetSerializedSize x)"
proof -
  let ?n = "length (im_index_name x)" and ?k = "length (im_key_map x)"
  let ?h = "le32 INDEX_METADATA_MAGIC_NUM @ le32 (im_index_id x) @ le32 (of_nat ?n) @ im_index_name x @ le32 (im_table_id x) @ le32 (of_nat ?k) :: u8 list"
  have s: "20 + ?n + 4 * ?k \<le> 4096" using assms(1) by (simp add: index_ok_def index_image_def)
  have n: "?n + 20 < 4294967296" "unat (of_nat ?k :: u32) = ?k" using s by (simp, intro unat_small32) simp
  note w = name_offsets [of ?n, OF n(1) refl]
  have p: "get_all get_word [0..<?k] (?h @ cu.images (im_key_map x) @ bs) 0 (12 + of_nat ?n + 4 + 4)
    = Some (map (\<lambda>e. e) (im_key_map x), 12 + of_nat ?n + 4 + 4 + of_nat (length (cu.images (im_key_map x))))"
    by (rule cu.get_all_images) (use s w in \<open>auto simp: list_all2_conv_all_nth\<close>)
  have b: "index_image x @ bs = ?h @ cu.images (im_key_map x) @ bs" by (simp add: index_image_def)
  have r: "read32 (index_image x @ bs) 0 = Some INDEX_METADATA_MAGIC_NUM" "read32 (index_image x @ bs) 4 = Some (im_index_id x)"
    "read32 (index_image x @ bs) 8 = Some (of_nat ?n)" "read32 (index_image x @ bs) (12 + ?n) = Some (im_table_id x)"
    "read32 (index_image x @ bs) (16 + ?n) = Some (of_nat ?k)"
    by (simp_all add: index_image_def read32_skip read32_here)
  have m: "read_name (index_image x @ bs) 12 (of_nat ?n) = Some (im_index_name x)" using w by (simp add: read_name_def index_image_def)
  show ?thesis using r m w n(2) p unfolding b
    by (cases x) (simp add: IndexMetadata_DeserializeFrom_def IndexMetadata_GetSerializedSize_def Let_def add.commute add.left_commute)
qed

section \<open>Properties\<close>

lemma announced_sizes:
  assumes "meta_ok m" "table_ok t" "index_ok x"
  shows "unat (CatalogMeta_GetSerializedSize m) = length (catalog_image m)" "unat (TableMetadata_GetSerializedSize t) = length (table_image t)"
    "unat (IndexMetadata_GetSerializedSize x) = length (index_image x)"
proof -
  have "CatalogMeta_GetSerializedSize m = of_nat (length (catalog_image m))"
    by (simp add: CatalogMeta_GetSerializedSize_def catalog_image_def algebra_simps)
  then show "unat (CatalogMeta_GetSerializedSize m) = length (catalog_image m)" using assms(1) unat_small32 [of "length (catalog_image m)"] by (simp add: meta_ok_def)
  have "TableMetadata_GetSerializedSize t = of_nat (length (table_image t))"
    by (simp add: TableMetadata_GetSerializedSize_def table_image_def Schema_GetSerializedSize_image algebra_simps)
  then show "unat (TableMetadata_GetSerializedSize t) = length (table_image t)" using assms(2) unat_small32 [of "length (table_image t)"] by (simp add: table_ok_def)
  have "IndexMetadata_GetSerializedSize x = of_nat (length (index_image x))"
    by (simp add: IndexMetadata_GetSerializedSize_def index_image_def algebra_simps)
  then show "unat (IndexMetadata_GetSerializedSize x) = length (index_image x)" using assms(3) unat_small32 [of "length (index_image x)"] by (simp add: index_ok_def)
qed

text \<open>
  C40: the catalog survives its pages. A catalog record, a table record and an index record that fit a page are written to the front of any page
  as their images, which have exactly the number of bytes that \<open>GetSerializedSize\<close> announces; the bytes behind stay as they are. \<open>SerializeTo\<close> of
  the two latter returns that number, and reading a page that starts with the image gives the same record. The count that
  \<open>TableMetadata::DeserializeFrom\<close> returns leaves out the bytes of the schema.
\<close>

theorem catalog_records_roundtrip:
  assumes "meta_ok m" "table_ok t" "index_ok x" "length d = 4096"
  shows "unat (CatalogMeta_GetSerializedSize m) = length (catalog_image m)
    \<and> CatalogMeta_SerializeTo m d = Some (catalog_image m @ drop (length (catalog_image m)) d)
    \<and> (\<forall>rest. CatalogMeta_DeserializeFrom (catalog_image m @ rest) = Some m)
    \<and> unat (TableMetadata_GetSerializedSize t) = length (table_image t)
    \<and> TableMetadata_SerializeTo t d = Some (table_image t @ drop (length (table_image t)) d, TableMetadata_GetSerializedSize t)
    \<and> (\<forall>rest. TableMetadata_DeserializeFrom (table_image t @ rest) = Some (t, of_nat (length (table_image t) - length (schema_image (tm_schema t)))))
    \<and> unat (IndexMetadata_GetSerializedSize x) = length (index_image x)
    \<and> IndexMetadata_SerializeTo x d = Some (index_image x @ drop (length (index_image x)) d, IndexMetadata_GetSerializedSize x)
    \<and> (\<forall>rest. IndexMetadata_DeserializeFrom (index_image x @ rest) = Some (x, IndexMetadata_GetSerializedSize x))"
  using announced_sizes [OF assms(1-3)] CatalogMeta_SerializeTo_image [OF assms(1,4)] CatalogMeta_DeserializeFrom_image [OF assms(1)]
    TableMetadata_SerializeTo_image [OF assms(2,4)] TableMetadata_DeserializeFrom_image [OF assms(2)]
    IndexMetadata_SerializeTo_image [OF assms(3,4)] IndexMetadata_DeserializeFrom_image [OF assms(3)]
  by (simp add: table_image_def)

definition sample_meta :: CatalogMeta where
  "sample_meta = \<lparr>table_meta_pages = [(0, 2), (3, 4)], index_meta_pages = [(1, 6)]\<rparr>"

definition sample_table :: TableMetadata where
  "sample_table = \<lparr>tm_table_id = 3, tm_table_name = [116, 49], tm_root_page_id = 5,
     tm_schema = [\<lparr>col_name = [105, 100], col_type = kTypeInt, col_len = 4, table_ind = 0, nullable = False, unique = True\<rparr>]\<rparr>"

definition sample_indexed :: IndexMetadata where
  "sample_indexed = \<lparr>im_index_id = 1, im_index_name = [105], im_table_id = 3, im_key_map = [0]\<rparr>"

lemma sample_records: "meta_ok sample_meta" "table_ok sample_table" "index_ok sample_indexed"
  by (simp_all add: meta_ok_def table_ok_def index_ok_def sample_meta_def sample_table_def sample_indexed_def catalog_image_def table_image_def
      index_image_def schema_ok_def schema_image_def column_ok_def)

theorem catalog_records_roundtrip_witness:
  "CatalogMeta_SerializeTo sample_meta (replicate 4096 0) = Some (catalog_image sample_meta @ replicate 4060 0) \<and> CatalogMeta_GetSerializedSize sample_meta = 36
    \<and> CatalogMeta_DeserializeFrom (catalog_image sample_meta @ replicate 4060 0) = Some sample_meta
    \<and> TableMetadata_SerializeTo sample_table (replicate 4096 0) = Some (table_image sample_table @ replicate 4046 0, 50)
    \<and> TableMetadata_DeserializeFrom (table_image sample_table @ replicate 4046 0) = Some (sample_table, 18)
    \<and> IndexMetadata_SerializeTo sample_indexed (replicate 4096 0) = Some (index_image sample_indexed @ replicate 4071 0, 25)
    \<and> IndexMetadata_DeserializeFrom (index_image sample_indexed @ replicate 4071 0) = Some (sample_indexed, 25)"
proof -
  have l: "length (replicate 4096 (0 :: u8)) = 4096" by simp
  have s: "CatalogMeta_GetSerializedSize sample_meta = 36" "TableMetadata_GetSerializedSize sample_table = 50" "IndexMetadata_GetSerializedSize sample_indexed = 25"
    "length (schema_image (tm_schema sample_table)) = 32"
    by (simp_all add: CatalogMeta_GetSerializedSize_def sample_meta_def TableMetadata_GetSerializedSize_def sample_table_def Schema_GetSerializedSize_def
        Column_GetSerializedSize_def IndexMetadata_GetSerializedSize_def sample_indexed_def schema_image_def)
  show ?thesis using catalog_records_roundtrip [OF sample_records l] unfolding s by (simp flip: replicate_add)
qed

end
