(* ===== verification/Catalog.thy ===== *)
theory Catalog
  imports Catalog_Meta Table_Heap BPlus_Tree
begin

text \<open>
  The catalog manager of \<open>MiniSQL/src/catalog/catalog.cpp\<close>: the tables and indexes of a database with their names, kept in memory and on pages of the
  buffer pool. A hash map is an association list without regard to its order; an insertion keeps an entry that is there already.
  \<open>None\<close> stands for an assertion, an exception that is not caught, or the use of a null pointer. The objects a table or an index
  refers to are values; the schema a table is created with is copied by the code.
\<close>

section \<open>Model\<close>

definition hash_put :: "'k \<Rightarrow> 'v \<Rightarrow> ('k \<times> 'v) list \<Rightarrow> ('k \<times> 'v) list" where
  "hash_put k v m = (case map_of m k of Some _ \<Rightarrow> m | None \<Rightarrow> (k, v) # m)"

definition hash_erase :: "'k \<Rightarrow> ('k \<times> 'v) list \<Rightarrow> ('k \<times> 'v) list" where
  "hash_erase k m = filter (\<lambda>e. fst e \<noteq> k) m"

definition hash_change :: "'k \<Rightarrow> ('v \<Rightarrow> 'v) \<Rightarrow> ('k \<times> 'v) list \<Rightarrow> ('k \<times> 'v) list" where
  "hash_change k f m = map (\<lambda>e. if fst e = k then (k, f (snd e)) else e) m"

record TableInfo =
  ti_meta :: TableMetadata
  ti_heap :: TableHeap

record IndexInfo =
  ii_meta :: IndexMetadata
  ii_table :: TableMetadata
  ii_key_schema :: "Column list"
  ii_tree :: BPlusTree

record CatalogManager =
  catalog_meta :: CatalogMeta
  table_names :: "(u8 list \<times> u32) list"
  tables :: "(u32 \<times> TableInfo) list"
  index_names :: "(u8 list \<times> (u8 list \<times> u32) list) list"
  indexes :: "(u32 \<times> IndexInfo) list"

definition CATALOG_META_PAGE_ID :: int where "CATALOG_META_PAGE_ID = 0"

definition FlushCatalogMetaPage :: "CatalogManager \<Rightarrow> BufferPoolManager \<Rightarrow> BufferPoolManager option" where
  "FlushCatalogMetaPage cat bp = do {
     (q, bp) \<leftarrow> FetchPage CATALOG_META_PAGE_ID bp;
     f \<leftarrow> q;
     pg \<leftarrow> page_at f bp;
     d \<leftarrow> CatalogMeta_SerializeTo (catalog_meta cat) (data pg);
     bp \<leftarrow> write_frame f d bp;
     (_, bp) \<leftarrow> UnpinPage CATALOG_META_PAGE_ID True bp;
     Some bp }"

subsection \<open>Tables\<close>

definition CreateTable :: "u8 list \<Rightarrow> Column list \<Rightarrow> CatalogManager \<Rightarrow> BufferPoolManager
    \<Rightarrow> (dberr_t \<times> TableInfo option \<times> CatalogManager \<times> BufferPoolManager) option" where
  "CreateTable table_name schema cat bp = (if map_of (table_names cat) table_name \<noteq> None then Some (DB_TABLE_ALREADY_EXIST, None, cat, bp) else do {
     let tableId = next_id (table_meta_pages (catalog_meta cat));
     (table_heap, bp) \<leftarrow> TableHeap_new bp;
     let table_meta = \<lparr>tm_table_id = tableId, tm_table_name = table_name, tm_root_page_id = id_word (first_page_id table_heap), tm_schema = schema\<rparr>;
     let table_info = \<lparr>ti_meta = table_meta, ti_heap = table_heap\<rparr>;
     (q, bp) \<leftarrow> NewPage bp;
     (pageId, f) \<leftarrow> q;
     pg \<leftarrow> page_at f bp;
     (d, _) \<leftarrow> TableMetadata_SerializeTo table_meta (data pg);
     bp \<leftarrow> write_frame f d bp;
     (_, bp) \<leftarrow> UnpinPage pageId True bp;
     let meta = (catalog_meta cat)\<lparr>table_meta_pages := map_put tableId (id_word pageId) (table_meta_pages (catalog_meta cat))\<rparr>;
     let cat = cat\<lparr>catalog_meta := meta, table_names := hash_put table_name tableId (table_names cat), tables := hash_put tableId table_info (tables cat)\<rparr>;
     bp \<leftarrow> FlushCatalogMetaPage cat bp;
     Some (DB_SUCCESS, Some table_info, cat, bp) })"

text \<open>The pointer to the table is null when the id is not known; the two maps change together, so that this does not occur.\<close>

definition GetTable :: "u8 list \<Rightarrow> CatalogManager \<Rightarrow> dberr_t \<times> TableInfo option" where
  "GetTable table_name cat = (case map_of (table_names cat) table_name of
     None \<Rightarrow> (DB_TABLE_NOT_EXIST, None) | Some tableId \<Rightarrow> (DB_SUCCESS, map_of (tables cat) tableId))"

definition GetTables :: "CatalogManager \<Rightarrow> TableInfo list option" where
  "GetTables cat = those (map (\<lambda>e. map_of (tables cat) (snd e)) (table_names cat))"

definition DropTable :: "u8 list \<Rightarrow> CatalogManager \<Rightarrow> BufferPoolManager \<Rightarrow> (dberr_t \<times> CatalogManager \<times> BufferPoolManager) option" where
  "DropTable table_name cat bp = (case map_of (table_names cat) table_name of None \<Rightarrow> Some (DB_TABLE_NOT_EXIST, cat, bp)
   | Some tableId \<Rightarrow> do {
       let pageId = (case map_of (table_meta_pages (catalog_meta cat)) tableId of Some p \<Rightarrow> p | None \<Rightarrow> 0);
       (_, bp) \<leftarrow> DeletePage (sint pageId) bp;
       let meta = (catalog_meta cat)\<lparr>table_meta_pages := map_erase tableId (table_meta_pages (catalog_meta cat))\<rparr>;
       let cat = cat\<lparr>catalog_meta := meta, table_names := hash_erase table_name (table_names cat), tables := hash_erase tableId (tables cat)\<rparr>;
       bp \<leftarrow> FlushCatalogMetaPage cat bp;
       Some (DB_SUCCESS, cat, bp) })"

subsection \<open>Indexes\<close>

fun key_map_of :: "Column list \<Rightarrow> u8 list list \<Rightarrow> u32 list option" where
  "key_map_of columns [] = Some []"
| "key_map_of columns (s # ss) = do { i \<leftarrow> GetColumnIndex columns s; km \<leftarrow> key_map_of columns ss; Some (i # km) }"

definition IndexInfo_Init :: "IndexMetadata \<Rightarrow> TableMetadata \<Rightarrow> BufferPoolManager \<Rightarrow> (IndexInfo \<times> BufferPoolManager) option" where
  "IndexInfo_Init index_meta table_meta bp = do {
     key_schema \<leftarrow> ShallowCopySchema (tm_schema table_meta) (im_key_map index_meta);
     (tree, bp) \<leftarrow> BPlusTree_new (im_index_id index_meta) bp;
     Some (\<lparr>ii_meta = index_meta, ii_table = table_meta, ii_key_schema = key_schema, ii_tree = tree\<rparr>, bp) }"

definition add_index_name :: "u8 list \<Rightarrow> u8 list \<Rightarrow> u32 \<Rightarrow> (u8 list \<times> (u8 list \<times> u32) list) list \<Rightarrow> (u8 list \<times> (u8 list \<times> u32) list) list" where
  "add_index_name table_name index_name indexId m = (case map_of m table_name of
     None \<Rightarrow> hash_put table_name [(index_name, indexId)] m
   | Some _ \<Rightarrow> hash_change table_name (hash_put index_name indexId) m)"

definition CreateIndex :: "u8 list \<Rightarrow> u8 list \<Rightarrow> u8 list list \<Rightarrow> CatalogManager \<Rightarrow> BufferPoolManager
    \<Rightarrow> (dberr_t \<times> IndexInfo option \<times> CatalogManager \<times> BufferPoolManager) option" where
  "CreateIndex table_name index_name keys cat bp = (case map_of (table_names cat) table_name of
     None \<Rightarrow> Some (DB_TABLE_NOT_EXIST, None, cat, bp)
   | Some tableId \<Rightarrow>
     if (case map_of (index_names cat) table_name of Some m \<Rightarrow> map_of m index_name \<noteq> None | None \<Rightarrow> False)
     then Some (DB_INDEX_ALREADY_EXIST, None, cat, bp)
     else do {
       tableInfo \<leftarrow> map_of (tables cat) tableId;
       case key_map_of (tm_schema (ti_meta tableInfo)) keys of
         None \<Rightarrow> Some (DB_COLUMN_NAME_NOT_EXIST, None, cat, bp)
       | Some key_map \<Rightarrow> do {
           let indexId = next_id (index_meta_pages (catalog_meta cat));
           let index_meta = \<lparr>im_index_id = indexId, im_index_name = index_name, im_table_id = tableId, im_key_map = key_map\<rparr>;
           (index_info, bp) \<leftarrow> IndexInfo_Init index_meta (ti_meta tableInfo) bp;
           (q, bp) \<leftarrow> NewPage bp;
           (pageId, f) \<leftarrow> q;
           pg \<leftarrow> page_at f bp;
           (d, _) \<leftarrow> IndexMetadata_SerializeTo index_meta (data pg);
           bp \<leftarrow> write_frame f d bp;
           (_, bp) \<leftarrow> UnpinPage pageId True bp;
           let meta = (catalog_meta cat)\<lparr>index_meta_pages := map_put indexId (id_word pageId) (index_meta_pages (catalog_meta cat))\<rparr>;
           let cat = cat\<lparr>catalog_meta := meta, index_names := add_index_name table_name index_name indexId (index_names cat),
             indexes := hash_put indexId index_info (indexes cat)\<rparr>;
           bp \<leftarrow> FlushCatalogMetaPage cat bp;
           Some (DB_SUCCESS, Some index_info, cat, bp) }})"

definition GetIndex :: "u8 list \<Rightarrow> u8 list \<Rightarrow> CatalogManager \<Rightarrow> (dberr_t \<times> IndexInfo option) option" where
  "GetIndex table_name index_name cat = (case map_of (index_names cat) table_name of None \<Rightarrow> Some (DB_TABLE_NOT_EXIST, None)
   | Some m \<Rightarrow> (case map_of m index_name of None \<Rightarrow> Some (DB_INDEX_NOT_FOUND, None)
     | Some indexId \<Rightarrow> do { index_info \<leftarrow> map_of (indexes cat) indexId; Some (DB_SUCCESS, Some index_info) }))"

definition GetTableIndexes :: "u8 list \<Rightarrow> CatalogManager \<Rightarrow> (dberr_t \<times> IndexInfo list) option" where
  "GetTableIndexes table_name cat = (case map_of (index_names cat) table_name of None \<Rightarrow> Some (DB_TABLE_NOT_EXIST, [])
   | Some m \<Rightarrow> do { is \<leftarrow> those (map (\<lambda>e. map_of (indexes cat) (snd e)) m); Some (DB_SUCCESS, is) })"

text \<open>All index names of the table are erased.\<close>

definition DropIndex :: "u8 list \<Rightarrow> u8 list \<Rightarrow> CatalogManager \<Rightarrow> BufferPoolManager \<Rightarrow> (dberr_t \<times> CatalogManager \<times> BufferPoolManager) option" where
  "DropIndex table_name index_name cat bp = (case map_of (index_names cat) table_name of None \<Rightarrow> Some (DB_TABLE_NOT_EXIST, cat, bp)
   | Some m \<Rightarrow> (case map_of m index_name of None \<Rightarrow> Some (DB_INDEX_NOT_FOUND, cat, bp)
     | Some indexId \<Rightarrow> do {
         _ \<leftarrow> map_of (indexes cat) indexId;
         let pageId = (case map_of (index_meta_pages (catalog_meta cat)) indexId of Some p \<Rightarrow> p | None \<Rightarrow> 0);
         (_, bp) \<leftarrow> DeletePage (sint pageId) bp;
         let meta = (catalog_meta cat)\<lparr>index_meta_pages := map_erase indexId (index_meta_pages (catalog_meta cat))\<rparr>;
         let cat = cat\<lparr>catalog_meta := meta, index_names := hash_erase table_name (index_names cat), indexes := hash_erase indexId (indexes cat)\<rparr>;
         bp \<leftarrow> FlushCatalogMetaPage cat bp;
         Some (DB_SUCCESS, cat, bp) }))"

subsection \<open>Opening a database\<close>

definition LoadTable :: "u32 \<Rightarrow> u32 \<Rightarrow> CatalogManager \<Rightarrow> BufferPoolManager \<Rightarrow> (CatalogManager \<times> BufferPoolManager) option" where
  "LoadTable tableId pageId cat bp = do {
     (q, bp) \<leftarrow> FetchPage (sint pageId) bp;
     f \<leftarrow> q;
     pg \<leftarrow> page_at f bp;
     (table_meta, _) \<leftarrow> TableMetadata_DeserializeFrom (data pg);
     let table_info = \<lparr>ti_meta = table_meta, ti_heap = TableHeap_load (sint (tm_root_page_id table_meta))\<rparr>;
     (_, bp) \<leftarrow> UnpinPage (page_id pg) False bp;
     Some (cat\<lparr>table_names := hash_put (tm_table_name table_meta) tableId (table_names cat), tables := hash_put tableId table_info (tables cat)\<rparr>, bp) }"

text \<open>A table that is not there is a null pointer, which \<open>Init\<close> uses.\<close>

definition LoadIndex :: "u32 \<Rightarrow> u32 \<Rightarrow> CatalogManager \<Rightarrow> BufferPoolManager \<Rightarrow> (CatalogManager \<times> BufferPoolManager) option" where
  "LoadIndex indexId pageId cat bp = do {
     (q, bp) \<leftarrow> FetchPage (sint pageId) bp;
     f \<leftarrow> q;
     pg \<leftarrow> page_at f bp;
     (index_meta, _) \<leftarrow> IndexMetadata_DeserializeFrom (data pg);
     table_info \<leftarrow> map_of (tables cat) (im_table_id index_meta);
     (index_info, bp) \<leftarrow> IndexInfo_Init index_meta (ti_meta table_info) bp;
     (_, bp) \<leftarrow> UnpinPage (sint pageId) False bp;
     Some (cat\<lparr>index_names := add_index_name (tm_table_name (ti_meta table_info)) (im_index_name index_meta) indexId (index_names cat),
       indexes := hash_put indexId index_info (indexes cat)\<rparr>, bp) }"

fun load_all :: "(u32 \<Rightarrow> u32 \<Rightarrow> CatalogManager \<Rightarrow> BufferPoolManager \<Rightarrow> (CatalogManager \<times> BufferPoolManager) option) \<Rightarrow> (u32 \<times> u32) list
    \<Rightarrow> CatalogManager \<Rightarrow> BufferPoolManager \<Rightarrow> (CatalogManager \<times> BufferPoolManager) option" where
  "load_all load [] cat bp = Some (cat, bp)"
| "load_all load (e # es) cat bp = do { (cat, bp) \<leftarrow> load (fst e) (snd e) cat bp; load_all load es cat bp }"

definition CatalogManager_new :: "bool \<Rightarrow> BufferPoolManager \<Rightarrow> (CatalogManager \<times> BufferPoolManager) option" where
  "CatalogManager_new init bp = (if init then do {
     let cat = \<lparr>catalog_meta = CatalogMeta_new, table_names = [], tables = [], index_names = [], indexes = []\<rparr>;
     bp \<leftarrow> FlushCatalogMetaPage cat bp;
     Some (cat, bp) }
   else do {
     (q, bp) \<leftarrow> FetchPage CATALOG_META_PAGE_ID bp;
     f \<leftarrow> q;
     pg \<leftarrow> page_at f bp;
     meta \<leftarrow> CatalogMeta_DeserializeFrom (data pg);
     (_, bp) \<leftarrow> UnpinPage (page_id pg) False bp;
     let cat = \<lparr>catalog_meta = meta, table_names = [], tables = [], index_names = [], indexes = []\<rparr>;
     (cat, bp) \<leftarrow> load_all LoadTable (table_meta_pages meta) cat bp;
     load_all LoadIndex (index_meta_pages meta) cat bp })"

section \<open>Hash maps\<close>

lemma map_of_hash_put: "map_of (hash_put k v m) n = (case map_of m n of Some x \<Rightarrow> Some x | None \<Rightarrow> if n = k then Some v else None)"
  by (auto simp: hash_put_def split: option.splits)

lemma map_of_hash_puts:
  "map_of (foldl (\<lambda>m e. hash_put (k e) (v e) m) m es) n = (case map_of m n of Some x \<Rightarrow> Some x | None \<Rightarrow> map_of (map (\<lambda>e. (k e, v e)) es) n)"
  by (induction es arbitrary: m) (auto simp: map_of_hash_put split: option.splits)

lemma map_of_hash_change: "map_of (hash_change k f m) n = (if n = k then map_option f (map_of m k) else map_of m n)"
  by (induction m) (auto simp: hash_change_def)

definition index_lookup :: "(u8 list \<times> (u8 list \<times> u32) list) list \<Rightarrow> u8 list \<Rightarrow> u8 list \<Rightarrow> u32 option" where
  "index_lookup m a b = (case map_of m a of None \<Rightarrow> None | Some m' \<Rightarrow> map_of m' b)"

lemma index_lookup_add:
  "index_lookup (add_index_name t x i m) a b = (case index_lookup m a b of Some y \<Rightarrow> Some y | None \<Rightarrow> if (a, b) = (t, x) then Some i else None)"
  by (auto simp: index_lookup_def add_index_name_def map_of_hash_put map_of_hash_change split: option.splits)

lemma index_lookup_adds:
  "index_lookup (foldl (\<lambda>m e. add_index_name (k e) (x e) (v e) m) m es) a b
    = (case index_lookup m a b of Some y \<Rightarrow> Some y | None \<Rightarrow> map_of (map (\<lambda>e. ((k e, x e), v e)) es) (a, b))"
  by (induction es arbitrary: m) (auto simp: index_lookup_add split: option.splits)

section \<open>The catalog on its pages\<close>

text \<open>Entries are an id, a page and the record on that page.\<close>

type_synonym table_entry = "u32 \<times> u32 \<times> TableMetadata"
type_synonym index_entry = "u32 \<times> u32 \<times> IndexMetadata"

abbreviation (input) entry_page :: "u32 \<times> u32 \<times> 'a \<Rightarrow> int" where "entry_page e \<equiv> sint (fst (snd e))"

definition pages_meta :: "table_entry list \<Rightarrow> index_entry list \<Rightarrow> CatalogMeta" where
  "pages_meta ts xs = \<lparr>table_meta_pages = map (\<lambda>e. (fst e, fst (snd e))) ts, index_meta_pages = map (\<lambda>e. (fst e, fst (snd e))) xs\<rparr>"

definition catalog_pages :: "int set \<Rightarrow> (int \<Rightarrow> page) \<Rightarrow> table_entry list \<Rightarrow> index_entry list \<Rightarrow> bool" where
  "catalog_pages A M ts xs \<longleftrightarrow> 0 \<in> A \<and> meta_ok (pages_meta ts xs) \<and> CatalogMeta_DeserializeFrom (M 0) = Some (pages_meta ts xs)
     \<and> (\<forall>e\<in>set ts. entry_page e \<in> A - {0} \<and> (\<exists>n. TableMetadata_DeserializeFrom (M (entry_page e)) = Some (snd (snd e), n)))
     \<and> (\<forall>e\<in>set xs. entry_page e \<in> A - {0} \<and> (\<exists>n. IndexMetadata_DeserializeFrom (M (entry_page e)) = Some (snd (snd e), n)))"

definition table_of :: "table_entry list \<Rightarrow> u32 \<Rightarrow> TableMetadata option" where
  "table_of ts i = map_of (map (\<lambda>e. (fst e, snd (snd e))) ts) i"

text \<open>Every index belongs to a table of the catalog and to columns of it.\<close>

definition index_refs :: "table_entry list \<Rightarrow> index_entry list \<Rightarrow> bool" where
  "index_refs ts xs \<longleftrightarrow> (\<forall>e\<in>set xs. entry_page e \<noteq> 1 \<and> (\<exists>t. table_of ts (im_table_id (snd (snd e))) = Some t
     \<and> ShallowCopySchema (tm_schema t) (im_key_map (snd (snd e))) \<noteq> None))"

text \<open>What the maps in memory answer.\<close>

definition tables_view :: "CatalogManager \<Rightarrow> table_entry list \<Rightarrow> bool" where
  "tables_view cat ts \<longleftrightarrow> (\<forall>n. map_of (table_names cat) n = map_of (map (\<lambda>e. (tm_table_name (snd (snd e)), fst e)) ts) n)
     \<and> (\<forall>i. map_option ti_meta (map_of (tables cat) i) = table_of ts i)
     \<and> (\<forall>i info. map_of (tables cat) i = Some info \<longrightarrow> first_page_id (ti_heap info) = sint (tm_root_page_id (ti_meta info)))"

definition indexes_view :: "CatalogManager \<Rightarrow> table_entry list \<Rightarrow> index_entry list \<Rightarrow> bool" where
  "indexes_view cat ts xs \<longleftrightarrow> (\<forall>a b. index_lookup (index_names cat) a b
       = map_of (map (\<lambda>e. ((tm_table_name (the (table_of ts (im_table_id (snd (snd e))))), im_index_name (snd (snd e))), fst e)) xs) (a, b))
     \<and> (\<forall>i. map_option ii_meta (map_of (indexes cat) i) = map_of (map (\<lambda>e. (fst e, snd (snd e))) xs) i)"

definition catalog_view :: "CatalogManager \<Rightarrow> table_entry list \<Rightarrow> index_entry list \<Rightarrow> bool" where
  "catalog_view cat ts xs \<longleftrightarrow> catalog_meta cat = pages_meta ts xs \<and> tables_view cat ts \<and> indexes_view cat ts xs"

section \<open>Loading\<close>

lemma fetch_read_page:
  assumes "pool_at bp A M {} pins" "p \<in> A" "finite D" "dom pins \<subseteq> D" "card D < pool_size bp"
  shows "\<exists>f bp1. FetchPage p bp = Some (Some f, bp1) \<and> pool_at bp1 A M {} (pins(p := Some f)) \<and> pool_size bp1 = pool_size bp
    \<and> (\<exists>pg. page_at f bp1 = Some pg \<and> data pg = M p \<and> page_id pg = p \<and> length (M p) = 4096)"
proof -
  have c: "finite (dom pins)" "card (dom pins) < pool_size bp" using assms(3-5) finite_subset card_mono [of D "dom pins"] by auto
  obtain f bp1 where f: "FetchPage p bp = Some (Some f, bp1)" "pool_at bp1 A M {} (pins(p := Some f))" "pool_size bp1 = pool_size bp"
    using pool_fetch [OF assms(1,2) c(1)] c(2) by blast
  then show ?thesis using pinned_page(1-3,6) [OF f(2), of p f] by auto
qed

definition table_info_of :: "TableMetadata \<Rightarrow> TableInfo" where
  "table_info_of t = \<lparr>ti_meta = t, ti_heap = TableHeap_load (sint (tm_root_page_id t))\<rparr>"

lemma LoadTable_at:
  assumes "pool_at bp A M {} pins" "sint p \<in> A" "TableMetadata_DeserializeFrom (M (sint p)) = Some (t, n)" "finite D" "dom pins \<subseteq> D" "card D < pool_size bp"
  shows "\<exists>bp' pins'. LoadTable i p cat bp = Some (cat\<lparr>table_names := hash_put (tm_table_name t) i (table_names cat),
        tables := hash_put i (table_info_of t) (tables cat)\<rparr>, bp')
    \<and> pool_at bp' A M {} pins' \<and> dom pins' \<subseteq> D \<and> pool_size bp' = pool_size bp"
proof -
  obtain f bp1 pg where f: "FetchPage (sint p) bp = Some (Some f, bp1)" "pool_at bp1 A M {} (pins(sint p := Some f))" "pool_size bp1 = pool_size bp"
    "page_at f bp1 = Some pg" "data pg = M (sint p)" "page_id pg = sint p" using fetch_read_page [OF assms(1,2,4-6)] by blast
  obtain b bp2 where u: "UnpinPage (sint p) False bp1 = Some (b, bp2)" "pool_at bp2 A M {} ((pins(sint p := Some f))(sint p := None))" "pool_size bp2 = pool_size bp1"
    using pool_unpin [OF f(2), of False "sint p"] by auto
  have "dom ((pins(sint p := Some f))(sint p := None)) \<subseteq> D" using assms(5) by auto
  then show ?thesis using f u assms(3)
    by (intro exI [of _ bp2] exI [of _ "(pins(sint p := Some f))(sint p := None)"]) (simp add: LoadTable_def table_info_of_def del: fun_upd_apply)
qed

lemma load_tables:
  assumes "pool_at bp A M {} pins" "\<forall>e\<in>set ts. entry_page e \<in> A - {0} \<and> (\<exists>n. TableMetadata_DeserializeFrom (M (entry_page e)) = Some (snd (snd e), n))"
    "finite D" "dom pins \<subseteq> D" "card D < pool_size bp"
  shows "\<exists>bp' pins'. load_all LoadTable (map (\<lambda>e. (fst e, fst (snd e))) ts) cat bp
      = Some (cat\<lparr>table_names := foldl (\<lambda>m e. hash_put (tm_table_name (snd (snd e))) (fst e) m) (table_names cat) ts,
          tables := foldl (\<lambda>m e. hash_put (fst e) (table_info_of (snd (snd e))) m) (tables cat) ts\<rparr>, bp')
    \<and> pool_at bp' A M {} pins' \<and> dom pins' \<subseteq> D \<and> pool_size bp' = pool_size bp"
  using assms(1,2,4,5)
proof (induction ts arbitrary: cat bp pins)
  case (Cons e ts)
  obtain n where e: "sint (fst (snd e)) \<in> A" "TableMetadata_DeserializeFrom (M (sint (fst (snd e)))) = Some (snd (snd e), n)" using Cons.prems(2) by auto
  let ?cat = "cat\<lparr>table_names := hash_put (tm_table_name (snd (snd e))) (fst e) (table_names cat), tables := hash_put (fst e) (table_info_of (snd (snd e))) (tables cat)\<rparr>"
  obtain bp1 pins1 where l: "LoadTable (fst e) (fst (snd e)) cat bp = Some (?cat, bp1)" "pool_at bp1 A M {} pins1" "dom pins1 \<subseteq> D" "pool_size bp1 = pool_size bp"
    using LoadTable_at [OF Cons.prems(1) e assms(3) Cons.prems(3,4)] by blast
  have r: "\<forall>e\<in>set ts. entry_page e \<in> A - {0} \<and> (\<exists>n. TableMetadata_DeserializeFrom (M (entry_page e)) = Some (snd (snd e), n))" "card D < pool_size bp1"
    using Cons.prems(2,4) l(4) by simp_all
  from Cons.IH [OF l(2) r(1) l(3) r(2), of ?cat] show ?case using l(1,4) by simp
qed auto

lemma tables_loaded:
  assumes "table_names cat = foldl (\<lambda>m e. hash_put (tm_table_name (snd (snd e))) (fst e) m) [] ts"
    "tables cat = foldl (\<lambda>m e. hash_put (fst e) (table_info_of (snd (snd e))) m) [] ts"
  shows "tables_view cat ts"
proof -
  have m: "map_of (tables cat) i = map_option table_info_of (table_of ts i)" for i
    unfolding assms(2) map_of_hash_puts table_of_def by (induction ts) auto
  then show ?thesis using map_of_hash_puts [of "\<lambda>e. tm_table_name (snd (snd e))" fst "[]" ts] unfolding tables_view_def assms(1)
    by (auto simp: table_info_of_def TableHeap_load_def option.map_comp comp_def option.map_ident)
qed

lemma BPlusTree_new_at:
  assumes "pool_at bp A M {} pins" "1 \<in> A" "roots_hold (M 1) rs" "finite D" "dom pins \<subseteq> D" "card D < pool_size bp"
  shows "\<exists>T f bp'. BPlusTree_new i bp = Some (T, bp') \<and> pool_at bp' A M {} (pins(1 := Some f)) \<and> pool_size bp' = pool_size bp"
proof -
  obtain f bp1 pg where f: "FetchPage 1 bp = Some (Some f, bp1)" "pool_at bp1 A M {} (pins(1 := Some f))" "pool_size bp1 = pool_size bp"
    "page_at f bp1 = Some pg" "data pg = M 1" using fetch_read_page [OF assms(1,2,4-6)] by blast
  then show ?thesis using roots_get [OF assms(3)] by (auto simp: BPlusTree_new_def INDEX_ROOTS_PAGE_ID_def)
qed

lemma LoadIndex_at:
  assumes "pool_at bp A M {} pins" "sint p \<in> A" "IndexMetadata_DeserializeFrom (M (sint p)) = Some (x, n)" "sint p \<noteq> 1"
    "finite D" "dom pins \<subseteq> D" "1 \<in> D" "card D + 1 < pool_size bp" "1 \<in> A" "roots_hold (M 1) rs"
    "map_of (tables cat) (im_table_id x) = Some info" "ShallowCopySchema (tm_schema (ti_meta info)) (im_key_map x) \<noteq> None"
  shows "\<exists>bp' pins' ii. LoadIndex i p cat bp = Some (cat\<lparr>index_names := add_index_name (tm_table_name (ti_meta info)) (im_index_name x) i (index_names cat),
        indexes := hash_put i ii (indexes cat)\<rparr>, bp') \<and> ii_meta ii = x
    \<and> pool_at bp' A M {} pins' \<and> dom pins' \<subseteq> D \<and> pool_size bp' = pool_size bp"
proof -
  have c: "card D < pool_size bp" using assms(8) by simp
  obtain f bp1 pg where f: "FetchPage (sint p) bp = Some (Some f, bp1)" "pool_at bp1 A M {} (pins(sint p := Some f))" "pool_size bp1 = pool_size bp"
    "page_at f bp1 = Some pg" "data pg = M (sint p)" "page_id pg = sint p" using fetch_read_page [OF assms(1,2,5,6) c] by blast
  have D: "finite (insert (sint p) D)" "dom (pins(sint p := Some f)) \<subseteq> insert (sint p) D" "card (insert (sint p) D) < pool_size bp1"
    using assms(5,6,8) f(3) card_insert_le_m1 [of "card D + 1" D "sint p"] by auto
  obtain T g bp2 where t: "BPlusTree_new (im_index_id x) bp1 = Some (T, bp2)" "pool_at bp2 A M {} ((pins(sint p := Some f))(1 := Some g))" "pool_size bp2 = pool_size bp1"
    using BPlusTree_new_at [OF f(2) assms(9,10) D] by blast
  let ?pins = "((pins(sint p := Some f))(1 := Some g))(sint p := None)"
  obtain b bp3 where u: "UnpinPage (sint p) False bp2 = Some (b, bp3)" "pool_at bp3 A M {} ?pins" "pool_size bp3 = pool_size bp2"
    using pool_unpin [OF t(2), of False "sint p"] by (simp del: fun_upd_apply) blast
  obtain ks where ks: "ShallowCopySchema (tm_schema (ti_meta info)) (im_key_map x) = Some ks" using assms(12) by blast
  let ?ii = "\<lparr>ii_meta = x, ii_table = ti_meta info, ii_key_schema = ks, ii_tree = T\<rparr>"
  have "LoadIndex i p cat bp = Some (cat\<lparr>index_names := add_index_name (tm_table_name (ti_meta info)) (im_index_name x) i (index_names cat),
        indexes := hash_put i ?ii (indexes cat)\<rparr>, bp3)"
    using f t(1) u(1) assms(3,11) ks by (simp add: LoadIndex_def IndexInfo_Init_def)
  moreover have "dom ?pins \<subseteq> D" using assms(6,7) by auto
  ultimately show ?thesis using u(2,3) t(3) f(3) by (intro exI [of _ bp3] exI [of _ ?pins] exI [of _ ?ii]) simp
qed

lemma load_indexes:
  assumes "pool_at bp A M {} pins" "\<forall>e\<in>set xs. entry_page e \<in> A - {0} \<and> (\<exists>n. IndexMetadata_DeserializeFrom (M (entry_page e)) = Some (snd (snd e), n))"
    "index_refs ts xs" "\<forall>i. map_option ti_meta (map_of (tables cat) i) = table_of ts i" "1 \<in> A" "roots_hold (M 1) rs"
    "finite D" "dom pins \<subseteq> D" "1 \<in> D" "card D + 1 < pool_size bp"
  shows "\<exists>bp' pins' iis. load_all LoadIndex (map (\<lambda>e. (fst e, fst (snd e))) xs) cat bp
      = Some (cat\<lparr>index_names := foldl (\<lambda>m e. add_index_name (tm_table_name (the (table_of ts (im_table_id (snd (snd e)))))) (im_index_name (snd (snd e))) (fst e) m)
            (index_names cat) xs,
          indexes := foldl (\<lambda>m e. hash_put (fst e) (snd e) m) (indexes cat) iis\<rparr>, bp')
    \<and> map (\<lambda>e. (fst e, ii_meta (snd e))) iis = map (\<lambda>e. (fst e, snd (snd e))) xs
    \<and> pool_at bp' A M {} pins' \<and> dom pins' \<subseteq> D \<and> pool_size bp' = pool_size bp"
  using assms(1,2,3,4,8,10)
proof (induction xs arbitrary: cat bp pins)
  case Nil
  then show ?case by (intro exI [of _ bp] exI [of _ pins] exI [of _ "[]"]) simp
next
  case (Cons e xs)
  let ?x = "snd (snd e)"
  obtain n where e: "sint (fst (snd e)) \<in> A" "IndexMetadata_DeserializeFrom (M (sint (fst (snd e)))) = Some (?x, n)" using Cons.prems(2) by auto
  obtain t where t: "sint (fst (snd e)) \<noteq> 1" "table_of ts (im_table_id ?x) = Some t" "ShallowCopySchema (tm_schema t) (im_key_map ?x) \<noteq> None"
    using Cons.prems(3) by (auto simp: index_refs_def)
  obtain info where i: "map_of (tables cat) (im_table_id ?x) = Some info" "ti_meta info = t" using Cons.prems(4) t(2) by (metis option.map_disc_iff option.map_sel option.collapse option.sel option.distinct(1))
  have sh: "ShallowCopySchema (tm_schema (ti_meta info)) (im_key_map ?x) \<noteq> None" using t(3) i(2) by simp
  obtain bp1 pins1 ii where l: "LoadIndex (fst e) (fst (snd e)) cat bp = Some (cat\<lparr>index_names := add_index_name (tm_table_name t) (im_index_name ?x) (fst e) (index_names cat),
        indexes := hash_put (fst e) ii (indexes cat)\<rparr>, bp1)" "ii_meta ii = ?x" "pool_at bp1 A M {} pins1" "dom pins1 \<subseteq> D" "pool_size bp1 = pool_size bp"
    using LoadIndex_at [OF Cons.prems(1) e t(1) assms(7) Cons.prems(5) assms(9) Cons.prems(6) assms(5,6) i(1) sh, of "fst e"] unfolding i(2)
    by (elim exE conjE) (rule that)
  let ?cat = "cat\<lparr>index_names := add_index_name (tm_table_name t) (im_index_name ?x) (fst e) (index_names cat), indexes := hash_put (fst e) ii (indexes cat)\<rparr>"
  have r: "\<forall>e\<in>set xs. entry_page e \<in> A - {0} \<and> (\<exists>n. IndexMetadata_DeserializeFrom (M (entry_page e)) = Some (snd (snd e), n))" "index_refs ts xs"
    "\<forall>i. map_option ti_meta (map_of (tables ?cat) i) = table_of ts i" "card D + 1 < pool_size bp1"
    using Cons.prems(2-4,6) l(5) by (simp_all add: index_refs_def)
  obtain bp' pins' iis where h: "load_all LoadIndex (map (\<lambda>e. (fst e, fst (snd e))) xs) ?cat bp1
      = Some (?cat\<lparr>index_names := foldl (\<lambda>m e. add_index_name (tm_table_name (the (table_of ts (im_table_id (snd (snd e)))))) (im_index_name (snd (snd e))) (fst e) m)
            (index_names ?cat) xs, indexes := foldl (\<lambda>m e. hash_put (fst e) (snd e) m) (indexes ?cat) iis\<rparr>, bp')"
    "map (\<lambda>e. (fst e, ii_meta (snd e))) iis = map (\<lambda>e. (fst e, snd (snd e))) xs" "pool_at bp' A M {} pins'" "dom pins' \<subseteq> D" "pool_size bp' = pool_size bp1"
    using Cons.IH [OF l(3) r(1-3) l(4) r(4)] by (elim exE conjE) (rule that)
  show ?case using h l(1,2,5) t(2) by (intro exI [of _ bp'] exI [of _ pins'] exI [of _ "(fst e, ii) # iis"]) simp
qed

text \<open>Opening a catalog loads its tables, then its indexes.\<close>

lemma catalog_tables_open:
  assumes "pool_at bp A M {} pins" "0 \<in> A" "CatalogMeta_DeserializeFrom (M 0) = Some (pages_meta ts xs)"
    "\<forall>e\<in>set ts. entry_page e \<in> A - {0} \<and> (\<exists>n. TableMetadata_DeserializeFrom (M (entry_page e)) = Some (snd (snd e), n))"
    "finite (dom pins)" "card (dom pins) + 2 < pool_size bp"
  shows "\<exists>cat bp' pins'. CatalogManager_new False bp = load_all LoadIndex (map (\<lambda>e. (fst e, fst (snd e))) xs) cat bp' \<and> tables_view cat ts
    \<and> catalog_meta cat = pages_meta ts xs \<and> index_names cat = [] \<and> indexes cat = []
    \<and> pool_at bp' A M {} pins' \<and> dom pins' \<subseteq> insert 1 (dom pins) \<and> pool_size bp' = pool_size bp"
proof -
  let ?D = "insert 1 (dom pins)"
  have D: "finite ?D" "dom pins \<subseteq> ?D" "card ?D < pool_size bp"
    using assms(5,6) card_insert_le_m1 [of "card (dom pins) + 1" "dom pins" 1] by auto
  obtain f bp1 g where f: "FetchPage 0 bp = Some (Some f, bp1)" "pool_at bp1 A M {} (pins(0 := Some f))" "pool_size bp1 = pool_size bp"
    "page_at f bp1 = Some g" "data g = M 0" "page_id g = 0" using fetch_read_page [OF assms(1,2) D] by blast
  obtain b bp2 where u: "UnpinPage 0 False bp1 = Some (b, bp2)" "pool_at bp2 A M {} ((pins(0 := Some f))(0 := None))" "pool_size bp2 = pool_size bp1"
    using pool_unpin [OF f(2), of False 0] by (simp del: fun_upd_apply) blast
  have D2: "dom ((pins(0 := Some f))(0 := None)) \<subseteq> ?D" "card ?D < pool_size bp2" using D u(3) f(3) by auto
  let ?c0 = "\<lparr>catalog_meta = pages_meta ts xs, table_names = [], tables = [], index_names = [], indexes = []\<rparr>"
  let ?c1 = "?c0\<lparr>table_names := foldl (\<lambda>m e. hash_put (tm_table_name (snd (snd e))) (fst e) m) [] ts, tables := foldl (\<lambda>m e. hash_put (fst e) (table_info_of (snd (snd e))) m) [] ts\<rparr>"
  obtain bp3 pins3 where l: "load_all LoadTable (map (\<lambda>e. (fst e, fst (snd e))) ts) ?c0 bp2 = Some (?c1, bp3)" "pool_at bp3 A M {} pins3" "dom pins3 \<subseteq> ?D" "pool_size bp3 = pool_size bp2"
    using load_tables [OF u(2) assms(4) D(1) D2, of ?c0] by auto
  have "tables_view ?c1 ts" by (rule tables_loaded) simp_all
  moreover have "CatalogManager_new False bp = load_all LoadIndex (map (\<lambda>e. (fst e, fst (snd e))) xs) ?c1 bp3"
    using f u(1) assms(3) l(1) by (simp add: CatalogManager_new_def CATALOG_META_PAGE_ID_def pages_meta_def)
  ultimately show ?thesis using l(2-4) u(3) f(3) by (intro exI [of _ ?c1] exI [of _ bp3] exI [of _ pins3]) simp
qed

lemma catalog_opens:
  assumes "pool_at bp A M {} pins" "catalog_pages A M ts xs" "index_refs ts xs" "1 \<in> A" "roots_hold (M 1) rs" "finite (dom pins)" "card (dom pins) + 2 < pool_size bp"
  shows "\<exists>cat bp' pins'. CatalogManager_new False bp = Some (cat, bp') \<and> catalog_view cat ts xs \<and> pool_at bp' A M {} pins' \<and> dom pins' \<subseteq> insert 1 (dom pins)
    \<and> pool_size bp' = pool_size bp"
proof -
  have pg: "0 \<in> A" "CatalogMeta_DeserializeFrom (M 0) = Some (pages_meta ts xs)"
    "\<forall>e\<in>set ts. entry_page e \<in> A - {0} \<and> (\<exists>n. TableMetadata_DeserializeFrom (M (entry_page e)) = Some (snd (snd e), n))"
    "\<forall>e\<in>set xs. entry_page e \<in> A - {0} \<and> (\<exists>n. IndexMetadata_DeserializeFrom (M (entry_page e)) = Some (snd (snd e), n))"
    using assms(2) by (auto simp: catalog_pages_def)
  let ?D = "insert 1 (dom pins)"
  obtain c bp3 pins3 where l: "CatalogManager_new False bp = load_all LoadIndex (map (\<lambda>e. (fst e, fst (snd e))) xs) c bp3" "tables_view c ts"
    "catalog_meta c = pages_meta ts xs" "index_names c = []" "indexes c = []" "pool_at bp3 A M {} pins3" "dom pins3 \<subseteq> ?D" "pool_size bp3 = pool_size bp"
    using catalog_tables_open [OF assms(1) pg(1-3) assms(6,7)] by (elim exE conjE) (rule that)
  have D: "finite ?D" "1 \<in> ?D" "card ?D + 1 < pool_size bp3" "\<forall>i. map_option ti_meta (map_of (tables c) i) = table_of ts i"
    using assms(6,7) l(2,8) card_insert_le_m1 [of "card (dom pins) + 1" "dom pins" 1] by (auto simp: tables_view_def)
  let ?N = "foldl (\<lambda>m e. add_index_name (tm_table_name (the (table_of ts (im_table_id (snd (snd e)))))) (im_index_name (snd (snd e))) (fst e) m) [] xs"
  obtain bp4 pins4 iis where x: "load_all LoadIndex (map (\<lambda>e. (fst e, fst (snd e))) xs) c bp3
      = Some (c\<lparr>index_names := ?N, indexes := foldl (\<lambda>m e. hash_put (fst e) (snd e) m) [] iis\<rparr>, bp4)"
    "map (\<lambda>e. (fst e, ii_meta (snd e))) iis = map (\<lambda>e. (fst e, snd (snd e))) xs" "pool_at bp4 A M {} pins4" "dom pins4 \<subseteq> ?D" "pool_size bp4 = pool_size bp3"
    using load_indexes [OF l(6) pg(4) assms(3) D(4) assms(4,5) D(1) l(7) D(2,3)] l(4,5) by auto
  let ?cat = "c\<lparr>index_names := ?N, indexes := foldl (\<lambda>m e. hash_put (fst e) (snd e) m) [] iis\<rparr>"
  have "map_option ii_meta (map_of (indexes ?cat) i) = map_of (map (\<lambda>e. (fst e, snd (snd e))) xs) i" for i
    using map_of_hash_puts [of fst snd "[]" iis i] map_of_map [of ii_meta iis] unfolding x(2) [symmetric] by (simp add: split_def)
  then have "indexes_view ?cat ts xs" using index_lookup_adds [of _ _ _ "[]" xs] by (simp add: indexes_view_def index_lookup_def)
  moreover have "tables_view ?cat ts" using l(2) by (simp add: tables_view_def)
  ultimately show ?thesis using l(1,3,8) x(1,3-5) by (intro exI [of _ ?cat] exI [of _ bp4] exI [of _ pins4]) (simp add: catalog_view_def)
qed

section \<open>Creating a table\<close>

lemma Flush_at:
  assumes "pool_at bp A M {} pins" "0 \<in> A" "meta_ok (catalog_meta cat)" "finite D" "dom pins \<subseteq> D" "card D < pool_size bp"
  shows "\<exists>bp' d. FlushCatalogMetaPage cat bp = Some bp' \<and> pool_at bp' A (M(0 := d)) {} (pins(0 := None)) \<and> pool_size bp' = pool_size bp
    \<and> CatalogMeta_DeserializeFrom d = Some (catalog_meta cat)"
proof -
  obtain f bp1 g where f: "FetchPage 0 bp = Some (Some f, bp1)" "pool_at bp1 A M {} (pins(0 := Some f))" "pool_size bp1 = pool_size bp"
    "page_at f bp1 = Some g" "data g = M 0" "length (M 0) = 4096" using fetch_read_page [OF assms(1,2,4-6)] by blast
  let ?d = "catalog_image (catalog_meta cat) @ drop (length (catalog_image (catalog_meta cat))) (M 0)"
  have "length ?d = 4096" using f(6) assms(3) by (simp add: meta_ok_def)
  then obtain bp2 where w: "write_frame f ?d bp1 = Some bp2" "pool_at bp2 A (M(0 := ?d)) {0} (pins(0 := Some f))" "pool_size bp2 = pool_size bp1"
    using write_frame_at [OF f(2), of 0 f ?d] by auto
  obtain b bp3 where u: "UnpinPage 0 True bp2 = Some (b, bp3)" "pool_at bp3 A (M(0 := ?d)) {} (pins(0 := None))" "pool_size bp3 = pool_size bp2"
    using pool_unpin [OF w(2), of True 0] by (simp del: fun_upd_apply) blast
  have "FlushCatalogMetaPage cat bp = Some bp3"
    using f(1,4,5) CatalogMeta_SerializeTo_image [OF assms(3) f(6)] w(1) u(1) by (simp add: FlushCatalogMetaPage_def CATALOG_META_PAGE_ID_def)
  then show ?thesis using u(2,3) w(3) f(3) CatalogMeta_DeserializeFrom_image [OF assms(3)] by (intro exI [of _ bp3] exI [of _ ?d]) simp
qed

text \<open>A new page for a record.\<close>

lemma store_record:
  assumes "pool_at bp A M {} pins" "card A < 32704" "finite (dom pins)" "card (dom pins) < pool_size bp" "put zero_page = Some (d, n)" "length d = 4096"
  shows "\<exists>p f bp1 g bp2 b bp3. NewPage bp = Some (Some (p, f), bp1) \<and> p \<notin> A \<and> page_at f bp1 = Some g \<and> put (data g) = Some (d, n)
    \<and> write_frame f d bp1 = Some bp2 \<and> UnpinPage p True bp2 = Some (b, bp3) \<and> pool_at bp3 (insert p A) (M(p := d)) {} (pins(p := None))
    \<and> pool_size bp3 = pool_size bp"
proof -
  obtain p f bp1 where n: "NewPage bp = Some (Some (p, f), bp1)" "p \<notin> A" "pool_size bp1 = pool_size bp"
    "pool_at bp1 (insert p A) (M(p := zero_page)) {p} (pins(p := Some f))" using pool_new [OF assms(1-4)] by auto
  have pf: "(pins(p := Some f)) p = Some f" by simp
  note P = pinned_page(1,2) [OF n(4) pf]
  obtain bp2 where w: "write_frame f d bp1 = Some bp2" "pool_at bp2 (insert p A) (M(p := d)) {p} (pins(p := Some f))" "pool_size bp2 = pool_size bp1"
    using write_frame_at [OF n(4) pf assms(6)] by (simp only: fun_upd_upd insert_absorb2) blast
  obtain b bp3 where u: "UnpinPage p True bp2 = Some (b, bp3)" "pool_at bp3 (insert p A) (M(p := d)) {} (pins(p := None))" "pool_size bp3 = pool_size bp2"
    using pool_unpin [OF w(2), of True p] by (simp del: fun_upd_apply) blast
  have "data (pages bp1 ! f) = zero_page" using P(2) by simp
  then show ?thesis using n(1-3) P(1) assms(5) w(1,3) u by auto
qed

lemma next_id_above:
  assumes "sorted_wrt (<) (map fst m)" "\<forall>e\<in>set m. fst e \<noteq> - 1"
  shows "\<forall>e\<in>set m. fst e < next_id m"
proof (cases m rule: rev_cases)
  case (snoc m' e)
  have "fst e \<noteq> - 1" using assms(2) snoc by simp
  then have "fst e < - 1" using word_n1_ge [of "fst e"] by (simp add: order_less_le)
  from unat_Suc_less [OF this] have "fst e < fst e + 1" by (simp add: word_less_nat_alt)
  then show ?thesis using assms(1) snoc by (auto simp: next_id_def sorted_wrt_append intro: less_trans)
qed simp

lemma map_of_snoc: "map_of (es @ [(k, v)]) n = (case map_of es n of Some x \<Rightarrow> Some x | None \<Rightarrow> if n = k then Some v else None)"
  by (simp add: map_add_def split: option.splits)

lemma table_of_snoc: "table_of (ts @ [(i, p, t)]) n = (case table_of ts n of Some x \<Rightarrow> Some x | None \<Rightarrow> if n = i then Some t else None)"
  by (simp add: table_of_def map_of_snoc del: map_of_append)

text \<open>A record with a new id joins the maps in memory.\<close>

lemma tables_view_add:
  assumes "tables_view cat ts" "map_of (table_names cat) (tm_table_name t) = None" "first_page_id h = sint (tm_root_page_id t)"
    "cat' = cat\<lparr>catalog_meta := m, table_names := hash_put (tm_table_name t) i (table_names cat), tables := hash_put i \<lparr>ti_meta = t, ti_heap = h\<rparr> (tables cat)\<rparr>"
  shows "tables_view cat' (ts @ [(i, p, t)])"
  unfolding tables_view_def
proof (intro conjI allI impI)
  show "map_of (table_names cat') n = map_of (map (\<lambda>e. (tm_table_name (snd (snd e)), fst e)) (ts @ [(i, p, t)])) n" for n
    using assms(1,4) by (simp add: tables_view_def map_of_hash_put map_of_snoc del: map_of_append)
  show "map_option ti_meta (map_of (tables cat') n) = table_of (ts @ [(i, p, t)]) n" for n
    using assms(1,4) by (auto simp: tables_view_def map_of_hash_put table_of_snoc [of ts] dest: spec [of _ n] split: option.splits)
  show "first_page_id (ti_heap info) = sint (tm_root_page_id (ti_meta info))" if "map_of (tables cat') n = Some info" for n info
    using that assms(1,3,4) by (auto simp: tables_view_def map_of_hash_put split: option.splits if_splits)
qed

lemma indexes_view_add_table:
  assumes "indexes_view cat ts xs" "index_refs ts xs" "index_names cat' = index_names cat" "indexes cat' = indexes cat"
  shows "indexes_view cat' (ts @ [(i, p, t)]) xs" "index_refs (ts @ [(i, p, t)]) xs"
proof -
  have t: "table_of (ts @ [(i, p, t)]) (im_table_id (snd (snd e))) = table_of ts (im_table_id (snd (snd e)))" if "e \<in> set xs" for e
    using assms(2) that by (auto simp: index_refs_def table_of_snoc)
  then show "index_refs (ts @ [(i, p, t)]) xs" using assms(2) by (simp add: index_refs_def)
  have "map (\<lambda>e. ((tm_table_name (the (table_of (ts @ [(i, p, t)]) (im_table_id (snd (snd e))))), im_index_name (snd (snd e))), fst e)) xs
    = map (\<lambda>e. ((tm_table_name (the (table_of ts (im_table_id (snd (snd e))))), im_index_name (snd (snd e))), fst e)) xs"
    using t by (intro map_cong) simp_all
  then show "indexes_view cat' (ts @ [(i, p, t)]) xs" using assms(1,3,4) by (simp only: indexes_view_def simp_thms)
qed

lemma catalog_pages_grow:
  assumes "catalog_pages A M ts xs" "A \<subseteq> A'" "\<forall>p\<in>A - {0}. M' p = M p" "meta_ok (pages_meta (ts @ ts') (xs @ xs'))"
    "CatalogMeta_DeserializeFrom (M' 0) = Some (pages_meta (ts @ ts') (xs @ xs'))"
    "\<forall>e\<in>set ts'. entry_page e \<in> A' - {0} \<and> (\<exists>n. TableMetadata_DeserializeFrom (M' (entry_page e)) = Some (snd (snd e), n))"
    "\<forall>e\<in>set xs'. entry_page e \<in> A' - {0} \<and> (\<exists>n. IndexMetadata_DeserializeFrom (M' (entry_page e)) = Some (snd (snd e), n))"
  shows "catalog_pages A' M' (ts @ ts') (xs @ xs')"
proof -
  have "entry_page e \<in> A' - {0} \<and> (\<exists>n. TableMetadata_DeserializeFrom (M' (entry_page e)) = Some (snd (snd e), n))" if "e \<in> set ts" for e
    using assms(1-3) that by (auto simp: catalog_pages_def)
  moreover have "entry_page e \<in> A' - {0} \<and> (\<exists>n. IndexMetadata_DeserializeFrom (M' (entry_page e)) = Some (snd (snd e), n))" if "e \<in> set xs" for e
    using assms(1-3) that by (auto simp: catalog_pages_def)
  moreover have "0 \<in> A'" using assms(1,2) by (auto simp: catalog_pages_def)
  ultimately show ?thesis unfolding catalog_pages_def using assms(4-7) by auto
qed

definition catalog_room :: "table_entry list \<Rightarrow> index_entry list \<Rightarrow> bool" where
  "catalog_room ts xs \<longleftrightarrow> 12 + 8 * length ts + 8 * length xs + 8 \<le> 4096 \<and> (\<forall>e\<in>set ts. fst e \<noteq> - 1) \<and> (\<forall>e\<in>set xs. fst e \<noteq> - 1)"

lemma next_table:
  assumes "meta_ok (pages_meta ts xs)" "catalog_room ts xs" "i = next_id (table_meta_pages (pages_meta ts xs))"
  shows "meta_ok (pages_meta (ts @ [(i, p, t)]) xs)" "\<forall>e\<in>set ts. fst e < i" "table_of ts i = None"
    "map_put i p (table_meta_pages (pages_meta ts xs)) = table_meta_pages (pages_meta (ts @ [(i, p, t)]) xs)"
proof -
  have "\<forall>e\<in>set (table_meta_pages (pages_meta ts xs)). fst e < i" unfolding assms(3)
    by (rule next_id_above) (use assms(1,2) in \<open>auto simp: meta_ok_def pages_meta_def catalog_room_def\<close>)
  then show l: "\<forall>e\<in>set ts. fst e < i"
    and "map_put i p (table_meta_pages (pages_meta ts xs)) = table_meta_pages (pages_meta (ts @ [(i, p, t)]) xs)"
    using map_put_last [of "table_meta_pages (pages_meta ts xs)" i p] by (simp_all add: pages_meta_def)
  show "table_of ts i = None" using l by (force simp: table_of_def map_of_eq_None_iff)
  show "meta_ok (pages_meta (ts @ [(i, p, t)]) xs)"
    using assms(1,2) l by (simp add: meta_ok_def pages_meta_def catalog_room_def catalog_image_def sorted_wrt_append comp_def)
qed

lemma table_ok_ids: "table_ok t \<Longrightarrow> table_ok (t\<lparr>tm_table_id := i, tm_root_page_id := r\<rparr>)"
  by (simp add: table_ok_def table_image_def)

abbreviation (input) new_table :: "u8 list \<Rightarrow> Column list \<Rightarrow> u32 \<Rightarrow> u32 \<Rightarrow> TableMetadata" where
  "new_table name schema i r \<equiv> \<lparr>tm_table_id = i, tm_table_name = name, tm_root_page_id = r, tm_schema = schema\<rparr>"

lemma CreateTable_at:
  assumes "pool_at bp A M {} pins" "catalog_pages A M ts xs" "catalog_view cat ts xs" "index_refs ts xs" "catalog_room ts xs" "card A + 1 < 32704"
    "finite (dom pins)" "card (dom pins) < pool_size bp" "map_of (table_names cat) name = None" "table_ok (new_table name schema 0 0)"
    "i = next_id (table_meta_pages (catalog_meta cat))"
  shows "\<exists>p t h cat' bp' A' M' pins'. CreateTable name schema cat bp = Some (DB_SUCCESS, Some \<lparr>ti_meta = t, ti_heap = h\<rparr>, cat', bp')
    \<and> t = new_table name schema i (id_word (first_page_id h)) \<and> first_page_id h \<notin> A \<and> page_holds (M' (first_page_id h)) (id_word (first_page_id h), - 1, - 1) []
    \<and> pool_at bp' A' M' {} pins' \<and> dom pins' \<subseteq> dom pins \<and> pool_size bp' = pool_size bp \<and> A \<subseteq> A' \<and> (\<forall>p\<in>A - {0}. M' p = M p)
    \<and> catalog_view cat' (ts @ [(i, p, t)]) xs \<and> catalog_pages A' M' (ts @ [(i, p, t)]) xs \<and> index_refs (ts @ [(i, p, t)]) xs \<and> table_of ts i = None
    \<and> sint (tm_root_page_id t) = first_page_id h \<and> card A' \<le> card A + 2"
proof -
  have m: "catalog_meta cat = pages_meta ts xs" "tables_view cat ts" "indexes_view cat ts xs" "0 \<in> A" "meta_ok (pages_meta ts xs)"
    using assms(2,3) by (simp_all add: catalog_view_def catalog_pages_def)
  note nt = next_table [OF m(5) assms(5) assms(11) [unfolded m(1)]]
  have c: "card A < 32704" using assms(6) by simp
  obtain r d0 bp1 where h: "TableHeap_new bp = Some (\<lparr>first_page_id = r, insert_page_id = r\<rparr>, bp1)" "r \<notin> A" "page_holds d0 (id_word r, - 1, - 1) []"
    "pool_at bp1 (insert r A) (M(r := d0)) {} (pins(r := None))" "pool_size bp1 = pool_size bp" using TableHeap_new_at [OF assms(1) c assms(7,8)] by blast
  let ?t = "new_table name schema i (id_word r)" and ?h = "\<lparr>first_page_id = r, insert_page_id = r\<rparr>"
  have ok: "table_ok ?t" using table_ok_ids [OF assms(10), where i = i and r = "id_word r"] by simp
  let ?d = "table_image ?t @ drop (length (table_image ?t)) zero_page"
  have z: "length zero_page = 4096" "length ?d = 4096" using ok by (simp_all add: table_ok_def)
  have c2: "card (insert r A) < 32704" "finite (dom (pins(r := None)))" "card (dom (pins(r := None))) < pool_size bp1"
    using assms(6-8) h(5) card_insert_le_m1 [of "card A + 1" A r] card_mono [of "dom pins" "dom pins - {r}"] by (auto simp: card_insert_if)
  obtain q f bp2 g bp3 b bp4 where s: "NewPage bp1 = Some (Some (q, f), bp2)" "q \<notin> insert r A" "page_at f bp2 = Some g"
    "TableMetadata_SerializeTo ?t (data g) = Some (?d, TableMetadata_GetSerializedSize ?t)" "write_frame f ?d bp2 = Some bp3" "UnpinPage q True bp3 = Some (b, bp4)"
    "pool_at bp4 (insert q (insert r A)) ((M(r := d0))(q := ?d)) {} ((pins(r := None))(q := None))" "pool_size bp4 = pool_size bp1"
    using store_record [where put = "TableMetadata_SerializeTo ?t", OF h(4) c2 TableMetadata_SerializeTo_image [OF ok z(1)] z(2)] by (elim exE conjE) (rule that)
  let ?A = "insert q (insert r A)" and ?pins = "(pins(r := None))(q := None)" and ?ts = "ts @ [(i, id_word q, ?t)]"
  let ?cat = "cat\<lparr>catalog_meta := pages_meta ?ts xs, table_names := hash_put name i (table_names cat), tables := hash_put i \<lparr>ti_meta = ?t, ti_heap = ?h\<rparr> (tables cat)\<rparr>"
  have F: "0 \<in> ?A" "meta_ok (catalog_meta ?cat)" "finite (dom pins)" "dom ?pins \<subseteq> dom pins" "card (dom pins) < pool_size bp4"
    using m(4) nt(1) assms(7,8) s(8) h(5) by auto
  obtain bp5 d where e: "FlushCatalogMetaPage ?cat bp4 = Some bp5" "pool_at bp5 ?A (((M(r := d0))(q := ?d))(0 := d)) {} (?pins(0 := None))" "pool_size bp5 = pool_size bp4"
    "CatalogMeta_DeserializeFrom d = Some (catalog_meta ?cat)" using Flush_at [OF s(7) F] by (elim exE conjE) (rule that)
  let ?M = "((M(r := d0))(q := ?d))(0 := d)"
  have si: "sint (id_word r) = r" "sint (id_word q) = q" "r \<noteq> 0" "q \<noteq> 0" "q \<noteq> r" using sint_id_at [OF e(2)] h(2) s(2) m(4) by auto
  have v: "tables_view ?cat ?ts" by (rule tables_view_add [OF m(2)]) (use assms(9) si in simp_all)
  have x: "indexes_view ?cat ?ts xs" "index_refs ?ts xs" using indexes_view_add_table [OF m(3) assms(4)] by simp_all
  have p: "catalog_pages ?A ?M (ts @ [(i, id_word q, ?t)]) (xs @ [])"
    by (rule catalog_pages_grow [OF assms(2)]) (use h(2) s(2) nt(1) e(4) si TableMetadata_DeserializeFrom_image [OF ok] in auto)
  have "CreateTable name schema cat bp = Some (DB_SUCCESS, Some \<lparr>ti_meta = ?t, ti_heap = ?h\<rparr>, ?cat, bp5)"
    using assms(9) h(1) s(1,3-6) e(1) nt(4) m(1) by (simp add: CreateTable_def Let_def assms(11) pages_meta_def)
  moreover have "page_holds (?M (first_page_id ?h)) (id_word (first_page_id ?h), - 1, - 1) []" using h(3) si by simp
  moreover have "\<forall>p\<in>A - {0}. ?M p = M p" using h(2) s(2) by auto
  moreover have "dom (?pins(0 := None)) \<subseteq> dom pins" by auto
  moreover have "card ?A \<le> card A + 2" using card_insert_le_m1 [of "card A + 2" "insert r A" q] card_insert_le_m1 [of "card A + 1" A r] by simp
  ultimately show ?thesis using v x p nt(3) si(1) e(2,3) s(8) h(2,5)
    by (intro exI [of _ "id_word q"] exI [of _ ?t] exI [of _ ?h] exI [of _ ?cat] exI [of _ bp5] exI [of _ ?A] exI [of _ ?M] exI [of _ "?pins(0 := None)"])
      (auto simp: catalog_view_def)
qed

text \<open>The answers of \<open>GetTable\<close> depend on the view alone.\<close>

definition table_answer :: "table_entry list \<Rightarrow> u8 list \<Rightarrow> dberr_t \<times> TableMetadata option" where
  "table_answer ts n = (case map_of (map (\<lambda>e. (tm_table_name (snd (snd e)), fst e)) ts) n of None \<Rightarrow> (DB_TABLE_NOT_EXIST, None)
     | Some i \<Rightarrow> (DB_SUCCESS, table_of ts i))"

lemma GetTable_view:
  assumes "tables_view cat ts"
  shows "map_prod id (map_option ti_meta) (GetTable n cat) = table_answer ts n"
    "snd (GetTable n cat) = Some info \<Longrightarrow> first_page_id (ti_heap info) = sint (tm_root_page_id (ti_meta info))"
    "map_of (table_names cat) n = None \<longleftrightarrow> fst (GetTable n cat) = DB_TABLE_NOT_EXIST"
  using assms by (auto simp: tables_view_def GetTable_def table_answer_def split: option.splits)

lemma table_answer_snoc:
  assumes "table_of ts i = None" "fst (table_answer ts (tm_table_name t)) = DB_TABLE_NOT_EXIST"
  shows "table_answer (ts @ [(i, p, t)]) n = (if n = tm_table_name t then (DB_SUCCESS, Some t) else table_answer ts n)"
proof -
  have "table_of ts j \<noteq> None" if "map_of (map (\<lambda>e. (tm_table_name (snd (snd e)), fst e)) ts) n = Some j" for j
    using map_of_SomeD [OF that] unfolding table_of_def map_of_eq_None_iff by force
  then show ?thesis using assms
    by (auto simp: table_answer_def map_of_snoc table_of_snoc simp del: map_of_append split: option.splits)
qed

text \<open>The answers of a catalog to which a table was added.\<close>

lemma table_answers:
  assumes "tables_view cat ts" "tables_view c (ts @ [(i, p, t)])" "fst (GetTable (tm_table_name t) cat) = DB_TABLE_NOT_EXIST" "table_of ts i = None"
  shows "\<exists>info. GetTable (tm_table_name t) c = (DB_SUCCESS, Some info) \<and> ti_meta info = t \<and> first_page_id (ti_heap info) = sint (tm_root_page_id t)"
    "n \<noteq> tm_table_name t \<Longrightarrow> map_prod id (map_option ti_meta) (GetTable n c) = map_prod id (map_option ti_meta) (GetTable n cat)"
    "CreateTable (tm_table_name t) s c b = Some (DB_TABLE_ALREADY_EXIST, None, c, b)"
proof -
  have "fst (table_answer ts (tm_table_name t)) = DB_TABLE_NOT_EXIST" using assms(3) by (simp add: GetTable_view(1) [OF assms(1), symmetric])
  note a = table_answer_snoc [OF assms(4) this]
  have "map_prod id (map_option ti_meta) (GetTable (tm_table_name t) c) = (DB_SUCCESS, Some t)" using GetTable_view(1) [OF assms(2)] a by simp
  then obtain info where i: "GetTable (tm_table_name t) c = (DB_SUCCESS, Some info)" "ti_meta info = t" by (cases "GetTable (tm_table_name t) c") auto
  then have "map_of (table_names c) (tm_table_name t) \<noteq> None" using GetTable_view(3) [OF assms(2)] by simp
  then show "CreateTable (tm_table_name t) s c b = Some (DB_TABLE_ALREADY_EXIST, None, c, b)" by (simp add: CreateTable_def)
  show "\<exists>info. GetTable (tm_table_name t) c = (DB_SUCCESS, Some info) \<and> ti_meta info = t \<and> first_page_id (ti_heap info) = sint (tm_root_page_id t)"
    using i GetTable_view(2) [OF assms(2), of "tm_table_name t" info] by simp
  show "map_prod id (map_option ti_meta) (GetTable n c) = map_prod id (map_option ti_meta) (GetTable n cat)" if "n \<noteq> tm_table_name t"
    using that GetTable_view(1) [OF assms(2)] GetTable_view(1) [OF assms(1)] a by simp
qed

section \<open>Creating an index\<close>

lemma GetColumnIndex_from_at:
  "GetColumnIndex_from cs name i = Some j \<Longrightarrow> unat i + length cs < 2 ^ 32
    \<Longrightarrow> unat i \<le> unat j \<and> unat j < unat i + length cs \<and> col_name (cs ! (unat j - unat i)) = name"
proof (induction cs arbitrary: i)
  case (Cons c cs)
  have u: "unat (i + 1) = unat i + 1" using Cons.prems(2) by (intro unat_Suc) simp
  show ?case
  proof (cases "col_name c = name")
    case False
    then have "unat (i + 1) \<le> unat j \<and> unat j < unat (i + 1) + length cs \<and> col_name (cs ! (unat j - unat (i + 1))) = name"
      using Cons.prems u by (intro Cons.IH) simp_all
    moreover from this have "unat j - unat i = Suc (unat j - unat (i + 1))" using u by linarith
    ultimately show ?thesis using u by simp
  qed (use Cons.prems in auto)
qed simp

text \<open>The columns of an index are the columns it was asked for.\<close>

lemma key_map_columns:
  assumes "key_map_of columns keys = Some km" "length columns < 2 ^ 32"
  shows "\<exists>ks. ShallowCopySchema columns km = Some ks \<and> map col_name ks = keys"
  using assms(1)
proof (induction keys arbitrary: km)
  case (Cons s keys)
  then obtain j km' where k: "GetColumnIndex columns s = Some j" "key_map_of columns keys = Some km'" "km = j # km'" by (auto split: Option.bind_splits)
  then show ?case using Cons.IH [OF k(2)] GetColumnIndex_from_at [of columns s 0 j] assms(2) by (auto simp: GetColumnIndex_def)
qed simp

lemma next_index:
  assumes "meta_ok (pages_meta ts xs)" "catalog_room ts xs" "i = next_id (index_meta_pages (pages_meta ts xs))"
  shows "meta_ok (pages_meta ts (xs @ [(i, p, x)]))" "\<forall>e\<in>set xs. fst e < i"
    "map_put i p (index_meta_pages (pages_meta ts xs)) = index_meta_pages (pages_meta ts (xs @ [(i, p, x)]))"
proof -
  have "\<forall>e\<in>set (index_meta_pages (pages_meta ts xs)). fst e < i" unfolding assms(3)
    by (rule next_id_above) (use assms(1,2) in \<open>auto simp: meta_ok_def pages_meta_def catalog_room_def\<close>)
  then show l: "\<forall>e\<in>set xs. fst e < i"
    and "map_put i p (index_meta_pages (pages_meta ts xs)) = index_meta_pages (pages_meta ts (xs @ [(i, p, x)]))"
    using map_put_last [of "index_meta_pages (pages_meta ts xs)" i p] by (simp_all add: pages_meta_def)
  show "meta_ok (pages_meta ts (xs @ [(i, p, x)]))"
    using assms(1,2) l by (simp add: meta_ok_def pages_meta_def catalog_room_def catalog_image_def sorted_wrt_append comp_def)
qed

lemma indexes_view_add:
  assumes "indexes_view cat ts xs" "table_of ts (im_table_id (ii_meta ii)) = Some t"
    "index_names cat' = add_index_name (tm_table_name t) (im_index_name (ii_meta ii)) i (index_names cat)" "indexes cat' = hash_put i ii (indexes cat)"
  shows "indexes_view cat' ts (xs @ [(i, p, ii_meta ii)])"
  unfolding indexes_view_def
proof (intro conjI allI)
  show "index_lookup (index_names cat') a b = map_of (map (\<lambda>e. ((tm_table_name (the (table_of ts (im_table_id (snd (snd e))))), im_index_name (snd (snd e))), fst e))
      (xs @ [(i, p, ii_meta ii)])) (a, b)" for a b
    using assms by (simp add: indexes_view_def index_lookup_add map_of_snoc del: map_of_append)
  show "map_option ii_meta (map_of (indexes cat') n) = map_of (map (\<lambda>e. (fst e, snd (snd e))) (xs @ [(i, p, ii_meta ii)])) n" for n
    using assms(1,4) by (auto simp: indexes_view_def map_of_hash_put map_of_snoc simp del: map_of_append dest: spec [of _ n] split: option.splits)
qed

lemma index_ok_ids: "index_ok x \<Longrightarrow> index_ok (x\<lparr>im_index_id := i, im_table_id := r\<rparr>)"
  by (simp add: index_ok_def index_image_def)

lemma CreateIndex_at:
  assumes "pool_at bp A M {} pins" "catalog_pages A M ts xs" "catalog_view cat ts xs" "index_refs ts xs" "catalog_room ts xs" "card A < 32704"
    "finite (dom pins)" "card (dom pins) + 1 < pool_size bp" "1 \<in> A" "roots_hold (M 1) rs"
    "map_of (table_names cat) (tm_table_name t) = Some j" "table_of ts j = Some t" "length (tm_schema t) < 2 ^ 32"
    "index_lookup (index_names cat) (tm_table_name t) name = None" "key_map_of (tm_schema t) keys = Some km"
    "index_ok \<lparr>im_index_id = 0, im_index_name = name, im_table_id = 0, im_key_map = km\<rparr>" "i = next_id (index_meta_pages (catalog_meta cat))"
  shows "\<exists>p info cat' bp' A' M' pins'. CreateIndex (tm_table_name t) name keys cat bp = Some (DB_SUCCESS, Some info, cat', bp')
    \<and> ii_meta info = \<lparr>im_index_id = i, im_index_name = name, im_table_id = j, im_key_map = km\<rparr> \<and> map col_name (ii_key_schema info) = keys
    \<and> pool_at bp' A' M' {} pins' \<and> dom pins' \<subseteq> insert 1 (dom pins) \<and> pool_size bp' = pool_size bp \<and> A \<subseteq> A' \<and> (\<forall>p\<in>A - {0}. M' p = M p)
    \<and> catalog_view cat' ts (xs @ [(i, p, ii_meta info)]) \<and> catalog_pages A' M' ts (xs @ [(i, p, ii_meta info)]) \<and> index_refs ts (xs @ [(i, p, ii_meta info)])
    \<and> (\<forall>e\<in>set xs. fst e < i)"
proof -
  have m: "catalog_meta cat = pages_meta ts xs" "tables_view cat ts" "indexes_view cat ts xs" "0 \<in> A" "meta_ok (pages_meta ts xs)"
    using assms(2,3) by (simp_all add: catalog_view_def catalog_pages_def)
  note nt = next_index [OF m(5) assms(5) assms(17) [unfolded m(1)]]
  obtain ti where ti: "map_of (tables cat) j = Some ti" "ti_meta ti = t"
    using m(2) assms(12) unfolding tables_view_def by (metis (no_types, lifting) option.map_disc_iff option.map_sel option.collapse option.sel option.distinct(1))
  let ?x = "\<lparr>im_index_id = i, im_index_name = name, im_table_id = j, im_key_map = km\<rparr>"
  have ok: "index_ok ?x" using index_ok_ids [OF assms(16), where i = i and r = j] by simp
  obtain ks where ks: "ShallowCopySchema (tm_schema t) km = Some ks" "map col_name ks = keys" using key_map_columns [OF assms(15,13)] by blast
  have c: "card (dom pins) < pool_size bp" using assms(8) by simp
  obtain T g bp1 where b: "BPlusTree_new i bp = Some (T, bp1)" "pool_at bp1 A M {} (pins(1 := Some g))" "pool_size bp1 = pool_size bp"
    using BPlusTree_new_at [OF assms(1,9,10,7) subset_refl c] by blast
  let ?ii = "\<lparr>ii_meta = ?x, ii_table = t, ii_key_schema = ks, ii_tree = T\<rparr>" and ?d = "index_image ?x @ drop (length (index_image ?x)) zero_page"
  have z: "length zero_page = 4096" "length ?d = 4096" using ok by (simp_all add: index_ok_def)
  have c2: "finite (dom (pins(1 := Some g)))" "card (dom (pins(1 := Some g))) < pool_size bp1"
    using assms(7,8) b(3) card_insert_le_m1 [of "card (dom pins) + 1" "dom pins" 1] by auto
  obtain q f bp2 pg bp3 u bp4 where s: "NewPage bp1 = Some (Some (q, f), bp2)" "q \<notin> A" "page_at f bp2 = Some pg"
    "IndexMetadata_SerializeTo ?x (data pg) = Some (?d, IndexMetadata_GetSerializedSize ?x)" "write_frame f ?d bp2 = Some bp3" "UnpinPage q True bp3 = Some (u, bp4)"
    "pool_at bp4 (insert q A) (M(q := ?d)) {} ((pins(1 := Some g))(q := None))" "pool_size bp4 = pool_size bp1"
    using store_record [where put = "IndexMetadata_SerializeTo ?x", OF b(2) assms(6) c2 IndexMetadata_SerializeTo_image [OF ok z(1)] z(2)] by (elim exE conjE) (rule that)
  let ?A = "insert q A" and ?pins = "(pins(1 := Some g))(q := None)" and ?xs = "xs @ [(i, id_word q, ?x)]"
  let ?cat = "cat\<lparr>catalog_meta := pages_meta ts ?xs, index_names := add_index_name (tm_table_name t) name i (index_names cat), indexes := hash_put i ?ii (indexes cat)\<rparr>"
  have F: "0 \<in> ?A" "meta_ok (catalog_meta ?cat)" "finite (insert 1 (dom pins))" "dom ?pins \<subseteq> insert 1 (dom pins)" "card (insert 1 (dom pins)) < pool_size bp4"
    using m(4) nt(1) assms(7,8) s(8) b(3) c2(2) by (auto simp: card_insert_if)
  obtain bp5 d where e: "FlushCatalogMetaPage ?cat bp4 = Some bp5" "pool_at bp5 ?A ((M(q := ?d))(0 := d)) {} (?pins(0 := None))" "pool_size bp5 = pool_size bp4"
    "CatalogMeta_DeserializeFrom d = Some (catalog_meta ?cat)" using Flush_at [OF s(7) F] by (elim exE conjE) (rule that)
  let ?M = "(M(q := ?d))(0 := d)"
  have si: "sint (id_word q) = q" "q \<noteq> 0" "q \<noteq> 1" using sint_id_at [OF e(2)] s(2) m(4) assms(9) by auto
  have x: "indexes_view ?cat ts (xs @ [(i, id_word q, ii_meta ?ii)])" by (rule indexes_view_add [OF m(3)]) (use assms(12) in simp_all)
  have v: "tables_view ?cat ts" "index_refs ts ?xs" using m(2) assms(4,12) ks(1) si by (simp_all add: tables_view_def index_refs_def)
  have p: "catalog_pages ?A ?M (ts @ []) (xs @ [(i, id_word q, ?x)])"
    by (rule catalog_pages_grow [OF assms(2)]) (use s(2) nt(1) e(4) si IndexMetadata_DeserializeFrom_image [OF ok] in auto)
  have "CreateIndex (tm_table_name t) name keys cat bp = Some (DB_SUCCESS, Some ?ii, ?cat, bp5)"
    using assms(11,14,15) ti ks(1) b(1) s(1,3-6) e(1) nt(3) m(1)
    by (auto simp: CreateIndex_def IndexInfo_Init_def index_lookup_def Let_def assms(17) pages_meta_def split: option.splits)
  moreover have "\<forall>p\<in>A - {0}. ?M p = M p" using s(2) by auto
  moreover have "dom (?pins(0 := None)) \<subseteq> insert 1 (dom pins)" by auto
  ultimately show ?thesis using v x p nt(2) ks(2) e(2,3) s(8) b(3)
    by (intro exI [of _ "id_word q"] exI [of _ ?ii] exI [of _ ?cat] exI [of _ bp5] exI [of _ ?A] exI [of _ ?M] exI [of _ "?pins(0 := None)"])
      (auto simp: catalog_view_def)
qed

text \<open>The index that \<open>GetIndex\<close> finds, if any.\<close>

definition index_answer :: "table_entry list \<Rightarrow> index_entry list \<Rightarrow> u8 list \<Rightarrow> u8 list \<Rightarrow> IndexMetadata option" where
  "index_answer ts xs a b = Option.bind
     (map_of (map (\<lambda>e. ((tm_table_name (the (table_of ts (im_table_id (snd (snd e))))), im_index_name (snd (snd e))), fst e)) xs) (a, b))
     (map_of (map (\<lambda>e. (fst e, snd (snd e))) xs))"

definition index_found :: "CatalogManager \<Rightarrow> u8 list \<Rightarrow> u8 list \<Rightarrow> IndexMetadata option" where
  "index_found cat a b = (case GetIndex a b cat of Some (DB_SUCCESS, Some info) \<Rightarrow> Some (ii_meta info) | _ \<Rightarrow> None)"

lemma GetIndex_view:
  assumes "indexes_view cat ts xs"
  shows "index_found cat a b = index_answer ts xs a b"
proof -
  have "index_found cat a b = Option.bind (index_lookup (index_names cat) a b) (\<lambda>i. map_option ii_meta (map_of (indexes cat) i))"
    by (auto simp: index_found_def GetIndex_def index_lookup_def split: option.splits Option.bind_splits)
  then show ?thesis using assms by (simp add: indexes_view_def index_answer_def)
qed

lemma index_answer_snoc:
  assumes "\<forall>e\<in>set xs. fst e < i" "table_of ts (im_table_id x) = Some t" "index_answer ts xs (tm_table_name t) (im_index_name x) = None"
  shows "index_answer ts (xs @ [(i, p, x)]) a b = (if (a, b) = (tm_table_name t, im_index_name x) then Some x else index_answer ts xs a b)"
proof -
  let ?m = "map (\<lambda>e. ((tm_table_name (the (table_of ts (im_table_id (snd (snd e))))), im_index_name (snd (snd e))), fst e)) xs"
  have *: "map_of (map (\<lambda>e. (fst e, snd (snd e))) xs) j \<noteq> None" if "map_of ?m k = Some j" for j k
    using map_of_SomeD [OF that] unfolding map_of_eq_None_iff by force
  have "map_of (map (\<lambda>e. (fst e, snd (snd e))) xs) i = None" using assms(1) unfolding map_of_eq_None_iff by force
  then show ?thesis using assms(2,3) * [of "(tm_table_name t, im_index_name x)"] * [of "(a, b)"]
    by (auto simp: index_answer_def map_of_snoc simp del: map_of_append split: option.splits Option.bind_splits)
qed

text \<open>The answers of a catalog to which an index was added.\<close>

lemma index_answers:
  assumes "tables_view cat ts" "indexes_view cat ts xs" "catalog_view c ts (xs @ [(i, p, x)])" "\<forall>e\<in>set xs. fst e < i" "table_of ts (im_table_id x) = Some t"
    "index_lookup (index_names cat) (tm_table_name t) (im_index_name x) = None" "map_of (table_names cat) (tm_table_name t) = Some j"
  shows "index_found c a b = (if (a, b) = (tm_table_name t, im_index_name x) then Some x else index_found cat a b)"
    "map_prod id (map_option ti_meta) (GetTable n c) = map_prod id (map_option ti_meta) (GetTable n cat)"
    "CreateIndex (tm_table_name t) (im_index_name x) ks c bp = Some (DB_INDEX_ALREADY_EXIST, None, c, bp)"
proof -
  have v: "tables_view c ts" "indexes_view c ts (xs @ [(i, p, x)])" using assms(3) by (simp_all add: catalog_view_def)
  have "index_answer ts xs (tm_table_name t) (im_index_name x) = None" using assms(2,6) by (simp add: indexes_view_def index_answer_def)
  from index_answer_snoc [OF assms(4,5) this]
  show f: "index_found c a b = (if (a, b) = (tm_table_name t, im_index_name x) then Some x else index_found cat a b)" for a b
    using GetIndex_view [OF v(2)] GetIndex_view [OF assms(2)] by simp
  show "map_prod id (map_option ti_meta) (GetTable n c) = map_prod id (map_option ti_meta) (GetTable n cat)"
    using GetTable_view(1) [OF v(1)] GetTable_view(1) [OF assms(1)] by simp
  obtain m where "map_of (index_names c) (tm_table_name t) = Some m" "map_of m (im_index_name x) \<noteq> None"
    using f [of "tm_table_name t" "im_index_name x"] by (auto simp: index_found_def GetIndex_def split: option.splits)
  moreover have "map_of (table_names c) (tm_table_name t) = Some j" using v(1) assms(1,7) by (simp add: tables_view_def)
  ultimately show "CreateIndex (tm_table_name t) (im_index_name x) ks c bp = Some (DB_INDEX_ALREADY_EXIST, None, c, bp)" by (simp add: CreateIndex_def)
qed

lemma load_all_append: "load_all load (as @ bs) cat bp = Option.bind (load_all load as cat bp) (\<lambda>(cat, bp). load_all load bs cat bp)"
  by (induction as arbitrary: cat bp) (auto split: Option.bind_splits)

lemma DropTable_maps:
  assumes "DropTable name cat bp = Some (DB_SUCCESS, cat', bp')"
  shows "index_meta_pages (catalog_meta cat') = index_meta_pages (catalog_meta cat) \<and> indexes cat' = indexes cat \<and> index_names cat' = index_names cat
    \<and> (\<exists>j. map_of (table_names cat) name = Some j \<and> table_meta_pages (catalog_meta cat') = map_erase j (table_meta_pages (catalog_meta cat)))"
  using assms by (auto simp: DropTable_def Let_def split: option.splits Option.bind_splits prod.splits)

section \<open>Properties\<close>

text \<open>
  C12: a table that is created is found again. On a catalog whose pages hold its tables and indexes, with a free frame and room for one more
  entry, \<open>CreateTable\<close> under a name that is not taken succeeds, and a catalog manager that is then opened on the pages
  loads. In both catalogs \<open>GetTable\<close> returns the new table with its name, its columns and the first page of its heap, which is empty, answers for every other name as
  before, and a second \<open>CreateTable\<close> under that name is refused.
\<close>

theorem create_table_survives:
  assumes "pool_at bp A M {} pins" "catalog_pages A M ts xs" "catalog_view cat ts xs" "index_refs ts xs" "catalog_room ts xs" "card A + 1 < 32704"
    "finite (dom pins)" "card (dom pins) + 2 < pool_size bp" "1 \<in> A" "roots_hold (M 1) rs"
    "fst (GetTable name cat) = DB_TABLE_NOT_EXIST" "table_ok \<lparr>tm_table_id = 0, tm_table_name = name, tm_root_page_id = 0, tm_schema = schema\<rparr>"
  shows "\<exists>t h cat1 bp1 A1 M1 pins1 cat2 bp2. CreateTable name schema cat bp = Some (DB_SUCCESS, Some \<lparr>ti_meta = t, ti_heap = h\<rparr>, cat1, bp1)
    \<and> CatalogManager_new False bp1 = Some (cat2, bp2) \<and> tm_table_name t = name \<and> tm_schema t = schema
    \<and> pool_at bp1 A1 M1 {} pins1 \<and> page_holds (M1 (first_page_id h)) (id_word (first_page_id h), - 1, - 1) [] \<and> (\<forall>p\<in>A - {0}. p \<in> A1 \<and> M1 p = M p)
    \<and> (\<forall>c\<in>{cat1, cat2}.
        (\<exists>info. GetTable name c = (DB_SUCCESS, Some info) \<and> ti_meta info = t \<and> first_page_id (ti_heap info) = first_page_id h)
      \<and> (\<forall>n. n \<noteq> name \<longrightarrow> map_prod id (map_option ti_meta) (GetTable n c) = map_prod id (map_option ti_meta) (GetTable n cat))
      \<and> (\<forall>s b. CreateTable name s c b = Some (DB_TABLE_ALREADY_EXIST, None, c, b)))"
proof -
  define i where "i = next_id (table_meta_pages (catalog_meta cat))"
  have tv: "tables_view cat ts" using assms(3) by (simp add: catalog_view_def)
  have nm: "map_of (table_names cat) name = None" using GetTable_view(3) [OF tv] assms(11) by simp
  have c: "card (dom pins) < pool_size bp" using assms(8) by simp
  obtain p t h cat1 bp1 A1 M1 pins1 where n: "CreateTable name schema cat bp = Some (DB_SUCCESS, Some \<lparr>ti_meta = t, ti_heap = h\<rparr>, cat1, bp1)"
    "t = new_table name schema i (id_word (first_page_id h))" "first_page_id h \<notin> A" "page_holds (M1 (first_page_id h)) (id_word (first_page_id h), - 1, - 1) []"
    "pool_at bp1 A1 M1 {} pins1" "dom pins1 \<subseteq> dom pins" "pool_size bp1 = pool_size bp" "A \<subseteq> A1" "\<forall>p\<in>A - {0}. M1 p = M p"
    "catalog_view cat1 (ts @ [(i, p, t)]) xs" "catalog_pages A1 M1 (ts @ [(i, p, t)]) xs" "index_refs (ts @ [(i, p, t)]) xs" "table_of ts i = None"
    "sint (tm_root_page_id t) = first_page_id h"
    using CreateTable_at [OF assms(1-7) c nm assms(12) i_def] by blast
  have f: "1 \<in> A1" "roots_hold (M1 1) rs" "finite (dom pins1)" "card (dom pins1) + 2 < pool_size bp1"
    using n(6-9) assms(7-10) finite_subset [OF n(6)] card_mono [OF assms(7) n(6)] by auto
  obtain cat2 bp2 where r: "CatalogManager_new False bp1 = Some (cat2, bp2)" "catalog_view cat2 (ts @ [(i, p, t)]) xs"
    using catalog_opens [OF n(5,11,12) f] by blast
  have "tm_table_name t = name" "tm_schema t = schema" using n(2) by simp_all
  note t = this
  have w: "tables_view c (ts @ [(i, p, t)])" if "c \<in> {cat1, cat2}" for c using that n(10) r(2) by (auto simp: catalog_view_def)
  have x: "fst (GetTable (tm_table_name t) cat) = DB_TABLE_NOT_EXIST" using t assms(11) by simp
  note ans = table_answers [OF tv w x n(13), unfolded t n(14)]
  have "\<forall>p\<in>A - {0}. p \<in> A1 \<and> M1 p = M p" using n(8,9) by blast
  then show ?thesis using n(1,4,5) r(1) t ans
    by (intro exI [of _ t] exI [of _ h] exI [of _ cat1] exI [of _ bp1] exI [of _ A1] exI [of _ M1] exI [of _ pins1] exI [of _ cat2] exI [of _ bp2])
      (simp (no_asm_simp))
qed

lemma catalog_starts:
  assumes "pool_at bp A M {} pins" "0 \<in> A" "finite (dom pins)" "card (dom pins) < pool_size bp"
  shows "\<exists>cat bp' d. CatalogManager_new True bp = Some (cat, bp') \<and> pool_at bp' A (M(0 := d)) {} (pins(0 := None)) \<and> pool_size bp' = pool_size bp
    \<and> catalog_view cat [] [] \<and> catalog_pages A (M(0 := d)) [] []"
proof -
  let ?cat = "\<lparr>catalog_meta = CatalogMeta_new, table_names = [], tables = [], index_names = [], indexes = []\<rparr>"
  have m: "meta_ok CatalogMeta_new" "pages_meta [] [] = CatalogMeta_new" by (simp_all add: meta_ok_def CatalogMeta_new_def catalog_image_def pages_meta_def)
  obtain bp' d where f: "FlushCatalogMetaPage ?cat bp = Some bp'" "pool_at bp' A (M(0 := d)) {} (pins(0 := None))" "pool_size bp' = pool_size bp"
    "CatalogMeta_DeserializeFrom d = Some CatalogMeta_new"
    using Flush_at [OF assms(1,2) _ assms(3) subset_refl assms(4), of ?cat] m(1) by (simp del: fun_upd_apply) blast
  have "catalog_view ?cat [] []" "catalog_pages A (M(0 := d)) [] []"
    using f(4) m assms(2) by (simp_all add: catalog_view_def tables_view_def table_of_def indexes_view_def index_lookup_def catalog_pages_def)
  then show ?thesis using f by (intro exI [of _ ?cat] exI [of _ bp'] exI [of _ d]) (simp add: CatalogManager_new_def del: fun_upd_apply)
qed

lemma sample_catalog:
  "\<exists>cat bp M. pool_at bp {0, 1} M {} (\<lambda>_. None) \<and> pool_size bp = 4 \<and> roots_hold (M 1) [] \<and> catalog_view cat [] [] \<and> catalog_pages {0, 1} M [] []"
proof -
  obtain bp where "pool_at bp {0, 1} (\<lambda>_. zero_page) {} (\<lambda>_. None)" "pool_size bp = 4" using sample_pool by blast
  then obtain cat bp' d where c: "pool_at bp' {0, 1} ((\<lambda>_. zero_page)(0 := d)) {} ((\<lambda>_. None)(0 := None))" "pool_size bp' = 4" "catalog_view cat [] []"
    "catalog_pages {0, 1} ((\<lambda>_. zero_page)(0 := d)) [] []" using catalog_starts [of bp "{0, 1}" "\<lambda>_. zero_page" "\<lambda>_. None"] by (auto simp del: fun_upd_apply)
  then show ?thesis using zero_roots
    by (intro exI [of _ cat] exI [of _ bp'] exI [of _ "(\<lambda>_. zero_page)(0 := d)"]) (simp add: fun_upd_idem)
qed

theorem create_table_survives_witness:
  "\<exists>cat bp cat1 bp1 cat2 bp2 info. CreateTable [116, 49] (tm_schema sample_table) cat bp = Some (DB_SUCCESS, Some info, cat1, bp1)
    \<and> CatalogManager_new False bp1 = Some (cat2, bp2) \<and> map_prod id (map_option ti_meta) (GetTable [116, 49] cat2) = (DB_SUCCESS, Some (ti_meta info))
    \<and> fst (GetTable [116, 50] cat2) = DB_TABLE_NOT_EXIST \<and> fst (GetTable [116, 49] cat) = DB_TABLE_NOT_EXIST"
proof -
  obtain cat bp M where c: "pool_at bp {0, 1} M {} (\<lambda>_. None)" "pool_size bp = 4" "roots_hold (M 1) []" "catalog_view cat [] []" "catalog_pages {0, 1} M [] []"
    using sample_catalog by blast
  have n: "GetTable n cat = (DB_TABLE_NOT_EXIST, None)" for n using c(4) by (simp add: catalog_view_def tables_view_def GetTable_def)
  have "table_ok \<lparr>tm_table_id = 0, tm_table_name = [116, 49], tm_root_page_id = 0, tm_schema = tm_schema sample_table\<rparr>"
    using table_ok_ids [OF sample_records(2), where i = 0 and r = 0] by (simp add: sample_table_def)
  with create_table_survives [OF c(1,5,4), of "[]" "[116, 49]" "tm_schema sample_table"] c(2,3) n
  obtain t h cat1 bp1 cat2 bp2 where r: "CreateTable [116, 49] (tm_schema sample_table) cat bp = Some (DB_SUCCESS, Some \<lparr>ti_meta = t, ti_heap = h\<rparr>, cat1, bp1)"
    "CatalogManager_new False bp1 = Some (cat2, bp2)" "\<exists>info. GetTable [116, 49] cat2 = (DB_SUCCESS, Some info) \<and> ti_meta info = t"
    "\<forall>n. n \<noteq> [116, 49] \<longrightarrow> map_prod id (map_option ti_meta) (GetTable n cat2) = map_prod id (map_option ti_meta) (GetTable n cat)"
    by (auto simp: index_refs_def catalog_room_def)
  have "fst (GetTable [116, 50] cat2) = DB_TABLE_NOT_EXIST" using r(4) [rule_format, of "[116, 50]"] n [of "[116, 50]"] by (cases "GetTable [116, 50] cat2") simp
  then show ?thesis using r(1-3) n [of "[116, 49]"] by fastforce
qed

text \<open>
  C38: an index that is created is found again. On a catalog whose pages hold its tables and indexes, with free frames and room for one more
  entry, \<open>CreateIndex\<close> on columns of a table that is there, under a name that has no index on that table, succeeds with the columns in the order asked for.
  A catalog manager that is then opened on the pages loads. In both catalogs the new index is found under its table
  and its name with its columns, every other index is found as before, every table too, and a second \<open>CreateIndex\<close> under that name is refused.
\<close>

theorem create_index_survives:
  assumes "pool_at bp A M {} pins" "catalog_pages A M ts xs" "catalog_view cat ts xs" "index_refs ts xs" "catalog_room ts xs" "card A < 32704"
    "finite (dom pins)" "card (dom pins) + 3 < pool_size bp" "1 \<in> A" "roots_hold (M 1) rs"
    "map_of (table_names cat) (tm_table_name t) = Some j" "table_of ts j = Some t" "length (tm_schema t) < 2 ^ 32"
    "index_lookup (index_names cat) (tm_table_name t) name = None" "key_map_of (tm_schema t) keys = Some km"
    "index_ok \<lparr>im_index_id = 0, im_index_name = name, im_table_id = 0, im_key_map = km\<rparr>"
  shows "\<exists>info cat1 bp1 cat2 bp2. CreateIndex (tm_table_name t) name keys cat bp = Some (DB_SUCCESS, Some info, cat1, bp1)
    \<and> CatalogManager_new False bp1 = Some (cat2, bp2) \<and> im_key_map (ii_meta info) = km \<and> map col_name (ii_key_schema info) = keys
    \<and> (\<forall>c\<in>{cat1, cat2}.
        (\<forall>a b. index_found c a b = (if (a, b) = (tm_table_name t, name) then Some (ii_meta info) else index_found cat a b))
      \<and> (\<forall>n. map_prod id (map_option ti_meta) (GetTable n c) = map_prod id (map_option ti_meta) (GetTable n cat))
      \<and> (\<forall>ks b. CreateIndex (tm_table_name t) name ks c b = Some (DB_INDEX_ALREADY_EXIST, None, c, b)))"
proof -
  define i where "i = next_id (index_meta_pages (catalog_meta cat))"
  have vw: "tables_view cat ts" "indexes_view cat ts xs" using assms(3) by (simp_all add: catalog_view_def)
  have c: "card (dom pins) + 1 < pool_size bp" using assms(8) by simp
  obtain p info cat1 bp1 A1 M1 pins1 where n: "CreateIndex (tm_table_name t) name keys cat bp = Some (DB_SUCCESS, Some info, cat1, bp1)"
    "ii_meta info = \<lparr>im_index_id = i, im_index_name = name, im_table_id = j, im_key_map = km\<rparr>" "map col_name (ii_key_schema info) = keys"
    "pool_at bp1 A1 M1 {} pins1" "dom pins1 \<subseteq> insert 1 (dom pins)" "pool_size bp1 = pool_size bp" "A \<subseteq> A1" "\<forall>p\<in>A - {0}. M1 p = M p"
    "catalog_view cat1 ts (xs @ [(i, p, ii_meta info)])" "catalog_pages A1 M1 ts (xs @ [(i, p, ii_meta info)])" "index_refs ts (xs @ [(i, p, ii_meta info)])"
    "\<forall>e\<in>set xs. fst e < i"
    using CreateIndex_at [OF assms(1-7) c assms(9-16) i_def] by blast
  have f: "1 \<in> A1" "roots_hold (M1 1) rs" "finite (dom pins1)" "card (dom pins1) + 2 < pool_size bp1"
    using n(5-8) assms(7-10) finite_subset [OF n(5)] card_mono [OF _ n(5)] card_insert_le_m1 [of "card (dom pins) + 1" "dom pins" 1] by auto
  obtain cat2 bp2 where r: "CatalogManager_new False bp1 = Some (cat2, bp2)" "catalog_view cat2 ts (xs @ [(i, p, ii_meta info)])"
    using catalog_opens [OF n(4,10,11) f] by blast
  have t: "table_of ts (im_table_id (ii_meta info)) = Some t" "im_index_name (ii_meta info) = name" using n(2) assms(12) by simp_all
  note ans = index_answers [OF vw _ n(12) t(1), unfolded t(2)]
  have w: "catalog_view c ts (xs @ [(i, p, ii_meta info)])" if "c \<in> {cat1, cat2}" for c using that n(9) r(2) by auto
  have km: "im_key_map (ii_meta info) = km" using n(2) by simp
  show ?thesis using n(1,3) r(1) km ans [OF w assms(14) assms(11)]
    by (intro exI [of _ info] exI [of _ cat1] exI [of _ bp1] exI [of _ cat2] exI [of _ bp2]) (simp (no_asm_simp))
qed

text \<open>A catalog with one table of one column, called \<open>t1\<close>, and no index.\<close>

lemma sample_with_table:
  "\<exists>cat bp A M p t. pool_at bp A M {} (\<lambda>_. None) \<and> pool_size bp = 4 \<and> 1 \<in> A \<and> card A < 32704 \<and> roots_hold (M 1) []
    \<and> catalog_view cat [(0, p, t)] [] \<and> catalog_pages A M [(0, p, t)] [] \<and> tm_table_name t = [116, 49] \<and> tm_schema t = tm_schema sample_table"
proof -
  obtain cat bp M where c: "pool_at bp {0, 1} M {} (\<lambda>_. None)" "pool_size bp = 4" "roots_hold (M 1) []" "catalog_view cat [] []" "catalog_pages {0, 1} M [] []"
    using sample_catalog by blast
  have i: "0 = next_id (table_meta_pages (catalog_meta cat))" "map_of (table_names cat) [116, 49] = None"
    using c(4) by (simp_all add: catalog_view_def pages_meta_def next_id_def tables_view_def)
  have ok: "table_ok (new_table [116, 49] (tm_schema sample_table) 0 0)"
    using table_ok_ids [OF sample_records(2), where i = 0 and r = 0] by (simp add: sample_table_def)
  have f: "index_refs [] []" "catalog_room [] []" "card {0, 1 :: int} + 1 < 32704" "finite (dom (\<lambda>_ :: int. None :: nat option))" "card (dom (\<lambda>_ :: int. None :: nat option)) < pool_size bp"
    using c(2) by (simp_all add: index_refs_def catalog_room_def)
  obtain p t h cat1 bp1 A1 M1 pins1 where n: "CreateTable [116, 49] (tm_schema sample_table) cat bp = Some (DB_SUCCESS, Some \<lparr>ti_meta = t, ti_heap = h\<rparr>, cat1, bp1)"
    "t = new_table [116, 49] (tm_schema sample_table) 0 (id_word (first_page_id h))" "first_page_id h \<notin> {0, 1}" "page_holds (M1 (first_page_id h)) (id_word (first_page_id h), - 1, - 1) []"
    "pool_at bp1 A1 M1 {} pins1" "dom pins1 \<subseteq> dom (\<lambda>_ :: int. None :: nat option)" "pool_size bp1 = pool_size bp" "{0, 1} \<subseteq> A1" "\<forall>p\<in>{0, 1} - {0}. M1 p = M p"
    "catalog_view cat1 ([] @ [(0, p, t)]) []" "catalog_pages A1 M1 ([] @ [(0, p, t)]) []" "index_refs ([] @ [(0, p, t)]) []" "table_of [] 0 = None"
    "sint (tm_root_page_id t) = first_page_id h" "card A1 \<le> card {0, 1 :: int} + 2"
    using CreateTable_at [OF c(1,5,4) f i(2) ok i(1)] by (elim exE conjE) (rule that)
  have "pins1 = (\<lambda>_. None)" using n(6) by (auto simp: dom_def fun_eq_iff)
  then show ?thesis using n(2,5,7-11,15) c(2,3)
    by (intro exI [of _ cat1] exI [of _ bp1] exI [of _ A1] exI [of _ M1] exI [of _ p] exI [of _ t]) simp
qed

lemma sample_key:
  assumes "tm_schema t = tm_schema sample_table"
  shows "key_map_of (tm_schema t) [[105, 100]] = Some [0]" "index_ok \<lparr>im_index_id = 0, im_index_name = [105], im_table_id = 0, im_key_map = [0]\<rparr>" "length (tm_schema t) < 2 ^ 32"
  by (simp_all add: assms sample_table_def GetColumnIndex_def index_ok_def index_image_def)

theorem create_index_survives_witness:
  "\<exists>cat bp cat1 bp1 cat2 bp2 info. CreateIndex [116, 49] [105] [[105, 100]] cat bp = Some (DB_SUCCESS, Some info, cat1, bp1)
    \<and> CatalogManager_new False bp1 = Some (cat2, bp2) \<and> index_found cat2 [116, 49] [105] = Some (ii_meta info) \<and> im_key_map (ii_meta info) = [0]
    \<and> index_found cat [116, 49] [105] = None"
proof -
  obtain cat bp A M p t where c: "pool_at bp A M {} (\<lambda>_. None)" "pool_size bp = 4" "1 \<in> A" "card A < 32704" "roots_hold (M 1) []"
    "catalog_view cat [(0, p, t)] []" "catalog_pages A M [(0, p, t)] []" "tm_table_name t = [116, 49]" "tm_schema t = tm_schema sample_table"
    using sample_with_table by blast
  have n: "map_of (table_names cat) (tm_table_name t) = Some 0" "index_lookup (index_names cat) (tm_table_name t) [105] = None"
    using c(6) by (simp_all add: catalog_view_def tables_view_def indexes_view_def)
  have f: "index_refs [(0, p, t)] []" "catalog_room [(0, p, t)] []" "finite (dom (\<lambda>_ :: int. None :: nat option))" "card (dom (\<lambda>_ :: int. None :: nat option)) + 3 < pool_size bp"
    "table_of [(0, p, t)] 0 = Some t" using c(2) by (simp_all add: index_refs_def catalog_room_def table_of_def)
  have "index_found cat [116, 49] [105] = None" using n(2) c(8) by (auto simp: index_found_def GetIndex_def index_lookup_def split: option.splits)
  moreover obtain info cat1 bp1 cat2 bp2 where "CreateIndex [116, 49] [105] [[105, 100]] cat bp = Some (DB_SUCCESS, Some info, cat1, bp1)"
    "CatalogManager_new False bp1 = Some (cat2, bp2)" "im_key_map (ii_meta info) = [0]" "index_found cat2 [116, 49] [105] = Some (ii_meta info)"
    using create_index_survives [OF c(1,7,6) f(1,2) c(4) f(3,4) c(3,5) n(1) f(5) sample_key(3) [OF c(9)] n(2) sample_key(1) [OF c(9)] sample_key(2) [OF c(9)]] c(8)
    by auto
  ultimately show ?thesis by blast
qed

text \<open>
  C39: a catalog with an index whose table is gone cannot be opened. When the pages hold an index of a table that the catalog does not list, the
  indexes before it being sound, the constructor of the catalog manager uses a null pointer. \<open>DropTable\<close> is the way to such a record:
  when it succeeds, the table is out of the catalog record and every index is still in it.
\<close>

theorem orphan_index_fails:
  assumes "pool_at bp A M {} pins" "catalog_pages A M ts (xs @ e # ys)" "index_refs ts xs" "table_of ts (im_table_id (snd (snd e))) = None"
    "1 \<in> A" "roots_hold (M 1) rs" "finite (dom pins)" "card (dom pins) + 2 < pool_size bp"
  shows "CatalogManager_new False bp = None
    \<and> (\<forall>name cat b cat' b'. DropTable name cat b = Some (DB_SUCCESS, cat', b') \<longrightarrow> index_meta_pages (catalog_meta cat') = index_meta_pages (catalog_meta cat)
      \<and> (\<exists>j. map_of (table_names cat) name = Some j \<and> table_meta_pages (catalog_meta cat') = map_erase j (table_meta_pages (catalog_meta cat))))"
proof -
  have pg: "0 \<in> A" "CatalogMeta_DeserializeFrom (M 0) = Some (pages_meta ts (xs @ e # ys))"
    "\<forall>e\<in>set ts. entry_page e \<in> A - {0} \<and> (\<exists>n. TableMetadata_DeserializeFrom (M (entry_page e)) = Some (snd (snd e), n))"
    "\<forall>e\<in>set xs. entry_page e \<in> A - {0} \<and> (\<exists>n. IndexMetadata_DeserializeFrom (M (entry_page e)) = Some (snd (snd e), n))"
    and e: "entry_page e \<in> A" "\<exists>n. IndexMetadata_DeserializeFrom (M (entry_page e)) = Some (snd (snd e), n)"
    using assms(2) by (auto simp: catalog_pages_def)
  obtain cat1 bp1 pins1 where o: "CatalogManager_new False bp = load_all LoadIndex (map (\<lambda>e. (fst e, fst (snd e))) (xs @ e # ys)) cat1 bp1"
    "pool_at bp1 A M {} pins1" "dom pins1 \<subseteq> insert 1 (dom pins)" "pool_size bp1 = pool_size bp" "tables_view cat1 ts"
    using catalog_tables_open [OF assms(1) pg(1-3) assms(7,8)] by (auto simp: pages_meta_def)
  let ?D = "insert 1 (dom pins)"
  have D: "finite ?D" "1 \<in> ?D" "card ?D + 1 < pool_size bp1" "card ?D < pool_size bp"
    using assms(7,8) o(4) card_insert_le_m1 [of "card (dom pins) + 1" "dom pins" 1] by auto
  have tv: "\<forall>i. map_option ti_meta (map_of (tables cat1) i) = table_of ts i" using o(5) by (simp add: tables_view_def)
  obtain bp2 pins2 cat2 where x: "load_all LoadIndex (map (\<lambda>e. (fst e, fst (snd e))) xs) cat1 bp1 = Some (cat2, bp2)" "tables cat2 = tables cat1"
    "pool_at bp2 A M {} pins2" "dom pins2 \<subseteq> ?D" "pool_size bp2 = pool_size bp1"
    using load_indexes [OF o(2) pg(4) assms(3) tv assms(5,6) D(1) o(3) D(2,3)] by (elim exE conjE) (rule that, assumption, simp_all)
  have "card ?D < pool_size bp2" using D(3) x(5) by simp
  then obtain f bp3 g where f: "FetchPage (entry_page e) bp2 = Some (Some f, bp3)" "page_at f bp3 = Some g" "data g = M (entry_page e)"
    using fetch_read_page [OF x(3) e(1) D(1) x(4)] by blast
  have "map_of (tables cat2) (im_table_id (snd (snd e))) = None" using tv assms(4) x(2) by (metis option.map_disc_iff)
  then have "LoadIndex (fst e) (fst (snd e)) cat2 bp2 = None" using f e(2) by (auto simp: LoadIndex_def)
  then have "CatalogManager_new False bp = None" using o(1) x(1) by (simp add: load_all_append)
  then show ?thesis using DropTable_maps by blast
qed


text \<open>The same catalog with an index, after the table was taken out of its record.\<close>

theorem orphan_index_fails_witness:
  "\<exists>bp A M p x. pool_at bp A M {} (\<lambda>_. None) \<and> catalog_pages A M [] [(0, p, x)] \<and> im_index_name x = [105] \<and> CatalogManager_new False bp = None"
proof -
  let ?n = "\<lambda>_ :: int. None :: nat option"
  define A :: "int set" where "A = {0, 1}"
  obtain cat bp M where c: "pool_at bp A M {} ?n" "pool_size bp = 4" "1 \<in> A" "roots_hold (M 1) []" "catalog_view cat [] []" "catalog_pages A M [] []" "card A < 32704"
    using sample_catalog by (elim exE conjE) (rule that, simp_all add: A_def)
  let ?x = "\<lparr>im_index_id = 0, im_index_name = [105], im_table_id = 0, im_key_map = [0]\<rparr>" 
  have ok: "index_ok ?x" using sample_key(2) [of sample_table] by simp
  let ?d = "index_image ?x @ drop (length (index_image ?x)) zero_page"
  have z: "length zero_page = 4096" "length ?d = 4096" using ok by (simp_all add: index_ok_def)
  have f: "finite (dom ?n)" "card (dom ?n) < pool_size bp" "0 \<in> A" using c(2,6) by (simp_all add: catalog_pages_def)
  obtain q bp1 where s: "q \<notin> A" "pool_at bp1 (insert q A) (M(q := ?d)) {} (?n(q := None))" "pool_size bp1 = pool_size bp"
    using store_record [where put = "IndexMetadata_SerializeTo ?x", OF c(1,7) f(1,2) IndexMetadata_SerializeTo_image [OF ok z(1)] z(2)] by (elim exE conjE) (rule that)
  let ?xs = "[(0, id_word q, ?x)]"
  let ?cat = "cat\<lparr>catalog_meta := pages_meta [] ?xs\<rparr>"
  have F: "0 \<in> insert q A" "meta_ok (catalog_meta ?cat)" "finite (dom ?n)" "dom (?n(q := None)) \<subseteq> dom ?n" "card (dom ?n) < pool_size bp1"
    using f c(2) s(3) by (auto simp: meta_ok_def pages_meta_def catalog_image_def)
  obtain bp2 d where e: "pool_at bp2 (insert q A) ((M(q := ?d))(0 := d)) {} (?n(q := None, 0 := None))" "pool_size bp2 = pool_size bp1"
    "CatalogMeta_DeserializeFrom d = Some (catalog_meta ?cat)" using Flush_at [OF s(2) F] by (elim exE conjE) (rule that)
  let ?M = "(M(q := ?d))(0 := d)"
  have si: "sint (id_word q) = q" "q \<noteq> 0" "q \<noteq> 1" "?n(q := None, 0 := None) = ?n" using sint_id_at [OF e(1)] s(1) f(3) c(3) by auto
  have p: "catalog_pages (insert q A) ?M ([] @ []) ([] @ ?xs)"
    by (rule catalog_pages_grow [OF c(6)]) (use s(1) F(2) e(3) si IndexMetadata_DeserializeFrom_image [OF ok] in auto)
  have r: "roots_hold (?M 1) []" "index_refs [] []" using c(4) si by (simp_all add: index_refs_def)
  have "CatalogManager_new False bp2 = None"
    by (rule conjunct1 [OF orphan_index_fails [where ts = "[]" and xs = "[]" and ys = "[]" and e = "(0, id_word q, ?x)", OF e(1) _ r(2) _ _ r(1)]])
      (use p c(2,3) s(3) e(2) si(4) in \<open>simp_all add: table_of_def del: fun_upd_apply\<close>)
  then show ?thesis using p e(1) unfolding si(4) by (intro exI [of _ bp2] exI [of _ "insert q A"] exI [of _ ?M] exI [of _ "id_word q"] exI [of _ ?x]) (simp del: fun_upd_apply)
qed

end
