(* ===== verification/Spec2Isabelle.thy ===== *)
theory Spec2Isabelle
  imports Boot Rand Sql_Commands Schemas Table_Heap BPlus_Search Catalog
begin

text \<open>
  Verification library for the programs of this repository: \<open>minios/lab10\<close>, a RISC-V teaching kernel
  in C, and \<open>MiniSQL\<close>, a small database in C++ with a flex/bison front end in C. A third project,
  \<open>rv64cpu\<close>, is Verilog and not covered.

  \<^bold>\<open>The kernel.\<close> Memory is a byte map on 64-bit addresses (\<open>Phys_Mem\<close>, with \<open>ld\<close>/\<open>st\<close> for 8-byte words
  and \<open>memset\<close>); all kernel data lives in it at the offsets of the C structures, and machine words
  keep their width.
  \<^item> \<open>Kalloc\<close>: \<open>kernel/mm.c\<close>. The free list threaded through the pages, \<open>kalloc\<close>, \<open>kfree\<close>, \<open>kfreerange\<close>,
    \<open>mm_init\<close>. After start-up allocations are distinct zeroed pages until RAM is used up.
  \<^item> \<open>Page_Table\<close>: \<open>kernel/vm.c\<close>. \<open>setup_vm\<close>, \<open>create_mapping\<close>, \<open>setup_vm_final\<close> against the three-level Sv39 walk: what
    is mapped, with which rights, and that nothing else changes.
  \<^item> \<open>Vma\<close>: the area list of \<open>kernel/proc.c\<close> (\<open>find_vma\<close>, \<open>do_mmap\<close>, \<open>get_unmapped_area\<close>), as a doubly linked list in
    memory abstracted to a list of areas.
  \<^item> \<open>Task\<close>: the rest of \<open>proc.c\<close> and the context switch of \<open>entry.S\<close>: \<open>task_init\<close>, \<open>do_fork\<close>, \<open>schedule\<close>, \<open>do_timer\<close>,
    \<open>switch_to\<close>.
  \<^item> \<open>Trap\<close>: \<open>kernel/trap.c\<close> and \<open>clock.c\<close>: system calls, timer and page faults, which bring \<open>Kalloc\<close>, \<open>Page_Table\<close> and \<open>Vma\<close>
    together. \<open>Boot\<close>: \<open>init/main.c\<close> from \<open>start_kernel\<close> to the first user task.
  \<^item> \<open>Printk\<close>: \<open>lib/printk.c\<close>, \<open>user/printf.c\<close>, \<open>lib/print.c\<close> as the characters they emit. \<open>Rand\<close>: \<open>lib/rand.c\<close>.

  \<^bold>\<open>The SQL front end.\<close> Nodes of the syntax tree live in a store indexed by addresses; a missing
  node, an index outside an array or a jump of \<open>yylex\<close> that needs a file is \<open>None\<close>.
  \<^item> \<open>Syntax_Tree\<close>: \<open>parser/syntax_tree.c\<close> and \<open>parser/parser.c\<close>; \<open>holds g L\<close> says that the sibling lists at the roots
    of \<open>L\<close> are the given trees, disjoint in the store.
  \<^item> \<open>Lexer_Tables\<close>, \<open>Lexer\<close>: \<open>parser/minisql_lex.c\<close>. The tables, the buffers over a string, the match loop with
    backing up, the actions and the end of the buffer. \<open>Lexer_Automaton\<close> and \<open>Lexer_Spec\<close> prove that the
    tables encode the longest match of words, numbers, strings and marks (\<open>lexeme\<close>); \<open>Lexer_Correct\<close>
    proves that \<open>yylex\<close> computes it call by call.
  \<^item> \<open>Yacc_Tables\<close>, \<open>Yacc\<close>: \<open>parser/minisql_yacc.c\<close>. The tables, every semantic action and \<open>yyparse\<close> label by
    label, with the growth of its stacks, error recovery and the exhausted stack.
  \<^item> \<open>Grammar\<close>: the rules as \<open>yyrhs\<close> lists them and derivations with their trees, the abstract
    specification. \<open>LR_Tables\<close> checks the tables against LR items; \<open>LR_Machine\<close> derives soundness,
    completeness, termination and determinism of the abstract machine; \<open>Yacc_Actions\<close> relates the actions
    to the trees; \<open>Yacc_Correct\<close> proves the simulation for any scanner that satisfies the locale
    \<open>token_source\<close>.
  \<^item> \<open>Sql_Parser\<close> interprets \<open>token_source\<close> by \<open>yylex\<close> and models how \<open>main.cpp\<close> reads, scans, parses and
    releases a command. \<open>Grammar_Rules\<close> and \<open>Sql_Syntax\<close> give the statements as a datatype with text and tree;
    \<open>Sql_Commands\<close> states what holds of the whole path.

  \<^bold>\<open>The storage engine.\<close> Pages are lists of 4096 bytes; the database file is one list of bytes.
  \<^item> \<open>Bitmap_Page\<close>: \<open>page/bitmap_page.cpp\<close>, at the widths of its fields, refines a set of allocated offsets.
  \<^item> \<open>Bytes\<close>: little-endian integers in a byte list. \<open>Disk_Manager\<close>: \<open>storage/disk_manager.cpp\<close>, the meta page, the
    extents and the map from logical to physical pages; the locale \<open>page_disk\<close> is what the pool relies on.
  \<^item> \<open>Lru_Replacer\<close>: \<open>buffer/lru_replacer.cpp\<close>, the list with its table of positions, equals a plain list; the
    locale \<open>replacer\<close> is what the pool relies on.
  \<^item> \<open>Buffer_Pool\<close>: \<open>buffer/buffer_pool_manager.cpp\<close> over both. \<open>pool_ok\<close> is its invariant, \<open>view\<close> the content a client
    sees of a page, and \<open>pool_step\<close> one call of a client that unpins what it wrote as dirty. What such
    clients read is what they wrote last, and closing the pool leaves it in the file.
  \<^item> \<open>Serial\<close>: objects written one behind the other; the locale \<open>codec\<close> is the contract of one kind of object,
    interpreted by fields and by columns. \<open>Field_Types\<close>, \<open>Rows\<close>, \<open>Schemas\<close>: \<open>record/\<close>. Typed fields with their
    comparisons, rows with the bitmap of their null fields, columns and schemas; each has an image in
    bytes that is written and read back.
  \<^item> \<open>Table_Page\<close>: \<open>page/table_page.cpp\<close>, the slotted page on its bytes. \<open>page_inv\<close> says how slots, gap and tuples
    share the page, \<open>page_holds\<close> that it stores a list of slots; every operation refines its counterpart
    on that list.
  \<^item> \<open>Pool_Pins\<close>: what a client of the pool relies on in terms of which pages are pinned: \<open>pool_at\<close> gives the content
    of every page, the pages written but not reported and the pinned pages with their frames, and one
    lemma per call says how they change. A frame is always available while fewer pages are pinned
    than the pool has frames.
  \<^item> \<open>Table_Heap\<close>: \<open>storage/table_heap.cpp\<close> and \<open>storage/table_iterator.cpp\<close>, the doubly linked list of table pages. \<open>heap_at\<close>
    relates it to a list of pages with their slots, \<open>heap_read\<close> to a map from row ids to rows; insertion,
    deletion and the scan are stated on that map.
  \<^item> \<open>Index_Pages\<close>: the nodes of the B+ tree, \<open>page/b_plus_tree_page.cpp\<close>, \<open>b_plus_tree_leaf_page.cpp\<close> and
    \<open>b_plus_tree_internal_page.cpp\<close>, as records with an array. The locale \<open>key_order\<close> is what a node relies on of its
    comparator; under it a leaf refines a map and binary search finds the child of a key. \<open>Generic_Key\<close>:
    \<open>index/generic_key.h\<close>, rows as keys, whose comparator satisfies \<open>key_order\<close> on rows without null and NaN.
    \<open>Node_Bytes\<close>: the same nodes as bytes of a page, written and read back. \<open>Index_Roots\<close>:
    \<open>page/index_roots_page.cpp\<close>, a map from index ids to root pages.
  \<^item> \<open>BPlus_Tree\<close>: \<open>index/b_plus_tree.cpp\<close>, \<open>index_iterator.cpp\<close> and \<open>b_plus_tree_index.cpp\<close> over the pool. \<open>BPlus_Search\<close> relates
    the pages of an index to a tree with ordered entries (\<open>index_at\<close>): a search of an index of any height
    answers as the list of its entries, and insertion into a leaf with room, the first insertion and
    removal from a leaf that stays half full change that list by one entry. Splits and merges of nodes
    are modelled; what is proved of them is that the moves between leaves keep the entries.

  \<^item> \<open>Catalog_Meta\<close>: the records of \<open>catalog/catalog.cpp\<close>, \<open>table.cpp\<close> and \<open>indexes.cpp\<close> on their pages. \<open>Catalog\<close>: the catalog
    manager over the heap, the B+ tree and the pool. \<open>catalog_pages\<close> says what the pages store, \<open>catalog_view\<close> what the
    maps in memory answer; a table or an index that is created is found, also after the catalog is
    opened again from its pages.

  \<^bold>\<open>Bounds and loops.\<close> Loops that may not end are \<open>partial_function (option)\<close>; that they return is
  proved as such: \<open>kfreerange\<close>, \<open>create_mapping\<close>, \<open>schedule\<close> and \<open>find_vma\<close> under their invariants, \<open>yylex\<close> and \<open>yyparse\<close>
  on every text. No fuel is used. The parser's stacks hold 10000 entries, so texts of up to 9998
  tokens are decided; longer ones may end with result 2. The bitmap of an extent is stored for the
  first extent only without damage, so the theorems on allocation take files of up to 32704 pages.

  \<^bold>\<open>Not modelled.\<close> Boot and trap assembly other than the context switch; the kernel's user test
  program; scanner buffers that refill from a file, which the program never uses; the
  execution engine of \<open>MiniSQL\<close>; the printers of syntax trees and B+ trees; vendored code and tests.
\<close>

end
